(* ===== verification/Prelude.thy ===== *)
theory Prelude
  imports Main "HOL-Library.AList" "HOL-Library.Word"
begin

text \<open>
  Vocabulary shared by every component of the development.

  \<^item> A JavaScript \<^verbatim>\<open>Map\<close> whose iteration order the code relies on is an
    association list with distinct keys: \<open>AList.update\<close> overwrites in place or appends at the
    end, exactly as \<^verbatim>\<open>Map.prototype.set\<close> does, and \<open>AList.delete\<close> is
    \<^verbatim>\<open>Map.prototype.delete\<close>.  A map that is only looked up is a HOL partial function.
  \<^item> A JavaScript string is the list of its 16-bit code units (\<open>js_string\<close>); text the
    code only builds from literals and compares for equality is a HOL \<open>string\<close>.
  \<^item> Time stamps, counters and sizes are integers: the code only stores safe integers in them.
  \<^item> Reading the clock is an explicit argument of the operation that reads it.
\<close>

section \<open>Rule collections\<close>

named_theorems jsmap_simps \<open>rewrite rules for insertion-ordered maps\<close>

section \<open>Insertion-ordered maps\<close>

type_synonym ('k, 'v) jsmap = "('k \<times> 'v) list"

abbreviation jsmap_get :: "('k, 'v) jsmap \<Rightarrow> 'k \<Rightarrow> 'v option" where
  "jsmap_get m k \<equiv> map_of m k"

abbreviation jsmap_set :: "'k \<Rightarrow> 'v \<Rightarrow> ('k, 'v) jsmap \<Rightarrow> ('k, 'v) jsmap" where
  "jsmap_set k v m \<equiv> AList.update k v m"

abbreviation jsmap_delete :: "'k \<Rightarrow> ('k, 'v) jsmap \<Rightarrow> ('k, 'v) jsmap" where
  "jsmap_delete k m \<equiv> AList.delete k m"

abbreviation jsmap_ok :: "('k, 'v) jsmap \<Rightarrow> bool" where
  "jsmap_ok m \<equiv> distinct (map fst m)"

lemma jsmap_ok_set [simp, intro]: "jsmap_ok m \<Longrightarrow> jsmap_ok (jsmap_set k v m)"
  by (rule distinct_update)

lemma jsmap_ok_delete [simp, intro]: "jsmap_ok m \<Longrightarrow> jsmap_ok (jsmap_delete k m)"
  by (rule distinct_delete)

lemma jsmap_get_set [simp, jsmap_simps]:
  "jsmap_get (jsmap_set k v m) k' = (if k' = k then Some v else jsmap_get m k')"
  by (simp add: update_conv)

lemma jsmap_get_delete [simp, jsmap_simps]:
  "jsmap_get (jsmap_delete k m) k' = (if k' = k then None else jsmap_get m k')"
  by (simp add: delete_conv')

lemma jsmap_set_fresh [jsmap_simps]:
  "jsmap_get m k = None \<Longrightarrow> jsmap_set k v m = m @ [(k, v)]"
  by (induction m) (auto split: if_splits)

lemma jsmap_length_set:
  "length (jsmap_set k v m) = (if jsmap_get m k = None then Suc (length m) else length m)"
  by (induction m) auto

lemma jsmap_delete_absent [jsmap_simps]:
  "jsmap_get m k = None \<Longrightarrow> jsmap_delete k m = m"
  by (simp add: delete_id map_of_eq_None_iff)

lemma jsmap_length_delete:
  "jsmap_ok m \<Longrightarrow>
    length (jsmap_delete k m) = (if jsmap_get m k = None then length m else length m - 1)"
proof (induction m)
  case Nil
  show ?case by simp
next
  case (Cons p m)
  then show ?case
    by (cases p, cases m) (auto simp: jsmap_delete_absent map_of_eq_None_iff image_iff split: if_splits)
qed

lemma set_jsmap_delete: "set (jsmap_delete k m) \<subseteq> set m"
  by (induction m) auto

text \<open>The number of entries whose value has the given feature.\<close>

definition count_with :: "('a \<Rightarrow> 'b) \<Rightarrow> ('k, 'a) jsmap \<Rightarrow> 'b \<Rightarrow> int" where
  "count_with f m x = int (length (filter (\<lambda>(k, a). f a = x) m))"

lemma count_with_Nil [simp]: "count_with f [] x = 0"
  by (simp add: count_with_def)

lemma count_with_Cons [simp]: "count_with f ((k, a) # m) x = (if f a = x then 1 else 0) + count_with f m x"
  by (simp add: count_with_def)

lemma count_with_delete:
  "jsmap_ok m \<Longrightarrow> jsmap_get m k = Some a \<Longrightarrow>
    count_with f (jsmap_delete k m) x = count_with f m x - (if f a = x then 1 else 0)"
  by (induction m) (auto simp: jsmap_delete_absent map_of_eq_None_iff rev_image_eqI split: if_splits)

lemma count_with_append: "count_with f (m @ [(k, a)]) x = count_with f m x + (if f a = x then 1 else 0)"
  by (simp add: count_with_def)

section \<open>JavaScript strings\<close>

type_synonym js_string = "16 word list"

definition ascii :: "string \<Rightarrow> js_string" where
  "ascii s = map (\<lambda>c. word_of_nat (of_char c)) s"

section \<open>Numbers as text\<close>

fun digits_fuel :: "nat \<Rightarrow> nat \<Rightarrow> string" where
  "digits_fuel 0 n = []"
| "digits_fuel (Suc k) n =
     (if n < 10 then [char_of (48 + n)] else digits_fuel k (n div 10) @ [char_of (48 + n mod 10)])"

definition show_nat :: "nat \<Rightarrow> string" where
  "show_nat n = digits_fuel (Suc n) n"

definition show_int :: "int \<Rightarrow> string" where
  "show_int i = (if i < 0 then ''-'' @ show_nat (nat (- i)) else show_nat (nat i))"

section \<open>Sets in insertion order\<close>

text \<open>\<^verbatim>\<open>Set.prototype.add\<close> on a set kept in insertion order.\<close>

definition set_add :: "'a \<Rightarrow> 'a list \<Rightarrow> 'a list" where
  "set_add x xs = (if x \<in> set xs then xs else xs @ [x])"

lemma set_set_add [simp]: "set (set_add x xs) = insert x (set xs)"
  by (auto simp: set_add_def)

lemma distinct_set_add [simp]: "distinct (set_add x xs) = distinct xs"
  by (auto simp: set_add_def)

lemma fold_set_add [simp]:
  "set (fold set_add ys xs) = set xs \<union> set ys" "distinct (fold set_add ys xs) = distinct xs"
  by (induction ys arbitrary: xs) auto

lemma fold_set_add_distinct: "distinct (xs @ ys) \<Longrightarrow> fold set_add ys xs = xs @ ys"
  by (induction ys arbitrary: xs) (auto simp: set_add_def)


section \<open>Runs of a machine with an invariant\<close>

text \<open>
  A component's operations seen as events: \<open>guard\<close> is the caller's obligation for an event,
  \<open>step\<close> the effect.  Each component interprets the locale on its own operations, and every
  sequence of calls then keeps the component's invariant.
\<close>

fun run_ok :: "('s \<Rightarrow> 'e \<Rightarrow> bool) \<Rightarrow> ('s \<Rightarrow> 'e \<Rightarrow> 's) \<Rightarrow> 's \<Rightarrow> 'e list \<Rightarrow> bool" where
  "run_ok guard step s [] = True"
| "run_ok guard step s (e # es) = (guard s e \<and> run_ok guard step (step s e) es)"

lemma run_ok_unguarded [simp]: "run_ok (\<lambda>_ _. True) step s es"
  by (induction es arbitrary: s) auto

lemma restrict_map_univ [simp]: "m |` UNIV = m"
  by (rule ext) simp

locale invariant_machine =
  fixes inv :: "'s \<Rightarrow> bool"
    and guard :: "'s \<Rightarrow> 'e \<Rightarrow> bool"
    and step :: "'s \<Rightarrow> 'e \<Rightarrow> 's"
  assumes step_inv: "inv s \<Longrightarrow> guard s e \<Longrightarrow> inv (step s e)"
begin

lemma run_inv: "inv s \<Longrightarrow> run_ok guard step s es \<Longrightarrow> inv (foldl step s es)"
  by (induction es arbitrary: s) (auto intro: step_inv)

lemma run_prefix_inv:
  "inv s \<Longrightarrow> run_ok guard step s (es @ fs) \<Longrightarrow> inv (foldl step s es)"
  by (induction es arbitrary: s) (auto intro: step_inv)

end

end
