(* ===== verification/Byte_Admission.thy ===== *)
theory Byte_Admission
  imports Prelude
begin

text \<open>
  \<^verbatim>\<open>apps/api/src/common/media-byte-admission.ts\<close>: the gate that bounds the bytes of
  media held in memory.  A promise of \<^verbatim>\<open>acquire\<close> is an index into
  \<open>gate_promises\<close> (\<open>None\<close> while it is pending), a permit an index into
  \<open>gate_permits\<close>.  Timers and abort signals are events that call the waiter's
  \<^verbatim>\<open>fail\<close> closure; the operations that read the clock take the readings as
  arguments, \<^verbatim>\<open>drain\<close> as a function of the number of the reading.
\<close>

section \<open>State\<close>

datatype admission_failure = Failure_Deadline | Failure_Aborted | Failure_Queue_Full | Failure_Stopping

datatype media_error = Range_Error | Admission_Error admission_failure

record media_waiter =
  waiter_promise :: nat
  waiter_bytes :: int
  waiter_deadline :: int
  waiter_timer :: int

record media_permit =
  permit_bytes :: int
  permit_released :: bool

datatype settlement = Resolved nat | Rejected media_error

record byte_gate =
  gate_budget :: int
  gate_max_waiters :: int
  gate_reserved :: int
  gate_active :: int
  gate_peak_reserved :: int
  gate_peak_waiting :: int
  gate_stopping :: bool
  gate_waiters :: "media_waiter list"
  gate_permits :: "media_permit list"
  gate_promises :: "settlement option list"

definition safe_integer :: "int \<Rightarrow> bool" where
  "safe_integer n \<longleftrightarrow> - (2 ^ 53 - 1) \<le> n \<and> n \<le> 2 ^ 53 - 1"

definition new_gate :: "int \<Rightarrow> int \<Rightarrow> media_error + byte_gate" where
  "new_gate budget max_waiters =
     (if \<not> safe_integer budget \<or> budget < 1 then Inl Range_Error
      else if \<not> safe_integer max_waiters \<or> max_waiters < 0 then Inl Range_Error
      else Inr \<lparr>gate_budget = budget, gate_max_waiters = max_waiters, gate_reserved = 0,
                gate_active = 0, gate_peak_reserved = 0, gate_peak_waiting = 0,
                gate_stopping = False, gate_waiters = [], gate_permits = [],
                gate_promises = []\<rparr>)"

section \<open>Operations\<close>

definition settle :: "nat \<Rightarrow> settlement \<Rightarrow> byte_gate \<Rightarrow> byte_gate" where
  "settle p s g = g\<lparr>gate_promises := (gate_promises g)[p := Some s]\<rparr>"

definition assert_reservation :: "int \<Rightarrow> byte_gate \<Rightarrow> bool" where
  "assert_reservation b g \<longleftrightarrow> \<not> (\<not> safe_integer b \<or> b < 1 \<or> b > gate_budget g)"

definition grant :: "int \<Rightarrow> byte_gate \<Rightarrow> byte_gate \<times> nat" where
  "grant b g =
     (let reserved = gate_reserved g + b
      in (g\<lparr>gate_reserved := reserved, gate_active := gate_active g + 1,
            gate_peak_reserved := max (gate_peak_reserved g) reserved,
            gate_permits := gate_permits g @ [\<lparr>permit_bytes = b, permit_released = False\<rparr>]\<rparr>,
          length (gate_permits g)))"

definition try_acquire :: "int \<Rightarrow> byte_gate \<Rightarrow> media_error + (byte_gate \<times> nat option)" where
  "try_acquire b g =
     (if \<not> assert_reservation b g then Inl Range_Error
      else if gate_stopping g \<or> length (gate_waiters g) > 0 \<or> b > gate_budget g - gate_reserved g
      then Inr (g, None)
      else (let (g', p) = grant b g in Inr (g', Some p)))"

text \<open>
  \<^verbatim>\<open>acquire\<close> throws, or returns a promise: the new last element of
  \<open>gate_promises\<close>.  \<open>now\<close> and \<open>timer_now\<close> are its two readings of the clock.
\<close>

definition new_promise :: "settlement option \<Rightarrow> byte_gate \<Rightarrow> byte_gate" where
  "new_promise s g = g\<lparr>gate_promises := gate_promises g @ [s]\<rparr>"

definition enqueue_waiter :: "int \<Rightarrow> int \<Rightarrow> int \<Rightarrow> byte_gate \<Rightarrow> byte_gate" where
  "enqueue_waiter b deadline timer_now g =
     (let w = \<lparr>waiter_promise = length (gate_promises g), waiter_bytes = b,
               waiter_deadline = deadline,
               waiter_timer = min (deadline - timer_now) 2147483647\<rparr>;
          ws = gate_waiters g @ [w]
      in new_promise None
           (g\<lparr>gate_waiters := ws, gate_peak_waiting := max (gate_peak_waiting g) (int (length ws))\<rparr>))"

definition acquire ::
  "int \<Rightarrow> int \<Rightarrow> bool \<Rightarrow> int \<Rightarrow> int \<Rightarrow> byte_gate \<Rightarrow> media_error + byte_gate" where
  "acquire b deadline aborted now timer_now g =
     (if \<not> assert_reservation b g then Inl Range_Error
      else if \<not> safe_integer deadline then Inl Range_Error
      else if gate_stopping g then
        Inr (new_promise (Some (Rejected (Admission_Error Failure_Stopping))) g)
      else if aborted then
        Inr (new_promise (Some (Rejected (Admission_Error Failure_Aborted))) g)
      else if deadline \<le> now then
        Inr (new_promise (Some (Rejected (Admission_Error Failure_Deadline))) g)
      else
        (case try_acquire b g of
           Inl e \<Rightarrow> Inl e
         | Inr (g', Some p) \<Rightarrow> Inr (new_promise (Some (Resolved p)) g')
         | Inr (g', None) \<Rightarrow>
             if int (length (gate_waiters g')) \<ge> gate_max_waiters g' then
               Inr (new_promise (Some (Rejected (Admission_Error Failure_Queue_Full))) g')
             else Inr (enqueue_waiter b deadline timer_now g')))"

text \<open>\<open>clock n\<close> is the reading of the \<open>n\<close>th turn of the loop of \<^verbatim>\<open>drain\<close>.\<close>

function drain_loop :: "(nat \<Rightarrow> int) \<Rightarrow> nat \<Rightarrow> byte_gate \<Rightarrow> byte_gate" where
  "drain_loop clock n g =
     (if \<not> gate_stopping g \<and> length (gate_waiters g) > 0 then
        (let w = hd (gate_waiters g);
             g' = g\<lparr>gate_waiters := tl (gate_waiters g)\<rparr>
         in if waiter_deadline w \<le> clock n then
              drain_loop clock (Suc n)
                (settle (waiter_promise w) (Rejected (Admission_Error Failure_Deadline)) g')
            else if waiter_bytes w > gate_budget g - gate_reserved g then g
            else
              (let (g2, p) = grant (waiter_bytes w) g'
               in drain_loop clock (Suc n) (settle (waiter_promise w) (Resolved p) g2)))
      else g)"
  by pat_completeness auto
termination
  by (relation "measure (\<lambda>(clock, n, g). length (gate_waiters g))")
     (auto simp: settle_def grant_def Let_def)

declare drain_loop.simps [simp del]

definition drain :: "(nat \<Rightarrow> int) \<Rightarrow> byte_gate \<Rightarrow> byte_gate" where
  "drain clock g = drain_loop clock 0 g"

text \<open>The closure \<^verbatim>\<open>fail\<close> of the waiter of promise \<open>p\<close>.\<close>

definition fail_waiter ::
  "nat \<Rightarrow> admission_failure \<Rightarrow> (nat \<Rightarrow> int) \<Rightarrow> byte_gate \<Rightarrow> byte_gate" where
  "fail_waiter p reason clock g =
     (if p \<notin> waiter_promise ` set (gate_waiters g) then g
      else drain clock
        (settle p (Rejected (Admission_Error reason))
          (g\<lparr>gate_waiters := filter (\<lambda>w. waiter_promise w \<noteq> p) (gate_waiters g)\<rparr>)))"

definition release :: "nat \<Rightarrow> (nat \<Rightarrow> int) \<Rightarrow> byte_gate \<Rightarrow> byte_gate" where
  "release i clock g =
     (if length (gate_permits g) \<le> i \<or> permit_released (gate_permits g ! i) then g
      else
        (let permit = gate_permits g ! i
         in drain clock
              (g\<lparr>gate_permits := (gate_permits g)[i := permit\<lparr>permit_released := True\<rparr>],
                 gate_reserved := gate_reserved g - permit_bytes permit,
                 gate_active := gate_active g - 1\<rparr>)))"

definition close_gate :: "byte_gate \<Rightarrow> byte_gate" where
  "close_gate g =
     fold (\<lambda>w. settle (waiter_promise w) (Rejected (Admission_Error Failure_Stopping)))
       (gate_waiters g) (g\<lparr>gate_stopping := True, gate_waiters := []\<rparr>)"

record gate_snapshot =
  snap_budget :: int
  snap_reserved :: int
  snap_active :: int
  snap_waiting :: int
  snap_peak_reserved :: int
  snap_peak_waiting :: int
  snap_stopping :: bool

definition get_snapshot :: "byte_gate \<Rightarrow> gate_snapshot" where
  "get_snapshot g =
     \<lparr>snap_budget = gate_budget g, snap_reserved = gate_reserved g, snap_active = gate_active g,
      snap_waiting = int (length (gate_waiters g)), snap_peak_reserved = gate_peak_reserved g,
      snap_peak_waiting = gate_peak_waiting g, snap_stopping = gate_stopping g\<rparr>"

text \<open>The calls a gate can receive; a throwing call leaves the gate as it was.\<close>

datatype gate_event =
    Ev_Try int
  | Ev_Acquire int int bool int int
  | Ev_Fail nat admission_failure "nat \<Rightarrow> int"
  | Ev_Release nat "nat \<Rightarrow> int"
  | Ev_Close

fun gate_step :: "byte_gate \<Rightarrow> gate_event \<Rightarrow> byte_gate" where
  "gate_step g (Ev_Try b) = (case try_acquire b g of Inl _ \<Rightarrow> g | Inr (g', _) \<Rightarrow> g')"
| "gate_step g (Ev_Acquire b deadline aborted now timer_now) =
     (case acquire b deadline aborted now timer_now g of Inl _ \<Rightarrow> g | Inr g' \<Rightarrow> g')"
| "gate_step g (Ev_Fail p reason clock) = fail_waiter p reason clock g"
| "gate_step g (Ev_Release i clock) = release i clock g"
| "gate_step g Ev_Close = close_gate g"

section \<open>The invariant\<close>

definition live_permits :: "byte_gate \<Rightarrow> media_permit list" where
  "live_permits g = filter (\<lambda>p. \<not> permit_released p) (gate_permits g)"

definition accounting_ok :: "byte_gate \<Rightarrow> bool" where
  "accounting_ok g \<longleftrightarrow>
     gate_reserved g = sum_list (map permit_bytes (live_permits g)) \<and>
     gate_active g = int (length (live_permits g)) \<and>
     (\<forall>p \<in> set (gate_permits g). 1 \<le> permit_bytes p) \<and>
     gate_reserved g \<le> gate_budget g \<and>
     gate_reserved g \<le> gate_peak_reserved g \<and> gate_peak_reserved g \<le> gate_budget g"

definition queue_ok :: "byte_gate \<Rightarrow> bool" where
  "queue_ok g \<longleftrightarrow>
     int (length (gate_waiters g)) \<le> gate_peak_waiting g \<and>
     gate_peak_waiting g \<le> gate_max_waiters g \<and>
     (\<forall>w \<in> set (gate_waiters g). 1 \<le> waiter_bytes w \<and> waiter_bytes w \<le> gate_budget g) \<and>
     (gate_stopping g \<longrightarrow> gate_waiters g = [])"

text \<open>The waiters are exactly the pending promises, in the order of their calls.\<close>

definition pending :: "settlement option list \<Rightarrow> nat list" where
  "pending ps = filter (\<lambda>p. ps ! p = None) [0..<length ps]"

definition promises_ok :: "byte_gate \<Rightarrow> bool" where
  "promises_ok g \<longleftrightarrow>
     map waiter_promise (gate_waiters g) = pending (gate_promises g)"

text \<open>No promise is granted past one that is still pending.\<close>

definition fifo_ok :: "byte_gate \<Rightarrow> bool" where
  "fifo_ok g \<longleftrightarrow>
     (\<forall>p q i. p < q \<and> q < length (gate_promises g) \<and> gate_promises g ! q = Some (Resolved i)
        \<longrightarrow> gate_promises g ! p \<noteq> None)"

definition head_blocked :: "byte_gate \<Rightarrow> bool" where
  "head_blocked g \<longleftrightarrow>
     (case gate_waiters g of
        [] \<Rightarrow> True
      | w # _ \<Rightarrow> waiter_bytes w > gate_budget g - gate_reserved g)"

definition gate_core :: "byte_gate \<Rightarrow> bool" where
  "gate_core g \<longleftrightarrow> accounting_ok g \<and> queue_ok g \<and> promises_ok g \<and> fifo_ok g"

definition gate_ok :: "byte_gate \<Rightarrow> bool" where
  "gate_ok g \<longleftrightarrow> gate_core g \<and> head_blocked g"

subsection \<open>Pending promises\<close>

lemma settled_nth: "ps[p := Some s] ! q = None \<longleftrightarrow> ps ! q = None \<and> (q = p \<longrightarrow> length ps \<le> p)"
  by (cases "q = p"; cases "p < length ps") (auto simp: list_update_beyond)

lemma pending_settle: "pending (ps[p := Some s]) = filter (\<lambda>q. q \<noteq> p) (pending ps)"
  by (auto simp: pending_def settled_nth intro!: filter_cong)

lemma pending_append:
  "pending (ps @ [s]) = pending ps @ (if s = None then [length ps] else [])"
  by (auto simp: pending_def nth_append intro!: filter_cong)

lemma pending_Nil [simp]: "pending [] = []"
  by (simp add: pending_def)

lemma pending_distinct: "distinct (pending ps)"
  by (simp add: pending_def)

lemma pending_sorted: "sorted_wrt (<) (pending ps)"
  by (simp add: pending_def sorted_wrt_filter)

lemma pending_head_least:
  assumes "pending ps = p # rest" "q < p"
  shows "ps ! q \<noteq> None"
proof
  assume none: "ps ! q = None"
  have "p \<in> set (pending ps)" unfolding assms(1) by simp
  then have "q \<in> set (pending ps)" using none assms(2) by (auto simp: pending_def)
  then have "q \<in> set rest" using assms by auto
  moreover have "sorted_wrt (<) (p # rest)" using pending_sorted [of ps] assms(1) by simp
  ultimately show False using assms(2) by auto
qed

lemma pending_head_settled:
  assumes "pending ps = p # rest"
  shows "pending (ps[p := Some s]) = rest"
proof -
  have "p \<notin> set rest" using pending_distinct [of ps] assms by simp
  then show ?thesis unfolding pending_settle assms by (auto simp: filter_id_conv)
qed

lemma set_pending: "set (pending ps) = {p. p < length ps \<and> ps ! p = None}"
  by (auto simp: pending_def)

subsection \<open>Permits\<close>

lemma live_permits_release:
  assumes "i < length ps" "\<not> permit_released (ps ! i)"
  defines "ps' \<equiv> ps[i := (ps ! i)\<lparr>permit_released := True\<rparr>]"
  shows "sum_list (map permit_bytes (filter (\<lambda>p. \<not> permit_released p) ps')) =
      sum_list (map permit_bytes (filter (\<lambda>p. \<not> permit_released p) ps)) - permit_bytes (ps ! i)"
    and "length (filter (\<lambda>p. \<not> permit_released p) ps) =
      Suc (length (filter (\<lambda>p. \<not> permit_released p) ps'))"
proof -
  have ps: "ps = take i ps @ ps ! i # drop (Suc i) ps"
    using assms by (simp add: id_take_nth_drop)
  have ps': "ps' = take i ps @ (ps ! i)\<lparr>permit_released := True\<rparr> # drop (Suc i) ps"
    using assms by (simp add: upd_conv_take_nth_drop)
  show "sum_list (map permit_bytes (filter (\<lambda>p. \<not> permit_released p) ps')) =
      sum_list (map permit_bytes (filter (\<lambda>p. \<not> permit_released p) ps)) - permit_bytes (ps ! i)"
    by (subst ps', subst (2) ps) (simp add: assms(2))
  show "length (filter (\<lambda>p. \<not> permit_released p) ps) =
      Suc (length (filter (\<lambda>p. \<not> permit_released p) ps'))"
    by (subst ps', subst ps) (simp add: assms(2))
qed

lemma accounting_grant:
  assumes "accounting_ok g" "1 \<le> b" "b \<le> gate_budget g - gate_reserved g"
    and "grant b g = (g', p)"
  shows "accounting_ok g'" and "p = length (gate_permits g)"
    and "gate_budget g' = gate_budget g" "gate_max_waiters g' = gate_max_waiters g"
    "gate_peak_waiting g' = gate_peak_waiting g" "gate_stopping g' = gate_stopping g"
    "gate_waiters g' = gate_waiters g" "gate_promises g' = gate_promises g"
  using assms by (auto simp: grant_def Let_def accounting_ok_def live_permits_def)

lemma accounting_queue_independent:
  "accounting_ok (g\<lparr>gate_waiters := ws\<rparr>) = accounting_ok g"
  "accounting_ok (g\<lparr>gate_promises := ps\<rparr>) = accounting_ok g"
  "accounting_ok (g\<lparr>gate_peak_waiting := n\<rparr>) = accounting_ok g"
  "accounting_ok (g\<lparr>gate_stopping := st\<rparr>) = accounting_ok g"
  by (simp_all add: accounting_ok_def live_permits_def)

lemma accounting_settle [simp]: "accounting_ok (settle p s g) = accounting_ok g"
  by (simp add: settle_def accounting_queue_independent)

lemma settle_fields [simp]:
  "gate_waiters (settle p s g) = gate_waiters g" "gate_stopping (settle p s g) = gate_stopping g"
  "gate_budget (settle p s g) = gate_budget g" "gate_reserved (settle p s g) = gate_reserved g"
  "gate_max_waiters (settle p s g) = gate_max_waiters g"
  "gate_peak_waiting (settle p s g) = gate_peak_waiting g"
  "gate_permits (settle p s g) = gate_permits g"
  "gate_promises (settle p s g) = (gate_promises g)[p := Some s]"
  by (simp_all add: settle_def)

subsection \<open>Serving the head of the queue\<close>

lemma fifo_okD:
  "fifo_ok g \<Longrightarrow> p < q \<Longrightarrow> q < length (gate_promises g) \<Longrightarrow>
   gate_promises g ! q = Some (Resolved i) \<Longrightarrow> gate_promises g ! p \<noteq> None"
  unfolding fifo_ok_def by blast

lemma fifo_ok_append:
  assumes "fifo_ok g" and "\<And>i q. s = Some (Resolved i) \<Longrightarrow> q < length (gate_promises g) \<Longrightarrow>
    gate_promises g ! q \<noteq> None"
  shows "fifo_ok (g\<lparr>gate_promises := gate_promises g @ [s]\<rparr>)"
proof -
  have "(gate_promises g @ [s]) ! p \<noteq> None"
    if "p < q" "q < length (gate_promises g @ [s])" "(gate_promises g @ [s]) ! q = Some (Resolved i)"
    for p q i
    using that fifo_okD [OF assms(1), of p q i] assms(2) [of i p]
    by (cases "q = length (gate_promises g)") (simp_all add: nth_append)
  then show ?thesis unfolding fifo_ok_def by auto
qed

lemma fifo_settle:
  assumes "fifo_ok g" and "\<And>i. s = Resolved i \<Longrightarrow> \<forall>q < p. gate_promises g ! q \<noteq> None"
  shows "fifo_ok (settle p s g)"
  unfolding fifo_ok_def
proof (intro allI impI, elim conjE)
  fix q r i
  assume qr: "q < r" "r < length (gate_promises (settle p s g))"
    "gate_promises (settle p s g) ! r = Some (Resolved i)"
  show "gate_promises (settle p s g) ! q \<noteq> None"
  proof (cases "r = p")
    case True
    then have "gate_promises g ! q \<noteq> None" using qr assms(2) [of i] by auto
    then show ?thesis by (simp add: settled_nth)
  next
    case False
    then have "gate_promises g ! q \<noteq> None" using qr assms(1) by (auto simp: fifo_ok_def)
    then show ?thesis by (simp add: settled_nth)
  qed
qed

lemma core_settle_head:
  assumes core: "gate_core g" and ws: "gate_waiters g = w # ws"
    and acc: "accounting_ok g'"
    and same: "gate_waiters g' = ws" "gate_budget g' = gate_budget g"
      "gate_max_waiters g' = gate_max_waiters g" "gate_peak_waiting g' = gate_peak_waiting g"
      "gate_stopping g' = gate_stopping g" "gate_promises g' = gate_promises g"
  shows "gate_core (settle (waiter_promise w) s g')"
proof -
  have pend: "pending (gate_promises g) = waiter_promise w # map waiter_promise ws"
    using core ws by (simp add: gate_core_def promises_ok_def)
  have "fifo_ok (settle (waiter_promise w) s g')"
    by (rule fifo_settle)
       (use core same pending_head_least [OF pend] in \<open>auto simp: gate_core_def fifo_ok_def\<close>)
  moreover have "promises_ok (settle (waiter_promise w) s g')"
    using pending_head_settled [OF pend, of s] same by (simp add: promises_ok_def)
  moreover have "queue_ok (settle (waiter_promise w) s g')"
    using core ws same by (auto simp: gate_core_def queue_ok_def)
  ultimately show ?thesis using acc by (simp add: gate_core_def)
qed

lemma drain_loop_ok:
  "gate_core g \<Longrightarrow> gate_ok (drain_loop clock n g)"
proof (induction clock n g rule: drain_loop.induct)
  case (1 clock n g)
  show ?case
  proof (cases "\<not> gate_stopping g \<and> length (gate_waiters g) > 0")
    case False
    then have "gate_waiters g = []" using "1.prems" by (auto simp: gate_core_def queue_ok_def)
    then show ?thesis
      using False "1.prems" by (simp add: drain_loop.simps gate_ok_def head_blocked_def)
  next
    case True
    then obtain w ws where ws: "gate_waiters g = w # ws" by (cases "gate_waiters g") auto
    let ?g = "g\<lparr>gate_waiters := ws\<rparr>"
    have acc: "accounting_ok ?g"
      using "1.prems" by (simp add: gate_core_def accounting_queue_independent)
    consider (late) "waiter_deadline w \<le> clock n"
      | (blocked) "\<not> waiter_deadline w \<le> clock n" "waiter_bytes w > gate_budget g - gate_reserved g"
      | (served) "\<not> waiter_deadline w \<le> clock n" "\<not> waiter_bytes w > gate_budget g - gate_reserved g"
      by blast
    then show ?thesis
    proof cases
      case late
      have "gate_core (settle (waiter_promise w) (Rejected (Admission_Error Failure_Deadline)) ?g)"
        by (rule core_settle_head [OF "1.prems" ws acc]) simp_all
      then show ?thesis
        using "1.IH"(1) [OF True refl refl] late ws True
        by (subst drain_loop.simps) (simp add: Let_def)
    next
      case blocked
      then have "drain_loop clock n g = g"
        using ws True by (subst drain_loop.simps) (simp add: Let_def)
      then show ?thesis using blocked ws "1.prems" by (simp add: gate_ok_def head_blocked_def)
    next
      case served
      obtain g2 p where gr: "grant (waiter_bytes w) ?g = (g2, p)" by fastforce
      have b: "1 \<le> waiter_bytes w" using "1.prems" ws by (simp add: gate_core_def queue_ok_def)
      note granted = accounting_grant [OF acc b _ gr]
      have "gate_core (settle (waiter_promise w) (Resolved p) g2)"
        by (rule core_settle_head [OF "1.prems" ws]) (use granted served in simp_all)
      then show ?thesis
        using "1.IH"(2) [OF True refl refl] served gr ws True
        by (subst drain_loop.simps) (simp add: Let_def)
    qed
  qed
qed

section \<open>Every operation keeps the invariant\<close>

lemma new_gate_ok: "new_gate budget max_waiters = Inr g \<Longrightarrow> gate_ok g"
  by (auto simp: new_gate_def gate_ok_def gate_core_def accounting_ok_def live_permits_def
      queue_ok_def promises_ok_def fifo_ok_def head_blocked_def split: if_splits)

lemma try_acquire_ok:
  assumes "gate_ok g" "try_acquire b g = Inr (g', r)"
  shows "gate_ok g'" and "gate_promises g' = gate_promises g" and "gate_waiters g' = gate_waiters g"
    and "r = None \<Longrightarrow> g' = g \<and> (gate_waiters g \<noteq> [] \<or> gate_stopping g \<or> b > gate_budget g - gate_reserved g)"
    and "r = Some p \<Longrightarrow> gate_waiters g = []"
    and "assert_reservation b g"
    and "gate_stopping g' = gate_stopping g" "gate_budget g' = gate_budget g"
proof -
  have "gate_ok g' \<and> gate_promises g' = gate_promises g \<and> gate_waiters g' = gate_waiters g \<and>
    (r = None \<longrightarrow> g' = g \<and>
      (gate_waiters g \<noteq> [] \<or> gate_stopping g \<or> b > gate_budget g - gate_reserved g)) \<and>
    (r = Some p \<longrightarrow> gate_waiters g = []) \<and> assert_reservation b g \<and>
    gate_stopping g' = gate_stopping g \<and> gate_budget g' = gate_budget g"
  proof (cases "gate_stopping g \<or> length (gate_waiters g) > 0 \<or> b > gate_budget g - gate_reserved g")
    case True
    then show ?thesis using assms by (auto simp: try_acquire_def split: if_splits)
  next
    case False
    then obtain q where gr: "grant b g = (g', q)" and r: "r = Some q" and a: "assert_reservation b g"
      using assms by (auto simp: try_acquire_def split: if_splits prod.splits)
    note granted = accounting_grant [OF _ _ _ gr]
    show ?thesis
      using assms(1) granted False r a
      by (auto simp: gate_ok_def gate_core_def queue_ok_def promises_ok_def fifo_ok_def
          head_blocked_def assert_reservation_def)
  qed
  then show "gate_ok g'" "gate_promises g' = gate_promises g" "gate_waiters g' = gate_waiters g"
    "r = None \<Longrightarrow> g' = g \<and>
      (gate_waiters g \<noteq> [] \<or> gate_stopping g \<or> b > gate_budget g - gate_reserved g)"
    "r = Some p \<Longrightarrow> gate_waiters g = []" "assert_reservation b g"
    "gate_stopping g' = gate_stopping g" "gate_budget g' = gate_budget g"
    by auto
qed

lemma new_promise_ok:
  assumes "gate_ok g" and "\<And>i. s = Resolved i \<Longrightarrow> gate_waiters g = []"
  shows "gate_ok (new_promise (Some s) g)"
proof -
  have none: "gate_promises g ! q \<noteq> None" if "gate_waiters g = []" "q < length (gate_promises g)" for q
  proof -
    have "pending (gate_promises g) = []"
      using that assms(1) by (simp add: gate_ok_def gate_core_def promises_ok_def)
    then show ?thesis using that set_pending [of "gate_promises g"] by auto
  qed
  have "fifo_ok g" using assms(1) by (simp add: gate_ok_def gate_core_def)
  then have "fifo_ok (new_promise (Some s) g)"
    unfolding new_promise_def by (rule fifo_ok_append) (use assms(2) none in auto)
  then show ?thesis
    using assms(1)
    by (cases "gate_waiters g")
      (simp_all add: gate_ok_def gate_core_def new_promise_def accounting_queue_independent
        queue_ok_def promises_ok_def pending_append head_blocked_def)
qed

lemma enqueue_waiter_ok:
  assumes "gate_ok g" "assert_reservation b g" "\<not> gate_stopping g"
    and full: "int (length (gate_waiters g)) < gate_max_waiters g"
    and blocked: "gate_waiters g \<noteq> [] \<or> b > gate_budget g - gate_reserved g"
  shows "gate_ok (enqueue_waiter b deadline timer_now g)"
proof -
  let ?g = "enqueue_waiter b deadline timer_now g"
  have "fifo_ok ?g"
    using assms(1) fifo_ok_append [of g None]
    by (simp add: gate_ok_def gate_core_def fifo_ok_def enqueue_waiter_def new_promise_def Let_def)
  moreover have "promises_ok ?g"
    using assms(1)
    by (simp add: gate_ok_def gate_core_def promises_ok_def enqueue_waiter_def new_promise_def
        Let_def pending_append)
  moreover have "queue_ok ?g"
    using assms(1-4)
    by (auto simp: gate_ok_def gate_core_def queue_ok_def enqueue_waiter_def new_promise_def
        Let_def assert_reservation_def)
  moreover have "head_blocked ?g"
    using assms(1) blocked
    by (cases "gate_waiters g")
      (auto simp: gate_ok_def head_blocked_def enqueue_waiter_def new_promise_def Let_def)
  moreover have "accounting_ok ?g"
    using assms(1)
    by (simp add: gate_ok_def gate_core_def enqueue_waiter_def new_promise_def Let_def
        accounting_ok_def live_permits_def)
  ultimately show ?thesis by (simp add: gate_ok_def gate_core_def)
qed

lemma acquire_ok:
  assumes "gate_ok g" "acquire b deadline aborted now timer_now g = Inr g'"
  shows "gate_ok g'"
proof (cases "gate_stopping g \<or> aborted \<or> deadline \<le> now \<or> \<not> safe_integer deadline \<or>
    \<not> assert_reservation b g")
  case True
  then show ?thesis
    using assms by (auto simp: acquire_def intro!: new_promise_ok split: if_splits)
next
  case False
  then obtain g1 r where t: "try_acquire b g = Inr (g1, r)"
    by (cases "try_acquire b g") (auto simp: try_acquire_def split: if_splits prod.splits)
  note tr = try_acquire_ok [OF assms(1) t]
  show ?thesis
  proof (cases r)
    case (Some p)
    then have "g' = new_promise (Some (Resolved p)) g1"
      using assms(2) False t by (auto simp: acquire_def)
    then show ?thesis using new_promise_ok [OF tr(1)] tr(3) tr(5) [OF Some] by simp
  next
    case None
    then have g1: "g1 = g" and blocked: "gate_waiters g \<noteq> [] \<or> b > gate_budget g - gate_reserved g"
      using tr(4) False by auto
    have "g' = (if int (length (gate_waiters g)) \<ge> gate_max_waiters g
        then new_promise (Some (Rejected (Admission_Error Failure_Queue_Full))) g
        else enqueue_waiter b deadline timer_now g)"
      using assms(2) False t None g1 by (auto simp: acquire_def)
    then show ?thesis
      using new_promise_ok [OF assms(1)] enqueue_waiter_ok [OF assms(1)] False blocked
      by (auto simp: not_le)
  qed
qed

lemma drain_ok: "gate_core g \<Longrightarrow> gate_ok (drain clock g)"
  by (simp add: drain_def drain_loop_ok)

lemma core_settle_any:
  assumes core: "gate_core g"
  shows "gate_core (settle p (Rejected e)
    (g\<lparr>gate_waiters := filter (\<lambda>w. waiter_promise w \<noteq> p) (gate_waiters g)\<rparr>))"
proof -
  let ?keep = "filter (\<lambda>w. waiter_promise w \<noteq> p) (gate_waiters g)"
  let ?g = "settle p (Rejected e) (g\<lparr>gate_waiters := ?keep\<rparr>)"
  have "map waiter_promise ?keep = filter (\<lambda>q. q \<noteq> p) (map waiter_promise (gate_waiters g))"
    by (simp add: filter_map comp_def)
  then have "promises_ok ?g"
    using core by (simp add: gate_core_def promises_ok_def pending_settle del: filter_filter)
  moreover have "fifo_ok ?g"
    by (rule fifo_settle) (use core in \<open>auto simp: gate_core_def fifo_ok_def\<close>)
  moreover have "queue_ok ?g"
    using core order_trans [OF of_nat_mono [OF length_filter_le]]
    by (auto simp: gate_core_def queue_ok_def)
  ultimately show ?thesis
    using core by (simp add: gate_core_def accounting_queue_independent)
qed

lemma gate_ok_core: "gate_ok g \<Longrightarrow> gate_core g"
  by (simp add: gate_ok_def)

lemma fail_waiter_ok: "gate_ok g \<Longrightarrow> gate_ok (fail_waiter p reason clock g)"
  by (simp add: fail_waiter_def drain_ok core_settle_any gate_ok_core)

definition give_back :: "nat \<Rightarrow> byte_gate \<Rightarrow> byte_gate" where
  "give_back i g =
     g\<lparr>gate_permits := (gate_permits g)[i := (gate_permits g ! i)\<lparr>permit_released := True\<rparr>],
       gate_reserved := gate_reserved g - permit_bytes (gate_permits g ! i),
       gate_active := gate_active g - 1\<rparr>"

lemma release_give_back:
  "release i clock g =
     (if length (gate_permits g) \<le> i \<or> permit_released (gate_permits g ! i) then g
      else drain clock (give_back i g))"
  by (simp add: release_def give_back_def Let_def)

lemma core_give_back:
  assumes core: "gate_core g"
    and False: "\<not> (length (gate_permits g) \<le> i \<or> permit_released (gate_permits g ! i))"
  shows "gate_core (give_back i g)"
proof -
  let ?p = "gate_permits g ! i"
  let ?g = "give_back i g"
  note give_back_def [simp]
  have b: "1 \<le> permit_bytes ?p"
    using core False by (simp add: gate_core_def accounting_ok_def)
  have "1 \<le> permit_bytes p" if "p \<in> set (gate_permits ?g)" for p
  proof -
    have "p = ?p\<lparr>permit_released := True\<rparr> \<or> p \<in> set (gate_permits g)"
      using that set_update_subset_insert by fastforce
    then show ?thesis using core b by (auto simp: gate_core_def accounting_ok_def)
  qed
  moreover have "gate_reserved g \<le> gate_budget g" "gate_reserved g \<le> gate_peak_reserved g"
    using core by (simp_all add: gate_core_def accounting_ok_def)
  then have "gate_reserved g - permit_bytes ?p \<le> gate_budget g"
    "gate_reserved g - permit_bytes ?p \<le> gate_peak_reserved g"
    using b by linarith+
  ultimately have "accounting_ok ?g"
    using core live_permits_release [of i "gate_permits g"] False
    by (auto simp: gate_core_def accounting_ok_def live_permits_def)
  then show ?thesis
    using core by (simp add: gate_core_def queue_ok_def promises_ok_def fifo_ok_def)
qed

lemma release_ok: "gate_ok g \<Longrightarrow> gate_ok (release i clock g)"
  by (simp add: release_give_back drain_ok core_give_back gate_ok_core)

lemma close_loop:
  "fold (\<lambda>w. settle (waiter_promise w) s) ws g =
    g\<lparr>gate_promises := fold (\<lambda>w ps. ps[waiter_promise w := Some s]) ws (gate_promises g)\<rparr>"
  by (induction ws arbitrary: g) (simp_all add: settle_def)

lemma close_promises:
  "length (fold (\<lambda>w ps. ps[waiter_promise w := Some s]) ws ps) = length ps"
  "q < length ps \<Longrightarrow> fold (\<lambda>w ps. ps[waiter_promise w := Some s]) ws ps ! q =
     (if q \<in> waiter_promise ` set ws then Some s else ps ! q)"
  by (induction ws arbitrary: ps) (auto simp: nth_list_update)

lemma close_gate_ok:
  assumes "gate_ok g"
  shows "gate_ok (close_gate g)"
proof -
  let ?s = "Rejected (Admission_Error Failure_Stopping)"
  let ?ps = "fold (\<lambda>w ps. ps[waiter_promise w := Some ?s]) (gate_waiters g) (gate_promises g)"
  have eq: "close_gate g = g\<lparr>gate_stopping := True, gate_waiters := [], gate_promises := ?ps\<rparr>"
    by (simp add: close_gate_def close_loop)
  have core: "gate_core g" using assms by (simp add: gate_ok_def)
  have pend: "waiter_promise ` set (gate_waiters g) = set (pending (gate_promises g))"
    using core unfolding gate_core_def promises_ok_def by (metis list.set_map)
  have none: "?ps ! q \<noteq> None" if "q < length (gate_promises g)" for q
    using that pend by (auto simp: close_promises set_pending)
  have "promises_ok (close_gate g)"
    using none by (auto simp: eq promises_ok_def close_promises(1) pending_def filter_empty_conv)
  moreover have "fifo_ok (close_gate g)"
    using none by (auto simp: eq fifo_ok_def close_promises(1))
  ultimately show ?thesis
    using core
    by (simp add: gate_ok_def gate_core_def eq accounting_queue_independent queue_ok_def
        head_blocked_def)
qed

lemma gate_step_ok: "gate_ok g \<Longrightarrow> gate_ok (gate_step g e)"
  by (cases e)
    (auto simp: fail_waiter_ok release_ok close_gate_ok split: sum.splits
      intro: try_acquire_ok(1) acquire_ok)

subsection \<open>Limits never change\<close>

definition same_limits :: "byte_gate \<Rightarrow> byte_gate \<Rightarrow> bool" where
  "same_limits g g' \<longleftrightarrow> gate_budget g' = gate_budget g \<and> gate_max_waiters g' = gate_max_waiters g"

lemma drain_loop_limits: "same_limits g (drain_loop clock n g)"
proof (induction clock n g rule: drain_loop.induct)
  case (1 clock n g)
  then show ?case
    by (subst drain_loop.simps)
      (auto simp: same_limits_def Let_def grant_def split: prod.splits)
qed

lemma gate_step_limits: "same_limits g (gate_step g e)"
  using drain_loop_limits
  by (cases e)
    (auto simp: same_limits_def try_acquire_def acquire_def new_promise_def enqueue_waiter_def
      fail_waiter_def release_def close_gate_def close_loop drain_def grant_def Let_def
      split: sum.splits prod.splits option.splits if_splits)

subsection \<open>A settled promise stays settled\<close>

definition settled_kept :: "byte_gate \<Rightarrow> byte_gate \<Rightarrow> bool" where
  "settled_kept g g' \<longleftrightarrow>
     (\<forall>p s. p < length (gate_promises g) \<and> gate_promises g ! p = Some s \<longrightarrow>
        p < length (gate_promises g') \<and> gate_promises g' ! p = Some s)"

lemma settled_kept_trans: "settled_kept g g' \<Longrightarrow> settled_kept g' g'' \<Longrightarrow> settled_kept g g''"
  unfolding settled_kept_def by blast

lemma settled_kept_same: "gate_promises g' = gate_promises g @ ps \<Longrightarrow> settled_kept g g'"
  by (auto simp: settled_kept_def nth_append)

lemma settled_kept_settle:
  "gate_promises g ! p = None \<Longrightarrow> gate_promises g' = gate_promises g \<Longrightarrow> settled_kept g (settle p s g')"
  unfolding settled_kept_def by (auto, metis nth_list_update_neq option.distinct(1))

lemma waiting_pending:
  "gate_core g \<Longrightarrow> w \<in> set (gate_waiters g) \<Longrightarrow> gate_promises g ! waiter_promise w = None"
  unfolding gate_core_def promises_ok_def
  by (metis (mono_tags, lifting) imageI list.set_map mem_Collect_eq set_pending)

lemma drain_loop_settled: "gate_core g \<Longrightarrow> settled_kept g (drain_loop clock n g)"
proof (induction clock n g rule: drain_loop.induct)
  case (1 clock n g)
  show ?case
  proof (cases "\<not> gate_stopping g \<and> length (gate_waiters g) > 0")
    case False
    then have "drain_loop clock n g = g" by (subst drain_loop.simps) auto
    then show ?thesis by (simp add: settled_kept_same)
  next
    case True
    then obtain w ws where ws: "gate_waiters g = w # ws" by (cases "gate_waiters g") auto
    let ?g = "g\<lparr>gate_waiters := ws\<rparr>"
    let ?late = "settle (waiter_promise w) (Rejected (Admission_Error Failure_Deadline)) ?g"
    have acc: "accounting_ok ?g"
      using "1.prems" by (simp add: gate_core_def accounting_queue_independent)
    have none: "gate_promises g ! waiter_promise w = None"
      using waiting_pending [OF "1.prems"] ws by simp
    obtain g2 p where gr: "grant (waiter_bytes w) ?g = (g2, p)" by fastforce
    let ?served = "settle (waiter_promise w) (Resolved p) g2"
    consider (late) "waiter_deadline w \<le> clock n"
      | (blocked) "\<not> waiter_deadline w \<le> clock n" "waiter_bytes w > gate_budget g - gate_reserved g"
      | (served) "\<not> waiter_deadline w \<le> clock n" "\<not> waiter_bytes w > gate_budget g - gate_reserved g"
      by blast
    then show ?thesis
    proof cases
      case late
      have "gate_core ?late" by (rule core_settle_head [OF "1.prems" ws acc]) simp_all
      then have "settled_kept ?late (drain_loop clock n g)"
        using "1.IH"(1) [OF True refl refl] late ws True
        by (subst drain_loop.simps) (simp add: Let_def)
      moreover have "settled_kept g ?late" by (rule settled_kept_settle [OF none]) simp
      ultimately show ?thesis using settled_kept_trans by blast
    next
      case blocked
      then have "drain_loop clock n g = g"
        using ws True by (subst drain_loop.simps) (simp add: Let_def)
      then show ?thesis by (simp add: settled_kept_same)
    next
      case served
      have b: "1 \<le> waiter_bytes w" using "1.prems" ws by (simp add: gate_core_def queue_ok_def)
      note granted = accounting_grant [OF acc b _ gr]
      have "gate_core ?served"
        by (rule core_settle_head [OF "1.prems" ws]) (use granted served in simp_all)
      then have "settled_kept ?served (drain_loop clock n g)"
        using "1.IH"(2) [OF True refl refl] served gr ws True
        by (subst drain_loop.simps) (simp add: Let_def)
      moreover have "settled_kept g ?served"
        by (rule settled_kept_settle [OF none]) (use granted served in simp)
      ultimately show ?thesis using settled_kept_trans by blast
    qed
  qed
qed

lemma acquire_settled: "acquire b d a now tnow g = Inr g' \<Longrightarrow> settled_kept g g'"
  by (auto simp: acquire_def try_acquire_def new_promise_def enqueue_waiter_def grant_def Let_def
      intro: settled_kept_same split: if_splits prod.splits option.splits)

lemma fail_waiter_settled:
  assumes "gate_core g"
  shows "settled_kept g (fail_waiter p reason clock g)"
proof (cases "p \<in> waiter_promise ` set (gate_waiters g)")
  case False
  then show ?thesis by (simp add: fail_waiter_def settled_kept_same)
next
  case True
  then have none: "gate_promises g ! p = None" using waiting_pending [OF assms] by auto
  let ?g = "settle p (Rejected (Admission_Error reason))
    (g\<lparr>gate_waiters := filter (\<lambda>w. waiter_promise w \<noteq> p) (gate_waiters g)\<rparr>)"
  have "settled_kept g ?g" by (rule settled_kept_settle [OF none]) simp
  moreover have "settled_kept ?g (drain_loop clock 0 ?g)"
    by (rule drain_loop_settled) (rule core_settle_any [OF assms])
  ultimately have "settled_kept g (drain_loop clock 0 ?g)" by (rule settled_kept_trans)
  then show ?thesis using True by (simp add: fail_waiter_def drain_def)
qed

lemma release_settled:
  assumes "gate_core g"
  shows "settled_kept g (release i clock g)"
proof (cases "length (gate_permits g) \<le> i \<or> permit_released (gate_permits g ! i)")
  case True
  then show ?thesis by (simp add: release_give_back settled_kept_same)
next
  case False
  have "settled_kept g (give_back i g)"
    by (rule settled_kept_same [where ps = "[]"]) (simp add: give_back_def)
  moreover have "settled_kept (give_back i g) (drain_loop clock 0 (give_back i g))"
    by (rule drain_loop_settled) (rule core_give_back [OF assms False])
  ultimately have "settled_kept g (drain_loop clock 0 (give_back i g))" by (rule settled_kept_trans)
  then show ?thesis using False by (simp add: release_give_back drain_def)
qed

lemma close_settled: "gate_core g \<Longrightarrow> settled_kept g (close_gate g)"
  using waiting_pending [of g]
  by (auto simp: settled_kept_def close_gate_def close_loop close_promises)

lemma gate_step_settled: "gate_ok g \<Longrightarrow> settled_kept g (gate_step g e)"
  by (cases e)
    (auto simp: gate_ok_core fail_waiter_settled release_settled close_settled settled_kept_same
      try_acquire_ok(2) split: sum.splits intro: acquire_settled)

interpretation gate_machine: invariant_machine gate_ok "\<lambda>_ _. True" gate_step
  by unfold_locales (rule gate_step_ok)

lemma gate_run_ok:
  "new_gate budget max_waiters = Inr g \<Longrightarrow> gate_ok (foldl gate_step g es)"
  by (rule gate_machine.run_inv [OF new_gate_ok]) simp_all

lemma gate_run_limits: "same_limits g (foldl gate_step g es)"
  by (induction es arbitrary: g)
    (auto simp: same_limits_def, (metis gate_step_limits same_limits_def)+)

lemma gate_run_settled:
  "gate_ok g \<Longrightarrow> settled_kept g (foldl gate_step g es)"
  by (induction es arbitrary: g)
    (auto simp: settled_kept_same intro: settled_kept_trans gate_step_settled gate_step_ok)

subsection \<open>After closing\<close>

lemma stopped_step:
  assumes "gate_ok g" "gate_stopping g"
  shows "gate_stopping (gate_step g e) \<and> length (gate_permits (gate_step g e)) = length (gate_permits g)"
proof -
  have ws: "gate_waiters g = []"
    using assms by (simp add: gate_ok_def gate_core_def queue_ok_def)
  have "drain_loop clock n (give_back i g) = give_back i g" for clock n i
    by (subst drain_loop.simps) (simp add: give_back_def ws)
  then show ?thesis
    using assms(2) ws
    by (cases e)
      (auto simp: try_acquire_def acquire_def new_promise_def fail_waiter_def release_give_back
        drain_def give_back_def close_gate_def close_loop split: sum.splits if_splits)
qed

lemma stopped_run:
  "gate_ok g \<Longrightarrow> gate_stopping g \<Longrightarrow>
   gate_stopping (foldl gate_step g es) \<and>
   length (gate_permits (foldl gate_step g es)) = length (gate_permits g)"
  by (induction es arbitrary: g) (auto simp: stopped_step gate_step_ok)

lemma stopped_settled:
  "gate_ok g \<Longrightarrow> gate_stopping g \<Longrightarrow> None \<notin> set (gate_promises g)"
  using set_pending [of "gate_promises g"]
  by (auto simp: gate_ok_def gate_core_def queue_ok_def promises_ok_def in_set_conv_nth)

section \<open>Properties\<close>

text \<open>
  C7: A gate built with a budget and a waiter limit never reserves more bytes than its budget: after
  every sequence of \<^verbatim>\<open>tryAcquire\<close>, \<^verbatim>\<open>acquire\<close>,
  \<^verbatim>\<open>release\<close>, \<^verbatim>\<open>close\<close> calls, timer expirations and
  aborts, \<^verbatim>\<open>reservedBytes\<close> is the sum of the permits not yet released, between 0 and
  the budget, \<^verbatim>\<open>active\<close> counts these permits, and the number of waiters is within
  its limit.
\<close>

theorem media_gate_within_budget:
  assumes "new_gate budget max_waiters = Inr g0"
  defines "run \<equiv> foldl gate_step g0"
  shows "gate_reserved (run es) = sum_list (map permit_bytes (live_permits (run es))) \<and>
    gate_active (run es) = int (length (live_permits (run es))) \<and>
    0 \<le> gate_reserved (run es) \<and> gate_reserved (run es) \<le> budget \<and>
    int (length (gate_waiters (run es))) \<le> max_waiters"
proof -
  have ok: "gate_core (run es)"
    using gate_run_ok [OF assms(1)] by (simp add: run_def gate_ok_core)
  have lim: "gate_budget (run es) = budget" "gate_max_waiters (run es) = max_waiters"
    using gate_run_limits [of g0 es] assms by (auto simp: same_limits_def new_gate_def split: if_splits)
  have "0 \<le> sum_list (map permit_bytes (live_permits (run es)))"
    by (rule sum_list_nonneg)
      (use ok in \<open>force simp: gate_core_def accounting_ok_def live_permits_def\<close>)
  then show ?thesis
    using ok lim by (auto simp: gate_core_def accounting_ok_def queue_ok_def)
qed

theorem media_gate_within_budget_witness:
  "gate_reserved (foldl gate_step \<lparr>gate_budget = 10, gate_max_waiters = 2, gate_reserved = 0,
      gate_active = 0, gate_peak_reserved = 0, gate_peak_waiting = 0, gate_stopping = False,
      gate_waiters = [], gate_permits = [], gate_promises = []\<rparr>
      [Ev_Try 4, Ev_Acquire 7 9 False 0 0, Ev_Release 0 (\<lambda>_. 1)]) \<le> 10"
  using media_gate_within_budget [of 10 2 _ "[Ev_Try 4, Ev_Acquire 7 9 False 0 0, Ev_Release 0 (\<lambda>_. 1)]"]
  by (simp add: new_gate_def safe_integer_def)

text \<open>
  Admission is first come, first served and never idle: in every reachable state the waiters are
  exactly the pending promises in the order of their calls, no promise has been granted while an
  earlier one is still pending, and the first waiter really does not fit in the free bytes.
\<close>

theorem media_gate_fifo_no_stall:
  assumes "new_gate budget max_waiters = Inr g0"
  defines "run \<equiv> foldl gate_step g0"
  shows "map waiter_promise (gate_waiters (run es)) = pending (gate_promises (run es)) \<and>
    fifo_ok (run es) \<and> head_blocked (run es)"
  using gate_run_ok [OF assms(1), of es]
  by (simp add: run_def gate_ok_def gate_core_def promises_ok_def)

theorem media_gate_fifo_no_stall_witness:
  "head_blocked (foldl gate_step \<lparr>gate_budget = 10, gate_max_waiters = 2, gate_reserved = 0,
      gate_active = 0, gate_peak_reserved = 0, gate_peak_waiting = 0, gate_stopping = False,
      gate_waiters = [], gate_permits = [], gate_promises = []\<rparr>
      [Ev_Try 4, Ev_Acquire 7 9 False 0 0])"
  using media_gate_fifo_no_stall [of 10 2 _ "[Ev_Try 4, Ev_Acquire 7 9 False 0 0]"]
  by (simp add: new_gate_def safe_integer_def)

text \<open>
  A promise of \<^verbatim>\<open>acquire\<close> settles once: whatever happens later, its outcome
  stays.  After \<^verbatim>\<open>close\<close> no promise is ever left pending and no permit is granted
  any more.
\<close>

theorem media_gate_settles_once:
  assumes "new_gate budget max_waiters = Inr g0"
  defines "run \<equiv> foldl gate_step g0"
  shows "settled_kept (run es) (run (es @ fs)) \<and>
    None \<notin> set (gate_promises (run (es @ Ev_Close # fs))) \<and>
    length (gate_permits (run (es @ Ev_Close # fs))) = length (gate_permits (run es))"
proof -
  have ok: "gate_ok (run es)" for es using gate_run_ok [OF assms(1)] by (simp add: run_def)
  let ?c = "gate_step (run es) Ev_Close"
  have c: "gate_ok ?c" "gate_stopping ?c" "length (gate_permits ?c) = length (gate_permits (run es))"
    by (rule gate_step_ok [OF ok]) (simp_all add: close_gate_def close_loop)
  have run: "run (es @ Ev_Close # fs) = foldl gate_step ?c fs" "run (es @ fs) = foldl gate_step (run es) fs"
    by (simp_all add: run_def)
  show ?thesis
    using stopped_run [OF c(1,2), of fs] c(3) stopped_settled [OF ok [of "es @ Ev_Close # fs"]]
      gate_run_settled [OF ok] unfolding run by simp
qed

theorem media_gate_settles_once_witness:
  "None \<notin> set (gate_promises (foldl gate_step \<lparr>gate_budget = 10, gate_max_waiters = 2,
      gate_reserved = 0, gate_active = 0, gate_peak_reserved = 0, gate_peak_waiting = 0,
      gate_stopping = False, gate_waiters = [], gate_permits = [], gate_promises = []\<rparr>
      [Ev_Try 4, Ev_Acquire 7 9 False 0 0, Ev_Close, Ev_Acquire 1 9 False 0 0]))"
  using media_gate_settles_once [of 10 2 _ "[Ev_Try 4, Ev_Acquire 7 9 False 0 0]" "[Ev_Acquire 1 9 False 0 0]"]
  by (simp add: new_gate_def safe_integer_def)

end
