(* ===== verification/Commercial_Model.thy ===== *)
theory Commercial_Model
  imports Prelude Complex_Main
begin

text \<open>
  The data of the commercial-advertisement engine under
  \<^verbatim>\<open>apps/api/src/moderation/commercial/\<close>: the types of \<^verbatim>\<open>commercial.types.ts\<close>,
  the constants of \<^verbatim>\<open>commercial-config.ts\<close> the decision uses, and string helpers.

  \<^item> A signal is the UTF-8 encoding of the JavaScript string; equality, \<^verbatim>\<open>startsWith\<close>
    and cutting off an ASCII prefix are the same on the encodings.
  \<^item> The score that the signals add up to is a rational number; the detector rounds it before it
    reaches the policy, so every other score is an integer, and so are thresholds: the settings store
    whole numbers.
\<close>

section \<open>Strings\<close>

definition starts_with :: "string \<Rightarrow> string \<Rightarrow> bool" where
  "starts_with s p \<longleftrightarrow> take (length p) s = p"

definition utf8 :: "nat list \<Rightarrow> string" where
  "utf8 bs = map char_of bs"

definition unique :: "'a list \<Rightarrow> 'a list" where
  "unique xs = fold set_add xs []"

lemma set_unique [simp]: "set (unique xs) = set xs" and distinct_unique [simp]: "distinct (unique xs)"
  by (simp_all add: unique_def)

lemma unique_distinct: "distinct xs \<Longrightarrow> unique xs = xs"
  using fold_set_add_distinct [of "[]" xs] by (simp add: unique_def)

lemma unique_Nil_iff: "unique xs = [] \<longleftrightarrow> xs = []"
  by (metis list.set_intros(1) list.set(1) neq_Nil_conv set_unique emptyE)

section \<open>Types\<close>

datatype commercial_subtype =
    CHANNEL_PLACEMENT | PROPERTY_AGENT | PROPERTY_COMMERCIAL | RECRUITMENT | INFO_PRODUCT | BUYOUT
  | SERVICES | GOODS_RETAIL | GOODS | GROUP_PROMOTION | GENERIC

datatype taxonomy_class = TRUE_AD | HARD_NEGATIVE | GRAY

datatype required_anchor =
    Commercial_Intent | Service_Specialty | Retail_Structure | Channel_Audience | Property_Agency
  | Commercial_Property | Recruitment_Anchor | Info_Product | Buyout_Anchor | High_Risk
  | Deal_Evidence | Contact_Evidence | Price_Structure | Cta | Mass_Distribution

datatype decision_band = LOW | MEDIUM | HIGH

datatype action_band = ALLOW | REVIEW_ONLY | WARN | DELETE | DELETE_AND_ESCALATE

datatype message_disposition = KEEP | REMOVE

datatype evidence_tier = TIER_NONE | BORDERLINE | STRUCTURED | CAMPAIGN | DIRECT | HIGH_RISK

datatype legacy_strength = Legacy_Borderline | Legacy_Structured | Legacy_Campaign | Legacy_Direct

datatype review_priority =
  PRIORITY_NONE | PRIORITY_LOW | PRIORITY_MEDIUM | PRIORITY_HIGH | PRIORITY_URGENT

datatype campaign_strength = STRENGTH_NONE | STRENGTH_WEAK | STRENGTH_STANDARD | STRENGTH_STRONG

datatype safe_context =
    Rules_Or_Moderation_Context | Spam_Complaint_Or_Fraud_Warning | News_Or_Analytics
  | Brand_Mention_Only | Private_One_Off_Sale | Ordinary_Recruitment | Public_Training_Or_Help
  | Request_Or_Recommendation | No_Safe_Context

record signal_state =
  st_score :: rat
  matchedSignals :: "string list"
  negativeSignals :: "string list"
  hasIntent :: bool
  hasServiceOfferContext :: bool
  hasServiceSpecialtyContext :: bool
  hasPrice :: bool
  hasContact :: bool
  hasPhoneContact :: bool
  hasDealChannel :: bool
  hasTransactional :: bool
  hasDealSignal :: bool
  hasPromoContext :: bool
  hasBusinessContext :: bool
  hasBuyoutContext :: bool
  hasRecruitmentContext :: bool
  hasInfoProductContext :: bool
  hasGroupPromotionIntent :: bool
  hasGroupPromoContext :: bool
  hasCommercialAudienceContext :: bool
  hasChannelPlacementContext :: bool
  hasSearchRequestContext :: bool
  hasJobSeekingContext :: bool
  hasServiceContext :: bool
  hasCallToActionContext :: bool
  hasCommercialContext :: bool
  hasCampaignContext :: bool
  hasPrivateSaleContext :: bool
  hasPropertyPrivateContext :: bool
  hasPropertyAgentContext :: bool
  hasCommercialPropertyContext :: bool
  hasGoodsRetailContext :: bool
  hasPrivateGoodsItemContext :: bool
  hasStrongNegativeContext :: bool

record classification =
  primarySubtype :: commercial_subtype
  supportingSubtypes :: "commercial_subtype list"
  evidenceStrength :: legacy_strength
  reviewRecommended :: bool
  reviewReasons :: "string list"

record subtype_policy =
  policy_subtype :: commercial_subtype
  policy_taxonomyClass :: taxonomy_class
  policy_requiredAnchors :: "required_anchor list"
  policy_deleteAllowedEvidence :: "evidence_tier list"
  policy_ambiguousActionBands :: "action_band list"

record feature_vector =
  commercialIntent :: nat
  dealEvidence :: nat
  contactEvidence :: nat
  businessContext :: nat
  massDistribution :: nat
  priceStructure :: nat
  cta :: nat
  negativePrivateContext :: nat
  questionContext :: nat
  highRisk :: nat

record policy_decision =
  dec_actionBand :: action_band
  dec_messageDisposition :: message_disposition
  dec_actionScore :: int
  dec_reviewPriority :: review_priority
  dec_actionable :: bool
  dec_recordable :: bool
  dec_deleteSuppressed :: bool
  dec_suppressionReasons :: "string list"

record threshold_profile =
  warnThreshold :: int
  deleteThreshold :: int
  strict_sensitivity :: bool
  strictness :: rat

text \<open>\<^verbatim>\<open>undefined\<close> counters of the campaign context are \<open>None\<close>.\<close>

record campaign_context =
  senderDistinctChatCount :: int
  sameTextDistinctChatCount :: int
  repeatedPhoneDistinctChatCount :: int
  repeatedLinkDistinctChatCount :: int
  nearTextDistinctChatCount :: "int option"
  repeatedDomainDistinctChatCount :: "int option"
  repeatedHandleDistinctChatCount :: "int option"
  senderDistinctChatCount5m :: "int option"
  senderDistinctChatCount30m :: "int option"
  senderDistinctChatCount120m :: "int option"

section \<open>Constants of the engine\<close>

record score_adjustments =
  adj_directDeal :: int
  adj_highRisk :: int
  adj_escalationRisk :: int
  adj_weakCampaign :: int
  adj_standardCampaign :: int
  adj_strongCampaign :: int
  adj_reviewRecommended :: int
  adj_missingAnchor :: int
  adj_highFpRisk :: int
  adj_safeContext :: int

definition highFpRiskThreshold :: int where "highFpRiskThreshold = 70"

definition hardDeleteScoreThreshold :: int where "hardDeleteScoreThreshold = 65"

definition scoreAdjustments :: score_adjustments where
  "scoreAdjustments =
     \<lparr>adj_directDeal = 4, adj_highRisk = 6, adj_escalationRisk = 10, adj_weakCampaign = 0,
      adj_standardCampaign = 2, adj_strongCampaign = 4, adj_reviewRecommended = 6,
      adj_missingAnchor = 18, adj_highFpRisk = 22, adj_safeContext = 16\<rparr>"

fun fpRisk_evidenceStrength :: "legacy_strength \<Rightarrow> int" where
  "fpRisk_evidenceStrength Legacy_Borderline = 30"
| "fpRisk_evidenceStrength Legacy_Campaign = 12"
| "fpRisk_evidenceStrength Legacy_Structured = 0"
| "fpRisk_evidenceStrength Legacy_Direct = 0"

record fp_risk_config =
  fp_reviewRecommended :: int
  fp_genericSubtype :: int
  fp_privateSignal :: int
  fp_questionSignal :: int
  fp_defaultNegativeSignal :: int
  fp_min :: int
  fp_max :: int

definition fpRiskConfig :: fp_risk_config where
  "fpRiskConfig =
     \<lparr>fp_reviewRecommended = 20, fp_genericSubtype = 10, fp_privateSignal = 22,
      fp_questionSignal = 18, fp_defaultNegativeSignal = 8, fp_min = 0, fp_max = 100\<rparr>"

record strength_limits =
  lim_sameText :: int
  lim_repeatedPhone :: int
  lim_repeatedLink :: int
  lim_sender :: int

definition strong_limits :: strength_limits where
  "strong_limits =
     \<lparr>lim_sameText = 3, lim_repeatedPhone = 3, lim_repeatedLink = 3, lim_sender = 5\<rparr>"

definition standard_limits :: strength_limits where
  "standard_limits =
     \<lparr>lim_sameText = 2, lim_repeatedPhone = 2, lim_repeatedLink = 2, lim_sender = 3\<rparr>"

record campaign_evidence_config =
  cev_repeatedContactChats :: int
  cev_repeatedTextChats :: int
  cev_senderVelocity5mChats :: int

definition campaignEvidence :: campaign_evidence_config where
  "campaignEvidence =
     \<lparr>cev_repeatedContactChats = 2, cev_repeatedTextChats = 3, cev_senderVelocity5mChats = 3\<rparr>"

record subtype_scores =
  sub_CHANNEL_PLACEMENT :: int
  sub_PROPERTY_AGENT :: int
  sub_PROPERTY_COMMERCIAL :: int
  sub_RECRUITMENT :: int
  sub_BUYOUT :: int
  sub_INFO_PRODUCT :: int
  sub_SERVICES :: int
  sub_SERVICES_WEAK :: int
  sub_GOODS_RETAIL :: int
  sub_GOODS_RETAIL_WITH_SERVICE :: int
  sub_GROUP_PROMOTION :: int
  sub_GROUP_PROMOTION_WEAK :: int
  sub_GOODS :: int
  sub_GENERIC :: int
  sub_supportingWindow :: int
  sub_maxSupportingSubtypes :: nat

definition subtypeScores :: subtype_scores where
  "subtypeScores =
     \<lparr>sub_CHANNEL_PLACEMENT = 100, sub_PROPERTY_AGENT = 100, sub_PROPERTY_COMMERCIAL = 96,
      sub_RECRUITMENT = 95, sub_BUYOUT = 92, sub_INFO_PRODUCT = 88, sub_SERVICES = 84,
      sub_SERVICES_WEAK = 74, sub_GOODS_RETAIL = 86, sub_GOODS_RETAIL_WITH_SERVICE = 76,
      sub_GROUP_PROMOTION = 82, sub_GROUP_PROMOTION_WEAK = 72, sub_GOODS = 68, sub_GENERIC = 30,
      sub_supportingWindow = 24, sub_maxSupportingSubtypes = 3\<rparr>"

definition nearWarnWindow :: int where "nearWarnWindow = 6"

section \<open>Campaign strength\<close>

definition meets_limits :: "strength_limits \<Rightarrow> campaign_context \<Rightarrow> bool" where
  "meets_limits l c \<longleftrightarrow>
     sameTextDistinctChatCount c \<ge> lim_sameText l \<or>
     repeatedPhoneDistinctChatCount c \<ge> lim_repeatedPhone l \<or>
     repeatedLinkDistinctChatCount c \<ge> lim_repeatedLink l \<or>
     senderDistinctChatCount c \<ge> lim_sender l"

definition resolveCommercialCampaignStrength :: "campaign_context option \<Rightarrow> campaign_strength" where
  "resolveCommercialCampaignStrength context =
     (case context of
        None \<Rightarrow> STRENGTH_NONE
      | Some c \<Rightarrow>
          if meets_limits strong_limits c then STRENGTH_STRONG
          else if meets_limits standard_limits c then STRENGTH_STANDARD
          else STRENGTH_WEAK)"

end
