(* ===== verification/Commercial_Settings.thy ===== *)
theory Commercial_Settings
  imports Commercial_Model
begin

text \<open>
  \<^verbatim>\<open>packages/contracts/src/commercial-settings.ts\<close>: the thresholds a chat's settings mean, the
  sanction of the n-th violation, and the profile behind a position of the settings slider.

  \<^item> A threshold read from the settings is \<open>None\<close> where it is not a finite number, and a whole number otherwise:
    the settings store whole numbers.  A count of violations is \<open>None\<close> where it is not a whole number.
  \<^item> Fractions are rational numbers.  The slider only rounds \<open>60 - 6 * n / 24\<close> and five like terms at whole
    \<open>n\<close>; where such a term is half-way between two whole numbers the double is exact, and elsewhere it is far
    further from the half than the error of a double.
\<close>

section \<open>Thresholds\<close>

record commercial_settings =
  cs_strict :: bool
  cs_warnThreshold :: "int option"
  cs_deleteThreshold :: "int option"

definition valid_stored_profile :: "commercial_settings \<Rightarrow> bool" where
  "valid_stored_profile s \<longleftrightarrow>
     (case (cs_warnThreshold s, cs_deleteThreshold s) of
        (Some w, Some d) \<Rightarrow> w \<ge> 10 \<and> w \<le> 90 \<and> d \<ge> 20 \<and> d \<le> 100 \<and> d > w
      | _ \<Rightarrow> False)"

definition resolveCommercialSettingsThresholds :: "commercial_settings \<Rightarrow> threshold_profile" where
  "resolveCommercialSettingsThresholds s =
     (let warnBase = (case cs_warnThreshold s of Some w \<Rightarrow> w | None \<Rightarrow> 45);
          deleteBase = (case cs_deleteThreshold s of Some d \<Rightarrow> d | None \<Rightarrow> 65);
          warn = max 10 (min 90 warnBase);
          boundedDelete = max 20 (min 100 deleteBase);
          delete = (if valid_stored_profile s then boundedDelete else max (warn + 5) boundedDelete);
          thresholdStrictness = (of_int (60 - warn) / 22 + of_int (82 - delete) / 27) / 2
      in \<lparr>warnThreshold = warn, deleteThreshold = delete, strict_sensitivity = cs_strict s,
          strictness =
            max 0 (min 1 (thresholdStrictness + (if cs_strict s then 4 / 100 else - (2 / 100))))\<rparr>)"

definition stored_thresholds :: "threshold_profile \<Rightarrow> commercial_settings" where
  "stored_thresholds t =
     \<lparr>cs_strict = strict_sensitivity t, cs_warnThreshold = Some (warnThreshold t),
      cs_deleteThreshold = Some (deleteThreshold t)\<rparr>"

section \<open>Sanctions\<close>

record sanction_settings =
  ss_warnEnabled :: bool
  ss_muteEnabled :: bool
  ss_banEnabled :: bool

datatype sanction = No_Sanction | Sanction_Warn | Sanction_Mute | Sanction_Ban

definition resolveCommercialSanctionAction :: "int option \<Rightarrow> sanction_settings \<Rightarrow> sanction" where
  "resolveCommercialSanctionAction violationCount s =
     (let count = (case violationCount of Some n \<Rightarrow> max 1 n | None \<Rightarrow> 1)
      in if count \<ge> 4 then
           (if ss_banEnabled s then Sanction_Ban
            else if ss_muteEnabled s then Sanction_Mute
            else if ss_warnEnabled s then Sanction_Warn
            else No_Sanction)
         else if count = 3 then
           (if ss_muteEnabled s then Sanction_Mute
            else if ss_banEnabled s then Sanction_Ban
            else if ss_warnEnabled s then Sanction_Warn
            else No_Sanction)
         else if count = 2 \<and> ss_warnEnabled s then Sanction_Warn
         else No_Sanction)"

section \<open>The slider\<close>

text \<open>\<^verbatim>\<open>Math.round\<close>: the nearest whole number, the larger of two.\<close>

definition js_round :: "rat \<Rightarrow> int" where
  "js_round x = \<lfloor>x + 1 / 2\<rfloor>"

definition slider_position :: "rat \<Rightarrow> int" where
  "slider_position v = max 0 (min 100 (js_round v))"

definition slider_profile :: "int \<Rightarrow> commercial_settings" where
  "slider_profile safe =
     (if safe \<le> 24 then
        let progress = of_int safe / 24
        in \<lparr>cs_strict = False, cs_warnThreshold = Some (js_round (60 - 6 * progress)),
            cs_deleteThreshold = Some (js_round (82 - 8 * progress))\<rparr>
      else if safe \<le> 69 then
        let progress = of_int (safe - 25) / 44
        in \<lparr>cs_strict = False, cs_warnThreshold = Some (js_round (53 - 8 * progress)),
            cs_deleteThreshold = Some (js_round (73 - 8 * progress))\<rparr>
      else
        let progress = of_int (safe - 70) / 30
        in \<lparr>cs_strict = True, cs_warnThreshold = Some (js_round (44 - 6 * progress)),
            cs_deleteThreshold = Some (js_round (63 - 8 * progress))\<rparr>)"

definition resolveCommercialSliderProfile :: "rat \<Rightarrow> commercial_settings" where
  "resolveCommercialSliderProfile v = slider_profile (slider_position v)"

definition inferCommercialSliderPosition :: "commercial_settings \<Rightarrow> int option" where
  "inferCommercialSliderPosition s =
     find (\<lambda>position. resolveCommercialSliderProfile (of_int position) = s) [0..100]"

section \<open>Thresholds are always a usable pair\<close>

definition thresholds_ok :: "threshold_profile \<Rightarrow> bool" where
  "thresholds_ok t \<longleftrightarrow>
     10 \<le> warnThreshold t \<and> warnThreshold t \<le> 90 \<and> warnThreshold t < deleteThreshold t \<and>
     20 \<le> deleteThreshold t \<and> deleteThreshold t \<le> 100 \<and> 0 \<le> strictness t \<and> strictness t \<le> 1"

lemma resolved_fields:
  fixes s :: commercial_settings
  defines "t \<equiv> resolveCommercialSettingsThresholds s"
  defines "warn \<equiv> max 10 (min 90 (case cs_warnThreshold s of Some w \<Rightarrow> w | None \<Rightarrow> 45))"
  defines "bounded \<equiv> max 20 (min 100 (case cs_deleteThreshold s of Some d \<Rightarrow> d | None \<Rightarrow> 65))"
  shows "warnThreshold t = warn"
    and "deleteThreshold t = (if valid_stored_profile s then bounded else max (warn + 5) bounded)"
    and "\<exists>x. strictness t = max 0 (min 1 x)"
  unfolding t_def warn_def bounded_def resolveCommercialSettingsThresholds_def Let_def
    threshold_profile.simps by blast+

lemma strict_flag: "strict_sensitivity (resolveCommercialSettingsThresholds s) = cs_strict s"
  unfolding resolveCommercialSettingsThresholds_def Let_def threshold_profile.simps ..

lemma strictness_of:
  "strictness (resolveCommercialSettingsThresholds s) =
    (let t = resolveCommercialSettingsThresholds s
     in max 0 (min 1 ((of_int (60 - warnThreshold t) / 22 + of_int (82 - deleteThreshold t) / 27) / 2 +
          (if strict_sensitivity t then 4 / 100 else - (2 / 100)))))"
  unfolding resolveCommercialSettingsThresholds_def Let_def threshold_profile.simps ..

lemma valid_stored_iff:
  "valid_stored_profile s \<longleftrightarrow>
   (\<exists>w d. cs_warnThreshold s = Some w \<and> cs_deleteThreshold s = Some d \<and>
      10 \<le> w \<and> w \<le> 90 \<and> 20 \<le> d \<and> d \<le> 100 \<and> w < d)"
  by (auto simp: valid_stored_profile_def split: option.splits)

lemma resolved_valid:
  assumes "valid_stored_profile s"
  shows "Some (warnThreshold (resolveCommercialSettingsThresholds s)) = cs_warnThreshold s"
    and "Some (deleteThreshold (resolveCommercialSettingsThresholds s)) = cs_deleteThreshold s"
  using assms unfolding resolved_fields(1,2) by (auto simp: valid_stored_iff)

lemma resolved_ok: "thresholds_ok (resolveCommercialSettingsThresholds s)"
proof -
  obtain x where x: "strictness (resolveCommercialSettingsThresholds s) = max 0 (min 1 x)"
    using resolved_fields(3) by blast
  have "0 \<le> max 0 (min 1 x)" "max 0 (min 1 x) \<le> (1 :: rat)" by simp_all
  then show ?thesis
    unfolding thresholds_ok_def x resolved_fields(1,2)
    by (cases "valid_stored_profile s") (auto simp: valid_stored_iff)
qed

lemma resolved_invalid:
  "\<not> valid_stored_profile s \<Longrightarrow>
   warnThreshold (resolveCommercialSettingsThresholds s) + 5
     \<le> deleteThreshold (resolveCommercialSettingsThresholds s)"
  by (simp add: resolved_fields(1,2))

lemma resolved_stored:
  "valid_stored_profile (stored_thresholds (resolveCommercialSettingsThresholds s))"
  using resolved_ok [of s] by (simp add: valid_stored_iff stored_thresholds_def thresholds_ok_def)

section \<open>The slider only offers valid profiles, stricter to the right\<close>

lemma js_round_mono: "x \<le> y \<Longrightarrow> js_round x \<le> js_round y"
  by (simp add: js_round_def floor_mono)

lemma js_round_of_int [simp]: "js_round (of_int n) = n"
  by (simp add: js_round_def floor_eq_iff)

lemma js_round_add_of_int: "js_round (x + of_int n) = js_round x + n"
proof -
  have "x + of_int n + 1 / 2 = (x + 1 / 2) + of_int n" by simp
  then show ?thesis unfolding js_round_def by (metis floor_add_int)
qed

lemma js_round_near: "of_int (js_round x) \<le> x + 1 / 2" "x - 1 / 2 < of_int (js_round x)"
  by (simp_all add: js_round_def) linarith+

lemma position_range: "0 \<le> slider_position v" "slider_position v \<le> 100"
  by (simp_all add: slider_position_def)

lemma position_of_position [simp]: "slider_position (of_int (slider_position v)) = slider_position v"
  by (simp add: slider_position_def)

lemma position_mono: "u \<le> v \<Longrightarrow> slider_position u \<le> slider_position v"
  unfolding slider_position_def using js_round_mono [of u v] by simp

text \<open>The thresholds of the three ranges of the slider do not overlap.\<close>

lemma slider_profile_cases:
  assumes "0 \<le> p" "p \<le> 100"
  obtains (low) x where "p \<le> 24" "x = of_int p / 24"
      "slider_profile p = \<lparr>cs_strict = False, cs_warnThreshold = Some (js_round (60 - 6 * x)),
         cs_deleteThreshold = Some (js_round (82 - 8 * x))\<rparr>"
      "54 \<le> js_round (60 - 6 * x)" "js_round (60 - 6 * x) \<le> 60"
      "74 \<le> js_round (82 - 8 * x)" "js_round (82 - 8 * x) \<le> 82"
  | (middle) x where "25 \<le> p" "p \<le> 69" "x = of_int (p - 25) / 44"
      "slider_profile p = \<lparr>cs_strict = False, cs_warnThreshold = Some (js_round (53 - 8 * x)),
         cs_deleteThreshold = Some (js_round (73 - 8 * x))\<rparr>"
      "45 \<le> js_round (53 - 8 * x)" "js_round (53 - 8 * x) \<le> 53"
      "65 \<le> js_round (73 - 8 * x)" "js_round (73 - 8 * x) \<le> 73"
  | (high) x where "70 \<le> p" "x = of_int (p - 70) / 30"
      "slider_profile p = \<lparr>cs_strict = True, cs_warnThreshold = Some (js_round (44 - 6 * x)),
         cs_deleteThreshold = Some (js_round (63 - 8 * x))\<rparr>"
      "38 \<le> js_round (44 - 6 * x)" "js_round (44 - 6 * x) \<le> 44"
      "55 \<le> js_round (63 - 8 * x)" "js_round (63 - 8 * x) \<le> 63"
proof -
  have bounds: "b - a \<le> js_round (of_int b - of_int a * x) \<and> js_round (of_int b - of_int a * x) \<le> b"
    if "0 \<le> x" "x \<le> 1" "0 \<le> a" for a b :: int and x :: rat
  proof -
    have "0 \<le> of_int a * x" "of_int a * x \<le> of_int a"
      using that by (simp_all add: mult_left_le)
    then have "of_int (b - a) \<le> of_int b - of_int a * x" "of_int b - of_int a * x \<le> of_int b"
      by simp_all
    then show ?thesis by (metis js_round_mono js_round_of_int)
  qed
  have progress: "0 \<le> (of_int q :: rat) / of_int n \<and> (of_int q :: rat) / of_int n \<le> 1"
    if "0 \<le> q" "q \<le> n" "0 < n" for q n :: int
    using that by (simp add: divide_le_eq)
  consider "p \<le> 24" | "25 \<le> p" "p \<le> 69" | "70 \<le> p" by linarith
  then show ?thesis
  proof cases
    case 1
    show ?thesis
      using progress [of p 24] assms 1 bounds [of "of_int p / 24" 6 60]
        bounds [of "of_int p / 24" 8 82]
      by (intro low [of "of_int p / 24"]) (simp_all add: slider_profile_def Let_def)
  next
    case 2
    show ?thesis
      using progress [of "p - 25" 44] assms 2 bounds [of "of_int (p - 25) / 44" 8 53]
        bounds [of "of_int (p - 25) / 44" 8 73]
      by (intro middle [of "of_int (p - 25) / 44"]) (simp_all add: slider_profile_def Let_def)
  next
    case 3
    show ?thesis
      using progress [of "p - 70" 30] assms 3 bounds [of "of_int (p - 70) / 30" 6 44]
        bounds [of "of_int (p - 70) / 30" 8 63]
      by (intro high [of "of_int (p - 70) / 30"]) (simp_all add: slider_profile_def Let_def)
  qed
qed

lemma slider_profile_valid:
  assumes "0 \<le> p" "p \<le> 100"
  shows "valid_stored_profile (slider_profile p)"
  using assms by (cases rule: slider_profile_cases) (simp_all add: valid_stored_iff)

definition at_least_as_strict :: "commercial_settings \<Rightarrow> commercial_settings \<Rightarrow> bool" where
  "at_least_as_strict s s' \<longleftrightarrow>
     (cs_strict s' \<longrightarrow> cs_strict s) \<and>
     the (cs_warnThreshold s) \<le> the (cs_warnThreshold s') \<and>
     the (cs_deleteThreshold s) \<le> the (cs_deleteThreshold s')"

lemma progress_mono:
  fixes a b c :: rat
  assumes "p \<le> q" "0 \<le> a" "0 < c"
  shows "js_round (b - a * (of_int q / c)) \<le> js_round (b - a * (of_int p / c))"
proof -
  have "of_int p / c \<le> of_int q / c" using assms by (simp add: divide_right_mono)
  then have "a * (of_int p / c) \<le> a * (of_int q / c)" using assms(2) by (rule mult_left_mono)
  then show ?thesis by (intro js_round_mono) simp
qed

lemma slider_profile_mono:
  assumes "0 \<le> p" "p \<le> q" "q \<le> 100"
  shows "at_least_as_strict (slider_profile q) (slider_profile p)"
proof -
  have p: "0 \<le> p" "p \<le> 100" and q: "0 \<le> q" "q \<le> 100" using assms by simp_all
  consider "q \<le> 24" | "25 \<le> p" "q \<le> 69" | "70 \<le> p" | "p \<le> 24" "25 \<le> q" | "p \<le> 69" "70 \<le> q"
    using assms by linarith
  then show ?thesis
  proof cases
    case 1
    then have "p \<le> 24" using assms by simp
    with 1 show ?thesis
      unfolding slider_profile_def at_least_as_strict_def Let_def
      by (simp only: if_True commercial_settings.simps option.sel simp_thms)
        (intro conjI progress_mono assms(2); simp)
  next
    case 2
    then have "\<not> p \<le> 24" "\<not> q \<le> 24" "p \<le> 69" using assms by simp_all
    with 2 show ?thesis
      unfolding slider_profile_def at_least_as_strict_def Let_def
      by (simp only: if_True if_False commercial_settings.simps option.sel simp_thms)
        (intro conjI progress_mono; use assms in simp)
  next
    case 3
    then have "\<not> p \<le> 24" "\<not> q \<le> 24" "\<not> p \<le> 69" "\<not> q \<le> 69" using assms by simp_all
    then show ?thesis
      unfolding slider_profile_def at_least_as_strict_def Let_def
      by (simp only: if_True if_False commercial_settings.simps option.sel simp_thms)
        (intro conjI progress_mono; use assms in simp)
  next
    case 4
    from p show ?thesis
      by (cases rule: slider_profile_cases; use q in \<open>cases rule: slider_profile_cases\<close>)
        (use 4 in \<open>simp_all add: at_least_as_strict_def\<close>)
  next
    case 5
    from p show ?thesis
      by (cases rule: slider_profile_cases; use q in \<open>cases rule: slider_profile_cases\<close>)
        (use 5 in \<open>simp_all add: at_least_as_strict_def\<close>)
  qed
qed

section \<open>Sanctions as an ordered type\<close>

fun severity :: "sanction \<Rightarrow> nat" where
  "severity No_Sanction = 0"
| "severity Sanction_Warn = 1"
| "severity Sanction_Mute = 2"
| "severity Sanction_Ban = 3"

lemma severity_inject: "severity a = severity b \<Longrightarrow> a = b"
  by (cases a; cases b) simp_all

instantiation sanction :: linorder
begin

definition "a \<le> (b :: sanction) \<longleftrightarrow> severity a \<le> severity b"

definition "a < (b :: sanction) \<longleftrightarrow> severity a < severity b"

instance
  by intro_classes
    (auto simp: less_eq_sanction_def less_sanction_def intro: severity_inject)

end

definition sanction_enabled :: "sanction_settings \<Rightarrow> sanction \<Rightarrow> bool" where
  "sanction_enabled s a \<longleftrightarrow>
     (case a of No_Sanction \<Rightarrow> True | Sanction_Warn \<Rightarrow> ss_warnEnabled s
      | Sanction_Mute \<Rightarrow> ss_muteEnabled s | Sanction_Ban \<Rightarrow> ss_banEnabled s)"

lemma sanction_of_count:
  "resolveCommercialSanctionAction (Some n) s =
    (if n \<ge> 4 then resolveCommercialSanctionAction (Some 4) s
     else if n = 3 then resolveCommercialSanctionAction (Some 3) s
     else if n = 2 then resolveCommercialSanctionAction (Some 2) s else No_Sanction)"
  by (auto simp: resolveCommercialSanctionAction_def)

section \<open>Properties\<close>

text \<open>
  The thresholds in force are a usable pair whatever is stored: the warning threshold is in 10..90, the
  deletion threshold in 20..100 and above it, the strictness in 0..1.  A valid stored pair is taken as it is, however
  small its gap, an invalid one is repaired to a gap of at least five, and storing the thresholds in force changes
  nothing.
\<close>

theorem thresholds_usable:
  fixes s :: commercial_settings
  defines "t \<equiv> resolveCommercialSettingsThresholds s"
  shows "thresholds_ok t \<and> resolveCommercialSettingsThresholds (stored_thresholds t) = t \<and>
    (if valid_stored_profile s
     then Some (warnThreshold t) = cs_warnThreshold s \<and> Some (deleteThreshold t) = cs_deleteThreshold s
     else warnThreshold t + 5 \<le> deleteThreshold t)"
proof -
  let ?t = "resolveCommercialSettingsThresholds (stored_thresholds t)"
  have valid: "valid_stored_profile (stored_thresholds t)"
    using resolved_stored unfolding t_def .
  have same: "warnThreshold ?t = warnThreshold t" "deleteThreshold ?t = deleteThreshold t"
    using resolved_valid [OF valid] by (simp_all add: stored_thresholds_def)
  have flag: "strict_sensitivity ?t = strict_sensitivity t"
    by (simp only: strict_flag) (simp add: stored_thresholds_def)
  have "strictness ?t = strictness t"
    unfolding t_def strictness_of
    by (simp only: Let_def flag [unfolded t_def] same [unfolded t_def])
  then have "?t = t" using same flag by (intro threshold_profile.equality) simp_all
  then show ?thesis
    using resolved_ok resolved_valid resolved_invalid unfolding t_def by simp
qed

text \<open>
  C29: The slider of the settings page only offers valid pairs of thresholds, never becomes more lenient to the
  right, and the position shown for a profile it produced is one that produces the same profile, the leftmost such.
\<close>

theorem slider_round_trip:
  "valid_stored_profile (resolveCommercialSliderProfile v) \<and>
   (u \<le> v \<longrightarrow> at_least_as_strict (resolveCommercialSliderProfile v) (resolveCommercialSliderProfile u)) \<and>
   (\<exists>p. inferCommercialSliderPosition (resolveCommercialSliderProfile v) = Some p \<and>
      0 \<le> p \<and> p \<le> slider_position v \<and>
      resolveCommercialSliderProfile (of_int p) = resolveCommercialSliderProfile v)"
proof -
  let ?P = "\<lambda>position. resolveCommercialSliderProfile (of_int position) = resolveCommercialSliderProfile v"
  have here: "?P (slider_position v)" by (simp add: resolveCommercialSliderProfile_def)
  then obtain p where p: "find ?P [0..100] = Some p"
    using position_range [of v] by (cases "find ?P [0..100]") (auto simp: find_None_iff)
  then obtain i where i: "i < length [0..100::int]" "?P ([0..100] ! i)" "p = [0..100] ! i"
    "\<forall>j<i. \<not> ?P ([0..100] ! j)"
    unfolding find_Some_iff by blast
  have nth: "[0..100::int] ! j = int j" if "j \<le> 100" for j
    using that by (simp add: nth_upto)
  have le: "p \<le> slider_position v"
  proof (rule ccontr)
    assume "\<not> p \<le> slider_position v"
    then have "nat (slider_position v) < i"
      using i nth [of i] nat_less_iff [OF position_range(1) [of v]] by simp
    moreover have "[0..100] ! nat (slider_position v) = slider_position v"
      using nth [of "nat (slider_position v)"] position_range [of v] by simp
    ultimately show False using here i(4) by (metis (no_types))
  qed
  have found: "\<exists>p. inferCommercialSliderPosition (resolveCommercialSliderProfile v) = Some p \<and>
      0 \<le> p \<and> p \<le> slider_position v \<and> ?P p"
    using p i nth [of i] le unfolding inferCommercialSliderPosition_def by auto
  have mono: "u \<le> v \<longrightarrow>
      at_least_as_strict (resolveCommercialSliderProfile v) (resolveCommercialSliderProfile u)"
    unfolding resolveCommercialSliderProfile_def
    using slider_profile_mono position_mono position_range by blast
  have "valid_stored_profile (resolveCommercialSliderProfile v)"
    unfolding resolveCommercialSliderProfile_def using slider_profile_valid position_range by blast
  then show ?thesis using mono found by blast
qed

theorem slider_round_trip_witness:
  "at_least_as_strict (resolveCommercialSliderProfile 80) (resolveCommercialSliderProfile (101 / 2))"
  using slider_round_trip [of 80 "101 / 2"] by simp

text \<open>
  The ladder of sanctions only climbs: a later violation is never sanctioned more mildly than an earlier one, a
  sanction that is switched off is never applied, and from the third violation on some sanction applies unless all
  are off.
\<close>

theorem ladder_climbs:
  "(m \<le> n \<longrightarrow>
     resolveCommercialSanctionAction (Some m) s \<le> resolveCommercialSanctionAction (Some n) s) \<and>
   sanction_enabled s (resolveCommercialSanctionAction c s) \<and>
   (n \<ge> 3 \<and> resolveCommercialSanctionAction (Some n) s = No_Sanction \<longrightarrow>
     \<not> ss_warnEnabled s \<and> \<not> ss_muteEnabled s \<and> \<not> ss_banEnabled s)"
proof -
  have enabled: "sanction_enabled s (resolveCommercialSanctionAction c s)"
    by (simp add: resolveCommercialSanctionAction_def sanction_enabled_def Let_def)
  have steps: "No_Sanction \<le> resolveCommercialSanctionAction (Some 2) s"
    "resolveCommercialSanctionAction (Some 2) s \<le> resolveCommercialSanctionAction (Some 3) s"
    "resolveCommercialSanctionAction (Some 3) s \<le> resolveCommercialSanctionAction (Some 4) s"
    by (simp_all add: resolveCommercialSanctionAction_def less_eq_sanction_def)
  have climbs: "resolveCommercialSanctionAction (Some m) s \<le> resolveCommercialSanctionAction (Some n) s"
    if "m \<le> n"
    using that steps unfolding sanction_of_count [of m] sanction_of_count [of n]
    by (auto intro: order_trans simp del: less_eq_sanction_def)
  have "\<not> ss_warnEnabled s \<and> \<not> ss_muteEnabled s \<and> \<not> ss_banEnabled s"
    if "n \<ge> 3" "resolveCommercialSanctionAction (Some n) s = No_Sanction"
    using that by (auto simp: resolveCommercialSanctionAction_def Let_def split: if_splits)
  then show ?thesis using enabled climbs by blast
qed

theorem ladder_climbs_witness:
  "resolveCommercialSanctionAction (Some 3) \<lparr>ss_warnEnabled = True, ss_muteEnabled = False, ss_banEnabled = True\<rparr>
     \<le> resolveCommercialSanctionAction (Some 7)
         \<lparr>ss_warnEnabled = True, ss_muteEnabled = False, ss_banEnabled = True\<rparr>"
  using ladder_climbs [of 3 7 _ "Some 1"] by simp

end
