(* ===== verification/Commercial_Evidence.thy ===== *)
theory Commercial_Evidence
  imports Commercial_Model
begin

text \<open>
  \<^verbatim>\<open>apps/api/src/moderation/commercial/commercial-evidence.ts\<close>: what the matched signals
  of a message prove.  \<^verbatim>\<open>ReadonlySet\<close> constants are lists of their members, and the
  flags of the two profiles carry the names of the code.
\<close>

section \<open>Signal sets\<close>

definition PRICE_EVIDENCE_SIGNALS :: "string list" where
  "PRICE_EVIDENCE_SIGNALS =
     [''transaction:price'', ''transaction:implied-price'', ''combo:contact+price'']"

definition TRANSACTION_DIRECT_DEAL_SIGNALS :: "string list" where
  "TRANSACTION_DIRECT_DEAL_SIGNALS =
     [''transaction:bot-income-leadgen'', ''transaction:buyout-deal'',
      ''transaction:handmade-channel-offer'', ''transaction:illicit-document-deal'',
      ''transaction:illicit-registration-deal'', ''transaction:paid-gambling-entry'',
      ''transaction:paid-raffle-entry'', ''transaction:paid-review-compensation'',
      ''transaction:unregulated-medicinal-goods-deal'', ''transaction:wildlife-product-deal'']"

definition STRONG_CONTACT_SIGNALS :: "string list" where
  "STRONG_CONTACT_SIGNALS =
     [''contact:phone'', ''contact:contextual-phone'', ''contact:masked-phone'',
      ''contact:handle'', ''contact:email'']"

definition ESCALATION_RISK_SIGNALS :: "string list" where
  "ESCALATION_RISK_SIGNALS =
     [''risk:bank-card-leadgen'', ''risk:betting-gambling'', ''risk:bot-income-scam'',
      ''risk:bulk-client-leadgen'', ''risk:casino-landing-link'', ''risk:casino-slot-promo'',
      ''risk:crypto-investment'', ''risk:debt-relief-service'', ''risk:document-service'',
      ''risk:government-benefit-phishing'', ''risk:loan-leadgen'',
      ''risk:messaging-automation'', ''risk:migration-registration-service'',
      ''risk:online-lottery-bonus'', ''risk:p2p-crypto-arbitrage'',
      ''risk:paid-group-mailing'', ''risk:paid-gambling-group'', ''risk:paid-raffle'',
      ''risk:paid-raffle-transfer'', ''risk:paid-review-task'',
      ''risk:payment-card-drop-leadgen'', ''risk:pseudomedical-diagnostics'',
      ''risk:referral-bonus-link'', ''risk:unregulated-medicinal-goods'',
      ''risk:wildlife-product-sale'']"

definition STRUCTURED_TRANSPORT_SIGNALS :: "string list" where
  "STRUCTURED_TRANSPORT_SIGNALS =
     [''service-specialty:advance-airport-station-transfer'',
      ''service-specialty:professional-passenger-parcel-transfer'',
      ''service-specialty:scheduled-round-trip-door-to-door'',
      ''service-specialty:scheduled-round-trip-parcel-route'',
      ''service-specialty:taxiing-contact-self-offer'']"

definition REVIEW_ONLY_TRANSPORT_SIGNALS :: "string list" where
  "REVIEW_ONLY_TRANSPORT_SIGNALS =
     [''review-only:transport-airport-station-waypoint'',
      ''review-only:transport-door-to-door-operator'',
      ''review-only:transport-promotional-vehicle-wording'',
      ''review-only:transport-single-date-schedule'']"

definition CONSERVATIVE_RECALL_SIGNALS :: "string list" where
  "CONSERVATIVE_RECALL_SIGNALS =
     [''goods-retail:named-store-stock-promotion'',
      ''property-agent:agent-object-id-contact'',
      ''property-agent:commission-rental-contact'',
      ''property-agent:multi-property-directory-contact'',
      ''property-agent:professional-property-spec-listing'',
      ''recruitment:role-first-vacancy'', ''service-specialty:banquet-hall-catalog'',
      ''service-specialty:construction-service-catalog'',
      ''service-specialty:cosmetic-procedure-catalog'',
      ''service-specialty:divination-self-offer'',
      ''service-specialty:marketplace-construction-service'',
      ''service-specialty:seasonal-lodging-offer'',
      ''service-specialty:website-creation-service'',
      ''service-specialty:well-drilling-self-offer'']"

definition CONSERVATIVE_RECALL_COMPANION_SIGNALS :: "string list" where
  "CONSERVATIVE_RECALL_COMPANION_SIGNALS =
     [''intent:'' @ utf8 [208, 178, 209, 129, 208, 181, 45, 208, 178, 208, 184, 208, 180, 209,
         139, 45, 209, 128, 208, 176, 208, 177, 208, 190, 209, 130],
      ''intent:'' @ utf8 [209, 129, 209, 130, 209, 128, 208, 190, 208, 184, 209, 130, 208,
         181, 208, 187, 209, 140, 208, 189, 208, 176, 209, 143, 45, 208, 177, 209, 128, 208,
         184, 208, 179, 208, 176, 208, 180, 208, 176],
      ''property-agent:'' @ utf8 [208, 186, 208, 190, 208, 188, 208, 184, 209, 129, 209, 129,
         208, 184, 209, 143, 45, 208, 191, 209, 128, 208, 190, 209, 134, 208, 181, 208, 189,
         209, 130],
      ''recruitment:'' @ utf8 [208, 183, 208, 176, 209, 128, 208, 191, 208, 187, 208, 176,
         209, 130],
      ''recruitment:'' @ utf8 [209, 129, 208, 188, 208, 181, 208, 189, 208, 176],
      ''recruitment:'' @ utf8 [209, 128, 208, 190, 208, 187, 209, 140, 45, 209, 131, 209, 129,
         208, 187, 208, 190, 208, 178, 208, 184, 209, 143],
      ''service-specialty:'' @ utf8 [208, 177, 209, 128, 208, 184, 208, 179, 208, 176, 208,
         180, 208, 176],
      ''service-specialty:'' @ utf8 [208, 188, 208, 176, 209, 129, 209, 130, 208, 181, 209,
         128],
      ''service-specialty:'' @ utf8 [208, 188, 208, 190, 208, 189, 209, 130, 208, 176, 208,
         182],
      ''service-specialty:'' @ utf8 [209, 128, 208, 181, 208, 188, 208, 190, 208, 189, 209,
         130], ''service-specialty:well-drilling-service'']"

definition INDEPENDENT_COMMERCIAL_OFFER_PREFIXES :: "string list" where
  "INDEPENDENT_COMMERCIAL_OFFER_PREFIXES =
     [''buyout:'', ''channel-placement:'', ''goods-retail:'', ''group-promo:'',
      ''group-trade:'', ''info:'', ''property-agent:'', ''property-commercial:'',
      ''recruitment:'', ''service-specialty:'']"

definition BALANCED_STRUCTURED_SERVICE_PHONE_ANCHOR_SIGNALS :: "string list" where
  "BALANCED_STRUCTURED_SERVICE_PHONE_ANCHOR_SIGNALS =
     [''intent:language-lessons'',
      ''intent:'' @ utf8 [209, 129, 209, 130, 209, 128, 208, 190, 208, 184, 209, 130, 208,
         181, 208, 187, 209, 140, 208, 189, 208, 176, 209, 143, 45, 208, 177, 209, 128, 208,
         184, 208, 179, 208, 176, 208, 180, 208, 176],
      ''intent:'' @ utf8 [208, 178, 209, 129, 208, 181, 45, 208, 178, 208, 184, 208, 180, 209,
         139, 45, 209, 128, 208, 176, 208, 177, 208, 190, 209, 130],
      ''intent:crane-beam-under-key'', ''intent:window-door-maintenance'',
      ''intent:custom-art-order'', ''intent:construction-multi-service'',
      ''intent:'' @ utf8 [208, 183, 208, 176, 208, 189, 208, 184, 208, 188, 208, 176, 209,
         142, 209, 129, 209, 140, 45, 209, 131, 209, 129, 208, 187, 209, 131, 208, 179, 208,
         176, 208, 188, 208, 184], ''service-specialty:appliance-repair'',
      ''service-specialty:stretch-ceiling-service'',
      ''service-specialty:custom-handmade-order'', ''service-specialty:custom-art-order'',
      ''service-specialty:crane-beam-installation'', ''service-specialty:logistics-delivery'',
      ''service-specialty:beauty-salon-service'', ''service-specialty:print-copy-service'',
      ''service-specialty:tool-rental-service'', ''service-specialty:locksmith-service'',
      ''service-specialty:well-drilling-service'',
      ''service-specialty:sewer-cleaning-service'',
      ''service-specialty:pvc-window-door-repair'',
      ''service-specialty:speech-therapy-lessons'',
      ''service-specialty:tree-yard-repair-service'',
      ''service-specialty:yard-cleanup-service'',
      ''service-specialty:paving-landscaping-service'']"

definition LOCAL_PRIVATE_LIKE_RETAIL_SIGNALS :: "string list" where
  "LOCAL_PRIVATE_LIKE_RETAIL_SIGNALS =
     [''goods-retail:wholesale-produce'', ''goods-retail:collectible-flower-retail'',
      ''goods-retail:flower-herb-unit-price-retail'', ''goods-retail:plant-nursery-stock'',
      ''goods-retail:plant-nursery-clearance-stock'', ''goods-retail:farm-livestock-retail'',
      ''goods-retail:poultry-farm-order'', ''goods-retail:home-food-order'',
      ''goods-retail:home-dairy-retail'']"

definition WARN_CAPPED_RECALL_PREFIX :: string where
  "WARN_CAPPED_RECALL_PREFIX = ''recall-cap:warn:''"

definition REVIEW_CAPPED_RECALL_PREFIX :: string where
  "REVIEW_CAPPED_RECALL_PREFIX = ''recall-cap:review:''"

definition RECALL_SOURCE_PREFIX :: string where
  "RECALL_SOURCE_PREFIX = ''recall-source:''"

section \<open>Profiles\<close>

record signal_profile =
  hasPriceEvidence :: bool
  hasStrongContactEvidence :: bool
  hasPhoneEvidence :: bool
  hasLinkEvidence :: bool
  hasHighRiskEvidence :: bool
  hasEscalationRiskEvidence :: bool
  hasStructuredTransportEvidence :: bool
  hasReviewOnlyTransportEvidence :: bool
  hasWarnCappedRecallEvidence :: bool
  hasReviewCappedRecallEvidence :: bool
  hasBoundedRecallEvidence :: bool
  hasConservativeRecallEvidence :: bool
  hasIndependentCommercialOfferEvidence :: bool
  hasTransactionalDirectDealEvidence :: bool
  hasNonCampaignDirectDealEvidence :: bool
  hasLocalEscalationOfferEvidence :: bool
  hasActionDirectDealEvidence :: bool
  hasRawActionDirectDealEvidence :: bool

record state_profile = signal_profile +
  hasClassifierDirectDealEvidence :: bool
  hasStructuredEvidence :: bool
  hasStandardCommercialEvidence :: bool
  hasStructuredVacancyContactEvidence :: bool
  hasStructuredBuyoutPhoneEvidence :: bool
  hasStructuredServicePhoneEvidence :: bool
  hasStructuredServiceTransactionalEvidence :: bool
  hasStructuredPropertyContactEvidence :: bool
  hasStructuredRetailTransactionalEvidence :: bool
  hasStrongCampaignEvidence :: bool
  hasStrongCommercialEvidence :: bool
  hasStructuredCommercialContext :: bool
  hasPrivateSaleCommercialOverride :: bool

section \<open>Evidence of the signals\<close>

abbreviation has_prefix :: "string list \<Rightarrow> string \<Rightarrow> bool" where
  "has_prefix signals p \<equiv> list_ex (\<lambda>s. starts_with s p) signals"

abbreviation has_any :: "string list \<Rightarrow> string list \<Rightarrow> bool" where
  "has_any signals members \<equiv> list_ex (\<lambda>s. s \<in> set members) signals"

definition boundedRecallLabels :: "string list \<Rightarrow> string list" where
  "boundedRecallLabels signals =
     unique (concat (map (\<lambda>s.
       if starts_with s WARN_CAPPED_RECALL_PREFIX then [drop (length WARN_CAPPED_RECALL_PREFIX) s]
       else if starts_with s REVIEW_CAPPED_RECALL_PREFIX
       then [drop (length REVIEW_CAPPED_RECALL_PREFIX) s]
       else []) signals))"

definition boundedRecallCompanionSignals :: "string list \<Rightarrow> string list" where
  "boundedRecallCompanionSignals signals =
     unique (map (drop (length RECALL_SOURCE_PREFIX))
       (filter (\<lambda>s. starts_with s RECALL_SOURCE_PREFIX) signals))"

text \<open>The predicate under \<^verbatim>\<open>hasIndependentCommercialOfferEvidence\<close>.\<close>

definition independent_offer_signal :: "string list \<Rightarrow> string \<Rightarrow> bool" where
  "independent_offer_signal signals s \<longleftrightarrow>
     list_ex (starts_with s) INDEPENDENT_COMMERCIAL_OFFER_PREFIXES \<and>
     s \<notin> set (boundedRecallCompanionSignals signals) \<and>
     \<not> (list_ex (\<lambda>c. starts_with c ''goods-retail:'') (boundedRecallCompanionSignals signals) \<and>
        s = ''goods-retail:multi-sku'') \<and>
     \<not> list_ex (\<lambda>label. list_ex (\<lambda>p. s = p @ label) INDEPENDENT_COMMERCIAL_OFFER_PREFIXES)
         (boundedRecallLabels signals) \<and>
     s \<notin> set STRUCTURED_TRANSPORT_SIGNALS \<and>
     s \<notin> set CONSERVATIVE_RECALL_SIGNALS \<and>
     \<not> (has_any signals CONSERVATIVE_RECALL_SIGNALS \<and>
        s \<in> set CONSERVATIVE_RECALL_COMPANION_SIGNALS)"

definition resolveCommercialSignalEvidence :: "string list \<Rightarrow> signal_profile" where
  "resolveCommercialSignalEvidence signals =
     (let highRisk = has_prefix signals ''risk:'';
          escalation = has_any signals ESCALATION_RISK_SIGNALS;
          localOffer = ''locality:escalation-offer'' \<in> set signals;
          warnCapped = has_prefix signals WARN_CAPPED_RECALL_PREFIX;
          reviewCapped = has_prefix signals REVIEW_CAPPED_RECALL_PREFIX;
          price = has_any signals PRICE_EVIDENCE_SIGNALS;
          strongContact = has_any signals STRONG_CONTACT_SIGNALS;
          phone = (''contact:phone'' \<in> set signals \<or> ''contact:contextual-phone'' \<in> set signals \<or>
                   ''contact:masked-phone'' \<in> set signals);
          link = has_prefix signals ''deal-channel:'';
          transactional = has_any signals TRANSACTION_DIRECT_DEAL_SIGNALS;
          rawDirect = (price \<and> (strongContact \<or> link) \<or> link \<and> strongContact \<or>
                       transactional \<and> strongContact \<or>
                       highRisk \<and> (price \<or> strongContact \<or> link \<or> transactional))
      in \<lparr>hasPriceEvidence = price,
          hasStrongContactEvidence = strongContact,
          hasPhoneEvidence = phone,
          hasLinkEvidence = link,
          hasHighRiskEvidence = highRisk,
          hasEscalationRiskEvidence = escalation,
          hasStructuredTransportEvidence = has_any signals STRUCTURED_TRANSPORT_SIGNALS,
          hasReviewOnlyTransportEvidence = has_any signals REVIEW_ONLY_TRANSPORT_SIGNALS,
          hasWarnCappedRecallEvidence = warnCapped,
          hasReviewCappedRecallEvidence = reviewCapped,
          hasBoundedRecallEvidence = (warnCapped \<or> reviewCapped),
          hasConservativeRecallEvidence = has_any signals CONSERVATIVE_RECALL_SIGNALS,
          hasIndependentCommercialOfferEvidence = list_ex (independent_offer_signal signals) signals,
          hasTransactionalDirectDealEvidence = transactional,
          hasNonCampaignDirectDealEvidence = (price \<or> phone \<or> link \<or> transactional),
          hasLocalEscalationOfferEvidence = localOffer,
          hasActionDirectDealEvidence = (rawDirect \<and> (\<not> escalation \<or> localOffer)),
          hasRawActionDirectDealEvidence = rawDirect\<rparr>)"

definition isCommercialEscalationRiskSignal :: "string \<Rightarrow> bool" where
  "isCommercialEscalationRiskSignal s \<longleftrightarrow> s \<in> set ESCALATION_RISK_SIGNALS"

section \<open>Evidence of a campaign\<close>

definition count_or_zero :: "int option \<Rightarrow> int" where
  "count_or_zero c = (case c of None \<Rightarrow> 0 | Some n \<Rightarrow> n)"

definition hasStrongCommercialCampaignEvidence ::
  "campaign_context option \<Rightarrow> signal_state \<Rightarrow> bool" where
  "hasStrongCommercialCampaignEvidence context state =
     (case context of
        None \<Rightarrow> False
      | Some c \<Rightarrow>
          (let dealAnchor = (hasContact state \<or> hasDealChannel state \<or> hasTransactional state);
               repeatedDomainSelfPromo =
                 (count_or_zero (repeatedDomainDistinctChatCount c)
                    \<ge> cev_repeatedContactChats campaignEvidence \<and>
                  (hasDealChannel state \<or> hasPromoContext state \<or> hasBusinessContext state \<or>
                   hasServiceContext state \<or> hasRecruitmentContext state \<or>
                   hasInfoProductContext state \<or> hasGoodsRetailContext state \<or>
                   hasGroupPromoContext state \<or> hasCommercialAudienceContext state \<or>
                   hasChannelPlacementContext state \<or> hasCallToActionContext state))
           in (repeatedPhoneDistinctChatCount c \<ge> cev_repeatedContactChats campaignEvidence \<and>
               hasContact state) \<or>
              (repeatedLinkDistinctChatCount c \<ge> cev_repeatedContactChats campaignEvidence \<and>
               hasDealChannel state) \<or>
              (count_or_zero (repeatedHandleDistinctChatCount c)
                 \<ge> cev_repeatedContactChats campaignEvidence \<and> hasContact state) \<or>
              repeatedDomainSelfPromo \<or>
              (count_or_zero (senderDistinctChatCount5m c)
                 \<ge> cev_senderVelocity5mChats campaignEvidence \<and> dealAnchor) \<or>
              (sameTextDistinctChatCount c \<ge> cev_repeatedTextChats campaignEvidence \<and> dealAnchor) \<or>
              (count_or_zero (nearTextDistinctChatCount c)
                 \<ge> cev_repeatedTextChats campaignEvidence \<and> dealAnchor)))"

section \<open>Evidence of the whole state\<close>

definition structured_vacancy :: "signal_state \<Rightarrow> bool" where
  "structured_vacancy st \<longleftrightarrow>
     hasContact st \<and> \<not> hasSearchRequestContext st \<and> \<not> hasJobSeekingContext st \<and>
     (''risk:structured-job-vacancy'' \<in> set (matchedSignals st) \<or> hasRecruitmentContext st)"

definition structured_buyout :: "signal_state \<Rightarrow> bool" where
  "structured_buyout st \<longleftrightarrow>
     hasBuyoutContext st \<and> hasPhoneContact st \<and> \<not> hasSearchRequestContext st \<and>
     \<not> hasPrivateSaleContext st \<and> \<not> hasPrivateGoodsItemContext st"

definition structured_service_phone :: "signal_state \<Rightarrow> threshold_profile option \<Rightarrow> bool" where
  "structured_service_phone st thresholds \<longleftrightarrow>
     hasServiceContext st \<and> hasPhoneContact st \<and> \<not> hasSearchRequestContext st \<and>
     \<not> hasPrivateSaleContext st \<and> \<not> hasPrivateGoodsItemContext st \<and>
     ((case thresholds of None \<Rightarrow> 1 | Some t \<Rightarrow> strictness t) \<ge> 1 / 5 \<or>
      has_any (matchedSignals st) BALANCED_STRUCTURED_SERVICE_PHONE_ANCHOR_SIGNALS)"

definition structured_service_transactional :: "signal_state \<Rightarrow> bool" where
  "structured_service_transactional st \<longleftrightarrow>
     hasServiceContext st \<and> hasTransactional st \<and> \<not> hasSearchRequestContext st \<and>
     \<not> hasJobSeekingContext st \<and> \<not> hasPrivateSaleContext st \<and>
     \<not> hasPrivateGoodsItemContext st \<and>
     ''transaction:structured-service-offer'' \<in> set (matchedSignals st)"

definition structured_property :: "signal_state \<Rightarrow> bool" where
  "structured_property st \<longleftrightarrow>
     (hasPropertyAgentContext st \<or> hasCommercialPropertyContext st) \<and> hasContact st \<and>
     \<not> hasSearchRequestContext st"

definition structured_retail :: "signal_state \<Rightarrow> bool" where
  "structured_retail st \<longleftrightarrow>
     hasGoodsRetailContext st \<and>
     (hasPhoneContact st \<or> hasDealChannel st \<or> hasPrice st \<or>
      (hasTransactional st \<and> ''goods-retail:clearance-stock-retail'' \<in> set (matchedSignals st))) \<and>
     \<not> hasSearchRequestContext st \<and> \<not> hasPrivateGoodsItemContext st"

definition only_price_phone :: "signal_profile \<Rightarrow> signal_state \<Rightarrow> bool" where
  "only_price_phone ev st \<longleftrightarrow>
     hasRawActionDirectDealEvidence ev \<and> hasPriceEvidence ev \<and> hasPhoneEvidence ev \<and>
     \<not> hasLinkEvidence ev \<and> \<not> hasHighRiskEvidence ev \<and>
     \<not> hasTransactionalDirectDealEvidence ev \<and>
     ''contact:handle'' \<notin> set (matchedSignals st) \<and> ''contact:email'' \<notin> set (matchedSignals st)"

definition stronger_listing_anchor ::
  "signal_profile \<Rightarrow> bool \<Rightarrow> signal_state \<Rightarrow> bool" where
  "stronger_listing_anchor ev strongCampaign st \<longleftrightarrow>
     hasDealChannel st \<or> hasBusinessContext st \<or> hasChannelPlacementContext st \<or>
     hasCommercialAudienceContext st \<or> hasGroupPromoContext st \<or> hasInfoProductContext st \<or>
     hasRecruitmentContext st \<or> hasBuyoutContext st \<or> hasCommercialPropertyContext st \<or>
     hasPropertyAgentContext st \<or> hasHighRiskEvidence ev \<or>
     hasTransactionalDirectDealEvidence ev \<or> strongCampaign \<or>
     has_prefix (matchedSignals st) ''campaign:cross-chat-link'' \<or>
     has_prefix (matchedSignals st) ''campaign:cross-chat-domain'' \<or>
     has_prefix (matchedSignals st) ''campaign:cross-chat-handle'' \<or>
     ''goods-retail:multi-sku'' \<in> set (matchedSignals st) \<or>
     ''goods-retail:sizes-and-colors'' \<in> set (matchedSignals st) \<or>
     ''goods-retail:catalog-media'' \<in> set (matchedSignals st) \<or>
     ''goods-retail:manufacturer'' \<in> set (matchedSignals st) \<or>
     ''goods-retail:commercial-use'' \<in> set (matchedSignals st) \<or>
     ''goods-retail:volume-price-table'' \<in> set (matchedSignals st) \<or>
     ''goods-retail:apparel-retail-order-flow'' \<in> set (matchedSignals st) \<or>
     ''goods-retail:plant-nursery-shipping'' \<in> set (matchedSignals st) \<or>
     ''goods-retail:clearance-stock-retail'' \<in> set (matchedSignals st) \<or>
     ''goods-retail:structured-placeholder-contact'' \<in> set (matchedSignals st) \<or>
     ''goods-retail:professional-order-catalog'' \<in> set (matchedSignals st)"

definition constrain_local_price_phone ::
  "signal_profile \<Rightarrow> bool \<Rightarrow> signal_state \<Rightarrow> bool" where
  "constrain_local_price_phone ev strongCampaign st \<longleftrightarrow>
     only_price_phone ev st \<and> \<not> stronger_listing_anchor ev strongCampaign st \<and>
     (hasPrivateSaleContext st \<or> hasPrivateGoodsItemContext st \<or> hasPropertyPrivateContext st \<or>
      has_any (matchedSignals st) LOCAL_PRIVATE_LIKE_RETAIL_SIGNALS \<or>
      (hasGoodsRetailContext st \<and> \<not> hasBusinessContext st) \<or>
      (hasServiceContext st \<and> hasStrongNegativeContext st))"

definition resolveCommercialEvidenceProfile ::
  "signal_state \<Rightarrow> threshold_profile option \<Rightarrow> campaign_context option \<Rightarrow> state_profile" where
  "resolveCommercialEvidenceProfile st thresholds context =
     (let ev = resolveCommercialSignalEvidence (matchedSignals st);
          strongCampaign = hasStrongCommercialCampaignEvidence context st
      in \<lparr>hasPriceEvidence = hasPriceEvidence ev,
          hasStrongContactEvidence = hasStrongContactEvidence ev,
          hasPhoneEvidence = hasPhoneEvidence ev,
          hasLinkEvidence = hasLinkEvidence ev,
          hasHighRiskEvidence = hasHighRiskEvidence ev,
          hasEscalationRiskEvidence = hasEscalationRiskEvidence ev,
          hasStructuredTransportEvidence = hasStructuredTransportEvidence ev,
          hasReviewOnlyTransportEvidence = hasReviewOnlyTransportEvidence ev,
          hasWarnCappedRecallEvidence = hasWarnCappedRecallEvidence ev,
          hasReviewCappedRecallEvidence = hasReviewCappedRecallEvidence ev,
          hasBoundedRecallEvidence = hasBoundedRecallEvidence ev,
          hasConservativeRecallEvidence = hasConservativeRecallEvidence ev,
          hasIndependentCommercialOfferEvidence = hasIndependentCommercialOfferEvidence ev,
          hasTransactionalDirectDealEvidence = hasTransactionalDirectDealEvidence ev,
          hasNonCampaignDirectDealEvidence = hasNonCampaignDirectDealEvidence ev,
          hasLocalEscalationOfferEvidence = hasLocalEscalationOfferEvidence ev,
          hasActionDirectDealEvidence =
            (hasActionDirectDealEvidence ev \<and> \<not> constrain_local_price_phone ev strongCampaign st),
          hasRawActionDirectDealEvidence = hasRawActionDirectDealEvidence ev,
          hasClassifierDirectDealEvidence =
            (hasPrice st \<and> (hasContact st \<or> hasDealChannel st \<or> hasTransactional st) \<or>
             hasDealChannel st \<and> hasContact st),
          hasStructuredEvidence =
            ((hasPropertyAgentContext st \<or> hasCommercialPropertyContext st \<or>
              hasRecruitmentContext st \<or> hasInfoProductContext st \<or> hasBuyoutContext st \<or>
              hasServiceContext st \<or> hasGoodsRetailContext st \<or> hasGroupPromoContext st \<or>
              hasBusinessContext st \<or> hasPromoContext st) \<and>
             (hasContact st \<or> hasDealChannel st \<or> hasPrice st \<or> hasTransactional st)),
          hasStandardCommercialEvidence =
            (hasPrice st \<or> hasContact st \<or> hasDealChannel st \<or> hasTransactional st),
          hasStructuredVacancyContactEvidence = structured_vacancy st,
          hasStructuredBuyoutPhoneEvidence = structured_buyout st,
          hasStructuredServicePhoneEvidence = structured_service_phone st thresholds,
          hasStructuredServiceTransactionalEvidence = structured_service_transactional st,
          hasStructuredPropertyContactEvidence = structured_property st,
          hasStructuredRetailTransactionalEvidence = structured_retail st,
          hasStrongCampaignEvidence = strongCampaign,
          hasStrongCommercialEvidence =
            (hasPrice st \<or> hasDealChannel st \<or> (hasContact st \<and> hasTransactional st) \<or>
             structured_vacancy st \<or> structured_buyout st \<or>
             structured_service_phone st thresholds \<or> structured_service_transactional st \<or>
             structured_property st \<or> structured_retail st \<or>
             (hasChannelPlacementContext st \<and>
              ''transaction:handmade-channel-offer'' \<in> set (matchedSignals st)) \<or>
             strongCampaign),
          hasStructuredCommercialContext =
            (hasPromoContext st \<or> hasBusinessContext st \<or> hasBuyoutContext st \<or>
             hasRecruitmentContext st \<or> hasInfoProductContext st \<or> hasGroupPromoContext st \<or>
             hasServiceContext st \<or> hasCommercialPropertyContext st \<or>
             hasGoodsRetailContext st \<or> hasCampaignContext st),
          hasPrivateSaleCommercialOverride =
            (hasPropertyAgentContext st \<or> hasCommercialPropertyContext st \<or>
             hasBusinessContext st \<or> hasGroupPromoContext st \<or>
             hasCommercialAudienceContext st \<or> hasRecruitmentContext st \<or>
             hasBuyoutContext st \<or> hasInfoProductContext st \<or> hasGoodsRetailContext st \<or>
             (hasServiceContext st \<and>
              (\<not> hasPropertyPrivateContext st \<or> hasServiceOfferContext st)) \<or>
             hasServiceOfferContext st)\<rparr>)"

section \<open>The evidence is a function of the set of signals\<close>

lemma starts_with_append [simp]: "starts_with (p @ s) p"
  by (simp add: starts_with_def)

lemma recall_sets:
  assumes "set xs = set ys"
  shows "set (boundedRecallLabels xs) = set (boundedRecallLabels ys)"
    and "set (boundedRecallCompanionSignals xs) = set (boundedRecallCompanionSignals ys)"
  using assms by (simp_all add: boundedRecallLabels_def boundedRecallCompanionSignals_def)

lemma has_prefix_set: "set xs = set ys \<Longrightarrow> has_prefix xs p = has_prefix ys p"
  by (simp add: list_ex_iff)

lemma has_any_set: "set xs = set ys \<Longrightarrow> has_any xs ms = has_any ys ms"
  by (simp add: list_ex_iff)

lemma independent_offer_set:
  "set xs = set ys \<Longrightarrow> independent_offer_signal xs s = independent_offer_signal ys s"
  unfolding independent_offer_signal_def list_ex_iff
  by (simp only: recall_sets [of xs ys])

lemma independent_offers_set:
  "set xs = set ys \<Longrightarrow>
   list_ex (independent_offer_signal xs) xs = list_ex (independent_offer_signal ys) ys"
  unfolding list_ex_iff by (simp only: independent_offer_set [of xs ys] cong: bex_cong)

text \<open>
  The evidence profile of a message depends on the set of its matched signals only: neither their
  order nor repetitions change what they prove.
\<close>

theorem signal_evidence_of_set:
  assumes "set xs = set ys"
  shows "resolveCommercialSignalEvidence xs = resolveCommercialSignalEvidence ys"
  unfolding resolveCommercialSignalEvidence_def has_prefix_set [OF assms] has_any_set [OF assms]
    independent_offers_set [OF assms] assms ..

theorem signal_evidence_of_set_witness:
  "resolveCommercialSignalEvidence [''risk:paid-raffle'', ''contact:phone'', ''risk:paid-raffle''] =
   resolveCommercialSignalEvidence [''contact:phone'', ''risk:paid-raffle'']"
  by (rule signal_evidence_of_set) auto

text \<open>Direct evidence for an action is never stronger than what the signals prove.\<close>

lemma signal_direct_evidence:
  "hasActionDirectDealEvidence (resolveCommercialSignalEvidence ms) =
    (hasRawActionDirectDealEvidence (resolveCommercialSignalEvidence ms) \<and>
     (hasEscalationRiskEvidence (resolveCommercialSignalEvidence ms) \<longrightarrow>
      hasLocalEscalationOfferEvidence (resolveCommercialSignalEvidence ms)))"
  unfolding resolveCommercialSignalEvidence_def Let_def signal_profile.simps by blast

lemma state_profile_signals:
  fixes st :: signal_state
  defines "ev \<equiv> resolveCommercialSignalEvidence (matchedSignals st)"
  shows "hasPriceEvidence (resolveCommercialEvidenceProfile st t c) = hasPriceEvidence ev"
    and "hasActionDirectDealEvidence (resolveCommercialEvidenceProfile st t c) =
      (hasActionDirectDealEvidence ev \<and>
       \<not> constrain_local_price_phone ev (hasStrongCommercialCampaignEvidence c st) st)"
    and "hasStrongCampaignEvidence (resolveCommercialEvidenceProfile st t c) =
      hasStrongCommercialCampaignEvidence c st"
  by (simp_all add: resolveCommercialEvidenceProfile_def Let_def ev_def)

text \<open>
  A state's direct deal evidence rests on its signals: it needs two kinds of deal evidence (or
  high risk and one), with a local offer where the risk is escalation-grade; and a bare price and
  phone number in a private sale without any stronger listing anchor never count as direct.
\<close>

theorem state_direct_evidence_sound:
  fixes st :: signal_state
  defines "ev \<equiv> resolveCommercialSignalEvidence (matchedSignals st)"
  assumes "hasActionDirectDealEvidence (resolveCommercialEvidenceProfile st t c)"
  shows "hasRawActionDirectDealEvidence ev \<and>
    (hasEscalationRiskEvidence ev \<longrightarrow> hasLocalEscalationOfferEvidence ev) \<and>
    \<not> (only_price_phone ev st \<and> hasPrivateSaleContext st \<and>
       \<not> stronger_listing_anchor ev (hasStrongCommercialCampaignEvidence c st) st)"
proof -
  have "hasActionDirectDealEvidence ev"
    "\<not> constrain_local_price_phone ev (hasStrongCommercialCampaignEvidence c st) st"
    using assms state_profile_signals(2) unfolding ev_def by blast+
  then show ?thesis
    using signal_direct_evidence unfolding ev_def constrain_local_price_phone_def by blast
qed

definition plain_state :: "string list \<Rightarrow> signal_state" where
  "plain_state ms =
     \<lparr>st_score = 0, matchedSignals = ms, negativeSignals = [], hasIntent = False,
      hasServiceOfferContext = False, hasServiceSpecialtyContext = False, hasPrice = False,
      hasContact = False, hasPhoneContact = False, hasDealChannel = False, hasTransactional = False,
      hasDealSignal = False, hasPromoContext = False, hasBusinessContext = False,
      hasBuyoutContext = False, hasRecruitmentContext = False, hasInfoProductContext = False,
      hasGroupPromotionIntent = False, hasGroupPromoContext = False,
      hasCommercialAudienceContext = False, hasChannelPlacementContext = False,
      hasSearchRequestContext = False, hasJobSeekingContext = False, hasServiceContext = False,
      hasCallToActionContext = False, hasCommercialContext = False, hasCampaignContext = False,
      hasPrivateSaleContext = False, hasPropertyPrivateContext = False,
      hasPropertyAgentContext = False, hasCommercialPropertyContext = False,
      hasGoodsRetailContext = False, hasPrivateGoodsItemContext = False,
      hasStrongNegativeContext = False\<rparr>"

theorem state_direct_evidence_sound_witness:
  "hasRawActionDirectDealEvidence
     (resolveCommercialSignalEvidence [''transaction:price'', ''deal-channel:link''])"
proof -
  have "hasActionDirectDealEvidence (resolveCommercialEvidenceProfile
      (plain_state [''transaction:price'', ''deal-channel:link'']) None None)"
    by code_simp
  from state_direct_evidence_sound [OF this] show ?thesis by (simp add: plain_state_def)
qed

end
