(* ===== verification/Commercial_Subtypes.thy ===== *)
theory Commercial_Subtypes
  imports Commercial_Evidence "HOL-Library.Product_Lexorder" "HOL-Library.List_Lexorder"
    "HOL-Library.Char_ord"
begin

text \<open>
  \<^verbatim>\<open>apps/api/src/moderation/commercial/commercial-subtypes.ts\<close>: the policy of every
  subtype, the classification of a detection and the anchors a subtype requires.
  \<^verbatim>\<open>localeCompare\<close> only breaks ties between subtype names, which are upper-case ASCII
  words; on them it is the lexicographic order.
\<close>

section \<open>Subtype policies\<close>

definition DELETE_ALLOWED_EVIDENCE :: "evidence_tier list" where
  "DELETE_ALLOWED_EVIDENCE = [DIRECT, HIGH_RISK]"

definition AMBIGUOUS_ACTION_BANDS :: "action_band list" where
  "AMBIGUOUS_ACTION_BANDS = [WARN, REVIEW_ONLY]"

fun getCommercialSubtypePolicy :: "commercial_subtype \<Rightarrow> subtype_policy" where
  "getCommercialSubtypePolicy CHANNEL_PLACEMENT =
     \<lparr>policy_subtype = CHANNEL_PLACEMENT, policy_taxonomyClass = TRUE_AD,
      policy_requiredAnchors = [Channel_Audience, Deal_Evidence],
      policy_deleteAllowedEvidence = DELETE_ALLOWED_EVIDENCE,
      policy_ambiguousActionBands = AMBIGUOUS_ACTION_BANDS\<rparr>"
| "getCommercialSubtypePolicy PROPERTY_AGENT =
     \<lparr>policy_subtype = PROPERTY_AGENT, policy_taxonomyClass = TRUE_AD,
      policy_requiredAnchors = [Property_Agency, Deal_Evidence],
      policy_deleteAllowedEvidence = DELETE_ALLOWED_EVIDENCE,
      policy_ambiguousActionBands = AMBIGUOUS_ACTION_BANDS\<rparr>"
| "getCommercialSubtypePolicy PROPERTY_COMMERCIAL =
     \<lparr>policy_subtype = PROPERTY_COMMERCIAL, policy_taxonomyClass = TRUE_AD,
      policy_requiredAnchors = [Commercial_Property, Deal_Evidence],
      policy_deleteAllowedEvidence = DELETE_ALLOWED_EVIDENCE,
      policy_ambiguousActionBands = AMBIGUOUS_ACTION_BANDS\<rparr>"
| "getCommercialSubtypePolicy RECRUITMENT =
     \<lparr>policy_subtype = RECRUITMENT, policy_taxonomyClass = TRUE_AD,
      policy_requiredAnchors = [Recruitment_Anchor, Contact_Evidence],
      policy_deleteAllowedEvidence = DELETE_ALLOWED_EVIDENCE,
      policy_ambiguousActionBands = AMBIGUOUS_ACTION_BANDS\<rparr>"
| "getCommercialSubtypePolicy INFO_PRODUCT =
     \<lparr>policy_subtype = INFO_PRODUCT, policy_taxonomyClass = TRUE_AD,
      policy_requiredAnchors = [Info_Product, Deal_Evidence],
      policy_deleteAllowedEvidence = DELETE_ALLOWED_EVIDENCE,
      policy_ambiguousActionBands = AMBIGUOUS_ACTION_BANDS\<rparr>"
| "getCommercialSubtypePolicy BUYOUT =
     \<lparr>policy_subtype = BUYOUT, policy_taxonomyClass = TRUE_AD,
      policy_requiredAnchors = [Buyout_Anchor, Deal_Evidence],
      policy_deleteAllowedEvidence = DELETE_ALLOWED_EVIDENCE,
      policy_ambiguousActionBands = AMBIGUOUS_ACTION_BANDS\<rparr>"
| "getCommercialSubtypePolicy SERVICES =
     \<lparr>policy_subtype = SERVICES, policy_taxonomyClass = TRUE_AD,
      policy_requiredAnchors = [Service_Specialty, Deal_Evidence],
      policy_deleteAllowedEvidence = DELETE_ALLOWED_EVIDENCE,
      policy_ambiguousActionBands = AMBIGUOUS_ACTION_BANDS\<rparr>"
| "getCommercialSubtypePolicy GOODS_RETAIL =
     \<lparr>policy_subtype = GOODS_RETAIL, policy_taxonomyClass = TRUE_AD,
      policy_requiredAnchors = [Retail_Structure, Deal_Evidence],
      policy_deleteAllowedEvidence = DELETE_ALLOWED_EVIDENCE,
      policy_ambiguousActionBands = AMBIGUOUS_ACTION_BANDS\<rparr>"
| "getCommercialSubtypePolicy GOODS =
     \<lparr>policy_subtype = GOODS, policy_taxonomyClass = GRAY,
      policy_requiredAnchors = [Commercial_Intent, Deal_Evidence],
      policy_deleteAllowedEvidence = DELETE_ALLOWED_EVIDENCE,
      policy_ambiguousActionBands = AMBIGUOUS_ACTION_BANDS\<rparr>"
| "getCommercialSubtypePolicy GROUP_PROMOTION =
     \<lparr>policy_subtype = GROUP_PROMOTION, policy_taxonomyClass = TRUE_AD,
      policy_requiredAnchors = [Channel_Audience, Deal_Evidence],
      policy_deleteAllowedEvidence = DELETE_ALLOWED_EVIDENCE,
      policy_ambiguousActionBands = AMBIGUOUS_ACTION_BANDS\<rparr>"
| "getCommercialSubtypePolicy GENERIC =
     \<lparr>policy_subtype = GENERIC, policy_taxonomyClass = GRAY,
      policy_requiredAnchors = [Commercial_Intent, Deal_Evidence],
      policy_deleteAllowedEvidence = DELETE_ALLOWED_EVIDENCE,
      policy_ambiguousActionBands = AMBIGUOUS_ACTION_BANDS\<rparr>"

fun subtype_name :: "commercial_subtype \<Rightarrow> string" where
  "subtype_name CHANNEL_PLACEMENT = ''CHANNEL_PLACEMENT''"
| "subtype_name PROPERTY_AGENT = ''PROPERTY_AGENT''"
| "subtype_name PROPERTY_COMMERCIAL = ''PROPERTY_COMMERCIAL''"
| "subtype_name RECRUITMENT = ''RECRUITMENT''"
| "subtype_name INFO_PRODUCT = ''INFO_PRODUCT''"
| "subtype_name BUYOUT = ''BUYOUT''"
| "subtype_name SERVICES = ''SERVICES''"
| "subtype_name GOODS_RETAIL = ''GOODS_RETAIL''"
| "subtype_name GOODS = ''GOODS''"
| "subtype_name GROUP_PROMOTION = ''GROUP_PROMOTION''"
| "subtype_name GENERIC = ''GENERIC''"

definition isCommercialDeleteAction :: "action_band option \<Rightarrow> bool" where
  "isCommercialDeleteAction b \<longleftrightarrow> b = Some DELETE \<or> b = Some DELETE_AND_ESCALATE"

definition isCommercialAmbiguousAction :: "action_band option \<Rightarrow> bool" where
  "isCommercialAmbiguousAction b \<longleftrightarrow> b = Some WARN \<or> b = Some REVIEW_ONLY"

section \<open>Classification\<close>

type_synonym scores = "(commercial_subtype, int) jsmap"

definition add_subtype :: "commercial_subtype \<Rightarrow> int \<Rightarrow> scores \<Rightarrow> scores" where
  "add_subtype s score m =
     jsmap_set s (max score (case jsmap_get m s of None \<Rightarrow> 0 | Some k \<Rightarrow> k)) m"

definition weak_audience_placement :: "signal_state \<Rightarrow> bool" where
  "weak_audience_placement st \<longleftrightarrow>
     hasCommercialAudienceContext st \<and> hasGroupPromotionIntent st \<and> \<not> hasServiceContext st \<and>
     \<not> hasRecruitmentContext st \<and> \<not> hasGoodsRetailContext st \<and> \<not> hasPropertyAgentContext st \<and>
     \<not> hasCommercialPropertyContext st \<and> \<not> hasBuyoutContext st"

definition goods_offer :: "signal_state \<Rightarrow> bool" where
  "goods_offer st \<longleftrightarrow>
     \<not> hasServiceContext st \<and> \<not> hasPropertyAgentContext st \<and>
     \<not> hasCommercialPropertyContext st \<and> \<not> hasRecruitmentContext st \<and>
     \<not> hasInfoProductContext st \<and> \<not> hasGoodsRetailContext st \<and>
     (hasIntent st \<or> hasPromoContext st \<or> hasBusinessContext st) \<and>
     (hasPrice st \<or> hasTransactional st \<or> hasContact st \<or> hasDealChannel st)"

definition subtype_additions :: "signal_state \<Rightarrow> (bool \<times> commercial_subtype \<times> int) list" where
  "subtype_additions st =
     (let cfg = subtypeScores;
          dominantRetail = ''goods-retail:clearance-stock-retail'' \<in> set (matchedSignals st)
      in [(hasChannelPlacementContext st \<or> weak_audience_placement st,
             CHANNEL_PLACEMENT, sub_CHANNEL_PLACEMENT cfg),
          (hasPropertyAgentContext st, PROPERTY_AGENT, sub_PROPERTY_AGENT cfg),
          (hasCommercialPropertyContext st, PROPERTY_COMMERCIAL, sub_PROPERTY_COMMERCIAL cfg),
          (hasRecruitmentContext st, RECRUITMENT, sub_RECRUITMENT cfg),
          (hasInfoProductContext st, INFO_PRODUCT, sub_INFO_PRODUCT cfg),
          (hasBuyoutContext st, BUYOUT, sub_BUYOUT cfg),
          (hasServiceContext st, SERVICES, sub_SERVICES cfg),
          (\<not> hasServiceContext st \<and> (hasServiceOfferContext st \<or> hasServiceSpecialtyContext st),
             SERVICES, sub_SERVICES_WEAK cfg),
          (hasGoodsRetailContext st, GOODS_RETAIL,
             if hasServiceContext st \<and> \<not> dominantRetail
             then sub_GOODS_RETAIL_WITH_SERVICE cfg else sub_GOODS_RETAIL cfg),
          (hasGroupPromoContext st \<or> (hasGroupPromotionIntent st \<and> hasDealChannel st), GROUP_PROMOTION,
             if hasGroupPromoContext st then sub_GROUP_PROMOTION cfg
             else sub_GROUP_PROMOTION_WEAK cfg),
          (goods_offer st, GOODS, sub_GOODS cfg)])"

definition collect_subtypes :: "signal_state \<Rightarrow> scores" where
  "collect_subtypes st =
     (let m = fold (\<lambda>(c, s, score) m. if c then add_subtype s score m else m)
                (subtype_additions st) []
      in if length m = 0 then add_subtype GENERIC (sub_GENERIC subtypeScores) m else m)"

definition rank_subtypes :: "scores \<Rightarrow> scores" where
  "rank_subtypes m = sort_key (\<lambda>(s, score). (- score, subtype_name s)) m"

definition primary_of :: "scores \<Rightarrow> commercial_subtype" where
  "primary_of ranked = (case ranked of [] \<Rightarrow> GENERIC | (s, _) # _ \<Rightarrow> s)"

definition supporting_of :: "scores \<Rightarrow> commercial_subtype list" where
  "supporting_of ranked =
     (case ranked of
        [] \<Rightarrow> []
      | (_, best) # rest \<Rightarrow>
          map fst (take (sub_maxSupportingSubtypes subtypeScores)
            (filter (\<lambda>(_, score). score \<ge> best - sub_supportingWindow subtypeScores) rest)))"

definition evidence_strength :: "state_profile \<Rightarrow> bool \<Rightarrow> legacy_strength" where
  "evidence_strength ev hasCampaignDependentEvidence =
     (if hasClassifierDirectDealEvidence ev then Legacy_Direct
      else if hasStructuredVacancyContactEvidence ev \<or> hasStructuredBuyoutPhoneEvidence ev \<or>
              hasStructuredServicePhoneEvidence ev \<or> hasStructuredServiceTransactionalEvidence ev \<or>
              hasStructuredPropertyContactEvidence ev \<or> hasStructuredRetailTransactionalEvidence ev
      then Legacy_Structured
      else if hasCampaignDependentEvidence then Legacy_Campaign
      else if hasStructuredEvidence ev then Legacy_Structured
      else Legacy_Borderline)"

definition exclusive_wellness_offer :: "commercial_subtype \<Rightarrow> signal_state \<Rightarrow> bool" where
  "exclusive_wellness_offer primary st \<longleftrightarrow>
     primary = SERVICES \<and> ''service-specialty:organized-wellness-trip'' \<in> set (matchedSignals st) \<and>
     \<not> hasPropertyAgentContext st \<and> \<not> hasCommercialPropertyContext st \<and>
     \<not> hasRecruitmentContext st \<and> \<not> hasGoodsRetailContext st \<and> \<not> hasBuyoutContext st \<and>
     \<not> hasChannelPlacementContext st \<and>
     \<not> list_ex (\<lambda>s. starts_with s ''service-specialty:'' \<and>
                       s \<noteq> ''service-specialty:organized-wellness-trip'') (matchedSignals st)"

definition review_reasons ::
  "signal_state \<Rightarrow> int \<Rightarrow> decision_band \<Rightarrow> threshold_profile \<Rightarrow> bool \<Rightarrow>
   commercial_subtype \<Rightarrow> legacy_strength \<Rightarrow> string list" where
  "review_reasons st confidence band thresholds hasCampaignDependentEvidence primary strength =
     (let confident = (confidence \<ge> deleteThreshold thresholds \<and>
                       (hasPrice st \<or> hasContact st \<or> hasTransactional st));
          suppressPropertyAgent = (primary = PROPERTY_AGENT \<and> confident);
          suppressStructuredGoods =
            ((primary = GOODS_RETAIL \<or> primary = PROPERTY_COMMERCIAL) \<and> confident);
          push = (\<lambda>c reason. if c then [reason] else [])
      in push (band \<noteq> HIGH) ''medium-band'' @
         push (confidence \<le> warnThreshold thresholds + nearWarnWindow) ''near-threshold'' @
         push ((hasStrongNegativeContext st \<or> length (negativeSignals st) > 0) \<and>
               \<not> suppressPropertyAgent \<and> \<not> suppressStructuredGoods)
           ''conflicting-negative-signals'' @
         push (hasCampaignDependentEvidence \<and> strength = Legacy_Campaign) ''campaign-dependent'' @
         push (''recruitment:marketplace-review-work'' \<in> set (matchedSignals st) \<or>
               ''recruitment:paid-social-actions-work'' \<in> set (matchedSignals st))
           ''paid-review-work'' @
         push (exclusive_wellness_offer primary st) ''organized-wellness-trip'' @
         push (primary = GENERIC \<or> primary = GOODS) ''generic-subtype'' @
         push (hasPrivateSaleContext st \<and>
               (hasServiceContext st \<or> hasPropertyAgentContext st \<or>
                hasCommercialPropertyContext st) \<and>
               \<not> suppressPropertyAgent \<and> \<not> suppressStructuredGoods)
           ''private-sale-override'')"

definition review_recommended :: "decision_band \<Rightarrow> string list \<Rightarrow> bool" where
  "review_recommended band reasons \<longleftrightarrow>
     length reasons > 0 \<and>
     (band \<noteq> HIGH \<or> ''campaign-dependent'' \<in> set reasons \<or> ''paid-review-work'' \<in> set reasons \<or>
      ''generic-subtype'' \<in> set reasons \<or> ''conflicting-negative-signals'' \<in> set reasons)"

definition classifyCommercialDetection ::
  "signal_state \<Rightarrow> int \<Rightarrow> decision_band \<Rightarrow> threshold_profile \<Rightarrow> bool \<Rightarrow> classification" where
  "classifyCommercialDetection st confidence band thresholds hasCampaignDependentEvidence =
     (let ranked = rank_subtypes (collect_subtypes st);
          primary = primary_of ranked;
          ev = resolveCommercialEvidenceProfile st (Some thresholds) None;
          strength = evidence_strength ev hasCampaignDependentEvidence;
          reasons = review_reasons st confidence band thresholds hasCampaignDependentEvidence
                      primary strength
      in \<lparr>primarySubtype = primary,
          supportingSubtypes = unique (supporting_of ranked),
          evidenceStrength = strength,
          reviewRecommended = review_recommended band reasons,
          reviewReasons = unique reasons\<rparr>)"

section \<open>Anchors\<close>

fun hasCommercialAnchor :: "required_anchor \<Rightarrow> feature_vector \<Rightarrow> string list \<Rightarrow> bool" where
  "hasCommercialAnchor Commercial_Intent fv ms \<longleftrightarrow>
     commercialIntent fv > 0 \<or> highRisk fv > 0 \<or> has_prefix ms ''business:'' \<or>
     has_prefix ms ''promo:''"
| "hasCommercialAnchor Service_Specialty fv ms \<longleftrightarrow>
     has_prefix ms ''service-specialty:'' \<or> has_prefix ms ''intent:''"
| "hasCommercialAnchor Retail_Structure fv ms \<longleftrightarrow>
     has_prefix ms ''goods-retail:'' \<or> ''transaction:price'' \<in> set ms \<or>
     ''combo:contact+price'' \<in> set ms"
| "hasCommercialAnchor Channel_Audience fv ms \<longleftrightarrow>
     has_prefix ms ''channel-placement:'' \<or> has_prefix ms ''audience:'' \<or>
     has_prefix ms ''group-promo:''"
| "hasCommercialAnchor Property_Agency fv ms \<longleftrightarrow> has_prefix ms ''property-agent:''"
| "hasCommercialAnchor Commercial_Property fv ms \<longleftrightarrow> has_prefix ms ''property-commercial:''"
| "hasCommercialAnchor Recruitment_Anchor fv ms \<longleftrightarrow>
     has_prefix ms ''recruitment:'' \<or> has_prefix ms ''risk:structured-job-vacancy''"
| "hasCommercialAnchor Info_Product fv ms \<longleftrightarrow> has_prefix ms ''info:''"
| "hasCommercialAnchor Buyout_Anchor fv ms \<longleftrightarrow> has_prefix ms ''buyout:''"
| "hasCommercialAnchor High_Risk fv ms \<longleftrightarrow> highRisk fv > 0"
| "hasCommercialAnchor Deal_Evidence fv ms \<longleftrightarrow>
     dealEvidence fv > 0 \<or> contactEvidence fv > 0 \<or> priceStructure fv > 0"
| "hasCommercialAnchor Contact_Evidence fv ms \<longleftrightarrow>
     contactEvidence fv > 0 \<or> has_prefix ms ''deal-channel:''"
| "hasCommercialAnchor Price_Structure fv ms \<longleftrightarrow> priceStructure fv > 0"
| "hasCommercialAnchor Cta fv ms \<longleftrightarrow> cta fv > 0"
| "hasCommercialAnchor Mass_Distribution fv ms \<longleftrightarrow> massDistribution fv > 0"

definition resolveMissingCommercialAnchors ::
  "commercial_subtype \<Rightarrow> feature_vector \<Rightarrow> string list \<Rightarrow> required_anchor list" where
  "resolveMissingCommercialAnchors subtype fv ms =
     filter (\<lambda>a. \<not> hasCommercialAnchor a fv ms)
       (policy_requiredAnchors (getCommercialSubtypePolicy subtype))"

section \<open>Ranking\<close>

lemma add_subtype_ok: "jsmap_ok m \<Longrightarrow> jsmap_ok (add_subtype s n m)"
  by (simp add: add_subtype_def)

lemma if_ok: "jsmap_ok m \<Longrightarrow> jsmap_ok (if c then add_subtype s n m else m)"
  by (simp add: add_subtype_ok)

lemma fold_additions_ok:
  "jsmap_ok m \<Longrightarrow>
   jsmap_ok (fold (\<lambda>(c, s, score) m. if c then add_subtype s score m else m) xs m)"
proof (induction xs arbitrary: m)
  case (Cons x xs)
  obtain c s n where x: "x = (c, s, n)" by (cases x)
  show ?case
    unfolding x fold_Cons comp_def prod.case by (rule Cons.IH) (rule if_ok [OF Cons.prems])
qed (simp only: fold_Nil id_apply)

lemma collect_subtypes_ok: "jsmap_ok (collect_subtypes st)"
proof -
  have "jsmap_ok (fold (\<lambda>(c, s, score) m. if c then add_subtype s score m else m)
      (subtype_additions st) [])" (is "jsmap_ok ?m")
    by (rule fold_additions_ok) simp
  then have "jsmap_ok (if length ?m = 0 then add_subtype GENERIC (sub_GENERIC subtypeScores) ?m else ?m)"
    by (rule if_ok)
  then show ?thesis by (simp only: collect_subtypes_def Let_def)
qed

lemma add_subtype_nonempty: "add_subtype s n m \<noteq> []"
  by (cases m) (auto simp: add_subtype_def)

lemma collect_subtypes_nonempty: "collect_subtypes st \<noteq> []"
  by (simp add: collect_subtypes_def Let_def add_subtype_nonempty)

lemma rank_subtypes_set: "set (rank_subtypes m) = set m" "length (rank_subtypes m) = length m"
  by (simp_all add: rank_subtypes_def)

lemma rank_subtypes_ok: "jsmap_ok m \<Longrightarrow> jsmap_ok (rank_subtypes m)"
  by (simp add: rank_subtypes_def distinct_map)

lemma rank_subtypes_sorted:
  "sorted_wrt (\<lambda>(s, m) (s', n). n \<le> m) (rank_subtypes scores)"
proof -
  have "sorted (map (\<lambda>(s, score). (- score, subtype_name s)) (rank_subtypes scores))"
    by (simp add: rank_subtypes_def)
  then show ?thesis
    unfolding sorted_map by (rule sorted_wrt_mono_rel [rotated]) auto
qed

text \<open>What the ranked scores say about the primary and the supporting subtypes.\<close>

lemma ranked_classification:
  assumes ok: "jsmap_ok scores" and nonempty: "scores \<noteq> []"
  defines "ranked \<equiv> rank_subtypes scores"
  obtains best where "jsmap_get scores (primary_of ranked) = Some best"
    and "\<And>s n. jsmap_get scores s = Some n \<Longrightarrow> n \<le> best"
    and "distinct (supporting_of ranked)" and "primary_of ranked \<notin> set (supporting_of ranked)"
    and "length (supporting_of ranked) \<le> 3"
    and "\<And>s. s \<in> set (supporting_of ranked) \<Longrightarrow> \<exists>n. jsmap_get scores s = Some n \<and> best - 24 \<le> n"
proof -
  obtain p best rest where ranked: "ranked = (p, best) # rest"
    using rank_subtypes_set(2) [of scores] nonempty unfolding ranked_def
    by (cases "rank_subtypes scores") auto
  have set: "set ((p, best) # rest) = set scores"
    using rank_subtypes_set(1) [of scores] ranked by (simp add: ranked_def)
  have dist: "jsmap_ok ((p, best) # rest)"
    using rank_subtypes_ok [OF ok] ranked by (simp add: ranked_def)
  have get: "jsmap_get scores s = Some n \<longleftrightarrow> (s, n) \<in> set ((p, best) # rest)" for s n
    using ok set by (metis map_of_SomeD map_of_is_SomeI)
  have le: "n \<le> best" if "(s, n) \<in> set rest" for s n
    using rank_subtypes_sorted [of scores] ranked that by (auto simp: ranked_def)
  let ?near = "filter (\<lambda>(_, score). score \<ge> best - 24) rest"
  have sup: "supporting_of ranked = map fst (take 3 ?near)"
    by (simp add: supporting_of_def ranked subtypeScores_def)
  have near: "\<exists>n. (s, n) \<in> set rest \<and> best - 24 \<le> n" if s: "s \<in> set (supporting_of ranked)" for s
  proof -
    obtain n where "(s, n) \<in> set (take 3 ?near)" using s by (auto simp: sup)
    then show ?thesis using set_take_subset [of 3 ?near] by auto
  qed
  show ?thesis
  proof (rule that [of best])
    show "jsmap_get scores (primary_of ranked) = Some best"
      using get by (simp add: primary_of_def ranked)
    show "n \<le> best" if "jsmap_get scores s = Some n" for s n
      using that get le by auto
    show "distinct (supporting_of ranked)"
      using dist unfolding sup take_map [symmetric]
      by (intro distinct_take) (simp add: distinct_map inj_on_def)
    show "primary_of ranked \<notin> set (supporting_of ranked)"
    proof
      assume "primary_of ranked \<in> set (supporting_of ranked)"
      then obtain n where "(p, n) \<in> set rest" using near by (auto simp: primary_of_def ranked)
      then show False using dist by force
    qed
    show "length (supporting_of ranked) \<le> 3" by (simp add: sup)
    show "\<exists>n. jsmap_get scores s = Some n \<and> best - 24 \<le> n" if "s \<in> set (supporting_of ranked)" for s
      using near [OF that] unfolding get by auto
  qed
qed

section \<open>Properties\<close>

text \<open>
  The classifier picks a subtype of maximal score among those it collected; the supporting
  subtypes are at most three, distinct, different from the primary one and within 24 points of it;
  review reasons are distinct, and a review is recommended only with a reason.
\<close>

theorem classification_ranks:
  fixes st :: signal_state and confidence :: int and band :: decision_band
    and thresholds :: threshold_profile and campaign_only :: bool
  defines "scores \<equiv> collect_subtypes st"
  defines "cl \<equiv> classifyCommercialDetection st confidence band thresholds campaign_only"
  shows "\<exists>best. jsmap_get scores (primarySubtype cl) = Some best \<and>
    best = Max (snd ` set scores) \<and>
    distinct (supportingSubtypes cl) \<and> length (supportingSubtypes cl) \<le> 3 \<and>
    primarySubtype cl \<notin> set (supportingSubtypes cl) \<and>
    set (supportingSubtypes cl) \<subseteq> {s. \<exists>n. jsmap_get scores s = Some n \<and> best - 24 \<le> n} \<and>
    distinct (reviewReasons cl) \<and> (reviewReasons cl = [] \<longrightarrow> \<not> reviewRecommended cl)"
proof -
  have ok: "jsmap_ok scores" "scores \<noteq> []"
    by (simp_all only: scores_def collect_subtypes_ok collect_subtypes_nonempty not_False_eq_True)
  obtain best where b: "jsmap_get scores (primary_of (rank_subtypes scores)) = Some best"
    "\<And>s n. jsmap_get scores s = Some n \<Longrightarrow> n \<le> best"
    "distinct (supporting_of (rank_subtypes scores))"
    "primary_of (rank_subtypes scores) \<notin> set (supporting_of (rank_subtypes scores))"
    "length (supporting_of (rank_subtypes scores)) \<le> 3"
    "\<And>s. s \<in> set (supporting_of (rank_subtypes scores)) \<Longrightarrow>
      \<exists>n. jsmap_get scores s = Some n \<and> best - 24 \<le> n"
    using ranked_classification [OF ok] by blast
  have max: "best = Max (snd ` set scores)"
  proof (rule Max_eqI [symmetric])
    show "n \<le> best" if n: "n \<in> snd ` set scores" for n
      using n b(2) ok(1) map_of_is_SomeI by fastforce
    show "best \<in> snd ` set scores" using map_of_SomeD [OF b(1)] by force
  qed simp
  have cl: "primarySubtype cl = primary_of (rank_subtypes scores)"
    "supportingSubtypes cl = unique (supporting_of (rank_subtypes scores))"
    "distinct (reviewReasons cl)"
    "reviewReasons cl = [] \<longrightarrow> \<not> reviewRecommended cl"
    by (simp_all only: cl_def scores_def classifyCommercialDetection_def Let_def
        classification.simps distinct_unique unique_Nil_iff review_recommended_def) simp
  have len: "length (unique (supporting_of (rank_subtypes scores))) \<le> 3"
    using b(3,5) by (simp add: unique_distinct)
  show ?thesis
    unfolding cl(1,2) using b max len cl(3,4) by auto
qed

theorem classification_ranks_witness:
  "length (supportingSubtypes (classifyCommercialDetection (plain_state []) 50 LOW
     \<lparr>warnThreshold = 45, deleteThreshold = 65, strict_sensitivity = False, strictness = 0\<rparr> False))
   \<le> 3"
  using classification_ranks [of "plain_state []" 50 LOW "\<lparr>warnThreshold = 45, deleteThreshold = 65,
    strict_sensitivity = False, strictness = 0\<rparr>" False] by blast

end
