(* ===== verification/Commercial_Policy.thy ===== *)
theory Commercial_Policy
  imports Commercial_Subtypes
begin

text \<open>
  \<^verbatim>\<open>apps/api/src/moderation/commercial/commercial-action-policy.ts\<close>: from the evidence of
  a detection to what is done with the message.  \<^verbatim>\<open>resolveCommercialActionPolicy\<close> is one
  long function of early returns; it is modelled in three stages, each of which returns
  \<open>None\<close> where the code falls through to the next.  The disposition \<^verbatim>\<open>'DELETE'\<close>
  is the constructor \<open>REMOVE\<close>.
\<close>

section \<open>Input and disposition\<close>

record policy_input =
  in_confidenceScore :: int
  in_deleteThreshold :: int
  in_warnThreshold :: int
  in_fpRisk :: int
  in_evidenceTier :: evidence_tier
  in_subtype :: commercial_subtype
  in_reviewRecommended :: bool
  in_reviewReasons :: "string list"
  in_missingRequiredAnchors :: "required_anchor list"
  in_featureVector :: feature_vector
  in_safeContextBucket :: safe_context
  in_campaignStrength :: campaign_strength
  in_hasCampaignContext :: bool
  in_hasDirectDealEvidence :: bool
  in_hasNonCampaignDirectDealEvidence :: bool
  in_hasHighRiskEvidence :: bool
  in_hasEscalationRiskEvidence :: bool
  in_hasLocalEscalationOfferEvidence :: bool
  in_hasStructuredTransportEvidence :: bool
  in_hasReviewOnlyTransportEvidence :: bool
  in_hasWarnCappedRecallEvidence :: bool
  in_hasReviewCappedRecallEvidence :: bool
  in_hasConservativeRecallEvidence :: bool
  in_hasIndependentCommercialOfferEvidence :: bool

fun band_name :: "action_band \<Rightarrow> string" where
  "band_name ALLOW = ''ALLOW''"
| "band_name REVIEW_ONLY = ''REVIEW_ONLY''"
| "band_name WARN = ''WARN''"
| "band_name DELETE = ''DELETE''"
| "band_name DELETE_AND_ESCALATE = ''DELETE_AND_ESCALATE''"

fun safe_context_name :: "safe_context \<Rightarrow> string" where
  "safe_context_name Rules_Or_Moderation_Context = ''rules_or_moderation_context''"
| "safe_context_name Spam_Complaint_Or_Fraud_Warning = ''spam_complaint_or_fraud_warning''"
| "safe_context_name News_Or_Analytics = ''news_or_analytics''"
| "safe_context_name Brand_Mention_Only = ''brand_mention_only''"
| "safe_context_name Private_One_Off_Sale = ''private_one_off_sale''"
| "safe_context_name Ordinary_Recruitment = ''ordinary_recruitment''"
| "safe_context_name Public_Training_Or_Help = ''public_training_or_help''"
| "safe_context_name Request_Or_Recommendation = ''request_or_recommendation''"
| "safe_context_name No_Safe_Context = ''none''"

text \<open>An unset disposition argument is \<open>None\<close>, any value that is not the string
  \<^verbatim>\<open>'DELETE'\<close> is some other string.\<close>

definition isCommercialMessageDeleteEligible ::
  "string option \<Rightarrow> bool \<Rightarrow> string option \<Rightarrow> bool" where
  "isCommercialMessageDeleteEligible actionBand actionable messageDisposition \<longleftrightarrow>
     actionable \<and> (messageDisposition = None \<or> messageDisposition = Some ''DELETE'') \<and>
     (actionBand = Some ''WARN'' \<or> actionBand = Some ''DELETE'' \<or>
      actionBand = Some ''DELETE_AND_ESCALATE'')"

definition resolveCommercialMessageDisposition ::
  "string option \<Rightarrow> bool \<Rightarrow> string option \<Rightarrow> message_disposition" where
  "resolveCommercialMessageDisposition actionBand actionable messageDisposition =
     (if isCommercialMessageDeleteEligible actionBand actionable messageDisposition
      then REMOVE else KEEP)"

section \<open>Score, priority and suppression\<close>

definition resolveCommercialActionScore :: "policy_input \<Rightarrow> int" where
  "resolveCommercialActionScore i =
     (let adj = scoreAdjustments;
          score = in_confidenceScore i
            + (if in_hasDirectDealEvidence i then adj_directDeal adj else 0)
            + (if in_hasHighRiskEvidence i then adj_highRisk adj else 0)
            + (if in_hasEscalationRiskEvidence i \<and> in_hasLocalEscalationOfferEvidence i
               then adj_escalationRisk adj else 0)
            + (case in_campaignStrength i of
                 STRENGTH_STANDARD \<Rightarrow> adj_standardCampaign adj
               | STRENGTH_STRONG \<Rightarrow> adj_strongCampaign adj
               | STRENGTH_WEAK \<Rightarrow> adj_weakCampaign adj
               | STRENGTH_NONE \<Rightarrow> 0)
            - (if in_reviewRecommended i then adj_reviewRecommended adj else 0)
            - (if length (in_missingRequiredAnchors i) > 0 then adj_missingAnchor adj else 0)
            - (if in_fpRisk i \<ge> highFpRiskThreshold then adj_highFpRisk adj else 0)
            - (if in_safeContextBucket i \<noteq> No_Safe_Context then adj_safeContext adj else 0)
      in max 0 (min 100 score))"

definition resolveCommercialReviewPriority :: "policy_input \<Rightarrow> int \<Rightarrow> review_priority" where
  "resolveCommercialReviewPriority i actionScore =
     (if in_confidenceScore i < in_warnThreshold i then PRIORITY_NONE
      else if in_hasEscalationRiskEvidence i \<and> in_hasLocalEscalationOfferEvidence i
      then PRIORITY_URGENT
      else if in_safeContextBucket i \<noteq> No_Safe_Context \<or> in_fpRisk i \<ge> highFpRiskThreshold \<or>
              length (in_missingRequiredAnchors i) > 0
      then PRIORITY_HIGH
      else if in_reviewRecommended i \<or> length (in_reviewReasons i) > 0 then PRIORITY_MEDIUM
      else if actionScore \<ge> in_deleteThreshold i \<or> in_hasDirectDealEvidence i then PRIORITY_LOW
      else PRIORITY_LOW)"

definition shouldSuppressDeleteForSafeContext :: "policy_input \<Rightarrow> bool" where
  "shouldSuppressDeleteForSafeContext i =
     (case in_safeContextBucket i of No_Safe_Context \<Rightarrow> False | _ \<Rightarrow> True)"

definition shouldSuppressDeleteForSubtype :: "policy_input \<Rightarrow> bool" where
  "shouldSuppressDeleteForSubtype i =
     (let policy = getCommercialSubtypePolicy (in_subtype i);
          fv = in_featureVector i;
          direct = in_hasDirectDealEvidence i;
          escalation = in_hasEscalationRiskEvidence i;
          strong = (in_campaignStrength i = STRENGTH_STRONG)
      in if in_evidenceTier i \<notin> set (policy_deleteAllowedEvidence policy) then True
         else (case in_subtype i of
             GENERIC \<Rightarrow> \<not> escalation
           | GOODS \<Rightarrow> \<not> (escalation \<or> (in_hasHighRiskEvidence i \<and> direct) \<or> (strong \<and> direct))
           | PROPERTY_AGENT \<Rightarrow> \<not> (escalation \<or> (direct \<and> (businessContext fv > 0 \<or> strong)))
           | PROPERTY_COMMERCIAL \<Rightarrow> \<not> (escalation \<or> (direct \<and> (businessContext fv > 0 \<or> strong)))
           | CHANNEL_PLACEMENT \<Rightarrow>
               \<not> (direct \<and> (priceStructure fv > 0 \<or> contactEvidence fv > 0 \<or>
                            dealEvidence fv > 0 \<or> strong))
           | GROUP_PROMOTION \<Rightarrow>
               \<not> (direct \<and> (priceStructure fv > 0 \<or> contactEvidence fv > 0 \<or>
                            dealEvidence fv > 0 \<or> strong))
           | RECRUITMENT \<Rightarrow> \<not> (direct \<or> escalation \<or> highRisk fv > 0)
           | GOODS_RETAIL \<Rightarrow>
               \<not> (escalation \<or>
                  (direct \<and> (businessContext fv > 0 \<or> massDistribution fv > 0 \<or> strong)))
           | SERVICES \<Rightarrow>
               \<not> (escalation \<or>
                  (direct \<and> (businessContext fv > 0 \<or> priceStructure fv > 0 \<or>
                             massDistribution fv > 0 \<or> strong)))
           | _ \<Rightarrow> \<not> direct \<and> \<not> escalation))"

definition buildDecision ::
  "policy_input \<Rightarrow> action_band \<Rightarrow> int \<Rightarrow> review_priority \<Rightarrow> string list \<Rightarrow> policy_decision" where
  "buildDecision i band actionScore priority reasons =
     \<lparr>dec_actionBand = band,
      dec_messageDisposition = resolveCommercialMessageDisposition (Some (band_name band)) True None,
      dec_actionScore = actionScore,
      dec_reviewPriority = priority,
      dec_actionable = (band \<noteq> ALLOW \<and> band \<noteq> REVIEW_ONLY),
      dec_recordable = (band \<noteq> ALLOW \<and> band \<noteq> REVIEW_ONLY),
      dec_deleteSuppressed =
        (length reasons > 0 \<and>
         (actionScore \<ge> hardDeleteScoreThreshold \<or>
          in_confidenceScore i \<ge> hardDeleteScoreThreshold) \<and>
         band \<noteq> DELETE \<and> band \<noteq> DELETE_AND_ESCALATE),
      dec_suppressionReasons = reasons\<rparr>"

section \<open>The policy\<close>

definition independent_delete_eligible :: "policy_input \<Rightarrow> int \<Rightarrow> bool" where
  "independent_delete_eligible i actionScore \<longleftrightarrow>
     in_hasIndependentCommercialOfferEvidence i \<and> in_hasNonCampaignDirectDealEvidence i \<and>
     in_hasDirectDealEvidence i \<and> in_confidenceScore i \<ge> in_deleteThreshold i \<and>
     actionScore \<ge> in_deleteThreshold i \<and> in_fpRisk i < highFpRiskThreshold \<and>
     length (in_missingRequiredAnchors i) = 0 \<and> \<not> shouldSuppressDeleteForSafeContext i \<and>
     \<not> shouldSuppressDeleteForSubtype i"

definition review_or_warn :: "policy_input \<Rightarrow> review_priority \<Rightarrow> action_band" where
  "review_or_warn i priority =
     (if in_reviewRecommended i \<or> priority = PRIORITY_HIGH \<or> priority = PRIORITY_URGENT
      then REVIEW_ONLY else WARN)"

definition safe_context_reason :: "policy_input \<Rightarrow> string" where
  "safe_context_reason i = ''safe-context:'' @ safe_context_name (in_safeContextBucket i)"

text \<open>Confidence below the warning threshold, foreign escalation offers, private sales.\<close>

definition policy_gate :: "policy_input \<Rightarrow> int \<Rightarrow> review_priority \<Rightarrow> policy_decision option" where
  "policy_gate i actionScore priority =
     (if in_hasReviewOnlyTransportEvidence i \<and> in_confidenceScore i < in_warnThreshold i \<and>
         \<not> in_hasStructuredTransportEvidence i \<and> \<not> in_hasConservativeRecallEvidence i \<and>
         \<not> in_hasIndependentCommercialOfferEvidence i \<and> \<not> in_hasEscalationRiskEvidence i
      then Some (buildDecision i REVIEW_ONLY actionScore priority
                   [''ambiguous-transport-review-only''])
      else if in_confidenceScore i < in_warnThreshold i
      then Some (buildDecision i ALLOW actionScore PRIORITY_NONE [])
      else if in_hasEscalationRiskEvidence i \<and> \<not> in_hasLocalEscalationOfferEvidence i
      then (let own = (in_hasIndependentCommercialOfferEvidence i \<and>
                       in_hasNonCampaignDirectDealEvidence i)
            in Some (buildDecision i (if own then WARN else REVIEW_ONLY) actionScore
                 (if own then PRIORITY_LOW
                  else if priority = PRIORITY_NONE then PRIORITY_HIGH else priority)
                 [''non-local-escalation-offer'']))
      else if shouldSuppressDeleteForSafeContext i \<and>
              in_safeContextBucket i = Private_One_Off_Sale \<and> \<not> in_hasHighRiskEvidence i
      then Some (buildDecision i REVIEW_ONLY actionScore priority [safe_context_reason i])
      else None)"

text \<open>Evidence whose authority is capped: recall rules, wellness trips, campaigns alone.\<close>

definition policy_caps :: "policy_input \<Rightarrow> int \<Rightarrow> review_priority \<Rightarrow> policy_decision option" where
  "policy_caps i actionScore priority =
     (let safe = shouldSuppressDeleteForSafeContext i;
          eligible = independent_delete_eligible i actionScore
      in if in_hasWarnCappedRecallEvidence i \<and> \<not> eligible \<and> \<not> in_hasEscalationRiskEvidence i
      then (if safe
            then Some (buildDecision i REVIEW_ONLY actionScore priority
                   [''bounded-recall-warn-cap'', safe_context_reason i])
            else Some (buildDecision i WARN actionScore priority [''bounded-recall-warn-cap'']))
      else if in_hasReviewCappedRecallEvidence i \<and> \<not> eligible \<and> \<not> in_hasEscalationRiskEvidence i
      then Some (buildDecision i REVIEW_ONLY actionScore
                   (if priority = PRIORITY_NONE then PRIORITY_MEDIUM else priority)
                   [''bounded-recall-review-cap''])
      else if in_hasConservativeRecallEvidence i \<and> \<not> in_hasIndependentCommercialOfferEvidence i \<and>
              \<not> in_hasEscalationRiskEvidence i
      then (if safe
            then Some (buildDecision i REVIEW_ONLY actionScore priority
                   [''conservative-recall-warn-cap'', safe_context_reason i])
            else Some (buildDecision i WARN actionScore priority [''conservative-recall-warn-cap'']))
      else if in_subtype i = SERVICES \<and>
              ''organized-wellness-trip'' \<in> set (in_reviewReasons i) \<and>
              \<not> in_hasEscalationRiskEvidence i
      then Some (buildDecision i WARN actionScore priority [])
      else if in_hasCampaignContext i \<and> \<not> in_hasNonCampaignDirectDealEvidence i
      then Some (buildDecision i (review_or_warn i priority) actionScore priority
                   [''campaign-only''])
      else None)"

text \<open>The decision proper; \<open>base\<close> are the reasons pushed before the first return.\<close>

definition policy_decide :: "policy_input \<Rightarrow> int \<Rightarrow> review_priority \<Rightarrow> policy_decision" where
  "policy_decide i actionScore priority =
     (let safe = shouldSuppressDeleteForSafeContext i;
          subtypeSuppressed = shouldSuppressDeleteForSubtype i;
          complete = (length (in_missingRequiredAnchors i) = 0);
          reviewOrWarn = review_or_warn i priority;
          reachesDelete = (in_confidenceScore i \<ge> in_deleteThreshold i \<and>
                           actionScore \<ge> in_deleteThreshold i);
          base = (if \<not> complete then [''missing-subtype-anchor''] else []) @
                 (if subtypeSuppressed
                  then [''subtype-policy:'' @ subtype_name (in_subtype i)] else [])
      in if reachesDelete \<and> in_hasEscalationRiskEvidence i \<and>
            in_hasLocalEscalationOfferEvidence i \<and> \<not> safe \<and> complete
         then buildDecision i DELETE_AND_ESCALATE actionScore PRIORITY_URGENT base
         else if in_fpRisk i \<ge> highFpRiskThreshold \<and> \<not> in_hasEscalationRiskEvidence i
         then buildDecision i
                (if safe then REVIEW_ONLY else if in_reviewRecommended i then REVIEW_ONLY else WARN)
                actionScore priority (base @ [''high-fp-risk''])
         else if safe
         then buildDecision i REVIEW_ONLY actionScore priority (base @ [safe_context_reason i])
         else if in_hasStructuredTransportEvidence i \<and>
                 \<not> in_hasIndependentCommercialOfferEvidence i \<and> \<not> in_hasEscalationRiskEvidence i
         then buildDecision i reviewOrWarn actionScore priority
                (base @ [''structured-transport-warn-cap''])
         else if reachesDelete
         then (if in_hasDirectDealEvidence i \<and> complete \<and> \<not> safe \<and> \<not> subtypeSuppressed
               then buildDecision i DELETE actionScore priority base
               else buildDecision i (if safe \<or> \<not> complete then REVIEW_ONLY else reviewOrWarn)
                      actionScore priority base)
         else buildDecision i reviewOrWarn actionScore priority base)"

definition policy_stages :: "policy_input \<Rightarrow> int \<Rightarrow> review_priority \<Rightarrow> policy_decision" where
  "policy_stages i actionScore priority =
     (case policy_gate i actionScore priority of
        Some decision \<Rightarrow> decision
      | None \<Rightarrow>
          (case policy_caps i actionScore priority of
             Some decision \<Rightarrow> decision
           | None \<Rightarrow> policy_decide i actionScore priority))"

definition resolveCommercialActionPolicy :: "policy_input \<Rightarrow> policy_decision" where
  "resolveCommercialActionPolicy i =
     (let actionScore = resolveCommercialActionScore i
      in policy_stages i actionScore (resolveCommercialReviewPriority i actionScore))"

section \<open>What the decisions mean\<close>

named_theorems decision_simps \<open>fields of a built decision\<close>

lemma buildDecision_fields [decision_simps]:
  "dec_actionBand (buildDecision i b s p rs) = b"
  "dec_actionScore (buildDecision i b s p rs) = s"
  "dec_reviewPriority (buildDecision i b s p rs) = p"
  "dec_suppressionReasons (buildDecision i b s p rs) = rs"
  by (simp_all add: buildDecision_def)

lemma disposition_of_band:
  "resolveCommercialMessageDisposition (Some (band_name b)) True None = REMOVE \<longleftrightarrow>
   b = WARN \<or> b = DELETE \<or> b = DELETE_AND_ESCALATE"
  by (cases b) (simp_all add: resolveCommercialMessageDisposition_def
      isCommercialMessageDeleteEligible_def)

lemma safe_context_suppresses:
  "shouldSuppressDeleteForSafeContext i \<longleftrightarrow> in_safeContextBucket i \<noteq> No_Safe_Context"
  by (simp add: shouldSuppressDeleteForSafeContext_def split: safe_context.splits)

lemma clamp_range: "0 \<le> max 0 (min 100 (x :: int)) \<and> max 0 (min 100 x) \<le> 100"
  by simp

lemma action_score_range:
  "0 \<le> resolveCommercialActionScore i \<and> resolveCommercialActionScore i \<le> 100"
  unfolding resolveCommercialActionScore_def Let_def by (rule clamp_range)

text \<open>A property of the decision is checked return by return.\<close>

definition on_return :: "('a \<Rightarrow> bool) \<Rightarrow> 'a option \<Rightarrow> bool" where
  "on_return P r = (case r of None \<Rightarrow> True | Some d \<Rightarrow> P d)"

lemma on_return_simps [decision_simps]:
  "on_return P (Some d) = P d" "on_return P None = True"
  "on_return P (if c then x else y) = ((c \<longrightarrow> on_return P x) \<and> (\<not> c \<longrightarrow> on_return P y))"
  by (simp_all add: on_return_def)

lemma policy_returns:
  assumes "on_return P (policy_gate i s p)" and "on_return P (policy_caps i s p)"
    and "policy_gate i s p = None \<Longrightarrow> policy_caps i s p = None \<Longrightarrow> P (policy_decide i s p)"
  shows "P (policy_stages i s p)"
proof (cases "policy_gate i s p")
  case gate: None
  then show ?thesis
    using assms(2,3) by (cases "policy_caps i s p") (simp_all only: policy_stages_def on_return_def
        option.case)
next
  case (Some d)
  then show ?thesis using assms(1) by (simp only: policy_stages_def on_return_def option.case)
qed

definition hard_delete :: "policy_decision \<Rightarrow> bool" where
  "hard_delete d \<longleftrightarrow> dec_actionBand d = DELETE \<or> dec_actionBand d = DELETE_AND_ESCALATE"

lemma hard_delete_built [decision_simps]:
  "hard_delete (buildDecision i b s p rs) = (b = DELETE \<or> b = DELETE_AND_ESCALATE)"
  by (simp add: hard_delete_def decision_simps)

lemma review_or_warn_bands [simp]:
  "review_or_warn i p \<noteq> DELETE" "review_or_warn i p \<noteq> DELETE_AND_ESCALATE"
  "review_or_warn i p \<noteq> ALLOW"
  by (simp_all add: review_or_warn_def)

lemma policy_gate_soft: "on_return (\<lambda>d. \<not> hard_delete d) (policy_gate i s p)"
  unfolding policy_gate_def Let_def by (simp add: decision_simps)

lemma policy_caps_soft: "on_return (\<lambda>d. \<not> hard_delete d) (policy_caps i s p)"
  unfolding policy_caps_def Let_def by (simp add: decision_simps)

lemma policy_gate_above_warn: "policy_gate i s p = None \<Longrightarrow> in_warnThreshold i \<le> in_confidenceScore i"
  unfolding policy_gate_def Let_def by (simp split: if_splits)

lemma policy_decide_hard:
  assumes "hard_delete (policy_decide i s p)"
  shows "in_deleteThreshold i \<le> in_confidenceScore i \<and> in_deleteThreshold i \<le> s \<and>
    in_missingRequiredAnchors i = [] \<and> in_safeContextBucket i = No_Safe_Context \<and>
    (dec_actionBand (policy_decide i s p) = DELETE_AND_ESCALATE \<longrightarrow>
       in_hasEscalationRiskEvidence i \<and> in_hasLocalEscalationOfferEvidence i) \<and>
    (dec_actionBand (policy_decide i s p) = DELETE \<longrightarrow>
       in_hasDirectDealEvidence i \<and> \<not> shouldSuppressDeleteForSubtype i \<and>
       (in_fpRisk i < highFpRiskThreshold \<or> in_hasEscalationRiskEvidence i))"
  using assms unfolding policy_decide_def Let_def
  by (auto simp: decision_simps safe_context_suppresses split: if_splits)

lemma policy_decide_hard_caps:
  assumes "policy_caps i s p = None"
  shows "(in_hasWarnCappedRecallEvidence i \<or> in_hasReviewCappedRecallEvidence i \<longrightarrow>
      independent_delete_eligible i s \<or> in_hasEscalationRiskEvidence i) \<and>
    (in_hasConservativeRecallEvidence i \<longrightarrow>
      in_hasIndependentCommercialOfferEvidence i \<or> in_hasEscalationRiskEvidence i) \<and>
    (in_hasCampaignContext i \<longrightarrow> in_hasNonCampaignDirectDealEvidence i)"
  using assms unfolding policy_caps_def Let_def by (auto split: if_splits)

lemma policy_hard_delete_source:
  "hard_delete (policy_stages i s p) \<Longrightarrow>
   policy_gate i s p = None \<and> policy_caps i s p = None \<and> policy_stages i s p = policy_decide i s p"
  using policy_gate_soft [of i s p] policy_caps_soft [of i s p]
  by (cases "policy_gate i s p"; cases "policy_caps i s p")
    (simp_all only: policy_stages_def on_return_def option.case simp_thms)

text \<open>The disposition of a built decision follows its band.\<close>

definition consistent :: "policy_decision \<Rightarrow> bool" where
  "consistent d \<longleftrightarrow>
     (dec_messageDisposition d = REMOVE) = dec_actionable d \<and>
     dec_recordable d = dec_actionable d \<and>
     dec_actionable d = (dec_actionBand d \<noteq> ALLOW \<and> dec_actionBand d \<noteq> REVIEW_ONLY) \<and>
     (dec_deleteSuppressed d \<longrightarrow> \<not> hard_delete d \<and> dec_suppressionReasons d \<noteq> [])"

lemma consistent_built [decision_simps]: "consistent (buildDecision i b s p rs)"
  using disposition_of_band [of b]
  by (cases b) (auto simp: consistent_def buildDecision_def hard_delete_def)

lemma policy_gate_consistent:
  "on_return (\<lambda>d. consistent d \<and> dec_actionScore d = s) (policy_gate i s p)"
  unfolding policy_gate_def Let_def by (simp add: decision_simps)

lemma policy_caps_consistent:
  "on_return (\<lambda>d. consistent d \<and> dec_actionScore d = s \<and> dec_actionBand d \<noteq> ALLOW) (policy_caps i s p)"
  unfolding policy_caps_def Let_def by (simp add: decision_simps)

lemma policy_decide_consistent:
  "consistent (policy_decide i s p) \<and> dec_actionScore (policy_decide i s p) = s \<and>
   dec_actionBand (policy_decide i s p) \<noteq> ALLOW"
  unfolding policy_decide_def Let_def by (simp add: decision_simps)

lemma on_return_mono: "on_return P r \<Longrightarrow> (\<And>d. P d \<Longrightarrow> Q d) \<Longrightarrow> on_return Q r"
  by (cases r) (auto simp: on_return_def)

lemma policy_consistent:
  "consistent (policy_stages i s p) \<and> dec_actionScore (policy_stages i s p) = s"
  by (rule policy_returns [where P = "\<lambda>d. consistent d \<and> dec_actionScore d = s"])
    (use policy_gate_consistent policy_caps_consistent policy_decide_consistent
      in \<open>blast intro: on_return_mono\<close>)+

lemma policy_gate_allow:
  "on_return (\<lambda>d. dec_actionBand d = ALLOW \<longrightarrow> in_confidenceScore i < in_warnThreshold i)
     (policy_gate i s p)"
  unfolding policy_gate_def Let_def by (simp add: decision_simps)

lemma policy_allow:
  "dec_actionBand (policy_stages i s p) = ALLOW \<Longrightarrow> in_confidenceScore i < in_warnThreshold i"
proof -
  have "dec_actionBand (policy_stages i s p) = ALLOW \<longrightarrow> in_confidenceScore i < in_warnThreshold i"
    by (rule policy_returns [where P = "\<lambda>d. dec_actionBand d = ALLOW \<longrightarrow> _"])
      (use policy_gate_allow policy_caps_consistent policy_decide_consistent
        in \<open>blast intro: on_return_mono\<close>)+
  then show "dec_actionBand (policy_stages i s p) = ALLOW \<Longrightarrow> ?thesis" by blast
qed

text \<open>Removal in a safe context.\<close>

lemma priority_above_warn:
  assumes "in_warnThreshold i \<le> in_confidenceScore i" "in_safeContextBucket i \<noteq> No_Safe_Context"
  shows "review_or_warn i (resolveCommercialReviewPriority i s) = REVIEW_ONLY"
  using assms by (simp add: review_or_warn_def resolveCommercialReviewPriority_def)

definition removes :: "policy_decision \<Rightarrow> bool" where
  "removes d \<longleftrightarrow> dec_messageDisposition d = REMOVE"

lemma removes_built [decision_simps]:
  "removes (buildDecision i b s p rs) = (b = WARN \<or> b = DELETE \<or> b = DELETE_AND_ESCALATE)"
  by (simp add: removes_def buildDecision_def disposition_of_band)

definition foreign_offer_with_own :: "policy_input \<Rightarrow> bool" where
  "foreign_offer_with_own i \<longleftrightarrow>
     in_hasEscalationRiskEvidence i \<and> \<not> in_hasLocalEscalationOfferEvidence i \<and>
     in_hasIndependentCommercialOfferEvidence i \<and> in_hasNonCampaignDirectDealEvidence i"

definition wellness_trip :: "policy_input \<Rightarrow> bool" where
  "wellness_trip i \<longleftrightarrow>
     in_subtype i = SERVICES \<and> ''organized-wellness-trip'' \<in> set (in_reviewReasons i) \<and>
     \<not> in_hasEscalationRiskEvidence i"

lemma policy_gate_removes:
  "on_return (\<lambda>d. removes d \<longrightarrow> foreign_offer_with_own i) (policy_gate i s p)"
  unfolding policy_gate_def Let_def foreign_offer_with_own_def by (simp add: decision_simps)

lemma policy_caps_safe:
  assumes "in_safeContextBucket i \<noteq> No_Safe_Context" "review_or_warn i p = REVIEW_ONLY"
  shows "on_return (\<lambda>d. removes d \<longrightarrow> wellness_trip i) (policy_caps i s p)"
  using assms unfolding policy_caps_def Let_def wellness_trip_def
  by (simp add: decision_simps safe_context_suppresses)

lemma policy_decide_safe:
  assumes "in_safeContextBucket i \<noteq> No_Safe_Context"
  shows "\<not> removes (policy_decide i s p)"
  using assms unfolding policy_decide_def Let_def
  by (simp add: decision_simps safe_context_suppresses)

section \<open>Properties\<close>

text \<open>A concrete detection for the witnesses: a confident, complete service offer.\<close>

definition sample_features :: feature_vector where
  "sample_features =
     \<lparr>commercialIntent = 1, dealEvidence = 1, contactEvidence = 1, businessContext = 1,
      massDistribution = 0, priceStructure = 1, cta = 0, negativePrivateContext = 0,
      questionContext = 0, highRisk = 0\<rparr>"

definition sample_input :: policy_input where
  "sample_input =
     \<lparr>in_confidenceScore = 80, in_deleteThreshold = 65, in_warnThreshold = 45, in_fpRisk = 10,
      in_evidenceTier = DIRECT, in_subtype = SERVICES, in_reviewRecommended = False,
      in_reviewReasons = [], in_missingRequiredAnchors = [],
      in_featureVector = sample_features, in_safeContextBucket = No_Safe_Context,
      in_campaignStrength = STRENGTH_NONE, in_hasCampaignContext = False,
      in_hasDirectDealEvidence = True, in_hasNonCampaignDirectDealEvidence = True,
      in_hasHighRiskEvidence = False, in_hasEscalationRiskEvidence = False,
      in_hasLocalEscalationOfferEvidence = False, in_hasStructuredTransportEvidence = False,
      in_hasReviewOnlyTransportEvidence = False, in_hasWarnCappedRecallEvidence = False,
      in_hasReviewCappedRecallEvidence = False, in_hasConservativeRecallEvidence = False,
      in_hasIndependentCommercialOfferEvidence = True\<rparr>"

text \<open>
  C9: The policy deletes a message outright (\<^verbatim>\<open>DELETE\<close> or
  \<^verbatim>\<open>DELETE_AND_ESCALATE\<close>) only if the confidence and the action score both reach the
  delete threshold, every anchor the subtype requires is present and no safe context was found; an
  escalation needs escalation-grade risk and a local offer, whatever the false-positive risk is; a
  plain delete needs direct deal evidence, a subtype for which deletion is not suppressed, and a
  false-positive risk below 70 unless the risk is escalation-grade.
\<close>

theorem commercial_hard_delete_requires:
  assumes "hard_delete (resolveCommercialActionPolicy i)"
  shows "in_warnThreshold i \<le> in_confidenceScore i \<and> in_deleteThreshold i \<le> in_confidenceScore i \<and>
    in_deleteThreshold i \<le> dec_actionScore (resolveCommercialActionPolicy i) \<and>
    in_missingRequiredAnchors i = [] \<and> in_safeContextBucket i = No_Safe_Context \<and>
    (dec_actionBand (resolveCommercialActionPolicy i) = DELETE_AND_ESCALATE \<longrightarrow>
       in_hasEscalationRiskEvidence i \<and> in_hasLocalEscalationOfferEvidence i) \<and>
    (dec_actionBand (resolveCommercialActionPolicy i) = DELETE \<longrightarrow>
       in_hasDirectDealEvidence i \<and> \<not> shouldSuppressDeleteForSubtype i \<and>
       (in_fpRisk i < 70 \<or> in_hasEscalationRiskEvidence i))"
proof -
  let ?s = "resolveCommercialActionScore i"
  let ?p = "resolveCommercialReviewPriority i ?s"
  have d: "resolveCommercialActionPolicy i = policy_stages i ?s ?p"
    by (simp only: resolveCommercialActionPolicy_def Let_def)
  have src: "policy_gate i ?s ?p = None" "policy_stages i ?s ?p = policy_decide i ?s ?p"
    using policy_hard_delete_source [of i ?s ?p] assms unfolding d by blast+
  have "dec_actionScore (policy_decide i ?s ?p) = ?s" using policy_decide_consistent by blast
  then show ?thesis
    using policy_decide_hard [of i ?s ?p] policy_gate_above_warn [OF src(1)] assms
    unfolding d src(2) highFpRiskThreshold_def by simp
qed

theorem commercial_hard_delete_requires_witness:
  "dec_actionBand (resolveCommercialActionPolicy sample_input) = DELETE \<and>
   in_deleteThreshold sample_input \<le> dec_actionScore (resolveCommercialActionPolicy sample_input)"
proof -
  have "dec_actionBand (resolveCommercialActionPolicy sample_input) = DELETE" by code_simp
  then show ?thesis
    using commercial_hard_delete_requires [of sample_input] by (simp add: hard_delete_def)
qed

text \<open>
  C24: No authority is borrowed: evidence capped at a warning or at a review never deletes a message
  outright unless an independent offer meets every condition of deletion by itself or the risk is
  escalation-grade; conservative recall needs an independent offer or that risk; and a campaign
  across chats needs direct deal evidence of its own.
\<close>

theorem commercial_caps_hold:
  assumes "hard_delete (resolveCommercialActionPolicy i)"
  shows "(in_hasWarnCappedRecallEvidence i \<or> in_hasReviewCappedRecallEvidence i \<longrightarrow>
      independent_delete_eligible i (resolveCommercialActionScore i) \<or>
      in_hasEscalationRiskEvidence i) \<and>
    (in_hasConservativeRecallEvidence i \<longrightarrow>
      in_hasIndependentCommercialOfferEvidence i \<or> in_hasEscalationRiskEvidence i) \<and>
    (in_hasCampaignContext i \<longrightarrow> in_hasNonCampaignDirectDealEvidence i)"
proof -
  have "policy_caps i (resolveCommercialActionScore i)
      (resolveCommercialReviewPriority i (resolveCommercialActionScore i)) = None"
    using assms policy_hard_delete_source unfolding resolveCommercialActionPolicy_def Let_def by blast
  then show ?thesis by (rule policy_decide_hard_caps)
qed

theorem commercial_caps_hold_witness:
  "independent_delete_eligible (sample_input\<lparr>in_hasWarnCappedRecallEvidence := True\<rparr>)
     (resolveCommercialActionScore (sample_input\<lparr>in_hasWarnCappedRecallEvidence := True\<rparr>))"
proof -
  have "hard_delete (resolveCommercialActionPolicy
      (sample_input\<lparr>in_hasWarnCappedRecallEvidence := True\<rparr>))"
    by code_simp
  from commercial_caps_hold [OF this] show ?thesis by (simp add: sample_input_def)
qed

text \<open>
  A message with a safe context (rules, warnings about fraud, news, requests, private sales, ...)
  is removed in two situations only: it carries a foreign escalation-grade signal beside an
  independent direct offer of its own, or it is an organized wellness trip.
\<close>

theorem commercial_safe_context_kept:
  assumes "in_safeContextBucket i \<noteq> No_Safe_Context"
    and "dec_messageDisposition (resolveCommercialActionPolicy i) = REMOVE"
  shows "foreign_offer_with_own i \<or> wellness_trip i"
proof -
  let ?s = "resolveCommercialActionScore i"
  let ?p = "resolveCommercialReviewPriority i ?s"
  let ?P = "\<lambda>d. removes d \<longrightarrow> foreign_offer_with_own i \<or> wellness_trip i"
  have "?P (policy_stages i ?s ?p)"
  proof (cases "policy_gate i ?s ?p")
    case None
    then have "review_or_warn i ?p = REVIEW_ONLY"
      by (intro priority_above_warn policy_gate_above_warn assms(1))
    from policy_caps_safe [OF assms(1) this, of ?s] policy_gate_removes [of i ?s ?p]
      policy_decide_safe [OF assms(1)]
    show ?thesis by (intro policy_returns [where P = ?P]) (auto elim: on_return_mono)
  next
    case (Some d)
    then show ?thesis
      using policy_gate_removes [of i ?s ?p] by (simp add: policy_stages_def on_return_def)
  qed
  then show ?thesis
    using assms(2) unfolding removes_def resolveCommercialActionPolicy_def Let_def by blast
qed

theorem commercial_safe_context_kept_witness:
  "wellness_trip (sample_input\<lparr>in_safeContextBucket := Private_One_Off_Sale,
     in_hasHighRiskEvidence := True, in_reviewReasons := [''organized-wellness-trip'']\<rparr>)"
proof -
  let ?i = "sample_input\<lparr>in_safeContextBucket := Private_One_Off_Sale,
    in_hasHighRiskEvidence := True, in_reviewReasons := [''organized-wellness-trip'']\<rparr>"
  have "dec_messageDisposition (resolveCommercialActionPolicy ?i) = REMOVE" by code_simp
  then have "foreign_offer_with_own ?i \<or> wellness_trip ?i"
    by (intro commercial_safe_context_kept) (simp add: sample_input_def)
  then show ?thesis by (simp add: sample_input_def foreign_offer_with_own_def)
qed

text \<open>
  Every decision is consistent: the message is removed exactly when the decision is actionable,
  that is for \<^verbatim>\<open>WARN\<close>, \<^verbatim>\<open>DELETE\<close> and
  \<^verbatim>\<open>DELETE_AND_ESCALATE\<close>, and then it is recorded; a suppressed deletion has a
  reason and is no outright delete; the action score lies between 0 and 100; and
  \<^verbatim>\<open>ALLOW\<close> is only given below the warning threshold.
\<close>

theorem commercial_decision_consistent:
  "consistent (resolveCommercialActionPolicy i) \<and>
   dec_actionScore (resolveCommercialActionPolicy i) \<in> {0..100} \<and>
   (dec_actionBand (resolveCommercialActionPolicy i) = ALLOW \<longrightarrow>
      in_confidenceScore i < in_warnThreshold i)"
  using policy_consistent policy_allow action_score_range [of i]
  unfolding resolveCommercialActionPolicy_def Let_def by auto

theorem commercial_decision_consistent_witness:
  "dec_actionBand (resolveCommercialActionPolicy (sample_input\<lparr>in_confidenceScore := 20\<rparr>)) = ALLOW \<and>
   consistent (resolveCommercialActionPolicy (sample_input\<lparr>in_confidenceScore := 20\<rparr>))"
proof -
  have "dec_actionBand (resolveCommercialActionPolicy (sample_input\<lparr>in_confidenceScore := 20\<rparr>)) = ALLOW"
    by code_simp
  then show ?thesis
    using commercial_decision_consistent [of "sample_input\<lparr>in_confidenceScore := 20\<rparr>"] by simp
qed

end
