(* ===== verification/Commercial_Explain.thy ===== *)
theory Commercial_Explain
  imports Commercial_Policy
begin

text \<open>
  \<^verbatim>\<open>apps/api/src/moderation/commercial/commercial-explain.ts\<close>: the step that turns a
  detection into an explained decision: feature vector, false-positive risk, policy, cohorts and
  reason codes.  The bucket of the safe context comes from regular expressions over the Russian text
  (\<^verbatim>\<open>commercial-safe-context.ts\<close>), which are not modelled: the recognizer is the
  argument \<open>derive_bucket\<close> of \<open>enrichCommercialDetection\<close>.
\<close>

section \<open>Names in reason codes\<close>

fun tier_name :: "evidence_tier \<Rightarrow> string" where
  "tier_name TIER_NONE = ''NONE''"
| "tier_name BORDERLINE = ''BORDERLINE''"
| "tier_name STRUCTURED = ''STRUCTURED''"
| "tier_name CAMPAIGN = ''CAMPAIGN''"
| "tier_name DIRECT = ''DIRECT''"
| "tier_name HIGH_RISK = ''HIGH_RISK''"

fun priority_name :: "review_priority \<Rightarrow> string" where
  "priority_name PRIORITY_NONE = ''NONE''"
| "priority_name PRIORITY_LOW = ''LOW''"
| "priority_name PRIORITY_MEDIUM = ''MEDIUM''"
| "priority_name PRIORITY_HIGH = ''HIGH''"
| "priority_name PRIORITY_URGENT = ''URGENT''"

fun strength_name :: "campaign_strength \<Rightarrow> string" where
  "strength_name STRENGTH_NONE = ''NONE''"
| "strength_name STRENGTH_WEAK = ''WEAK''"
| "strength_name STRENGTH_STANDARD = ''STANDARD''"
| "strength_name STRENGTH_STRONG = ''STRONG''"

fun anchor_name :: "required_anchor \<Rightarrow> string" where
  "anchor_name Commercial_Intent = ''commercialIntent''"
| "anchor_name Service_Specialty = ''serviceSpecialty''"
| "anchor_name Retail_Structure = ''retailStructure''"
| "anchor_name Channel_Audience = ''channelAudience''"
| "anchor_name Property_Agency = ''propertyAgency''"
| "anchor_name Commercial_Property = ''commercialProperty''"
| "anchor_name Recruitment_Anchor = ''recruitment''"
| "anchor_name Info_Product = ''infoProduct''"
| "anchor_name Buyout_Anchor = ''buyout''"
| "anchor_name High_Risk = ''highRisk''"
| "anchor_name Deal_Evidence = ''dealEvidence''"
| "anchor_name Contact_Evidence = ''contactEvidence''"
| "anchor_name Price_Structure = ''priceStructure''"
| "anchor_name Cta = ''cta''"
| "anchor_name Mass_Distribution = ''massDistribution''"

section \<open>Detection\<close>

record detection =
  det_rawText :: string
  det_analysisText :: "string option"
  det_confidenceScore :: int
  det_matchedSignals :: "string list"
  det_negativeSignals :: "string list"
  det_primarySubtype :: commercial_subtype
  det_evidenceStrength :: legacy_strength
  det_reviewRecommended :: bool
  det_reviewReasons :: "string list"
  det_campaignContext :: "campaign_context option"
  det_appliedThresholds :: threshold_profile
  det_classifierReasons :: "string list"
  det_hasActionDirectDealEvidence :: "bool option"
  det_hasNonCampaignDirectDealEvidence :: "bool option"
  det_hasEscalationRiskEvidence :: "bool option"
  det_requiredPolicyCohorts :: "string list option"

text \<open>The operator \<^verbatim>\<open>??\<close>.\<close>

definition or_else :: "'a option \<Rightarrow> 'a \<Rightarrow> 'a" where
  "or_else o_value d = (case o_value of None \<Rightarrow> d | Some v \<Rightarrow> v)"

section \<open>Feature vector\<close>

definition empty_features :: feature_vector where
  "empty_features =
     \<lparr>commercialIntent = 0, dealEvidence = 0, contactEvidence = 0, businessContext = 0,
      massDistribution = 0, priceStructure = 0, cta = 0, negativePrivateContext = 0,
      questionContext = 0, highRisk = 0\<rparr>"

definition latch :: "bool \<Rightarrow> nat \<Rightarrow> nat" where
  "latch c n = (if n = 0 \<and> c then 1 else n)"

definition is_business_signal :: "string \<Rightarrow> bool" where
  "is_business_signal s \<longleftrightarrow>
     starts_with s ''business:'' \<or> starts_with s ''service-specialty:'' \<or>
     starts_with s ''goods-retail:'' \<or> starts_with s ''property-agent:'' \<or>
     starts_with s ''property-commercial:''"

definition is_price_signal :: "string \<Rightarrow> bool" where
  "is_price_signal s \<longleftrightarrow>
     s = ''transaction:price'' \<or> s = ''transaction:implied-price'' \<or> s = ''combo:contact+price''"

definition is_private_signal :: "string \<Rightarrow> bool" where
  "is_private_signal s \<longleftrightarrow>
     starts_with s ''private:'' \<or> starts_with s ''private-single:'' \<or>
     starts_with s ''private-goods:''"

definition matched_step :: "string \<Rightarrow> feature_vector \<Rightarrow> feature_vector" where
  "matched_step s fv =
     fv\<lparr>commercialIntent := latch (starts_with s ''intent:'') (commercialIntent fv),
        dealEvidence := latch (starts_with s ''deal-channel:'' \<or> starts_with s ''transaction:'')
          (dealEvidence fv),
        contactEvidence := latch (starts_with s ''contact:'') (contactEvidence fv),
        businessContext := latch (is_business_signal s) (businessContext fv),
        massDistribution :=
          latch (starts_with s ''campaign:'' \<or> starts_with s ''channel-placement:'')
            (massDistribution fv),
        priceStructure := latch (is_price_signal s) (priceStructure fv),
        cta := latch (starts_with s ''cta:'' \<or> starts_with s ''group-promo:'') (cta fv),
        highRisk := latch (starts_with s ''risk:'') (highRisk fv)\<rparr>"

definition negative_step :: "string \<Rightarrow> feature_vector \<Rightarrow> feature_vector" where
  "negative_step s fv =
     fv\<lparr>negativePrivateContext := latch (is_private_signal s) (negativePrivateContext fv),
        questionContext :=
          latch (starts_with s ''context:'' \<or> starts_with s ''search:'') (questionContext fv)\<rparr>"

definition buildCommercialFeatureVector :: "string list \<Rightarrow> string list \<Rightarrow> feature_vector" where
  "buildCommercialFeatureVector matched negative =
     fold negative_step negative (fold matched_step matched empty_features)"

section \<open>False-positive risk\<close>

definition negative_signal_risk :: "string \<Rightarrow> int" where
  "negative_signal_risk s =
     (if starts_with s ''private:'' \<or> starts_with s ''private-single:''
      then fp_privateSignal fpRiskConfig
      else if starts_with s ''search:'' \<or> starts_with s ''context:''
      then fp_questionSignal fpRiskConfig
      else fp_defaultNegativeSignal fpRiskConfig)"

definition estimateCommercialFpRisk ::
  "string list \<Rightarrow> bool \<Rightarrow> legacy_strength \<Rightarrow> commercial_subtype \<Rightarrow> int" where
  "estimateCommercialFpRisk negative recommended strength subtype =
     (let risk = (if recommended then fp_reviewRecommended fpRiskConfig else 0)
                 + fpRisk_evidenceStrength strength
                 + (if subtype = GENERIC \<or> subtype = GOODS then fp_genericSubtype fpRiskConfig else 0);
          risk = fold (\<lambda>s r. r + negative_signal_risk s) negative risk
      in max (fp_min fpRiskConfig) (min (fp_max fpRiskConfig) risk))"

definition EXPLAIN_LOCAL_PRIVATE_LIKE_RETAIL_SIGNALS :: "string list" where
  "EXPLAIN_LOCAL_PRIVATE_LIKE_RETAIL_SIGNALS =
     [''goods-retail:wholesale-produce'', ''goods-retail:collectible-flower-retail'',
      ''goods-retail:flower-herb-unit-price-retail'', ''goods-retail:plant-nursery-stock'',
      ''goods-retail:plant-nursery-clearance-stock'', ''goods-retail:farm-livestock-retail'',
      ''goods-retail:poultry-farm-order'', ''goods-retail:home-food-order'',
      ''goods-retail:home-dairy-retail'']"

definition estimateCommercialPolicyFpRisk ::
  "int \<Rightarrow> detection \<Rightarrow> signal_profile \<Rightarrow> bool \<Rightarrow> int" where
  "estimateCommercialPolicyFpRisk base d ev actionDirect =
     (let guardedDirect = (hasRawActionDirectDealEvidence ev \<and> \<not> actionDirect);
          localPrivateLike =
            (has_any (det_matchedSignals d) EXPLAIN_LOCAL_PRIVATE_LIKE_RETAIL_SIGNALS \<or>
             list_ex is_private_signal (det_negativeSignals d));
          risk = (if guardedDirect then base + 70
                  else if localPrivateLike \<and> det_primarySubtype d = GOODS_RETAIL \<and>
                          hasPriceEvidence ev \<and> hasPhoneEvidence ev \<and> \<not> hasLinkEvidence ev \<and>
                          \<not> hasHighRiskEvidence ev
                  then base + 30 else base)
      in max (fp_min fpRiskConfig) (min (fp_max fpRiskConfig) risk))"

fun legacy_tier :: "legacy_strength \<Rightarrow> evidence_tier" where
  "legacy_tier Legacy_Borderline = BORDERLINE"
| "legacy_tier Legacy_Structured = STRUCTURED"
| "legacy_tier Legacy_Campaign = CAMPAIGN"
| "legacy_tier Legacy_Direct = DIRECT"

definition resolveEvidenceTier :: "legacy_strength \<Rightarrow> bool \<Rightarrow> bool \<Rightarrow> evidence_tier" where
  "resolveEvidenceTier legacy highRiskEvidence directDealEvidence =
     (if highRiskEvidence then HIGH_RISK else if directDealEvidence then DIRECT
      else legacy_tier legacy)"

section \<open>Reason codes\<close>

record reason_params =
  rp_detection :: detection
  rp_featureVector :: feature_vector
  rp_evidence :: signal_profile
  rp_fpRisk :: int
  rp_policyFpRisk :: int
  rp_decision :: policy_decision
  rp_campaignStrength :: campaign_strength
  rp_bucket :: safe_context
  rp_missingAnchors :: "required_anchor list"
  rp_tier :: evidence_tier
  rp_actionDirect :: bool

definition buildReasonCodes :: "reason_params \<Rightarrow> string list" where
  "buildReasonCodes p =
     (let d = rp_detection p; ev = rp_evidence p; fv = rp_featureVector p; dec = rp_decision p;
          direct = rp_actionDirect p;
          add = (\<lambda>c code. if c then [code] else [])
      in unique
        ([''action:'' @ band_name (dec_actionBand dec),
          ''action-score:'' @ show_int (dec_actionScore dec),
          ''review-priority:'' @ priority_name (dec_reviewPriority dec),
          ''evidence:'' @ tier_name (rp_tier p),
          ''subtype:'' @ subtype_name (det_primarySubtype d),
          ''campaign-strength:'' @ strength_name (rp_campaignStrength p)] @
         add (rp_bucket p \<noteq> No_Safe_Context) (''safe-context:'' @ safe_context_name (rp_bucket p)) @
         map (\<lambda>a. ''missing-anchor:'' @ anchor_name a) (rp_missingAnchors p) @
         map (\<lambda>r. ''suppressed:'' @ r) (dec_suppressionReasons dec) @
         add (highRisk fv > 0) ''high-risk-signal'' @
         add (hasEscalationRiskEvidence ev) ''risk:escalation-grade'' @
         add direct ''evidence:action-direct'' @
         add (hasHighRiskEvidence ev \<and> \<not> direct) ''evidence:high-risk-only'' @
         add (hasRawActionDirectDealEvidence ev \<and> \<not> direct) ''policy:guarded-local-direct'' @
         add (hasPriceEvidence ev \<and> hasStrongContactEvidence ev) ''evidence:direct:price-contact'' @
         add (hasPriceEvidence ev \<and> hasLinkEvidence ev) ''evidence:direct:price-link'' @
         add (hasLinkEvidence ev \<and> hasStrongContactEvidence ev) ''evidence:direct:link-contact'' @
         add (hasTransactionalDirectDealEvidence ev \<and> hasStrongContactEvidence ev)
           ''evidence:direct:transaction-contact'' @
         add (priceStructure fv > 0 \<and> contactEvidence fv > 0) ''direct-price-contact'' @
         add (massDistribution fv > 0) ''mass-distribution'' @
         add (rp_fpRisk p \<ge> highFpRiskThreshold) ''fp-risk-high'' @
         add (rp_policyFpRisk p \<ge> highFpRiskThreshold \<and> rp_fpRisk p < highFpRiskThreshold)
           ''fp-risk-policy-high'' @
         map (\<lambda>r. ''review:'' @ r) (det_reviewReasons d) @
         map (\<lambda>r. ''classifier:'' @ r) (det_classifierReasons d)))"

section \<open>Enrichment\<close>

definition decision_version :: string where
  "decision_version = ''commercial-deterministic-v5''"

record explained =
  ex_detection :: detection
  ex_decisionVersion :: string
  ex_score :: int
  ex_fpRisk :: int
  ex_policyFpRisk :: int
  ex_evidenceTier :: evidence_tier
  ex_subtype :: commercial_subtype
  ex_campaignStrength :: campaign_strength
  ex_bucket :: safe_context
  ex_decision :: policy_decision
  ex_reasonCodes :: "string list"
  ex_featureVector :: feature_vector

definition policy_input_of :: "detection \<Rightarrow> safe_context \<Rightarrow> policy_input" where
  "policy_input_of d bucket =
     (let matched = det_matchedSignals d;
          fv = buildCommercialFeatureVector matched (det_negativeSignals d);
          fpRisk = estimateCommercialFpRisk (det_negativeSignals d) (det_reviewRecommended d)
                     (det_evidenceStrength d) (det_primarySubtype d);
          ev = resolveCommercialSignalEvidence matched;
          direct = or_else (det_hasActionDirectDealEvidence d) (hasActionDirectDealEvidence ev)
      in \<lparr>in_confidenceScore = det_confidenceScore d,
          in_deleteThreshold = deleteThreshold (det_appliedThresholds d),
          in_warnThreshold = warnThreshold (det_appliedThresholds d),
          in_fpRisk = estimateCommercialPolicyFpRisk fpRisk d ev direct,
          in_evidenceTier =
            resolveEvidenceTier (det_evidenceStrength d) (hasHighRiskEvidence ev) direct,
          in_subtype = det_primarySubtype d,
          in_reviewRecommended = det_reviewRecommended d,
          in_reviewReasons = det_reviewReasons d,
          in_missingRequiredAnchors =
            resolveMissingCommercialAnchors (det_primarySubtype d) fv matched,
          in_featureVector = fv,
          in_safeContextBucket = bucket,
          in_campaignStrength = resolveCommercialCampaignStrength (det_campaignContext d),
          in_hasCampaignContext = (det_campaignContext d \<noteq> None),
          in_hasDirectDealEvidence = direct,
          in_hasNonCampaignDirectDealEvidence =
            or_else (det_hasNonCampaignDirectDealEvidence d) (hasNonCampaignDirectDealEvidence ev),
          in_hasHighRiskEvidence = hasHighRiskEvidence ev,
          in_hasEscalationRiskEvidence =
            or_else (det_hasEscalationRiskEvidence d) (hasEscalationRiskEvidence ev),
          in_hasLocalEscalationOfferEvidence = hasLocalEscalationOfferEvidence ev,
          in_hasStructuredTransportEvidence = hasStructuredTransportEvidence ev,
          in_hasReviewOnlyTransportEvidence = hasReviewOnlyTransportEvidence ev,
          in_hasWarnCappedRecallEvidence = hasWarnCappedRecallEvidence ev,
          in_hasReviewCappedRecallEvidence = hasReviewCappedRecallEvidence ev,
          in_hasConservativeRecallEvidence = hasConservativeRecallEvidence ev,
          in_hasIndependentCommercialOfferEvidence = hasIndependentCommercialOfferEvidence ev\<rparr>)"

definition unpromotedCohorts :: "detection \<Rightarrow> string list \<Rightarrow> string list" where
  "unpromotedCohorts d promoted =
     filter (\<lambda>c. c \<notin> set promoted) (or_else (det_requiredPolicyCohorts d) [])"

definition apply_cohorts :: "string list \<Rightarrow> policy_decision \<Rightarrow> policy_decision" where
  "apply_cohorts unpromoted dec =
     (if length unpromoted > 0
      then dec\<lparr>dec_actionBand := REVIEW_ONLY,
               dec_messageDisposition := KEEP,
               dec_actionable := False,
               dec_recordable := False,
               dec_deleteSuppressed := True,
               dec_reviewPriority :=
                 (if dec_reviewPriority dec = PRIORITY_NONE then PRIORITY_MEDIUM
                  else dec_reviewPriority dec),
               dec_suppressionReasons :=
                 dec_suppressionReasons dec @ map (\<lambda>c. ''unpromoted-policy:'' @ c) unpromoted\<rparr>
      else dec)"

definition enrichCommercialDetection ::
  "(string \<Rightarrow> string list \<Rightarrow> string list \<Rightarrow> safe_context) \<Rightarrow> detection \<Rightarrow> string list \<Rightarrow> explained" where
  "enrichCommercialDetection derive_bucket d promoted =
     (let bucket = derive_bucket (or_else (det_analysisText d) (det_rawText d))
                     (det_matchedSignals d) (det_negativeSignals d);
          i = policy_input_of d bucket;
          fpRisk = estimateCommercialFpRisk (det_negativeSignals d) (det_reviewRecommended d)
                     (det_evidenceStrength d) (det_primarySubtype d);
          dec = apply_cohorts (unpromotedCohorts d promoted) (resolveCommercialActionPolicy i)
      in \<lparr>ex_detection = d,
          ex_decisionVersion = decision_version,
          ex_score = det_confidenceScore d,
          ex_fpRisk = fpRisk,
          ex_policyFpRisk = in_fpRisk i,
          ex_evidenceTier = in_evidenceTier i,
          ex_subtype = det_primarySubtype d,
          ex_campaignStrength = in_campaignStrength i,
          ex_bucket = bucket,
          ex_decision = dec,
          ex_reasonCodes = buildReasonCodes
            \<lparr>rp_detection = d, rp_featureVector = in_featureVector i,
             rp_evidence = resolveCommercialSignalEvidence (det_matchedSignals d),
             rp_fpRisk = fpRisk, rp_policyFpRisk = in_fpRisk i, rp_decision = dec,
             rp_campaignStrength = in_campaignStrength i, rp_bucket = bucket,
             rp_missingAnchors = in_missingRequiredAnchors i, rp_tier = in_evidenceTier i,
             rp_actionDirect = in_hasDirectDealEvidence i\<rparr>,
          ex_featureVector = in_featureVector i\<rparr>)"

section \<open>The loops in closed form\<close>

lemma latch_latch: "latch c (latch d n) = latch (d \<or> c) n"
  by (simp add: latch_def)

lemma latch_start: "latch c 0 = (if c then 1 else 0)"
  by (simp add: latch_def)

lemma latch_False [simp]: "latch False n = n"
  by (simp add: latch_def)

lemma matched_steps:
  "fold matched_step ms fv =
     fv\<lparr>commercialIntent := latch (has_prefix ms ''intent:'') (commercialIntent fv),
        dealEvidence := latch (list_ex (\<lambda>s. starts_with s ''deal-channel:'' \<or>
          starts_with s ''transaction:'') ms) (dealEvidence fv),
        contactEvidence := latch (has_prefix ms ''contact:'') (contactEvidence fv),
        businessContext := latch (list_ex is_business_signal ms) (businessContext fv),
        massDistribution := latch (list_ex (\<lambda>s. starts_with s ''campaign:'' \<or>
          starts_with s ''channel-placement:'') ms) (massDistribution fv),
        priceStructure := latch (list_ex is_price_signal ms) (priceStructure fv),
        cta := latch (list_ex (\<lambda>s. starts_with s ''cta:'' \<or> starts_with s ''group-promo:'') ms)
          (cta fv),
        highRisk := latch (has_prefix ms ''risk:'') (highRisk fv)\<rparr>"
proof (induction ms arbitrary: fv)
  case Nil
  show ?case by simp
next
  case (Cons m ms)
  show ?case
    unfolding fold_Cons comp_def Cons.IH by (simp add: matched_step_def latch_latch)
qed

lemma negative_steps:
  "fold negative_step ns fv =
     fv\<lparr>negativePrivateContext := latch (list_ex is_private_signal ns) (negativePrivateContext fv),
        questionContext := latch (list_ex (\<lambda>s. starts_with s ''context:'' \<or>
          starts_with s ''search:'') ns) (questionContext fv)\<rparr>"
proof (induction ns arbitrary: fv)
  case Nil
  show ?case by simp
next
  case (Cons n ns)
  show ?case
    unfolding fold_Cons comp_def Cons.IH by (simp add: negative_step_def latch_latch)
qed

lemma fold_risk: "fold (\<lambda>s r. r + negative_signal_risk s) ns (r :: int) =
    r + sum_list (map negative_signal_risk ns)"
  by (induction ns arbitrary: r) auto

lemma negative_signal_risk_pos: "0 < negative_signal_risk s"
  by (simp add: negative_signal_risk_def fpRiskConfig_def)

lemma sum_risk_nonneg: "0 \<le> sum_list (map negative_signal_risk ns)"
  by (rule sum_list_nonneg) (auto intro: less_imp_le negative_signal_risk_pos)

section \<open>Properties\<close>

text \<open>
  The latching loops of the feature vector compute existence: every feature is 1 exactly when
  some signal of the message has one of the feature's prefixes, whatever the order of the signals.
\<close>

theorem feature_vector_exists:
  "buildCommercialFeatureVector ms ns =
     \<lparr>commercialIntent = of_bool (has_prefix ms ''intent:''),
      dealEvidence = of_bool (has_prefix ms ''deal-channel:'' \<or> has_prefix ms ''transaction:''),
      contactEvidence = of_bool (has_prefix ms ''contact:''),
      businessContext = of_bool (list_ex is_business_signal ms),
      massDistribution = of_bool (has_prefix ms ''campaign:'' \<or> has_prefix ms ''channel-placement:''),
      priceStructure = of_bool (list_ex is_price_signal ms),
      cta = of_bool (has_prefix ms ''cta:'' \<or> has_prefix ms ''group-promo:''),
      negativePrivateContext = of_bool (list_ex is_private_signal ns),
      questionContext = of_bool (has_prefix ns ''context:'' \<or> has_prefix ns ''search:''),
      highRisk = of_bool (has_prefix ms ''risk:'')\<rparr>"
proof -
  have ex: "list_ex (\<lambda>s. P s \<or> Q s) xs \<longleftrightarrow> list_ex P xs \<or> list_ex Q xs" for P Q and xs :: "string list"
    by (induction xs) auto
  show ?thesis
    unfolding buildCommercialFeatureVector_def matched_steps negative_steps empty_features_def
    by (simp add: latch_start ex)
qed

text \<open>
  The false-positive risk lies between 0 and 100, does not depend on the order of the negative
  signals, and never falls when a message has more of them or when a review is recommended.
\<close>

theorem fp_risk_monotone:
  "estimateCommercialFpRisk ns r strength subtype \<in> {0..100} \<and>
   estimateCommercialFpRisk (rev ns) r strength subtype = estimateCommercialFpRisk ns r strength subtype \<and>
   estimateCommercialFpRisk ns r strength subtype
     \<le> estimateCommercialFpRisk (ms @ ns) (r \<or> r') strength subtype"
proof -
  have "sum_list (map negative_signal_risk (rev ns)) = sum_list (map negative_signal_risk ns)"
    by (simp add: rev_map [symmetric])
  moreover have "0 \<le> sum_list (map negative_signal_risk ms)" by (rule sum_risk_nonneg)
  ultimately show ?thesis
    by (cases r; cases r') (auto simp: estimateCommercialFpRisk_def fold_risk fpRiskConfig_def)
qed

lemma apply_cohorts_removes:
  "dec_messageDisposition (apply_cohorts cs dec) = REMOVE \<longleftrightarrow>
   cs = [] \<and> dec_messageDisposition dec = REMOVE"
  by (cases "cs = []") (simp_all add: apply_cohorts_def)

lemma apply_cohorts_unpromoted:
  "cs \<noteq> [] \<Longrightarrow> dec_actionBand (apply_cohorts cs dec) = REVIEW_ONLY \<and>
    dec_messageDisposition (apply_cohorts cs dec) = KEEP \<and> \<not> dec_recordable (apply_cohorts cs dec)"
  by (simp add: apply_cohorts_def)

definition bucket_of ::
  "(string \<Rightarrow> string list \<Rightarrow> string list \<Rightarrow> safe_context) \<Rightarrow> detection \<Rightarrow> safe_context" where
  "bucket_of derive_bucket d =
     derive_bucket (or_else (det_analysisText d) (det_rawText d))
       (det_matchedSignals d) (det_negativeSignals d)"

lemma enriched_decision:
  "ex_decision (enrichCommercialDetection f d ps) =
     apply_cohorts (unpromotedCohorts d ps)
       (resolveCommercialActionPolicy (policy_input_of d (bucket_of f d)))"
  unfolding enrichCommercialDetection_def bucket_of_def Let_def by (simp only: explained.simps)

lemma unpromoted_none:
  "unpromotedCohorts d ps = [] \<longleftrightarrow> set (or_else (det_requiredPolicyCohorts d) []) \<subseteq> set ps"
  by (auto simp: unpromotedCohorts_def filter_empty_conv)

lemma enriched_removes:
  "dec_messageDisposition (ex_decision (enrichCommercialDetection f d ps)) = REMOVE \<longleftrightarrow>
   set (or_else (det_requiredPolicyCohorts d) []) \<subseteq> set ps \<and>
   dec_messageDisposition
     (resolveCommercialActionPolicy (policy_input_of d (bucket_of f d))) = REMOVE"
  unfolding enriched_decision apply_cohorts_removes unpromoted_none ..

text \<open>
  Broader recognition never gains cleanup authority by itself: an enriched detection removes the
  message exactly when the policy would and every cohort the detection requires is promoted;
  otherwise the decision is the kept, unrecorded \<^verbatim>\<open>REVIEW_ONLY\<close>, and promoting
  more cohorts only ever adds removals.
\<close>

theorem cohorts_gate_removal:
  fixes d :: detection and f :: "string \<Rightarrow> string list \<Rightarrow> string list \<Rightarrow> safe_context"
  defines "dec \<equiv> \<lambda>promoted. ex_decision (enrichCommercialDetection f d promoted)"
  shows "(dec_messageDisposition (dec promoted) = REMOVE) =
      (set (or_else (det_requiredPolicyCohorts d) []) \<subseteq> set promoted \<and>
       dec_messageDisposition
         (resolveCommercialActionPolicy (policy_input_of d (bucket_of f d))) = REMOVE) \<and>
    (\<not> set (or_else (det_requiredPolicyCohorts d) []) \<subseteq> set promoted \<longrightarrow>
       dec_actionBand (dec promoted) = REVIEW_ONLY \<and>
       dec_messageDisposition (dec promoted) = KEEP \<and> \<not> dec_recordable (dec promoted)) \<and>
    (dec_messageDisposition (dec promoted) = REMOVE \<longrightarrow>
       dec_messageDisposition (dec (promoted @ extra)) = REMOVE)"
proof (intro conjI impI)
  assume "\<not> set (or_else (det_requiredPolicyCohorts d) []) \<subseteq> set promoted"
  then have "unpromotedCohorts d promoted \<noteq> []" by (simp only: unpromoted_none not_False_eq_True)
  note apply_cohorts_unpromoted [OF this]
  then show "dec_actionBand (dec promoted) = REVIEW_ONLY"
    "dec_messageDisposition (dec promoted) = KEEP" "\<not> dec_recordable (dec promoted)"
    unfolding dec_def enriched_decision by blast+
next
  assume "dec_messageDisposition (dec promoted) = REMOVE"
  then show "dec_messageDisposition (dec (promoted @ extra)) = REMOVE"
    unfolding dec_def enriched_removes set_append by blast
qed (simp only: dec_def enriched_removes)

definition sample_detection :: detection where
  "sample_detection =
     \<lparr>det_rawText = ''x'', det_analysisText = None, det_confidenceScore = 80,
      det_matchedSignals = [''service-specialty:locksmith-service'', ''transaction:price'',
        ''contact:phone''],
      det_negativeSignals = [], det_primarySubtype = SERVICES,
      det_evidenceStrength = Legacy_Direct, det_reviewRecommended = False, det_reviewReasons = [],
      det_campaignContext = None,
      det_appliedThresholds =
        \<lparr>warnThreshold = 45, deleteThreshold = 65, strict_sensitivity = False, strictness = 0\<rparr>,
      det_classifierReasons = [], det_hasActionDirectDealEvidence = None,
      det_hasNonCampaignDirectDealEvidence = None, det_hasEscalationRiskEvidence = None,
      det_requiredPolicyCohorts = Some [''sliding-campaign-v1'']\<rparr>"

theorem cohorts_gate_removal_witness:
  "dec_messageDisposition (ex_decision (enrichCommercialDetection (\<lambda>_ _ _. No_Safe_Context)
     sample_detection [])) = KEEP \<and>
   dec_messageDisposition (ex_decision (enrichCommercialDetection (\<lambda>_ _ _. No_Safe_Context)
     sample_detection ([''sliding-campaign-v1''] @ [''x'']))) = REMOVE"
proof -
  have "dec_messageDisposition (ex_decision (enrichCommercialDetection (\<lambda>_ _ _. No_Safe_Context)
      sample_detection [''sliding-campaign-v1''])) = REMOVE"
    by code_simp
  then show ?thesis
    using cohorts_gate_removal [of "\<lambda>_ _ _. No_Safe_Context" sample_detection "[]" "[]"]
      cohorts_gate_removal [of "\<lambda>_ _ _. No_Safe_Context" sample_detection "[''sliding-campaign-v1'']" "[''x'']"]
    by (simp add: sample_detection_def or_else_def)
qed

end
