(* ===== verification/Commercial_Second_Stage.thy ===== *)
theory Commercial_Second_Stage
  imports Commercial_Settings Commercial_Explain
begin

text \<open>
  \<^verbatim>\<open>apps/api/src/moderation/commercial/commercial-scorer.ts\<close> and
  \<^verbatim>\<open>rule-engine-commercial-second-stage-cache.ts\<close>: the logistic second stage that corrects the score,
  the subtype and the review flag of a detection, and the cache of its decisions; with the scoring end of
  \<^verbatim>\<open>CommercialAdDetector.detectCommercialAd\<close> (\<^verbatim>\<open>commercial-ad.detector.ts\<close>), which rounds the
  score of a state, classifies it and applies the second stage.

  \<^item> \<open>detect_scored\<close> is \<^verbatim>\<open>detectCommercialAd\<close> from its last early return on: the guards before it,
    which answer \<^verbatim>\<open>null\<close>, and its caller \<^verbatim>\<open>detectUnderPolicy\<close>, which caches the detection and
    answers one with confidence 0 for an ambiguous transport text that \<^verbatim>\<open>detectCommercialAd\<close> does not
    return, are not modelled.

  \<^item> What the regular expressions find in a text are the fields of the record \<open>text_reader\<close>, an argument of every
    operation: nothing is assumed of them.  Counts are of successive matches, none of which is empty.
  \<^item> Doubles are rational numbers, and \<^verbatim>\<open>Math.exp\<close>, whose value ECMAScript leaves to the implementation, is
    the argument \<open>ex\<close>; what is used of it is that it is positive.
  \<^item> The key of the cache is a SHA-256 digest of the input's JSON: the argument \<open>digest\<close>, injective where a property
    says so.
  \<^item> \<open>evaluate\<close> of the code is one function; its stages are the definitions up to \<open>second_stage\<close>, which is the
    function without the cache, and \<open>evaluate\<close> is the function with it.
\<close>

section \<open>Constants of the second stage\<close>

record commercial_logit_config =
  cl_base :: rat
  cl_scoreMarginDivisor :: rat
  cl_price :: rat
  cl_contact :: rat
  cl_dealChannel :: rat
  cl_transactional :: rat
  cl_businessContext :: rat
  cl_promoContext :: rat
  cl_goodsRetailContext :: rat
  cl_commercialPropertyContext :: rat
  cl_propertyAgentContext :: rat
  cl_serviceContext :: rat
  cl_recruitmentContext :: rat
  cl_infoProductContext :: rat
  cl_groupPromoContext :: rat
  cl_structuredEvidence :: rat
  cl_strongCampaignEvidence :: rat
  cl_weakCampaignEvidence :: rat
  cl_repeatedPriceEvidence :: rat
  cl_repeatedPhoneEvidence :: rat
  cl_multiSkuGoods :: rat
  cl_freshStock :: rat
  cl_retailOrderFlow :: rat
  cl_strongDealCombo :: rat
  cl_privateGoodsPenalty :: rat
  cl_privateSalePenalty :: rat
  cl_privatePropertyPenalty :: rat
  cl_searchOrJobPenalty :: rat
  cl_strongNegativePenalty :: rat
  cl_multipleNegativeSignalsPenalty :: rat
  cl_personalResalePenalty :: rat
  cl_personalMultiSkuPenalty :: rat
  cl_rescueWindowBelowWarn :: int
  cl_rescueProbability :: rat
  cl_rescueScale :: rat
  cl_suppressPrivateLikeProbability :: rat
  cl_structuredBoostProbability :: rat
  cl_structuredBoostScoreDelta :: int
  cl_propertyCommercialProbability :: rat
  cl_goodsRetailProbability :: rat
  cl_goodsMultiSkuProbability :: rat

definition commercialLogit :: commercial_logit_config where
  "commercialLogit =
     \<lparr>cl_base = - (22 / 10), cl_scoreMarginDivisor = 8, cl_price = 115 / 100, cl_contact = 105 / 100,
      cl_dealChannel = 9 / 10, cl_transactional = 7 / 10, cl_businessContext = 15 / 10,
      cl_promoContext = 9 / 10, cl_goodsRetailContext = 18 / 10, cl_commercialPropertyContext = 2,
      cl_propertyAgentContext = 21 / 10, cl_serviceContext = 11 / 10, cl_recruitmentContext = 12 / 10,
      cl_infoProductContext = 105 / 100, cl_groupPromoContext = 125 / 100,
      cl_structuredEvidence = 7 / 10, cl_strongCampaignEvidence = 95 / 100,
      cl_weakCampaignEvidence = 45 / 100, cl_repeatedPriceEvidence = 45 / 100,
      cl_repeatedPhoneEvidence = 35 / 100, cl_multiSkuGoods = 8 / 10, cl_freshStock = 35 / 100,
      cl_retailOrderFlow = 65 / 100, cl_strongDealCombo = 8 / 10, cl_privateGoodsPenalty = - (18 / 10),
      cl_privateSalePenalty = - (16 / 10), cl_privatePropertyPenalty = - (235 / 100),
      cl_searchOrJobPenalty = - (25 / 10), cl_strongNegativePenalty = - 1,
      cl_multipleNegativeSignalsPenalty = - (45 / 100), cl_personalResalePenalty = - (14 / 10),
      cl_personalMultiSkuPenalty = - (7 / 10), cl_rescueWindowBelowWarn = 10,
      cl_rescueProbability = 78 / 100, cl_rescueScale = 18,
      cl_suppressPrivateLikeProbability = 3 / 10, cl_structuredBoostProbability = 9 / 10,
      cl_structuredBoostScoreDelta = 4, cl_propertyCommercialProbability = 84 / 100,
      cl_goodsRetailProbability = 74 / 100, cl_goodsMultiSkuProbability = 8 / 10\<rparr>"

record review_logit_config =
  rl_base :: rat
  rl_nonHighDecision :: rat
  rl_highDecision :: rat
  rl_nearWarnWindow :: int
  rl_nearWarn :: rat
  rl_genericSubtype :: rat
  rl_weakCampaign :: rat
  rl_campaignWithoutDirectDeal :: rat
  rl_negativeContext :: rat
  rl_privateSaleMixedContext :: rat
  rl_multiSkuGoods :: rat
  rl_retailStructure :: rat
  rl_directDeal :: rat
  rl_structuredEvidence :: rat
  rl_strongStructuredSubtype :: rat
  rl_lowCommercialProbabilityThreshold :: rat
  rl_lowCommercialProbability :: rat
  rl_highCommercialProbabilityThreshold :: rat
  rl_highCommercialProbability :: rat
  rl_clearReviewProbability :: rat
  rl_ambiguousReviewProbability :: rat

definition reviewLogitConfig :: review_logit_config where
  "reviewLogitConfig =
     \<lparr>rl_base = - (135 / 100), rl_nonHighDecision = 11 / 10, rl_highDecision = - (25 / 100),
      rl_nearWarnWindow = nearWarnWindow, rl_nearWarn = 85 / 100, rl_genericSubtype = 125 / 100,
      rl_weakCampaign = 115 / 100, rl_campaignWithoutDirectDeal = 5 / 10,
      rl_negativeContext = 95 / 100, rl_privateSaleMixedContext = 7 / 10,
      rl_multiSkuGoods = - (55 / 100), rl_retailStructure = - (25 / 100),
      rl_directDeal = - (9 / 10), rl_structuredEvidence = - (65 / 100),
      rl_strongStructuredSubtype = - (12 / 10), rl_lowCommercialProbabilityThreshold = 45 / 100,
      rl_lowCommercialProbability = 6 / 10, rl_highCommercialProbabilityThreshold = 84 / 100,
      rl_highCommercialProbability = - (85 / 100), rl_clearReviewProbability = 34 / 100,
      rl_ambiguousReviewProbability = 72 / 100\<rparr>"

record count_limits =
  cnt_defaultPatternMatches :: nat
  cnt_multiSkuEvidence :: nat

definition countLimits :: count_limits where
  "countLimits = \<lparr>cnt_defaultPatternMatches = 12, cnt_multiSkuEvidence = 6\<rparr>"

record run_config =
  run_deleteWindow :: int
  run_campaignDeleteWindow :: int

definition runConfig :: run_config where
  "runConfig = \<lparr>run_deleteWindow = 4, run_campaignDeleteWindow = 8\<rparr>"

definition COMMERCIAL_SECOND_STAGE_VERSION :: string where
  "COMMERCIAL_SECOND_STAGE_VERSION = ''2026-service-private-v5''"

definition SCORER_LOCAL_PRIVATE_LIKE_RETAIL_SIGNALS :: "string list" where
  "SCORER_LOCAL_PRIVATE_LIKE_RETAIL_SIGNALS =
     [''goods-retail:wholesale-produce'', ''goods-retail:collectible-flower-retail'',
      ''goods-retail:flower-herb-unit-price-retail'', ''goods-retail:plant-nursery-stock'',
      ''goods-retail:plant-nursery-clearance-stock'', ''goods-retail:farm-livestock-retail'',
      ''goods-retail:poultry-farm-order'', ''goods-retail:home-food-order'',
      ''goods-retail:home-dairy-retail'']"

definition ADS_REVIEW_CLEARING_HIGH_RISK_SIGNALS :: "string list" where
  "ADS_REVIEW_CLEARING_HIGH_RISK_SIGNALS =
     [''risk:betting-gambling'', ''risk:casino-slot-promo'', ''risk:crypto-investment'',
      ''risk:loan-leadgen'', ''risk:debt-relief-service'', ''risk:document-service'',
      ''risk:bot-income-scam'', ''risk:government-benefit-phishing'',
      ''risk:migration-registration-service'', ''risk:paid-gambling-group'', ''risk:paid-raffle'',
      ''risk:paid-raffle-transfer'', ''risk:paid-group-mailing'',
      ''risk:unregulated-medicinal-goods'', ''risk:wildlife-product-sale'',
      ''risk:pseudomedical-diagnostics'', ''risk:referral-bonus-link'']"

section \<open>What is read in the text\<close>

record text_reader =
  rd_priceLike :: "string \<Rightarrow> bool"
  rd_priceCaptures :: "string \<Rightarrow> nat"
  rd_phoneNumbers :: "string \<Rightarrow> string list"
  rd_multiSkuPriceLines :: "string \<Rightarrow> nat"
  rd_variantMarkers :: "string \<Rightarrow> nat"
  rd_priceRange :: "string \<Rightarrow> bool"
  rd_freshStock :: "string \<Rightarrow> bool"
  rd_retailOrderFlow :: "string \<Rightarrow> bool"
  rd_retailInventory :: "string \<Rightarrow> bool"
  rd_personalResaleStrong :: "string \<Rightarrow> bool"
  rd_personalResaleOnce :: "string \<Rightarrow> bool"
  rd_thirdPartyPrefilter :: "string \<Rightarrow> bool"
  rd_thirdPartyRecommendation :: "string \<Rightarrow> bool"
  rd_currentBookingOffer :: "string \<Rightarrow> bool"
  rd_presentThirdPartyOffer :: "string \<Rightarrow> bool"
  rd_currentAvailabilityOffer :: "string \<Rightarrow> bool"
  rd_structuredServiceCatalog :: "string \<Rightarrow> bool"
  rd_storeInStock :: "string \<Rightarrow> bool"
  rd_wasInStock :: "string \<Rightarrow> bool"
  rd_bought :: "string \<Rightarrow> bool"

definition countPatternMatches :: "string \<Rightarrow> (string \<Rightarrow> nat) \<Rightarrow> nat \<Rightarrow> nat" where
  "countPatternMatches s matches limit =
     (if s = [] \<or> limit = 0 then 0 else min limit (matches s))"

definition isThirdPartyServiceRecommendationWithoutCurrentOffer ::
  "text_reader \<Rightarrow> string \<Rightarrow> signal_state \<Rightarrow> bool" where
  "isThirdPartyServiceRecommendationWithoutCurrentOffer rd raw st \<longleftrightarrow>
     (if \<not> rd_thirdPartyPrefilter rd raw then False
      else if \<not> rd_thirdPartyRecommendation rd raw then False
      else if hasPropertyAgentContext st \<or> hasCommercialPropertyContext st \<or>
              hasRecruitmentContext st \<or> hasBuyoutContext st \<or> hasInfoProductContext st \<or>
              hasGoodsRetailContext st \<or> hasChannelPlacementContext st \<or> hasGroupPromoContext st
      then False
      else
        let hasCurrentOfferDealEvidence =
              hasContact st \<or> hasDealChannel st \<or> hasPrice st \<or> hasTransactional st \<or>
              hasCallToActionContext st
        in \<not> ((rd_currentBookingOffer rd raw \<or> rd_presentThirdPartyOffer rd raw \<or>
               rd_currentAvailabilityOffer rd raw \<or> rd_structuredServiceCatalog rd raw) \<and>
              hasCurrentOfferDealEvidence))"

definition isPastRetailPurchaseNarrative :: "text_reader \<Rightarrow> signal_state \<Rightarrow> string \<Rightarrow> bool" where
  "isPastRetailPurchaseNarrative rd st raw \<longleftrightarrow>
     (if hasContact st \<or> hasDealChannel st \<or> hasCallToActionContext st then False
      else rd_wasInStock rd raw \<or> rd_bought rd raw)"

record text_findings =
  tf_priceMatchCount :: nat
  tf_phoneMatchCount :: nat
  tf_hasPriceRange :: bool
  tf_hasFreshStockContext :: bool
  tf_hasRetailOrderFlow :: bool
  tf_hasMultiSkuGoodsStructure :: bool
  tf_hasPersonalResalePattern :: bool

definition price_match_count :: "text_reader \<Rightarrow> string \<Rightarrow> string \<Rightarrow> nat" where
  "price_match_count rd normalized raw =
     (let captures = (\<lambda>s. if rd_priceLike rd s
            then countPatternMatches s (rd_priceCaptures rd) (cnt_defaultPatternMatches countLimits)
            else 0)
      in if captures raw \<noteq> 0 then captures raw else captures normalized)"

definition read_text :: "text_reader \<Rightarrow> string \<Rightarrow> string \<Rightarrow> text_findings" where
  "read_text rd normalized raw =
     (let priceMatchCount = price_match_count rd normalized raw;
          multiSkuPriceLineCount =
            countPatternMatches raw (rd_multiSkuPriceLines rd) (cnt_multiSkuEvidence countLimits);
          goodsVariantMarkerCount =
            countPatternMatches raw (rd_variantMarkers rd) (cnt_multiSkuEvidence countLimits)
      in \<lparr>tf_priceMatchCount = priceMatchCount,
          tf_phoneMatchCount = length (unique (rd_phoneNumbers rd raw)),
          tf_hasPriceRange = rd_priceRange rd raw,
          tf_hasFreshStockContext = rd_freshStock rd raw,
          tf_hasRetailOrderFlow = (rd_retailOrderFlow rd raw \<or> rd_retailInventory rd raw),
          tf_hasMultiSkuGoodsStructure =
            (multiSkuPriceLineCount \<ge> 2 \<or> (priceMatchCount \<ge> 2 \<and> goodsVariantMarkerCount \<ge> 1)),
          tf_hasPersonalResalePattern =
            (rd_personalResaleStrong rd raw \<or> rd_personalResaleOnce rd raw)\<rparr>)"

section \<open>Input, decision and when the stage runs\<close>

record second_stage_input =
  si_normalizedText :: string
  si_rawLoweredText :: string
  si_state :: signal_state
  si_confidenceScore :: int
  si_decisionBand :: decision_band
  si_appliedThresholds :: threshold_profile
  si_classification :: classification
  si_campaignContext :: "campaign_context option"

record second_stage_decision =
  ssd_adjustedConfidenceScore :: int
  ssd_primarySubtype :: commercial_subtype
  ssd_supportingSubtypes :: "commercial_subtype list"
  ssd_reviewRecommended :: bool
  ssd_reviewReasons :: "string list"
  ssd_classifierVersion :: string
  ssd_commercialProbability :: rat
  ssd_reviewProbability :: rat
  ssd_classifierReasons :: "string list"

definition shouldRunCommercialSecondStage :: "second_stage_input \<Rightarrow> bool" where
  "shouldRunCommercialSecondStage inp \<longleftrightarrow>
     (let st = si_state inp; score = si_confidenceScore inp;
          delete = deleteThreshold (si_appliedThresholds inp); cls = si_classification inp
      in score \<le> delete + run_deleteWindow runConfig \<or>
         si_decisionBand inp = LOW \<or>
         reviewRecommended cls \<or>
         ''service-specialty:custom-ribbon-bouquet'' \<in> set (matchedSignals st) \<or>
         primarySubtype cls = GOODS \<or>
         primarySubtype cls = GENERIC \<or>
         hasGoodsRetailContext st \<or>
         hasCommercialPropertyContext st \<or>
         (hasCampaignContext st \<and> score \<le> delete + run_campaignDeleteWindow runConfig) \<or>
         (hasPrivateSaleContext st \<and> \<not> hasPropertyAgentContext st \<and>
          \<not> hasCommercialPropertyContext st) \<or>
         (hasGoodsRetailContext st \<and> primarySubtype cls \<noteq> GOODS_RETAIL) \<or>
         (hasCommercialPropertyContext st \<and> primarySubtype cls \<noteq> PROPERTY_COMMERCIAL))"

section \<open>Commercial probability\<close>

definition sigmoid :: "(rat \<Rightarrow> rat) \<Rightarrow> rat \<Rightarrow> rat" where
  "sigmoid ex v =
     (if v \<ge> 0 then let exponent = ex (- v) in 1 / (1 + exponent)
      else let exponent = ex v in exponent / (1 + exponent))"

definition add_if :: "bool \<Rightarrow> rat \<Rightarrow> rat" where
  "add_if c w = (if c then w else 0)"

definition evidence_of :: "second_stage_input \<Rightarrow> state_profile" where
  "evidence_of inp =
     resolveCommercialEvidenceProfile (si_state inp) (Some (si_appliedThresholds inp))
       (si_campaignContext inp)"

definition findings_of :: "text_reader \<Rightarrow> second_stage_input \<Rightarrow> text_findings" where
  "findings_of rd inp = read_text rd (si_normalizedText inp) (si_rawLoweredText inp)"

definition strong_deal_combo :: "signal_state \<Rightarrow> bool" where
  "strong_deal_combo st \<longleftrightarrow>
     has_any (matchedSignals st)
       [''combo:contact+price'', ''combo:business+deal'', ''combo:promo+deal'', ''combo:service+deal'',
        ''combo:service-offer+deal'', ''combo:group-promo+deal'', ''combo:campaign+deal'']"

definition commercial_logit ::
  "second_stage_input \<Rightarrow> state_profile \<Rightarrow> text_findings \<Rightarrow> rat" where
  "commercial_logit inp ev tf =
     (let st = si_state inp; c = commercialLogit;
          scoreMargin = si_confidenceScore inp - warnThreshold (si_appliedThresholds inp)
      in cl_base c + of_int scoreMargin / cl_scoreMarginDivisor c +
         add_if (hasPrice st) (cl_price c) +
         add_if (hasContact st) (cl_contact c) +
         add_if (hasDealChannel st) (cl_dealChannel c) +
         add_if (hasTransactional st) (cl_transactional c) +
         add_if (hasBusinessContext st) (cl_businessContext c) +
         add_if (hasPromoContext st) (cl_promoContext c) +
         add_if (hasGoodsRetailContext st) (cl_goodsRetailContext c) +
         add_if (hasCommercialPropertyContext st) (cl_commercialPropertyContext c) +
         add_if (hasPropertyAgentContext st) (cl_propertyAgentContext c) +
         add_if (hasServiceContext st) (cl_serviceContext c) +
         add_if (hasRecruitmentContext st) (cl_recruitmentContext c) +
         add_if (hasInfoProductContext st) (cl_infoProductContext c) +
         add_if (hasGroupPromoContext st) (cl_groupPromoContext c) +
         add_if (hasStructuredEvidence ev) (cl_structuredEvidence c) +
         (if hasStrongCampaignEvidence ev then cl_strongCampaignEvidence c
          else add_if (hasCampaignContext st) (cl_weakCampaignEvidence c)) +
         add_if (tf_priceMatchCount tf \<ge> 2 \<or> tf_hasPriceRange tf) (cl_repeatedPriceEvidence c) +
         add_if (tf_phoneMatchCount tf \<ge> 2) (cl_repeatedPhoneEvidence c) +
         add_if (tf_hasMultiSkuGoodsStructure tf) (cl_multiSkuGoods c) +
         add_if (tf_hasFreshStockContext tf) (cl_freshStock c) +
         add_if (tf_hasRetailOrderFlow tf) (cl_retailOrderFlow c) +
         add_if (strong_deal_combo st) (cl_strongDealCombo c) +
         add_if (hasPrivateGoodsItemContext st) (cl_privateGoodsPenalty c) +
         add_if (hasPrivateSaleContext st \<and> \<not> hasBusinessContext st \<and> \<not> hasCampaignContext st \<and>
                 \<not> hasGoodsRetailContext st \<and> \<not> hasCommercialPropertyContext st \<and>
                 \<not> hasPropertyAgentContext st)
           (cl_privateSalePenalty c) +
         add_if (hasPropertyPrivateContext st \<and> \<not> hasCommercialPropertyContext st \<and>
                 \<not> hasPropertyAgentContext st)
           (cl_privatePropertyPenalty c) +
         add_if (hasSearchRequestContext st \<or> hasJobSeekingContext st) (cl_searchOrJobPenalty c) +
         add_if (hasStrongNegativeContext st) (cl_strongNegativePenalty c) +
         add_if (length (negativeSignals st) \<ge> 2) (cl_multipleNegativeSignalsPenalty c) +
         add_if (tf_hasPersonalResalePattern tf) (cl_personalResalePenalty c) +
         add_if (tf_hasMultiSkuGoodsStructure tf \<and> tf_hasPersonalResalePattern tf \<and>
                 \<not> hasBusinessContext st \<and> \<not> hasCampaignContext st)
           (cl_personalMultiSkuPenalty c))"

definition commercial_probability :: "text_reader \<Rightarrow> (rat \<Rightarrow> rat) \<Rightarrow> second_stage_input \<Rightarrow> rat" where
  "commercial_probability rd ex inp =
     sigmoid ex (commercial_logit inp (evidence_of inp) (findings_of rd inp))"

section \<open>The adjusted score\<close>

text \<open>A stage takes the score and the classifier's reasons so far.\<close>

type_synonym scored = "int \<times> string list"

definition in_rescue_window :: "second_stage_input \<Rightarrow> bool" where
  "in_rescue_window inp \<longleftrightarrow>
     si_decisionBand inp = LOW \<and>
     si_confidenceScore inp
       \<ge> warnThreshold (si_appliedThresholds inp) - cl_rescueWindowBelowWarn commercialLogit"

definition rescue_borderline :: "second_stage_input \<Rightarrow> state_profile \<Rightarrow> rat \<Rightarrow> scored \<Rightarrow> scored" where
  "rescue_borderline inp ev p = (\<lambda>(score, reasons).
     let st = si_state inp; c = commercialLogit
     in if in_rescue_window inp \<and> p \<ge> cl_rescueProbability c \<and> hasStructuredEvidence ev \<and>
           (hasPrice st \<or> hasContact st \<or> hasDealChannel st \<or> hasTransactional st)
        then (max score
                (warnThreshold (si_appliedThresholds inp) +
                 js_round ((p - cl_rescueProbability c) * cl_rescueScale c) + 1),
              reasons @ [''rescued-borderline''])
        else (score, reasons))"

definition nothing_negative :: "signal_state \<Rightarrow> bool" where
  "nothing_negative st \<longleftrightarrow>
     \<not> hasSearchRequestContext st \<and> \<not> hasJobSeekingContext st \<and> \<not> hasStrongNegativeContext st \<and>
     length (negativeSignals st) = 0"

definition rescue_service_phone :: "second_stage_input \<Rightarrow> state_profile \<Rightarrow> scored \<Rightarrow> scored" where
  "rescue_service_phone inp ev = (\<lambda>(score, reasons).
     let st = si_state inp; warn = warnThreshold (si_appliedThresholds inp)
     in if score < warn \<and> in_rescue_window inp \<and> hasStructuredServicePhoneEvidence ev \<and>
           hasServiceSpecialtyContext st \<and> hasPhoneContact st \<and> nothing_negative st
        then (warn, reasons @ [''rescued-structured-service-phone''])
        else (score, reasons))"

definition rescue_service_offer :: "second_stage_input \<Rightarrow> state_profile \<Rightarrow> scored \<Rightarrow> scored" where
  "rescue_service_offer inp ev = (\<lambda>(score, reasons).
     let st = si_state inp; warn = warnThreshold (si_appliedThresholds inp)
     in if score < warn \<and> in_rescue_window inp \<and> hasStructuredServiceTransactionalEvidence ev \<and>
           hasServiceSpecialtyContext st \<and> hasTransactional st \<and> nothing_negative st
        then (warn, reasons @ [''rescued-structured-service-offer''])
        else (score, reasons))"

definition suppress_private_like :: "second_stage_input \<Rightarrow> rat \<Rightarrow> scored \<Rightarrow> scored" where
  "suppress_private_like inp p = (\<lambda>(score, reasons).
     let st = si_state inp; warn = warnThreshold (si_appliedThresholds inp);
         primary = primarySubtype (si_classification inp)
     in if score \<ge> warn \<and> p \<le> cl_suppressPrivateLikeProbability commercialLogit \<and>
           (primary = GOODS \<or> primary = GENERIC) \<and>
           (hasPrivateSaleContext st \<or> hasPrivateGoodsItemContext st \<or> hasStrongNegativeContext st)
        then (min score (warn - 1), reasons @ [''suppressed-private-like''])
        else (score, reasons))"

definition boost_structured :: "second_stage_input \<Rightarrow> state_profile \<Rightarrow> rat \<Rightarrow> scored \<Rightarrow> scored" where
  "boost_structured inp ev p = (\<lambda>(score, reasons).
     if score \<ge> warnThreshold (si_appliedThresholds inp) \<and>
        p \<ge> cl_structuredBoostProbability commercialLogit \<and>
        score < deleteThreshold (si_appliedThresholds inp) \<and>
        hasStructuredEvidence ev \<and> hasClassifierDirectDealEvidence ev
     then (min 100 (score + cl_structuredBoostScoreDelta commercialLogit),
           reasons @ [''boosted-structured''])
     else (score, reasons))"

definition adjust_score :: "second_stage_input \<Rightarrow> state_profile \<Rightarrow> rat \<Rightarrow> scored" where
  "adjust_score inp ev p =
     boost_structured inp ev p (suppress_private_like inp p
       (rescue_service_offer inp ev (rescue_service_phone inp ev
         (rescue_borderline inp ev p (si_confidenceScore inp, [])))))"

section \<open>The corrected subtype\<close>

text \<open>\<open>primary\<close> is the value of the variable \<^verbatim>\<open>primarySubtype\<close> at the call.\<close>

definition pushSupportingSubtype ::
  "commercial_subtype \<Rightarrow> commercial_subtype \<Rightarrow> commercial_subtype list \<Rightarrow> commercial_subtype list" where
  "pushSupportingSubtype primary s supporting =
     (if s = primary \<or> s \<in> set supporting then supporting
      else take (sub_maxSupportingSubtypes subtypeScores) (s # supporting))"

definition retail_over_services :: "signal_state \<Rightarrow> bool" where
  "retail_over_services st \<longleftrightarrow>
     ''service-specialty:custom-3d-printing'' \<notin> set (matchedSignals st) \<and>
     (''service-specialty:sauna-under-key-service'' \<in> set (matchedSignals st) \<and>
      ''goods-retail:inventory'' \<in> set (matchedSignals st) \<or>
      has_any (matchedSignals st)
        [''goods-retail:home-food-order'', ''goods-retail:home-dairy-retail'',
         ''goods-retail:home-goods-low-price-order'', ''goods-retail:order-flow'',
         ''goods-retail:wholesale-produce'', ''goods-retail:poultry-farm-order''])"

definition corrected_subtype ::
  "second_stage_input \<Rightarrow> text_findings \<Rightarrow> rat \<Rightarrow>
   commercial_subtype \<times> commercial_subtype list \<times> string list" where
  "corrected_subtype inp tf p =
     (let st = si_state inp; c = commercialLogit;
          primary = primarySubtype (si_classification inp);
          supporting = supportingSubtypes (si_classification inp)
      in if hasCommercialPropertyContext st \<and> p \<ge> cl_propertyCommercialProbability c \<and>
            primary \<noteq> PROPERTY_AGENT \<and> primary \<noteq> PROPERTY_COMMERCIAL
         then (PROPERTY_COMMERCIAL, pushSupportingSubtype primary primary supporting,
               [''subtype:property-commercial''])
         else if hasGoodsRetailContext st \<and> p \<ge> cl_goodsRetailProbability c \<and>
            (primary = GOODS \<or> primary = GENERIC \<or> (primary = SERVICES \<and> retail_over_services st))
         then (GOODS_RETAIL, pushSupportingSubtype primary primary supporting,
               [''subtype:goods-retail''])
         else if tf_hasMultiSkuGoodsStructure tf \<and> \<not> tf_hasPersonalResalePattern tf \<and>
            p \<ge> cl_goodsMultiSkuProbability c \<and> hasContact st \<and> hasPrice st \<and>
            (primary = GOODS \<or> primary = GENERIC)
         then (GOODS_RETAIL, pushSupportingSubtype primary primary supporting,
               [''subtype:goods-multi-sku''])
         else (primary, supporting, []))"

definition band_of_score :: "threshold_profile \<Rightarrow> int \<Rightarrow> decision_band" where
  "band_of_score t score =
     (if score \<ge> deleteThreshold t then HIGH else if score \<ge> warnThreshold t then MEDIUM else LOW)"

section \<open>Review probability\<close>

definition review_logit ::
  "second_stage_input \<Rightarrow> state_profile \<Rightarrow> text_findings \<Rightarrow> rat \<Rightarrow> int \<Rightarrow> commercial_subtype \<Rightarrow> rat" where
  "review_logit inp ev tf p score primary =
     (let st = si_state inp; c = reviewLogitConfig; t = si_appliedThresholds inp;
          multiSku = tf_hasMultiSkuGoodsStructure tf
      in rl_base c +
         (if band_of_score t score \<noteq> HIGH then rl_nonHighDecision c else rl_highDecision c) +
         add_if (score \<le> warnThreshold t + rl_nearWarnWindow c) (rl_nearWarn c) +
         add_if (primary = GENERIC \<or> primary = GOODS) (rl_genericSubtype c) +
         (if hasCampaignContext st \<and> \<not> hasStrongCampaignEvidence ev then rl_weakCampaign c
          else add_if (hasCampaignContext st \<and> hasStrongCampaignEvidence ev \<and>
                       \<not> hasClassifierDirectDealEvidence ev)
                 (rl_campaignWithoutDirectDeal c)) +
         add_if (hasStrongNegativeContext st \<or> length (negativeSignals st) > 0)
           (rl_negativeContext c) +
         add_if (hasPrivateSaleContext st \<and>
                 (hasServiceContext st \<or> hasGoodsRetailContext st \<or> hasCommercialPropertyContext st))
           (rl_privateSaleMixedContext c) +
         add_if (multiSku \<and> \<not> tf_hasPersonalResalePattern tf) (rl_multiSkuGoods c) +
         add_if (tf_hasFreshStockContext tf \<or> tf_hasRetailOrderFlow tf) (rl_retailStructure c) +
         add_if (hasClassifierDirectDealEvidence ev) (rl_directDeal c) +
         add_if (hasStructuredEvidence ev) (rl_structuredEvidence c) +
         add_if ((primary = GOODS_RETAIL \<or> primary = PROPERTY_COMMERCIAL \<or> primary = PROPERTY_AGENT) \<and>
                 score \<ge> deleteThreshold t)
           (rl_strongStructuredSubtype c) +
         add_if (p < rl_lowCommercialProbabilityThreshold c) (rl_lowCommercialProbability c) +
         add_if (p > rl_highCommercialProbabilityThreshold c \<and> hasStructuredEvidence ev)
           (rl_highCommercialProbability c))"

section \<open>The corrected review\<close>

definition only_local_price_phone ::
  "signal_state \<Rightarrow> state_profile \<Rightarrow> text_findings \<Rightarrow> bool" where
  "only_local_price_phone st ev tf \<longleftrightarrow>
     has_any (matchedSignals st) SCORER_LOCAL_PRIVATE_LIKE_RETAIL_SIGNALS \<and>
     hasPrice st \<and> hasPhoneContact st \<and> \<not> hasDealChannel st \<and>
     ''contact:handle'' \<notin> set (matchedSignals st) \<and> ''contact:email'' \<notin> set (matchedSignals st) \<and>
     \<not> has_prefix (matchedSignals st) ''risk:'' \<and>
     \<not> hasStrongCampaignEvidence ev \<and> \<not> tf_hasMultiSkuGoodsStructure tf \<and>
     ''goods-retail:multi-sku'' \<notin> set (matchedSignals st) \<and>
     ''goods-retail:volume-price-table'' \<notin> set (matchedSignals st)"

text \<open>The three filters of the reasons the classification gave.\<close>

definition kept_reasons ::
  "second_stage_input \<Rightarrow> state_profile \<Rightarrow> text_findings \<Rightarrow> int \<Rightarrow> commercial_subtype \<Rightarrow> string list" where
  "kept_reasons inp ev tf score primary =
     (let st = si_state inp;
          strongDeal = score \<ge> deleteThreshold (si_appliedThresholds inp) \<and>
                       hasClassifierDirectDealEvidence ev;
          drop_if = (\<lambda>c noise reasons. if c then filter (\<lambda>r. r \<notin> set noise) reasons else reasons)
      in drop_if (primary = GOODS_RETAIL \<and> tf_hasMultiSkuGoodsStructure tf \<and> strongDeal)
           [''generic-subtype'', ''near-threshold'']
           (drop_if ((primary = GOODS_RETAIL \<or> primary = PROPERTY_COMMERCIAL) \<and> strongDeal \<and>
                     \<not> only_local_price_phone st ev tf)
             [''private-sale-override'', ''conflicting-negative-signals'', ''near-threshold'',
              ''medium-band'']
             (drop_if (primary \<noteq> GOODS \<and> primary \<noteq> GENERIC) [''generic-subtype'']
               (reviewReasons (si_classification inp)))))"

definition deal_less_ribbon_showcase :: "signal_state \<Rightarrow> state_profile \<Rightarrow> bool" where
  "deal_less_ribbon_showcase st ev \<longleftrightarrow>
     ''service-specialty:custom-ribbon-bouquet'' \<in> set (matchedSignals st) \<and>
     \<not> hasNonCampaignDirectDealEvidence ev"

definition hard_review_reason :: "bool \<Rightarrow> string list \<Rightarrow> bool" where
  "hard_review_reason showcase reasons \<longleftrightarrow>
     showcase \<or> ''campaign-dependent'' \<in> set reasons \<or> ''paid-review-work'' \<in> set reasons"

definition third_party_recommendation ::
  "text_reader \<Rightarrow> second_stage_input \<Rightarrow> commercial_subtype \<Rightarrow> bool" where
  "third_party_recommendation rd inp primary \<longleftrightarrow>
     primary = SERVICES \<and>
     isThirdPartyServiceRecommendationWithoutCurrentOffer rd (si_rawLoweredText inp) (si_state inp)"

definition unambiguous_service_phone ::
  "text_reader \<Rightarrow> second_stage_input \<Rightarrow> state_profile \<Rightarrow> rat \<Rightarrow> commercial_subtype \<Rightarrow> bool" where
  "unambiguous_service_phone rd inp ev p primary \<longleftrightarrow>
     (let st = si_state inp
      in primary = SERVICES \<and> hasStructuredServicePhoneEvidence ev \<and>
         hasServiceSpecialtyContext st \<and> hasPhoneContact st \<and> \<not> hasSearchRequestContext st \<and>
         \<not> hasJobSeekingContext st \<and> \<not> hasPrivateSaleContext st \<and>
         \<not> hasPrivateGoodsItemContext st \<and> \<not> hasStrongNegativeContext st \<and>
         length (negativeSignals st) = 0 \<and> \<not> third_party_recommendation rd inp primary \<and>
         p \<ge> rl_highCommercialProbabilityThreshold reviewLogitConfig)"

definition unambiguous_retail_inventory ::
  "text_reader \<Rightarrow> second_stage_input \<Rightarrow> rat \<Rightarrow> commercial_subtype \<Rightarrow> bool" where
  "unambiguous_retail_inventory rd inp p primary \<longleftrightarrow>
     (let st = si_state inp; raw = si_rawLoweredText inp
      in primary = GOODS_RETAIL \<and> hasGoodsRetailContext st \<and>
         (hasBusinessContext st \<or> rd_storeInStock rd raw) \<and> hasTransactional st \<and>
         \<not> hasSearchRequestContext st \<and> \<not> hasPrivateSaleContext st \<and>
         \<not> hasPrivateGoodsItemContext st \<and> \<not> hasStrongNegativeContext st \<and>
         length (negativeSignals st) = 0 \<and> \<not> isPastRetailPurchaseNarrative rd st raw \<and>
         p \<ge> rl_highCommercialProbabilityThreshold reviewLogitConfig)"

text \<open>The reason for which a text is doubtful whatever its score.\<close>

definition doubt ::
  "text_reader \<Rightarrow> second_stage_input \<Rightarrow> state_profile \<Rightarrow> commercial_subtype \<Rightarrow> string option" where
  "doubt rd inp ev primary =
     (if isPastRetailPurchaseNarrative rd (si_state inp) (si_rawLoweredText inp)
      then Some ''past-retail-purchase''
      else if third_party_recommendation rd inp primary then Some ''third-party-service-recommendation''
      else if deal_less_ribbon_showcase (si_state inp) ev
      then Some ''handmade-showcase-without-direct-deal''
      else None)"

definition add_reason :: "string \<Rightarrow> string list \<Rightarrow> string list" where
  "add_reason r reasons = (if r \<in> set reasons then reasons else reasons @ [r])"

definition corrected_review ::
  "text_reader \<Rightarrow> second_stage_input \<Rightarrow> state_profile \<Rightarrow> text_findings \<Rightarrow> rat \<Rightarrow> rat \<Rightarrow> int \<Rightarrow>
   commercial_subtype \<Rightarrow> bool \<times> string list \<times> string list" where
  "corrected_review rd inp ev tf p reviewProbability score primary =
     (let st = si_state inp; t = si_appliedThresholds inp; c = reviewLogitConfig;
          band = band_of_score t score;
          reasons = kept_reasons inp ev tf score primary
      in case doubt rd inp ev primary of
           Some reason \<Rightarrow> (True, add_reason reason reasons, [''review:'' @ reason])
         | None \<Rightarrow>
             if has_any (matchedSignals st) ADS_REVIEW_CLEARING_HIGH_RISK_SIGNALS \<and> band = HIGH
             then (False, [], [''cleared-high-risk''])
             else if unambiguous_service_phone rd inp ev p primary
             then (False, [], [''cleared-structured-service-phone''])
             else if unambiguous_retail_inventory rd inp p primary
             then (False, [], [''cleared-retail-business-inventory''])
             else if \<not> hard_review_reason (deal_less_ribbon_showcase st ev) reasons \<and>
                     reviewProbability \<le> rl_clearReviewProbability c \<and> band = HIGH \<and>
                     hasStructuredEvidence ev \<and> hasClassifierDirectDealEvidence ev \<and>
                     \<not> only_local_price_phone st ev tf
             then (False, [], [''cleared-review''])
             else if reviewProbability \<ge> rl_ambiguousReviewProbability c \<and> score \<ge> warnThreshold t
             then (True, add_reason ''classifier-ambiguous'' reasons, [''review:ambiguous''])
             else (review_recommended band reasons, reasons, []))"

section \<open>The decision\<close>

text \<open>\<^verbatim>\<open>Number(x.toFixed(4))\<close>.\<close>

definition to_fixed4 :: "rat \<Rightarrow> rat" where
  "to_fixed4 x = of_int (js_round (x * 10000)) / 10000"

definition second_stage :: "text_reader \<Rightarrow> (rat \<Rightarrow> rat) \<Rightarrow> second_stage_input \<Rightarrow> second_stage_decision" where
  "second_stage rd ex inp =
     (let ev = evidence_of inp; tf = findings_of rd inp; p = commercial_probability rd ex inp;
          (score, scoreReasons) = adjust_score inp ev p;
          (primary, supporting, subtypeReasons) = corrected_subtype inp tf p;
          reviewProbability = sigmoid ex (review_logit inp ev tf p score primary);
          (review, reasons, reviewTags) =
            corrected_review rd inp ev tf p reviewProbability score primary
      in \<lparr>ssd_adjustedConfidenceScore = score,
          ssd_primarySubtype = primary,
          ssd_supportingSubtypes =
            take (sub_maxSupportingSubtypes subtypeScores) (unique supporting),
          ssd_reviewRecommended = review,
          ssd_reviewReasons = unique reasons,
          ssd_classifierVersion = COMMERCIAL_SECOND_STAGE_VERSION,
          ssd_commercialProbability = to_fixed4 p,
          ssd_reviewProbability = to_fixed4 reviewProbability,
          ssd_classifierReasons = scoreReasons @ subtypeReasons @ reviewTags\<rparr>)"

section \<open>The cache of decisions\<close>

text \<open>The least recently used decision is first.\<close>

type_synonym 'k decision_cache = "('k, second_stage_decision) jsmap"

definition SECOND_STAGE_MAX_ENTRIES :: int where "SECOND_STAGE_MAX_ENTRIES = 4096"

definition cached_decision ::
  "'k \<Rightarrow> 'k decision_cache \<Rightarrow> 'k decision_cache \<times> second_stage_decision option" where
  "cached_decision key m =
     (case jsmap_get m key of
        None \<Rightarrow> (m, None)
      | Some d \<Rightarrow> (jsmap_set key d (jsmap_delete key m), Some d))"

definition remember :: "int \<Rightarrow> 'k \<Rightarrow> second_stage_decision \<Rightarrow> 'k decision_cache \<Rightarrow> 'k decision_cache" where
  "remember maxEntries key d m =
     (let m1 = jsmap_set key d (jsmap_delete key m)
      in if int (length m1) \<le> maxEntries then m1
         else case m1 of [] \<Rightarrow> m1 | (oldest, _) # _ \<Rightarrow> jsmap_delete oldest m1)"

definition evaluate ::
  "text_reader \<Rightarrow> (rat \<Rightarrow> rat) \<Rightarrow> (string \<times> second_stage_input \<Rightarrow> 'k) \<Rightarrow> int \<Rightarrow>
   'k decision_cache \<Rightarrow> second_stage_input \<Rightarrow> 'k decision_cache \<times> second_stage_decision option" where
  "evaluate rd ex digest maxEntries m inp =
     (if \<not> shouldRunCommercialSecondStage inp then (m, None)
      else
        let cacheKey = digest (COMMERCIAL_SECOND_STAGE_VERSION, inp)
        in case cached_decision cacheKey m of
             (m1, Some d) \<Rightarrow> (m1, Some d)
           | (m1, None) \<Rightarrow>
               let d = second_stage rd ex inp in (remember maxEntries cacheKey d m1, Some d))"

definition canCommercialActionDelete ::
  "action_band option \<Rightarrow> bool option \<Rightarrow> bool \<Rightarrow> int option \<Rightarrow> bool" where
  "canCommercialActionDelete actionBand hasEscalation hasDirectDeal fpRisk \<longleftrightarrow>
     (if \<not> isCommercialDeleteAction actionBand then False
      else if hasEscalation = Some True then True
      else if (case fpRisk of Some r \<Rightarrow> r \<ge> 70 | None \<Rightarrow> False) then False
      else hasDirectDeal)"

section \<open>The end of the detector\<close>

record detector_detection = detection +
  dd_decisionBand :: decision_band
  dd_supportingSubtypes :: "commercial_subtype list"
  dd_classifierVersion :: "string option"
  dd_commercialProbability :: "rat option"
  dd_reviewProbability :: "rat option"

record scored_input =
  sc_paramRawLoweredText :: string
  sc_rawLoweredText :: string
  sc_normalizedText :: string
  sc_state :: signal_state
  sc_appliedThresholds :: threshold_profile
  sc_analysisCampaignContext :: "campaign_context option"
  sc_isolatedIndependentOffer :: bool
  sc_ownedOrderOffer :: bool
  sc_requiredPolicyCohorts :: "string list"

definition initial_confidence :: "signal_state \<Rightarrow> threshold_profile \<Rightarrow> bool \<Rightarrow> int" where
  "initial_confidence st t boundedRecall =
     (let clamped = js_round (max 0 (min 100 (st_score st)));
          capped =
            (if hasStrongNegativeContext st \<and> \<not> hasPrice st \<and> \<not> hasContact st \<and> \<not> hasDealChannel st
             then min clamped (warnThreshold t - 1) else clamped);
          recalled = (if boundedRecall then max capped (warnThreshold t) else capped)
      in if recalled \<ge> deleteThreshold t \<and>
            \<not> (hasCommercialContext st \<and>
               (hasTransactional st \<or> hasContact st \<or> hasDealChannel st \<or> hasPrice st))
         then max (warnThreshold t) (deleteThreshold t - 1)
         else recalled)"

definition stage_input :: "scored_input \<Rightarrow> state_profile \<Rightarrow> second_stage_input" where
  "stage_input i ev =
     (let st = sc_state i; t = sc_appliedThresholds i;
          confidence = initial_confidence st t (hasBoundedRecallEvidence ev);
          band = band_of_score t confidence
      in \<lparr>si_normalizedText = sc_normalizedText i, si_rawLoweredText = sc_rawLoweredText i,
          si_state = st, si_confidenceScore = confidence, si_decisionBand = band,
          si_appliedThresholds = t,
          si_classification =
            classifyCommercialDetection st confidence band t
              (hasCampaignContext st \<and> hasStrongCampaignEvidence ev),
          si_campaignContext = sc_analysisCampaignContext i\<rparr>)"

definition with_decision :: "classification \<Rightarrow> second_stage_decision \<Rightarrow> classification" where
  "with_decision cls d =
     cls\<lparr>primarySubtype := ssd_primarySubtype d, supportingSubtypes := ssd_supportingSubtypes d,
         reviewRecommended := ssd_reviewRecommended d, reviewReasons := ssd_reviewReasons d\<rparr>"

definition detect_scored ::
  "text_reader \<Rightarrow> (rat \<Rightarrow> rat) \<Rightarrow> (string \<times> second_stage_input \<Rightarrow> 'k) \<Rightarrow> 'k decision_cache \<Rightarrow>
   scored_input \<Rightarrow> 'k decision_cache \<times> detector_detection option" where
  "detect_scored rd ex digest m i =
     (let st = sc_state i; t = sc_appliedThresholds i;
          ev = resolveCommercialEvidenceProfile st (Some t) (sc_analysisCampaignContext i);
          inp = stage_input i ev;
          (m', decision) = evaluate rd ex digest SECOND_STAGE_MAX_ENTRIES m inp;
          staged = (case decision of
              None \<Rightarrow> si_confidenceScore inp | Some d \<Rightarrow> ssd_adjustedConfidenceScore d);
          cls = (case decision of
              None \<Rightarrow> si_classification inp | Some d \<Rightarrow> with_decision (si_classification inp) d);
          confidence =
            (if hasBoundedRecallEvidence ev then max staged (warnThreshold t) else staged);
          band =
            (if hasBoundedRecallEvidence ev
             then if confidence \<ge> deleteThreshold t then HIGH else MEDIUM
             else band_of_score t staged)
      in (m',
          if confidence < warnThreshold t then None
          else Some \<lparr>
            det_rawText = sc_paramRawLoweredText i,
            det_analysisText =
              (if sc_isolatedIndependentOffer i then Some (sc_rawLoweredText i) else None),
            det_confidenceScore = confidence,
            det_matchedSignals = matchedSignals st,
            det_negativeSignals = negativeSignals st,
            det_primarySubtype = primarySubtype cls,
            det_evidenceStrength = evidenceStrength cls,
            det_reviewRecommended = reviewRecommended cls,
            det_reviewReasons = reviewReasons cls,
            det_campaignContext =
              (if hasCampaignContext st then sc_analysisCampaignContext i else None),
            det_appliedThresholds = t,
            det_classifierReasons =
              (case decision of None \<Rightarrow> [] | Some d \<Rightarrow> ssd_classifierReasons d) @
              (if sc_isolatedIndependentOffer i
               then [''locality:isolated-independent-commercial-offer''] else []),
            det_hasActionDirectDealEvidence =
              Some (hasActionDirectDealEvidence ev \<or> sc_ownedOrderOffer i),
            det_hasNonCampaignDirectDealEvidence =
              Some (hasNonCampaignDirectDealEvidence ev \<or> sc_ownedOrderOffer i),
            det_hasEscalationRiskEvidence = Some (hasEscalationRiskEvidence ev),
            det_requiredPolicyCohorts =
              (if length (sc_requiredPolicyCohorts i) > 0 then Some (sc_requiredPolicyCohorts i)
               else None),
            dd_decisionBand = band,
            dd_supportingSubtypes = supportingSubtypes cls,
            dd_classifierVersion = map_option ssd_classifierVersion decision,
            dd_commercialProbability = map_option ssd_commercialProbability decision,
            dd_reviewProbability = map_option ssd_reviewProbability decision\<rparr>))"

section \<open>The score moves only on evidence\<close>

lemma sigmoid_range:
  assumes "\<And>x. 0 < ex x"
  shows "0 < sigmoid ex v" and "sigmoid ex v < 1"
  using assms [of v] assms [of "- v"] by (simp_all add: sigmoid_def Let_def add_pos_pos)

lemma rescue_amount:
  assumes "78 / 100 \<le> p" "p < 1"
  shows "0 \<le> js_round ((p - 78 / 100) * 18)" and "js_round ((p - 78 / 100) * 18) \<le> 4"
proof -
  have "of_int 0 \<le> (p - 78 / 100) * 18" "(p - 78 / 100) * 18 \<le> of_int 4" using assms by simp_all
  then show "0 \<le> js_round ((p - 78 / 100) * 18)" "js_round ((p - 78 / 100) * 18) \<le> 4"
    by (metis js_round_mono js_round_of_int)+
qed

definition service_evidence :: "state_profile \<Rightarrow> bool" where
  "service_evidence ev \<longleftrightarrow>
     hasStructuredServicePhoneEvidence ev \<or> hasStructuredServiceTransactionalEvidence ev"

definition private_like :: "second_stage_input \<Rightarrow> bool" where
  "private_like inp \<longleftrightarrow>
     primarySubtype (si_classification inp) \<in> {GOODS, GENERIC} \<and>
     (hasPrivateSaleContext (si_state inp) \<or> hasPrivateGoodsItemContext (si_state inp) \<or>
      hasStrongNegativeContext (si_state inp))"

text \<open>What the score may be after the three rescues.\<close>

definition rescued_ok :: "second_stage_input \<Rightarrow> state_profile \<Rightarrow> rat \<Rightarrow> int \<Rightarrow> bool" where
  "rescued_ok inp ev p s \<longleftrightarrow>
     (let c = si_confidenceScore inp; w = warnThreshold (si_appliedThresholds inp)
      in s = c \<or>
         (c < s \<and> in_rescue_window inp \<and> s \<le> w + 5 \<and> (hasStructuredEvidence ev \<or> service_evidence ev) \<and>
          (w < s \<longrightarrow> hasStructuredEvidence ev \<and> 78 / 100 \<le> p)))"

lemma rescues_ok:
  assumes "p < 1"
  shows "rescued_ok inp ev p (fst (rescue_service_offer inp ev (rescue_service_phone inp ev
    (rescue_borderline inp ev p (si_confidenceScore inp, [])))))"
proof -
  have borderline: "rescued_ok inp ev p (fst (rescue_borderline inp ev p (si_confidenceScore inp, [])))"
    using rescue_amount [OF _ assms]
    by (auto simp: rescued_ok_def rescue_borderline_def Let_def commercialLogit_def)
  have phone: "rescued_ok inp ev p (fst (rescue_service_phone inp ev (s, rs)))"
    if "rescued_ok inp ev p s" for s rs
    using that by (auto simp: rescued_ok_def rescue_service_phone_def Let_def service_evidence_def)
  have offer: "rescued_ok inp ev p (fst (rescue_service_offer inp ev (s, rs)))"
    if "rescued_ok inp ev p s" for s rs
    using that by (auto simp: rescued_ok_def rescue_service_offer_def Let_def service_evidence_def)
  show ?thesis using borderline phone offer by (metis prod.collapse)
qed

definition score_move_ok :: "second_stage_input \<Rightarrow> state_profile \<Rightarrow> rat \<Rightarrow> int \<Rightarrow> bool" where
  "score_move_ok inp ev p s \<longleftrightarrow>
     (let c = si_confidenceScore inp; t = si_appliedThresholds inp;
          w = warnThreshold t; d = deleteThreshold t
      in (c < s \<longrightarrow> w - 10 \<le> c \<and> s \<le> max (c + 4) (w + 9) \<and> s \<le> 100 \<and>
             (hasStructuredEvidence ev \<or> service_evidence ev)) \<and>
         (s < c \<longrightarrow> s = w - 1 \<and> p \<le> 3 / 10 \<and> private_like inp) \<and>
         (c < d \<and> d \<le> s \<longrightarrow> hasStructuredEvidence ev \<and>
             (hasClassifierDirectDealEvidence ev \<and> 9 / 10 \<le> p \<or>
              si_decisionBand inp = LOW \<and> 78 / 100 \<le> p \<and> d \<le> w + 5)))"

lemma suppressed:
  fixes inp :: second_stage_input
  defines "w \<equiv> warnThreshold (si_appliedThresholds inp)"
  obtains "fst (suppress_private_like inp p (s, rs)) = s"
  | "fst (suppress_private_like inp p (s, rs)) = w - 1" "w \<le> s" "p \<le> 3 / 10" "private_like inp"
proof (cases "s \<ge> w \<and> p \<le> 3 / 10 \<and> private_like inp")
  case True
  then show ?thesis
    by (intro that(2)) (auto simp: suppress_private_like_def Let_def commercialLogit_def w_def private_like_def)
next
  case False
  then show ?thesis
    by (intro that(1)) (auto simp: suppress_private_like_def Let_def commercialLogit_def w_def private_like_def)
qed

lemma boosted:
  fixes inp :: second_stage_input
  defines "w \<equiv> warnThreshold (si_appliedThresholds inp)" and "d \<equiv> deleteThreshold (si_appliedThresholds inp)"
  obtains "fst (boost_structured inp ev p (s, rs)) = s"
  | "fst (boost_structured inp ev p (s, rs)) = min 100 (s + 4)" "w \<le> s" "s < d" "9 / 10 \<le> p"
    "hasStructuredEvidence ev" "hasClassifierDirectDealEvidence ev"
proof (cases "w \<le> s \<and> 9 / 10 \<le> p \<and> s < d \<and> hasStructuredEvidence ev \<and> hasClassifierDirectDealEvidence ev")
  case True
  then show ?thesis
    by (intro that(2)) (auto simp: boost_structured_def commercialLogit_def w_def d_def)
next
  case False
  then show ?thesis
    by (intro that(1)) (auto simp: boost_structured_def commercialLogit_def w_def d_def)
qed

lemma adjust_score_ok:
  assumes "p < 1" "si_confidenceScore inp \<le> 100" "thresholds_ok (si_appliedThresholds inp)"
  shows "score_move_ok inp ev p (fst (adjust_score inp ev p))"
proof -
  let ?t = "si_appliedThresholds inp"
  obtain s rs where s: "rescue_service_offer inp ev (rescue_service_phone inp ev
      (rescue_borderline inp ev p (si_confidenceScore inp, []))) = (s, rs)"
    by (rule prod.exhaust)
  have ok: "rescued_ok inp ev p s" using rescues_ok [OF assms(1), of inp ev] unfolding s by simp
  have window: "si_decisionBand inp = LOW" "warnThreshold ?t - 10 \<le> si_confidenceScore inp"
    if "in_rescue_window inp"
    using that by (simp_all add: in_rescue_window_def commercialLogit_def)
  have t: "10 \<le> warnThreshold ?t" "warnThreshold ?t \<le> 90" "warnThreshold ?t < deleteThreshold ?t"
    "deleteThreshold ?t \<le> 100"
    using assms(3) by (simp_all add: thresholds_ok_def)
  obtain s2 rs2 where s2: "suppress_private_like inp p (s, rs) = (s2, rs2)" by (rule prod.exhaust)
  have adjusted: "adjust_score inp ev p = boost_structured inp ev p (s2, rs2)"
    unfolding adjust_score_def s s2 ..
  from boosted [of inp ev p s2 rs2] show ?thesis
  proof cases
    case 1
    from suppressed [of inp p s rs] show ?thesis
    proof cases
      case 1
      then have "s2 = s" by (simp add: s2)
      then show ?thesis
        using ok t assms(2) window \<open>fst (boost_structured inp ev p (s2, rs2)) = s2\<close>
        unfolding adjusted score_move_ok_def rescued_ok_def Let_def by auto
    next
      case 2
      then have "s2 = warnThreshold ?t - 1" by (simp add: s2)
      then show ?thesis
        using 2 ok t assms(2) window \<open>fst (boost_structured inp ev p (s2, rs2)) = s2\<close>
        unfolding adjusted score_move_ok_def rescued_ok_def Let_def by auto
    qed
  next
    case 2
    from suppressed [of inp p s rs] have "s2 = s"
      using 2(2) by cases (simp_all add: s2)
    then show ?thesis
      using 2 ok t assms(2) window
      unfolding adjusted score_move_ok_def rescued_ok_def Let_def by auto
  qed
qed

section \<open>The fields of a decision\<close>

definition review_probability ::
  "text_reader \<Rightarrow> (rat \<Rightarrow> rat) \<Rightarrow> second_stage_input \<Rightarrow> int \<Rightarrow> commercial_subtype \<Rightarrow> rat" where
  "review_probability rd ex inp score primary =
     sigmoid ex (review_logit inp (evidence_of inp) (findings_of rd inp)
       (commercial_probability rd ex inp) score primary)"

lemma second_stage_fields:
  fixes rd :: text_reader and ex :: "rat \<Rightarrow> rat" and inp :: second_stage_input
  defines "ev \<equiv> evidence_of inp" and "tf \<equiv> findings_of rd inp" and "p \<equiv> commercial_probability rd ex inp"
  defines "score \<equiv> fst (adjust_score inp ev p)" and "primary \<equiv> fst (corrected_subtype inp tf p)"
  defines "review \<equiv> corrected_review rd inp ev tf p (review_probability rd ex inp score primary) score primary"
  shows "ssd_adjustedConfidenceScore (second_stage rd ex inp) = score"
    and "ssd_primarySubtype (second_stage rd ex inp) = primary"
    and "ssd_supportingSubtypes (second_stage rd ex inp) =
      take (sub_maxSupportingSubtypes subtypeScores) (unique (fst (snd (corrected_subtype inp tf p))))"
    and "ssd_reviewRecommended (second_stage rd ex inp) = fst review"
    and "ssd_reviewReasons (second_stage rd ex inp) = unique (fst (snd review))"
    and "ssd_classifierReasons (second_stage rd ex inp) =
      snd (adjust_score inp ev p) @ snd (snd (corrected_subtype inp tf p)) @ snd (snd review)"
  unfolding assms second_stage_def review_probability_def Let_def case_prod_beta
    second_stage_decision.simps by (rule refl)+

lemma commercial_probability_range:
  assumes "\<And>x. 0 < ex x"
  shows "commercial_probability rd ex inp < 1"
  unfolding commercial_probability_def by (rule sigmoid_range(2) [OF assms])

lemma second_stage_score:
  assumes "\<And>x. 0 < ex x" "si_confidenceScore inp \<le> 100" "thresholds_ok (si_appliedThresholds inp)"
  shows "score_move_ok inp (evidence_of inp) (commercial_probability rd ex inp)
    (ssd_adjustedConfidenceScore (second_stage rd ex inp))"
  unfolding second_stage_fields
  by (rule adjust_score_ok [OF commercial_probability_range [OF assms(1)] assms(2,3)])

lemma push_itself [simp]: "pushSupportingSubtype s s supporting = supporting"
  by (simp add: pushSupportingSubtype_def)

lemma corrected_supporting:
  "fst (snd (corrected_subtype inp tf p)) = supportingSubtypes (si_classification inp)"
  by (simp add: corrected_subtype_def Let_def)

section \<open>The review flag\<close>

lemma add_reason_simps [simp]: "r \<in> set (add_reason r rs)" "set rs \<subseteq> set (add_reason r rs)" "add_reason r rs \<noteq> []"
  by (auto simp: add_reason_def)

lemma kept_hard_reasons:
  assumes "r \<in> set (reviewReasons (si_classification inp))"
    "r = ''campaign-dependent'' \<or> r = ''paid-review-work''"
  shows "r \<in> set (kept_reasons inp ev tf score primary)"
  using assms by (auto simp: kept_reasons_def Let_def)

lemma recommended_has_reason:
  "fst (corrected_review rd inp ev tf p rp score primary) \<Longrightarrow>
   fst (snd (corrected_review rd inp ev tf p rp score primary)) \<noteq> []"
  by (auto simp: corrected_review_def Let_def review_recommended_def split: option.splits if_splits)

lemma doubt_reviewed:
  assumes "doubt rd inp ev primary = Some reason"
  shows "corrected_review rd inp ev tf p rp score primary =
    (True, add_reason reason (kept_reasons inp ev tf score primary), [''review:'' @ reason])"
  using assms by (simp add: corrected_review_def Let_def)

definition review_cleared ::
  "text_reader \<Rightarrow> second_stage_input \<Rightarrow> rat \<Rightarrow> int \<Rightarrow> commercial_subtype \<Rightarrow> bool" where
  "review_cleared rd inp p score primary \<longleftrightarrow>
     has_any (matchedSignals (si_state inp)) ADS_REVIEW_CLEARING_HIGH_RISK_SIGNALS \<and>
       deleteThreshold (si_appliedThresholds inp) \<le> score \<or>
     unambiguous_service_phone rd inp (evidence_of inp) p primary \<or>
     unambiguous_retail_inventory rd inp p primary"

lemma hard_reason_kept:
  fixes rd :: text_reader and inp :: second_stage_input and score :: int and primary :: commercial_subtype
  defines "ev \<equiv> evidence_of inp"
  assumes "r \<in> set (reviewReasons (si_classification inp))"
    "r = ''campaign-dependent'' \<or> r = ''paid-review-work''"
    "\<not> review_cleared rd inp p score primary"
  shows "fst (corrected_review rd inp ev tf p rp score primary)"
    and "r \<in> set (fst (snd (corrected_review rd inp ev tf p rp score primary)))"
proof -
  let ?kept = "kept_reasons inp ev tf score primary"
  have kept: "r \<in> set ?kept" using kept_hard_reasons assms(2,3) by blast
  then have recommended: "review_recommended band ?kept" for band
    using assms(3) by (auto simp: review_recommended_def)
  have hard: "hard_review_reason showcase ?kept" for showcase
    using kept assms(3) by (auto simp: hard_review_reason_def)
  have band: "band_of_score (si_appliedThresholds inp) score = HIGH \<longleftrightarrow>
      deleteThreshold (si_appliedThresholds inp) \<le> score"
    by (simp add: band_of_score_def)
  have member: "r \<in> set (add_reason x ?kept)" for x using kept add_reason_simps(2) by blast
  have "fst (corrected_review rd inp ev tf p rp score primary) \<and>
      r \<in> set (fst (snd (corrected_review rd inp ev tf p rp score primary)))"
    using assms(4) kept recommended hard member
    unfolding corrected_review_def Let_def review_cleared_def ev_def [symmetric] band
    by (auto split: option.split)
  then show "fst (corrected_review rd inp ev tf p rp score primary)"
    "r \<in> set (fst (snd (corrected_review rd inp ev tf p rp score primary)))" by blast+
qed

section \<open>The cache only holds what the stage decides\<close>

definition cache_sound ::
  "text_reader \<Rightarrow> (rat \<Rightarrow> rat) \<Rightarrow> (string \<times> second_stage_input \<Rightarrow> 'k) \<Rightarrow> 'k decision_cache \<Rightarrow> bool" where
  "cache_sound rd ex digest m \<longleftrightarrow> jsmap_ok m \<and>
     (\<forall>inp d. jsmap_get m (digest (COMMERCIAL_SECOND_STAGE_VERSION, inp)) = Some d \<longrightarrow>
        d = second_stage rd ex inp)"

definition evaluated ::
  "text_reader \<Rightarrow> (rat \<Rightarrow> rat) \<Rightarrow> second_stage_input \<Rightarrow> second_stage_decision option" where
  "evaluated rd ex inp =
     (if shouldRunCommercialSecondStage inp then Some (second_stage rd ex inp) else None)"

lemma remembered:
  fixes key :: 'k and d :: second_stage_decision and m :: "'k decision_cache"
  defines "m1 \<equiv> jsmap_set key d (jsmap_delete key m)"
  obtains "remember n key d m = m1" "int (length m1) \<le> n"
  | oldest v where "remember n key d m = jsmap_delete oldest m1" "jsmap_get m1 oldest = Some v"
proof -
  have "m1 \<noteq> []" using jsmap_length_set [of key d "jsmap_delete key m"] by (auto simp: m1_def)
  then obtain oldest v rest where m1: "m1 = (oldest, v) # rest" by (metis neq_Nil_conv surj_pair)
  have "remember n key d m = (if int (length m1) \<le> n then m1 else jsmap_delete oldest m1)"
    unfolding remember_def Let_def m1_def [symmetric] by (simp only: m1 list.case prod.case)
  moreover have "jsmap_get m1 oldest = Some v" by (simp add: m1)
  ultimately show ?thesis using that by (cases "int (length m1) \<le> n") simp_all
qed

lemma sound_set:
  assumes "cache_sound rd ex digest m" "inj digest" "d = second_stage rd ex inp"
  shows "cache_sound rd ex digest
    (jsmap_set (digest (COMMERCIAL_SECOND_STAGE_VERSION, inp)) d
      (jsmap_delete (digest (COMMERCIAL_SECOND_STAGE_VERSION, inp)) m))"
  unfolding cache_sound_def
proof (intro conjI allI impI)
  fix inp' d'
  assume get: "jsmap_get (jsmap_set (digest (COMMERCIAL_SECOND_STAGE_VERSION, inp)) d
      (jsmap_delete (digest (COMMERCIAL_SECOND_STAGE_VERSION, inp)) m))
    (digest (COMMERCIAL_SECOND_STAGE_VERSION, inp')) = Some d'"
  show "d' = second_stage rd ex inp'"
  proof (cases "inp' = inp")
    case True
    then show ?thesis using get assms(3) by simp
  next
    case False
    then have "digest (COMMERCIAL_SECOND_STAGE_VERSION, inp') \<noteq> digest (COMMERCIAL_SECOND_STAGE_VERSION, inp)"
      using assms(2) by (simp add: inj_eq)
    then show ?thesis
      using get assms(1) unfolding cache_sound_def jsmap_get_set jsmap_get_delete by (metis (full_types))
  qed
qed (use assms(1) in \<open>simp add: cache_sound_def\<close>)

lemma sound_delete: "cache_sound rd ex digest m \<Longrightarrow> cache_sound rd ex digest (jsmap_delete k m)"
  by (simp add: cache_sound_def)

lemma remember_sound:
  assumes "cache_sound rd ex digest m" "inj digest"
  shows "cache_sound rd ex digest
    (remember n (digest (COMMERCIAL_SECOND_STAGE_VERSION, inp)) (second_stage rd ex inp) m)"
  using sound_set [OF assms refl] sound_delete [OF sound_set [OF assms refl]]
  by (metis (no_types) remembered)

lemma remember_length:
  assumes "jsmap_ok m" "int (length m) \<le> n" "0 \<le> n"
  shows "int (length (remember n k d m)) \<le> n"
proof (rule remembered [of n k d m])
  let ?m1 = "jsmap_set k d (jsmap_delete k m)"
  fix oldest v
  assume del: "remember n k d m = jsmap_delete oldest ?m1" "jsmap_get ?m1 oldest = Some v"
  have "length ?m1 \<le> Suc (length m)"
    using assms(1) by (simp add: jsmap_length_set jsmap_length_delete)
  moreover have "length (jsmap_delete oldest ?m1) = length ?m1 - 1"
    using jsmap_length_delete [of ?m1 oldest] del(2) assms(1) by simp
  ultimately show ?thesis using assms(2,3) del(1) by simp
qed simp

lemma evaluate_correct:
  assumes sound: "cache_sound rd ex digest m" and "inj digest" "int (length m) \<le> n" "0 \<le> n"
  shows "snd (evaluate rd ex digest n m inp) = evaluated rd ex inp"
    and "cache_sound rd ex digest (fst (evaluate rd ex digest n m inp))"
    and "int (length (fst (evaluate rd ex digest n m inp))) \<le> n"
proof -
  let ?k = "digest (COMMERCIAL_SECOND_STAGE_VERSION, inp)"
  have ok: "jsmap_ok m" using sound by (simp add: cache_sound_def)
  have hit: "d = second_stage rd ex inp" if "jsmap_get m ?k = Some d" for d
    using sound that unfolding cache_sound_def by blast
  have again: "cache_sound rd ex digest (jsmap_set ?k d (jsmap_delete ?k m))" if "jsmap_get m ?k = Some d" for d
    by (rule sound_set [OF sound assms(2) hit [OF that]])
  have len: "length (jsmap_set ?k d (jsmap_delete ?k m)) = length m" if "jsmap_get m ?k = Some d" for d
  proof -
    have "?k \<in> fst ` set m" using that by (metis map_of_eq_None_iff option.distinct(1))
    then show ?thesis
      using ok length_pos_if_in_set [of _ m] by (auto simp: jsmap_length_set jsmap_length_delete)
  qed
  show "snd (evaluate rd ex digest n m inp) = evaluated rd ex inp"
    "cache_sound rd ex digest (fst (evaluate rd ex digest n m inp))"
    "int (length (fst (evaluate rd ex digest n m inp))) \<le> n"
    using sound hit again len assms(3) remember_sound [OF sound assms(2)] remember_length [OF ok assms(3,4)]
    by (auto simp: evaluate_def evaluated_def cached_decision_def Let_def split: option.split)
qed

fun evaluate_all ::
  "text_reader \<Rightarrow> (rat \<Rightarrow> rat) \<Rightarrow> (string \<times> second_stage_input \<Rightarrow> 'k) \<Rightarrow> int \<Rightarrow> 'k decision_cache \<Rightarrow>
   second_stage_input list \<Rightarrow> 'k decision_cache \<times> second_stage_decision option list" where
  "evaluate_all rd ex digest n m [] = (m, [])"
| "evaluate_all rd ex digest n m (inp # inps) =
     (let (m1, d) = evaluate rd ex digest n m inp; (m2, ds) = evaluate_all rd ex digest n m1 inps
      in (m2, d # ds))"

lemma evaluate_all_correct:
  assumes "cache_sound rd ex digest m" "inj digest" "int (length m) \<le> n" "0 \<le> n"
  shows "snd (evaluate_all rd ex digest n m inps) = map (evaluated rd ex) inps \<and>
    cache_sound rd ex digest (fst (evaluate_all rd ex digest n m inps)) \<and>
    int (length (fst (evaluate_all rd ex digest n m inps))) \<le> n"
  using assms(1,3)
proof (induction inps arbitrary: m)
  case (Cons inp inps)
  note step = evaluate_correct [OF Cons.prems(1) assms(2) Cons.prems(2) assms(4), of inp]
  show ?case
    using step Cons.IH [OF step(2,3)] by (simp add: Let_def case_prod_beta)
qed simp

lemma evaluate_all_append:
  "fst (evaluate_all rd ex digest n m (xs @ [x])) = fst (evaluate rd ex digest n (fst (evaluate_all rd ex digest n m xs)) x)"
  by (induction xs arbitrary: m) (simp_all add: Let_def case_prod_beta)

text \<open>The caches that evaluations reach from the empty one.\<close>

lemma reached_sound:
  assumes "inj digest"
  shows "cache_sound rd ex digest (fst (evaluate_all rd ex digest SECOND_STAGE_MAX_ENTRIES [] inps))"
    and "length (fst (evaluate_all rd ex digest SECOND_STAGE_MAX_ENTRIES [] inps)) \<le> 4096"
  using evaluate_all_correct [OF _ assms, of rd ex "[]" SECOND_STAGE_MAX_ENTRIES inps]
  by (simp_all add: cache_sound_def SECOND_STAGE_MAX_ENTRIES_def)

lemma evaluate_reached:
  assumes "inj digest"
  shows "snd (evaluate rd ex digest SECOND_STAGE_MAX_ENTRIES
      (fst (evaluate_all rd ex digest SECOND_STAGE_MAX_ENTRIES [] inps)) inp) = evaluated rd ex inp"
  by (rule evaluate_correct(1) [OF reached_sound(1) [OF assms] assms])
    (use reached_sound(2) [OF assms, of rd ex inps] in \<open>simp_all add: SECOND_STAGE_MAX_ENTRIES_def\<close>)

section \<open>What the detector returns\<close>

definition has_deal :: "signal_state \<Rightarrow> bool" where
  "has_deal st \<longleftrightarrow> hasPrice st \<or> hasContact st \<or> hasDealChannel st \<or> hasTransactional st"

lemma structured_has_deal:
  "hasStructuredEvidence (resolveCommercialEvidenceProfile st t c) \<Longrightarrow> has_deal st"
  unfolding resolveCommercialEvidenceProfile_def Let_def signal_profile.simps state_profile.simps
    has_deal_def by blast

lemma rounded_le: "js_round (max 0 (min 100 x)) \<le> 100"
proof -
  have "max 0 (min 100 x) \<le> of_int 100" by (simp add: min.coboundedI1)
  from js_round_mono [OF this] show ?thesis unfolding js_round_of_int .
qed

lemma initial_confidence_le:
  assumes "thresholds_ok t"
  shows "initial_confidence st t b \<le> 100"
proof -
  obtain c where c: "js_round (max 0 (min 100 (st_score st))) = c" "c \<le> 100" using rounded_le by blast
  show ?thesis using assms c(2) unfolding initial_confidence_def Let_def c(1) by (auto simp: thresholds_ok_def)
qed

lemma initial_confidence_high:
  assumes "thresholds_ok t" "deleteThreshold t \<le> initial_confidence st t b"
  shows "has_deal st"
proof -
  obtain c where c: "js_round (max 0 (min 100 (st_score st))) = c" by blast
  show ?thesis using assms unfolding initial_confidence_def Let_def c
    by (auto simp: thresholds_ok_def has_deal_def split: if_splits)
qed

lemma stage_input_fields [simp]:
  "si_state (stage_input i ev) = sc_state i"
  "si_appliedThresholds (stage_input i ev) = sc_appliedThresholds i"
  "si_campaignContext (stage_input i ev) = sc_analysisCampaignContext i"
  "si_rawLoweredText (stage_input i ev) = sc_rawLoweredText i"
  "si_confidenceScore (stage_input i ev) =
    initial_confidence (sc_state i) (sc_appliedThresholds i) (hasBoundedRecallEvidence ev)"
  by (simp_all add: stage_input_def Let_def)

lemma classified_reasons:
  "distinct (reviewReasons (classifyCommercialDetection st c b t k))"
  "reviewRecommended (classifyCommercialDetection st c b t k) \<Longrightarrow>
   reviewReasons (classifyCommercialDetection st c b t k) \<noteq> []"
  by (simp_all add: classifyCommercialDetection_def Let_def unique_Nil_iff review_recommended_def)

lemma stage_classified:
  "\<exists>c b t k. si_classification (stage_input i ev) = classifyCommercialDetection (sc_state i) c b t k"
  by (simp add: stage_input_def Let_def) blast

definition staged_score ::
  "second_stage_input \<Rightarrow> second_stage_decision option \<Rightarrow> int" where
  "staged_score inp decision =
     (case decision of None \<Rightarrow> si_confidenceScore inp | Some d \<Rightarrow> ssd_adjustedConfidenceScore d)"

lemma staged_bounds:
  fixes rd :: text_reader and i :: scored_input
  assumes "\<And>x. 0 < ex x" "thresholds_ok (sc_appliedThresholds i)"
  defines "ev \<equiv> resolveCommercialEvidenceProfile (sc_state i) (Some (sc_appliedThresholds i))
    (sc_analysisCampaignContext i)"
  defines "s \<equiv> staged_score (stage_input i ev) (evaluated rd ex (stage_input i ev))"
  shows "s \<le> 100" and "deleteThreshold (sc_appliedThresholds i) \<le> s \<Longrightarrow> has_deal (sc_state i)"
proof -
  let ?inp = "stage_input i ev"
  have ev: "evidence_of ?inp = ev" by (simp add: evidence_of_def ev_def)
  have le: "si_confidenceScore ?inp \<le> 100" using initial_confidence_le [OF assms(2)] by simp
  have move: "score_move_ok ?inp ev (commercial_probability rd ex ?inp)
      (ssd_adjustedConfidenceScore (second_stage rd ex ?inp))"
    using second_stage_score [OF assms(1) le, of rd] assms(2) ev by simp
  have deal: "has_deal (sc_state i)"
    if "deleteThreshold (sc_appliedThresholds i) \<le> si_confidenceScore ?inp"
    using that initial_confidence_high [OF assms(2)] by simp
  have structured: "has_deal (sc_state i)" if "hasStructuredEvidence ev"
    using that structured_has_deal unfolding ev_def by blast
  show "s \<le> 100"
    using move le unfolding s_def staged_score_def evaluated_def score_move_ok_def Let_def by auto
  show "has_deal (sc_state i)" if "deleteThreshold (sc_appliedThresholds i) \<le> s"
    using that move deal structured
    unfolding s_def staged_score_def evaluated_def score_move_ok_def Let_def
    by (auto simp del: stage_input_fields(5) split: if_splits)
qed

lemma second_stage_reasons:
  "distinct (ssd_reviewReasons (second_stage rd ex inp))"
  "ssd_reviewRecommended (second_stage rd ex inp) \<Longrightarrow> ssd_reviewReasons (second_stage rd ex inp) \<noteq> []"
  unfolding second_stage_fields(4,5) using recommended_has_reason by (simp_all add: unique_Nil_iff)

lemma detect_scored_eq:
  fixes rd :: text_reader and ex :: "rat \<Rightarrow> rat" and i :: scored_input
  assumes "cache_sound rd ex digest m" "inj digest" "length m \<le> 4096"
  defines "t \<equiv> sc_appliedThresholds i"
  defines "ev \<equiv> resolveCommercialEvidenceProfile (sc_state i) (Some t) (sc_analysisCampaignContext i)"
  defines "inp \<equiv> stage_input i ev"
  defines "s \<equiv> staged_score inp (evaluated rd ex inp)"
  defines "cls \<equiv> (case evaluated rd ex inp of
      None \<Rightarrow> si_classification inp | Some d \<Rightarrow> with_decision (si_classification inp) d)"
  defines "c \<equiv> if hasBoundedRecallEvidence ev then max s (warnThreshold t) else s"
  shows "(snd (detect_scored rd ex digest m i) = None) = (c < warnThreshold t)"
    and "snd (detect_scored rd ex digest m i) = Some d \<Longrightarrow> warnThreshold t < deleteThreshold t \<Longrightarrow>
      det_confidenceScore d = c \<and> dd_decisionBand d = band_of_score t c \<and>
      det_reviewRecommended d = reviewRecommended cls \<and> det_reviewReasons d = reviewReasons cls \<and>
      det_primarySubtype d = primarySubtype cls \<and> dd_supportingSubtypes d = supportingSubtypes cls"
    and "fst (detect_scored rd ex digest m i) = fst (evaluate rd ex digest SECOND_STAGE_MAX_ENTRIES m inp)"
proof -
  have decision: "snd (evaluate rd ex digest SECOND_STAGE_MAX_ENTRIES m inp) = evaluated rd ex inp"
    by (rule evaluate_correct(1)) (use assms(1-3) in \<open>simp_all add: SECOND_STAGE_MAX_ENTRIES_def\<close>)
  note unfolded = detect_scored_def Let_def case_prod_beta fst_conv snd_conv
    t_def [symmetric] ev_def [symmetric] inp_def [symmetric] decision
    staged_score_def [symmetric] s_def [symmetric] cls_def [symmetric] c_def [symmetric]
  show "(snd (detect_scored rd ex digest m i) = None) = (c < warnThreshold t)"
    unfolding unfolded by simp
  show "fst (detect_scored rd ex digest m i) = fst (evaluate rd ex digest SECOND_STAGE_MAX_ENTRIES m inp)"
    unfolding unfolded ..
  have band: "(if hasBoundedRecallEvidence ev then if deleteThreshold t \<le> c then HIGH else MEDIUM
      else band_of_score t s) = band_of_score t c" if "warnThreshold t < deleteThreshold t"
    by (simp add: c_def band_of_score_def)
  assume some: "snd (detect_scored rd ex digest m i) = Some d" and "warnThreshold t < deleteThreshold t"
  note band = band [OF this(2)]
  from some show "det_confidenceScore d = c \<and> dd_decisionBand d = band_of_score t c \<and>
      det_reviewRecommended d = reviewRecommended cls \<and> det_reviewReasons d = reviewReasons cls \<and>
      det_primarySubtype d = primarySubtype cls \<and> dd_supportingSubtypes d = supportingSubtypes cls"
    unfolding unfolded band
    by (cases "c < warnThreshold t"; simp only: if_True if_False option.inject option.distinct)
      (hypsubst, simp only: detection.simps detector_detection.simps simp_thms)
qed

text \<open>What the review of a decision rests on.\<close>

lemma stage_doubted:
  assumes "doubt rd inp (evidence_of inp) (ssd_primarySubtype (second_stage rd ex inp)) = Some reason"
  shows "ssd_reviewRecommended (second_stage rd ex inp) \<and> reason \<in> set (ssd_reviewReasons (second_stage rd ex inp))"
  using doubt_reviewed [OF assms [unfolded second_stage_fields(2)]]
  unfolding second_stage_fields(4,5) by simp

lemma stage_hard_reason:
  assumes "r \<in> set (reviewReasons (si_classification inp))" "r = ''campaign-dependent'' \<or> r = ''paid-review-work''"
    "\<not> review_cleared rd inp (commercial_probability rd ex inp)
        (ssd_adjustedConfidenceScore (second_stage rd ex inp)) (ssd_primarySubtype (second_stage rd ex inp))"
  shows "ssd_reviewRecommended (second_stage rd ex inp) \<and> r \<in> set (ssd_reviewReasons (second_stage rd ex inp))"
  using hard_reason_kept [OF assms(1,2) assms(3) [unfolded second_stage_fields(1,2)]]
  unfolding second_stage_fields(4,5) by simp

section \<open>Properties\<close>

text \<open>Concrete arguments for the witnesses: an increasing positive function, a reader that finds nothing.\<close>

definition sample_exp :: "rat \<Rightarrow> rat" where
  "sample_exp x = (if x \<ge> 0 then (1 + x) * (1 + x) else 1 / ((1 - x) * (1 - x)))"

lemma sample_exp_pos: "0 < sample_exp x"
  by (simp add: sample_exp_def add_pos_nonneg)

definition blank_reader :: text_reader where
  "blank_reader =
     \<lparr>rd_priceLike = (\<lambda>_. False), rd_priceCaptures = (\<lambda>_. 0), rd_phoneNumbers = (\<lambda>_. []),
      rd_multiSkuPriceLines = (\<lambda>_. 0), rd_variantMarkers = (\<lambda>_. 0), rd_priceRange = (\<lambda>_. False),
      rd_freshStock = (\<lambda>_. False), rd_retailOrderFlow = (\<lambda>_. False),
      rd_retailInventory = (\<lambda>_. False), rd_personalResaleStrong = (\<lambda>_. False),
      rd_personalResaleOnce = (\<lambda>_. False), rd_thirdPartyPrefilter = (\<lambda>_. False),
      rd_thirdPartyRecommendation = (\<lambda>_. False), rd_currentBookingOffer = (\<lambda>_. False),
      rd_presentThirdPartyOffer = (\<lambda>_. False), rd_currentAvailabilityOffer = (\<lambda>_. False),
      rd_structuredServiceCatalog = (\<lambda>_. False), rd_storeInStock = (\<lambda>_. False),
      rd_wasInStock = (\<lambda>_. False), rd_bought = (\<lambda>_. False)\<rparr>"

definition sample_thresholds :: threshold_profile where
  "sample_thresholds =
     \<lparr>warnThreshold = 45, deleteThreshold = 65, strict_sensitivity = False, strictness = 1 / 2\<rparr>"

lemma sample_thresholds_ok: "thresholds_ok sample_thresholds"
  by (simp add: thresholds_ok_def sample_thresholds_def)

definition sample_stage_input :: "signal_state \<Rightarrow> second_stage_input" where
  "sample_stage_input st =
     \<lparr>si_normalizedText = ''x'', si_rawLoweredText = ''x'', si_state = st, si_confidenceScore = 50,
      si_decisionBand = MEDIUM, si_appliedThresholds = sample_thresholds,
      si_classification = classifyCommercialDetection st 50 MEDIUM sample_thresholds False,
      si_campaignContext = None\<rparr>"

lemma sample_stage_fields [simp]:
  "si_confidenceScore (sample_stage_input st) = 50"
  "si_appliedThresholds (sample_stage_input st) = sample_thresholds"
  "warnThreshold sample_thresholds = 45" "deleteThreshold sample_thresholds = 65"
  by (simp_all add: sample_stage_input_def sample_thresholds_def)

text \<open>
  C10: The second stage moves a score only on evidence.  It raises one at most to four points above it or nine
  above the warning threshold, never past 100, from at most ten below the warning threshold, and with structured evidence;
  it lowers one only to just below the warning threshold, for a private-looking text of low probability; and it
  lifts one over the deletion threshold only for structured evidence with a direct deal at a probability of 0.9, or, for
  thresholds at most five apart, by a rescue.
\<close>

theorem score_moves_on_evidence:
  fixes rd :: text_reader and inp :: second_stage_input
  assumes "\<And>x. 0 < ex x" "si_confidenceScore inp \<le> 100" "thresholds_ok (si_appliedThresholds inp)"
  defines "c \<equiv> si_confidenceScore inp" and "w \<equiv> warnThreshold (si_appliedThresholds inp)"
    and "d \<equiv> deleteThreshold (si_appliedThresholds inp)" and "ev \<equiv> evidence_of inp"
    and "p \<equiv> commercial_probability rd ex inp"
    and "s \<equiv> ssd_adjustedConfidenceScore (second_stage rd ex inp)"
  shows "(c < s \<longrightarrow> w - 10 \<le> c \<and> s \<le> max (c + 4) (w + 9) \<and> s \<le> 100 \<and>
            (hasStructuredEvidence ev \<or> service_evidence ev)) \<and>
    (s < c \<longrightarrow> s = w - 1 \<and> p \<le> 3 / 10 \<and> private_like inp) \<and>
    (c < d \<and> d \<le> s \<longrightarrow> hasStructuredEvidence ev \<and>
       (hasClassifierDirectDealEvidence ev \<and> 9 / 10 \<le> p \<or>
        si_decisionBand inp = LOW \<and> 78 / 100 \<le> p \<and> d \<le> w + 5))"
  using second_stage_score [OF assms(1-3), of rd] unfolding score_move_ok_def Let_def assms(4-) .

theorem score_moves_on_evidence_witness:
  "ssd_adjustedConfidenceScore (second_stage blank_reader sample_exp (sample_stage_input (plain_state []))) \<le> 54"
proof -
  let ?s = "ssd_adjustedConfidenceScore
    (second_stage blank_reader sample_exp (sample_stage_input (plain_state [])))"
  have "50 < ?s \<longrightarrow> ?s \<le> max (50 + 4) (45 + 9)"
    using score_moves_on_evidence [of sample_exp "sample_stage_input (plain_state [])" blank_reader]
      sample_exp_pos sample_thresholds_ok
    unfolding sample_stage_fields by simp
  then show ?thesis by auto
qed

text \<open>
  C25: Whenever the second stage runs (it answers a decision, from its cache or anew, whatever was evaluated before,
  under an injective digest), a doubtful text is recommended for review: one that tells of a past purchase and offers
  no way to deal, with that reason; a recommendation of somebody else's service, if the corrected primary subtype is
  SERVICES; a handmade showcase without a direct deal.  A campaign-dependent or paid-review-work detection keeps that
  reason and its recommendation unless the review is cleared by high-risk evidence at the deletion threshold or by an
  unambiguous service or shop; and whatever is recommended for review has a reason.  What becomes of a recommended
  detection is the action policy's decision, which may still act on it.
\<close>

theorem doubtful_texts_reviewed:
  fixes rd :: text_reader and ex :: "rat \<Rightarrow> rat" and inp :: second_stage_input
    and digest :: "string \<times> second_stage_input \<Rightarrow> 'k" and inps :: "second_stage_input list"
  assumes "inj digest"
    and "evaluate rd ex digest SECOND_STAGE_MAX_ENTRIES
      (fst (evaluate_all rd ex digest SECOND_STAGE_MAX_ENTRIES [] inps)) inp = (m', Some d)"
  defines "st \<equiv> si_state inp" and "raw \<equiv> si_rawLoweredText inp"
  defines "past \<equiv> (rd_wasInStock rd raw \<or> rd_bought rd raw) \<and> \<not> hasContact st \<and> \<not> hasDealChannel st \<and>
      \<not> hasCallToActionContext st"
  shows "shouldRunCommercialSecondStage inp \<and>
    (past \<longrightarrow> ssd_reviewRecommended d \<and> ''past-retail-purchase'' \<in> set (ssd_reviewReasons d)) \<and>
    (ssd_primarySubtype d = SERVICES \<and>
       isThirdPartyServiceRecommendationWithoutCurrentOffer rd raw st \<or>
     ''service-specialty:custom-ribbon-bouquet'' \<in> set (matchedSignals st) \<and>
       \<not> hasNonCampaignDirectDealEvidence (evidence_of inp) \<longrightarrow> ssd_reviewRecommended d) \<and>
    (r \<in> set (reviewReasons (si_classification inp)) \<and>
       (r = ''campaign-dependent'' \<or> r = ''paid-review-work'') \<and>
       \<not> review_cleared rd inp (commercial_probability rd ex inp) (ssd_adjustedConfidenceScore d)
           (ssd_primarySubtype d) \<longrightarrow>
     ssd_reviewRecommended d \<and> r \<in> set (ssd_reviewReasons d)) \<and>
    (ssd_reviewRecommended d \<longrightarrow> ssd_reviewReasons d \<noteq> []) \<and> distinct (ssd_reviewReasons d)"
proof -
  have ran: "shouldRunCommercialSecondStage inp" "d = second_stage rd ex inp"
    using evaluate_reached [OF assms(1), of rd ex inps inp] assms(2) by (auto simp: evaluated_def split: if_splits)
  have past: "doubt rd inp (evidence_of inp) (ssd_primarySubtype d) = Some ''past-retail-purchase''" if "past"
    using that by (simp add: doubt_def isPastRetailPurchaseNarrative_def past_def st_def raw_def)
  have other: "\<exists>reason. doubt rd inp (evidence_of inp) (ssd_primarySubtype d) = Some reason"
    if "ssd_primarySubtype d = SERVICES \<and> isThirdPartyServiceRecommendationWithoutCurrentOffer rd raw st \<or>
     ''service-specialty:custom-ribbon-bouquet'' \<in> set (matchedSignals st) \<and>
     \<not> hasNonCampaignDirectDealEvidence (evidence_of inp)"
    using that
    unfolding doubt_def third_party_recommendation_def deal_less_ribbon_showcase_def st_def raw_def by auto
  show ?thesis
    using ran(1) stage_doubted [of rd inp ex, folded ran(2)] past other
      stage_hard_reason [of r inp rd ex, folded ran(2)] second_stage_reasons [of rd ex inp, folded ran(2)]
    by blast
qed

theorem doubtful_texts_reviewed_witness:
  "\<exists>m' d. evaluate (blank_reader\<lparr>rd_bought := \<lambda>_. True\<rparr>) sample_exp id SECOND_STAGE_MAX_ENTRIES []
     (sample_stage_input (plain_state [])) = (m', Some d) \<and> ssd_reviewRecommended d"
proof -
  let ?rd = "blank_reader\<lparr>rd_bought := \<lambda>_. True\<rparr>" and ?inp = "sample_stage_input (plain_state [])"
  have "shouldRunCommercialSecondStage ?inp" by code_simp
  then have "\<exists>m' d. evaluate ?rd sample_exp id SECOND_STAGE_MAX_ENTRIES
      (fst (evaluate_all ?rd sample_exp id SECOND_STAGE_MAX_ENTRIES [] [])) ?inp = (m', Some d)"
    by (simp add: evaluate_def cached_decision_def Let_def)
  then obtain m' d where d: "evaluate ?rd sample_exp id SECOND_STAGE_MAX_ENTRIES
      (fst (evaluate_all ?rd sample_exp id SECOND_STAGE_MAX_ENTRIES [] [])) ?inp = (m', Some d)" by blast
  have "ssd_reviewRecommended d"
    using doubtful_texts_reviewed [OF inj_on_id d] by (simp add: sample_stage_input_def plain_state_def)
  then show ?thesis using d by auto
qed

text \<open>
  C27: A detection whose subtype the second stage corrects forgets the subtype it had:
  \<^verbatim>\<open>pushSupportingSubtype(primarySubtype)\<close> runs before the assignment, so it compares the subtype with
  itself and never adds it.  The supporting subtypes are those of the classification, whatever the new primary
  subtype is.
\<close>

theorem former_subtype_forgotten:
  fixes rd :: text_reader and ex :: "rat \<Rightarrow> rat" and inp :: second_stage_input
  assumes "si_classification inp = classifyCommercialDetection st c b t k"
  defines "d \<equiv> second_stage rd ex inp"
  shows "ssd_supportingSubtypes d = supportingSubtypes (si_classification inp) \<and>
    primarySubtype (si_classification inp) \<notin> set (ssd_supportingSubtypes d)"
proof -
  have ok: "jsmap_ok (collect_subtypes st)" "collect_subtypes st \<noteq> []"
    by (rule collect_subtypes_ok collect_subtypes_nonempty)+
  let ?ranked = "rank_subtypes (collect_subtypes st)"
  have cls: "primarySubtype (si_classification inp) = primary_of ?ranked"
    "supportingSubtypes (si_classification inp) = unique (supporting_of ?ranked)"
    unfolding assms(1) classifyCommercialDetection_def Let_def classification.simps by (rule refl)+
  obtain "distinct (supporting_of ?ranked)" "primary_of ?ranked \<notin> set (supporting_of ?ranked)"
    "length (supporting_of ?ranked) \<le> 3"
    by (rule ranked_classification [OF ok])
  then show ?thesis
    unfolding d_def second_stage_fields(3) corrected_supporting cls
    by (simp add: unique_distinct subtypeScores_def)
qed

definition kit_seller :: signal_state where
  "kit_seller = (plain_state [''goods-retail:order-flow''])
     \<lparr>hasServiceContext := True, hasGoodsRetailContext := True, hasPrice := True, hasContact := True\<rparr>"

theorem former_subtype_forgotten_witness:
  "primarySubtype (si_classification (sample_stage_input kit_seller)) = SERVICES \<and>
   ssd_primarySubtype (second_stage blank_reader sample_exp (sample_stage_input kit_seller)) = GOODS_RETAIL \<and>
   ssd_supportingSubtypes (second_stage blank_reader sample_exp (sample_stage_input kit_seller)) = [GOODS_RETAIL]"
proof -
  have supporting: "ssd_supportingSubtypes (second_stage blank_reader sample_exp (sample_stage_input kit_seller)) =
      supportingSubtypes (si_classification (sample_stage_input kit_seller))"
    using former_subtype_forgotten [of "sample_stage_input kit_seller" kit_seller 50 MEDIUM
      sample_thresholds False blank_reader sample_exp]
    by (simp add: sample_stage_input_def)
  have "primarySubtype (si_classification (sample_stage_input kit_seller)) = SERVICES"
    "supportingSubtypes (si_classification (sample_stage_input kit_seller)) = [GOODS_RETAIL]"
    by code_simp+
  moreover have "ssd_primarySubtype (second_stage blank_reader sample_exp (sample_stage_input kit_seller)) =
      GOODS_RETAIL"
    by code_simp
  ultimately show ?thesis using supporting by simp
qed

text \<open>
  C26: The cache of the second stage is transparent and bounded: for every sequence of inputs each answer is what the
  stage computes without a cache, and no more than 4096 decisions are kept.
\<close>

theorem second_stage_cache_transparent:
  fixes rd :: text_reader and ex :: "rat \<Rightarrow> rat" and inps :: "second_stage_input list"
    and digest :: "string \<times> second_stage_input \<Rightarrow> 'k"
  assumes "inj digest"
  defines "run \<equiv> evaluate_all rd ex digest SECOND_STAGE_MAX_ENTRIES [] inps"
  shows "snd run = map (\<lambda>inp. if shouldRunCommercialSecondStage inp then Some (second_stage rd ex inp) else None) inps \<and>
    length (fst run) \<le> 4096 \<and> cache_sound rd ex digest (fst run)"
  using evaluate_all_correct [OF _ assms(1), of rd ex "[]" SECOND_STAGE_MAX_ENTRIES inps]
  unfolding run_def
  by (simp add: cache_sound_def SECOND_STAGE_MAX_ENTRIES_def evaluated_def [abs_def])

theorem second_stage_cache_transparent_witness:
  "snd (evaluate_all blank_reader sample_exp id SECOND_STAGE_MAX_ENTRIES []
     [sample_stage_input kit_seller, sample_stage_input kit_seller]) =
   [Some (second_stage blank_reader sample_exp (sample_stage_input kit_seller)),
    Some (second_stage blank_reader sample_exp (sample_stage_input kit_seller))]"
proof -
  have "shouldRunCommercialSecondStage (sample_stage_input kit_seller)" by code_simp
  then show ?thesis
    using second_stage_cache_transparent [of id blank_reader sample_exp
      "[sample_stage_input kit_seller, sample_stage_input kit_seller]"]
    by simp
qed

text \<open>
  C11: What the scoring end of \<^verbatim>\<open>detectCommercialAd\<close> returns, once none of its earlier guards has
  returned, for any thresholds that the settings resolve to and any cache that earlier evaluations left (under an
  injective digest and a positive exponential): a confidence between the warning threshold and 100, the band of that
  confidence, a HIGH band only for a text with a price, a contact, a deal channel or a transaction, and a recommended
  review only with a reason.  Text with bounded recall evidence is returned always, other text exactly from the warning
  threshold on.  The answer with confidence 0 that the caller builds for an ambiguous transport text is not of this
  function.
\<close>

theorem detections_are_justified:
  fixes digest :: "string \<times> second_stage_input \<Rightarrow> 'k" and i :: scored_input
    and rd :: text_reader and ex :: "rat \<Rightarrow> rat" and inps :: "second_stage_input list" and settings :: commercial_settings
  assumes "\<And>x. 0 < ex x" "inj digest" "sc_appliedThresholds i = resolveCommercialSettingsThresholds settings"
  defines "t \<equiv> sc_appliedThresholds i"
  defines "ev \<equiv> resolveCommercialEvidenceProfile (sc_state i) (Some t) (sc_analysisCampaignContext i)"
  defines "s \<equiv> staged_score (stage_input i ev) (evaluated rd ex (stage_input i ev))"
  defines "m \<equiv> fst (evaluate_all rd ex digest SECOND_STAGE_MAX_ENTRIES [] inps)"
  shows "(snd (detect_scored rd ex digest m i) = None \<longleftrightarrow>
      \<not> hasBoundedRecallEvidence ev \<and> s < warnThreshold t) \<and>
    (\<forall>d. snd (detect_scored rd ex digest m i) = Some d \<longrightarrow>
       warnThreshold t \<le> det_confidenceScore d \<and> det_confidenceScore d \<le> 100 \<and>
       dd_decisionBand d = band_of_score t (det_confidenceScore d) \<and>
       (dd_decisionBand d = HIGH \<longrightarrow> has_deal (sc_state i)) \<and>
       (det_reviewRecommended d \<longrightarrow> det_reviewReasons d \<noteq> []) \<and> distinct (det_reviewReasons d)) \<and>
    fst (detect_scored rd ex digest m i) =
      fst (evaluate_all rd ex digest SECOND_STAGE_MAX_ENTRIES [] (inps @ [stage_input i ev]))"
proof -
  let ?inp = "stage_input i ev"
  let ?cls = "case evaluated rd ex ?inp of
      None \<Rightarrow> si_classification ?inp | Some d \<Rightarrow> with_decision (si_classification ?inp) d"
  let ?c = "if hasBoundedRecallEvidence ev then max s (warnThreshold t) else s"
  have thresholds: "thresholds_ok (sc_appliedThresholds i)" unfolding assms(3) by (rule resolved_ok)
  note eqs = detect_scored_eq [OF reached_sound(1) [OF assms(2), of rd ex inps] assms(2) reached_sound(2) [OF assms(2)],
      of i, folded m_def, folded t_def, folded ev_def, folded s_def]
  have t: "warnThreshold t < deleteThreshold t" "warnThreshold t \<le> 100"
    using thresholds by (simp_all add: thresholds_ok_def t_def)
  have s: "s \<le> 100" "deleteThreshold t \<le> s \<Longrightarrow> has_deal (sc_state i)"
    using staged_bounds [where ex = ex and rd = rd and i = i, OF assms(1) thresholds]
    unfolding s_def ev_def t_def by blast+
  have reasons: "distinct (reviewReasons ?cls) \<and> (reviewRecommended ?cls \<longrightarrow> reviewReasons ?cls \<noteq> [])"
  proof -
    obtain c b t k where "si_classification ?inp = classifyCommercialDetection (sc_state i) c b t k"
      using stage_classified by blast
    then show ?thesis
      using classified_reasons [of "sc_state i" c b t k] second_stage_reasons [of rd ex ?inp]
      by (auto simp: evaluated_def with_decision_def)
  qed
  have returned: "warnThreshold t \<le> det_confidenceScore d \<and> det_confidenceScore d \<le> 100 \<and>
       dd_decisionBand d = band_of_score t (det_confidenceScore d) \<and>
       (dd_decisionBand d = HIGH \<longrightarrow> has_deal (sc_state i)) \<and>
       (det_reviewRecommended d \<longrightarrow> det_reviewReasons d \<noteq> []) \<and> distinct (det_reviewReasons d)"
    if d: "snd (detect_scored rd ex digest m i) = Some d" for d
  proof -
    have above: "warnThreshold t \<le> ?c" using d eqs(1) by (simp split: if_splits)
    have "det_confidenceScore d = ?c" "dd_decisionBand d = band_of_score t ?c"
      "det_reviewRecommended d = reviewRecommended ?cls" "det_reviewReasons d = reviewReasons ?cls"
      using eqs(2) [OF d t(1)] by blast+
    moreover have "?c \<le> 100" using s(1) t(2) by simp
    moreover have "has_deal (sc_state i)" if "band_of_score t ?c = HIGH"
      using that s(2) t(1) by (auto simp: band_of_score_def split: if_splits)
    ultimately show ?thesis using above reasons by simp
  qed
  have none: "snd (detect_scored rd ex digest m i) = None \<longleftrightarrow>
      \<not> hasBoundedRecallEvidence ev \<and> s < warnThreshold t"
    unfolding eqs(1) by simp
  have "fst (detect_scored rd ex digest m i) =
      fst (evaluate_all rd ex digest SECOND_STAGE_MAX_ENTRIES [] (inps @ [?inp]))"
    unfolding evaluate_all_append m_def [symmetric] by (rule eqs(3))
  then show ?thesis using none returned by blast
qed

definition sample_settings :: commercial_settings where
  "sample_settings = \<lparr>cs_strict = False, cs_warnThreshold = Some 45, cs_deleteThreshold = Some 65\<rparr>"

definition sample_scored :: scored_input where
  "sample_scored =
     \<lparr>sc_paramRawLoweredText = ''x'', sc_rawLoweredText = ''x'', sc_normalizedText = ''x'',
      sc_state = kit_seller\<lparr>st_score := 159 / 2, hasCommercialContext := True\<rparr>,
      sc_appliedThresholds = resolveCommercialSettingsThresholds sample_settings,
      sc_analysisCampaignContext = None, sc_isolatedIndependentOffer = False,
      sc_ownedOrderOffer = False, sc_requiredPolicyCohorts = []\<rparr>"

theorem detections_are_justified_witness:
  "\<exists>d. snd (detect_scored blank_reader sample_exp id [] sample_scored) = Some d \<and>
     45 \<le> det_confidenceScore d \<and> det_confidenceScore d \<le> 100 \<and> distinct (det_reviewReasons d)"
proof -
  let ?r = "snd (detect_scored blank_reader sample_exp id [] sample_scored)"
  let ?inp = "stage_input sample_scored (resolveCommercialEvidenceProfile (sc_state sample_scored)
    (Some (sc_appliedThresholds sample_scored)) (sc_analysisCampaignContext sample_scored))"
  have score: "staged_score ?inp (evaluated blank_reader sample_exp ?inp) = 80"
    by code_simp
  have warn: "warnThreshold (sc_appliedThresholds sample_scored) = 45"
    by code_simp
  have thresholds: "sc_appliedThresholds sample_scored = resolveCommercialSettingsThresholds sample_settings"
    by (simp add: sample_scored_def)
  note justified = detections_are_justified [of sample_exp id sample_scored sample_settings blank_reader "[]",
      OF sample_exp_pos inj_on_id thresholds, unfolded score warn evaluate_all.simps fst_conv]
  have "?r \<noteq> None" using justified by simp
  then obtain d where d: "?r = Some d" by blast
  then have "45 \<le> det_confidenceScore d \<and> det_confidenceScore d \<le> 100 \<and> distinct (det_reviewReasons d)"
    using justified by blast
  then show ?thesis using d by blast
qed

end
