(* ===== verification/JS_Values.thy ===== *)
theory JS_Values
  imports Prelude
begin

text \<open>
  The JavaScript string methods and values the components read: trimming, lower case, JSON values
  and decimal digits.

  \<^item> A JavaScript string is the list of its 16-bit code units; \<^verbatim>\<open>ascii\<close> lifts
    a literal.  A JSON number only ever reaches \<^verbatim>\<open>String(value)\<close>, so a number is
    represented by that string.
  \<^item> \<open>to_lower\<close> is \<^verbatim>\<open>toLowerCase\<close> on ASCII and Russian letters, the only ones
    that can produce a letter of the words the code compares with; it leaves other letters alone.
\<close>

section \<open>Letters\<close>

text \<open>White space and line terminators of \<^verbatim>\<open>String.prototype.trim\<close>.\<close>

definition is_space :: "16 word \<Rightarrow> bool" where
  "is_space c \<longleftrightarrow>
     (9 \<le> c \<and> c \<le> 13) \<or> c = 32 \<or> c = 160 \<or> c = 0x1680 \<or> (0x2000 \<le> c \<and> c \<le> 0x200A) \<or>
     c = 0x2028 \<or> c = 0x2029 \<or> c = 0x202F \<or> c = 0x205F \<or> c = 0x3000 \<or> c = 0xFEFF"

definition trim :: "js_string \<Rightarrow> js_string" where
  "trim s = rev (dropWhile is_space (rev (dropWhile is_space s)))"

definition lower_unit :: "16 word \<Rightarrow> 16 word" where
  "lower_unit c =
     (if 65 \<le> c \<and> c \<le> 90 then c + 32
      else if 0x410 \<le> c \<and> c \<le> 0x42F then c + 32
      else if 0x400 \<le> c \<and> c \<le> 0x40F then c + 80
      else if c = 0x212A then 107
      else c)"

definition to_lower :: "js_string \<Rightarrow> js_string" where
  "to_lower s = map lower_unit s"

section \<open>JSON values\<close>

datatype js_value =
    Undefined | Null | Bool bool | Num js_string | Str js_string | Arr "js_value list"
  | Obj "(js_string \<times> js_value) list"

definition field :: "string \<Rightarrow> js_value \<Rightarrow> js_value" where
  "field k v =
     (case v of Obj fs \<Rightarrow> (case map_of fs (ascii k) of Some w \<Rightarrow> w | None \<Rightarrow> Undefined)
      | _ \<Rightarrow> Undefined)"

text \<open>The operator \<^verbatim>\<open>??\<close> on values.\<close>

definition nullish_or :: "js_value \<Rightarrow> js_value \<Rightarrow> js_value" where
  "nullish_or v w = (case v of Undefined \<Rightarrow> w | Null \<Rightarrow> w | _ \<Rightarrow> v)"

section \<open>Digits\<close>

definition is_digit :: "16 word \<Rightarrow> bool" where
  "is_digit c \<longleftrightarrow> 48 \<le> c \<and> c \<le> 57"

definition digits_value :: "js_string \<Rightarrow> int" where
  "digits_value s = foldl (\<lambda>n c. n * 10 + (int (unat c) - 48)) 0 s"

end
