(* ===== verification/Webhook_Queues.thy ===== *)
theory Webhook_Queues
  imports JS_Values
begin

unbundle bit_operations_syntax

text \<open>
  \<^verbatim>\<open>apps/api/src/webhook/webhook-queues.ts\<close> and the two helpers it calls,
  \<^verbatim>\<open>common/managed-entity-handshake-command.util.ts\<close> and
  \<^verbatim>\<open>common/chat-id.util.ts\<close>: from the JSON payload of a webhook event to its queue and
  its priority.
\<close>

section \<open>Values of a payload\<close>

fun is_object :: "js_value \<Rightarrow> bool" where
  "is_object (Obj fs) = True"
| "is_object _ = False"

text \<open>\<^verbatim>\<open>typeof value === 'string' || typeof value === 'number'\<close>, then
  \<^verbatim>\<open>String(value).trim()\<close>; the empty string where the test fails.\<close>

fun scalar_text :: "js_value \<Rightarrow> js_string" where
  "scalar_text (Str s) = trim s"
| "scalar_text (Num s) = trim s"
| "scalar_text _ = []"

section \<open>Chat identifiers and the handshake command\<close>

definition parseChatIdAsBigInt :: "js_string \<Rightarrow> int option" where
  "parseChatIdAsBigInt chat_id =
     (let s = trim chat_id;
          negative = (s \<noteq> [] \<and> hd s = 45);
          ds = (if negative then tl s else s)
      in if ds \<noteq> [] \<and> list_all is_digit ds
         then Some (if negative then - digits_value ds else digits_value ds) else None)"

definition isPrivateDirectChatId :: "js_string \<Rightarrow> bool" where
  "isPrivateDirectChatId chat_id =
     (case parseChatIdAsBigInt chat_id of None \<Rightarrow> False | Some n \<Rightarrow> n > 0)"

text \<open>The word \<^verbatim>\<open>MANAGED_ENTITY_HANDSHAKE_COMMAND\<close>, five Russian letters.\<close>

definition HANDSHAKE_COMMAND :: js_string where
  "HANDSHAKE_COMMAND = [0x441, 0x442, 0x430, 0x440, 0x442]"

definition isManagedEntityHandshakeStartCommand :: "js_value \<Rightarrow> bool" where
  "isManagedEntityHandshakeStartCommand payload =
     (if \<not> is_object payload then False
      else if to_lower (scalar_text (nullish_or (field ''type'' payload) (field ''update_type'' payload)))
              \<noteq> ascii ''message_created''
      then False
      else
        (let record_message = field ''message'' payload;
             message = (if is_object record_message then record_message else Undefined);
             txt = scalar_text (nullish_or (field ''text'' message) (field ''text'' payload));
             chat_id = scalar_text
               (nullish_or (nullish_or (nullish_or (field ''chatId'' message) (field ''chat_id'' message))
                 (field ''chatId'' payload)) (field ''chat_id'' payload))
         in to_lower txt = HANDSHAKE_COMMAND \<and> chat_id \<noteq> [] \<and> \<not> isPrivateDirectChatId chat_id))"

section \<open>Event type\<close>

datatype webhook_type =
    Message_Callback | User_Added | Bot_Added | Bot_Started | Message_Created | Message_Edited
  | Chat_Title_Changed | User_Removed | Bot_Removed | Bot_Stopped | Dialog_Removed
  | Message_Removed | Other_Type

definition type_labels :: "(js_string \<times> webhook_type) list" where
  "type_labels =
     [(ascii ''message_callback'', Message_Callback), (ascii ''user_added'', User_Added),
      (ascii ''bot_added'', Bot_Added), (ascii ''bot_started'', Bot_Started),
      (ascii ''message_created'', Message_Created), (ascii ''message_edited'', Message_Edited),
      (ascii ''chat_title_changed'', Chat_Title_Changed), (ascii ''user_removed'', User_Removed),
      (ascii ''bot_removed'', Bot_Removed), (ascii ''bot_stopped'', Bot_Stopped),
      (ascii ''dialog_removed'', Dialog_Removed), (ascii ''message_removed'', Message_Removed)]"

text \<open>The label a \<^verbatim>\<open>switch\<close> over the type string reaches.\<close>

definition type_of_label :: "js_string \<Rightarrow> webhook_type" where
  "type_of_label s = (case map_of type_labels s of Some t \<Rightarrow> t | None \<Rightarrow> Other_Type)"

definition readWebhookType :: "js_value \<Rightarrow> js_string" where
  "readWebhookType payload =
     (if \<not> is_object payload then []
      else (case nullish_or (field ''type'' payload) (field ''update_type'' payload) of
              Str s \<Rightarrow> to_lower (trim s)
            | _ \<Rightarrow> []))"

definition webhook_type :: "js_value \<Rightarrow> webhook_type" where
  "webhook_type payload = type_of_label (readWebhookType payload)"

section \<open>Chat of an event\<close>

definition first_text :: "js_value list \<Rightarrow> js_string" where
  "first_text vs = (case filter (\<lambda>s. s \<noteq> []) (map scalar_text vs) of [] \<Rightarrow> [] | s # _ \<Rightarrow> s)"

definition direct_chat_id :: "js_value \<Rightarrow> js_string" where
  "direct_chat_id v =
     first_text [field ''chatId'' (field ''message'' v), field ''chat_id'' (field ''message'' v),
                 field ''chatId'' v, field ''chat_id'' v]"

definition nested_keys :: "string list" where
  "nested_keys =
     [''message'', ''data'', ''event'', ''message_created'', ''message_edited'', ''user_added'',
      ''bot_added'', ''user_removed'', ''bot_removed'', ''bot_started'', ''bot_stopped'',
      ''dialog_removed'', ''message_removed'', ''chat_title_changed'']"

lemma size_map_of: "map_of fs k = Some v \<Longrightarrow> size v < size (Obj fs)"
  by (induction fs) (auto split: if_splits)

lemma size_field: "is_object (field k v) \<Longrightarrow> size (field k v) < size v"
  by (cases v) (auto simp: field_def split: option.splits dest: size_map_of)

text \<open>\<^verbatim>\<open>readWebhookChatId\<close> and its loop over the nested candidates.\<close>

function (sequential) readWebhookChatId :: "js_value \<Rightarrow> js_string"
  and read_nested :: "string list \<Rightarrow> js_value \<Rightarrow> js_string" where
  "readWebhookChatId payload =
     (if \<not> is_object payload then []
      else (let direct = direct_chat_id payload
            in if direct \<noteq> [] then direct else read_nested nested_keys payload))"
| "read_nested [] payload = []"
| "read_nested (k # ks) payload =
     (if is_object (field k payload)
      then (let nested = readWebhookChatId (field k payload)
            in if nested \<noteq> [] then nested else read_nested ks payload)
      else read_nested ks payload)"
  by pat_completeness auto
termination
  by (relation "inv_image (less_than <*lex*> less_than)
        (\<lambda>x. case x of Inl v \<Rightarrow> (size v, Suc (length nested_keys)) | Inr (ks, v) \<Rightarrow> (size v, length ks))")
     (auto dest: size_field)

definition extractWebhookBotId :: "js_value \<Rightarrow> js_string" where
  "extractWebhookBotId payload =
     (if \<not> is_object payload then []
      else scalar_text (nullish_or (field ''botId'' payload) (field ''bot_id'' payload)))"

section \<open>Hash of a chat\<close>

definition fnv_step :: "32 word \<Rightarrow> 16 word \<Rightarrow> 32 word" where
  "fnv_step hash c = (hash XOR ucast c) * 0x01000193"

definition hash_finalizer :: "32 word \<Rightarrow> 32 word" where
  "hash_finalizer hash =
     (let hash = hash XOR drop_bit 16 hash;
          hash = hash * 0x85ebca6b;
          hash = hash XOR drop_bit 13 hash;
          hash = hash * 0xc2b2ae35
      in hash XOR drop_bit 16 hash)"

definition hashChatId :: "js_string \<Rightarrow> nat" where
  "hashChatId chat_id = unat (hash_finalizer (foldl fnv_step 0x811c9dc5 chat_id))"

section \<open>Queues and priorities\<close>

datatype webhook_queue =
  Legacy_Queue | Critical_Queue | Background_Queue | Join_Queue nat | Default_Queue nat

definition JOIN_WEBHOOK_SHARD_COUNT :: nat where "JOIN_WEBHOOK_SHARD_COUNT = 4"

definition DEFAULT_WEBHOOK_SHARD_COUNT :: nat where "DEFAULT_WEBHOOK_SHARD_COUNT = 16"

definition JOIN_WEBHOOK_QUEUE_NAMES :: "webhook_queue list" where
  "JOIN_WEBHOOK_QUEUE_NAMES = map Join_Queue [0..<JOIN_WEBHOOK_SHARD_COUNT]"

definition DEFAULT_WEBHOOK_QUEUE_NAMES :: "webhook_queue list" where
  "DEFAULT_WEBHOOK_QUEUE_NAMES = map Default_Queue [0..<DEFAULT_WEBHOOK_SHARD_COUNT]"

definition ACTIVE_WEBHOOK_QUEUE_NAMES :: "webhook_queue list" where
  "ACTIVE_WEBHOOK_QUEUE_NAMES =
     Critical_Queue # JOIN_WEBHOOK_QUEUE_NAMES @ DEFAULT_WEBHOOK_QUEUE_NAMES @ [Background_Queue]"

definition ALL_WEBHOOK_QUEUE_NAMES :: "webhook_queue list" where
  "ALL_WEBHOOK_QUEUE_NAMES = Legacy_Queue # ACTIVE_WEBHOOK_QUEUE_NAMES"

definition resolveDefaultWebhookQueueIndexForChatId :: "js_string \<Rightarrow> nat" where
  "resolveDefaultWebhookQueueIndexForChatId chat_id =
     hashChatId chat_id mod length DEFAULT_WEBHOOK_QUEUE_NAMES"

definition resolveDefaultWebhookQueueNameForChatId :: "js_string \<Rightarrow> webhook_queue" where
  "resolveDefaultWebhookQueueNameForChatId chat_id =
     DEFAULT_WEBHOOK_QUEUE_NAMES ! resolveDefaultWebhookQueueIndexForChatId chat_id"

definition resolveDefaultWebhookQueueName :: "js_value \<Rightarrow> webhook_queue" where
  "resolveDefaultWebhookQueueName payload =
     (let chat_id = readWebhookChatId payload
      in if chat_id = [] then DEFAULT_WEBHOOK_QUEUE_NAMES ! 0
         else resolveDefaultWebhookQueueNameForChatId chat_id)"

definition resolveJoinWebhookQueueIndexForChatId :: "js_string \<Rightarrow> nat" where
  "resolveJoinWebhookQueueIndexForChatId chat_id =
     hashChatId chat_id mod length JOIN_WEBHOOK_QUEUE_NAMES"

definition resolveJoinWebhookQueueNameForChatId :: "js_string \<Rightarrow> webhook_queue" where
  "resolveJoinWebhookQueueNameForChatId chat_id =
     JOIN_WEBHOOK_QUEUE_NAMES ! resolveJoinWebhookQueueIndexForChatId chat_id"

definition resolveJoinWebhookQueueName :: "js_value \<Rightarrow> webhook_queue" where
  "resolveJoinWebhookQueueName payload =
     (let chat_id = readWebhookChatId payload
      in if chat_id = [] then JOIN_WEBHOOK_QUEUE_NAMES ! 0
         else resolveJoinWebhookQueueNameForChatId chat_id)"

record job_priorities =
  prio_callback :: nat
  prio_handshakeStart :: nat
  prio_membershipJoin :: nat
  prio_manualCloseMessage :: nat
  prio_message :: nat
  prio_membershipLeave :: nat
  prio_default :: nat

definition WEBHOOK_JOB_PRIORITY :: job_priorities where
  "WEBHOOK_JOB_PRIORITY =
     \<lparr>prio_callback = 1, prio_handshakeStart = 1, prio_membershipJoin = 2,
      prio_manualCloseMessage = 3, prio_message = 5, prio_membershipLeave = 8,
      prio_default = 6\<rparr>"

definition resolveWebhookJobPriority :: "js_value \<Rightarrow> bool \<Rightarrow> nat" where
  "resolveWebhookJobPriority payload manualCloseMessage =
     (let message_priority =
            (if manualCloseMessage then prio_manualCloseMessage WEBHOOK_JOB_PRIORITY
             else prio_message WEBHOOK_JOB_PRIORITY)
      in case webhook_type payload of
           Message_Callback \<Rightarrow> prio_callback WEBHOOK_JOB_PRIORITY
         | User_Added \<Rightarrow> prio_membershipJoin WEBHOOK_JOB_PRIORITY
         | Bot_Added \<Rightarrow> prio_membershipJoin WEBHOOK_JOB_PRIORITY
         | Bot_Started \<Rightarrow> prio_membershipJoin WEBHOOK_JOB_PRIORITY
         | Message_Created \<Rightarrow>
             (if isManagedEntityHandshakeStartCommand payload
              then prio_handshakeStart WEBHOOK_JOB_PRIORITY else message_priority)
         | Message_Edited \<Rightarrow> message_priority
         | Chat_Title_Changed \<Rightarrow> message_priority
         | User_Removed \<Rightarrow> prio_membershipLeave WEBHOOK_JOB_PRIORITY
         | Bot_Removed \<Rightarrow> prio_membershipLeave WEBHOOK_JOB_PRIORITY
         | Bot_Stopped \<Rightarrow> prio_membershipLeave WEBHOOK_JOB_PRIORITY
         | Dialog_Removed \<Rightarrow> prio_membershipLeave WEBHOOK_JOB_PRIORITY
         | Message_Removed \<Rightarrow> prio_membershipLeave WEBHOOK_JOB_PRIORITY
         | Other_Type \<Rightarrow> prio_default WEBHOOK_JOB_PRIORITY)"

definition resolveWebhookQueueName :: "js_value \<Rightarrow> webhook_queue" where
  "resolveWebhookQueueName payload =
     (case webhook_type payload of
        Message_Callback \<Rightarrow> Critical_Queue
      | Bot_Added \<Rightarrow> Critical_Queue
      | Bot_Started \<Rightarrow> Critical_Queue
      | User_Added \<Rightarrow> resolveJoinWebhookQueueName payload
      | User_Removed \<Rightarrow> Background_Queue
      | Bot_Removed \<Rightarrow> Background_Queue
      | Bot_Stopped \<Rightarrow> Background_Queue
      | Dialog_Removed \<Rightarrow> Background_Queue
      | Message_Removed \<Rightarrow> Background_Queue
      | Message_Created \<Rightarrow>
          (if isManagedEntityHandshakeStartCommand payload then Critical_Queue
           else resolveDefaultWebhookQueueName payload)
      | _ \<Rightarrow> resolveDefaultWebhookQueueName payload)"

section \<open>The hash\<close>

lemma xorshift16_inverse: "(h XOR drop_bit 16 h) XOR drop_bit 16 (h XOR drop_bit 16 h) = (h :: 32 word)"
  by (rule bit_word_eqI) (auto simp: bit_simps dest: bit_imp_le_length)

lemma xorshift13_inverse:
  "(h XOR drop_bit 13 h) XOR drop_bit 13 (h XOR drop_bit 13 h) XOR drop_bit 26 (h XOR drop_bit 13 h)
   = (h :: 32 word)"
  by (rule bit_word_eqI) (auto simp: bit_simps dest: bit_imp_le_length)

definition finalizer_inverse :: "32 word \<Rightarrow> 32 word" where
  "finalizer_inverse h =
     (let h = h XOR drop_bit 16 h;
          h = h * 0x7ed1b41d;
          h = h XOR drop_bit 13 h XOR drop_bit 26 h;
          h = h * 0xa5cb9243
      in h XOR drop_bit 16 h)"

lemma constant_inverses:
  "(0xc2b2ae35 :: 32 word) * 0x7ed1b41d = 1" "(0x85ebca6b :: 32 word) * 0xa5cb9243 = 1"
  by simp_all

lemma mult_inverses: "(h * 0xc2b2ae35) * 0x7ed1b41d = (h :: 32 word)"
    "(h * 0x85ebca6b) * 0xa5cb9243 = (h :: 32 word)"
  by (simp_all only: mult.assoc constant_inverses mult_1_right)

lemma finalizer_inverse: "finalizer_inverse (hash_finalizer h) = h"
  by (simp only: finalizer_inverse_def hash_finalizer_def Let_def xorshift16_inverse mult_inverses
      xorshift13_inverse)

lemma hash_finalizer_inj: "inj hash_finalizer"
  by (rule inj_on_inverseI [of _ finalizer_inverse]) (rule finalizer_inverse)

section \<open>Properties\<close>

text \<open>
  The finalizer of the chat hash is a permutation of the 32-bit words: two chats collide in the
  hash only if their FNV digests are already equal, and every 32-bit value is reached.
\<close>

theorem chat_hash_finalizer_bij:
  "bij hash_finalizer \<and>
   (hashChatId a = hashChatId b \<longleftrightarrow> foldl fnv_step 0x811c9dc5 a = foldl fnv_step 0x811c9dc5 b)"
proof -
  have "surj hash_finalizer" using hash_finalizer_inj by (simp add: finite_UNIV_inj_surj)
  moreover have "hashChatId a = hashChatId b \<longleftrightarrow>
      hash_finalizer (foldl fnv_step 0x811c9dc5 a) = hash_finalizer (foldl fnv_step 0x811c9dc5 b)"
    by (simp only: hashChatId_def word_unat_eq_iff)
  ultimately show ?thesis using hash_finalizer_inj by (simp add: bij_def inj_eq)
qed

lemma default_queue_of_chat:
  "resolveDefaultWebhookQueueNameForChatId c = Default_Queue (hashChatId c mod 16)"
  by (simp add: resolveDefaultWebhookQueueNameForChatId_def DEFAULT_WEBHOOK_QUEUE_NAMES_def
      resolveDefaultWebhookQueueIndexForChatId_def DEFAULT_WEBHOOK_SHARD_COUNT_def)

lemma join_queue_of_chat:
  "resolveJoinWebhookQueueNameForChatId c = Join_Queue (hashChatId c mod 4)"
  by (simp add: resolveJoinWebhookQueueNameForChatId_def JOIN_WEBHOOK_QUEUE_NAMES_def
      resolveJoinWebhookQueueIndexForChatId_def JOIN_WEBHOOK_SHARD_COUNT_def)

lemma default_queue_name:
  "resolveDefaultWebhookQueueName p =
     Default_Queue (if readWebhookChatId p = [] then 0 else hashChatId (readWebhookChatId p) mod 16)"
  by (simp add: resolveDefaultWebhookQueueName_def default_queue_of_chat DEFAULT_WEBHOOK_QUEUE_NAMES_def
      DEFAULT_WEBHOOK_SHARD_COUNT_def Let_def upt_rec)

lemma join_queue_name:
  "resolveJoinWebhookQueueName p =
     Join_Queue (if readWebhookChatId p = [] then 0 else hashChatId (readWebhookChatId p) mod 4)"
  by (simp add: resolveJoinWebhookQueueName_def join_queue_of_chat JOIN_WEBHOOK_QUEUE_NAMES_def
      JOIN_WEBHOOK_SHARD_COUNT_def Let_def upt_rec)

definition ordinary_event :: "js_value \<Rightarrow> bool" where
  "ordinary_event p \<longleftrightarrow>
     webhook_type p \<in> {Message_Edited, Chat_Title_Changed, Other_Type} \<or>
     (webhook_type p = Message_Created \<and> \<not> isManagedEntityHandshakeStartCommand p)"

lemma queue_of_ordinary:
  "ordinary_event p \<Longrightarrow> resolveWebhookQueueName p = resolveDefaultWebhookQueueName p"
  by (auto simp: ordinary_event_def resolveWebhookQueueName_def)

text \<open>
  Events of one chat keep their order: all messages, edits and title changes of a chat go to the
  same default shard, a shard that exists, and all joins of a chat to the same join shard.
\<close>

theorem chat_events_share_shard:
  assumes "readWebhookChatId p = readWebhookChatId q"
  shows "(ordinary_event p \<and> ordinary_event q \<longrightarrow>
      resolveWebhookQueueName p = resolveWebhookQueueName q \<and>
      resolveWebhookQueueName p \<in> set DEFAULT_WEBHOOK_QUEUE_NAMES) \<and>
    (webhook_type p = User_Added \<and> webhook_type q = User_Added \<longrightarrow>
      resolveWebhookQueueName p = resolveWebhookQueueName q \<and>
      resolveWebhookQueueName p \<in> set JOIN_WEBHOOK_QUEUE_NAMES)"
proof (intro conjI impI; elim conjE)
  assume "ordinary_event p" "ordinary_event q"
  then show "resolveWebhookQueueName p = resolveWebhookQueueName q"
    "resolveWebhookQueueName p \<in> set DEFAULT_WEBHOOK_QUEUE_NAMES"
    using assms by (simp_all add: queue_of_ordinary default_queue_name DEFAULT_WEBHOOK_QUEUE_NAMES_def
        DEFAULT_WEBHOOK_SHARD_COUNT_def)
next
  assume "webhook_type p = User_Added" "webhook_type q = User_Added"
  then show "resolveWebhookQueueName p = resolveWebhookQueueName q"
    "resolveWebhookQueueName p \<in> set JOIN_WEBHOOK_QUEUE_NAMES"
    using assms by (simp_all add: resolveWebhookQueueName_def join_queue_name
        JOIN_WEBHOOK_QUEUE_NAMES_def JOIN_WEBHOOK_SHARD_COUNT_def)
qed

definition sample_message :: "string \<Rightarrow> js_value" where
  "sample_message ty =
     Obj [(ascii ''type'', Str (ascii ty)), (ascii ''message'', Obj [(ascii ''chatId'', Num (ascii ''-71''))])]"

theorem chat_events_share_shard_witness:
  "resolveWebhookQueueName (sample_message ''message_created'') =
   resolveWebhookQueueName (sample_message ''message_edited'')"
proof -
  have "readWebhookChatId (sample_message ''message_created'') =
      readWebhookChatId (sample_message ''message_edited'')"
    "ordinary_event (sample_message ''message_created'')"
    "ordinary_event (sample_message ''message_edited'')"
    by code_simp+
  with chat_events_share_shard show ?thesis by blast
qed

text \<open>
  Every payload gets an active queue, and its priority fits the queue: priority 8 exactly on the
  background queue, 1 or 2 on the critical and join queues, and between 3 and 6 on default shards.
\<close>

theorem queue_priority_agree:
  "resolveWebhookQueueName p \<in> set ACTIVE_WEBHOOK_QUEUE_NAMES \<and>
   (resolveWebhookQueueName p = Background_Queue) = (resolveWebhookJobPriority p manual = 8) \<and>
   (resolveWebhookJobPriority p manual \<in> {1, 2}) =
     (resolveWebhookQueueName p = Critical_Queue \<or>
      resolveWebhookQueueName p \<in> set JOIN_WEBHOOK_QUEUE_NAMES) \<and>
   (resolveWebhookJobPriority p manual \<in> {3, 5, 6}) =
     (resolveWebhookQueueName p \<in> set DEFAULT_WEBHOOK_QUEUE_NAMES)"
  by (cases "webhook_type p")
    (auto simp: resolveWebhookQueueName_def resolveWebhookJobPriority_def WEBHOOK_JOB_PRIORITY_def
      default_queue_name join_queue_name ACTIVE_WEBHOOK_QUEUE_NAMES_def
      DEFAULT_WEBHOOK_QUEUE_NAMES_def JOIN_WEBHOOK_QUEUE_NAMES_def DEFAULT_WEBHOOK_SHARD_COUNT_def
      JOIN_WEBHOOK_SHARD_COUNT_def)

end
