(* ===== verification/Runtime_Topology.thy ===== *)
theory Runtime_Topology
  imports Webhook_Queues
begin

text \<open>
  \<^verbatim>\<open>apps/api/src/runtime/app-role.ts\<close>, \<^verbatim>\<open>runtime-topology.ts\<close>,
  \<^verbatim>\<open>moderation-runtime.ts\<close> and \<^verbatim>\<open>runtime-queue-inventory.ts\<close>: which
  service of the deployment a process is, which webhook queues it serves, and how many jobs of each
  shard it runs at once.

  \<^item> The environment is a function from the name of a variable to its value,
    \<open>Undefined\<close> when it is not set.
  \<^item> A union of string literals is a datatype with a label function; the normalisers compare the
    label with the text they are given.
  \<^item> \<open>js_integer\<close> is \<^verbatim>\<open>Number(text)\<close> followed by
    \<^verbatim>\<open>Number.isInteger\<close>, on exact values: decimal and radix literals whose value
    needs no rounding to a double.
\<close>

type_synonym env = "string \<Rightarrow> js_value"

section \<open>Reading text\<close>

definition find_label :: "('a \<Rightarrow> string) \<Rightarrow> 'a list \<Rightarrow> js_string \<Rightarrow> 'a option" where
  "find_label label xs s = find (\<lambda>x. ascii (label x) = s) xs"

fun split_on :: "16 word \<Rightarrow> js_string \<Rightarrow> js_string list" where
  "split_on sep [] = [[]]"
| "split_on sep (c # s) =
     (if c = sep then [] # split_on sep s
      else (case split_on sep s of [] \<Rightarrow> [[c]] | t # ts \<Rightarrow> (c # t) # ts))"

text \<open>\<^verbatim>\<open>value.split(',').map(trim, toLowerCase).filter(Boolean)\<close>.\<close>

definition csv_tokens :: "js_string \<Rightarrow> js_string list" where
  "csv_tokens s = filter (\<lambda>t. t \<noteq> []) (map (\<lambda>t. to_lower (trim t)) (split_on 44 s))"

definition parse_exponent :: "js_string \<Rightarrow> int option" where
  "parse_exponent s =
     (case s of
        [] \<Rightarrow> Some 0
      | c # r \<Rightarrow>
          (let negative = (r \<noteq> [] \<and> hd r = 45);
               ds = (if r \<noteq> [] \<and> hd r \<in> {43, 45} then tl r else r)
           in if c \<in> {101, 69} \<and> ds \<noteq> [] \<and> list_all is_digit ds
              then Some (if negative then - digits_value ds else digits_value ds) else None))"

text \<open>A decimal literal as mantissa and exponent of ten.\<close>

definition parse_decimal :: "js_string \<Rightarrow> (int \<times> int) option" where
  "parse_decimal s =
     (let negative = (s \<noteq> [] \<and> hd s = 45);
          s = (if s \<noteq> [] \<and> hd s \<in> {43, 45} then tl s else s);
          whole = takeWhile is_digit s;
          rest = dropWhile is_digit s;
          dot = (rest \<noteq> [] \<and> hd rest = 46);
          frac = (if dot then takeWhile is_digit (tl rest) else []);
          rest = (if dot then dropWhile is_digit (tl rest) else rest)
      in if whole @ frac = [] then None
         else map_option
           (\<lambda>e. ((if negative then -1 else 1) * digits_value (whole @ frac), e - int (length frac)))
           (parse_exponent rest))"

definition radix_digit :: "16 word \<Rightarrow> int" where
  "radix_digit c =
     (if is_digit c then int (unat c) - 48
      else if 97 \<le> c \<and> c \<le> 102 then int (unat c) - 87
      else if 65 \<le> c \<and> c \<le> 70 then int (unat c) - 55
      else 99)"

definition parse_radix :: "js_string \<Rightarrow> int option" where
  "parse_radix s =
     (case s of
        z # r # ds \<Rightarrow>
          (let radix = (if r \<in> {120, 88} then 16 else if r \<in> {111, 79} then 8
                        else if r \<in> {98, 66} then 2 else 0)
           in if z = 48 \<and> radix > 0 \<and> ds \<noteq> [] \<and> list_all (\<lambda>d. radix_digit d < radix) ds
              then Some (foldl (\<lambda>n d. n * radix + radix_digit d) 0 ds) else None)
      | _ \<Rightarrow> None)"

definition js_integer :: "js_string \<Rightarrow> int option" where
  "js_integer raw =
     (let s = trim raw
      in if s = [] then Some 0
         else (case parse_radix s of
             Some n \<Rightarrow> Some n
           | None \<Rightarrow>
               (case parse_decimal s of
                  None \<Rightarrow> None
                | Some (m, e) \<Rightarrow>
                    if 0 \<le> e then Some (m * 10 ^ nat e)
                    else if 10 ^ nat (- e) dvd m then Some (m div 10 ^ nat (- e))
                    else None)))"

section \<open>Roles\<close>

datatype app_role =
  All_Role | Ingress | Admin | Enqueue | Moderation | Action | Message_Retention | Publisher

fun app_role_label :: "app_role \<Rightarrow> string" where
  "app_role_label All_Role = ''all''"
| "app_role_label Ingress = ''ingress''"
| "app_role_label Admin = ''admin''"
| "app_role_label Enqueue = ''enqueue''"
| "app_role_label Moderation = ''moderation''"
| "app_role_label Action = ''action''"
| "app_role_label Message_Retention = ''message-retention''"
| "app_role_label Publisher = ''publisher''"

definition APP_ROLES :: "app_role list" where
  "APP_ROLES =
     [All_Role, Ingress, Admin, Enqueue, Moderation, Action, Message_Retention, Publisher]"

definition normalizeAppRole :: "js_value \<Rightarrow> app_role \<Rightarrow> app_role" where
  "normalizeAppRole v fallback =
     (let normalized = (case v of Str s \<Rightarrow> to_lower (trim s) | _ \<Rightarrow> [])
      in case find_label app_role_label APP_ROLES normalized of Some r \<Rightarrow> r | None \<Rightarrow> fallback)"

definition getAppRole :: "env \<Rightarrow> app_role" where
  "getAppRole env = normalizeAppRole (env ''APP_ROLE'') All_Role"

definition media_analysis_name :: js_value where
  "media_analysis_name = Str (ascii ''api-media-analysis'')"

definition roleRunsHttp :: "app_role \<Rightarrow> js_value \<Rightarrow> bool" where
  "roleRunsHttp role serviceName \<longleftrightarrow>
     role = All_Role \<or> role = Ingress \<or> role = Admin \<or>
     (role = Moderation \<and> serviceName = media_analysis_name)"

definition resolveHttpListenHost :: "js_value \<Rightarrow> string" where
  "resolveHttpListenHost serviceName =
     (if serviceName = media_analysis_name then ''127.0.0.1'' else ''0.0.0.0'')"

definition roleRunsIngress :: "app_role \<Rightarrow> bool" where
  "roleRunsIngress role \<longleftrightarrow> role = All_Role \<or> role = Ingress"

definition roleRunsAdmin :: "app_role \<Rightarrow> bool" where
  "roleRunsAdmin role \<longleftrightarrow> role = All_Role \<or> role = Admin"

definition roleRunsEnqueue :: "app_role \<Rightarrow> bool" where
  "roleRunsEnqueue role \<longleftrightarrow> role = All_Role \<or> role = Enqueue"

definition roleRunsModeration :: "app_role \<Rightarrow> bool" where
  "roleRunsModeration role \<longleftrightarrow> role = All_Role \<or> role = Moderation"

definition roleRunsAction :: "app_role \<Rightarrow> bool" where
  "roleRunsAction role \<longleftrightarrow> role = All_Role \<or> role = Action"

definition roleRunsPublisher :: "app_role \<Rightarrow> bool" where
  "roleRunsPublisher role \<longleftrightarrow> role = Publisher"

section \<open>Services of the deployment\<close>

record role_capabilities =
  httpEnabled :: bool
  ingressEnabled :: bool
  adminEnabled :: bool
  enqueueEnabled :: bool
  moderationEnabled :: bool
  actionEnabled :: bool
  publisherEnabled :: bool

fun RUNTIME_ROLE_CAPABILITIES :: "app_role \<Rightarrow> role_capabilities" where
  "RUNTIME_ROLE_CAPABILITIES Message_Retention =
     \<lparr>httpEnabled = False, ingressEnabled = False, adminEnabled = False, enqueueEnabled = False,
      moderationEnabled = False, actionEnabled = False, publisherEnabled = False\<rparr>"
| "RUNTIME_ROLE_CAPABILITIES All_Role =
     \<lparr>httpEnabled = True, ingressEnabled = True, adminEnabled = True, enqueueEnabled = True,
      moderationEnabled = True, actionEnabled = True, publisherEnabled = False\<rparr>"
| "RUNTIME_ROLE_CAPABILITIES Ingress =
     \<lparr>httpEnabled = True, ingressEnabled = True, adminEnabled = False, enqueueEnabled = False,
      moderationEnabled = False, actionEnabled = False, publisherEnabled = False\<rparr>"
| "RUNTIME_ROLE_CAPABILITIES Admin =
     \<lparr>httpEnabled = True, ingressEnabled = False, adminEnabled = True, enqueueEnabled = False,
      moderationEnabled = False, actionEnabled = False, publisherEnabled = False\<rparr>"
| "RUNTIME_ROLE_CAPABILITIES Enqueue =
     \<lparr>httpEnabled = False, ingressEnabled = False, adminEnabled = False, enqueueEnabled = True,
      moderationEnabled = False, actionEnabled = False, publisherEnabled = False\<rparr>"
| "RUNTIME_ROLE_CAPABILITIES Moderation =
     \<lparr>httpEnabled = False, ingressEnabled = False, adminEnabled = False, enqueueEnabled = False,
      moderationEnabled = True, actionEnabled = False, publisherEnabled = False\<rparr>"
| "RUNTIME_ROLE_CAPABILITIES Action =
     \<lparr>httpEnabled = False, ingressEnabled = False, adminEnabled = False, enqueueEnabled = False,
      moderationEnabled = False, actionEnabled = True, publisherEnabled = False\<rparr>"
| "RUNTIME_ROLE_CAPABILITIES Publisher =
     \<lparr>httpEnabled = False, ingressEnabled = False, adminEnabled = False, enqueueEnabled = False,
      moderationEnabled = False, actionEnabled = False, publisherEnabled = True\<rparr>"

datatype worker_group = Group_A | Realtime_B | Realtime_C | Realtime_D

fun worker_group_label :: "worker_group \<Rightarrow> string" where
  "worker_group_label Group_A = ''api-moderation''"
| "worker_group_label Realtime_B = ''api-moderation-realtime-b''"
| "worker_group_label Realtime_C = ''api-moderation-realtime-c''"
| "worker_group_label Realtime_D = ''api-moderation-realtime-d''"

definition DEFAULT_WEBHOOK_WORKER_GROUP_NAMES :: "worker_group list" where
  "DEFAULT_WEBHOOK_WORKER_GROUP_NAMES = [Group_A, Realtime_B, Realtime_C, Realtime_D]"

definition group_index :: "worker_group \<Rightarrow> nat" where
  "group_index g = length (takeWhile (\<lambda>h. h \<noteq> g) DEFAULT_WEBHOOK_WORKER_GROUP_NAMES)"

text \<open>The filter keeps the names whose position is congruent to the group's.\<close>

definition DEFAULT_WEBHOOK_WORKER_GROUP_QUEUES :: "worker_group \<Rightarrow> webhook_queue list" where
  "DEFAULT_WEBHOOK_WORKER_GROUP_QUEUES g =
     map fst (filter (\<lambda>(q, i). i mod length DEFAULT_WEBHOOK_WORKER_GROUP_NAMES = group_index g)
       (zip DEFAULT_WEBHOOK_QUEUE_NAMES [0..<length DEFAULT_WEBHOOK_QUEUE_NAMES]))"

definition ALL_MODERATION_QUEUE_NAMES :: "webhook_queue list" where
  "ALL_MODERATION_QUEUE_NAMES =
     [Legacy_Queue, Critical_Queue] @ JOIN_WEBHOOK_QUEUE_NAMES @ DEFAULT_WEBHOOK_QUEUE_NAMES @
     [Background_Queue]"

fun queue_label :: "webhook_queue \<Rightarrow> string" where
  "queue_label Legacy_Queue = ''moderation''"
| "queue_label Critical_Queue = ''moderation-critical''"
| "queue_label Background_Queue = ''moderation-background''"
| "queue_label (Join_Queue n) = ''moderation-join-'' @ show_nat n"
| "queue_label (Default_Queue n) = ''moderation-default-'' @ show_nat n"

datatype leases_mode = Leases_Off | Leases_Shadow | Leases_Canary | Leases_On

fun leases_mode_label :: "leases_mode \<Rightarrow> string" where
  "leases_mode_label Leases_Off = ''off''"
| "leases_mode_label Leases_Shadow = ''shadow''"
| "leases_mode_label Leases_Canary = ''canary''"
| "leases_mode_label Leases_On = ''on''"

definition WEBHOOK_DYNAMIC_LEASES_MODES :: "leases_mode list" where
  "WEBHOOK_DYNAMIC_LEASES_MODES = [Leases_Off, Leases_Shadow, Leases_Canary, Leases_On]"

datatype runtime_service =
    Api_All | Api_Ingress | Api_Admin | Api_Enqueue | Api_Moderation | Api_Critical | Api_Join
  | Api_Realtime_B | Api_Realtime_C | Api_Realtime_D | Api_Background | Api_Media_Analysis
  | Api_Action | Api_Message_Retention | Api_Publisher

fun service_label :: "runtime_service \<Rightarrow> string" where
  "service_label Api_All = ''api-all''"
| "service_label Api_Ingress = ''api-ingress''"
| "service_label Api_Admin = ''api-admin''"
| "service_label Api_Enqueue = ''api-enqueue''"
| "service_label Api_Moderation = ''api-moderation''"
| "service_label Api_Critical = ''api-moderation-critical''"
| "service_label Api_Join = ''api-moderation-join''"
| "service_label Api_Realtime_B = ''api-moderation-realtime-b''"
| "service_label Api_Realtime_C = ''api-moderation-realtime-c''"
| "service_label Api_Realtime_D = ''api-moderation-realtime-d''"
| "service_label Api_Background = ''api-moderation-background''"
| "service_label Api_Media_Analysis = ''api-media-analysis''"
| "service_label Api_Action = ''api-action''"
| "service_label Api_Message_Retention = ''api-message-retention''"
| "service_label Api_Publisher = ''api-publisher''"

definition RUNTIME_SERVICE_NAMES :: "runtime_service list" where
  "RUNTIME_SERVICE_NAMES =
     [Api_Message_Retention, Api_All, Api_Ingress, Api_Admin, Api_Enqueue, Api_Moderation,
      Api_Critical, Api_Join, Api_Realtime_B, Api_Realtime_C, Api_Realtime_D, Api_Background,
      Api_Media_Analysis, Api_Action, Api_Publisher]"

definition DEFAULT_CANARY_SHARDS :: "webhook_queue list" where
  "DEFAULT_CANARY_SHARDS = [Default_Queue 2, Default_Queue 11]"

datatype queue_profile =
    All_In_One | No_Queues | Webhook_Enqueue | Webhook_Critical | Webhook_Join | Webhook_Default
  | Webhook_Background | Commercial_Image_Ocr | Max_Action_Dispatch | Retention_Queue
  | Publisher_Dispatch

datatype queue_priority =
    Priority_All | Http_Ingress | Admin_Heavy_Read | Priority_Webhook_Enqueue
  | User_Facing_Critical | User_Facing_Realtime | Background_Priority | Action_Dispatch
  | Priority_Publisher_Dispatch

record service_profile =
  serviceName :: runtime_service
  serviceTitle :: string
  appRole :: app_role
  capabilities :: role_capabilities
  queueProfile :: queue_profile
  queuePriority :: queue_priority
  moderationQueues :: "webhook_queue list"
  dynamicLeasesMode :: leases_mode
  dynamicLeasesWorkerGroup :: "worker_group option"
  canaryShardIds :: "webhook_queue list"
  backgroundTasksEnabled :: bool

fun RUNTIME_SERVICE_PROFILES :: "runtime_service \<Rightarrow> service_profile" where
  "RUNTIME_SERVICE_PROFILES Api_Message_Retention =
     \<lparr>serviceName = Api_Message_Retention, serviceTitle = ''Isolated message retention worker'',
      appRole = Message_Retention, capabilities = RUNTIME_ROLE_CAPABILITIES Message_Retention,
      queueProfile = Retention_Queue, queuePriority = Background_Priority,
      moderationQueues = [],
      dynamicLeasesMode = Leases_Off, dynamicLeasesWorkerGroup = None,
      canaryShardIds = [], backgroundTasksEnabled = True\<rparr>"
| "RUNTIME_SERVICE_PROFILES Api_All =
     \<lparr>serviceName = Api_All, serviceTitle = ''All-in-one API runtime'',
      appRole = All_Role, capabilities = RUNTIME_ROLE_CAPABILITIES All_Role,
      queueProfile = All_In_One, queuePriority = Priority_All,
      moderationQueues = ALL_MODERATION_QUEUE_NAMES,
      dynamicLeasesMode = Leases_Off, dynamicLeasesWorkerGroup = None,
      canaryShardIds = [], backgroundTasksEnabled = True\<rparr>"
| "RUNTIME_SERVICE_PROFILES Api_Ingress =
     \<lparr>serviceName = Api_Ingress, serviceTitle = ''Public webhook/API ingress'',
      appRole = Ingress, capabilities = RUNTIME_ROLE_CAPABILITIES Ingress,
      queueProfile = No_Queues, queuePriority = Http_Ingress,
      moderationQueues = [],
      dynamicLeasesMode = Leases_Off, dynamicLeasesWorkerGroup = None,
      canaryShardIds = [], backgroundTasksEnabled = False\<rparr>"
| "RUNTIME_SERVICE_PROFILES Api_Admin =
     \<lparr>serviceName = Api_Admin, serviceTitle = ''Admin and heavy-read API'',
      appRole = Admin, capabilities = RUNTIME_ROLE_CAPABILITIES Admin,
      queueProfile = No_Queues, queuePriority = Admin_Heavy_Read,
      moderationQueues = [],
      dynamicLeasesMode = Leases_Off, dynamicLeasesWorkerGroup = None,
      canaryShardIds = [], backgroundTasksEnabled = False\<rparr>"
| "RUNTIME_SERVICE_PROFILES Api_Enqueue =
     \<lparr>serviceName = Api_Enqueue, serviceTitle = ''Webhook enqueue worker'',
      appRole = Enqueue, capabilities = RUNTIME_ROLE_CAPABILITIES Enqueue,
      queueProfile = Webhook_Enqueue, queuePriority = Priority_Webhook_Enqueue,
      moderationQueues = [],
      dynamicLeasesMode = Leases_Off, dynamicLeasesWorkerGroup = None,
      canaryShardIds = [], backgroundTasksEnabled = False\<rparr>"
| "RUNTIME_SERVICE_PROFILES Api_Moderation =
     \<lparr>serviceName = Api_Moderation, serviceTitle = ''Default moderation shard group A'',
      appRole = Moderation, capabilities = RUNTIME_ROLE_CAPABILITIES Moderation,
      queueProfile = Webhook_Default, queuePriority = User_Facing_Realtime,
      moderationQueues = DEFAULT_WEBHOOK_WORKER_GROUP_QUEUES Group_A,
      dynamicLeasesMode = Leases_Canary, dynamicLeasesWorkerGroup = Some Group_A,
      canaryShardIds = DEFAULT_CANARY_SHARDS, backgroundTasksEnabled = False\<rparr>"
| "RUNTIME_SERVICE_PROFILES Api_Critical =
     \<lparr>serviceName = Api_Critical, serviceTitle = ''Critical webhook worker'',
      appRole = Moderation, capabilities = RUNTIME_ROLE_CAPABILITIES Moderation,
      queueProfile = Webhook_Critical, queuePriority = User_Facing_Critical,
      moderationQueues = [Legacy_Queue, Critical_Queue],
      dynamicLeasesMode = Leases_Off, dynamicLeasesWorkerGroup = None,
      canaryShardIds = [], backgroundTasksEnabled = False\<rparr>"
| "RUNTIME_SERVICE_PROFILES Api_Join =
     \<lparr>serviceName = Api_Join, serviceTitle = ''Membership/join webhook worker'',
      appRole = Moderation, capabilities = RUNTIME_ROLE_CAPABILITIES Moderation,
      queueProfile = Webhook_Join, queuePriority = User_Facing_Critical,
      moderationQueues = JOIN_WEBHOOK_QUEUE_NAMES,
      dynamicLeasesMode = Leases_Off, dynamicLeasesWorkerGroup = None,
      canaryShardIds = [], backgroundTasksEnabled = False\<rparr>"
| "RUNTIME_SERVICE_PROFILES Api_Realtime_B =
     \<lparr>serviceName = Api_Realtime_B, serviceTitle = ''Default moderation shard group B'',
      appRole = Moderation, capabilities = RUNTIME_ROLE_CAPABILITIES Moderation,
      queueProfile = Webhook_Default, queuePriority = User_Facing_Realtime,
      moderationQueues = DEFAULT_WEBHOOK_WORKER_GROUP_QUEUES Realtime_B,
      dynamicLeasesMode = Leases_Canary, dynamicLeasesWorkerGroup = Some Realtime_B,
      canaryShardIds = DEFAULT_CANARY_SHARDS, backgroundTasksEnabled = False\<rparr>"
| "RUNTIME_SERVICE_PROFILES Api_Realtime_C =
     \<lparr>serviceName = Api_Realtime_C, serviceTitle = ''Default moderation shard group C'',
      appRole = Moderation, capabilities = RUNTIME_ROLE_CAPABILITIES Moderation,
      queueProfile = Webhook_Default, queuePriority = User_Facing_Realtime,
      moderationQueues = DEFAULT_WEBHOOK_WORKER_GROUP_QUEUES Realtime_C,
      dynamicLeasesMode = Leases_Canary, dynamicLeasesWorkerGroup = Some Realtime_C,
      canaryShardIds = DEFAULT_CANARY_SHARDS, backgroundTasksEnabled = False\<rparr>"
| "RUNTIME_SERVICE_PROFILES Api_Realtime_D =
     \<lparr>serviceName = Api_Realtime_D, serviceTitle = ''Default moderation shard group D'',
      appRole = Moderation, capabilities = RUNTIME_ROLE_CAPABILITIES Moderation,
      queueProfile = Webhook_Default, queuePriority = User_Facing_Realtime,
      moderationQueues = DEFAULT_WEBHOOK_WORKER_GROUP_QUEUES Realtime_D,
      dynamicLeasesMode = Leases_Canary, dynamicLeasesWorkerGroup = Some Realtime_D,
      canaryShardIds = DEFAULT_CANARY_SHARDS, backgroundTasksEnabled = False\<rparr>"
| "RUNTIME_SERVICE_PROFILES Api_Background =
     \<lparr>serviceName = Api_Background, serviceTitle = ''Background moderation worker'',
      appRole = Moderation, capabilities = RUNTIME_ROLE_CAPABILITIES Moderation,
      queueProfile = Webhook_Background, queuePriority = Background_Priority,
      moderationQueues = [Background_Queue],
      dynamicLeasesMode = Leases_Off, dynamicLeasesWorkerGroup = None,
      canaryShardIds = [], backgroundTasksEnabled = True\<rparr>"
| "RUNTIME_SERVICE_PROFILES Api_Media_Analysis =
     \<lparr>serviceName = Api_Media_Analysis, serviceTitle = ''CPU-isolated media analysis worker'',
      appRole = Moderation, capabilities = RUNTIME_ROLE_CAPABILITIES Moderation,
      queueProfile = Commercial_Image_Ocr, queuePriority = Background_Priority,
      moderationQueues = [],
      dynamicLeasesMode = Leases_Off, dynamicLeasesWorkerGroup = None,
      canaryShardIds = [], backgroundTasksEnabled = False\<rparr>"
| "RUNTIME_SERVICE_PROFILES Api_Action =
     \<lparr>serviceName = Api_Action, serviceTitle = ''MAX action dispatch worker'',
      appRole = Action, capabilities = RUNTIME_ROLE_CAPABILITIES Action,
      queueProfile = Max_Action_Dispatch, queuePriority = Action_Dispatch,
      moderationQueues = [],
      dynamicLeasesMode = Leases_Off, dynamicLeasesWorkerGroup = None,
      canaryShardIds = [], backgroundTasksEnabled = True\<rparr>"
| "RUNTIME_SERVICE_PROFILES Api_Publisher =
     \<lparr>serviceName = Api_Publisher, serviceTitle = ''Publik isolated dispatch worker'',
      appRole = Publisher, capabilities = RUNTIME_ROLE_CAPABILITIES Publisher,
      queueProfile = Publisher_Dispatch, queuePriority = Priority_Publisher_Dispatch,
      moderationQueues = [],
      dynamicLeasesMode = Leases_Off, dynamicLeasesWorkerGroup = None,
      canaryShardIds = [], backgroundTasksEnabled = True\<rparr>"

fun SERVICE_BY_DEFAULT_WORKER_GROUP :: "worker_group \<Rightarrow> runtime_service" where
  "SERVICE_BY_DEFAULT_WORKER_GROUP Group_A = Api_Moderation"
| "SERVICE_BY_DEFAULT_WORKER_GROUP Realtime_B = Api_Realtime_B"
| "SERVICE_BY_DEFAULT_WORKER_GROUP Realtime_C = Api_Realtime_C"
| "SERVICE_BY_DEFAULT_WORKER_GROUP Realtime_D = Api_Realtime_D"

section \<open>Which service a process is\<close>

definition normalizeRuntimeServiceName :: "js_value \<Rightarrow> runtime_service option" where
  "normalizeRuntimeServiceName v =
     (case v of Str s \<Rightarrow> find_label service_label RUNTIME_SERVICE_NAMES (to_lower (trim s)) | _ \<Rightarrow> None)"

definition normalizeDefaultWorkerGroupName :: "js_value \<Rightarrow> worker_group option" where
  "normalizeDefaultWorkerGroupName v =
     (case v of Str s \<Rightarrow> find_label worker_group_label DEFAULT_WEBHOOK_WORKER_GROUP_NAMES (trim s)
      | _ \<Rightarrow> None)"

fun serviceNameByRole :: "app_role \<Rightarrow> runtime_service" where
  "serviceNameByRole Message_Retention = Api_Message_Retention"
| "serviceNameByRole Ingress = Api_Ingress"
| "serviceNameByRole Admin = Api_Admin"
| "serviceNameByRole Enqueue = Api_Enqueue"
| "serviceNameByRole Action = Api_Action"
| "serviceNameByRole Publisher = Api_Publisher"
| "serviceNameByRole Moderation = Api_Moderation"
| "serviceNameByRole All_Role = Api_All"

definition inferModerationServiceFromQueues :: "js_value \<Rightarrow> runtime_service option" where
  "inferModerationServiceFromQueues v =
     (case v of
        Str raw \<Rightarrow>
          if trim raw = [] then None
          else
            (let tokens = csv_tokens raw;
                 has = (\<lambda>label. ascii label \<in> set tokens)
             in if has ''background'' \<or> has (queue_label Background_Queue) then Some Api_Background
                else if has ''join'' \<or>
                  list_ex (\<lambda>q. has (queue_label q)) JOIN_WEBHOOK_QUEUE_NAMES then Some Api_Join
                else if has ''critical'' \<or> has ''legacy'' \<or> has (queue_label Critical_Queue) \<or>
                  has (queue_label Legacy_Queue) then Some Api_Critical
                else
                  map_option SERVICE_BY_DEFAULT_WORKER_GROUP
                    (find (\<lambda>g. list_ex (\<lambda>q. has (queue_label q))
                        (DEFAULT_WEBHOOK_WORKER_GROUP_QUEUES g))
                      DEFAULT_WEBHOOK_WORKER_GROUP_NAMES))
      | _ \<Rightarrow> None)"

datatype topology_source = Declared_Service | Role_Inference | Queue_Inference | Fallback_Source

record profile_resolution =
  res_service :: service_profile
  res_source :: topology_source

definition resolveRuntimeServiceProfile :: "env \<Rightarrow> profile_resolution" where
  "resolveRuntimeServiceProfile env =
     (case normalizeRuntimeServiceName (env ''APP_SERVICE_NAME'') of
        Some declaredService \<Rightarrow>
          \<lparr>res_service = RUNTIME_SERVICE_PROFILES declaredService, res_source = Declared_Service\<rparr>
      | None \<Rightarrow>
          (let role = normalizeAppRole (env ''APP_ROLE'') All_Role
           in if role \<noteq> Moderation then
                \<lparr>res_service = RUNTIME_SERVICE_PROFILES (serviceNameByRole role),
                 res_source = (if role = All_Role then Fallback_Source else Role_Inference)\<rparr>
              else
                (case normalizeDefaultWorkerGroupName (env ''WEBHOOK_DYNAMIC_LEASES_WORKER_GROUP'') of
                   Some workerGroup \<Rightarrow>
                     \<lparr>res_service =
                        RUNTIME_SERVICE_PROFILES (SERVICE_BY_DEFAULT_WORKER_GROUP workerGroup),
                      res_source = Role_Inference\<rparr>
                 | None \<Rightarrow>
                     (case inferModerationServiceFromQueues (env ''MODERATION_ENABLED_QUEUES'') of
                        Some s \<Rightarrow>
                          \<lparr>res_service = RUNTIME_SERVICE_PROFILES s, res_source = Queue_Inference\<rparr>
                      | None \<Rightarrow>
                          \<lparr>res_service = RUNTIME_SERVICE_PROFILES Api_Moderation,
                           res_source = Fallback_Source\<rparr>))))"

end
