(* ===== verification/Moderation_Runtime.thy ===== *)
theory Moderation_Runtime
  imports Runtime_Topology
begin

text \<open>
  \<^verbatim>\<open>apps/api/src/runtime/moderation-runtime.ts\<close> and
  \<^verbatim>\<open>runtime-queue-inventory.ts\<close>: the queues a moderation process consumes, the
  home group of a default shard, the settings of the dynamic leases, and how many jobs of each shard
  run at once.

  \<^item> A \<^verbatim>\<open>Set\<close> of queues is a HOL set: its readers only ask for membership, size
    and a sorted copy.
  \<^item> \<open>None\<close> in place of a list of queues is the \<^verbatim>\<open>TypeError\<close> that
    spreading an inherited property of the alias table raises.
\<close>

section \<open>Environment values\<close>

definition BOOLEAN_TRUE_VALUES :: "js_string list" where
  "BOOLEAN_TRUE_VALUES = map ascii [''1'', ''true'', ''yes'', ''on'']"

definition BOOLEAN_FALSE_VALUES :: "js_string list" where
  "BOOLEAN_FALSE_VALUES = map ascii [''0'', ''false'', ''no'', ''off'']"

definition normalizeBooleanEnv :: "js_value \<Rightarrow> bool \<Rightarrow> bool" where
  "normalizeBooleanEnv v fallback =
     (case v of
        Bool b \<Rightarrow> b
      | Str raw \<Rightarrow>
          (let normalized = to_lower (trim raw)
           in if normalized = [] then fallback
              else if normalized \<in> set BOOLEAN_TRUE_VALUES then True
              else if normalized \<in> set BOOLEAN_FALSE_VALUES then False
              else fallback)
      | _ \<Rightarrow> fallback)"

definition readPositiveInt :: "js_value \<Rightarrow> int \<Rightarrow> int" where
  "readPositiveInt v fallback =
     (let parsed = (case v of
            Num s \<Rightarrow> js_integer s
          | Str s \<Rightarrow> if trim s \<noteq> [] then js_integer s else None
          | _ \<Rightarrow> None)
      in case parsed of
           Some n \<Rightarrow> if n > 0 then n else fallback
         | None \<Rightarrow> fallback)"

section \<open>Concurrency\<close>

record concurrency_split =
  split_critical :: int
  split_join :: int
  split_default :: int
  split_background :: int

text \<open>\<^verbatim>\<open>Math.ceil(total * 0.25)\<close> is exact for an integer.\<close>

definition resolveModerationConcurrencySplit :: "int \<Rightarrow> concurrency_split" where
  "resolveModerationConcurrencySplit total_jobs =
     (if total_jobs \<le> 4 then
        \<lparr>split_critical = 1, split_join = 1, split_default = 1, split_background = 1\<rparr>
      else
        (let background = (if total_jobs \<ge> 8 then 2 else 1);
             join = (if total_jobs \<ge> 8 then 2 else 1);
             critical = max 1 ((total_jobs + 3) div 4);
             defaultQueue = max 1 (total_jobs - critical - join - background)
         in \<lparr>split_critical = critical, split_join = join, split_default = defaultQueue,
             split_background = background\<rparr>))"

definition resolveShardConcurrencyDistribution :: "int \<Rightarrow> nat \<Rightarrow> int list" where
  "resolveShardConcurrencyDistribution total_jobs shardCount =
     (if shardCount \<le> 1 then [max 1 total_jobs]
      else
        (let sanitizedTotal = max (int shardCount) total_jobs;
             baseConcurrency = max 1 (sanitizedTotal div int shardCount);
             remainder = sanitizedTotal mod int shardCount
         in map (\<lambda>index. baseConcurrency + (if int index < remainder then 1 else 0)) [0..<shardCount]))"

section \<open>Enabled queues\<close>

definition alias_table :: "(js_string \<times> webhook_queue list) list" where
  "alias_table =
     [(ascii ''legacy'', [Legacy_Queue]), (ascii ''critical'', [Critical_Queue]),
      (ascii ''join'', JOIN_WEBHOOK_QUEUE_NAMES), (ascii ''default'', DEFAULT_WEBHOOK_QUEUE_NAMES),
      (ascii ''background'', [Background_Queue]), (ascii ''none'', [])]"

text \<open>
  The operator \<^verbatim>\<open>in\<close> also finds the inherited properties of an object literal;
  these two are the ones whose name survives \<^verbatim>\<open>toLowerCase\<close>, and neither value
  is iterable.
\<close>

definition inherited_names :: "js_string list" where
  "inherited_names = map ascii [''constructor'', ''__proto__'']"

definition normalizeQueueToken :: "js_string \<Rightarrow> webhook_queue list option" where
  "normalizeQueueToken rawToken =
     (let normalized = to_lower (trim rawToken)
      in if normalized = [] then Some []
         else (case find_label queue_label ALL_MODERATION_QUEUE_NAMES normalized of
             Some q \<Rightarrow> Some [q]
           | None \<Rightarrow>
               (case map_of alias_table normalized of
                  Some qs \<Rightarrow> Some qs
                | None \<Rightarrow> if normalized \<in> set inherited_names then None else Some [])))"

definition declared_source :: "env \<Rightarrow> bool" where
  "declared_source env \<longleftrightarrow> res_source (resolveRuntimeServiceProfile env) = Declared_Service"

definition getEnabledModerationProcessorQueues :: "env \<Rightarrow> js_value \<Rightarrow> webhook_queue set option" where
  "getEnabledModerationProcessorQueues env rawValue =
     (let service = res_service (resolveRuntimeServiceProfile env);
          unset = Some (if declared_source env then set (moderationQueues service)
                        else set ALL_MODERATION_QUEUE_NAMES)
      in if serviceName service = Api_Media_Analysis then Some {}
         else (case rawValue of
             Str raw \<Rightarrow>
               if trim raw = [] then unset
               else
                 (let tokens = csv_tokens raw
                  in if ascii ''none'' \<in> set tokens then Some {}
                     else map_option
                       (\<lambda>qss. let enabledQueues = set (concat qss)
                          in if enabledQueues \<noteq> {} then enabledQueues
                             else set ALL_MODERATION_QUEUE_NAMES)
                       (those (map normalizeQueueToken tokens)))
           | _ \<Rightarrow> unset))"

definition commercialOcrProcessorEnabled :: "env \<Rightarrow> bool" where
  "commercialOcrProcessorEnabled env =
     (let name = serviceName (res_service (resolveRuntimeServiceProfile env))
      in name = Api_All \<or> name = Api_Media_Analysis)"

definition moderationProcessorQueueEnabled :: "env \<Rightarrow> webhook_queue \<Rightarrow> js_value \<Rightarrow> bool option" where
  "moderationProcessorQueueEnabled env q rawValue =
     map_option (\<lambda>qs. q \<in> qs) (getEnabledModerationProcessorQueues env rawValue)"

definition moderationBackgroundTasksEnabled :: "js_value \<Rightarrow> bool" where
  "moderationBackgroundTasksEnabled rawValue = normalizeBooleanEnv rawValue True"

text \<open>\<open>flag\<close> is the answer of the configuration service.\<close>

definition spammerDenormProcessorEnabled :: "env \<Rightarrow> js_value \<Rightarrow> bool" where
  "spammerDenormProcessorEnabled env flag =
     (if \<not> normalizeBooleanEnv (nullish_or flag (env ''SPAMMER_OBSERVATION_DENORM_QUEUE_ENABLED'')) False
      then False
      else
        (let name = serviceName (res_service (resolveRuntimeServiceProfile env))
         in name = Api_All \<or> name = Api_Background))"

section \<open>Dynamic leases\<close>

definition getDefaultWebhookHomeOwnerByQueue :: "webhook_queue \<Rightarrow> worker_group option" where
  "getDefaultWebhookHomeOwnerByQueue =
     map_of (concat (map (\<lambda>g. map (\<lambda>q. (q, g)) (DEFAULT_WEBHOOK_WORKER_GROUP_QUEUES g))
       DEFAULT_WEBHOOK_WORKER_GROUP_NAMES))"

definition getWebhookDynamicLeasesMode :: "env \<Rightarrow> js_value \<Rightarrow> leases_mode" where
  "getWebhookDynamicLeasesMode env rawValue =
     (case (case rawValue of
              Str raw \<Rightarrow> find_label leases_mode_label WEBHOOK_DYNAMIC_LEASES_MODES (to_lower (trim raw))
            | _ \<Rightarrow> None) of
        Some mode \<Rightarrow> mode
      | None \<Rightarrow>
          if declared_source env then dynamicLeasesMode (res_service (resolveRuntimeServiceProfile env))
          else Leases_Off)"

definition getWebhookDynamicLeasesWorkerGroup :: "env \<Rightarrow> js_value \<Rightarrow> worker_group option" where
  "getWebhookDynamicLeasesWorkerGroup env rawValue =
     (case normalizeDefaultWorkerGroupName rawValue of
        Some g \<Rightarrow> Some g
      | None \<Rightarrow>
          if declared_source env
          then dynamicLeasesWorkerGroup (res_service (resolveRuntimeServiceProfile env)) else None)"

definition canary_queue :: "js_string \<Rightarrow> webhook_queue option" where
  "canary_queue rawToken =
     (let normalized = to_lower (trim rawToken)
      in if normalized = [] then None
         else (case find_label queue_label DEFAULT_WEBHOOK_QUEUE_NAMES normalized of
             Some q \<Rightarrow> Some q
           | None \<Rightarrow>
               (case js_integer normalized of
                  Some i \<Rightarrow>
                    if 0 \<le> i \<and> i < int (length DEFAULT_WEBHOOK_QUEUE_NAMES)
                    then Some (DEFAULT_WEBHOOK_QUEUE_NAMES ! nat i) else None
                | None \<Rightarrow> None)))"

definition getWebhookDynamicLeaseCanaryQueues :: "env \<Rightarrow> js_value \<Rightarrow> webhook_queue set" where
  "getWebhookDynamicLeaseCanaryQueues env rawValue =
     (let unset =
        (if declared_source env
         then set (canaryShardIds (res_service (resolveRuntimeServiceProfile env))) else {})
      in case rawValue of
           Str raw \<Rightarrow>
             if trim raw = [] then unset else set (List.map_filter canary_queue (split_on 44 raw))
         | _ \<Rightarrow> unset)"

section \<open>Shard concurrencies\<close>

definition shard_variable :: "nat \<Rightarrow> string" where
  "shard_variable index = ''MODERATION_CONCURRENCY_DEFAULT_SHARD_'' @ show_nat index"

definition getDefaultWebhookShardConcurrencies :: "env \<Rightarrow> (webhook_queue \<times> int) list" where
  "getDefaultWebhookShardConcurrencies env =
     (let concurrencySplit =
            resolveModerationConcurrencySplit (readPositiveInt (env ''MODERATION_CONCURRENCY'') 24);
          defaultConcurrency =
            readPositiveInt (env ''MODERATION_CONCURRENCY_DEFAULT'') (split_default concurrencySplit);
          defaults =
            resolveShardConcurrencyDistribution defaultConcurrency (length DEFAULT_WEBHOOK_QUEUE_NAMES)
      in map (\<lambda>(q, index).
             (q, readPositiveInt (env (shard_variable index))
                   (if index < length defaults then defaults ! index else 1)))
           (zip DEFAULT_WEBHOOK_QUEUE_NAMES [0..<length DEFAULT_WEBHOOK_QUEUE_NAMES]))"

definition getJoinWebhookShardConcurrencies :: "env \<Rightarrow> (webhook_queue \<times> int) list" where
  "getJoinWebhookShardConcurrencies env =
     (let concurrencySplit =
            resolveModerationConcurrencySplit (readPositiveInt (env ''MODERATION_CONCURRENCY'') 24);
          joinConcurrency =
            readPositiveInt (env ''MODERATION_CONCURRENCY_JOIN'') (split_join concurrencySplit);
          distribution =
            resolveShardConcurrencyDistribution joinConcurrency (length JOIN_WEBHOOK_QUEUE_NAMES)
      in map (\<lambda>(q, index). (q, if index < length distribution then distribution ! index else 1))
           (zip JOIN_WEBHOOK_QUEUE_NAMES [0..<length JOIN_WEBHOOK_QUEUE_NAMES]))"

definition AUXILIARY_QUEUE_NAMES :: "string list" where
  "AUXILIARY_QUEUE_NAMES =
     [''message-retention'', ''admin-managed-entities-refresh'', ''vk-parsing-sync'',
      ''vk-parsing-publisher'', ''publisher-binding-refresh'', ''publisher-chat-comments'',
      ''publisher-post-import'', ''publisher-auto-replies'', ''publisher-auto-reply-authoring'',
      ''publisher-suggestion-publication'', ''publisher-publication-wakeup'',
      ''publisher-suggestion-admin'', ''publisher-start'', ''publisher-video-upload'',
      ''night-mode-transitions'', ''max-chat-admin-roster-sync'', ''admin-manual-fanout'',
      ''admin-super-ban'', ''admin-suggestion-delivery'', ''moderation-delete-intents'',
      ''message-duplicates'', ''commercial-image-ocr'']"

definition RETENTION_PRIORITY_ADDITIONAL_QUEUE_NAMES :: "string list" where
  "RETENTION_PRIORITY_ADDITIONAL_QUEUE_NAMES = [''marketplace-publisher-access'', ''photo-duplicates'']"

section \<open>Services and their queues\<close>

lemma service_names_all: "set RUNTIME_SERVICE_NAMES = UNIV"
proof -
  have "s \<in> set RUNTIME_SERVICE_NAMES" for s
    by (cases s) (simp_all add: RUNTIME_SERVICE_NAMES_def)
  then show ?thesis by blast
qed

lemma group_names_all: "set DEFAULT_WEBHOOK_WORKER_GROUP_NAMES = UNIV"
proof -
  have "g \<in> set DEFAULT_WEBHOOK_WORKER_GROUP_NAMES" for g
    by (cases g) (simp_all add: DEFAULT_WEBHOOK_WORKER_GROUP_NAMES_def)
  then show ?thesis by blast
qed

lemma queues_known:
  "list_all (\<lambda>s. set (moderationQueues (RUNTIME_SERVICE_PROFILES s)) \<subseteq> set ALL_MODERATION_QUEUE_NAMES)
     RUNTIME_SERVICE_NAMES"
  by code_simp

lemma home_owner_table:
  "list_all (\<lambda>g. list_all (\<lambda>q. (getDefaultWebhookHomeOwnerByQueue q = Some g) =
       (q \<in> set (DEFAULT_WEBHOOK_WORKER_GROUP_QUEUES g))) DEFAULT_WEBHOOK_QUEUE_NAMES)
     DEFAULT_WEBHOOK_WORKER_GROUP_NAMES"
  by code_simp

lemma group_queues_default:
  "list_all (\<lambda>g. set (DEFAULT_WEBHOOK_WORKER_GROUP_QUEUES g) \<subseteq> set DEFAULT_WEBHOOK_QUEUE_NAMES \<and>
      length (DEFAULT_WEBHOOK_WORKER_GROUP_QUEUES g) = 4) DEFAULT_WEBHOOK_WORKER_GROUP_NAMES"
  by code_simp

lemma home_owner_iff:
  "(getDefaultWebhookHomeOwnerByQueue q = Some g) = (q \<in> set (DEFAULT_WEBHOOK_WORKER_GROUP_QUEUES g))"
proof (cases "q \<in> set DEFAULT_WEBHOOK_QUEUE_NAMES")
  case True
  then show ?thesis using home_owner_table group_names_all by (auto simp: list_all_iff)
next
  case False
  have out: "q \<notin> set (DEFAULT_WEBHOOK_WORKER_GROUP_QUEUES g)" for g
    using False group_queues_default group_names_all by (auto simp: list_all_iff)
  have "getDefaultWebhookHomeOwnerByQueue q \<noteq> Some g"
  proof
    assume "getDefaultWebhookHomeOwnerByQueue q = Some g"
    then have "(q, g) \<in> set (concat (map (\<lambda>g. map (\<lambda>q. (q, g)) (DEFAULT_WEBHOOK_WORKER_GROUP_QUEUES g))
        DEFAULT_WEBHOOK_WORKER_GROUP_NAMES))"
      unfolding getDefaultWebhookHomeOwnerByQueue_def by (rule map_of_SomeD)
    with out show False by auto
  qed
  with out show ?thesis by simp
qed

section \<open>Concurrency limits\<close>

lemma concurrency_split_sum:
  "resolveModerationConcurrencySplit n = s \<Longrightarrow>
    1 \<le> split_critical s \<and> 1 \<le> split_join s \<and> 1 \<le> split_default s \<and> 1 \<le> split_background s \<and>
    split_critical s + split_join s + split_default s + split_background s = max 4 n"
proof -
  assume s: "resolveModerationConcurrencySplit n = s"
  consider "n \<le> 4" | "n \<in> {5, 6, 7}" | "8 \<le> n" by force
  then show ?thesis
  proof cases
    case 3
    have "(n + 3) div 4 \<le> n - 5" "1 \<le> (n + 3) div 4" using 3 by linarith+
    with 3 s show ?thesis by (auto simp: resolveModerationConcurrencySplit_def Let_def max_def)
  qed (use s in \<open>auto simp: resolveModerationConcurrencySplit_def Let_def max_def\<close>)
qed

lemma sum_below: "k \<le> m \<Longrightarrow> (\<Sum>i\<leftarrow>[0..<m]. b + (if i < k then 1 else 0)) = b * int m + int k"
proof (induction m arbitrary: k)
  case (Suc m)
  show ?case
  proof (cases "k = Suc m")
    case True
    have "(\<Sum>i\<leftarrow>[0..<m]. b + (if i < Suc m then 1 else 0)) = (\<Sum>i\<leftarrow>[0..<m]. b + (if i < m then 1 else 0))"
      by (rule arg_cong [of _ _ sum_list], rule map_cong) auto
    with True Suc.IH [of m] show ?thesis by (simp add: algebra_simps)
  next
    case False
    with Suc show ?thesis by (simp add: algebra_simps)
  qed
qed simp

lemma distribution_length: "length (resolveShardConcurrencyDistribution n k) = max 1 k"
  by (simp add: resolveShardConcurrencyDistribution_def Let_def)

lemma distribution_pos: "x \<in> set (resolveShardConcurrencyDistribution n k) \<Longrightarrow> 1 \<le> x"
  by (auto simp: resolveShardConcurrencyDistribution_def Let_def max_def split: if_splits)

lemma distribution_even:
  "x \<in> set (resolveShardConcurrencyDistribution n k) \<Longrightarrow> y \<in> set (resolveShardConcurrencyDistribution n k)
    \<Longrightarrow> \<bar>x - y\<bar> \<le> 1"
  by (auto simp: resolveShardConcurrencyDistribution_def Let_def split: if_splits)

lemma distribution_sum:
  "sum_list (resolveShardConcurrencyDistribution n k) = max (max 1 (int k)) n"
proof (cases "k \<le> 1")
  case False
  define t where "t = max (int k) n"
  have t: "int k \<le> t" "0 < int k" using False by (auto simp: t_def)
  have "0 < t div int k" using t by (simp only: pos_imp_zdiv_pos_iff)
  then have base: "max 1 (t div int k) = t div int k" by linarith
  define r where "r = nat (t mod int k)"
  have r: "int r = t mod int k" "r \<le> k" using t by (auto simp: r_def nat_le_iff intro: less_imp_le)
  have "resolveShardConcurrencyDistribution n k = map (\<lambda>i. t div int k + (if i < r then 1 else 0)) [0..<k]"
    using False base r(1)
    by (simp add: resolveShardConcurrencyDistribution_def Let_def t_def [symmetric] r(1) [symmetric])
  then show ?thesis
    using sum_below [OF r(2)] r(1) False by (simp add: t_def o_def)
qed (auto simp: resolveShardConcurrencyDistribution_def)

lemma default_concurrencies:
  assumes "\<forall>i. env (shard_variable i) = Undefined"
    "n = readPositiveInt (env ''MODERATION_CONCURRENCY_DEFAULT'') (split_default
      (resolveModerationConcurrencySplit (readPositiveInt (env ''MODERATION_CONCURRENCY'') 24)))"
  shows "getDefaultWebhookShardConcurrencies env =
    zip DEFAULT_WEBHOOK_QUEUE_NAMES (resolveShardConcurrencyDistribution n 16)"
  using assms distribution_length [of n 16]
  by (intro nth_equalityI)
    (simp_all add: getDefaultWebhookShardConcurrencies_def readPositiveInt_def Let_def
      DEFAULT_WEBHOOK_QUEUE_NAMES_def DEFAULT_WEBHOOK_SHARD_COUNT_def)

lemma join_concurrencies:
  assumes "n = readPositiveInt (env ''MODERATION_CONCURRENCY_JOIN'') (split_join
      (resolveModerationConcurrencySplit (readPositiveInt (env ''MODERATION_CONCURRENCY'') 24)))"
  shows "getJoinWebhookShardConcurrencies env =
    zip JOIN_WEBHOOK_QUEUE_NAMES (resolveShardConcurrencyDistribution n 4)"
  using assms distribution_length [of n 4]
  by (intro nth_equalityI)
    (simp_all add: getJoinWebhookShardConcurrencies_def Let_def
      JOIN_WEBHOOK_QUEUE_NAMES_def JOIN_WEBHOOK_SHARD_COUNT_def)

lemma map_snd_zip_queues:
  "map snd (zip DEFAULT_WEBHOOK_QUEUE_NAMES (resolveShardConcurrencyDistribution n 16)) =
     resolveShardConcurrencyDistribution n 16"
  "map snd (zip JOIN_WEBHOOK_QUEUE_NAMES (resolveShardConcurrencyDistribution m 4)) =
     resolveShardConcurrencyDistribution m 4"
  by (simp_all add: map_snd_zip distribution_length DEFAULT_WEBHOOK_QUEUE_NAMES_def
      DEFAULT_WEBHOOK_SHARD_COUNT_def JOIN_WEBHOOK_QUEUE_NAMES_def JOIN_WEBHOOK_SHARD_COUNT_def)

text \<open>
  Whatever the environment says, the concurrency limits are usable: the split of the total
  over the four kinds of queue gives each at least one slot and adds up to the total (at least 4);
  without per-shard overrides the default share is spread over the sixteen shards with nothing lost,
  at least one slot per shard and limits that differ by at most one; the same for the join shards.
\<close>

theorem shard_concurrency_limits:
  assumes "\<forall>i. env (shard_variable i) = Undefined"
    "split = resolveModerationConcurrencySplit (readPositiveInt (env ''MODERATION_CONCURRENCY'') 24)"
    "limits = map snd (getDefaultWebhookShardConcurrencies env)"
    "join_limits = map snd (getJoinWebhookShardConcurrencies env)"
  shows "split_critical split + split_join split + split_default split + split_background split =
      max 4 (readPositiveInt (env ''MODERATION_CONCURRENCY'') 24) \<and>
    min (min (split_critical split) (split_join split))
      (min (split_default split) (split_background split)) \<ge> 1 \<and>
    sum_list limits = max 16 (readPositiveInt (env ''MODERATION_CONCURRENCY_DEFAULT'') (split_default split)) \<and>
    (\<forall>x\<in>set limits. 1 \<le> x \<and> (\<forall>y\<in>set limits. \<bar>x - y\<bar> \<le> 1)) \<and>
    sum_list join_limits = max 4 (readPositiveInt (env ''MODERATION_CONCURRENCY_JOIN'') (split_join split)) \<and>
    (\<forall>x\<in>set join_limits. 1 \<le> x \<and> (\<forall>y\<in>set join_limits. \<bar>x - y\<bar> \<le> 1))"
proof -
  have limits: "limits = resolveShardConcurrencyDistribution
      (readPositiveInt (env ''MODERATION_CONCURRENCY_DEFAULT'') (split_default split)) 16"
    unfolding assms(2,3) default_concurrencies [OF assms(1) refl] map_snd_zip_queues ..
  have join: "join_limits = resolveShardConcurrencyDistribution
      (readPositiveInt (env ''MODERATION_CONCURRENCY_JOIN'') (split_join split)) 4"
    unfolding assms(2,4) join_concurrencies [OF refl] map_snd_zip_queues ..
  show ?thesis
    using concurrency_split_sum [OF assms(2) [symmetric]]
    by (auto simp: limits join distribution_sum distribution_even dest: distribution_pos)
qed

definition small_env :: env where
  "small_env x = (if x = ''MODERATION_CONCURRENCY'' then Str (ascii ''64'') else Undefined)"

theorem shard_concurrency_limits_witness:
  "sum_list (map snd (getDefaultWebhookShardConcurrencies small_env)) = 44 \<and>
   sum_list (map snd (getJoinWebhookShardConcurrencies small_env)) = 4"
proof -
  have *: "\<forall>i. small_env (shard_variable i) = Undefined"
    by (simp add: small_env_def shard_variable_def)
  have "readPositiveInt (small_env ''MODERATION_CONCURRENCY_DEFAULT'')
      (split_default (resolveModerationConcurrencySplit (readPositiveInt (small_env ''MODERATION_CONCURRENCY'') 24))) = 44"
    "readPositiveInt (small_env ''MODERATION_CONCURRENCY_JOIN'')
      (split_join (resolveModerationConcurrencySplit (readPositiveInt (small_env ''MODERATION_CONCURRENCY'') 24))) = 2"
    by code_simp+
  with shard_concurrency_limits [OF * refl refl refl] show ?thesis by simp
qed

section \<open>Configured by its own queue list\<close>

text \<open>A list of queues as it is written in \<^verbatim>\<open>MODERATION_ENABLED_QUEUES\<close>.\<close>

fun join_labels :: "webhook_queue list \<Rightarrow> js_string" where
  "join_labels [] = []"
| "join_labels [q] = ascii (queue_label q)"
| "join_labels (q # qs) = ascii (queue_label q) @ 44 # join_labels qs"

lemma split_on_nonempty: "split_on c s \<noteq> []"
  by (cases s) (auto split: list.splits)

lemma split_on_append:
  "c \<notin> set t \<Longrightarrow> split_on c (t @ c # s) = t # split_on c s"
  by (induction t) (auto)

lemma split_on_single: "c \<notin> set t \<Longrightarrow> split_on c t = [t]"
  by (induction t) (auto)

text \<open>Literals of the code: printable characters other than capitals and the comma.\<close>

definition plain_char :: "char \<Rightarrow> bool" where
  "plain_char c \<longleftrightarrow> (let n = of_char c :: nat in 32 < n \<and> n < 127 \<and> n \<noteq> 44 \<and> (n < 65 \<or> 90 < n))"

lemma unat_char: "unat (word_of_nat (of_char c) :: 16 word) = of_char c"
proof -
  have "(of_char c :: nat) mod 256 < 256" by simp
  then have "(of_char c :: nat) < 256" by (simp only: of_char_mod_256)
  then have "(of_char c :: nat) < 2 ^ LENGTH(16)" by (rule less_le_trans) simp
  then show ?thesis by (simp add: unsigned_of_nat take_bit_nat_eq_self)
qed

lemma ascii_eq [simp]: "ascii s = ascii t \<longleftrightarrow> s = t"
proof -
  have "inj (\<lambda>c. word_of_nat (of_char c) :: 16 word)"
    by (rule injI) (metis unat_char of_char_eq_iff)
  then show ?thesis by (simp add: ascii_def)
qed

lemma plain_unit:
  assumes "plain_char c"
  defines "w \<equiv> word_of_nat (of_char c) :: 16 word"
  shows "w \<noteq> 44" "\<not> is_space w" "lower_unit w = w"
proof -
  have u: "unat w = of_char c" by (simp add: w_def unat_char)
  have c: "32 < (of_char c :: nat)" "(of_char c :: nat) < 127" "(of_char c :: nat) \<noteq> 44"
    "(of_char c :: nat) < 65 \<or> 90 < (of_char c :: nat)"
    using assms(1) by (auto simp: plain_char_def Let_def)
  show "w \<noteq> 44" "\<not> is_space w" "lower_unit w = w"
    using c u by (auto simp: is_space_def lower_unit_def word_le_nat_alt word_unat_eq_iff)
qed

lemma dropWhile_none: "\<forall>x\<in>set s. \<not> P x \<Longrightarrow> dropWhile P s = s"
  by (cases s) simp_all

lemma plain_ascii:
  assumes "list_all plain_char s"
  shows "44 \<notin> set (ascii s)" "trim (ascii s) = ascii s" "to_lower (ascii s) = ascii s"
proof -
  have un: "\<forall>w\<in>set (ascii s). w \<noteq> 44 \<and> \<not> is_space w \<and> lower_unit w = w"
    using assms by (auto simp: ascii_def list_all_iff plain_unit)
  show "44 \<notin> set (ascii s)" using un by blast
  show "to_lower (ascii s) = ascii s" using un by (auto simp: to_lower_def intro: map_idI)
  have "dropWhile is_space (ascii s) = ascii s" "dropWhile is_space (rev (ascii s)) = rev (ascii s)"
    using un by (simp_all add: dropWhile_none)
  then show "trim (ascii s) = ascii s" by (simp add: trim_def)
qed

lemma ascii_Nil [simp]: "ascii s = [] \<longleftrightarrow> s = []"
  by (simp add: ascii_def)

lemma find_label_ascii: "find_label label xs (ascii s) = find (\<lambda>x. label x = s) xs"
  by (simp add: find_label_def)

lemma labels_plain:
  "list_all (\<lambda>l. list_all plain_char l \<and> l \<noteq> [] \<and>
       l \<notin> set [''none'', ''background'', ''join'', ''critical'', ''legacy''])
     (map queue_label ALL_MODERATION_QUEUE_NAMES)"
  by code_simp

lemma labels_distinct: "distinct (map queue_label ALL_MODERATION_QUEUE_NAMES)"
  by code_simp

lemma label_inj: "inj_on queue_label (set ALL_MODERATION_QUEUE_NAMES)"
  using labels_distinct by (simp add: distinct_map)

lemma find_eq: "x \<in> set xs \<Longrightarrow> find (\<lambda>y. y = x) xs = Some x"
  by (induction xs) auto

lemma find_queue_label:
  assumes "q \<in> set ALL_MODERATION_QUEUE_NAMES"
  shows "find (\<lambda>x. queue_label x = queue_label q) ALL_MODERATION_QUEUE_NAMES = Some q"
proof -
  have "queue_label x = queue_label q \<longleftrightarrow> x = q" if "x \<in> set ALL_MODERATION_QUEUE_NAMES" for x
    using inj_onD [OF label_inj _ that assms] by blast
  then have "find (\<lambda>x. queue_label x = queue_label q) ALL_MODERATION_QUEUE_NAMES =
      find (\<lambda>x. x = q) ALL_MODERATION_QUEUE_NAMES"
    by (intro find_cong) simp_all
  also have "\<dots> = Some q" by (rule find_eq [OF assms])
  finally show ?thesis .
qed

lemma known_label:
  assumes "q \<in> set ALL_MODERATION_QUEUE_NAMES"
  shows label_no_comma: "44 \<notin> set (ascii (queue_label q))"
    and label_clean: "to_lower (trim (ascii (queue_label q))) = ascii (queue_label q)"
    and label_nonempty: "queue_label q \<noteq> []"
    and label_not_space: "\<forall>w\<in>set (ascii (queue_label q)). \<not> is_space w"
    and label_token: "normalizeQueueToken (ascii (queue_label q)) = Some [q]"
    and label_not_alias:
      "queue_label q \<notin> set [''none'', ''background'', ''join'', ''critical'', ''legacy'']"
proof -
  have f: "list_all plain_char (queue_label q)" "queue_label q \<noteq> []"
    "find (\<lambda>x. queue_label x = queue_label q) ALL_MODERATION_QUEUE_NAMES = Some q"
    "queue_label q \<notin> set [''none'', ''background'', ''join'', ''critical'', ''legacy'']"
    using assms labels_plain find_queue_label [OF assms] by (simp_all add: list_all_iff)
  show "44 \<notin> set (ascii (queue_label q))" using plain_ascii f(1) by blast
  show clean: "to_lower (trim (ascii (queue_label q))) = ascii (queue_label q)"
    using plain_ascii [OF f(1)] by simp
  show "queue_label q \<noteq> []" by (rule f(2))
  show "\<forall>w\<in>set (ascii (queue_label q)). \<not> is_space w"
    using f(1) by (auto simp: ascii_def list_all_iff plain_unit)
  show "normalizeQueueToken (ascii (queue_label q)) = Some [q]"
    using f(2,3) by (simp add: normalizeQueueToken_def clean find_label_ascii)
  show "queue_label q \<notin> set [''none'', ''background'', ''join'', ''critical'', ''legacy'']"
    by (rule f(4))
qed

lemma split_join_labels:
  "qs \<noteq> [] \<Longrightarrow> set qs \<subseteq> set ALL_MODERATION_QUEUE_NAMES \<Longrightarrow>
    split_on 44 (join_labels qs) = map (\<lambda>q. ascii (queue_label q)) qs"
  by (induction qs rule: join_labels.induct)
    (simp_all add: split_on_append split_on_single label_no_comma)

lemma csv_join_labels:
  assumes "qs \<noteq> []" "set qs \<subseteq> set ALL_MODERATION_QUEUE_NAMES"
  shows "csv_tokens (join_labels qs) = map (\<lambda>q. ascii (queue_label q)) qs"
proof -
  have "map (\<lambda>t. to_lower (trim t)) (map (\<lambda>q. ascii (queue_label q)) qs) = map (\<lambda>q. ascii (queue_label q)) qs"
    using assms(2) by (auto simp: label_clean)
  moreover have "filter (\<lambda>t. t \<noteq> []) (map (\<lambda>q. ascii (queue_label q)) qs) = map (\<lambda>q. ascii (queue_label q)) qs"
    using assms(2) label_nonempty by (auto simp: filter_id_conv)
  ultimately show ?thesis unfolding csv_tokens_def split_join_labels [OF assms] by (simp only:)
qed

lemma trim_nonempty: "w \<in> set s \<Longrightarrow> \<not> is_space w \<Longrightarrow> trim s \<noteq> []"
proof
  assume w: "w \<in> set s" "\<not> is_space w" and "trim s = []"
  then have "\<forall>x\<in>set (dropWhile is_space s). is_space x"
    by (simp add: trim_def dropWhile_eq_Nil_conv)
  moreover have "w \<in> set (dropWhile is_space s)"
    using w by (metis Un_iff set_append set_takeWhileD takeWhile_dropWhile_id)
  ultimately show False using w(2) by blast
qed

lemma trim_join_labels:
  assumes "qs \<noteq> []" "set qs \<subseteq> set ALL_MODERATION_QUEUE_NAMES"
  shows "trim (join_labels qs) \<noteq> []"
proof -
  have q: "hd qs \<in> set ALL_MODERATION_QUEUE_NAMES" using assms by (cases qs) auto
  have "set (ascii (queue_label (hd qs))) \<subseteq> set (join_labels qs)"
    using assms(1) by (cases qs rule: join_labels.cases) auto
  moreover have "ascii (queue_label (hd qs)) \<noteq> []" using label_nonempty [OF q] by simp
  ultimately show ?thesis
    using label_not_space [OF q] by (metis list.set_intros(1) neq_Nil_conv subsetD trim_nonempty)
qed

lemma tokens_have_queue:
  assumes "set qs \<subseteq> set ALL_MODERATION_QUEUE_NAMES" "q \<in> set ALL_MODERATION_QUEUE_NAMES"
  shows "(ascii (queue_label q) \<in> set (map (\<lambda>q. ascii (queue_label q)) qs)) = (q \<in> set qs)"
proof
  assume "ascii (queue_label q) \<in> set (map (\<lambda>q. ascii (queue_label q)) qs)"
  then obtain p where p: "p \<in> set qs" "queue_label q = queue_label p" by auto
  then show "q \<in> set qs" using inj_onD [OF label_inj p(2)] assms by blast
qed auto

lemma tokens_no_alias:
  assumes "set qs \<subseteq> set ALL_MODERATION_QUEUE_NAMES"
    "l \<in> set [''none'', ''background'', ''join'', ''critical'', ''legacy'']"
  shows "ascii l \<notin> set (map (\<lambda>q. ascii (queue_label q)) qs)"
proof
  assume "ascii l \<in> set (map (\<lambda>q. ascii (queue_label q)) qs)"
  then obtain p where p: "p \<in> set qs" "l = queue_label p" by auto
  with assms(1) have "p \<in> set ALL_MODERATION_QUEUE_NAMES" by blast
  from label_not_alias [OF this] show False using assms(2) p(2) by blast
qed

lemma special_queues:
  "Background_Queue \<in> set ALL_MODERATION_QUEUE_NAMES" "Critical_Queue \<in> set ALL_MODERATION_QUEUE_NAMES"
  "Legacy_Queue \<in> set ALL_MODERATION_QUEUE_NAMES"
  "set JOIN_WEBHOOK_QUEUE_NAMES \<subseteq> set ALL_MODERATION_QUEUE_NAMES"
  "set DEFAULT_WEBHOOK_QUEUE_NAMES \<subseteq> set ALL_MODERATION_QUEUE_NAMES"
  by (auto simp: ALL_MODERATION_QUEUE_NAMES_def)

lemma group_queues_subset:
  "set (DEFAULT_WEBHOOK_WORKER_GROUP_QUEUES g) \<subseteq> set DEFAULT_WEBHOOK_QUEUE_NAMES"
  using group_queues_default group_names_all by (auto simp: list_all_iff)

lemma infer_from_labels:
  assumes "qs \<noteq> []" "set qs \<subseteq> set ALL_MODERATION_QUEUE_NAMES"
  shows "inferModerationServiceFromQueues (Str (join_labels qs)) =
    (if Background_Queue \<in> set qs then Some Api_Background
     else if \<exists>q\<in>set JOIN_WEBHOOK_QUEUE_NAMES. q \<in> set qs then Some Api_Join
     else if Critical_Queue \<in> set qs \<or> Legacy_Queue \<in> set qs then Some Api_Critical
     else map_option SERVICE_BY_DEFAULT_WORKER_GROUP
       (find (\<lambda>g. \<exists>q\<in>set (DEFAULT_WEBHOOK_WORKER_GROUP_QUEUES g). q \<in> set qs)
         DEFAULT_WEBHOOK_WORKER_GROUP_NAMES))"
proof -
  note have_q = tokens_have_queue [OF assms(2)]
  have no: "ascii ''background'' \<notin> set (map (\<lambda>q. ascii (queue_label q)) qs)"
    "ascii ''join'' \<notin> set (map (\<lambda>q. ascii (queue_label q)) qs)"
    "ascii ''critical'' \<notin> set (map (\<lambda>q. ascii (queue_label q)) qs)"
    "ascii ''legacy'' \<notin> set (map (\<lambda>q. ascii (queue_label q)) qs)"
    by (rule tokens_no_alias [OF assms(2)], simp)+
  have join: "list_ex (\<lambda>q. ascii (queue_label q) \<in> set (map (\<lambda>q. ascii (queue_label q)) qs)) JOIN_WEBHOOK_QUEUE_NAMES
      = (\<exists>q\<in>set JOIN_WEBHOOK_QUEUE_NAMES. q \<in> set qs)"
    unfolding list_ex_iff using have_q special_queues(4) by blast
  have grp: "list_ex (\<lambda>q. ascii (queue_label q) \<in> set (map (\<lambda>q. ascii (queue_label q)) qs))
        (DEFAULT_WEBHOOK_WORKER_GROUP_QUEUES g)
      = (\<exists>q\<in>set (DEFAULT_WEBHOOK_WORKER_GROUP_QUEUES g). q \<in> set qs)" for g
    unfolding list_ex_iff using have_q special_queues(5) group_queues_subset [of g] by blast
  show ?thesis
    unfolding inferModerationServiceFromQueues_def js_value.case Let_def csv_join_labels [OF assms]
      if_not_P [OF trim_join_labels [OF assms]] join grp have_q [OF special_queues(1)]
      have_q [OF special_queues(2)] have_q [OF special_queues(3)]
    by (simp only: no simp_thms if_False cong: if_cong)
qed

lemma enabled_from_labels:
  assumes "qs \<noteq> []" "set qs \<subseteq> set ALL_MODERATION_QUEUE_NAMES"
    "serviceName (res_service (resolveRuntimeServiceProfile env)) \<noteq> Api_Media_Analysis"
  shows "getEnabledModerationProcessorQueues env (Str (join_labels qs)) = Some (set qs)"
proof -
  have "those (map normalizeQueueToken (map (\<lambda>q. ascii (queue_label q)) qs)) = Some (map (\<lambda>q. [q]) qs)"
    using assms(2) by (induction qs) (simp_all add: label_token)
  moreover have "ascii ''none'' \<notin> set (map (\<lambda>q. ascii (queue_label q)) qs)"
    by (rule tokens_no_alias [OF assms(2)]) simp
  moreover have "set (concat (map (\<lambda>q. [q]) qs)) = set qs" by auto
  ultimately show ?thesis
    unfolding getEnabledModerationProcessorQueues_def js_value.case Let_def csv_join_labels [OF assms(1,2)]
      if_not_P [OF trim_join_labels [OF assms(1,2)]] if_not_P [OF assms(3)]
    using assms(1) by (simp only: if_False option.map set_empty) simp
qed

lemma find_group: "find (\<lambda>h. h = g) DEFAULT_WEBHOOK_WORKER_GROUP_NAMES = Some g"
  by (cases g) (simp_all add: DEFAULT_WEBHOOK_WORKER_GROUP_NAMES_def)

lemma infer_group:
  assumes "qs \<noteq> []" "set qs \<subseteq> set (DEFAULT_WEBHOOK_WORKER_GROUP_QUEUES g)"
  shows "inferModerationServiceFromQueues (Str (join_labels qs)) = Some (SERVICE_BY_DEFAULT_WORKER_GROUP g)"
proof -
  have def: "set qs \<subseteq> set DEFAULT_WEBHOOK_QUEUE_NAMES" using assms(2) group_queues_subset by blast
  then have all: "set qs \<subseteq> set ALL_MODERATION_QUEUE_NAMES" using special_queues(5) by blast
  have "(\<exists>q\<in>set (DEFAULT_WEBHOOK_WORKER_GROUP_QUEUES h). q \<in> set qs) = (h = g)" for h
  proof
    assume "\<exists>q\<in>set (DEFAULT_WEBHOOK_WORKER_GROUP_QUEUES h). q \<in> set qs"
    then obtain q where "q \<in> set (DEFAULT_WEBHOOK_WORKER_GROUP_QUEUES h)"
      "q \<in> set (DEFAULT_WEBHOOK_WORKER_GROUP_QUEUES g)" using assms(2) by blast
    then show "h = g" unfolding home_owner_iff [symmetric] by simp
  qed (use assms in \<open>auto simp: neq_Nil_conv\<close>)
  moreover have "Background_Queue \<notin> set qs" "Critical_Queue \<notin> set qs" "Legacy_Queue \<notin> set qs"
    "\<not> (\<exists>q\<in>set JOIN_WEBHOOK_QUEUE_NAMES. q \<in> set qs)"
    using def by (auto simp: DEFAULT_WEBHOOK_QUEUE_NAMES_def JOIN_WEBHOOK_QUEUE_NAMES_def)
  ultimately show ?thesis
    unfolding infer_from_labels [OF assms(1) all] by (simp only: find_group if_False simp_thms option.map)
qed

lemma infer_own_queues:
  assumes "s \<noteq> Api_All" "qs \<noteq> []" "set qs \<subseteq> set (moderationQueues (RUNTIME_SERVICE_PROFILES s))"
  shows "inferModerationServiceFromQueues (Str (join_labels qs)) = Some s"
proof -
  have all: "set qs \<subseteq> set ALL_MODERATION_QUEUE_NAMES"
    using assms(3) queues_known service_names_all by (auto simp: list_all_iff)
  have mem: "hd qs \<in> set qs" "hd qs \<in> set (moderationQueues (RUNTIME_SERVICE_PROFILES s))"
    using assms(2,3) by (cases qs; auto)+
  note infer = infer_from_labels [OF assms(2) all]
  show ?thesis
  proof (cases s)
    case Api_Moderation
    with assms infer_group [of qs Group_A] show ?thesis by simp
  next
    case Api_Realtime_B
    with assms infer_group [of qs Realtime_B] show ?thesis by simp
  next
    case Api_Realtime_C
    with assms infer_group [of qs Realtime_C] show ?thesis by simp
  next
    case Api_Realtime_D
    with assms infer_group [of qs Realtime_D] show ?thesis by simp
  next
    case Api_Background
    then have "Background_Queue \<in> set qs" using mem by auto
    then show ?thesis by (simp add: infer Api_Background)
  next
    case Api_Join
    then have "Background_Queue \<notin> set qs" "\<exists>q\<in>set JOIN_WEBHOOK_QUEUE_NAMES. q \<in> set qs"
      using assms(3) mem by (auto simp: JOIN_WEBHOOK_QUEUE_NAMES_def)
    then show ?thesis by (simp add: infer Api_Join)
  next
    case Api_Critical
    then have "Background_Queue \<notin> set qs" "\<not> (\<exists>q\<in>set JOIN_WEBHOOK_QUEUE_NAMES. q \<in> set qs)"
      "Critical_Queue \<in> set qs \<or> Legacy_Queue \<in> set qs"
      using assms(3) mem by (auto simp: JOIN_WEBHOOK_QUEUE_NAMES_def)
    then show ?thesis by (simp only: infer Api_Critical if_False if_True)
  qed (use assms(1) mem in auto)
qed

text \<open>
  A moderation process that is configured only by its list of queues becomes the service that
  owns those queues: for every non-empty list of queues of one service, in any order, the
  environment resolves to that service's profile by queue inference, and the process consumes
  exactly the listed queues.
\<close>

theorem queue_list_names_its_service:
  assumes "s \<noteq> Api_All" "qs \<noteq> []" "set qs \<subseteq> set (moderationQueues (RUNTIME_SERVICE_PROFILES s))"
    "env ''APP_SERVICE_NAME'' = Undefined" "env ''APP_ROLE'' = Str (ascii ''moderation'')"
    "env ''WEBHOOK_DYNAMIC_LEASES_WORKER_GROUP'' = Undefined"
    "env ''MODERATION_ENABLED_QUEUES'' = Str (join_labels qs)"
  shows "resolveRuntimeServiceProfile env =
      \<lparr>res_service = RUNTIME_SERVICE_PROFILES s, res_source = Queue_Inference\<rparr> \<and>
    getEnabledModerationProcessorQueues env (env ''MODERATION_ENABLED_QUEUES'') = Some (set qs)"
proof -
  have role: "normalizeAppRole (Str (ascii ''moderation'')) All_Role = Moderation"
    by code_simp
  have resolved: "resolveRuntimeServiceProfile env =
      \<lparr>res_service = RUNTIME_SERVICE_PROFILES s, res_source = Queue_Inference\<rparr>"
    unfolding resolveRuntimeServiceProfile_def assms(4-7) role infer_own_queues [OF assms(1-3)]
    by (simp add: normalizeRuntimeServiceName_def normalizeDefaultWorkerGroupName_def)
  have "set qs \<subseteq> set ALL_MODERATION_QUEUE_NAMES"
    using assms(3) queues_known service_names_all by (auto simp: list_all_iff)
  moreover have "serviceName (RUNTIME_SERVICE_PROFILES s) \<noteq> Api_Media_Analysis"
    using assms(2,3) by (cases s) auto
  ultimately show ?thesis
    using assms(2) by (simp add: resolved assms(7) enabled_from_labels)
qed

definition realtime_env :: env where
  "realtime_env x =
     (if x = ''APP_ROLE'' then Str (ascii ''moderation'')
      else if x = ''MODERATION_ENABLED_QUEUES'' then Str (join_labels [Default_Queue 13, Default_Queue 1])
      else Undefined)"

theorem queue_list_names_its_service_witness:
  "resolveRuntimeServiceProfile realtime_env =
     \<lparr>res_service = RUNTIME_SERVICE_PROFILES Api_Realtime_B, res_source = Queue_Inference\<rparr>"
proof -
  have "set [Default_Queue 13, Default_Queue 1] \<subseteq>
      set (moderationQueues (RUNTIME_SERVICE_PROFILES Api_Realtime_B))"
    by code_simp
  then show ?thesis
    using queue_list_names_its_service
      [of Api_Realtime_B "[Default_Queue 13, Default_Queue 1]" realtime_env]
    by (simp add: realtime_env_def)
qed

text \<open>A token that names an inherited property stops the process with a \<^verbatim>\<open>TypeError\<close>.\<close>

lemma inherited_token_raises:
  "getEnabledModerationProcessorQueues (\<lambda>_. Undefined) (Str (ascii ''constructor'')) = None"
  by code_simp

end
