(* ===== verification/Lease_Plan.thy ===== *)
theory Lease_Plan
  imports Moderation_Runtime "HOL-Library.List_Lexorder" "HOL-Library.Char_ord" "HOL-Library.Product_Lexorder"
begin

text \<open>
  \<^verbatim>\<open>apps/api/src/runtime/default-webhook-lease-plan.ts\<close>: the planner that
  assigns the sixteen default shards to the worker groups that are alive.

  \<^item> A record keyed by queue or by worker group is a function; the shards are the
    \<open>Default_Queue\<close> constructors.
  \<^item> \<^verbatim>\<open>localeCompare\<close> on queue and group names is the lexicographic order of
    their labels: within each family the labels share a prefix and differ in digits or lower-case
    letters, or one is a prefix of the other.
  \<^item> Sorting with a comparator that decides by a tuple of keys is \<open>sort_key\<close> by that tuple:
    both sorts are stable.
\<close>

section \<open>Input and plan\<close>

record lease_counters =
  lc_waiting :: nat
  lc_prioritized :: nat
  lc_active :: nat
  lc_delayed :: nat

record lease_plan_input =
  lp_mode :: leases_mode
  lp_canaryQueues :: "webhook_queue set option"
  lp_aliveWorkerGroups :: "worker_group set option"
  lp_claimedOwners :: "webhook_queue \<Rightarrow> worker_group option"
  lp_lastHandoffAtMs :: "webhook_queue \<Rightarrow> int option"
  lp_queueCounters :: "webhook_queue \<Rightarrow> lease_counters"
  lp_rebalanceCooldownMs :: int
  lp_suppressRebalance :: bool

datatype plan_reason =
    Static_Home | Bootstrap_Home | Keep_Active_Owner | Keep_Pressure_Owner | Keep_Cooldown_Owner
  | Keep_Current_Owner | Rebalance_Least_Loaded | Owner_Unavailable

record plan_entry =
  pe_homeOwner :: worker_group
  pe_eligible :: bool
  pe_currentOwner :: worker_group
  pe_desiredOwner :: worker_group
  pe_handoffPending :: bool
  pe_activeJobs :: nat
  pe_pressure :: int
  pe_reason :: plan_reason

record lease_plan =
  plan_queues :: "webhook_queue \<Rightarrow> plan_entry"
  plan_workerLoads :: "worker_group \<Rightarrow> int"

definition ACTIVE_WEIGHT :: int where "ACTIVE_WEIGHT = 4"

definition MIN_PRESSURE_TO_REBALANCE :: int where "MIN_PRESSURE_TO_REBALANCE = ACTIVE_WEIGHT"

section \<open>Helpers of the planner\<close>

definition shouldRebalanceQueue ::
  "worker_group \<Rightarrow> worker_group \<Rightarrow> int \<Rightarrow> (worker_group \<Rightarrow> int) \<Rightarrow> bool" where
  "shouldRebalanceQueue currentOwner desiredOwner pressure workerLoads =
     (if desiredOwner = currentOwner \<or> pressure \<le> 0 then False
      else workerLoads currentOwner - workerLoads desiredOwner > pressure)"

definition normalizeWorkerGroups :: "worker_group set option \<Rightarrow> worker_group list" where
  "normalizeWorkerGroups aliveWorkerGroups =
     (case aliveWorkerGroups of
        None \<Rightarrow> DEFAULT_WEBHOOK_WORKER_GROUP_NAMES
      | Some alive \<Rightarrow>
          (let normalized = filter (\<lambda>g. g \<in> alive) DEFAULT_WEBHOOK_WORKER_GROUP_NAMES
           in if normalized \<noteq> [] then normalized else DEFAULT_WEBHOOK_WORKER_GROUP_NAMES))"

definition resolveDynamicEligibility :: "leases_mode \<Rightarrow> webhook_queue set \<Rightarrow> webhook_queue \<Rightarrow> bool" where
  "resolveDynamicEligibility mode canaryQueues q =
     (if mode = Leases_On then True
      else if mode = Leases_Canary then q \<in> canaryQueues
      else False)"

definition measurePressure :: "lease_counters \<Rightarrow> int" where
  "measurePressure c =
     int (lc_waiting c) + int (lc_prioritized c) + int (lc_active c) * ACTIVE_WEIGHT + int (lc_delayed c)"

definition chooseLeastLoadedOwner ::
  "worker_group list \<Rightarrow> worker_group \<Rightarrow> worker_group \<Rightarrow> (worker_group \<Rightarrow> int) \<Rightarrow> worker_group" where
  "chooseLeastLoadedOwner candidateOwners currentOwner homeOwner workerLoads =
     hd (sort_key (\<lambda>g. (workerLoads g, g \<noteq> currentOwner, g \<noteq> homeOwner, worker_group_label g))
       candidateOwners)"

section \<open>The planner\<close>

definition home_owner :: "webhook_queue \<Rightarrow> worker_group" where
  "home_owner q = the (getDefaultWebhookHomeOwnerByQueue q)"

definition current_owner :: "lease_plan_input \<Rightarrow> webhook_queue \<Rightarrow> worker_group" where
  "current_owner input q =
     (case lp_claimedOwners input q of Some claimedOwner \<Rightarrow> claimedOwner | None \<Rightarrow> home_owner q)"

definition pressure_of :: "lease_plan_input \<Rightarrow> webhook_queue \<Rightarrow> int" where
  "pressure_of input q = measurePressure (lp_queueCounters input q)"

definition canary_queues :: "env \<Rightarrow> lease_plan_input \<Rightarrow> webhook_queue set" where
  "canary_queues env input =
     (case lp_canaryQueues input of
        Some qs \<Rightarrow> qs
      | None \<Rightarrow> getWebhookDynamicLeaseCanaryQueues env (env ''WEBHOOK_DYNAMIC_LEASES_CANARY_SHARDS''))"

definition eligible :: "env \<Rightarrow> lease_plan_input \<Rightarrow> webhook_queue \<Rightarrow> bool" where
  "eligible env input q = resolveDynamicEligibility (lp_mode input) (canary_queues env input) q"

text \<open>The loop that adds every shard's pressure to the load of its owner.\<close>

definition initial_loads :: "lease_plan_input \<Rightarrow> worker_group \<Rightarrow> int" where
  "initial_loads input =
     foldl (\<lambda>loads q. loads(current_owner input q := loads (current_owner input q) + pressure_of input q))
       (\<lambda>g. 0) DEFAULT_WEBHOOK_QUEUE_NAMES"

definition dynamic_queues :: "env \<Rightarrow> lease_plan_input \<Rightarrow> webhook_queue list" where
  "dynamic_queues env input =
     sort_key (\<lambda>q. (- pressure_of input q, queue_label q))
       (filter (eligible env input) DEFAULT_WEBHOOK_QUEUE_NAMES)"

definition initial_entry :: "env \<Rightarrow> lease_plan_input \<Rightarrow> webhook_queue \<Rightarrow> plan_entry" where
  "initial_entry env input q =
     \<lparr>pe_homeOwner = home_owner q, pe_eligible = eligible env input q,
      pe_currentOwner = current_owner input q, pe_desiredOwner = current_owner input q,
      pe_handoffPending = False, pe_activeJobs = lc_active (lp_queueCounters input q),
      pe_pressure = pressure_of input q,
      pe_reason = (if eligible env input q then Bootstrap_Home else Static_Home)\<rparr>"

definition cooldown_active :: "int \<Rightarrow> lease_plan_input \<Rightarrow> webhook_queue \<Rightarrow> bool" where
  "cooldown_active nowMs input q =
     (case lp_lastHandoffAtMs input q of
        None \<Rightarrow> False | Some lastHandoffAt \<Rightarrow> nowMs - lastHandoffAt < lp_rebalanceCooldownMs input)"

definition move_load :: "worker_group \<Rightarrow> worker_group \<Rightarrow> int \<Rightarrow> (worker_group \<Rightarrow> int) \<Rightarrow> worker_group \<Rightarrow> int" where
  "move_load currentOwner desiredOwner pressure loads =
     (let loads = loads(currentOwner := max 0 (loads currentOwner - pressure))
      in loads(desiredOwner := loads desiredOwner + pressure))"

definition keep_owner :: "plan_reason \<Rightarrow> plan_entry \<Rightarrow> plan_entry" where
  "keep_owner why queue = queue\<lparr>pe_desiredOwner := pe_currentOwner queue, pe_reason := why\<rparr>"

text \<open>One turn of the second loop of \<^verbatim>\<open>buildDefaultWebhookLeasePlan\<close>.\<close>

definition plan_step :: "int \<Rightarrow> lease_plan_input \<Rightarrow> lease_plan \<Rightarrow> webhook_queue \<Rightarrow> lease_plan" where
  "plan_step nowMs input plan q =
     (let alive = normalizeWorkerGroups (lp_aliveWorkerGroups input);
          queue = plan_queues plan q;
          loads = plan_workerLoads plan;
          current = pe_currentOwner queue;
          put = (\<lambda>entry. plan\<lparr>plan_queues := (plan_queues plan)(q := entry)\<rparr>);
          desired = chooseLeastLoadedOwner alive current (pe_homeOwner queue) loads
      in if current \<notin> set alive then
           (put (queue\<lparr>pe_desiredOwner := desired, pe_handoffPending := desired \<noteq> current,
                       pe_reason := Owner_Unavailable\<rparr>))
             \<lparr>plan_workerLoads :=
                (if desired \<noteq> current then move_load current desired (pe_pressure queue) loads else loads)\<rparr>
         else if pe_activeJobs queue > 0 then put (keep_owner Keep_Active_Owner queue)
         else if cooldown_active nowMs input q then put (keep_owner Keep_Cooldown_Owner queue)
         else if lp_suppressRebalance input then put (keep_owner Keep_Pressure_Owner queue)
         else if pe_pressure queue < MIN_PRESSURE_TO_REBALANCE then
           put (keep_owner Keep_Pressure_Owner queue)
         else if \<not> shouldRebalanceQueue current desired (pe_pressure queue) loads then
           put (keep_owner Keep_Current_Owner queue)
         else
           (put (queue\<lparr>pe_desiredOwner := desired, pe_handoffPending := True,
                       pe_reason := Rebalance_Least_Loaded\<rparr>))
             \<lparr>plan_workerLoads := move_load current desired (pe_pressure queue) loads\<rparr>)"

definition initial_plan :: "env \<Rightarrow> lease_plan_input \<Rightarrow> lease_plan" where
  "initial_plan env input =
     \<lparr>plan_queues = initial_entry env input, plan_workerLoads = initial_loads input\<rparr>"

definition buildDefaultWebhookLeasePlan :: "env \<Rightarrow> int \<Rightarrow> lease_plan_input \<Rightarrow> lease_plan" where
  "buildDefaultWebhookLeasePlan env nowMs input =
     foldl (plan_step nowMs input) (initial_plan env input) (dynamic_queues env input)"

section \<open>The chosen owner\<close>

lemma hd_sort_key:
  assumes "xs \<noteq> []"
  shows "hd (sort_key f xs) \<in> set xs \<and> (\<forall>y\<in>set xs. f (hd (sort_key f xs)) \<le> f y)"
proof -
  have ne: "sort_key f xs \<noteq> []" using assms by (metis set_empty set_sort)
  have "sorted (map f (sort_key f xs))" by simp
  then have "\<forall>y\<in>set (sort_key f xs). f (hd (sort_key f xs)) \<le> f y"
    using ne by (cases "sort_key f xs") auto
  then show ?thesis using ne hd_in_set [OF ne] by simp
qed

lemma alive_nonempty: "normalizeWorkerGroups a \<noteq> []"
  by (simp add: normalizeWorkerGroups_def Let_def DEFAULT_WEBHOOK_WORKER_GROUP_NAMES_def split: option.splits)

lemma chosen_alive:
  "chooseLeastLoadedOwner (normalizeWorkerGroups a) c h l \<in> set (normalizeWorkerGroups a)"
  unfolding chooseLeastLoadedOwner_def by (rule hd_sort_key [OF alive_nonempty, THEN conjunct1])

lemma chosen_least:
  assumes "g \<in> set (normalizeWorkerGroups a)"
  shows "l (chooseLeastLoadedOwner (normalizeWorkerGroups a) c h l) \<le> l g"
proof -
  define f where "f = (\<lambda>g. (l g, g \<noteq> c, g \<noteq> h, worker_group_label g))"
  define o' where "o' = hd (sort_key f (normalizeWorkerGroups a))"
  have "f o' \<le> f g"
    unfolding o'_def using hd_sort_key [OF alive_nonempty [of a], of f] assms by simp
  then have "l o' \<le> l g" by (auto simp: f_def less_eq_prod_def)
  then show ?thesis by (simp add: chooseLeastLoadedOwner_def o'_def f_def)
qed

section \<open>One turn of the loop\<close>

text \<open>
  What a turn decides about a shard it has not visited: where the shard goes, and the condition
  under which it may leave an owner that is alive.
\<close>

definition untouched :: "plan_entry \<Rightarrow> plan_entry \<Rightarrow> bool" where
  "untouched e e' \<longleftrightarrow>
     pe_homeOwner e' = pe_homeOwner e \<and> pe_eligible e' = pe_eligible e \<and>
     pe_currentOwner e' = pe_currentOwner e \<and> pe_activeJobs e' = pe_activeJobs e \<and>
     pe_pressure e' = pe_pressure e"

definition may_move :: "int \<Rightarrow> lease_plan_input \<Rightarrow> webhook_queue \<Rightarrow> plan_entry \<Rightarrow> bool" where
  "may_move nowMs input q e \<longleftrightarrow>
     pe_activeJobs e = 0 \<and> \<not> cooldown_active nowMs input q \<and> \<not> lp_suppressRebalance input \<and>
     4 \<le> pe_pressure e \<and> pe_reason e = Rebalance_Least_Loaded"

definition settled :: "int \<Rightarrow> lease_plan_input \<Rightarrow> webhook_queue \<Rightarrow> plan_entry \<Rightarrow> bool" where
  "settled nowMs input q e \<longleftrightarrow>
     pe_desiredOwner e \<in> set (normalizeWorkerGroups (lp_aliveWorkerGroups input)) \<and>
     pe_handoffPending e = (pe_desiredOwner e \<noteq> pe_currentOwner e) \<and>
     (pe_currentOwner e \<in> set (normalizeWorkerGroups (lp_aliveWorkerGroups input)) \<and>
        pe_desiredOwner e \<noteq> pe_currentOwner e \<longrightarrow> may_move nowMs input q e)"

definition moved_loads :: "plan_entry \<Rightarrow> (worker_group \<Rightarrow> int) \<Rightarrow> worker_group \<Rightarrow> int" where
  "moved_loads e loads =
     (if pe_desiredOwner e = pe_currentOwner e then loads
      else move_load (pe_currentOwner e) (pe_desiredOwner e) (pe_pressure e) loads)"

lemma plan_step_cases:
  assumes "pe_desiredOwner (plan_queues plan q) = pe_currentOwner (plan_queues plan q)"
    "\<not> pe_handoffPending (plan_queues plan q)"
  obtains e where
    "plan_step nowMs input plan q =
       \<lparr>plan_queues = (plan_queues plan)(q := e), plan_workerLoads = moved_loads e (plan_workerLoads plan)\<rparr>"
    "untouched (plan_queues plan q) e" "settled nowMs input q e"
    "pe_currentOwner e \<in> set (normalizeWorkerGroups (lp_aliveWorkerGroups input)) \<Longrightarrow>
     pe_desiredOwner e \<noteq> pe_currentOwner e \<Longrightarrow>
     pe_pressure e < plan_workerLoads plan (pe_currentOwner e) - plan_workerLoads plan (pe_desiredOwner e)"
proof -
  let ?e = "plan_queues (plan_step nowMs input plan q) q"
  note defs = plan_step_def Let_def keep_owner_def untouched_def settled_def may_move_def
    moved_loads_def shouldRebalanceQueue_def MIN_PRESSURE_TO_REBALANCE_def ACTIVE_WEIGHT_def
  have a: "plan_step nowMs input plan q =
       \<lparr>plan_queues = (plan_queues plan)(q := ?e), plan_workerLoads = moved_loads ?e (plan_workerLoads plan)\<rparr>"
    using assms by (auto simp: defs split: if_splits)
  have b: "untouched (plan_queues plan q) ?e" by (auto simp: defs)
  have c: "settled nowMs input q ?e" using assms chosen_alive by (auto simp: defs)
  have d: "pe_currentOwner ?e \<in> set (normalizeWorkerGroups (lp_aliveWorkerGroups input)) \<Longrightarrow>
     pe_desiredOwner ?e \<noteq> pe_currentOwner ?e \<Longrightarrow>
     pe_pressure ?e < plan_workerLoads plan (pe_currentOwner ?e) - plan_workerLoads plan (pe_desiredOwner ?e)"
    using assms by (auto simp: defs split: if_splits)
  show thesis by (rule that [OF a b c d])
qed

section \<open>Loads\<close>

definition planned_load :: "lease_plan_input \<Rightarrow> (webhook_queue \<Rightarrow> plan_entry) \<Rightarrow> worker_group \<Rightarrow> int" where
  "planned_load input queues g =
     (\<Sum>q\<leftarrow>DEFAULT_WEBHOOK_QUEUE_NAMES. if pe_desiredOwner (queues q) = g then pressure_of input q else 0)"

lemma pressure_nonneg: "0 \<le> pressure_of input q"
  by (simp add: pressure_of_def measurePressure_def ACTIVE_WEIGHT_def)

lemma distinct_default: "distinct DEFAULT_WEBHOOK_QUEUE_NAMES"
  by (simp add: DEFAULT_WEBHOOK_QUEUE_NAMES_def distinct_map inj_on_def)

lemma planned_load_alt:
  "planned_load input queues g =
     (\<Sum>q\<in>set DEFAULT_WEBHOOK_QUEUE_NAMES. if pe_desiredOwner (queues q) = g then pressure_of input q else 0)"
  unfolding planned_load_def by (rule sum_list_distinct_conv_sum_set [OF distinct_default])

lemma planned_load_update:
  assumes "q \<in> set DEFAULT_WEBHOOK_QUEUE_NAMES"
  shows "planned_load input (queues(q := e)) g =
    planned_load input queues g
      - (if pe_desiredOwner (queues q) = g then pressure_of input q else 0)
      + (if pe_desiredOwner e = g then pressure_of input q else 0)"
  unfolding planned_load_alt by (subst (1 2) sum.remove [OF _ assms]) simp_all

lemma planned_load_owner:
  assumes "q \<in> set DEFAULT_WEBHOOK_QUEUE_NAMES"
  shows "pressure_of input q \<le> planned_load input queues (pe_desiredOwner (queues q))"
  unfolding planned_load_alt by (subst sum.remove [OF _ assms], simp, simp, rule sum_nonneg, simp add: pressure_nonneg)

lemma foldl_loads:
  "foldl (\<lambda>loads q. loads(own q := loads (own q) + pr q)) loads qs g =
     loads g + (\<Sum>q\<leftarrow>qs. if own q = g then pr q else (0 :: int))"
  by (induction qs arbitrary: loads) auto

lemma initial_loads_planned: "initial_loads input = planned_load input (initial_entry env input)"
  by (rule ext) (simp add: initial_loads_def foldl_loads planned_load_def initial_entry_def)

section \<open>The loop\<close>

definition loop_inv ::
  "env \<Rightarrow> int \<Rightarrow> lease_plan_input \<Rightarrow> webhook_queue set \<Rightarrow> lease_plan \<Rightarrow> bool" where
  "loop_inv env nowMs input visited plan \<longleftrightarrow>
     (\<forall>q. untouched (initial_entry env input q) (plan_queues plan q)) \<and>
     (\<forall>q. q \<notin> visited \<longrightarrow> plan_queues plan q = initial_entry env input q) \<and>
     (\<forall>q\<in>visited. settled nowMs input q (plan_queues plan q)) \<and>
     plan_workerLoads plan = planned_load input (plan_queues plan)"

definition owners_alive :: "env \<Rightarrow> lease_plan_input \<Rightarrow> bool" where
  "owners_alive env input \<longleftrightarrow>
     (\<forall>q\<in>set DEFAULT_WEBHOOK_QUEUE_NAMES. eligible env input q \<longrightarrow>
        current_owner input q \<in> set (normalizeWorkerGroups (lp_aliveWorkerGroups input)))"

lemma moved_loads_planned:
  assumes "q \<in> set DEFAULT_WEBHOOK_QUEUE_NAMES" "loads = planned_load input queues"
    "pe_desiredOwner (queues q) = pe_currentOwner e" "pe_pressure e = pressure_of input q"
  shows "moved_loads e loads = planned_load input (queues(q := e))"
  using planned_load_owner [OF assms(1), of input queues] assms
  by (auto simp: moved_loads_def move_load_def Let_def planned_load_update fun_eq_iff)

lemma move_load_le:
  assumes "0 \<le> p" "p \<le> loads c" "p < loads c - loads d" "\<forall>g. loads g \<le> m"
  shows "move_load c d p loads g \<le> m"
proof -
  have "loads c \<le> m" "loads g \<le> m" using assms(4) by simp_all
  with assms(1-3) show ?thesis by (auto simp: move_load_def Let_def)
qed

lemma loop_step:
  assumes inv: "loop_inv env nowMs input visited plan"
    and q: "q \<notin> visited" "q \<in> set DEFAULT_WEBHOOK_QUEUE_NAMES"
  shows "loop_inv env nowMs input (insert q visited) (plan_step nowMs input plan q)"
    and "current_owner input q \<in> set (normalizeWorkerGroups (lp_aliveWorkerGroups input)) \<Longrightarrow>
      \<forall>g. plan_workerLoads plan g \<le> m \<Longrightarrow> plan_workerLoads (plan_step nowMs input plan q) g \<le> m"
proof -
  have fresh: "plan_queues plan q = initial_entry env input q" using inv q(1) by (simp add: loop_inv_def)
  have same: "pe_desiredOwner (plan_queues plan q) = pe_currentOwner (plan_queues plan q)"
    "\<not> pe_handoffPending (plan_queues plan q)"
    by (simp_all add: fresh initial_entry_def)
  obtain e where e: "plan_step nowMs input plan q =
       \<lparr>plan_queues = (plan_queues plan)(q := e), plan_workerLoads = moved_loads e (plan_workerLoads plan)\<rparr>"
    "untouched (plan_queues plan q) e" "settled nowMs input q e"
    "pe_currentOwner e \<in> set (normalizeWorkerGroups (lp_aliveWorkerGroups input)) \<Longrightarrow>
     pe_desiredOwner e \<noteq> pe_currentOwner e \<Longrightarrow>
     pe_pressure e < plan_workerLoads plan (pe_currentOwner e) - plan_workerLoads plan (pe_desiredOwner e)"
    using plan_step_cases [OF same, of nowMs input] by blast
  have e_fields: "pe_currentOwner e = current_owner input q" "pe_pressure e = pressure_of input q"
    using e(2) fresh by (simp_all add: untouched_def initial_entry_def)
  have loads: "plan_workerLoads plan = planned_load input (plan_queues plan)"
    using inv by (simp add: loop_inv_def)
  have "moved_loads e (plan_workerLoads plan) = planned_load input ((plan_queues plan)(q := e))"
    using same(1) e(2) e_fields by (intro moved_loads_planned [OF q(2) loads]) (simp_all add: untouched_def)
  then show "loop_inv env nowMs input (insert q visited) (plan_step nowMs input plan q)"
    using inv e(1,2,3) fresh by (simp add: loop_inv_def)
  show "plan_workerLoads (plan_step nowMs input plan q) g \<le> m"
    if "current_owner input q \<in> set (normalizeWorkerGroups (lp_aliveWorkerGroups input))"
      "\<forall>g. plan_workerLoads plan g \<le> m"
  proof (cases "pe_desiredOwner e = pe_currentOwner e")
    case True
    with that(2) e(1) show ?thesis by (simp add: moved_loads_def)
  next
    case False
    have "pressure_of input q \<le> plan_workerLoads plan (pe_currentOwner e)"
      using planned_load_owner [OF q(2), of input "plan_queues plan"] same(1) e(2) loads
      by (simp add: untouched_def)
    with move_load_le [OF _ _ _ that(2), of "pe_pressure e" "pe_currentOwner e" "pe_desiredOwner e"]
    show ?thesis
      using e(1) e(4) [OF _ False] that(1) e_fields False pressure_nonneg [of input q]
      by (simp add: moved_loads_def)
  qed
qed

lemma loop_run:
  assumes "loop_inv env nowMs input visited plan" "distinct qs" "set qs \<inter> visited = {}"
    "set qs \<subseteq> set DEFAULT_WEBHOOK_QUEUE_NAMES"
  shows "loop_inv env nowMs input (visited \<union> set qs) (foldl (plan_step nowMs input) plan qs)"
    and "\<forall>q\<in>set qs. current_owner input q \<in> set (normalizeWorkerGroups (lp_aliveWorkerGroups input)) \<Longrightarrow>
      \<forall>g. plan_workerLoads plan g \<le> m \<Longrightarrow>
      plan_workerLoads (foldl (plan_step nowMs input) plan qs) g \<le> m"
  using assms
proof (induction qs arbitrary: plan visited)
  case (Cons q qs)
  {
    case 1
    then show ?case
      using Cons.IH(1) [OF loop_step(1) [OF 1(1), of q]] by simp
  next
    case 2
    have "\<forall>g. plan_workerLoads (plan_step nowMs input plan q) g \<le> m"
      using 2 loop_step(2) [of env nowMs input visited plan q m] by simp
    then show ?case
      using 2 Cons.IH(2) [OF _ _ loop_step(1) [OF 2(3), of q]] by simp
  }
qed simp_all

lemma dynamic_queues_facts:
  "distinct (dynamic_queues env input)"
  "set (dynamic_queues env input) = {q \<in> set DEFAULT_WEBHOOK_QUEUE_NAMES. eligible env input q}"
  by (auto simp: dynamic_queues_def distinct_default)

lemma plan_inv:
  "loop_inv env nowMs input {q \<in> set DEFAULT_WEBHOOK_QUEUE_NAMES. eligible env input q}
     (buildDefaultWebhookLeasePlan env nowMs input)"
proof -
  have "loop_inv env nowMs input {} (initial_plan env input)"
    by (simp add: loop_inv_def initial_plan_def untouched_def initial_loads_planned [of _ env])
  from loop_run(1) [OF this dynamic_queues_facts(1) [of env input]] show ?thesis
    by (simp add: buildDefaultWebhookLeasePlan_def dynamic_queues_facts(2))
qed

section \<open>Properties\<close>

text \<open>
  C23: A shard changes hands for a reason only: its plan entry keeps the owner unless the shard is
  eligible for dynamic leases, the new owner is alive, and either the present owner is not or the
  shard is idle, out of its cooldown, loaded enough and rebalancing is not suppressed. The
  hand-off flag says exactly whether the owner changes, and every eligible shard ends with an owner
  that is alive.
\<close>

theorem lease_plan_moves_justified:
  assumes "e = plan_queues (buildDefaultWebhookLeasePlan env nowMs input) q"
    "alive = set (normalizeWorkerGroups (lp_aliveWorkerGroups input))"
  shows "pe_currentOwner e = current_owner input q \<and> pe_homeOwner e = home_owner q \<and>
    pe_handoffPending e = (pe_desiredOwner e \<noteq> current_owner input q) \<and>
    (q \<in> set DEFAULT_WEBHOOK_QUEUE_NAMES \<and> eligible env input q \<longrightarrow> pe_desiredOwner e \<in> alive) \<and>
    (pe_desiredOwner e \<noteq> current_owner input q \<longrightarrow>
       eligible env input q \<and> pe_desiredOwner e \<in> alive \<and>
       (current_owner input q \<notin> alive \<or>
        (lc_active (lp_queueCounters input q) = 0 \<and> \<not> cooldown_active nowMs input q \<and>
         \<not> lp_suppressRebalance input \<and> 4 \<le> pressure_of input q)))"
proof -
  have unt: "untouched (initial_entry env input q) e"
    and other: "\<not> (q \<in> set DEFAULT_WEBHOOK_QUEUE_NAMES \<and> eligible env input q) \<Longrightarrow> e = initial_entry env input q"
    and set: "q \<in> set DEFAULT_WEBHOOK_QUEUE_NAMES \<and> eligible env input q \<Longrightarrow> settled nowMs input q e"
    using plan_inv [of env nowMs input] unfolding loop_inv_def assms(1) by simp_all
  show ?thesis
  proof (cases "q \<in> set DEFAULT_WEBHOOK_QUEUE_NAMES \<and> eligible env input q")
    case True
    with set [OF True] unt assms(2) show ?thesis
      by (auto simp: settled_def may_move_def untouched_def initial_entry_def)
  next
    case False
    with other [OF False] show ?thesis by (auto simp: initial_entry_def)
  qed
qed

text \<open>Two busy shards of the first group, a free one, and a group that is down.\<close>

definition sample_input :: lease_plan_input where
  "sample_input =
     \<lparr>lp_mode = Leases_On, lp_canaryQueues = Some {},
      lp_aliveWorkerGroups = Some {Group_A, Realtime_B, Realtime_C},
      lp_claimedOwners = (\<lambda>_. None), lp_lastHandoffAtMs = (\<lambda>_. None),
      lp_queueCounters =
        (\<lambda>q. \<lparr>lc_waiting = (if q = Default_Queue 0 then 90 else if q = Default_Queue 4 then 50 else 3),
              lc_prioritized = 0, lc_active = (if q = Default_Queue 0 then 2 else 0), lc_delayed = 0\<rparr>),
      lp_rebalanceCooldownMs = 1000, lp_suppressRebalance = False\<rparr>"

theorem lease_plan_moves_justified_witness:
  "pe_desiredOwner (plan_queues (buildDefaultWebhookLeasePlan (\<lambda>_. Undefined) 0 sample_input) (Default_Queue 0))
     = Group_A \<and>
   pe_desiredOwner (plan_queues (buildDefaultWebhookLeasePlan (\<lambda>_. Undefined) 0 sample_input) (Default_Queue 3))
     \<in> {Group_A, Realtime_B, Realtime_C}"
proof -
  have facts: "current_owner sample_input (Default_Queue 0) = Group_A"
    "lc_active (lp_queueCounters sample_input (Default_Queue 0)) = 2"
    "Group_A \<in> set (normalizeWorkerGroups (lp_aliveWorkerGroups sample_input))"
    "set (normalizeWorkerGroups (lp_aliveWorkerGroups sample_input)) = {Group_A, Realtime_B, Realtime_C}"
    "Default_Queue 3 \<in> set DEFAULT_WEBHOOK_QUEUE_NAMES"
    "eligible (\<lambda>_. Undefined) sample_input (Default_Queue 3)"
    by code_simp+
  show ?thesis
    using facts lease_plan_moves_justified [OF refl refl, of "\<lambda>_. Undefined" 0 sample_input "Default_Queue 0"]
      lease_plan_moves_justified [OF refl refl, of "\<lambda>_. Undefined" 0 sample_input "Default_Queue 3"]
    by auto
qed

text \<open>
  The loads the plan reports are the loads it plans: for every worker group, the sum of the
  pressures of the default shards the plan gives to it. No pressure is lost or counted twice, and
  the cut at zero never takes effect.
\<close>

theorem lease_plan_loads_add_up:
  "plan_workerLoads (buildDefaultWebhookLeasePlan env nowMs input) g =
     (\<Sum>q\<leftarrow>DEFAULT_WEBHOOK_QUEUE_NAMES.
        if pe_desiredOwner (plan_queues (buildDefaultWebhookLeasePlan env nowMs input) q) = g
        then measurePressure (lp_queueCounters input q) else 0)"
  using plan_inv [of env nowMs input]
  unfolding loop_inv_def planned_load_def pressure_of_def by (auto simp: fun_eq_iff)

text \<open>
  Rebalancing never makes the busiest group busier: while the owner of every eligible shard is
  alive, no group is planned more load than the busiest group carries now.
\<close>

theorem lease_plan_peak_not_raised:
  assumes "owners_alive env input"
  shows "plan_workerLoads (buildDefaultWebhookLeasePlan env nowMs input) g \<le>
    Max (set (map (initial_loads input) DEFAULT_WEBHOOK_WORKER_GROUP_NAMES))"
proof -
  have "\<forall>g. plan_workerLoads (initial_plan env input) g \<le>
      Max (set (map (initial_loads input) DEFAULT_WEBHOOK_WORKER_GROUP_NAMES))"
    by (rule allI, rule Max_ge, rule finite_set) (simp add: initial_plan_def group_names_all)
  moreover have "loop_inv env nowMs input {} (initial_plan env input)"
    by (simp add: loop_inv_def initial_plan_def untouched_def initial_loads_planned [of _ env])
  ultimately show ?thesis
    unfolding buildDefaultWebhookLeasePlan_def using assms
    by (intro loop_run(2) [where visited = "{}"]) (auto simp: dynamic_queues_facts owners_alive_def)
qed

definition busy_input :: lease_plan_input where
  "busy_input = sample_input\<lparr>lp_aliveWorkerGroups := None\<rparr>"

theorem lease_plan_peak_not_raised_witness:
  "plan_workerLoads (buildDefaultWebhookLeasePlan (\<lambda>_. Undefined) 0 busy_input) Realtime_B \<le> 154"
proof -
  have "owners_alive (\<lambda>_. Undefined) busy_input"
    "Max (set (map (initial_loads busy_input) DEFAULT_WEBHOOK_WORKER_GROUP_NAMES)) = 154"
    by code_simp+
  with lease_plan_peak_not_raised [of "\<lambda>_. Undefined" busy_input 0 Realtime_B] show ?thesis by simp
qed

end
