(* ===== verification/Lease_Manager.thy ===== *)
theory Lease_Manager
  imports Lease_Plan
begin

text \<open>
  \<^verbatim>\<open>apps/api/src/moderation/default-webhook-lease-manager.service.ts\<close>: the
  worker groups share the default shards through leases kept in Redis, each with a fencing token.

  \<^item> Redis is a store of one lease key and one fence counter per shard, with the clock of the
    server.  A key whose expiry has passed is absent, as Redis documents; each script is atomic.
  \<^item> A call to Redis has three moments, between which everything else may happen: it is sent with
    the arguments of that moment, its script runs, and its answer reaches the group.
  \<^item> The JSON text of a lease is the lease, or unreadable.
  \<^item> The workers are the shards for which the group runs one; what the queue library does inside a
    worker is not modelled.
\<close>

section \<open>Redis\<close>

record lease_claim =
  sc_ownerId :: worker_group
  sc_fencingToken :: int
  sc_claimedAtMs :: int
  sc_updatedAtMs :: int
  sc_leaseUntilMs :: int

datatype lease_value = Lease lease_claim | Unreadable

text \<open>A key's value and when it expires; \<open>None\<close> when it never does.\<close>

type_synonym lease_key = "lease_value \<times> int option"

record lease_store =
  ls_claims :: "webhook_queue \<Rightarrow> lease_key option"
  ls_fences :: "webhook_queue \<Rightarrow> int"

definition key_alive :: "int \<Rightarrow> lease_key option \<Rightarrow> lease_value option" where
  "key_alive redisNow key =
     (case key of
        Some (v, None) \<Rightarrow> Some v
      | Some (v, Some expires) \<Rightarrow> if redisNow < expires then Some v else None
      | None \<Rightarrow> None)"

definition get_claim :: "int \<Rightarrow> webhook_queue \<Rightarrow> lease_store \<Rightarrow> lease_value option" where
  "get_claim redisNow q r = key_alive redisNow (ls_claims r q)"

definition set_claim :: "webhook_queue \<Rightarrow> lease_key option \<Rightarrow> lease_store \<Rightarrow> lease_store" where
  "set_claim q v r = r\<lparr>ls_claims := (ls_claims r)(q := v)\<rparr>"

definition set_fence :: "webhook_queue \<Rightarrow> int \<Rightarrow> lease_store \<Rightarrow> lease_store" where
  "set_fence q n r = r\<lparr>ls_fences := (ls_fences r)(q := n)\<rparr>"

text \<open>The claim script answers the granted token, or \<open>None\<close> for \<^verbatim>\<open>{0, 0}\<close>.  A key
  that can be read has time left or no expiry, so the script's look at its time to live adds nothing.\<close>

definition claim_script :: "int \<Rightarrow> worker_group \<Rightarrow> webhook_queue \<Rightarrow> int \<Rightarrow> int \<Rightarrow> lease_store \<Rightarrow> lease_store \<times> int option" where
  "claim_script redisNow ownerId q nowMs ttlMs r =
     (let current = get_claim redisNow q r;
          currentFencingToken = (case current of Some (Lease c) \<Rightarrow> sc_fencingToken c | _ \<Rightarrow> 0);
          heldByAnotherOwner = (case current of Some (Lease c) \<Rightarrow> sc_ownerId c \<noteq> ownerId | _ \<Rightarrow> False);
          r1 = (if currentFencingToken > ls_fences r q then set_fence q currentFencingToken r else r)
      in if heldByAnotherOwner then (r1, None)
         else
           (let fencingToken = ls_fences r1 q + 1;
                claim = \<lparr>sc_ownerId = ownerId, sc_fencingToken = fencingToken, sc_claimedAtMs = nowMs,
                         sc_updatedAtMs = nowMs, sc_leaseUntilMs = nowMs + ttlMs\<rparr>
            in (set_claim q (Some (Lease claim, Some (redisNow + ttlMs))) (set_fence q fencingToken r1),
                Some fencingToken)))"

definition renew_script :: "int \<Rightarrow> worker_group \<Rightarrow> webhook_queue \<Rightarrow> int \<Rightarrow> int \<Rightarrow> int \<Rightarrow> lease_store \<Rightarrow> lease_store \<times> int" where
  "renew_script redisNow ownerId q fencingToken nowMs ttlMs r =
     (case get_claim redisNow q r of
        Some (Lease current) \<Rightarrow>
          if sc_ownerId current \<noteq> ownerId \<or> sc_fencingToken current \<noteq> fencingToken then (r, 0)
          else
            (set_claim q
               (Some (Lease (current\<lparr>sc_updatedAtMs := nowMs, sc_leaseUntilMs := nowMs + ttlMs\<rparr>), Some (redisNow + ttlMs))) r, 1)
      | _ \<Rightarrow> (r, 0))"

definition release_script :: "int \<Rightarrow> worker_group \<Rightarrow> webhook_queue \<Rightarrow> int \<Rightarrow> lease_store \<Rightarrow> lease_store \<times> int" where
  "release_script redisNow ownerId q fencingToken r =
     (case get_claim redisNow q r of
        Some (Lease current) \<Rightarrow>
          if sc_ownerId current = ownerId \<and> sc_fencingToken current = fencingToken
          then (set_claim q None r, 1) else (r, 0)
      | _ \<Rightarrow> (r, 0))"

section \<open>A group's own record of its claims\<close>

type_synonym local_claims = "webhook_queue \<Rightarrow> int option"

definition recordLocalClaim :: "webhook_queue \<Rightarrow> int \<Rightarrow> local_claims \<Rightarrow> local_claims" where
  "recordLocalClaim q fencingToken m =
     (case m q of
        Some current \<Rightarrow> if fencingToken \<ge> current then m(q \<mapsto> fencingToken) else m
      | None \<Rightarrow> m(q \<mapsto> fencingToken))"

definition clearLocalClaim :: "webhook_queue \<Rightarrow> int \<Rightarrow> local_claims \<Rightarrow> local_claims" where
  "clearLocalClaim q fencingToken m = (if m q = Some fencingToken then m(q := None) else m)"

definition hasLocalClaim :: "worker_group \<Rightarrow> webhook_queue \<Rightarrow> lease_claim option \<Rightarrow> local_claims \<Rightarrow> bool" where
  "hasLocalClaim g q claim m =
     (case claim of
        Some c \<Rightarrow> sc_ownerId c = g \<and> m q = Some (sc_fencingToken c)
      | None \<Rightarrow> False)"

section \<open>Calls in flight\<close>

datatype lease_call =
    Claim_Call worker_group webhook_queue int
  | Renew_Call worker_group webhook_queue int int
  | Release_Call worker_group webhook_queue int

datatype call_answer = Granted "int option" | Answered int

datatype flight = Sent lease_call | Ran lease_call call_answer

record lease_system =
  ly_store :: lease_store
  ly_local :: "worker_group \<Rightarrow> local_claims"
  ly_stopping :: "worker_group \<Rightarrow> bool"
  ly_flights :: "flight list"

definition send :: "lease_call \<Rightarrow> lease_system \<Rightarrow> lease_system" where
  "send c y = y\<lparr>ly_flights := ly_flights y @ [Sent c]\<rparr>"

text \<open>The parts of the three methods before their call.\<close>

definition renewClaim :: "worker_group \<Rightarrow> webhook_queue \<Rightarrow> int \<Rightarrow> int \<Rightarrow> lease_system \<Rightarrow> lease_system" where
  "renewClaim g q fencingToken nowMs y = send (Renew_Call g q fencingToken nowMs) y"

definition claimQueue :: "worker_group \<Rightarrow> webhook_queue \<Rightarrow> int \<Rightarrow> lease_system \<Rightarrow> lease_system" where
  "claimQueue g q nowMs y =
     (if ly_stopping y g then y
      else (case ly_local y g q of
              Some localFencingToken \<Rightarrow> renewClaim g q localFencingToken nowMs y
            | None \<Rightarrow> send (Claim_Call g q nowMs) y))"

definition releaseClaim :: "worker_group \<Rightarrow> webhook_queue \<Rightarrow> lease_system \<Rightarrow> lease_system" where
  "releaseClaim g q y =
     (case ly_local y g q of
        Some fencingToken \<Rightarrow> send (Release_Call g q fencingToken) y
      | None \<Rightarrow> y)"

text \<open>The script runs.\<close>

definition run_call :: "int \<Rightarrow> int \<Rightarrow> lease_call \<Rightarrow> lease_store \<Rightarrow> lease_store \<times> call_answer" where
  "run_call redisNow ttlMs c r =
     (case c of
        Claim_Call g q nowMs \<Rightarrow> (case claim_script redisNow g q nowMs ttlMs r of (r1, t) \<Rightarrow> (r1, Granted t))
      | Renew_Call g q t nowMs \<Rightarrow> (case renew_script redisNow g q t nowMs ttlMs r of (r1, n) \<Rightarrow> (r1, Answered n))
      | Release_Call g q t \<Rightarrow> (case release_script redisNow g q t r of (r1, n) \<Rightarrow> (r1, Answered n)))"

text \<open>The parts after the call: what the answer does to the group's record, and what the method
  returns.\<close>

definition MAX_SAFE_TOKEN :: int where "MAX_SAFE_TOKEN = 9007199254740991"

fun deliver :: "lease_call \<Rightarrow> call_answer \<Rightarrow> local_claims \<Rightarrow> local_claims \<times> bool" where
  "deliver (Claim_Call g q nowMs) (Granted (Some fencingToken)) m =
     (if fencingToken > MAX_SAFE_TOKEN \<or> fencingToken \<le> 0 then (m, False)
      else (recordLocalClaim q fencingToken m, True))"
| "deliver (Renew_Call g q fencingToken nowMs) (Answered n) m =
     (if n > 0 then (m, True) else (clearLocalClaim q fencingToken m, False))"
| "deliver (Release_Call g q fencingToken) (Answered n) m = (clearLocalClaim q fencingToken m, n > 0)"
| "deliver _ _ m = (m, False)"

fun call_group :: "lease_call \<Rightarrow> worker_group" where
  "call_group (Claim_Call g q nowMs) = g"
| "call_group (Renew_Call g q t nowMs) = g"
| "call_group (Release_Call g q t) = g"

fun call_queue :: "lease_call \<Rightarrow> webhook_queue" where
  "call_queue (Claim_Call g q nowMs) = q"
| "call_queue (Renew_Call g q t nowMs) = q"
| "call_queue (Release_Call g q t) = q"

section \<open>Steps of the system\<close>

text \<open>
  Any group may start any of the methods at any time, any sent script may run and any answer may
  arrive or be lost, in any order; a group may restart and forget its record.
\<close>

inductive lease_step :: "lease_system \<Rightarrow> lease_system \<Rightarrow> bool" where
  claim: "lease_step y (claimQueue g q nowMs y)"
| renew: "ly_local y g q = Some t \<Longrightarrow> lease_step y (renewClaim g q t nowMs y)"
| release: "lease_step y (releaseClaim g q y)"
| run: "i < length (ly_flights y) \<Longrightarrow> ly_flights y ! i = Sent c \<Longrightarrow>
    run_call redisNow ttlMs c (ly_store y) = (r1, a) \<Longrightarrow>
    lease_step y (y\<lparr>ly_store := r1, ly_flights := (ly_flights y)[i := Ran c a]\<rparr>)"
| arrive: "i < length (ly_flights y) \<Longrightarrow> ly_flights y ! i = Ran c a \<Longrightarrow>
    lease_step y (y\<lparr>ly_local := (ly_local y)(call_group c := fst (deliver c a (ly_local y (call_group c)))),
                    ly_flights := take i (ly_flights y) @ drop (Suc i) (ly_flights y)\<rparr>)"
| lose: "i < length (ly_flights y) \<Longrightarrow>
    lease_step y (y\<lparr>ly_flights := take i (ly_flights y) @ drop (Suc i) (ly_flights y)\<rparr>)"
| stop: "lease_step y (y\<lparr>ly_stopping := (ly_stopping y)(g := True)\<rparr>)"
| restart: "lease_step y (y\<lparr>ly_local := (ly_local y)(g := (\<lambda>_. None)), ly_stopping := (ly_stopping y)(g := False),
    ly_flights := filter (\<lambda>f. (case f of Sent c \<Rightarrow> True | Ran c a \<Rightarrow> call_group c \<noteq> g)) (ly_flights y)\<rparr>)"

inductive_cases lease_stepE: "lease_step y y'"

section \<open>Who was given which token\<close>

fun flight_token :: "flight \<Rightarrow> (worker_group \<times> webhook_queue \<times> int) option" where
  "flight_token (Sent (Renew_Call g q t nowMs)) = Some (g, q, t)"
| "flight_token (Sent (Release_Call g q t)) = Some (g, q, t)"
| "flight_token (Ran (Renew_Call g q t nowMs) a) = Some (g, q, t)"
| "flight_token (Ran (Release_Call g q t) a) = Some (g, q, t)"
| "flight_token (Ran (Claim_Call g q nowMs) (Granted (Some t))) = Some (g, q, t)"
| "flight_token _ = None"

definition stored :: "lease_store \<Rightarrow> webhook_queue \<Rightarrow> worker_group \<Rightarrow> int \<Rightarrow> bool" where
  "stored r q g t =
     (case ls_claims r q of Some (Lease c, ex) \<Rightarrow> sc_ownerId c = g \<and> sc_fencingToken c = t | _ \<Rightarrow> False)"

definition known :: "lease_system \<Rightarrow> webhook_queue \<Rightarrow> worker_group \<Rightarrow> int \<Rightarrow> bool" where
  "known y q g t =
     (stored (ly_store y) q g t \<or> ly_local y g q = Some t \<or> Some (g, q, t) \<in> flight_token ` set (ly_flights y))"

definition lease_ok :: "lease_system \<Rightarrow> bool" where
  "lease_ok y =
     ((\<forall>q. 0 \<le> ls_fences (ly_store y) q) \<and>
      (\<forall>q g t. stored (ly_store y) q g t \<longrightarrow> t = ls_fences (ly_store y) q) \<and>
      (\<forall>q g t. known y q g t \<longrightarrow> 0 < t \<and> t \<le> ls_fences (ly_store y) q) \<and>
      (\<forall>q g g' t. known y q g t \<longrightarrow> known y q g' t \<longrightarrow> g = g'))"

lemma lease_okD:
  assumes "lease_ok y"
  shows "0 \<le> ls_fences (ly_store y) q"
    and "stored (ly_store y) q g t \<Longrightarrow> t = ls_fences (ly_store y) q"
    and "known y q g t \<Longrightarrow> 0 < t \<and> t \<le> ls_fences (ly_store y) q"
    and "known y q g t \<Longrightarrow> known y q g' t \<Longrightarrow> g = g'"
  using assms unfolding lease_ok_def by blast+

text \<open>A step that keeps the store and learns no token keeps the invariant.\<close>

lemma lease_ok_shrink:
  assumes "lease_ok y" "ly_store y' = ly_store y" "\<And>q g t. known y' q g t \<Longrightarrow> known y q g t"
  shows "lease_ok y'"
  using assms unfolding lease_ok_def by metis

lemma known_send:
  "known (send c y) q g t \<longleftrightarrow> known y q g t \<or> flight_token (Sent c) = Some (g, q, t)"
  by (auto simp: known_def send_def)

lemma send_ok:
  assumes "lease_ok y" "\<And>g q t. flight_token (Sent c) = Some (g, q, t) \<Longrightarrow> known y q g t"
  shows "lease_ok (send c y)"
  by (rule lease_ok_shrink [OF assms(1)]) (use assms(2) in \<open>auto simp: known_send\<close>, simp add: send_def)

lemma renew_sent_ok: "lease_ok y \<Longrightarrow> ly_local y g q = Some t \<Longrightarrow> lease_ok (renewClaim g q t nowMs y)"
  unfolding renewClaim_def by (rule send_ok) (auto simp: known_def)

lemma claim_sent_ok: "lease_ok y \<Longrightarrow> lease_ok (claimQueue g q nowMs y)"
  by (auto simp: claimQueue_def split: option.splits intro: renew_sent_ok send_ok)

lemma release_sent_ok: "lease_ok y \<Longrightarrow> lease_ok (releaseClaim g q y)"
  by (auto simp: releaseClaim_def known_def split: option.splits intro!: send_ok)

lemma known_subset_flights:
  "set fs \<subseteq> set (ly_flights y) \<Longrightarrow> known (y\<lparr>ly_flights := fs\<rparr>) q g t \<Longrightarrow> known y q g t"
  by (auto simp: known_def)

lemma take_drop_subset: "set (take i xs @ drop (Suc i) xs) \<subseteq> set xs"
  by (auto dest: in_set_takeD in_set_dropD)

lemma deliver_known:
  assumes "fst (deliver c a m) q = Some t"
  shows "m q = Some t \<or> flight_token (Ran c a) = Some (call_group c, q, t)"
  using assms
  by (cases "(c, a, m)" rule: deliver.cases)
     (auto simp: recordLocalClaim_def clearLocalClaim_def split: if_splits option.splits)

text \<open>What a script run does to one shard's lease and fence.\<close>

definition held_by_other :: "int \<Rightarrow> worker_group \<Rightarrow> webhook_queue \<Rightarrow> lease_store \<Rightarrow> bool" where
  "held_by_other redisNow g q r =
     (case get_claim redisNow q r of Some (Lease c) \<Rightarrow> sc_ownerId c \<noteq> g | _ \<Rightarrow> False)"

definition granted_store :: "int \<Rightarrow> worker_group \<Rightarrow> webhook_queue \<Rightarrow> int \<Rightarrow> int \<Rightarrow> lease_store \<Rightarrow> lease_store" where
  "granted_store redisNow g q nowMs ttlMs r =
     set_claim q
       (Some (Lease \<lparr>sc_ownerId = g, sc_fencingToken = ls_fences r q + 1, sc_claimedAtMs = nowMs,
                     sc_updatedAtMs = nowMs, sc_leaseUntilMs = nowMs + ttlMs\<rparr>, Some (redisNow + ttlMs)))
       (set_fence q (ls_fences r q + 1) r)"

lemma get_claim_stored:
  "get_claim redisNow q r = Some (Lease c) \<Longrightarrow> stored r q (sc_ownerId c) (sc_fencingToken c)"
  by (auto simp: get_claim_def key_alive_def stored_def split: option.splits if_splits)

lemma claim_script_store:
  assumes "\<And>g t. stored r q g t \<Longrightarrow> t = ls_fences r q" "0 \<le> ls_fences r q"
  shows "claim_script redisNow g q nowMs ttlMs r =
    (if held_by_other redisNow g q r then (r, None)
     else (granted_store redisNow g q nowMs ttlMs r, Some (ls_fences r q + 1)))"
proof -
  have "sc_fencingToken c = ls_fences r q" if "get_claim redisNow q r = Some (Lease c)" for c
    by (rule assms(1) [OF get_claim_stored [OF that]])
  then show ?thesis
    using assms(2)
    by (auto simp: claim_script_def held_by_other_def granted_store_def Let_def split: option.splits lease_value.splits)
qed

lemma granted_stored:
  "stored (granted_store redisNow g q nowMs ttlMs r) q' g' t' \<longleftrightarrow>
    (if q' = q then g' = g \<and> t' = ls_fences r q + 1 else stored r q' g' t')"
  by (auto simp: granted_store_def stored_def set_claim_def set_fence_def)

lemma granted_fences:
  "ls_fences (granted_store redisNow g q nowMs ttlMs r) = (ls_fences r)(q := ls_fences r q + 1)"
  by (simp add: granted_store_def set_claim_def set_fence_def)

lemma renew_script_store:
  assumes "renew_script redisNow g q t nowMs ttlMs r = (r1, n)"
  shows "ls_fences r1 = ls_fences r" "stored r1 q' g' t' \<Longrightarrow> stored r q' g' t'"
  using assms
  by (auto simp: renew_script_def set_claim_def stored_def get_claim_def key_alive_def
      split: option.splits lease_value.splits if_splits)

lemma release_script_store:
  assumes "release_script redisNow g q t r = (r1, n)"
  shows "ls_fences r1 = ls_fences r" "stored r1 q' g' t' \<Longrightarrow> stored r q' g' t'"
  using assms
  by (auto simp: release_script_def set_claim_def stored_def split: option.splits lease_value.splits if_splits)

text \<open>The tokens known after one flight was replaced.\<close>

lemma known_run:
  assumes "known (y\<lparr>ly_store := r1, ly_flights := (ly_flights y)[i := f]\<rparr>) q g t"
  shows "stored r1 q g t \<or> ly_local y g q = Some t \<or> Some (g, q, t) \<in> flight_token ` set (ly_flights y) \<or>
    flight_token f = Some (g, q, t)"
  using assms set_update_subset_insert [of "ly_flights y" i f] by (fastforce simp: known_def)

lemma run_keeps_tokens:
  assumes "lease_ok y" "i < length (ly_flights y)" "ly_flights y ! i = Sent c"
    and "ls_fences r1 = ls_fences (ly_store y)" "\<And>q g t. stored r1 q g t \<Longrightarrow> stored (ly_store y) q g t"
    and "flight_token (Ran c a) = flight_token (Sent c)"
  shows "lease_ok (y\<lparr>ly_store := r1, ly_flights := (ly_flights y)[i := Ran c a]\<rparr>)"
proof -
  let ?y = "y\<lparr>ly_store := r1, ly_flights := (ly_flights y)[i := Ran c a]\<rparr>"
  have mem: "Sent c \<in> set (ly_flights y)" using assms(2,3) nth_mem by metis
  have known: "known y q g t" if "known ?y q g t" for q g t
    using known_run [OF that] assms(5,6) mem unfolding known_def by (metis image_eqI)
  show ?thesis
    unfolding lease_ok_def using lease_okD [OF assms(1)] known assms(4,5) by simp blast
qed

lemma run_grants:
  assumes "lease_ok y" "i < length (ly_flights y)"
  shows "lease_ok (y\<lparr>ly_store := granted_store redisNow g q nowMs ttlMs (ly_store y),
    ly_flights := (ly_flights y)[i := Ran (Claim_Call g q nowMs) (Granted (Some (ls_fences (ly_store y) q + 1)))]\<rparr>)"
    (is "lease_ok ?y")
proof -
  let ?n = "ls_fences (ly_store y) q + 1"
  note okD = lease_okD [OF assms(1)]
  have known: "(q' = q \<and> g' = g \<and> t' = ?n) \<or> known y q' g' t'" if "known ?y q' g' t'" for q' g' t'
    using known_run [OF that] by (auto simp: granted_stored known_def split: if_splits)
  have old: "t' \<noteq> ?n" if "known y q g' t'" for g' t'
    using okD(3) [OF that] by auto
  show ?thesis
    unfolding lease_ok_def
  proof (intro conjI allI impI)
    show "0 \<le> ls_fences (ly_store ?y) q'" for q'
      using okD(1) [of q'] okD(1) [of q] by (simp add: granted_fences)
    show "t' = ls_fences (ly_store ?y) q'" if "stored (ly_store ?y) q' g' t'" for q' g' t'
      using that okD(2) by (auto simp: granted_stored granted_fences split: if_splits)
    show "0 < t'" if "known ?y q' g' t'" for q' g' t'
      using known [OF that] okD(3) [of q' g' t'] okD(1) [of q] by auto
    show "t' \<le> ls_fences (ly_store ?y) q'" if "known ?y q' g' t'" for q' g' t'
      using known [OF that] okD(3) [of q' g' t'] by (auto simp: granted_fences)
    show "g1 = g2" if "known ?y q' g1 t'" "known ?y q' g2 t'" for q' g1 g2 t'
      using known [OF that(1)] known [OF that(2)] old okD(4) by blast
  qed
qed

lemma run_ok:
  assumes "lease_ok y" "i < length (ly_flights y)" "ly_flights y ! i = Sent c"
    and "run_call redisNow ttlMs c (ly_store y) = (r1, a)"
  shows "lease_ok (y\<lparr>ly_store := r1, ly_flights := (ly_flights y)[i := Ran c a]\<rparr>)"
proof (cases c)
  case (Claim_Call g q nowMs)
  have eq: "claim_script redisNow g q nowMs ttlMs (ly_store y) =
      (if held_by_other redisNow g q (ly_store y) then (ly_store y, None)
       else (granted_store redisNow g q nowMs ttlMs (ly_store y), Some (ls_fences (ly_store y) q + 1)))"
    by (rule claim_script_store) (auto intro: lease_okD [OF assms(1)])
  show ?thesis
  proof (cases "held_by_other redisNow g q (ly_store y)")
    case True
    then have "r1 = ly_store y" "a = Granted None" using assms(4) eq Claim_Call by (simp_all add: run_call_def)
    then show ?thesis
      using run_keeps_tokens [OF assms(1-3), of "ly_store y" "Granted None"] Claim_Call by simp
  next
    case False
    then show ?thesis
      using run_grants [OF assms(1,2)] assms(4) eq Claim_Call by (auto simp: run_call_def)
  qed
next
  case (Renew_Call g q t nowMs)
  then obtain n where "renew_script redisNow g q t nowMs ttlMs (ly_store y) = (r1, n)" "a = Answered n"
    using assms(4) by (auto simp: run_call_def split: prod.splits)
  with Renew_Call show ?thesis
    using run_keeps_tokens [OF assms(1-3)] renew_script_store by auto
next
  case (Release_Call g q t)
  then obtain n where "release_script redisNow g q t (ly_store y) = (r1, n)" "a = Answered n"
    using assms(4) by (auto simp: run_call_def split: prod.splits)
  with Release_Call show ?thesis
    using run_keeps_tokens [OF assms(1-3)] release_script_store by auto
qed

lemma arrive_ok:
  assumes "lease_ok y" "i < length (ly_flights y)" "ly_flights y ! i = Ran c a"
  shows "lease_ok (y\<lparr>ly_local := (ly_local y)(call_group c := fst (deliver c a (ly_local y (call_group c)))),
                     ly_flights := take i (ly_flights y) @ drop (Suc i) (ly_flights y)\<rparr>)"
proof (rule lease_ok_shrink [OF assms(1)])
  fix q g t
  assume "known (y\<lparr>ly_local := (ly_local y)(call_group c := fst (deliver c a (ly_local y (call_group c)))),
                     ly_flights := take i (ly_flights y) @ drop (Suc i) (ly_flights y)\<rparr>) q g t"
  then consider "stored (ly_store y) q g t" | "g \<noteq> call_group c" "ly_local y g q = Some t"
    | "g = call_group c" "fst (deliver c a (ly_local y (call_group c))) q = Some t"
    | "Some (g, q, t) \<in> flight_token ` set (take i (ly_flights y) @ drop (Suc i) (ly_flights y))"
    by (auto simp: known_def split: if_splits)
  then show "known y q g t"
  proof cases
    case 3
    have "Ran c a \<in> set (ly_flights y)" using assms(2,3) nth_mem by metis
    then show ?thesis using deliver_known [OF 3(2)] 3(1) unfolding known_def by (metis image_eqI)
  next
    case 4
    then show ?thesis using take_drop_subset [of i "ly_flights y"] by (auto simp: known_def)
  qed (simp_all add: known_def)
qed simp

lemma lease_ok_step: "lease_step y y' \<Longrightarrow> lease_ok y \<Longrightarrow> lease_ok y'"
proof (induction rule: lease_step.induct)
  case (lose i y)
  show ?case
    by (rule lease_ok_shrink [OF lose.prems]) (use take_drop_subset [of i "ly_flights y"] in \<open>auto simp: known_def\<close>)
next
  case (stop y g)
  show ?case by (rule lease_ok_shrink [OF stop.prems]) (auto simp: known_def)
next
  case (restart y g)
  show ?case by (rule lease_ok_shrink [OF restart.prems]) (auto simp: known_def split: if_splits)
qed (auto intro: claim_sent_ok renew_sent_ok release_sent_ok run_ok arrive_ok)

lemma lease_ok_reachable: "lease_step\<^sup>*\<^sup>* y y' \<Longrightarrow> lease_ok y \<Longrightarrow> lease_ok y'"
  by (induction rule: rtranclp_induct) (auto intro: lease_ok_step)

text \<open>Nobody holds anything: the store has no readable lease, the groups know of none.\<close>

definition fresh_system :: "lease_system \<Rightarrow> bool" where
  "fresh_system y =
     ((\<forall>q. 0 \<le> ls_fences (ly_store y) q) \<and>
      (\<forall>q. \<forall>c ex. ls_claims (ly_store y) q \<noteq> Some (Lease c, ex)) \<and>
      (\<forall>g q. ly_local y g q = None) \<and> ly_flights y = [])"

lemma fresh_ok: "fresh_system y \<Longrightarrow> lease_ok y"
  by (auto simp: fresh_system_def lease_ok_def known_def stored_def split: option.splits lease_value.splits)

section \<open>Properties of the lease protocol\<close>

text \<open>
  C1: At most one group can believe truthfully that it holds a shard: in every reachable state, with
  calls delayed, reordered and lost and groups restarting, no two groups have the same token for
  a shard, and if Redis holds a lease its token is the largest of all and belongs to its owner.
\<close>

theorem one_holder_per_token:
  assumes "fresh_system y0" "lease_step\<^sup>*\<^sup>* y0 y" "ly_local y g q = Some t"
  shows "0 < t \<and> (ly_local y g' q = Some t \<longrightarrow> g' = g) \<and>
    (\<forall>c ex. ls_claims (ly_store y) q = Some (Lease c, ex) \<longrightarrow>
       t \<le> sc_fencingToken c \<and> (t = sc_fencingToken c \<longrightarrow> sc_ownerId c = g))"
proof -
  have ok: "lease_ok y" by (rule lease_ok_reachable [OF assms(2) fresh_ok [OF assms(1)]])
  have t: "known y q g t" using assms(3) by (simp add: known_def)
  have "t \<le> sc_fencingToken c \<and> (t = sc_fencingToken c \<longrightarrow> sc_ownerId c = g)"
    if "ls_claims (ly_store y) q = Some (Lease c, ex)" for c ex
  proof -
    have st: "stored (ly_store y) q (sc_ownerId c) (sc_fencingToken c)" using that by (simp add: stored_def)
    then have "known y q (sc_ownerId c) (sc_fencingToken c)" by (simp add: known_def)
    then show ?thesis
      using lease_okD(2) [OF ok st] lease_okD(3) [OF ok t] lease_okD(4) [OF ok _ t] by auto
  qed
  moreover have "g' = g" if "ly_local y g' q = Some t"
    using lease_okD(4) [OF ok _ t, of g'] that by (simp add: known_def)
  ultimately show ?thesis using lease_okD(3) [OF ok t] by blast
qed

definition idle_system :: lease_system where
  "idle_system =
     \<lparr>ly_store = \<lparr>ls_claims = (\<lambda>_. None), ls_fences = (\<lambda>_. 0)\<rparr>, ly_local = (\<lambda>_ _. None),
      ly_stopping = (\<lambda>_. False), ly_flights = []\<rparr>"

lemma idle_fresh: "fresh_system idle_system"
  by (simp add: fresh_system_def idle_system_def)

theorem one_holder_per_token_witness:
  "\<exists>y. lease_step\<^sup>*\<^sup>* idle_system y \<and> ly_local y Group_A (Default_Queue 0) = Some 1 \<and>
     ly_local y Realtime_B (Default_Queue 0) \<noteq> Some 1"
proof -
  let ?q = "Default_Queue 0" and ?c = "Claim_Call Group_A (Default_Queue 0) 5"
  let ?y1 = "claimQueue Group_A ?q 5 idle_system"
  let ?r = "run_call 7 100 ?c (ly_store ?y1)"
  let ?y2 = "?y1\<lparr>ly_store := fst ?r, ly_flights := (ly_flights ?y1)[0 := Ran ?c (snd ?r)]\<rparr>"
  let ?y3 = "?y2\<lparr>ly_local := (ly_local ?y2)(Group_A := fst (deliver ?c (snd ?r) (ly_local ?y2 Group_A))),
      ly_flights := take 0 (ly_flights ?y2) @ drop (Suc 0) (ly_flights ?y2)\<rparr>"
  have fl: "ly_flights ?y1 = [Sent ?c]"
    by (simp add: claimQueue_def idle_system_def send_def)
  have s1: "lease_step idle_system ?y1" by (rule lease_step.claim)
  have s2: "lease_step ?y1 ?y2" by (rule lease_step.run) (simp_all add: fl)
  have s3: "lease_step ?y2 ?y3" using lease_step.arrive [of 0 ?y2 ?c "snd ?r"] fl by simp
  have reach: "lease_step\<^sup>*\<^sup>* idle_system ?y3"
    using s1 s2 s3 by (meson rtranclp.rtrancl_refl rtranclp.rtrancl_into_rtrancl)
  have "ly_local ?y3 Group_A ?q = Some 1"
    by (simp add: claimQueue_def idle_system_def send_def run_call_def claim_script_def get_claim_def key_alive_def
        set_claim_def set_fence_def recordLocalClaim_def MAX_SAFE_TOKEN_def Let_def)
  from one_holder_per_token [OF idle_fresh reach this] reach this show ?thesis by blast
qed

text \<open>
  A live lease is never taken: whatever script runs, a lease that can be read keeps its owner
  and never gets a smaller token, and it disappears only by its owner's release with its own token.
  A call with a token that is not the lease's leaves it untouched.
\<close>

theorem live_lease_protected:
  "case get_claim redisNow q r of
     Some (Lease c) \<Rightarrow>
       (case ls_claims (fst (run_call redisNow ttlMs call r)) q of
          Some (Lease c', ex) \<Rightarrow> sc_ownerId c' = sc_ownerId c \<and> sc_fencingToken c \<le> sc_fencingToken c' \<and>
            (if sc_fencingToken c' = sc_fencingToken c then sc_claimedAtMs c' = sc_claimedAtMs c
             else \<exists>nowMs. call = Claim_Call (sc_ownerId c) q nowMs)
        | _ \<Rightarrow> call = Release_Call (sc_ownerId c) q (sc_fencingToken c))
   | _ \<Rightarrow> True"
proof (cases "get_claim redisNow q r")
  case (Some v)
  show ?thesis
  proof (cases v)
    case (Lease c)
    then obtain ex where key: "ls_claims r q = Some (Lease c, ex)"
      using Some by (auto simp: get_claim_def key_alive_def split: option.splits if_splits)
    show ?thesis
    proof (cases call)
      case (Claim_Call g q' nowMs)
      then show ?thesis
        using Some Lease key
        by (cases "q' = q") (auto simp: run_call_def claim_script_def set_claim_def set_fence_def Let_def case_prod_unfold)
    next
      case (Renew_Call g q' t nowMs)
      then show ?thesis
        using Some Lease key
        by (cases "q' = q")
           (auto simp: run_call_def renew_script_def set_claim_def case_prod_unfold split: option.splits lease_value.splits)
    next
      case (Release_Call g q' t)
      then show ?thesis
        using Some Lease key
        by (cases "q' = q")
           (auto simp: run_call_def release_script_def set_claim_def case_prod_unfold split: option.splits lease_value.splits)
    qed
  qed (use Some in simp)
qed simp

text \<open>An answer that arrives while Redis still has the lease it speaks of is recorded, however late it is.\<close>

lemma late_answer_recorded:
  assumes "lease_ok z" "Ran (Claim_Call g q nowMs) (Granted (Some t)) \<in> set (ly_flights z)"
    and "get_claim later q (ly_store z) = Some (Lease c)" "sc_fencingToken c = t"
    and "m = fst (deliver (Claim_Call g q nowMs) (Granted (Some t)) (ly_local z g))" "t \<le> MAX_SAFE_TOKEN"
  shows "hasLocalClaim g q (Some c) m"
proof -
  have mine: "known z q g t"
    using assms(2) unfolding known_def by (force intro: image_eqI [where x = "Ran (Claim_Call g q nowMs) (Granted (Some t))"])
  have st: "stored (ly_store z) q (sc_ownerId c) t"
    using get_claim_stored [OF assms(3)] assms(4) by simp
  then have "sc_ownerId c = g"
    using lease_okD(4) [OF assms(1) _ mine] by (simp add: known_def)
  moreover have "t' \<le> t" if "ly_local z g q = Some t'" for t'
    using lease_okD(2) [OF assms(1) st] lease_okD(3) [OF assms(1), of q g t'] that by (simp add: known_def)
  moreover have "0 < t" using lease_okD(3) [OF assms(1) mine] by simp
  ultimately show ?thesis
    using assms(4,5,6) by (auto simp: hasLocalClaim_def recordLocalClaim_def split: option.splits)
qed

text \<open>
  C39: An abandoned shard is taken over.  In any state the protocol can reach, while the fence counter of the
  shard is below the largest safe integer, a claim whose script runs when Redis has no readable live lease of the
  shard (expired, released, never written or unreadable) is granted a token that is positive and larger than every
  token anybody had before, and Redis then holds the lease of the claiming group with that token.  The answer may be
  delayed: whatever the groups do, whatever scripts run and whatever answers come or get lost meanwhile, if the
  answer still arrives (the group has not restarted) and Redis still has the lease with that token, the group then
  holds the shard by its own record.  Nothing is claimed of an answer that comes after its lease was lost.
\<close>

theorem abandoned_lease_is_granted:
  assumes "fresh_system y0" "lease_step\<^sup>*\<^sup>* y0 y"
    and "i < length (ly_flights y)" "ly_flights y ! i = Sent (Claim_Call g q nowMs)"
    and "\<forall>c. get_claim redisNow q (ly_store y) \<noteq> Some (Lease c)"
    and "ls_fences (ly_store y) q < MAX_SAFE_TOKEN" "0 < ttlMs"
    and "run_call redisNow ttlMs (Claim_Call g q nowMs) (ly_store y) = (r1, a)"
    and "lease_step\<^sup>*\<^sup>* (y\<lparr>ly_store := r1, ly_flights := (ly_flights y)[i := Ran (Claim_Call g q nowMs) a]\<rparr>) z"
    and "j < length (ly_flights z)" "ly_flights z ! j = Ran (Claim_Call g q nowMs) a"
    and "z' = z\<lparr>ly_local := (ly_local z)(g := fst (deliver (Claim_Call g q nowMs) a (ly_local z g))),
                ly_flights := take j (ly_flights z) @ drop (Suc j) (ly_flights z)\<rparr>"
  shows "\<exists>t. a = Granted (Some t) \<and> 0 < t \<and> (\<forall>g' t'. known y q g' t' \<longrightarrow> t' < t) \<and>
    (\<exists>c. get_claim redisNow q r1 = Some (Lease c) \<and> sc_ownerId c = g \<and> sc_fencingToken c = t) \<and>
    lease_step z z' \<and>
    (\<forall>later c. get_claim later q (ly_store z') = Some (Lease c) \<longrightarrow> sc_fencingToken c = t \<longrightarrow>
       hasLocalClaim g q (Some c) (ly_local z' g))"
proof -
  let ?n = "ls_fences (ly_store y) q + 1" and ?call = "Claim_Call g q nowMs"
  have ok: "lease_ok y" by (rule lease_ok_reachable [OF assms(2) fresh_ok [OF assms(1)]])
  have "\<not> held_by_other redisNow g q (ly_store y)"
    using assms(5) by (auto simp: held_by_other_def split: option.splits lease_value.splits)
  then have eq: "r1 = granted_store redisNow g q nowMs ttlMs (ly_store y)" "a = Granted (Some ?n)"
    using claim_script_store [of "ly_store y" q redisNow g nowMs ttlMs] lease_okD(1,2) [OF ok] assms(8)
    by (auto simp: run_call_def)
  have pos: "0 < ?n" using lease_okD(1) [OF ok, of q] by simp
  have greater: "\<forall>g' t'. known y q g' t' \<longrightarrow> t' < ?n" using lease_okD(3) [OF ok] by fastforce
  have granted: "\<exists>c. get_claim redisNow q r1 = Some (Lease c) \<and> sc_ownerId c = g \<and> sc_fencingToken c = ?n"
    using assms(7) unfolding eq by (simp add: granted_store_def get_claim_def key_alive_def set_claim_def set_fence_def)
  have okz: "lease_ok z"
    by (rule lease_ok_reachable [OF assms(9) run_ok [OF ok assms(3,4,8)]])
  have mem: "Ran ?call a \<in> set (ly_flights z)" using nth_mem [OF assms(10)] assms(11) by simp
  have step: "lease_step z z'"
    using lease_step.arrive [OF assms(10,11)] unfolding assms(12) by simp
  have "hasLocalClaim g q (Some c) (ly_local z' g)"
    if "get_claim later q (ly_store z') = Some (Lease c)" "sc_fencingToken c = ?n" for later c
    by (rule late_answer_recorded [OF okz mem [unfolded eq(2)] _ that(2)])
       (use that assms(6,12) pos eq(2) in \<open>auto simp: MAX_SAFE_TOKEN_def\<close>)
  then show ?thesis using eq(2) pos greater granted step by blast
qed

theorem abandoned_lease_is_granted_witness:
  "\<exists>z c. lease_step\<^sup>*\<^sup>* idle_system z \<and> get_claim 8 (Default_Queue 2) (ly_store z) = Some (Lease c) \<and>
     hasLocalClaim Realtime_C (Default_Queue 2) (Some c) (ly_local z Realtime_C)"
proof -
  let ?q = "Default_Queue 2" and ?c = "Claim_Call Realtime_C (Default_Queue 2) 5"
  let ?y = "claimQueue Realtime_C ?q 5 idle_system"
  let ?r = "run_call 7 100 ?c (ly_store ?y)"
  let ?y1 = "?y\<lparr>ly_store := fst ?r, ly_flights := (ly_flights ?y)[0 := Ran ?c (snd ?r)]\<rparr>"
  let ?z = "claimQueue Group_A ?q 6 ?y1"
  let ?z' = "?z\<lparr>ly_local := (ly_local ?z)(Realtime_C := fst (deliver ?c (snd ?r) (ly_local ?z Realtime_C))),
      ly_flights := take 0 (ly_flights ?z) @ drop (Suc 0) (ly_flights ?z)\<rparr>"
  have fl: "ly_flights ?y = [Sent ?c]" by (simp add: claimQueue_def idle_system_def send_def)
  have free: "\<forall>c. get_claim 7 ?q (ly_store ?y) \<noteq> Some (Lease c)" "ls_fences (ly_store ?y) ?q < MAX_SAFE_TOKEN"
    by (simp_all add: claimQueue_def send_def idle_system_def get_claim_def key_alive_def MAX_SAFE_TOKEN_def)
  have flz: "0 < length (ly_flights ?z)" "ly_flights ?z ! 0 = Ran ?c (snd ?r)"
    by (simp_all add: claimQueue_def idle_system_def send_def)
  have reach: "lease_step\<^sup>*\<^sup>* idle_system ?y" by (blast intro: lease_step.claim)
  have s1: "lease_step ?y ?y1" by (rule lease_step.run) (simp_all add: fl)
  have s2: "lease_step ?y1 ?z" by (rule lease_step.claim)
  have later: "lease_step\<^sup>*\<^sup>* ?y1 ?z" using s2 by (rule r_into_rtranclp)
  have sent: "0 < length (ly_flights ?y)" "ly_flights ?y ! 0 = Sent ?c" by (simp_all add: fl)
  have run: "run_call 7 100 ?c (ly_store ?y) = (fst ?r, snd ?r)" by simp
  obtain t where "lease_step ?z ?z'"
    "\<forall>later c. get_claim later ?q (ly_store ?z') = Some (Lease c) \<longrightarrow> sc_fencingToken c = t \<longrightarrow>
       hasLocalClaim Realtime_C ?q (Some c) (ly_local ?z' Realtime_C)" "snd ?r = Granted (Some t)"
    using abandoned_lease_is_granted [OF idle_fresh reach sent free zero_less_numeral run later flz refl] by blast
  moreover have "get_claim 8 ?q (ly_store ?z') =
      Some (Lease \<lparr>sc_ownerId = Realtime_C, sc_fencingToken = 1, sc_claimedAtMs = 5, sc_updatedAtMs = 5, sc_leaseUntilMs = 105\<rparr>)"
    "snd ?r = Granted (Some 1)"
    by (simp_all add: claimQueue_def idle_system_def send_def run_call_def claim_script_def get_claim_def key_alive_def
        set_claim_def set_fence_def Let_def)
  ultimately have "hasLocalClaim Realtime_C ?q
      (Some \<lparr>sc_ownerId = Realtime_C, sc_fencingToken = 1, sc_claimedAtMs = 5, sc_updatedAtMs = 5, sc_leaseUntilMs = 105\<rparr>)
      (ly_local ?z' Realtime_C)" by (metis call_answer.inject(1) lease_claim.select_convs(2) option.inject)
  then show ?thesis
    using reach s1 s2 \<open>lease_step ?z ?z'\<close> \<open>get_claim 8 ?q (ly_store ?z') = _\<close> by (meson rtranclp.rtrancl_into_rtrancl)
qed

end
