(* ===== verification/Lease_Worker.thy ===== *)
theory Lease_Worker
  imports Lease_Manager
begin

text \<open>
  \<^verbatim>\<open>apps/api/src/moderation/default-webhook-lease-manager.service.ts\<close>, the part
  above the lease protocol: what a group decides about each shard from the plan, and the life of
  the workers it runs.

  \<^item> A worker is a numbered instance; whether the queue library still runs it is an argument.
  \<^item> Closing waits: it begins, and ends with the worker closed or with a time-out; after a time-out
    the close may still complete later.
  \<^item> Reading the clock is an argument.  Metrics and the system mode are inputs of the plan.
\<close>

section \<open>What a group reads\<close>

definition loadClaims :: "int \<Rightarrow> int \<Rightarrow> lease_store \<Rightarrow> webhook_queue \<Rightarrow> lease_claim option" where
  "loadClaims nowMs redisNow r q =
     (case get_claim redisNow q r of
        Some (Lease c) \<Rightarrow> if sc_leaseUntilMs c > nowMs then Some c else None
      | _ \<Rightarrow> None)"

record handoff =
  ho_fromOwnerId :: worker_group
  ho_toOwnerId :: worker_group
  ho_issuedAtMs :: int
  ho_expiresAtMs :: int

definition loadHandoffs :: "int \<Rightarrow> (webhook_queue \<Rightarrow> handoff option) \<Rightarrow> webhook_queue \<Rightarrow> handoff option" where
  "loadHandoffs nowMs stored_handoffs q =
     (case stored_handoffs q of
        Some h \<Rightarrow> if ho_expiresAtMs h > nowMs then Some h else None
      | None \<Rightarrow> None)"

text \<open>\<open>None\<close> when the pipeline answered nothing.\<close>

definition loadAliveWorkerGroups :: "(worker_group \<Rightarrow> bool) option \<Rightarrow> worker_group set" where
  "loadAliveWorkerGroups heartbeats =
     (case heartbeats of
        None \<Rightarrow> set DEFAULT_WEBHOOK_WORKER_GROUP_NAMES
      | Some beats \<Rightarrow>
          (let aliveGroups = set (filter beats DEFAULT_WEBHOOK_WORKER_GROUP_NAMES)
           in if aliveGroups \<noteq> {} then aliveGroups else set DEFAULT_WEBHOOK_WORKER_GROUP_NAMES))"

definition issueHandoff :: "int \<Rightarrow> int \<Rightarrow> worker_group \<Rightarrow> worker_group \<Rightarrow> handoff" where
  "issueHandoff nowMs handoffTtlMs fromOwnerId toOwnerId =
     \<lparr>ho_fromOwnerId = fromOwnerId, ho_toOwnerId = toOwnerId, ho_issuedAtMs = nowMs,
      ho_expiresAtMs = nowMs + handoffTtlMs\<rparr>"

section \<open>Workers\<close>

record shard_workers =
  sw_workers :: "webhook_queue \<Rightarrow> nat option"
  sw_closing :: "webhook_queue \<Rightarrow> nat option"
  sw_closeRetry :: "webhook_queue \<Rightarrow> int option"
  sw_stopping :: bool
  sw_next :: nat
  sw_close_called :: "nat set"

definition no_workers :: shard_workers where
  "no_workers =
     \<lparr>sw_workers = (\<lambda>_. None), sw_closing = (\<lambda>_. None), sw_closeRetry = (\<lambda>_. None), sw_stopping = False,
      sw_next = 0, sw_close_called = {}\<rparr>"

definition isCloseRetryCoolingDown :: "webhook_queue \<Rightarrow> int \<Rightarrow> shard_workers \<Rightarrow> shard_workers \<times> bool" where
  "isCloseRetryCoolingDown q nowMs s =
     (case sw_closeRetry s q of
        None \<Rightarrow> (s, False)
      | Some retryNotBeforeMs \<Rightarrow>
          if retryNotBeforeMs \<le> nowMs then (s\<lparr>sw_closeRetry := (sw_closeRetry s)(q := None)\<rparr>, False)
          else (s, True))"

definition hasTimedOutCloseReadyForRecycle :: "webhook_queue \<Rightarrow> int \<Rightarrow> shard_workers \<Rightarrow> bool" where
  "hasTimedOutCloseReadyForRecycle q nowMs s =
     (case sw_closeRetry s q of None \<Rightarrow> False | Some retryNotBeforeMs \<Rightarrow> retryNotBeforeMs \<le> nowMs)"

definition shouldRecycleStaleWorker :: "webhook_queue \<Rightarrow> bool \<Rightarrow> lease_counters option \<Rightarrow> int \<Rightarrow> shard_workers \<Rightarrow> bool" where
  "shouldRecycleStaleWorker q running counters nowMs s =
     (if sw_closing s q \<noteq> None then False
      else
        (let hasBacklog = (case counters of
               Some c \<Rightarrow> lc_waiting c + lc_prioritized c + lc_delayed c > 0 | None \<Rightarrow> False);
             active = (case counters of Some c \<Rightarrow> lc_active c | None \<Rightarrow> 0)
         in if \<not> hasBacklog \<or> active > 0 then False
            else if \<not> running then True
            else hasTimedOutCloseReadyForRecycle q nowMs s))"

definition start_worker :: "webhook_queue \<Rightarrow> shard_workers \<Rightarrow> shard_workers" where
  "start_worker q s = s\<lparr>sw_workers := (sw_workers s)(q \<mapsto> sw_next s), sw_next := Suc (sw_next s)\<rparr>"

definition ensureWorkerRunning :: "webhook_queue \<Rightarrow> bool \<Rightarrow> lease_counters option \<Rightarrow> int \<Rightarrow> shard_workers \<Rightarrow> shard_workers" where
  "ensureWorkerRunning q running counters nowMs s =
     (if sw_stopping s then s
      else
        (case sw_workers s q of
           Some existing \<Rightarrow>
             if \<not> shouldRecycleStaleWorker q running counters nowMs s then s
             else start_worker q
               (s\<lparr>sw_workers := (sw_workers s)(q := None), sw_closeRetry := (sw_closeRetry s)(q := None),
                  sw_close_called := insert existing (sw_close_called s)\<rparr>)
         | None \<Rightarrow> start_worker q s))"

datatype close_result = Closed | Timed_Out | Skipped

text \<open>The part of \<^verbatim>\<open>closeWorker\<close> before the wait; \<open>True\<close> when it waits.\<close>

definition close_begin :: "webhook_queue \<Rightarrow> shard_workers \<Rightarrow> shard_workers \<times> bool" where
  "close_begin q s =
     (if sw_stopping s then (s, False)
      else
        (case sw_workers s q of
           None \<Rightarrow> (s, False)
         | Some worker \<Rightarrow>
             if sw_closing s q \<noteq> None then (s, False)
             else (s\<lparr>sw_closing := (sw_closing s)(q \<mapsto> worker),
                     sw_close_called := insert worker (sw_close_called s)\<rparr>, True)))"

text \<open>The part after the wait, with \<open>closed\<close> when the close completed within the time-out.\<close>

definition close_end :: "webhook_queue \<Rightarrow> bool \<Rightarrow> int \<Rightarrow> int \<Rightarrow> shard_workers \<Rightarrow> shard_workers \<times> close_result" where
  "close_end q closed nowMs rebalanceCooldownMs s =
     (if closed then
        (s\<lparr>sw_workers := (sw_workers s)(q := None), sw_closeRetry := (sw_closeRetry s)(q := None),
           sw_closing := (sw_closing s)(q := None)\<rparr>, Closed)
      else
        (s\<lparr>sw_closeRetry := (sw_closeRetry s)(q \<mapsto> nowMs + rebalanceCooldownMs),
           sw_closing := (sw_closing s)(q := None)\<rparr>, Timed_Out))"

text \<open>The close of \<open>worker\<close> completes after its time-out.\<close>

definition late_close :: "webhook_queue \<Rightarrow> nat \<Rightarrow> shard_workers \<Rightarrow> shard_workers" where
  "late_close q worker s =
     (if sw_workers s q = Some worker
      then s\<lparr>sw_workers := (sw_workers s)(q := None), sw_closeRetry := (sw_closeRetry s)(q := None)\<rparr>
      else s)"

definition stopWorkerAdmission :: "shard_workers \<Rightarrow> shard_workers" where
  "stopWorkerAdmission s = s\<lparr>sw_stopping := True\<rparr>"

section \<open>Decisions\<close>

definition isDynamicQueue :: "leases_mode \<Rightarrow> webhook_queue set \<Rightarrow> webhook_queue \<Rightarrow> bool" where
  "isDynamicQueue mode canaryQueues q = (mode = Leases_On \<or> (mode = Leases_Canary \<and> q \<in> canaryQueues))"

text \<open>\<^verbatim>\<open>renewLocalClaims\<close>: whether the claim of a shard is renewed.\<close>

definition renews :: "leases_mode \<Rightarrow> webhook_queue set \<Rightarrow> shard_workers \<Rightarrow> webhook_queue \<Rightarrow> bool" where
  "renews mode canaryQueues s q =
     (sw_workers s q \<noteq> None \<and> isDynamicQueue mode canaryQueues q \<and> sw_closing s q = None)"

definition bootstraps :: "leases_mode \<Rightarrow> webhook_queue set \<Rightarrow> (webhook_queue \<Rightarrow> lease_claim option) \<Rightarrow>
    (webhook_queue \<Rightarrow> handoff option) \<Rightarrow> webhook_queue \<Rightarrow> bool" where
  "bootstraps mode canaryQueues claims handoffs q =
     (isDynamicQueue mode canaryQueues q \<and> claims q = None \<and> handoffs q = None)"

datatype shard_action = Leave_Alone | Run_Home | Keep_Running | Hand_Over worker_group | Try_Claim

text \<open>
  One turn of the loop of \<^verbatim>\<open>applyDynamicPlan\<close>, up to its first wait.  \<open>nowMs\<close> is
  read for the expiry of the claim, which was checked once when it was loaded.
\<close>

definition shard_decision ::
    "worker_group \<Rightarrow> worker_group set \<Rightarrow> int \<Rightarrow> plan_entry \<Rightarrow> webhook_queue \<Rightarrow> lease_claim option \<Rightarrow> handoff option \<Rightarrow>
     local_claims \<Rightarrow> bool \<Rightarrow> shard_action" where
  "shard_decision g alive nowMs entry q currentClaim currentHandoff local coolingDown =
     (if \<not> pe_eligible entry then (if pe_homeOwner entry = g then Run_Home else Leave_Alone)
      else
        (let currentOwner = (case currentClaim of Some c \<Rightarrow> sc_ownerId c | None \<Rightarrow> pe_homeOwner entry) in
         if currentOwner = g \<and> pe_desiredOwner entry \<noteq> g then
           (if \<not> hasLocalClaim g q currentClaim local then Leave_Alone
            else if pe_activeJobs entry > 0 \<or> coolingDown then Keep_Running
            else Hand_Over (pe_desiredOwner entry))
         else if pe_desiredOwner entry \<noteq> g then Leave_Alone
         else
           (let homeOwnerAlive = pe_homeOwner entry \<in> alive;
                claimExpired = (case currentClaim of Some c \<Rightarrow> sc_leaseUntilMs c \<le> nowMs | None \<Rightarrow> False);
                canClaim =
                  (case currentClaim of Some c \<Rightarrow> sc_ownerId c = g | None \<Rightarrow> False) \<or> claimExpired \<or>
                  (case currentHandoff of Some h \<Rightarrow> ho_toOwnerId h = g | None \<Rightarrow> False) \<or>
                  (currentClaim = None \<and> pe_homeOwner entry = g) \<or>
                  (currentClaim = None \<and> \<not> homeOwnerAlive)
            in if canClaim then Try_Claim else Leave_Alone)))"

text \<open>The plan a group computes from what it has read.\<close>

definition plan_input ::
    "leases_mode \<Rightarrow> webhook_queue set \<Rightarrow> worker_group set \<Rightarrow> (webhook_queue \<Rightarrow> lease_claim option) \<Rightarrow>
     (webhook_queue \<Rightarrow> int option) \<Rightarrow> (webhook_queue \<Rightarrow> lease_counters) \<Rightarrow> int \<Rightarrow> bool \<Rightarrow> lease_plan_input" where
  "plan_input mode canaryQueues alive claims lastHandoffAtMs counters rebalanceCooldownMs suppressRebalance =
     \<lparr>lp_mode = mode, lp_canaryQueues = Some canaryQueues, lp_aliveWorkerGroups = Some alive,
      lp_claimedOwners = (\<lambda>q. map_option sc_ownerId (claims q)), lp_lastHandoffAtMs = lastHandoffAtMs,
      lp_queueCounters = counters, lp_rebalanceCooldownMs = rebalanceCooldownMs,
      lp_suppressRebalance = suppressRebalance\<rparr>"

section \<open>Workers are never lost\<close>

datatype worker_event =
    Ensure webhook_queue bool "lease_counters option" int
  | Close_Begin webhook_queue
  | Close_End webhook_queue bool int int
  | Late_Close webhook_queue nat
  | Check_Cooldown webhook_queue int
  | Stop_Admission

fun worker_step :: "shard_workers \<Rightarrow> worker_event \<Rightarrow> shard_workers" where
  "worker_step s (Ensure q running counters nowMs) = ensureWorkerRunning q running counters nowMs s"
| "worker_step s (Close_Begin q) = fst (close_begin q s)"
| "worker_step s (Close_End q closed nowMs cooldown) = fst (close_end q closed nowMs cooldown s)"
| "worker_step s (Late_Close q worker) = late_close q worker s"
| "worker_step s (Check_Cooldown q nowMs) = fst (isCloseRetryCoolingDown q nowMs s)"
| "worker_step s Stop_Admission = stopWorkerAdmission s"

text \<open>
  One synchronisation runs at a time and waits for its closes, so nothing is started or closed while
  a close waits.  A wait ends only where one began, and a late completion belongs to a close that
  was called.
\<close>

fun worker_guard :: "shard_workers \<Rightarrow> worker_event \<Rightarrow> bool" where
  "worker_guard s (Ensure q running counters nowMs) = (sw_closing s q = None)"
| "worker_guard s (Close_End q closed nowMs cooldown) = (sw_closing s q \<noteq> None)"
| "worker_guard s (Late_Close q worker) = (worker \<in> sw_close_called s)"
| "worker_guard s _ = True"

definition workers_ok :: "shard_workers \<Rightarrow> bool" where
  "workers_ok s =
     ((\<forall>q w. sw_workers s q = Some w \<longrightarrow> w < sw_next s) \<and>
      (\<forall>q q' w. sw_workers s q = Some w \<longrightarrow> sw_workers s q' = Some w \<longrightarrow> q = q') \<and>
      (\<forall>q w. sw_closing s q = Some w \<longrightarrow> w \<in> sw_close_called s \<and> (sw_workers s q = Some w \<or> sw_workers s q = None)) \<and>
      (\<forall>w. w < sw_next s \<longrightarrow> w \<in> sw_close_called s \<or> (\<exists>q. sw_workers s q = Some w)))"

lemma workers_okI:
  assumes "\<And>q w. sw_workers s q = Some w \<Longrightarrow> w < sw_next s"
    and "\<And>q q' w. sw_workers s q = Some w \<Longrightarrow> sw_workers s q' = Some w \<Longrightarrow> q = q'"
    and "\<And>q w. sw_closing s q = Some w \<Longrightarrow> w \<in> sw_close_called s \<and> (sw_workers s q = Some w \<or> sw_workers s q = None)"
    and "\<And>w. w < sw_next s \<Longrightarrow> w \<in> sw_close_called s \<or> (\<exists>q. sw_workers s q = Some w)"
  shows "workers_ok s"
  using assms unfolding workers_ok_def by blast

lemma workers_okD:
  assumes "workers_ok s"
  shows "sw_workers s q = Some w \<Longrightarrow> w < sw_next s"
    and "sw_workers s q = Some w \<Longrightarrow> sw_workers s q' = Some w \<Longrightarrow> q = q'"
    and "sw_closing s q = Some w \<Longrightarrow> w \<in> sw_close_called s \<and> (sw_workers s q = Some w \<or> sw_workers s q = None)"
    and "w < sw_next s \<Longrightarrow> w \<in> sw_close_called s \<or> (\<exists>q. sw_workers s q = Some w)"
proof -
  note parts = assms [unfolded workers_ok_def]
  show "sw_workers s q = Some w \<Longrightarrow> w < sw_next s" using parts [THEN conjunct1] by simp
  show "sw_workers s q = Some w \<Longrightarrow> sw_workers s q' = Some w \<Longrightarrow> q = q'"
    using parts [THEN conjunct2, THEN conjunct1] by metis
  show "sw_closing s q = Some w \<Longrightarrow> w \<in> sw_close_called s \<and> (sw_workers s q = Some w \<or> sw_workers s q = None)"
    using parts [THEN conjunct2, THEN conjunct2, THEN conjunct1] by simp
  show "w < sw_next s \<Longrightarrow> w \<in> sw_close_called s \<or> (\<exists>q. sw_workers s q = Some w)"
    using parts [THEN conjunct2, THEN conjunct2, THEN conjunct2] by simp
qed

text \<open>Taking a worker off its shard, its close called, and putting a new one there.\<close>

lemma workers_remove_ok:
  assumes "workers_ok s" "sw_workers s q = None \<or> (\<exists>w. sw_workers s q = Some w \<and> w \<in> C)" "sw_close_called s \<subseteq> C"
    and "\<And>q' w. K q' = Some w \<Longrightarrow> sw_closing s q' = Some w"
  shows "workers_ok (s\<lparr>sw_workers := (sw_workers s)(q := None), sw_closeRetry := R, sw_close_called := C, sw_closing := K\<rparr>)"
proof (rule workers_okI, goal_cases bound once closing all)
  case (bound q' w)
  then show ?case using workers_okD(1) [OF assms(1), of q' w] by (simp split: if_splits)
next
  case (once q1 q2 w)
  then show ?case using workers_okD(2) [OF assms(1), of q1 w q2] by (simp split: if_splits)
next
  case (closing q' w)
  then have "sw_closing s q' = Some w" using assms(4) by simp
  from workers_okD(3) [OF assms(1) this] show ?case using assms(3) by auto
next
  case (all w)
  then consider "w \<in> sw_close_called s" | q' where "sw_workers s q' = Some w"
    using workers_okD(4) [OF assms(1), of w] by auto
  then show ?case
  proof cases
    case (2 q')
    then show ?thesis using assms(2) by (cases "q' = q") auto
  qed (use assms(3) in auto)
qed

lemma start_ok:
  assumes "workers_ok s" "sw_workers s q = None" "sw_closing s q = None"
  shows "workers_ok (start_worker q s)"
proof (rule workers_okI, goal_cases bound once closing all)
  case (bound q' w)
  then show ?case using workers_okD(1) [OF assms(1), of q' w] by (auto simp: start_worker_def split: if_splits)
next
  case (once q1 q2 w)
  then show ?case
    using workers_okD(2) [OF assms(1), of q1 w q2] workers_okD(1) [OF assms(1), of q1] workers_okD(1) [OF assms(1), of q2]
    by (auto simp: start_worker_def split: if_splits)
next
  case (closing q' w)
  then show ?case using workers_okD(3) [OF assms(1), of q' w] assms(3) by (auto simp: start_worker_def)
next
  case (all w)
  then show ?case
    using workers_okD(4) [OF assms(1), of w] assms(2) by (auto simp: start_worker_def less_Suc_eq) (metis option.distinct(1))
qed

lemma ensure_ok:
  assumes "workers_ok s" "sw_closing s q = None"
  shows "workers_ok (ensureWorkerRunning q running counters nowMs s)"
proof (cases "sw_workers s q")
  case None
  then show ?thesis using assms start_ok by (simp add: ensureWorkerRunning_def)
next
  case (Some w)
  have "workers_ok (s\<lparr>sw_workers := (sw_workers s)(q := None), sw_closeRetry := (sw_closeRetry s)(q := None),
      sw_close_called := insert w (sw_close_called s), sw_closing := sw_closing s\<rparr>)"
    by (rule workers_remove_ok [OF assms(1)]) (use Some in auto)
  then show ?thesis
    using Some assms start_ok [of "s\<lparr>sw_workers := (sw_workers s)(q := None), sw_closeRetry := (sw_closeRetry s)(q := None),
      sw_close_called := insert w (sw_close_called s)\<rparr>" q]
    by (simp add: ensureWorkerRunning_def)
qed

lemma close_end_ok:
  assumes "workers_ok s" "sw_closing s q = Some w"
  shows "workers_ok (fst (close_end q closed nowMs cooldown s))"
proof (cases closed)
  case True
  have "workers_ok (s\<lparr>sw_workers := (sw_workers s)(q := None), sw_closeRetry := (sw_closeRetry s)(q := None),
      sw_close_called := sw_close_called s, sw_closing := (sw_closing s)(q := None)\<rparr>)"
    by (rule workers_remove_ok [OF assms(1)]) (use workers_okD(3) [OF assms] in \<open>auto split: if_splits\<close>)
  then show ?thesis using True by (simp add: close_end_def)
next
  case False
  then show ?thesis
    using assms(1) by (auto simp: close_end_def workers_ok_def)
qed

lemma late_close_ok:
  assumes "workers_ok s" "w \<in> sw_close_called s"
  shows "workers_ok (late_close q w s)"
proof (cases "sw_workers s q = Some w")
  case True
  have "workers_ok (s\<lparr>sw_workers := (sw_workers s)(q := None), sw_closeRetry := (sw_closeRetry s)(q := None),
      sw_close_called := sw_close_called s, sw_closing := sw_closing s\<rparr>)"
    by (rule workers_remove_ok [OF assms(1)]) (use True assms(2) in auto)
  then show ?thesis using True by (simp add: late_close_def)
qed (use assms in \<open>simp add: late_close_def\<close>)

lemma close_begin_ok: "workers_ok s \<Longrightarrow> workers_ok (fst (close_begin q s))"
  by (auto simp: close_begin_def workers_ok_def split: option.splits)

interpretation shard_workers: invariant_machine workers_ok worker_guard worker_step
proof (unfold_locales, goal_cases inv)
  case (inv s e)
  then show ?case
  proof (cases e)
    case (Check_Cooldown q nowMs)
    then show ?thesis using inv by (auto simp: isCloseRetryCoolingDown_def workers_ok_def split: option.splits)
  next
    case Stop_Admission
    then show ?thesis using inv by (simp add: stopWorkerAdmission_def workers_ok_def)
  next
    case (Close_End q closed nowMs cooldown)
    then show ?thesis using inv close_end_ok by auto
  qed (auto intro: ensure_ok close_begin_ok late_close_ok)
qed

lemma no_workers_ok: "workers_ok no_workers"
  by (simp add: workers_ok_def no_workers_def)

lemma admission_stopped_step:
  assumes "sw_stopping s"
  shows "sw_stopping (worker_step s e) \<and> sw_next (worker_step s e) = sw_next s"
  using assms
  by (cases e)
     (auto simp: ensureWorkerRunning_def close_begin_def close_end_def late_close_def isCloseRetryCoolingDown_def
        stopWorkerAdmission_def split: option.splits)

lemma admission_stopped_run: "sw_stopping s \<Longrightarrow> sw_next (foldl worker_step s es) = sw_next s"
proof (induction es arbitrary: s)
  case (Cons e es)
  then show ?case using admission_stopped_step [OF Cons.prems, of e] by simp
qed simp

section \<open>Properties\<close>

text \<open>
  C33: No consumer is left behind: after any run of synchronisations, time-outs, late completions and
  shutdown, every worker ever started is either the one registered worker of one shard or was
  told to close, and once admission stopped no worker is started any more, so the shutdown
  snapshot holds every worker that was not told to close.
\<close>

theorem no_worker_left_behind:
  assumes "run_ok worker_guard worker_step no_workers es"
  shows "let s = foldl worker_step no_workers es in
    (\<forall>w. w < sw_next s \<longrightarrow> w \<in> sw_close_called s \<or> (\<exists>q. sw_workers s q = Some w)) \<and>
    (\<forall>q q' w. sw_workers s q = Some w \<longrightarrow> sw_workers s q' = Some w \<longrightarrow> q = q') \<and>
    sw_next (foldl worker_step (stopWorkerAdmission s) later) = sw_next s"
proof -
  have "workers_ok (foldl worker_step no_workers es)"
    by (rule shard_workers.run_inv [OF no_workers_ok assms])
  then show ?thesis
    using admission_stopped_run [of "stopWorkerAdmission (foldl worker_step no_workers es)" later]
    by (simp add: Let_def workers_ok_def stopWorkerAdmission_def)
qed

theorem no_worker_left_behind_witness:
  "let s = foldl worker_step no_workers
      [Ensure (Default_Queue 1) True None 0, Close_Begin (Default_Queue 1), Close_End (Default_Queue 1) False 9 30,
       Ensure (Default_Queue 1) True (Some \<lparr>lc_waiting = 4, lc_prioritized = 0, lc_active = 0, lc_delayed = 0\<rparr>) 50]
   in sw_next s = 2 \<and> sw_workers s (Default_Queue 1) = Some 1 \<and> 0 \<in> sw_close_called s"
proof -
  let ?es = "[Ensure (Default_Queue 1) True None 0, Close_Begin (Default_Queue 1), Close_End (Default_Queue 1) False 9 30,
       Ensure (Default_Queue 1) True (Some \<lparr>lc_waiting = 4, lc_prioritized = 0, lc_active = 0, lc_delayed = 0\<rparr>) 50]"
  have run: "run_ok worker_guard worker_step no_workers ?es" by code_simp
  have vals: "sw_next (foldl worker_step no_workers ?es) = 2" "sw_workers (foldl worker_step no_workers ?es) (Default_Queue 1) = Some 1"
    by code_simp+
  have "sw_workers (foldl worker_step no_workers ?es) q \<noteq> Some 0" for q
  proof -
    have "sw_workers (foldl worker_step no_workers ?es) = [Default_Queue 1 \<mapsto> 1]"
      by (simp add: ensureWorkerRunning_def start_worker_def close_begin_def close_end_def shouldRecycleStaleWorker_def
          hasTimedOutCloseReadyForRecycle_def no_workers_def fun_eq_iff)
    then show ?thesis by (simp split: if_splits)
  qed
  with vals(1) have "0 \<in> sw_close_called (foldl worker_step no_workers ?es)"
    using no_worker_left_behind [OF run] unfolding Let_def by (metis zero_less_numeral)
  with vals show ?thesis unfolding Let_def by blast
qed

text \<open>
  A shard is handed over for a reason and only by its holder: when a group decides to hand a shard
  over, it has the very token of the live lease in Redis, the shard is eligible and has no active
  job, no failed close is cooling down, and the receiver is another group that is alive.
\<close>

theorem hand_over_justified:
  assumes "entry = plan_queues (buildDefaultWebhookLeasePlan env planNow
      (plan_input mode canaryQueues alive claims lastHandoffAtMs counters rebalanceCooldownMs suppressRebalance)) q"
    and "claims = loadClaims nowMs redisNow r" "q \<in> set DEFAULT_WEBHOOK_QUEUE_NAMES" "alive \<noteq> {}"
    and "shard_decision g alive nowMs' entry q (claims q) currentHandoff local coolingDown = Hand_Over g'"
  shows "g' \<noteq> g \<and> g' \<in> alive \<and> isDynamicQueue mode canaryQueues q \<and> lc_active (counters q) = 0 \<and> \<not> coolingDown \<and>
    (\<exists>c. get_claim redisNow q r = Some (Lease c) \<and> nowMs < sc_leaseUntilMs c \<and> sc_ownerId c = g \<and>
       local q = Some (sc_fencingToken c))"
proof -
  let ?input = "plan_input mode canaryQueues alive claims lastHandoffAtMs counters rebalanceCooldownMs suppressRebalance"
  have entry: "untouched (initial_entry env ?input q) entry"
    and dec: "pe_eligible entry" "pe_desiredOwner entry = g'" "g' \<noteq> g" "pe_activeJobs entry = 0" "\<not> coolingDown"
      "hasLocalClaim g q (claims q) local"
    using plan_inv [of env planNow ?input] assms(1,5)
    by (auto simp: loop_inv_def shard_decision_def Let_def split: if_splits option.splits)
  have elig: "eligible env ?input q" using entry dec(1) by (simp add: untouched_def initial_entry_def)
  then have "settled planNow ?input q entry"
    using plan_inv [of env planNow ?input] assms(1,3) by (simp add: loop_inv_def)
  then have alive: "g' \<in> alive"
    using dec(2) assms(4) by (auto simp: settled_def plan_input_def normalizeWorkerGroups_def filter_empty_conv group_names_all
        split: if_splits)
  obtain c where c: "claims q = Some c" "sc_ownerId c = g" "local q = Some (sc_fencingToken c)"
    using dec(6) by (auto simp: hasLocalClaim_def split: option.splits)
  then have "get_claim redisNow q r = Some (Lease c)" "nowMs < sc_leaseUntilMs c"
    using assms(2) by (auto simp: loadClaims_def split: option.splits lease_value.splits if_splits)
  moreover have "isDynamicQueue mode canaryQueues q"
    using elig by (auto simp: eligible_def resolveDynamicEligibility_def plan_input_def canary_queues_def isDynamicQueue_def
        split: if_splits)
  moreover have "lc_active (counters q) = 0"
    using entry dec(4) by (simp add: untouched_def initial_entry_def plan_input_def)
  ultimately show ?thesis using dec(3,5) alive c by blast
qed

text \<open>Group A holds two busy shards, one of them idle enough to give away.\<close>

definition sample_store :: lease_store where
  "sample_store =
     \<lparr>ls_claims = [Default_Queue 0 \<mapsto>
        (Lease \<lparr>sc_ownerId = Group_A, sc_fencingToken = 3, sc_claimedAtMs = 0, sc_updatedAtMs = 0, sc_leaseUntilMs = 900\<rparr>,
         Some 900)],
      ls_fences = (\<lambda>_. 3)\<rparr>"

definition sample_counters :: "webhook_queue \<Rightarrow> lease_counters" where
  "sample_counters q =
     \<lparr>lc_waiting = (if q = Default_Queue 0 then 10 else if q = Default_Queue 4 then 50 else 0), lc_prioritized = 0,
      lc_active = (if q = Default_Queue 4 then 1 else 0), lc_delayed = 0\<rparr>"

definition sample_plan_input :: lease_plan_input where
  "sample_plan_input = plan_input Leases_Canary {Default_Queue 0} {Group_A, Realtime_B} (loadClaims 50 60 sample_store)
     (\<lambda>_. None) sample_counters 1000 False"

lemma sample_plan:
  "plan_queues (buildDefaultWebhookLeasePlan (\<lambda>_. Undefined) 50 sample_plan_input) (Default_Queue 0) =
     \<lparr>pe_homeOwner = Group_A, pe_eligible = True, pe_currentOwner = Group_A, pe_desiredOwner = Realtime_B,
      pe_handoffPending = True, pe_activeJobs = 0, pe_pressure = 10, pe_reason = Rebalance_Least_Loaded\<rparr>"
proof -
  let ?I = sample_plan_input
  have loads: "initial_loads ?I g = (\<Sum>q\<leftarrow>DEFAULT_WEBHOOK_QUEUE_NAMES. if current_owner ?I q = g then pressure_of ?I q else 0)" for g
    by (simp add: initial_loads_def foldl_loads)
  have A: "initial_loads ?I Group_A = 64" unfolding loads by code_simp
  have B: "initial_loads ?I Realtime_B = 0" unfolding loads by code_simp
  have q: "dynamic_queues (\<lambda>_. Undefined) ?I = [Default_Queue 0]" by code_simp
  have e: "initial_entry (\<lambda>_. Undefined) ?I (Default_Queue 0) =
      \<lparr>pe_homeOwner = Group_A, pe_eligible = True, pe_currentOwner = Group_A, pe_desiredOwner = Group_A,
       pe_handoffPending = False, pe_activeJobs = 0, pe_pressure = 10, pe_reason = Bootstrap_Home\<rparr>" by code_simp
  have n: "normalizeWorkerGroups (lp_aliveWorkerGroups ?I) = [Group_A, Realtime_B]" by code_simp
  have c: "\<not> cooldown_active 50 ?I (Default_Queue 0)" "\<not> lp_suppressRebalance ?I" by code_simp+
  have o: "chooseLeastLoadedOwner [Group_A, Realtime_B] Group_A Group_A (initial_loads ?I) = Realtime_B"
    by (simp add: chooseLeastLoadedOwner_def A B less_eq_prod_def)
  show ?thesis
    unfolding buildDefaultWebhookLeasePlan_def q
    by (simp add: initial_plan_def plan_step_def n e c o Let_def shouldRebalanceQueue_def A B
        MIN_PRESSURE_TO_REBALANCE_def ACTIVE_WEIGHT_def)
qed

theorem hand_over_justified_witness:
  "Realtime_B \<noteq> Group_A \<and> lc_active (sample_counters (Default_Queue 0)) = 0 \<and>
   (\<exists>c. get_claim 60 (Default_Queue 0) sample_store = Some (Lease c) \<and> sc_ownerId c = Group_A)"
proof -
  have d: "shard_decision Group_A {Group_A, Realtime_B} 55
      (plan_queues (buildDefaultWebhookLeasePlan (\<lambda>_. Undefined) 50 sample_plan_input) (Default_Queue 0)) (Default_Queue 0)
      (loadClaims 50 60 sample_store (Default_Queue 0)) None [Default_Queue 0 \<mapsto> 3] False = Hand_Over Realtime_B"
    "Default_Queue 0 \<in> set DEFAULT_WEBHOOK_QUEUE_NAMES"
    unfolding sample_plan by code_simp+
  from hand_over_justified [OF refl refl d(2) _ d(1) [unfolded sample_plan_input_def]] show ?thesis by auto
qed

end
