(* ===== verification/Expiry_Index.thy ===== *)
theory Expiry_Index
  imports Prelude
begin

text \<open>
  \<^verbatim>\<open>apps/api/src/webhook/assignment-expiry-index.ts\<close>: the indexed binary heap that orders
  the chat assignments of the webhook router by expiry.  The class keeps the heap array and a map
  from keys to their positions; the abstract value is the finite map from keys to expiry times.
\<close>

section \<open>State and operations\<close>

record expiry_entry =
  entry_key :: js_string
  entry_expires_at :: int

record expiry_index =
  heap :: "expiry_entry list"
  positions :: "js_string \<rightharpoonup> nat"

definition empty_index :: expiry_index where
  "empty_index = \<lparr>heap = [], positions = Map.empty\<rparr>"

definition index_size :: "expiry_index \<Rightarrow> nat" where
  "index_size ix = length (heap ix)"

definition heap_swap :: "expiry_index \<Rightarrow> nat \<Rightarrow> nat \<Rightarrow> expiry_index" where
  "heap_swap ix left right =
     (let h = (heap ix)[left := heap ix ! right, right := heap ix ! left]
      in ix\<lparr>heap := h,
            positions := (positions ix)(entry_key (h ! left) \<mapsto> left,
                                        entry_key (h ! right) \<mapsto> right)\<rparr>)"

definition parent :: "nat \<Rightarrow> nat" where
  "parent i = (i - 1) div 2"

abbreviation exp_at :: "expiry_index \<Rightarrow> nat \<Rightarrow> int" where
  "exp_at ix i \<equiv> entry_expires_at (heap ix ! i)"

text \<open>The loop of \<^verbatim>\<open>up\<close>: the index it returns is where the entry came to rest.\<close>

function heap_up :: "expiry_index \<Rightarrow> nat \<Rightarrow> expiry_index \<times> nat" where
  "heap_up ix i =
     (if i = 0 then (ix, i)
      else if exp_at ix (parent i) \<le> exp_at ix i then (ix, i)
      else heap_up (heap_swap ix (parent i) i) (parent i))"
  by pat_completeness auto
termination
  by (relation "measure snd") (auto simp: parent_def)

definition next_child :: "expiry_index \<Rightarrow> nat \<Rightarrow> nat" where
  "next_child ix i =
     (let left = i * 2 + 1; right = left + 1
      in if right < length (heap ix) \<and> exp_at ix right < exp_at ix left then right else left)"

lemma length_heap_swap [simp]: "length (heap (heap_swap ix l r)) = length (heap ix)"
  by (simp add: heap_swap_def Let_def)

function heap_down :: "expiry_index \<Rightarrow> nat \<Rightarrow> expiry_index" where
  "heap_down ix i =
     (if i * 2 + 1 < length (heap ix) then
        (let c = next_child ix i
         in if exp_at ix i \<le> exp_at ix c then ix else heap_down (heap_swap ix i c) c)
      else ix)"
  by pat_completeness auto
termination
  by (relation "measure (\<lambda>(ix, i). length (heap ix) - i)")
     (auto simp: next_child_def Let_def)

declare heap_up.simps [simp del] heap_down.simps [simp del]

definition index_delete :: "js_string \<Rightarrow> expiry_index \<Rightarrow> expiry_index" where
  "index_delete k ix =
     (case positions ix k of
        None \<Rightarrow> ix
      | Some i \<Rightarrow>
          (let ps = (positions ix)(k := None);
               lst = last (heap ix);
               h = butlast (heap ix)
           in if i = length h then ix\<lparr>heap := h, positions := ps\<rparr>
              else (let ix1 = ix\<lparr>heap := h[i := lst], positions := ps(entry_key lst \<mapsto> i)\<rparr>;
                        (ix2, moved) = heap_up ix1 i
                    in heap_down ix2 moved)))"

definition index_set :: "js_string \<Rightarrow> int \<Rightarrow> expiry_index \<Rightarrow> expiry_index" where
  "index_set k e ix =
     (let ix1 = index_delete k ix;
          i = length (heap ix1);
          ix2 = ix1\<lparr>heap := heap ix1 @ [\<lparr>entry_key = k, entry_expires_at = e\<rparr>],
                    positions := (positions ix1)(k \<mapsto> i)\<rparr>
      in fst (heap_up ix2 i))"

text \<open>The loop of \<^verbatim>\<open>takeExpired\<close>; \<open>expired\<close> is the array it fills.\<close>

function take_expired_loop ::
  "int \<Rightarrow> nat \<Rightarrow> js_string list \<Rightarrow> expiry_index \<Rightarrow> expiry_index \<times> js_string list" where
  "take_expired_loop now budget expired ix =
     (if length expired < budget \<and> heap ix \<noteq> [] \<and> exp_at ix 0 \<le> now then
        (let k = entry_key (heap ix ! 0)
         in take_expired_loop now budget (expired @ [k]) (index_delete k ix))
      else (ix, expired))"
  by pat_completeness auto
termination
  by (relation "measure (\<lambda>(now, budget, expired, ix). budget - length expired)") auto

declare take_expired_loop.simps [simp del]

definition take_expired :: "int \<Rightarrow> nat \<Rightarrow> expiry_index \<Rightarrow> expiry_index \<times> js_string list" where
  "take_expired now budget ix = take_expired_loop now budget [] ix"

section \<open>The invariant and the abstract value\<close>

definition positions_ok :: "expiry_index \<Rightarrow> bool" where
  "positions_ok ix \<longleftrightarrow>
     (\<forall>i < length (heap ix). positions ix (entry_key (heap ix ! i)) = Some i) \<and>
     (\<forall>k i. positions ix k = Some i \<longrightarrow> i < length (heap ix) \<and> entry_key (heap ix ! i) = k)"

definition heap_ordered :: "expiry_index \<Rightarrow> bool" where
  "heap_ordered ix \<longleftrightarrow>
     (\<forall>j. 0 < j \<and> j < length (heap ix) \<longrightarrow> exp_at ix (parent j) \<le> exp_at ix j)"

definition index_ok :: "expiry_index \<Rightarrow> bool" where
  "index_ok ix \<longleftrightarrow> positions_ok ix \<and> heap_ordered ix"

definition entries :: "expiry_index \<Rightarrow> (js_string \<rightharpoonup> int)" where
  "entries ix k = map_option (exp_at ix) (positions ix k)"

text \<open>
  While an entry sinks or rises, the order may fail only on the edges at its position \<open>i\<close>;
  the entry above \<open>i\<close> is still below everything under \<open>i\<close>.
\<close>

definition bridged :: "expiry_index \<Rightarrow> nat \<Rightarrow> bool" where
  "bridged ix i \<longleftrightarrow>
     (0 < i \<longrightarrow> (\<forall>j. 0 < j \<and> j < length (heap ix) \<and> parent j = i \<longrightarrow>
                   exp_at ix (parent i) \<le> exp_at ix j))"

definition rising_at :: "expiry_index \<Rightarrow> nat \<Rightarrow> bool" where
  "rising_at ix i \<longleftrightarrow>
     (\<forall>j. 0 < j \<and> j < length (heap ix) \<and> j \<noteq> i \<and> parent j \<noteq> i \<longrightarrow>
          exp_at ix (parent j) \<le> exp_at ix j) \<and> bridged ix i"

definition sinking_at :: "expiry_index \<Rightarrow> nat \<Rightarrow> bool" where
  "sinking_at ix i \<longleftrightarrow>
     (\<forall>j. 0 < j \<and> j < length (heap ix) \<and> parent j \<noteq> i \<longrightarrow>
          exp_at ix (parent j) \<le> exp_at ix j) \<and> bridged ix i"

definition children_ok :: "expiry_index \<Rightarrow> nat \<Rightarrow> bool" where
  "children_ok ix i \<longleftrightarrow>
     (\<forall>j. 0 < j \<and> j < length (heap ix) \<and> parent j = i \<longrightarrow> exp_at ix i \<le> exp_at ix j)"

lemma heap_ordered_iff_sinking:
  "sinking_at ix i \<Longrightarrow> children_ok ix i \<Longrightarrow> heap_ordered ix"
  unfolding sinking_at_def children_ok_def heap_ordered_def by metis

lemma heap_orderedD: "heap_ordered ix \<Longrightarrow> 0 < j \<Longrightarrow> j < length (heap ix) \<Longrightarrow>
  exp_at ix (parent j) \<le> exp_at ix j"
  by (simp add: heap_ordered_def)

lemma parent_less: "0 < i \<Longrightarrow> parent i < i"
  by (auto simp: parent_def)

lemma parent_lt_length: "0 < i \<Longrightarrow> i < n \<Longrightarrow> parent i < n"
  by (auto simp: parent_def)

lemma parent_eq_iff: "0 < j \<Longrightarrow> parent j = i \<longleftrightarrow> j = i * 2 + 1 \<or> j = i * 2 + 2"
  by (auto simp: parent_def)

text \<open>The root carries the least expiry.\<close>

lemma heap_root_least: "heap_ordered ix \<Longrightarrow> i < length (heap ix) \<Longrightarrow> exp_at ix 0 \<le> exp_at ix i"
proof (induction i rule: less_induct)
  case (less i)
  show ?case
  proof (cases "i = 0")
    case False
    then have "exp_at ix 0 \<le> exp_at ix (parent i)"
      using less parent_less [of i] by simp
    also have "\<dots> \<le> exp_at ix i"
      using less.prems False by (simp add: heap_orderedD)
    finally show ?thesis .
  qed simp
qed

section \<open>Swapping\<close>

lemma heap_swap_nth:
  "l < length (heap ix) \<Longrightarrow> r < length (heap ix) \<Longrightarrow> j < length (heap ix) \<Longrightarrow>
   heap (heap_swap ix l r) ! j =
     heap ix ! (if j = r then l else if j = l then r else j)"
  by (simp add: heap_swap_def Let_def nth_list_update)

lemma positions_okD:
  assumes "positions_ok ix"
  shows "i < length (heap ix) \<Longrightarrow> positions ix (entry_key (heap ix ! i)) = Some i"
    and "positions ix k = Some i \<Longrightarrow> i < length (heap ix)"
    and "positions ix k = Some i \<Longrightarrow> entry_key (heap ix ! i) = k"
  using assms by (auto simp: positions_ok_def)

lemma positions_ok_inj:
  "positions_ok ix \<Longrightarrow> i < length (heap ix) \<Longrightarrow> j < length (heap ix) \<Longrightarrow>
   entry_key (heap ix ! i) = entry_key (heap ix ! j) \<longleftrightarrow> i = j"
  by (metis option.inject positions_okD(1))

lemma heap_swap_positions:
  assumes "positions_ok ix" "l < length (heap ix)" "r < length (heap ix)"
  shows "positions (heap_swap ix l r) k =
    (if k = entry_key (heap ix ! l) then Some r
     else if k = entry_key (heap ix ! r) then Some l else positions ix k)"
  using assms positions_ok_inj [of ix l r]
  by (auto simp: heap_swap_def Let_def nth_list_update)

lemma heap_swap_ok:
  assumes "positions_ok ix" "l < length (heap ix)" "r < length (heap ix)"
  shows "positions_ok (heap_swap ix l r)"
    and "entries (heap_swap ix l r) = entries ix"
proof -
  note pos = heap_swap_positions [OF assms]
  note nth = heap_swap_nth [OF assms(2,3)]
  show "positions_ok (heap_swap ix l r)"
    unfolding positions_ok_def
  proof (intro conjI allI impI)
    fix i assume "i < length (heap (heap_swap ix l r))"
    then show "positions (heap_swap ix l r) (entry_key (heap (heap_swap ix l r) ! i)) = Some i"
      using assms by (auto simp: pos nth positions_ok_inj positions_okD)
  next
    fix k i assume k: "positions (heap_swap ix l r) k = Some i"
    then show "i < length (heap (heap_swap ix l r))"
      using assms by (auto simp: pos positions_okD split: if_splits)
    show "entry_key (heap (heap_swap ix l r) ! i) = k"
      using k assms by (auto simp: pos heap_swap_nth positions_okD split: if_splits)
  qed
  show "entries (heap_swap ix l r) = entries ix"
  proof
    fix k
    show "entries (heap_swap ix l r) k = entries ix k"
      using assms
      by (cases "positions ix k") (auto simp: entries_def pos nth positions_okD)
  qed
qed

section \<open>Rising and sinking\<close>

lemma heap_swap_exp:
  assumes "l < length (heap ix)" "r < length (heap ix)" "j < length (heap ix)"
  shows "exp_at (heap_swap ix l r) j =
    (if j = r then exp_at ix l else if j = l then exp_at ix r else exp_at ix j)"
  using assms by (simp add: heap_swap_nth)

lemma rising_swap:
  assumes "rising_at ix i" "0 < i" "i < length (heap ix)"
    and lt: "exp_at ix i < exp_at ix (parent i)"
  shows "rising_at (heap_swap ix (parent i) i) (parent i)"
    and "children_ok (heap_swap ix (parent i) i) (parent i)"
proof -
  let ?p = "parent i" and ?ix = "heap_swap ix (parent i) i"
  have p: "?p < i" "?p < length (heap ix)"
    using assms by (auto simp: parent_lt_length parent_less)
  have ex: "exp_at ?ix j = (if j = i then exp_at ix ?p else if j = ?p then exp_at ix i
      else exp_at ix j)" if "j < length (heap ix)" for j
    using heap_swap_exp [of ?p ix i j] p assms(3) that by auto
  have edge: "exp_at ix (parent j) \<le> exp_at ix j"
    if "0 < j" "j < length (heap ix)" "j \<noteq> i" "parent j \<noteq> i" for j
    using assms(1) that by (auto simp: rising_at_def)
  have bridge: "exp_at ix ?p \<le> exp_at ix j"
    if "0 < j" "j < length (heap ix)" "parent j = i" for j
    using assms(1,2) that by (auto simp: rising_at_def bridged_def)
  show "children_ok ?ix ?p"
    unfolding children_ok_def
  proof (intro allI impI, elim conjE)
    fix j assume j: "0 < j" "j < length (heap ?ix)" "parent j = ?p"
    show "exp_at ?ix ?p \<le> exp_at ?ix j"
    proof (cases "j = i")
      case True
      then show ?thesis using j p lt by (simp add: ex)
    next
      case False
      then have "exp_at ix ?p \<le> exp_at ix j" using j edge [of j] p by auto
      moreover have "j \<noteq> ?p" using j parent_less [of j] by auto
      ultimately show ?thesis using j p lt False by (simp add: ex)
    qed
  qed
  show "rising_at ?ix ?p"
    unfolding rising_at_def bridged_def
  proof (intro conjI allI impI; (elim conjE)?)
    fix j assume j: "0 < j" "j < length (heap ?ix)" "j \<noteq> ?p" "parent j \<noteq> ?p"
    have "j \<noteq> i" using j by auto
    moreover have "parent j < length (heap ix)" using j by (simp add: parent_lt_length)
    ultimately show "exp_at ?ix (parent j) \<le> exp_at ?ix j"
      using j edge [of j] bridge [of j] by (auto simp: ex)
  next
    fix j assume p0: "0 < ?p" and j: "0 < j" "j < length (heap ?ix)" "parent j = ?p"
    have pp: "parent ?p \<noteq> ?p" "parent ?p \<noteq> i" "parent ?p < length (heap ix)"
      using p0 p parent_less [of ?p] by (auto simp: parent_lt_length)
    have up: "exp_at ix (parent ?p) \<le> exp_at ix ?p"
      using edge [of ?p] p0 p pp by auto
    show "exp_at ?ix (parent ?p) \<le> exp_at ?ix j"
    proof (cases "j = i")
      case True
      then show ?thesis using j pp up by (simp add: ex)
    next
      case False
      then have "exp_at ix ?p \<le> exp_at ix j" using j edge [of j] p by auto
      moreover have "j \<noteq> ?p" using j parent_less [of j] by auto
      ultimately show ?thesis using j pp up False by (simp add: ex)
    qed
  qed
qed

lemma rising_stop:
  assumes "rising_at ix i" "i = 0 \<or> exp_at ix (parent i) \<le> exp_at ix i"
  shows "sinking_at ix i"
  using assms unfolding rising_at_def sinking_at_def by (metis less_not_refl)

lemma heap_up_spec:
  assumes "positions_ok ix" "i < length (heap ix)" "heap_up ix i = (ix', i')"
  shows "positions_ok ix' \<and> entries ix' = entries ix \<and>
    length (heap ix') = length (heap ix) \<and> i' < length (heap ix')"
  using assms
proof (induction ix i arbitrary: ix' i' rule: heap_up.induct)
  case (1 ix i)
  show ?case
  proof (cases "i = 0 \<or> exp_at ix (parent i) \<le> exp_at ix i")
    case True
    then have "heap_up ix i = (ix, i)" by (subst heap_up.simps) auto
    then show ?thesis using 1 by simp
  next
    case False
    then have "heap_up (heap_swap ix (parent i) i) (parent i) = (ix', i')"
      using "1.prems"(3) by (subst (asm) heap_up.simps) auto
    moreover have "parent i < length (heap ix)"
      using False "1.prems" by (simp add: parent_lt_length)
    ultimately show ?thesis
      using "1.IH" [of ix' i'] False "1.prems" heap_swap_ok [of ix "parent i" i] by simp
  qed
qed

lemma heap_up_sinking:
  assumes "rising_at ix i" "i < length (heap ix)" "heap_up ix i = (ix', i')"
  shows "sinking_at ix' i' \<and> (children_ok ix i \<longrightarrow> children_ok ix' i')"
  using assms
proof (induction ix i arbitrary: ix' i' rule: heap_up.induct)
  case (1 ix i)
  show ?case
  proof (cases "i = 0 \<or> exp_at ix (parent i) \<le> exp_at ix i")
    case True
    then have "heap_up ix i = (ix, i)" by (subst heap_up.simps) auto
    then show ?thesis using 1 True by (auto intro: rising_stop)
  next
    case False
    then have "heap_up (heap_swap ix (parent i) i) (parent i) = (ix', i')"
      using "1.prems"(3) by (subst (asm) heap_up.simps) auto
    moreover have "parent i < length (heap ix)"
      using False "1.prems" by (simp add: parent_lt_length)
    ultimately show ?thesis
      using "1.IH" [of ix' i'] False "1.prems" rising_swap [of ix i] by simp
  qed
qed

lemma next_child_cases:
  assumes "i * 2 + 1 < length (heap ix)"
  shows "next_child ix i < length (heap ix)" "parent (next_child ix i) = i" "i < next_child ix i"
    and "\<And>j. 0 < j \<Longrightarrow> j < length (heap ix) \<Longrightarrow> parent j = i \<Longrightarrow>
      exp_at ix (next_child ix i) \<le> exp_at ix j"
  using assms by (auto simp: next_child_def Let_def parent_eq_iff)

lemma sinking_swap:
  assumes s: "sinking_at ix i" and c: "i * 2 + 1 < length (heap ix)"
    and lt: "exp_at ix (next_child ix i) < exp_at ix i"
  shows "sinking_at (heap_swap ix i (next_child ix i)) (next_child ix i)"
proof -
  let ?c = "next_child ix i" and ?ix = "heap_swap ix i (next_child ix i)"
  note nc = next_child_cases [OF c]
  have i: "i < length (heap ix)" using c by simp
  have ex: "exp_at ?ix j = (if j = ?c then exp_at ix i else if j = i then exp_at ix ?c
      else exp_at ix j)" if "j < length (heap ix)" for j
    using heap_swap_exp [of i ix ?c j] nc(1) i that by auto
  have edge: "exp_at ix (parent j) \<le> exp_at ix j"
    if "0 < j" "j < length (heap ix)" "parent j \<noteq> i" for j
    using s that by (auto simp: sinking_at_def)
  show ?thesis
    unfolding sinking_at_def bridged_def
  proof (intro conjI allI impI; (elim conjE)?)
    fix j assume j: "0 < j" "j < length (heap ?ix)" "parent j \<noteq> ?c"
    have pj: "parent j < length (heap ix)" using j by (simp add: parent_lt_length)
    show "exp_at ?ix (parent j) \<le> exp_at ?ix j"
    proof (cases "parent j = i")
      case True
      then have "exp_at ix ?c \<le> exp_at ix j" and "j \<noteq> i"
        using nc(4) [of j] j parent_less [of j] by auto
      then show ?thesis using True j nc(3) i lt by (auto simp: ex)
    next
      case False
      then have e: "exp_at ix (parent j) \<le> exp_at ix j" using edge j by simp
      show ?thesis
      proof (cases "j = i")
        case True
        then have "exp_at ix (parent i) \<le> exp_at ix ?c"
          using s nc j unfolding sinking_at_def bridged_def
          by (metis less_nat_zero_code neq0_conv)
        then show ?thesis using True j pj False nc(3) by (auto simp: ex)
      next
        case nj: False
        have "j \<noteq> ?c" using False nc(2) by auto
        then show ?thesis using e nj False j pj by (auto simp: ex)
      qed
    qed
  next
    fix j assume j: "0 < j" "j < length (heap ?ix)" "parent j = ?c"
    have "j \<noteq> i" "j \<noteq> ?c" using j nc(3) parent_less [of j] by auto
    moreover have "exp_at ix ?c \<le> exp_at ix j" using edge [of j] j nc(3) by auto
    ultimately show "exp_at ?ix (parent ?c) \<le> exp_at ?ix j"
      using j i nc by (simp add: ex)
  qed
qed

lemma heap_down_spec:
  assumes "positions_ok ix" "i < length (heap ix)" "sinking_at ix i"
  shows "positions_ok (heap_down ix i) \<and> entries (heap_down ix i) = entries ix \<and>
    length (heap (heap_down ix i)) = length (heap ix) \<and> heap_ordered (heap_down ix i)"
  using assms
proof (induction ix i rule: heap_down.induct)
  case (1 ix i)
  show ?case
  proof (cases "i * 2 + 1 < length (heap ix)")
    case False
    then have "\<not> (0 < j \<and> j < length (heap ix) \<and> parent j = i)" for j
      using parent_eq_iff [of j i] by auto
    then have "children_ok ix i" by (auto simp: children_ok_def)
    then have "heap_ordered ix" using "1.prems"(3) heap_ordered_iff_sinking by blast
    moreover have "heap_down ix i = ix" using False by (subst heap_down.simps) simp
    ultimately show ?thesis using "1.prems" by simp
  next
    case c: True
    note nc = next_child_cases [OF c]
    show ?thesis
    proof (cases "exp_at ix i \<le> exp_at ix (next_child ix i)")
      case True
      then have "exp_at ix i \<le> exp_at ix j"
        if "0 < j" "j < length (heap ix)" "parent j = i" for j
        using order_trans [OF _ nc(4) [OF that]] by blast
      then have "children_ok ix i" by (simp add: children_ok_def)
      then have "heap_ordered ix" using "1.prems"(3) heap_ordered_iff_sinking by blast
      moreover have "heap_down ix i = ix" using True c by (subst heap_down.simps) simp
      ultimately show ?thesis using "1.prems" by simp
    next
      case False
      then have "heap_down ix i = heap_down (heap_swap ix i (next_child ix i)) (next_child ix i)"
        using c by (subst heap_down.simps) (simp add: Let_def)
      then show ?thesis
        using "1.IH" [OF c refl False] "1.prems" nc(1) heap_swap_ok [of ix i "next_child ix i"]
          sinking_swap [OF "1.prems"(3) c] False by simp
    qed
  qed
qed

section \<open>The operations against the abstract map\<close>

lemma index_okI: "positions_ok ix \<Longrightarrow> heap_ordered ix \<Longrightarrow> index_ok ix"
  by (simp add: index_ok_def)

lemma index_ok_empty: "index_ok empty_index" and entries_empty: "entries empty_index = Map.empty"
  by (auto simp: index_ok_def positions_ok_def heap_ordered_def empty_index_def entries_def)

lemma finite_dom_entries: "index_ok ix \<Longrightarrow> finite (dom (entries ix))"
proof -
  assume ok: "index_ok ix"
  have "dom (entries ix) \<subseteq> entry_key ` set (heap ix)"
    using ok by (force simp: index_ok_def positions_ok_def entries_def image_iff
        in_set_conv_nth)
  then show ?thesis by (rule finite_subset) simp
qed

lemma index_append_positions:
  fixes e :: int
  assumes "positions_ok ix" "positions ix k = None"
  defines "ix' \<equiv> ix\<lparr>heap := heap ix @ [\<lparr>entry_key = k, entry_expires_at = e\<rparr>],
                   positions := (positions ix)(k \<mapsto> length (heap ix))\<rparr>"
  shows "positions_ok ix'" and "entries ix' = (entries ix)(k \<mapsto> e)"
proof -
  have fresh: "entry_key (heap ix ! i) \<noteq> k" if "i < length (heap ix)" for i
    using assms(1,2) that by (metis option.distinct(1) positions_okD(1))
  show "positions_ok ix'"
    using assms(1) fresh by (auto simp: positions_ok_def ix'_def nth_append less_Suc_eq)
  show "entries ix' = (entries ix)(k \<mapsto> e)"
  proof
    fix k'
    show "entries ix' k' = ((entries ix)(k \<mapsto> e)) k'"
      using assms(1)
      by (cases "positions ix k'") (auto simp: entries_def ix'_def nth_append positions_okD)
  qed
qed

lemma index_append_order:
  fixes x :: expiry_entry and ps :: "js_string \<rightharpoonup> nat"
  assumes "heap_ordered ix"
  defines "ix' \<equiv> ix\<lparr>heap := heap ix @ [x], positions := ps\<rparr>"
  shows "rising_at ix' (length (heap ix))" and "children_ok ix' (length (heap ix))"
proof -
  have "exp_at ix' (parent j) \<le> exp_at ix' j" if "0 < j" "j < length (heap ix)" for j
    using assms that by (simp add: ix'_def nth_append heap_orderedD parent_lt_length)
  moreover have "parent j \<noteq> length (heap ix)" if "0 < j" "j < length (heap ix')" for j
    using that parent_less [of j] by (auto simp: ix'_def)
  ultimately show "rising_at ix' (length (heap ix))" "children_ok ix' (length (heap ix))"
    by (auto simp: rising_at_def bridged_def children_ok_def ix'_def less_Suc_eq)
qed

text \<open>Removing the last array cell, and moving it into the hole.\<close>

lemma index_drop_last:
  assumes ok: "positions_ok ix" and i: "positions ix k = Some i"
    and last: "i = length (heap ix) - 1"
  defines "ix' \<equiv> ix\<lparr>heap := butlast (heap ix), positions := (positions ix)(k := None)\<rparr>"
  shows "positions_ok ix'" and "entries ix' = (entries ix)(k := None)"
proof -
  have il: "i < length (heap ix)" "entry_key (heap ix ! i) = k" using ok i positions_okD by auto
  have other: "j < length (heap ix) - 1 \<and> entry_key (heap ix ! j) = k'"
    if "positions ix k' = Some j" "k' \<noteq> k" for k' j
    using ok that il last positions_okD(2,3) [OF ok, of k' j] by (cases "j = i") auto
  show "positions_ok ix'"
    using ok il last other positions_ok_inj [OF ok, of _ i]
    by (auto simp: positions_ok_def ix'_def nth_butlast)
  show "entries ix' = (entries ix)(k := None)"
  proof
    fix k'
    show "entries ix' k' = ((entries ix)(k := None)) k'"
      using other [of k'] by (cases "positions ix k'") (auto simp: entries_def ix'_def nth_butlast)
  qed
qed

lemma index_fill_hole:
  assumes ok: "positions_ok ix" and i: "positions ix k = Some i"
    and hole: "i \<noteq> length (heap ix) - 1"
  defines "l \<equiv> last (heap ix)"
  defines "ix' \<equiv> ix\<lparr>heap := (butlast (heap ix))[i := l],
                   positions := ((positions ix)(k := None))(entry_key l \<mapsto> i)\<rparr>"
  shows "positions_ok ix'" and "entries ix' = (entries ix)(k := None)"
    and "i < length (heap ix')"
proof -
  let ?n = "length (heap ix) - 1"
  have il: "i < ?n" "entry_key (heap ix ! i) = k" "0 < length (heap ix)"
    using ok i hole positions_okD(2,3) [OF ok i] by auto
  have l: "l = heap ix ! ?n" using il by (simp add: l_def last_conv_nth)
  have lk: "entry_key l \<noteq> k" using positions_ok_inj [OF ok, of ?n i] il l by auto
  have lp: "positions ix (entry_key l) = Some ?n" using ok il l positions_okD(1) by simp
  have nth: "heap ix' ! j = (if j = i then heap ix ! ?n else heap ix ! j)" if "j < ?n" for j
    using that l by (simp add: ix'_def nth_list_update nth_butlast)
  have len: "length (heap ix') = ?n" by (simp add: ix'_def)
  have other: "j < ?n \<and> j \<noteq> i \<and> entry_key (heap ix ! j) = k'"
    if "positions ix k' = Some j" "k' \<noteq> k" "k' \<noteq> entry_key l" for k' j
    using that positions_okD(2,3) [OF ok that(1)] l il by (cases "j = ?n") auto
  show "positions_ok ix'"
    unfolding positions_ok_def
  proof (intro conjI allI impI)
    fix j assume j: "j < length (heap ix')"
    show "positions ix' (entry_key (heap ix' ! j)) = Some j"
      using j len nth [of j] il l lk positions_ok_inj [OF ok, of j ?n]
        positions_ok_inj [OF ok, of j i] positions_okD(1) [OF ok, of j]
      by (auto simp: ix'_def)
  next
    fix k' j assume p: "positions ix' k' = Some j"
    then have c: "(k' = entry_key l \<and> j = i) \<or>
        (k' \<noteq> entry_key l \<and> k' \<noteq> k \<and> positions ix k' = Some j)"
      by (auto simp: ix'_def split: if_splits)
    then show "j < length (heap ix')" using len il other by auto
    show "entry_key (heap ix' ! j) = k'" using c len il other nth l by auto
  qed
  show "entries ix' = (entries ix)(k := None)"
  proof
    fix k'
    show "entries ix' k' = ((entries ix)(k := None)) k'"
    proof (cases "k' = entry_key l \<or> k' = k \<or> positions ix k' = None")
      case True
      then show ?thesis using lk lp il nth [of i] by (auto simp: entries_def ix'_def l)
    next
      case False
      then obtain j where j: "positions ix k' = Some j" "k' \<noteq> k" "k' \<noteq> entry_key l" by auto
      have "positions ix' k' = Some j" using j by (simp add: ix'_def)
      then show ?thesis using j other [OF j] nth [of j] by (simp add: entries_def)
    qed
  qed
  show "i < length (heap ix')" using il len by simp
qed

lemma index_hole_order:
  fixes x :: expiry_entry and ps :: "js_string \<rightharpoonup> nat"
  assumes ord: "heap_ordered ix" and i: "i < length (heap ix) - 1"
  defines "ix' \<equiv> ix\<lparr>heap := (butlast (heap ix))[i := x], positions := ps\<rparr>"
  shows "rising_at ix' i"
proof -
  have ex: "exp_at ix' j = exp_at ix j" if "j < length (heap ix) - 1" "j \<noteq> i" for j
    using that by (simp add: ix'_def nth_butlast)
  have edge: "exp_at ix (parent j) \<le> exp_at ix j" if "0 < j" "j < length (heap ix) - 1" for j
    using ord that by (simp add: heap_orderedD)
  show ?thesis
    unfolding rising_at_def bridged_def
  proof (intro conjI allI impI; (elim conjE)?)
    fix j assume j: "0 < j" "j < length (heap ix')" "j \<noteq> i" "parent j \<noteq> i"
    then show "exp_at ix' (parent j) \<le> exp_at ix' j"
      using edge [of j] ex [of j] ex [of "parent j"] parent_less [of j] by (simp add: ix'_def)
  next
    fix j assume i0: "0 < i" and j: "0 < j" "j < length (heap ix')" "parent j = i"
    have "exp_at ix (parent i) \<le> exp_at ix i" using edge i0 i by simp
    also have "\<dots> \<le> exp_at ix j" using edge [of j] j by (simp add: ix'_def)
    finally show "exp_at ix' (parent i) \<le> exp_at ix' j"
      using ex [of j] ex [of "parent i"] parent_less [of j] parent_less [of i] i0 i j
      by (simp add: ix'_def)
  qed
qed

lemma heap_ordered_butlast:
  assumes "heap_ordered ix"
  shows "heap_ordered (ix\<lparr>heap := butlast (heap ix), positions := ps\<rparr>)"
proof -
  have "exp_at ix (parent j) \<le> exp_at ix j" "parent j < length (heap ix) - 1"
    if "0 < j" "j < length (heap ix) - 1" for j
    using that assms parent_less [of j] by (simp_all add: heap_orderedD)
  then show ?thesis by (simp add: heap_ordered_def nth_butlast)
qed

lemma rising_to_heap:
  assumes "positions_ok ix" "i < length (heap ix)" "rising_at ix i" "heap_up ix i = (ix', i')"
  shows "index_ok (heap_down ix' i')" and "entries (heap_down ix' i') = entries ix"
    and "length (heap (heap_down ix' i')) = length (heap ix)"
  using heap_up_spec [OF assms(1,2,4)] heap_up_sinking [OF assms(3,2,4)]
    heap_down_spec [of ix' i'] by (auto simp: index_ok_def)

lemma index_delete_spec:
  assumes "index_ok ix"
  shows "index_ok (index_delete k ix)"
    and "entries (index_delete k ix) = (entries ix)(k := None)"
    and "positions ix k \<noteq> None \<Longrightarrow> length (heap (index_delete k ix)) = length (heap ix) - 1"
proof -
  have ok: "positions_ok ix" "heap_ordered ix" using assms by (auto simp: index_ok_def)
  have "index_ok (index_delete k ix) \<and> entries (index_delete k ix) = (entries ix)(k := None) \<and>
    (positions ix k \<noteq> None \<longrightarrow> length (heap (index_delete k ix)) = length (heap ix) - 1)"
  proof (cases "positions ix k")
    case None
    then have "index_delete k ix = ix" by (simp add: index_delete_def)
    then show ?thesis using None assms by (auto simp: entries_def fun_eq_iff)
  next
    case (Some i)
    show ?thesis
    proof (cases "i = length (heap ix) - 1")
      case True
      then have "index_delete k ix =
          ix\<lparr>heap := butlast (heap ix), positions := (positions ix)(k := None)\<rparr>"
        using Some by (simp add: index_delete_def Let_def)
      then show ?thesis
        using index_drop_last [OF ok(1) Some True] heap_ordered_butlast [OF ok(2)]
        by (simp add: index_okI)
    next
      case False
      let ?ix = "ix\<lparr>heap := (butlast (heap ix))[i := last (heap ix)],
        positions := ((positions ix)(k := None))(entry_key (last (heap ix)) \<mapsto> i)\<rparr>"
      obtain ix' i' where up: "heap_up ?ix i = (ix', i')" by fastforce
      have "index_delete k ix = heap_down ix' i'"
        using Some False up by (simp add: index_delete_def Let_def)
      moreover note filled = index_fill_hole [OF ok(1) Some False]
      moreover have "i < length (heap ix) - 1" using filled(3) by simp
      ultimately show ?thesis
        using rising_to_heap [OF filled(1,3) index_hole_order [OF ok(2)] up] by simp
    qed
  qed
  then show "index_ok (index_delete k ix)"
    "entries (index_delete k ix) = (entries ix)(k := None)"
    "positions ix k \<noteq> None \<Longrightarrow> length (heap (index_delete k ix)) = length (heap ix) - 1"
    by auto
qed

lemma index_set_spec:
  assumes "index_ok ix"
  shows "index_ok (index_set k e ix)" and "entries (index_set k e ix) = (entries ix)(k \<mapsto> e)"
proof -
  let ?d = "index_delete k ix"
  let ?a = "?d\<lparr>heap := heap ?d @ [\<lparr>entry_key = k, entry_expires_at = e\<rparr>],
    positions := (positions ?d)(k \<mapsto> length (heap ?d))\<rparr>"
  note d = index_delete_spec [OF assms, of k]
  have ok: "positions_ok ?d" "heap_ordered ?d" using d by (auto simp: index_ok_def)
  have free: "positions ?d k = None"
    using fun_cong [OF d(2), of k] by (simp add: entries_def)
  obtain ix' i' where up: "heap_up ?a (length (heap ?d)) = (ix', i')" by fastforce
  note pos = index_append_positions [OF ok(1) free, of e]
  note ord = index_append_order [OF ok(2)]
  have "index_ok ix'" "entries ix' = entries ?a"
    using heap_up_spec [OF pos(1) _ up] heap_up_sinking [OF ord(1) _ up] ord(2)
    by (auto simp: index_ok_def intro: heap_ordered_iff_sinking)
  moreover have "index_set k e ix = ix'" using up by (simp add: index_set_def Let_def)
  ultimately show "index_ok (index_set k e ix)" "entries (index_set k e ix) = (entries ix)(k \<mapsto> e)"
    using pos(2) d(2) by (simp_all add: fun_eq_iff)
qed

text \<open>The map is as large as the heap array.\<close>

lemma dom_entries: "dom (entries ix) = dom (positions ix)"
  by (auto simp: entries_def)

lemma card_dom_entries: "index_ok ix \<Longrightarrow> card (dom (entries ix)) = index_size ix"
proof -
  assume "index_ok ix"
  then have ok: "positions_ok ix" by (simp add: index_ok_def)
  have "dom (positions ix) = (\<lambda>i. entry_key (heap ix ! i)) ` {..<length (heap ix)}"
    using ok by (force simp: positions_ok_def)
  moreover have "inj_on (\<lambda>i. entry_key (heap ix ! i)) {..<length (heap ix)}"
    using positions_ok_inj [OF ok] by (auto simp: inj_on_def)
  ultimately show ?thesis
    by (simp add: dom_entries index_size_def card_image)
qed

section \<open>Taking the expired keys\<close>

definition expired_at :: "int \<Rightarrow> (js_string \<rightharpoonup> int) \<Rightarrow> js_string set" where
  "expired_at now m = {k. \<exists>e. m k = Some e \<and> e \<le> now}"

text \<open>
  What a batch \<open>ks\<close> taken from the map \<open>m\<close> must be: distinct expired keys in the
  order of their expiry, none of them later than an entry left behind.
\<close>

definition expired_batch :: "int \<Rightarrow> (js_string \<rightharpoonup> int) \<Rightarrow> js_string list \<Rightarrow> bool" where
  "expired_batch now m ks \<longleftrightarrow>
     distinct ks \<and> set ks \<subseteq> expired_at now m \<and> sorted (map (the \<circ> m) ks) \<and>
     (\<forall>k \<in> set ks. \<forall>k'. k' \<notin> set ks \<longrightarrow> (\<forall>e. m k' = Some e \<longrightarrow> the (m k) \<le> e))"

lemma expired_batch_Nil: "expired_batch now m []"
  by (simp add: expired_batch_def)

lemma expired_batch_Cons:
  assumes k: "m k = Some e" "e \<le> now" and least: "\<And>k' e'. m k' = Some e' \<Longrightarrow> e \<le> e'"
    and rest: "expired_batch now (m(k := None)) ks"
  shows "expired_batch now m (k # ks)"
proof -
  have nk: "k \<notin> set ks" using rest by (auto simp: expired_batch_def expired_at_def)
  have "map (the \<circ> m(k := None)) ks = map (the \<circ> m) ks" using nk by auto
  then have "sorted (map (the \<circ> m) ks)" using rest by (simp only: expired_batch_def)
  moreover have "e \<le> the (m k')" if "k' \<in> set ks" for k'
    using that rest least by (force simp: expired_batch_def expired_at_def split: if_splits)
  moreover have "the (m k1) \<le> e'"
    if "k1 \<in> set ks" "k2 \<notin> set ks" "k2 \<noteq> k" "m k2 = Some e'" for k1 k2 e'
    using that rest nk by (auto simp: expired_batch_def split: if_splits)
  ultimately show ?thesis
    using k nk rest least
    by (auto simp: expired_batch_def expired_at_def split: if_splits)
qed

lemma root_least_entry:
  assumes "index_ok ix" "heap ix \<noteq> []"
  shows "entries ix (entry_key (heap ix ! 0)) = Some (exp_at ix 0)"
    and "entries ix k = Some e \<Longrightarrow> exp_at ix 0 \<le> e"
proof -
  have ok: "positions_ok ix" "heap_ordered ix" using assms by (auto simp: index_ok_def)
  show "entries ix (entry_key (heap ix ! 0)) = Some (exp_at ix 0)"
    using assms(2) positions_okD(1) [OF ok(1), of 0] by (simp add: entries_def)
  show "entries ix k = Some e \<Longrightarrow> exp_at ix 0 \<le> e"
    using heap_root_least [OF ok(2)] positions_okD(2) [OF ok(1)] by (auto simp: entries_def)
qed

lemma entries_empty_heap: "index_ok ix \<Longrightarrow> heap ix = [] \<Longrightarrow> entries ix = Map.empty"
  by (fastforce simp: entries_def index_ok_def positions_ok_def)

lemma take_expired_loop_spec:
  assumes "index_ok ix" "take_expired_loop now budget acc ix = (ix', out)"
  shows "\<exists>ks. out = acc @ ks \<and> index_ok ix' \<and> expired_batch now (entries ix) ks \<and>
    entries ix' = entries ix |` (- set ks) \<and>
    length ks \<le> budget - length acc \<and>
    (length out < budget \<longrightarrow> expired_at now (entries ix') = {})"
  using assms
proof (induction now budget acc ix rule: take_expired_loop.induct)
  case (1 now budget acc ix)
  let ?k = "entry_key (heap ix ! 0)"
  show ?case
  proof (cases "length acc < budget \<and> heap ix \<noteq> [] \<and> exp_at ix 0 \<le> now")
    case False
    then have "ix' = ix" "out = acc" using "1.prems" by (auto simp: take_expired_loop.simps)
    moreover have "expired_at now (entries ix) = {}" if "length acc < budget"
    proof (cases "heap ix = []")
      case True
      then show ?thesis using "1.prems" by (simp add: entries_empty_heap expired_at_def)
    next
      case nonempty: False
      then have "now < exp_at ix 0" using False that by auto
      then show ?thesis
        using root_least_entry(2) [OF "1.prems"(1) nonempty] by (force simp: expired_at_def)
    qed
    ultimately show ?thesis using "1.prems" by (simp add: expired_batch_Nil)
  next
    case True
    note del = index_delete_spec [OF "1.prems"(1), of ?k]
    have "take_expired_loop now budget (acc @ [?k]) (index_delete ?k ix) = (ix', out)"
      using True "1.prems" by (simp add: take_expired_loop.simps [of now budget acc ix] Let_def)
    then obtain ks where ks: "out = acc @ ?k # ks" "index_ok ix'"
      "expired_batch now ((entries ix)(?k := None)) ks"
      "entries ix' = (entries ix)(?k := None) |` (- set ks)"
      "length ks \<le> budget - Suc (length acc)"
      "length out < budget \<longrightarrow> expired_at now (entries ix') = {}"
      using "1.IH" [OF True refl del(1)] unfolding del(2) by (auto simp del: fun_upd_apply)
    have "expired_batch now (entries ix) (?k # ks)"
      using expired_batch_Cons [OF root_least_entry(1) _ root_least_entry(2) ks(3)]
        True "1.prems"(1) by simp
    moreover have "entries ix' = entries ix |` (- set (?k # ks))"
      using ks(4) by (auto simp: restrict_map_def fun_eq_iff)
    ultimately show ?thesis
      using ks True by (intro exI [of _ "?k # ks"]) auto
  qed
qed

lemma take_expired_spec:
  assumes "index_ok ix" "take_expired now budget ix = (ix', ks)"
  shows "index_ok ix'" and "expired_batch now (entries ix) ks"
    and "entries ix' = entries ix |` (- set ks)" and "length ks \<le> budget"
    and "length ks < budget \<Longrightarrow> expired_at now (entries ix') = {}"
  using take_expired_loop_spec [OF assms(1), of now budget "[]"] assms(2)
  by (auto simp: take_expired_def)

section \<open>The contract the router relies on\<close>

text \<open>
  The router keeps one expiry per cached assignment.  \<open>mirrors\<close> says that the index and
  the cached assignments agree; the contract gives what each operation does to the agreement.
\<close>

locale expiry_contract =
  fixes inv :: "'ix \<Rightarrow> bool"
    and expiries :: "'ix \<Rightarrow> (js_string \<rightharpoonup> int)"
    and insert_op :: "js_string \<Rightarrow> int \<Rightarrow> 'ix \<Rightarrow> 'ix"
    and delete_op :: "js_string \<Rightarrow> 'ix \<Rightarrow> 'ix"
    and take_op :: "int \<Rightarrow> nat \<Rightarrow> 'ix \<Rightarrow> 'ix \<times> js_string list"
  assumes inv_insert: "inv ix \<Longrightarrow> inv (insert_op k e ix)"
    and expiries_insert: "inv ix \<Longrightarrow> expiries (insert_op k e ix) = (expiries ix)(k \<mapsto> e)"
    and inv_delete: "inv ix \<Longrightarrow> inv (delete_op k ix)"
    and expiries_delete: "inv ix \<Longrightarrow> expiries (delete_op k ix) = (expiries ix)(k := None)"
    and inv_take: "inv ix \<Longrightarrow> inv (fst (take_op now budget ix))"
    and expiries_take: "inv ix \<Longrightarrow>
      expiries (fst (take_op now budget ix)) = expiries ix |` (- set (snd (take_op now budget ix)))"
    and batch_take: "inv ix \<Longrightarrow> expired_batch now (expiries ix) (snd (take_op now budget ix))"
begin

definition mirrors :: "'ix \<Rightarrow> ('v \<Rightarrow> int) \<Rightarrow> (js_string \<rightharpoonup> 'v) \<Rightarrow> bool" where
  "mirrors ix expiry m \<longleftrightarrow> inv ix \<and> expiries ix = map_option expiry \<circ> m"

lemma mirrors_insert:
  "mirrors ix expiry m \<Longrightarrow> mirrors (insert_op k (expiry v) ix) expiry (m(k \<mapsto> v))"
  by (auto simp: mirrors_def inv_insert expiries_insert)

lemma mirrors_delete: "mirrors ix expiry m \<Longrightarrow> mirrors (delete_op k ix) expiry (m(k := None))"
  by (auto simp: mirrors_def inv_delete expiries_delete fun_eq_iff)

lemma mirrors_take:
  assumes "mirrors ix expiry m" "take_op now budget ix = (ix', ks)"
  shows "mirrors ix' expiry (m |` (- set ks))"
    and "k \<in> set ks \<Longrightarrow> \<exists>v. m k = Some v \<and> expiry v \<le> now"
proof -
  have "inv ix" and m: "expiries ix = map_option expiry \<circ> m" using assms by (auto simp: mirrors_def)
  then have t: "inv ix'" "expiries ix' = expiries ix |` (- set ks)"
    "expired_batch now (expiries ix) ks"
    using inv_take [of ix now budget] expiries_take [of ix now budget]
      batch_take [of ix now budget] assms(2) by auto
  show "mirrors ix' expiry (m |` (- set ks))"
    using t m by (auto simp: mirrors_def restrict_map_def fun_eq_iff)
  show "k \<in> set ks \<Longrightarrow> \<exists>v. m k = Some v \<and> expiry v \<le> now"
    using t(3) m by (auto simp: expired_batch_def expired_at_def)
qed

end

interpretation heap_index: expiry_contract index_ok entries index_set index_delete take_expired
  by unfold_locales
     (auto simp: index_set_spec index_delete_spec intro: take_expired_spec [OF _ surjective_pairing]
       dest: take_expired_spec(3) [OF _ surjective_pairing])

section \<open>Properties\<close>

datatype index_op = Op_Set js_string int | Op_Delete js_string | Op_Take int nat

fun index_step :: "expiry_index \<Rightarrow> index_op \<Rightarrow> expiry_index" where
  "index_step ix (Op_Set k e) = index_set k e ix"
| "index_step ix (Op_Delete k) = index_delete k ix"
| "index_step ix (Op_Take now budget) = fst (take_expired now budget ix)"

lemma index_step_ok: "index_ok ix \<Longrightarrow> index_ok (index_step ix op)"
  by (cases op) (auto simp: index_set_spec index_delete_spec heap_index.inv_take)

interpretation index_machine: invariant_machine index_ok "\<lambda>_ _. True" index_step
  by unfold_locales (rule index_step_ok)

lemma index_run_ok: "index_ok (foldl index_step empty_index ops)"
  by (rule index_machine.run_inv [OF index_ok_empty]) simp

text \<open>
  C16: After every sequence of \<^verbatim>\<open>set\<close>, \<^verbatim>\<open>delete\<close>
  and \<^verbatim>\<open>takeExpired\<close> calls on a new index, the positions map is the inverse of the
  heap array, every parent expires no later than its children, \<^verbatim>\<open>size\<close> counts the
  keys, and the next \<^verbatim>\<open>set\<close> or \<^verbatim>\<open>delete\<close> changes the stored expiry of
  its own key and of no other.
\<close>

theorem expiry_index_is_a_map:
  fixes ops :: "index_op list"
  defines "ix \<equiv> foldl index_step empty_index ops"
  shows "positions_ok ix \<and> heap_ordered ix \<and> index_size ix = card (dom (entries ix)) \<and>
    entries (index_set k e ix) = (entries ix)(k \<mapsto> e) \<and>
    entries (index_delete k ix) = (entries ix)(k := None)"
  using index_run_ok [of ops]
  by (simp add: ix_def index_set_spec index_delete_spec card_dom_entries index_ok_def)

text \<open>
  After every sequence of calls on a new index, \<^verbatim>\<open>takeExpired(now, budget)\<close>
  returns at most \<open>budget\<close> distinct keys, each with an expiry at or before \<open>now\<close>, in
  the order of their expiries and none later than an entry left in the index; exactly these keys are
  removed, and unless the budget is exhausted no entry that expired by \<open>now\<close> is left.
\<close>

theorem take_expired_correct:
  fixes ops :: "index_op list"
  defines "ix \<equiv> foldl index_step empty_index ops"
  shows "case take_expired now budget ix of (ix', ks) \<Rightarrow>
    expired_batch now (entries ix) ks \<and> length ks \<le> budget \<and>
    entries ix' = entries ix |` (- set ks) \<and>
    (length ks = budget \<or> expired_at now (entries ix') = {})"
proof -
  obtain ix' ks where t: "take_expired now budget ix = (ix', ks)" by fastforce
  have "index_ok ix" unfolding ix_def by (rule index_run_ok)
  from take_expired_spec [OF this t] t show ?thesis by auto
qed

end
