(* ===== verification/Webhook_Routing.thy ===== *)
theory Webhook_Routing
  imports Expiry_Index Moderation_Runtime Complex_Main
begin

text \<open>
  \<^verbatim>\<open>apps/api/src/webhook/webhook-routing.service.ts\<close>: the router that keeps a chat
  on one default shard for a while and moves it to the least pressured shard when it may.

  \<^item> The database query and the metrics service are outside: their answers are arguments of the
    handlers that receive them.  An \<^verbatim>\<open>async\<close> method is cut at its
    \<^verbatim>\<open>await\<close>s; each piece runs without interruption and is one handler, and
    other handlers may run between two pieces.
  \<^item> A refresh in flight is a numbered promise; \<open>assignmentRefreshes\<close> maps a chat's key to
    its number.  The \<^verbatim>\<open>finally\<close> callback is a handler of its own.
  \<^item> The count maps are total functions with 0 for a missing key: every reader says
    \<^verbatim>\<open>?? 0\<close>.  The share of a hot worker is compared exactly, as a rational.
\<close>

section \<open>Configuration\<close>

definition js_rational :: "js_string \<Rightarrow> rat option" where
  "js_rational raw =
     (let s = trim raw
      in if s = [] then Some 0
         else (case parse_radix s of
             Some n \<Rightarrow> Some (of_int n)
           | None \<Rightarrow>
               map_option (\<lambda>(m, e). if 0 \<le> e then of_int (m * 10 ^ nat e)
                                     else of_int m / of_int (10 ^ nat (- e)))
                 (parse_decimal s)))"

definition config_number :: "js_value \<Rightarrow> rat option" where
  "config_number v =
     (case v of
        Num s \<Rightarrow> js_rational s
      | Str s \<Rightarrow> if trim s \<noteq> [] then js_rational s else None
      | _ \<Rightarrow> None)"

definition readConfigInt :: "js_value \<Rightarrow> int \<Rightarrow> int \<Rightarrow> int" where
  "readConfigInt v fallback least =
     (case config_number v of
        Some x \<Rightarrow> if of_int least \<le> x then (if 0 \<le> x then \<lfloor>x\<rfloor> else \<lceil>x\<rceil>) else fallback
      | None \<Rightarrow> fallback)"

definition readFractionConfig :: "js_value \<Rightarrow> rat \<Rightarrow> rat" where
  "readFractionConfig v fallback =
     (case config_number v of
        Some x \<Rightarrow> if 0 < x \<and> x \<le> 1 then x else fallback
      | None \<Rightarrow> fallback)"

record router_config =
  maxChatAssignments :: int
  chatAssignmentTtlMs :: int
  queueSnapshotMaxAgeMs :: int
  hotWorkerRebalanceMinAgeMs :: int
  hotWorkerRebalancePressureShare :: rat
  hotWorkerRebalancePressureMin :: int

definition DEFAULT_MAX_CHAT_ASSIGNMENTS :: int where "DEFAULT_MAX_CHAT_ASSIGNMENTS = 50000"

definition EXPIRY_MAINTENANCE_BUDGET :: nat where "EXPIRY_MAINTENANCE_BUDGET = 256"

definition ADAPTIVE_TTL_HOT_QUEUE_MS :: int where "ADAPTIVE_TTL_HOT_QUEUE_MS = 30000"

definition ACTIVE_QUEUE_PRESSURE_WEIGHT :: int where "ACTIVE_QUEUE_PRESSURE_WEIGHT = 4"

definition ACTIVE_WORKER_PRESSURE_WEIGHT :: int where "ACTIVE_WORKER_PRESSURE_WEIGHT = 6"

text \<open>The constructor; \<open>get\<close> is \<^verbatim>\<open>configService.get\<close>.\<close>

definition router_config :: "(string \<Rightarrow> js_value) \<Rightarrow> router_config" where
  "router_config get =
     \<lparr>maxChatAssignments =
        readConfigInt (get ''WEBHOOK_ROUTING_CHAT_ASSIGNMENT_CAPACITY'') DEFAULT_MAX_CHAT_ASSIGNMENTS 1,
      chatAssignmentTtlMs =
        readConfigInt (get ''WEBHOOK_ROUTING_CHAT_ASSIGNMENT_TTL_SEC'') 90 1 * 1000,
      queueSnapshotMaxAgeMs =
        readConfigInt (get ''WEBHOOK_ROUTING_QUEUE_SNAPSHOT_MAX_AGE_MS'') 1000 50,
      hotWorkerRebalanceMinAgeMs =
        readConfigInt (get ''WEBHOOK_ROUTING_HOT_WORKER_REBALANCE_MIN_AGE_MS'') 12000 1000,
      hotWorkerRebalancePressureShare =
        readFractionConfig (get ''WEBHOOK_ROUTING_HOT_WORKER_REBALANCE_PRESSURE_SHARE'') (7 / 10),
      hotWorkerRebalancePressureMin =
        readConfigInt (get ''WEBHOOK_ROUTING_HOT_WORKER_REBALANCE_PRESSURE_MIN'') 4 1\<rparr>"

section \<open>State\<close>

record chat_assignment =
  ca_queueName :: webhook_queue
  ca_assignedAtMs :: int
  ca_expiresAtMs :: int

record queue_counters =
  qc_waiting :: int
  qc_active :: int
  qc_delayed :: int

record queue_snapshot =
  snap_shards :: "webhook_queue \<Rightarrow> queue_counters option"
  snap_groups :: "worker_group \<Rightarrow> queue_counters option"

record outstanding_work =
  ow_hasPending :: bool
  ow_queueName :: "webhook_queue option"

datatype refresh_stage =
    Awaiting_Work "queue_snapshot option"
  | Awaiting_Snapshot
  | Resolved webhook_queue
  | Rejected

record refresh =
  rf_key :: js_string
  rf_chatId :: js_string
  rf_now :: int
  rf_fallback :: webhook_queue
  rf_stage :: refresh_stage

record router =
  chatAssignments :: "(js_string, chat_assignment) jsmap"
  expiryIndex :: expiry_index
  byQueue :: "webhook_queue \<Rightarrow> int"
  byWorker :: "worker_group \<Rightarrow> int"
  assignmentRefreshes :: "js_string \<rightharpoonup> nat"
  refreshes :: "nat \<rightharpoonup> refresh"
  next_refresh :: nat

definition new_router :: router where
  "new_router =
     \<lparr>chatAssignments = [], expiryIndex = empty_index, byQueue = (\<lambda>_. 0), byWorker = (\<lambda>_. 0),
      assignmentRefreshes = Map.empty, refreshes = Map.empty, next_refresh = 0\<rparr>"

definition buildAssignmentKey :: "js_string \<Rightarrow> js_string" where
  "buildAssignmentKey chatId = ascii ''chat:'' @ chatId"

definition workerGroupByQueue :: "webhook_queue \<Rightarrow> worker_group option" where
  "workerGroupByQueue =
     foldl (\<lambda>m g. foldl (\<lambda>m q. m(q := Some g)) m (DEFAULT_WEBHOOK_WORKER_GROUP_QUEUES g))
       (\<lambda>_. None) DEFAULT_WEBHOOK_WORKER_GROUP_NAMES"

section \<open>Assignments\<close>

definition adjustAssignmentCounts :: "webhook_queue \<Rightarrow> int \<Rightarrow> router \<Rightarrow> router" where
  "adjustAssignmentCounts q delta r =
     (let r = r\<lparr>byQueue := (byQueue r)(q := byQueue r q + delta)\<rparr>
      in case workerGroupByQueue q of
           Some worker \<Rightarrow> r\<lparr>byWorker := (byWorker r)(worker := byWorker r worker + delta)\<rparr>
         | None \<Rightarrow> r)"

definition removeAssignment :: "js_string \<Rightarrow> router \<Rightarrow> router" where
  "removeAssignment key r =
     (case jsmap_get (chatAssignments r) key of
        None \<Rightarrow> r
      | Some assignment \<Rightarrow>
          (let r = adjustAssignmentCounts (ca_queueName assignment) (- 1) r
           in r\<lparr>chatAssignments := jsmap_delete key (chatAssignments r),
                expiryIndex := index_delete key (expiryIndex r)\<rparr>))"

definition countActiveAssignments :: "int \<Rightarrow> router \<Rightarrow> router" where
  "countActiveAssignments now r =
     (let (ix, keys) = take_expired now EXPIRY_MAINTENANCE_BUDGET (expiryIndex r)
      in fold removeAssignment keys (r\<lparr>expiryIndex := ix\<rparr>))"

definition readFreshAssignment :: "js_string \<Rightarrow> int \<Rightarrow> router \<Rightarrow> chat_assignment option" where
  "readFreshAssignment key now r =
     (case jsmap_get (chatAssignments r) key of
        None \<Rightarrow> None
      | Some a \<Rightarrow> if ca_expiresAtMs a \<le> now then None else Some a)"

text \<open>\<open>clock\<close> is the second reading of the clock, inside \<^verbatim>\<open>resolveAdaptiveTtlMs\<close>.\<close>

definition resolveAdaptiveTtlMs :: "router_config \<Rightarrow> int \<Rightarrow> webhook_queue \<Rightarrow> router \<Rightarrow> router \<times> int" where
  "resolveAdaptiveTtlMs cfg clock q r =
     (case workerGroupByQueue q of
        None \<Rightarrow> (r, chatAssignmentTtlMs cfg)
      | Some worker \<Rightarrow>
          (let r = countActiveAssignments clock r
           in (r, if byWorker r worker \<ge> max 4 (int (length DEFAULT_WEBHOOK_QUEUE_NAMES) div 2)
                  then min (chatAssignmentTtlMs cfg) ADAPTIVE_TTL_HOT_QUEUE_MS
                  else chatAssignmentTtlMs cfg)))"

lemma jsmap_delete_shorter: "jsmap_get m k = Some v \<Longrightarrow> length (jsmap_delete k m) < length m"
  by (induction m) (auto simp: less_Suc_eq_le length_delete_le split: if_splits)

lemma adjust_simps [simp]:
  "chatAssignments (adjustAssignmentCounts q d r) = chatAssignments r"
  "expiryIndex (adjustAssignmentCounts q d r) = expiryIndex r"
  "assignmentRefreshes (adjustAssignmentCounts q d r) = assignmentRefreshes r"
  "refreshes (adjustAssignmentCounts q d r) = refreshes r"
  "next_refresh (adjustAssignmentCounts q d r) = next_refresh r"
  by (simp_all add: adjustAssignmentCounts_def Let_def split: option.splits)

lemma assignments_remove:
  "chatAssignments (removeAssignment k r) = jsmap_delete k (chatAssignments r)"
  by (auto simp: removeAssignment_def Let_def jsmap_delete_absent split: option.splits)

function evict_oldest :: "router_config \<Rightarrow> router \<Rightarrow> router" where
  "evict_oldest cfg r =
     (if int (length (chatAssignments r)) > maxChatAssignments cfg then
        (case chatAssignments r of
           [] \<Rightarrow> r
         | (oldestKey, _) # _ \<Rightarrow> evict_oldest cfg (removeAssignment oldestKey r))
      else r)"
  by pat_completeness auto
termination
  by (relation "measure (\<lambda>(cfg, r). length (chatAssignments r))")
     (auto simp: assignments_remove less_Suc_eq_le length_delete_le)

declare evict_oldest.simps [simp del]

definition storeAssignment ::
  "router_config \<Rightarrow> int \<Rightarrow> js_string \<Rightarrow> webhook_queue \<Rightarrow> int \<Rightarrow> router \<Rightarrow> router" where
  "storeAssignment cfg clock key q now r =
     (let cached = jsmap_get (chatAssignments r) key;
          (r, ttl) =
            (if map_option ca_queueName cached = Some q then (r, chatAssignmentTtlMs cfg)
             else resolveAdaptiveTtlMs cfg clock q r);
          assignment = \<lparr>ca_queueName = q, ca_assignedAtMs = now, ca_expiresAtMs = now + ttl\<rparr>;
          r = removeAssignment key r;
          r = r\<lparr>chatAssignments := jsmap_set key assignment (chatAssignments r)\<rparr>;
          r = r\<lparr>expiryIndex := index_set key (ca_expiresAtMs assignment) (expiryIndex r)\<rparr>;
          r = adjustAssignmentCounts q 1 r
      in evict_oldest cfg r)"

section \<open>Choice of a shard\<close>

record queue_pressure =
  qp_queueName :: webhook_queue
  qp_queuePressureScore :: int
  qp_workerPressureScore :: int
  qp_queuePressure :: int
  qp_workerPressure :: int
  qp_leasedChats :: int
  qp_workerLeasedChats :: int
  qp_tieOrder :: int

definition compareQueuePressure :: "queue_pressure \<Rightarrow> queue_pressure \<Rightarrow> int" where
  "compareQueuePressure left right =
     (if qp_workerPressureScore left \<noteq> qp_workerPressureScore right
      then qp_workerPressureScore left - qp_workerPressureScore right
      else if qp_queuePressureScore left \<noteq> qp_queuePressureScore right
      then qp_queuePressureScore left - qp_queuePressureScore right
      else if qp_queuePressure left \<noteq> qp_queuePressure right
      then qp_queuePressure left - qp_queuePressure right
      else if qp_workerPressure left \<noteq> qp_workerPressure right
      then qp_workerPressure left - qp_workerPressure right
      else if qp_workerLeasedChats left \<noteq> qp_workerLeasedChats right
      then qp_workerLeasedChats left - qp_workerLeasedChats right
      else if qp_leasedChats left \<noteq> qp_leasedChats right
      then qp_leasedChats left - qp_leasedChats right
      else qp_tieOrder left - qp_tieOrder right)"

definition rotateQueueNames :: "js_string \<Rightarrow> webhook_queue list" where
  "rotateQueueNames chatId =
     (let startIndex = resolveDefaultWebhookQueueIndexForChatId chatId
      in map (\<lambda>offset. DEFAULT_WEBHOOK_QUEUE_NAMES ! ((startIndex + offset) mod length DEFAULT_WEBHOOK_QUEUE_NAMES))
           [0..<length DEFAULT_WEBHOOK_QUEUE_NAMES])"

text \<open>A missing shard counts as idle.\<close>

definition shard_counters :: "queue_snapshot \<Rightarrow> webhook_queue \<Rightarrow> queue_counters" where
  "shard_counters snapshot q =
     (case snap_shards snapshot q of
        Some c \<Rightarrow> c | None \<Rightarrow> \<lparr>qc_waiting = 0, qc_active = 0, qc_delayed = 0\<rparr>)"

definition buildQueuePressureCandidate ::
  "webhook_queue \<Rightarrow> nat \<Rightarrow> queue_snapshot \<Rightarrow> router \<Rightarrow> queue_pressure" where
  "buildQueuePressureCandidate q tieOrder snapshot r =
     (let c = shard_counters snapshot q;
          queuePressure = qc_waiting c + qc_active c + qc_delayed c;
          queuePressureScore = qc_waiting c + qc_active c * ACTIVE_QUEUE_PRESSURE_WEIGHT + qc_delayed c;
          worker = workerGroupByQueue q;
          workerCounters = (case worker of Some g \<Rightarrow> snap_groups snapshot g | None \<Rightarrow> None);
          workerPressure =
            (case workerCounters of Some w \<Rightarrow> qc_waiting w + qc_active w | None \<Rightarrow> queuePressure);
          workerPressureScore =
            (case workerCounters of
               Some w \<Rightarrow> qc_waiting w + qc_active w * ACTIVE_WORKER_PRESSURE_WEIGHT
             | None \<Rightarrow> queuePressureScore)
      in \<lparr>qp_queueName = q, qp_queuePressureScore = queuePressureScore,
          qp_workerPressureScore = workerPressureScore, qp_queuePressure = queuePressure,
          qp_workerPressure = workerPressure, qp_leasedChats = byQueue r q,
          qp_workerLeasedChats = (case worker of Some g \<Rightarrow> byWorker r g | None \<Rightarrow> 0),
          qp_tieOrder = int tieOrder\<rparr>)"

definition best_candidate :: "queue_pressure list \<Rightarrow> queue_pressure" where
  "best_candidate candidates =
     foldl (\<lambda>best current. if compareQueuePressure current best < 0 then current else best)
       (hd candidates) (tl candidates)"

definition keepCurrentQueue :: "queue_pressure \<Rightarrow> queue_pressure \<Rightarrow> bool" where
  "keepCurrentQueue current best \<longleftrightarrow>
     compareQueuePressure current best \<le> 0 \<or>
     (qp_queuePressure current - qp_queuePressure best \<le> 1 \<and>
      qp_workerPressure current - qp_workerPressure best \<le> 1 \<and>
      qp_queuePressureScore current - qp_queuePressureScore best \<le> 2 \<and>
      qp_workerPressureScore current - qp_workerPressureScore best \<le> 3 \<and>
      qp_leasedChats current - qp_leasedChats best \<le> 1 \<and>
      qp_workerLeasedChats current - qp_workerLeasedChats best \<le> 1)"

definition queue_candidates :: "js_string \<Rightarrow> queue_snapshot \<Rightarrow> router \<Rightarrow> queue_pressure list" where
  "queue_candidates chatId snapshot r =
     map (\<lambda>(q, tieOrder). buildQueuePressureCandidate q tieOrder snapshot r)
       (zip (rotateQueueNames chatId) [0..<length (rotateQueueNames chatId)])"

definition selectLeastPressuredQueue ::
  "js_string \<Rightarrow> queue_snapshot \<Rightarrow> webhook_queue \<Rightarrow> int \<Rightarrow> router \<Rightarrow> router \<times> webhook_queue" where
  "selectLeastPressuredQueue chatId snapshot currentQueueName now r =
     (let r = countActiveAssignments now r;
          candidates = queue_candidates chatId snapshot r;
          best = best_candidate candidates
      in case find (\<lambda>c. qp_queueName c = currentQueueName) candidates of
           None \<Rightarrow> (r, qp_queueName best)
         | Some current \<Rightarrow>
             (r, if keepCurrentQueue current best then currentQueueName else qp_queueName best))"

section \<open>Handlers\<close>

datatype answer =
  Answer webhook_queue | Ask_Snapshot chat_assignment | Await_Refresh nat

text \<open>The rest of \<^verbatim>\<open>readHotWorkerSnapshotForAssignment\<close> once the snapshot is there.\<close>

definition hot_worker :: "router_config \<Rightarrow> chat_assignment \<Rightarrow> queue_snapshot \<Rightarrow> bool" where
  "hot_worker cfg a snapshot =
     (let pressure = (\<lambda>c. qc_waiting c + qc_active c * ACTIVE_WORKER_PRESSURE_WEIGHT);
          totalPressure =
            sum_list (map pressure (List.map_filter (snap_groups snapshot) DEFAULT_WEBHOOK_WORKER_GROUP_NAMES))
      in if totalPressure < hotWorkerRebalancePressureMin cfg then False
         else (case workerGroupByQueue (ca_queueName a) of
             None \<Rightarrow> False
           | Some worker \<Rightarrow>
               (case snap_groups snapshot worker of
                  None \<Rightarrow> False
                | Some c \<Rightarrow>
                    of_int (pressure c) / of_int totalPressure \<ge> hotWorkerRebalancePressureShare cfg)))"

text \<open>Join the refresh in flight for the key, or start \<^verbatim>\<open>refreshChatAssignment\<close>.\<close>

definition join_or_start ::
  "js_string \<Rightarrow> int \<Rightarrow> queue_snapshot option \<Rightarrow> router \<Rightarrow> router \<times> answer" where
  "join_or_start chatId now preloaded r =
     (let key = buildAssignmentKey chatId
      in case assignmentRefreshes r key of
           Some refresh \<Rightarrow> (r, Await_Refresh refresh)
         | None \<Rightarrow>
             (let fallback = (case jsmap_get (chatAssignments r) key of
                    Some previous \<Rightarrow> ca_queueName previous
                  | None \<Rightarrow> resolveDefaultWebhookQueueNameForChatId chatId);
                  i = next_refresh r
              in (r\<lparr>refreshes := (refreshes r)(i \<mapsto>
                      \<lparr>rf_key = key, rf_chatId = chatId, rf_now = now, rf_fallback = fallback,
                       rf_stage = Awaiting_Work preloaded\<rparr>),
                    assignmentRefreshes := (assignmentRefreshes r)(key \<mapsto> i),
                    next_refresh := Suc i\<rparr>,
                  Await_Refresh i)))"

definition resolve_call :: "router_config \<Rightarrow> js_string \<Rightarrow> int \<Rightarrow> router \<Rightarrow> router \<times> answer" where
  "resolve_call cfg chatId now r =
     (case readFreshAssignment (buildAssignmentKey chatId) now r of
        Some current \<Rightarrow>
          if now - ca_assignedAtMs current < hotWorkerRebalanceMinAgeMs cfg \<or>
             workerGroupByQueue (ca_queueName current) = None
          then (r, Answer (ca_queueName current))
          else (r, Ask_Snapshot current)
      | None \<Rightarrow> join_or_start chatId now None r)"

definition resolve_snapshot ::
  "router_config \<Rightarrow> js_string \<Rightarrow> int \<Rightarrow> chat_assignment \<Rightarrow> queue_snapshot \<Rightarrow> router \<Rightarrow> router \<times> answer" where
  "resolve_snapshot cfg chatId now current snapshot r =
     (if hot_worker cfg current snapshot then join_or_start chatId now (Some snapshot) r
      else (r, Answer (ca_queueName current)))"

text \<open>
  The first row of the answer of \<^verbatim>\<open>findOutstandingMessageQueueWork\<close>'s query:
  \<^verbatim>\<open>has_pending\<close> and \<^verbatim>\<open>queue_name\<close>.
\<close>

definition findOutstandingMessageQueueWork :: "(js_value \<times> js_value) option \<Rightarrow> outstanding_work" where
  "findOutstandingMessageQueueWork row =
     (case row of
        None \<Rightarrow> \<lparr>ow_hasPending = False, ow_queueName = None\<rparr>
      | Some (has_pending, queue_name) \<Rightarrow>
          \<lparr>ow_hasPending = (has_pending = Bool True),
           ow_queueName =
             (case queue_name of Str s \<Rightarrow> find_label queue_label DEFAULT_WEBHOOK_QUEUE_NAMES s
              | _ \<Rightarrow> None)\<rparr>)"

definition set_stage :: "nat \<Rightarrow> refresh_stage \<Rightarrow> router \<Rightarrow> router" where
  "set_stage i stage r = r\<lparr>refreshes := (refreshes r)(i := map_option (rf_stage_update (\<lambda>_. stage)) (refreshes r i))\<rparr>"

definition refresh_select ::
  "router_config \<Rightarrow> int \<Rightarrow> nat \<Rightarrow> refresh \<Rightarrow> queue_snapshot \<Rightarrow> router \<Rightarrow> router" where
  "refresh_select cfg clock i rf snapshot r =
     (let (r, nextQueue) = selectLeastPressuredQueue (rf_chatId rf) snapshot (rf_fallback rf) (rf_now rf) r
      in set_stage i (Resolved nextQueue)
           (storeAssignment cfg clock (rf_key rf) nextQueue (rf_now rf) r))"

definition refresh_work ::
  "router_config \<Rightarrow> int \<Rightarrow> nat \<Rightarrow> (js_value \<times> js_value) option \<Rightarrow> router \<Rightarrow> router" where
  "refresh_work cfg clock i row r =
     (case refreshes r i of
        None \<Rightarrow> r
      | Some rf \<Rightarrow>
          (case rf_stage rf of
             Awaiting_Work preloaded \<Rightarrow>
               (let work = findOutstandingMessageQueueWork row
                in if ow_hasPending work then
                     (let q = (case ow_queueName work of Some q \<Rightarrow> q | None \<Rightarrow> rf_fallback rf)
                      in set_stage i (Resolved q) (storeAssignment cfg clock (rf_key rf) q (rf_now rf) r))
                   else
                     (case preloaded of
                        Some snapshot \<Rightarrow> refresh_select cfg clock i rf snapshot r
                      | None \<Rightarrow> set_stage i Awaiting_Snapshot r))
           | _ \<Rightarrow> r))"

definition refresh_snapshot :: "router_config \<Rightarrow> int \<Rightarrow> nat \<Rightarrow> queue_snapshot \<Rightarrow> router \<Rightarrow> router" where
  "refresh_snapshot cfg clock i snapshot r =
     (case refreshes r i of
        None \<Rightarrow> r
      | Some rf \<Rightarrow>
          (case rf_stage rf of
             Awaiting_Snapshot \<Rightarrow> refresh_select cfg clock i rf snapshot r
           | _ \<Rightarrow> r))"

fun waiting_stage :: "refresh_stage \<Rightarrow> bool" where
  "waiting_stage (Awaiting_Work _) = True"
| "waiting_stage Awaiting_Snapshot = True"
| "waiting_stage _ = False"

text \<open>The query or the metrics service fails: the promise is rejected.\<close>

definition refresh_failed :: "nat \<Rightarrow> router \<Rightarrow> router" where
  "refresh_failed i r =
     (case refreshes r i of
        None \<Rightarrow> r
      | Some rf \<Rightarrow> if waiting_stage (rf_stage rf) then set_stage i Rejected r else r)"

text \<open>The \<^verbatim>\<open>finally\<close> callback, once the promise is settled.\<close>

definition refresh_finally :: "nat \<Rightarrow> router \<Rightarrow> router" where
  "refresh_finally i r =
     (case refreshes r i of
        None \<Rightarrow> r
      | Some rf \<Rightarrow>
          if \<not> waiting_stage (rf_stage rf) \<and> assignmentRefreshes r (rf_key rf) = Some i
          then r\<lparr>assignmentRefreshes := (assignmentRefreshes r)(rf_key rf := None)\<rparr> else r)"

datatype router_event =
    Ev_Call js_string int
  | Ev_Hot js_string int chat_assignment queue_snapshot
  | Ev_Work int nat "(js_value \<times> js_value) option"
  | Ev_Snapshot int nat queue_snapshot
  | Ev_Failed nat
  | Ev_Finally nat

fun router_step :: "router_config \<Rightarrow> router \<Rightarrow> router_event \<Rightarrow> router" where
  "router_step cfg r (Ev_Call chatId now) = fst (resolve_call cfg chatId now r)"
| "router_step cfg r (Ev_Hot chatId now a snapshot) = fst (resolve_snapshot cfg chatId now a snapshot r)"
| "router_step cfg r (Ev_Work clock i row) = refresh_work cfg clock i row r"
| "router_step cfg r (Ev_Snapshot clock i snapshot) = refresh_snapshot cfg clock i snapshot r"
| "router_step cfg r (Ev_Failed i) = refresh_failed i r"
| "router_step cfg r (Ev_Finally i) = refresh_finally i r"

section \<open>Routing of a payload\<close>

datatype route = Fixed webhook_queue | By_Chat js_string

text \<open>\<^verbatim>\<open>resolveQueueName\<close> up to the call that needs the chat's assignment.\<close>

definition default_route :: "js_value \<Rightarrow> route" where
  "default_route payload =
     (let chatId = readWebhookChatId payload
      in if chatId = [] then Fixed (DEFAULT_WEBHOOK_QUEUE_NAMES ! 0) else By_Chat chatId)"

definition resolveQueueName :: "js_value \<Rightarrow> route" where
  "resolveQueueName payload =
     (case webhook_type payload of
        Message_Callback \<Rightarrow> Fixed Critical_Queue
      | Bot_Added \<Rightarrow> Fixed Critical_Queue
      | Bot_Started \<Rightarrow> Fixed Critical_Queue
      | User_Added \<Rightarrow>
          (let chatId = readWebhookChatId payload
           in Fixed (if chatId \<noteq> [] then resolveJoinWebhookQueueNameForChatId chatId
                     else JOIN_WEBHOOK_QUEUE_NAMES ! 0))
      | User_Removed \<Rightarrow> Fixed Background_Queue
      | Bot_Removed \<Rightarrow> Fixed Background_Queue
      | Bot_Stopped \<Rightarrow> Fixed Background_Queue
      | Dialog_Removed \<Rightarrow> Fixed Background_Queue
      | Message_Removed \<Rightarrow> Fixed Background_Queue
      | Message_Created \<Rightarrow>
          (if isManagedEntityHandshakeStartCommand payload then Fixed Critical_Queue
           else default_route payload)
      | _ \<Rightarrow> default_route payload)"

text \<open>
  The router and the static rule agree: where the router does not look at assignments it picks
  the queue of \<^verbatim>\<open>resolveWebhookQueueName\<close>, and otherwise the event is an ordinary
  one of a known chat, whose shard under the static rule is the router's first choice.
\<close>

theorem router_agrees_with_static_rule:
  "case resolveQueueName p of
     Fixed q \<Rightarrow> resolveWebhookQueueName p = q
   | By_Chat c \<Rightarrow> ordinary_event p \<and> c \<noteq> [] \<and> c = readWebhookChatId p \<and>
       resolveWebhookQueueName p = resolveDefaultWebhookQueueNameForChatId c"
  by (cases "webhook_type p")
    (auto simp: resolveQueueName_def resolveWebhookQueueName_def default_route_def Let_def
      ordinary_event_def resolveJoinWebhookQueueName_def resolveDefaultWebhookQueueName_def)

section \<open>Invariant of the state\<close>

abbreviation worker_of :: "chat_assignment \<Rightarrow> worker_group option" where
  "worker_of a \<equiv> workerGroupByQueue (ca_queueName a)"

text \<open>
  The state while the expired keys \<open>gone\<close> are already out of the index but may still have an
  assignment; outside the maintenance loop \<open>gone\<close> is empty.
\<close>

definition cache_ok_upto :: "js_string set \<Rightarrow> router \<Rightarrow> bool" where
  "cache_ok_upto gone r \<longleftrightarrow>
     jsmap_ok (chatAssignments r) \<and>
     heap_index.mirrors (expiryIndex r) ca_expiresAtMs (jsmap_get (chatAssignments r) |` (- gone)) \<and>
     (\<forall>q. byQueue r q = count_with ca_queueName (chatAssignments r) q) \<and>
     (\<forall>g. byWorker r g = count_with worker_of (chatAssignments r) (Some g)) \<and>
     (\<forall>(k, a) \<in> set (chatAssignments r). ca_queueName a \<in> set DEFAULT_WEBHOOK_QUEUE_NAMES)"

abbreviation cache_ok :: "router \<Rightarrow> bool" where
  "cache_ok r \<equiv> cache_ok_upto {} r"

lemma restrict_compl_empty [simp]: "m |` (- {}) = m"
  by simp

lemma remove_state:
  "jsmap_get (chatAssignments r) k = Some a \<Longrightarrow>
    removeAssignment k r = r\<lparr>
      byQueue := (byQueue r)(ca_queueName a := byQueue r (ca_queueName a) - 1),
      byWorker := (case worker_of a of Some g \<Rightarrow> (byWorker r)(g := byWorker r g - 1) | None \<Rightarrow> byWorker r),
      chatAssignments := jsmap_delete k (chatAssignments r),
      expiryIndex := index_delete k (expiryIndex r)\<rparr>"
  by (simp add: removeAssignment_def adjustAssignmentCounts_def Let_def split: option.splits)

lemma cache_ok_remove:
  assumes "cache_ok_upto gone r"
  shows "cache_ok_upto gone (removeAssignment k r)"
proof (cases "jsmap_get (chatAssignments r) k")
  case None
  with assms show ?thesis by (simp add: removeAssignment_def)
next
  case (Some a)
  have "(jsmap_get (chatAssignments r) |` (- gone))(k := None) =
      jsmap_get (jsmap_delete k (chatAssignments r)) |` (- gone)"
    by (rule ext) (simp add: restrict_map_def)
  moreover have "heap_index.mirrors (expiryIndex r) ca_expiresAtMs
      (jsmap_get (chatAssignments r) |` (- gone))"
    using assms by (simp add: cache_ok_upto_def)
  ultimately have m: "heap_index.mirrors (index_delete k (expiryIndex r)) ca_expiresAtMs
      (jsmap_get (jsmap_delete k (chatAssignments r)) |` (- gone))"
    using heap_index.mirrors_delete by metis
  show ?thesis
    using assms m set_jsmap_delete [of k "chatAssignments r"]
    by (auto simp del: jsmap_get_delete simp: remove_state [OF Some] cache_ok_upto_def count_with_delete [OF _ Some] split: option.splits)
qed

lemma cache_ok_remove_all: "cache_ok_upto gone r \<Longrightarrow> cache_ok_upto gone (fold removeAssignment ks r)"
  by (induction ks arbitrary: r) (simp_all add: cache_ok_remove)

lemma assignments_remove_all:
  "jsmap_get (chatAssignments (fold removeAssignment ks r)) k =
    (if k \<in> set ks then None else jsmap_get (chatAssignments r) k)"
  by (induction ks arbitrary: r) (auto simp: assignments_remove)

lemma length_remove_all:
  "length (chatAssignments (fold removeAssignment ks r)) \<le> length (chatAssignments r)"
proof (induction ks arbitrary: r)
  case (Cons k ks)
  have "length (chatAssignments (removeAssignment k r)) \<le> length (chatAssignments r)"
    by (simp add: assignments_remove length_delete_le)
  with Cons [of "removeAssignment k r"] show ?case by simp
qed simp

lemma cache_ok_close:
  assumes "cache_ok_upto gone r" "\<forall>k\<in>gone. jsmap_get (chatAssignments r) k = None"
  shows "cache_ok r"
proof -
  have "jsmap_get (chatAssignments r) |` (- gone) = jsmap_get (chatAssignments r)"
    using assms(2) by (auto simp: restrict_map_def fun_eq_iff)
  with assms(1) show ?thesis by (simp add: cache_ok_upto_def)
qed

lemma cache_ok_count_active:
  assumes "cache_ok r"
  shows "cache_ok (countActiveAssignments now r)"
proof -
  obtain ix ks where t: "take_expired now EXPIRY_MAINTENANCE_BUDGET (expiryIndex r) = (ix, ks)"
    by fastforce
  have "heap_index.mirrors ix ca_expiresAtMs (jsmap_get (chatAssignments r) |` (- set ks))"
    by (rule heap_index.mirrors_take(1) [OF _ t]) (use assms in \<open>simp add: cache_ok_upto_def\<close>)
  then have "cache_ok_upto (set ks) (r\<lparr>expiryIndex := ix\<rparr>)"
    using assms by (simp add: cache_ok_upto_def)
  from cache_ok_remove_all [OF this, of ks]
  show ?thesis
    unfolding countActiveAssignments_def t Let_def prod.case
    by (rule cache_ok_close) (simp add: assignments_remove_all)
qed

lemma length_count_active: "length (chatAssignments (countActiveAssignments now r)) \<le> length (chatAssignments r)"
proof -
  obtain ix ks where t: "take_expired now EXPIRY_MAINTENANCE_BUDGET (expiryIndex r) = (ix, ks)"
    by fastforce
  show ?thesis
    using length_remove_all [of ks "r\<lparr>expiryIndex := ix\<rparr>"]
    by (simp add: countActiveAssignments_def t Let_def)
qed

text \<open>Eviction keeps the newest assignments.\<close>

lemma jsmap_delete_head: "jsmap_ok ((k, a) # m) \<Longrightarrow> jsmap_delete k ((k, a) # m) = m"
  by (auto simp: jsmap_delete_absent map_of_eq_None_iff rev_image_eqI)

lemma evict_state:
  "cache_ok r \<Longrightarrow> 0 \<le> maxChatAssignments cfg \<Longrightarrow>
    cache_ok (evict_oldest cfg r) \<and>
    chatAssignments (evict_oldest cfg r) =
      drop (length (chatAssignments r) - nat (maxChatAssignments cfg)) (chatAssignments r)"
proof (induction cfg r rule: evict_oldest.induct)
  case (1 cfg r)
  show ?case
  proof (cases "int (length (chatAssignments r)) > maxChatAssignments cfg")
    case True
    with "1.prems" obtain k a m where m: "chatAssignments r = (k, a) # m"
      by (cases "chatAssignments r") auto
    have ok: "jsmap_ok ((k, a) # m)" using "1.prems"(1) by (simp add: cache_ok_upto_def m)
    have step: "evict_oldest cfg r = evict_oldest cfg (removeAssignment k r)"
      using True by (subst evict_oldest.simps) (simp add: m)
    have tail: "chatAssignments (removeAssignment k r) = m"
      unfolding assignments_remove m by (rule jsmap_delete_head [OF ok])
    have "length ((k, a) # m) - nat (maxChatAssignments cfg) =
        Suc (length m - nat (maxChatAssignments cfg))"
      using True "1.prems"(2) by (simp add: m)
    then show ?thesis
      using "1.IH" [OF True m refl cache_ok_remove [OF "1.prems"(1)] "1.prems"(2)]
      by (simp add: step tail m)
  next
    case False
    then have "evict_oldest cfg r = r" by (subst evict_oldest.simps) simp
    with False "1.prems" show ?thesis by simp
  qed
qed

lemma cache_ok_put:
  assumes "cache_ok r" "jsmap_get (chatAssignments r) k = None"
    "ca_queueName a \<in> set DEFAULT_WEBHOOK_QUEUE_NAMES"
  shows "cache_ok (adjustAssignmentCounts (ca_queueName a) 1
      (r\<lparr>chatAssignments := chatAssignments r @ [(k, a)],
         expiryIndex := index_set k (ca_expiresAtMs a) (expiryIndex r)\<rparr>))"
proof -
  have "heap_index.mirrors (expiryIndex r) ca_expiresAtMs (jsmap_get (chatAssignments r))"
    using assms(1) by (simp add: cache_ok_upto_def)
  from heap_index.mirrors_insert [OF this, of k a]
  have "heap_index.mirrors (index_set k (ca_expiresAtMs a) (expiryIndex r)) ca_expiresAtMs
      (jsmap_get (chatAssignments r @ [(k, a)]))"
  proof -
    assume "heap_index.mirrors (index_set k (ca_expiresAtMs a) (expiryIndex r)) ca_expiresAtMs
      ((jsmap_get (chatAssignments r))(k \<mapsto> a))"
    moreover have "(jsmap_get (chatAssignments r))(k \<mapsto> a) = jsmap_get (chatAssignments r @ [(k, a)])"
      using assms(2) by (auto simp: fun_eq_iff map_add_def split: option.splits)
    ultimately show ?thesis by metis
  qed
  then show ?thesis
    using assms by (auto simp: cache_ok_upto_def adjustAssignmentCounts_def Let_def count_with_append
        map_of_eq_None_iff split: option.splits)
qed

text \<open>Storing, seen from outside: the new assignment is the newest, older ones may be evicted.\<close>

lemma adaptive_ttl:
  assumes "cache_ok r" "resolveAdaptiveTtlMs cfg clock q r = (r', ttl)"
  shows "cache_ok r'" "ttl \<le> chatAssignmentTtlMs cfg"
  using assms by (auto simp: resolveAdaptiveTtlMs_def Let_def cache_ok_count_active split: option.splits if_splits)

lemma store_state:
  assumes "cache_ok r" "0 \<le> maxChatAssignments cfg" "q \<in> set DEFAULT_WEBHOOK_QUEUE_NAMES"
  obtains m ttl where "cache_ok (storeAssignment cfg clock key q now r)"
    "chatAssignments (storeAssignment cfg clock key q now r) =
       drop (Suc (length m) - nat (maxChatAssignments cfg))
         (m @ [(key, \<lparr>ca_queueName = q, ca_assignedAtMs = now, ca_expiresAtMs = now + ttl\<rparr>)])"
    "ttl \<le> chatAssignmentTtlMs cfg"
proof -
  obtain r1 ttl where r1: "(if map_option ca_queueName (jsmap_get (chatAssignments r) key) = Some q
      then (r, chatAssignmentTtlMs cfg) else resolveAdaptiveTtlMs cfg clock q r) = (r1, ttl)"
    by fastforce
  have ok1: "cache_ok r1" and ttl: "ttl \<le> chatAssignmentTtlMs cfg"
    using r1 assms(1) adaptive_ttl [OF assms(1), of cfg clock q r1 ttl] by (auto split: if_splits)
  define r2 where "r2 = removeAssignment key r1"
  define a where "a = \<lparr>ca_queueName = q, ca_assignedAtMs = now, ca_expiresAtMs = now + ttl\<rparr>"
  define r3 where "r3 = adjustAssignmentCounts q 1
      (r2\<lparr>chatAssignments := chatAssignments r2 @ [(key, a)],
          expiryIndex := index_set key (now + ttl) (expiryIndex r2)\<rparr>)"
  have fresh: "jsmap_get (chatAssignments r2) key = None"
    by (simp add: r2_def assignments_remove)
  have ok3: "cache_ok r3"
    using cache_ok_put [OF cache_ok_remove [OF ok1], of key key a] fresh assms(3)
    by (simp add: r3_def a_def r2_def)
  have stored: "storeAssignment cfg clock key q now r = evict_oldest cfg r3"
    unfolding storeAssignment_def Let_def r1 prod.case r2_def [symmetric]
    by (simp add: r3_def a_def jsmap_set_fresh [OF fresh])
  show thesis
    using evict_state [OF ok3 assms(2)] ttl
    by (intro that [of "chatAssignments r2" ttl]) (simp_all add: stored r3_def a_def)
qed

section \<open>Choosing\<close>

lemma rotate_queue_names: "set (rotateQueueNames chatId) \<subseteq> set DEFAULT_WEBHOOK_QUEUE_NAMES"
    "length (rotateQueueNames chatId) = 16"
  by (auto simp: rotateQueueNames_def Let_def DEFAULT_WEBHOOK_QUEUE_NAMES_def DEFAULT_WEBHOOK_SHARD_COUNT_def)

lemma rotate_complete: "set (rotateQueueNames chatId) = set DEFAULT_WEBHOOK_QUEUE_NAMES"
proof -
  let ?s = "resolveDefaultWebhookQueueIndexForChatId chatId"
  have "Default_Queue n \<in> set (rotateQueueNames chatId)" if "n < 16" for n
  proof -
    have s: "?s < 16"
      by (simp add: resolveDefaultWebhookQueueIndexForChatId_def DEFAULT_WEBHOOK_QUEUE_NAMES_def
          DEFAULT_WEBHOOK_SHARD_COUNT_def)
    have "(?s + (n + 16 - ?s) mod 16) mod 16 = n"
      using s that by (simp add: mod_simps)
    then have "rotateQueueNames chatId ! ((n + 16 - ?s) mod 16) = Default_Queue n"
      using that by (simp add: rotateQueueNames_def Let_def DEFAULT_WEBHOOK_QUEUE_NAMES_def DEFAULT_WEBHOOK_SHARD_COUNT_def)
    then show ?thesis by (metis mod_less_divisor nth_mem rotate_queue_names(2) zero_less_numeral)
  qed
  then show ?thesis
    using rotate_queue_names(1) by (auto simp: DEFAULT_WEBHOOK_QUEUE_NAMES_def DEFAULT_WEBHOOK_SHARD_COUNT_def)
qed

text \<open>The comparison is the lexicographic order of seven keys, and the choice is its minimum.\<close>

definition pressure_key :: "queue_pressure \<Rightarrow> int list" where
  "pressure_key c =
     [qp_workerPressureScore c, qp_queuePressureScore c, qp_queuePressure c, qp_workerPressure c,
      qp_workerLeasedChats c, qp_leasedChats c, qp_tieOrder c]"

lemma compare_is_lexicographic:
  "compareQueuePressure x y < 0 \<longleftrightarrow> (pressure_key x, pressure_key y) \<in> lexord {(a, b). a < b}"
  "compareQueuePressure x y \<le> 0 \<longleftrightarrow>
     pressure_key x = pressure_key y \<or> (pressure_key x, pressure_key y) \<in> lexord {(a, b). a < b}"
  by (auto simp: compareQueuePressure_def pressure_key_def)

lemma compare_total: "compareQueuePressure x y \<le> 0 \<or> compareQueuePressure y x < 0"
  by (auto simp: compareQueuePressure_def)

lemma compare_trans:
  "compareQueuePressure x y \<le> 0 \<Longrightarrow> compareQueuePressure y z \<le> 0 \<Longrightarrow> compareQueuePressure x z \<le> 0"
  by (auto simp: compareQueuePressure_def split: if_splits)

lemma compare_refl: "compareQueuePressure x x \<le> 0"
  by (simp add: compareQueuePressure_def)

lemma best_fold:
  "foldl (\<lambda>best current. if compareQueuePressure current best < 0 then current else best) b cs
     \<in> insert b (set cs) \<and>
   (\<forall>c\<in>insert b (set cs). compareQueuePressure
     (foldl (\<lambda>best current. if compareQueuePressure current best < 0 then current else best) b cs) c \<le> 0)"
proof (induction cs arbitrary: b)
  case Nil
  show ?case by (simp add: compare_refl)
next
  case (Cons c cs)
  show ?case
  proof (cases "compareQueuePressure c b < 0")
    case True
    with Cons [of c] compare_trans [of _ c b] show ?thesis by auto
  next
    case False
    then have "compareQueuePressure b c \<le> 0" using compare_total by blast
    with False Cons [of b] compare_trans [of _ b c] show ?thesis by auto
  qed
qed

lemma best_candidate_least:
  assumes "cs \<noteq> []"
  shows "best_candidate cs \<in> set cs" "c \<in> set cs \<Longrightarrow> compareQueuePressure (best_candidate cs) c \<le> 0"
  using best_fold [of "hd cs" "tl cs"] assms by (cases cs; auto simp: best_candidate_def)+

lemma candidates_facts:
  "map qp_queueName (queue_candidates chatId snapshot r) = rotateQueueNames chatId"
  "queue_candidates chatId snapshot r \<noteq> []"
  "c \<in> set (queue_candidates chatId snapshot r) \<Longrightarrow> qp_queueName c \<in> set DEFAULT_WEBHOOK_QUEUE_NAMES"
proof -
  have *: "map (qp_queueName \<circ> (\<lambda>(q, i). buildQueuePressureCandidate q i snapshot r))
      (zip (rotateQueueNames chatId) [0..<length (rotateQueueNames chatId)]) =
    map fst (zip (rotateQueueNames chatId) [0..<length (rotateQueueNames chatId)])"
    by (rule map_cong) (auto simp: buildQueuePressureCandidate_def Let_def)
  show names: "map qp_queueName (queue_candidates chatId snapshot r) = rotateQueueNames chatId"
    unfolding queue_candidates_def map_map using * by (rule trans) simp
  then show "queue_candidates chatId snapshot r \<noteq> []" using rotate_queue_names(2) [of chatId] by auto
  show "c \<in> set (queue_candidates chatId snapshot r) \<Longrightarrow> qp_queueName c \<in> set DEFAULT_WEBHOOK_QUEUE_NAMES"
    using names rotate_queue_names(1) [of chatId] by (metis image_eqI image_set subsetD)
qed

lemma select_queue_default:
  assumes "current \<in> set DEFAULT_WEBHOOK_QUEUE_NAMES"
  shows "fst (selectLeastPressuredQueue chatId snapshot current now r) = countActiveAssignments now r"
    and "snd (selectLeastPressuredQueue chatId snapshot current now r) \<in> set DEFAULT_WEBHOOK_QUEUE_NAMES"
proof -
  have best: "qp_queueName (best_candidate (queue_candidates chatId snapshot r)) \<in> set DEFAULT_WEBHOOK_QUEUE_NAMES" for r
    by (rule candidates_facts(3) [OF best_candidate_least(1) [OF candidates_facts(2)]])
  show "fst (selectLeastPressuredQueue chatId snapshot current now r) = countActiveAssignments now r"
    "snd (selectLeastPressuredQueue chatId snapshot current now r) \<in> set DEFAULT_WEBHOOK_QUEUE_NAMES"
    using assms best by (auto simp: selectLeastPressuredQueue_def Let_def split: option.splits)
qed

section \<open>Refreshes in flight\<close>

definition same_flights :: "router \<Rightarrow> router \<Rightarrow> bool" where
  "same_flights r r' \<longleftrightarrow>
     assignmentRefreshes r' = assignmentRefreshes r \<and> refreshes r' = refreshes r \<and>
     next_refresh r' = next_refresh r"

lemma same_flights_refl [simp]: "same_flights r r"
  by (simp add: same_flights_def)

lemma same_flights_trans: "same_flights r s \<Longrightarrow> same_flights s t \<Longrightarrow> same_flights r t"
  by (simp add: same_flights_def)

lemma remove_flights: "same_flights r (removeAssignment k r)"
  by (auto simp: same_flights_def removeAssignment_def Let_def split: option.splits)

lemma remove_all_flights: "same_flights r (fold removeAssignment ks r)"
proof (induction ks arbitrary: r)
  case (Cons k ks)
  show ?case using same_flights_trans [OF remove_flights Cons] by simp
qed simp

lemma count_active_flights: "same_flights r (countActiveAssignments now r)"
proof -
  obtain ix ks where t: "take_expired now EXPIRY_MAINTENANCE_BUDGET (expiryIndex r) = (ix, ks)"
    by fastforce
  show ?thesis
    using remove_all_flights [of "r\<lparr>expiryIndex := ix\<rparr>" ks]
    by (simp add: countActiveAssignments_def t Let_def same_flights_def)
qed

lemma evict_flights: "same_flights r (evict_oldest cfg r)"
proof (induction cfg r rule: evict_oldest.induct)
  case (1 cfg r)
  show ?case
  proof (cases "int (length (chatAssignments r)) > maxChatAssignments cfg \<and> chatAssignments r \<noteq> []")
    case True
    then obtain k a m where m: "chatAssignments r = (k, a) # m" by (cases "chatAssignments r") auto
    have "evict_oldest cfg r = evict_oldest cfg (removeAssignment k r)"
      using True by (subst evict_oldest.simps) (simp add: m)
    then show ?thesis
      using "1.IH" [OF conjunct1 [OF True] m refl] same_flights_trans [OF remove_flights] by metis
  next
    case False
    then have "evict_oldest cfg r = r" by (subst evict_oldest.simps) auto
    then show ?thesis by simp
  qed
qed

lemma store_flights: "same_flights r (storeAssignment cfg clock key q now r)"
proof -
  obtain r1 ttl where r1: "(if map_option ca_queueName (jsmap_get (chatAssignments r) key) = Some q
      then (r, chatAssignmentTtlMs cfg) else resolveAdaptiveTtlMs cfg clock q r) = (r1, ttl)"
    by fastforce
  then have "same_flights r r1"
    using count_active_flights by (auto simp: resolveAdaptiveTtlMs_def Let_def split: if_splits option.splits)
  then have "same_flights r (removeAssignment key r1)" by (rule same_flights_trans [OF _ remove_flights])
  then show ?thesis
    unfolding storeAssignment_def Let_def r1 prod.case
    by (rule same_flights_trans [OF _ same_flights_trans [OF _ evict_flights]]) (simp add: same_flights_def)
qed

text \<open>
  \<open>Single flight\<close>: a waiting refresh is the one its key points to, a key points to a refresh of
  its own, and new numbers are fresh.
\<close>

definition flights_ok :: "router \<Rightarrow> bool" where
  "flights_ok r \<longleftrightarrow>
     (\<forall>i rf. refreshes r i = Some rf \<longrightarrow> i < next_refresh r \<and>
        rf_fallback rf \<in> set DEFAULT_WEBHOOK_QUEUE_NAMES \<and>
        (waiting_stage (rf_stage rf) \<longrightarrow> assignmentRefreshes r (rf_key rf) = Some i)) \<and>
     (\<forall>k i. assignmentRefreshes r k = Some i \<longrightarrow> (\<exists>rf. refreshes r i = Some rf \<and> rf_key rf = k))"

definition router_ok :: "router_config \<Rightarrow> router \<Rightarrow> bool" where
  "router_ok cfg r \<longleftrightarrow>
     cache_ok r \<and> flights_ok r \<and> int (length (chatAssignments r)) \<le> maxChatAssignments cfg"

lemma flight:
  assumes "flights_ok r"
  shows flight_number: "refreshes r i = Some rf \<Longrightarrow> i < next_refresh r"
    and flight_fallback: "refreshes r i = Some rf \<Longrightarrow> rf_fallback rf \<in> set DEFAULT_WEBHOOK_QUEUE_NAMES"
    and flight_single: "refreshes r i = Some rf \<Longrightarrow> waiting_stage (rf_stage rf) \<Longrightarrow>
      assignmentRefreshes r (rf_key rf) = Some i"
    and flight_key: "assignmentRefreshes r k = Some i \<Longrightarrow> \<exists>rf. refreshes r i = Some rf \<and> rf_key rf = k"
  using assms by (auto simp: flights_ok_def)

lemma flights_okI:
  assumes "\<And>i rf. refreshes r i = Some rf \<Longrightarrow> i < next_refresh r"
    "\<And>i rf. refreshes r i = Some rf \<Longrightarrow> rf_fallback rf \<in> set DEFAULT_WEBHOOK_QUEUE_NAMES"
    "\<And>i rf. refreshes r i = Some rf \<Longrightarrow> waiting_stage (rf_stage rf) \<Longrightarrow>
      assignmentRefreshes r (rf_key rf) = Some i"
    "\<And>k i. assignmentRefreshes r k = Some i \<Longrightarrow> \<exists>rf. refreshes r i = Some rf \<and> rf_key rf = k"
  shows "flights_ok r"
  using assms by (auto simp: flights_ok_def)

lemma flights_same: "same_flights r r' \<Longrightarrow> flights_ok r \<Longrightarrow> flights_ok r'"
  by (simp add: same_flights_def flights_ok_def)

lemma flights_stage:
  assumes "flights_ok r" "refreshes r i = Some rf" "waiting_stage st \<Longrightarrow> waiting_stage (rf_stage rf)"
  shows "flights_ok (set_stage i st r)"
proof (rule flights_okI)
  note ok = assms(1)
  fix j rf'
  assume rf': "refreshes (set_stage i st r) j = Some rf'"
  then obtain rf0 where rf0: "refreshes r j = Some rf0" "rf_fallback rf' = rf_fallback rf0"
    "rf_key rf' = rf_key rf0" "waiting_stage (rf_stage rf') \<Longrightarrow> waiting_stage (rf_stage rf0)"
    using assms(2,3) by (auto simp: set_stage_def split: if_splits)
  show "j < next_refresh (set_stage i st r)"
    using flight_number [OF ok rf0(1)] by (simp add: set_stage_def)
  show "rf_fallback rf' \<in> set DEFAULT_WEBHOOK_QUEUE_NAMES"
    using flight_fallback [OF ok rf0(1)] rf0(2) by simp
  show "assignmentRefreshes (set_stage i st r) (rf_key rf') = Some j" if "waiting_stage (rf_stage rf')"
    using flight_single [OF ok rf0(1)] rf0(3,4) that by (simp add: set_stage_def)
next
  fix k j
  assume "assignmentRefreshes (set_stage i st r) k = Some j"
  then obtain rf0 where "refreshes r j = Some rf0" "rf_key rf0 = k"
    using flight_key [OF assms(1), of k j] by (auto simp: set_stage_def)
  then show "\<exists>rf. refreshes (set_stage i st r) j = Some rf \<and> rf_key rf = k"
    by (auto simp: set_stage_def)
qed

lemma flights_start:
  assumes "flights_ok r" "assignmentRefreshes r (rf_key rf) = None"
    "rf_fallback rf \<in> set DEFAULT_WEBHOOK_QUEUE_NAMES"
  shows "flights_ok (r\<lparr>refreshes := (refreshes r)(next_refresh r \<mapsto> rf),
    assignmentRefreshes := (assignmentRefreshes r)(rf_key rf \<mapsto> next_refresh r),
    next_refresh := Suc (next_refresh r)\<rparr>)" (is "flights_ok ?r")
proof (rule flights_okI)
  note ok = assms(1)
  fix i rf'
  assume rf': "refreshes ?r i = Some rf'"
  show "i < next_refresh ?r" "rf_fallback rf' \<in> set DEFAULT_WEBHOOK_QUEUE_NAMES"
    using rf' assms(3) flight_number [OF ok, of i rf'] flight_fallback [OF ok, of i rf']
    by (auto split: if_splits)
  show "assignmentRefreshes ?r (rf_key rf') = Some i" if "waiting_stage (rf_stage rf')"
  proof (cases "i = next_refresh r")
    case False
    then have "assignmentRefreshes r (rf_key rf') = Some i"
      using rf' flight_single [OF ok _ that, of i] by simp
    with assms(2) show ?thesis by (cases "rf_key rf' = rf_key rf") simp_all
  qed (use rf' in simp)
next
  fix k i
  assume k: "assignmentRefreshes ?r k = Some i"
  show "\<exists>rf'. refreshes ?r i = Some rf' \<and> rf_key rf' = k"
  proof (cases "k = rf_key rf")
    case False
    then obtain rf' where "refreshes r i = Some rf'" "rf_key rf' = k"
      using k flight_key [OF assms(1), of k i] by auto
    then show ?thesis using flight_number [OF assms(1), of i rf'] by auto
  qed (use k in simp)
qed

lemma set_stage_simps [simp]:
  "chatAssignments (set_stage i st r) = chatAssignments r" "expiryIndex (set_stage i st r) = expiryIndex r"
  "byQueue (set_stage i st r) = byQueue r" "byWorker (set_stage i st r) = byWorker r"
  by (simp_all add: set_stage_def)

lemma cache_ok_stage [simp]: "cache_ok_upto gone (set_stage i st r) = cache_ok_upto gone r"
  by (simp add: cache_ok_upto_def)

lemma default_queue_known: "resolveDefaultWebhookQueueNameForChatId c \<in> set DEFAULT_WEBHOOK_QUEUE_NAMES"
  by (simp add: default_queue_of_chat DEFAULT_WEBHOOK_QUEUE_NAMES_def DEFAULT_WEBHOOK_SHARD_COUNT_def)

lemma join_or_start_ok:
  assumes "router_ok cfg r"
  shows "router_ok cfg (fst (join_or_start chatId now pre r))"
proof -
  let ?k = "buildAssignmentKey chatId"
  have prev: "ca_queueName a \<in> set DEFAULT_WEBHOOK_QUEUE_NAMES" if "jsmap_get (chatAssignments r) ?k = Some a" for a
    using assms map_of_SomeD [OF that] by (auto simp: router_ok_def cache_ok_upto_def)
  show ?thesis
  proof (cases "assignmentRefreshes r ?k")
    case (Some i)
    with assms show ?thesis by (simp add: join_or_start_def Let_def)
  next
    case None
    define rf where "rf = \<lparr>rf_key = ?k, rf_chatId = chatId, rf_now = now,
      rf_fallback = (case jsmap_get (chatAssignments r) ?k of
          Some previous \<Rightarrow> ca_queueName previous | None \<Rightarrow> resolveDefaultWebhookQueueNameForChatId chatId),
      rf_stage = Awaiting_Work pre\<rparr>"
    have "rf_fallback rf \<in> set DEFAULT_WEBHOOK_QUEUE_NAMES"
      using prev default_queue_known by (auto simp: rf_def split: option.splits)
    from flights_start [OF _ _ this, of r] None assms
    have "flights_ok (fst (join_or_start chatId now pre r))"
      by (simp add: join_or_start_def Let_def rf_def router_ok_def)
    with assms None show ?thesis
      by (auto simp: join_or_start_def Let_def router_ok_def cache_ok_upto_def)
  qed
qed

lemma store_ok:
  assumes "router_ok cfg r" "0 \<le> maxChatAssignments cfg" "q \<in> set DEFAULT_WEBHOOK_QUEUE_NAMES"
  shows "router_ok cfg (storeAssignment cfg clock key q now r)"
proof -
  have "cache_ok r" "flights_ok r" using assms(1) by (simp_all add: router_ok_def)
  moreover obtain m ttl where "cache_ok (storeAssignment cfg clock key q now r)"
    "chatAssignments (storeAssignment cfg clock key q now r) =
       drop (Suc (length m) - nat (maxChatAssignments cfg))
         (m @ [(key, \<lparr>ca_queueName = q, ca_assignedAtMs = now, ca_expiresAtMs = now + ttl\<rparr>)])"
    using store_state [OF \<open>cache_ok r\<close> assms(2,3), of clock key now] by metis
  ultimately show ?thesis
    using flights_same [OF store_flights, of r cfg clock key q now] assms(2) by (simp add: router_ok_def)
qed

lemma count_active_ok: "router_ok cfg r \<Longrightarrow> router_ok cfg (countActiveAssignments now r)"
  using flights_same [OF count_active_flights, of r now] length_count_active [of now r]
  by (auto simp: router_ok_def cache_ok_count_active)

lemma stage_ok:
  "router_ok cfg r \<Longrightarrow> refreshes r i = Some rf \<Longrightarrow> (waiting_stage st \<Longrightarrow> waiting_stage (rf_stage rf)) \<Longrightarrow>
    router_ok cfg (set_stage i st r)"
  by (simp add: router_ok_def flights_stage)

lemma select_store_ok:
  assumes "router_ok cfg r" "0 \<le> maxChatAssignments cfg" "refreshes r i = Some rf" "waiting_stage (rf_stage rf)"
  shows "router_ok cfg (refresh_select cfg clock i rf snapshot r)"
proof -
  obtain r1 q where s: "selectLeastPressuredQueue (rf_chatId rf) snapshot (rf_fallback rf) (rf_now rf) r = (r1, q)"
    by fastforce
  have "rf_fallback rf \<in> set DEFAULT_WEBHOOK_QUEUE_NAMES"
    using assms(1,3) flight_fallback by (auto simp: router_ok_def)
  with select_queue_default [OF this, of "rf_chatId rf" snapshot "rf_now rf" r] s
  have r1: "r1 = countActiveAssignments (rf_now rf) r" "q \<in> set DEFAULT_WEBHOOK_QUEUE_NAMES" by simp_all
  have ok: "router_ok cfg (storeAssignment cfg clock (rf_key rf) q (rf_now rf) r1)"
    using store_ok [OF count_active_ok [OF assms(1)] assms(2) r1(2)] r1(1) by simp
  have "same_flights r (storeAssignment cfg clock (rf_key rf) q (rf_now rf) r1)"
    unfolding r1(1) by (rule same_flights_trans [OF count_active_flights store_flights])
  then have "refreshes (storeAssignment cfg clock (rf_key rf) q (rf_now rf) r1) i = Some rf"
    using assms(3) by (simp add: same_flights_def)
  with ok assms(4) show ?thesis by (simp add: refresh_select_def s stage_ok)
qed

lemma find_label_known: "find_label l xs s = Some x \<Longrightarrow> x \<in> set xs"
  by (auto simp: find_label_def find_Some_iff)

lemma work_queue_known:
  "ow_queueName (findOutstandingMessageQueueWork row) = Some q \<Longrightarrow> q \<in> set DEFAULT_WEBHOOK_QUEUE_NAMES"
  by (auto simp: findOutstandingMessageQueueWork_def dest: find_label_known split: option.splits js_value.splits)

lemma refresh_work_ok:
  assumes "router_ok cfg r" "0 \<le> maxChatAssignments cfg"
  shows "router_ok cfg (refresh_work cfg clock i row r)"
proof (cases "\<exists>rf pre. refreshes r i = Some rf \<and> rf_stage rf = Awaiting_Work pre")
  case True
  then obtain rf pre where rf: "refreshes r i = Some rf" "rf_stage rf = Awaiting_Work pre" by blast
  define q where "q = (case ow_queueName (findOutstandingMessageQueueWork row) of Some q \<Rightarrow> q | None \<Rightarrow> rf_fallback rf)"
  have q: "q \<in> set DEFAULT_WEBHOOK_QUEUE_NAMES"
    using assms(1) rf(1) flight_fallback work_queue_known by (auto simp: q_def router_ok_def split: option.splits)
  have "refreshes (storeAssignment cfg clock (rf_key rf) q (rf_now rf) r) i = Some rf"
    using rf(1) store_flights [of r cfg clock "rf_key rf" q "rf_now rf"] by (simp add: same_flights_def)
  then have pending: "router_ok cfg (set_stage i (Resolved q) (storeAssignment cfg clock (rf_key rf) q (rf_now rf) r))"
    by (rule stage_ok [OF store_ok [OF assms q]]) simp
  show ?thesis
  proof (cases "ow_hasPending (findOutstandingMessageQueueWork row)")
    case True
    with pending rf show ?thesis by (simp add: refresh_work_def q_def Let_def)
  next
    case False
    then show ?thesis
      using rf assms select_store_ok [OF assms rf(1)] stage_ok [OF assms(1) rf(1)]
      by (cases pre) (simp_all add: refresh_work_def)
  qed
next
  case False
  then have "refresh_work cfg clock i row r = r"
    by (auto simp: refresh_work_def split: option.splits refresh_stage.splits)
  with assms show ?thesis by simp
qed

lemma finally_ok:
  assumes "router_ok cfg r"
  shows "router_ok cfg (refresh_finally i r)"
proof (cases "\<exists>rf. refreshes r i = Some rf \<and> \<not> waiting_stage (rf_stage rf) \<and> assignmentRefreshes r (rf_key rf) = Some i")
  case True
  then obtain rf where rf: "refreshes r i = Some rf" "\<not> waiting_stage (rf_stage rf)"
    "assignmentRefreshes r (rf_key rf) = Some i" by blast
  let ?r = "r\<lparr>assignmentRefreshes := (assignmentRefreshes r)(rf_key rf := None)\<rparr>"
  have ok: "flights_ok r" using assms by (simp add: router_ok_def)
  have "flights_ok ?r"
  proof (rule flights_okI)
    fix j rf'
    assume rf': "refreshes ?r j = Some rf'"
    then show "j < next_refresh ?r" "rf_fallback rf' \<in> set DEFAULT_WEBHOOK_QUEUE_NAMES"
      using flight_number [OF ok] flight_fallback [OF ok] by auto
    assume w: "waiting_stage (rf_stage rf')"
    then have j: "assignmentRefreshes r (rf_key rf') = Some j" using flight_single [OF ok] rf' by simp
    then have "rf_key rf' \<noteq> rf_key rf" using rf rf' w by auto
    with j show "assignmentRefreshes ?r (rf_key rf') = Some j" by simp
  next
    fix k j
    assume "assignmentRefreshes ?r k = Some j"
    then show "\<exists>rf. refreshes ?r j = Some rf \<and> rf_key rf = k"
      using flight_key [OF ok] by (simp split: if_splits)
  qed
  then show ?thesis
    using assms rf by (simp add: refresh_finally_def router_ok_def cache_ok_upto_def)
next
  case False
  then have "refresh_finally i r = r" by (auto simp: refresh_finally_def split: option.splits)
  with assms show ?thesis by simp
qed

lemma router_step_ok:
  assumes "router_ok cfg r" "0 \<le> maxChatAssignments cfg"
  shows "router_ok cfg (router_step cfg r ev)"
proof (cases ev)
  case (Ev_Call chatId now)
  then show ?thesis using assms join_or_start_ok by (auto simp: resolve_call_def split: option.splits)
next
  case (Ev_Hot chatId now a snapshot)
  then show ?thesis using assms join_or_start_ok by (auto simp: resolve_snapshot_def)
next
  case (Ev_Work clock i row)
  then show ?thesis using assms refresh_work_ok by simp
next
  case (Ev_Snapshot clock i snapshot)
  then show ?thesis
    using assms select_store_ok by (auto simp: refresh_snapshot_def split: option.splits refresh_stage.splits)
next
  case (Ev_Failed i)
  then show ?thesis using assms stage_ok by (auto simp: refresh_failed_def split: option.splits)
next
  case (Ev_Finally i)
  then show ?thesis using assms finally_ok by simp
qed

lemma read_config_int: "least \<le> fallback \<Longrightarrow> least \<le> readConfigInt v fallback least"
  by (auto simp: readConfigInt_def le_floor_iff split: option.splits)
    (meson ceiling_mono ceiling_of_int le_of_int_ceiling of_int_le_iff order_trans)

lemma capacity_positive: "1 \<le> maxChatAssignments (router_config get)"
  by (simp add: router_config_def read_config_int DEFAULT_MAX_CHAT_ASSIGNMENTS_def)

interpretation router_machine: invariant_machine "router_ok (router_config get)" "\<lambda>_ _. True"
  "router_step (router_config get)" for get
  using capacity_positive [of get] by unfold_locales (auto intro: router_step_ok)

lemma index_ok_empty_mirror: "heap_index.mirrors empty_index ca_expiresAtMs Map.empty"
  unfolding heap_index.mirrors_def using index_ok_empty by (simp add: entries_def empty_index_def fun_eq_iff)

lemma router_ok_new: "router_ok (router_config get) new_router"
  using capacity_positive [of get] index_ok_empty_mirror
  by (simp add: router_ok_def new_router_def cache_ok_upto_def flights_ok_def)

lemma router_run_ok: "router_ok (router_config get) (foldl (router_step (router_config get)) new_router evs)"
  by (rule router_machine.run_inv [OF router_ok_new]) simp

section \<open>Properties\<close>

text \<open>
  C4: Whatever the order of calls, query answers, snapshots, failures and callbacks, the router's
  three views of the assignments agree: the expiry index holds exactly the assigned chats with
  their expiry times, the counts by shard and by worker group are the true numbers of assignments,
  every assignment names a default shard, and the cache stays within its capacity.
\<close>

theorem router_views_agree:
  fixes get :: "string \<Rightarrow> js_value" and evs :: "router_event list"
  defines "r \<equiv> foldl (router_step (router_config get)) new_router evs"
  shows "jsmap_ok (chatAssignments r) \<and> index_ok (expiryIndex r) \<and>
    entries (expiryIndex r) = map_option ca_expiresAtMs \<circ> jsmap_get (chatAssignments r) \<and>
    byQueue r q = int (length (filter (\<lambda>(k, a). ca_queueName a = q) (chatAssignments r))) \<and>
    byWorker r g = int (length (filter (\<lambda>(k, a). workerGroupByQueue (ca_queueName a) = Some g) (chatAssignments r))) \<and>
    ca_queueName ` set (map snd (chatAssignments r)) \<subseteq> set DEFAULT_WEBHOOK_QUEUE_NAMES \<and>
    int (length (chatAssignments r)) \<le> maxChatAssignments (router_config get)"
  using router_run_ok [of get evs]
  by (auto simp: r_def router_ok_def cache_ok_upto_def heap_index.mirrors_def count_with_def)

text \<open>
  A chat is refreshed by one promise at a time: among the refreshes that still wait for an
  answer no two belong to the same chat key.
\<close>

theorem router_single_flight:
  fixes get :: "string \<Rightarrow> js_value" and evs :: "router_event list"
  defines "r \<equiv> foldl (router_step (router_config get)) new_router evs"
  shows "inj_on (\<lambda>i. map_option rf_key (refreshes r i))
    {i. case refreshes r i of Some rf \<Rightarrow> waiting_stage (rf_stage rf) | None \<Rightarrow> False}"
proof -
  have "flights_ok r" using router_run_ok [of get evs] by (simp add: r_def router_ok_def)
  note single = flight_single [OF this]
  show ?thesis
  proof (rule inj_onI)
    fix i j
    assume "i \<in> {i. case refreshes r i of Some rf \<Rightarrow> waiting_stage (rf_stage rf) | None \<Rightarrow> False}"
      "j \<in> {i. case refreshes r i of Some rf \<Rightarrow> waiting_stage (rf_stage rf) | None \<Rightarrow> False}"
      and same: "map_option rf_key (refreshes r i) = map_option rf_key (refreshes r j)"
    then obtain rf rf' where "refreshes r i = Some rf" "waiting_stage (rf_stage rf)"
      "refreshes r j = Some rf'" "waiting_stage (rf_stage rf')"
      by (auto split: option.splits)
    with same single [of i rf] single [of j rf'] show "i = j" by simp
  qed
qed

text \<open>
  Pending work pins a chat: when the query finds outstanding messages of the chat in shard
  \<open>q\<close>, the refresh resolves to \<open>q\<close> whatever the load, and the chat is assigned to \<open>q\<close> for at
  most the configured time.
\<close>

theorem pending_work_pins_chat:
  fixes get :: "string \<Rightarrow> js_value"
  assumes "r = foldl (router_step (router_config get)) new_router evs"
    "refreshes r i = Some rf" "rf_stage rf = Awaiting_Work pre" "q \<in> set DEFAULT_WEBHOOK_QUEUE_NAMES"
    "r' = router_step (router_config get) r (Ev_Work clock i (Some (Bool True, Str (ascii (queue_label q)))))"
  shows "map_option rf_stage (refreshes r' i) = Some (Resolved q) \<and>
    map_option ca_queueName (jsmap_get (chatAssignments r') (rf_key rf)) = Some q \<and>
    (case entries (expiryIndex r') (rf_key rf) of
       Some t \<Rightarrow> t \<le> rf_now rf + chatAssignmentTtlMs (router_config get) | None \<Rightarrow> False)"
proof -
  let ?cfg = "router_config get"
  have ok: "cache_ok r" using router_run_ok [of get evs] assms(1) by (simp add: router_ok_def)
  have "find (\<lambda>x. queue_label x = queue_label q) DEFAULT_WEBHOOK_QUEUE_NAMES = Some q"
  proof -
    have "queue_label x = queue_label q \<longleftrightarrow> x = q" if "x \<in> set DEFAULT_WEBHOOK_QUEUE_NAMES" for x
      using inj_onD [OF label_inj, of x q] that assms(4) special_queues(5) by blast
    then have "find (\<lambda>x. queue_label x = queue_label q) DEFAULT_WEBHOOK_QUEUE_NAMES =
        find (\<lambda>x. x = q) DEFAULT_WEBHOOK_QUEUE_NAMES"
      by (intro find_cong) simp_all
    then show ?thesis using find_eq [OF assms(4)] by simp
  qed
  then have work: "findOutstandingMessageQueueWork (Some (Bool True, Str (ascii (queue_label q)))) =
      \<lparr>ow_hasPending = True, ow_queueName = Some q\<rparr>"
    by (simp add: findOutstandingMessageQueueWork_def find_label_ascii)
  define s where "s = storeAssignment ?cfg clock (rf_key rf) q (rf_now rf) r"
  have r': "r' = set_stage i (Resolved q) s"
    using assms(2,3,5) by (simp add: refresh_work_def work s_def)
  have rf_s: "refreshes s i = Some rf"
    using assms(2) store_flights [of r ?cfg clock "rf_key rf" q "rf_now rf"] by (simp add: s_def same_flights_def)
  obtain m ttl where s: "cache_ok s" "chatAssignments s =
       drop (Suc (length m) - nat (maxChatAssignments ?cfg))
         (m @ [(rf_key rf, \<lparr>ca_queueName = q, ca_assignedAtMs = rf_now rf, ca_expiresAtMs = rf_now rf + ttl\<rparr>)])"
    "ttl \<le> chatAssignmentTtlMs ?cfg"
    unfolding s_def by (rule store_state [OF ok _ assms(4), of ?cfg clock "rf_key rf" "rf_now rf"])
      (use capacity_positive [of get] in auto)
  have "(rf_key rf, \<lparr>ca_queueName = q, ca_assignedAtMs = rf_now rf, ca_expiresAtMs = rf_now rf + ttl\<rparr>)
      \<in> set (chatAssignments s)"
    using capacity_positive [of get] by (simp add: s(2) drop_Cons' Suc_diff_le)
  then have a: "jsmap_get (chatAssignments s) (rf_key rf) =
      Some \<lparr>ca_queueName = q, ca_assignedAtMs = rf_now rf, ca_expiresAtMs = rf_now rf + ttl\<rparr>"
    using s(1) by (simp add: cache_ok_upto_def)
  moreover have "entries (expiryIndex s) = map_option ca_expiresAtMs \<circ> jsmap_get (chatAssignments s)"
    using s(1) by (simp add: cache_ok_upto_def heap_index.mirrors_def)
  ultimately show ?thesis using rf_s s(3) by (simp add: r' set_stage_def)
qed

definition quiet_snapshot :: queue_snapshot where
  "quiet_snapshot =
     \<lparr>snap_shards = (\<lambda>q. if q = Default_Queue 5 then None
        else Some \<lparr>qc_waiting = 9, qc_active = 1, qc_delayed = 0\<rparr>),
      snap_groups = (\<lambda>_. None)\<rparr>"

theorem pending_work_pins_chat_witness:
  "map_option rf_stage (refreshes (router_step (router_config (\<lambda>_. Undefined))
      (router_step (router_config (\<lambda>_. Undefined)) new_router (Ev_Call (ascii ''-71'') 500))
      (Ev_Work 501 0 (Some (Bool True, Str (ascii (queue_label (Default_Queue 3))))))) 0) =
   Some (Resolved (Default_Queue 3))"
proof -
  let ?cfg = "router_config (\<lambda>_. Undefined)"
  define r where "r = foldl (router_step ?cfg) new_router [Ev_Call (ascii ''-71'') 500]"
  obtain rf where rf: "refreshes r 0 = Some rf" "rf_stage rf = Awaiting_Work None"
    by (simp add: r_def resolve_call_def readFreshAssignment_def new_router_def join_or_start_def Let_def)
  have "Default_Queue 3 \<in> set DEFAULT_WEBHOOK_QUEUE_NAMES"
    by (simp add: DEFAULT_WEBHOOK_QUEUE_NAMES_def DEFAULT_WEBHOOK_SHARD_COUNT_def)
  from pending_work_pins_chat [OF r_def rf this refl, of 501] show ?thesis by (simp add: r_def)
qed

text \<open>
  The shard a refresh chooses is the present one only if it is a least pressured candidate or
  within the tolerances of one; otherwise it is a candidate that no default shard precedes in the
  lexicographic order of worker score, shard score, shard pressure, worker pressure, leased chats
  of the worker and of the shard, and rotation order.  The candidates are the sixteen default shards.
\<close>

theorem chosen_shard_least_pressured:
  assumes "current \<in> set DEFAULT_WEBHOOK_QUEUE_NAMES"
    "selectLeastPressuredQueue chatId snapshot current now r = (r', q)"
  shows "set (map qp_queueName (queue_candidates chatId snapshot r')) = set DEFAULT_WEBHOOK_QUEUE_NAMES \<and>
    (\<exists>best \<in> set (queue_candidates chatId snapshot r').
       (\<forall>c \<in> set (queue_candidates chatId snapshot r'). pressure_key best = pressure_key c \<or>
          (pressure_key best, pressure_key c) \<in> lexord {(a, b). a < b}) \<and>
       (q = qp_queueName best \<or>
        q = current \<and> (\<exists>c \<in> set (queue_candidates chatId snapshot r').
          qp_queueName c = current \<and> keepCurrentQueue c best)))"
proof -
  let ?cs = "queue_candidates chatId snapshot r'"
  have r': "r' = countActiveAssignments now r"
    using select_queue_default(1) [OF assms(1), of chatId snapshot now r] assms(2) by simp
  note best = best_candidate_least [OF candidates_facts(2) [of chatId snapshot r']]
  have "q = qp_queueName (best_candidate ?cs) \<or>
      q = current \<and> (\<exists>c \<in> set ?cs. qp_queueName c = current \<and> keepCurrentQueue c (best_candidate ?cs))"
    using assms(2) unfolding selectLeastPressuredQueue_def Let_def r' [symmetric]
    by (auto simp: find_Some_iff split: option.splits if_splits)
  moreover have "set (map qp_queueName ?cs) = set DEFAULT_WEBHOOK_QUEUE_NAMES"
    unfolding candidates_facts(1) by (rule rotate_complete)
  ultimately show ?thesis using best unfolding compare_is_lexicographic by blast
qed

theorem chosen_shard_least_pressured_witness:
  "snd (selectLeastPressuredQueue (ascii ''-71'') quiet_snapshot (Default_Queue 2) 7 new_router)
     \<in> set DEFAULT_WEBHOOK_QUEUE_NAMES"
proof -
  have m: "Default_Queue 2 \<in> set DEFAULT_WEBHOOK_QUEUE_NAMES"
    by (simp add: DEFAULT_WEBHOOK_QUEUE_NAMES_def DEFAULT_WEBHOOK_SHARD_COUNT_def)
  obtain r' q where sel: "selectLeastPressuredQueue (ascii ''-71'') quiet_snapshot (Default_Queue 2) 7 new_router = (r', q)"
    by fastforce
  from chosen_shard_least_pressured [OF m sel] m show ?thesis by (auto simp: sel)
qed

end
