(* ===== verification/Preparation_Admission.thy ===== *)
theory Preparation_Admission
  imports Webhook_Queues Complex_Main
begin

text \<open>
  \<^verbatim>\<open>apps/api/src/webhook/webhook-preparation-admission.ts\<close> and
  \<^verbatim>\<open>webhook-preparation-scope.ts\<close>: how many webhook receipts may be prepared at
  once, per bot, per class of work and in total.

  \<^item> The counts of a bot are a mutable object that the map and the \<^verbatim>\<open>finish\<close>
    closures of its tasks share.  \<open>ad_objects\<close> is the store of these objects, a task keeps the
    reference it was started with, and the map may later hold another object for the same bot.
  \<^item> A tracked promise is the number of its task.  Finishing a task is an event; its reading of
    \<^verbatim>\<open>performance.now()\<close> is a rational.
  \<^item> Each reading of \<^verbatim>\<open>Date.now()\<close> is an argument.  Reports are kept in a list.
\<close>

section \<open>Scope of a receipt\<close>

datatype work_class = Ordinary | Interactive | Lifecycle

record preparation_scope =
  ps_botId :: js_string
  ps_workClass :: work_class

text \<open>The update is \<open>Undefined\<close> where the argument is missing.\<close>

definition webhookPreparationScope :: "js_value \<Rightarrow> preparation_scope" where
  "webhookPreparationScope update =
     (let ty = (case field ''type'' update of Str s \<Rightarrow> to_lower (trim s) | _ \<Rightarrow> []);
          workClass =
            (if is_object update \<and>
                ty \<in> set (map ascii [''bot_added'', ''bot_removed'', ''user_added'', ''user_removed'',
                  ''bot_stopped'', ''dialog_removed'']) then Lifecycle
             else if is_object update \<and> isManagedEntityHandshakeStartCommand update then Interactive
             else Ordinary)
      in \<lparr>ps_botId = (case field ''botId'' update of
                        Str s \<Rightarrow> if trim s \<noteq> [] then trim s else ascii ''unknown''
                      | _ \<Rightarrow> ascii ''unknown''),
          ps_workClass = workClass\<rparr>)"

section \<open>State\<close>

type_synonym class_counts = "work_class \<Rightarrow> int"

definition no_counts :: class_counts where "no_counts c = 0"

definition DURATION_BOUNDS_MS :: "rat list" where
  "DURATION_BOUNDS_MS = [5, 25, 100, 1000, 5000, 15000, 30000]"

record prep_metrics =
  pm_admitted :: class_counts
  pm_deferred :: class_counts
  pm_peakInFlight :: int
  pm_durationHistogram :: "int list"

definition emptyMetrics :: prep_metrics where
  "emptyMetrics =
     \<lparr>pm_admitted = no_counts, pm_deferred = no_counts, pm_peakInFlight = 0,
      pm_durationHistogram = replicate (length DURATION_BOUNDS_MS + 1) 0\<rparr>"

record prep_task =
  pt_bot :: js_string
  pt_class :: work_class
  pt_counts :: nat
  pt_startedAt :: rat

record prep_snapshot =
  sn_inFlight :: int
  sn_pending :: int
  sn_botScopes :: int
  sn_byClass :: class_counts

record prep_report =
  rp_metrics :: prep_metrics
  rp_snapshot :: prep_snapshot
  rp_maxInFlight :: int
  rp_windowMs :: int

record admission =
  ad_maxInFlight :: int
  ad_byBot :: "(js_string, nat) jsmap"
  ad_objects :: "nat \<Rightarrow> class_counts"
  ad_next_object :: nat
  ad_active :: "(nat, prep_task) jsmap"
  ad_next_task :: nat
  ad_byClass :: class_counts
  ad_closed :: bool
  ad_reservations :: "(work_class, int) jsmap"
  ad_windowStartedAt :: int
  ad_metrics :: prep_metrics
  ad_reports :: "prep_report list"

text \<open>The constructor throws on a pool that is not a positive integer.\<close>

definition new_admission :: "int \<Rightarrow> int \<Rightarrow> admission option" where
  "new_admission poolMax now =
     (if poolMax < 1 \<or> poolMax > 9007199254740991 then None
      else Some
        \<lparr>ad_maxInFlight = max 1 (min 12 (poolMax div 2)), ad_byBot = [], ad_objects = (\<lambda>_. no_counts),
         ad_next_object = 0, ad_active = [], ad_next_task = 0, ad_byClass = no_counts,
         ad_closed = False, ad_reservations = [], ad_windowStartedAt = now,
         ad_metrics = emptyMetrics, ad_reports = []\<rparr>)"

definition active_size :: "admission \<Rightarrow> int" where
  "active_size a = int (length (ad_active a))"

section \<open>Availability\<close>

record availability =
  av_botCounts :: "nat option"
  av_botActive :: int
  av_botClassLimit :: int
  av_globalFull :: bool
  av_reserved :: bool
  av_limited :: bool

definition bot_class_limit :: "int \<Rightarrow> int" where
  "bot_class_limit m = (if m \<le> 8 then max 1 (min 2 (m div 2)) else m div 3)"

definition bot_counts :: "admission \<Rightarrow> js_string \<Rightarrow> class_counts" where
  "bot_counts a botId = (case jsmap_get (ad_byBot a) botId of Some ref \<Rightarrow> ad_objects a ref | None \<Rightarrow> no_counts)"

text \<open>\<open>availability\<close> first drops the reservations that have expired.\<close>

definition drop_expired :: "int \<Rightarrow> admission \<Rightarrow> admission" where
  "drop_expired now a = a\<lparr>ad_reservations := filter (\<lambda>(c, until). \<not> until \<le> now) (ad_reservations a)\<rparr>"

definition availability :: "int \<Rightarrow> js_string \<Rightarrow> work_class \<Rightarrow> admission \<Rightarrow> admission \<times> availability" where
  "availability now botId workClass a0 =
     (let botActive = bot_counts a0 botId workClass;
          limit = bot_class_limit (ad_maxInFlight a0);
          globalFull = active_size a0 \<ge> ad_maxInFlight a0;
          a = drop_expired now a0;
          reserved =
            (case ad_reservations a of
               [] \<Rightarrow> False
             | (nextClass, _) # _ \<Rightarrow>
                 workClass \<noteq> nextClass \<and> active_size a \<ge> ad_maxInFlight a - 1);
          limited =
            ad_closed a \<or> globalFull \<or> reserved \<or> botActive \<ge> limit \<or>
            (workClass = Interactive \<and> ad_byClass a Interactive \<ge> 1)
      in (a, \<lparr>av_botCounts = jsmap_get (ad_byBot a) botId, av_botActive = botActive,
              av_botClassLimit = limit, av_globalFull = globalFull, av_reserved = reserved,
              av_limited = limited\<rparr>))"

definition reserveNextSlot :: "int \<Rightarrow> work_class \<Rightarrow> availability \<Rightarrow> admission \<Rightarrow> admission" where
  "reserveNextSlot now workClass av a =
     (if workClass \<noteq> Ordinary \<and> \<not> ad_closed a \<and> (av_globalFull av \<or> av_reserved av) \<and>
         av_botActive av < av_botClassLimit av \<and>
         (workClass \<noteq> Interactive \<or> ad_byClass a Interactive < 1)
      then a\<lparr>ad_reservations := jsmap_set workClass (now + 5000) (ad_reservations a)\<rparr> else a)"

datatype scheduling_state = Available | Shared_Capacity | Scope_Capacity | Closed_State

definition schedulingState ::
  "int \<Rightarrow> int \<Rightarrow> js_string \<Rightarrow> work_class \<Rightarrow> admission \<Rightarrow> admission \<times> scheduling_state" where
  "schedulingState now clock botId workClass a =
     (let (a, av) = availability now botId workClass a;
          a = reserveNextSlot clock workClass av a
      in (a, if ad_closed a then Closed_State
             else if av_globalFull av then Shared_Capacity
             else if av_botActive av \<ge> av_botClassLimit av \<or>
                (workClass = Interactive \<and> ad_byClass a Interactive \<ge> 1) then Scope_Capacity
             else if av_reserved av then Shared_Capacity else Available))"

definition canRun :: "int \<Rightarrow> int \<Rightarrow> js_string \<Rightarrow> work_class \<Rightarrow> admission \<Rightarrow> admission \<times> bool" where
  "canRun now clock botId workClass a =
     (let (a, st) = schedulingState now clock botId workClass a in (a, st = Available))"

definition snapshot :: "admission \<Rightarrow> prep_snapshot" where
  "snapshot a =
     \<lparr>sn_inFlight = active_size a, sn_pending = 0, sn_botScopes = int (length (ad_byBot a)),
      sn_byClass = ad_byClass a\<rparr>"

definition flush :: "int \<Rightarrow> admission \<Rightarrow> admission" where
  "flush now a =
     a\<lparr>ad_reports := ad_reports a @
          [\<lparr>rp_metrics = ad_metrics a, rp_snapshot = snapshot a, rp_maxInFlight = ad_maxInFlight a,
            rp_windowMs = now - ad_windowStartedAt a\<rparr>],
       ad_metrics := emptyMetrics, ad_windowStartedAt := now\<rparr>"

definition flushIfDue :: "int \<Rightarrow> admission \<Rightarrow> admission" where
  "flushIfDue now a = (if now - ad_windowStartedAt a \<ge> 60000 then flush now a else a)"

definition bump :: "work_class \<Rightarrow> int \<Rightarrow> class_counts \<Rightarrow> class_counts" where
  "bump c d counts = counts(c := counts c + d)"

section \<open>Running a task\<close>

datatype run_result = Deferred | Admitted nat

definition count_deferred :: "work_class \<Rightarrow> admission \<Rightarrow> admission" where
  "count_deferred workClass a =
     a\<lparr>ad_metrics := (ad_metrics a)\<lparr>pm_deferred := bump workClass 1 (pm_deferred (ad_metrics a))\<rparr>\<rparr>"

text \<open>
  The object of the bot's counts: the one in the map, or a new one that enters the map.
\<close>

definition take_slot :: "js_string \<Rightarrow> work_class \<Rightarrow> nat option \<Rightarrow> admission \<Rightarrow> admission \<times> nat" where
  "take_slot botId workClass found a =
     (let (ref, a) = (case found of
            Some ref \<Rightarrow> (ref, a)
          | None \<Rightarrow> (ad_next_object a,
              a\<lparr>ad_objects := (ad_objects a)(ad_next_object a := no_counts),
                ad_next_object := Suc (ad_next_object a)\<rparr>))
      in (a\<lparr>ad_objects := (ad_objects a)(ref := bump workClass 1 (ad_objects a ref)),
            ad_byBot := jsmap_set botId ref (ad_byBot a),
            ad_byClass := bump workClass 1 (ad_byClass a)\<rparr>, ref))"

definition start_task :: "js_string \<Rightarrow> work_class \<Rightarrow> nat \<Rightarrow> rat \<Rightarrow> admission \<Rightarrow> admission" where
  "start_task botId workClass ref startedAt a =
     (let a = a\<lparr>ad_active := ad_active a @
                 [(ad_next_task a, \<lparr>pt_bot = botId, pt_class = workClass, pt_counts = ref, pt_startedAt = startedAt\<rparr>)],
                ad_next_task := Suc (ad_next_task a)\<rparr>
      in a\<lparr>ad_metrics := (ad_metrics a)
            \<lparr>pm_peakInFlight := max (pm_peakInFlight (ad_metrics a)) (active_size a),
             pm_admitted := bump workClass 1 (pm_admitted (ad_metrics a))\<rparr>\<rparr>)"

text \<open>
  \<open>now\<close>, \<open>reserve_clock\<close> and \<open>flush_clock\<close> are the readings of \<^verbatim>\<open>Date.now()\<close>
  in \<^verbatim>\<open>availability\<close>, \<^verbatim>\<open>reserveNextSlot\<close> and
  \<^verbatim>\<open>flushIfDue\<close>.
\<close>

definition run ::
  "int \<Rightarrow> int \<Rightarrow> int \<Rightarrow> rat \<Rightarrow> js_string \<Rightarrow> work_class \<Rightarrow> admission \<Rightarrow> admission \<times> run_result" where
  "run now reserve_clock flush_clock startedAt botId workClass a =
     (let (a, av) = availability now botId workClass a
      in if av_limited av then
           (flushIfDue flush_clock (count_deferred workClass (reserveNextSlot reserve_clock workClass av a)),
            Deferred)
         else
           (let a = (if workClass \<noteq> Ordinary
                     then a\<lparr>ad_reservations := jsmap_delete workClass (ad_reservations a)\<rparr> else a);
                (a, ref) = take_slot botId workClass (av_botCounts av) a
            in (start_task botId workClass ref startedAt a, Admitted (ad_next_task a))))"

definition histogram_bucket :: "rat \<Rightarrow> nat" where
  "histogram_bucket duration = length (takeWhile (\<lambda>limit. \<not> duration \<le> limit) DURATION_BOUNDS_MS)"

text \<open>The closure \<^verbatim>\<open>finish\<close> of task \<open>t\<close>.\<close>

definition finish :: "int \<Rightarrow> rat \<Rightarrow> nat \<Rightarrow> admission \<Rightarrow> admission" where
  "finish flush_clock finishedAt t a =
     (case jsmap_get (ad_active a) t of
        None \<Rightarrow> a
      | Some task \<Rightarrow>
          (let ref = pt_counts task;
               a = a\<lparr>ad_active := jsmap_delete t (ad_active a)\<rparr>;
               a = a\<lparr>ad_objects := (ad_objects a)(ref := bump (pt_class task) (- 1) (ad_objects a ref))\<rparr>;
               a = (if \<forall>c\<in>{Ordinary, Interactive, Lifecycle}. ad_objects a ref c = 0
                    then a\<lparr>ad_byBot := jsmap_delete (pt_bot task) (ad_byBot a)\<rparr> else a);
               a = a\<lparr>ad_byClass := bump (pt_class task) (- 1) (ad_byClass a)\<rparr>;
               bucket = histogram_bucket (max 0 (finishedAt - pt_startedAt task));
               h = pm_durationHistogram (ad_metrics a);
               a = a\<lparr>ad_metrics := (ad_metrics a)\<lparr>pm_durationHistogram := h[bucket := h ! bucket + 1]\<rparr>\<rparr>
           in flushIfDue flush_clock a))"

definition stop :: "admission \<Rightarrow> admission" where
  "stop a = a\<lparr>ad_closed := True\<rparr>"

datatype admission_event =
    Ask int int js_string work_class
  | Run int int int rat js_string work_class
  | Finish int rat nat
  | Flush int
  | Stop

fun admission_step :: "admission \<Rightarrow> admission_event \<Rightarrow> admission" where
  "admission_step a (Ask now clock botId c) = fst (schedulingState now clock botId c a)"
| "admission_step a (Run now k1 k2 startedAt botId c) = fst (run now k1 k2 startedAt botId c a)"
| "admission_step a (Finish k2 finishedAt t) = finish k2 finishedAt t a"
| "admission_step a (Flush now) = flush now a"
| "admission_step a Stop = stop a"

section \<open>Invariant\<close>

abbreviation bot_and_class :: "prep_task \<Rightarrow> js_string \<times> work_class" where
  "bot_and_class x \<equiv> (pt_bot x, pt_class x)"

definition running :: "admission \<Rightarrow> js_string \<Rightarrow> work_class \<Rightarrow> int" where
  "running a b c = count_with bot_and_class (ad_active a) (b, c)"

text \<open>
  The books: the shared objects hold the true counts of the bots in the map, no two bots share an
  object, a bot is in the map exactly while it has a running task, and the running tasks of a bot
  hold the very object of the map.
\<close>

definition books_ok :: "admission \<Rightarrow> bool" where
  "books_ok a \<longleftrightarrow>
     jsmap_ok (ad_active a) \<and> jsmap_ok (ad_byBot a) \<and>
     (\<forall>(t, x) \<in> set (ad_active a). t < ad_next_task a) \<and>
     (\<forall>c. ad_byClass a c = count_with pt_class (ad_active a) c) \<and>
     (\<forall>b ref. jsmap_get (ad_byBot a) b = Some ref \<longrightarrow>
        ref < ad_next_object a \<and> ad_objects a ref = running a b \<and> (\<exists>c. running a b c \<noteq> 0)) \<and>
     (\<forall>b b' ref. jsmap_get (ad_byBot a) b = Some ref \<longrightarrow> jsmap_get (ad_byBot a) b' = Some ref \<longrightarrow> b = b') \<and>
     (\<forall>(t, x) \<in> set (ad_active a). jsmap_get (ad_byBot a) (pt_bot x) = Some (pt_counts x))"

definition limits_ok :: "admission \<Rightarrow> bool" where
  "limits_ok a \<longleftrightarrow>
     1 \<le> ad_maxInFlight a \<and> active_size a \<le> ad_maxInFlight a \<and>
     (\<forall>b c. running a b c \<le> bot_class_limit (ad_maxInFlight a)) \<and>
     ad_byClass a Interactive \<le> 1"

definition reservations_ok :: "admission \<Rightarrow> bool" where
  "reservations_ok a \<longleftrightarrow>
     jsmap_ok (ad_reservations a) \<and> fst ` set (ad_reservations a) \<subseteq> {Interactive, Lifecycle}"

definition admission_ok :: "admission \<Rightarrow> bool" where
  "admission_ok a \<longleftrightarrow> books_ok a \<and> limits_ok a \<and> reservations_ok a"

lemma count_with_nonneg: "0 \<le> count_with f m x"
  by (simp add: count_with_def)

lemma count_with_zero: "(count_with f m x = 0) = (\<forall>(k, v) \<in> set m. f v \<noteq> x)"
  by (auto simp: count_with_def filter_empty_conv)

lemma running_nonneg: "0 \<le> running a b c"
  by (simp add: running_def count_with_nonneg)

lemma books_okD:
  assumes "books_ok a"
  shows "jsmap_ok (ad_active a)" "jsmap_ok (ad_byBot a)"
    "(t, x) \<in> set (ad_active a) \<Longrightarrow> t < ad_next_task a"
    "ad_byClass a c = count_with pt_class (ad_active a) c"
    "jsmap_get (ad_byBot a) b = Some ref \<Longrightarrow> ref < ad_next_object a"
    "jsmap_get (ad_byBot a) b = Some ref \<Longrightarrow> ad_objects a ref = running a b"
    "jsmap_get (ad_byBot a) b = Some ref \<Longrightarrow> \<exists>c. running a b c \<noteq> 0"
    "jsmap_get (ad_byBot a) b = Some ref \<Longrightarrow> jsmap_get (ad_byBot a) b' = Some ref \<Longrightarrow> b = b'"
    "(t, x) \<in> set (ad_active a) \<Longrightarrow> jsmap_get (ad_byBot a) (pt_bot x) = Some (pt_counts x)"
  using assms unfolding books_ok_def by blast+

lemma books_okI:
  assumes "jsmap_ok (ad_active a)" "jsmap_ok (ad_byBot a)"
    "\<And>t x. (t, x) \<in> set (ad_active a) \<Longrightarrow> t < ad_next_task a"
    "\<And>c. ad_byClass a c = count_with pt_class (ad_active a) c"
    "\<And>b ref. jsmap_get (ad_byBot a) b = Some ref \<Longrightarrow> ref < ad_next_object a"
    "\<And>b ref. jsmap_get (ad_byBot a) b = Some ref \<Longrightarrow> ad_objects a ref = running a b"
    "\<And>b ref. jsmap_get (ad_byBot a) b = Some ref \<Longrightarrow> \<exists>c. running a b c \<noteq> 0"
    "\<And>b b' ref. jsmap_get (ad_byBot a) b = Some ref \<Longrightarrow> jsmap_get (ad_byBot a) b' = Some ref \<Longrightarrow> b = b'"
    "\<And>t x. (t, x) \<in> set (ad_active a) \<Longrightarrow> jsmap_get (ad_byBot a) (pt_bot x) = Some (pt_counts x)"
  shows "books_ok a"
  unfolding books_ok_def using assms by blast

text \<open>A bot outside the map has nothing running.\<close>

lemma bot_counts_running:
  assumes "books_ok a"
  shows "bot_counts a b = running a b"
proof (cases "jsmap_get (ad_byBot a) b")
  case None
  then have "\<forall>(t, x) \<in> set (ad_active a). pt_bot x \<noteq> b" using books_okD(9) [OF assms] by force
  then have "running a b c = 0" for c by (auto simp: running_def count_with_zero)
  then show ?thesis by (auto simp: bot_counts_def None no_counts_def)
next
  case (Some ref)
  then show ?thesis by (simp add: bot_counts_def books_okD(6) [OF assms Some])
qed

section \<open>Steps keep the invariant\<close>

text \<open>Everything the invariant reads.\<close>

definition same_books :: "admission \<Rightarrow> admission \<Rightarrow> bool" where
  "same_books a a' \<longleftrightarrow>
     ad_maxInFlight a' = ad_maxInFlight a \<and> ad_byBot a' = ad_byBot a \<and> ad_objects a' = ad_objects a \<and>
     ad_next_object a' = ad_next_object a \<and> ad_active a' = ad_active a \<and> ad_next_task a' = ad_next_task a \<and>
     ad_byClass a' = ad_byClass a"

lemma same_books_ok:
  "same_books a a' \<Longrightarrow> books_ok a' = books_ok a \<and> limits_ok a' = limits_ok a \<and> running a' = running a"
  by (auto simp: same_books_def books_ok_def limits_ok_def running_def active_size_def fun_eq_iff)

lemma same_books_trans: "same_books a b \<Longrightarrow> same_books b c \<Longrightarrow> same_books a c"
  by (simp add: same_books_def)

lemma same_books_steps:
  "same_books a (drop_expired now a)" "same_books a (reserveNextSlot now c av a)"
  "same_books a (flush now a)" "same_books a (flushIfDue now a)" "same_books a (count_deferred c a)"
  "same_books a (stop a)" "same_books a (a\<lparr>ad_reservations := res\<rparr>)"
  by (simp_all add: same_books_def drop_expired_def reserveNextSlot_def flush_def flushIfDue_def
      count_deferred_def stop_def)

lemma reservations_steps:
  assumes "reservations_ok a"
  shows "reservations_ok (drop_expired now a)" "reservations_ok (reserveNextSlot now c av a)"
    "reservations_ok (flush now a)" "reservations_ok (flushIfDue now a)" "reservations_ok (count_deferred c a)"
    "reservations_ok (stop a)" "reservations_ok (a\<lparr>ad_reservations := jsmap_delete c (ad_reservations a)\<rparr>)"
proof -
  have ok: "jsmap_ok (ad_reservations a)" and keys: "fst ` set (ad_reservations a) \<subseteq> {Interactive, Lifecycle}"
    using assms by (simp_all add: reservations_ok_def)
  show "reservations_ok (drop_expired now a)"
    using ok keys distinct_map_filter [of fst "ad_reservations a"]
    by (auto simp: reservations_ok_def drop_expired_def)
  show "reservations_ok (reserveNextSlot now c av a)"
    using assms by (cases c) (auto simp: reservations_ok_def reserveNextSlot_def dom_update)
  show "reservations_ok (flush now a)" "reservations_ok (flushIfDue now a)" "reservations_ok (count_deferred c a)"
    "reservations_ok (stop a)"
    using assms by (simp_all add: reservations_ok_def flush_def flushIfDue_def count_deferred_def stop_def)
  show "reservations_ok (a\<lparr>ad_reservations := jsmap_delete c (ad_reservations a)\<rparr>)"
    using ok keys set_jsmap_delete [of c "ad_reservations a"] by (auto simp: reservations_ok_def)
qed

lemma quiet_step_ok: "same_books a a' \<Longrightarrow> reservations_ok a' \<Longrightarrow> admission_ok a \<Longrightarrow> admission_ok a'"
  using same_books_ok by (simp add: admission_ok_def)

lemma availability_state: "fst (availability now b c a) = drop_expired now a"
  by (simp add: availability_def Let_def)

lemma scheduling_ok:
  assumes "admission_ok a"
  shows "admission_ok (fst (schedulingState now clock b c a))"
proof -
  have "fst (schedulingState now clock b c a) =
      reserveNextSlot clock c (snd (availability now b c a)) (drop_expired now a)"
    by (simp add: schedulingState_def Let_def case_prod_unfold availability_state)
  then show ?thesis
    using assms same_books_steps(1) [of a now] same_books_steps(2) reservations_steps(1,2)
    by (metis admission_ok_def quiet_step_ok)
qed

lemma running_append:
  "ad_active a' = ad_active a @ [(t, x)] \<Longrightarrow>
    running a' b c = running a b c + (if bot_and_class x = (b, c) then 1 else 0)"
  by (simp add: running_def count_with_append)

lemma running_remove:
  "jsmap_ok (ad_active a) \<Longrightarrow> jsmap_get (ad_active a) t = Some x \<Longrightarrow>
    ad_active a' = jsmap_delete t (ad_active a) \<Longrightarrow>
    running a' b c = running a b c - (if bot_and_class x = (b, c) then 1 else 0)"
  by (simp add: running_def count_with_delete)

text \<open>An admitted task, with the slot it takes, seen as one change of the state.\<close>

lemma started_state:
  fixes st :: rat
  assumes "books_ok a" "take_slot b c (jsmap_get (ad_byBot a) b) a = (a1, ref)"
  defines "a' \<equiv> start_task b c ref st a1"
  shows "ad_active a' = ad_active a @
      [(ad_next_task a, \<lparr>pt_bot = b, pt_class = c, pt_counts = ref, pt_startedAt = st\<rparr>)]"
    "ad_next_task a' = Suc (ad_next_task a)" "ad_byBot a' = jsmap_set b ref (ad_byBot a)"
    "ad_byClass a' = bump c 1 (ad_byClass a)" "ad_objects a' ref = bump c 1 (running a b)"
    "r \<noteq> ref \<Longrightarrow> r < ad_next_object a \<Longrightarrow> ad_objects a' r = ad_objects a r"
    "ref < ad_next_object a'" "ad_next_object a \<le> ad_next_object a'"
    "ad_reservations a' = ad_reservations a" "ad_maxInFlight a' = ad_maxInFlight a"
    "jsmap_get (ad_byBot a) b' = Some ref \<Longrightarrow> b' = b"
    "jsmap_get (ad_byBot a) b = Some r \<Longrightarrow> r = ref"
proof -
  have none: "jsmap_get (ad_byBot a) b = None \<Longrightarrow> running a b = no_counts"
    using bot_counts_running [OF assms(1), of b] by (simp add: bot_counts_def)
  note facts = assms(2) none books_okD(5,6) [OF assms(1)]
  show "ad_active a' = ad_active a @
      [(ad_next_task a, \<lparr>pt_bot = b, pt_class = c, pt_counts = ref, pt_startedAt = st\<rparr>)]"
    "ad_next_task a' = Suc (ad_next_task a)" "ad_byBot a' = jsmap_set b ref (ad_byBot a)"
    "ad_byClass a' = bump c 1 (ad_byClass a)" "ad_objects a' ref = bump c 1 (running a b)"
    "r \<noteq> ref \<Longrightarrow> r < ad_next_object a \<Longrightarrow> ad_objects a' r = ad_objects a r"
    "ref < ad_next_object a'" "ad_next_object a \<le> ad_next_object a'"
    "ad_reservations a' = ad_reservations a" "ad_maxInFlight a' = ad_maxInFlight a"
    using facts by (auto simp: a'_def start_task_def take_slot_def Let_def split: option.splits prod.splits)
  show "jsmap_get (ad_byBot a) b' = Some ref \<Longrightarrow> b' = b"
    using facts(1) books_okD(8) [OF assms(1), of b' ref b] books_okD(5) [OF assms(1), of b' ref]
    by (auto simp: take_slot_def Let_def split: option.splits)
  show "jsmap_get (ad_byBot a) b = Some r \<Longrightarrow> r = ref"
    using facts(1) by (auto simp: take_slot_def Let_def)
qed

lemma started_books:
  assumes "books_ok a" "take_slot b c (jsmap_get (ad_byBot a) b) a = (a1, ref)"
  shows "books_ok (start_task b c ref st a1)" (is "books_ok ?a'")
proof -
  note ok = books_okD [OF assms(1)] and st = started_state [OF assms]
  have run: "running ?a' b' c' = running a b' c' + (if b' = b \<and> c' = c then 1 else 0)" for b' c'
    using running_append [OF st(1)] by auto
  have old: "r \<noteq> ref" if "jsmap_get (ad_byBot a) b' = Some r" "b' \<noteq> b" for b' r
    using st(11) that by blast
  show ?thesis
  proof (rule books_okI)
    show "jsmap_ok (ad_active ?a')" using ok(1,3) by (force simp: st(1))
    show "jsmap_ok (ad_byBot ?a')" using ok(2) by (simp add: st(3))
    show "t < ad_next_task ?a'" if "(t, x) \<in> set (ad_active ?a')" for t x
      using that ok(3) by (auto simp: st(1,2) less_SucI)
    show "ad_byClass ?a' c' = count_with pt_class (ad_active ?a') c'" for c'
      by (simp add: st(1,4) count_with_append bump_def ok(4))
    show "r < ad_next_object ?a'" if "jsmap_get (ad_byBot ?a') b' = Some r" for b' r
      using that st(7) less_le_trans [OF ok(5) [of b' r] st(8)] by (auto simp: st(3) split: if_splits)
    show "ad_objects ?a' r = running ?a' b'" if "jsmap_get (ad_byBot ?a') b' = Some r" for b' r
    proof (cases "b' = b")
      case True
      with that have "r = ref" by (simp add: st(3))
      with True show ?thesis by (auto simp: st(5) run bump_def fun_eq_iff)
    next
      case False
      with that have r: "jsmap_get (ad_byBot a) b' = Some r" by (simp add: st(3))
      with False show ?thesis by (auto simp: st(6) [OF old ok(5)] ok(6) run fun_eq_iff)
    qed
    show "\<exists>c'. running ?a' b' c' \<noteq> 0" if "jsmap_get (ad_byBot ?a') b' = Some r" for b' r
    proof (cases "b' = b")
      case True
      then show ?thesis using running_nonneg [of a b c] by (intro exI [of _ c]) (simp add: run)
    next
      case False
      with that ok(7) [of b' r] show ?thesis by (auto simp: st(3) run)
    qed
    show "b' = b''" if "jsmap_get (ad_byBot ?a') b' = Some r" "jsmap_get (ad_byBot ?a') b'' = Some r" for b' b'' r
      using that st(11) ok(8) [of b' r b''] by (auto simp: st(3) split: if_splits)
    show "jsmap_get (ad_byBot ?a') (pt_bot x) = Some (pt_counts x)" if "(t, x) \<in> set (ad_active ?a')" for t x
      using that ok(9) [of t x] st(12) by (auto simp: st(1,3))
  qed
qed

text \<open>The task that leaves.\<close>

lemma finish_books:
  assumes "books_ok a" "jsmap_get (ad_active a) t = Some x"
  defines "objects \<equiv> (ad_objects a)(pt_counts x := bump (pt_class x) (- 1) (ad_objects a (pt_counts x)))"
  assumes "ad_active a' = jsmap_delete t (ad_active a)" "ad_objects a' = objects"
    "ad_byBot a' = (if \<forall>c\<in>{Ordinary, Interactive, Lifecycle}. objects (pt_counts x) c = 0
       then jsmap_delete (pt_bot x) (ad_byBot a) else ad_byBot a)"
    "ad_byClass a' = bump (pt_class x) (- 1) (ad_byClass a)" "ad_next_task a' = ad_next_task a"
    "ad_next_object a' = ad_next_object a"
  shows "books_ok a'"
    "running a' b c = running a b c - (if bot_and_class x = (b, c) then 1 else 0)"
proof -
  note ok = books_okD [OF assms(1)]
  have x: "(t, x) \<in> set (ad_active a)" using map_of_SomeD [OF assms(2)] .
  have bot: "jsmap_get (ad_byBot a) (pt_bot x) = Some (pt_counts x)" using ok(9) [OF x] .
  show run: "running a' b c = running a b c - (if bot_and_class x = (b, c) then 1 else 0)" for b c
    by (rule running_remove [OF ok(1) assms(2,4)])
  have "c \<in> {Ordinary, Interactive, Lifecycle}" for c by (cases c) simp_all
  then have all: "(\<forall>c\<in>{Ordinary, Interactive, Lifecycle}. f c = 0) = (\<forall>c. f c = (0 :: int))" for f
    by blast
  have obj: "objects (pt_counts x) = running a' (pt_bot x)"
    using ok(6) [OF bot] by (auto simp: objects_def bump_def run fun_eq_iff)
  have map': "ad_byBot a' = (if \<forall>c. running a' (pt_bot x) c = 0
      then jsmap_delete (pt_bot x) (ad_byBot a) else ad_byBot a)"
    using assms(6) unfolding all obj .
  have other: "objects r = running a' b" if "jsmap_get (ad_byBot a) b = Some r" "b \<noteq> pt_bot x" for b r
    using that ok(6) [OF that(1)] ok(8) [OF bot, of b] by (auto simp: objects_def run fun_eq_iff)
  have still: "\<exists>c. running a' (pt_bot x) c \<noteq> 0" if "jsmap_get (ad_byBot a') (pt_bot x) \<noteq> None"
    using that by (auto simp: map' split: if_splits)
  have sub: "jsmap_get (ad_byBot a) b = Some r" if "jsmap_get (ad_byBot a') b = Some r" for b r
    using that by (auto simp: map' split: if_splits)
  show "books_ok a'"
  proof (rule books_okI)
    show "jsmap_ok (ad_active a')" "jsmap_ok (ad_byBot a')" using ok(1,2) by (simp_all add: assms(4) map')
    show "t' < ad_next_task a'" if "(t', y) \<in> set (ad_active a')" for t' y
      using that set_jsmap_delete ok(3) unfolding assms(4,8) by fastforce
    show "ad_byClass a' c = count_with pt_class (ad_active a') c" for c
      by (simp add: assms(4,7) count_with_delete [OF ok(1) assms(2)] bump_def ok(4))
    show "r < ad_next_object a'" if "jsmap_get (ad_byBot a') b = Some r" for b r
      using ok(5) [OF sub [OF that]] assms(9) by simp
    show "ad_objects a' r = running a' b" if "jsmap_get (ad_byBot a') b = Some r" for b r
      using sub [OF that] other obj bot assms(5) by (cases "b = pt_bot x") auto
    show "\<exists>c. running a' b c \<noteq> 0" if "jsmap_get (ad_byBot a') b = Some r" for b r
      using still that ok(7) [OF sub [OF that]] by (cases "b = pt_bot x") (auto simp: run)
    show "b = b'" if "jsmap_get (ad_byBot a') b = Some r" "jsmap_get (ad_byBot a') b' = Some r" for b b' r
      using ok(8) sub that by blast
    show "jsmap_get (ad_byBot a') (pt_bot y) = Some (pt_counts y)" if y: "(t', y) \<in> set (ad_active a')" for t' y
    proof -
      have "(t', y) \<in> set (ad_active a)" using y set_jsmap_delete unfolding assms(4) by fastforce
      from ok(9) [OF this] have b: "jsmap_get (ad_byBot a) (pt_bot y) = Some (pt_counts y)" .
      have "running a' (pt_bot y) (pt_class y) \<noteq> 0" using y by (auto simp: running_def count_with_zero)
      then have "\<not> (pt_bot y = pt_bot x \<and> (\<forall>c. running a' (pt_bot x) c = 0))" by auto
      with b show ?thesis by (auto simp: map')
    qed
  qed
qed

lemma not_limited:
  assumes "availability now b c a = (a', av)" "\<not> av_limited av" "books_ok a"
  shows "a' = drop_expired now a" "\<not> ad_closed a" "active_size a < ad_maxInFlight a"
    "running a b c < bot_class_limit (ad_maxInFlight a)" "c = Interactive \<Longrightarrow> ad_byClass a Interactive < 1"
    "av_botCounts av = jsmap_get (ad_byBot a) b"
  using assms bot_counts_running [OF assms(3), of b]
  by (auto simp: availability_def Let_def drop_expired_def active_size_def split: list.splits)

lemma run_cases:
  assumes "books_ok a"
  obtains (deferred) av where "run now k1 k2 st b c a =
      (flushIfDue k2 (count_deferred c (reserveNextSlot k1 c av (drop_expired now a))), Deferred)"
      "snd (availability now b c a) = av" "av_limited av"
  | (admitted) a1 a2 ref where "same_books a a1" "reservations_ok a \<Longrightarrow> reservations_ok a1"
      "take_slot b c (jsmap_get (ad_byBot a1) b) a1 = (a2, ref)" "\<not> ad_closed a"
      "run now k1 k2 st b c a = (start_task b c ref st a2, Admitted (ad_next_task a))"
      "active_size a < ad_maxInFlight a" "running a b c < bot_class_limit (ad_maxInFlight a)"
      "c = Interactive \<Longrightarrow> ad_byClass a Interactive < 1" "\<not> av_limited (snd (availability now b c a))"
proof -
  obtain a' av where av: "availability now b c a = (a', av)" by fastforce
  have a': "a' = drop_expired now a" using av availability_state [of now b c a] by simp
  show thesis
  proof (cases "av_limited av")
    case True
    then show ?thesis by (intro deferred [of av]) (simp_all add: run_def av a' Let_def)
  next
    case False
    note nl = not_limited [OF av False assms]
    define a1 where "a1 = (if c \<noteq> Ordinary
        then a'\<lparr>ad_reservations := jsmap_delete c (ad_reservations a')\<rparr> else a')"
    have books: "same_books a a1" and nxt: "ad_next_task a1 = ad_next_task a"
      and bots: "ad_byBot a1 = ad_byBot a"
      by (simp_all add: a1_def a' same_books_def drop_expired_def)
    have res: "reservations_ok a \<Longrightarrow> reservations_ok a1"
      using reservations_steps(1,7) by (simp add: a1_def a')
    obtain a2 ref where ts: "take_slot b c (jsmap_get (ad_byBot a1) b) a1 = (a2, ref)" by fastforce
    have "ad_next_task a2 = ad_next_task a1"
      using ts by (auto simp: take_slot_def Let_def split: option.splits prod.splits)
    then have "run now k1 k2 st b c a = (start_task b c ref st a2, Admitted (ad_next_task a))"
      using False ts bots nxt nl(6) by (simp add: run_def av a1_def [symmetric] Let_def)
    with books res ts nl False av show ?thesis by (intro admitted [of a1 a2 ref]) simp_all
  qed
qed

lemma run_ok_step:
  assumes "admission_ok a"
  shows "admission_ok (fst (run now k1 k2 st b c a))"
proof -
  have ok: "books_ok a" "limits_ok a" "reservations_ok a" using assms by (simp_all add: admission_ok_def)
  show ?thesis
  proof (rule run_cases [OF ok(1), of now k1 k2 st b c], goal_cases deferred admitted)
    case (deferred av)
    have "same_books a (flushIfDue k2 (count_deferred c (reserveNextSlot k1 c av (drop_expired now a))))"
      by (rule same_books_trans [OF same_books_steps(1)], rule same_books_trans [OF same_books_steps(2)],
          rule same_books_trans [OF same_books_steps(5) same_books_steps(4)])
    moreover have "reservations_ok (flushIfDue k2 (count_deferred c (reserveNextSlot k1 c av (drop_expired now a))))"
      by (intro reservations_steps ok(3))
    ultimately show ?thesis using assms deferred by (simp add: quiet_step_ok)
  next
    case (admitted a1 a2 ref)
    have books: "books_ok a1" and same: "running a1 = running a" using same_books_ok [OF admitted(1)] ok(1) by simp_all
    note st = started_state [OF books admitted(3)]
    have fields: "ad_active a1 = ad_active a" "ad_maxInFlight a1 = ad_maxInFlight a" "ad_byClass a1 = ad_byClass a"
      using admitted(1) by (simp_all add: same_books_def)
    have "running (start_task b c ref st a2) b' c' = running a b' c' + (if b' = b \<and> c' = c then 1 else 0)" for b' c'
      using running_append [OF st(1)] by (auto simp: same)
    then have "limits_ok (start_task b c ref st a2)"
      using ok(2) admitted(6-8) by (auto simp: limits_ok_def active_size_def st(1,4,10) fields bump_def)
    moreover have "reservations_ok (start_task b c ref st a2)"
      using admitted(2) [OF ok(3)] by (simp add: reservations_ok_def st(9))
    ultimately show ?thesis
      using started_books [OF books admitted(3)] admitted(5) by (simp add: admission_ok_def)
  qed
qed

lemma finish_ok_step:
  assumes "admission_ok a"
  shows "admission_ok (finish k finishedAt t a)"
proof (cases "jsmap_get (ad_active a) t")
  case None
  with assms show ?thesis by (simp add: finish_def)
next
  case (Some x)
  have ok: "books_ok a" "limits_ok a" "reservations_ok a" using assms by (simp_all add: admission_ok_def)
  define objects where "objects =
    (ad_objects a)(pt_counts x := bump (pt_class x) (- 1) (ad_objects a (pt_counts x)))"
  define a1 where "a1 = a\<lparr>ad_active := jsmap_delete t (ad_active a), ad_objects := objects,
    ad_byBot := (if \<forall>c\<in>{Ordinary, Interactive, Lifecycle}. objects (pt_counts x) c = 0
      then jsmap_delete (pt_bot x) (ad_byBot a) else ad_byBot a),
    ad_byClass := bump (pt_class x) (- 1) (ad_byClass a)\<rparr>"
  obtain m where fin: "finish k finishedAt t a = flushIfDue k (a1\<lparr>ad_metrics := m\<rparr>)"
  proof
    show "finish k finishedAt t a = flushIfDue k (a1\<lparr>ad_metrics :=
      (let bucket = histogram_bucket (max 0 (finishedAt - pt_startedAt x));
           h = pm_durationHistogram (ad_metrics a)
       in (ad_metrics a)\<lparr>pm_durationHistogram := h[bucket := h ! bucket + 1]\<rparr>)\<rparr>)"
      by (simp add: finish_def Some Let_def a1_def objects_def)
  qed
  have books: "books_ok a1" and run: "running a1 b c = running a b c - (if bot_and_class x = (b, c) then 1 else 0)" for b c
    by (rule finish_books [OF ok(1) Some]; simp add: a1_def objects_def)+
  have "length (ad_active a1) \<le> length (ad_active a)" by (simp add: a1_def length_delete_le)
  moreover have "running a1 b c \<le> bot_class_limit (ad_maxInFlight a)" for b c
  proof -
    have "running a b c \<le> bot_class_limit (ad_maxInFlight a)" using ok(2) by (simp add: limits_ok_def)
    then show ?thesis by (simp add: run)
  qed
  moreover have "ad_byClass a1 Interactive \<le> ad_byClass a Interactive" by (simp add: a1_def bump_def)
  moreover have "ad_maxInFlight a1 = ad_maxInFlight a" by (simp add: a1_def)
  ultimately have "limits_ok a1"
    using ok(2) unfolding limits_ok_def active_size_def by (auto intro: order_trans)
  with books ok(3) have a1: "admission_ok a1" by (simp add: admission_ok_def reservations_ok_def a1_def)
  have "same_books a1 (flushIfDue k (a1\<lparr>ad_metrics := m\<rparr>))"
    by (rule same_books_trans [OF _ same_books_steps(4)]) (simp add: same_books_def)
  moreover have "reservations_ok (flushIfDue k (a1\<lparr>ad_metrics := m\<rparr>))"
    using a1 by (intro reservations_steps) (simp add: admission_ok_def reservations_ok_def)
  ultimately show ?thesis using a1 fin quiet_step_ok by simp
qed

lemma admission_step_ok: "admission_ok a \<Longrightarrow> admission_ok (admission_step a e)"
proof (cases e)
  case (Flush now)
  then show "admission_ok a \<Longrightarrow> ?thesis"
    using quiet_step_ok [OF same_books_steps(3)] reservations_steps(3) by (simp add: admission_ok_def)
next
  case Stop
  then show "admission_ok a \<Longrightarrow> ?thesis"
    using quiet_step_ok [OF same_books_steps(6)] reservations_steps(6) by (simp add: admission_ok_def)
qed (simp_all add: scheduling_ok run_ok_step finish_ok_step)

interpretation admission_machine: invariant_machine admission_ok "\<lambda>_ _. True" admission_step
  by unfold_locales (rule admission_step_ok)

lemma new_admission_ok: "new_admission poolMax now = Some a \<Longrightarrow> admission_ok a"
  by (auto simp: new_admission_def admission_ok_def books_ok_def limits_ok_def reservations_ok_def
      active_size_def running_def no_counts_def bot_class_limit_def split: if_splits)

lemma admission_run_ok: "new_admission poolMax now = Some a \<Longrightarrow> admission_ok (foldl admission_step a es)"
  by (rule admission_machine.run_inv [OF new_admission_ok]) simp_all

section \<open>Properties\<close>

text \<open>
  C5: After any sequence of scheduling questions, admissions, completions, flushes and a stop, the
  preparation budget holds: at most half of the pool (and at least one, at most twelve) receipts are
  in preparation, at most one of them a command, no bot exceeds its share of a class, at most two
  classes hold a reservation, the counters shared between the map and the running tasks are the
  true counts, and the map holds exactly the bots with running work.
\<close>

theorem preparation_budget_holds:
  assumes "new_admission poolMax now = Some a0" "a = foldl admission_step a0 es"
  shows "active_size a \<le> max 1 (min 12 (poolMax div 2)) \<and> ad_byClass a Interactive \<le> 1 \<and>
    running a b c \<le> bot_class_limit (max 1 (min 12 (poolMax div 2))) \<and>
    length (ad_reservations a) \<le> 2 \<and>
    (\<forall>c. bot_counts a b c = running a b c \<and> ad_byClass a c = count_with pt_class (ad_active a) c) \<and>
    (jsmap_get (ad_byBot a) b \<noteq> None) = (b \<in> pt_bot ` snd ` set (ad_active a))"
proof -
  have ok: "books_ok a" "limits_ok a" "reservations_ok a"
    using admission_run_ok [OF assms(1), of es] assms(2) by (simp_all add: admission_ok_def)
  have step_max: "ad_maxInFlight (admission_step s e) = ad_maxInFlight s" for s e
  proof (cases e)
    case (Run n1 k1 k2 st bot cl)
    then show ?thesis
      by (auto simp: run_def availability_def drop_expired_def reserveNextSlot_def count_deferred_def flushIfDue_def
          flush_def take_slot_def start_task_def Let_def split: option.splits prod.splits)
  qed (auto simp: schedulingState_def availability_def drop_expired_def reserveNextSlot_def finish_def
      flushIfDue_def flush_def stop_def Let_def split: option.splits prod.splits)
  have "ad_maxInFlight (foldl admission_step s es) = ad_maxInFlight s" for s
    by (induction es arbitrary: s) (simp_all add: step_max)
  then have m: "ad_maxInFlight a = max 1 (min 12 (poolMax div 2))"
    using assms by (auto simp: new_admission_def split: if_splits)
  have "card (fst ` set (ad_reservations a)) \<le> card {Interactive, Lifecycle}"
    using ok(3) by (intro card_mono) (auto simp: reservations_ok_def)
  moreover have "card (fst ` set (ad_reservations a)) = length (ad_reservations a)"
    using ok(3) distinct_card [of "map fst (ad_reservations a)"] by (simp add: reservations_ok_def)
  moreover have "(jsmap_get (ad_byBot a) b \<noteq> None) = (b \<in> pt_bot ` snd ` set (ad_active a))"
  proof
    assume "jsmap_get (ad_byBot a) b \<noteq> None"
    then obtain ref where "jsmap_get (ad_byBot a) b = Some ref" by blast
    from books_okD(7) [OF ok(1) this] show "b \<in> pt_bot ` snd ` set (ad_active a)"
      by (force simp: running_def count_with_zero)
  qed (use books_okD(9) [OF ok(1)] in force)
  ultimately show ?thesis
    using ok(2) by (simp add: limits_ok_def m bot_counts_running [OF ok(1)] books_okD(4) [OF ok(1)])
qed

text \<open>A pool of ten, two bots, and a command that waits behind five receipts.\<close>

definition sample_events :: "admission_event list" where
  "sample_events =
     [Run 0 0 0 0 (ascii ''a'') Ordinary, Run 1 1 1 0 (ascii ''b'') Lifecycle,
      Ask 2 2 (ascii ''a'') Interactive, Run 3 3 3 1 (ascii ''a'') Interactive, Finish 4 9 0]"

theorem preparation_budget_holds_witness:
  "active_size (foldl admission_step (the (new_admission 10 0)) sample_events) \<le> 5"
proof -
  have "new_admission 10 0 = Some (the (new_admission 10 0))" by (simp add: new_admission_def)
  from preparation_budget_holds [OF this refl] show ?thesis by simp
qed

text \<open>
  The scheduler's question and the admission agree: \<^verbatim>\<open>canRun\<close> answers yes
  exactly when \<^verbatim>\<open>run\<close> with the same clock would admit, the four answers are decided
  by the same conditions, and a call adds its own task to the running ones when it is
  admitted and nothing when it is deferred.
\<close>

theorem can_run_iff_admitted:
  "snd (canRun now clock b c a) = (snd (run now k1 k2 startedAt b c a) \<noteq> Deferred) \<and>
   (snd (schedulingState now clock b c a) = Closed_State) = ad_closed a \<and>
   map fst (ad_active (fst (run now k1 k2 startedAt b c a))) =
     map fst (ad_active a) @
       (case snd (run now k1 k2 startedAt b c a) of Deferred \<Rightarrow> [] | Admitted t \<Rightarrow> [t])"
proof -
  obtain a' av where av: "availability now b c a = (a', av)" by fastforce
  have a': "a' = drop_expired now a" using av availability_state [of now b c a] by simp
  have fields: "ad_closed (reserveNextSlot k c av s) = ad_closed s" "ad_byClass (reserveNextSlot k c av s) = ad_byClass s"
    "ad_active (reserveNextSlot k c av s) = ad_active s" for k s c
    by (simp_all add: reserveNextSlot_def)
  have slot: "ad_active (fst (take_slot b c f s)) = ad_active s"
    "ad_next_task (fst (take_slot b c f s)) = ad_next_task s" for f s c
    by (simp_all add: take_slot_def Let_def split: option.splits)
  have lim: "av_limited av = (ad_closed a \<or> av_globalFull av \<or> av_reserved av \<or>
      av_botActive av \<ge> av_botClassLimit av \<or> (c = Interactive \<and> ad_byClass a Interactive \<ge> 1))"
    using av by (auto simp: availability_def Let_def drop_expired_def split: list.splits)
  show ?thesis
    using lim
    by (auto simp: canRun_def schedulingState_def run_def av a' fields drop_expired_def count_deferred_def
        flushIfDue_def flush_def start_task_def Let_def slot case_prod_unfold)
qed

text \<open>
  The last free slot is kept for the class that has waited longest: while an unexpired
  reservation of class \<open>d\<close> is first in line and one slot is free, work of any other class is
  deferred, and once the admission is stopped everything is.
\<close>

theorem last_slot_reserved:
  assumes "ad_closed a \<or>
    (filter (\<lambda>(k, until). now < until) (ad_reservations a) = (d, t) # rest \<and> c \<noteq> d \<and>
     active_size a = ad_maxInFlight a - 1)"
  shows "snd (run now k1 k2 startedAt b c a) = Deferred"
proof -
  have "filter (\<lambda>(k, until). now < until) (ad_reservations a) = ad_reservations (drop_expired now a)"
    by (simp add: drop_expired_def linorder_not_le)
  then have "av_limited (snd (availability now b c a))"
    using assms by (auto simp: availability_def Let_def active_size_def drop_expired_def)
  then show ?thesis by (auto simp: run_def Let_def split: prod.splits)
qed

theorem last_slot_reserved_witness:
  "snd (run 5 5 5 0 (ascii ''b'') Ordinary
     (foldl admission_step (the (new_admission 4 0))
       [Run 0 0 0 0 (ascii ''a'') Ordinary, Run 1 1 1 0 (ascii ''b'') Ordinary,
        Ask 2 2 (ascii ''c'') Lifecycle, Finish 3 9 0])) = Deferred"
proof -
  let ?a = "foldl admission_step (the (new_admission 4 0))
       [Run 0 0 0 0 (ascii ''a'') Ordinary, Run 1 1 1 0 (ascii ''b'') Ordinary,
        Ask 2 2 (ascii ''c'') Lifecycle, Finish 3 9 0]"
  have "filter (\<lambda>(k, until). 5 < until) (ad_reservations ?a) = (Lifecycle, 5002) # []"
    "active_size ?a = ad_maxInFlight ?a - 1"
    by code_simp+
  then show ?thesis by (intro last_slot_reserved [where d = Lifecycle and t = 5002 and rest = "[]"]) simp
qed

end
