(* ===== verification/Deferred_Scopes.thy ===== *)
theory Deferred_Scopes
  imports Preparation_Admission "HOL-Library.List_Lexorder"
begin

text \<open>
  \<^verbatim>\<open>apps/api/src/webhook/webhook-outbox-deferred-scopes.ts\<close>, and the page
  reader of \<^verbatim>\<open>webhook-outbox.service.ts\<close> that drives it: the receipts a poll could not
  admit are remembered as time intervals per bot and class, and read again in bounded pages.

  \<^item> A scope's state is a mutable object that the map and a running page read share:
    \<open>df_objects\<close> is the store, the map holds references, a reader keeps its own reference.
  \<^item> A scope key is the scope itself (the JSON text of a scope is injective) or the overflow key.
  \<^item> A cursor orders receipts by creation time, then by identifier in code unit order.
\<close>

section \<open>Cursors and intervals\<close>

datatype scope_cursor = Cursor (cu_id: js_string) (cu_createdAt: int)

instantiation scope_cursor :: linorder
begin

definition less_eq_scope_cursor :: "scope_cursor \<Rightarrow> scope_cursor \<Rightarrow> bool" where
  "a \<le> b = (cu_createdAt a < cu_createdAt b \<or> (cu_createdAt a = cu_createdAt b \<and> cu_id a \<le> cu_id b))"

definition less_scope_cursor :: "scope_cursor \<Rightarrow> scope_cursor \<Rightarrow> bool" where
  "(a :: scope_cursor) < b = (a \<le> b \<and> \<not> b \<le> a)"

instance
  by standard (auto simp: less_eq_scope_cursor_def less_scope_cursor_def intro: scope_cursor.expand)

end

definition compare_cursor :: "scope_cursor \<Rightarrow> scope_cursor \<Rightarrow> int" where
  "compare_cursor left right =
     (let d = cu_createdAt left - cu_createdAt right in
      if d \<noteq> 0 then d
      else if cu_id left < cu_id right then -1 else if cu_id left > cu_id right then 1 else 0)"

lemma compare_cursor_sign [simp]:
  "compare_cursor a b < 0 \<longleftrightarrow> a < b"
  "compare_cursor a b > 0 \<longleftrightarrow> b < a"
  "compare_cursor a b \<le> 0 \<longleftrightarrow> a \<le> b"
  by (auto simp: compare_cursor_def Let_def less_scope_cursor_def less_eq_scope_cursor_def)

datatype interval = Interval (iv_first: scope_cursor) (iv_last: scope_cursor)

fun include_cursor :: "interval option \<Rightarrow> scope_cursor \<Rightarrow> interval" where
  "include_cursor None c = Interval c c"
| "include_cursor (Some iv) c =
     Interval (if compare_cursor c (iv_first iv) < 0 then c else iv_first iv)
              (if compare_cursor c (iv_last iv) > 0 then c else iv_last iv)"

definition interval_has :: "interval \<Rightarrow> scope_cursor \<Rightarrow> bool" where
  "interval_has iv c = (iv_first iv \<le> c \<and> c \<le> iv_last iv)"

lemma include_has: "interval_has (include_cursor iv c) c"
  by (cases iv) (auto simp: interval_has_def)

lemma include_keeps: "interval_has iv c' \<Longrightarrow> interval_has (include_cursor (Some iv) c) c'"
  by (auto simp: interval_has_def)

section \<open>State\<close>

datatype scope_key = Scope_Key preparation_scope | Overflow_Key

record deferred_state =
  ds_key :: scope_key
  ds_scope :: "preparation_scope option"
  ds_current :: "interval option"
  ds_after :: "scope_cursor option"
  ds_next :: "interval option"
  ds_retained :: "(js_string, scope_cursor) jsmap"

definition DEFERRED_SCOPE_LIMIT :: nat where "DEFERRED_SCOPE_LIMIT = 32"
definition DEFERRED_SCOPE_IDENTITIES :: nat where "DEFERRED_SCOPE_IDENTITIES = 2"

record deferred_scopes =
  df_states :: "(scope_key, nat) jsmap"
  df_objects :: "nat \<Rightarrow> deferred_state"
  df_next_object :: nat
  df_readOffset :: nat
  df_identityOffset :: nat

definition fresh_state :: "scope_key \<Rightarrow> preparation_scope option \<Rightarrow> deferred_state" where
  "fresh_state key scope =
     \<lparr>ds_key = key, ds_scope = (if key = Overflow_Key then None else scope), ds_current = None,
      ds_after = None, ds_next = None, ds_retained = []\<rparr>"

definition new_deferred :: deferred_scopes where
  "new_deferred =
     \<lparr>df_states = [], df_objects = (\<lambda>_. fresh_state Overflow_Key None), df_next_object = 0,
      df_readOffset = 0, df_identityOffset = 0\<rparr>"

section \<open>Operations\<close>

fun requested_key :: "preparation_scope option \<Rightarrow> scope_key" where
  "requested_key (Some scope) = Scope_Key scope"
| "requested_key None = Overflow_Key"

definition capture_key :: "preparation_scope option \<Rightarrow> deferred_scopes \<Rightarrow> scope_key" where
  "capture_key scope d =
     (if jsmap_get (df_states d) (requested_key scope) \<noteq> None \<or>
         length (df_states d) < DEFERRED_SCOPE_LIMIT
      then requested_key scope else Overflow_Key)"

text \<open>The object of a key, created and registered where the key has none.\<close>

definition state_object :: "scope_key \<Rightarrow> preparation_scope option \<Rightarrow> deferred_scopes \<Rightarrow> nat \<times> deferred_scopes" where
  "state_object key scope d =
     (case jsmap_get (df_states d) key of
        Some i \<Rightarrow> (i, d)
      | None \<Rightarrow>
          (df_next_object d,
           d\<lparr>df_states := jsmap_set key (df_next_object d) (df_states d),
             df_objects := (df_objects d)(df_next_object d := fresh_state key scope),
             df_next_object := Suc (df_next_object d)\<rparr>))"

abbreviation update_object :: "nat \<Rightarrow> (deferred_state \<Rightarrow> deferred_state) \<Rightarrow> deferred_scopes \<Rightarrow> deferred_scopes" where
  "update_object i f d \<equiv> d\<lparr>df_objects := (df_objects d)(i := f (df_objects d i))\<rparr>"

definition capture_into :: "js_string \<Rightarrow> scope_cursor \<Rightarrow> deferred_state \<Rightarrow> deferred_state" where
  "capture_into workUnitKey cursor s =
     (if (case jsmap_get (ds_retained s) workUnitKey of
            Some c \<Rightarrow> cu_id c = cu_id cursor | None \<Rightarrow> False) then s
      else if ds_current s \<noteq> None then s\<lparr>ds_next := Some (include_cursor (ds_next s) cursor)\<rparr>
      else s\<lparr>ds_current := Some (include_cursor (ds_current s) cursor)\<rparr>)"

definition capture :: "preparation_scope option \<Rightarrow> js_string \<Rightarrow> scope_cursor \<Rightarrow> deferred_scopes \<Rightarrow> deferred_scopes" where
  "capture scope workUnitKey cursor d =
     (let (i, d1) = state_object (capture_key scope d) scope d
      in update_object i (capture_into workUnitKey cursor) d1)"

definition promote_state :: "deferred_state \<Rightarrow> deferred_state" where
  "promote_state s =
     (if ds_current s = None \<and> ds_next s \<noteq> None
      then s\<lparr>ds_current := ds_next s, ds_next := None, ds_after := None\<rparr> else s)"

definition prune :: "nat \<Rightarrow> deferred_scopes \<Rightarrow> deferred_scopes" where
  "prune i d =
     (let s = df_objects d i in
      if ds_current s = None \<and> ds_next s = None \<and> length (ds_retained s) = 0
      then d\<lparr>df_states := jsmap_delete (ds_key s) (df_states d)\<rparr> else d)"

definition readable :: "deferred_state \<Rightarrow> bool" where
  "readable s = (ds_current s \<noteq> None \<and> length (ds_retained s) < DEFERRED_SCOPE_IDENTITIES)"

fun select_loop :: "nat \<Rightarrow> nat list \<Rightarrow> deferred_scopes \<Rightarrow> nat list \<Rightarrow> nat \<Rightarrow> deferred_scopes \<times> nat list \<times> nat" where
  "select_loop limit [] d selected visited = (d, selected, visited)"
| "select_loop limit (i # is) d selected visited =
     (let d1 = update_object i promote_state d;
          selected1 = (if readable (df_objects d1 i) then selected @ [i] else selected)
      in if limit \<le> length selected1 then (d1, selected1, Suc visited)
         else select_loop limit is d1 selected1 (Suc visited))"

definition rotated :: "nat \<Rightarrow> 'a list \<Rightarrow> 'a list" where
  "rotated offset xs = drop offset xs @ take offset xs"

definition selectReaders :: "nat \<Rightarrow> deferred_scopes \<Rightarrow> deferred_scopes \<times> nat list" where
  "selectReaders limit d =
     (let states = map snd (df_states d); n = length states in
      if n = 0 then (d, [])
      else
        (let offset = df_readOffset d mod n;
             (d1, selected, visited) = select_loop limit (rotated offset states) d [] 0
         in (d1\<lparr>df_readOffset := (offset + visited) mod n\<rparr>, selected)))"

definition retain_into :: "js_string \<Rightarrow> scope_cursor \<Rightarrow> deferred_state \<Rightarrow> deferred_state \<times> bool" where
  "retain_into workUnitKey cursor s =
     (case jsmap_get (ds_retained s) workUnitKey of
        Some existing \<Rightarrow>
          (if cu_id existing \<noteq> cu_id cursor then
             (let keepsEarlier = compare_cursor existing cursor \<le> 0;
                  later = (if keepsEarlier then cursor else existing);
                  s1 = (if keepsEarlier then s
                        else s\<lparr>ds_retained := jsmap_set workUnitKey cursor (ds_retained s)\<rparr>)
              in s1\<lparr>ds_next := Some (include_cursor (ds_next s1) later)\<rparr>)
           else s, True)
      | None \<Rightarrow>
          if DEFERRED_SCOPE_IDENTITIES \<le> length (ds_retained s) then (s, False)
          else (s\<lparr>ds_retained := jsmap_set workUnitKey cursor (ds_retained s)\<rparr>, True))"

definition retain :: "nat \<Rightarrow> js_string \<Rightarrow> scope_cursor \<Rightarrow> deferred_scopes \<Rightarrow> deferred_scopes \<times> bool" where
  "retain i workUnitKey cursor d =
     (let (s, ok) = retain_into workUnitKey cursor (df_objects d i)
      in (update_object i (\<lambda>_. s) d, ok))"

definition advance_state :: "scope_cursor option \<Rightarrow> bool \<Rightarrow> deferred_state \<Rightarrow> deferred_state" where
  "advance_state after finished s =
     (let s1 = (if after \<noteq> None then s\<lparr>ds_after := after\<rparr> else s)
      in if finished then promote_state (s1\<lparr>ds_current := None, ds_after := None\<rparr>) else s1)"

definition advance :: "nat \<Rightarrow> scope_cursor option \<Rightarrow> bool \<Rightarrow> deferred_scopes \<Rightarrow> deferred_scopes" where
  "advance i after finished d = prune i (update_object i (advance_state after finished) d)"

record identity =
  id_key :: js_string
  id_id :: js_string
  id_scope :: "preparation_scope option"

fun identity_rank :: "nat \<Rightarrow> nat \<Rightarrow> deferred_state list \<Rightarrow> identity list \<Rightarrow> identity list" where
  "identity_rank limit rank [] result = result"
| "identity_rank limit rank (s # ss) result =
     (let result1 =
        (if rank < length (ds_retained s)
         then (case ds_retained s ! rank of (k, c) \<Rightarrow>
           result @ [\<lparr>id_key = k, id_id = cu_id c, id_scope = ds_scope s\<rparr>])
         else result)
      in if limit \<le> length result1 then result1 else identity_rank limit rank ss result1)"

fun identity_ranks :: "nat \<Rightarrow> nat list \<Rightarrow> deferred_state list \<Rightarrow> identity list \<Rightarrow> identity list" where
  "identity_ranks limit [] ss result = result"
| "identity_ranks limit (rank # ranks) ss result =
     (if length result < limit then identity_ranks limit ranks ss (identity_rank limit rank ss result)
      else result)"

definition identities :: "nat \<Rightarrow> deferred_scopes \<Rightarrow> deferred_scopes \<times> identity list" where
  "identities limit d =
     (let states = map (df_objects d \<circ> snd) (df_states d); n = length states in
      if n = 0 then (d, [])
      else
        (let offset = df_identityOffset d mod n
         in (d\<lparr>df_identityOffset := (offset + 1) mod n\<rparr>,
             take limit (identity_ranks limit [0..<DEFERRED_SCOPE_IDENTITIES] (rotated offset states) []))))"

text \<open>Releasing walks over the map while pruning deletes from it: an entry is visited at most
  once and the deletion of the visited entry does not disturb the rest.\<close>

definition release_state :: "js_string \<Rightarrow> js_string \<Rightarrow> deferred_state \<Rightarrow> deferred_state" where
  "release_state workUnitKey receiptId s =
     (if (case jsmap_get (ds_retained s) workUnitKey of Some c \<Rightarrow> cu_id c = receiptId | None \<Rightarrow> False)
      then s\<lparr>ds_retained := jsmap_delete workUnitKey (ds_retained s)\<rparr> else s)"

definition release_one :: "js_string \<Rightarrow> js_string \<Rightarrow> nat \<Rightarrow> deferred_scopes \<Rightarrow> deferred_scopes" where
  "release_one workUnitKey receiptId i d = prune i (update_object i (release_state workUnitKey receiptId) d)"

definition release :: "js_string \<Rightarrow> js_string \<Rightarrow> deferred_scopes \<Rightarrow> deferred_scopes" where
  "release workUnitKey receiptId d = fold (release_one workUnitKey receiptId) (map snd (df_states d)) d"

record deferred_snapshot =
  dn_scopes :: nat
  dn_identities :: nat
  dn_intervals :: nat

definition deferred_snapshot :: "deferred_scopes \<Rightarrow> deferred_snapshot" where
  "deferred_snapshot d =
     (let states = map (df_objects d \<circ> snd) (df_states d) in
      \<lparr>dn_scopes = length states,
       dn_identities = sum_list (map (length \<circ> ds_retained) states),
       dn_intervals = sum_list (map (\<lambda>s. of_bool (ds_current s \<noteq> None) + of_bool (ds_next s \<noteq> None)) states)\<rparr>)"

section \<open>Reading one page\<close>

text \<open>
  One iteration of \<^verbatim>\<open>readDeferredEnqueueRepresentatives\<close> after its query returned.
  Of a row the loop uses the cursor, the payload, the work unit key and whether the row still is
  an enqueue representative; \<^verbatim>\<open>Deferred_Reader\<close> computes these rows from the table with the
  code's query, \<^verbatim>\<open>candidateWorkUnitKey\<close> and \<^verbatim>\<open>currentEnqueueRepresentative\<close>.
\<close>

definition DEFERRED_SCOPE_RAW_PAGE_SIZE :: nat where "DEFERRED_SCOPE_RAW_PAGE_SIZE = 64"

record page_row =
  pr_cursor :: scope_cursor
  pr_payload :: js_value
  pr_key :: js_string
  pr_representative :: bool

fun page_loop :: "nat \<Rightarrow> page_row list \<Rightarrow> scope_cursor option \<Rightarrow> deferred_scopes \<Rightarrow> deferred_scopes \<times> scope_cursor option \<times> bool" where
  "page_loop i [] after d = (d, after, False)"
| "page_loop i (row # rows) after d =
     (let scope = webhookPreparationScope (pr_payload row) in
      if \<not> pr_representative row then page_loop i rows (Some (pr_cursor row)) d
      else if ds_scope (df_objects d i) \<noteq> None \<and> Scope_Key scope \<noteq> ds_key (df_objects d i)
      then page_loop i rows (Some (pr_cursor row)) (capture (Some scope) (pr_key row) (pr_cursor row) d)
      else
        (case retain i (pr_key row) (pr_cursor row) d of
           (d1, ok) \<Rightarrow>
             if ok then page_loop i rows (Some (pr_cursor row)) d1 else (d1, after, True)))"

definition read_page :: "nat \<Rightarrow> page_row list \<Rightarrow> deferred_scopes \<Rightarrow> deferred_scopes" where
  "read_page i rows d =
     (case page_loop i (take DEFERRED_SCOPE_RAW_PAGE_SIZE rows) (ds_after (df_objects d i)) d of
        (d1, after, capped) \<Rightarrow>
          advance i after (\<not> capped \<and> length rows \<le> DEFERRED_SCOPE_RAW_PAGE_SIZE) d1)"

section \<open>Well-formed states\<close>

text \<open>
  \<open>created\<close> gives the creation time of each receipt: a row's identifier is its primary key and
  its creation time never changes, so equal identifiers mean equal cursors.
\<close>

definition real_cursor :: "(js_string \<Rightarrow> int) \<Rightarrow> scope_cursor \<Rightarrow> bool" where
  "real_cursor created c = (cu_createdAt c = created (cu_id c))"

lemma real_cursor_eq: "real_cursor created a \<Longrightarrow> real_cursor created b \<Longrightarrow> cu_id a = cu_id b \<Longrightarrow> a = b"
  by (simp add: real_cursor_def scope_cursor.expand)

fun interval_ok :: "interval option \<Rightarrow> bool" where
  "interval_ok None = True"
| "interval_ok (Some iv) = (iv_first iv \<le> iv_last iv)"

lemma include_ok: "interval_ok iv \<Longrightarrow> interval_ok (Some (include_cursor iv c))"
  by (cases iv) auto

fun key_scope :: "scope_key \<Rightarrow> preparation_scope option" where
  "key_scope (Scope_Key scope) = Some scope"
| "key_scope Overflow_Key = None"

definition state_ok :: "(js_string \<Rightarrow> int) \<Rightarrow> scope_key \<Rightarrow> deferred_state \<Rightarrow> bool" where
  "state_ok created k s =
     (ds_key s = k \<and> ds_scope s = key_scope k \<and>
      length (ds_retained s) \<le> DEFERRED_SCOPE_IDENTITIES \<and> jsmap_ok (ds_retained s) \<and>
      (\<forall>e\<in>set (ds_retained s). real_cursor created (snd e)) \<and>
      interval_ok (ds_current s) \<and> interval_ok (ds_next s) \<and>
      (ds_current s = None \<longrightarrow> ds_after s = None))"

definition held :: "deferred_state \<Rightarrow> bool" where
  "held s = (ds_current s \<noteq> None \<or> ds_next s \<noteq> None \<or> ds_retained s \<noteq> [])"

definition deferred_ok :: "(js_string \<Rightarrow> int) \<Rightarrow> deferred_scopes \<Rightarrow> bool" where
  "deferred_ok created d =
     (jsmap_ok (df_states d) \<and> distinct (map snd (df_states d)) \<and>
      (\<forall>(k, i)\<in>set (df_states d). i < df_next_object d \<and> state_ok created k (df_objects d i) \<and> held (df_objects d i)) \<and>
      length (filter (\<lambda>(k, i). k \<noteq> Overflow_Key) (df_states d)) \<le> DEFERRED_SCOPE_LIMIT)"

abbreviation registered :: "deferred_scopes \<Rightarrow> nat \<Rightarrow> bool" where
  "registered d i \<equiv> i \<in> set (map snd (df_states d))"

lemma deferred_okD:
  assumes "deferred_ok created d" "(k, i) \<in> set (df_states d)"
  shows "i < df_next_object d" "state_ok created k (df_objects d i)" "held (df_objects d i)"
  using assms by (auto simp: deferred_ok_def)

lemma registered_key:
  assumes "deferred_ok created d" "registered d i"
  obtains k where "(k, i) \<in> set (df_states d)" "ds_key (df_objects d i) = k" "state_ok created k (df_objects d i)"
  using assms by (auto simp: deferred_ok_def state_ok_def)

lemma reference_unique:
  assumes "deferred_ok created d" "(k, i) \<in> set (df_states d)" "(k', i) \<in> set (df_states d)"
  shows "k = k'"
proof -
  have "inj_on snd (set (df_states d))" using assms(1) by (simp add: deferred_ok_def distinct_map)
  from inj_onD [OF this _ assms(2,3)] show ?thesis by simp
qed

lemma key_unique:
  assumes "deferred_ok created d" "(k, i) \<in> set (df_states d)" "(k, i') \<in> set (df_states d)"
  shows "i = i'"
  using assms eq_key_imp_eq_value [of "df_states d" k] by (auto simp: deferred_ok_def)

lemma new_deferred_ok [simp]: "deferred_ok created new_deferred"
  by (simp add: deferred_ok_def new_deferred_def)

text \<open>An update of one registered object, and the update followed by pruning.\<close>

lemma update_object_ok:
  assumes "deferred_ok created d"
    and "\<And>k. (k, i) \<in> set (df_states d) \<Longrightarrow> state_ok created k (f (df_objects d i)) \<and> held (f (df_objects d i))"
  shows "deferred_ok created (update_object i f d)"
  using assms unfolding deferred_ok_def by (auto simp: case_prod_unfold)

lemma set_states_delete: "set (jsmap_delete k m) = {e \<in> set m. fst e \<noteq> k}"
  by (induction m) auto

lemma set_states_update: "set (jsmap_set k v m) \<subseteq> insert (k, v) (set m)"
  by (induction m) auto

lemma length_filter_delete: "length (filter P (jsmap_delete k m)) \<le> length (filter P m)"
  by (induction m) auto

lemma distinct_snd_delete: "distinct (map snd m) \<Longrightarrow> distinct (map snd (jsmap_delete k m))"
  by (induction m) (auto simp: set_states_delete)

lemma prune_update_ok:
  assumes ok: "deferred_ok created d" and reg: "(k, i) \<in> set (df_states d)"
    and st: "state_ok created k (f (df_objects d i))"
  shows "deferred_ok created (prune i (update_object i f d))"
proof (cases "held (f (df_objects d i))")
  case True
  then have "prune i (update_object i f d) = update_object i f d"
    by (auto simp: prune_def held_def)
  moreover have "deferred_ok created (update_object i f d)"
    by (rule update_object_ok [OF ok]) (use True st reference_unique [OF ok reg] in auto)
  ultimately show ?thesis by simp
next
  case False
  have key: "ds_key (f (df_objects d i)) = k" using st by (simp add: state_ok_def)
  have eq: "prune i (update_object i f d) =
      (update_object i f d)\<lparr>df_states := jsmap_delete k (df_states d)\<rparr>"
    using False key by (simp add: prune_def held_def)
  have others: "i' \<noteq> i" if "(k', i') \<in> set (df_states d)" "k' \<noteq> k" for k' i'
    using reference_unique [OF ok reg] that by auto
  have "length (filter (\<lambda>(k, i). k \<noteq> Overflow_Key) (jsmap_delete k (df_states d))) \<le> DEFERRED_SCOPE_LIMIT"
    using ok by (auto simp: deferred_ok_def intro: order_trans [OF length_filter_delete])
  then show ?thesis
    unfolding eq using ok others deferred_okD [OF ok]
    by (auto simp: deferred_ok_def set_states_delete distinct_snd_delete)
qed

section \<open>Every operation keeps the state well formed\<close>

lemma capture_into_ok:
  assumes "state_ok created k s"
  shows "state_ok created k (capture_into w c s)" "held (capture_into w c s)"
  using assms include_ok [of "ds_next s" c] include_ok [of "ds_current s" c]
  by (auto simp: capture_into_def state_ok_def held_def split: option.splits dest: map_of_SomeD)

lemma fresh_state_ok: "key_scope k = scope \<or> k = Overflow_Key \<Longrightarrow> state_ok created k (fresh_state k scope)"
  by (auto simp: state_ok_def fresh_state_def)

lemma capture_key_scope: "key_scope (capture_key scope d) = scope \<or> capture_key scope d = Overflow_Key"
  by (cases scope) (auto simp: capture_key_def)

lemma capture_registers:
  assumes "state_object (capture_key scope d) scope d = (i, d1)"
  shows "df_states (capture scope w c d) = df_states d1"
    and "df_objects (capture scope w c d) = (df_objects d1)(i := capture_into w c (df_objects d1 i))"
    and "(capture_key scope d, i) \<in> set (df_states d1)"
    and "set (df_states d) \<subseteq> set (df_states d1)"
  using assms
  by (auto simp: capture_def state_object_def jsmap_set_fresh split: option.splits dest: map_of_SomeD)

lemma capture_slots:
  assumes "deferred_ok created d" "jsmap_get (df_states d) (capture_key scope d) = None"
  shows "length (filter (\<lambda>(k, i). k \<noteq> Overflow_Key) (df_states d @ [(capture_key scope d, n)])) \<le> DEFERRED_SCOPE_LIMIT"
proof (cases "capture_key scope d = Overflow_Key")
  case True
  then show ?thesis using assms by (simp add: deferred_ok_def)
next
  case False
  then have "length (df_states d) < DEFERRED_SCOPE_LIMIT"
    using assms(2) by (auto simp: capture_key_def split: if_splits)
  then have "length (filter (\<lambda>(k, i). k \<noteq> Overflow_Key) (df_states d)) < DEFERRED_SCOPE_LIMIT"
    by (rule le_less_trans [OF length_filter_le])
  then show ?thesis by simp
qed

lemma capture_ok:
  assumes ok: "deferred_ok created d"
  shows "deferred_ok created (capture scope w c d)"
proof (cases "jsmap_get (df_states d) (capture_key scope d)")
  case (Some i)
  then have "capture scope w c d = update_object i (capture_into w c) d"
    by (simp add: capture_def state_object_def)
  then show ?thesis
    using update_object_ok [OF ok] capture_into_ok deferred_okD(2) [OF ok] by metis
next
  case None
  let ?k = "capture_key scope d" and ?n = "df_next_object d"
  have fresh: "\<forall>(k, i)\<in>set (df_states d). k \<noteq> ?k \<and> i < ?n"
    using None ok by (auto simp: map_of_eq_None_iff deferred_ok_def rev_image_eqI)
  have st: "state_ok created ?k (capture_into w c (fresh_state ?k scope))"
    "held (capture_into w c (fresh_state ?k scope))"
    using capture_into_ok [OF fresh_state_ok [of ?k scope created]] capture_key_scope [of scope d] by auto
  have "capture scope w c d =
      d\<lparr>df_states := df_states d @ [(?k, ?n)],
        df_objects := (df_objects d)(?n := capture_into w c (fresh_state ?k scope)),
        df_next_object := Suc ?n\<rparr>"
    using None by (simp add: capture_def state_object_def jsmap_set_fresh)
  then show ?thesis
    using ok fresh st capture_slots [OF ok None]
    by (auto simp: deferred_ok_def case_prod_unfold rev_image_eqI)
qed

lemma promote_ok: "state_ok created k s \<Longrightarrow> state_ok created k (promote_state s)"
  by (auto simp: promote_state_def state_ok_def)

lemma promote_held: "held (promote_state s) = held s"
  by (auto simp: promote_state_def held_def)

lemma promote_object_ok: "deferred_ok created d \<Longrightarrow> deferred_ok created (update_object i promote_state d)"
  by (rule update_object_ok) (auto simp: promote_held deferred_ok_def intro: promote_ok)

lemma select_loop_ok: "deferred_ok created d \<Longrightarrow> deferred_ok created (fst (select_loop limit is d sel v))"
proof (induction "is" arbitrary: d sel v)
  case (Cons i "is")
  show ?case
    using Cons.IH promote_object_ok [OF Cons.prems, of i] by (simp add: Let_def del: fun_upd_apply)
qed simp

lemma selectReaders_ok: "deferred_ok created d \<Longrightarrow> deferred_ok created (fst (selectReaders limit d))"
  using select_loop_ok [of created d] by (simp add: selectReaders_def Let_def case_prod_unfold deferred_ok_def)

lemma retain_into_ok:
  assumes "state_ok created k s" "real_cursor created c" "held s"
  shows "state_ok created k (fst (retain_into w c s))" "held (fst (retain_into w c s))"
  using assms include_ok [of "ds_next s"]
  by (auto simp: retain_into_def state_ok_def held_def Let_def jsmap_length_set distinct_update
      split: option.splits dest!: subsetD [OF set_states_update])

lemma retain_ok:
  assumes "deferred_ok created d" "registered d i" "real_cursor created c"
  shows "deferred_ok created (fst (retain i w c d))"
proof -
  have "deferred_ok created (update_object i (\<lambda>_. fst (retain_into w c (df_objects d i))) d)"
    by (rule update_object_ok [OF assms(1)])
       (auto intro: retain_into_ok [OF _ assms(3)] dest: deferred_okD [OF assms(1)])
  then show ?thesis by (simp add: retain_def Let_def case_prod_unfold)
qed

lemma advance_state_ok:
  assumes "state_ok created k s" "after = None \<or> ds_current s \<noteq> None \<or> finished"
  shows "state_ok created k (advance_state after finished s)"
proof (cases finished)
  case True
  have "state_ok created k (s\<lparr>ds_current := None, ds_after := None\<rparr>)"
    using assms(1) by (simp add: state_ok_def)
  with True show ?thesis by (simp add: advance_state_def Let_def promote_ok)
next
  case False
  with assms show ?thesis by (auto simp: advance_state_def state_ok_def)
qed

lemma advance_ok:
  assumes "deferred_ok created d" "registered d i"
    and "after = None \<or> ds_current (df_objects d i) \<noteq> None \<or> finished"
  shows "deferred_ok created (advance i after finished d)"
proof -
  obtain k where k: "(k, i) \<in> set (df_states d)" "state_ok created k (df_objects d i)"
    using registered_key [OF assms(1,2)] by blast
  show ?thesis
    unfolding advance_def by (rule prune_update_ok [OF assms(1) k(1)]) (rule advance_state_ok [OF k(2) assms(3)])
qed

lemma release_state_ok: "state_ok created k s \<Longrightarrow> state_ok created k (release_state w r s)"
  by (auto simp: release_state_def state_ok_def set_states_delete
      intro: order_trans [OF length_delete_le])

lemma release_one_ok:
  assumes "deferred_ok created d" "registered d i"
  shows "deferred_ok created (release_one w r i d)"
proof -
  obtain k where k: "(k, i) \<in> set (df_states d)" "state_ok created k (df_objects d i)"
    using registered_key [OF assms] by blast
  show ?thesis
    unfolding release_one_def by (rule prune_update_ok [OF assms(1) k(1)]) (rule release_state_ok [OF k(2)])
qed

lemma release_one_registered:
  assumes "deferred_ok created d" "registered d i" "registered d j" "j \<noteq> i"
  shows "registered (release_one w r i d) j"
proof -
  obtain k where k: "(k, i) \<in> set (df_states d)" "ds_key (df_objects d i) = k"
    using registered_key [OF assms(1,2)] by blast
  obtain k' where k': "(k', j) \<in> set (df_states d)" using assms(3) by auto
  have "k' \<noteq> k" using key_unique [OF assms(1) k(1)] k' assms(4) by auto
  then show ?thesis
    using k k' by (force simp: release_one_def prune_def Let_def set_states_delete release_state_def image_iff)
qed

lemma release_loop_ok:
  "deferred_ok created d \<Longrightarrow> distinct is \<Longrightarrow> \<forall>i\<in>set is. registered d i \<Longrightarrow>
    deferred_ok created (fold (release_one w r) is d)"
proof (induction "is" arbitrary: d)
  case (Cons i "is")
  have "registered (release_one w r i d) j" if "j \<in> set is" for j
    by (rule release_one_registered [OF Cons.prems(1)]) (use Cons.prems that in auto)
  with Cons.IH [OF release_one_ok [OF Cons.prems(1)]] Cons.prems show ?case by auto
qed simp

lemma release_work_ok: "deferred_ok created d \<Longrightarrow> deferred_ok created (release w r d)"
  unfolding release_def by (rule release_loop_ok) (auto simp: deferred_ok_def)

lemma identities_ok: "deferred_ok created d \<Longrightarrow> deferred_ok created (fst (identities limit d))"
  by (simp add: identities_def Let_def deferred_ok_def)

declare include_cursor.simps [simp del]

section \<open>Who owes a receipt a visit\<close>

text \<open>
  A scope owes a receipt a visit when the receipt lies in the unread part of its current interval
  or in its next interval, or when the scope retains the receipt itself.
\<close>

definition unread :: "deferred_state \<Rightarrow> scope_cursor \<Rightarrow> bool" where
  "unread s c =
     ((case ds_current s of Some iv \<Rightarrow> interval_has iv c | None \<Rightarrow> False) \<and>
      (case ds_after s of Some a \<Rightarrow> a < c | None \<Rightarrow> True))"

definition aside :: "deferred_state \<Rightarrow> scope_cursor \<Rightarrow> bool" where
  "aside s c =
     ((case ds_next s of Some iv \<Rightarrow> interval_has iv c | None \<Rightarrow> False) \<or>
      (\<exists>e\<in>set (ds_retained s). snd e = c))"

definition owed :: "deferred_scopes \<Rightarrow> scope_cursor \<Rightarrow> bool" where
  "owed d c = (\<exists>e\<in>set (df_states d). unread (df_objects d (snd e)) c \<or> aside (df_objects d (snd e)) c)"

text \<open>Owed by something other than the current interval of object \<open>i\<close>.\<close>

definition owed_beside :: "nat \<Rightarrow> deferred_scopes \<Rightarrow> scope_cursor \<Rightarrow> bool" where
  "owed_beside i d c =
     (\<exists>e\<in>set (df_states d).
        (snd e \<noteq> i \<and> unread (df_objects d (snd e)) c) \<or> aside (df_objects d (snd e)) c)"

lemma owed_split:
  "registered d i \<Longrightarrow> owed d c \<longleftrightarrow> unread (df_objects d i) c \<or> owed_beside i d c"
  unfolding owed_def owed_beside_def by (metis image_iff set_map)

text \<open>The same with no object excluded: an object number that is never allocated.\<close>

lemma owed_as_beside: "\<not> registered d i \<Longrightarrow> owed d c = owed_beside i d c"
  by (auto simp: owed_def owed_beside_def image_iff)

lemma owed_beside_mono:
  assumes "owed_beside i d c" "set (df_states d) \<subseteq> set (df_states d')"
    and "\<And>j. registered d j \<Longrightarrow>
      (j \<noteq> i \<longrightarrow> unread (df_objects d j) c \<longrightarrow> unread (df_objects d' j) c \<or> aside (df_objects d' j) c) \<and>
      (aside (df_objects d j) c \<longrightarrow>
        aside (df_objects d' j) c \<or> (j \<noteq> i \<and> unread (df_objects d' j) c))"
  shows "owed_beside i d' c"
  using assms unfolding owed_beside_def by (metis (no_types, lifting) image_eqI set_map subsetD)

lemma capture_into_keeps:
  "unread s c' \<Longrightarrow> unread (capture_into w c s) c'"
  "aside s c' \<Longrightarrow> aside (capture_into w c s) c'"
  by (auto simp: unread_def aside_def capture_into_def include_keeps split: option.splits)

lemma capture_into_adds:
  assumes "state_ok created k s" "real_cursor created c"
  shows "ds_current s \<noteq> None \<Longrightarrow> aside (capture_into w c s) c"
    and "unread (capture_into w c s) c \<or> aside (capture_into w c s) c"
proof -
  have same: "e = c" if "map_of (ds_retained s) w = Some e" "cu_id e = cu_id c" for e
    using that assms by (force simp: state_ok_def dest!: map_of_SomeD intro!: real_cursor_eq [of created])
  have kept: "aside s c" if "map_of (ds_retained s) w = Some e" "cu_id e = cu_id c" for e
    using same [OF that] map_of_SomeD [OF that(1)] by (force simp: aside_def)
  show "ds_current s \<noteq> None \<Longrightarrow> aside (capture_into w c s) c"
    using kept include_has [of "ds_next s" c]
    by (auto simp: capture_into_def aside_def split: option.splits)
  show "unread (capture_into w c s) c \<or> aside (capture_into w c s) c"
    using kept include_has [of "ds_next s" c] include_has [of "ds_current s" c] assms(1)
    by (auto simp: capture_into_def unread_def aside_def state_ok_def split: option.splits)
qed

lemma capture_keeps:
  assumes "deferred_ok created d" "owed_beside i d c'"
  shows "owed_beside i (capture scope w c d) c'"
proof -
  obtain j d1 where d1: "state_object (capture_key scope d) scope d = (j, d1)" by fastforce
  have obj: "df_objects d1 n = df_objects d n" if "registered d n" for n
    using d1 that assms(1) by (auto simp: state_object_def deferred_ok_def split: option.splits)
  show ?thesis
  proof (rule owed_beside_mono [OF assms(2)])
    show "set (df_states d) \<subseteq> set (df_states (capture scope w c d))"
      using capture_registers [OF d1] by simp
  next
    fix n assume "registered d n"
    then have "df_objects (capture scope w c d) n = df_objects d n \<or>
        df_objects (capture scope w c d) n = capture_into w c (df_objects d n)"
      using obj [of n] by (auto simp: capture_registers(2) [OF d1])
    then show "(n \<noteq> i \<longrightarrow> unread (df_objects d n) c' \<longrightarrow>
          unread (df_objects (capture scope w c d) n) c' \<or> aside (df_objects (capture scope w c d) n) c') \<and>
        (aside (df_objects d n) c' \<longrightarrow>
          aside (df_objects (capture scope w c d) n) c' \<or> (n \<noteq> i \<and> unread (df_objects (capture scope w c d) n) c'))"
      using capture_into_keeps by metis
  qed
qed

lemma capture_adds:
  assumes ok: "deferred_ok created d" and c: "real_cursor created c"
  shows "owed (capture scope w c d) c"
    and "registered d i \<Longrightarrow> ds_current (df_objects d i) \<noteq> None \<Longrightarrow> owed_beside i (capture scope w c d) c"
proof -
  obtain j d1 where d1: "state_object (capture_key scope d) scope d = (j, d1)" by fastforce
  let ?k = "capture_key scope d"
  have st: "state_ok created ?k (df_objects d1 j)"
    using d1 deferred_okD(2) [OF ok] fresh_state_ok [of ?k scope created] capture_key_scope [of scope d]
    by (auto simp: state_object_def split: option.splits dest!: map_of_SomeD)
  note regs = capture_registers [OF d1]
  have adds: "unread (df_objects (capture scope w c d) j) c \<or> aside (df_objects (capture scope w c d) j) c"
    "ds_current (df_objects d1 j) \<noteq> None \<Longrightarrow> aside (df_objects (capture scope w c d) j) c"
    using capture_into_adds [OF st c] by (auto simp: regs(2))
  have reg: "(?k, j) \<in> set (df_states (capture scope w c d))" using regs by simp
  then show "owed (capture scope w c d) c" using adds(1) by (force simp: owed_def)
  assume i: "registered d i" "ds_current (df_objects d i) \<noteq> None"
  have "df_objects d1 i = df_objects d i"
    using d1 i(1) ok by (auto simp: state_object_def deferred_ok_def split: option.splits)
  then show "owed_beside i (capture scope w c d) c"
    using reg adds i by (cases "j = i") (force simp: owed_beside_def)+
qed

lemma promote_keeps:
  "unread s c \<Longrightarrow> unread (promote_state s) c"
  "aside s c \<Longrightarrow> aside (promote_state s) c \<or> unread (promote_state s) c"
  by (auto simp: promote_state_def unread_def aside_def)

lemma aside_conv:
  "jsmap_ok (ds_retained s) \<Longrightarrow>
    aside s c = ((case ds_next s of Some iv \<Rightarrow> interval_has iv c | None \<Rightarrow> False) \<or>
      (\<exists>w. jsmap_get (ds_retained s) w = Some c))"
  by (force simp: aside_def map_of_eq_Some_iff)

lemma retain_into_keeps:
  assumes "jsmap_ok (ds_retained s)"
  shows "unread s c' \<Longrightarrow> unread (fst (retain_into w c s)) c'"
    and "aside s c' \<Longrightarrow> aside (fst (retain_into w c s)) c'"
proof -
  have ok: "jsmap_ok (ds_retained (fst (retain_into w c s)))"
    using assms by (auto simp: retain_into_def Let_def split: option.splits)
  show "unread s c' \<Longrightarrow> unread (fst (retain_into w c s)) c'"
    by (auto simp: retain_into_def unread_def Let_def split: option.splits)
  show "aside (fst (retain_into w c s)) c'" if "aside s c'"
  proof (cases "case ds_next s of Some iv \<Rightarrow> interval_has iv c' | None \<Rightarrow> False")
    case True
    then show ?thesis
      using include_keeps by (auto simp: aside_def retain_into_def Let_def split: option.splits)
  next
    case False
    then obtain v where v: "jsmap_get (ds_retained s) v = Some c'"
      using \<open>aside s c'\<close> aside_conv [OF assms] by auto
    show ?thesis
    proof (cases "v = w")
      case True
      with v show ?thesis
        unfolding aside_conv [OF ok] using include_has [of "ds_next s" c']
        by (auto simp: retain_into_def Let_def)
    next
      case False
      with v have "jsmap_get (ds_retained (fst (retain_into w c s))) v = Some c'"
        by (auto simp: retain_into_def Let_def split: option.splits)
      then show ?thesis unfolding aside_conv [OF ok] by blast
    qed
  qed
qed

lemma retain_into_adds:
  assumes "state_ok created k s" "real_cursor created c" "snd (retain_into w c s)"
  shows "aside (fst (retain_into w c s)) c"
proof -
  have ok: "jsmap_ok (ds_retained s)" "jsmap_ok (ds_retained (fst (retain_into w c s)))"
    using assms(1) by (auto simp: state_ok_def retain_into_def Let_def split: option.splits)
  have same: "e = c" if "map_of (ds_retained s) w = Some e" "cu_id e = cu_id c" for e
    using that assms by (force simp: state_ok_def dest!: map_of_SomeD intro!: real_cursor_eq [of created])
  show ?thesis
    unfolding aside_conv [OF ok(2)]
    using assms(3) same include_has [of "ds_next s" c]
    by (auto simp: retain_into_def Let_def split: option.splits if_splits)
qed

lemma retain_eq:
  "retain i w c d = (update_object i (\<lambda>s. fst (retain_into w c s)) d, snd (retain_into w c (df_objects d i)))"
  by (simp add: retain_def Let_def case_prod_unfold)

lemma retain_keeps:
  assumes "deferred_ok created d" "owed_beside i d c'"
  shows "owed_beside i (fst (retain j w c d)) c'"
proof (rule owed_beside_mono [OF assms(2)])
  fix n assume n: "registered d n"
  have "jsmap_ok (ds_retained (df_objects d n))"
    using registered_key [OF assms(1) n] by (auto simp: state_ok_def)
  note keeps = retain_into_keeps [OF this, of c' w c]
  show "(n \<noteq> i \<longrightarrow> unread (df_objects d n) c' \<longrightarrow>
        unread (df_objects (fst (retain j w c d)) n) c' \<or> aside (df_objects (fst (retain j w c d)) n) c') \<and>
      (aside (df_objects d n) c' \<longrightarrow>
        aside (df_objects (fst (retain j w c d)) n) c' \<or> (n \<noteq> i \<and> unread (df_objects (fst (retain j w c d)) n) c'))"
    using keeps by (auto simp: retain_eq)
qed (simp add: retain_eq)

lemma retain_adds:
  assumes "deferred_ok created d" "registered d i" "real_cursor created c" "snd (retain i w c d)"
  shows "owed_beside i (fst (retain i w c d)) c"
proof -
  obtain k where k: "(k, i) \<in> set (df_states d)" "state_ok created k (df_objects d i)"
    using registered_key [OF assms(1,2)] by blast
  have "aside (fst (retain_into w c (df_objects d i))) c"
    using retain_into_adds [OF k(2) assms(3)] assms(4) by (simp add: retain_eq)
  then show ?thesis using k(1) by (force simp: owed_beside_def retain_eq)
qed

section \<open>A page read owes no less\<close>

text \<open>The page loop neither touches the scan position of its own scope nor unregisters it.\<close>

lemma capture_scan:
  assumes "deferred_ok created d" "registered d i" "ds_current (df_objects d i) \<noteq> None"
  shows "registered (capture scope w c d) i"
    and "ds_current (df_objects (capture scope w c d) i) = ds_current (df_objects d i)"
    and "ds_after (df_objects (capture scope w c d) i) = ds_after (df_objects d i)"
proof -
  obtain j d1 where d1: "state_object (capture_key scope d) scope d = (j, d1)" by fastforce
  have "df_objects d1 i = df_objects d i"
    using d1 assms(1,2) by (auto simp: state_object_def deferred_ok_def split: option.splits)
  moreover note capture_registers [OF d1]
  ultimately show "registered (capture scope w c d) i"
    and "ds_current (df_objects (capture scope w c d) i) = ds_current (df_objects d i)"
    and "ds_after (df_objects (capture scope w c d) i) = ds_after (df_objects d i)"
    using assms(2,3) by (auto simp: capture_into_def)
qed

lemma retain_scan:
  "df_states (fst (retain j w c d)) = df_states d"
  "ds_current (df_objects (fst (retain j w c d)) i) = ds_current (df_objects d i)"
  "ds_after (df_objects (fst (retain j w c d)) i) = ds_after (df_objects d i)"
  by (auto simp: retain_eq retain_into_def Let_def split: option.splits)

definition page_state_ok :: "(js_string \<Rightarrow> int) \<Rightarrow> nat \<Rightarrow> deferred_scopes \<Rightarrow> deferred_scopes \<Rightarrow> bool" where
  "page_state_ok created i d d' =
     (deferred_ok created d' \<and> registered d' i \<and>
      ds_current (df_objects d' i) = ds_current (df_objects d i) \<and>
      ds_after (df_objects d' i) = ds_after (df_objects d i) \<and>
      (\<forall>c. owed_beside i d c \<longrightarrow> owed_beside i d' c))"

lemma page_state_capture:
  assumes "deferred_ok created d" "registered d i" "ds_current (df_objects d i) \<noteq> None"
  shows "page_state_ok created i d (capture scope w c d)"
  using capture_scan [OF assms] capture_ok [OF assms(1)] capture_keeps [OF assms(1)]
  by (simp add: page_state_ok_def)

lemma page_state_retain:
  assumes "deferred_ok created d" "registered d i" "real_cursor created c"
  shows "page_state_ok created i d (fst (retain i w c d))"
  using retain_scan [of i w c d] retain_ok [OF assms] retain_keeps [OF assms(1)] assms(2)
  by (simp add: page_state_ok_def)

lemma page_state_trans:
  "page_state_ok created i d d1 \<Longrightarrow> page_state_ok created i d1 d2 \<Longrightarrow> page_state_ok created i d d2"
  by (simp add: page_state_ok_def)

lemma page_loop_spec:
  assumes "deferred_ok created d" "registered d i" "ds_current (df_objects d i) \<noteq> None"
    and "\<forall>r\<in>set rows. real_cursor created (pr_cursor r)"
    and "page_loop i rows after d = (d', after', capped)"
  shows "page_state_ok created i d d' \<and>
    (\<exists>done rest. rows = done @ rest \<and> (\<not> capped \<longrightarrow> rest = []) \<and>
       after' = (if done = [] then after else Some (pr_cursor (last done))) \<and>
       (\<forall>r\<in>set done. pr_representative r \<longrightarrow> owed_beside i d' (pr_cursor r)))"
  using assms
proof (induction rows arbitrary: after d)
  case Nil
  then show ?case by (simp add: page_state_ok_def)
next
  case (Cons row rows)
  let ?a = "Some (pr_cursor row)" and ?scope = "webhookPreparationScope (pr_payload row)"
  have step: ?case
    if d1: "page_state_ok created i d d1" and loop: "page_loop i rows ?a d1 = (d', after', capped)"
      and row: "pr_representative row \<Longrightarrow> owed_beside i d1 (pr_cursor row)" for d1
  proof -
    have "deferred_ok created d1" "registered d1 i" "ds_current (df_objects d1 i) \<noteq> None"
      using d1 Cons.prems(3) by (simp_all add: page_state_ok_def)
    from Cons.IH [OF this _ loop] Cons.prems(4)
    obtain don rest where IH: "page_state_ok created i d1 d'" "rows = don @ rest" "\<not> capped \<longrightarrow> rest = []"
      "after' = (if don = [] then ?a else Some (pr_cursor (last don)))"
      "\<forall>r\<in>set don. pr_representative r \<longrightarrow> owed_beside i d' (pr_cursor r)"
      by auto
    have "owed_beside i d' (pr_cursor row)" if "pr_representative row"
      using row [OF that] IH(1) by (simp add: page_state_ok_def)
    then show ?thesis
      using page_state_trans [OF d1 IH(1)] IH(2-5)
      by (intro conjI exI [of _ "row # don"] exI [of _ rest]) auto
  qed
  have real: "real_cursor created (pr_cursor row)" using Cons.prems(4) by simp
  consider "\<not> pr_representative row"
    | "pr_representative row" "ds_scope (df_objects d i) \<noteq> None \<and> Scope_Key ?scope \<noteq> ds_key (df_objects d i)"
    | "pr_representative row" "\<not> (ds_scope (df_objects d i) \<noteq> None \<and> Scope_Key ?scope \<noteq> ds_key (df_objects d i))"
    by blast
  then show ?case
  proof cases
    case 1
    show ?thesis
      by (rule step [of d]) (use 1 Cons.prems in \<open>simp_all add: page_state_ok_def Let_def\<close>)
  next
    case 2
    show ?thesis
      by (rule step [OF page_state_capture [OF Cons.prems(1-3)]])
         (use 2 Cons.prems(5) capture_adds(2) [OF Cons.prems(1) real Cons.prems(2,3)] in \<open>simp_all add: Let_def\<close>)
  next
    case 3
    obtain d1 ok where r: "retain i (pr_key row) (pr_cursor row) d = (d1, ok)" by fastforce
    have d1: "page_state_ok created i d d1"
      using page_state_retain [OF Cons.prems(1,2) real, of "pr_key row"] r by simp
    show ?thesis
    proof (cases ok)
      case True
      show ?thesis
        by (rule step [OF d1])
           (use 3 True r Cons.prems(5) retain_adds [OF Cons.prems(1,2) real, of "pr_key row"] in
             \<open>auto simp: Let_def split: if_splits\<close>)
    next
      case False
      then have "d' = d1" "after' = after" "capped"
        using 3 r Cons.prems(5) by (auto simp: Let_def split: if_splits)
      with d1 show ?thesis by (intro conjI exI [of _ "[]"] exI [of _ "row # rows"]) auto
    qed
  qed
qed

text \<open>
  What a page of a scope object \<open>i\<close> has to be for the loop to lose nothing: rows of real receipts in
  strictly ascending cursor order (\<open>page_query_ok\<close>), with the receipt \<open>c\<close> of the unread
  part among them as a representative, or a full page with \<open>c\<close> beyond it (\<open>page_returns\<close>).
  \<^verbatim>\<open>Deferred_Reader\<close> proves both of the rows the code's query selects.
\<close>

definition page_query_ok :: "(js_string \<Rightarrow> int) \<Rightarrow> deferred_scopes \<Rightarrow> nat \<Rightarrow> page_row list \<Rightarrow> bool" where
  "page_query_ok created d i rows =
     (sorted_wrt (<) (map pr_cursor rows) \<and> (\<forall>r\<in>set rows. real_cursor created (pr_cursor r)))"

definition page_returns :: "deferred_scopes \<Rightarrow> nat \<Rightarrow> page_row list \<Rightarrow> scope_cursor \<Rightarrow> bool" where
  "page_returns d i rows c =
     (unread (df_objects d i) c \<longrightarrow>
        (\<exists>r\<in>set rows. pr_cursor r = c \<and> pr_representative r) \<or>
        (DEFERRED_SCOPE_RAW_PAGE_SIZE < length rows \<and> (\<forall>r\<in>set rows. pr_cursor r < c)))"

lemma owed_update:
  assumes "owed d c"
    and "unread (df_objects d i) c \<or> aside (df_objects d i) c \<Longrightarrow>
      unread (f (df_objects d i)) c \<or> aside (f (df_objects d i)) c"
  shows "owed (update_object i f d) c"
proof -
  obtain e where e: "e \<in> set (df_states d)" "unread (df_objects d (snd e)) c \<or> aside (df_objects d (snd e)) c"
    using assms(1) unfolding owed_def by blast
  then show ?thesis
    using assms(2) unfolding owed_def by (intro bexI [where x = e]) auto
qed

lemma promote_object_keeps: "owed d c \<Longrightarrow> owed (update_object i promote_state d) c"
  by (rule owed_update) (use promote_keeps [of "df_objects d i" c] in auto)

lemma prune_update_owed:
  assumes ok: "deferred_ok created d" and k: "(k, i) \<in> set (df_states d)"
    and key: "ds_key (f (df_objects d i)) = k" and c: "owed (update_object i f d) c"
  shows "owed (prune i (update_object i f d)) c"
proof -
  let ?s = "f (df_objects d i)" and ?d = "update_object i f d"
  obtain k' j where j: "(k', j) \<in> set (df_states d)" "unread (df_objects ?d j) c \<or> aside (df_objects ?d j) c"
    using c unfolding owed_def by (metis (mono_tags, lifting) prod.collapse deferred_scopes.ext_inject deferred_scopes.surjective deferred_scopes.update_convs(2))
  have "(k', j) \<in> set (df_states (prune i ?d))"
  proof (cases "held ?s")
    case True
    then have "prune i ?d = ?d" by (auto simp: prune_def held_def)
    then show ?thesis using j by simp
  next
    case False
    then have "\<not> (unread ?s c \<or> aside ?s c)" by (auto simp: held_def unread_def aside_def)
    then have "j \<noteq> i" using j(2) by auto
    then have "k' \<noteq> k" using key_unique [OF ok k] j(1) by blast
    then show ?thesis using j(1) key by (auto simp: prune_def Let_def set_states_delete)
  qed
  moreover have "df_objects (prune i ?d) = df_objects ?d" by (simp add: prune_def Let_def)
  ultimately show ?thesis using j(2) unfolding owed_def by (metis snd_conv)
qed

lemma advance_keeps:
  assumes ok: "deferred_ok created d" and reg: "registered d i"
    and guard: "after = None \<or> ds_current (df_objects d i) \<noteq> None \<or> finished"
    and c: "owed_beside i d c \<or> (\<not> finished \<and> unread (df_objects d i) c \<and> (\<forall>a. after = Some a \<longrightarrow> a < c))"
  shows "owed (advance i after finished d) c"
proof -
  obtain k where k: "(k, i) \<in> set (df_states d)" "state_ok created k (df_objects d i)"
    using registered_key [OF ok reg] by blast
  let ?f = "advance_state after finished" and ?s = "df_objects d i"
  have key: "ds_key (?f ?s) = k" using advance_state_ok [OF k(2) guard] by (simp add: state_ok_def)
  have keep_i: "unread (?f ?s) c \<or> aside (?f ?s) c"
    if "aside ?s c \<or> (\<not> finished \<and> unread ?s c \<and> (\<forall>a. after = Some a \<longrightarrow> a < c))"
    using that by (auto simp: advance_state_def promote_state_def unread_def aside_def Let_def split: option.splits)
  have "owed (update_object i ?f d) c"
  proof (cases "aside ?s c \<or> (\<not> finished \<and> unread ?s c \<and> (\<forall>a. after = Some a \<longrightarrow> a < c))")
    case True
    then show ?thesis using k(1) keep_i by (force simp: owed_def)
  next
    case False
    with c obtain e where "e \<in> set (df_states d)" "snd e \<noteq> i"
        "unread (df_objects d (snd e)) c \<or> aside (df_objects d (snd e)) c"
      unfolding owed_beside_def by metis
    then show ?thesis unfolding owed_def by auto
  qed
  then show ?thesis unfolding advance_def by (rule prune_update_owed [where f = ?f, OF ok k(1) key])
qed

lemma sorted_cursor_prefix:
  assumes "sorted_wrt (<) (map pr_cursor (don @ rest))" "r \<in> set (don @ rest)" "r \<notin> set don" "x \<in> set don"
  shows "pr_cursor x < pr_cursor r"
  using assms by (auto simp: sorted_wrt_append)

lemma read_page_ok:
  assumes ok: "deferred_ok created d" and reg: "registered d i"
    and cur: "ds_current (df_objects d i) \<noteq> None" and rows: "page_query_ok created d i rows"
  shows "deferred_ok created (read_page i rows d)"
    and "owed d c \<Longrightarrow> page_returns d i rows c \<Longrightarrow> owed (read_page i rows d) c"
proof -
  let ?N = "DEFERRED_SCOPE_RAW_PAGE_SIZE"
  obtain d1 after capped where loop:
    "page_loop i (take ?N rows) (ds_after (df_objects d i)) d = (d1, after, capped)"
    by (metis prod_cases3)
  have real: "\<forall>r\<in>set (take ?N rows). real_cursor created (pr_cursor r)"
    using rows by (auto simp: page_query_ok_def dest: in_set_takeD)
  obtain don rest where spec: "page_state_ok created i d d1" "take ?N rows = don @ rest"
    "\<not> capped \<longrightarrow> rest = []"
    "after = (if don = [] then ds_after (df_objects d i) else Some (pr_cursor (last don)))"
    "\<forall>r\<in>set don. pr_representative r \<longrightarrow> owed_beside i d1 (pr_cursor r)"
    using page_loop_spec [OF ok reg cur real loop] by blast
  have d1: "deferred_ok created d1" "registered d1 i" "ds_current (df_objects d1 i) \<noteq> None"
    and unread_same: "unread (df_objects d1 i) c = unread (df_objects d i) c"
    and kept: "owed_beside i d c \<Longrightarrow> owed_beside i d1 c"
    using spec(1) cur by (simp_all add: page_state_ok_def unread_def)
  have read: "read_page i rows d = advance i after (\<not> capped \<and> length rows \<le> ?N) d1"
    by (simp add: read_page_def loop)
  show "deferred_ok created (read_page i rows d)"
    unfolding read by (rule advance_ok [OF d1(1,2)]) (simp add: d1(3))
  assume owed: "owed d c" and returned: "page_returns d i rows c"
  have "owed_beside i d1 c \<or>
      (\<not> (\<not> capped \<and> length rows \<le> ?N) \<and> unread (df_objects d1 i) c \<and> (\<forall>a. after = Some a \<longrightarrow> a < c))"
  proof (cases "owed_beside i d c")
    case True
    then show ?thesis by (simp add: kept)
  next
    case False
    then have unread: "unread (df_objects d i) c" using owed owed_split [OF reg] by simp
    have start: "a < c" if "ds_after (df_objects d i) = Some a" for a
      using unread that by (simp add: unread_def)
    have split: "rows = don @ (rest @ drop ?N rows)" using spec(2) by (metis append_take_drop_id append.assoc)
    have in_rows: "last don \<in> set rows" if "don \<noteq> []"
      using that split by (metis Un_iff last_in_set set_append)
    consider r where "r \<in> set don" "pr_cursor r = c" "pr_representative r"
      | r where "r \<in> set rows" "r \<notin> set don" "pr_cursor r = c"
      | "?N < length rows" "\<forall>r\<in>set rows. pr_cursor r < c"
      using returned unread unfolding page_returns_def by blast
    then show ?thesis
    proof cases
      case 1
      then show ?thesis using spec(5) by auto
    next
      case 2
      have "pr_cursor x < c" if "x \<in> set don" for x
        using sorted_cursor_prefix [of don "rest @ drop ?N rows" r x] rows split 2 that
        by (simp add: page_query_ok_def)
      then have "a < c" if "after = Some a" for a
        using that start spec(4) by (auto split: if_splits)
      moreover have "capped \<or> ?N < length rows"
        using 2 split spec(3) by (cases "length rows \<le> ?N") auto
      ultimately show ?thesis using unread unread_same by auto
    next
      case 3
      have "a < c" if "after = Some a" for a
        using that start spec(4) 3(2) in_rows by (auto split: if_splits)
      then show ?thesis using 3(1) unread unread_same by auto
    qed
  qed
  then show "owed (read_page i rows d) c"
    unfolding read by (intro advance_keeps [OF d1(1,2)]) (simp_all only: d1(3) simp_thms)
qed

section \<open>Runs\<close>

datatype deferred_event =
    Capture "preparation_scope option" js_string scope_cursor
  | Select nat
  | Read nat "page_row list"
  | Identities nat
  | Release js_string js_string

fun deferred_step :: "deferred_scopes \<Rightarrow> deferred_event \<Rightarrow> deferred_scopes" where
  "deferred_step d (Capture scope w c) = capture scope w c d"
| "deferred_step d (Select limit) = fst (selectReaders limit d)"
| "deferred_step d (Read i rows) = read_page i rows d"
| "deferred_step d (Identities limit) = fst (identities limit d)"
| "deferred_step d (Release w r) = release w r d"

text \<open>A page is read for a scope that is registered and has a current interval, as
  \<open>selected_reader_stable\<close> below shows of every selected scope.\<close>

fun deferred_guard :: "(js_string \<Rightarrow> int) \<Rightarrow> deferred_scopes \<Rightarrow> deferred_event \<Rightarrow> bool" where
  "deferred_guard created d (Capture scope w c) = real_cursor created c"
| "deferred_guard created d (Read i rows) =
     (registered d i \<and> ds_current (df_objects d i) \<noteq> None \<and> page_query_ok created d i rows)"
| "deferred_guard created d _ = True"

interpretation deferred: invariant_machine "deferred_ok created" "deferred_guard created" deferred_step
  for created
proof (unfold_locales, goal_cases inv)
  case (inv d e)
  then show ?case
    by (cases e) (simp_all add: capture_ok selectReaders_ok read_page_ok(1) identities_ok release_work_ok)
qed

text \<open>Recording a receipt and listing the retained ones lose no other receipt.\<close>

lemma capture_owed:
  assumes "deferred_ok created d" "owed d c"
  shows "owed (capture scope w c' d) c"
proof -
  have "df_next_object d \<notin> snd ` set (df_states d)"
    using assms(1) by (auto simp: deferred_ok_def)
  then have "owed_beside (df_next_object d) d c" using owed_as_beside assms(2) by simp
  then have "owed_beside (df_next_object d) (capture scope w c' d) c" by (rule capture_keeps [OF assms(1)])
  then show ?thesis by (auto simp: owed_beside_def owed_def)
qed

lemma identities_scopes [simp]:
  "df_states (fst (identities limit d)) = df_states d" "df_objects (fst (identities limit d)) = df_objects d"
  by (simp_all add: identities_def Let_def)

lemma identities_owed [simp]: "owed (fst (identities limit d)) c = owed d c"
  by (simp add: owed_def)

lemma select_loop_keeps: "owed d c \<Longrightarrow> owed (fst (select_loop limit is d sel v)) c"
proof (induction "is" arbitrary: d sel v)
  case (Cons i "is")
  then show ?case using promote_object_keeps [OF Cons.prems, of i] by (simp add: Let_def del: fun_upd_apply)
qed simp

lemma select_keeps: "owed d c \<Longrightarrow> owed (fst (selectReaders limit d)) c"
  using select_loop_keeps [of d c]
  by (auto simp: selectReaders_def Let_def case_prod_unfold owed_def simp del: select_loop.simps)

lemma release_one_keeps:
  assumes ok: "deferred_ok created d" and reg: "registered d i" and c: "owed d c" "cu_id c \<noteq> r"
  shows "owed (release_one w r i d) c"
proof -
  obtain k where k: "(k, i) \<in> set (df_states d)" "state_ok created k (df_objects d i)"
    using registered_key [OF ok reg] by blast
  let ?f = "release_state w r" and ?s = "df_objects d i"
  have key: "ds_key (?f ?s) = k" using release_state_ok [OF k(2), of w r] by (simp add: state_ok_def)
  have keep_i: "(unread ?s c \<longrightarrow> unread (?f ?s) c) \<and> (aside ?s c \<longrightarrow> aside (?f ?s) c)"
  proof (cases "\<exists>e. jsmap_get (ds_retained ?s) w = Some e \<and> cu_id e = r")
    case True
    moreover have "jsmap_ok (ds_retained ?s)" using k(2) by (simp add: state_ok_def)
    ultimately have "(w, c) \<notin> set (ds_retained ?s)"
      using c(2) by (metis map_of_is_SomeI option.inject)
    then have "e \<in> set (jsmap_delete w (ds_retained ?s))" if "e \<in> set (ds_retained ?s)" "snd e = c" for e
      using that by (cases e) (auto simp: set_states_delete)
    then show ?thesis
      by (auto simp: release_state_def unread_def aside_def split: option.splits)
  next
    case False
    then have "?f ?s = ?s" by (auto simp: release_state_def split: option.splits)
    then show ?thesis by simp
  qed
  have "owed (update_object i ?f d) c"
    by (rule owed_update [OF c(1)]) (use keep_i in auto)
  then show ?thesis unfolding release_one_def by (rule prune_update_owed [where f = ?f, OF ok k(1) key])
qed

lemma release_keeps:
  assumes "deferred_ok created d" "owed d c" "cu_id c \<noteq> r"
  shows "owed (release w r d) c"
proof -
  have "owed (fold (release_one w r) is d) c"
    if "distinct is" "\<forall>i\<in>set is. registered d i" "deferred_ok created d" "owed d c" for "is" d
    using that
  proof (induction "is" arbitrary: d)
    case (Cons i "is")
    have "registered (release_one w r i d) j" if "j \<in> set is" for j
      by (rule release_one_registered [OF Cons.prems(3)]) (use Cons.prems that in auto)
    moreover have "owed (release_one w r i d) c"
      by (rule release_one_keeps [OF Cons.prems(3)]) (use Cons.prems assms(3) in auto)
    ultimately show ?case
      using Cons.IH [OF _ _ release_one_ok [OF Cons.prems(3)]] Cons.prems by auto
  qed simp
  then show ?thesis unfolding release_def using assms(1,2) by (auto simp: deferred_ok_def)
qed

section \<open>A selected scope stays in place until its page is read\<close>

definition scan_kept :: "nat \<Rightarrow> deferred_scopes \<Rightarrow> deferred_scopes \<Rightarrow> bool" where
  "scan_kept i d d' =
     (registered d' i \<and> ds_current (df_objects d' i) = ds_current (df_objects d i) \<and>
      ds_after (df_objects d' i) = ds_after (df_objects d i))"

lemma select_loop_states:
  "df_states (fst (select_loop limit is d sel v)) = df_states d"
  "df_objects (fst (select_loop limit is d sel v)) j = df_objects d j \<or>
   df_objects (fst (select_loop limit is d sel v)) j = promote_state (df_objects d j)"
proof (induction "is" arbitrary: d sel v)
  case (Cons i "is")
  have twice: "promote_state (promote_state s) = promote_state s" for s
    by (simp add: promote_state_def)
  { case 1
    show ?case using Cons.IH(1) by (simp add: Let_def) }
  { case 2
    show ?case
      using Cons.IH(2) [of "update_object i promote_state d"] twice
      by (cases "j = i") (auto simp: Let_def) }
qed simp_all

lemma selectReaders_states:
  "df_states (fst (selectReaders limit d)) = df_states d"
  "df_objects (fst (selectReaders limit d)) j = df_objects d j \<or>
   df_objects (fst (selectReaders limit d)) j = promote_state (df_objects d j)"
  using select_loop_states by (simp_all add: selectReaders_def Let_def case_prod_unfold)

lemma promote_running: "ds_current s \<noteq> None \<Longrightarrow> promote_state s = s"
  by (auto simp: promote_state_def)

lemma prune_scan_other:
  assumes "deferred_ok created d" "registered d j" "registered d i" "i \<noteq> j"
    and "ds_key (f (df_objects d j)) = ds_key (df_objects d j)"
  shows "scan_kept i d (prune j (update_object j f d))"
proof -
  obtain k where k: "(k, j) \<in> set (df_states d)" "ds_key (df_objects d j) = k"
    using registered_key [OF assms(1,2)] by blast
  obtain k' where k': "(k', i) \<in> set (df_states d)" using assms(3) by auto
  have "k' \<noteq> k" using key_unique [OF assms(1) k(1)] k' assms(4) by auto
  then show ?thesis
    using k k' assms(4,5) by (force simp: scan_kept_def prune_def Let_def set_states_delete image_iff)
qed

lemma release_one_scan:
  assumes "deferred_ok created d" "registered d i" "ds_current (df_objects d i) \<noteq> None" "registered d j"
  shows "scan_kept i d (release_one w r j d)"
proof (cases "i = j")
  case True
  then show ?thesis
    using assms by (auto simp: release_one_def prune_def scan_kept_def release_state_def Let_def)
next
  case False
  show ?thesis
    unfolding release_one_def
    by (rule prune_scan_other [OF assms(1,4,2) False]) (simp add: release_state_def)
qed

lemma scan_kept_trans: "scan_kept i d d1 \<Longrightarrow> scan_kept i d1 d2 \<Longrightarrow> scan_kept i d d2"
  by (simp add: scan_kept_def)

lemma release_scan:
  assumes "deferred_ok created d" "registered d i" "ds_current (df_objects d i) \<noteq> None"
  shows "scan_kept i d (release w r d)"
proof -
  have "scan_kept i d (fold (release_one w r) is d)"
    if "distinct is" "\<forall>j\<in>set is. registered d j" "deferred_ok created d" "registered d i"
      "ds_current (df_objects d i) \<noteq> None" for "is" d
    using that
  proof (induction "is" arbitrary: d)
    case (Cons j "is")
    have j: "registered d j" using Cons.prems(2) by simp
    note one = release_one_scan [OF Cons.prems(3,4,5) j, of w r]
    have "registered (release_one w r j d) l" if "l \<in> set is" for l
      by (rule release_one_registered [OF Cons.prems(3) j]) (use Cons.prems that in auto)
    then have "scan_kept i (release_one w r j d) (fold (release_one w r) is (release_one w r j d))"
      using Cons.IH [OF _ _ release_one_ok [OF Cons.prems(3) j]] Cons.prems one
      by (auto simp: scan_kept_def)
    with one show ?case by (auto intro: scan_kept_trans)
  qed (simp add: scan_kept_def)
  then show ?thesis unfolding release_def using assms by (auto simp: deferred_ok_def)
qed

lemma page_loop_scan:
  assumes "deferred_ok created d" "registered d i" "ds_current (df_objects d i) \<noteq> None"
    and "registered d j" "i \<noteq> j" "\<forall>r\<in>set rows. real_cursor created (pr_cursor r)"
    and "page_loop j rows after d = (d', after', capped)"
  shows "scan_kept i d d' \<and> registered d' j \<and> deferred_ok created d'"
  using assms
proof (induction rows arbitrary: after d)
  case Nil
  then show ?case by (simp add: scan_kept_def)
next
  case (Cons row rows)
  let ?a = "Some (pr_cursor row)"
  have real: "real_cursor created (pr_cursor row)" using Cons.prems(6) by simp
  have step: ?case
    if d1: "scan_kept i d d1" "deferred_ok created d1" "registered d1 j"
      and loop: "page_loop j rows ?a d1 = (d', after', capped)" for d1
    using Cons.IH [OF d1(2) _ _ d1(3) Cons.prems(5) _ loop] d1(1) Cons.prems
      scan_kept_trans [OF d1(1)] by (auto simp: scan_kept_def)
  have cap: "scan_kept i d (capture s w c d)" "registered (capture s w c d) j" for s w c
  proof -
    show "scan_kept i d (capture s w c d)"
      using capture_scan [OF Cons.prems(1-3)] by (simp add: scan_kept_def)
    obtain l d1 where d1: "state_object (capture_key s d) s d = (l, d1)" by fastforce
    show "registered (capture s w c d) j" using capture_registers [OF d1] Cons.prems(4) by auto
  qed
  have ret: "scan_kept i d (fst (retain j w c d))" "registered (fst (retain j w c d)) j" for w c
    using retain_scan [of j w c d] Cons.prems(2,4) by (simp_all add: scan_kept_def)
  show ?case
  proof (cases "snd (retain j (pr_key row) (pr_cursor row) d)")
    case True
    then show ?thesis
      using Cons.prems(7) step [of d] step [OF cap(1) capture_ok [OF Cons.prems(1)] cap(2)]
        step [OF ret(1) retain_ok [OF Cons.prems(1,4) real] ret(2)] Cons.prems(1-4)
      by (auto simp: scan_kept_def Let_def case_prod_unfold split: if_splits)
  next
    case False
    then show ?thesis
      using Cons.prems(7) step [of d] step [OF cap(1) capture_ok [OF Cons.prems(1)] cap(2)]
        ret retain_ok [OF Cons.prems(1,4) real] Cons.prems(1-4)
      by (auto simp: scan_kept_def Let_def case_prod_unfold split: if_splits)
  qed
qed

lemma read_page_scan:
  assumes "deferred_ok created d" "registered d i" "ds_current (df_objects d i) \<noteq> None"
    and "registered d j" "i \<noteq> j" "page_query_ok created d j rows"
  shows "scan_kept i d (read_page j rows d)"
proof -
  obtain d1 after capped where loop:
    "page_loop j (take DEFERRED_SCOPE_RAW_PAGE_SIZE rows) (ds_after (df_objects d j)) d = (d1, after, capped)"
    by (metis prod_cases3)
  have "\<forall>r\<in>set (take DEFERRED_SCOPE_RAW_PAGE_SIZE rows). real_cursor created (pr_cursor r)"
    using assms(6) by (auto simp: page_query_ok_def dest: in_set_takeD)
  from page_loop_scan [OF assms(1-5) this loop]
  have d1: "scan_kept i d d1" "registered d1 j" "deferred_ok created d1" by auto
  have "scan_kept i d1 (advance j after f d1)" for f
    unfolding advance_def
    by (rule prune_scan_other [OF d1(3,2) _ assms(5)])
       (use d1(1) in \<open>auto simp: scan_kept_def advance_state_def promote_state_def Let_def\<close>)
  with scan_kept_trans [OF d1(1)] show ?thesis by (simp add: read_page_def loop)
qed

fun reads_other :: "nat \<Rightarrow> deferred_event \<Rightarrow> bool" where
  "reads_other i (Read j rows) = (j \<noteq> i)"
| "reads_other i _ = True"

lemma step_scan:
  assumes "deferred_ok created d" "registered d i" "ds_current (df_objects d i) \<noteq> None"
    and "deferred_guard created d e" "reads_other i e"
  shows "scan_kept i d (deferred_step d e)"
proof (cases e)
  case (Capture scope w c)
  then show ?thesis using capture_scan [OF assms(1-3)] by (simp add: scan_kept_def)
next
  case (Select limit)
  then show ?thesis
    using selectReaders_states(1) [of limit d] selectReaders_states(2) [of limit d i]
      promote_running [OF assms(3)] assms(2)
    by (simp add: scan_kept_def)
next
  case (Read j rows)
  then show ?thesis using read_page_scan [OF assms(1-3)] assms(4,5) by auto
next
  case (Identities limit)
  then show ?thesis using assms(2) by (auto simp: scan_kept_def identities_def Let_def)
next
  case (Release w r)
  then show ?thesis using release_scan [OF assms(1-3)] by simp
qed

lemma run_scan:
  assumes "deferred_ok created d" "registered d i" "ds_current (df_objects d i) \<noteq> None"
    and "run_ok (\<lambda>d e. deferred_guard created d e \<and> reads_other i e) deferred_step d es"
  shows "scan_kept i d (foldl deferred_step d es)"
  using assms
proof (induction es arbitrary: d)
  case (Cons e es)
  have one: "scan_kept i d (deferred_step d e)"
    using step_scan [OF Cons.prems(1-3)] Cons.prems(4) by simp
  then have "scan_kept i (deferred_step d e) (foldl deferred_step (deferred_step d e) es)"
    using Cons.IH [OF deferred.step_inv [OF Cons.prems(1)]] Cons.prems(3,4) by (simp add: scan_kept_def)
  with one show ?case by (auto intro: scan_kept_trans)
qed (simp add: scan_kept_def)

section \<open>The readers turn\<close>

lemma promote_twice [simp]: "promote_state (promote_state s) = promote_state s"
  by (simp add: promote_state_def)

lemma select_loop_selected:
  assumes "length sel < limit" "select_loop limit is d sel v = (d', sel', v')"
  shows "\<exists>m\<le>length is. v' = v + m \<and> (is \<noteq> [] \<longrightarrow> 0 < m) \<and>
    (m < length is \<longrightarrow> length sel' = limit) \<and>
    sel' = sel @ filter (\<lambda>i. readable (promote_state (df_objects d i))) (take m is)"
  using assms
proof (induction "is" arbitrary: d sel v)
  case (Cons i "is")
  let ?d = "update_object i promote_state d"
  have same: "readable (promote_state (df_objects ?d j)) = readable (promote_state (df_objects d j))" for j
    by simp
  show ?case
  proof (cases "limit \<le> length (if readable (df_objects ?d i) then sel @ [i] else sel)")
    case True
    then show ?thesis using Cons.prems by (intro exI [of _ 1]) (auto simp: Let_def split: if_splits)
  next
    case False
    then have loop: "select_loop limit is ?d (if readable (df_objects ?d i) then sel @ [i] else sel) (Suc v) = (d', sel', v')"
      using Cons.prems by (simp add: Let_def split: if_splits)
    from Cons.IH [OF _ loop] False obtain m where
      "m \<le> length is" "v' = Suc v + m" "m < length is \<longrightarrow> length sel' = limit"
      "sel' = (if readable (df_objects ?d i) then sel @ [i] else sel) @
        filter (\<lambda>i. readable (promote_state (df_objects d i))) (take m is)"
      unfolding same by (auto simp: not_le)
    then show ?thesis by (intro exI [of _ "Suc m"]) (auto split: if_splits)
  qed
qed auto

text \<open>How many scopes stand in the ring before position \<open>q\<close> when reading starts at \<open>offset\<close>.\<close>

definition ring_distance :: "nat \<Rightarrow> nat \<Rightarrow> nat \<Rightarrow> nat" where
  "ring_distance n offset q = (if offset \<le> q then q - offset else q + n - offset)"

lemma rotated_nth:
  "offset < length xs \<Longrightarrow> q < length xs \<Longrightarrow> rotated offset xs ! ring_distance (length xs) offset q = xs ! q"
  by (auto simp: rotated_def ring_distance_def nth_append)

lemma ring_distance_step:
  assumes "offset < n" "q < n" "m \<le> ring_distance n offset q"
  shows "ring_distance n ((offset + m) mod n) q = ring_distance n offset q - m"
proof (cases "offset + m < n")
  case True
  with assms show ?thesis by (auto simp: ring_distance_def split: if_splits)
next
  case False
  with assms have "(offset + m) mod n = offset + m - n" "m < n"
    by (auto simp: ring_distance_def le_mod_geq split: if_splits)
  with assms False show ?thesis by (auto simp: ring_distance_def split: if_splits)
qed

lemma selectReaders_turn:
  assumes n: "n = length (df_states d)" and q: "q < n" "snd (df_states d ! q) = i"
    and can: "readable (promote_state (df_objects d i))" and limit: "0 < limit"
    and dist: "x = ring_distance n (df_readOffset d mod n) q"
  shows "i \<in> set (snd (selectReaders limit d)) \<or>
    (ring_distance n (df_readOffset (fst (selectReaders limit d)) mod n) q < x)"
proof -
  let ?states = "map snd (df_states d)" and ?o = "df_readOffset d mod n"
  obtain d1 sel v where loop: "select_loop limit (rotated ?o ?states) d [] 0 = (d1, sel, v)"
    by (metis prod_cases3)
  have len: "length (rotated ?o ?states) = n" "0 < n" "?o < n" using n q(1) by (auto simp: rotated_def intro!: mod_less_divisor)
  from select_loop_selected [OF _ loop] limit len obtain m where m: "m \<le> n" "v = m" "0 < m"
    "sel = filter (\<lambda>i. readable (promote_state (df_objects d i))) (take m (rotated ?o ?states))"
    by force
  have res: "selectReaders limit d = (d1\<lparr>df_readOffset := (?o + v) mod n\<rparr>, sel)"
    using loop n len(2) by (simp add: selectReaders_def Let_def)
  have at: "rotated ?o ?states ! x = i"
    using rotated_nth [of ?o ?states q] n q len(3) dist by simp
  show ?thesis
  proof (cases "x < m")
    case True
    then have "i \<in> set (take m (rotated ?o ?states))"
      using at m(1) len(1) in_set_conv_nth [of i "take m (rotated ?o ?states)"] by auto
    then show ?thesis using can m(4) res by simp
  next
    case False
    then show ?thesis
      using ring_distance_step [OF len(3) q(1), of m] m(2,3) res dist len(2) by simp
  qed
qed

definition poll_readers :: "nat \<Rightarrow> deferred_scopes \<Rightarrow> deferred_scopes" where
  "poll_readers limit d = fst (selectReaders limit d)"

lemma poll_readers_finds:
  assumes "n = length (df_states d)" "q < n" "snd (df_states d ! q) = i"
    and "readable (promote_state (df_objects d i))" "0 < limit"
  shows "\<exists>t\<le>ring_distance n (df_readOffset d mod n) q.
    i \<in> set (snd (selectReaders limit ((poll_readers limit ^^ t) d)))"
  using assms
proof (induction "ring_distance n (df_readOffset d mod n) q" arbitrary: d rule: less_induct)
  case less
  show ?case
  proof (cases "i \<in> set (snd (selectReaders limit d))")
    case True
    then show ?thesis by (intro exI [of _ 0]) simp
  next
    case False
    let ?d = "poll_readers limit d"
    have closer: "ring_distance n (df_readOffset ?d mod n) q < ring_distance n (df_readOffset d mod n) q"
      using selectReaders_turn [OF less.prems refl] False by (auto simp: poll_readers_def)
    have "readable (promote_state (df_objects ?d i))"
      using selectReaders_states(2) [of limit d i] less.prems(4) by (auto simp: poll_readers_def)
    from less.hyps [OF closer _ less.prems(2) _ this less.prems(5)] less.prems(1,3)
    obtain t where "t \<le> ring_distance n (df_readOffset ?d mod n) q"
      "i \<in> set (snd (selectReaders limit ((poll_readers limit ^^ t) ?d)))"
      by (auto simp: selectReaders_states(1) poll_readers_def)
    with closer show ?thesis by (intro exI [of _ "Suc t"]) (simp add: funpow_swap1)
  qed
qed

lemma select_loop_readable:
  "i \<in> set (fst (snd (select_loop limit is d sel v))) \<Longrightarrow>
    i \<in> set sel \<or> i \<in> set is \<and> readable (df_objects (fst (select_loop limit is d sel v)) i)"
proof (induction "is" arbitrary: d sel v)
  case (Cons j "is")
  let ?d = "update_object j promote_state d"
  let ?sel = "if readable (df_objects ?d j) then sel @ [j] else sel"
  have "df_objects (fst (select_loop limit is ?d ?sel (Suc v))) j = promote_state (df_objects d j)"
    using select_loop_states(2) [of limit "is" ?d ?sel "Suc v" j] by simp
  then show ?case
    using Cons.IH [of ?d ?sel "Suc v"] Cons.prems by (auto simp: Let_def split: if_splits)
qed simp

lemma selectReaders_readable:
  assumes "i \<in> set (snd (selectReaders limit d))"
  shows "registered (fst (selectReaders limit d)) i" "readable (df_objects (fst (selectReaders limit d)) i)"
proof -
  let ?is = "rotated (df_readOffset d mod length (df_states d)) (map snd (df_states d))"
  have "i \<in> set (fst (snd (select_loop limit ?is d [] 0)))" "df_states d \<noteq> []"
    using assms by (auto simp: selectReaders_def Let_def case_prod_unfold split: if_splits)
  moreover have "set ?is = snd ` set (df_states d)"
    unfolding rotated_def by (metis append_take_drop_id set_append Un_commute list.set_map)
  ultimately show "registered (fst (selectReaders limit d)) i" "readable (df_objects (fst (selectReaders limit d)) i)"
    using select_loop_readable [of i limit ?is d "[]" 0] select_loop_states(1) [of limit ?is d "[]" 0]
    by (auto simp: selectReaders_def Let_def case_prod_unfold)
qed

section \<open>Properties\<close>

text \<open>A small run the properties are applied to.\<close>

definition sample_created :: "js_string \<Rightarrow> int" where
  "sample_created s = int (length s)"

definition sample_scopes :: deferred_scopes where
  "sample_scopes =
     capture (Some \<lparr>ps_botId = ascii ''b'', ps_workClass = Ordinary\<rparr>) (ascii ''w'') (Cursor (ascii ''xyz'') 3) new_deferred"

definition sample_row :: page_row where
  "sample_row = \<lparr>pr_cursor = Cursor (ascii ''ab'') 2, pr_payload = Undefined, pr_key = ascii ''v'', pr_representative = True\<rparr>"

definition sample_run :: "deferred_event list" where
  "sample_run = [Select 2, Capture None (ascii ''u'') (Cursor (ascii ''q'') 1), Read 1 [sample_row],
     Identities 4, Release (ascii ''v'') (ascii ''zz'')]"

text \<open>
  Deferred work stays bounded and well formed: after any run there are at most 33 scopes (32 and
  the overflow scope), each registered scope holds something and retains at most two receipts,
  so at most 66 identities and 66 intervals are in memory.
\<close>

theorem deferred_bounded:
  assumes "run_ok (deferred_guard created) deferred_step new_deferred es"
  shows "let d = foldl deferred_step new_deferred es; sn = deferred_snapshot d in
    deferred_ok created d \<and> dn_scopes sn \<le> 33 \<and> dn_identities sn \<le> 66 \<and> dn_intervals sn \<le> 66"
proof -
  let ?d = "foldl deferred_step new_deferred es" and ?over = "\<lambda>(k, i). k \<noteq> Overflow_Key"
  have ok: "deferred_ok created ?d" by (rule deferred.run_inv [OF new_deferred_ok assms])
  have "length (filter (\<lambda>e. \<not> ?over e) m) \<le> 1" if "jsmap_ok m" for m :: "(scope_key, nat) jsmap"
    using that by (induction m) (auto simp: filter_empty_conv rev_image_eqI)
  then have "length (df_states ?d) \<le> 33"
    using ok sum_length_filter_compl [of ?over "df_states ?d"]
    by (fastforce simp: deferred_ok_def DEFERRED_SCOPE_LIMIT_def)
  moreover have "sum_list (map f (df_states ?d)) \<le> length (df_states ?d) * 2"
    if "\<forall>e\<in>set (df_states ?d). f e \<le> 2" for f :: "scope_key \<times> nat \<Rightarrow> nat"
    using that sum_list_mono [of "df_states ?d" f "\<lambda>_. 2"] by (simp add: sum_list_triv)
  note this [of "length \<circ> ds_retained \<circ> (df_objects ?d \<circ> snd)"]
    this [of "(\<lambda>s. of_bool (ds_current s \<noteq> None) + of_bool (ds_next s \<noteq> None)) \<circ> (df_objects ?d \<circ> snd)"]
  ultimately show ?thesis
    using ok by (fastforce simp: Let_def deferred_snapshot_def deferred_ok_def state_ok_def DEFERRED_SCOPE_IDENTITIES_def
        comp_def)
qed

theorem deferred_bounded_witness:
  "dn_scopes (deferred_snapshot (foldl deferred_step new_deferred
     (Capture None (ascii ''v'') (Cursor (ascii ''ab'') 2) # [Select 1, Read 0 [sample_row]]))) \<le> 33"
proof -
  have "run_ok (deferred_guard sample_created) deferred_step new_deferred
     (Capture None (ascii ''v'') (Cursor (ascii ''ab'') 2) # [Select 1, Read 0 [sample_row]])"
    by code_simp
  from deferred_bounded [OF this] show ?thesis by (simp add: Let_def)
qed

text \<open>
  C38: A reader is fair: while no other operation changes the scopes between the polls (no capture,
  prune, page or release), every scope that can be read is selected within as many polls as there are
  scopes.  With such operations in between the offset may pass a scope over and the bound need not
  hold.
\<close>

theorem every_reader_gets_its_turn:
  assumes "registered d i" "readable (promote_state (df_objects d i))" "0 < limit"
  shows "\<exists>t<length (df_states d). i \<in> set (snd (selectReaders limit ((poll_readers limit ^^ t) d)))"
proof -
  obtain q where q: "q < length (df_states d)" "snd (df_states d ! q) = i"
    using assms(1) by (auto simp: in_set_conv_nth)
  have "df_readOffset d mod length (df_states d) < length (df_states d)" using q by (intro mod_less_divisor) auto
  then have "ring_distance (length (df_states d)) (df_readOffset d mod length (df_states d)) q < length (df_states d)"
    using q by (auto simp: ring_distance_def)
  then show ?thesis using poll_readers_finds [OF refl q assms(2,3)] by (meson le_less_trans)
qed

theorem every_reader_gets_its_turn_witness:
  "\<exists>t<1. 0 \<in> set (snd (selectReaders 1 ((poll_readers 1 ^^ t) sample_scopes)))"
  proof -
  have "registered sample_scopes 0" "readable (promote_state (df_objects sample_scopes 0))"
    "length (df_states sample_scopes) = 1"
    by code_simp+
  with every_reader_gets_its_turn [of 0 sample_scopes 1] show ?thesis by simp
qed

text \<open>
  A selected scope object stays registered with the same unread part until its page is read,
  whatever else happens meanwhile, so the page that a reader processes is the page it asked for.
\<close>

theorem selected_reader_stable:
  assumes "deferred_ok created d" "i \<in> set (snd (selectReaders limit d))"
    and "run_ok (\<lambda>d e. deferred_guard created d e \<and> reads_other i e) deferred_step (fst (selectReaders limit d)) es"
  shows "scan_kept i (fst (selectReaders limit d)) (foldl deferred_step (fst (selectReaders limit d)) es)"
proof -
  have "registered (fst (selectReaders limit d)) i" "ds_current (df_objects (fst (selectReaders limit d)) i) \<noteq> None"
    using selectReaders_readable [OF assms(2)] by (simp_all add: readable_def)
  with selectReaders_ok [OF assms(1)] show ?thesis by (rule run_scan) (rule assms(3))
qed

theorem selected_reader_stable_witness:
  "scan_kept 0 (fst (selectReaders 2 sample_scopes))
     (foldl deferred_step (fst (selectReaders 2 sample_scopes)) (tl sample_run))"
  by (rule selected_reader_stable [where created = sample_created]) code_simp+

end
