(* ===== verification/Deferred_Reader.thy ===== *)
theory Deferred_Reader
  imports Deferred_Scopes
begin

text \<open>
  The reader of deferred receipts in \<^verbatim>\<open>webhook-outbox.service.ts\<close>: the rows of the table
  \<^verbatim>\<open>webhook_events\<close>, which of them are current enqueue representatives, the bounded page
  query, the revalidation of retained identities, and the poll
  \<^verbatim>\<open>readDeferredEnqueueRepresentatives\<close> that runs them.

  \<^item> A poll awaits the database once per page and once for the identities.  Captures and the
    releases of the dispatcher may happen at each of these points, so the poll is a machine whose
    phase says which answer it waits for.  Polls follow one another: \<^verbatim>\<open>tick\<close> refuses to
    start while one is running.
  \<^item> An answer carries the table as its query saw it, or \<open>None\<close> where the query failed; tables of
    different answers are unrelated except for the creation time of a receipt.  The interval and
    the cursor a query was built from are those of its scope when the answer arrives, since nothing
    else moves them meanwhile (\<^verbatim>\<open>Deferred_Scopes.selected_reader_stable\<close>).
  \<^item> A time stamp column holds whole milliseconds, and the database orders identifiers as the code
    does, by code unit.
\<close>

section \<open>Rows\<close>

datatype webhook_status =
    Row_Received | Row_Queued | Row_Processed | Row_Duplicate | Row_Failed | Row_No_Replay_Held
  | Row_Cancelled | Row_Quarantined

record event_row =
  er_id :: js_string
  er_status :: webhook_status
  er_queueName :: "js_string option"
  er_createdAt :: int
  er_queuedAt :: "int option"
  er_nextEnqueueAt :: "int option"
  er_errorMessage :: "js_string option"
  er_normalizedPayload :: js_value
  er_processedAt :: "int option"
  er_legacyDispositionId :: "js_string option"
  er_sourceDispositionId :: "js_string option"

definition row_cursor :: "event_row \<Rightarrow> scope_cursor" where
  "row_cursor row = Cursor (er_id row) (er_createdAt row)"

section \<open>Current representatives\<close>

definition WEBHOOK_HOT_PATH_TIMEOUT_QUARANTINE_PREFIX :: js_string where
  "WEBHOOK_HOT_PATH_TIMEOUT_QUARANTINE_PREFIX = ascii ''WEBHOOK_HOT_PATH_TIMEOUT_QUARANTINED''"

definition isPendingWebhookTimeoutQuarantineMessage :: "js_string option \<Rightarrow> bool" where
  "isPendingWebhookTimeoutQuarantineMessage errorMessage =
     (case errorMessage of
        Some s \<Rightarrow>
          (let prefix = WEBHOOK_HOT_PATH_TIMEOUT_QUARANTINE_PREFIX @ ascii '':''
           in take (length prefix) s = prefix)
      | None \<Rightarrow> False)"

definition WEBHOOK_QUEUE_BACKGROUND :: js_string where
  "WEBHOOK_QUEUE_BACKGROUND = ascii ''moderation-background''"

definition USER_FACING_STALE_QUEUED_REPAIR_MS :: int where
  "USER_FACING_STALE_QUEUED_REPAIR_MS = 20000"

definition BACKGROUND_STALE_QUEUED_REPAIR_MS :: int where
  "BACKGROUND_STALE_QUEUED_REPAIR_MS = 120000"

definition resolveStaleQueuedRepairThresholdMs :: "js_string option \<Rightarrow> int" where
  "resolveStaleQueuedRepairThresholdMs queueName =
     (if queueName = Some WEBHOOK_QUEUE_BACKGROUND then BACKGROUND_STALE_QUEUED_REPAIR_MS
      else USER_FACING_STALE_QUEUED_REPAIR_MS)"

definition shouldEnqueueCandidate :: "event_row \<Rightarrow> int \<Rightarrow> bool" where
  "shouldEnqueueCandidate row now =
     (if er_status row \<noteq> Row_Queued then True
      else if (case er_nextEnqueueAt row of Some t \<Rightarrow> t > now | None \<Rightarrow> False) then False
      else
        (let thresholdMs = resolveStaleQueuedRepairThresholdMs (er_queueName row);
             referenceMs = (case er_queuedAt row of Some t \<Rightarrow> t | None \<Rightarrow> er_createdAt row)
         in now - referenceMs \<ge> thresholdMs))"

definition currentEnqueueRepresentative :: "event_row \<Rightarrow> int \<Rightarrow> bool" where
  "currentEnqueueRepresentative row now =
     (er_legacyDispositionId row = None \<and> er_sourceDispositionId row = None \<and>
      er_processedAt row = None \<and>
      (case er_nextEnqueueAt row of None \<Rightarrow> True | Some t \<Rightarrow> t \<le> now) \<and>
      (er_status row = Row_Received \<or> er_status row = Row_Failed \<or> er_status row = Row_Queued) \<and>
      \<not> (er_status row = Row_Failed \<and> er_nextEnqueueAt row = None \<and>
         \<not> isPendingWebhookTimeoutQuarantineMessage (er_errorMessage row)) \<and>
      shouldEnqueueCandidate row now)"

definition extractPriorityChatId :: "js_value \<Rightarrow> js_string option" where
  "extractPriorityChatId payload =
     (let updateType = readWebhookType payload in
      if updateType \<noteq> ascii ''message_created'' \<and> updateType \<noteq> ascii ''message_edited'' then None
      else (let chatId = readWebhookChatId payload in if length chatId > 0 then Some chatId else None))"

definition candidateWorkUnitKey :: "event_row \<Rightarrow> js_string" where
  "candidateWorkUnitKey row =
     (case extractPriorityChatId (er_normalizedPayload row) of
        Some chatId \<Rightarrow> ascii ''chat:'' @ chatId
      | None \<Rightarrow> ascii ''event:'' @ er_id row)"

section \<open>The page query\<close>

text \<open>
  One source per status, each cut to one row more than a page; their union, cut again; then the
  bodies of these rows.  Of the state the query reads the current interval and the last cursor.
\<close>

definition page_range :: "interval \<Rightarrow> scope_cursor option \<Rightarrow> event_row \<Rightarrow> bool" where
  "page_range interval after row =
     (row_cursor row \<ge> iv_first interval \<and> row_cursor row \<le> iv_last interval \<and>
      (case after of Some a \<Rightarrow> row_cursor row > a | None \<Rightarrow> True))"

definition page_source :: "interval \<Rightarrow> scope_cursor option \<Rightarrow> event_row list \<Rightarrow> webhook_status \<Rightarrow> event_row list" where
  "page_source interval after table status =
     take (DEFERRED_SCOPE_RAW_PAGE_SIZE + 1)
       (sort_key row_cursor (filter (\<lambda>row. er_status row = status \<and> page_range interval after row) table))"

definition page_ids :: "interval \<Rightarrow> scope_cursor option \<Rightarrow> event_row list \<Rightarrow> event_row list" where
  "page_ids interval after table =
     take (DEFERRED_SCOPE_RAW_PAGE_SIZE + 1)
       (sort_key row_cursor
         (concat (map (page_source interval after table) [Row_Received, Row_Failed, Row_Queued])))"

definition deferredScopePageQuery :: "interval \<Rightarrow> scope_cursor option \<Rightarrow> event_row list \<Rightarrow> event_row list" where
  "deferredScopePageQuery interval after table =
     sort_key row_cursor
       (concat (map (\<lambda>p. filter (\<lambda>row. er_id row = er_id p) table) (page_ids interval after table)))"

text \<open>What the page loop reads of a row.\<close>

definition page_row_of :: "int \<Rightarrow> event_row \<Rightarrow> page_row" where
  "page_row_of now row =
     \<lparr>pr_cursor = row_cursor row, pr_payload = er_normalizedPayload row,
      pr_key = candidateWorkUnitKey row, pr_representative = currentEnqueueRepresentative row now\<rparr>"

text \<open>One scope of the poll.  A failed query, and a scope without a current interval (the query
  dereferences it inside the \<^verbatim>\<open>try\<close>), leaves everything for a later poll.\<close>

definition read_scope :: "int \<Rightarrow> nat \<Rightarrow> event_row list option \<Rightarrow> deferred_scopes \<Rightarrow> deferred_scopes" where
  "read_scope now i answer d =
     (case (answer, ds_current (df_objects d i)) of
        (Some table, Some interval) \<Rightarrow>
          read_page i
            (map (page_row_of now) (deferredScopePageQuery interval (ds_after (df_objects d i)) table)) d
      | _ \<Rightarrow> d)"

section \<open>Revalidation of the retained identities\<close>

definition find_row :: "event_row list \<Rightarrow> js_string \<Rightarrow> event_row option" where
  "find_row rows r = jsmap_get (map (\<lambda>row. (er_id row, row)) rows) r"

fun revalidate_loop :: "int \<Rightarrow> js_string set \<Rightarrow> event_row list \<Rightarrow> identity list \<Rightarrow> deferred_scopes \<Rightarrow> event_row list \<Rightarrow> deferred_scopes \<times> event_row list" where
  "revalidate_loop now active rows [] d result = (d, result)"
| "revalidate_loop now active rows (identity # ids) d result =
     (case find_row rows (id_id identity) of
        None \<Rightarrow> revalidate_loop now active rows ids (release (id_key identity) (id_id identity) d) result
      | Some row \<Rightarrow>
          if \<not> currentEnqueueRepresentative row now
          then revalidate_loop now active rows ids (release (id_key identity) (id_id identity) d) result
          else if id_key identity \<in> active then revalidate_loop now active rows ids d result
          else
            (let key = candidateWorkUnitKey row;
                 scope = webhookPreparationScope (er_normalizedPayload row)
             in if key \<noteq> id_key identity \<or> (id_scope identity \<noteq> None \<and> Some scope \<noteq> id_scope identity)
                then revalidate_loop now active rows ids
                       (capture (Some scope) key (row_cursor row)
                         (release (id_key identity) (id_id identity) d)) result
                else revalidate_loop now active rows ids d (result @ [row])))"

definition revalidate :: "int \<Rightarrow> js_string set \<Rightarrow> event_row list \<Rightarrow> identity list \<Rightarrow> deferred_scopes \<Rightarrow> deferred_scopes \<times> event_row list" where
  "revalidate now active table ids d =
     revalidate_loop now active (filter (\<lambda>row. er_id row \<in> set (map id_id ids)) table) ids d []"

section \<open>The poll\<close>

definition DEFERRED_SCOPE_PAGES_PER_POLL :: nat where "DEFERRED_SCOPE_PAGES_PER_POLL = 2"

text \<open>What a poll waits for: the page of its first remaining scope, or the rows of the identities.\<close>

datatype poll_phase = Poll_Idle | Poll_Reading int nat "nat list" | Poll_Checking int "identity list"

record deferred_reader =
  rd_scopes :: deferred_scopes
  rd_phase :: poll_phase
  rd_result :: "event_row list"

definition new_reader :: deferred_reader where
  "new_reader = \<lparr>rd_scopes = new_deferred, rd_phase = Poll_Idle, rd_result = []\<rparr>"

text \<open>After the selection and after each page: the next scope, or else the identities.\<close>

fun continue_poll :: "int \<Rightarrow> nat \<Rightarrow> nat list \<Rightarrow> deferred_scopes \<Rightarrow> deferred_reader" where
  "continue_poll now n (i # is) d = \<lparr>rd_scopes = d, rd_phase = Poll_Reading now n (i # is), rd_result = []\<rparr>"
| "continue_poll now n [] d =
     (case identities n d of (d1, ids) \<Rightarrow>
        \<lparr>rd_scopes = d1, rd_phase = (if length ids = 0 then Poll_Idle else Poll_Checking now ids),
         rd_result = []\<rparr>)"

text \<open>
  \<open>Deferred\<close> and \<open>Dispatched\<close> are the dispatcher's transfer of a receipt and its release of the
  receipt it hands to a task; the other events are the start of a poll and the answers it awaits.
\<close>

datatype reader_event =
    Deferred "preparation_scope option" js_string scope_cursor
  | Dispatched js_string js_string
  | Poll_Starts int nat
  | Page_Answer "event_row list option"
  | Rows_Answer "event_row list option" "js_string set"

fun reader_step :: "deferred_reader \<Rightarrow> reader_event \<Rightarrow> deferred_reader" where
  "reader_step m (Deferred scope w c) = m\<lparr>rd_scopes := capture scope w c (rd_scopes m)\<rparr>"
| "reader_step m (Dispatched w r) = m\<lparr>rd_scopes := release w r (rd_scopes m)\<rparr>"
| "reader_step m (Poll_Starts now n) =
     (case rd_phase m of
        Poll_Idle \<Rightarrow>
          (case selectReaders DEFERRED_SCOPE_PAGES_PER_POLL (rd_scopes m) of
             (d, readers) \<Rightarrow> continue_poll now n readers d)
      | _ \<Rightarrow> m)"
| "reader_step m (Page_Answer answer) =
     (case rd_phase m of
        Poll_Reading now n (i # is) \<Rightarrow> continue_poll now n is (read_scope now i answer (rd_scopes m))
      | _ \<Rightarrow> m)"
| "reader_step m (Rows_Answer answer active) =
     (case rd_phase m of
        Poll_Checking now ids \<Rightarrow>
          (case answer of
             None \<Rightarrow> m\<lparr>rd_phase := Poll_Idle\<rparr>
           | Some table \<Rightarrow>
               (case revalidate now active table ids (rd_scopes m) of
                  (d, result) \<Rightarrow> \<lparr>rd_scopes = d, rd_phase = Poll_Idle, rd_result = result\<rparr>))
      | _ \<Rightarrow> m)"

section \<open>What the page query selects\<close>

text \<open>A table as a query sees it: identifiers are the primary key, creation times never change.\<close>

definition table_ok :: "(js_string \<Rightarrow> int) \<Rightarrow> event_row list \<Rightarrow> bool" where
  "table_ok created table =
     (distinct (map er_id table) \<and> (\<forall>row\<in>set table. er_createdAt row = created (er_id row)))"

lemma distinct_cursors: "distinct (map er_id table) \<Longrightarrow> distinct (map row_cursor table)"
  by (auto simp: distinct_map row_cursor_def inj_on_def)

text \<open>The first \<open>n\<close> of a sorted list with distinct keys: what is missing lies beyond all of them.\<close>

lemma sort_key_strict: "distinct (map f xs) \<Longrightarrow> sorted_wrt (<) (map f (sort_key f xs))"
  by (simp add: strict_sorted_iff distinct_map)

lemma take_sorted_bound:
  assumes "distinct (map f xs)" "x \<in> set xs" "x \<notin> set (take n (sort_key f xs))"
  shows "length (take n (sort_key f xs)) = n" "\<forall>y\<in>set (take n (sort_key f xs)). f y < f x"
proof -
  let ?s = "sort_key f xs"
  have split: "set ?s = set (take n ?s) \<union> set (drop n ?s)" by (metis append_take_drop_id set_append)
  then have x: "x \<in> set (drop n ?s)" using assms(2,3) by auto
  then have "drop n ?s \<noteq> []" by auto
  then show "length (take n ?s) = n" by auto
  have "sorted_wrt (<) (map f (take n ?s @ drop n ?s))"
    using sort_key_strict [OF assms(1)] by simp
  then show "\<forall>y\<in>set (take n ?s). f y < f x"
    using x unfolding map_append sorted_wrt_append by auto
qed

lemma top_of_tops:
  assumes "distinct (map f us)" "set ss \<subseteq> set us" "distinct ss" "length ss = n" "\<forall>y\<in>set ss. f y < f x"
    and "0 < n"
  shows "length (take n (sort_key f us)) = n \<and> (\<forall>y\<in>set (take n (sort_key f us)). f y < f x)"
proof (cases "set ss \<subseteq> set (take n (sort_key f us))")
  case True
  have "distinct (take n (sort_key f us))" using assms(1) by (simp add: distinct_map)
  moreover have "card (set ss) = n" using assms(3,4) distinct_card by force
  moreover have "length (take n (sort_key f us)) \<le> n" by simp
  ultimately have "set ss = set (take n (sort_key f us)) \<and> length (take n (sort_key f us)) = n"
    using True by (metis List.finite_set card_mono card_seteq distinct_card le_antisym)
  then show ?thesis using assms(5) by auto
next
  case False
  then obtain z where z: "z \<in> set ss" "z \<notin> set (take n (sort_key f us))" by blast
  then have "f z < f x" "z \<in> set us" using assms(2,5) by auto
  then show ?thesis using take_sorted_bound [OF assms(1) _ z(2)] by (meson less_trans)
qed

lemma page_source_set:
  "row \<in> set (page_source interval after table status) \<Longrightarrow>
    row \<in> set table \<and> er_status row = status \<and> page_range interval after row"
  by (auto simp: page_source_def dest!: in_set_takeD)

lemma page_source_disjoint:
  "s \<noteq> t \<Longrightarrow> set (page_source interval after table s) \<inter> set (page_source interval after table t) = {}"
  by (auto dest!: page_source_set)

lemma page_source_distinct: "distinct table \<Longrightarrow> distinct (page_source interval after table s)"
  by (simp add: page_source_def)

lemma page_sources_distinct:
  assumes "distinct (map er_id table)"
  shows "distinct (map row_cursor
    (concat (map (page_source interval after table) [Row_Received, Row_Failed, Row_Queued])))"
proof -
  let ?us = "concat (map (page_source interval after table) [Row_Received, Row_Failed, Row_Queued])"
  have inj: "inj_on row_cursor (set table)" and d: "distinct table"
    using distinct_cursors [OF assms] assms by (simp_all add: distinct_map)
  have "set ?us \<subseteq> set table" using page_source_set by fastforce
  then have "inj_on row_cursor (set ?us)" by (rule inj_on_subset [OF inj])
  moreover have "distinct ?us"
    using page_source_distinct [OF d]
      page_source_disjoint [of Row_Received Row_Failed] page_source_disjoint [of Row_Received Row_Queued]
      page_source_disjoint [of Row_Failed Row_Queued]
    by (simp add: Int_Un_distrib)
  ultimately show ?thesis by (simp only: distinct_map)
qed

lemma page_ids_table: "set (page_ids interval after table) \<subseteq> set table"
proof
  fix p assume "p \<in> set (page_ids interval after table)"
  then obtain s where "p \<in> set (page_source interval after table s)"
    by (auto simp: page_ids_def dest!: in_set_takeD)
  then show "p \<in> set table" using page_source_set by blast
qed

lemma page_ids_strict:
  assumes "distinct (map er_id table)"
  shows "sorted_wrt (<) (map row_cursor (page_ids interval after table))"
  unfolding page_ids_def take_map [symmetric]
  by (rule sorted_wrt_take [OF sort_key_strict [OF page_sources_distinct [OF assms]]])

text \<open>The bodies of the page are the rows themselves, in their order.\<close>

lemma own_row:
  assumes "distinct (map er_id table)" "p \<in> set table"
  shows "filter (\<lambda>row. er_id row = er_id p) table = [p]"
  using assms by (induction table) (auto simp: filter_empty_conv rev_image_eqI)

lemma query_eq_ids:
  assumes "distinct (map er_id table)"
  shows "deferredScopePageQuery interval after table = page_ids interval after table"
proof -
  have "concat (map (\<lambda>p. filter (\<lambda>row. er_id row = er_id p) table) ps) = ps" if "set ps \<subseteq> set table" for ps
    using that by (induction ps) (auto simp: own_row [OF assms])
  then have "deferredScopePageQuery interval after table = sort_key row_cursor (page_ids interval after table)"
    using page_ids_table by (simp add: deferredScopePageQuery_def)
  moreover have "sorted (map row_cursor (page_ids interval after table))"
    using page_ids_strict [OF assms] strict_sorted_iff by blast
  ultimately show ?thesis by (simp add: sort_key_id_if_sorted)
qed

text \<open>A row of the range with one of the three statuses is in the page or beyond a full page.\<close>

lemma page_ids_complete:
  assumes "distinct (map er_id table)" "row \<in> set table" "page_range interval after row"
    and "er_status row \<in> {Row_Received, Row_Failed, Row_Queued}"
  shows "row \<in> set (page_ids interval after table) \<or>
    (DEFERRED_SCOPE_RAW_PAGE_SIZE < length (page_ids interval after table) \<and>
     (\<forall>p\<in>set (page_ids interval after table). row_cursor p < row_cursor row))"
proof -
  let ?xs = "filter (\<lambda>r. er_status r = er_status row \<and> page_range interval after r) table"
  let ?ss = "page_source interval after table (er_status row)"
  let ?us = "concat (map (page_source interval after table) [Row_Received, Row_Failed, Row_Queued])"
  let ?n = "DEFERRED_SCOPE_RAW_PAGE_SIZE + 1"
  note us = page_sources_distinct [OF assms(1), of interval after]
  have sub: "set ?ss \<subseteq> set ?us" using assms(4) by auto
  show ?thesis
  proof (cases "row \<in> set ?ss")
    case True
    then have "row \<in> set ?us" using sub by blast
    then show ?thesis
      using take_sorted_bound [OF us, of row ?n] unfolding page_ids_def [symmetric] by fastforce
  next
    case False
    have "distinct (map row_cursor ?xs)"
      using distinct_cursors [OF assms(1)] by (simp add: distinct_map_filter)
    from take_sorted_bound [OF this, of row ?n] False assms(2,3)
    have "length ?ss = ?n" "\<forall>y\<in>set ?ss. row_cursor y < row_cursor row"
      unfolding page_source_def by auto
    moreover have "distinct ?ss" using assms(1) by (simp add: page_source_def distinct_map)
    ultimately show ?thesis
      using top_of_tops [OF us sub, of ?n row] unfolding page_ids_def [symmetric] by simp
  qed
qed

section \<open>One page loses nothing it was shown\<close>

lemma query_page_ok:
  assumes "table_ok created table"
  shows "page_query_ok created d i (map (page_row_of now) (deferredScopePageQuery interval after table))"
proof -
  have d: "distinct (map er_id table)" using assms by (simp add: table_ok_def)
  have "pr_cursor \<circ> page_row_of now = row_cursor" by (rule ext) (simp add: page_row_of_def)
  moreover have "real_cursor created (row_cursor p)" if "p \<in> set table" for p
    using assms that by (simp add: table_ok_def real_cursor_def row_cursor_def)
  ultimately show ?thesis
    using page_ids_strict [OF d, of interval after] page_ids_table [of interval after table]
    by (auto simp: page_query_ok_def query_eq_ids [OF d] page_row_of_def)
qed

text \<open>The answer shows a receipt as a current representative at the poll's time.\<close>

definition shows_current :: "int \<Rightarrow> event_row list \<Rightarrow> scope_cursor \<Rightarrow> bool" where
  "shows_current now table c =
     (\<exists>row\<in>set table. er_id row = cu_id c \<and> currentEnqueueRepresentative row now)"

lemma shows_currentE:
  assumes "shows_current now table c" "table_ok created table" "real_cursor created c"
  obtains row where "row \<in> set table" "row_cursor row = c" "currentEnqueueRepresentative row now"
proof -
  obtain row where row: "row \<in> set table" "er_id row = cu_id c" "currentEnqueueRepresentative row now"
    using assms(1) unfolding shows_current_def by blast
  have "er_createdAt row = cu_createdAt c"
    using row(1,2) assms(2,3) by (simp add: table_ok_def real_cursor_def)
  then have "row_cursor row = c" using row(2) by (simp add: row_cursor_def)
  with row show ?thesis using that by blast
qed

lemma query_page_returns:
  assumes "table_ok created table" "real_cursor created c" "ds_current (df_objects d i) = Some interval"
    and "unread (df_objects d i) c \<Longrightarrow> shows_current now table c"
  shows "page_returns d i
    (map (page_row_of now) (deferredScopePageQuery interval (ds_after (df_objects d i)) table)) c"
  unfolding page_returns_def
proof
  assume unread: "unread (df_objects d i) c"
  from shows_currentE [OF assms(4) [OF unread] assms(1,2)] obtain row where
    row: "row \<in> set table" "row_cursor row = c" "currentEnqueueRepresentative row now" .
  let ?ids = "page_ids interval (ds_after (df_objects d i)) table"
  have d: "distinct (map er_id table)" using assms(1) by (simp add: table_ok_def)
  have "page_range interval (ds_after (df_objects d i)) row"
    using unread assms(3) row(2)
    by (auto simp: unread_def interval_has_def page_range_def split: option.splits)
  moreover have "er_status row \<in> {Row_Received, Row_Failed, Row_Queued}"
    using row(3) by (auto simp: currentEnqueueRepresentative_def)
  ultimately have "row \<in> set ?ids \<or>
      (DEFERRED_SCOPE_RAW_PAGE_SIZE < length ?ids \<and> (\<forall>p\<in>set ?ids. row_cursor p < row_cursor row))"
    by (rule page_ids_complete [OF d row(1)])
  then show "(\<exists>r\<in>set (map (page_row_of now) (deferredScopePageQuery interval (ds_after (df_objects d i)) table)).
        pr_cursor r = c \<and> pr_representative r) \<or>
      (DEFERRED_SCOPE_RAW_PAGE_SIZE
         < length (map (page_row_of now) (deferredScopePageQuery interval (ds_after (df_objects d i)) table)) \<and>
       (\<forall>r\<in>set (map (page_row_of now) (deferredScopePageQuery interval (ds_after (df_objects d i)) table)).
          pr_cursor r < c))"
    using row(2,3) unfolding query_eq_ids [OF d] by (auto simp: page_row_of_def)
qed

lemma read_scope_ok:
  assumes "deferred_ok created d" "registered d i" "\<And>table. answer = Some table \<Longrightarrow> table_ok created table"
  shows "deferred_ok created (read_scope now i answer d)"
proof (cases "\<exists>table interval. answer = Some table \<and> ds_current (df_objects d i) = Some interval")
  case True
  then obtain table interval where some: "answer = Some table" "ds_current (df_objects d i) = Some interval"
    by blast
  have "ds_current (df_objects d i) \<noteq> None" using some by simp
  from read_page_ok(1) [OF assms(1,2) this query_page_ok [OF assms(3) [OF some(1)]]]
  show ?thesis using some by (simp add: read_scope_def)
qed (use assms(1) in \<open>auto simp: read_scope_def split: option.splits\<close>)

lemma read_scope_owed:
  assumes "deferred_ok created d" "registered d i" "\<And>table. answer = Some table \<Longrightarrow> table_ok created table"
    and "real_cursor created c" "owed d c"
    and "\<And>table. answer = Some table \<Longrightarrow> unread (df_objects d i) c \<Longrightarrow> shows_current now table c"
  shows "owed (read_scope now i answer d) c"
proof (cases "\<exists>table interval. answer = Some table \<and> ds_current (df_objects d i) = Some interval")
  case True
  then obtain table interval where some: "answer = Some table" "ds_current (df_objects d i) = Some interval"
    by blast
  have cur: "ds_current (df_objects d i) \<noteq> None" using some by simp
  note ok = assms(3) [OF some(1)]
  from read_page_ok(2) [OF assms(1,2) cur query_page_ok [OF ok] assms(5)
      query_page_returns [OF ok assms(4) some(2) assms(6) [OF some(1)]]]
  show ?thesis using some by (simp add: read_scope_def)
qed (use assms(5) in \<open>auto simp: read_scope_def split: option.splits\<close>)

lemma read_scope_scan:
  assumes "deferred_ok created d" "registered d j" "ds_current (df_objects d j) \<noteq> None"
    and "registered d i" "j \<noteq> i" "\<And>table. answer = Some table \<Longrightarrow> table_ok created table"
  shows "scan_kept j d (read_scope now i answer d)"
proof (cases "\<exists>table interval. answer = Some table \<and> ds_current (df_objects d i) = Some interval")
  case True
  then obtain table interval where some: "answer = Some table" "ds_current (df_objects d i) = Some interval"
    by blast
  from read_page_scan [OF assms(1-5) query_page_ok [OF assms(6) [OF some(1)]]]
  show ?thesis using some by (simp add: read_scope_def)
qed (use assms(2) in \<open>auto simp: read_scope_def scan_kept_def split: option.splits\<close>)

section \<open>Revalidation loses nothing it was shown\<close>

lemma find_row_Some: "find_row rows r = Some row \<Longrightarrow> row \<in> set rows \<and> er_id row = r"
  by (auto simp: find_row_def dest!: map_of_SomeD)

lemma find_row_unique:
  assumes "distinct (map er_id rows)" "row \<in> set rows"
  shows "find_row rows (er_id row) = Some row"
  using assms by (simp add: find_row_def comp_def map_of_eq_Some_iff image_iff)

lemma revalidate_loop_ok:
  "deferred_ok created d \<Longrightarrow> deferred_ok created (fst (revalidate_loop now active rows ids d result))"
proof (induction ids arbitrary: d result)
  case (Cons identity ids)
  then show ?case
    by (auto simp: Let_def release_work_ok capture_ok split: option.splits)
qed simp

lemma revalidate_loop_owed:
  assumes "deferred_ok created d" "owed d c" "real_cursor created c"
    and "distinct (map er_id rows)" "\<forall>row\<in>set rows. er_createdAt row = created (er_id row)"
    and "cu_id c \<in> id_id ` set ids \<Longrightarrow> shows_current now rows c"
  shows "owed (fst (revalidate_loop now active rows ids d result)) c"
  using assms(1,2,6)
proof (induction ids arbitrary: d result)
  case (Cons identity ids)
  let ?w = "id_key identity" and ?r = "id_id identity"
  have later: "cu_id c \<in> id_id ` set ids \<Longrightarrow> shows_current now rows c" using Cons.prems(3) by simp
  note keep = Cons.IH [OF Cons.prems(1,2) later]
  have gone: "owed (fst (revalidate_loop now active rows ids (release ?w ?r d) result)) c" if "cu_id c \<noteq> ?r"
    by (rule Cons.IH [OF release_work_ok [OF Cons.prems(1)] release_keeps [OF Cons.prems(1,2) that] later])
  have moved: "owed (fst (revalidate_loop now active rows ids
      (capture (Some scope) key (row_cursor row) (release ?w ?r d)) result)) c"
    if "row \<in> set rows" "er_id row = ?r" for scope key row
  proof (rule Cons.IH [OF capture_ok [OF release_work_ok [OF Cons.prems(1)]] _ later])
    show "owed (capture (Some scope) key (row_cursor row) (release ?w ?r d)) c"
    proof (cases "cu_id c = ?r")
      case True
      have "row_cursor row = c"
        using that True assms(3,5) by (simp add: row_cursor_def real_cursor_def scope_cursor.expand)
      then show ?thesis using capture_adds(1) [OF release_work_ok [OF Cons.prems(1)] assms(3)] by simp
    next
      case False
      then show ?thesis
        by (rule capture_owed [OF release_work_ok [OF Cons.prems(1)] release_keeps [OF Cons.prems(1,2)]])
    qed
  qed
  show ?case
  proof (cases "find_row rows ?r")
    case None
    have "cu_id c \<noteq> ?r"
      using Cons.prems(3) None find_row_unique [OF assms(4)] by (fastforce simp: shows_current_def)
    then show ?thesis using None gone by simp
  next
    case (Some row)
    note row = find_row_Some [OF Some]
    have "cu_id c \<noteq> ?r" if "\<not> currentEnqueueRepresentative row now"
      using Cons.prems(3) Some that find_row_unique [OF assms(4)] by (fastforce simp: shows_current_def)
    then show ?thesis using Some gone keep moved row by (simp add: Let_def)
  qed
qed simp

section \<open>Runs of the reader\<close>

text \<open>The scopes a poll still has to read are registered, scanning, and pairwise different.\<close>

fun phase_ok :: "deferred_scopes \<Rightarrow> poll_phase \<Rightarrow> bool" where
  "phase_ok d (Poll_Reading now n readers) =
     (distinct readers \<and> (\<forall>i\<in>set readers. registered d i \<and> ds_current (df_objects d i) \<noteq> None))"
| "phase_ok d _ = True"

definition reader_ok :: "(js_string \<Rightarrow> int) \<Rightarrow> deferred_reader \<Rightarrow> bool" where
  "reader_ok created m = (deferred_ok created (rd_scopes m) \<and> phase_ok (rd_scopes m) (rd_phase m))"

fun reader_guard :: "(js_string \<Rightarrow> int) \<Rightarrow> deferred_reader \<Rightarrow> reader_event \<Rightarrow> bool" where
  "reader_guard created m (Deferred scope w c) = real_cursor created c"
| "reader_guard created m (Page_Answer (Some table)) = table_ok created table"
| "reader_guard created m (Rows_Answer (Some table) active) = table_ok created table"
| "reader_guard created m _ = True"

lemma selectReaders_distinct:
  assumes "deferred_ok created d"
  shows "distinct (snd (selectReaders limit d))"
proof (cases "limit = 0 \<or> df_states d = []")
  case True
  have "length (fst (snd (select_loop 0 is d sel v))) \<le> Suc (length sel)" for "is" d sel v
    by (cases "is") (auto simp: Let_def)
  then have "length (fst (snd (select_loop 0 is d [] v))) \<le> 1" for "is" d v
    by (metis One_nat_def list.size(3))
  moreover have "distinct xs" if "length xs \<le> 1" for xs :: "nat list"
    using that by (cases xs) auto
  ultimately show ?thesis using True by (auto simp: selectReaders_def Let_def case_prod_unfold)
next
  case False
  let ?is = "rotated (df_readOffset d mod length (df_states d)) (map snd (df_states d))"
  obtain d1 sel v where loop: "select_loop limit ?is d [] 0 = (d1, sel, v)" by (metis prod_cases3)
  have "distinct (rotated m xs)" if "distinct xs" for m and xs :: "nat list"
    using that set_take_disj_set_drop_if_distinct [OF that, of m m] by (auto simp: rotated_def)
  then have "distinct ?is" using assms by (simp add: deferred_ok_def)
  moreover have "\<exists>m. sel = filter (\<lambda>i. readable (promote_state (df_objects d i))) (take m ?is)"
    using select_loop_selected [OF _ loop] False by auto
  ultimately have "distinct sel" by auto
  then show ?thesis using loop False by (simp add: selectReaders_def Let_def)
qed

text \<open>A step that keeps the scan of every scanning scope keeps the phase.\<close>

lemma phase_kept:
  assumes "phase_ok d ph" "\<And>i. registered d i \<Longrightarrow> ds_current (df_objects d i) \<noteq> None \<Longrightarrow> scan_kept i d d'"
  shows "phase_ok d' ph"
  using assms by (cases ph) (auto simp: scan_kept_def)

lemma continue_poll_ok:
  assumes "deferred_ok created d" "phase_ok d (Poll_Reading now n readers)"
  shows "reader_ok created (continue_poll now n readers d)"
  using assms identities_ok [OF assms(1), of n]
  by (cases readers) (auto simp: reader_ok_def case_prod_unfold)

lemma continue_poll_owed: "owed (rd_scopes (continue_poll now n readers d)) c = owed d c"
  by (cases readers) (simp_all add: case_prod_unfold)

lemma page_phase_kept:
  assumes "deferred_ok created d" "phase_ok d (Poll_Reading now n (i # readers))"
    and "\<And>table. answer = Some table \<Longrightarrow> table_ok created table"
  shows "phase_ok (read_scope now i answer d) (Poll_Reading now n readers)"
proof -
  have "scan_kept j d (read_scope now i answer d)" if "j \<in> set readers" for j
    by (rule read_scope_scan [OF assms(1) _ _ _ _ assms(3)]) (use assms(2) that in auto)
  then show ?thesis using assms(2) by (auto simp: scan_kept_def)
qed

lemma revalidate_ok: "deferred_ok created d \<Longrightarrow> deferred_ok created (fst (revalidate now active table ids d))"
  by (simp add: revalidate_def revalidate_loop_ok)

lemma poll_start_ok:
  assumes "deferred_ok created d"
  shows "reader_ok created (continue_poll now n (snd (selectReaders limit d)) (fst (selectReaders limit d)))"
proof (rule continue_poll_ok [OF selectReaders_ok [OF assms]])
  show "phase_ok (fst (selectReaders limit d)) (Poll_Reading now n (snd (selectReaders limit d)))"
    using selectReaders_distinct [OF assms, of limit] selectReaders_readable [of _ limit d]
    by (auto simp: readable_def)
qed

interpretation reader: invariant_machine "reader_ok created" "reader_guard created" reader_step
  for created
proof (unfold_locales, goal_cases inv)
  case (inv m e)
  have ok: "deferred_ok created (rd_scopes m)" and ph: "phase_ok (rd_scopes m) (rd_phase m)"
    using inv(1) by (simp_all add: reader_ok_def)
  show ?case
  proof (cases e)
    case (Deferred scope w c)
    have "phase_ok (capture scope w c (rd_scopes m)) (rd_phase m)"
      by (rule phase_kept [OF ph]) (unfold scan_kept_def, intro conjI capture_scan [OF ok])
    then show ?thesis using Deferred capture_ok [OF ok] by (simp add: reader_ok_def)
  next
    case (Dispatched w r)
    have "phase_ok (release w r (rd_scopes m)) (rd_phase m)"
      by (rule phase_kept [OF ph release_scan [OF ok]])
    then show ?thesis using Dispatched release_work_ok [OF ok] by (simp add: reader_ok_def)
  next
    case (Poll_Starts now n)
    then show ?thesis using inv(1) poll_start_ok [OF ok] by (cases "rd_phase m") (simp_all add: case_prod_unfold)
  next
    case (Page_Answer answer)
    have table: "table_ok created table" if "answer = Some table" for table
      using inv(2) Page_Answer that by simp
    show ?thesis
    proof (cases "rd_phase m")
      case (Poll_Reading now n readers)
      show ?thesis
      proof (cases readers)
        case (Cons i rest)
        have reg: "registered (rd_scopes m) i" using ph Poll_Reading Cons by simp
        have "phase_ok (read_scope now i answer (rd_scopes m)) (Poll_Reading now n rest)"
          by (rule page_phase_kept [OF ok _ table]) (use ph Poll_Reading Cons in auto)
        moreover have "deferred_ok created (read_scope now i answer (rd_scopes m))"
          by (rule read_scope_ok [OF ok reg]) (rule table)
        ultimately have "reader_ok created (continue_poll now n rest (read_scope now i answer (rd_scopes m)))"
          by (intro continue_poll_ok)
        then show ?thesis using Page_Answer Poll_Reading Cons by simp
      qed (use inv(1) Page_Answer Poll_Reading in simp)
    qed (use inv(1) Page_Answer in simp_all)
  next
    case (Rows_Answer answer active)
    then show ?thesis
      using inv(1) ok revalidate_ok [OF ok]
      by (cases "rd_phase m"; cases answer) (simp_all add: reader_ok_def case_prod_unfold)
  qed
qed

text \<open>
  The ways a step can let a receipt go.  The dispatcher hands it to a task; a page that comes to its
  place, or the rows of the identities that name it, do not show it as a current representative.
\<close>

fun lets_go :: "scope_cursor \<Rightarrow> deferred_reader \<Rightarrow> reader_event \<Rightarrow> bool" where
  "lets_go c m (Dispatched w r) = (r = cu_id c)"
| "lets_go c m (Page_Answer (Some table)) =
     (case rd_phase m of
        Poll_Reading now n (i # is) \<Rightarrow>
          unread (df_objects (rd_scopes m) i) c \<and> \<not> shows_current now table c
      | _ \<Rightarrow> False)"
| "lets_go c m (Rows_Answer (Some table) active) =
     (case rd_phase m of
        Poll_Checking now ids \<Rightarrow> cu_id c \<in> id_id ` set ids \<and> \<not> shows_current now table c
      | _ \<Rightarrow> False)"
| "lets_go c m _ = False"

fun let_go_in :: "scope_cursor \<Rightarrow> deferred_reader \<Rightarrow> reader_event list \<Rightarrow> bool" where
  "let_go_in c m [] = False"
| "let_go_in c m (e # es) = (lets_go c m e \<or> let_go_in c (reader_step m e) es)"

lemma revalidate_owed:
  assumes "deferred_ok created d" "owed d c" "real_cursor created c" "table_ok created table"
    and "cu_id c \<in> id_id ` set ids \<Longrightarrow> shows_current now table c"
  shows "owed (fst (revalidate now active table ids d)) c"
  unfolding revalidate_def
proof (rule revalidate_loop_owed [OF assms(1-3)])
  let ?rows = "filter (\<lambda>row. er_id row \<in> set (map id_id ids)) table"
  show "distinct (map er_id ?rows)" "\<forall>row\<in>set ?rows. er_createdAt row = created (er_id row)"
    using assms(4) by (auto simp: table_ok_def distinct_map_filter)
  assume "cu_id c \<in> id_id ` set ids"
  with assms(5) show "shows_current now ?rows c" by (auto simp: shows_current_def)
qed

lemma reader_step_owed:
  assumes "reader_ok created m" "reader_guard created m e" "real_cursor created c"
    and "owed (rd_scopes m) c" "\<not> lets_go c m e"
  shows "owed (rd_scopes (reader_step m e)) c"
proof -
  have ok: "deferred_ok created (rd_scopes m)" and ph: "phase_ok (rd_scopes m) (rd_phase m)"
    using assms(1) by (simp_all add: reader_ok_def)
  show ?thesis
  proof (cases e)
    case (Deferred scope w c')
    then show ?thesis using capture_owed [OF ok assms(4)] by simp
  next
    case (Dispatched w r)
    then show ?thesis using release_keeps [OF ok assms(4)] assms(5) by auto
  next
    case (Poll_Starts now n)
    then show ?thesis
      using assms(4) select_keeps [OF assms(4)]
      by (cases "rd_phase m") (simp_all add: case_prod_unfold continue_poll_owed)
  next
    case (Page_Answer answer)
    have table: "table_ok created table" if "answer = Some table" for table
      using assms(2) Page_Answer that by simp
    show ?thesis
    proof (cases "rd_phase m")
      case (Poll_Reading now n readers)
      show ?thesis
      proof (cases readers)
        case (Cons i rest)
        have "owed (read_scope now i answer (rd_scopes m)) c"
          by (rule read_scope_owed [OF ok _ table assms(3,4)])
             (use ph assms(5) Page_Answer Poll_Reading Cons in auto)
        then show ?thesis using Page_Answer Poll_Reading Cons by (simp add: continue_poll_owed)
      qed (use assms(4) Page_Answer Poll_Reading in simp)
    qed (use assms(4) Page_Answer in simp_all)
  next
    case (Rows_Answer answer active)
    show ?thesis
    proof (cases answer)
      case None
      then show ?thesis using Rows_Answer assms(4) by (cases "rd_phase m") simp_all
    next
      case (Some table)
      have table: "table_ok created table" using assms(2) Rows_Answer Some by simp
      show ?thesis
      proof (cases "rd_phase m")
        case (Poll_Checking now ids)
        have "owed (fst (revalidate now active table ids (rd_scopes m))) c"
          by (rule revalidate_owed [OF ok assms(4,3) table])
             (use assms(5) Rows_Answer Some Poll_Checking in auto)
        then show ?thesis using Rows_Answer Some Poll_Checking by (simp add: case_prod_unfold)
      qed (use assms(4) Rows_Answer Some in simp_all)
    qed
  qed
qed

lemma reader_run_owed:
  assumes "reader_ok created m" "run_ok (reader_guard created) reader_step m es" "real_cursor created c"
    and "owed (rd_scopes m) c" "\<not> let_go_in c m es"
  shows "owed (rd_scopes (foldl reader_step m es)) c"
  using assms
proof (induction es arbitrary: m)
  case (Cons e es)
  then have "owed (rd_scopes (reader_step m e)) c" by (intro reader_step_owed [where created = created]) auto
  then show ?case using Cons.IH [OF reader.step_inv [OF Cons.prems(1)]] Cons.prems by simp
qed simp

lemma run_ok_appendD:
  "run_ok guard step s (es @ fs) \<Longrightarrow> run_ok guard step s es \<and> run_ok guard step (foldl step s es) fs"
  by (induction es arbitrary: s) auto

lemma new_reader_ok [simp]: "reader_ok created new_reader"
  by (simp add: reader_ok_def new_reader_def)

section \<open>Properties\<close>

text \<open>
  A transfer and a poll: it reads a table with three rows, retains what the interval covers, and
  revalidates it, while the dispatcher releases another receipt.
\<close>

definition sample_event :: "string \<Rightarrow> event_row" where
  "sample_event name =
     \<lparr>er_id = ascii name, er_status = Row_Received, er_queueName = None, er_createdAt = int (length name),
      er_queuedAt = None, er_nextEnqueueAt = None, er_errorMessage = None,
      er_normalizedPayload = Obj [(ascii ''botId'', Str (ascii ''b''))], er_processedAt = None,
      er_legacyDispositionId = None, er_sourceDispositionId = None\<rparr>"

definition sample_table :: "event_row list" where
  "sample_table = [sample_event ''abc'', sample_event ''ab'', sample_event ''xy'']"

definition sample_polls :: "reader_event list" where
  "sample_polls =
     [Deferred None (ascii ''w'') (Cursor (ascii ''abc'') 3), Poll_Starts 100 4, Page_Answer (Some sample_table),
      Dispatched (ascii ''event:xy'') (ascii ''xy''), Rows_Answer (Some sample_table) {}]"

text \<open>
  C6: A receipt that was deferred is never forgotten.  Take any history of transfers, releases and
  polls from the empty reader, a transfer of a receipt, and any further history: some registered
  scope still owes the receipt a visit, unless it was let go, that is, the dispatcher handed it to a
  task, or a page of a scope with the receipt in its unread part, or the revalidation that named it,
  was shown a table in which it is not a current enqueue representative at the poll's time.  (A receipt
  that waits for a later \<^verbatim>\<open>nextEnqueueAt\<close>, was queued recently, failed without a retry time or
  is settled is not one, and may be let go.)  Queries may fail, and each sees its own table;
  identifiers are primary keys and creation times never change.
\<close>

theorem deferred_receipt_never_forgotten:
  assumes "run_ok (reader_guard created) reader_step new_reader (before @ Deferred scope w c # after)"
    and "\<not> let_go_in c (foldl reader_step new_reader (before @ [Deferred scope w c])) after"
  shows "owed (rd_scopes (foldl reader_step new_reader (before @ Deferred scope w c # after))) c"
proof -
  let ?m = "foldl reader_step new_reader before"
  have ok: "reader_ok created ?m" by (rule reader.run_prefix_inv [OF new_reader_ok assms(1)])
  have guard: "real_cursor created c" "run_ok (reader_guard created) reader_step (reader_step ?m (Deferred scope w c)) after"
    using run_ok_appendD [OF assms(1)] by simp_all
  have "owed (rd_scopes (reader_step ?m (Deferred scope w c))) c"
    using capture_adds(1) [OF _ guard(1)] ok by (simp add: reader_ok_def)
  from reader_run_owed [OF reader.step_inv [OF ok] guard(2,1) this] guard(1) assms(2)
  show ?thesis by simp
qed

theorem deferred_receipt_never_forgotten_witness:
  "owed (rd_scopes (foldl reader_step new_reader
     ([Poll_Starts 50 4] @ Deferred None (ascii ''v'') (Cursor (ascii ''ab'') 2) # sample_polls)))
     (Cursor (ascii ''ab'') 2)"
  by (rule deferred_receipt_never_forgotten [where created = sample_created]) code_simp+

end
