(* ===== verification/Rate_Limit.thy ===== *)
theory Rate_Limit
  imports Prelude
begin

text \<open>
  \<^verbatim>\<open>apps/api/src/webhook/webhook-rate-limit.service.ts\<close>: ingress webhooks are counted per
  second and per window of twenty seconds, in Redis by one script or, without Redis or after a
  failure, in memory.

  \<^item> A counter key is its kind and its number; the two key texts differ in their prefix.
  \<^item> Every reading of the clock is an argument, in the order the code makes them.
  \<^item> The Redis store is a map from keys to a count and an expiry; \<^verbatim>\<open>INCR\<close> counts an absent or
    expired key from zero and \<^verbatim>\<open>EXPIRE\<close> sets the expiry of a key, as Redis documents.
\<close>

section \<open>Counters\<close>

datatype rl_key = Second_Key int | Window_Key int

record rl_counter =
  rc_count :: int
  rc_expiresAtMs :: int

type_synonym counters = "(rl_key, rl_counter) jsmap"

definition cleanupExpiredFallbackCounters :: "int \<Rightarrow> counters \<Rightarrow> counters" where
  "cleanupExpiredFallbackCounters nowMs m = filter (\<lambda>(key, entry). \<not> rc_expiresAtMs entry \<le> nowMs) m"

definition incrementFallbackCounterWithTtl :: "int \<Rightarrow> rl_key \<Rightarrow> int \<Rightarrow> counters \<Rightarrow> counters \<times> int" where
  "incrementFallbackCounterWithTtl nowMs key ttlSec m =
     (case jsmap_get m key of
        Some existing \<Rightarrow>
          if rc_expiresAtMs existing \<le> nowMs
          then (cleanupExpiredFallbackCounters nowMs
                  (jsmap_set key \<lparr>rc_count = 1, rc_expiresAtMs = nowMs + ttlSec * 1000\<rparr> m), 1)
          else (jsmap_set key (existing\<lparr>rc_count := rc_count existing + 1\<rparr>) m, rc_count existing + 1)
      | None \<Rightarrow>
          (cleanupExpiredFallbackCounters nowMs
             (jsmap_set key \<lparr>rc_count = 1, rc_expiresAtMs = nowMs + ttlSec * 1000\<rparr> m), 1))"

definition reserveFallbackCapacity :: "int \<Rightarrow> int \<Rightarrow> int \<Rightarrow> int \<Rightarrow> rl_key \<Rightarrow> rl_key \<Rightarrow> counters \<Rightarrow> counters \<times> bool" where
  "reserveFallbackCapacity burstLimit globalLimit now1 now2 secKey avgWindowKey m =
     (let (m1, secCount) = incrementFallbackCounterWithTtl now1 secKey 2 m in
      if secCount > burstLimit then (m1, False)
      else
        (let (m2, avgWindowCount) = incrementFallbackCounterWithTtl now2 avgWindowKey 21 m1
         in (m2, avgWindowCount \<le> globalLimit * 20)))"

section \<open>The Redis script\<close>

type_synonym redis_store = "rl_key \<Rightarrow> rl_counter option"

text \<open>\<^verbatim>\<open>INCR\<close> followed by \<^verbatim>\<open>EXPIRE\<close>.\<close>

definition redis_incr_expire :: "int \<Rightarrow> rl_key \<Rightarrow> int \<Rightarrow> redis_store \<Rightarrow> redis_store \<times> int" where
  "redis_incr_expire now key ttlSec r =
     (let count = (case r key of
                     Some e \<Rightarrow> if rc_expiresAtMs e \<le> now then 1 else rc_count e + 1
                   | None \<Rightarrow> 1)
      in (r(key \<mapsto> \<lparr>rc_count = count, rc_expiresAtMs = now + ttlSec * 1000\<rparr>), count))"

text \<open>The script returns the decision and the two counts.\<close>

definition rate_limit_script :: "int \<Rightarrow> rl_key \<Rightarrow> rl_key \<Rightarrow> int \<Rightarrow> int \<Rightarrow> int \<Rightarrow> int \<Rightarrow> redis_store \<Rightarrow> redis_store \<times> int list" where
  "rate_limit_script now key1 key2 ttl1 ttl2 limit1 limit2 r =
     (let (r1, secondCount) = redis_incr_expire now key1 ttl1 r in
      if secondCount > limit1 then (r1, [0, secondCount, 0])
      else
        (let (r2, windowCount) = redis_incr_expire now key2 ttl2 r1 in
         if windowCount > limit2 then (r2, [0, secondCount, windowCount])
         else (r2, [1, secondCount, windowCount])))"

section \<open>The service\<close>

record rate_limiter =
  rl_globalLimit :: int
  rl_burstLimit :: int
  rl_fallback :: counters
  rl_lastFallbackLogAtMs :: int
  rl_warnings :: "int list"

text \<open>What the Redis client did: there is none, it answered an array, it answered something else, or
  it failed.\<close>

datatype redis_outcome = No_Redis | Answer "int list" | Malformed | Failed

definition sec_key :: "int \<Rightarrow> rl_key" where "sec_key nowMs = Second_Key (nowMs div 1000)"
definition avg_window_key :: "int \<Rightarrow> rl_key" where "avg_window_key nowMs = Window_Key ((nowMs div 1000) div 20)"

definition logRedisFallback :: "int \<Rightarrow> rate_limiter \<Rightarrow> rate_limiter" where
  "logRedisFallback nowMs s =
     (if nowMs - rl_lastFallbackLogAtMs s < 10000 then s
      else s\<lparr>rl_lastFallbackLogAtMs := nowMs, rl_warnings := rl_warnings s @ [nowMs]\<rparr>)"

definition fallback_decision :: "int \<Rightarrow> int \<Rightarrow> int \<Rightarrow> rate_limiter \<Rightarrow> rate_limiter \<times> bool" where
  "fallback_decision now0 now1 now2 s =
     (let (m, ok) = reserveFallbackCapacity (rl_burstLimit s) (rl_globalLimit s) now1 now2
            (sec_key now0) (avg_window_key now0) (rl_fallback s)
      in (s\<lparr>rl_fallback := m\<rparr>, ok))"

text \<open>\<open>now0\<close> fixes the keys, \<open>nowLog\<close> is read by the log of a failure, \<open>now1\<close> and \<open>now2\<close> by the
  in-memory counters.  An empty array answers \<^verbatim>\<open>undefined\<close>, which is no number.\<close>

definition isAllowed :: "redis_outcome \<Rightarrow> int \<Rightarrow> int \<Rightarrow> int \<Rightarrow> int \<Rightarrow> rate_limiter \<Rightarrow> rate_limiter \<times> bool" where
  "isAllowed outcome now0 nowLog now1 now2 s =
     (case outcome of
        No_Redis \<Rightarrow> fallback_decision now0 now1 now2 s
      | Answer (allowed # rest) \<Rightarrow>
          if allowed \<noteq> 0 \<and> allowed \<noteq> 1 then fallback_decision now0 now1 now2 (logRedisFallback nowLog s)
          else (s, allowed = 1)
      | _ \<Rightarrow> fallback_decision now0 now1 now2 (logRedisFallback nowLog s))"

section \<open>Counting, abstractly\<close>

text \<open>
  The contract of a counter store: while a key is in use, incrementing it answers how often it was
  incremented.  \<open>represents t h m\<close> says that at time \<open>t\<close> the store \<open>m\<close> holds the counts \<open>h\<close>.
\<close>

fun key_start :: "rl_key \<Rightarrow> int" where
  "key_start (Second_Key s) = s * 1000"
| "key_start (Window_Key w) = w * 20000"

fun key_ttl :: "rl_key \<Rightarrow> int" where
  "key_ttl (Second_Key s) = 2"
| "key_ttl (Window_Key w) = 21"

definition key_end :: "rl_key \<Rightarrow> int" where
  "key_end k = key_start k + key_ttl k * 1000"

definition in_use :: "rl_key \<Rightarrow> int \<Rightarrow> bool" where
  "in_use k t = (key_start k \<le> t \<and> t < key_end k)"

type_synonym rl_counts = "rl_key \<Rightarrow> int"

fun reserve_spec :: "int \<Rightarrow> int \<Rightarrow> rl_key \<Rightarrow> rl_key \<Rightarrow> rl_counts \<Rightarrow> rl_counts \<times> bool" where
  "reserve_spec burst window k1 k2 h =
     (let h1 = h(k1 := h k1 + 1) in
      if h1 k1 > burst then (h1, False)
      else (let h2 = h1(k2 := h1 k2 + 1) in (h2, h2 k2 \<le> window)))"

locale counter_store =
  fixes increment :: "int \<Rightarrow> rl_key \<Rightarrow> int \<Rightarrow> 'm \<Rightarrow> 'm \<times> int"
    and represents :: "int \<Rightarrow> rl_counts \<Rightarrow> 'm \<Rightarrow> bool"
  assumes increment_counts:
    "represents t h m \<Longrightarrow> t \<le> now \<Longrightarrow> in_use k now \<Longrightarrow>
      represents now (h(k := h k + 1)) (fst (increment now k (key_ttl k) m)) \<and>
      snd (increment now k (key_ttl k) m) = h k + 1"
    and represents_later: "represents t h m \<Longrightarrow> t \<le> now \<Longrightarrow> represents now h m"
begin

definition reserve :: "int \<Rightarrow> int \<Rightarrow> int \<Rightarrow> int \<Rightarrow> rl_key \<Rightarrow> rl_key \<Rightarrow> 'm \<Rightarrow> 'm \<times> bool" where
  "reserve burst window now1 now2 k1 k2 m =
     (let (m1, c1) = increment now1 k1 (key_ttl k1) m in
      if c1 > burst then (m1, False)
      else (let (m2, c2) = increment now2 k2 (key_ttl k2) m1 in (m2, c2 \<le> window)))"

lemma reserve_refines:
  assumes "represents t h m" "t \<le> now1" "now1 \<le> now2" "in_use k1 now1" "in_use k2 now2"
  shows "represents now2 (fst (reserve_spec burst window k1 k2 h)) (fst (reserve burst window now1 now2 k1 k2 m))"
    and "snd (reserve burst window now1 now2 k1 k2 m) = snd (reserve_spec burst window k1 k2 h)"
proof -
  note one = increment_counts [OF assms(1,2,4)]
  note two = increment_counts [OF one [THEN conjunct1] assms(3,5)]
  show "snd (reserve burst window now1 now2 k1 k2 m) = snd (reserve_spec burst window k1 k2 h)"
    using one two by (auto simp: reserve_def Let_def case_prod_unfold)
  show "represents now2 (fst (reserve_spec burst window k1 k2 h)) (fst (reserve burst window now1 now2 k1 k2 m))"
    using one two represents_later [OF one [THEN conjunct1] assms(3)]
    by (auto simp: reserve_def Let_def case_prod_unfold)
qed

end

definition represents_counts :: "int \<Rightarrow> rl_counts \<Rightarrow> (rl_key \<Rightarrow> rl_counter option) \<Rightarrow> bool" where
  "represents_counts t h m =
     (\<forall>k. t < key_end k \<longrightarrow>
        h k \<ge> 0 \<and>
        (if h k = 0 then m k = None
         else (case m k of Some e \<Rightarrow> rc_count e = h k \<and> key_end k \<le> rc_expiresAtMs e | None \<Rightarrow> False)))"

lemma cleanup_get:
  "jsmap_ok m \<Longrightarrow> jsmap_get (cleanupExpiredFallbackCounters now m) k =
    (case jsmap_get m k of Some e \<Rightarrow> if rc_expiresAtMs e \<le> now then None else Some e | None \<Rightarrow> None)"
  by (induction m) (auto simp: cleanupExpiredFallbackCounters_def map_of_eq_None_iff rev_image_eqI split: option.splits)

lemma cleanup_ok: "jsmap_ok m \<Longrightarrow> jsmap_ok (cleanupExpiredFallbackCounters now m)"
  by (auto simp: cleanupExpiredFallbackCounters_def distinct_map_filter)

definition represents_fallback :: "int \<Rightarrow> rl_counts \<Rightarrow> counters \<Rightarrow> bool" where
  "represents_fallback t h m = (jsmap_ok m \<and> represents_counts t h (jsmap_get m))"

lemma represents_countsD:
  assumes "represents_counts t h m" "t < key_end k"
  shows "h k = 0 \<Longrightarrow> m k = None" "0 \<le> h k"
    and "h k \<noteq> 0 \<Longrightarrow> \<exists>e. m k = Some e \<and> rc_count e = h k \<and> key_end k \<le> rc_expiresAtMs e"
  using assms by (auto simp: represents_counts_def split: if_splits option.splits)

lemma represents_counts_set:
  assumes "represents_counts t h m" "t \<le> now" "in_use k now"
    and "rc_count e = h k + 1" "key_end k \<le> rc_expiresAtMs e"
    and "\<And>k'. k' \<noteq> k \<Longrightarrow> now < key_end k' \<Longrightarrow> m' k' = m k'" "m' k = Some e"
  shows "represents_counts now (h(k := h k + 1)) m'"
proof -
  have nonneg: "0 \<le> h k" using represents_countsD(2) [OF assms(1)] assms(2,3) by (simp add: in_use_def)
  show ?thesis
    unfolding represents_counts_def
  proof (intro allI impI)
    fix k' assume now: "now < key_end k'"
    show "0 \<le> (h(k := h k + 1)) k' \<and>
        (if (h(k := h k + 1)) k' = 0 then m' k' = None
         else (case m' k' of Some e \<Rightarrow> rc_count e = (h(k := h k + 1)) k' \<and> key_end k' \<le> rc_expiresAtMs e | None \<Rightarrow> False))"
    proof (cases "k' = k")
      case True
      then show ?thesis using nonneg assms(4,5,7) by simp
    next
      case False
      then show ?thesis
        using represents_countsD [OF assms(1), of k'] assms(2) now assms(6) [OF False now] by auto
    qed
  qed
qed

lemma fresh_expiry: "in_use k now \<Longrightarrow> key_end k \<le> now + key_ttl k * 1000"
  by (simp add: in_use_def key_end_def)

lemma represents_counts_later: "represents_counts t h m \<Longrightarrow> t \<le> now \<Longrightarrow> represents_counts now h m"
  by (simp add: represents_counts_def)

interpretation fallback: counter_store incrementFallbackCounterWithTtl represents_fallback
proof (unfold_locales, goal_cases counts later)
  case (counts t h m now k)
  have m: "jsmap_ok m" "represents_counts t h (jsmap_get m)" using counts(1) by (simp_all add: represents_fallback_def)
  have live: "t < key_end k" using counts(2,3) by (simp add: in_use_def)
  show ?case
  proof (cases "h k = 0")
    case True
    let ?new = "\<lparr>rc_count = 1, rc_expiresAtMs = now + key_ttl k * 1000\<rparr>"
    let ?m = "cleanupExpiredFallbackCounters now (jsmap_set k ?new m)"
    have inc: "incrementFallbackCounterWithTtl now k (key_ttl k) m = (?m, 1)"
      using represents_countsD(1) [OF m(2) live True] by (simp add: incrementFallbackCounterWithTtl_def)
    have "jsmap_get ?m k' = jsmap_get m k'" if "k' \<noteq> k" "now < key_end k'" for k'
      using represents_countsD [OF m(2), of k'] that m(1) counts(2)
      by (cases "h k' = 0"; cases "jsmap_get m k'") (auto simp: cleanup_get)
    moreover have "jsmap_get ?m k = Some ?new"
      using m(1) fresh_expiry [OF counts(3)] counts(3) by (auto simp: cleanup_get in_use_def)
    ultimately show ?thesis
      using represents_counts_set [OF m(2) counts(2,3), of ?new "jsmap_get ?m"] True fresh_expiry [OF counts(3)] m(1)
      by (simp add: inc represents_fallback_def cleanup_ok)
  next
    case False
    then obtain e where e: "jsmap_get m k = Some e" "rc_count e = h k" "key_end k \<le> rc_expiresAtMs e"
      using represents_countsD(3) [OF m(2) live] by blast
    let ?new = "e\<lparr>rc_count := rc_count e + 1\<rparr>"
    have inc: "incrementFallbackCounterWithTtl now k (key_ttl k) m = (jsmap_set k ?new m, h k + 1)"
      using e counts(3) by (auto simp: incrementFallbackCounterWithTtl_def in_use_def)
    show ?thesis
      using represents_counts_set [OF m(2) counts(2,3), of ?new "jsmap_get (jsmap_set k ?new m)"] e m(1)
      by (simp add: inc represents_fallback_def)
  qed
next
  case (later t h m now)
  then show ?case by (auto simp: represents_fallback_def intro: represents_counts_later)
qed

interpretation redis: counter_store redis_incr_expire represents_counts
proof (unfold_locales, goal_cases counts later)
  case (counts t h m now k)
  have live: "t < key_end k" using counts(2,3) by (simp add: in_use_def)
  have "(case m k of Some e \<Rightarrow> if rc_expiresAtMs e \<le> now then 1 else rc_count e + 1 | None \<Rightarrow> 1) = h k + 1"
    using represents_countsD [OF counts(1) live] counts(3)
    by (cases "h k = 0") (auto simp: in_use_def)
  then show ?case
    using represents_counts_set [OF counts, of "\<lparr>rc_count = h k + 1, rc_expiresAtMs = now + key_ttl k * 1000\<rparr>"]
      fresh_expiry [OF counts(3)]
    by (simp add: redis_incr_expire_def Let_def)
qed (rule represents_counts_later)

lemma reserve_fallback_eq:
  "reserveFallbackCapacity burst global now1 now2 (Second_Key s) (Window_Key w) m =
    fallback.reserve burst (global * 20) now1 now2 (Second_Key s) (Window_Key w) m"
  by (simp add: reserveFallbackCapacity_def fallback.reserve_def Let_def case_prod_unfold)

lemma script_eq:
  "fst (rate_limit_script now (Second_Key s) (Window_Key w) 2 21 burst window r) =
     fst (redis.reserve burst window now now (Second_Key s) (Window_Key w) r)"
  "hd (snd (rate_limit_script now (Second_Key s) (Window_Key w) 2 21 burst window r)) =
     (if snd (redis.reserve burst window now now (Second_Key s) (Window_Key w) r) then 1 else 0)"
  "snd (rate_limit_script now (Second_Key s) (Window_Key w) 2 21 burst window r) \<noteq> []"
  by (simp_all add: rate_limit_script_def redis.reserve_def Let_def case_prod_unfold)

section \<open>Runs of requests\<close>

text \<open>A request with its clock readings: the keys, the two in-memory counters, the script.\<close>

record rl_request =
  rq_now0 :: int
  rq_now1 :: int
  rq_now2 :: int
  rq_nowScript :: int

text \<open>A prompt request does all of its counting within a second of fixing its keys.\<close>

definition prompt :: "rl_request \<Rightarrow> bool" where
  "prompt r = (0 \<le> rq_now0 r \<and> rq_now0 r \<le> rq_now1 r \<and> rq_now1 r \<le> rq_now2 r \<and> rq_now2 r < rq_now0 r + 1000 \<and>
     rq_now0 r \<le> rq_nowScript r \<and> rq_nowScript r < rq_now0 r + 1000)"

definition earlier :: "rl_request \<Rightarrow> rl_request \<Rightarrow> bool" where
  "earlier a b = (rq_now2 a \<le> rq_now0 b \<and> rq_nowScript a \<le> rq_now0 b)"

fun memory_run :: "rate_limiter \<Rightarrow> rl_request list \<Rightarrow> bool list" where
  "memory_run s [] = []"
| "memory_run s (r # rs) =
     (case isAllowed No_Redis (rq_now0 r) (rq_now0 r) (rq_now1 r) (rq_now2 r) s of
        (s1, ok) \<Rightarrow> ok # memory_run s1 rs)"

fun redis_run :: "rate_limiter \<Rightarrow> redis_store \<Rightarrow> rl_request list \<Rightarrow> bool list" where
  "redis_run s store [] = []"
| "redis_run s store (r # rs) =
     (case rate_limit_script (rq_nowScript r) (sec_key (rq_now0 r)) (avg_window_key (rq_now0 r)) 2 21
             (rl_burstLimit s) (rl_globalLimit s * 20) store of
        (store1, answer) \<Rightarrow>
          (case isAllowed (Answer answer) (rq_now0 r) (rq_now0 r) (rq_now1 r) (rq_now2 r) s of
             (s1, ok) \<Rightarrow> ok # redis_run s1 store1 rs))"

fun spec_run :: "int \<Rightarrow> int \<Rightarrow> rl_counts \<Rightarrow> rl_request list \<Rightarrow> bool list" where
  "spec_run burst window h [] = []"
| "spec_run burst window h (r # rs) =
     (case reserve_spec burst window (sec_key (rq_now0 r)) (avg_window_key (rq_now0 r)) h of
        (h1, ok) \<Rightarrow> ok # spec_run burst window h1 rs)"

lemma key_in_use:
  assumes "t0 \<le> t" "t < t0 + 1000"
  shows "in_use (sec_key t0) t" "in_use (avg_window_key t0) t"
  using assms by (auto simp: in_use_def key_end_def sec_key_def avg_window_key_def)

definition request_order :: "rl_request list \<Rightarrow> bool" where
  "request_order rs = ((\<forall>r\<in>set rs. prompt r) \<and> sorted_wrt earlier rs)"

lemma memory_run_spec:
  assumes "request_order rs" "represents_fallback t h (rl_fallback s)" "\<forall>r\<in>set rs. t \<le> rq_now0 r"
  shows "memory_run s rs = spec_run (rl_burstLimit s) (rl_globalLimit s * 20) h rs"
  using assms
proof (induction rs arbitrary: t h s)
  case (Cons r rs)
  let ?k1 = "sec_key (rq_now0 r)" and ?k2 = "avg_window_key (rq_now0 r)"
  let ?res = "reserveFallbackCapacity (rl_burstLimit s) (rl_globalLimit s) (rq_now1 r) (rq_now2 r) ?k1 ?k2 (rl_fallback s)"
  have r: "prompt r" using Cons.prems(1) by (simp add: request_order_def)
  have t: "t \<le> rq_now1 r" "rq_now1 r \<le> rq_now2 r" using Cons.prems(3) r by (auto simp: prompt_def)
  have live: "in_use ?k1 (rq_now1 r)" "in_use ?k2 (rq_now2 r)"
    using r by (auto simp: prompt_def intro!: key_in_use)
  note ref = fallback.reserve_refines [OF Cons.prems(2) t live, of "rl_burstLimit s" "rl_globalLimit s * 20"]
  have eq: "?res = fallback.reserve (rl_burstLimit s) (rl_globalLimit s * 20) (rq_now1 r) (rq_now2 r) ?k1 ?k2 (rl_fallback s)"
    unfolding sec_key_def avg_window_key_def by (rule reserve_fallback_eq)
  have "request_order rs" "\<forall>r'\<in>set rs. rq_now2 r \<le> rq_now0 r'"
    using Cons.prems(1) by (auto simp: request_order_def earlier_def)
  from Cons.IH [OF this(1) _ this(2), of "fst (reserve_spec (rl_burstLimit s) (rl_globalLimit s * 20) ?k1 ?k2 h)" "s\<lparr>rl_fallback := fst ?res\<rparr>"]
  show ?case
    using ref eq by (simp add: isAllowed_def fallback_decision_def Let_def case_prod_unfold del: reserve_spec.simps)
qed simp

lemma redis_run_spec:
  assumes "request_order rs" "represents_counts t h store" "\<forall>r\<in>set rs. t \<le> rq_now0 r"
  shows "redis_run s store rs = spec_run (rl_burstLimit s) (rl_globalLimit s * 20) h rs"
  using assms
proof (induction rs arbitrary: t h store)
  case (Cons r rs)
  let ?k1 = "sec_key (rq_now0 r)" and ?k2 = "avg_window_key (rq_now0 r)" and ?n = "rq_nowScript r"
  let ?res = "rate_limit_script ?n ?k1 ?k2 2 21 (rl_burstLimit s) (rl_globalLimit s * 20) store"
  have r: "prompt r" using Cons.prems(1) by (simp add: request_order_def)
  have t: "t \<le> ?n" using Cons.prems(3) r by (auto simp: prompt_def)
  have live: "in_use ?k1 ?n" "in_use ?k2 ?n" using r by (auto simp: prompt_def intro!: key_in_use)
  note ref = redis.reserve_refines [OF Cons.prems(2) t order_refl live, of "rl_burstLimit s" "rl_globalLimit s * 20"]
  note eq = script_eq [of ?n "rq_now0 r div 1000" "rq_now0 r div 1000 div 20" "rl_burstLimit s" "rl_globalLimit s * 20" store,
      folded sec_key_def avg_window_key_def]
  obtain store1 d rest where res: "?res = (store1, d # rest)"
    using eq(3) by (metis list.exhaust prod.collapse)
  have d: "d = (if snd (reserve_spec (rl_burstLimit s) (rl_globalLimit s * 20) ?k1 ?k2 h) then 1 else 0)"
    using eq(2) ref(2) res by simp
  have "request_order rs" "\<forall>r'\<in>set rs. ?n \<le> rq_now0 r'"
    using Cons.prems(1) by (auto simp: request_order_def earlier_def)
  from Cons.IH [OF this(1) _ this(2), of "fst (reserve_spec (rl_burstLimit s) (rl_globalLimit s * 20) ?k1 ?k2 h)" store1]
  show ?case
    using ref(1) eq(1) res d by (simp add: isAllowed_def case_prod_unfold del: reserve_spec.simps)
qed simp

lemma represents_start [simp]:
  "represents_counts t (\<lambda>_. 0) (\<lambda>_. None)" "represents_fallback t (\<lambda>_. 0) []"
  by (simp_all add: represents_counts_def represents_fallback_def)

definition new_rate_limiter :: "int \<Rightarrow> int \<Rightarrow> rate_limiter" where
  "new_rate_limiter globalLimit burstLimit =
     \<lparr>rl_globalLimit = globalLimit, rl_burstLimit = burstLimit, rl_fallback = [],
      rl_lastFallbackLogAtMs = 0, rl_warnings = []\<rparr>"

text \<open>How many requests of a second, or of a window, a run let through.\<close>

fun allowed_in :: "(rl_request \<Rightarrow> bool) \<Rightarrow> rl_request list \<Rightarrow> bool list \<Rightarrow> int" where
  "allowed_in P (r # rs) (ok # oks) = (if P r \<and> ok then 1 else 0) + allowed_in P rs oks"
| "allowed_in P _ _ = 0"

lemma key_kinds [simp]: "sec_key t \<noteq> avg_window_key t'" "avg_window_key t' \<noteq> sec_key t"
  by (simp_all add: sec_key_def avg_window_key_def)

lemma spec_run_second_bound:
  "allowed_in (\<lambda>r. sec_key (rq_now0 r) = sec_key t) rs (spec_run burst window h rs) \<le> max 0 (burst - h (sec_key t))"
proof (induction rs arbitrary: h)
  case (Cons r rs)
  let ?k1 = "sec_key (rq_now0 r)" and ?k2 = "avg_window_key (rq_now0 r)"
  show ?case
    using Cons.IH [of "h(?k1 := h ?k1 + 1)"] Cons.IH [of "h(?k1 := h ?k1 + 1, ?k2 := h ?k2 + 1)"]
    by (cases "sec_key t = sec_key (rq_now0 r)") (auto simp: Let_def case_prod_unfold fun_upd_def split: if_splits)
qed simp

lemma spec_run_window_bound:
  "allowed_in (\<lambda>r. avg_window_key (rq_now0 r) = avg_window_key t) rs (spec_run burst window h rs)
    \<le> max 0 (window - h (avg_window_key t))"
proof (induction rs arbitrary: h)
  case (Cons r rs)
  let ?k1 = "sec_key (rq_now0 r)" and ?k2 = "avg_window_key (rq_now0 r)"
  show ?case
    using Cons.IH [of "h(?k1 := h ?k1 + 1)"] Cons.IH [of "h(?k1 := h ?k1 + 1, ?k2 := h ?k2 + 1)"]
    by (cases "avg_window_key t = avg_window_key (rq_now0 r)") (auto simp: Let_def case_prod_unfold fun_upd_def split: if_splits)
qed simp

section \<open>Properties\<close>

text \<open>Five requests within two seconds, for the witnesses.\<close>

definition sample_requests :: "rl_request list" where
  "sample_requests =
     map (\<lambda>t. \<lparr>rq_now0 = t, rq_now1 = t + 1, rq_now2 = t + 2, rq_nowScript = t + 3\<rparr>) [5000, 5100, 5200, 6000, 6500]"

lemma sample_requests_order: "request_order sample_requests"
  by code_simp

text \<open>
  C18: The in-memory fallback and the Redis script decide alike: for the same ordered prompt
  requests, with each side reading its own clock, both runs answer the same, because both count
  what one plain counter per second and per window counts.
\<close>

theorem fallback_agrees_with_script:
  assumes "request_order rs"
  shows "memory_run (new_rate_limiter globalLimit burstLimit) rs =
      redis_run (new_rate_limiter globalLimit burstLimit) (\<lambda>_. None) rs \<and>
    memory_run (new_rate_limiter globalLimit burstLimit) rs =
      spec_run burstLimit (globalLimit * 20) (\<lambda>_. 0) rs"
proof -
  have "\<forall>r\<in>set rs. 0 \<le> rq_now0 r" using assms by (auto simp: request_order_def prompt_def)
  then show ?thesis
    using memory_run_spec [OF assms, of 0 "\<lambda>_. 0"] redis_run_spec [OF assms, of 0 "\<lambda>_. 0"]
    by (simp add: new_rate_limiter_def)
qed

theorem fallback_agrees_with_script_witness:
  "redis_run (new_rate_limiter 1 2) (\<lambda>_. None) sample_requests = [True, True, False, True, True]"
proof -
  have "memory_run (new_rate_limiter 1 2) sample_requests = [True, True, False, True, True]" by code_simp
  then show ?thesis using fallback_agrees_with_script [OF sample_requests_order, of 1 2] by simp
qed

text \<open>
  The limits hold: of any ordered prompt run, at most the burst limit of requests is let
  through in one second and at most twenty times the global limit in one window of twenty seconds.
\<close>

theorem rate_limits_hold:
  assumes "request_order rs"
  shows "allowed_in (\<lambda>r. rq_now0 r div 1000 = sec) rs (memory_run (new_rate_limiter globalLimit burstLimit) rs)
      \<le> max 0 burstLimit \<and>
    allowed_in (\<lambda>r. rq_now0 r div 20000 = window) rs (memory_run (new_rate_limiter globalLimit burstLimit) rs)
      \<le> max 0 (globalLimit * 20)"
proof -
  have start: "\<forall>r\<in>set rs. 0 \<le> rq_now0 r" using assms by (auto simp: request_order_def prompt_def)
  have run: "memory_run (new_rate_limiter globalLimit burstLimit) rs = spec_run burstLimit (globalLimit * 20) (\<lambda>_. 0) rs"
    using memory_run_spec [OF assms _ start, of "\<lambda>_. 0"] by (simp add: new_rate_limiter_def)
  have keys: "(\<lambda>r. rq_now0 r div 1000 = sec) = (\<lambda>r. sec_key (rq_now0 r) = sec_key (sec * 1000))"
    "(\<lambda>r. rq_now0 r div 20000 = window) = (\<lambda>r. avg_window_key (rq_now0 r) = avg_window_key (window * 20000))"
    by (simp_all add: sec_key_def avg_window_key_def zdiv_zmult2_eq [symmetric])
  have "allowed_in (\<lambda>r. rq_now0 r div 1000 = sec) rs (memory_run (new_rate_limiter globalLimit burstLimit) rs)
      \<le> max 0 burstLimit"
    unfolding run keys
    using spec_run_second_bound [of "sec * 1000" rs burstLimit "globalLimit * 20" "\<lambda>_. 0"] by simp
  moreover have "allowed_in (\<lambda>r. rq_now0 r div 20000 = window) rs (memory_run (new_rate_limiter globalLimit burstLimit) rs)
      \<le> max 0 (globalLimit * 20)"
    unfolding run keys
    using spec_run_window_bound [of "window * 20000" rs burstLimit "globalLimit * 20" "\<lambda>_. 0"] by simp
  ultimately show ?thesis by blast
qed

theorem rate_limits_hold_witness:
  "allowed_in (\<lambda>r. rq_now0 r div 1000 = 5) sample_requests (memory_run (new_rate_limiter 1 2) sample_requests) \<le> 2"
  using rate_limits_hold [OF sample_requests_order, of 5 1 2 0] by simp

text \<open>
  A failing Redis neither opens nor closes the gate by itself: after a failure, or an answer
  that is neither 0 nor 1, the decision and the counters are those of a service without Redis, and
  only the log differs, which warns at most once per ten seconds.
\<close>

theorem redis_failure_falls_back:
  "let memory = isAllowed No_Redis now0 nowLog now1 now2 s;
       answered = (case outcome of Answer (a # _) \<Rightarrow> a \<in> {0, 1} | _ \<Rightarrow> False);
       (s', ok) = isAllowed outcome now0 nowLog now1 now2 s
   in ok = (if answered then outcome \<in> range (\<lambda>rest. Answer (1 # rest)) else snd memory) \<and>
      rl_fallback s' = (if answered then rl_fallback s else rl_fallback (fst memory)) \<and>
      rl_warnings s' = rl_warnings s @
        (if answered \<or> outcome = No_Redis \<or> nowLog - rl_lastFallbackLogAtMs s < 10000 then [] else [nowLog])"
  by (cases outcome)
     (auto simp: isAllowed_def fallback_decision_def logRedisFallback_def Let_def case_prod_unfold split: list.splits)

end
