(* ===== verification/Worker_Shutdown.thy ===== *)
theory Worker_Shutdown
  imports Prelude
begin

text \<open>
  \<^verbatim>\<open>apps/api/src/runtime/runtime-worker-shutdown.ts\<close>: on a termination signal the
  queue workers are paused, closed and the application context torn down, under a grace deadline
  and a hard deadline.

  \<^item> The asynchronous handler is a step function: a step is a signal, the settling of a promise the
    handler waits for, or the passing of time, and each step runs the handler to its next wait.
  \<^item> A worker is a number.  A promise settles with \<open>True\<close> when it resolves and \<open>False\<close> when it
    rejects; a call that throws at once is a promise that rejects at once.
  \<^item> What the handler does to the outside is the list of its actions.  Log lines are left out.
  \<^item> \<^verbatim>\<open>exit\<close> and a delivered \<^verbatim>\<open>kill\<close> end the process: no step follows.
\<close>

section \<open>Options\<close>

datatype shutdown_error = Grace_Not_Positive | Hard_Timeout_Not_Above_Grace

definition RUNTIME_WORKER_SHUTDOWN_GRACE_MS :: int where "RUNTIME_WORKER_SHUTDOWN_GRACE_MS = 5000"
definition RUNTIME_SHUTDOWN_HARD_TIMEOUT_MS :: int where "RUNTIME_SHUTDOWN_HARD_TIMEOUT_MS = 9000"
definition MAX_SAFE_INTEGER :: int where "MAX_SAFE_INTEGER = 9007199254740991"

text \<open>An option is absent or a number; \<open>None\<close> inside is a number that is no integer.\<close>

definition is_safe :: "int option \<Rightarrow> bool" where
  "is_safe v = (case v of Some n \<Rightarrow> \<bar>n\<bar> \<le> MAX_SAFE_INTEGER | None \<Rightarrow> False)"

definition normalizeGraceMs :: "int option option \<Rightarrow> shutdown_error + int" where
  "normalizeGraceMs value =
     (case value of
        None \<Rightarrow> Inr RUNTIME_WORKER_SHUTDOWN_GRACE_MS
      | Some v \<Rightarrow> if \<not> is_safe v \<or> the v \<le> 0 then Inl Grace_Not_Positive else Inr (the v))"

definition normalizeHardTimeoutMs :: "int option option \<Rightarrow> int \<Rightarrow> shutdown_error + int" where
  "normalizeHardTimeoutMs value graceMs =
     (let timeoutMs = (case value of None \<Rightarrow> Some RUNTIME_SHUTDOWN_HARD_TIMEOUT_MS | Some v \<Rightarrow> v)
      in if \<not> is_safe timeoutMs \<or> the timeoutMs \<le> graceMs then Inl Hard_Timeout_Not_Above_Grace
         else Inr (the timeoutMs))"

section \<open>Finding the workers\<close>

text \<open>A provider may own workers, and may host a worker that exists or not yet.\<close>

record provider =
  pv_owned :: "nat list"
  pv_hosted :: "nat option"

fun discoverRegisteredRuntimeWorkers :: "provider list \<Rightarrow> nat list \<Rightarrow> nat list" where
  "discoverRegisteredRuntimeWorkers [] workers = workers"
| "discoverRegisteredRuntimeWorkers (p # ps) workers =
     (let owned = fold set_add (pv_owned p) workers;
          hosted = (case pv_hosted p of Some w \<Rightarrow> set_add w owned | None \<Rightarrow> owned)
      in discoverRegisteredRuntimeWorkers ps hosted)"

section \<open>State\<close>

type_synonym os_signal = nat

datatype shutdown_action =
    Act_Pause nat
  | Act_Close nat bool
  | Act_Context_Close os_signal
  | Act_Dispose
  | Act_Exit int
  | Act_Kill os_signal

datatype shutdown_phase = Idle | Pausing | Closing | Context_Closing | Ended

record shutdown =
  sd_graceMs :: int
  sd_hardTimeoutMs :: int
  sd_listening :: "os_signal list"
  sd_disposed :: bool
  sd_phase :: shutdown_phase
  sd_signal :: os_signal
  sd_workers :: "nat list"
  sd_pending :: "nat list"
  sd_failures :: nat
  sd_forced :: bool
  sd_graceDue :: int
  sd_hardDue :: int
  sd_actions :: "shutdown_action list"

definition installRuntimeWorkerShutdown ::
    "int option option \<Rightarrow> int option option \<Rightarrow> os_signal list \<Rightarrow> shutdown_error + shutdown" where
  "installRuntimeWorkerShutdown grace hard signals =
     (case normalizeGraceMs grace of
        Inl e \<Rightarrow> Inl e
      | Inr graceMs \<Rightarrow>
          (case normalizeHardTimeoutMs hard graceMs of
             Inl e \<Rightarrow> Inl e
           | Inr hardTimeoutMs \<Rightarrow>
               Inr \<lparr>sd_graceMs = graceMs, sd_hardTimeoutMs = hardTimeoutMs,
                    sd_listening = fold set_add signals [], sd_disposed = False, sd_phase = Idle,
                    sd_signal = 0, sd_workers = [], sd_pending = [], sd_failures = 0, sd_forced = False,
                    sd_graceDue = 0, sd_hardDue = 0, sd_actions = []\<rparr>))"

section \<open>The handler\<close>

definition act :: "shutdown_action list \<Rightarrow> shutdown \<Rightarrow> shutdown" where
  "act as s = s\<lparr>sd_actions := sd_actions s @ as\<rparr>"

definition dispose :: "shutdown \<Rightarrow> shutdown" where
  "dispose s =
     (if sd_disposed s then s else act [Act_Dispose] (s\<lparr>sd_disposed := True, sd_listening := []\<rparr>))"

definition exit_process :: "shutdown \<Rightarrow> shutdown" where
  "exit_process s = (act [Act_Exit 1] (dispose s))\<lparr>sd_phase := Ended\<rparr>"

text \<open>After the drain: close the context and wait for it.\<close>

definition close_context :: "shutdown \<Rightarrow> shutdown" where
  "close_context s = (act [Act_Context_Close (sd_signal s)] s)\<lparr>sd_phase := Context_Closing\<rparr>"

text \<open>After the race: close every worker and wait for all of them.\<close>

definition close_workers :: "bool \<Rightarrow> shutdown \<Rightarrow> shutdown" where
  "close_workers forced s =
     (act (map (\<lambda>w. Act_Close w forced) (sd_workers s)) s)
       \<lparr>sd_phase := Closing, sd_forced := forced, sd_pending := sd_workers s, sd_failures := 0\<rparr>"

definition drain_workers :: "int \<Rightarrow> nat list \<Rightarrow> shutdown \<Rightarrow> shutdown" where
  "drain_workers now workers s =
     (let unique = fold set_add workers []; s1 = s\<lparr>sd_workers := unique\<rparr> in
      if unique = [] then close_context s1
      else
        (act (map Act_Pause unique) s1)
          \<lparr>sd_phase := Pausing, sd_pending := unique, sd_failures := 0, sd_graceDue := now + sd_graceMs s\<rparr>)"

datatype shutdown_event =
    Signal os_signal int "provider list option"
  | Pause_Settled nat bool
  | Close_Settled nat bool
  | Context_Settled bool bool
  | Tick int

text \<open>
  \<open>Signal\<close> carries the time and what the discovery finds, \<open>None\<close> when it throws.
  \<open>Context_Settled\<close> carries whether the teardown resolved and whether the signal could be sent.
\<close>

fun shutdown_step :: "shutdown \<Rightarrow> shutdown_event \<Rightarrow> shutdown" where
  "shutdown_step s (Signal signal now found) =
     (if signal \<notin> set (sd_listening s) \<or> sd_phase s \<noteq> Idle then s
      else
        (let s1 = s\<lparr>sd_signal := signal, sd_hardDue := now + sd_hardTimeoutMs s\<rparr> in
         case found of
           None \<Rightarrow> exit_process s1
         | Some providers \<Rightarrow> drain_workers now (discoverRegisteredRuntimeWorkers providers []) s1))"
| "shutdown_step s (Pause_Settled w ok) =
     (if sd_phase s = Pausing \<and> w \<in> set (sd_pending s) then
        (let s1 = s\<lparr>sd_pending := removeAll w (sd_pending s),
                    sd_failures := sd_failures s + (if ok then 0 else 1)\<rparr>
         in if sd_pending s1 = [] then close_workers (sd_failures s1 > 0) s1 else s1)
      else s)"
| "shutdown_step s (Close_Settled w ok) =
     (if sd_phase s = Closing \<and> w \<in> set (sd_pending s) then
        (let s1 = s\<lparr>sd_pending := removeAll w (sd_pending s),
                    sd_failures := sd_failures s + (if ok then 0 else 1)\<rparr>
         in if sd_pending s1 = [] then close_context s1 else s1)
      else s)"
| "shutdown_step s (Context_Settled ok sent) =
     (if sd_phase s = Context_Closing then
        (if \<not> ok then exit_process s
         else
           (let s1 = act [Act_Kill (sd_signal s)] (dispose s)
            in if sent then s1\<lparr>sd_phase := Ended\<rparr> else exit_process s1))
      else s)"
| "shutdown_step s (Tick now) =
     (let s1 = (if sd_phase s = Pausing \<and> sd_graceDue s \<le> now then close_workers True s else s)
      in if sd_phase s1 \<in> {Pausing, Closing, Context_Closing} \<and> sd_hardDue s1 \<le> now then exit_process s1
         else s1)"

section \<open>The trace\<close>

text \<open>What the handler has done, read off its phase.\<close>

definition pauses :: "shutdown \<Rightarrow> shutdown_action list" where
  "pauses s = map Act_Pause (sd_workers s)"

definition closes :: "bool \<Rightarrow> shutdown \<Rightarrow> shutdown_action list" where
  "closes forced s = map (\<lambda>w. Act_Close w forced) (sd_workers s)"

definition endings :: "os_signal \<Rightarrow> shutdown_action list set" where
  "endings signal = {[Act_Dispose, Act_Exit 1], [Act_Dispose, Act_Kill signal], [Act_Dispose, Act_Kill signal, Act_Exit 1]}"

definition running_traces :: "shutdown \<Rightarrow> shutdown_action list set" where
  "running_traces s =
     {[], pauses s, pauses s @ closes (sd_forced s) s,
      pauses s @ closes (sd_forced s) s @ [Act_Context_Close (sd_signal s)]}"

definition shutdown_ok :: "shutdown \<Rightarrow> bool" where
  "shutdown_ok s =
     (0 < sd_graceMs s \<and> sd_graceMs s < sd_hardTimeoutMs s \<and> distinct (sd_workers s) \<and>
      set (sd_pending s) \<subseteq> set (sd_workers s) \<and>
      (sd_phase s \<noteq> Ended \<longrightarrow> \<not> sd_disposed s) \<and>
      (case sd_phase s of
         Idle \<Rightarrow> sd_actions s = [] \<and> sd_workers s = []
       | Pausing \<Rightarrow> sd_actions s = pauses s \<and> sd_pending s \<noteq> [] \<and> sd_graceDue s < sd_hardDue s
       | Closing \<Rightarrow> sd_actions s = pauses s @ closes (sd_forced s) s \<and> sd_pending s \<noteq> []
       | Context_Closing \<Rightarrow> sd_actions s = pauses s @ closes (sd_forced s) s @ [Act_Context_Close (sd_signal s)]
       | Ended \<Rightarrow> sd_disposed s \<and> sd_listening s = [] \<and>
           (\<exists>t\<in>running_traces s. \<exists>e\<in>endings (sd_signal s). sd_actions s = t @ e)))"

lemma discover_distinct: "distinct ws \<Longrightarrow> distinct (discoverRegisteredRuntimeWorkers ps ws)"
  by (induction ps arbitrary: ws) (auto simp: set_add_def Let_def split: option.splits)

lemmas trace_defs = pauses_def closes_def running_traces_def endings_def

text \<open>The handler's blocks, each from any state whose trace is one of the running ones.\<close>

definition running_ok :: "shutdown \<Rightarrow> bool" where
  "running_ok s =
     (0 < sd_graceMs s \<and> sd_graceMs s < sd_hardTimeoutMs s \<and> distinct (sd_workers s) \<and>
      set (sd_pending s) \<subseteq> set (sd_workers s) \<and> \<not> sd_disposed s)"

lemma exit_ok:
  "running_ok s \<Longrightarrow> sd_actions s \<in> running_traces s \<Longrightarrow> shutdown_ok (exit_process s)"
  by (auto simp: shutdown_ok_def running_ok_def exit_process_def dispose_def act_def trace_defs)

lemma close_context_ok:
  "running_ok s \<Longrightarrow> sd_actions s = pauses s @ closes (sd_forced s) s \<Longrightarrow> shutdown_ok (close_context s)"
  by (auto simp: shutdown_ok_def running_ok_def close_context_def act_def trace_defs)

lemma close_workers_ok:
  "running_ok s \<Longrightarrow> sd_actions s = pauses s \<Longrightarrow> sd_workers s \<noteq> [] \<Longrightarrow> shutdown_ok (close_workers f s)"
  by (auto simp: shutdown_ok_def running_ok_def close_workers_def act_def trace_defs)

lemma drain_workers_ok:
  assumes "running_ok s" "sd_actions s = []" "sd_hardDue s = now + sd_hardTimeoutMs s" "sd_workers s = []"
  shows "shutdown_ok (drain_workers now ws s)"
proof (cases "fold set_add ws [] = []")
  case True
  have "shutdown_ok (close_context (s\<lparr>sd_workers := []\<rparr>))"
    by (rule close_context_ok) (use assms in \<open>simp_all add: running_ok_def trace_defs\<close>)
  with True show ?thesis by (simp add: drain_workers_def)
next
  case False
  then show ?thesis
    using assms by (auto simp: drain_workers_def shutdown_ok_def running_ok_def act_def trace_defs Let_def)
qed

lemma running_okI: "shutdown_ok s \<Longrightarrow> sd_phase s \<noteq> Ended \<Longrightarrow> running_ok s"
  by (auto simp: shutdown_ok_def running_ok_def)

lemma trace_running: "shutdown_ok s \<Longrightarrow> sd_phase s \<noteq> Ended \<Longrightarrow> sd_actions s \<in> running_traces s"
  by (cases "sd_phase s") (auto simp: shutdown_ok_def running_traces_def)

lemma trace_cases:
  assumes "shutdown_ok s"
  shows "distinct (sd_workers s) \<and>
    (\<exists>t\<in>running_traces s.
       if sd_phase s = Ended then \<exists>e\<in>endings (sd_signal s). sd_actions s = t @ e else sd_actions s = t)"
proof (cases "sd_phase s = Ended")
  case True
  then show ?thesis using assms by (auto simp: shutdown_ok_def)
next
  case False
  then show ?thesis using trace_running [OF assms] assms by (auto simp: shutdown_ok_def)
qed

lemma tick_ok:
  assumes "shutdown_ok s"
  shows "shutdown_ok (shutdown_step s (Tick now))"
proof -
  let ?s = "if sd_phase s = Pausing \<and> sd_graceDue s \<le> now then close_workers True s else s"
  have ok: "shutdown_ok ?s"
  proof (cases "sd_phase s = Pausing \<and> sd_graceDue s \<le> now")
    case True
    then have "sd_actions s = pauses s" "sd_workers s \<noteq> []" using assms by (auto simp: shutdown_ok_def)
    then show ?thesis using True close_workers_ok [OF running_okI [OF assms]] by simp
  qed (use assms in auto)
  have "shutdown_ok (exit_process ?s)" if "sd_phase ?s \<noteq> Ended"
    by (rule exit_ok [OF running_okI [OF ok that] trace_running [OF ok that]])
  with ok show ?thesis by (auto simp: Let_def)
qed

lemma step_ok: "shutdown_ok s \<Longrightarrow> shutdown_ok (shutdown_step s e)"
proof (induction s e rule: shutdown_step.induct)
  case (1 s signal now found)
  let ?s = "s\<lparr>sd_signal := signal, sd_hardDue := now + sd_hardTimeoutMs s\<rparr>"
  show ?case
  proof (cases "signal \<notin> set (sd_listening s) \<or> sd_phase s \<noteq> Idle")
    case False
    then have run: "running_ok ?s" "sd_actions ?s = []" "sd_workers ?s = []"
      using 1 by (auto simp: shutdown_ok_def running_ok_def)
    have "shutdown_ok (exit_process ?s)" using exit_ok [OF run(1)] run(2) by (simp add: running_traces_def)
    moreover have "shutdown_ok (drain_workers now ws ?s)" for ws
      using drain_workers_ok [OF run(1,2) _ run(3)] by simp
    ultimately show ?thesis using False by (auto simp: Let_def split: option.splits)
  qed (use 1 in auto)
next
  case (2 s w ok)
  let ?s = "s\<lparr>sd_pending := removeAll w (sd_pending s), sd_failures := sd_failures s + (if ok then 0 else 1)\<rparr>"
  show ?case
  proof (cases "sd_phase s = Pausing \<and> w \<in> set (sd_pending s)")
    case True
    have "running_ok ?s" "sd_actions ?s = pauses ?s" "sd_workers ?s \<noteq> []"
      using True 2 by (auto simp: shutdown_ok_def running_ok_def trace_defs)
    then have closed: "shutdown_ok (close_workers f ?s)" for f by (rule close_workers_ok)
    have "shutdown_ok ?s" if "sd_pending ?s \<noteq> []"
      using True 2 that by (auto simp: shutdown_ok_def trace_defs)
    with True closed [of "0 < sd_failures ?s"] show ?thesis
      by (cases "sd_pending ?s = []") (auto simp: Let_def)
  qed (use 2 in auto)
next
  case (3 s w ok)
  let ?s = "s\<lparr>sd_pending := removeAll w (sd_pending s), sd_failures := sd_failures s + (if ok then 0 else 1)\<rparr>"
  show ?case
  proof (cases "sd_phase s = Closing \<and> w \<in> set (sd_pending s)")
    case True
    have "running_ok ?s" "sd_actions ?s = pauses ?s @ closes (sd_forced ?s) ?s"
      using True 3 by (auto simp: shutdown_ok_def running_ok_def trace_defs)
    then have "shutdown_ok (close_context ?s)" by (rule close_context_ok)
    moreover have "shutdown_ok ?s" if "sd_pending ?s \<noteq> []"
      using True 3 that by (auto simp: shutdown_ok_def trace_defs)
    ultimately show ?thesis using True by (cases "sd_pending ?s = []") (auto simp: Let_def)
  qed (use 3 in auto)
next
  case (4 s ok sent)
  show ?case
  proof (cases "sd_phase s = Context_Closing")
    case True
    then have "shutdown_ok (exit_process s)"
      using exit_ok [OF running_okI [OF 4] trace_running [OF 4]] by simp
    then show ?thesis
      using True 4 by (auto simp: shutdown_ok_def exit_process_def dispose_def act_def trace_defs Let_def)
  qed (use 4 in auto)
next
  case (5 s now)
  then show ?case by (rule tick_ok)
qed

interpretation shutdown: invariant_machine shutdown_ok "\<lambda>_ _. True" shutdown_step
  by unfold_locales (rule step_ok)

lemma installed_ok:
  "installRuntimeWorkerShutdown grace hard signals = Inr s \<Longrightarrow> shutdown_ok s \<and> sd_phase s = Idle"
  by (auto simp: installRuntimeWorkerShutdown_def normalizeGraceMs_def normalizeHardTimeoutMs_def shutdown_ok_def
      RUNTIME_WORKER_SHUTDOWN_GRACE_MS_def Let_def split: sum.splits option.splits if_splits)

text \<open>Once a signal was accepted the hard deadline stands until the process ends.\<close>

definition deadline_set :: "int \<Rightarrow> shutdown \<Rightarrow> bool" where
  "deadline_set due s = (sd_phase s \<noteq> Idle \<and> (sd_phase s \<noteq> Ended \<longrightarrow> sd_hardDue s = due))"

lemmas block_defs = exit_process_def dispose_def act_def close_context_def close_workers_def drain_workers_def

lemma deadline_step: "deadline_set due s \<Longrightarrow> deadline_set due (shutdown_step s e)"
  by (cases e) (auto simp: deadline_set_def block_defs Let_def)

lemma deadline_run: "deadline_set due s \<Longrightarrow> deadline_set due (foldl shutdown_step s es)"
  by (induction es arbitrary: s) (auto intro: deadline_step)

lemma deadline_ends:
  "deadline_set due s \<Longrightarrow> due \<le> now \<Longrightarrow> sd_phase (shutdown_step s (Tick now)) = Ended"
  by (cases "sd_phase s") (auto simp: deadline_set_def block_defs Let_def)

lemma signal_sets_deadline:
  "sd_phase s = Idle \<Longrightarrow> signal \<in> set (sd_listening s) \<Longrightarrow>
    deadline_set (now + sd_hardTimeoutMs s) (shutdown_step s (Signal signal now found))"
  by (auto simp: deadline_set_def block_defs Let_def split: option.splits)

lemma ended_stays: "sd_phase s = Ended \<Longrightarrow> foldl shutdown_step s es = s"
proof (induction es)
  case (Cons e es)
  then show ?case by (cases e) auto
qed simp

section \<open>A shutdown without incident\<close>

lemma settle_pauses:
  assumes "distinct ws" "sd_phase s = Pausing" "set ws = set (sd_pending s)" "ws \<noteq> []"
  shows "foldl shutdown_step s (map (\<lambda>w. Pause_Settled w (ok w)) ws) =
    close_workers (sd_failures s > 0 \<or> (\<exists>w\<in>set ws. \<not> ok w))
      (s\<lparr>sd_pending := [], sd_failures := sd_failures s + length (filter (\<lambda>w. \<not> ok w) ws)\<rparr>)"
  using assms
proof (induction ws arbitrary: s)
  case (Cons w ws)
  let ?s = "s\<lparr>sd_pending := removeAll w (sd_pending s), sd_failures := sd_failures s + (if ok w then 0 else 1)\<rparr>"
  have w: "w \<in> set (sd_pending s)" using Cons.prems(3) by auto
  have rest: "set ws = set (sd_pending ?s)" using Cons.prems(1,3) by auto
  show ?case
  proof (cases "ws = []")
    case True
    then have "set (removeAll w (sd_pending s)) = {}" using rest by auto
    then have eq: "removeAll w (sd_pending s) = []" by (simp only: set_empty)
    then have pend: "sd_pending ?s = []" by simp
    then have step: "shutdown_step s (Pause_Settled w (ok w)) = close_workers (sd_failures ?s > 0) ?s"
      unfolding shutdown_step.simps Let_def by (simp only: w Cons.prems(2) pend simp_thms if_True)
    have "?s = s\<lparr>sd_pending := [], sd_failures := sd_failures s + length (filter (\<lambda>w. \<not> ok w) [w])\<rparr>"
      by (simp add: eq)
    then show ?thesis
      unfolding True list.map foldl_Cons foldl_Nil step by simp
  next
    case False
    then have "sd_pending ?s \<noteq> []" using rest by (metis set_empty)
    then have step: "shutdown_step s (Pause_Settled w (ok w)) = ?s" using w Cons.prems(2) by (simp add: Let_def)
    have "distinct ws" "sd_phase ?s = Pausing" using Cons.prems(1,2) by simp_all
    note IH = Cons.IH [OF this rest False]
    show ?thesis
      unfolding list.map foldl_Cons step IH by (cases "ok w") simp_all
  qed
qed simp

lemma settle_closes:
  assumes "distinct ws" "sd_phase s = Closing" "set ws = set (sd_pending s)" "ws \<noteq> []"
  shows "foldl shutdown_step s (map (\<lambda>w. Close_Settled w (ok w)) ws) =
    close_context (s\<lparr>sd_pending := [], sd_failures := sd_failures s + length (filter (\<lambda>w. \<not> ok w) ws)\<rparr>)"
  using assms
proof (induction ws arbitrary: s)
  case (Cons w ws)
  let ?s = "s\<lparr>sd_pending := removeAll w (sd_pending s), sd_failures := sd_failures s + (if ok w then 0 else 1)\<rparr>"
  have w: "w \<in> set (sd_pending s)" using Cons.prems(3) by auto
  have rest: "set ws = set (sd_pending ?s)" using Cons.prems(1,3) by auto
  show ?case
  proof (cases "ws = []")
    case True
    then have "set (removeAll w (sd_pending s)) = {}" using rest by auto
    then have eq: "removeAll w (sd_pending s) = []" by (simp only: set_empty)
    then have pend: "sd_pending ?s = []" by simp
    then have step: "shutdown_step s (Close_Settled w (ok w)) = close_context ?s"
      unfolding shutdown_step.simps Let_def by (simp only: w Cons.prems(2) pend simp_thms if_True)
    have "?s = s\<lparr>sd_pending := [], sd_failures := sd_failures s + length (filter (\<lambda>w. \<not> ok w) [w])\<rparr>"
      by (simp add: eq)
    then show ?thesis
      unfolding True list.map foldl_Cons foldl_Nil step by simp
  next
    case False
    then have "sd_pending ?s \<noteq> []" using rest by (metis set_empty)
    then have step: "shutdown_step s (Close_Settled w (ok w)) = ?s" using w Cons.prems(2) by (simp add: Let_def)
    have "distinct ws" "sd_phase ?s = Closing" using Cons.prems(1,2) by simp_all
    note IH = Cons.IH [OF this rest False]
    show ?thesis
      unfolding list.map foldl_Cons step IH by (cases "ok w") simp_all
  qed
qed simp

section \<open>Properties\<close>

definition installed :: shutdown where
  "installed = projr (installRuntimeWorkerShutdown None None [15, 2, 15])"

definition two_providers :: "provider list" where
  "two_providers = [\<lparr>pv_owned = [7, 8], pv_hosted = Some 9\<rparr>, \<lparr>pv_owned = [8], pv_hosted = None\<rparr>]"

text \<open>
  C17: A shutdown always ends: after a listened signal at time \<open>now\<close>, whatever promises settle,
  signals repeat or time passes, the process has ended once the hard deadline is reached, even
  when a worker or the teardown never answers, and it stays as it is.
\<close>

theorem shutdown_ends_by_deadline:
  assumes "installRuntimeWorkerShutdown grace hard signals = Inr s" "signal \<in> set (sd_listening s)"
    and "now + sd_hardTimeoutMs s \<le> later"
  shows "let s' = foldl shutdown_step s (Signal signal now found # es @ [Tick later])
    in sd_phase s' = Ended \<and> foldl shutdown_step s' late = s'"
proof -
  have "sd_phase s = Idle" using installed_ok [OF assms(1)] by simp
  from deadline_ends [OF deadline_run [OF signal_sets_deadline [OF this assms(2)]] assms(3)]
  show ?thesis using ended_stays by (simp add: Let_def)
qed

theorem shutdown_ends_by_deadline_witness:
  "sd_phase (foldl shutdown_step installed
     [Signal 15 100 (Some two_providers), Pause_Settled 7 True, Tick 9100]) = Ended"
proof -
  have "installRuntimeWorkerShutdown None None [15, 2, 15] = Inr installed" "15 \<in> set (sd_listening installed)"
    "100 + sd_hardTimeoutMs installed \<le> 9100"
    by code_simp+
  from shutdown_ends_by_deadline [OF this, of "Some two_providers" "[Pause_Settled 7 True]"]
  show ?thesis by (simp add: Let_def del: shutdown_step.simps)
qed

text \<open>
  The teardown keeps its order in every run: all workers are paused before any is closed, every
  worker is closed exactly once and all alike before the context is closed, and the process ends
  exactly once, by exit code 1 or by sending itself the signal after its listeners are gone.
\<close>

theorem shutdown_order:
  assumes "installRuntimeWorkerShutdown grace hard signals = Inr s0"
  shows "let s = foldl shutdown_step s0 es in
    distinct (sd_workers s) \<and>
    (\<exists>t\<in>running_traces s.
       if sd_phase s = Ended then \<exists>e\<in>endings (sd_signal s). sd_actions s = t @ e else sd_actions s = t)"
proof -
  have "shutdown_ok (foldl shutdown_step s0 es)"
    using installed_ok [OF assms] shutdown.run_inv [of s0 es] by simp
  then show ?thesis using trace_cases by (simp add: Let_def)
qed

theorem shutdown_order_witness:
  "sd_actions (foldl shutdown_step installed [Signal 2 0 (Some two_providers), Tick 5000]) \<in>
     running_traces (foldl shutdown_step installed [Signal 2 0 (Some two_providers), Tick 5000])"
proof -
  have "installRuntimeWorkerShutdown None None [15, 2, 15] = Inr installed" by code_simp
  moreover have "sd_phase (foldl shutdown_step installed [Signal 2 0 (Some two_providers), Tick 5000]) \<noteq> Ended"
    by code_simp
  ultimately show ?thesis
    using shutdown_order [of None None "[15, 2, 15]" installed "[Signal 2 0 (Some two_providers), Tick 5000]"]
    by (simp add: Let_def del: shutdown_step.simps)
qed

text \<open>
  Without deadlines in the way, in whatever order the workers answer, every worker is paused,
  then every worker is closed, by force exactly when some pause failed, then the context is closed
  and the process takes the default action of the signal it received.
\<close>

theorem graceful_shutdown:
  assumes "installRuntimeWorkerShutdown grace hard signals = Inr s" "signal \<in> set (sd_listening s)"
    and "ws = discoverRegisteredRuntimeWorkers providers []" "ws \<noteq> []"
    and "distinct p" "set p = set ws" "distinct c" "set c = set ws"
  shows "sd_actions (foldl shutdown_step s
      (Signal signal now (Some providers) # map (\<lambda>w. Pause_Settled w (paused w)) p @
       map (\<lambda>w. Close_Settled w (closed w)) c @ [Context_Settled True True])) =
    map Act_Pause ws @ map (\<lambda>w. Act_Close w (\<exists>w\<in>set ws. \<not> paused w)) ws @
    [Act_Context_Close signal, Act_Dispose, Act_Kill signal]"
proof -
  have idle: "sd_phase s = Idle" "sd_actions s = []" "\<not> sd_disposed s"
    using installed_ok [OF assms(1)] by (auto simp: shutdown_ok_def)
  have distinct: "distinct ws" using discover_distinct [of "[]" providers] assms(3) by simp
  have nonempty: "p \<noteq> []" "c \<noteq> []" using assms(4,6,8) by auto
  let ?forced = "\<exists>w\<in>set ws. \<not> paused w"
  let ?s1 = "shutdown_step s (Signal signal now (Some providers))"
  have s1: "sd_phase ?s1 = Pausing" "sd_pending ?s1 = ws" "sd_workers ?s1 = ws" "sd_failures ?s1 = 0"
    "sd_actions ?s1 = map Act_Pause ws" "sd_signal ?s1 = signal" "\<not> sd_disposed ?s1"
    using idle assms(2,3,4) fold_set_add_distinct [of "[]" ws] distinct
    by (simp_all add: drain_workers_def act_def Let_def)
  let ?s2 = "foldl shutdown_step ?s1 (map (\<lambda>w. Pause_Settled w (paused w)) p)"
  have "?s2 = close_workers ?forced
      (?s1\<lparr>sd_pending := [], sd_failures := sd_failures ?s1 + length (filter (\<lambda>w. \<not> paused w) p)\<rparr>)"
    using settle_pauses [OF assms(5) s1(1) _ nonempty(1), of paused] s1(2,4) assms(6) by simp
  then have s2: "sd_phase ?s2 = Closing" "sd_pending ?s2 = ws" "sd_signal ?s2 = signal" "\<not> sd_disposed ?s2"
    "sd_actions ?s2 = map Act_Pause ws @ map (\<lambda>w. Act_Close w ?forced) ws"
    using s1 by (simp_all add: close_workers_def act_def del: shutdown_step.simps)
  let ?s3 = "foldl shutdown_step ?s2 (map (\<lambda>w. Close_Settled w (closed w)) c)"
  have "?s3 = close_context
      (?s2\<lparr>sd_pending := [], sd_failures := sd_failures ?s2 + length (filter (\<lambda>w. \<not> closed w) c)\<rparr>)"
    using settle_closes [OF assms(7) s2(1) _ nonempty(2), of closed] s2(2) assms(8) by simp
  then have "sd_phase ?s3 = Context_Closing" "sd_signal ?s3 = signal" "\<not> sd_disposed ?s3"
    "sd_actions ?s3 = map Act_Pause ws @ map (\<lambda>w. Act_Close w ?forced) ws @ [Act_Context_Close signal]"
    using s2 by (simp_all add: close_context_def act_def del: shutdown_step.simps)
  then show ?thesis by (simp add: dispose_def act_def Let_def del: shutdown_step.simps(1-3))
qed

theorem graceful_shutdown_witness:
  "last (sd_actions (foldl shutdown_step installed
      (Signal 15 0 (Some two_providers) # map (\<lambda>w. Pause_Settled w (w \<noteq> 8)) [9, 8, 7] @
       map (\<lambda>w. Close_Settled w True) [8, 7, 9] @ [Context_Settled True True]))) = Act_Kill 15"
proof -
  have "installRuntimeWorkerShutdown None None [15, 2, 15] = Inr installed" "15 \<in> set (sd_listening installed)"
    "[7, 8, 9] = discoverRegisteredRuntimeWorkers two_providers []"
    by code_simp+
  note full = graceful_shutdown [OF this, of "[9, 8, 7]" "[8, 7, 9]" 0 "\<lambda>w. w \<noteq> 8" "\<lambda>_. True"]
  have "set [9, 8, 7] = set [7, 8, 9 :: nat]" "set [8, 7, 9] = set [7, 8, 9 :: nat]" by auto
  with full show ?thesis by (simp del: shutdown_step.simps foldl_Cons)
qed

text \<open>
  Installing fails exactly on a grace that is no positive safe integer or a hard timeout that is
  no safe integer above the grace, with the error that names the option; otherwise nothing is
  done yet and the hard deadline lies above the grace.
\<close>

theorem install_validates_deadlines:
  "installRuntimeWorkerShutdown grace hard signals =
     (let g = (case grace of None \<Rightarrow> Some 5000 | Some v \<Rightarrow> v); h = (case hard of None \<Rightarrow> Some 9000 | Some v \<Rightarrow> v) in
      case g of
        None \<Rightarrow> Inl Grace_Not_Positive
      | Some gms \<Rightarrow>
          if gms \<le> 0 \<or> 2 ^ 53 \<le> gms then Inl Grace_Not_Positive
          else
            (case h of
               None \<Rightarrow> Inl Hard_Timeout_Not_Above_Grace
             | Some hms \<Rightarrow>
                 if hms \<le> gms \<or> 2 ^ 53 \<le> hms then Inl Hard_Timeout_Not_Above_Grace
                 else Inr (installed\<lparr>sd_graceMs := gms, sd_hardTimeoutMs := hms, sd_listening := fold set_add signals []\<rparr>)))"
  by (auto simp: installRuntimeWorkerShutdown_def installed_def normalizeGraceMs_def normalizeHardTimeoutMs_def is_safe_def
      RUNTIME_WORKER_SHUTDOWN_GRACE_MS_def RUNTIME_SHUTDOWN_HARD_TIMEOUT_MS_def MAX_SAFE_INTEGER_def Let_def
      split: option.splits)

end
