(* ===== verification/Action_Claim.thy ===== *)
theory Action_Claim
  imports Prelude
begin

text \<open>
  \<^verbatim>\<open>apps/api/src/moderation/moderation-message-action-claim.ts\<close>: before a message is
  acted on, a rule claims the message in a database table, so that workers which look at the same
  message at the same time act on it once.

  \<^item> The table is the list of its rows; the schema makes \<open>dedupeKey\<close> and a non-null
    \<open>messageActionKey\<close> unique, and an insert that would break either is skipped or fails.
  \<^item> The storage client is the code's optional methods: which of them exist is \<open>claim_model\<close>.
  \<^item> A statement may fail before it took effect or after, when only its response is lost.
  \<^item> \<open>sha256\<close>, of the runtime's library, is an argument of the key functions.
\<close>

section \<open>Rows\<close>

record claim_data =
  cd_dedupeKey :: js_string
  cd_messageActionKey :: "js_string option"
  cd_chatId :: js_string
  cd_userId :: js_string
  cd_messageId :: js_string
  cd_ruleCode :: js_string
  cd_updateType :: js_string

type_synonym claim_table = "claim_data list"

definition conflicts :: "claim_data \<Rightarrow> claim_data \<Rightarrow> bool" where
  "conflicts d r =
     (cd_dedupeKey r = cd_dedupeKey d \<or>
      (cd_messageActionKey d \<noteq> None \<and> cd_messageActionKey r = cd_messageActionKey d))"

definition unique_rows :: "claim_table \<Rightarrow> bool" where
  "unique_rows t = sorted_wrt (\<lambda>a b. \<not> conflicts a b) t"

definition find_action :: "js_string option \<Rightarrow> claim_table \<Rightarrow> claim_data option" where
  "find_action k t = List.find (\<lambda>r. cd_messageActionKey r = k \<and> k \<noteq> None) t"

definition isOwnedModerationMessageActionClaim :: "claim_data \<Rightarrow> claim_data \<Rightarrow> bool" where
  "isOwnedModerationMessageActionClaim existing expected =
     (cd_dedupeKey existing = cd_dedupeKey expected \<and>
      cd_messageActionKey existing = cd_messageActionKey expected \<and>
      cd_chatId existing = cd_chatId expected \<and> cd_userId existing = cd_userId expected \<and>
      cd_messageId existing = cd_messageId expected \<and> cd_ruleCode existing = cd_ruleCode expected \<and>
      cd_updateType existing = cd_updateType expected)"

section \<open>Keys\<close>

definition MESSAGE_ACTION :: js_string where "MESSAGE_ACTION = ascii ''message_action''"

text \<open>\<^verbatim>\<open>JSON.stringify\<close> of a string, quoted and escaped.\<close>

definition hex_digit :: "nat \<Rightarrow> 16 word" where
  "hex_digit n = (if n < 10 then word_of_nat (48 + n) else word_of_nat (87 + n))"

definition unicode_escape :: "16 word \<Rightarrow> js_string" where
  "unicode_escape c =
     [0x5C, 0x75, hex_digit (unat c div 4096), hex_digit (unat c div 256 mod 16),
      hex_digit (unat c div 16 mod 16), hex_digit (unat c mod 16)]"

definition is_high :: "16 word \<Rightarrow> bool" where "is_high c = (0xD800 \<le> c \<and> c \<le> 0xDBFF)"
definition is_low :: "16 word \<Rightarrow> bool" where "is_low c = (0xDC00 \<le> c \<and> c \<le> 0xDFFF)"

definition json_unit :: "16 word \<Rightarrow> js_string" where
  "json_unit c =
     (if c = 0x22 then [0x5C, 0x22] else if c = 0x5C then [0x5C, 0x5C]
      else if c = 8 then [0x5C, 0x62] else if c = 9 then [0x5C, 0x74] else if c = 10 then [0x5C, 0x6E]
      else if c = 12 then [0x5C, 0x66] else if c = 13 then [0x5C, 0x72]
      else if c < 0x20 then unicode_escape c else [c])"

fun json_units :: "js_string \<Rightarrow> js_string" where
  "json_units (h # l # cs) =
     (if is_high h \<and> is_low l then h # l # json_units cs
      else if is_high h \<or> is_low h then unicode_escape h @ json_units (l # cs)
      else json_unit h @ json_units (l # cs))"
| "json_units [c] = (if is_high c \<or> is_low c then unicode_escape c else json_unit c)"
| "json_units [] = []"

definition json_string :: "js_string \<Rightarrow> js_string" where
  "json_string s = [0x22] @ json_units s @ [0x22]"

definition action_claim_text :: "js_string \<Rightarrow> js_string \<Rightarrow> js_string" where
  "action_claim_text chatId messageId = [0x5B] @ json_string chatId @ [0x2C] @ json_string messageId @ [0x5D]"

definition buildMessageScopedModerationActionClaimKey :: "(js_string \<Rightarrow> js_string) \<Rightarrow> js_string \<Rightarrow> js_string \<Rightarrow> js_string" where
  "buildMessageScopedModerationActionClaimKey sha256 chatId messageId =
     ascii ''v1:'' @ sha256 (action_claim_text chatId messageId)"

record violation_key =
  vk_dedupeKey :: js_string
  vk_counterKey :: js_string
  vk_memberKey :: js_string

definition buildModerationMessageViolationProcessingClaimKey ::
    "(js_string \<Rightarrow> js_string) \<Rightarrow> js_string \<Rightarrow> js_string \<Rightarrow> js_string \<Rightarrow> js_string \<Rightarrow> js_string \<Rightarrow> violation_key" where
  "buildModerationMessageViolationProcessingClaimKey sha256 chatId userId messageId ruleCode updateType =
     (let colon = ascii '':'';
          semanticHash = sha256 (chatId @ colon @ userId @ colon @ messageId @ colon @ ruleCode @ colon @ updateType);
          counterKey = ascii ''moderation:violation-message:v1:'' @ chatId @ colon @ ruleCode
      in \<lparr>vk_dedupeKey = ascii ''v1:'' @ semanticHash, vk_counterKey = counterKey,
          vk_memberKey = counterKey @ ascii '':msg:'' @ take 32 semanticHash\<rparr>)"

section \<open>Statements\<close>

record claim_model =
  cm_createMany :: bool
  cm_create :: bool
  cm_findUnique :: bool

text \<open>How a statement fares: it works, it fails, or it takes effect and its response is lost.\<close>

datatype statement_fate = Works | Fails | Response_Lost

datatype claim_error = Unique_Violation | Storage_Failure | Unsupported | Not_Reconciled

definition insert_row :: "claim_data \<Rightarrow> claim_table \<Rightarrow> claim_table" where
  "insert_row d t = (if \<exists>r\<in>set t. conflicts d r then t else t @ [d])"

definition create_many :: "statement_fate \<Rightarrow> claim_data \<Rightarrow> claim_table \<Rightarrow> claim_table \<times> (claim_error + nat)" where
  "create_many fate d t =
     (case fate of
        Works \<Rightarrow> (insert_row d t, Inr (if \<exists>r\<in>set t. conflicts d r then 0 else 1))
      | Fails \<Rightarrow> (t, Inl Storage_Failure)
      | Response_Lost \<Rightarrow> (insert_row d t, Inl Storage_Failure))"

definition create_row :: "statement_fate \<Rightarrow> claim_data \<Rightarrow> claim_table \<Rightarrow> claim_table \<times> (claim_error + unit)" where
  "create_row fate d t =
     (case fate of
        Works \<Rightarrow> (insert_row d t, if \<exists>r\<in>set t. conflicts d r then Inl Unique_Violation else Inr ())
      | Fails \<Rightarrow> (t, Inl Storage_Failure)
      | Response_Lost \<Rightarrow> (insert_row d t, Inl Storage_Failure))"

section \<open>Claiming a message action\<close>

datatype claim_result = Claimed | Resumed | Blocked

text \<open>
  Between its two statements a claim waits, and other claims may run.  The first part either
  settles the claim or leaves it to be reconciled, with the error of the insert if there was one.
\<close>

datatype claim_progress = Settled "claim_error + claim_result" | Reconcile "claim_error option"

definition claim_insert ::
    "claim_model \<Rightarrow> bool \<Rightarrow> bool \<Rightarrow> statement_fate \<Rightarrow> claim_data \<Rightarrow> claim_table \<Rightarrow> claim_table \<times> claim_progress" where
  "claim_insert model resumeKnownOwner inTransaction fate data t =
     (let (t1, outcome) =
        (if cm_createMany model then
           (case create_many fate data t of
              (t1, Inr n) \<Rightarrow>
                (t1, if n > 0 then Inr (Settled (Inr Claimed))
                     else if \<not> resumeKnownOwner then Inr (Settled (Inr Blocked))
                     else Inr (Reconcile None))
            | (t1, Inl e) \<Rightarrow> (t1, Inl e))
         else if cm_create model then
           (case create_row fate data t of
              (t1, Inr u) \<Rightarrow> (t1, Inr (Settled (Inr Claimed)))
            | (t1, Inl e) \<Rightarrow> (t1, Inl e))
         else (t, Inl Unsupported))
      in (t1, case outcome of
                Inr p \<Rightarrow> p
              | Inl e \<Rightarrow> if inTransaction then Settled (Inl e) else Reconcile (Some e)))"

definition claim_reconcile ::
    "claim_model \<Rightarrow> bool \<Rightarrow> claim_error option \<Rightarrow> statement_fate \<Rightarrow> claim_data \<Rightarrow> claim_table \<Rightarrow> claim_error + claim_result" where
  "claim_reconcile model resumeKnownOwner createError fate data t =
     (let unreconciled = (case createError of Some e \<Rightarrow> Inl e | None \<Rightarrow> Inl Not_Reconciled) in
      if \<not> cm_findUnique model then unreconciled
      else if fate \<noteq> Works then Inl Storage_Failure
      else
        (case find_action (cd_messageActionKey data) t of
           None \<Rightarrow>
             if createError = None \<and> cm_createMany model then Inr Blocked else unreconciled
         | Some existing \<Rightarrow>
             if \<not> isOwnedModerationMessageActionClaim existing data then Inr Blocked
             else Inr (if resumeKnownOwner then Resumed else Blocked)))"

definition claimDurableModerationMessageAction ::
    "claim_model \<Rightarrow> bool \<Rightarrow> bool \<Rightarrow> statement_fate \<Rightarrow> statement_fate \<Rightarrow> claim_data \<Rightarrow> claim_table \<Rightarrow>
     claim_table \<times> (claim_error + claim_result)" where
  "claimDurableModerationMessageAction model resumeKnownOwner inTransaction fate1 fate2 data t =
     (case claim_insert model resumeKnownOwner inTransaction fate1 data t of
        (t1, Settled r) \<Rightarrow> (t1, r)
      | (t1, Reconcile e) \<Rightarrow> (t1, claim_reconcile model resumeKnownOwner e fate2 data t1))"

section \<open>Claiming a violation\<close>

datatype persisted_result = P_Claimed | P_Resumed | P_Duplicate | P_Unavailable | P_Unsupported

text \<open>The key field of the row is computed here, so the one passed in is ignored.\<close>

definition claimPersistedModerationMessageViolation ::
    "(js_string \<Rightarrow> js_string) \<Rightarrow> claim_model option \<Rightarrow> bool \<Rightarrow> statement_fate \<Rightarrow> statement_fate \<Rightarrow> claim_data \<Rightarrow>
     claim_table \<Rightarrow> claim_table \<times> (claim_error + persisted_result)" where
  "claimPersistedModerationMessageViolation sha256 model resumeKnownActionOwner fate1 fate2 d t =
     (case model of
        None \<Rightarrow> (t, Inr P_Unsupported)
      | Some m \<Rightarrow>
          if \<not> cm_create m \<and> \<not> cm_createMany m then (t, Inr P_Unsupported)
          else if cd_updateType d = MESSAGE_ACTION then
            (let data = d\<lparr>cd_messageActionKey :=
                   Some (buildMessageScopedModerationActionClaimKey sha256 (cd_chatId d) (cd_messageId d))\<rparr>;
                 (t1, r) = claimDurableModerationMessageAction m resumeKnownActionOwner False fate1 fate2 data t
             in (t1, case r of
                       Inl e \<Rightarrow> Inl e
                     | Inr Blocked \<Rightarrow> Inr P_Duplicate
                     | Inr Resumed \<Rightarrow> Inr (if resumeKnownActionOwner then P_Resumed else P_Claimed)
                     | Inr Claimed \<Rightarrow> Inr P_Claimed))
          else
            (let data = d\<lparr>cd_messageActionKey := None\<rparr> in
             if cm_createMany m then
               (case create_many fate1 data t of
                  (t1, Inr n) \<Rightarrow> (t1, Inr (if n > 0 then P_Claimed else P_Duplicate))
                | (t1, Inl e) \<Rightarrow> (t1, Inr (if e = Unique_Violation then P_Duplicate else P_Unavailable)))
             else
               (case create_row fate1 data t of
                  (t1, Inr u) \<Rightarrow> (t1, Inr P_Claimed)
                | (t1, Inl e) \<Rightarrow> (t1, Inr (if e = Unique_Violation then P_Duplicate else P_Unavailable)))))"

text \<open>The duplicate rule's use of it; \<open>hasLegacyEvent\<close> is asked only when storage is unsupported.\<close>

definition resolveDuplicateMessageActionClaim ::
    "(js_string \<Rightarrow> js_string) \<Rightarrow> claim_model option \<Rightarrow> statement_fate \<Rightarrow> statement_fate \<Rightarrow> bool \<Rightarrow>
     js_string \<Rightarrow> js_string \<Rightarrow> js_string \<Rightarrow> js_string \<Rightarrow> claim_table \<Rightarrow> claim_table \<times> (claim_error + claim_result)" where
  "resolveDuplicateMessageActionClaim sha256 model fate1 fate2 hasLegacyEvent chatId userId messageId ruleCode t =
     (let claimKey = buildModerationMessageViolationProcessingClaimKey sha256 chatId userId messageId ruleCode MESSAGE_ACTION;
          d = \<lparr>cd_dedupeKey = vk_dedupeKey claimKey, cd_messageActionKey = None, cd_chatId = chatId, cd_userId = userId,
               cd_messageId = messageId, cd_ruleCode = ruleCode, cd_updateType = MESSAGE_ACTION\<rparr>;
          (t1, r) = claimPersistedModerationMessageViolation sha256 model True fate1 fate2 d t
      in (t1, case r of
                Inl e \<Rightarrow> Inl e
              | Inr P_Claimed \<Rightarrow> Inr Claimed
              | Inr P_Resumed \<Rightarrow> Inr Resumed
              | Inr P_Unsupported \<Rightarrow> Inr (if hasLegacyEvent then Blocked else Claimed)
              | _ \<Rightarrow> Inr Blocked))"

section \<open>Terminal sanctions\<close>

datatype sanction_action = Warn | Mute | Ban | Other_Action

record sanction_event =
  se_chatId :: js_string
  se_userId :: js_string
  se_messageId :: js_string
  se_ruleCode :: js_string
  se_byBot :: bool
  se_action :: sanction_action

text \<open>\<open>None\<close> stands for a storage without the lookup, which throws.\<close>

definition hasPersistedTerminalDuplicateSanction ::
    "sanction_event list option \<Rightarrow> js_string \<Rightarrow> js_string \<Rightarrow> js_string \<Rightarrow> claim_error + bool" where
  "hasPersistedTerminalDuplicateSanction model chatId userId messageId =
     (case model of
        None \<Rightarrow> Inl Unsupported
      | Some events \<Rightarrow>
          Inr (\<exists>e\<in>set events.
            se_chatId e = chatId \<and> se_userId e = userId \<and> se_messageId e = messageId \<and>
            se_ruleCode e \<in> set (map ascii [''DUPLICATE_WARN'', ''DUPLICATE_MUTE'', ''DUPLICATE_BAN'']) \<and>
            se_byBot e \<and> se_action e \<in> {Warn, Mute, Ban}))"

section \<open>The text behind a key is unambiguous\<close>

text \<open>A reader of quoted strings, to show that nothing is lost.\<close>

definition hex_value :: "16 word \<Rightarrow> nat" where
  "hex_value c = (if unat c < 58 then unat c - 48 else unat c - 87)"

fun json_read :: "js_string \<Rightarrow> (js_string \<times> js_string) option" where
  "json_read [] = None"
| "json_read (c # cs) =
     (if c = 0x22 then Some ([], cs)
      else if c = 0x5C then
        (case cs of
           [] \<Rightarrow> None
         | e # rest \<Rightarrow>
             if e = 0x75 then
               (case rest of
                  a # b # x # y # rest' \<Rightarrow>
                    map_option (\<lambda>(s, r). (word_of_nat (hex_value a * 4096 + hex_value b * 256 + hex_value x * 16 + hex_value y) # s, r))
                      (json_read rest')
                | _ \<Rightarrow> None)
             else
               map_option (\<lambda>(s, r).
                 ((if e = 0x62 then 8 else if e = 0x74 then 9 else if e = 0x6E then 10 else if e = 0x66 then 12
                   else if e = 0x72 then 13 else e) # s, r))
                 (json_read rest))
      else map_option (\<lambda>(s, r). (c # s, r)) (json_read cs))"

lemma hex_value_digit: "n < 16 \<Longrightarrow> hex_value (hex_digit n) = n"
proof -
  have "list_all (\<lambda>n. hex_value (hex_digit n) = n) [0..<16]" by code_simp
  then show "n < 16 \<Longrightarrow> hex_value (hex_digit n) = n" by (simp add: list_all_iff)
qed

lemma hex_digits: "(n :: nat) < 65536 \<Longrightarrow>
    n div 4096 * 4096 + n div 256 mod 16 * 256 + n div 16 mod 16 * 16 + n mod 16 = n"
  using mod_mult2_eq [of n 256 16] mod_mult2_eq [of n 16 16] div_mult_mod_eq [of n 4096] by simp

lemma read_escape:
  "json_read (unicode_escape c @ cs) = map_option (\<lambda>(s, r). (c # s, r)) (json_read cs)"
proof -
  have n: "unat c < 65536" using unsigned_less [of c] by simp
  have "hex_value (hex_digit (unat c div 4096)) * 4096 + hex_value (hex_digit (unat c div 256 mod 16)) * 256 +
      hex_value (hex_digit (unat c div 16 mod 16)) * 16 + hex_value (hex_digit (unat c mod 16)) = unat c"
    using n hex_digits [OF n] by (simp add: hex_value_digit)
  then show ?thesis
    by (simp add: unicode_escape_def del: of_nat_add of_nat_mult)
qed

lemma read_unit: "json_read (json_unit c @ cs) = map_option (\<lambda>(s, r). (c # s, r)) (json_read cs)"
  by (auto simp: json_unit_def read_escape)

lemma read_plain: "c \<noteq> 0x22 \<Longrightarrow> c \<noteq> 0x5C \<Longrightarrow> json_read (c # cs) = map_option (\<lambda>(s, r). (c # s, r)) (json_read cs)"
  by simp

lemma surrogate_plain: "is_high c \<or> is_low c \<Longrightarrow> c \<noteq> 0x22 \<and> c \<noteq> 0x5C"
  by (auto simp: is_high_def is_low_def)

lemma read_units: "json_read (json_units s @ 0x22 # rest) = Some (s, rest)"
proof (induction s rule: json_units.induct)
  case (1 h l cs)
  show ?case
  proof (cases "is_high h \<and> is_low l")
    case True
    then show ?thesis
      using 1(1) surrogate_plain [of h] surrogate_plain [of l] by (simp add: read_plain del: json_read.simps(2))
  next
    case False
    then show ?thesis
      using 1(2,3) by (auto simp: read_escape read_unit simp del: json_read.simps(2))
  qed
next
  case (2 c)
  then show ?case by (simp add: read_escape read_unit del: json_read.simps(2)) simp
qed simp

section \<open>Concurrent claims\<close>

text \<open>
  A claim in flight and the steps of several of them: each step runs one statement of one claim
  against the shared table.  No step removes a row.
\<close>

record claim_process =
  cp_model :: claim_model
  cp_resume :: bool
  cp_inTransaction :: bool
  cp_data :: claim_data
  cp_progress :: "claim_progress option"

type_synonym claim_system = "claim_table \<times> claim_process list"

inductive claim_step :: "claim_system \<Rightarrow> claim_system \<Rightarrow> bool" where
  insert: "i < length ps \<Longrightarrow> ps ! i = p \<Longrightarrow> cp_progress p = None \<Longrightarrow>
    claim_insert (cp_model p) (cp_resume p) (cp_inTransaction p) fate (cp_data p) t = (t', progress) \<Longrightarrow>
    claim_step (t, ps) (t', ps[i := p\<lparr>cp_progress := Some progress\<rparr>])"
| reconcile: "i < length ps \<Longrightarrow> ps ! i = p \<Longrightarrow> cp_progress p = Some (Reconcile e) \<Longrightarrow>
    claim_reconcile (cp_model p) (cp_resume p) e fate (cp_data p) t = r \<Longrightarrow>
    claim_step (t, ps) (t, ps[i := p\<lparr>cp_progress := Some (Settled r)\<rparr>])"

inductive_cases claim_stepE: "claim_step s s'"

definition holds_claim :: "claim_process \<Rightarrow> bool" where
  "holds_claim p = (cp_progress p \<in> {Some (Settled (Inr Claimed)), Some (Settled (Inr Resumed))})"

definition owner_row :: "claim_data \<Rightarrow> claim_table \<Rightarrow> bool" where
  "owner_row d t = (\<exists>r\<in>set t. isOwnedModerationMessageActionClaim r d)"

definition claims_ok :: "claim_system \<Rightarrow> bool" where
  "claims_ok s =
     (unique_rows (fst s) \<and>
      (\<forall>p\<in>set (snd s). cd_messageActionKey (cp_data p) \<noteq> None \<and> (holds_claim p \<longrightarrow> owner_row (cp_data p) (fst s))) \<and>
      (\<forall>i<length (snd s). \<forall>j<i.
         cp_progress (snd s ! i) = Some (Settled (Inr Claimed)) \<and> cp_progress (snd s ! j) = Some (Settled (Inr Claimed)) \<longrightarrow>
         cd_messageActionKey (cp_data (snd s ! i)) \<noteq> cd_messageActionKey (cp_data (snd s ! j))))"

lemma insert_row_unique: "unique_rows t \<Longrightarrow> unique_rows (insert_row d t)"
  by (auto simp: unique_rows_def insert_row_def sorted_wrt_append conflicts_def)

lemma insert_row_mono: "set t \<subseteq> set (insert_row d t)"
  by (auto simp: insert_row_def)

lemma owned_self [simp]: "isOwnedModerationMessageActionClaim d d"
  by (simp add: isOwnedModerationMessageActionClaim_def)

lemma claim_insert_table:
  "claim_insert m res tx fate d t = (t', progress) \<Longrightarrow> t' = t \<or> t' = insert_row d t"
  by (auto simp: claim_insert_def create_many_def create_row_def Let_def split: statement_fate.splits if_splits)

lemma claim_insert_result:
  assumes "claim_insert m res tx fate d t = (t', progress)"
  shows "progress \<noteq> Settled (Inr Resumed)"
    and "progress = Settled (Inr Claimed) \<Longrightarrow> (\<forall>r\<in>set t. \<not> conflicts d r) \<and> t' = t @ [d]"
    and "progress = Settled (Inr Blocked) \<Longrightarrow> (\<exists>r\<in>set t. conflicts d r) \<and> t' = t"
    and "progress = Reconcile None \<Longrightarrow> cm_createMany m \<and> (\<exists>r\<in>set t. conflicts d r) \<and> t' = t"
  using assms
  by (auto simp: claim_insert_def create_many_def create_row_def insert_row_def Let_def
      split: statement_fate.splits if_splits)

lemma find_action_Some:
  "find_action k t = Some r \<Longrightarrow> r \<in> set t \<and> cd_messageActionKey r = k \<and> k \<noteq> None"
  by (auto simp: find_action_def find_Some_iff)

lemma claim_reconcile_result:
  assumes "claim_reconcile m res e fate d t = r"
  shows "r \<noteq> Inr Claimed"
    and "r = Inr Resumed \<Longrightarrow> res \<and> owner_row d t"
    and "r = Inr Blocked \<Longrightarrow> (\<exists>r\<in>set t. conflicts d r) \<or> (e = None \<and> cm_createMany m)"
  using assms
  by (auto simp: claim_reconcile_def owner_row_def conflicts_def Let_def
      split: option.splits if_splits dest!: find_action_Some)

lemma unique_rows_key:
  assumes "unique_rows t" "a \<in> set t" "b \<in> set t" "cd_messageActionKey a = cd_messageActionKey b" "cd_messageActionKey a \<noteq> None"
  shows "a = b"
  using assms
proof (induction t)
  case (Cons x t)
  then show ?case by (auto simp: unique_rows_def conflicts_def)
qed simp

lemma owner_row_mono: "owner_row d t \<Longrightarrow> set t \<subseteq> set t' \<Longrightarrow> owner_row d t'"
  by (auto simp: owner_row_def)

lemma owner_row_key:
  "owner_row d t \<Longrightarrow> \<exists>r\<in>set t. cd_messageActionKey r = cd_messageActionKey d"
  by (auto simp: owner_row_def isOwnedModerationMessageActionClaim_def)

lemma claims_ok_step: "claim_step s s' \<Longrightarrow> claims_ok s \<Longrightarrow> claims_ok s'"
proof (induction rule: claim_step.induct)
  case (insert i ps p fate t t' progress)
  note res = claim_insert_result [OF insert.hyps(4)]
  let ?p = "p\<lparr>cp_progress := Some progress\<rparr>" and ?ps = "ps[i := p\<lparr>cp_progress := Some progress\<rparr>]"
  have mem: "p \<in> set ps" using insert.hyps(1,2) by auto
  have mono: "set t \<subseteq> set t'" using claim_insert_table [OF insert.hyps(4)] insert_row_mono by auto
  have unique: "unique_rows t'"
    using claim_insert_table [OF insert.hyps(4)] insert_row_unique insert.prems by (auto simp: claims_ok_def)
  have rows: "cd_messageActionKey (cp_data q) \<noteq> None \<and> (holds_claim q \<longrightarrow> owner_row (cp_data q) t')" if "q \<in> set ?ps" for q
  proof -
    from that consider "q \<in> set ps" | "q = ?p" by (auto dest: set_update_subset_insert [THEN subsetD])
    then show ?thesis
    proof cases
      case 1
      then show ?thesis using insert.prems owner_row_mono [OF _ mono] by (auto simp: claims_ok_def)
    next
      case 2
      then show ?thesis
        using insert.prems mem res(1,2) by (auto simp: claims_ok_def holds_claim_def owner_row_def)
    qed
  qed
  have fresh: "cd_messageActionKey (cp_data p) \<noteq> cd_messageActionKey (cp_data q)"
    if "progress = Settled (Inr Claimed)" "q \<in> set ps" "cp_progress q = Some (Settled (Inr Claimed))" for q
  proof -
    have "owner_row (cp_data q) t" using insert.prems that by (auto simp: claims_ok_def holds_claim_def)
    then obtain r where "r \<in> set t" "cd_messageActionKey r = cd_messageActionKey (cp_data q)"
      using owner_row_key by blast
    moreover have "cd_messageActionKey (cp_data p) \<noteq> None"
      using insert.prems mem by (auto simp: claims_ok_def)
    moreover have "\<forall>r\<in>set t. \<not> conflicts (cp_data p) r" using res(2) [OF that(1)] by simp
    ultimately show ?thesis by (auto simp: conflicts_def)
  qed
  have "cd_messageActionKey (cp_data (?ps ! a)) \<noteq> cd_messageActionKey (cp_data (?ps ! b))"
    if "a < length ps" "b < a" "cp_progress (?ps ! a) = Some (Settled (Inr Claimed))"
      "cp_progress (?ps ! b) = Some (Settled (Inr Claimed))" for a b
  proof -
    consider "a = i" | "b = i" "a \<noteq> i" | "a \<noteq> i" "b \<noteq> i" by auto
    then show ?thesis
    proof cases
      case 1
      then show ?thesis using that fresh [of "ps ! b"] insert.hyps(1) by auto
    next
      case 2
      then show ?thesis using that fresh [of "ps ! a"] insert.hyps(1) by auto
    next
      case 3
      then show ?thesis using that insert.prems by (auto simp: claims_ok_def)
    qed
  qed
  with unique rows show ?case by (simp add: claims_ok_def)
next
  case (reconcile i ps p e fate t r)
  note res = claim_reconcile_result [OF reconcile.hyps(4)]
  let ?p = "p\<lparr>cp_progress := Some (Settled r)\<rparr>"
  have mem: "p \<in> set ps" using reconcile.hyps(1,2) by auto
  have rows: "cd_messageActionKey (cp_data q) \<noteq> None \<and> (holds_claim q \<longrightarrow> owner_row (cp_data q) t)"
    if "q \<in> set (ps[i := ?p])" for q
  proof -
    from that consider "q \<in> set ps" | "q = ?p" by (auto dest: set_update_subset_insert [THEN subsetD])
    then show ?thesis
      using reconcile.prems mem res(1,2) by cases (auto simp: claims_ok_def holds_claim_def)
  qed
  have "cd_messageActionKey (cp_data (ps[i := ?p] ! a)) \<noteq> cd_messageActionKey (cp_data (ps[i := ?p] ! b))"
    if "a < length ps" "b < a" "cp_progress (ps[i := ?p] ! a) = Some (Settled (Inr Claimed))"
      "cp_progress (ps[i := ?p] ! b) = Some (Settled (Inr Claimed))" for a b
    using that reconcile.prems res(1) reconcile.hyps(1) by (auto simp: claims_ok_def nth_list_update split: if_splits)
  with rows reconcile.prems show ?case by (simp add: claims_ok_def)
qed

lemma claims_ok_reachable: "claim_step\<^sup>*\<^sup>* s s' \<Longrightarrow> claims_ok s \<Longrightarrow> claims_ok s'"
  by (induction rule: rtranclp_induct) (auto intro: claims_ok_step)

lemma claims_start:
  "unique_rows t \<Longrightarrow> \<forall>p\<in>set ps. cp_progress p = None \<and> cd_messageActionKey (cp_data p) \<noteq> None \<Longrightarrow> claims_ok (t, ps)"
  by (auto simp: claims_ok_def holds_claim_def)

section \<open>Properties\<close>

text \<open>
  C12: A message is acted on by one owner: whatever claims for the same message action run at once,
  with failing statements and lost responses in any interleaving, all claims that succeed have
  the same identity, and at most one of them was told that it is the first.
\<close>

theorem one_owner_per_message:
  assumes "unique_rows t" "\<forall>p\<in>set ps. cp_progress p = None \<and> cd_messageActionKey (cp_data p) \<noteq> None"
    and "claim_step\<^sup>*\<^sup>* (t, ps) (t', ps')"
    and "i < length ps'" "j < length ps'" "i \<noteq> j" "holds_claim (ps' ! i)" "holds_claim (ps' ! j)"
    and "cd_messageActionKey (cp_data (ps' ! i)) = cd_messageActionKey (cp_data (ps' ! j))"
  shows "isOwnedModerationMessageActionClaim (cp_data (ps' ! i)) (cp_data (ps' ! j)) \<and>
    \<not> (cp_progress (ps' ! i) = Some (Settled (Inr Claimed)) \<and> cp_progress (ps' ! j) = Some (Settled (Inr Claimed)))"
proof -
  have ok: "claims_ok (t', ps')" by (rule claims_ok_reachable [OF assms(3) claims_start [OF assms(1,2)]])
  have rows: "owner_row (cp_data (ps' ! i)) t'" "owner_row (cp_data (ps' ! j)) t'"
    "cd_messageActionKey (cp_data (ps' ! i)) \<noteq> None"
    using ok assms(4,5,7,8) by (auto simp: claims_ok_def)
  then obtain a b where a: "a \<in> set t'" "isOwnedModerationMessageActionClaim a (cp_data (ps' ! i))"
    and b: "b \<in> set t'" "isOwnedModerationMessageActionClaim b (cp_data (ps' ! j))"
    by (auto simp: owner_row_def)
  have "a = b"
    using unique_rows_key [of t' a b] ok a b rows(3) assms(9)
    by (auto simp: claims_ok_def isOwnedModerationMessageActionClaim_def)
  then have "isOwnedModerationMessageActionClaim (cp_data (ps' ! i)) (cp_data (ps' ! j))"
    using a(2) b(2) by (simp add: isOwnedModerationMessageActionClaim_def)
  moreover have "cd_messageActionKey (cp_data (ps' ! a)) \<noteq> cd_messageActionKey (cp_data (ps' ! b))"
    if "a < length ps'" "b < a" "cp_progress (ps' ! a) = Some (Settled (Inr Claimed))"
      "cp_progress (ps' ! b) = Some (Settled (Inr Claimed))" for a b
    using ok that by (auto simp: claims_ok_def)
  ultimately show ?thesis using assms(4,5,6,9) by (metis linorder_neqE_nat)
qed

definition full_model :: claim_model where
  "full_model = \<lparr>cm_createMany = True, cm_create = True, cm_findUnique = True\<rparr>"

definition sample_claim :: "string \<Rightarrow> claim_data" where
  "sample_claim rule =
     \<lparr>cd_dedupeKey = ascii ''d'' @ ascii rule, cd_messageActionKey = Some (ascii ''k''), cd_chatId = ascii ''c'',
      cd_userId = ascii ''u'', cd_messageId = ascii ''m'', cd_ruleCode = ascii rule, cd_updateType = MESSAGE_ACTION\<rparr>"

definition sample_process :: "claim_progress option \<Rightarrow> claim_process" where
  "sample_process progress =
     \<lparr>cp_model = full_model, cp_resume = True, cp_inTransaction = False, cp_data = sample_claim ''A'', cp_progress = progress\<rparr>"

theorem one_owner_per_message_witness:
  "isOwnedModerationMessageActionClaim (sample_claim ''A'') (sample_claim ''A'')"
proof -
  let ?won = "sample_process (Some (Settled (Inr Claimed)))" and ?new = "sample_process None"
    and ?wait = "sample_process (Some (Reconcile None))" and ?recovered = "sample_process (Some (Settled (Inr Resumed)))"
    and ?t = "[sample_claim ''A'']"
  have ins1: "claim_insert full_model True False Works (sample_claim ''A'') [] = (?t, Settled (Inr Claimed))"
    and ins2: "claim_insert full_model True False Works (sample_claim ''A'') ?t = (?t, Reconcile None)"
    and rec: "claim_reconcile full_model True None Works (sample_claim ''A'') ?t = Inr Resumed"
    by code_simp+
  have s1: "claim_step ([], [?new, ?new]) (?t, [?won, ?new])"
    using claim_step.insert [of 0 "[?new, ?new]" ?new Works "[]" ?t "Settled (Inr Claimed)"] ins1
    by (simp add: sample_process_def)
  have s2: "claim_step (?t, [?won, ?new]) (?t, [?won, ?wait])"
    using claim_step.insert [of 1 "[?won, ?new]" ?new Works ?t ?t "Reconcile None"] ins2
    by (simp add: sample_process_def)
  have s3: "claim_step (?t, [?won, ?wait]) (?t, [?won, ?recovered])"
    using claim_step.reconcile [of 1 "[?won, ?wait]" ?wait None Works ?t "Inr Resumed"] rec
    by (simp add: sample_process_def)
  have "claim_step\<^sup>*\<^sup>* ([], [?new, ?new]) (?t, [?won, ?recovered])"
    using s1 s2 s3 by (meson rtranclp.rtrancl_refl rtranclp.rtrancl_into_rtrancl)
  from one_owner_per_message [OF _ _ this, of 0 1] show ?thesis
    by (simp add: unique_rows_def sample_process_def holds_claim_def sample_claim_def)
qed

text \<open>
  What a claim answers is what the table holds: after success the table has the row of exactly
  this claim, a block means that some row stands in its way or none could be found under its key,
  and an error leaves the table as it was or with this claim's row.
\<close>

theorem claim_answers_truthfully:
  "case claimDurableModerationMessageAction model resume tx fate1 fate2 d t of
     (t', Inr Blocked) \<Rightarrow> (\<exists>r\<in>set t'. conflicts d r)
   | (t', Inr _) \<Rightarrow> owner_row d t' \<and> (t' = t \<or> t' = insert_row d t)
   | (t', Inl e) \<Rightarrow> t' = t \<or> t' = insert_row d t"
proof -
  obtain t1 progress where ins: "claim_insert model resume tx fate1 d t = (t1, progress)" by fastforce
  note res = claim_insert_result [OF ins] and table = claim_insert_table [OF ins]
  show ?thesis
  proof (cases progress)
    case (Settled r)
    then show ?thesis
      using res table ins
      by (auto simp: claimDurableModerationMessageAction_def owner_row_def split: sum.splits claim_result.splits)
  next
    case (Reconcile e)
    note rec = claim_reconcile_result [OF refl, of model resume e fate2 d t1]
    show ?thesis
      using Reconcile res(4) rec table ins
      by (auto simp: claimDurableModerationMessageAction_def split: sum.splits claim_result.splits)
  qed
qed

text \<open>
  A lost response does not lose the claim: outside a transaction, when the insert took effect
  but its response was lost, a claim that may resume recovers it, and one that may not stays
  blocked instead of acting twice; inside a transaction the error is passed on.
\<close>

theorem lost_response_is_reconciled:
  assumes "\<forall>r\<in>set t. \<not> conflicts d r" "cd_messageActionKey d \<noteq> None" "cm_createMany model \<or> cm_create model" "cm_findUnique model"
  shows "claimDurableModerationMessageAction model resume tx Response_Lost Works d t =
    (t @ [d], if tx then Inl Storage_Failure else Inr (if resume then Resumed else Blocked))"
proof -
  have ins: "claim_insert model resume tx Response_Lost d t =
      (t @ [d], if tx then Settled (Inl Storage_Failure) else Reconcile (Some Storage_Failure))"
    using assms(1,3) by (auto simp: claim_insert_def create_many_def create_row_def insert_row_def)
  have "List.find (\<lambda>r. cd_messageActionKey r = cd_messageActionKey d \<and> cd_messageActionKey d \<noteq> None) (t @ [d]) = Some d"
    using assms(1,2) by (induction t) (auto simp: conflicts_def)
  then show ?thesis
    using assms(4) by (simp add: claimDurableModerationMessageAction_def ins claim_reconcile_def find_action_def Let_def)
qed

theorem lost_response_is_reconciled_witness:
  "claimDurableModerationMessageAction full_model True False Response_Lost Works (sample_claim ''A'') [] =
     ([sample_claim ''A''], Inr Resumed)"
  using lost_response_is_reconciled [of "[]" "sample_claim ''A''" full_model True False]
  by (simp add: full_model_def sample_claim_def)

text \<open>
  The text that is hashed into a message's key is unambiguous: different chats or messages never
  share it, whatever characters their identifiers hold.
\<close>

theorem action_claim_text_injective:
  "action_claim_text c m = action_claim_text c' m' \<longleftrightarrow> c = c' \<and> m = m'"
proof
  assume "action_claim_text c m = action_claim_text c' m'"
  then have "json_units c @ 0x22 # (0x2C # json_string m @ [0x5D]) = json_units c' @ 0x22 # (0x2C # json_string m' @ [0x5D])"
    by (simp add: action_claim_text_def json_string_def)
  from arg_cong [OF this, of json_read] have eq: "c = c'" "json_string m @ [0x5D] = json_string m' @ [0x5D]"
    unfolding read_units by simp_all
  then have "json_units m @ 0x22 # [0x5D] = json_units m' @ 0x22 # [0x5D]" by (simp add: json_string_def)
  from arg_cong [OF this, of json_read] have "m = m'" unfolding read_units by simp
  with eq show "c = c' \<and> m = m'" by simp
qed simp

end
