(* ===== verification/Local_Cache.thy ===== *)
theory Local_Cache
  imports Prelude
begin

text \<open>
  \<^verbatim>\<open>apps/api/src/chat-context/chat-context-local-cache.ts\<close>: the in-process cache of chat
  contexts, bounded in entries and in estimated bytes, with least-recently-used eviction and a
  sweep that removes expired entries a batch at a time.

  \<^item> A cached context is an object, named by its reference; the sizes already measured are kept per
    reference.  \<open>json\<close> is the number of bytes of the JSON text of the object at the time of a call.
  \<^item> The two insertion-ordered maps are association lists: the first entry is the oldest.
  \<^item> Every reading of the clock is an argument.
\<close>

section \<open>State\<close>

record local_entry =
  le_value :: nat
  le_expiresAtMs :: int
  le_estimatedBytes :: int

record cache_options =
  co_ttlMs :: int
  co_maxEntries :: int
  co_maxBytes :: int
  co_maxEntryBytes :: int
  co_sweepBatchSize :: int

record cache_counters =
  cc_hits :: nat
  cc_misses :: nat
  cc_writes :: nat
  cc_oversizedSkips :: nat
  cc_capacityEvictions :: nat
  cc_expiredEvictions :: nat
  cc_invalidations :: nat
  cc_sweepInspected :: nat

record local_cache = cache_counters +
  lc_entries :: "(js_string, local_entry) jsmap"
  lc_sweepOrder :: "(js_string, bool) jsmap"
  lc_encodedSizes :: "nat \<Rightarrow> nat option"
  lc_estimatedBytes :: int

definition new_cache :: local_cache where
  "new_cache = \<lparr>cc_hits = 0, cc_misses = 0, cc_writes = 0, cc_oversizedSkips = 0,
     cc_capacityEvictions = 0, cc_expiredEvictions = 0, cc_invalidations = 0, cc_sweepInspected = 0,
     lc_entries = [], lc_sweepOrder = [], lc_encodedSizes = (\<lambda>_. None), lc_estimatedBytes = 0\<rparr>"

definition entry_limit :: "cache_options \<Rightarrow> int" where
  "entry_limit opts = min (co_maxEntryBytes opts) (co_maxBytes opts)"

section \<open>Operations\<close>

definition remove_entry :: "js_string \<Rightarrow> local_entry \<Rightarrow> local_cache \<Rightarrow> local_cache" where
  "remove_entry key entry c =
     c\<lparr>lc_entries := jsmap_delete key (lc_entries c), lc_sweepOrder := jsmap_delete key (lc_sweepOrder c),
       lc_estimatedBytes := lc_estimatedBytes c - le_estimatedBytes entry\<rparr>"

definition count_expired :: "local_cache \<Rightarrow> local_cache" where
  "count_expired c = c\<lparr>cc_expiredEvictions := Suc (cc_expiredEvictions c)\<rparr>"

definition cache_get :: "js_string \<Rightarrow> int \<Rightarrow> local_cache \<Rightarrow> local_cache \<times> nat option" where
  "cache_get key now c =
     (case jsmap_get (lc_entries c) key of
        None \<Rightarrow> (c\<lparr>cc_misses := Suc (cc_misses c)\<rparr>, None)
      | Some entry \<Rightarrow>
          if le_expiresAtMs entry \<le> now then
            (let c = count_expired (remove_entry key entry c)
             in (c\<lparr>cc_misses := Suc (cc_misses c)\<rparr>, None))
          else
            (let c = c\<lparr>lc_entries := jsmap_delete key (lc_entries c)\<rparr>;
                 c = c\<lparr>lc_entries := jsmap_set key entry (lc_entries c)\<rparr>
             in (c\<lparr>cc_hits := Suc (cc_hits c)\<rparr>, Some (le_value entry))))"

text \<open>The loop of \<^verbatim>\<open>write\<close> that makes room for an entry of the given size.\<close>

function evict :: "cache_options \<Rightarrow> int \<Rightarrow> int \<Rightarrow> local_cache \<Rightarrow> local_cache" where
  "evict opts now bytes c =
     (if int (length (lc_entries c)) \<ge> co_maxEntries opts \<or>
         lc_estimatedBytes c + bytes > co_maxBytes opts then
        (case lc_entries c of
           [] \<Rightarrow> c
         | (key, oldest) # _ \<Rightarrow>
             (let c = remove_entry key oldest c;
                  c = (if le_expiresAtMs oldest \<le> now then count_expired c
                       else c\<lparr>cc_capacityEvictions := Suc (cc_capacityEvictions c)\<rparr>)
              in evict opts now bytes c))
      else c)"
  by pat_completeness auto
termination
  by (relation "measure (\<lambda>(opts, now, bytes, c). length (lc_entries c))")
    (auto simp: remove_entry_def count_expired_def less_Suc_eq_le length_delete_le split: if_splits)

declare evict.simps [simp del]

definition entry_bytes :: "js_string \<Rightarrow> nat \<Rightarrow> int" where
  "entry_bytes key serializedBytes = 2 * int serializedBytes + 512 + 2 * int (length key)"

definition serialized_bytes :: "nat \<Rightarrow> nat option \<Rightarrow> nat \<Rightarrow> local_cache \<Rightarrow> nat" where
  "serialized_bytes v encodedBytes json c =
     (case encodedBytes of
        Some b \<Rightarrow> b
      | None \<Rightarrow> (case lc_encodedSizes c v of Some b \<Rightarrow> b | None \<Rightarrow> json))"

definition write_entry ::
    "cache_options \<Rightarrow> js_string \<Rightarrow> nat \<Rightarrow> int \<Rightarrow> nat option \<Rightarrow> nat \<Rightarrow> int \<Rightarrow> local_cache \<Rightarrow> local_cache" where
  "write_entry opts key v expiresAtMs encodedBytes json now c =
     (let serializedBytes = serialized_bytes v encodedBytes json c;
          c = c\<lparr>lc_encodedSizes := (lc_encodedSizes c)(v \<mapsto> serializedBytes)\<rparr>;
          bytes = entry_bytes key serializedBytes;
          c = (case jsmap_get (lc_entries c) key of
                 None \<Rightarrow> c
               | Some previous \<Rightarrow>
                   c\<lparr>lc_entries := jsmap_delete key (lc_entries c),
                     lc_estimatedBytes := lc_estimatedBytes c - le_estimatedBytes previous\<rparr>)
      in if bytes > entry_limit opts then
           c\<lparr>lc_sweepOrder := jsmap_delete key (lc_sweepOrder c),
             cc_oversizedSkips := Suc (cc_oversizedSkips c)\<rparr>
         else
           (let c = evict opts now bytes c;
                entry = \<lparr>le_value = v, le_expiresAtMs = expiresAtMs, le_estimatedBytes = bytes\<rparr>
            in c\<lparr>lc_entries := jsmap_set key entry (lc_entries c),
                 lc_sweepOrder := jsmap_set key True (lc_sweepOrder c),
                 lc_estimatedBytes := lc_estimatedBytes c + bytes, cc_writes := Suc (cc_writes c)\<rparr>))"

definition cache_set ::
    "cache_options \<Rightarrow> js_string \<Rightarrow> nat \<Rightarrow> nat option \<Rightarrow> nat \<Rightarrow> int \<Rightarrow> int \<Rightarrow> local_cache \<Rightarrow> local_cache" where
  "cache_set opts key v encodedBytes json now1 now2 c =
     write_entry opts key v (now1 + co_ttlMs opts) encodedBytes json now2 c"

definition cache_replace ::
    "cache_options \<Rightarrow> js_string \<Rightarrow> nat \<Rightarrow> nat option \<Rightarrow> nat \<Rightarrow> int \<Rightarrow> int \<Rightarrow> local_cache \<Rightarrow> local_cache" where
  "cache_replace opts key v encodedBytes json now1 now2 c =
     (case jsmap_get (lc_entries c) key of
        None \<Rightarrow> c
      | Some previous \<Rightarrow>
          if le_expiresAtMs previous \<le> now1 then count_expired (remove_entry key previous c)
          else write_entry opts key v (le_expiresAtMs previous) encodedBytes json now2 c)"

definition cache_delete :: "js_string \<Rightarrow> local_cache \<Rightarrow> local_cache" where
  "cache_delete key c =
     (case jsmap_get (lc_entries c) key of
        None \<Rightarrow> c
      | Some entry \<Rightarrow>
          (let c = remove_entry key entry c in c\<lparr>cc_invalidations := Suc (cc_invalidations c)\<rparr>))"

text \<open>
  The loop of \<^verbatim>\<open>sweepExpired\<close>.  The second result tells that the loop ended with a type
  error, because the sweep order named a key without an entry.
\<close>

fun sweep_loop :: "int \<Rightarrow> nat \<Rightarrow> local_cache \<Rightarrow> local_cache \<times> bool" where
  "sweep_loop now 0 c = (c, False)"
| "sweep_loop now (Suc n) c =
     (case lc_sweepOrder c of
        [] \<Rightarrow> (c, False)
      | (key, _) # _ \<Rightarrow>
          (let c = c\<lparr>cc_sweepInspected := Suc (cc_sweepInspected c)\<rparr> in
           case jsmap_get (lc_entries c) key of
             None \<Rightarrow> (c, True)
           | Some entry \<Rightarrow>
               if le_expiresAtMs entry \<le> now then sweep_loop now n (count_expired (remove_entry key entry c))
               else
                 (let c = c\<lparr>lc_sweepOrder := jsmap_delete key (lc_sweepOrder c)\<rparr>
                  in sweep_loop now n (c\<lparr>lc_sweepOrder := jsmap_set key True (lc_sweepOrder c)\<rparr>))))"

definition sweepExpired :: "cache_options \<Rightarrow> int \<Rightarrow> local_cache \<Rightarrow> local_cache \<times> bool" where
  "sweepExpired opts now c =
     sweep_loop now (nat (min (co_sweepBatchSize opts) (int (length (lc_sweepOrder c))))) c"

definition cache_clear :: "local_cache \<Rightarrow> local_cache" where
  "cache_clear c = c\<lparr>lc_entries := [], lc_sweepOrder := [], lc_estimatedBytes := 0\<rparr>"

record cache_snapshot = cache_counters +
  cs_entries :: nat
  cs_estimatedBytes :: int
  cs_maxEntries :: int
  cs_maxBytes :: int
  cs_maxEntryBytes :: int

definition cache_snapshot :: "cache_options \<Rightarrow> local_cache \<Rightarrow> cache_snapshot" where
  "cache_snapshot opts c =
     \<lparr>cc_hits = cc_hits c, cc_misses = cc_misses c, cc_writes = cc_writes c,
      cc_oversizedSkips = cc_oversizedSkips c, cc_capacityEvictions = cc_capacityEvictions c,
      cc_expiredEvictions = cc_expiredEvictions c, cc_invalidations = cc_invalidations c,
      cc_sweepInspected = cc_sweepInspected c, cs_entries = length (lc_entries c),
      cs_estimatedBytes = lc_estimatedBytes c, cs_maxEntries = co_maxEntries opts,
      cs_maxBytes = co_maxBytes opts, cs_maxEntryBytes = entry_limit opts\<rparr>"

section \<open>Runs\<close>

datatype cache_event =
    Cache_Get js_string int
  | Cache_Set js_string nat "nat option" nat int int
  | Cache_Replace js_string nat "nat option" nat int int
  | Cache_Delete js_string
  | Cache_Sweep int
  | Cache_Clear

fun cache_step :: "cache_options \<Rightarrow> local_cache \<Rightarrow> cache_event \<Rightarrow> local_cache" where
  "cache_step opts c (Cache_Get key now) = fst (cache_get key now c)"
| "cache_step opts c (Cache_Set key v b json now1 now2) = cache_set opts key v b json now1 now2 c"
| "cache_step opts c (Cache_Replace key v b json now1 now2) = cache_replace opts key v b json now1 now2 c"
| "cache_step opts c (Cache_Delete key) = cache_delete key c"
| "cache_step opts c (Cache_Sweep now) = fst (sweepExpired opts now c)"
| "cache_step opts c Cache_Clear = cache_clear c"

section \<open>Invariant\<close>

definition bytes_of :: "(js_string, local_entry) jsmap \<Rightarrow> int" where
  "bytes_of es = sum_list (map (\<lambda>(k, e). le_estimatedBytes e) es)"

text \<open>\<open>absent\<close> are the keys the sweep order may name before their entry is put back.\<close>

definition cache_core :: "cache_options \<Rightarrow> js_string set \<Rightarrow> local_cache \<Rightarrow> bool" where
  "cache_core opts absent c \<longleftrightarrow>
     jsmap_ok (lc_entries c) \<and> jsmap_ok (lc_sweepOrder c) \<and>
     fst ` set (lc_entries c) = fst ` set (lc_sweepOrder c) - absent \<and>
     lc_estimatedBytes c = bytes_of (lc_entries c) \<and>
     (\<forall>e\<in>snd ` set (lc_entries c). 0 \<le> le_estimatedBytes e \<and> le_estimatedBytes e \<le> entry_limit opts)"

definition cache_ok :: "cache_options \<Rightarrow> local_cache \<Rightarrow> bool" where
  "cache_ok opts c \<longleftrightarrow>
     cache_core opts {} c \<and> lc_estimatedBytes c \<le> max 0 (co_maxBytes opts) \<and>
     int (length (lc_entries c)) \<le> max 1 (co_maxEntries opts)"

definition fits :: "cache_options \<Rightarrow> int \<Rightarrow> (js_string, local_entry) jsmap \<Rightarrow> bool" where
  "fits opts bytes es \<longleftrightarrow> int (length es) < co_maxEntries opts \<and> bytes_of es + bytes \<le> co_maxBytes opts"

text \<open>The longest tail that leaves room, the least recently used entries being the first.\<close>

fun first_fit :: "('a list \<Rightarrow> bool) \<Rightarrow> 'a list \<Rightarrow> 'a list" where
  "first_fit P [] = []"
| "first_fit P (x # xs) = (if P (x # xs) then x # xs else first_fit P xs)"

lemma first_fit_drop:
  "\<exists>n. first_fit P xs = drop n xs \<and> (\<forall>m. m < n \<longrightarrow> \<not> P (drop m xs)) \<and> (P (drop n xs) \<or> drop n xs = [])"
proof (induction xs)
  case (Cons x xs)
  then obtain n where n: "first_fit P xs = drop n xs" "\<And>m. m < n \<Longrightarrow> \<not> P (drop m xs)"
    "P (drop n xs) \<or> drop n xs = []" by auto
  show ?case
  proof (cases "P (x # xs)")
    case True
    then show ?thesis by (intro exI [of _ 0]) simp
  next
    case False
    have "m < Suc n \<Longrightarrow> \<not> P (drop m (x # xs))" for m
      using False n(2) by (cases m) auto
    then show ?thesis using False n by (intro exI [of _ "Suc n"]) auto
  qed
qed (auto intro: exI [of _ 0])

lemma bytes_of_simps [simp]:
  "bytes_of [] = 0" "bytes_of ((k, e) # es) = le_estimatedBytes e + bytes_of es"
  "bytes_of (es @ fs) = bytes_of es + bytes_of fs"
  by (simp_all add: bytes_of_def)

lemma bytes_of_delete:
  "jsmap_ok es \<Longrightarrow> jsmap_get es k = Some e \<Longrightarrow> bytes_of (jsmap_delete k es) = bytes_of es - le_estimatedBytes e"
  by (induction es) (auto simp: jsmap_delete_absent map_of_eq_None_iff rev_image_eqI split: if_splits)

lemma bytes_of_nonneg: "\<forall>e\<in>snd ` set es. 0 \<le> le_estimatedBytes e \<Longrightarrow> 0 \<le> bytes_of es"
  by (induction es) auto

lemma keys_delete [simp]: "fst ` set (jsmap_delete k m) = fst ` set m - {k}"
  by (metis delete_keys set_map set_removeAll)

lemma keys_set [simp]: "fst ` set (jsmap_set k v m) = insert k (fst ` set m)"
  by (induction m) auto

lemma values_delete: "e \<in> snd ` set (jsmap_delete k m) \<Longrightarrow> e \<in> snd ` set m"
  using set_jsmap_delete by fastforce

lemma cacheD:
  assumes "cache_core opts absent c"
  shows "jsmap_ok (lc_entries c)" "jsmap_ok (lc_sweepOrder c)"
    "fst ` set (lc_entries c) = fst ` set (lc_sweepOrder c) - absent"
    "lc_estimatedBytes c = bytes_of (lc_entries c)"
    "\<And>e. e \<in> snd ` set (lc_entries c) \<Longrightarrow> 0 \<le> le_estimatedBytes e \<and> le_estimatedBytes e \<le> entry_limit opts"
  using assms unfolding cache_core_def by blast+

lemma core_remove:
  assumes "cache_core opts absent c" "jsmap_get (lc_entries c) k = Some e"
  shows "cache_core opts absent (remove_entry k e c)"
proof -
  note d = cacheD [OF assms(1)]
  have "\<forall>x\<in>snd ` set (jsmap_delete k (lc_entries c)).
      0 \<le> le_estimatedBytes x \<and> le_estimatedBytes x \<le> entry_limit opts"
    by (intro ballI d(5)) (rule values_delete)
  moreover have "fst ` set (jsmap_delete k (lc_entries c)) = fst ` set (jsmap_delete k (lc_sweepOrder c)) - absent"
    unfolding keys_delete d(3) by blast
  moreover have "lc_estimatedBytes c - le_estimatedBytes e = bytes_of (jsmap_delete k (lc_entries c))"
    unfolding d(4) bytes_of_delete [OF d(1) assms(2)] ..
  ultimately show ?thesis
    unfolding cache_core_def remove_entry_def using d(1,2) by simp
qed

lemma core_counters [simp]:
  "cache_core opts absent (count_expired c) = cache_core opts absent c"
  "lc_entries (count_expired c) = lc_entries c" "lc_sweepOrder (count_expired c) = lc_sweepOrder c"
  "lc_estimatedBytes (count_expired c) = lc_estimatedBytes c"
  by (simp_all add: cache_core_def count_expired_def)

lemma remove_simps [simp]:
  "lc_entries (remove_entry k e c) = jsmap_delete k (lc_entries c)"
  "lc_sweepOrder (remove_entry k e c) = jsmap_delete k (lc_sweepOrder c)"
  "lc_estimatedBytes (remove_entry k e c) = lc_estimatedBytes c - le_estimatedBytes e"
  by (simp_all add: remove_entry_def)

lemma delete_first: "jsmap_ok ((k, e) # es) \<Longrightarrow> jsmap_delete k ((k, e) # es) = es"
  by (auto simp: jsmap_delete_absent map_of_eq_None_iff rev_image_eqI)

lemma evict_core:
  "cache_core opts absent c \<Longrightarrow>
    cache_core opts absent (evict opts now bytes c) \<and>
    lc_entries (evict opts now bytes c) = first_fit (fits opts bytes) (lc_entries c)"
proof (induction opts now bytes c rule: evict.induct)
  case (1 opts now bytes c)
  note d = cacheD [OF "1.prems"]
  show ?case
  proof (cases "fits opts bytes (lc_entries c)")
    case True
    then have "evict opts now bytes c = c" using d(4) by (subst evict.simps) (simp add: fits_def)
    then show ?thesis using True "1.prems" by (cases "lc_entries c") auto
  next
    case False
    then have full: "co_maxEntries opts \<le> int (length (lc_entries c)) \<or>
        co_maxBytes opts < lc_estimatedBytes c + bytes"
      using d(4) by (auto simp: fits_def)
    show ?thesis
    proof (cases "lc_entries c")
      case Nil
      then have "evict opts now bytes c = c" by (subst evict.simps) simp
      then show ?thesis using Nil "1.prems" by simp
    next
      case (Cons p rest)
      obtain key oldest where p: "p = (key, oldest)" by (cases p)
      let ?r = "remove_entry key oldest c"
      let ?c = "if le_expiresAtMs oldest \<le> now then count_expired ?r
                else ?r\<lparr>cc_capacityEvictions := Suc (cc_capacityEvictions ?r)\<rparr>"
      have run: "evict opts now bytes c = evict opts now bytes ?c"
        using full Cons p by (subst evict.simps) (simp add: Let_def)
      have "cache_core opts absent ?r" by (rule core_remove [OF "1.prems"]) (simp add: Cons p)
      then have core: "cache_core opts absent ?c" by (simp add: cache_core_def)
      have rest: "lc_entries ?c = rest"
        using delete_first [of key oldest rest] d(1) Cons p by simp
      show ?thesis
        using "1.IH" [OF full Cons p [symmetric] refl refl core] False
        unfolding run rest by (simp add: Cons p)
    qed
  qed
qed

lemma core_iff:
  "cache_core opts absent c =
    (jsmap_ok (lc_entries c) \<and> jsmap_ok (lc_sweepOrder c) \<and>
     fst ` set (lc_entries c) = fst ` set (lc_sweepOrder c) - absent \<and>
     lc_estimatedBytes c = bytes_of (lc_entries c) \<and>
     (\<forall>e\<in>snd ` set (lc_entries c). 0 \<le> le_estimatedBytes e \<and> le_estimatedBytes e \<le> entry_limit opts))"
  by (simp add: cache_core_def)

lemma keys_get_None: "jsmap_get m k = None \<longleftrightarrow> k \<notin> fst ` set m"
  by (simp add: map_of_eq_None_iff)

lemma drop_core:
  assumes "cache_core opts {} c" "jsmap_get (lc_entries c) key = Some e"
  shows "cache_core opts {key} (c\<lparr>lc_entries := jsmap_delete key (lc_entries c),
           lc_estimatedBytes := lc_estimatedBytes c - le_estimatedBytes e\<rparr>)"
proof -
  note d = cacheD [OF assms(1)]
  have "\<forall>x\<in>snd ` set (jsmap_delete key (lc_entries c)).
      0 \<le> le_estimatedBytes x \<and> le_estimatedBytes x \<le> entry_limit opts"
    by (intro ballI d(5)) (rule values_delete)
  then show ?thesis
    using d(1,2,3,4) bytes_of_delete [OF d(1) assms(2)] by (simp add: cache_core_def)
qed

definition place :: "'a \<Rightarrow> ('a, 'b) jsmap \<Rightarrow> nat" where
  "place k m = length (takeWhile (\<lambda>p. fst p \<noteq> k) m)"

lemma place_delete: "x \<noteq> k \<Longrightarrow> place k (jsmap_delete x m) \<le> place k m"
  unfolding place_def by (induction m) auto

lemma place_set: "k \<in> fst ` set m \<Longrightarrow> place k (jsmap_set x v m) = place k m"
  unfolding place_def by (induction m) auto

lemma place_less: "k \<in> fst ` set m \<Longrightarrow> place k m < length m"
  unfolding place_def by (induction m) auto

lemma evict_place:
  "cache_core opts absent c \<Longrightarrow>
    k \<notin> fst ` set (lc_entries c) \<or> k \<in> fst ` set (lc_entries (evict opts now bytes c)) \<Longrightarrow>
    place k (lc_sweepOrder (evict opts now bytes c)) \<le> place k (lc_sweepOrder c) \<and>
    (k \<in> fst ` set (lc_sweepOrder c) \<longrightarrow> k \<in> fst ` set (lc_sweepOrder (evict opts now bytes c)))"
proof (induction opts now bytes c rule: evict.induct)
  case (1 opts now bytes c)
  show ?case
  proof (cases "(co_maxEntries opts \<le> int (length (lc_entries c)) \<or>
        co_maxBytes opts < lc_estimatedBytes c + bytes) \<and> lc_entries c \<noteq> []")
    case False
    then have "evict opts now bytes c = c"
      by (subst evict.simps) (auto split: list.split)
    then show ?thesis by simp
  next
    case True
    then obtain key oldest rest where es: "lc_entries c = (key, oldest) # rest"
      by (metis neq_Nil_conv surj_pair)
    let ?r = "remove_entry key oldest c"
    let ?c = "if le_expiresAtMs oldest \<le> now then count_expired ?r
              else ?r\<lparr>cc_capacityEvictions := Suc (cc_capacityEvictions ?r)\<rparr>"
    have run: "evict opts now bytes c = evict opts now bytes ?c"
      using True es by (subst evict.simps) (simp add: Let_def)
    have "cache_core opts absent ?r" by (rule core_remove [OF "1.prems"(1)]) (simp add: es)
    then have core: "cache_core opts absent ?c" by (simp add: cache_core_def)
    have sw: "lc_sweepOrder ?c = jsmap_delete key (lc_sweepOrder c)" by simp
    have keys: "fst ` set (lc_entries ?c) = fst ` set (lc_entries c) - {key}" by simp
    obtain n where "lc_entries (evict opts now bytes ?c) = drop n (lc_entries ?c)"
      using evict_core [OF core, of now bytes] first_fit_drop [of "fits opts bytes" "lc_entries ?c"] by metis
    then have "set (lc_entries (evict opts now bytes ?c)) \<subseteq> set (lc_entries ?c)"
      using set_drop_subset by metis
    then have sub: "fst ` set (lc_entries (evict opts now bytes ?c)) \<subseteq> fst ` set (lc_entries c) - {key}"
      unfolding keys [symmetric] by (rule image_mono)
    have "key \<in> fst ` set (lc_entries c)" by (simp add: es)
    then have k: "key \<noteq> k" and
      k': "k \<notin> fst ` set (lc_entries ?c) \<or> k \<in> fst ` set (lc_entries (evict opts now bytes ?c))"
      using "1.prems"(2) sub unfolding run keys by blast+
    note ih = "1.IH" [OF _ es refl refl refl core k']
    have "place k (lc_sweepOrder (evict opts now bytes ?c)) \<le> place k (lc_sweepOrder c)"
      using ih True place_delete [OF k, of "lc_sweepOrder c"] unfolding sw by linarith
    moreover have "k \<in> fst ` set (lc_sweepOrder c) \<longrightarrow> k \<in> fst ` set (lc_sweepOrder (evict opts now bytes ?c))"
      using ih True k unfolding sw keys_delete by blast
    ultimately show ?thesis unfolding run by blast
  qed
qed

lemma drop_previous:
  fixes key :: js_string and sizes :: "nat \<Rightarrow> nat option"
  assumes core: "cache_core opts {} c"
  defines "c' \<equiv> case jsmap_get (lc_entries c) key of
       None \<Rightarrow> c\<lparr>lc_encodedSizes := sizes\<rparr>
     | Some previous \<Rightarrow>
         c\<lparr>lc_encodedSizes := sizes, lc_entries := jsmap_delete key (lc_entries c),
           lc_estimatedBytes := lc_estimatedBytes c - le_estimatedBytes previous\<rparr>"
  shows "cache_core opts {key} c'" "lc_entries c' = jsmap_delete key (lc_entries c)"
    "lc_sweepOrder c' = lc_sweepOrder c"
proof -
  have "cache_core opts {key} c' \<and> lc_entries c' = jsmap_delete key (lc_entries c) \<and>
    lc_sweepOrder c' = lc_sweepOrder c"
  proof (cases "jsmap_get (lc_entries c) key")
    case None
    have "c' = c\<lparr>lc_encodedSizes := sizes\<rparr>" by (simp add: c'_def None)
    moreover have "key \<notin> fst ` set (lc_sweepOrder c)"
      using None cacheD(3) [OF core] by (simp add: keys_get_None)
    ultimately show ?thesis using core None by (simp add: cache_core_def jsmap_delete_absent)
  next
    case (Some previous)
    have "c' = c\<lparr>lc_encodedSizes := sizes, lc_entries := jsmap_delete key (lc_entries c),
           lc_estimatedBytes := lc_estimatedBytes c - le_estimatedBytes previous\<rparr>"
      by (simp add: c'_def Some)
    then show ?thesis using drop_core [OF core Some] by (simp add: cache_core_def)
  qed
  then show "cache_core opts {key} c'" "lc_entries c' = jsmap_delete key (lc_entries c)"
    "lc_sweepOrder c' = lc_sweepOrder c" by blast+
qed

lemma write_result:
  fixes v json :: nat and key :: js_string and encodedBytes :: "nat option" and expiresAtMs now :: int
  assumes core: "cache_core opts {} c"
  defines "bytes \<equiv> entry_bytes key (serialized_bytes v encodedBytes json c)"
    and "w \<equiv> write_entry opts key v expiresAtMs encodedBytes json now c"
  shows "cache_core opts {} w"
    and "lc_entries w =
      (if bytes > entry_limit opts then jsmap_delete key (lc_entries c)
       else first_fit (fits opts bytes) (jsmap_delete key (lc_entries c)) @
         [(key, \<lparr>le_value = v, le_expiresAtMs = expiresAtMs, le_estimatedBytes = bytes\<rparr>)])"
    and "k \<in> fst ` set (lc_entries c) \<Longrightarrow> k \<in> fst ` set (lc_entries w) \<Longrightarrow>
      place k (lc_sweepOrder w) \<le> place k (lc_sweepOrder c)"
proof -
  let ?sizes = "(lc_encodedSizes c)(v \<mapsto> serialized_bytes v encodedBytes json c)"
  define c' where "c' = (case jsmap_get (lc_entries c) key of
       None \<Rightarrow> c\<lparr>lc_encodedSizes := ?sizes\<rparr>
     | Some previous \<Rightarrow>
         c\<lparr>lc_encodedSizes := ?sizes, lc_entries := jsmap_delete key (lc_entries c),
           lc_estimatedBytes := lc_estimatedBytes c - le_estimatedBytes previous\<rparr>)"
  note c' = drop_previous [OF core, where key = key and sizes = ?sizes, folded c'_def]
  let ?e = "evict opts now bytes c'"
  let ?entry = "\<lparr>le_value = v, le_expiresAtMs = expiresAtMs, le_estimatedBytes = bytes\<rparr>"
  have w: "w = (if bytes > entry_limit opts then
           c'\<lparr>lc_sweepOrder := jsmap_delete key (lc_sweepOrder c'),
             cc_oversizedSkips := Suc (cc_oversizedSkips c')\<rparr>
         else ?e\<lparr>lc_entries := jsmap_set key ?entry (lc_entries ?e),
                 lc_sweepOrder := jsmap_set key True (lc_sweepOrder ?e),
                 lc_estimatedBytes := lc_estimatedBytes ?e + bytes, cc_writes := Suc (cc_writes ?e)\<rparr>)"
    unfolding w_def write_entry_def c'_def bytes_def Let_def by (simp split: option.split)
  have e: "cache_core opts {key} ?e" "lc_entries ?e = first_fit (fits opts bytes) (lc_entries c')"
    using evict_core [OF c'(1)] by auto
  note d = cacheD [OF c'(1)] and de = cacheD [OF e(1)]
  have fresh: "jsmap_get (lc_entries ?e) key = None" using de(3) by (simp add: keys_get_None)
  have set: "jsmap_set key ?entry (lc_entries ?e) = lc_entries ?e @ [(key, ?entry)]"
    by (rule jsmap_set_fresh [OF fresh])
  have pos: "0 \<le> bytes" by (simp add: bytes_def entry_bytes_def)
  show "cache_core opts {} w"
  proof (cases "bytes > entry_limit opts")
    case True
    then show ?thesis using d unfolding w cache_core_def by simp
  next
    case False
    have "\<forall>x\<in>snd ` set (lc_entries ?e @ [(key, ?entry)]). 0 \<le> le_estimatedBytes x \<and> le_estimatedBytes x \<le> entry_limit opts"
      using de(5) False pos by auto
    moreover have "jsmap_ok (lc_entries ?e @ [(key, ?entry)])"
      using jsmap_ok_set [OF de(1)] unfolding set [symmetric] .
    moreover have "fst ` set (lc_entries ?e @ [(key, ?entry)]) = fst ` set (jsmap_set key True (lc_sweepOrder ?e))"
      using de(3) by auto
    ultimately show ?thesis using False de(2,4) unfolding w cache_core_def by (simp add: set)
  qed
  show "lc_entries w =
      (if bytes > entry_limit opts then jsmap_delete key (lc_entries c)
       else first_fit (fits opts bytes) (jsmap_delete key (lc_entries c)) @ [(key, ?entry)])"
    unfolding w using set [unfolded e(2) c'(2)] by (simp add: e(2) c'(2))
  assume k: "k \<in> fst ` set (lc_entries c)" and kw: "k \<in> fst ` set (lc_entries w)"
  have ks: "k \<in> fst ` set (lc_sweepOrder c')" using k cacheD(3) [OF core] c'(3) by auto
  show "place k (lc_sweepOrder w) \<le> place k (lc_sweepOrder c)"
  proof (cases "bytes > entry_limit opts")
    case True
    then have "k \<noteq> key" using kw unfolding w by (simp add: c'(2))
    then show ?thesis
      using True place_delete [of key k "lc_sweepOrder c"] unfolding w by (simp add: c'(3))
  next
    case False
    have "k \<notin> fst ` set (lc_entries c') \<or> k \<in> fst ` set (lc_entries ?e)"
      using False kw unfolding w by (auto simp: set c'(2))
    note p = evict_place [OF c'(1) this]
    then show ?thesis
      using False ks place_set [of k "lc_sweepOrder ?e" key True] unfolding w by (simp add: c'(3))
  qed
qed

lemma cache_okD: "cache_ok opts c \<Longrightarrow> cache_core opts {} c"
  by (simp add: cache_ok_def)

lemma remove_ok:
  assumes "cache_ok opts c" "jsmap_get (lc_entries c) k = Some e"
  shows "cache_ok opts (remove_entry k e c)"
proof -
  note core = cache_okD [OF assms(1)]
  have "0 \<le> le_estimatedBytes e" using cacheD(5) [OF core] map_of_SomeD [OF assms(2)] by force
  moreover have "length (jsmap_delete k (lc_entries c)) \<le> length (lc_entries c)" by (rule length_delete_le)
  ultimately show ?thesis
    using assms(1) core_remove [OF core assms(2)] by (auto simp: cache_ok_def)
qed

lemma ok_counters [simp]:
  "cache_ok opts (count_expired c) = cache_ok opts c"
  "cache_ok opts (c\<lparr>cc_misses := n\<rparr>) = cache_ok opts c" "cache_ok opts (c\<lparr>cc_hits := n\<rparr>) = cache_ok opts c"
  "cache_ok opts (c\<lparr>cc_invalidations := n\<rparr>) = cache_ok opts c"
  "cache_ok opts (c\<lparr>cc_sweepInspected := n\<rparr>) = cache_ok opts c"
  by (simp_all add: cache_ok_def cache_core_def)

lemma write_ok: "cache_ok opts c \<Longrightarrow> cache_ok opts (write_entry opts key v expires encoded json now c)"
proof -
  assume ok: "cache_ok opts c"
  note core = cache_okD [OF ok]
  define bytes where "bytes = entry_bytes key (serialized_bytes v encoded json c)"
  note w = write_result [OF core, where key = key and v = v and encodedBytes = encoded and json = json and
      expiresAtMs = expires and now = now, folded bytes_def]
  note d = cacheD [OF w(1)]
  have len: "length (jsmap_delete key (lc_entries c)) \<le> length (lc_entries c)" by (rule length_delete_le)
  have less: "bytes_of (jsmap_delete key (lc_entries c)) \<le> bytes_of (lc_entries c)"
  proof (cases "jsmap_get (lc_entries c) key")
    case (Some e)
    moreover have "0 \<le> le_estimatedBytes e" using cacheD(5) [OF core] map_of_SomeD [OF Some] by force
    ultimately show ?thesis using bytes_of_delete [OF cacheD(1) [OF core]] by simp
  qed (simp add: jsmap_delete_absent)
  show ?thesis
  proof (cases "bytes > entry_limit opts")
    case True
    then show ?thesis using ok w(1,2) d(4) cacheD(4) [OF core] len less by (simp add: cache_ok_def)
  next
    case False
    obtain n where n: "first_fit (fits opts bytes) (jsmap_delete key (lc_entries c)) =
        drop n (jsmap_delete key (lc_entries c))"
      "fits opts bytes (drop n (jsmap_delete key (lc_entries c))) \<or> drop n (jsmap_delete key (lc_entries c)) = []"
      using first_fit_drop [of "fits opts bytes" "jsmap_delete key (lc_entries c)"] by blast
    have "bytes \<le> co_maxBytes opts" using False by (simp add: entry_limit_def)
    then show ?thesis
      using False n w(1,2) d(4) by (auto simp: cache_ok_def fits_def)
  qed
qed

lemma rotate_core:
  assumes core: "cache_core opts {} c" and k: "jsmap_get (lc_entries c) k \<noteq> None"
  shows "cache_core opts {} (c\<lparr>lc_sweepOrder := jsmap_set k True (jsmap_delete k (lc_sweepOrder c))\<rparr>)"
proof -
  note d = cacheD [OF core]
  have "k \<in> fst ` set (lc_sweepOrder c)" using k d(3) unfolding keys_get_None by blast
  then show ?thesis using core by (simp add: cache_core_def insert_absorb)
qed

lemma rotate_ok:
  assumes ok: "cache_ok opts c" and k: "jsmap_get (lc_entries c) k \<noteq> None"
  shows "cache_ok opts (c\<lparr>lc_sweepOrder := jsmap_set k True (jsmap_delete k (lc_sweepOrder c))\<rparr>)"
  using ok rotate_core [OF cache_okD [OF ok] k] by (simp add: cache_ok_def)

lemma sweep_ok:
  "cache_ok opts c \<Longrightarrow>
    cache_ok opts (fst (sweep_loop now n c)) \<and> \<not> snd (sweep_loop now n c) \<and>
    map_of (lc_entries (fst (sweep_loop now n c))) \<subseteq>\<^sub>m map_of (lc_entries c)"
proof (induction n arbitrary: c)
  case (Suc n)
  note d = cacheD [OF cache_okD [OF Suc.prems]]
  show ?case
  proof (cases "lc_sweepOrder c")
    case (Cons p rest)
    obtain k b where p: "p = (k, b)" by (cases p)
    have "k \<in> fst ` set (lc_entries c)" using d(3) by (simp add: Cons p)
    then obtain e where e: "jsmap_get (lc_entries c) k = Some e"
      using keys_get_None by (metis option.exhaust)
    let ?c = "c\<lparr>cc_sweepInspected := Suc (cc_sweepInspected c)\<rparr>"
    have ok: "cache_ok opts ?c" using Suc.prems by simp
    have e': "jsmap_get (lc_entries ?c) k = Some e" using e by simp
    show ?thesis
    proof (cases "le_expiresAtMs e \<le> now")
      case True
      let ?r = "count_expired (remove_entry k e ?c)"
      have "cache_ok opts ?r" using remove_ok [OF ok e'] by simp
      note ih = Suc.IH [OF this]
      have run: "sweep_loop now (Suc n) c = sweep_loop now n ?r"
        using True by (simp add: Cons p e Let_def)
      have "map_of (lc_entries ?r) \<subseteq>\<^sub>m map_of (lc_entries c)"
        by (auto simp: map_le_def dom_def)
      then show ?thesis using ih unfolding run by (blast intro: map_le_trans)
    next
      case False
      let ?r = "?c\<lparr>lc_sweepOrder := jsmap_set k True (jsmap_delete k (lc_sweepOrder ?c))\<rparr>"
      have "cache_ok opts ?r" by (rule rotate_ok [OF ok]) (simp add: e)
      note ih = Suc.IH [OF this]
      have run: "sweep_loop now (Suc n) c = sweep_loop now n ?r"
        using False by (simp add: Cons p e Let_def)
      show ?thesis using ih unfolding run by simp
    qed
  qed (use Suc.prems in simp)
qed simp

lemma get_ok: "cache_ok opts c \<Longrightarrow> cache_ok opts (fst (cache_get key now c))"
proof -
  assume ok: "cache_ok opts c"
  note d = cacheD [OF cache_okD [OF ok]]
  show ?thesis
  proof (cases "jsmap_get (lc_entries c) key")
    case (Some e)
    have "jsmap_set key e (jsmap_delete key (lc_entries c)) = jsmap_delete key (lc_entries c) @ [(key, e)]"
      by (rule jsmap_set_fresh) simp
    moreover have "bytes_of (jsmap_delete key (lc_entries c)) + le_estimatedBytes e = bytes_of (lc_entries c)"
      using bytes_of_delete [OF d(1) Some] by simp
    moreover have "length (jsmap_delete key (lc_entries c)) = length (lc_entries c) - 1 \<and> lc_entries c \<noteq> []"
      using jsmap_length_delete [OF d(1), of key] Some by auto
    moreover have "key \<in> fst ` set (lc_entries c)" using Some by (metis keys_get_None option.distinct(1))
    moreover have "0 \<le> le_estimatedBytes e \<and> le_estimatedBytes e \<le> entry_limit opts"
      using d(5) map_of_SomeD [OF Some] by force
    moreover have "\<forall>x\<in>snd ` set (jsmap_delete key (lc_entries c)).
        0 \<le> le_estimatedBytes x \<and> le_estimatedBytes x \<le> entry_limit opts"
      by (intro ballI d(5)) (rule values_delete)
    moreover have "jsmap_ok (jsmap_delete key (lc_entries c) @ [(key, e)])"
      using jsmap_ok_set [OF jsmap_ok_delete [OF d(1)]] calculation(1) by metis
    ultimately show ?thesis
      using ok remove_ok [OF ok Some] Some d(2,3,4)
      by (auto simp: cache_get_def Let_def cache_ok_def cache_core_def insert_absorb simp del: map_append)
  qed (use ok in \<open>simp add: cache_get_def\<close>)
qed

lemma cache_step_ok: "cache_ok opts c \<Longrightarrow> cache_ok opts (cache_step opts c ev)"
proof (cases ev)
  case (Cache_Replace key v b json now1 now2)
  assume "cache_ok opts c"
  then show ?thesis
    unfolding Cache_Replace by (auto simp: cache_replace_def write_ok remove_ok split: option.split)
next
  case (Cache_Delete key)
  assume "cache_ok opts c"
  then show ?thesis
    unfolding Cache_Delete by (auto simp: cache_delete_def Let_def remove_ok split: option.split)
next
  case Cache_Clear
  then show ?thesis by (simp add: cache_clear_def cache_ok_def cache_core_def)
qed (simp_all add: get_ok write_ok cache_set_def sweepExpired_def sweep_ok)

interpretation cache: invariant_machine "cache_ok opts" "\<lambda>_ _. True" "cache_step opts" for opts
  by unfold_locales (rule cache_step_ok)

lemma new_cache_ok: "cache_ok opts new_cache"
  by (simp add: new_cache_def cache_ok_def cache_core_def)

lemma cache_run_ok: "cache_ok opts (foldl (cache_step opts) new_cache es)"
  by (rule cache.run_inv [OF new_cache_ok]) simp

section \<open>Refinement of a plain map\<close>

text \<open>The specification: what was last written under a key, and until when it may be served.\<close>

fun latest_step ::
    "cache_options \<Rightarrow> (js_string \<Rightarrow> (nat \<times> int) option) \<Rightarrow> cache_event \<Rightarrow> js_string \<Rightarrow> (nat \<times> int) option" where
  "latest_step opts m (Cache_Set key v b json now1 now2) = m(key \<mapsto> (v, now1 + co_ttlMs opts))"
| "latest_step opts m (Cache_Replace key v b json now1 now2) =
     m(key := (case m key of
                 Some (_, until) \<Rightarrow> if until \<le> now1 then None else Some (v, until)
               | None \<Rightarrow> None))"
| "latest_step opts m (Cache_Delete key) = m(key := None)"
| "latest_step opts m Cache_Clear = (\<lambda>_. None)"
| "latest_step opts m (Cache_Get _ _) = m"
| "latest_step opts m (Cache_Sweep _) = m"

definition served :: "local_cache \<Rightarrow> (js_string \<Rightarrow> (nat \<times> int) option) \<Rightarrow> bool" where
  "served c m \<longleftrightarrow>
     (\<forall>k e. jsmap_get (lc_entries c) k = Some e \<longrightarrow> m k = Some (le_value e, le_expiresAtMs e))"

lemma get_drop: "jsmap_ok es \<Longrightarrow> jsmap_get (drop n es) k = Some e \<Longrightarrow> jsmap_get es k = Some e"
  by (meson in_set_dropD map_of_SomeD map_of_eq_Some_iff)

lemma write_served:
  assumes ok: "cache_ok opts c" and served: "\<And>k e. k \<noteq> key \<Longrightarrow> jsmap_get (lc_entries c) k = Some e \<Longrightarrow>
      m k = Some (le_value e, le_expiresAtMs e)"
    and new: "m key = Some (v, expires)"
  shows "served (write_entry opts key v expires encoded json now c) m"
  unfolding served_def
proof (intro allI impI)
  fix k e
  let ?w = "write_entry opts key v expires encoded json now c"
  let ?d = "jsmap_delete key (lc_entries c)"
  note core = cache_okD [OF ok]
  assume e: "jsmap_get (lc_entries ?w) k = Some e"
  obtain n where n: "first_fit (fits opts (entry_bytes key (serialized_bytes v encoded json c))) ?d = drop n ?d"
    using first_fit_drop by metis
  have old: "jsmap_get (drop n ?d) k = Some e \<Longrightarrow> k \<noteq> key \<and> jsmap_get (lc_entries c) k = Some e" for e
    using get_drop [OF jsmap_ok_delete [OF cacheD(1) [OF core]], of n key k e] by (simp split: if_splits)
  show "m k = Some (le_value e, le_expiresAtMs e)"
    using e old [of e] served [of k e] new
    unfolding write_result(2) [OF core] n by (auto simp: map_add_Some_iff split: if_splits)
qed

lemma step_served:
  assumes ok: "cache_ok opts c" and served: "served c m"
  shows "served (cache_step opts c ev) (latest_step opts m ev)"
proof (cases ev)
  case (Cache_Get key now)
  then show ?thesis using served by (auto simp: served_def cache_get_def Let_def split: option.splits)
next
  case (Cache_Set key v b json now1 now2)
  then show ?thesis
    using write_served [OF ok, of key "latest_step opts m ev"] served by (auto simp: served_def cache_set_def)
next
  case (Cache_Replace key v b json now1 now2)
  show ?thesis
  proof (cases "jsmap_get (lc_entries c) key")
    case None
    then show ?thesis using Cache_Replace served by (auto simp: served_def cache_replace_def)
  next
    case (Some e)
    then have m: "m key = Some (le_value e, le_expiresAtMs e)" using served by (simp add: served_def)
    show ?thesis
    proof (cases "le_expiresAtMs e \<le> now1")
      case True
      then show ?thesis using Cache_Replace Some m served by (auto simp: served_def cache_replace_def)
    next
      case False
      then show ?thesis
        using write_served [OF ok, of key "latest_step opts m ev"] Cache_Replace Some m served
        by (auto simp: served_def cache_replace_def)
    qed
  qed
next
  case (Cache_Delete key)
  then show ?thesis using served by (auto simp: served_def cache_delete_def Let_def split: option.splits)
next
  case (Cache_Sweep now)
  have "map_of (lc_entries (fst (sweepExpired opts now c))) \<subseteq>\<^sub>m map_of (lc_entries c)"
    unfolding sweepExpired_def using sweep_ok [OF ok] by blast
  then have "jsmap_get (lc_entries (fst (sweepExpired opts now c))) k = Some e \<Longrightarrow>
      jsmap_get (lc_entries c) k = Some e" for k e
    by (metis domI map_le_def)
  then show ?thesis using served Cache_Sweep by (simp add: served_def)
next
  case Cache_Clear
  then show ?thesis by (simp add: served_def cache_clear_def)
qed

lemma run_served: "served (foldl (cache_step opts) new_cache es) (foldl (latest_step opts) (\<lambda>_. None) es)"
proof (induction es rule: rev_induct)
  case Nil
  show ?case by (simp add: served_def new_cache_def)
next
  case (snoc e es)
  then show ?case using step_served [OF cache_run_ok] by simp
qed

section \<open>Sweeping\<close>

definition pending_sweep :: "js_string \<Rightarrow> int \<Rightarrow> nat \<Rightarrow> local_cache \<Rightarrow> bool" where
  "pending_sweep key t m c \<longleftrightarrow>
     (case jsmap_get (lc_entries c) key of
        None \<Rightarrow> True
      | Some e \<Rightarrow> le_expiresAtMs e \<le> t \<and> place key (lc_sweepOrder c) < m)"

lemma sweep_progress:
  "cache_ok opts c \<Longrightarrow> t \<le> now \<Longrightarrow> pending_sweep key t (m + n) c \<Longrightarrow>
    pending_sweep key t m (fst (sweep_loop now n c))"
proof (induction n arbitrary: c)
  case (Suc n)
  note d = cacheD [OF cache_okD [OF Suc.prems(1)]]
  show ?case
  proof (cases "lc_sweepOrder c")
    case Nil
    then have "jsmap_get (lc_entries c) key = None" using d(3) by (simp add: keys_get_None)
    then show ?thesis by (simp add: Nil pending_sweep_def)
  next
    case (Cons p rest)
    obtain k b where p: "p = (k, b)" by (cases p)
    have "k \<in> fst ` set (lc_entries c)" using d(3) by (simp add: Cons p)
    then obtain e where e: "jsmap_get (lc_entries c) k = Some e"
      using keys_get_None by (metis option.exhaust)
    let ?c = "c\<lparr>cc_sweepInspected := Suc (cc_sweepInspected c)\<rparr>"
    have ok: "cache_ok opts ?c" using Suc.prems(1) by simp
    have head: "jsmap_delete k (lc_sweepOrder c) = rest"
      using delete_first [of k b rest] d(2) unfolding Cons p by simp
    have place: "key \<noteq> k \<Longrightarrow> place key (lc_sweepOrder c) = Suc (place key rest)"
      by (simp add: place_def Cons p)
    show ?thesis
    proof (cases "le_expiresAtMs e \<le> now")
      case True
      let ?r = "count_expired (remove_entry k e ?c)"
      have "cache_ok opts ?r" using remove_ok [OF ok, of k e] e by simp
      moreover have "pending_sweep key t (m + n) ?r"
        using Suc.prems(3) place head by (auto simp: pending_sweep_def split: option.splits)
      ultimately have "pending_sweep key t m (fst (sweep_loop now n ?r))"
        using Suc.IH [of ?r] Suc.prems(2) by blast
      then show ?thesis using True by (simp add: Cons p e Let_def)
    next
      case False
      let ?r = "?c\<lparr>lc_sweepOrder := jsmap_set k True (jsmap_delete k (lc_sweepOrder ?c))\<rparr>"
      have "cache_ok opts ?r" by (rule rotate_ok [OF ok]) (simp add: e)
      moreover have "pending_sweep key t (m + n) ?r"
      proof (cases "jsmap_get (lc_entries c) key")
        case (Some x)
        have "key \<noteq> k" using Some e False Suc.prems(2,3) by (auto simp: pending_sweep_def)
        moreover have "key \<in> fst ` set (lc_sweepOrder c)"
          using Some d(3) by (metis Diff_empty keys_get_None option.distinct(1))
        ultimately have "place key (jsmap_set k True rest) = place key rest"
          by (intro place_set) (simp add: Cons p)
        then show ?thesis
          using Some Suc.prems(3) place [OF \<open>key \<noteq> k\<close>] by (simp add: pending_sweep_def head)
      qed (simp add: pending_sweep_def)
      ultimately have "pending_sweep key t m (fst (sweep_loop now n ?r))"
        using Suc.IH [of ?r] Suc.prems(2) by blast
      then show ?thesis using False by (simp add: Cons p e Let_def)
    qed
  qed
qed simp

lemma pending_remove: "pending_sweep key t m c \<Longrightarrow> pending_sweep key t m (remove_entry k e c)"
  using place_delete [of k key "lc_sweepOrder c"]
  by (cases "k = key") (auto simp: pending_sweep_def split: option.splits)

lemma pending_counters [simp]:
  "pending_sweep key t m (count_expired c) = pending_sweep key t m c"
  "pending_sweep key t m (c\<lparr>cc_misses := n\<rparr>) = pending_sweep key t m c"
  "pending_sweep key t m (c\<lparr>cc_hits := n\<rparr>) = pending_sweep key t m c"
  "pending_sweep key t m (c\<lparr>cc_invalidations := n\<rparr>) = pending_sweep key t m c"
  by (auto simp: pending_sweep_def split: option.splits)

lemma pending_write:
  assumes ok: "cache_ok opts c" and pending: "pending_sweep key t m c"
    and own: "k = key \<Longrightarrow> expires \<le> t \<and> jsmap_get (lc_entries c) key \<noteq> None"
  shows "pending_sweep key t m (write_entry opts k v expires encoded json now c)"
proof (cases "jsmap_get (lc_entries (write_entry opts k v expires encoded json now c)) key")
  case (Some x)
  let ?w = "write_entry opts k v expires encoded json now c"
  let ?d = "jsmap_delete k (lc_entries c)"
  note core = cache_okD [OF ok]
  obtain n where n: "first_fit (fits opts (entry_bytes k (serialized_bytes v encoded json c))) ?d = drop n ?d"
    using first_fit_drop by metis
  have old: "jsmap_get (drop n ?d) key = Some e \<Longrightarrow> k \<noteq> key \<and> jsmap_get (lc_entries c) key = Some e" for e
    using get_drop [OF jsmap_ok_delete [OF cacheD(1) [OF core]], of n k key e] by (simp split: if_splits)
  have x: "(k = key \<and> le_expiresAtMs x = expires) \<or> (k \<noteq> key \<and> jsmap_get (lc_entries c) key = Some x)"
    using Some old [of x] unfolding write_result(2) [OF core] n
    by (auto simp: map_add_Some_iff split: if_splits)
  then have present: "jsmap_get (lc_entries c) key \<noteq> None" using own by auto
  have "place key (lc_sweepOrder ?w) \<le> place key (lc_sweepOrder c)"
    using write_result(3) [OF core] present Some by (metis keys_get_None option.distinct(1))
  moreover have "place key (lc_sweepOrder c) < m"
    using present pending by (auto simp: pending_sweep_def)
  moreover have "le_expiresAtMs x \<le> t" using x own pending by (auto simp: pending_sweep_def)
  ultimately show ?thesis using Some by (simp add: pending_sweep_def)
qed (simp add: pending_sweep_def)

fun is_sweep :: "cache_event \<Rightarrow> bool" where
  "is_sweep (Cache_Sweep _) = True"
| "is_sweep _ = False"

text \<open>Events that do not write the key anew, and sweep no earlier than the given time.\<close>

fun leaves_expired :: "js_string \<Rightarrow> int \<Rightarrow> cache_event \<Rightarrow> bool" where
  "leaves_expired key t (Cache_Set k _ _ _ _ _) = (k \<noteq> key)"
| "leaves_expired key t (Cache_Sweep now) = (t \<le> now)"
| "leaves_expired key t _ = True"

lemma pending_step:
  assumes ok: "cache_ok opts c" and leaves: "leaves_expired key t ev"
    and pending: "pending_sweep key t (m + (if is_sweep ev then nat (co_sweepBatchSize opts) else 0)) c"
  shows "pending_sweep key t m (cache_step opts c ev)"
proof (cases ev)
  case (Cache_Sweep now)
  let ?n = "nat (min (co_sweepBatchSize opts) (int (length (lc_sweepOrder c))))"
  have "pending_sweep key t (m + ?n) c"
  proof (cases "jsmap_get (lc_entries c) key")
    case (Some e)
    have "key \<in> fst ` set (lc_sweepOrder c)"
      using Some cacheD(3) [OF cache_okD [OF ok]] by (metis Diff_empty keys_get_None option.distinct(1))
    then have "place key (lc_sweepOrder c) < length (lc_sweepOrder c)" by (rule place_less)
    then show ?thesis using pending Some Cache_Sweep by (auto simp: pending_sweep_def)
  qed (simp add: pending_sweep_def)
  then show ?thesis
    using sweep_progress [OF ok, of t now] leaves Cache_Sweep by (simp add: sweepExpired_def)
next
  case (Cache_Get k now)
  show ?thesis
  proof (cases "jsmap_get (lc_entries c) k")
    case (Some e)
    have "pending_sweep key t m (c\<lparr>lc_entries := jsmap_set k e (jsmap_delete k (lc_entries c))\<rparr>)"
      using pending Some Cache_Get by (auto simp: pending_sweep_def split: option.splits)
    then show ?thesis
      using pending Some Cache_Get by (simp add: cache_get_def Let_def pending_remove)
  qed (use pending Cache_Get in \<open>simp add: cache_get_def\<close>)
next
  case (Cache_Set k v b json now1 now2)
  then show ?thesis using pending_write [OF ok, of key t m k] pending leaves by (simp add: cache_set_def)
next
  case (Cache_Replace k v b json now1 now2)
  show ?thesis
  proof (cases "jsmap_get (lc_entries c) k")
    case (Some e)
    have "k = key \<Longrightarrow> le_expiresAtMs e \<le> t"
      using Some pending Cache_Replace by (simp add: pending_sweep_def)
    then have "k = key \<Longrightarrow> le_expiresAtMs e \<le> t \<and> jsmap_get (lc_entries c) key \<noteq> None"
      using Some by auto
    moreover have "pending_sweep key t m c" using pending Cache_Replace by simp
    ultimately have "pending_sweep key t m (write_entry opts k v (le_expiresAtMs e) b json now2 c)"
      using pending_write [OF ok] by blast
    then show ?thesis
      using Some pending Cache_Replace by (simp add: cache_replace_def pending_remove)
  qed (use pending Cache_Replace in \<open>simp add: cache_replace_def\<close>)
next
  case (Cache_Delete k)
  then show ?thesis
    using pending by (auto simp: cache_delete_def Let_def pending_remove split: option.split)
qed (simp_all add: pending_sweep_def cache_clear_def)

lemma pending_run:
  "cache_ok opts c \<Longrightarrow> list_all (leaves_expired key t) es \<Longrightarrow>
    pending_sweep key t (length (filter is_sweep es) * nat (co_sweepBatchSize opts)) c \<Longrightarrow>
    pending_sweep key t 0 (foldl (cache_step opts) c es)"
proof (induction es arbitrary: c)
  case (Cons e es)
  have "pending_sweep key t (length (filter is_sweep es) * nat (co_sweepBatchSize opts)) (cache_step opts c e)"
    using Cons.prems by (intro pending_step) (auto simp: add.commute split: if_splits)
  then show ?case using Cons cache_step_ok by simp
qed simp

section \<open>Properties\<close>

text \<open>
  After any sequence of calls the cache holds at most the configured number of entries (one, if
  the configuration allows none) and at most the configured bytes, its running byte count is the
  true sum, no entry exceeds the limit of an entry, the sweep order names exactly the cached keys,
  and a sweep never meets a key without an entry.
\<close>

theorem cache_within_bounds:
  "let c = foldl (cache_step opts) new_cache es in
     int (length (lc_entries c)) \<le> max 1 (co_maxEntries opts) \<and>
     lc_estimatedBytes c = bytes_of (lc_entries c) \<and>
     0 \<le> lc_estimatedBytes c \<and> lc_estimatedBytes c \<le> max 0 (co_maxBytes opts) \<and>
     list_all (\<lambda>(k, e). le_estimatedBytes e \<le> entry_limit opts) (lc_entries c) \<and>
     fst ` set (lc_sweepOrder c) = fst ` set (lc_entries c) \<and> jsmap_ok (lc_entries c) \<and>
     \<not> snd (sweepExpired opts now c)"
proof -
  define c where "c = foldl (cache_step opts) new_cache es"
  have ok: "cache_ok opts c" unfolding c_def by (rule cache_run_ok)
  note d = cacheD [OF cache_okD [OF ok]]
  have "0 \<le> bytes_of (lc_entries c)" using d(5) by (intro bytes_of_nonneg) blast
  moreover have "list_all (\<lambda>(k, e). le_estimatedBytes e \<le> entry_limit opts) (lc_entries c)"
    using d(5) by (force simp: list_all_iff)
  ultimately show ?thesis
    unfolding c_def [symmetric] Let_def
    using ok d(1,3,4) sweep_ok [OF ok] by (simp add: cache_ok_def sweepExpired_def)
qed

text \<open>
  C37: The cache never serves anything stale: a hit returns the value last written under the key,
  before the deadline fixed by the last \<^verbatim>\<open>set\<close>, which a replacement or a hit never extends; a
  call of \<^verbatim>\<open>set\<close> whose entry is not larger than the limits allow makes the value available
  until that deadline to a read with no other call in between, while a larger one is not admitted and
  only removes what the key had (a later \<^verbatim>\<open>set\<close> of another key may evict the value before its
  deadline); and the calls keep the entries in the order of their last use, evicting the fewest least
  recently used ones that make room.
\<close>

theorem cache_serves_latest:
  "let c = foldl (cache_step opts) new_cache es;
       c' = cache_set opts key v encoded json now1 now2 c;
       size = entry_bytes key (serialized_bytes v encoded json c)
   in (case snd (cache_get key now c) of
         None \<Rightarrow> True
       | Some x \<Rightarrow>
           (case foldl (latest_step opts) (\<lambda>_. None) es key of
              None \<Rightarrow> False
            | Some (y, until) \<Rightarrow> x = y \<and> now < until)) \<and>
      snd (cache_get key now c') =
        (if entry_limit opts < size \<or> now1 + co_ttlMs opts \<le> now then None else Some v) \<and>
      map fst (lc_entries c') =
        (if entry_limit opts < size then removeAll key (map fst (lc_entries c))
         else map fst (first_fit (fits opts size) (jsmap_delete key (lc_entries c))) @ [key]) \<and>
      map fst (lc_entries (fst (cache_get key now c))) =
        removeAll key (map fst (lc_entries c)) @
        (if snd (cache_get key now c) = None then [] else [key])"
proof -
  define c where "c = foldl (cache_step opts) new_cache es"
  define m where "m = foldl (latest_step opts) (\<lambda>_. None) es"
  define c' where "c' = cache_set opts key v encoded json now1 now2 c"
  define size where "size = entry_bytes key (serialized_bytes v encoded json c)"
  have ok: "cache_ok opts c" unfolding c_def by (rule cache_run_ok)
  have "served c m" unfolding c_def m_def by (rule run_served)
  then have hit: "case snd (cache_get key now c) of
         None \<Rightarrow> True
       | Some x \<Rightarrow> (case m key of None \<Rightarrow> False | Some (y, until) \<Rightarrow> x = y \<and> now < until)"
    by (auto simp: cache_get_def served_def Let_def split: option.splits)
  let ?new = "\<lparr>le_value = v, le_expiresAtMs = now1 + co_ttlMs opts, le_estimatedBytes = size\<rparr>"
  have entries: "lc_entries c' =
      (if size > entry_limit opts then jsmap_delete key (lc_entries c)
       else first_fit (fits opts size) (jsmap_delete key (lc_entries c)) @ [(key, ?new)])"
    unfolding c'_def size_def cache_set_def by (rule write_result(2) [OF cache_okD [OF ok]])
  obtain n where n: "first_fit (fits opts size) (jsmap_delete key (lc_entries c)) =
      drop n (jsmap_delete key (lc_entries c))"
    using first_fit_drop by metis
  have "jsmap_get (drop n (jsmap_delete key (lc_entries c))) key = None"
    using get_drop [OF jsmap_ok_delete [OF cacheD(1) [OF cache_okD [OF ok]]], of n key key]
    by (metis jsmap_get_delete option.exhaust option.distinct(1))
  then have "jsmap_get (lc_entries c') key = (if size > entry_limit opts then None else Some ?new)"
    unfolding entries n by (simp add: map_add_def)
  then have stored: "snd (cache_get key now c') =
      (if entry_limit opts < size \<or> now1 + co_ttlMs opts \<le> now then None else Some v)"
    by (simp add: cache_get_def Let_def)
  have "map fst (lc_entries (fst (cache_get key now c))) =
      removeAll key (map fst (lc_entries c)) @ (if snd (cache_get key now c) = None then [] else [key])"
  proof (cases "jsmap_get (lc_entries c) key")
    case None
    then have "key \<notin> set (map fst (lc_entries c))" by (simp add: keys_get_None)
    then show ?thesis using None by (simp add: cache_get_def)
  qed (simp add: cache_get_def Let_def delete_keys jsmap_set_fresh)
  then show ?thesis
    unfolding c_def [symmetric] m_def [symmetric] Let_def c'_def [symmetric] size_def [symmetric]
    using hit stored by (simp add: entries delete_keys)
qed

text \<open>
  Sweeping reclaims every expired entry, whatever else happens: an entry whose deadline has
  passed and that is not set anew is gone after as many sweeps as bring its place in the sweep
  order to the front, however often other entries are read, written or replaced in between.
\<close>

theorem sweep_reclaims_expired:
  assumes "jsmap_get (lc_entries (foldl (cache_step opts) new_cache es)) key = Some e" "le_expiresAtMs e \<le> t"
    and "list_all (leaves_expired key t) fs"
    and "place key (lc_sweepOrder (foldl (cache_step opts) new_cache es)) <
      length (filter is_sweep fs) * nat (co_sweepBatchSize opts)"
  shows "jsmap_get (lc_entries (foldl (cache_step opts) new_cache (es @ fs))) key = None"
proof -
  let ?c = "foldl (cache_step opts) new_cache es"
  have "pending_sweep key t (length (filter is_sweep fs) * nat (co_sweepBatchSize opts)) ?c"
    using assms(1,2,4) by (simp add: pending_sweep_def)
  then have "pending_sweep key t 0 (foldl (cache_step opts) ?c fs)"
    by (rule pending_run [OF cache_run_ok assms(3)])
  then show ?thesis by (auto simp: pending_sweep_def split: option.splits)
qed

definition sample_options :: cache_options where
  "sample_options = \<lparr>co_ttlMs = 10, co_maxEntries = 3, co_maxBytes = 5000, co_maxEntryBytes = 2000,
     co_sweepBatchSize = 1\<rparr>"

theorem sweep_reclaims_expired_witness:
  "jsmap_get (lc_entries (foldl (cache_step sample_options) new_cache
     ([Cache_Set [1] 1 (Some 10) 0 100 100, Cache_Set [2] 2 (Some 10) 0 0 0] @
      [Cache_Sweep 20, Cache_Get [1] 20, Cache_Sweep 20]))) [2] = None"
  by (rule sweep_reclaims_expired
      [where e = "\<lparr>le_value = 2, le_expiresAtMs = 10, le_estimatedBytes = 534\<rparr>" and t = 10])
    (simp_all add: cache_set_def write_entry_def Let_def evict.simps sample_options_def new_cache_def
      serialized_bytes_def entry_bytes_def entry_limit_def place_def)

end
