(* ===== verification/Response_Buffer.thy ===== *)
theory Response_Buffer
  imports JS_Values
begin

text \<open>
  \<^verbatim>\<open>apps/api/src/common/bounded-response-buffer.ts\<close>: the body of a response is read
  into one buffer of its own, within a limit of bytes.

  \<^item> Buffers are objects: \<open>cl_memory\<close> is the list of those allocated while reading, and the
    variables of the code hold indices into it.  A fresh buffer holds arbitrary bytes,
    \<open>junk i n\<close> at position \<open>n\<close> of the \<open>i\<close>th one.
  \<^item> The stream is the list of the chunks its reads deliver, and how it ends.
  \<^item> \<open>aborted k\<close> tells whether the signal is found aborted at the \<open>k\<close>th check; without a signal it
    never is.
  \<^item> \<^verbatim>\<open>maxBytes - totalBytes\<close> and \<^verbatim>\<open>maxBytes - allocatedBytes\<close> are subtractions on \<open>nat\<close>: the
    invariant shows that neither is negative.
\<close>

section \<open>Header\<close>

type_synonym byte = "8 word"

definition MAX_SAFE_LENGTH :: int where "MAX_SAFE_LENGTH = 9007199254740991"

definition readUncompressedContentLength :: "js_string option \<Rightarrow> js_string option \<Rightarrow> nat option" where
  "readUncompressedContentLength encoding_header length_header =
     (let encoding = map_option (\<lambda>s. to_lower (trim s)) encoding_header;
          raw = map_option trim length_header
      in if (case encoding of None \<Rightarrow> False | Some e \<Rightarrow> e \<noteq> [] \<and> e \<noteq> ascii ''identity'') then None
         else
           (case raw of
              None \<Rightarrow> None
            | Some r \<Rightarrow>
                if r = [] \<or> \<not> list_all is_digit r then None
                else if digits_value r \<le> MAX_SAFE_LENGTH then Some (nat (digits_value r)) else None))"

section \<open>Collector\<close>

datatype read_error = Range_Error | Empty_Body | Limit_Exceeded | Aborted | Read_Failed

record collector =
  cl_memory :: "byte list list"
  cl_target :: "nat option"
  cl_allocatedBytes :: nat
  cl_tail :: "nat option"
  cl_tailBytes :: nat
  cl_blocks :: "nat list"
  cl_totalBytes :: nat

definition RESPONSE_BUFFER_BLOCK_BYTES :: nat where "RESPONSE_BUFFER_BLOCK_BYTES = 64 * 1024"

definition empty_collector :: collector where
  "empty_collector = \<lparr>cl_memory = [], cl_target = None, cl_allocatedBytes = 0, cl_tail = None,
     cl_tailBytes = 0, cl_blocks = [], cl_totalBytes = 0\<rparr>"

definition alloc :: "(nat \<Rightarrow> nat \<Rightarrow> byte) \<Rightarrow> nat \<Rightarrow> collector \<Rightarrow> collector" where
  "alloc junk n c = c\<lparr>cl_memory := cl_memory c @ [map (junk (length (cl_memory c))) [0..<n]]\<rparr>"

definition blit :: "nat \<Rightarrow> 'a list \<Rightarrow> 'a list \<Rightarrow> 'a list" where
  "blit off bs buf = take off buf @ bs @ drop (off + length bs) buf"

definition buffer_set :: "nat \<Rightarrow> byte list \<Rightarrow> nat \<Rightarrow> collector \<Rightarrow> collector" where
  "buffer_set i bs off c = c\<lparr>cl_memory := (cl_memory c)[i := blit off bs (cl_memory c ! i)]\<rparr>"

definition declare_target :: "(nat \<Rightarrow> nat \<Rightarrow> byte) \<Rightarrow> nat option \<Rightarrow> collector \<Rightarrow> collector" where
  "declare_target junk declaredLength c =
     (case declaredLength of
        Some n \<Rightarrow>
          if n > 0 then (alloc junk n c)\<lparr>cl_target := Some (length (cl_memory c)), cl_allocatedBytes := n\<rparr> else c
      | None \<Rightarrow> c)"

definition new_block :: "(nat \<Rightarrow> nat \<Rightarrow> byte) \<Rightarrow> nat \<Rightarrow> collector \<Rightarrow> collector" where
  "new_block junk maxBytes c =
     (let i = length (cl_memory c);
          n = min RESPONSE_BUFFER_BLOCK_BYTES (maxBytes - cl_allocatedBytes c)
      in (alloc junk n c)\<lparr>cl_tail := Some i, cl_allocatedBytes := cl_allocatedBytes c + n,
            cl_blocks := cl_blocks c @ [i], cl_tailBytes := 0\<rparr>)"

definition tail_full :: "collector \<Rightarrow> bool" where
  "tail_full c = (case cl_tail c of None \<Rightarrow> True | Some i \<Rightarrow> cl_tailBytes c = length (cl_memory c ! i))"

text \<open>One turn of the inner loop: the collector with the bytes copied, and how many they were.\<close>

definition copy_turn :: "(nat \<Rightarrow> nat \<Rightarrow> byte) \<Rightarrow> nat \<Rightarrow> byte list \<Rightarrow> nat \<Rightarrow> collector \<Rightarrow> collector \<times> nat" where
  "copy_turn junk maxBytes v cursor c =
     (let c = (if tail_full c then new_block junk maxBytes c else c);
          i = the (cl_tail c);
          copiedBytes = min (length v - cursor) (length (cl_memory c ! i) - cl_tailBytes c);
          c = buffer_set i (take copiedBytes (drop cursor v)) (cl_tailBytes c) c
      in (c\<lparr>cl_tailBytes := cl_tailBytes c + copiedBytes\<rparr>, copiedBytes))"

text \<open>The inner loop would not end if a turn copied nothing.\<close>

partial_function (option) copy_loop ::
    "(nat \<Rightarrow> nat \<Rightarrow> byte) \<Rightarrow> nat \<Rightarrow> byte list \<Rightarrow> nat \<Rightarrow> collector \<Rightarrow> collector option" where
  "copy_loop junk maxBytes v cursor c =
     (if cursor < length v then
        (case copy_turn junk maxBytes v cursor c of
           (c', n) \<Rightarrow> copy_loop junk maxBytes v (cursor + n) c')
      else Some c)"

definition leave_target :: "collector \<Rightarrow> collector" where
  "leave_target c =
     (case cl_target c of
        Some i \<Rightarrow>
          c\<lparr>cl_blocks := cl_blocks c @ [i], cl_tail := Some i, cl_tailBytes := cl_totalBytes c, cl_target := None\<rparr>
      | None \<Rightarrow> c)"

definition collect_chunk ::
    "(nat \<Rightarrow> nat \<Rightarrow> byte) \<Rightarrow> nat \<Rightarrow> byte list \<Rightarrow> collector \<Rightarrow> (read_error + collector) option" where
  "collect_chunk junk maxBytes v c =
     (if length v > maxBytes - cl_totalBytes c then Some (Inl Limit_Exceeded)
      else if length v = 0 then Some (Inr c)
      else
        map_option (\<lambda>c. Inr (c\<lparr>cl_totalBytes := cl_totalBytes c + length v\<rparr>))
          (case cl_target c of
             Some i \<Rightarrow>
               if cl_totalBytes c + length v \<le> length (cl_memory c ! i)
               then Some (buffer_set i v (cl_totalBytes c) c)
               else copy_loop junk maxBytes v 0 (leave_target c)
           | None \<Rightarrow> copy_loop junk maxBytes v 0 (leave_target c)))"

datatype stream_end = Ends | Fails

fun read_loop ::
    "(nat \<Rightarrow> nat \<Rightarrow> byte) \<Rightarrow> nat \<Rightarrow> (nat \<Rightarrow> bool) \<Rightarrow> stream_end \<Rightarrow> nat \<Rightarrow> byte list list \<Rightarrow> collector \<Rightarrow>
       (collector \<times> read_error option) option" where
  "read_loop junk maxBytes aborted ending k [] c =
     Some (c, if ending = Fails then Some Read_Failed else if aborted k then Some Aborted else None)"
| "read_loop junk maxBytes aborted ending k (v # vs) c =
     (if aborted k then Some (c, Some Aborted)
      else
        (case collect_chunk junk maxBytes v c of
           None \<Rightarrow> None
         | Some (Inl e) \<Rightarrow> Some (c, Some e)
         | Some (Inr c') \<Rightarrow> read_loop junk maxBytes aborted ending (Suc k) vs c'))"

section \<open>Result\<close>

fun copy_blocks :: "byte list list \<Rightarrow> nat \<Rightarrow> nat \<Rightarrow> byte list \<Rightarrow> byte list" where
  "copy_blocks [] totalBytes resultOffset result = result"
| "copy_blocks (b # bs) totalBytes resultOffset result =
     (let copiedBytes = min (length b) (totalBytes - resultOffset)
      in copy_blocks bs totalBytes (resultOffset + copiedBytes) (blit resultOffset (take copiedBytes b) result))"

definition finish_read :: "(nat \<Rightarrow> nat \<Rightarrow> byte) \<Rightarrow> collector \<Rightarrow> read_error + byte list" where
  "finish_read junk c =
     (let m = cl_memory c; total_n = cl_totalBytes c;
          copied = (\<lambda>is. copy_blocks (map ((!) m) is) total_n 0 (map (junk (length m)) [0..<total_n]))
      in if total_n = 0 then Inl Empty_Body
         else
           (case cl_target c of
              Some i \<Rightarrow> Inr (if total_n = length (m ! i) then m ! i else copied [i])
            | None \<Rightarrow>
                Inr (if length (cl_blocks c) = 1 \<and> cl_tailBytes c = length (m ! hd (cl_blocks c))
                     then m ! hd (cl_blocks c) else copied (cl_blocks c))))"

record read_outcome =
  ro_result :: "read_error + byte list"
  ro_memory :: "byte list list"
  ro_cancelled :: bool
  ro_released :: bool

definition outcome :: "read_error + byte list \<Rightarrow> byte list list \<Rightarrow> read_outcome" where
  "outcome result m =
     \<lparr>ro_result = result, ro_memory = m, ro_cancelled = (\<exists>e. result = Inl e), ro_released = True\<rparr>"

record response =
  rs_contentEncoding :: "js_string option"
  rs_contentLength :: "js_string option"
  rs_body :: "(byte list list \<times> stream_end) option"

text \<open>
  \<open>None\<close> means that the call never returns.  The limit is \<open>None\<close> for a number that is no integer.
  On an error the reader is cancelled, and in any case its lock is released.
\<close>

definition readBoundedResponseBuffer ::
    "(nat \<Rightarrow> nat \<Rightarrow> byte) \<Rightarrow> int option \<Rightarrow> (nat \<Rightarrow> bool) \<Rightarrow> response \<Rightarrow> read_outcome option" where
  "readBoundedResponseBuffer junk limit aborted response =
     (case limit of
        None \<Rightarrow> Some \<lparr>ro_result = Inl Range_Error, ro_memory = [], ro_cancelled = False, ro_released = False\<rparr>
      | Some maxBytes \<Rightarrow>
          if maxBytes > MAX_SAFE_LENGTH \<or> maxBytes < 1 then
            Some \<lparr>ro_result = Inl Range_Error, ro_memory = [], ro_cancelled = False, ro_released = False\<rparr>
          else
            (case rs_body response of
               None \<Rightarrow> Some \<lparr>ro_result = Inl Empty_Body, ro_memory = [], ro_cancelled = False, ro_released = False\<rparr>
             | Some (chunks, ending) \<Rightarrow>
                 if aborted 0 then Some (outcome (Inl Aborted) [])
                 else
                   (let declaredLength =
                          readUncompressedContentLength (rs_contentEncoding response) (rs_contentLength response)
                    in if (case declaredLength of None \<Rightarrow> False | Some n \<Rightarrow> n > nat maxBytes)
                       then Some (outcome (Inl Limit_Exceeded) [])
                       else
                         (case read_loop junk (nat maxBytes) aborted ending 1 chunks
                                 (declare_target junk declaredLength empty_collector) of
                            None \<Rightarrow> None
                          | Some (c, Some e) \<Rightarrow> Some (outcome (Inl e) (cl_memory c))
                          | Some (c, None) \<Rightarrow> Some (outcome (finish_read junk c) (cl_memory c))))))"

section \<open>Invariant\<close>

text \<open>
  \<open>bs\<close> are the bytes read so far.  Either they fill the target from its start, or the buffers in
  the order of their allocation hold them, the last one being the tail.
\<close>

definition laid_out :: "byte list \<Rightarrow> collector \<Rightarrow> bool" where
  "laid_out bs c \<longleftrightarrow>
     cl_blocks c = [0..<length (cl_memory c)] \<and>
     cl_tail c = (if cl_memory c = [] then None else Some (length (cl_memory c) - 1)) \<and>
     (cl_memory c \<noteq> [] \<longrightarrow>
        length bs + length (last (cl_memory c)) = cl_allocatedBytes c + cl_tailBytes c \<and>
        cl_tailBytes c \<le> length (last (cl_memory c)))"

definition few_blocks :: "nat \<Rightarrow> collector \<Rightarrow> bool" where
  "few_blocks maxBytes c \<longleftrightarrow>
     (cl_allocatedBytes c < maxBytes \<longrightarrow>
        RESPONSE_BUFFER_BLOCK_BYTES * (length (cl_memory c) - 1) \<le> cl_allocatedBytes c) \<and>
     RESPONSE_BUFFER_BLOCK_BYTES * (length (cl_memory c) - 2) \<le> cl_allocatedBytes c"

definition holds :: "nat \<Rightarrow> byte list \<Rightarrow> collector \<Rightarrow> bool" where
  "holds maxBytes bs c \<longleftrightarrow>
     cl_allocatedBytes c = length (concat (cl_memory c)) \<and> cl_allocatedBytes c \<le> maxBytes \<and>
     length bs \<le> cl_allocatedBytes c \<and> take (length bs) (concat (cl_memory c)) = bs \<and>
     few_blocks maxBytes c"

definition collector_ok :: "nat \<Rightarrow> byte list \<Rightarrow> collector \<Rightarrow> bool" where
  "collector_ok maxBytes bs c \<longleftrightarrow>
     holds maxBytes bs c \<and> cl_totalBytes c = length bs \<and>
     (case cl_target c of
        Some i \<Rightarrow> i = 0 \<and> length (cl_memory c) = 1 \<and> cl_blocks c = [] \<and> cl_tail c = None
      | None \<Rightarrow> laid_out bs c)"

lemma length_blit [simp]: "off + length bs \<le> length buf \<Longrightarrow> length (blit off bs buf) = length buf"
  by (simp add: blit_def)

lemma take_blit: "off + length bs \<le> length buf \<Longrightarrow> take (off + length bs) (blit off bs buf) = take off buf @ bs"
  by (simp add: blit_def)

lemma new_block_ok:
  assumes holds: "holds maxBytes bs c" and laid: "laid_out bs c" and full: "tail_full c"
    and room: "length bs < maxBytes"
  shows "holds maxBytes bs (new_block junk maxBytes c)" "laid_out bs (new_block junk maxBytes c)"
    "\<not> tail_full (new_block junk maxBytes c)"
proof -
  let ?n = "min RESPONSE_BUFFER_BLOCK_BYTES (maxBytes - cl_allocatedBytes c)"
  let ?c = "new_block junk maxBytes c"
  have allocated: "length bs = cl_allocatedBytes c"
  proof (cases "cl_memory c = []")
    case True
    then show ?thesis using holds by (simp add: holds_def)
  next
    case False
    then show ?thesis using laid full by (auto simp: laid_out_def tail_full_def last_conv_nth)
  qed
  have n: "0 < ?n" using room allocated by (simp add: RESPONSE_BUFFER_BLOCK_BYTES_def)
  have mem: "cl_memory ?c = cl_memory c @ [map (junk (length (cl_memory c))) [0..<?n]]"
    by (simp add: new_block_def alloc_def Let_def)
  have within: "cl_allocatedBytes c + ?n \<le> maxBytes"
    using holds by (auto simp: holds_def min_def)
  have few: "few_blocks maxBytes ?c"
    using holds room unfolding holds_def few_blocks_def allocated
    by (cases "cl_memory c") (auto simp: new_block_def alloc_def Let_def min_def RESPONSE_BUFFER_BLOCK_BYTES_def)
  show "holds maxBytes bs ?c"
    using holds few within unfolding holds_def mem by (simp add: new_block_def alloc_def Let_def)
  show "laid_out bs ?c"
    using laid allocated unfolding laid_out_def by (simp add: new_block_def alloc_def Let_def)
  show "\<not> tail_full ?c"
    using n by (simp add: tail_full_def new_block_def alloc_def Let_def)
qed

lemma copy_turn_ok:
  assumes holds: "holds maxBytes bs c" and laid: "laid_out bs c" and cursor: "cursor < length v"
    and room: "length bs + (length v - cursor) \<le> maxBytes"
    and turn: "copy_turn junk maxBytes v cursor c = (c', n)"
  shows "0 < n" "n \<le> length v - cursor" "holds maxBytes (bs @ take n (drop cursor v)) c'"
    "laid_out (bs @ take n (drop cursor v)) c'" "cl_totalBytes c' = cl_totalBytes c" "cl_target c' = cl_target c"
proof -
  define d where "d = (if tail_full c then new_block junk maxBytes c else c)"
  have "length bs < maxBytes" using room cursor by simp
  then have d: "holds maxBytes bs d" "laid_out bs d" "\<not> tail_full d"
    unfolding d_def using holds laid new_block_ok [OF holds laid] by auto
  have keep: "cl_totalBytes d = cl_totalBytes c" "cl_target d = cl_target c"
    by (simp_all add: d_def new_block_def alloc_def Let_def)
  have nonempty: "cl_memory d \<noteq> []" using d(2,3) by (auto simp: tail_full_def laid_out_def)
  then obtain init l where mem: "cl_memory d = init @ [l]" by (metis append_butlast_last_id)
  have tail: "cl_tail d = Some (length init)" "length bs + length l = cl_allocatedBytes d + cl_tailBytes d"
    "cl_tailBytes d < length l" "cl_blocks d = [0..<Suc (length init)]"
    using d(2,3) nonempty by (auto simp: laid_out_def tail_full_def mem)
  define bs' where "bs' = take n (drop cursor v)"
  have n: "n = min (length v - cursor) (length l - cl_tailBytes d)"
    and c': "c' = d\<lparr>cl_memory := init @ [blit (cl_tailBytes d) bs' l], cl_tailBytes := cl_tailBytes d + n\<rparr>"
    using turn unfolding copy_turn_def d_def [symmetric] bs'_def
    by (auto simp: Let_def tail(1) mem buffer_set_def)
  have len: "length bs' = n" unfolding bs'_def using n by simp
  have fits: "cl_tailBytes d + length bs' \<le> length l" using n len tail(3) by simp
  have off: "length bs = length (concat init) + cl_tailBytes d"
    using tail(2,3) d(1) by (simp add: holds_def mem)
  have old: "concat init @ take (cl_tailBytes d) l = bs"
    using d(1) by (simp add: holds_def mem off)
  have "take (length (bs @ bs')) (concat init @ blit (cl_tailBytes d) bs' l) = bs @ bs'"
  proof -
    have "length (bs @ bs') = length (concat init) + (cl_tailBytes d + length bs')" by (simp add: off)
    then show ?thesis
      using take_blit [OF fits] unfolding old [symmetric] by (simp only: take_append) simp
  qed
  moreover have "length (bs @ bs') \<le> cl_allocatedBytes d" using tail(2) fits by simp
  moreover have "few_blocks maxBytes c' = few_blocks maxBytes d" by (simp add: few_blocks_def c' mem)
  ultimately have "holds maxBytes (bs @ bs') c'"
    using d(1) fits unfolding holds_def by (simp add: mem c')
  moreover have "laid_out (bs @ bs') c'"
    using d(2) tail fits len by (simp add: laid_out_def c' mem)
  ultimately show "holds maxBytes (bs @ take n (drop cursor v)) c'" "laid_out (bs @ take n (drop cursor v)) c'"
    unfolding bs'_def by blast+
  show "0 < n" "n \<le> length v - cursor" using n cursor tail(3) by simp_all
  show "cl_totalBytes c' = cl_totalBytes c" "cl_target c' = cl_target c" using keep by (simp_all add: c')
qed

lemma copy_loop_ok:
  "holds maxBytes bs c \<Longrightarrow> laid_out bs c \<Longrightarrow> length bs + (length v - cursor) \<le> maxBytes \<Longrightarrow>
    \<exists>c'. copy_loop junk maxBytes v cursor c = Some c' \<and> holds maxBytes (bs @ drop cursor v) c' \<and>
      laid_out (bs @ drop cursor v) c' \<and> cl_totalBytes c' = cl_totalBytes c \<and> cl_target c' = cl_target c"
proof (induction "length v - cursor" arbitrary: cursor bs c rule: less_induct)
  case less
  show ?case
  proof (cases "cursor < length v")
    case False
    then show ?thesis using less.prems by (subst copy_loop.simps) simp
  next
    case True
    obtain c1 n where turn: "copy_turn junk maxBytes v cursor c = (c1, n)" by force
    note t = copy_turn_ok [OF less.prems(1,2) True less.prems(3) turn]
    let ?bs = "bs @ take n (drop cursor v)"
    have rest: "?bs @ drop (cursor + n) v = bs @ drop cursor v"
      by (metis append.assoc append_take_drop_id drop_drop add.commute)
    have "length v - (cursor + n) < length v - cursor" using t(1) True by simp
    moreover have "length ?bs + (length v - (cursor + n)) \<le> maxBytes"
      using less.prems(3) t(2) by simp
    ultimately have "\<exists>c'. copy_loop junk maxBytes v (cursor + n) c1 = Some c' \<and>
        holds maxBytes (?bs @ drop (cursor + n) v) c' \<and> laid_out (?bs @ drop (cursor + n) v) c' \<and>
        cl_totalBytes c' = cl_totalBytes c1 \<and> cl_target c' = cl_target c1"
      by (rule less.hyps [OF _ t(3,4)])
    then show ?thesis
      unfolding rest using True turn t(5,6) by (subst copy_loop.simps) simp
  qed
qed

lemma total_simps [simp]:
  "holds maxBytes bs (c\<lparr>cl_totalBytes := n\<rparr>) = holds maxBytes bs c"
  "laid_out bs (c\<lparr>cl_totalBytes := n\<rparr>) = laid_out bs c"
  by (simp_all add: holds_def few_blocks_def laid_out_def)

lemma collector_okD:
  assumes "collector_ok maxBytes bs c"
  shows "holds maxBytes bs c" "cl_totalBytes c = length bs"
    "cl_target c = None \<Longrightarrow> laid_out bs c"
    "cl_target c = Some i \<Longrightarrow> i = 0 \<and> (\<exists>b. cl_memory c = [b]) \<and> cl_blocks c = [] \<and> cl_tail c = None"
  using assms by (auto simp: collector_ok_def length_Suc_conv)

lemma leave_target_ok:
  assumes ok: "collector_ok maxBytes bs c"
  shows "holds maxBytes bs (leave_target c)" "laid_out bs (leave_target c)"
    "cl_totalBytes (leave_target c) = length bs" "cl_target (leave_target c) = None"
proof -
  note d = collector_okD [OF ok]
  have "holds maxBytes bs (leave_target c) \<and> laid_out bs (leave_target c) \<and>
      cl_totalBytes (leave_target c) = length bs \<and> cl_target (leave_target c) = None"
  proof (cases "cl_target c")
    case None
    then show ?thesis using d(1,2,3) by (simp add: leave_target_def)
  next
    case (Some i)
    then obtain b where b: "i = 0" "cl_memory c = [b]" "cl_blocks c = []" using d(4) by blast
    then show ?thesis
      using Some d(1,2) by (simp add: leave_target_def holds_def laid_out_def few_blocks_def)
  qed
  then show "holds maxBytes bs (leave_target c)" "laid_out bs (leave_target c)"
    "cl_totalBytes (leave_target c) = length bs" "cl_target (leave_target c) = None" by blast+
qed

lemma collect_chunk_ok:
  assumes ok: "collector_ok maxBytes bs c"
  shows "if length v > maxBytes - length bs then collect_chunk junk maxBytes v c = Some (Inl Limit_Exceeded)
    else (\<exists>c'. collect_chunk junk maxBytes v c = Some (Inr c') \<and> collector_ok maxBytes (bs @ v) c')"
proof -
  note d = collector_okD [OF ok] and l = leave_target_ok [OF ok]
  consider (over) "length v > maxBytes - length bs" | (nothing) "length v = 0" |
    (spill) "length v \<le> maxBytes - length bs" "length v > 0"
      "cl_target c = None \<or> (\<exists>i. cl_target c = Some i \<and> length bs + length v > length (cl_memory c ! i))" |
    (direct) i where "length v \<le> maxBytes - length bs" "length v > 0" "cl_target c = Some i"
      "length bs + length v \<le> length (cl_memory c ! i)"
    by (metis neq0_conv not_less option.exhaust)
  then show ?thesis
  proof cases
    case over
    then show ?thesis using d(2) by (simp add: collect_chunk_def)
  next
    case nothing
    then show ?thesis using d(2) ok by (simp add: collect_chunk_def)
  next
    case spill
    have room: "length bs + (length v - 0) \<le> maxBytes" using spill(1) d(1) unfolding holds_def by linarith
    obtain c' where c': "copy_loop junk maxBytes v 0 (leave_target c) = Some c'" "holds maxBytes (bs @ v) c'"
      "laid_out (bs @ v) c'" "cl_totalBytes c' = length bs" "cl_target c' = None"
      using copy_loop_ok [OF l(1,2) room, of junk] l(3,4) by auto
    have "collector_ok maxBytes (bs @ v) (c'\<lparr>cl_totalBytes := cl_totalBytes c' + length v\<rparr>)"
      using c'(2-5) by (simp add: collector_ok_def)
    then show ?thesis
      using spill d(2) c'(1) by (auto simp: collect_chunk_def not_le)
  next
    case direct
    obtain b where b: "i = 0" "cl_memory c = [b]" "cl_blocks c = []" "cl_tail c = None"
      using d(4) [OF direct(3)] by blast
    let ?c = "buffer_set i v (cl_totalBytes c) c\<lparr>cl_totalBytes := cl_totalBytes c + length v\<rparr>"
    have len: "length bs + length v \<le> length b" using direct(4) b by simp
    have "take (length bs) b = bs" using d(1) by (simp add: holds_def b(2))
    then have "take (length (bs @ v)) (blit (length bs) v b) = bs @ v"
      using take_blit [OF len] by simp
    then have "collector_ok maxBytes (bs @ v) ?c"
      using d(1,2) b len direct(1,3)
      by (simp add: collector_ok_def holds_def buffer_set_def few_blocks_def)
    then show ?thesis using direct d(2) by (auto simp: collect_chunk_def buffer_set_def)
  qed
qed

section \<open>Specification\<close>

text \<open>The error of a reading, if any: the first of an abort, a chunk too many, a failure, or no bytes.\<close>

fun read_spec :: "nat \<Rightarrow> (nat \<Rightarrow> bool) \<Rightarrow> stream_end \<Rightarrow> nat \<Rightarrow> nat \<Rightarrow> byte list list \<Rightarrow> read_error option" where
  "read_spec maxBytes aborted ending k so_far [] =
     (if ending = Fails then Some Read_Failed else if aborted k then Some Aborted
      else if so_far = 0 then Some Empty_Body else None)"
| "read_spec maxBytes aborted ending k so_far (v # vs) =
     (if aborted k then Some Aborted
      else if so_far + length v > maxBytes then Some Limit_Exceeded
      else read_spec maxBytes aborted ending (Suc k) (so_far + length v) vs)"

lemma read_loop_ok:
  "collector_ok maxBytes bs c \<Longrightarrow>
    \<exists>c' e bs'. read_loop junk maxBytes aborted ending k vs c = Some (c', e) \<and> collector_ok maxBytes bs' c' \<and>
      (e = None \<longrightarrow> bs' = bs @ concat vs) \<and>
      read_spec maxBytes aborted ending k (length bs) vs =
        (case e of Some x \<Rightarrow> Some x | None \<Rightarrow> if bs' = [] then Some Empty_Body else None)"
proof (induction vs arbitrary: k bs c)
  case Nil
  then show ?case by (auto intro!: exI [of _ bs])
next
  case (Cons v vs)
  note chunk = collect_chunk_ok [OF Cons.prems, of v junk]
  have le: "length bs \<le> maxBytes" using collector_okD(1) [OF Cons.prems] by (simp add: holds_def)
  consider (aborted) "aborted k" | (over) "\<not> aborted k" "length v > maxBytes - length bs" |
    (more_room) "\<not> aborted k" "length v \<le> maxBytes - length bs" by linarith
  then show ?case
  proof cases
    case aborted
    then show ?thesis using Cons.prems by (auto intro!: exI [of _ bs])
  next
    case over
    then show ?thesis using Cons.prems chunk le by (auto intro!: exI [of _ bs])
  next
    case more_room
    then obtain c' where c': "collect_chunk junk maxBytes v c = Some (Inr c')" "collector_ok maxBytes (bs @ v) c'"
      using chunk by auto
    have spec: "read_spec maxBytes aborted ending k (length bs) (v # vs) =
        read_spec maxBytes aborted ending (Suc k) (length (bs @ v)) vs"
    proof -
      have "\<not> maxBytes < length bs + length v" using more_room(2) le by linarith
      then show ?thesis using more_room(1) by simp
    qed
    show ?thesis
      unfolding spec using Cons.IH [OF c'(2), of "Suc k"] more_room(1) c'(1) by simp
  qed
qed

lemma copy_blocks_ok:
  "length result = n \<Longrightarrow> off \<le> n \<Longrightarrow>
    copy_blocks bs n off result =
      take off result @ take (n - off) (concat bs) @ drop (off + length (concat bs)) result"
proof (induction bs arbitrary: off result)
  case (Cons b bs)
  let ?k = "min (length b) (n - off)"
  let ?r = "blit off (take ?k b) result"
  have r: "length ?r = n" using Cons.prems by simp
  have "copy_blocks (b # bs) n off result = copy_blocks bs n (off + ?k) ?r" by (simp add: Let_def)
  also have "\<dots> = take (off + ?k) ?r @ take (n - (off + ?k)) (concat bs) @ drop (off + ?k + length (concat bs)) ?r"
    by (rule Cons.IH [OF r]) (use Cons.prems in simp)
  also have "take (off + ?k) ?r = take off result @ take ?k b"
    using take_blit [of off "take ?k b" result] Cons.prems by simp
  also have "drop (off + ?k + length (concat bs)) ?r = drop (off + length (concat (b # bs))) result"
    using Cons.prems by (cases "length b \<le> n - off") (auto simp: blit_def min_def ac_simps)
  finally show ?case using Cons.prems by (cases "length b \<le> n - off") (auto simp: min_def Let_def)
qed simp

lemma finish_read_ok:
  assumes ok: "collector_ok maxBytes bs c"
  shows "finish_read junk c = (if bs = [] then Inl Empty_Body else Inr bs)"
proof (cases "bs = []")
  case True
  then show ?thesis using collector_okD(2) [OF ok] by (simp add: finish_read_def Let_def)
next
  case False
  note d = collector_okD [OF ok]
  have held: "take (length bs) (concat (cl_memory c)) = bs" "length bs \<le> length (concat (cl_memory c))"
    using d(1) by (simp_all add: holds_def)
  have copied: "copy_blocks ms (length bs) 0 (map f [0..<length bs]) = bs"
    if "concat ms = concat (cl_memory c)" for ms f
    using copy_blocks_ok [of "map f [0..<length bs]" "length bs" 0 ms] held that by simp
  show ?thesis
  proof (cases "cl_target c")
    case (Some i)
    then obtain b where b: "i = 0" "cl_memory c = [b]" using d(4) by blast
    have "concat (cl_memory c) = b" by (simp add: b(2))
    then have "length bs = length b \<Longrightarrow> b = bs" by (metis held(1) order_refl take_all)
    moreover have "finish_read junk c = Inr (if length bs = length b then b
        else copy_blocks [b] (length bs) 0 (map (junk 1) [0..<length bs]))"
      using Some False d(2) b by (simp add: finish_read_def Let_def del: copy_blocks.simps)
    ultimately show ?thesis using copied [of "[b]"] b(2) False by (simp del: copy_blocks.simps)
  next
    case None
    have blocks: "cl_blocks c = [0..<length (cl_memory c)]" using d(3) [OF None] by (simp add: laid_out_def)
    then have all: "map ((!) (cl_memory c)) (cl_blocks c) = cl_memory c" by (simp add: map_nth)
    show ?thesis
    proof (cases "length (cl_blocks c) = 1 \<and> cl_tailBytes c = length (cl_memory c ! hd (cl_blocks c))")
      case True
      then obtain b where b: "cl_memory c = [b]" using blocks by (auto simp: length_Suc_conv)
      have tail: "cl_tailBytes c = length b" using True blocks b by simp
      have "length bs + length b = cl_allocatedBytes c + cl_tailBytes c" "cl_allocatedBytes c = length b"
        using d(1) d(3) [OF None] b by (simp_all add: laid_out_def holds_def)
      then have "length bs = length b" using tail by simp
      moreover have "concat (cl_memory c) = b" by (simp add: b)
      ultimately have "b = bs" by (metis held(1) order_refl take_all)
      moreover have "finish_read junk c = Inr b"
        using True False d(2) b blocks by (simp add: finish_read_def Let_def None)
      ultimately show ?thesis using False by simp
    next
      case no: False
      then show ?thesis
        using None False d(2) copied [of "cl_memory c"] by (auto simp: finish_read_def Let_def all)
    qed
  qed
qed

lemma declare_target_ok:
  "(case declared of None \<Rightarrow> True | Some n \<Rightarrow> n \<le> maxBytes) \<Longrightarrow>
    collector_ok maxBytes [] (declare_target junk declared empty_collector)"
  by (cases declared)
    (auto simp: declare_target_def empty_collector_def alloc_def collector_ok_def holds_def few_blocks_def
      laid_out_def)

definition response_spec :: "int option \<Rightarrow> (nat \<Rightarrow> bool) \<Rightarrow> response \<Rightarrow> read_error + byte list" where
  "response_spec limit aborted r =
     (case limit of
        None \<Rightarrow> Inl Range_Error
      | Some m \<Rightarrow>
          if m > MAX_SAFE_LENGTH \<or> m < 1 then Inl Range_Error
          else
            (case rs_body r of
               None \<Rightarrow> Inl Empty_Body
             | Some (chunks, ending) \<Rightarrow>
                 if aborted 0 then Inl Aborted
                 else if (case readUncompressedContentLength (rs_contentEncoding r) (rs_contentLength r) of
                            None \<Rightarrow> False | Some n \<Rightarrow> n > nat m) then Inl Limit_Exceeded
                 else
                   (case read_spec (nat m) aborted ending 1 0 chunks of
                      Some e \<Rightarrow> Inl e
                    | None \<Rightarrow> Inr (concat chunks))))"

lemma reading:
  assumes "limit = Some m" "\<not> (m > MAX_SAFE_LENGTH \<or> m < 1)" "rs_body r = Some (chunks, ending)" "\<not> aborted 0"
    and declared: "\<not> (case readUncompressedContentLength (rs_contentEncoding r) (rs_contentLength r) of
           None \<Rightarrow> False | Some n \<Rightarrow> n > nat m)"
  obtains c bs where "collector_ok (nat m) bs c"
    "readBoundedResponseBuffer junk limit aborted r = Some (outcome (response_spec limit aborted r) (cl_memory c))"
proof -
  let ?declared = "readUncompressedContentLength (rs_contentEncoding r) (rs_contentLength r)"
  have start: "collector_ok (nat m) [] (declare_target junk ?declared empty_collector)"
    using declared by (intro declare_target_ok) (auto split: option.splits)
  obtain c e bs where run: "read_loop junk (nat m) aborted ending 1 chunks
        (declare_target junk ?declared empty_collector) = Some (c, e)"
    "collector_ok (nat m) bs c" "e = None \<Longrightarrow> bs = concat chunks"
    "read_spec (nat m) aborted ending 1 0 chunks =
       (case e of Some x \<Rightarrow> Some x | None \<Rightarrow> if bs = [] then Some Empty_Body else None)"
    using read_loop_ok [OF start, of junk aborted ending 1 chunks] by auto
  have "readBoundedResponseBuffer junk limit aborted r = Some (outcome (response_spec limit aborted r) (cl_memory c))"
    using assms run finish_read_ok [OF run(2), of junk]
    unfolding readBoundedResponseBuffer_def response_spec_def
    by (cases e) (simp_all add: Let_def)
  then show ?thesis using run(2) that by blast
qed

lemma stopped_early:
  assumes "limit = Some m" "\<not> (m > MAX_SAFE_LENGTH \<or> m < 1)" "rs_body r = Some (chunks, ending)"
    and stop: "aborted 0 \<or> (case readUncompressedContentLength (rs_contentEncoding r) (rs_contentLength r) of
           None \<Rightarrow> False | Some n \<Rightarrow> n > nat m)"
  obtains e where "e \<noteq> Range_Error" "response_spec limit aborted r = Inl e"
    "readBoundedResponseBuffer junk limit aborted r = Some (outcome (Inl e) [])"
proof (cases "aborted 0")
  case True
  then show ?thesis using assms that [of Aborted] by (simp add: readBoundedResponseBuffer_def response_spec_def)
next
  case False
  then have "(case readUncompressedContentLength (rs_contentEncoding r) (rs_contentLength r) of
           None \<Rightarrow> False | Some n \<Rightarrow> n > nat m) = True" using stop by simp
  then show ?thesis
    using assms(1-3) False that [of Limit_Exceeded]
    unfolding readBoundedResponseBuffer_def response_spec_def Let_def by simp
qed

section \<open>Properties\<close>

text \<open>
  C28: Reading always ends, with exactly the bytes of the stream in order, or with the first error
  that occurs: a limit that is no positive safe integer, no body, an abort, a declared or actual
  size above the limit, a failing stream, no bytes.  Neither the declared length, true or false,
  nor the content of fresh buffers, nor the way the bytes are cut into chunks has any influence
  beyond the check of the declared length, and once the reader is taken it is released, and
  cancelled on an error.
\<close>

theorem response_read_exactly:
  "case readBoundedResponseBuffer junk limit aborted r of
     None \<Rightarrow> False
   | Some out \<Rightarrow>
       ro_result out = response_spec limit aborted r \<and>
       (if ro_result out = Inl Range_Error \<or> rs_body r = None
        then \<not> ro_cancelled out \<and> \<not> ro_released out
        else ro_released out \<and> ro_cancelled out = (\<exists>e. ro_result out = Inl e))"
proof -
  have range: "read_spec n aborted ending k so_far vs \<noteq> Some Range_Error" for n ending k so_far vs
    by (induction vs arbitrary: k so_far) auto
  consider (bad) "\<forall>m. limit = Some m \<longrightarrow> m > MAX_SAFE_LENGTH \<or> m < 1" | (bodiless) "rs_body r = None" |
    (body) m chunks ending where "limit = Some m" "\<not> (m > MAX_SAFE_LENGTH \<or> m < 1)" "rs_body r = Some (chunks, ending)"
    by (metis option.exhaust surj_pair)
  then show ?thesis
  proof cases
    case body
    note b = body(1,2,3)
    show ?thesis
    proof (cases "aborted 0 \<or> (case readUncompressedContentLength (rs_contentEncoding r) (rs_contentLength r) of
           None \<Rightarrow> False | Some n \<Rightarrow> n > nat m)")
      case True
      obtain e where "e \<noteq> Range_Error" "response_spec limit aborted r = Inl e"
        "readBoundedResponseBuffer junk limit aborted r = Some (outcome (Inl e) [])"
        by (rule stopped_early [where aborted = aborted, OF b True])
      then show ?thesis using b(3) by (simp add: outcome_def)
    next
      case False
      then have no: "\<not> aborted 0" "\<not> (case readUncompressedContentLength (rs_contentEncoding r) (rs_contentLength r) of
           None \<Rightarrow> False | Some n \<Rightarrow> n > nat m)" by simp_all
      obtain c bs where "collector_ok (nat m) bs c" and "readBoundedResponseBuffer junk limit aborted r =
          Some (outcome (response_spec limit aborted r) (cl_memory c))"
        by (rule reading [where aborted = aborted and junk = junk, OF b no])
      moreover have "response_spec limit aborted r \<noteq> Inl Range_Error"
        using False b range [of "nat m" ending 1 0 chunks]
        by (cases "read_spec (nat m) aborted ending 1 0 chunks") (simp_all add: response_spec_def)
      ultimately show ?thesis using b(3) by (simp add: outcome_def)
    qed
  qed (auto simp: readBoundedResponseBuffer_def response_spec_def split: option.split)
qed

text \<open>
  The buffers allocated while reading never hold more bytes than the limit in all, however
  large the declared length, and they are few: apart from the first and the last they have 64
  KiB each.  The result has its own length exactly, between one byte and the limit.
\<close>

theorem response_memory_bounded:
  "case readBoundedResponseBuffer junk limit aborted r of
     None \<Rightarrow> False
   | Some out \<Rightarrow>
       length (concat (ro_memory out)) \<le> nat (case limit of None \<Rightarrow> 0 | Some m \<Rightarrow> m) \<and>
       RESPONSE_BUFFER_BLOCK_BYTES * (length (ro_memory out) - 2) \<le> nat (case limit of None \<Rightarrow> 0 | Some m \<Rightarrow> m) \<and>
       (case ro_result out of
          Inl e \<Rightarrow> True
        | Inr bs \<Rightarrow> 0 < length bs \<and> length bs \<le> nat (case limit of None \<Rightarrow> 0 | Some m \<Rightarrow> m))"
proof -
  have size: "read_spec n aborted ending k so_far vs = None \<Longrightarrow> so_far \<le> n \<Longrightarrow>
      0 < so_far + length (concat vs) \<and> so_far + length (concat vs) \<le> n" for n ending k so_far vs
  proof (induction vs arbitrary: k so_far)
    case (Cons v vs)
    then have "read_spec n aborted ending (Suc k) (so_far + length v) vs = None" "so_far + length v \<le> n"
      by (simp_all split: if_splits)
    from Cons.IH [OF this] show ?case by simp
  qed (simp split: if_splits)
  consider (bad) "\<forall>m. limit = Some m \<longrightarrow> m > MAX_SAFE_LENGTH \<or> m < 1" | (bodiless) "rs_body r = None" |
    (body) m chunks ending where "limit = Some m" "\<not> (m > MAX_SAFE_LENGTH \<or> m < 1)" "rs_body r = Some (chunks, ending)"
    by (metis option.exhaust surj_pair)
  then show ?thesis
  proof cases
    case body
    note b = body(1,2,3)
    show ?thesis
    proof (cases "aborted 0 \<or> (case readUncompressedContentLength (rs_contentEncoding r) (rs_contentLength r) of
           None \<Rightarrow> False | Some n \<Rightarrow> n > nat m)")
      case True
      obtain e where "readBoundedResponseBuffer junk limit aborted r = Some (outcome (Inl e) [])"
        by (rule stopped_early [where aborted = aborted, OF b True])
      then show ?thesis by (simp add: outcome_def)
    next
      case False
      then have no: "\<not> aborted 0" "\<not> (case readUncompressedContentLength (rs_contentEncoding r) (rs_contentLength r) of
           None \<Rightarrow> False | Some n \<Rightarrow> n > nat m)" by simp_all
      obtain c bs where c: "collector_ok (nat m) bs c" "readBoundedResponseBuffer junk limit aborted r =
          Some (outcome (response_spec limit aborted r) (cl_memory c))"
        by (rule reading [where aborted = aborted and junk = junk, OF b no])
      have held: "length (concat (cl_memory c)) \<le> nat m"
        "RESPONSE_BUFFER_BLOCK_BYTES * (length (cl_memory c) - 2) \<le> nat m"
        using collector_okD(1) [OF c(1)] unfolding holds_def few_blocks_def by linarith+
      have "case response_spec limit aborted r of
          Inl e \<Rightarrow> True | Inr bs \<Rightarrow> 0 < length bs \<and> length bs \<le> nat m"
        using size [of "nat m" ending 1 0 chunks] False b
        by (auto simp: response_spec_def split: option.split)
      then show ?thesis using held b(1) unfolding c(2) by (simp add: outcome_def split: sum.splits)
    qed
  qed (auto simp: readBoundedResponseBuffer_def split: option.split)
qed

end
