(* ===== verification/Api_Budget.thy ===== *)
theory Api_Budget
  imports Prelude Complex_Main
begin

text \<open>
  \<^verbatim>\<open>apps/api/src/max/max-moderation-api-budget.ts\<close>: the calls of the messenger's API
  made to enforce a mute are bounded per chat and per muted user by two token buckets in Redis, and
  per attempt by a permit.

  \<^item> A Redis hash is the fields the script reads; a key carries the time it expires.  Redis time is an
    argument, in milliseconds.
  \<^item> Tokens are rationals.  The script's numbers are multiples of 1/500, which Lua stores with 14
    digits: the binary rounding of a sum is undone when it is stored.
  \<^item> The digest of an identifier is an argument.
  \<^item> \<^verbatim>\<open>run\<close> is cut at its waits: \<open>run_attempt\<close> up to the call of the callback, then the
    requests of the callback and of nested runs on the permit, then its closing.
\<close>

section \<open>The script\<close>

text \<open>A field as \<^verbatim>\<open>tonumber\<close> reads it.\<close>

datatype lua_field = Nil_Field | Finite rat | Non_Finite

record bucket =
  bk_tokens :: lua_field
  bk_lastRefillAtMs :: lua_field
  bk_level :: lua_field
  bk_cooldownUntilMs :: lua_field

datatype budget_value = Hash bucket | Other_Type

datatype budget_key = Chat_Key js_string | Actor_Key js_string js_string

type_synonym budget_store = "budget_key \<Rightarrow> (budget_value \<times> int) option"

definition maxMuteApiBudgetKeys ::
    "(js_string \<Rightarrow> js_string) \<Rightarrow> js_string \<Rightarrow> js_string \<Rightarrow> budget_key \<times> budget_key" where
  "maxMuteApiBudgetKeys digest chatId subjectUserId =
     (Chat_Key (digest chatId), Actor_Key (digest chatId) (digest subjectUserId))"

definition budget_get :: "int \<Rightarrow> budget_store \<Rightarrow> budget_key \<Rightarrow> budget_value option" where
  "budget_get now s k =
     (case s k of Some (v, expires) \<Rightarrow> if now < expires then Some v else None | None \<Rightarrow> None)"

datatype bucket_read = Read_Error | Malformed | Bucket (rd_tokens: rat) (rd_level: rat) (rd_until: rat)

definition or_zero :: "lua_field \<Rightarrow> lua_field" where
  "or_zero f = (case f of Nil_Field \<Rightarrow> Finite 0 | _ \<Rightarrow> f)"

definition refilled :: "rat \<Rightarrow> rat \<Rightarrow> rat \<Rightarrow> rat \<Rightarrow> int \<Rightarrow> rat" where
  "refilled capacity refill tokens lastAt now =
     min capacity (tokens + max 0 (of_int now - lastAt) * refill / 60000)"

definition read_bucket :: "rat \<Rightarrow> rat \<Rightarrow> bool \<Rightarrow> int \<Rightarrow> budget_value option \<Rightarrow> bucket_read" where
  "read_bucket capacity refill actor now v =
     (case v of
        None \<Rightarrow> Bucket capacity 0 0
      | Some Other_Type \<Rightarrow> Read_Error
      | Some (Hash row) \<Rightarrow>
          (case (bk_tokens row, bk_lastRefillAtMs row,
                 if actor then or_zero (bk_level row) else Finite 0,
                 if actor then or_zero (bk_cooldownUntilMs row) else Finite 0) of
             (Finite tokens, Finite lastAt, Finite level, Finite untilAt) \<Rightarrow>
               if tokens < 0 \<or> tokens > capacity \<or> lastAt < 0 \<or> lastAt > of_int now + 1000 \<or>
                  level < 0 \<or> level > 3 \<or> level \<noteq> of_int \<lfloor>level\<rfloor> \<or>
                  untilAt < 0 \<or> untilAt > of_int now + 3600000
               then Malformed
               else Bucket (refilled capacity refill tokens lastAt now) level untilAt
           | _ \<Rightarrow> Malformed))"

definition cooldown_delay :: "rat \<Rightarrow> int" where
  "cooldown_delay level = (if level = 1 then 300000 else if level = 2 then 900000 else 3600000)"

definition write_actor :: "int \<Rightarrow> rat \<Rightarrow> rat \<Rightarrow> int \<Rightarrow> budget_key \<Rightarrow> budget_store \<Rightarrow> budget_store" where
  "write_actor now tokens level untilAt k s =
     s(k \<mapsto> (Hash \<lparr>bk_tokens = Finite tokens, bk_lastRefillAtMs = Finite (of_int now), bk_level = Finite level,
                  bk_cooldownUntilMs = Finite (of_int untilAt)\<rparr>, now + 86400000))"

definition write_chat :: "int \<Rightarrow> rat \<Rightarrow> budget_key \<Rightarrow> budget_store \<Rightarrow> budget_store" where
  "write_chat now tokens k s =
     s(k \<mapsto> (case budget_get now s k of
               Some (Hash row) \<Rightarrow> Hash (row\<lparr>bk_tokens := Finite tokens, bk_lastRefillAtMs := Finite (of_int now)\<rparr>)
             | _ \<Rightarrow> Hash \<lparr>bk_tokens = Finite tokens, bk_lastRefillAtMs = Finite (of_int now),
                        bk_level = Nil_Field, bk_cooldownUntilMs = Nil_Field\<rparr>, now + 60000))"

text \<open>
  The reply is three integers: granted or not, the time to wait, the reason.  \<open>None\<close> is an error of
  the script.
\<close>

definition reserve_script ::
    "int \<Rightarrow> budget_key \<Rightarrow> budget_key \<Rightarrow> budget_store \<Rightarrow> budget_store \<times> (int \<times> int \<times> int) option" where
  "reserve_script now actorKey chatKey s =
     (case read_bucket 72 120 True now (budget_get now s actorKey) of
        Read_Error \<Rightarrow> (s, None)
      | actor \<Rightarrow>
          (case read_bucket 144 480 False now (budget_get now s chatKey) of
             Read_Error \<Rightarrow> (s, None)
           | chat \<Rightarrow>
               if actor = Malformed \<or> chat = Malformed then (s, Some (0, 5000, 3))
               else if rd_until actor > of_int now then (s, Some (0, \<lfloor>rd_until actor - of_int now\<rfloor>, 1))
               else if rd_tokens chat < 12 then (s, Some (0, \<lceil>(12 - rd_tokens chat) * 60000 / 480\<rceil>, 2))
               else if rd_tokens actor < 12 then
                 (let level = min 3 (rd_level actor + 1); delay = cooldown_delay level
                  in (write_actor now (rd_tokens actor) level (now + delay) actorKey s, Some (0, delay, 1)))
               else
                 (write_chat now (rd_tokens chat - 12) chatKey
                    (write_actor now (rd_tokens actor - 12) (rd_level actor) 0 actorKey s), Some (1, 0, 0))))"

section \<open>Attempts\<close>

record mute_scope =
  ms_chatId :: js_string
  ms_subjectUserId :: js_string
  ms_intentId :: js_string
  ms_attemptCount :: int
  ms_deadlineAtMs :: "int option"

datatype budget_reason = Actor_Cooldown | Chat_Budget | Attempt_Budget | Unavailable | Expired

record attempt_permit =
  ap_scope :: mute_scope
  ap_expiresAtMs :: int
  ap_remaining :: int
  ap_closed :: bool

record budget_service =
  bs_closed :: bool
  bs_unavailableUntilMs :: int

definition REQUESTS_PER_ATTEMPT :: int where "REQUESTS_PER_ATTEMPT = 12"
definition MAX_ATTEMPT_DURATION_MS :: int where "MAX_ATTEMPT_DURATION_MS = 60000"
definition UNAVAILABLE_RETRY_MS :: int where "UNAVAILABLE_RETRY_MS = 5000"

definition assertLive :: "bool \<Rightarrow> int \<Rightarrow> attempt_permit \<Rightarrow> (budget_reason \<times> int) option" where
  "assertLive service_closed now permit =
     (if service_closed \<or> ap_closed permit \<or> ap_expiresAtMs permit \<le> now then Some (Expired, 1000) else None)"

definition run_nested ::
    "bool \<Rightarrow> int \<Rightarrow> mute_scope \<Rightarrow> attempt_permit \<Rightarrow> (budget_reason \<times> int) option" where
  "run_nested service_closed now scope permit =
     (if ms_chatId (ap_scope permit) \<noteq> ms_chatId scope \<or>
         ms_subjectUserId (ap_scope permit) \<noteq> ms_subjectUserId scope \<or>
         ms_intentId (ap_scope permit) \<noteq> ms_intentId scope \<or>
         ms_attemptCount (ap_scope permit) \<noteq> ms_attemptCount scope
      then Some (Attempt_Budget, 1000)
      else assertLive service_closed now permit)"

definition consumeRequest ::
    "bool \<Rightarrow> int \<Rightarrow> attempt_permit \<Rightarrow> (budget_reason \<times> int) + attempt_permit" where
  "consumeRequest service_closed now permit =
     (case assertLive service_closed now permit of
        Some e \<Rightarrow> Inl e
      | None \<Rightarrow>
          if ap_remaining permit \<le> 0 then Inl (Attempt_Budget, 1000)
          else Inr (permit\<lparr>ap_remaining := ap_remaining permit - 1\<rparr>))"

definition connection_refused :: "int \<Rightarrow> bool \<Rightarrow> budget_service \<Rightarrow> bool" where
  "connection_refused now ready s \<longleftrightarrow> bs_closed s \<or> bs_unavailableUntilMs s > now \<or> \<not> ready"

text \<open>
  What came of the call of the script: it did not reach Redis, its answer was lost, the client
  returned something else than three finite numbers, or it was answered.
\<close>

datatype eval_fate = Not_Run | Answer_Lost | Odd_Answer | Answered

definition reply_error :: "int \<times> int \<times> int \<Rightarrow> budget_reason \<times> int" where
  "reply_error reply =
     (case reply of (granted, wait, reason) \<Rightarrow>
        (if reason = 1 then Actor_Cooldown else if reason = 2 then Chat_Budget else Unavailable,
         max 1000 (min 3600000 wait)))"

text \<open>
  An outer call of \<^verbatim>\<open>run\<close>, up to its callback.  \<open>now1\<close> to \<open>now4\<close> are its readings of the clock, in
  their order; \<open>ready\<close> tells whether the connection is there and the service still open after
  waiting for it.
\<close>

definition run_attempt ::
    "(js_string \<Rightarrow> js_string) \<Rightarrow> int \<Rightarrow> int \<Rightarrow> int \<Rightarrow> int \<Rightarrow> bool \<Rightarrow> int \<Rightarrow> eval_fate \<Rightarrow> mute_scope \<Rightarrow>
       budget_service \<times> budget_store \<Rightarrow> (budget_service \<times> budget_store) \<times> ((budget_reason \<times> int) + attempt_permit)" where
  "run_attempt digest now1 now2 now3 now4 ready redisNow fate scope st =
     (case st of (service, store) \<Rightarrow>
        (case ms_deadlineAtMs scope of
           None \<Rightarrow> (st, Inl (Expired, 1000))
         | Some deadline \<Rightarrow>
             if deadline \<le> now1 then (st, Inl (Expired, 1000))
             else
               (let unavailable = service\<lparr>bs_unavailableUntilMs := now3 + UNAVAILABLE_RETRY_MS\<rparr>;
                    (chatKey, actorKey) = maxMuteApiBudgetKeys digest (ms_chatId scope) (ms_subjectUserId scope)
                in if connection_refused now2 ready service \<or> fate = Not_Run
                   then ((unavailable, store), Inl (Unavailable, UNAVAILABLE_RETRY_MS))
                   else
                     (case reserve_script redisNow actorKey chatKey store of
                        (store', answer) \<Rightarrow>
                          if fate = Answer_Lost \<or> answer = None
                          then ((unavailable, store'), Inl (Unavailable, UNAVAILABLE_RETRY_MS))
                          else if fate = Odd_Answer
                          then ((service, store'), Inl (Unavailable, UNAVAILABLE_RETRY_MS))
                          else
                            (let reply = the answer
                             in ((service, store'),
                                 if fst reply \<noteq> 1 then Inl (reply_error reply)
                                 else Inr \<lparr>ap_scope = scope,
                                        ap_expiresAtMs = min deadline (now4 + MAX_ATTEMPT_DURATION_MS),
                                        ap_remaining = REQUESTS_PER_ATTEMPT, ap_closed = False\<rparr>))))))"

definition close_permit :: "attempt_permit \<Rightarrow> attempt_permit" where
  "close_permit permit = permit\<lparr>ap_closed := True\<rparr>"

definition close_service :: "budget_service \<Rightarrow> budget_service" where
  "close_service s = s\<lparr>bs_closed := True\<rparr>"

section \<open>Buckets over time\<close>

fun capacity_of :: "budget_key \<Rightarrow> rat" where
  "capacity_of (Chat_Key _) = 144"
| "capacity_of (Actor_Key _ _) = 72"

fun refill_of :: "budget_key \<Rightarrow> rat" where
  "refill_of (Chat_Key _) = 480"
| "refill_of (Actor_Key _ _) = 120"

fun lifetime_of :: "budget_key \<Rightarrow> int" where
  "lifetime_of (Chat_Key _) = 60000"
| "lifetime_of (Actor_Key _ _) = 86400000"

fun is_actor :: "budget_key \<Rightarrow> bool" where
  "is_actor (Chat_Key _) = False"
| "is_actor (Actor_Key _ _) = True"

definition read_key :: "int \<Rightarrow> budget_store \<Rightarrow> budget_key \<Rightarrow> bucket_read" where
  "read_key now s k = read_bucket (capacity_of k) (refill_of k) (is_actor k) now (budget_get now s k)"

definition available :: "int \<Rightarrow> budget_store \<Rightarrow> budget_key \<Rightarrow> rat" where
  "available now s k = rd_tokens (read_key now s k)"

definition row_ok :: "int \<Rightarrow> budget_key \<Rightarrow> bucket \<Rightarrow> int \<Rightarrow> bool" where
  "row_ok now k row expires \<longleftrightarrow>
     (\<exists>tokens lastAt level untilAt.
        bk_tokens row = Finite tokens \<and> bk_lastRefillAtMs row = Finite (of_int lastAt) \<and>
        or_zero (bk_level row) = Finite (of_int level) \<and>
        or_zero (bk_cooldownUntilMs row) = Finite (of_int untilAt) \<and>
        0 \<le> tokens \<and> tokens \<le> capacity_of k \<and> 0 \<le> lastAt \<and> lastAt \<le> now \<and>
        expires = lastAt + lifetime_of k \<and> 0 \<le> level \<and> level \<le> 3 \<and> 0 \<le> untilAt \<and>
        untilAt \<le> lastAt + 3600000)"

definition budget_ok :: "int \<Rightarrow> budget_store \<Rightarrow> bool" where
  "budget_ok now s \<longleftrightarrow>
     (\<forall>k. case s k of
            None \<Rightarrow> True
          | Some (Other_Type, _) \<Rightarrow> False
          | Some (Hash row, expires) \<Rightarrow> row_ok now k row expires)"

lemma budget_okD:
  assumes "budget_ok now s" "s k = Some (v, expires)"
  obtains row tokens lastAt level untilAt where "v = Hash row" "bk_tokens row = Finite tokens"
    "bk_lastRefillAtMs row = Finite (of_int lastAt)" "or_zero (bk_level row) = Finite (of_int level)"
    "or_zero (bk_cooldownUntilMs row) = Finite (of_int untilAt)" "0 \<le> tokens" "tokens \<le> capacity_of k"
    "0 \<le> lastAt" "lastAt \<le> now" "expires = lastAt + lifetime_of k" "0 \<le> level" "level \<le> 3" "0 \<le> untilAt"
    "untilAt \<le> lastAt + 3600000"
proof (cases v)
  case (Hash row)
  then have "row_ok now k row expires" using assms unfolding budget_ok_def by (auto dest: spec [of _ k])
  then show ?thesis using Hash that unfolding row_ok_def by blast
next
  case Other_Type
  then show ?thesis using assms unfolding budget_ok_def by (auto dest: spec [of _ k])
qed

lemma capacity_pos: "0 < capacity_of k" "0 < refill_of k" "0 < lifetime_of k"
  "capacity_of k * 60000 \<le> of_int (lifetime_of k) * refill_of k"
  by (cases k; simp)+

lemma budget_get_Some:
  "budget_get now s k = Some v \<longleftrightarrow> (\<exists>expires. s k = Some (v, expires) \<and> now < expires)"
  by (auto simp: budget_get_def split: option.splits if_splits)

lemma read_alive:
  assumes ok: "budget_ok now s" and get: "budget_get now s k = Some v"
  obtains tokens lastAt level untilAt where
    "read_key now s k = Bucket (refilled (capacity_of k) (refill_of k) tokens (of_int lastAt) now)
       (of_int level) (of_int untilAt)"
    "s k = Some (v, lastAt + lifetime_of k)" "0 \<le> tokens" "tokens \<le> capacity_of k" "0 \<le> lastAt" "lastAt \<le> now"
    "0 \<le> level" "level \<le> 3" "0 \<le> untilAt"
    "\<exists>row. v = Hash row \<and> bk_tokens row = Finite tokens \<and> bk_lastRefillAtMs row = Finite (of_int lastAt)"
proof -
  obtain expires where s: "s k = Some (v, expires)" using get by (auto simp: budget_get_Some)
  obtain row tokens lastAt level untilAt where r: "v = Hash row" "bk_tokens row = Finite tokens"
    "bk_lastRefillAtMs row = Finite (of_int lastAt)" "or_zero (bk_level row) = Finite (of_int level)"
    "or_zero (bk_cooldownUntilMs row) = Finite (of_int untilAt)" "0 \<le> tokens" "tokens \<le> capacity_of k"
    "0 \<le> lastAt" "lastAt \<le> now" "expires = lastAt + lifetime_of k" "0 \<le> level" "level \<le> 3" "0 \<le> untilAt"
    "untilAt \<le> lastAt + 3600000"
    by (rule budget_okD [OF ok s])
  have at_now: "\<not> (of_int now :: rat) + 1000 < of_int lastAt" "\<not> (of_int now :: rat) + 3600000 < 0"
    "\<not> (of_int now :: rat) + 3600000 < of_int untilAt"
  proof -
    have "(of_int lastAt :: rat) \<le> of_int now" "(0 :: rat) \<le> of_int now"
      "(of_int untilAt :: rat) \<le> of_int (lastAt + 3600000)"
      using r(8,9,14) by (simp_all del: of_int_add)
    then show "\<not> (of_int now :: rat) + 1000 < of_int lastAt" "\<not> (of_int now :: rat) + 3600000 < 0"
      "\<not> (of_int now :: rat) + 3600000 < of_int untilAt" by auto
  qed
  have "read_key now s k = Bucket (refilled (capacity_of k) (refill_of k) tokens (of_int lastAt) now)
       (of_int (if is_actor k then level else 0)) (of_int (if is_actor k then untilAt else 0))"
    unfolding read_key_def read_bucket_def get r(1)
    using r(2-14) at_now by (simp add: not_less)
  then show ?thesis
    by (rule that) (use s r in auto)
qed

lemma read_expired: "budget_get now s k = None \<Longrightarrow> read_key now s k = Bucket (capacity_of k) 0 0"
  by (simp add: read_key_def read_bucket_def)

lemma refilled_bounds:
  assumes "0 \<le> tokens" "tokens \<le> capacity_of k"
  shows "0 \<le> refilled (capacity_of k) (refill_of k) tokens x now"
    "refilled (capacity_of k) (refill_of k) tokens x now \<le> capacity_of k"
proof -
  have "0 \<le> max 0 (of_int now - x) * refill_of k / 60000" using capacity_pos(2) [of k] by simp
  then show "0 \<le> refilled (capacity_of k) (refill_of k) tokens x now"
    "refilled (capacity_of k) (refill_of k) tokens x now \<le> capacity_of k"
    using assms capacity_pos(1) [of k] unfolding refilled_def by auto
qed

lemma read_key_ok:
  assumes ok: "budget_ok now s"
  obtains tokens level untilAt where "read_key now s k = Bucket tokens (of_int level) (of_int untilAt)"
    "0 \<le> tokens" "tokens \<le> capacity_of k" "0 \<le> level" "level \<le> 3" "0 \<le> untilAt"
proof (cases "budget_get now s k")
  case None
  then show ?thesis
    using that [of "capacity_of k" 0 0] read_expired [OF None] capacity_pos(1) [of k] by simp
next
  case (Some v)
  show ?thesis
    by (rule read_alive [OF ok Some]) (rule that, assumption, (rule refilled_bounds, assumption, assumption)+)
qed

lemma available_bounds:
  assumes "budget_ok now s"
  shows "0 \<le> available now s k" "available now s k \<le> capacity_of k"
  by (rule read_key_ok [OF assms, of k], simp add: available_def)+

lemma budget_ok_later: "budget_ok now s \<Longrightarrow> now \<le> now' \<Longrightarrow> budget_ok now' s"
  unfolding budget_ok_def row_ok_def by (fastforce split: option.splits budget_value.splits)

text \<open>Waiting refills at most at the rate; a key that expires had been refilled anyway.\<close>

lemma available_grows:
  assumes ok: "budget_ok now s" and later: "now \<le> now'"
  shows "available now' s k \<le> available now s k + of_int (now' - now) * refill_of k / 60000"
proof -
  have ok': "budget_ok now' s" by (rule budget_ok_later [OF ok later])
  have pos: "0 \<le> (of_int (now' - now) :: rat) * refill_of k / 60000"
    using later capacity_pos(2) [of k] by simp
  show ?thesis
  proof (cases "budget_get now s k")
    case None
    then have "available now s k = capacity_of k" by (simp add: available_def read_expired)
    then show ?thesis using available_bounds(2) [OF ok'] pos by (smt (verit) order_trans le_add_same_cancel1)
  next
    case (Some v)
    obtain tokens lastAt level untilAt where r:
      "read_key now s k = Bucket (refilled (capacity_of k) (refill_of k) tokens (of_int lastAt) now)
         (of_int level) (of_int untilAt)"
      "s k = Some (v, lastAt + lifetime_of k)" "0 \<le> tokens" "tokens \<le> capacity_of k" "0 \<le> lastAt" "lastAt \<le> now"
      "\<exists>row. v = Hash row \<and> bk_tokens row = Finite tokens \<and> bk_lastRefillAtMs row = Finite (of_int lastAt)"
      by (rule read_alive [OF ok Some])
    have now: "available now s k = min (capacity_of k) (tokens + of_int (now - lastAt) * refill_of k / 60000)"
      using r(1,6) by (simp add: available_def refilled_def)
    have sum: "(of_int (now - lastAt) :: rat) * refill_of k / 60000 + of_int (now' - now) * refill_of k / 60000 =
        of_int (now' - lastAt) * refill_of k / 60000"
      by (simp add: field_simps)
    show ?thesis
    proof (cases "budget_get now' s k")
      case None
      then have expired: "lastAt + lifetime_of k \<le> now'" using r(2) by (auto simp: budget_get_def split: if_splits)
      then have "of_int (lifetime_of k) * refill_of k \<le> of_int (now' - lastAt) * refill_of k"
        using capacity_pos(2) [of k] by (intro mult_right_mono) (simp_all only: of_int_le_iff less_imp_le)
      then have "capacity_of k \<le> of_int (now' - lastAt) * refill_of k / 60000"
        using capacity_pos(4) [of k] by simp
      moreover have "available now' s k = capacity_of k" using None by (simp add: available_def read_expired)
      ultimately show ?thesis using now sum pos r(3) by (auto simp: min_def)
    next
      case (Some v')
      obtain tokens' lastAt' level' untilAt' where r':
        "read_key now' s k = Bucket (refilled (capacity_of k) (refill_of k) tokens' (of_int lastAt') now')
           (of_int level') (of_int untilAt')" "s k = Some (v', lastAt' + lifetime_of k)"
        "\<exists>row. v' = Hash row \<and> bk_tokens row = Finite tokens' \<and> bk_lastRefillAtMs row = Finite (of_int lastAt')"
        by (rule read_alive [OF ok' Some])
      have "lastAt' = lastAt" "tokens' = tokens" using r(2,7) r'(2,3) by auto
      then have "available now' s k = min (capacity_of k) (tokens + of_int (now' - lastAt) * refill_of k / 60000)"
        using r'(1) r(6) later by (simp add: available_def refilled_def)
      then show ?thesis using now sum pos by (auto simp: min_def)
    qed
  qed
qed

lemma put_row:
  assumes ok: "budget_ok now s" and row: "row_ok now k row (now + lifetime_of k)"
    and fields: "bk_tokens row = Finite tokens" "bk_lastRefillAtMs row = Finite (of_int now)"
  shows "budget_ok now (s(k \<mapsto> (Hash row, now + lifetime_of k)))" (is "budget_ok now ?s")
    and "available now (s(k \<mapsto> (Hash row, now + lifetime_of k))) k' =
      (if k' = k then tokens else available now s k')"
proof -
  show ok': "budget_ok now ?s" using ok row by (auto simp: budget_ok_def)
  have get: "budget_get now ?s k = Some (Hash row)" using capacity_pos(3) [of k] by (simp add: budget_get_def)
  obtain t l x u where r: "read_key now ?s k = Bucket (refilled (capacity_of k) (refill_of k) t (of_int l) now)
       (of_int x) (of_int u)" "t \<le> capacity_of k"
    "\<exists>r. Hash row = Hash r \<and> bk_tokens r = Finite t \<and> bk_lastRefillAtMs r = Finite (of_int l)"
    by (rule read_alive [OF ok' get])
  then have "available now ?s k = tokens" using fields by (auto simp: available_def refilled_def)
  moreover have "k' \<noteq> k \<Longrightarrow> available now ?s k' = available now s k'"
    by (simp add: available_def read_key_def budget_get_def)
  ultimately show "available now ?s k' = (if k' = k then tokens else available now s k')" by simp
qed

lemma write_actor_ok:
  assumes ok: "budget_ok now s" and "0 \<le> now" "0 \<le> tokens" "tokens \<le> 72" "0 \<le> level" "level \<le> 3"
    "0 \<le> untilAt" "untilAt \<le> now + 3600000"
  shows "budget_ok now (write_actor now tokens (of_int level) untilAt (Actor_Key c u) s)"
    and "available now (write_actor now tokens (of_int level) untilAt (Actor_Key c u) s) k' =
      (if k' = Actor_Key c u then tokens else available now s k')"
proof -
  let ?row = "\<lparr>bk_tokens = Finite tokens, bk_lastRefillAtMs = Finite (of_int now), bk_level = Finite (of_int level),
                  bk_cooldownUntilMs = Finite (of_int untilAt)\<rparr>"
  have "row_ok now (Actor_Key c u) ?row (now + lifetime_of (Actor_Key c u))"
    using assms(2-) by (auto simp: row_ok_def or_zero_def)
  note put = put_row [OF ok this, of tokens]
  show "budget_ok now (write_actor now tokens (of_int level) untilAt (Actor_Key c u) s)"
    using put(1) by (simp add: write_actor_def)
  show "available now (write_actor now tokens (of_int level) untilAt (Actor_Key c u) s) k' =
      (if k' = Actor_Key c u then tokens else available now s k')"
    using put(2) [of k'] by (simp add: write_actor_def)
qed

lemma write_chat_ok:
  assumes ok: "budget_ok now s" and pos: "0 \<le> now" "0 \<le> tokens" "tokens \<le> 144"
  shows "budget_ok now (write_chat now tokens (Chat_Key c) s)"
    and "available now (write_chat now tokens (Chat_Key c) s) k' =
      (if k' = Chat_Key c then tokens else available now s k')"
proof -
  obtain row where row: "write_chat now tokens (Chat_Key c) s =
      s(Chat_Key c \<mapsto> (Hash row, now + lifetime_of (Chat_Key c)))"
    "bk_tokens row = Finite tokens" "bk_lastRefillAtMs row = Finite (of_int now)"
    "\<exists>level. or_zero (bk_level row) = Finite (of_int level) \<and> 0 \<le> level \<and> level \<le> 3"
    "\<exists>untilAt. or_zero (bk_cooldownUntilMs row) = Finite (of_int untilAt) \<and> 0 \<le> untilAt \<and> untilAt \<le> now + 3600000"
  proof (cases "budget_get now s (Chat_Key c)")
    case None
    then show ?thesis
      using that [of "\<lparr>bk_tokens = Finite tokens, bk_lastRefillAtMs = Finite (of_int now),
                        bk_level = Nil_Field, bk_cooldownUntilMs = Nil_Field\<rparr>"] pos(1)
      by (force simp: write_chat_def or_zero_def)
  next
    case (Some v)
    obtain expires where s: "s (Chat_Key c) = Some (v, expires)" using Some by (auto simp: budget_get_Some)
    obtain r t l x w where r: "v = Hash r" "or_zero (bk_level r) = Finite (of_int x)"
      "or_zero (bk_cooldownUntilMs r) = Finite (of_int w)" "l \<le> now" "0 \<le> x" "x \<le> 3" "0 \<le> w" "w \<le> l + 3600000"
      by (rule budget_okD [OF ok s]) (rule that)
    show ?thesis
      by (rule that [of "r\<lparr>bk_tokens := Finite tokens, bk_lastRefillAtMs := Finite (of_int now)\<rparr>"])
        (use r Some in \<open>auto simp: write_chat_def intro: exI [of _ x] exI [of _ w]\<close>)
  qed
  have "row_ok now (Chat_Key c) row (now + lifetime_of (Chat_Key c))"
    using row pos by (auto simp: row_ok_def)
  note put = put_row [OF ok this row(2,3)]
  show "budget_ok now (write_chat now tokens (Chat_Key c) s)"
    "available now (write_chat now tokens (Chat_Key c) s) k' =
      (if k' = Chat_Key c then tokens else available now s k')"
    using put by (simp_all add: row(1))
qed

definition granted :: "(int \<times> int \<times> int) option \<Rightarrow> bool" where
  "granted answer = (case answer of Some (g, _, _) \<Rightarrow> g = 1 | None \<Rightarrow> False)"

lemma reserve_reads:
  assumes ok: "budget_ok now s"
  obtains a level untilAt b where
    "read_key now s (Actor_Key c u) = Bucket a (of_int level) (of_int untilAt)"
    "available now s (Actor_Key c u) = a" "available now s (Chat_Key c) = b"
    "0 \<le> a" "a \<le> 72" "0 \<le> b" "b \<le> 144" "0 \<le> level" "level \<le> 3" "0 \<le> untilAt"
    "reserve_script now (Actor_Key c u) (Chat_Key c) s =
       (if untilAt > now then (s, Some (0, untilAt - now, 1))
        else if b < 12 then (s, Some (0, \<lceil>(12 - b) * 60000 / 480\<rceil>, 2))
        else if a < 12 then
          (write_actor now a (of_int (min 3 (level + 1)))
             (now + cooldown_delay (of_int (min 3 (level + 1)))) (Actor_Key c u) s,
           Some (0, cooldown_delay (of_int (min 3 (level + 1))), 1))
        else (write_chat now (b - 12) (Chat_Key c) (write_actor now (a - 12) (of_int level) 0 (Actor_Key c u) s),
              Some (1, 0, 0)))"
proof -
  obtain a level untilAt where a: "read_key now s (Actor_Key c u) = Bucket a (of_int level) (of_int untilAt)"
    "0 \<le> a" "a \<le> 72" "0 \<le> level" "level \<le> 3" "0 \<le> untilAt"
    using read_key_ok [OF ok, of "Actor_Key c u"] by (metis capacity_of.simps(2))
  obtain b x y where b: "read_key now s (Chat_Key c) = Bucket b x y" "0 \<le> b" "b \<le> 144"
    using read_key_ok [OF ok, of "Chat_Key c"] by (metis capacity_of.simps(1))
  have reads: "read_bucket 72 120 True now (budget_get now s (Actor_Key c u)) = Bucket a (of_int level) (of_int untilAt)"
    "read_bucket 144 480 False now (budget_get now s (Chat_Key c)) = Bucket b x y"
    using a(1) b(1) by (simp_all add: read_key_def)
  have level: "min 3 ((of_int level :: rat) + 1) = of_int (min 3 (level + 1))" by (simp add: min_def)
  have cool: "(of_int now < (of_int untilAt :: rat)) = (now < untilAt)" "\<lfloor>(of_int untilAt :: rat) - of_int now\<rfloor> = untilAt - now"
    by (simp_all flip: of_int_diff)
  show ?thesis
    by (rule that [of a level untilAt b])
      (use a b in \<open>simp_all add: available_def reserve_script_def reads level cool Let_def\<close>)
qed

lemma reserve_effect:
  assumes ok: "budget_ok now s" and pos: "0 \<le> now"
    and run: "reserve_script now (Actor_Key c u) (Chat_Key c) s = (s', answer)"
  shows "budget_ok now s'"
    "available now s' k = available now s k - (if granted answer \<and> k \<in> {Chat_Key c, Actor_Key c u} then 12 else 0)"
proof -
  obtain a level untilAt b where r:
    "available now s (Actor_Key c u) = a" "available now s (Chat_Key c) = b"
    "0 \<le> a" "a \<le> 72" "0 \<le> b" "b \<le> 144" "0 \<le> level" "level \<le> 3" "0 \<le> untilAt"
    "reserve_script now (Actor_Key c u) (Chat_Key c) s =
       (if untilAt > now then (s, Some (0, untilAt - now, 1))
        else if b < 12 then (s, Some (0, \<lceil>(12 - b) * 60000 / 480\<rceil>, 2))
        else if a < 12 then
          (write_actor now a (of_int (min 3 (level + 1)))
             (now + cooldown_delay (of_int (min 3 (level + 1)))) (Actor_Key c u) s,
           Some (0, cooldown_delay (of_int (min 3 (level + 1))), 1))
        else (write_chat now (b - 12) (Chat_Key c) (write_actor now (a - 12) (of_int level) 0 (Actor_Key c u) s),
              Some (1, 0, 0)))"
    by (rule reserve_reads [OF ok, where c = c and u = u]) (rule that)
  consider (refused) "s' = s" "\<not> granted answer" |
    (exhausted) "a < 12" "s' = write_actor now a (of_int (min 3 (level + 1)))
             (now + cooldown_delay (of_int (min 3 (level + 1)))) (Actor_Key c u) s" "\<not> granted answer" |
    (grant) "12 \<le> a" "12 \<le> b" "granted answer"
      "s' = write_chat now (b - 12) (Chat_Key c) (write_actor now (a - 12) (of_int level) 0 (Actor_Key c u) s)"
    using run unfolding r(10) by (force simp: granted_def split: if_splits)
  then have "budget_ok now s' \<and> available now s' k =
      available now s k - (if granted answer \<and> k \<in> {Chat_Key c, Actor_Key c u} then 12 else 0)"
  proof cases
    case refused
    then show ?thesis using ok by simp
  next
    case exhausted
    have "0 \<le> cooldown_delay (of_int (min 3 (level + 1)))" "cooldown_delay (of_int (min 3 (level + 1))) \<le> 3600000"
      by (simp_all add: cooldown_delay_def)
    then show ?thesis
      using write_actor_ok [OF ok pos, of a "min 3 (level + 1)"] r(1,3,4,7) exhausted pos by simp
  next
    case grant
    note w = write_actor_ok [OF ok pos, of "a - 12" level 0 c u]
    have "budget_ok now (write_actor now (a - 12) (of_int level) 0 (Actor_Key c u) s)"
      using w(1) r grant pos by simp
    note v = write_chat_ok [OF this pos, of "b - 12" c]
    show ?thesis using v w(2) [of k] r grant pos by simp
  qed
  then show "budget_ok now s'"
    "available now s' k = available now s k - (if granted answer \<and> k \<in> {Chat_Key c, Actor_Key c u} then 12 else 0)"
    by blast+
qed

section \<open>Runs of the script\<close>

text \<open>A call of the script: the Redis time, the chat and the muted user.\<close>

type_synonym budget_call = "int \<times> js_string \<times> js_string"

fun call_script ::
    "(js_string \<Rightarrow> js_string) \<Rightarrow> budget_store \<Rightarrow> budget_call \<Rightarrow> budget_store \<times> (int \<times> int \<times> int) option" where
  "call_script digest s (now, chatId, subjectUserId) =
     (let (chatKey, actorKey) = maxMuteApiBudgetKeys digest chatId subjectUserId
      in reserve_script now actorKey chatKey s)"

abbreviation call_run :: "(js_string \<Rightarrow> js_string) \<Rightarrow> budget_store \<Rightarrow> budget_call list \<Rightarrow> budget_store" where
  "call_run digest \<equiv> foldl (\<lambda>s e. fst (call_script digest s e))"

fun granted_calls :: "(js_string \<Rightarrow> js_string) \<Rightarrow> budget_store \<Rightarrow> budget_call list \<Rightarrow> budget_call list" where
  "granted_calls digest s [] = []"
| "granted_calls digest s (e # es) =
     (case call_script digest s e of
        (s', answer) \<Rightarrow> (if granted answer then [e] else []) @ granted_calls digest s' es)"

fun uses :: "(js_string \<Rightarrow> js_string) \<Rightarrow> budget_key \<Rightarrow> budget_call \<Rightarrow> bool" where
  "uses digest k (now, c, u) \<longleftrightarrow> k \<in> {Chat_Key (digest c), Actor_Key (digest c) (digest u)}"

lemma call_effect:
  assumes "budget_ok t s" "t \<le> fst e" "0 \<le> fst e" "call_script digest s e = (s', answer)"
  shows "budget_ok (fst e) s'"
    "available (fst e) s' k = available (fst e) s k - (if granted answer \<and> uses digest k e then 12 else 0)"
proof -
  obtain now c u where e: "e = (now, c, u)" by (cases e)
  have "budget_ok now s" using budget_ok_later [OF assms(1)] assms(2) e by simp
  note effect = reserve_effect [OF this, of "digest c" "digest u" s' answer]
  show "budget_ok (fst e) s'"
    "available (fst e) s' k = available (fst e) s k - (if granted answer \<and> uses digest k e then 12 else 0)"
    using effect assms(3,4) by (simp_all add: e maxMuteApiBudgetKeys_def)
qed

lemma run_bound:
  "budget_ok t s \<Longrightarrow> 0 \<le> t \<Longrightarrow> sorted (t # map fst es) \<Longrightarrow> list_all (\<lambda>e. fst e \<le> t') es \<Longrightarrow> t \<le> t' \<Longrightarrow>
    12 * of_nat (length (filter (uses digest k) (granted_calls digest s es))) \<le>
      available t s k + of_int (t' - t) * refill_of k / 60000"
proof (induction es arbitrary: s t)
  case Nil
  have "0 \<le> of_int (t' - t) * refill_of k" using Nil.prems(5) capacity_pos(2) [of k] by simp
  then show ?case using available_bounds(1) [OF Nil.prems(1), of k] by simp
next
  case (Cons e es)
  obtain s' answer where call: "call_script digest s e = (s', answer)" by force
  have t: "t \<le> fst e" "0 \<le> fst e" "fst e \<le> t'" "sorted (fst e # map fst es)" "list_all (\<lambda>e. fst e \<le> t') es"
    using Cons.prems by simp_all
  note effect = call_effect [OF Cons.prems(1) t(1,2) call]
  define h :: rat where "h = (if granted answer \<and> uses digest k e then 1 else 0)"
  have "available (fst e) s k \<le> available t s k + of_int (fst e - t) * refill_of k / 60000"
    by (rule available_grows [OF Cons.prems(1) t(1)])
  moreover have "12 * of_nat (length (filter (uses digest k) (granted_calls digest s' es))) \<le>
      available (fst e) s' k + of_int (t' - fst e) * refill_of k / 60000"
    by (rule Cons.IH [OF effect(1) t(2,4,5,3)])
  moreover have "of_int (fst e - t) * refill_of k / 60000 + of_int (t' - fst e) * refill_of k / 60000 =
      of_int (t' - t) * refill_of k / 60000"
    by (simp add: field_simps)
  moreover have "(of_nat (length (filter (uses digest k) (granted_calls digest s (e # es)))) :: rat) =
      h + of_nat (length (filter (uses digest k) (granted_calls digest s' es)))"
    by (simp add: call h_def)
  moreover have "available (fst e) s' k = available (fst e) s k - 12 * h"
    using effect(2) [of k] by (simp add: h_def)
  ultimately show ?case by linarith
qed

lemma empty_ok: "budget_ok now (\<lambda>_. None)"
  by (simp add: budget_ok_def)

lemma budget_run_ok:
  "budget_ok t s \<Longrightarrow> 0 \<le> t \<Longrightarrow> sorted (t # map fst es) \<Longrightarrow>
    budget_ok (last (t # map fst es)) (call_run digest s es)"
proof (induction es arbitrary: s t)
  case (Cons e es)
  obtain s' answer where call: "call_script digest s e = (s', answer)" by force
  have t: "t \<le> fst e" "0 \<le> fst e" "sorted (fst e # map fst es)" using Cons.prems by simp_all
  show ?case using Cons.IH [OF call_effect(1) [OF Cons.prems(1) t(1,2) call] t(2,3)] by (simp add: call)
qed simp

lemma sorted_from_last: "sorted (t # xs @ ys) \<Longrightarrow> sorted (last (t # xs) # ys)" for t :: int
  by (cases xs rule: rev_cases) (auto simp: sorted_append)

lemma last_nonneg: "sorted (t # xs) \<Longrightarrow> t \<le> last (t # xs)" for t :: int
  by (cases xs rule: rev_cases) auto

text \<open>An actor's key while its cooldown runs.\<close>

definition cooling :: "budget_store \<Rightarrow> budget_key \<Rightarrow> int \<Rightarrow> bool" where
  "cooling s k untilAt \<longleftrightarrow>
     (\<exists>row expires. s k = Some (Hash row, expires) \<and> untilAt \<le> expires \<and>
        or_zero (bk_cooldownUntilMs row) = Finite (of_int untilAt))"

lemma read_until:
  "read_key now s (Actor_Key c u) = Bucket a l w \<Longrightarrow> budget_get now s (Actor_Key c u) = Some (Hash row) \<Longrightarrow>
    or_zero (bk_cooldownUntilMs row) = Finite w"
  by (auto simp: read_key_def read_bucket_def split: lua_field.splits if_splits)

lemma cooling_step:
  assumes ok: "budget_ok t s" and "t \<le> now" "0 \<le> now" and cool: "cooling s (Actor_Key c u) untilAt"
    and early: "now < untilAt"
    and run: "reserve_script now (Actor_Key c' u') (Chat_Key c') s = (s', answer)"
  shows "s' (Actor_Key c u) = s (Actor_Key c u)"
    "Actor_Key c u = Actor_Key c' u' \<Longrightarrow> s' = s \<and> answer = Some (0, untilAt - now, 1)"
proof -
  have ok': "budget_ok now s" using budget_ok_later [OF ok] assms(2) by simp
  obtain row expires where row: "s (Actor_Key c u) = Some (Hash row, expires)" "untilAt \<le> expires"
    "or_zero (bk_cooldownUntilMs row) = Finite (of_int untilAt)" using cool by (auto simp: cooling_def)
  have get: "budget_get now s (Actor_Key c u) = Some (Hash row)" using row early by (auto simp: budget_get_Some)
  obtain a level w b where r: "read_key now s (Actor_Key c' u') = Bucket a (of_int level) (of_int w)"
    "reserve_script now (Actor_Key c' u') (Chat_Key c') s =
       (if w > now then (s, Some (0, w - now, 1))
        else if b < 12 then (s, Some (0, \<lceil>(12 - b) * 60000 / 480\<rceil>, 2))
        else if a < 12 then
          (write_actor now a (of_int (min 3 (level + 1)))
             (now + cooldown_delay (of_int (min 3 (level + 1)))) (Actor_Key c' u') s,
           Some (0, cooldown_delay (of_int (min 3 (level + 1))), 1))
        else (write_chat now (b - 12) (Chat_Key c') (write_actor now (a - 12) (of_int level) 0 (Actor_Key c' u') s),
              Some (1, 0, 0)))"
    by (rule reserve_reads [OF ok', where c = c' and u = u']) (rule that)
  show own: "s' = s \<and> answer = Some (0, untilAt - now, 1)" if "Actor_Key c u = Actor_Key c' u'"
  proof -
    have "w = untilAt" using read_until [OF r(1), of row] get row(3) that by simp
    then show ?thesis using run early unfolding r(2) by simp
  qed
  show "s' (Actor_Key c u) = s (Actor_Key c u)"
  proof (cases "Actor_Key c u = Actor_Key c' u'")
    case False
    then show ?thesis
      using run unfolding r(2) by (auto simp: write_actor_def write_chat_def split: if_splits)
  qed (use own in simp)
qed

lemma cooling_run:
  "budget_ok t s \<Longrightarrow> 0 \<le> t \<Longrightarrow> sorted (t # map fst es) \<Longrightarrow> list_all (\<lambda>e. fst e < untilAt) es \<Longrightarrow>
    cooling s (Actor_Key c u) untilAt \<Longrightarrow>
    call_run digest s es (Actor_Key c u) = s (Actor_Key c u) \<and>
    filter (uses digest (Actor_Key c u)) (granted_calls digest s es) = []"
proof (induction es arbitrary: s t)
  case (Cons e es)
  obtain now c' u' where e: "e = (now, c', u')" by (cases e)
  obtain s' answer where call: "call_script digest s e = (s', answer)" by force
  have t: "t \<le> now" "0 \<le> now" "now < untilAt" "sorted (now # map fst es)" "list_all (\<lambda>e. fst e < untilAt) es"
    using Cons.prems by (simp_all add: e)
  have run: "reserve_script now (Actor_Key (digest c') (digest u')) (Chat_Key (digest c')) s = (s', answer)"
    using call by (simp add: e maxMuteApiBudgetKeys_def)
  note step = cooling_step [OF Cons.prems(1) t(1,2) Cons.prems(5) t(3) run]
  have ok: "budget_ok now s'" using call_effect(1) [OF Cons.prems(1) _ _ call] t by (simp add: e)
  have cool: "cooling s' (Actor_Key c u) untilAt" using Cons.prems(5) step(1) by (simp add: cooling_def)
  have "\<not> (granted answer \<and> uses digest (Actor_Key c u) e)" using step(2) by (auto simp: e granted_def)
  then show ?case using Cons.IH [OF ok t(2,4,5) cool] step(1) by (auto simp: call)
qed simp

lemma refused_cooling:
  assumes ok: "budget_ok now s" and pos: "0 \<le> now"
    and run: "reserve_script now (Actor_Key c u) (Chat_Key c) s = (s', Some (0, d, 1))"
  shows "cooling s' (Actor_Key c u) (now + d)"
proof -
  obtain a level w b where r: "read_key now s (Actor_Key c u) = Bucket a (of_int level) (of_int w)" "0 \<le> w"
    "reserve_script now (Actor_Key c u) (Chat_Key c) s =
       (if w > now then (s, Some (0, w - now, 1))
        else if b < 12 then (s, Some (0, \<lceil>(12 - b) * 60000 / 480\<rceil>, 2))
        else if a < 12 then
          (write_actor now a (of_int (min 3 (level + 1)))
             (now + cooldown_delay (of_int (min 3 (level + 1)))) (Actor_Key c u) s,
           Some (0, cooldown_delay (of_int (min 3 (level + 1))), 1))
        else (write_chat now (b - 12) (Chat_Key c) (write_actor now (a - 12) (of_int level) 0 (Actor_Key c u) s),
              Some (1, 0, 0)))"
    by (rule reserve_reads [OF ok, where c = c and u = u]) (rule that)
  show ?thesis
  proof (cases "w > now")
    case True
    then have s': "s' = s" "d = w - now" using run unfolding r(3) by simp_all
    have "budget_get now s (Actor_Key c u) \<noteq> None"
      using r(1) True pos read_expired [of now s "Actor_Key c u"] by auto
    then obtain v where get: "budget_get now s (Actor_Key c u) = Some v" by blast
    then obtain expires where s: "s (Actor_Key c u) = Some (v, expires)" by (auto simp: budget_get_Some)
    obtain row l w' where row: "v = Hash row" "or_zero (bk_cooldownUntilMs row) = Finite (of_int w')"
      "expires = l + lifetime_of (Actor_Key c u)" "w' \<le> l + 3600000"
      by (rule budget_okD [OF ok s]) (rule that)
    have "or_zero (bk_cooldownUntilMs row) = Finite (of_int w)"
      using read_until [OF r(1)] get row(1) by simp
    then have "w' = w" using row(2) by simp
    then show ?thesis using s row s' by (auto simp: cooling_def)
  next
    case False
    then have "s' = write_actor now a (of_int (min 3 (level + 1))) (now + d) (Actor_Key c u) s" "d \<le> 3600000"
      using run unfolding r(3) by (auto simp: cooldown_delay_def split: if_splits)
    then show ?thesis by (auto simp: cooling_def write_actor_def or_zero_def)
  qed
qed

section \<open>Runs of the service\<close>

datatype permit_event = Request bool int | Close_Permit

text \<open>The times of the requests a permit lets through.\<close>

fun permit_run :: "attempt_permit \<Rightarrow> permit_event list \<Rightarrow> int list" where
  "permit_run permit [] = []"
| "permit_run permit (Request service_closed now # es) =
     (case consumeRequest service_closed now permit of
        Inl _ \<Rightarrow> permit_run permit es
      | Inr permit' \<Rightarrow> now # permit_run permit' es)"
| "permit_run permit (Close_Permit # es) = permit_run (close_permit permit) es"

lemma permit_run_closed: "ap_closed permit \<Longrightarrow> permit_run permit es = []"
  by (induction permit es rule: permit_run.induct)
    (auto simp: consumeRequest_def assertLive_def close_permit_def split: sum.splits)

lemma permit_run_bound:
  "length (permit_run permit es) \<le> nat (ap_remaining permit) \<and>
   list_all (\<lambda>t. t < ap_expiresAtMs permit) (permit_run permit es)"
proof (induction permit es rule: permit_run.induct)
  case (2 permit service_closed now es)
  show ?case
  proof (cases "consumeRequest service_closed now permit")
    case (Inr permit')
    then have "0 < ap_remaining permit" "permit' = permit\<lparr>ap_remaining := ap_remaining permit - 1\<rparr>"
      "now < ap_expiresAtMs permit"
      by (auto simp: consumeRequest_def assertLive_def split: option.splits if_splits)
    then show ?thesis using "2.IH"(2) [OF Inr] Inr by auto
  qed (use "2.IH"(1) in simp)
qed (auto simp: close_permit_def)

lemma attempt_granted:
  assumes "snd (run_attempt digest now1 now2 now3 now4 ready redisNow fate scope st) = Inr permit"
  obtains d where "ms_deadlineAtMs scope = Some d" "ap_remaining permit = 12"
    "ap_expiresAtMs permit = min d (now4 + 60000)"
proof (cases "ms_deadlineAtMs scope")
  case None
  then show ?thesis using assms by (cases st) (simp add: run_attempt_def)
next
  case (Some d)
  obtain service store where st: "st = (service, store)" by (cases st)
  obtain ck ak where keys: "maxMuteApiBudgetKeys digest (ms_chatId scope) (ms_subjectUserId scope) = (ck, ak)"
    by force
  obtain s' answer where script: "reserve_script redisNow ak ck store = (s', answer)" by force
  have "permit = \<lparr>ap_scope = scope, ap_expiresAtMs = min d (now4 + MAX_ATTEMPT_DURATION_MS),
      ap_remaining = REQUESTS_PER_ATTEMPT, ap_closed = False\<rparr>"
    using assms unfolding run_attempt_def st Some by (simp add: keys script Let_def split: if_splits)
  then show ?thesis
    using that [OF Some] by (simp add: REQUESTS_PER_ATTEMPT_def MAX_ATTEMPT_DURATION_MS_def)
qed

text \<open>A call of \<^verbatim>\<open>run\<close> with a connection that is there and a script that is answered.\<close>

record healthy_call =
  hc_scope :: mute_scope
  hc_now1 :: int
  hc_now2 :: int
  hc_now3 :: int
  hc_now4 :: int
  hc_redisNow :: int

definition healthy_run ::
    "(js_string \<Rightarrow> js_string) \<Rightarrow> healthy_call \<Rightarrow> budget_service \<times> budget_store \<Rightarrow>
       (budget_service \<times> budget_store) \<times> ((budget_reason \<times> int) + attempt_permit)" where
  "healthy_run digest e st =
     run_attempt digest (hc_now1 e) (hc_now2 e) (hc_now3 e) (hc_now4 e) True (hc_redisNow e) Answered (hc_scope e) st"

fun healthy_results ::
    "(js_string \<Rightarrow> js_string) \<Rightarrow> budget_service \<times> budget_store \<Rightarrow> healthy_call list \<Rightarrow>
       ((budget_reason \<times> int) + attempt_permit) list" where
  "healthy_results digest st [] = []"
| "healthy_results digest st (e # es) =
     (case healthy_run digest e st of (st', r) \<Rightarrow> r # healthy_results digest st' es)"

text \<open>Each call comes before the retry time of the service has passed, and before its own deadline.\<close>

fun steady_calls :: "int \<Rightarrow> healthy_call list \<Rightarrow> bool" where
  "steady_calls until [] = True"
| "steady_calls until (e # es) =
     (hc_now2 e < until \<and> (case ms_deadlineAtMs (hc_scope e) of None \<Rightarrow> False | Some d \<Rightarrow> hc_now1 e < d) \<and>
      steady_calls (hc_now3 e + UNAVAILABLE_RETRY_MS) es)"

section \<open>Properties\<close>

text \<open>
  C15: From an empty store and with a clock of Redis that does not go back, however the calls for the
  muted users of a chat interleave, and although keys expire, the attempts granted between two times
  cost at most the capacity of the bucket and what it refills in between, at twelve requests each:
  for a chat 144 requests and 480 a minute, for a muted user in a chat 72 requests and 120 a minute.
\<close>

theorem mute_calls_bounded:
  assumes "sorted (0 # map fst (es @ fs))" "list_all (\<lambda>e. t0 \<le> fst e \<and> fst e \<le> t1) fs" "t0 \<le> t1"
  shows "12 * of_nat (length (filter (uses digest k) (granted_calls digest (call_run digest (\<lambda>_. None) es) fs)))
    \<le> capacity_of k + of_int (t1 - t0) * refill_of k / 60000"
proof (cases fs)
  case Nil
  have "0 \<le> of_int (t1 - t0) * refill_of k" using assms(3) capacity_pos(2) [of k] by simp
  then show ?thesis using capacity_pos(1) [of k] Nil by simp
next
  case (Cons e rest)
  let ?s = "call_run digest (\<lambda>_. None) es" and ?t = "last (0 # map fst es)"
  have es: "sorted (0 # map fst es)" using assms(1) by (simp add: sorted_append)
  have ok: "budget_ok ?t ?s" by (rule budget_run_ok [OF empty_ok order_refl es])
  have sorted: "sorted (?t # map fst fs)" using sorted_from_last [of 0 "map fst es" "map fst fs"] assms(1) by simp
  have t: "?t \<le> fst e" "fst e \<le> t1" "t0 \<le> fst e" using sorted assms(2) Cons by simp_all
  then have pos: "0 \<le> fst e" using last_nonneg [OF es] by linarith
  have "12 * of_nat (length (filter (uses digest k) (granted_calls digest ?s fs))) \<le>
      available (fst e) ?s k + of_int (t1 - fst e) * refill_of k / 60000"
    using t pos sorted assms(2) Cons
    by (intro run_bound [OF budget_ok_later [OF ok]]) (auto simp: list_all_iff)
  also have "\<dots> \<le> capacity_of k + of_int (t1 - t0) * refill_of k / 60000"
    using available_bounds(2) [OF budget_ok_later [OF ok t(1)], of k] t(3) capacity_pos(2) [of k]
    by (intro add_mono divide_right_mono mult_right_mono) simp_all
  finally show ?thesis .
qed

theorem mute_calls_bounded_witness:
  "12 * of_nat (length (filter (uses id (Chat_Key [1]))
     (granted_calls id (call_run id (\<lambda>_. None) [(0, [1], [2])]) [(5, [1], [2]), (9, [1], [3])])))
   \<le> capacity_of (Chat_Key [1]) + of_int (10 - 5) * refill_of (Chat_Key [1]) / 60000"
  by (rule mute_calls_bounded) simp_all

text \<open>
  A muted user who is refused for himself stays refused for exactly the time he was told: until
  then every call for him in that chat is refused and leaves his entry alone, so that trying again
  never prolongs the wait, and calls for other users or the pressure of the chat never touch it.
\<close>

theorem actor_cooldown_exact:
  assumes "sorted (0 # map fst (es @ e # fs))" "uses digest (Actor_Key c u) e"
    and "call_script digest (call_run digest (\<lambda>_. None) es) e = (s', Some (0, d, 1))"
    and "list_all (\<lambda>x. fst x < fst e + d) fs"
  shows "call_run digest s' fs (Actor_Key c u) = s' (Actor_Key c u) \<and>
    filter (uses digest (Actor_Key c u)) (granted_calls digest s' fs) = []"
proof -
  obtain now c' u' where e: "e = (now, c', u')" by (cases e)
  have key: "c = digest c'" "u = digest u'" using assms(2) by (simp_all add: e)
  let ?s = "call_run digest (\<lambda>_. None) es" and ?t = "last (0 # map fst es)"
  have es: "sorted (0 # map fst es)" using assms(1) by (simp add: sorted_append)
  have sorted: "sorted (?t # map fst (e # fs))"
    using sorted_from_last [of 0 "map fst es" "map fst (e # fs)"] assms(1) by simp
  have "?t \<le> now" "sorted (now # map fst fs)" using sorted by (simp_all add: e)
  then have t: "?t \<le> now" "0 \<le> now" "sorted (now # map fst fs)" using last_nonneg [OF es] by linarith+
  have ok: "budget_ok now ?s" by (rule budget_ok_later [OF budget_run_ok [OF empty_ok order_refl es] t(1)])
  have call: "reserve_script now (Actor_Key c u) (Chat_Key c) ?s = (s', Some (0, d, 1))"
    using assms(3) by (simp add: e key maxMuteApiBudgetKeys_def)
  have "cooling s' (Actor_Key c u) (now + d)" by (rule refused_cooling [OF ok t(2) call])
  moreover have "budget_ok now s'" using reserve_effect(1) [OF ok t(2) call] .
  ultimately show ?thesis
    using cooling_run [OF _ t(2,3), of s' "now + d"] assms(4) by (simp add: e)
qed

text \<open>
  Within a granted attempt at most twelve requests are made, all before its deadline and
  within a minute, nested attempts included, and none after it is closed.
\<close>

theorem attempt_within_permit:
  "case snd (run_attempt digest now1 now2 now3 now4 ready redisNow fate scope st) of
     Inl e \<Rightarrow> True
   | Inr permit \<Rightarrow>
       length (permit_run permit es) \<le> 12 \<and>
       list_all (\<lambda>t. t < now4 + 60000 \<and> (case ms_deadlineAtMs scope of None \<Rightarrow> False | Some d \<Rightarrow> t < d))
         (permit_run permit es) \<and>
       permit_run permit (Close_Permit # es) = []"
proof (cases "snd (run_attempt digest now1 now2 now3 now4 ready redisNow fate scope st)")
  case (Inr permit)
  then obtain d where d: "ms_deadlineAtMs scope = Some d" "ap_remaining permit = 12"
    "ap_expiresAtMs permit = min d (now4 + 60000)" by (rule attempt_granted)
  have "list_all (\<lambda>t. t < now4 + 60000 \<and> t < d) (permit_run permit es)"
    using permit_run_bound [of permit es] d(3) by (auto simp: list_all_iff)
  moreover have "length (permit_run permit es) \<le> 12" using permit_run_bound [of permit es] d(2) by simp
  moreover have "permit_run permit (Close_Permit # es) = []"
    by (simp add: permit_run_closed close_permit_def)
  ultimately show ?thesis unfolding Inr d(1) by simp
qed simp

text \<open>
  C40: Once Redis has failed, calls that keep coming before the retry time passes are refused
  forever, although Redis is back and would answer each of them: every refused call sets the retry
  time anew, and none of them reaches Redis.
\<close>

theorem outage_outlives_redis_failure:
  assumes "steady_calls (bs_unavailableUntilMs service) es"
  shows "list_all (\<lambda>r. r = Inl (Unavailable, UNAVAILABLE_RETRY_MS)) (healthy_results digest (service, store) es)"
  using assms
proof (induction es arbitrary: service)
  case (Cons e es)
  let ?service = "service\<lparr>bs_unavailableUntilMs := hc_now3 e + UNAVAILABLE_RETRY_MS\<rparr>"
  obtain d where d: "ms_deadlineAtMs (hc_scope e) = Some d" "\<not> d \<le> hc_now1 e"
    using Cons.prems by (auto split: option.splits)
  have refused: "connection_refused (hc_now2 e) True service"
    using Cons.prems by (simp add: connection_refused_def)
  have "healthy_run digest e (service, store) = ((?service, store), Inl (Unavailable, UNAVAILABLE_RETRY_MS))"
    unfolding healthy_run_def run_attempt_def Let_def maxMuteApiBudgetKeys_def by (simp add: d refused)
  then show ?case using Cons.IH [of ?service] Cons.prems by simp
qed simp

definition sample_call :: "int \<Rightarrow> healthy_call" where
  "sample_call t = \<lparr>hc_scope = \<lparr>ms_chatId = [], ms_subjectUserId = [], ms_intentId = [], ms_attemptCount = 1,
      ms_deadlineAtMs = Some (t + 1000)\<rparr>,
    hc_now1 = t, hc_now2 = t, hc_now3 = t, hc_now4 = t, hc_redisNow = t\<rparr>"

theorem outage_outlives_redis_failure_witness:
  "list_all (\<lambda>r. r = Inl (Unavailable, UNAVAILABLE_RETRY_MS))
     (healthy_results id (\<lparr>bs_closed = False, bs_unavailableUntilMs = 5000\<rparr>, \<lambda>_. None)
       (map sample_call [4999, 9998, 14997, 19996]))"
  by (rule outage_outlives_redis_failure) (simp add: sample_call_def UNAVAILABLE_RETRY_MS_def)

theorem actor_cooldown_exact_witness:
  "let es = map (\<lambda>t. (t, [1], [2])) [0, 0, 0, 0, 0, 0];
       s' = fst (call_script id (call_run id (\<lambda>_. None) es) (0, [1], [2]))
   in call_run id s' [(299999, [1], [2])] (Actor_Key [1] [2]) = s' (Actor_Key [1] [2]) \<and>
      filter (uses id (Actor_Key [1] [2])) (granted_calls id s' [(299999, [1], [2])]) = []"
  unfolding Let_def
  apply (rule actor_cooldown_exact [where e = "(0, [1], [2])" and es = "map (\<lambda>t. (t, [1], [2])) [0, 0, 0, 0, 0, 0]"
        and d = 300000])
  apply simp
  apply simp
  apply (simp add: maxMuteApiBudgetKeys_def reserve_script_def budget_get_def read_bucket_def write_actor_def
      write_chat_def or_zero_def refilled_def cooldown_delay_def Let_def)
  apply simp
  done

end
