(* ===== verification/Flood_Gate.thy ===== *)
theory Flood_Gate
  imports JS_Values
begin

text \<open>
  \<^verbatim>\<open>apps/api/src/publisher/publisher-auto-reply-flood-gate.service.ts\<close> and its
  \<^verbatim>\<open>.config.ts\<close>: how many automatic replies one user and one chat may cause, decided
  by a script in Redis that also remembers its decision for every message.

  \<^item> The store holds the decisions, each the number written there (\<open>None\<close> for a text that
    is no number), and the windows, each a sorted set of messages with the time of their admission.
    Every key carries the time it expires.  Redis time is an argument, in milliseconds.
  \<^item> The digest of an identity is an argument; a command is what \<^verbatim>\<open>evaluate\<close> sends.
  \<^item> A reply is a list of integers, as Redis turns a Lua table of numbers into one.
\<close>

section \<open>Settings\<close>

definition BURST_WINDOW_SEC :: int where "BURST_WINDOW_SEC = 10"
definition ROLLING_WINDOW_SEC :: int where "ROLLING_WINDOW_SEC = 60"
definition DECISION_TTL_SEC :: int where "DECISION_TTL_SEC = 120"

record flood_limits =
  fl_userBurst :: int
  fl_userRolling :: int
  fl_chatBurst :: int
  fl_chatRolling :: int

text \<open>What the configuration holds under a key: an integer, or a value that is not a safe integer.\<close>

datatype config_number = Integer int | Not_An_Integer

datatype flood_setting = User_Burst_Limit | User_Rolling_Limit | Chat_Burst_Limit | Chat_Rolling_Limit | Redis_Timeout

fun flood_default :: "flood_setting \<Rightarrow> int" where
  "flood_default User_Burst_Limit = 3"
| "flood_default User_Rolling_Limit = 10"
| "flood_default Chat_Burst_Limit = 30"
| "flood_default Chat_Rolling_Limit = 120"
| "flood_default Redis_Timeout = 100"

fun flood_bounds :: "flood_setting \<Rightarrow> int \<times> int" where
  "flood_bounds User_Burst_Limit = (1, 100)"
| "flood_bounds User_Rolling_Limit = (1, 1000)"
| "flood_bounds Chat_Burst_Limit = (1, 1000)"
| "flood_bounds Chat_Rolling_Limit = (1, 10000)"
| "flood_bounds Redis_Timeout = (10, 2000)"

datatype flood_config_error = Out_Of_Bounds flood_setting | Limits_Do_Not_Cover

definition readBoundedInt ::
    "(flood_setting \<Rightarrow> config_number option) \<Rightarrow> flood_setting \<Rightarrow> flood_config_error + int" where
  "readBoundedInt config key =
     (case (case config key of None \<Rightarrow> Integer (flood_default key) | Some v \<Rightarrow> v) of
        Not_An_Integer \<Rightarrow> Inl (Out_Of_Bounds key)
      | Integer v \<Rightarrow>
          if v < fst (flood_bounds key) \<or> v > snd (flood_bounds key) then Inl (Out_Of_Bounds key) else Inr v)"

text \<open>The constructor: the limits and the timeout of commands, in the order they are read.\<close>

definition new_flood_gate ::
    "(flood_setting \<Rightarrow> config_number option) \<Rightarrow> flood_config_error + (flood_limits \<times> int)" where
  "new_flood_gate config =
     (case readBoundedInt config User_Burst_Limit of Inl e \<Rightarrow> Inl e | Inr ub \<Rightarrow>
     (case readBoundedInt config User_Rolling_Limit of Inl e \<Rightarrow> Inl e | Inr ur \<Rightarrow>
     (case readBoundedInt config Chat_Burst_Limit of Inl e \<Rightarrow> Inl e | Inr cb \<Rightarrow>
     (case readBoundedInt config Chat_Rolling_Limit of Inl e \<Rightarrow> Inl e | Inr cr \<Rightarrow>
        if ur < ub \<or> cr < cb \<or> cb < ub \<or> cr < ur then Inl Limits_Do_Not_Cover
        else
          (case readBoundedInt config Redis_Timeout of Inl e \<Rightarrow> Inl e
           | Inr timeout \<Rightarrow>
               Inr (\<lparr>fl_userBurst = ub, fl_userRolling = ur, fl_chatBurst = cb, fl_chatRolling = cr\<rparr>, timeout))))))"

section \<open>Keys\<close>

record flood_identity =
  fi_publisherBotId :: js_string
  fi_chatId :: js_string
  fi_senderUserId :: js_string
  fi_sourceMessageId :: js_string

datatype decision_key = Decision_Key (dk_chat: js_string) (dk_decision: js_string)
datatype window_key = User_Key js_string js_string | Chat_Window js_string

definition requireIdentity :: "js_string \<Rightarrow> js_string option" where
  "requireIdentity value = (let normalized = trim value in if normalized = [] then None else Some normalized)"

record flood_keys =
  fk_decision :: decision_key
  fk_user :: window_key
  fk_chat :: window_key
  fk_member :: js_string

definition buildKeys :: "(js_string list \<Rightarrow> js_string) \<Rightarrow> flood_identity \<Rightarrow> flood_keys option" where
  "buildKeys digest params =
     (case (requireIdentity (fi_publisherBotId params), requireIdentity (fi_chatId params),
            requireIdentity (fi_senderUserId params), requireIdentity (fi_sourceMessageId params)) of
        (Some botId, Some chat, Some user, Some message) \<Rightarrow>
          (let chatDigest = digest [ascii ''chat'', botId, chat];
               userDigest = digest [ascii ''user'', botId, chat, user];
               decisionDigest = digest [ascii ''decision'', botId, chat, message]
           in Some \<lparr>fk_decision = Decision_Key chatDigest decisionDigest,
                    fk_user = User_Key chatDigest userDigest, fk_chat = Chat_Window chatDigest,
                    fk_member = decisionDigest\<rparr>)
      | _ \<Rightarrow> None)"

section \<open>The script\<close>

record flood_store =
  fs_decisions :: "decision_key \<Rightarrow> (int option \<times> int) option"
  fs_windows :: "window_key \<Rightarrow> ((js_string, int) jsmap \<times> int) option"

definition empty_flood :: flood_store where
  "empty_flood = \<lparr>fs_decisions = \<lambda>_. None, fs_windows = \<lambda>_. None\<rparr>"

definition decision_now :: "int \<Rightarrow> flood_store \<Rightarrow> decision_key \<Rightarrow> int option option" where
  "decision_now now s k =
     (case fs_decisions s k of Some (d, expires) \<Rightarrow> if now < expires then Some d else None | None \<Rightarrow> None)"

definition window_now :: "int \<Rightarrow> flood_store \<Rightarrow> window_key \<Rightarrow> (js_string, int) jsmap" where
  "window_now now s k =
     (case fs_windows s k of Some (ms, expires) \<Rightarrow> if now < expires then ms else [] | None \<Rightarrow> [])"

text \<open>\<^verbatim>\<open>ZREMRANGEBYSCORE key -inf cutoff\<close>, and \<^verbatim>\<open>ZCOUNT\<close> above a score.\<close>

definition drop_until :: "int \<Rightarrow> window_key \<Rightarrow> flood_store \<Rightarrow> flood_store" where
  "drop_until cutoff k s =
     s\<lparr>fs_windows := (fs_windows s)
         (k := map_option (\<lambda>(ms, expires). (filter (\<lambda>m. snd m > cutoff) ms, expires)) (fs_windows s k))\<rparr>"

definition count_after :: "int \<Rightarrow> (js_string, int) jsmap \<Rightarrow> int" where
  "count_after t ms = int (length (filter (\<lambda>m. snd m > t) ms))"

definition put_decision :: "int \<Rightarrow> int \<Rightarrow> int \<Rightarrow> decision_key \<Rightarrow> flood_store \<Rightarrow> flood_store" where
  "put_decision now ttlSec d k s = s\<lparr>fs_decisions := (fs_decisions s)(k \<mapsto> (Some d, now + ttlSec * 1000))\<rparr>"

definition add_member :: "int \<Rightarrow> int \<Rightarrow> js_string \<Rightarrow> window_key \<Rightarrow> flood_store \<Rightarrow> flood_store" where
  "add_member now ttlSec member k s =
     s\<lparr>fs_windows := (fs_windows s)(k \<mapsto> (jsmap_set member now (window_now now s k), now + ttlSec * 1000))\<rparr>"

record flood_args =
  fa_deadline :: int
  fa_member :: js_string
  fa_burstSec :: int
  fa_rollingSec :: int
  fa_decisionTtlSec :: int
  fa_keyTtlSec :: int
  fa_limits :: flood_limits
  fa_upstream :: int
  fa_replayOnly :: int

definition deny_reason :: "flood_limits \<Rightarrow> int \<Rightarrow> int \<Rightarrow> int \<Rightarrow> int \<Rightarrow> int" where
  "deny_reason l userBurst userRolling chatBurst chatRolling =
     (if userBurst \<ge> fl_userBurst l then 1
      else if userRolling \<ge> fl_userRolling l then 2
      else if chatBurst \<ge> fl_chatBurst l then 3
      else if chatRolling \<ge> fl_chatRolling l then 4
      else 0)"

definition replay_reply :: "int option \<Rightarrow> int list" where
  "replay_reply d =
     (case d of
        None \<Rightarrow> [-1, 0]
      | Some n \<Rightarrow> if n = 1 then [2, 0] else if 11 \<le> n \<and> n \<le> 16 then [0, n - 10] else [-1, 0])"

definition flood_admission ::
    "int \<Rightarrow> decision_key \<Rightarrow> window_key \<Rightarrow> window_key \<Rightarrow> flood_args \<Rightarrow> flood_store \<Rightarrow> flood_store \<times> int list" where
  "flood_admission now decisionKey userKey chatKey a s =
     (let cutoff = now - fa_rollingSec a * 1000;
          s1 = drop_until cutoff chatKey (drop_until cutoff userKey s);
          user = window_now now s1 userKey; chat = window_now now s1 chatKey;
          userMember = jsmap_get user (fa_member a) \<noteq> None;
          chatMember = jsmap_get chat (fa_member a) \<noteq> None
      in if userMember \<and> chatMember then (put_decision now (fa_decisionTtlSec a) 1 decisionKey s1, [2, 0])
         else if userMember \<or> chatMember then (s1, [-1, 0])
         else
           (let burstMin = now - fa_burstSec a * 1000;
                userBurst = count_after burstMin user; userRolling = int (length user);
                chatBurst = count_after burstMin chat; chatRolling = int (length chat);
                reason = deny_reason (fa_limits a) userBurst userRolling chatBurst chatRolling
            in if reason \<noteq> 0
               then (put_decision now (fa_decisionTtlSec a) (reason + 10) decisionKey s1,
                     [0, reason, userBurst, userRolling, chatBurst, chatRolling])
               else (put_decision now (fa_decisionTtlSec a) 1 decisionKey
                       (add_member now (fa_keyTtlSec a) (fa_member a) chatKey
                          (add_member now (fa_keyTtlSec a) (fa_member a) userKey s1)),
                     [1, 0, userBurst + 1, userRolling + 1, chatBurst + 1, chatRolling + 1])))"

definition flood_script ::
    "int \<Rightarrow> decision_key \<Rightarrow> window_key \<Rightarrow> window_key \<Rightarrow> flood_args \<Rightarrow> flood_store \<Rightarrow> flood_store \<times> int list" where
  "flood_script now decisionKey userKey chatKey a s =
     (if fa_replayOnly a \<noteq> 0 \<and> fa_replayOnly a \<noteq> 1 then (s, [-1, 0])
      else
        (case decision_now now s decisionKey of
           Some d \<Rightarrow> (s, replay_reply d)
         | None \<Rightarrow>
             if fa_replayOnly a = 1 then (s, [3, 0])
             else if now \<ge> fa_deadline a then (s, [-2, 0])
             else if fa_upstream a \<noteq> 0 \<and> fa_upstream a \<noteq> 5 \<and> fa_upstream a \<noteq> 6 then (s, [-1, 0])
             else if fa_upstream a \<noteq> 0
             then (put_decision now (fa_decisionTtlSec a) (fa_upstream a + 10) decisionKey s, [0, fa_upstream a])
             else flood_admission now decisionKey userKey chatKey a s))"

section \<open>The service\<close>

datatype flood_denial =
    Denied_User_Burst | Denied_User_Rolling | Denied_Chat_Burst | Denied_Chat_Rolling | Denied_Backlog_Limit
  | Denied_Backlog_Unavailable | Denied_Decision_Missing | Denied_Unavailable

datatype flood_result = Allowed (replayed: bool) | Denied flood_denial

datatype upstream_denial = Backlog_Limit | Backlog_Unavailable

definition encodeUpstreamDenialReason :: "upstream_denial option \<Rightarrow> int" where
  "encodeUpstreamDenialReason r =
     (case r of None \<Rightarrow> 0 | Some Backlog_Limit \<Rightarrow> 5 | Some Backlog_Unavailable \<Rightarrow> 6)"

text \<open>\<open>None\<close> is the thrown error; a raw answer that is no array is \<open>None\<close> too.\<close>

definition parseResult :: "int list option \<Rightarrow> flood_result option" where
  "parseResult raw =
     (case raw of
        Some (status # reason # _) \<Rightarrow>
          if (status = 1 \<or> status = 2) \<and> reason = 0 then Some (Allowed (status = 2))
          else if status = 3 \<and> reason = 0 then Some (Denied Denied_Decision_Missing)
          else if status = 0 \<and> reason \<ge> 1 \<and> reason \<le> 6
          then Some (Denied ([Denied_User_Burst, Denied_User_Rolling, Denied_Chat_Burst, Denied_Chat_Rolling,
                              Denied_Backlog_Limit, Denied_Backlog_Unavailable] ! nat (reason - 1)))
          else None
      | _ \<Rightarrow> None)"

definition isDefinitiveNoAdmissionResult :: "int list option \<Rightarrow> bool" where
  "isDefinitiveNoAdmissionResult raw =
     (case raw of Some (status # reason # _) \<Rightarrow> (status = - 1 \<or> status = - 2) \<and> reason = 0 | _ \<Rightarrow> False)"

text \<open>The command \<^verbatim>\<open>evaluate\<close> sends, for a reading \<open>clientNow\<close> of its own clock.\<close>

definition flood_args_of ::
    "flood_limits \<Rightarrow> int \<Rightarrow> int \<Rightarrow> upstream_denial option \<Rightarrow> bool \<Rightarrow> flood_keys \<Rightarrow> flood_args" where
  "flood_args_of limits timeout clientNow upstream replayOnly keys =
     \<lparr>fa_deadline = clientNow + timeout, fa_member = fk_member keys, fa_burstSec = BURST_WINDOW_SEC,
      fa_rollingSec = ROLLING_WINDOW_SEC, fa_decisionTtlSec = DECISION_TTL_SEC,
      fa_keyTtlSec = ROLLING_WINDOW_SEC + 1, fa_limits = limits,
      fa_upstream = encodeUpstreamDenialReason upstream, fa_replayOnly = if replayOnly then 1 else 0\<rparr>"

text \<open>
  What became of the command: it never reached the script, the script ran and the answer was lost,
  or the answer came.  \<open>Ambiguous\<close> is the error \<^verbatim>\<open>PublisherAutoReplyFloodGateAmbiguousError\<close>.
\<close>

datatype flood_fate = Never_Ran | Reply_Lost | Reply_Came

datatype flood_outcome = Result flood_result | Ambiguous

definition parse_evaluated :: "bool \<Rightarrow> int list option \<Rightarrow> flood_outcome" where
  "parse_evaluated replayOnly raw =
     (case parseResult raw of
        Some result \<Rightarrow>
          if replayOnly \<and> result = Allowed False
          then (if isDefinitiveNoAdmissionResult raw then Result (Denied Denied_Unavailable) else Ambiguous)
          else Result result
      | None \<Rightarrow>
          if isDefinitiveNoAdmissionResult raw then Result (Denied Denied_Unavailable) else Ambiguous)"

record flood_call =
  fc_params :: flood_identity
  fc_upstream :: "upstream_denial option"
  fc_replayOnly :: bool
  fc_ready :: bool
  fc_clientNow :: int
  fc_fate :: flood_fate

text \<open>
  \<open>evaluate\<close>, for \<^verbatim>\<open>reserve\<close> (\<open>fc_replayOnly\<close> is false) and \<^verbatim>\<open>replay\<close>; \<open>fc_ready\<close> tells
  that there is a client and its status is \<^verbatim>\<open>ready\<close>.  The second component is what the script
  answered, if it ran.
\<close>

definition evaluate ::
    "(js_string list \<Rightarrow> js_string) \<Rightarrow> flood_limits \<Rightarrow> int \<Rightarrow> int \<Rightarrow> flood_call \<Rightarrow> flood_store \<Rightarrow>
       flood_store \<times> int list option \<times> flood_outcome" where
  "evaluate digest limits timeout now c s =
     (case buildKeys digest (fc_params c) of
        None \<Rightarrow> (s, None, Result (Denied Denied_Unavailable))
      | Some keys \<Rightarrow>
          if \<not> fc_ready c then (s, None, Result (Denied Denied_Unavailable))
          else if fc_fate c = Never_Ran then (s, None, Ambiguous)
          else
            (case flood_script now (fk_decision keys) (fk_user keys) (fk_chat keys)
                    (flood_args_of limits timeout (fc_clientNow c) (fc_upstream c) (fc_replayOnly c) keys) s of
               (s', reply) \<Rightarrow>
                 (s', Some reply,
                  if fc_fate c = Reply_Lost then Ambiguous else parse_evaluated (fc_replayOnly c) (Some reply))))"


section \<open>Runs and their admissions\<close>

text \<open>
  A run is a list of calls with the Redis time at which their command runs.  Beside the store it
  keeps the admissions so far: the time and the keys of every command the script admitted.
\<close>

type_synonym admissions = "(int \<times> flood_keys) list"

definition flood_step ::
    "(js_string list \<Rightarrow> js_string) \<Rightarrow> flood_limits \<Rightarrow> int \<Rightarrow> flood_store \<times> admissions \<Rightarrow> int \<times> flood_call \<Rightarrow>
       flood_store \<times> admissions" where
  "flood_step digest limits timeout st e =
     (case (st, e) of ((s, L), (now, c)) \<Rightarrow>
        (case evaluate digest limits timeout now c s of
           (s', reply, _) \<Rightarrow>
             (s', case (buildKeys digest (fc_params c), reply) of
                    (Some keys, Some (x # _)) \<Rightarrow> if x = 1 then L @ [(now, keys)] else L
                  | _ \<Rightarrow> L)))"

definition touches :: "window_key \<Rightarrow> flood_keys \<Rightarrow> bool" where
  "touches k ks \<longleftrightarrow> k = fk_user ks \<or> k = fk_chat ks"

fun burst_limit :: "flood_limits \<Rightarrow> window_key \<Rightarrow> int" where
  "burst_limit l (User_Key _ _) = fl_userBurst l"
| "burst_limit l (Chat_Window _) = fl_chatBurst l"

fun rolling_limit :: "flood_limits \<Rightarrow> window_key \<Rightarrow> int" where
  "rolling_limit l (User_Key _ _) = fl_userRolling l"
| "rolling_limit l (Chat_Window _) = fl_chatRolling l"

definition admitted_between :: "window_key \<Rightarrow> int \<Rightarrow> int \<Rightarrow> admissions \<Rightarrow> int" where
  "admitted_between k t t' L = int (length (filter (\<lambda>(a, ks). touches k ks \<and> t \<le> a \<and> a < t') L))"

definition live_members :: "int \<Rightarrow> window_key \<Rightarrow> admissions \<Rightarrow> (js_string \<times> int) list" where
  "live_members now k L =
     map (\<lambda>(a, ks). (fk_member ks, a)) (filter (\<lambda>(a, ks). touches k ks \<and> a > now - 60000) L)"

definition keys_ok :: "flood_keys \<Rightarrow> bool" where
  "keys_ok ks \<longleftrightarrow>
     (\<exists>chat user. fk_decision ks = Decision_Key chat (fk_member ks) \<and> fk_user ks = User_Key chat user \<and>
        fk_chat ks = Chat_Window chat)"

definition window_ok :: "int \<Rightarrow> admissions \<Rightarrow> window_key \<Rightarrow> ((js_string, int) jsmap \<times> int) option \<Rightarrow> bool" where
  "window_ok now L k w =
     (case w of
        None \<Rightarrow> \<forall>(a, ks) \<in> set L. \<not> touches k ks
      | Some (ms, expires) \<Rightarrow>
          filter (\<lambda>m. snd m > now - 60000) ms = live_members now k L \<and>
          (\<forall>(a, ks) \<in> set L. touches k ks \<longrightarrow> a + 61000 \<le> expires))"

definition admission_ok :: "int \<Rightarrow> flood_store \<Rightarrow> int \<times> flood_keys \<Rightarrow> bool" where
  "admission_ok now s x =
     (case x of (a, ks) \<Rightarrow>
        a \<le> now \<and> keys_ok ks \<and>
        (now < a + 120000 \<longrightarrow> fs_decisions s (fk_decision ks) = Some (Some 1, a + 120000)))"

definition flood_ok :: "flood_limits \<Rightarrow> int \<Rightarrow> flood_store \<times> admissions \<Rightarrow> bool" where
  "flood_ok l now st =
     (case st of (s, L) \<Rightarrow>
        (\<forall>k. window_ok now L k (fs_windows s k)) \<and>
        (\<forall>x \<in> set L. admission_ok now s x) \<and>
        (\<forall>k t. admitted_between k t (t + 10000) L \<le> burst_limit l k \<and>
               admitted_between k t (t + 60000) L \<le> rolling_limit l k))"

lemma buildKeys_ok: "buildKeys digest p = Some ks \<Longrightarrow> keys_ok ks"
  by (auto simp: buildKeys_def keys_ok_def Let_def split: option.splits)

lemma keys_okE:
  assumes "keys_ok ks"
  obtains chat user where "fk_decision ks = Decision_Key chat (fk_member ks)" "fk_user ks = User_Key chat user"
    "fk_chat ks = Chat_Window chat"
  using assms unfolding keys_ok_def by blast

lemma same_window_same_decision:
  assumes "keys_ok ks" "keys_ok ks'" "touches k ks" "touches k ks'" "fk_member ks = fk_member ks'"
  shows "fk_decision ks = fk_decision ks'"
proof -
  obtain c u where a: "fk_decision ks = Decision_Key c (fk_member ks)" "fk_user ks = User_Key c u"
    "fk_chat ks = Chat_Window c" using assms(1) by (rule keys_okE)
  obtain c' u' where b: "fk_decision ks' = Decision_Key c' (fk_member ks')" "fk_user ks' = User_Key c' u'"
    "fk_chat ks' = Chat_Window c'" using assms(2) by (rule keys_okE)
  have "c = c'" using assms(3,4) a b by (auto simp: touches_def)
  then show ?thesis using a b assms(5) by simp
qed

lemma live_members_later:
  "now \<le> now' \<Longrightarrow> filter (\<lambda>m. snd m > now' - 60000) (live_members now k L) = live_members now' k L"
  by (induction L) (auto simp: live_members_def)

lemma live_members_append:
  "live_members now k (L @ [(now, ks)]) = live_members now k L @ (if touches k ks then [(fk_member ks, now)] else [])"
  by (simp add: live_members_def)

lemma window_ok_later:
  assumes "window_ok now L k w" "now \<le> now'"
  shows "window_ok now' L k w"
proof (cases w)
  case None
  then show ?thesis using assms by (simp add: window_ok_def)
next
  case (Some p)
  obtain ms expires where p: "p = (ms, expires)" by (cases p)
  have a: "filter (\<lambda>m. snd m > now - 60000) ms = live_members now k L"
    and b: "\<forall>(a, ks) \<in> set L. touches k ks \<longrightarrow> a + 61000 \<le> expires"
    using assms(1) Some p by (auto simp: window_ok_def)
  have "filter (\<lambda>m. snd m > now' - 60000) ms = filter (\<lambda>m. snd m > now' - 60000) (filter (\<lambda>m. snd m > now - 60000) ms)"
    using assms(2) by (auto intro!: filter_cong)
  then have "filter (\<lambda>m. snd m > now' - 60000) ms = live_members now' k L"
    using a live_members_later [OF assms(2)] by simp
  then show ?thesis using Some p b by (simp add: window_ok_def)
qed

lemma flood_ok_later: "flood_ok l now st \<Longrightarrow> now \<le> now' \<Longrightarrow> flood_ok l now' st"
  unfolding flood_ok_def by (auto intro: window_ok_later simp: admission_ok_def)

lemma window_ok_None: "window_ok now L k None \<Longrightarrow> live_members now' k L = []"
  by (auto simp: window_ok_def live_members_def filter_empty_conv)

lemma window_after_drop:
  assumes "window_ok now L k (fs_windows s k)"
  shows "(case map_option (\<lambda>(ms, expires). (filter (\<lambda>m. snd m > now - 60000) ms, expires)) (fs_windows s k) of
            Some (ms, expires) \<Rightarrow> if now < expires then ms else [] | None \<Rightarrow> []) = live_members now k L"
proof (cases "fs_windows s k")
  case None
  then show ?thesis using window_ok_None assms by simp
next
  case (Some p)
  obtain ms expires where p: "p = (ms, expires)" by (cases p)
  have a: "filter (\<lambda>m. snd m > now - 60000) ms = live_members now k L"
    and b: "\<forall>(a, ks) \<in> set L. touches k ks \<longrightarrow> a + 61000 \<le> expires"
    using assms Some p by (auto simp: window_ok_def)
  have "live_members now k L = []" if "\<not> now < expires"
    using b that by (fastforce simp: live_members_def filter_empty_conv)
  then show ?thesis using Some p a by simp
qed

lemma window_ok_drop:
  assumes "window_ok now L k w"
  shows "window_ok now L k (map_option (\<lambda>(ms, expires). (filter (\<lambda>m. snd m > now - 60000) ms, expires)) w)"
  using assms by (auto simp: window_ok_def split: option.splits)


lemma admitted_between_append:
  "admitted_between k t t' (L @ [(a, ks)]) =
     admitted_between k t t' L + (if touches k ks \<and> t \<le> a \<and> a < t' then 1 else 0)"
  by (simp add: admitted_between_def)

lemma admitted_between_recent:
  assumes "t \<le> now" "now < t + w" "w \<le> 60000"
  shows "admitted_between k t (t + w) L \<le> count_after (now - w) (live_members now k L)"
proof -
  have eq: "count_after (now - w) (live_members now k L) =
      int (length (filter (\<lambda>(a, ks). touches k ks \<and> a > now - 60000 \<and> a > now - w) L))"
    by (simp add: count_after_def live_members_def filter_map comp_def case_prod_beta conj_commute)
      (rule arg_cong [where f = length], auto intro: filter_cong)
  have "length (filter (\<lambda>(a, ks). touches k ks \<and> t \<le> a \<and> a < t + w) L) \<le>
      length (filter (\<lambda>(a, ks). touches k ks \<and> a > now - 60000 \<and> a > now - w) L)"
    using assms by (induction L) auto
  then show ?thesis by (simp add: admitted_between_def eq)
qed

lemma count_after_live: "count_after (now - 60000) (live_members now k L) = int (length (live_members now k L))"
proof -
  have "filter (\<lambda>m. now - 60000 < snd m) (live_members now k L) = live_members now k L"
    unfolding filter_id_conv by (auto simp: live_members_def)
  then show ?thesis by (simp add: count_after_def)
qed

lemma admission_ok_put:
  assumes "admission_ok now s x" "decision_now now s k = None"
  shows "admission_ok now (put_decision now ttl d k s) x"
proof -
  obtain a ks where x: "x = (a, ks)" by (cases x)
  have "fk_decision ks \<noteq> k" if "now < a + 120000"
    using assms that x by (auto simp: admission_ok_def decision_now_def)
  then show ?thesis using assms(1) x by (auto simp: admission_ok_def put_decision_def)
qed

lemma flood_ok_put:
  assumes "flood_ok l now (s, L)" "decision_now now s k = None"
  shows "flood_ok l now (put_decision now ttl d k s, L)"
proof -
  have "fs_windows (put_decision now ttl d k s) = fs_windows s" by (simp add: put_decision_def)
  then show ?thesis using assms admission_ok_put unfolding flood_ok_def by auto
qed

lemma flood_ok_drop:
  assumes "flood_ok l now (s, L)"
  shows "flood_ok l now (drop_until (now - 60000) k s, L)"
  using assms window_ok_drop [of now L] unfolding flood_ok_def drop_until_def
  by (auto simp: admission_ok_def)

lemma drop_until_decision [simp]: "decision_now now (drop_until c k s) = decision_now now s"
  by (rule ext) (simp add: drop_until_def decision_now_def)

lemma window_now_drop:
  assumes "flood_ok l now (s, L)"
  shows "window_now now (drop_until (now - 60000) k s) k = live_members now k L"
proof -
  have "window_ok now L k (fs_windows s k)" using assms by (simp add: flood_ok_def)
  from window_after_drop [OF this] show ?thesis by (simp add: window_now_def drop_until_def)
qed

lemma window_now_drop_other: "k' \<noteq> k \<Longrightarrow> window_now now (drop_until c k s) k' = window_now now s k'"
  by (simp add: window_now_def drop_until_def)

lemma member_not_live:
  assumes ok: "flood_ok l now (s, L)" and ks: "keys_ok ks" and k: "touches k ks"
    and d: "decision_now now s (fk_decision ks) = None"
  shows "jsmap_get (live_members now k L) (fk_member ks) = None"
proof (rule ccontr)
  assume "jsmap_get (live_members now k L) (fk_member ks) \<noteq> None"
  then have "fk_member ks \<in> fst ` set (live_members now k L)" by (simp add: map_of_eq_None_iff)
  then obtain a ks' where L: "(a, ks') \<in> set L" "touches k ks'" "a > now - 60000" "fk_member ks' = fk_member ks"
    by (auto simp: live_members_def)
  have a: "admission_ok now s (a, ks')" using ok L(1) by (auto simp: flood_ok_def)
  have "fk_decision ks' = fk_decision ks"
    using same_window_same_decision [of ks' ks k] a ks k L(2,4) by (simp add: admission_ok_def)
  then show False using a d L(3) by (simp add: admission_ok_def decision_now_def)
qed

text \<open>What an admission does to the store, given that its message is not in its windows.\<close>

definition admitted_store :: "int \<Rightarrow> flood_keys \<Rightarrow> flood_store \<Rightarrow> admissions \<Rightarrow> flood_store" where
  "admitted_store now ks s L =
     put_decision now 120 1 (fk_decision ks)
       (s\<lparr>fs_windows := (fs_windows s)
            (fk_user ks \<mapsto> (live_members now (fk_user ks) (L @ [(now, ks)]), now + 61000),
             fk_chat ks \<mapsto> (live_members now (fk_chat ks) (L @ [(now, ks)]), now + 61000))\<rparr>)"

lemma flood_ok_admit:
  assumes ok: "flood_ok l now (s, L)" and ks: "keys_ok ks"
    and d: "decision_now now s (fk_decision ks) = None"
    and room: "\<And>k. touches k ks \<Longrightarrow>
      count_after (now - 10000) (live_members now k L) < burst_limit l k \<and>
      int (length (live_members now k L)) < rolling_limit l k"
  shows "flood_ok l now (admitted_store now ks s L, L @ [(now, ks)])"
proof -
  let ?s = "admitted_store now ks s L" and ?L = "L @ [(now, ks)]"
  have past: "a \<le> now" if "(a, ks') \<in> set ?L" for a ks'
    using ok that by (auto simp: flood_ok_def admission_ok_def)
  have "window_ok now ?L k (fs_windows ?s k)" for k
  proof (cases "touches k ks")
    case True
    then have w: "fs_windows ?s k = Some (live_members now k ?L, now + 61000)"
      by (auto simp: touches_def admitted_store_def put_decision_def)
    show ?thesis unfolding w window_ok_def using live_members_later [of now now k ?L] past by auto
  next
    case False
    then have "fs_windows ?s k = fs_windows s k" by (auto simp: touches_def admitted_store_def put_decision_def)
    moreover have "live_members now k ?L = live_members now k L" using False by (simp add: live_members_append)
    moreover have "window_ok now L k (fs_windows s k)" using ok by (simp add: flood_ok_def)
    ultimately show ?thesis using False by (auto simp: window_ok_def split: option.splits)
  qed
  moreover have "admission_ok now ?s x" if x: "x \<in> set ?L" for x
  proof (cases "x = (now, ks)")
    case True
    then show ?thesis using ks by (simp add: admission_ok_def admitted_store_def put_decision_def)
  next
    case False
    then have "admission_ok now s x" using ok x by (auto simp: flood_ok_def)
    then have "admission_ok now (s\<lparr>fs_windows := w\<rparr>) x" for w by (auto simp: admission_ok_def)
    moreover have "decision_now now (s\<lparr>fs_windows := w\<rparr>) (fk_decision ks) = None" for w
      using d by (simp add: decision_now_def)
    ultimately show ?thesis unfolding admitted_store_def by (intro admission_ok_put)
  qed
  moreover have "admitted_between k t (t + 10000) ?L \<le> burst_limit l k \<and>
      admitted_between k t (t + 60000) ?L \<le> rolling_limit l k" for k t
  proof -
    have old: "admitted_between k t (t + 10000) L \<le> burst_limit l k"
      "admitted_between k t (t + 60000) L \<le> rolling_limit l k" using ok by (auto simp: flood_ok_def)
    have "admitted_between k t (t + 10000) L < burst_limit l k" if "touches k ks" "t \<le> now" "now < t + 10000"
      using admitted_between_recent [of t now 10000 k L] room [OF that(1)] that by simp
    moreover have "admitted_between k t (t + 60000) L < rolling_limit l k" if "touches k ks" "t \<le> now" "now < t + 60000"
      using admitted_between_recent [of t now 60000 k L] room [OF that(1)] that by (simp add: count_after_live)
    ultimately show ?thesis using old by (auto simp: admitted_between_append)
  qed
  ultimately show ?thesis unfolding flood_ok_def by blast
qed


lemma args_simps [simp]:
  "fa_rollingSec (flood_args_of l timeout c u r ks) = 60" "fa_burstSec (flood_args_of l timeout c u r ks) = 10"
  "fa_decisionTtlSec (flood_args_of l timeout c u r ks) = 120" "fa_keyTtlSec (flood_args_of l timeout c u r ks) = 61"
  "fa_limits (flood_args_of l timeout c u r ks) = l" "fa_member (flood_args_of l timeout c u r ks) = fk_member ks"
  "fa_deadline (flood_args_of l timeout c u r ks) = c + timeout"
  "fa_upstream (flood_args_of l timeout c u r ks) = encodeUpstreamDenialReason u"
  "fa_replayOnly (flood_args_of l timeout c u r ks) = (if r then 1 else 0)"
  by (simp_all add: flood_args_of_def ROLLING_WINDOW_SEC_def BURST_WINDOW_SEC_def DECISION_TTL_SEC_def)

lemma deny_reason_cases:
  "deny_reason l ub ur cb cr = 0 \<longleftrightarrow>
     ub < fl_userBurst l \<and> ur < fl_userRolling l \<and> cb < fl_chatBurst l \<and> cr < fl_chatRolling l"
  "0 \<le> deny_reason l ub ur cb cr" "deny_reason l ub ur cb cr \<le> 4"
  by (auto simp: deny_reason_def)

text \<open>In a store left by a run the script finds neither window holding the message of a fresh decision.\<close>

lemma flood_admission_eq:
  assumes ok: "flood_ok l now (s, L)" and ks: "keys_ok ks" and d: "decision_now now s (fk_decision ks) = None"
  shows "flood_admission now (fk_decision ks) (fk_user ks) (fk_chat ks) (flood_args_of l timeout c u r ks) s =
    (let s1 = drop_until (now - 60000) (fk_chat ks) (drop_until (now - 60000) (fk_user ks) s);
         user = live_members now (fk_user ks) L; chat = live_members now (fk_chat ks) L;
         ub = count_after (now - 10000) user; ur = int (length user);
         cb = count_after (now - 10000) chat; cr = int (length chat);
         reason = deny_reason l ub ur cb cr
     in if reason \<noteq> 0 then (put_decision now 120 (reason + 10) (fk_decision ks) s1, [0, reason, ub, ur, cb, cr])
        else (admitted_store now ks s1 L, [1, 0, ub + 1, ur + 1, cb + 1, cr + 1]))"
proof -
  let ?su = "drop_until (now - 60000) (fk_user ks) s"
  let ?s1 = "drop_until (now - 60000) (fk_chat ks) ?su"
  obtain chat user where sh: "fk_user ks = User_Key chat user" "fk_chat ks = Chat_Window chat"
    using ks by (rule keys_okE)
  have oku: "flood_ok l now (?su, L)" by (rule flood_ok_drop [OF ok])
  have wu: "window_now now ?s1 (fk_user ks) = live_members now (fk_user ks) L"
    using window_now_drop [OF ok, of "fk_user ks"] by (simp add: window_now_drop_other sh)
  have wc: "window_now now ?s1 (fk_chat ks) = live_members now (fk_chat ks) L"
    by (rule window_now_drop [OF oku])
  have nu: "jsmap_get (live_members now (fk_user ks) L) (fk_member ks) = None"
    and nc: "jsmap_get (live_members now (fk_chat ks) L) (fk_member ks) = None"
    using member_not_live [OF ok ks _ d] by (simp_all add: touches_def)
  have add: "put_decision now 120 1 (fk_decision ks)
      (add_member now 61 (fk_member ks) (fk_chat ks) (add_member now 61 (fk_member ks) (fk_user ks) ?s1)) =
      admitted_store now ks ?s1 L"
  proof -
    have other: "window_now now (add_member now 61 (fk_member ks) (fk_user ks) ?s1) (fk_chat ks) =
        window_now now ?s1 (fk_chat ks)"
      by (simp add: add_member_def window_now_def sh)
    have tu: "touches (fk_user ks) ks" "touches (fk_chat ks) ks" by (simp_all add: touches_def)
    show ?thesis
      unfolding admitted_store_def live_members_append
      by (subst (1) add_member_def, subst other) (simp add: wu wc add_member_def jsmap_set_fresh [OF nu] jsmap_set_fresh [OF nc] tu)
  qed
  show ?thesis
    unfolding flood_admission_def args_simps Let_def by (simp add: wu wc nu nc add)
qed

lemma flood_admission_ok:
  assumes ok: "flood_ok l now (s, L)" and ks: "keys_ok ks" and d: "decision_now now s (fk_decision ks) = None"
    and e: "flood_admission now (fk_decision ks) (fk_user ks) (fk_chat ks) (flood_args_of l timeout c u r ks) s = (s', reply)"
  shows "flood_ok l now (s', if hd reply = 1 then L @ [(now, ks)] else L) \<and> reply \<noteq> []"
proof -
  define s1 where "s1 = drop_until (now - 60000) (fk_chat ks) (drop_until (now - 60000) (fk_user ks) s)"
  define reason where "reason = deny_reason l
      (count_after (now - 10000) (live_members now (fk_user ks) L)) (int (length (live_members now (fk_user ks) L)))
      (count_after (now - 10000) (live_members now (fk_chat ks) L)) (int (length (live_members now (fk_chat ks) L)))"
  have ok1: "flood_ok l now (s1, L)" unfolding s1_def by (intro flood_ok_drop ok)
  have d1: "decision_now now s1 (fk_decision ks) = None" using d by (simp add: s1_def)
  show ?thesis
  proof (cases "reason = 0")
    case True
    obtain chat user where sh: "fk_user ks = User_Key chat user" "fk_chat ks = Chat_Window chat"
      using ks by (rule keys_okE)
    have room: "count_after (now - 10000) (live_members now k L) < burst_limit l k \<and>
        int (length (live_members now k L)) < rolling_limit l k" if "touches k ks" for k
      using True that unfolding reason_def deny_reason_cases(1) touches_def sh by auto
    have "flood_ok l now (admitted_store now ks s1 L, L @ [(now, ks)])"
      by (rule flood_ok_admit [OF ok1 ks d1 room])
    then show ?thesis using e True
      unfolding flood_admission_eq [OF ok ks d] Let_def s1_def [symmetric] reason_def [symmetric] by auto
  next
    case False
    have "flood_ok l now (put_decision now 120 (reason + 10) (fk_decision ks) s1, L)"
      by (rule flood_ok_put [OF ok1 d1])
    then show ?thesis using e False
      unfolding flood_admission_eq [OF ok ks d] Let_def s1_def [symmetric] reason_def [symmetric] by auto
  qed
qed

lemma replay_reply_hd: "hd (replay_reply d) \<noteq> 1" "replay_reply d \<noteq> []"
  by (auto simp: replay_reply_def split: option.splits)

lemma flood_script_eq:
  "flood_script now dk uk ck (flood_args_of l timeout c u r ks) s =
     (case decision_now now s dk of
        Some d \<Rightarrow> (s, replay_reply d)
      | None \<Rightarrow>
          if r then (s, [3, 0])
          else if c + timeout \<le> now then (s, [-2, 0])
          else
            (case u of
               Some w \<Rightarrow> (put_decision now 120 (encodeUpstreamDenialReason u + 10) dk s, [0, encodeUpstreamDenialReason u])
             | None \<Rightarrow> flood_admission now dk uk ck (flood_args_of l timeout c u r ks) s))"
proof (cases u)
  case None
  then show ?thesis
    by (cases "decision_now now s dk"; cases r) (simp_all add: flood_script_def encodeUpstreamDenialReason_def)
next
  case (Some w)
  then show ?thesis
    by (cases "decision_now now s dk"; cases r; cases w) (simp_all add: flood_script_def encodeUpstreamDenialReason_def)
qed

lemma flood_script_ok:
  assumes ok: "flood_ok l now (s, L)" and ks: "keys_ok ks"
    and e: "flood_script now (fk_decision ks) (fk_user ks) (fk_chat ks) (flood_args_of l timeout c u r ks) s = (s', reply)"
  shows "flood_ok l now (s', if hd reply = 1 then L @ [(now, ks)] else L) \<and> reply \<noteq> []"
proof (cases "decision_now now s (fk_decision ks)")
  case (Some d)
  then show ?thesis using ok e replay_reply_hd [of d] by (auto simp: flood_script_eq)
next
  case None
  note eq = e [unfolded flood_script_eq None option.case]
  show ?thesis
  proof (cases "r \<or> c + timeout \<le> now")
    case True
    then show ?thesis using eq ok by (auto split: if_splits)
  next
    case False
    show ?thesis
    proof (cases u)
      case None
      then show ?thesis using eq False flood_admission_ok [OF ok ks \<open>decision_now now s (fk_decision ks) = None\<close>] by simp
    next
      case (Some w)
      then show ?thesis using eq False flood_ok_put [OF ok None] by auto
    qed
  qed
qed

lemma flood_step_ok:
  assumes ok: "flood_ok l now st"
  shows "flood_ok l now (flood_step digest l timeout st (now, c))"
proof -
  obtain s L where st: "st = (s, L)" by (cases st)
  obtain s' reply out where e: "evaluate digest l timeout now c s = (s', reply, out)" by (cases "evaluate digest l timeout now c s")
  show ?thesis
  proof (cases "buildKeys digest (fc_params c)")
    case None
    then show ?thesis using ok st by (simp add: flood_step_def evaluate_def)
  next
    case (Some ks)
    show ?thesis
    proof (cases "fc_ready c \<and> fc_fate c \<noteq> Never_Ran")
      case True
      obtain s2 r2 where f: "flood_script now (fk_decision ks) (fk_user ks) (fk_chat ks)
          (flood_args_of l timeout (fc_clientNow c) (fc_upstream c) (fc_replayOnly c) ks) s = (s2, r2)" by fastforce
      have "flood_ok l now (s2, if hd r2 = 1 then L @ [(now, ks)] else L) \<and> r2 \<noteq> []"
        using flood_script_ok [OF ok [unfolded st] buildKeys_ok [OF Some] f] .
      then show ?thesis using Some True f st by (cases r2) (auto simp: flood_step_def evaluate_def)
    next
      case False
      then show ?thesis using ok st Some by (auto simp: flood_step_def evaluate_def)
    qed
  qed
qed

lemma flood_run_ok:
  assumes "flood_ok l now st" "sorted (now # map fst es)"
  shows "flood_ok l (last (now # map fst es)) (foldl (flood_step digest l timeout) st es)"
  using assms
proof (induction es arbitrary: now st)
  case Nil
  then show ?case by simp
next
  case (Cons e es)
  obtain t c where e: "e = (t, c)" by (cases e)
  have "flood_ok l t (flood_step digest l timeout st e)"
    unfolding e using Cons.prems e by (intro flood_step_ok) (auto intro: flood_ok_later)
  from Cons.IH [OF this] Cons.prems(2) e show ?case by simp
qed

lemma flood_ok_empty:
  assumes "new_flood_gate config = Inr (l, timeout)"
  shows "flood_ok l now (empty_flood, [])"
proof -
  have pos: "0 < fl_userBurst l" "0 < fl_userRolling l" "0 < fl_chatBurst l" "0 < fl_chatRolling l"
    using assms by (auto simp: new_flood_gate_def readBoundedInt_def split: sum.splits if_splits option.splits config_number.splits)
  have "0 \<le> burst_limit l k" "0 \<le> rolling_limit l k" for k using pos by (cases k; simp)+
  then show ?thesis by (simp add: flood_ok_def empty_flood_def window_ok_def admitted_between_def)
qed


section \<open>Decisions are kept\<close>

lemma flood_admission_other:
  "k \<noteq> dk \<Longrightarrow> fs_decisions (fst (flood_admission now dk uk ck a s)) k = fs_decisions s k"
  by (simp add: flood_admission_def Let_def put_decision_def add_member_def drop_until_def)

lemma flood_script_keeps:
  assumes "fs_decisions s k = Some (d, expires)" "now < expires"
  shows "fs_decisions (fst (flood_script now dk uk ck a s)) k = Some (d, expires)"
proof (cases "k = dk")
  case True
  then show ?thesis using assms by (simp add: flood_script_def decision_now_def)
next
  case False
  then show ?thesis using assms flood_admission_other [OF False, of now uk ck a s]
    by (cases "decision_now now s dk") (simp_all add: flood_script_def put_decision_def)
qed

lemma evaluate_keeps:
  assumes "fs_decisions s k = Some (d, expires)" "now < expires"
  shows "fs_decisions (fst (evaluate digest l timeout now c s)) k = Some (d, expires)"
proof (cases "buildKeys digest (fc_params c)")
  case None
  then show ?thesis using assms by (simp add: evaluate_def)
next
  case (Some ks)
  then show ?thesis using assms flood_script_keeps [OF assms]
    by (simp add: evaluate_def case_prod_beta)
qed

lemma flood_step_keeps:
  assumes "fs_decisions (fst st) k = Some (d, expires)" "now < expires"
  shows "fs_decisions (fst (flood_step digest l timeout st (now, c))) k = Some (d, expires)"
proof -
  have "fst (flood_step digest l timeout st (now, c)) = fst (evaluate digest l timeout now c (fst st))"
    by (simp add: flood_step_def case_prod_beta)
  then show ?thesis using evaluate_keeps [OF assms] by simp
qed

lemma flood_run_keeps:
  assumes "fs_decisions (fst st) k = Some (d, expires)" "\<forall>e \<in> set es. fst e < expires"
  shows "fs_decisions (fst (foldl (flood_step digest l timeout) st es)) k = Some (d, expires)"
  using assms
proof (induction es arbitrary: st)
  case Nil
  then show ?case by simp
next
  case (Cons e es)
  obtain now c where e: "e = (now, c)" by (cases e)
  have "fs_decisions (fst (flood_step digest l timeout st e)) k = Some (d, expires)"
    unfolding e using Cons.prems e by (intro flood_step_keeps) auto
  then show ?case using Cons.IH Cons.prems(2) by simp
qed

text \<open>A decision just made is written down, as the answer says.\<close>

definition decision_of :: "int list \<Rightarrow> int" where
  "decision_of reply = (if hd reply = 0 then reply ! 1 + 10 else 1)"

lemma flood_admission_decides:
  assumes "flood_admission now dk uk ck (flood_args_of l timeout c u r ks) s = (s', reply)" "hd reply \<noteq> -1"
  shows "fs_decisions s' dk = Some (Some (decision_of reply), now + 120000) \<and>
    (hd reply = 0 \<longrightarrow> 1 \<le> reply ! 1 \<and> reply ! 1 \<le> 4) \<and> (hd reply \<noteq> 0 \<longrightarrow> (hd reply = 1 \<or> hd reply = 2) \<and> reply ! 1 = 0)
    \<and> 2 \<le> length reply"
proof -
  note b = deny_reason_cases(2,3) [where l = l]
  have nz: "1 \<le> deny_reason l x y z w" if "deny_reason l x y z w \<noteq> 0" for x y z w using b(1) [of x y z w] that by linarith
  show ?thesis using assms b(2) nz
    unfolding flood_admission_def Let_def args_simps
    by (auto simp: put_decision_def decision_of_def split: if_splits)
qed

lemma flood_script_decides:
  assumes e: "flood_script now dk uk ck (flood_args_of l timeout c u r ks) s = (s', reply)"
    and fresh: "decision_now now s dk = None" and h: "hd reply = 0 \<or> hd reply = 1"
  shows "fs_decisions s' dk = Some (Some (decision_of reply), now + 120000)"
    "hd reply = 0 \<Longrightarrow> 1 \<le> reply ! 1 \<and> reply ! 1 \<le> 6" "hd reply = 1 \<Longrightarrow> reply ! 1 = 0" "2 \<le> length reply"
proof -
  have "fs_decisions s' dk = Some (Some (decision_of reply), now + 120000) \<and>
    (hd reply = 0 \<longrightarrow> 1 \<le> reply ! 1 \<and> reply ! 1 \<le> 6) \<and> (hd reply = 1 \<longrightarrow> reply ! 1 = 0) \<and> 2 \<le> length reply"
  proof (cases u)
    case None
    then have "flood_admission now dk uk ck (flood_args_of l timeout c u r ks) s = (s', reply)"
      using e fresh h by (auto simp: flood_script_eq split: if_splits)
    from flood_admission_decides [OF this] h show ?thesis by auto
  next
    case (Some w)
    then show ?thesis using e fresh h
      by (cases w) (auto simp: flood_script_eq put_decision_def decision_of_def encodeUpstreamDenialReason_def split: if_splits)
  qed
  then show "fs_decisions s' dk = Some (Some (decision_of reply), now + 120000)"
    "hd reply = 0 \<Longrightarrow> 1 \<le> reply ! 1 \<and> reply ! 1 \<le> 6" "hd reply = 1 \<Longrightarrow> reply ! 1 = 0" "2 \<le> length reply" by auto
qed

section \<open>Answers\<close>

definition reply_shape :: "bool \<Rightarrow> int list \<Rightarrow> bool" where
  "reply_shape replayOnly reply \<longleftrightarrow>
     reply \<in> {[2, 0], [3, 0], [-1, 0], [-2, 0]} \<or>
     (\<exists>n rest. reply = 0 # n # rest \<and> 1 \<le> n \<and> n \<le> 6) \<or>
     (\<exists>rest. reply = 1 # 0 # rest \<and> \<not> replayOnly)"

lemma replay_reply_shape: "reply_shape replayOnly (replay_reply d)"
  by (auto simp: replay_reply_def reply_shape_def split: option.splits)

lemma flood_admission_shape:
  "reply_shape False (snd (flood_admission now dk uk ck (flood_args_of l timeout c u r ks) s))"
proof -
  have nz: "1 \<le> deny_reason l x y z w" "deny_reason l x y z w \<le> 6" if "deny_reason l x y z w \<noteq> 0" for x y z w
    using deny_reason_cases(2,3) [of l x y z w] that by linarith+
  show ?thesis unfolding flood_admission_def Let_def args_simps
    using nz by (auto simp: reply_shape_def)
qed

lemma flood_script_shape:
  "reply_shape r (snd (flood_script now dk uk ck (flood_args_of l timeout c u r ks) s))"
proof (cases "decision_now now s dk")
  case (Some d)
  then show ?thesis by (simp add: flood_script_eq replay_reply_shape)
next
  case None
  show ?thesis
  proof (cases "r \<or> c + timeout \<le> now")
    case True
    then show ?thesis using None by (auto simp: flood_script_eq reply_shape_def)
  next
    case False
    then show ?thesis using None flood_admission_shape [of now dk uk ck l timeout c None r ks s]
      by (cases u rule: option.exhaust; cases "the u")
        (auto simp: flood_script_eq reply_shape_def encodeUpstreamDenialReason_def)
  qed
qed

lemma parse_shape:
  assumes "reply_shape r reply"
  shows "parse_evaluated r (Some reply) \<noteq> Ambiguous"
    "parse_evaluated r (Some reply) = Result (Allowed False) \<longleftrightarrow> (\<exists>rest. reply = 1 # rest)"
proof -
  have nth: "[Denied_User_Burst, Denied_User_Rolling, Denied_Chat_Burst, Denied_Chat_Rolling,
      Denied_Backlog_Limit, Denied_Backlog_Unavailable] ! nat (n - 1) = d \<Longrightarrow> Denied d \<noteq> Allowed x" for n d x by simp
  show "parse_evaluated r (Some reply) \<noteq> Ambiguous"
    "parse_evaluated r (Some reply) = Result (Allowed False) \<longleftrightarrow> (\<exists>rest. reply = 1 # rest)"
    using assms unfolding reply_shape_def
    by (auto simp: parse_evaluated_def parseResult_def isDefinitiveNoAdmissionResult_def)
qed

section \<open>Properties\<close>

text \<open>
  C30: Whatever calls arrive in whatever order, and whichever of their answers are lost, no window of
  ten seconds has more admitted replies to one user than the user's burst limit, and none of a
  minute more than the rolling limit; the same holds for a chat.  So a service the constructor
  accepts never exceeds the limits it was configured with.
\<close>

theorem flood_windows_hold:
  assumes "new_flood_gate config = Inr (l, timeout)" and "sorted (map fst es)"
    and "foldl (flood_step digest l timeout) (empty_flood, []) es = (s, L)"
  shows "admitted_between (User_Key chat user) t (t + 10000) L \<le> fl_userBurst l \<and>
    admitted_between (User_Key chat user) t (t + 60000) L \<le> fl_userRolling l \<and>
    admitted_between (Chat_Window chat) t (t + 10000) L \<le> fl_chatBurst l \<and>
    admitted_between (Chat_Window chat) t (t + 60000) L \<le> fl_chatRolling l"
proof -
  define first where "first = (case es of [] \<Rightarrow> 0 | e # _ \<Rightarrow> fst e)"
  have "sorted (first # map fst es)" using assms(2) by (cases es) (auto simp: first_def)
  from flood_run_ok [OF flood_ok_empty [OF assms(1), of first] this, of digest timeout] assms(3)
  have ok: "flood_ok l (last (first # map fst es)) (s, L)" by simp
  then have b: "admitted_between k t (t + 10000) L \<le> burst_limit l k" "admitted_between k t (t + 60000) L \<le> rolling_limit l k" for k
    by (simp_all add: flood_ok_def)
  show ?thesis using b [of "User_Key chat user"] b [of "Chat_Window chat"] by simp
qed

text \<open>
  A message is decided once.  When the script has decided about a message it had no decision
  for, every later command for that message within the two minutes is answered with that decision,
  an admission as a repeated one, whatever happened in between, whether or not the first answer was
  lost, and whether it asks again or only for the record.
\<close>

theorem one_decision_per_message:
  assumes keys: "buildKeys digest (fc_params c) = Some keys" "buildKeys digest (fc_params c') = Some keys'"
    "fk_decision keys' = fk_decision keys"
    and fresh: "decision_now t s (fk_decision keys) = None"
    and first: "evaluate digest l timeout t c s = (s1, Some reply, first_outcome)" "hd reply = 0 \<or> hd reply = 1"
    and between: "\<forall>e \<in> set es. fst e < t + 120000" "foldl (flood_step digest l timeout) (s1, L) es = (s2, L2)"
    and again: "t' < t + 120000" "fc_ready c'" "fc_fate c' = Reply_Came"
  shows "snd (snd (evaluate digest l timeout t' c' s2)) =
    Result (if hd reply = 1 then Allowed True else the (parseResult (Some reply)))"
proof -
  have f: "flood_script t (fk_decision keys) (fk_user keys) (fk_chat keys)
      (flood_args_of l timeout (fc_clientNow c) (fc_upstream c) (fc_replayOnly c) keys) s = (s1, reply)"
    using first(1) keys(1) by (auto simp: evaluate_def split: if_splits prod.splits)
  note dec = flood_script_decides [OF f fresh first(2)]
  have "fs_decisions (fst (s1, L)) (fk_decision keys) = Some (Some (decision_of reply), t + 120000)" using dec(1) by simp
  from flood_run_keeps [OF this between(1), of digest l timeout]
  have s2: "fs_decisions s2 (fk_decision keys) = Some (Some (decision_of reply), t + 120000)" unfolding between(2) by simp
  have ev: "snd (snd (evaluate digest l timeout t' c' s2)) =
      parse_evaluated (fc_replayOnly c') (Some (replay_reply (Some (decision_of reply))))"
    using keys(2,3) again s2 by (simp add: evaluate_def flood_script_eq decision_now_def)
  obtain reason rest where reply: "reply = hd reply # reason # rest"
    using dec(4) by (cases reply; cases "tl reply") auto
  have reason: "reply ! 1 = reason" by (subst reply) simp
  show ?thesis
  proof (cases "hd reply = 1")
    case True
    then show ?thesis unfolding ev by (simp add: decision_of_def replay_reply_def parse_evaluated_def parseResult_def)
  next
    case False
    then have h: "hd reply = 0" using first(2) by simp
    have r: "1 \<le> reason" "reason \<le> 6" using dec(2) [OF h] reason by simp_all
    have p: "parseResult (Some reply) = parseResult (Some [0, reason])"
      by (subst reply) (simp add: parseResult_def h)
    have rr: "replay_reply (Some (decision_of reply)) = [0, reason]"
      using r h reason by (simp add: decision_of_def replay_reply_def)
    show ?thesis unfolding ev rr p using r False by (simp add: parse_evaluated_def parseResult_def)
  qed
qed


text \<open>
  The service tells an admission from a refusal.  The ambiguous error is thrown exactly when the
  command was sent and no answer came, never for an answer of the script; a new admission is
  returned exactly when the script admitted and its answer came; and a refusal is never returned
  for a command the script admitted.
\<close>

theorem flood_answers_truthfully:
  "case evaluate digest l timeout now c s of (s', reply, outcome) \<Rightarrow>
     (outcome = Ambiguous) = (buildKeys digest (fc_params c) \<noteq> None \<and> fc_ready c \<and> fc_fate c \<noteq> Reply_Came) \<and>
     (outcome = Result (Allowed False)) = (fc_fate c = Reply_Came \<and> (\<exists>rest. reply = Some (1 # rest))) \<and>
     \<not> ((\<exists>d. outcome = Result (Denied d)) \<and> (\<exists>rest. reply = Some (1 # rest)))"
proof (cases "buildKeys digest (fc_params c) = None \<or> \<not> fc_ready c")
  case True
  then show ?thesis by (auto simp: evaluate_def split: option.splits)
next
  case False
  then obtain ks where ks: "buildKeys digest (fc_params c) = Some ks" by auto
  obtain s2 r2 where f: "flood_script now (fk_decision ks) (fk_user ks) (fk_chat ks)
      (flood_args_of l timeout (fc_clientNow c) (fc_upstream c) (fc_replayOnly c) ks) s = (s2, r2)" by fastforce
  have shape: "reply_shape (fc_replayOnly c) r2"
    using flood_script_shape [of "fc_replayOnly c" now "fk_decision ks" "fk_user ks" "fk_chat ks" l timeout
      "fc_clientNow c" "fc_upstream c" ks s] unfolding f by simp
  show ?thesis using False ks f parse_shape [OF shape]
    by (cases "fc_fate c") (auto simp: evaluate_def)
qed

definition sample_digest :: "js_string list \<Rightarrow> js_string" where
  "sample_digest parts = concat (map (\<lambda>p. ascii ''/'' @ p) parts)"

definition sample_identity :: "string \<Rightarrow> flood_identity" where
  "sample_identity m = \<lparr>fi_publisherBotId = ascii ''b'', fi_chatId = ascii ''c'', fi_senderUserId = ascii ''u'',
     fi_sourceMessageId = ascii m\<rparr>"

definition sample_call :: "string \<Rightarrow> flood_fate \<Rightarrow> flood_call" where
  "sample_call m fate = \<lparr>fc_params = sample_identity m, fc_upstream = None, fc_replayOnly = False, fc_ready = True,
     fc_clientNow = 1000, fc_fate = fate\<rparr>"

definition sample_config :: "flood_setting \<Rightarrow> config_number option" where
  "sample_config k = (case k of User_Burst_Limit \<Rightarrow> Some (Integer 1) | _ \<Rightarrow> None)"

definition sample_limits :: flood_limits where
  "sample_limits = \<lparr>fl_userBurst = 1, fl_userRolling = 10, fl_chatBurst = 30, fl_chatRolling = 120\<rparr>"

lemma flood_windows_hold_witness:
  "admitted_between (User_Key (sample_digest [ascii ''chat'', ascii ''b'', ascii ''c'']) (sample_digest [ascii ''user'', ascii ''b'', ascii ''c'', ascii ''u'']))
     1000 11000 (snd (foldl (flood_step sample_digest sample_limits 100) (empty_flood, [])
       [(1000, sample_call ''m1'' Reply_Lost), (1001, sample_call ''m1'' Reply_Came), (1002, sample_call ''m2'' Reply_Came)])) \<le> 1"
proof -
  let ?es = "[(1000, sample_call ''m1'' Reply_Lost), (1001, sample_call ''m1'' Reply_Came), (1002, sample_call ''m2'' Reply_Came)]"
  have c: "new_flood_gate sample_config = Inr (sample_limits, 100)" by code_simp
  obtain s L where r: "foldl (flood_step sample_digest sample_limits 100) (empty_flood, []) ?es = (s, L)" by fastforce
  show ?thesis
    using flood_windows_hold [OF c _ r, of _ _ 1000] unfolding r by (simp add: sample_limits_def)
qed

lemma one_decision_per_message_witness:
  "snd (snd (evaluate sample_digest sample_limits 100 61000 (sample_call ''m1'' Reply_Came)
     (fst (foldl (flood_step sample_digest sample_limits 100)
        (fst (evaluate sample_digest sample_limits 100 1000 (sample_call ''m1'' Reply_Lost) empty_flood), [])
        [(1002, sample_call ''m2'' Reply_Came)])))) = Result (Allowed True)"
proof -
  let ?s1 = "fst (evaluate sample_digest sample_limits 100 1000 (sample_call ''m1'' Reply_Lost) empty_flood)"
  have "buildKeys sample_digest (sample_identity ''m1'') \<noteq> None" by code_simp
  then obtain keys where k: "buildKeys sample_digest (sample_identity ''m1'') = Some keys" "fk_decision keys = fk_decision keys"
    "decision_now 1000 empty_flood (fk_decision keys) = None"
    by (auto simp: decision_now_def empty_flood_def)
  have k': "buildKeys sample_digest (fc_params (sample_call ''m1'' x)) = Some keys" for x
    using k(1) by (simp add: sample_call_def)
  have e: "evaluate sample_digest sample_limits 100 1000 (sample_call ''m1'' Reply_Lost) empty_flood =
      (?s1, Some [1, 0, 1, 1, 1, 1], Ambiguous)"
  proof -
    have "snd (evaluate sample_digest sample_limits 100 1000 (sample_call ''m1'' Reply_Lost) empty_flood) =
        (Some [1, 0, 1, 1, 1, 1], Ambiguous)" by code_simp
    then show ?thesis by (metis prod.collapse)
  qed
  obtain s2 L2 where r: "foldl (flood_step sample_digest sample_limits 100) (?s1, []) [(1002, sample_call ''m2'' Reply_Came)] = (s2, L2)"
    by fastforce
  show ?thesis
    using one_decision_per_message [OF k' k' k(2,3) e _ _ r, of 61000 Reply_Came] unfolding r by (simp add: sample_call_def)
qed

end
