(* ===== verification/Auto_Reply_Quota.thy ===== *)
theory Auto_Reply_Quota
  imports JS_Values
begin

text \<open>
  \<^verbatim>\<open>apps/api/src/publisher/publisher-auto-reply-backlog-quota.ts\<close> and its caller
  \<^verbatim>\<open>publisher-auto-reply.queue.ts\<close>: before a delivery job is added to the queue, a lease
  in Redis reserves a place for it below the limit on the live backlog; the lease is released when
  the addition is over, and expires by itself when nobody releases it.

  \<^item> The store has the leases, a sorted set of operations with the time each ends, for every operation
    the set of the attempts that hold its lease, and the six lists of the queue.  A key carries the
    time it expires; Redis time is an argument, in milliseconds.
  \<^item> BullMQ is not part of the sources: its lists may change in any way that adds no job, and an addition
    changes them in any way that adds no other job.
  \<^item> A call is cut at its waits.  \<open>quota_step\<close> lets the scripts of all calls run, fail, be lost or
    arrive late in any order.
\<close>

section \<open>The queue\<close>

text \<open>An entry of a list is a job or BullMQ's marker.\<close>

datatype queue_entry = Job js_string | Marker

record live_queue =
  lq_wait :: "queue_entry list"
  lq_paused :: "queue_entry list"
  lq_active :: "queue_entry list"
  lq_delayed :: "queue_entry list"
  lq_prioritized :: "queue_entry list"
  lq_waiting_children :: "queue_entry list"

definition queue_entries :: "live_queue \<Rightarrow> queue_entry list" where
  "queue_entries q = lq_wait q @ lq_paused q @ lq_active q @ lq_delayed q @ lq_prioritized q @ lq_waiting_children q"

definition live_backlog :: "live_queue \<Rightarrow> int" where
  "live_backlog q =
     int (length (lq_wait q)) + int (length (lq_paused q)) + int (length (lq_active q)) +
     int (length (lq_delayed q)) + int (length (lq_prioritized q)) + int (length (lq_waiting_children q))"

definition live_jobs :: "live_queue \<Rightarrow> js_string set" where
  "live_jobs q = {j. Job j \<in> set (queue_entries q)}"

section \<open>The scripts\<close>

record quota_store =
  qs_leases :: "((js_string, int) jsmap \<times> int) option"
  qs_attempts :: "js_string \<Rightarrow> (js_string list \<times> int) option"
  qs_queue :: live_queue

definition leases_now :: "int \<Rightarrow> quota_store \<Rightarrow> (js_string, int) jsmap" where
  "leases_now now s = (case qs_leases s of Some (ls, expires) \<Rightarrow> if now < expires then ls else [] | None \<Rightarrow> [])"

definition attempts_now :: "int \<Rightarrow> quota_store \<Rightarrow> js_string \<Rightarrow> js_string list" where
  "attempts_now now s operation =
     (case qs_attempts s operation of Some (ts, expires) \<Rightarrow> if now < expires then ts else [] | None \<Rightarrow> [])"

text \<open>\<^verbatim>\<open>ZREMRANGEBYSCORE key -inf now\<close>.\<close>

definition drop_ended :: "int \<Rightarrow> quota_store \<Rightarrow> quota_store" where
  "drop_ended now s =
     s\<lparr>qs_leases := map_option (\<lambda>(ls, expires). (filter (\<lambda>l. snd l > now) ls, expires)) (qs_leases s)\<rparr>"

definition preflight_script :: "int \<Rightarrow> int \<Rightarrow> int \<Rightarrow> quota_store \<Rightarrow> quota_store \<times> (int \<times> int \<times> int)" where
  "preflight_script now deadline limit s =
     (if now \<ge> deadline then (s, (-2, 0, 0))
      else if limit < 1 then (s, (-1, 0, 0))
      else
        (let s1 = drop_ended now s; live = live_backlog (qs_queue s1); leases = int (length (leases_now now s1))
         in (s1, (if live + leases \<ge> limit then 0 else 1, live, leases))))"

text \<open>\<^verbatim>\<open>SADD\<close> and \<^verbatim>\<open>PEXPIRE\<close> of the attempts, \<^verbatim>\<open>ZADD\<close> and \<^verbatim>\<open>PEXPIRE\<close> of the leases.\<close>

definition hold_lease :: "int \<Rightarrow> js_string \<Rightarrow> js_string \<Rightarrow> int \<Rightarrow> quota_store \<Rightarrow> quota_store" where
  "hold_lease now operation token ttl s =
     s\<lparr>qs_attempts := (qs_attempts s)(operation \<mapsto> (set_add token (attempts_now now s operation), now + ttl)),
       qs_leases := Some (jsmap_set operation (now + ttl) (leases_now now s), now + ttl * 2)\<rparr>"

definition drop_attempts :: "js_string \<Rightarrow> quota_store \<Rightarrow> quota_store" where
  "drop_attempts operation s = s\<lparr>qs_attempts := (qs_attempts s)(operation := None)\<rparr>"

definition claim_script ::
    "int \<Rightarrow> int \<Rightarrow> js_string \<Rightarrow> js_string \<Rightarrow> int \<Rightarrow> int \<Rightarrow> quota_store \<Rightarrow>
       quota_store \<times> (int \<times> js_string \<times> int \<times> int)" where
  "claim_script now deadline operation token ttl limit s =
     (if now \<ge> deadline then (s, (-2, [], 0, 0))
      else if ttl < 1 \<or> limit < 1 then (s, (-1, [], 0, 0))
      else
        (let s1 = drop_ended now s; live = live_backlog (qs_queue s1); leases = int (length (leases_now now s1))
         in if jsmap_get (leases_now now s1) operation \<noteq> None
            then (hold_lease now operation token ttl s1, (2, token, live, leases))
            else
              (let s2 = drop_attempts operation s1
               in if live + leases \<ge> limit then (s2, (0, [], live, leases))
                  else (hold_lease now operation token ttl s2, (1, token, live, leases + 1)))))"

definition release_script :: "int \<Rightarrow> js_string \<Rightarrow> js_string \<Rightarrow> quota_store \<Rightarrow> quota_store \<times> int" where
  "release_script now operation token s =
     (if token \<in> set (attempts_now now s operation)
      then
        (let rest = removeAll token (attempts_now now s operation)
         in if rest = []
            then ((drop_attempts operation s)
                    \<lparr>qs_leases := map_option (\<lambda>(ls, expires). (jsmap_delete operation ls, expires)) (qs_leases s)\<rparr>, 1)
            else (s\<lparr>qs_attempts := (qs_attempts s)
                      (operation := map_option (\<lambda>(_, expires). (rest, expires)) (qs_attempts s operation))\<rparr>, 1))
      else (s, 0))"

section \<open>The quota\<close>

datatype quota_failure = Limit_Reached | Quota_Unavailable

definition BACKLOG_COMMAND_TIMEOUT_MS :: int where "BACKLOG_COMMAND_TIMEOUT_MS = 250"
definition BACKLOG_INFLIGHT_LEASE_TTL_MS :: int where "BACKLOG_INFLIGHT_LEASE_TTL_MS = 600000"

text \<open>An option of the constructor: not given, an integer, or something else.\<close>

datatype quota_option = Not_Given | Integer int | Not_An_Integer

definition readPositiveInt :: "quota_option \<Rightarrow> int \<Rightarrow> int option" where
  "readPositiveInt value fallback =
     (case value of
        Not_Given \<Rightarrow> if fallback < 1 then None else Some fallback
      | Integer n \<Rightarrow> if n < 1 then None else Some n
      | Not_An_Integer \<Rightarrow> None)"

text \<open>What came of a call: an error, or the reply of the script.  A reply is an array in every case.\<close>

definition preflight_outcome :: "(int \<times> int \<times> int) option \<Rightarrow> quota_failure option" where
  "preflight_outcome raw =
     (case raw of
        None \<Rightarrow> Some Quota_Unavailable
      | Some (status, _) \<Rightarrow>
          if status = 0 then Some Limit_Reached else if status \<noteq> 1 then Some Quota_Unavailable else None)"

definition claim_outcome :: "js_string \<Rightarrow> int \<times> js_string \<times> int \<times> int \<Rightarrow> quota_failure + unit" where
  "claim_outcome token raw =
     (case raw of (status, answered, _) \<Rightarrow>
        if status = 0 then Inl Limit_Reached
        else if status \<noteq> 1 \<and> status \<noteq> 2 then Inl Quota_Unavailable
        else if answered \<noteq> token then Inl Quota_Unavailable
        else Inr ())"

definition quota_identity :: "js_string \<Rightarrow> js_string option" where
  "quota_identity value = (let normalized = trim value in if normalized = [] then None else Some normalized)"

definition digestOperationIdentity :: "(js_string \<Rightarrow> js_string) \<Rightarrow> js_string \<Rightarrow> js_string option" where
  "digestOperationIdentity digest value = map_option digest (quota_identity value)"

section \<open>The queue service\<close>

definition buildPublisherAutoReplyJobId :: "(js_string \<Rightarrow> js_string) \<Rightarrow> js_string \<Rightarrow> js_string" where
  "buildPublisherAutoReplyJobId digest deliveryId = ascii ''publisher-auto-reply-'' @ digest (trim deliveryId)"

datatype admission_failure = Dispatch_Disabled | Backlog_Limit | Backlog_Unavailable

definition mapBacklogQuotaError :: "quota_failure option \<Rightarrow> admission_failure" where
  "mapBacklogQuotaError e = (if e = Some Limit_Reached then Backlog_Limit else Backlog_Unavailable)"

record heartbeat =
  hb_dispatchEnabled :: bool
  hb_runtimeDisabled :: bool

text \<open>The second reading, after a pause, is made only when the first finds nothing.\<close>

definition assertAdmissionEnabled :: "heartbeat option \<Rightarrow> heartbeat option \<Rightarrow> admission_failure option" where
  "assertAdmissionEnabled first second =
     (case (if first = None then second else first) of
        Some h \<Rightarrow> if \<not> hb_dispatchEnabled h \<and> hb_runtimeDisabled h then Some Dispatch_Disabled else None
      | None \<Rightarrow> None)"

definition assertNewDeliveryAdmissionEnabled ::
    "heartbeat option \<Rightarrow> heartbeat option \<Rightarrow> (int \<times> int \<times> int) option \<Rightarrow> admission_failure option" where
  "assertNewDeliveryAdmissionEnabled first second raw =
     (case assertAdmissionEnabled first second of
        Some e \<Rightarrow> Some e
      | None \<Rightarrow> map_option (\<lambda>e. mapBacklogQuotaError (Some e)) (preflight_outcome raw))"

datatype job_state = Active | Waiting | Delayed | Prioritized | Waiting_Children | Completed | Failed | Unknown

definition isLiveJob :: "job_state \<Rightarrow> bool" where
  "isLiveJob state \<longleftrightarrow> state \<in> {Active, Waiting, Delayed, Prioritized}"

definition removeReplaceableJob :: "job_state \<Rightarrow> bool" where
  "removeReplaceableJob state \<longleftrightarrow> state = Completed \<or> state = Failed"

datatype delivery_start = No_Delivery_Id | Refused admission_failure | Already_Live | Claims js_string bool

text \<open>
  \<^verbatim>\<open>ensureDeliveryJob\<close> up to its claim: the job it claims for, and whether a finished job of that
  name is removed first.  The state of an existing job is read twice.
\<close>

definition ensureDeliveryJob ::
    "(js_string \<Rightarrow> js_string) \<Rightarrow> js_string \<Rightarrow> heartbeat option \<Rightarrow> heartbeat option \<Rightarrow>
       (js_string \<Rightarrow> (job_state \<times> job_state) option) \<Rightarrow> delivery_start" where
  "ensureDeliveryJob digest deliveryId first second getJob =
     (let normalized = trim deliveryId
      in if normalized = [] then No_Delivery_Id
         else
           (case assertAdmissionEnabled first second of
              Some e \<Rightarrow> Refused e
            | None \<Rightarrow>
                (let jobId = buildPublisherAutoReplyJobId digest normalized
                 in case getJob jobId of
                      Some (state, again) \<Rightarrow>
                        if isLiveJob state then Already_Live else Claims jobId (removeReplaceableJob again)
                    | None \<Rightarrow> Claims jobId False)))"

text \<open>The delay of an added job, for its time \<open>availableAt\<close>.\<close>

definition delivery_delay :: "int option \<Rightarrow> int \<Rightarrow> int" where
  "delivery_delay availableAt now =
     (case availableAt of None \<Rightarrow> 0 | Some t \<Rightarrow> max 0 (min (t - now) (15 * 60000)))"

section \<open>Calls in flight\<close>

text \<open>
  An attempt is one call of \<^verbatim>\<open>ensureDeliveryJob\<close> after its checks, known by the token of its claim:
  its claim is out; it holds a lease granted at a time and its addition is running; its release is
  out (after the addition, or because the answer to its claim was lost); it is over, refused.
\<close>

datatype attempt_phase = Claiming | Holding int | Releasing | Over

record attempt =
  at_job :: js_string
  at_phase :: attempt_phase

record quota_system =
  sy_now :: int
  sy_store :: quota_store
  sy_attempts :: "js_string \<Rightarrow> attempt option"

definition claim_answer :: "int \<Rightarrow> js_string \<Rightarrow> int \<times> js_string \<times> int \<times> int \<Rightarrow> attempt_phase" where
  "claim_answer now token raw = (case claim_outcome token raw of Inr _ \<Rightarrow> Holding now | Inl _ \<Rightarrow> Over)"

definition set_phase :: "js_string \<Rightarrow> attempt_phase \<Rightarrow> quota_system \<Rightarrow> quota_system" where
  "set_phase token p y =
     y\<lparr>sy_attempts := (sy_attempts y)(token := map_option (\<lambda>a. a\<lparr>at_phase := p\<rparr>) (sy_attempts y token))\<rparr>"

text \<open>
  The digest of the job's name is the operation.  The claim of an attempt may run more than once
  and at any time, also after the attempt gave up; the answer of a run may be lost.  The addition
  runs before its lease ends: BullMQ gives up its retries earlier, as the comment on the
  lease time says.
\<close>

inductive quota_step ::
    "(js_string \<Rightarrow> js_string) \<Rightarrow> int \<Rightarrow> int \<Rightarrow> quota_system \<Rightarrow> quota_system \<Rightarrow> bool"
  for digest ttl limit where
  time_passes: "now \<ge> sy_now y \<Longrightarrow> quota_step digest ttl limit y (y\<lparr>sy_now := now\<rparr>)"
| starts: "sy_attempts y token = None \<Longrightarrow>
    quota_step digest ttl limit y
      (y\<lparr>sy_attempts := (sy_attempts y)(token \<mapsto> \<lparr>at_job = job, at_phase = Claiming\<rparr>)\<rparr>)"
| preflight_runs: "quota_step digest ttl limit y
      (y\<lparr>sy_store := fst (preflight_script (sy_now y) deadline limit (sy_store y))\<rparr>)"
| claim_runs: "sy_attempts y token = Some a \<Longrightarrow>
    quota_step digest ttl limit y
      (y\<lparr>sy_store := fst (claim_script (sy_now y) deadline (digest (at_job a)) token ttl limit (sy_store y))\<rparr>)"
| claim_answered: "sy_attempts y token = Some a \<Longrightarrow> at_phase a = Claiming \<Longrightarrow>
    claim_script (sy_now y) deadline (digest (at_job a)) token ttl limit (sy_store y) = (store, reply) \<Longrightarrow>
    quota_step digest ttl limit y
      (set_phase token (claim_answer (sy_now y) token reply) (y\<lparr>sy_store := store\<rparr>))"
| claim_failed: "sy_attempts y token = Some a \<Longrightarrow> at_phase a = Claiming \<Longrightarrow>
    quota_step digest ttl limit y (set_phase token Releasing y)"
| add_runs: "sy_attempts y token = Some a \<Longrightarrow> at_phase a = Holding granted \<Longrightarrow> sy_now y < granted + ttl \<Longrightarrow>
    live_jobs q \<subseteq> insert (at_job a) (live_jobs (qs_queue (sy_store y))) \<Longrightarrow>
    quota_step digest ttl limit y (y\<lparr>sy_store := (sy_store y)\<lparr>qs_queue := q\<rparr>\<rparr>)"
| add_settles: "sy_attempts y token = Some a \<Longrightarrow> at_phase a = Holding granted \<Longrightarrow>
    quota_step digest ttl limit y (set_phase token Releasing y)"
| release_runs: "sy_attempts y token = Some a \<Longrightarrow> at_phase a = Releasing \<Longrightarrow>
    quota_step digest ttl limit y
      (y\<lparr>sy_store := fst (release_script (sy_now y) (digest (at_job a)) token (sy_store y))\<rparr>)"
| queue_moves: "live_jobs q \<subseteq> live_jobs (qs_queue (sy_store y)) \<Longrightarrow>
    quota_step digest ttl limit y (y\<lparr>sy_store := (sy_store y)\<lparr>qs_queue := q\<rparr>\<rparr>)"

inductive quota_reaches ::
    "(js_string \<Rightarrow> js_string) \<Rightarrow> int \<Rightarrow> int \<Rightarrow> quota_system \<Rightarrow> quota_system \<Rightarrow> bool"
  for digest ttl limit where
  here: "quota_reaches digest ttl limit y y"
| step: "quota_reaches digest ttl limit y z \<Longrightarrow> quota_step digest ttl limit z w \<Longrightarrow> quota_reaches digest ttl limit y w"

definition empty_queue :: live_queue where
  "empty_queue = \<lparr>lq_wait = [], lq_paused = [], lq_active = [], lq_delayed = [], lq_prioritized = [],
     lq_waiting_children = []\<rparr>"

definition quota_start :: quota_system where
  "quota_start = \<lparr>sy_now = 0, sy_store = \<lparr>qs_leases = None, qs_attempts = \<lambda>_. None, qs_queue = empty_queue\<rparr>,
     sy_attempts = \<lambda>_. None\<rparr>"


section \<open>Leases that are held\<close>

definition holds_lease :: "quota_store \<Rightarrow> js_string \<Rightarrow> js_string \<Rightarrow> int \<Rightarrow> bool" where
  "holds_lease s operation token until \<longleftrightarrow>
     (\<exists>ts e. qs_attempts s operation = Some (ts, e) \<and> token \<in> set ts \<and> until \<le> e) \<and>
     (\<exists>ls e x. qs_leases s = Some (ls, e) \<and> jsmap_get ls operation = Some x \<and> until \<le> x \<and> until \<le> e)"

lemma holds_leaseE:
  assumes "holds_lease s operation token until"
  obtains ts e ls e' x where "qs_attempts s operation = Some (ts, e)" "token \<in> set ts" "until \<le> e"
    "qs_leases s = Some (ls, e')" "jsmap_get ls operation = Some x" "until \<le> x" "until \<le> e'"
  using assms unfolding holds_lease_def by blast

lemma jsmap_get_filter:
  "jsmap_get ls k = Some x \<Longrightarrow> x > now \<Longrightarrow> jsmap_get (filter (\<lambda>l. snd l > now) ls) k = Some x"
  by (induction ls) (auto split: if_splits)

lemma drop_ended_holds:
  assumes h: "holds_lease s k token until" and t: "now < until"
  shows "holds_lease (drop_ended now s) k token until"
  using h
proof (rule holds_leaseE)
  fix ts e ls e' x
  assume a: "qs_attempts s k = Some (ts, e)" "token \<in> set ts" "until \<le> e"
    "qs_leases s = Some (ls, e')" "jsmap_get ls k = Some x" "until \<le> x" "until \<le> e'"
  have "jsmap_get (filter (\<lambda>l. snd l > now) ls) k = Some x" using a(5,6) t by (intro jsmap_get_filter) auto
  then show ?thesis using a by (simp add: holds_lease_def drop_ended_def)
qed

lemma holds_lease_now:
  assumes "holds_lease s k token until" "now < until"
  shows "jsmap_get (leases_now now s) k \<noteq> None" "token \<in> set (attempts_now now s k)"
  using assms by (auto simp: holds_lease_def leases_now_def attempts_now_def)

lemma hold_lease_holds:
  assumes h: "holds_lease s k token until" and t: "now < until" "until \<le> now + ttl"
  shows "holds_lease (hold_lease now k' token' ttl s) k token until"
  using h
proof (rule holds_leaseE)
  fix ts e ls e' x
  assume a: "qs_attempts s k = Some (ts, e)" "token \<in> set ts" "until \<le> e"
    "qs_leases s = Some (ls, e')" "jsmap_get ls k = Some x" "until \<le> x" "until \<le> e'"
  then show ?thesis using t
    by (auto simp: holds_lease_def hold_lease_def attempts_now_def leases_now_def)
qed

lemma hold_lease_new: "0 \<le> ttl \<Longrightarrow> holds_lease (hold_lease now k token ttl s) k token (now + ttl)"
  by (auto simp: holds_lease_def hold_lease_def)

lemma drop_attempts_other: "k \<noteq> k' \<Longrightarrow> holds_lease (drop_attempts k' s) k token until = holds_lease s k token until"
  by (simp add: holds_lease_def drop_attempts_def)

lemma claim_keeps:
  assumes h: "holds_lease s k token until" and t: "now < until" "until \<le> now + ttl"
  shows "holds_lease (fst (claim_script now deadline k' token' ttl limit s)) k token until"
proof -
  let ?s1 = "drop_ended now s"
  have h1: "holds_lease ?s1 k token until" by (rule drop_ended_holds [OF h t(1)])
  show ?thesis
  proof (cases "jsmap_get (leases_now now ?s1) k' = None")
    case True
    then have "k \<noteq> k'" using holds_lease_now(1) [OF h1 t(1)] by auto
    then have h2: "holds_lease (drop_attempts k' ?s1) k token until" using h1 by (simp add: drop_attempts_other)
    show ?thesis using True h h2 hold_lease_holds [OF h2 t] by (simp add: claim_script_def Let_def)
  next
    case False
    then show ?thesis using h hold_lease_holds [OF h1 t] by (simp add: claim_script_def Let_def)
  qed
qed

lemma claim_grants:
  assumes "claim_script now deadline k token ttl limit s = (s', reply)" "claim_outcome token reply = Inr ()"
  shows "holds_lease s' k token (now + ttl)" "1 \<le> ttl"
proof -
  have ttl: "1 \<le> ttl" using assms by (auto simp: claim_script_def claim_outcome_def split: if_splits)
  then show "1 \<le> ttl" .
  show "holds_lease s' k token (now + ttl)"
    using assms ttl hold_lease_new [of ttl now k token]
    by (auto simp: claim_script_def claim_outcome_def Let_def split: if_splits)
qed

lemma release_keeps_lease:
  assumes h: "holds_lease s k token until" and t: "now < until" and ne: "token \<noteq> token'"
  shows "holds_lease (fst (release_script now k' token' s)) k token until"
  using h
proof (rule holds_leaseE)
  fix ts e ls e' x
  assume a: "qs_attempts s k = Some (ts, e)" "token \<in> set ts" "until \<le> e"
    "qs_leases s = Some (ls, e')" "jsmap_get ls k = Some x" "until \<le> x" "until \<le> e'"
  show ?thesis
  proof (cases "k = k'")
    case True
    have n: "attempts_now now s k = ts" using a t by (simp add: attempts_now_def)
    have "token \<in> set (removeAll token' ts)" using a(2) ne by simp
    moreover from this have "removeAll token' ts \<noteq> []" by (metis empty_iff empty_set)
    ultimately show ?thesis using a True n h by (auto simp: release_script_def holds_lease_def)
  next
    case False
    then show ?thesis using a h by (auto simp: release_script_def holds_lease_def drop_attempts_def Let_def)
  qed
qed

section \<open>Counting operations\<close>

definition leased_operations :: "int \<Rightarrow> quota_store \<Rightarrow> js_string set" where
  "leased_operations now s = {k. \<exists>x. (k, x) \<in> set (leases_now now s) \<and> now < x}"

definition occupied :: "(js_string \<Rightarrow> js_string) \<Rightarrow> int \<Rightarrow> quota_store \<Rightarrow> js_string set" where
  "occupied digest now s = digest ` live_jobs (qs_queue s) \<union> leased_operations now s"

lemma live_jobs_finite [simp, intro]: "finite (live_jobs q)"
proof -
  have "live_jobs q \<subseteq> (\<lambda>e. case e of Job j \<Rightarrow> j | Marker \<Rightarrow> []) ` set (queue_entries q)"
    by (force simp: live_jobs_def image_iff)
  then show ?thesis by (rule finite_subset) simp
qed

lemma live_jobs_card: "int (card (live_jobs q)) \<le> live_backlog q"
proof -
  have "live_jobs q \<subseteq> (\<lambda>e. case e of Job j \<Rightarrow> j | Marker \<Rightarrow> []) ` set (queue_entries q)"
    by (force simp: live_jobs_def image_iff)
  then have "card (live_jobs q) \<le> card ((\<lambda>e. case e of Job j \<Rightarrow> j | Marker \<Rightarrow> []) ` set (queue_entries q))"
    by (rule card_mono [rotated]) simp
  also have "\<dots> \<le> card (set (queue_entries q))" by (rule card_image_le) simp
  also have "\<dots> \<le> length (queue_entries q)" by (rule card_length)
  finally show ?thesis by (simp add: live_backlog_def queue_entries_def)
qed

lemma leased_subset: "leased_operations now s \<subseteq> fst ` set (leases_now now s)"
  by (force simp: leased_operations_def)

lemma leased_finite [simp, intro]: "finite (leased_operations now s)"
  by (rule finite_subset [OF leased_subset]) simp

lemma occupied_finite [simp, intro]: "finite (occupied digest now s)"
  by (simp add: occupied_def)

lemma occupied_card:
  "int (card (occupied digest now s)) \<le> live_backlog (qs_queue s) + int (length (leases_now now s))"
proof -
  have "card (leased_operations now s) \<le> card (fst ` set (leases_now now s))"
    by (rule card_mono [OF _ leased_subset]) simp
  also have "\<dots> \<le> card (set (leases_now now s))" by (rule card_image_le) simp
  also have "\<dots> \<le> length (leases_now now s)" by (rule card_length)
  finally have l: "card (leased_operations now s) \<le> length (leases_now now s)" .
  have "card (digest ` live_jobs (qs_queue s)) \<le> card (live_jobs (qs_queue s))" by (rule card_image_le) simp
  moreover have "card (occupied digest now s) \<le> card (digest ` live_jobs (qs_queue s)) + card (leased_operations now s)"
    unfolding occupied_def by (rule card_Un_le)
  ultimately show ?thesis using l live_jobs_card [of "qs_queue s"] by linarith
qed

lemma drop_ended_leases:
  "leases_now now (drop_ended now s) = filter (\<lambda>l. snd l > now) (leases_now now s)"
  by (auto simp: leases_now_def drop_ended_def split: option.splits)

lemma drop_ended_queue [simp]: "qs_queue (drop_ended now s) = qs_queue s"
  by (simp add: drop_ended_def)

lemma drop_ended_leased [simp]: "leased_operations now (drop_ended now s) = leased_operations now s"
  by (auto simp: leased_operations_def drop_ended_leases)

lemma occupied_drop_ended [simp]: "occupied digest now (drop_ended now s) = occupied digest now s"
  by (simp add: occupied_def)

lemma drop_attempts_occupied [simp]:
  "occupied digest now (drop_attempts k s) = occupied digest now s" "leases_now now (drop_attempts k s) = leases_now now s"
  "qs_queue (drop_attempts k s) = qs_queue s"
  by (simp_all add: occupied_def leased_operations_def leases_now_def drop_attempts_def)

lemma set_jsmap_set: "(k, x) \<in> set (jsmap_set k' v m) \<Longrightarrow> (k = k' \<and> x = v) \<or> (k, x) \<in> set m"
  by (induction m) (auto split: if_splits)

lemma hold_lease_occupied: "occupied digest now (hold_lease now k token ttl s) \<subseteq> insert k (occupied digest now s)"
proof -
  have "leased_operations now (hold_lease now k token ttl s) \<subseteq> insert k (leased_operations now s)"
    by (auto simp: leased_operations_def hold_lease_def leases_now_def split: if_splits dest!: set_jsmap_set)
  then show ?thesis by (auto simp: occupied_def hold_lease_def)
qed

lemma claim_occupied:
  assumes "int (card (occupied digest now s)) \<le> limit"
  shows "int (card (occupied digest now (fst (claim_script now deadline k token ttl limit s)))) \<le> limit"
proof -
  let ?s1 = "drop_ended now s"
  have grow: "int (card (occupied digest now (hold_lease now k token ttl s'))) \<le> limit"
    if "occupied digest now s' = occupied digest now s"
      "k \<in> occupied digest now s \<or> int (card (occupied digest now s)) < limit" for s'
  proof -
    have "occupied digest now (hold_lease now k token ttl s') \<subseteq> insert k (occupied digest now s)"
      using hold_lease_occupied [of digest now k token ttl s'] that(1) by simp
    then have "card (occupied digest now (hold_lease now k token ttl s')) \<le> card (insert k (occupied digest now s))"
      by (rule card_mono [rotated]) simp
    then show ?thesis using that(2) assms by (auto simp: card_insert_if split: if_splits)
  qed
  show ?thesis
  proof (cases "jsmap_get (leases_now now ?s1) k = None")
    case True
    have "int (card (occupied digest now s)) < limit"
      if "\<not> limit \<le> live_backlog (qs_queue s) + int (length (leases_now now ?s1))"
      using occupied_card [of digest now ?s1] that by simp
    then show ?thesis using assms True grow [of "drop_attempts k ?s1"] by (simp add: claim_script_def Let_def)
  next
    case False
    then obtain x where "(k, x) \<in> set (leases_now now ?s1)" by (auto dest: map_of_SomeD)
    then have "k \<in> leased_operations now s" by (auto simp: drop_ended_leases leased_operations_def)
    then show ?thesis using assms False grow [of ?s1] by (simp add: claim_script_def Let_def occupied_def)
  qed
qed

lemma release_occupied: "occupied digest now (fst (release_script now k token s)) \<subseteq> occupied digest now s"
proof -
  have d: "(k', x) \<in> set ls" if "(k', x) \<in> set (jsmap_delete k ls)" for k' x and ls :: "(js_string, int) jsmap"
    using set_jsmap_delete [of k ls] that by auto
  have "set (leases_now now (fst (release_script now k token s))) \<subseteq> set (leases_now now s)"
    by (cases "qs_leases s") (auto simp: release_script_def leases_now_def drop_attempts_def Let_def dest: d)
  then have "leased_operations now (fst (release_script now k token s)) \<subseteq> leased_operations now s"
    by (auto simp: leased_operations_def)
  then show ?thesis by (auto simp: occupied_def release_script_def drop_attempts_def Let_def)
qed


section \<open>The system\<close>

definition quota_ok :: "(js_string \<Rightarrow> js_string) \<Rightarrow> int \<Rightarrow> int \<Rightarrow> quota_system \<Rightarrow> bool" where
  "quota_ok digest ttl limit y \<longleftrightarrow>
     (\<forall>token a granted. sy_attempts y token = Some a \<longrightarrow> at_phase a = Holding granted \<longrightarrow>
        granted \<le> sy_now y \<and>
        (sy_now y < granted + ttl \<longrightarrow> holds_lease (sy_store y) (digest (at_job a)) token (granted + ttl))) \<and>
     int (card (occupied digest (sy_now y) (sy_store y))) \<le> limit"

lemma quota_okD:
  assumes "quota_ok digest ttl limit y" "sy_attempts y token = Some a" "at_phase a = Holding granted"
  shows "granted \<le> sy_now y"
    "sy_now y < granted + ttl \<Longrightarrow> holds_lease (sy_store y) (digest (at_job a)) token (granted + ttl)"
  using assms unfolding quota_ok_def by blast+

lemma quota_ok_card: "quota_ok digest ttl limit y \<Longrightarrow> int (card (occupied digest (sy_now y) (sy_store y))) \<le> limit"
  by (simp add: quota_ok_def)

text \<open>A step of the store alone: what it must keep.\<close>

lemma quota_ok_store:
  assumes ok: "quota_ok digest ttl limit y"
    and keeps: "\<And>token a granted. sy_attempts y token = Some a \<Longrightarrow> at_phase a = Holding granted \<Longrightarrow>
      sy_now y < granted + ttl \<Longrightarrow> holds_lease (sy_store y) (digest (at_job a)) token (granted + ttl) \<Longrightarrow>
      granted \<le> sy_now y \<Longrightarrow> holds_lease store (digest (at_job a)) token (granted + ttl)"
    and card: "int (card (occupied digest (sy_now y) store)) \<le> limit"
  shows "quota_ok digest ttl limit (y\<lparr>sy_store := store\<rparr>)"
  using assms quota_okD [OF ok] unfolding quota_ok_def by simp

lemma quota_ok_phase:
  assumes ok: "quota_ok digest ttl limit y" and at_tok: "sy_attempts y token = Some a"
    and new: "\<And>granted. p = Holding granted \<Longrightarrow> granted \<le> sy_now y \<and>
      holds_lease (sy_store y) (digest (at_job a)) token (granted + ttl)"
  shows "quota_ok digest ttl limit (set_phase token p y)"
  using ok at_tok new unfolding quota_ok_def set_phase_def by auto

lemma occupied_later: "now \<le> now' \<Longrightarrow> occupied digest now' s \<subseteq> occupied digest now s"
proof -
  assume t: "now \<le> now'"
  then have "set (leases_now now' s) \<subseteq> set (leases_now now s)"
    by (cases "qs_leases s") (auto simp: leases_now_def)
  then have "leased_operations now' s \<subseteq> leased_operations now s"
    using t unfolding leased_operations_def by (blast intro: le_less_trans)
  then show ?thesis by (auto simp: occupied_def)
qed

lemma leased_operations_queue [simp]: "leased_operations now (s\<lparr>qs_queue := q\<rparr>) = leased_operations now s"
  by (simp add: leased_operations_def leases_now_def)

lemma occupied_le: "A \<subseteq> occupied digest now s \<Longrightarrow> int (card (occupied digest now s)) \<le> limit \<Longrightarrow> int (card A) \<le> limit"
  using card_mono [OF occupied_finite, of A digest now s] by linarith

lemma holds_leased:
  assumes "holds_lease s k token until" "now < until"
  shows "k \<in> leased_operations now s"
  using assms(1)
proof (rule holds_leaseE)
  fix ls e x
  assume a: "qs_leases s = Some (ls, e)" "jsmap_get ls k = Some x" "until \<le> x" "until \<le> e"
  then have "(k, x) \<in> set (leases_now now s)" "now < x"
    using assms(2) by (auto simp: leases_now_def dest: map_of_SomeD)
  then show ?thesis by (auto simp: leased_operations_def)
qed

lemma quota_step_ok:
  assumes "quota_step digest ttl limit y z" "quota_ok digest ttl limit y"
  shows "quota_ok digest ttl limit z"
  using assms
proof (induction rule: quota_step.induct)
  case (time_passes now y)
  have "int (card (occupied digest now (sy_store y))) \<le> limit"
    by (rule occupied_le [OF occupied_later [OF time_passes(1)] quota_ok_card [OF time_passes(2)]])
  then show ?case using time_passes quota_okD [OF time_passes(2)] unfolding quota_ok_def by fastforce
next
  case (starts y token job)
  then show ?case unfolding quota_ok_def by auto
next
  case (preflight_runs y deadline)
  show ?case
  proof (rule quota_ok_store [OF preflight_runs])
    show "int (card (occupied digest (sy_now y) (fst (preflight_script (sy_now y) deadline limit (sy_store y))))) \<le> limit"
      using quota_ok_card [OF preflight_runs] by (simp add: preflight_script_def Let_def)
  qed (simp add: preflight_script_def Let_def drop_ended_holds)
next
  case (claim_runs y token a deadline)
  show ?case
    by (rule quota_ok_store [OF claim_runs(2) _ claim_occupied [OF quota_ok_card [OF claim_runs(2)]]])
      (intro claim_keeps, auto)
next
  case (claim_answered y token a deadline store reply)
  have store: "store = fst (claim_script (sy_now y) deadline (digest (at_job a)) token ttl limit (sy_store y))"
    using claim_answered(3) by simp
  have ok: "quota_ok digest ttl limit (y\<lparr>sy_store := store\<rparr>)" unfolding store
    by (rule quota_ok_store [OF claim_answered(4) _ claim_occupied [OF quota_ok_card [OF claim_answered(4)]]])
      (intro claim_keeps, auto)
  show ?case
  proof (rule quota_ok_phase [OF ok])
    show "sy_attempts (y\<lparr>sy_store := store\<rparr>) token = Some a" using claim_answered(1) by simp
    fix granted
    assume "claim_answer (sy_now y) token reply = Holding granted"
    then have g: "granted = sy_now y" "claim_outcome token reply = Inr ()"
      by (auto simp: claim_answer_def split: sum.splits)
    show "granted \<le> sy_now (y\<lparr>sy_store := store\<rparr>) \<and>
        holds_lease (sy_store (y\<lparr>sy_store := store\<rparr>)) (digest (at_job a)) token (granted + ttl)"
      using claim_grants(1) [OF claim_answered(3) g(2)] g(1) by simp
  qed
next
  case (claim_failed y token a)
  show ?case by (rule quota_ok_phase [OF claim_failed(3,1)]) simp
next
  case (add_runs y token a granted q)
  have "digest (at_job a) \<in> leased_operations (sy_now y) (sy_store y)"
    using holds_leased [OF quota_okD(2) [OF add_runs(5,1,2,3)] add_runs(3)] .
  then have "occupied digest (sy_now y) ((sy_store y)\<lparr>qs_queue := q\<rparr>) \<subseteq> occupied digest (sy_now y) (sy_store y)"
    using add_runs(4) by (auto simp: occupied_def)
  then show ?case
    by (intro quota_ok_store [OF add_runs(5)] occupied_le [OF _ quota_ok_card [OF add_runs(5)]])
      (simp_all add: holds_lease_def)
next
  case (add_settles y token a granted)
  show ?case by (rule quota_ok_phase [OF add_settles(3,1)]) simp
next
  case (release_runs y token a)
  show ?case
  proof (rule quota_ok_store [OF release_runs(3)])
    fix token' a' granted
    assume h: "sy_attempts y token' = Some a'" "at_phase a' = Holding granted" "sy_now y < granted + ttl"
      "holds_lease (sy_store y) (digest (at_job a')) token' (granted + ttl)"
    have "token' \<noteq> token" using h(1,2) release_runs(1,2) by auto
    then show "holds_lease (fst (release_script (sy_now y) (digest (at_job a)) token (sy_store y))) (digest (at_job a')) token' (granted + ttl)"
      by (rule release_keeps_lease [OF h(4,3)])
  qed (rule occupied_le [OF release_occupied quota_ok_card [OF release_runs(3)]])
next
  case (queue_moves q y)
  have "occupied digest (sy_now y) ((sy_store y)\<lparr>qs_queue := q\<rparr>) \<subseteq> occupied digest (sy_now y) (sy_store y)"
    using queue_moves(1) by (auto simp: occupied_def)
  then show ?case
    by (intro quota_ok_store [OF queue_moves(2)] occupied_le [OF _ quota_ok_card [OF queue_moves(2)]])
      (simp_all add: holds_lease_def)
qed

lemma quota_reaches_ok:
  "quota_reaches digest ttl limit y z \<Longrightarrow> quota_ok digest ttl limit y \<Longrightarrow> quota_ok digest ttl limit z"
  by (induction rule: quota_reaches.induct) (auto intro: quota_step_ok)

lemma quota_start_ok: "0 \<le> limit \<Longrightarrow> quota_ok digest ttl limit quota_start"
  by (simp add: quota_ok_def quota_start_def occupied_def leased_operations_def leases_now_def live_jobs_def
      queue_entries_def empty_queue_def)

definition lease_ends_ok :: "int \<Rightarrow> int \<Rightarrow> quota_store \<Rightarrow> bool" where
  "lease_ends_ok ttl now s =
     (case qs_leases s of Some (ls, _) \<Rightarrow> \<forall>l \<in> set ls. snd l \<le> now + ttl | None \<Rightarrow> True)"

lemma lease_ends_drop: "lease_ends_ok ttl now s \<Longrightarrow> lease_ends_ok ttl now (drop_ended now' s)"
  by (auto simp: lease_ends_ok_def drop_ended_def split: option.splits)

lemma lease_ends_drop_attempts: "lease_ends_ok ttl now (drop_attempts k s) = lease_ends_ok ttl now s"
  by (simp add: lease_ends_ok_def drop_attempts_def)

lemma lease_ends_queue: "lease_ends_ok ttl now (s\<lparr>qs_queue := q\<rparr>) = lease_ends_ok ttl now s"
  by (simp add: lease_ends_ok_def)

lemma lease_ends_hold:
  "lease_ends_ok ttl now s \<Longrightarrow> 0 \<le> ttl \<Longrightarrow> lease_ends_ok ttl now (hold_lease now k token ttl s)"
  by (cases "qs_leases s")
    (auto simp: lease_ends_ok_def hold_lease_def leases_now_def split: if_splits dest!: set_jsmap_set)

lemma lease_ends_claim:
  assumes "lease_ends_ok ttl now s"
  shows "lease_ends_ok ttl now (fst (claim_script now deadline k token ttl limit s))"
proof -
  let ?s1 = "drop_ended now s" and ?s2 = "drop_attempts k (drop_ended now s)"
  have "lease_ends_ok ttl now ?s1" "lease_ends_ok ttl now ?s2"
    using assms by (simp_all add: lease_ends_drop lease_ends_drop_attempts)
  moreover from this have "1 \<le> ttl \<Longrightarrow> lease_ends_ok ttl now (hold_lease now k token ttl ?s1)"
    "1 \<le> ttl \<Longrightarrow> lease_ends_ok ttl now (hold_lease now k token ttl ?s2)"
    by (simp_all add: lease_ends_hold)
  ultimately show ?thesis using assms unfolding claim_script_def Let_def by simp
qed

lemma lease_ends_release:
  assumes "lease_ends_ok ttl now s"
  shows "lease_ends_ok ttl now (fst (release_script now' k token s))"
proof -
  have sub: "set (jsmap_delete k ls) \<subseteq> set ls" for ls :: "(js_string, int) jsmap" by (rule set_jsmap_delete)
  have "lease_ends_ok ttl now (s'\<lparr>qs_leases := map_option (\<lambda>(ls, expires). (jsmap_delete k ls, expires)) (qs_leases s)\<rparr>)" for s'
    using assms sub by (cases "qs_leases s") (auto simp: lease_ends_ok_def)
  moreover have "lease_ends_ok ttl now (s\<lparr>qs_attempts := w\<rparr>)" for w using assms by (simp add: lease_ends_ok_def)
  ultimately show ?thesis using assms unfolding release_script_def Let_def by simp
qed

lemma lease_ends_step:
  "quota_step digest ttl limit y z \<Longrightarrow> lease_ends_ok ttl (sy_now y) (sy_store y) \<Longrightarrow> lease_ends_ok ttl (sy_now z) (sy_store z)"
proof (induction rule: quota_step.induct)
  case (time_passes now y)
  then show ?case by (cases "qs_leases (sy_store y)") (auto simp: lease_ends_ok_def)
next
  case (claim_answered y token a deadline store reply)
  then show ?case using lease_ends_claim [of ttl "sy_now y" "sy_store y" deadline "digest (at_job a)" token limit]
    by (simp add: set_phase_def)
next
  case (preflight_runs y deadline)
  then show ?case by (simp add: preflight_script_def Let_def lease_ends_drop)
qed (simp_all add: lease_ends_claim lease_ends_release set_phase_def lease_ends_queue)

lemma lease_ends_bounded:
  "quota_reaches digest ttl limit quota_start y \<Longrightarrow> lease_ends_ok ttl (sy_now y) (sy_store y)"
proof (induction "quota_start" y rule: quota_reaches.induct)
  case here
  show ?case by (simp add: quota_start_def lease_ends_ok_def)
next
  case (step z w)
  then show ?case by (auto intro: lease_ends_step)
qed

section \<open>Properties\<close>

text \<open>
  C31: The live backlog never exceeds its limit.  However many processes prepare deliveries at once,
  with claims, additions and releases that interleave, fail, lose their answers or arrive late, and
  with two calls for one delivery sharing a lease, the jobs in the queue are at most the limit,
  provided no two of them share a digest.
\<close>

theorem backlog_within_limit:
  assumes "0 \<le> limit" and "quota_reaches digest ttl limit quota_start y"
    and "inj_on digest (live_jobs (qs_queue (sy_store y)))"
  shows "int (card (live_jobs (qs_queue (sy_store y)))) \<le> limit"
proof -
  have "quota_ok digest ttl limit y" by (rule quota_reaches_ok [OF assms(2) quota_start_ok [OF assms(1)]])
  then have "int (card (digest ` live_jobs (qs_queue (sy_store y)))) \<le> limit"
    by (intro occupied_le [OF _ quota_ok_card]) (auto simp: occupied_def)
  then show ?thesis using card_image [OF assms(3)] by simp
qed

text \<open>
  A lease belongs to its attempts.  While an attempt runs its addition within its lease time, the
  lease of its operation is counted, whatever the other attempts for the same operation do: their
  releases, late claims and failures never take it away.
\<close>

theorem lease_kept_while_held:
  assumes "0 \<le> limit" and "quota_reaches digest ttl limit quota_start y"
    and "sy_attempts y token = Some a" and "at_phase a = Holding granted" and "sy_now y < granted + ttl"
  shows "digest (at_job a) \<in> leased_operations (sy_now y) (sy_store y) \<and>
    token \<in> set (attempts_now (sy_now y) (sy_store y) (digest (at_job a)))"
proof -
  have "quota_ok digest ttl limit y" by (rule quota_reaches_ok [OF assms(2) quota_start_ok [OF assms(1)]])
  from quota_okD(2) [OF this assms(3-5)] show ?thesis
    using holds_leased holds_lease_now(2) assms(5) by blast
qed

text \<open>
  A lease nobody releases costs its place for the lease time and no longer: once that time has
  passed without a claim, a claim is granted exactly when the live backlog is below the limit,
  whatever releases were lost.
\<close>

theorem lost_lease_frees_place:
  assumes "quota_reaches digest ttl limit quota_start y" and "1 \<le> ttl" and "1 \<le> limit"
    and "sy_now y + ttl \<le> now" and "now < deadline"
  shows "claim_outcome token (snd (claim_script now deadline operation token ttl limit (sy_store y))) =
    (if live_backlog (qs_queue (sy_store y)) < limit then Inr () else Inl Limit_Reached)"
proof -
  have "snd l \<le> now" if "l \<in> set (leases_now now (sy_store y))" for l
    using lease_ends_bounded [OF assms(1)] assms(4) that
    by (cases "qs_leases (sy_store y)") (force simp: leases_now_def lease_ends_ok_def split: if_splits)+
  then have "leases_now now (drop_ended now (sy_store y)) = []"
    by (simp add: drop_ended_leases filter_empty_conv not_less)
  then show ?thesis using assms(2,3,5)
    by (simp add: claim_script_def Let_def claim_outcome_def)
qed

section \<open>A run\<close>

definition sample_store :: "js_string \<Rightarrow> quota_store" where
  "sample_store token = fst (claim_script 5 100 (ascii ''op'') token 600 1 (sy_store quota_start))"

definition sample_queue :: live_queue where
  "sample_queue = empty_queue\<lparr>lq_wait := [Job (ascii ''job'')]\<rparr>"

definition sample_held :: quota_system where
  "sample_held = \<lparr>sy_now = 5, sy_store = sample_store (ascii ''t''),
     sy_attempts = (\<lambda>_. None)(ascii ''t'' \<mapsto> \<lparr>at_job = ascii ''job'', at_phase = Holding 5\<rparr>)\<rparr>"

definition sample_added :: quota_system where
  "sample_added = sample_held\<lparr>sy_store := (sample_store (ascii ''t''))\<lparr>qs_queue := sample_queue\<rparr>\<rparr>"

lemma sample_held_reached: "quota_reaches (\<lambda>_. ascii ''op'') 600 1 quota_start sample_held"
proof -
  let ?d = "\<lambda>_ :: js_string. ascii ''op''"
  let ?y1 = "quota_start\<lparr>sy_now := 5\<rparr>"
  let ?y2 = "?y1\<lparr>sy_attempts := (sy_attempts ?y1)(ascii ''t'' \<mapsto> \<lparr>at_job = ascii ''job'', at_phase = Claiming\<rparr>)\<rparr>"
  have 1: "quota_step ?d 600 1 quota_start ?y1" by (rule quota_step.time_passes) (simp add: quota_start_def)
  have 2: "quota_step ?d 600 1 ?y1 ?y2" by (rule quota_step.starts) (simp add: quota_start_def)
  have c: "claim_script (sy_now ?y2) 100 (?d (ascii ''job'')) (ascii ''t'') 600 1 (sy_store ?y2) =
      (sample_store (ascii ''t''), (1, ascii ''t'', 0, 1))"
  proof -
    have "snd (claim_script 5 100 (ascii ''op'') (ascii ''t'') 600 1 (sy_store quota_start)) = (1, ascii ''t'', 0, 1)"
      by code_simp
    then show ?thesis by (simp add: sample_store_def prod_eq_iff)
  qed
  have 3: "quota_step ?d 600 1 ?y2 sample_held"
  proof -
    have "sample_held = set_phase (ascii ''t'') (claim_answer (sy_now ?y2) (ascii ''t'') (1, ascii ''t'', 0, 1))
        (?y2\<lparr>sy_store := sample_store (ascii ''t'')\<rparr>)"
      by (simp add: sample_held_def set_phase_def claim_answer_def claim_outcome_def quota_start_def)
    then show ?thesis
      using quota_step.claim_answered [of ?y2 "ascii ''t''" "\<lparr>at_job = ascii ''job'', at_phase = Claiming\<rparr>" 100 ?d 600 1, OF _ _]
        c by (simp only:) simp
  qed
  show ?thesis by (rule quota_reaches.step [OF quota_reaches.step [OF quota_reaches.step [OF quota_reaches.here 1] 2] 3])
qed

lemma sample_added_reached: "quota_reaches (\<lambda>_. ascii ''op'') 600 1 quota_start sample_added"
proof -
  have "quota_step (\<lambda>_. ascii ''op'') 600 1 sample_held sample_added"
    unfolding sample_added_def
    using quota_step.add_runs [of sample_held "ascii ''t''" "\<lparr>at_job = ascii ''job'', at_phase = Holding 5\<rparr>" 5 600 sample_queue]
    by (simp add: sample_held_def sample_queue_def live_jobs_def queue_entries_def empty_queue_def)
  then show ?thesis by (rule quota_reaches.step [OF sample_held_reached])
qed

lemma backlog_within_limit_witness: "int (card (live_jobs (qs_queue (sy_store sample_added)))) \<le> 1"
proof -
  have "live_jobs (qs_queue (sy_store sample_added)) = {ascii ''job''}"
    by (auto simp: sample_added_def sample_queue_def live_jobs_def queue_entries_def empty_queue_def)
  then have "inj_on (\<lambda>_. ascii ''op'') (live_jobs (qs_queue (sy_store sample_added)))" by simp
  from backlog_within_limit [OF _ sample_added_reached this] show ?thesis by simp
qed

lemma lease_kept_while_held_witness:
  "ascii ''op'' \<in> leased_operations 5 (sy_store sample_held) \<and>
    ascii ''t'' \<in> set (attempts_now 5 (sy_store sample_held) (ascii ''op''))"
  using lease_kept_while_held [OF _ sample_held_reached, of "ascii ''t''" "\<lparr>at_job = ascii ''job'', at_phase = Holding 5\<rparr>" 5]
  by (simp add: sample_held_def)

lemma lost_lease_frees_place_witness:
  "claim_outcome (ascii ''u'') (snd (claim_script 605 700 (ascii ''other'') (ascii ''u'') 600 1 (sy_store sample_held))) = Inr ()"
proof -
  have "live_backlog (qs_queue (sy_store sample_held)) < 1" by code_simp
  then show ?thesis
    using lost_lease_frees_place [OF sample_held_reached, of 605 700 "ascii ''u''" "ascii ''other''"]
    by (simp add: sample_held_def)
qed

end
