(* ===== verification/Bot_Access.thy ===== *)
theory Bot_Access
  imports JS_Values
begin

text \<open>
  \<^verbatim>\<open>apps/api/src/max/max-bot-access-policy.util.ts\<close>: what a bot's membership in a chat
  lets it do, and which of a chat's bots is its primary one.

  \<^item> A stored snapshot is a JSON value.  \<^verbatim>\<open>Date.parse\<close> is an argument, \<open>None\<close> being
    \<^verbatim>\<open>NaN\<close>, and so is \<^verbatim>\<open>localeCompare\<close>.
  \<^item> The options of a call are integers where they are given.
  \<^item> \<^verbatim>\<open>sort\<close> is the stable sort of the language, here by insertion.
\<close>

section \<open>Permissions\<close>

text \<open>Each run of hyphens and white space becomes one underscore.\<close>

definition is_separator :: "16 word \<Rightarrow> bool" where
  "is_separator c \<longleftrightarrow> c = 45 \<or> is_space c"

fun join_words :: "bool \<Rightarrow> js_string \<Rightarrow> js_string" where
  "join_words _ [] = []"
| "join_words inside (c # cs) =
     (if is_separator c then (if inside then join_words True cs else 95 # join_words True cs)
      else c # join_words False cs)"

definition normalizePermissionName :: "js_value \<Rightarrow> js_string" where
  "normalizePermissionName permission =
     (case permission of Str s \<Rightarrow> join_words False (to_lower (trim s)) | _ \<Rightarrow> [])"

definition PRIMARY_UNKNOWN_ACCESS_SCORE :: int where "PRIMARY_UNKNOWN_ACCESS_SCORE = 50000"
definition PRIMARY_ADMIN_BASE_SCORE :: int where "PRIMARY_ADMIN_BASE_SCORE = 100000"
definition PRIMARY_OWNER_BASE_SCORE :: int where "PRIMARY_OWNER_BASE_SCORE = 1000000"
definition DEFAULT_PRIMARY_ACCESS_SNAPSHOT_FRESH_MS :: int where
  "DEFAULT_PRIMARY_ACCESS_SNAPSHOT_FRESH_MS = 15 * 60 * 1000"

definition PRIMARY_PERMISSION_WEIGHTS :: "(js_string \<times> int) list" where
  "PRIMARY_PERMISSION_WEIGHTS =
     map (\<lambda>(p, w). (ascii p, w))
       [(''add_remove_members'', 20000), (''can_add_remove_members'', 20000), (''remove_members'', 20000),
        (''can_remove_members'', 20000), (''manage_members'', 20000), (''can_manage_members'', 20000),
        (''kick_members'', 20000), (''can_kick_members'', 20000), (''ban_members'', 20000),
        (''can_ban_members'', 20000), (''ban_users'', 20000), (''can_ban_users'', 20000),
        (''delete_members'', 20000), (''can_delete_members'', 20000), (''delete_message'', 18000),
        (''delete_messages'', 18000), (''can_delete_message'', 18000), (''can_delete_messages'', 18000),
        (''post_edit_delete_message'', 18000), (''post_edit_delete_messages'', 18000),
        (''can_post_edit_delete_message'', 18000), (''can_post_edit_delete_messages'', 18000),
        (''read_all_messages'', 8000), (''write'', 5000), (''edit_message'', 4000), (''can_edit_message'', 4000),
        (''add_admins'', 3000), (''can_add_admins'', 3000), (''change_chat_info'', 2000),
        (''can_change_chat_info'', 2000), (''pin_message'', 1500), (''can_pin_message'', 1500),
        (''edit_link'', 1000), (''can_edit_link'', 1000), (''can_call'', 100)]"

definition js_set_of :: "'a list \<Rightarrow> 'a list" where
  "js_set_of xs = fold set_add xs []"

section \<open>Snapshots\<close>

datatype execution_purpose = Moderation | Send_Message | Delete_Message | Edit_Message | Moderate_Member

fun purpose_name :: "execution_purpose \<Rightarrow> string" where
  "purpose_name Moderation = ''moderation''"
| "purpose_name Send_Message = ''send_message''"
| "purpose_name Delete_Message = ''delete_message''"
| "purpose_name Edit_Message = ''edit_message''"
| "purpose_name Moderate_Member = ''moderate_member''"

definition MANAGED_ENTITY_EXECUTION_PURPOSES :: "execution_purpose list" where
  "MANAGED_ENTITY_EXECUTION_PURPOSES = [Moderation, Send_Message, Delete_Message, Edit_Message, Moderate_Member]"

record access_snapshot =
  sn_checkedAt :: "js_string option"
  sn_isAdmin :: bool
  sn_isOwner :: bool
  sn_permissions :: "js_string list"
  sn_permissionsKnown :: bool
  sn_ceiling :: "execution_purpose list option"
  sn_explicitSourceAt :: "js_string option option"

definition is_true :: "js_value \<Rightarrow> bool" where
  "is_true v = (case v of Bool b \<Rightarrow> b | _ \<Rightarrow> False)"

definition has_own :: "string \<Rightarrow> js_value \<Rightarrow> bool" where
  "has_own k v = (case v of Obj fs \<Rightarrow> ascii k \<in> set (map fst fs) | _ \<Rightarrow> False)"

definition normalizeMembershipAccessSnapshot :: "(js_string \<Rightarrow> int option) \<Rightarrow> js_value \<Rightarrow> access_snapshot option" where
  "normalizeMembershipAccessSnapshot parseDate v =
     (case v of
        Obj _ \<Rightarrow>
          Some \<lparr>sn_checkedAt =
                  (case field ''checkedAt'' v of Str s \<Rightarrow> if trim s \<noteq> [] then Some (trim s) else None | _ \<Rightarrow> None),
                sn_isAdmin = is_true (field ''isAdmin'' v),
                sn_isOwner = is_true (field ''isOwner'' v),
                sn_permissions =
                  (case field ''permissions'' v of
                     Arr ps \<Rightarrow> js_set_of (filter (\<lambda>p. p \<noteq> []) (map normalizePermissionName ps))
                   | _ \<Rightarrow> []),
                sn_permissionsKnown = is_true (field ''permissionsKnown'' v),
                sn_ceiling =
                  (if has_own ''activationCapabilityCeiling'' v
                   then Some (filter (\<lambda>p. case field ''activationCapabilityCeiling'' v of
                                            Arr xs \<Rightarrow> Str (ascii (purpose_name p)) \<in> set xs | _ \<Rightarrow> False)
                                MANAGED_ENTITY_EXECUTION_PURPOSES)
                   else None),
                sn_explicitSourceAt =
                  (if has_own ''explicitActivationSourceAt'' v
                   then Some (case field ''explicitActivationSourceAt'' v of
                                Str s \<Rightarrow> if length s \<le> 64 \<and> parseDate s \<noteq> None then Some s else None
                              | _ \<Rightarrow> None)
                   else None)\<rparr>
      | _ \<Rightarrow> None)"

definition membershipExplicitlyLacksAccess :: "(js_string \<Rightarrow> int option) \<Rightarrow> js_value \<Rightarrow> bool" where
  "membershipExplicitlyLacksAccess parseDate v =
     (case normalizeMembershipAccessSnapshot parseDate v of
        Some s \<Rightarrow> \<not> sn_isAdmin s \<and> \<not> sn_isOwner s | None \<Rightarrow> False)"

record access_options =
  ao_requireFresh :: bool
  ao_nowMs :: "int option"
  ao_freshMs :: "int option"

definition isFreshMembershipAccessSnapshot ::
    "(js_string \<Rightarrow> int option) \<Rightarrow> int \<Rightarrow> access_snapshot option \<Rightarrow> access_options \<Rightarrow> bool" where
  "isFreshMembershipAccessSnapshot parseDate clock snapshot options =
     (case snapshot of
        None \<Rightarrow> False
      | Some s \<Rightarrow>
          (case sn_checkedAt s of
             None \<Rightarrow> False
           | Some text \<Rightarrow>
               (case parseDate text of
                  None \<Rightarrow> False
                | Some checkedAt \<Rightarrow>
                    (let now = (case ao_nowMs options of Some n \<Rightarrow> n | None \<Rightarrow> clock);
                         fresh = (case ao_freshMs options of Some f \<Rightarrow> max 0 f
                                  | None \<Rightarrow> DEFAULT_PRIMARY_ACCESS_SNAPSHOT_FRESH_MS)
                     in checkedAt \<le> now \<and> checkedAt + fresh > now))))"

definition isConfirmedMembershipAccessSnapshot ::
    "(js_string \<Rightarrow> int option) \<Rightarrow> int \<Rightarrow> access_snapshot option \<Rightarrow> access_options \<Rightarrow> bool" where
  "isConfirmedMembershipAccessSnapshot parseDate clock snapshot options =
     (case snapshot of
        None \<Rightarrow> False
      | Some s \<Rightarrow>
          if \<not> sn_isAdmin s \<and> \<not> sn_isOwner s then False
          else
            (case sn_checkedAt s of
               None \<Rightarrow> True
             | Some text \<Rightarrow>
                 (case parseDate text of
                    None \<Rightarrow> False
                  | Some checkedAt \<Rightarrow> checkedAt \<le> (case ao_nowMs options of Some n \<Rightarrow> n | None \<Rightarrow> clock))))"

section \<open>Scores\<close>

definition calculatePrimaryPermissionScore :: "js_string list \<Rightarrow> int" where
  "calculatePrimaryPermissionScore permissions =
     foldl (\<lambda>score p. score + (case map_of PRIMARY_PERMISSION_WEIGHTS p of Some w \<Rightarrow> w | None \<Rightarrow> 0)) 0
       (js_set_of (filter (\<lambda>p. p \<noteq> []) (map (\<lambda>p. normalizePermissionName (Str p)) permissions)))"

definition calculatePrimaryAccessScore :: "access_snapshot option \<Rightarrow> int" where
  "calculatePrimaryAccessScore snapshot =
     (case snapshot of
        None \<Rightarrow> PRIMARY_UNKNOWN_ACCESS_SCORE
      | Some s \<Rightarrow>
          (if sn_isOwner s then PRIMARY_OWNER_BASE_SCORE else if sn_isAdmin s then PRIMARY_ADMIN_BASE_SCORE else 0) +
          (if sn_isOwner s \<or> sn_isAdmin s then calculatePrimaryPermissionScore (sn_permissions s) else 0))"

section \<open>The primary bot\<close>

datatype membership_role = Primary | Standby

record bot_membership =
  bm_botId :: js_string
  bm_role :: membership_role
  bm_active :: bool
  bm_snapshot :: js_value

record scored_membership =
  sc_membership :: bot_membership
  sc_hasSnapshot :: bool
  sc_hasFreshSnapshot :: bool
  sc_score :: int

definition score_membership ::
    "(js_string \<Rightarrow> int option) \<Rightarrow> int \<Rightarrow> access_options \<Rightarrow> bot_membership \<Rightarrow> scored_membership" where
  "score_membership parseDate clock options m =
     (let snapshot = normalizeMembershipAccessSnapshot parseDate (bm_snapshot m)
      in \<lparr>sc_membership = m, sc_hasSnapshot = (snapshot \<noteq> None),
          sc_hasFreshSnapshot = isConfirmedMembershipAccessSnapshot parseDate clock snapshot options,
          sc_score = calculatePrimaryAccessScore snapshot\<rparr>)"

text \<open>A string is truthy when it is not empty.\<close>

definition truthy :: "js_string option \<Rightarrow> bool" where
  "truthy s = (case s of Some x \<Rightarrow> x \<noteq> [] | None \<Rightarrow> False)"

definition sc_botId :: "scored_membership \<Rightarrow> js_string" where
  "sc_botId c = bm_botId (sc_membership c)"

definition compare_candidates ::
    "(js_string \<Rightarrow> js_string \<Rightarrow> int) \<Rightarrow> js_string option \<Rightarrow> scored_membership \<Rightarrow> scored_membership \<Rightarrow> int" where
  "compare_candidates localeCompare current left right =
     (if sc_score right - sc_score left \<noteq> 0 then sc_score right - sc_score left
      else if truthy current \<and> (Some (sc_botId left) = current) \<noteq> (Some (sc_botId right) = current)
      then (if Some (sc_botId left) = current then -1 else 1)
      else if (bm_role (sc_membership left) = Primary) \<noteq> (bm_role (sc_membership right) = Primary)
      then (if bm_role (sc_membership left) = Primary then -1 else 1)
      else localeCompare (sc_botId left) (sc_botId right))"

fun insert_by :: "('a \<Rightarrow> 'a \<Rightarrow> int) \<Rightarrow> 'a \<Rightarrow> 'a list \<Rightarrow> 'a list" where
  "insert_by cmp x [] = [x]"
| "insert_by cmp x (y # ys) = (if cmp x y \<le> 0 then x # y # ys else y # insert_by cmp x ys)"

definition sort_by :: "('a \<Rightarrow> 'a \<Rightarrow> int) \<Rightarrow> 'a list \<Rightarrow> 'a list" where
  "sort_by cmp xs = foldr (insert_by cmp) xs []"

text \<open>\<^verbatim>\<open>find(...)?.botId\<close>.\<close>

definition find_id :: "(bot_membership \<Rightarrow> bool) \<Rightarrow> bot_membership list \<Rightarrow> js_string option" where
  "find_id P ms = map_option bm_botId (find P ms)"

definition or_else :: "'a option \<Rightarrow> 'a option \<Rightarrow> 'a option" where
  "or_else a b = (case a of None \<Rightarrow> b | Some x \<Rightarrow> Some x)"

definition fallback_id :: "js_string option \<Rightarrow> bot_membership list \<Rightarrow> js_string option" where
  "fallback_id current ms =
     or_else (if truthy current \<and> (\<exists>m \<in> set ms. Some (bm_botId m) = current) then current else None)
       (or_else (find_id (\<lambda>m. bm_role m = Primary) ms)
          (case ms of m # _ \<Rightarrow> Some (bm_botId m) | [] \<Rightarrow> None))"

definition resolvePreferredPrimaryBotId ::
    "(js_string \<Rightarrow> int option) \<Rightarrow> (js_string \<Rightarrow> js_string \<Rightarrow> int) \<Rightarrow> int \<Rightarrow> js_string option \<Rightarrow> bot_membership list \<Rightarrow>
       access_options \<Rightarrow> js_string option" where
  "resolvePreferredPrimaryBotId parseDate localeCompare clock current memberships options =
     (let active = filter bm_active memberships
      in if active = [] then current
         else
           (let eligible = filter (\<lambda>m. \<not> membershipExplicitlyLacksAccess parseDate (bm_snapshot m)) active
            in if eligible = [] then None
               else
                 (let fallback = fallback_id current eligible;
                      scored = map (score_membership parseDate clock options) eligible
                  in if \<not> (\<exists>c \<in> set scored. sc_hasSnapshot c) then fallback
                     else
                       (case find (\<lambda>c. Some (sc_botId c) = current \<and> sc_hasFreshSnapshot c \<and>
                                       sc_score c \<ge> PRIMARY_ADMIN_BASE_SCORE) scored of
                          Some c \<Rightarrow> Some (sc_botId c)
                        | None \<Rightarrow>
                            (let selectable =
                                   (if ao_requireFresh options
                                    then filter (\<lambda>c. (current \<noteq> None \<and> Some (sc_botId c) = fallback) \<or>
                                                     sc_hasFreshSnapshot c) scored
                                    else scored)
                             in if selectable = [] \<or> \<not> (\<exists>c \<in> set selectable. sc_hasSnapshot c) then fallback
                                else
                                  (case sort_by (compare_candidates localeCompare current) selectable of
                                     c # _ \<Rightarrow> Some (sc_botId c)
                                   | [] \<Rightarrow> fallback))))))"

section \<open>Scores and access\<close>

lemma set_js_set_of [simp]: "set (js_set_of xs) = set xs" and distinct_js_set_of [simp]: "distinct (js_set_of xs)"
  by (simp_all add: js_set_of_def)

lemma weights_nonneg: "(p, w) \<in> set PRIMARY_PERMISSION_WEIGHTS \<Longrightarrow> 0 \<le> w"
  by (auto simp: PRIMARY_PERMISSION_WEIGHTS_def)

definition weight_of :: "js_string \<Rightarrow> int" where
  "weight_of p = (case map_of PRIMARY_PERMISSION_WEIGHTS p of Some w \<Rightarrow> w | None \<Rightarrow> 0)"

lemma weight_of_nonneg: "0 \<le> weight_of p"
  by (auto simp: weight_of_def split: option.splits dest: map_of_SomeD weights_nonneg)

lemma foldl_sum: "foldl (\<lambda>s p. s + f p) (a :: int) xs = a + sum_list (map f xs)"
  by (induction xs arbitrary: a) simp_all

lemma permission_score_sum:
  "calculatePrimaryPermissionScore ps =
     (\<Sum>p \<in> set (filter (\<lambda>p. p \<noteq> []) (map (\<lambda>p. normalizePermissionName (Str p)) ps)). weight_of p)"
  unfolding calculatePrimaryPermissionScore_def weight_of_def [symmetric] foldl_sum
  by (subst sum_list_distinct_conv_sum_set) simp_all

lemma weights_total: "sum_list (map snd PRIMARY_PERMISSION_WEIGHTS) = 460100"
  by (simp add: PRIMARY_PERMISSION_WEIGHTS_def)

lemma permission_score_bounds: "0 \<le> calculatePrimaryPermissionScore ps" "calculatePrimaryPermissionScore ps \<le> 460100"
proof -
  let ?A = "set (filter (\<lambda>p. p \<noteq> []) (map (\<lambda>p. normalizePermissionName (Str p)) ps))"
  let ?W = "set (map fst PRIMARY_PERMISSION_WEIGHTS)"
  show "0 \<le> calculatePrimaryPermissionScore ps"
    unfolding permission_score_sum by (rule sum_nonneg) (rule weight_of_nonneg)
  have d: "distinct (map fst PRIMARY_PERMISSION_WEIGHTS)" by code_simp
  have "(\<Sum>p \<in> ?A. weight_of p) = (\<Sum>p \<in> ?A \<inter> ?W. weight_of p)"
    by (rule sum.mono_neutral_right) (auto simp: weight_of_def split: option.splits dest!: map_of_SomeD intro: rev_image_eqI)
  also have "\<dots> \<le> (\<Sum>p \<in> ?W. weight_of p)"
    by (rule sum_mono2) (auto intro: weight_of_nonneg)
  also have "\<dots> = sum_list (map weight_of (map fst PRIMARY_PERMISSION_WEIGHTS))"
    using d by (subst sum_list_distinct_conv_sum_set) simp_all
  also have "map weight_of (map fst PRIMARY_PERMISSION_WEIGHTS) = map snd PRIMARY_PERMISSION_WEIGHTS"
    using d by (auto simp: weight_of_def)
  finally show "calculatePrimaryPermissionScore ps \<le> 460100"
    unfolding permission_score_sum using weights_total by simp
qed


section \<open>The first of a sorted list\<close>

lemma insert_by_not_Nil [simp]: "insert_by cmp x ys \<noteq> []"
  by (cases ys) simp_all

lemma insert_by_hd: "hd (insert_by cmp x ys) = (if ys = [] \<or> cmp x (hd ys) \<le> 0 then x else hd ys)"
  by (cases ys) simp_all

lemma sort_by_Nil [simp]: "sort_by cmp [] = []" and sort_by_Cons [simp]: "sort_by cmp (x # xs) = insert_by cmp x (sort_by cmp xs)"
  by (simp_all add: sort_by_def)

lemma sort_by_Nil_iff [simp]: "sort_by cmp xs = [] \<longleftrightarrow> xs = []"
  by (cases xs) simp_all

text \<open>Whatever the comparison does on ties, the first element is a greatest one for a measure the comparison follows.\<close>

lemma sort_by_hd_greatest:
  fixes k :: "'a \<Rightarrow> int"
  assumes less: "\<And>x y. k x < k y \<Longrightarrow> cmp x y > 0" and greater: "\<And>x y. k y < k x \<Longrightarrow> cmp x y \<le> 0"
  shows "xs \<noteq> [] \<Longrightarrow> hd (sort_by cmp xs) \<in> set xs \<and> (\<forall>x \<in> set xs. k x \<le> k (hd (sort_by cmp xs)))"
proof (induction xs)
  case Nil
  then show ?case by simp
next
  case (Cons x xs)
  show ?case
  proof (cases "xs = []")
    case True
    then show ?thesis by (simp add: insert_by_hd)
  next
    case False
    let ?h = "hd (sort_by cmp xs)"
    have ih: "?h \<in> set xs" "\<forall>y \<in> set xs. k y \<le> k ?h" using Cons.IH False by auto
    show ?thesis
    proof (cases "cmp x ?h \<le> 0")
      case True
      then have "k ?h \<le> k x" using less [of x ?h] by fastforce
      then show ?thesis using True ih by (auto simp: insert_by_hd)
    next
      case wins: False
      then have "k x \<le> k ?h" using greater [of ?h x] by fastforce
      then show ?thesis using wins False ih by (auto simp: insert_by_hd)
    qed
  qed
qed

definition candidate_key :: "js_string option \<Rightarrow> scored_membership \<Rightarrow> int" where
  "candidate_key current c = 2 * sc_score c + (if truthy current \<and> Some (sc_botId c) = current then 1 else 0)"

lemma first_candidate:
  assumes "cs \<noteq> []"
  shows "hd (sort_by (compare_candidates lc current) cs) \<in> set cs"
    "c \<in> set cs \<Longrightarrow> candidate_key current c \<le> candidate_key current (hd (sort_by (compare_candidates lc current) cs))"
proof -
  have "compare_candidates lc current x y > 0" if "candidate_key current x < candidate_key current y" for x y
    using that by (auto simp: candidate_key_def compare_candidates_def split: if_splits)
  moreover have "compare_candidates lc current x y \<le> 0" if "candidate_key current y < candidate_key current x" for x y
    using that by (auto simp: candidate_key_def compare_candidates_def split: if_splits)
  ultimately have "hd (sort_by (compare_candidates lc current) cs) \<in> set cs \<and>
      (\<forall>x \<in> set cs. candidate_key current x \<le> candidate_key current (hd (sort_by (compare_candidates lc current) cs)))"
    by (intro sort_by_hd_greatest assms) auto
  then show "hd (sort_by (compare_candidates lc current) cs) \<in> set cs"
    "c \<in> set cs \<Longrightarrow> candidate_key current c \<le> candidate_key current (hd (sort_by (compare_candidates lc current) cs))" by auto
qed

section \<open>The choice\<close>

definition eligible_memberships :: "(js_string \<Rightarrow> int option) \<Rightarrow> bot_membership list \<Rightarrow> bot_membership list" where
  "eligible_memberships parseDate ms =
     filter (\<lambda>m. \<not> membershipExplicitlyLacksAccess parseDate (bm_snapshot m)) (filter bm_active ms)"

definition healthy :: "js_string option \<Rightarrow> scored_membership \<Rightarrow> bool" where
  "healthy current c \<longleftrightarrow>
     Some (sc_botId c) = current \<and> sc_hasFreshSnapshot c \<and> sc_score c \<ge> PRIMARY_ADMIN_BASE_SCORE"

definition selectable_candidates ::
    "js_string option \<Rightarrow> js_string option \<Rightarrow> bool \<Rightarrow> scored_membership list \<Rightarrow> scored_membership list" where
  "selectable_candidates current fallback requireFresh scored =
     (if requireFresh
      then filter (\<lambda>c. (current \<noteq> None \<and> Some (sc_botId c) = fallback) \<or> sc_hasFreshSnapshot c) scored
      else scored)"

lemma resolve_eq:
  assumes "filter bm_active ms \<noteq> []"
  shows "resolvePreferredPrimaryBotId pd lc clock current ms options =
    (let eligible = eligible_memberships pd ms; fallback = fallback_id current eligible;
         scored = map (score_membership pd clock options) eligible;
         selectable = selectable_candidates current fallback (ao_requireFresh options) scored
     in if eligible = [] then None
        else if \<not> (\<exists>c \<in> set scored. sc_hasSnapshot c) then fallback
        else (case find (healthy current) scored of
                Some c \<Rightarrow> Some (sc_botId c)
              | None \<Rightarrow>
                  if selectable = [] \<or> \<not> (\<exists>c \<in> set selectable. sc_hasSnapshot c) then fallback
                  else Some (sc_botId (hd (sort_by (compare_candidates lc current) selectable)))))"
proof -
  have hd_case: "(case sort_by cmp cs of c # _ \<Rightarrow> Some (sc_botId c) | [] \<Rightarrow> f) = Some (sc_botId (hd (sort_by cmp cs)))"
    if "cs \<noteq> []" for cs cmp f using that by (cases "sort_by cmp cs") (auto dest: sort_by_Nil_iff [THEN iffD1])
  have healthy: "(\<lambda>c. Some (sc_botId c) = current \<and> sc_hasFreshSnapshot c \<and> PRIMARY_ADMIN_BASE_SCORE \<le> sc_score c) =
      healthy current" by (rule ext) (simp add: healthy_def)
  show ?thesis
    unfolding resolvePreferredPrimaryBotId_def Let_def eligible_memberships_def [symmetric]
      selectable_candidates_def [symmetric] healthy
    using assms hd_case by (simp cong: option.case_cong if_cong)
qed

lemma find_SomeD: "find P xs = Some x \<Longrightarrow> x \<in> set xs \<and> P x"
  by (induction xs) (auto split: if_splits)

lemma fallback_member:
  assumes "fallback_id current ms = Some b"
  shows "\<exists>m \<in> set ms. bm_botId m = b"
  using assms
  by (auto simp: fallback_id_def or_else_def find_id_def find_Some_iff split: option.splits if_splits list.splits)

lemma fallback_current: "b \<noteq> [] \<Longrightarrow> m \<in> set ms \<Longrightarrow> bm_botId m = b \<Longrightarrow> fallback_id (Some b) ms = Some b"
  by (auto simp: fallback_id_def or_else_def truthy_def)

lemma score_membership_id [simp]: "sc_botId (score_membership pd clock o' m) = bm_botId m"
  by (simp add: score_membership_def sc_botId_def Let_def)

lemma fresh_has_snapshot: "sc_hasFreshSnapshot (score_membership pd clock o' m) \<Longrightarrow> sc_hasSnapshot (score_membership pd clock o' m)"
  by (auto simp: score_membership_def isConfirmedMembershipAccessSnapshot_def Let_def split: option.splits)

lemma selectable_subset: "set (selectable_candidates current f r cs) \<subseteq> set cs"
  by (auto simp: selectable_candidates_def)

text \<open>The chosen bot is an active one that does not lack access.\<close>

lemma resolve_member:
  assumes "filter bm_active ms \<noteq> []" "resolvePreferredPrimaryBotId pd lc clock current ms options = Some b"
  shows "\<exists>m \<in> set (eligible_memberships pd ms). bm_botId m = b"
proof -
  let ?E = "eligible_memberships pd ms" let ?S = "map (score_membership pd clock options) ?E"
  let ?sel = "selectable_candidates current (fallback_id current ?E) (ao_requireFresh options) ?S"
  note r = assms(2) [unfolded resolve_eq [OF assms(1)] Let_def]
  have id: "\<exists>m \<in> set ?E. bm_botId m = sc_botId c" if "c \<in> set ?S" for c using that by auto
  show ?thesis
  proof (cases "find (healthy current) ?S")
    case (Some c)
    then have "c \<in> set ?S" by (auto dest: find_SomeD)
    then show ?thesis using r Some id [of c] fallback_member by (auto split: if_splits)
  next
    case None
    show ?thesis
    proof (cases "?sel = [] \<or> \<not> (\<exists>c \<in> set ?sel. sc_hasSnapshot c) \<or> \<not> (\<exists>c \<in> set ?S. sc_hasSnapshot c)")
      case True
      then have "fallback_id current ?E = Some b" using r None by (auto split: if_splits)
      then show ?thesis by (rule fallback_member)
    next
      case False
      then have "sc_botId (hd (sort_by (compare_candidates lc current) ?sel)) = b"
        using r None by (auto split: if_splits)
      moreover have "hd (sort_by (compare_candidates lc current) ?sel) \<in> set ?S"
        using first_candidate(1) [of ?sel lc current] selectable_subset False by blast
      ultimately show ?thesis using id by blast
    qed
  qed
qed


text \<open>The second choice starts from the first one.\<close>

lemma resolve_again:
  assumes act: "filter bm_active ms \<noteq> []" and b: "b \<noteq> []"
    and r: "resolvePreferredPrimaryBotId pd lc clock current ms options = Some b"
  shows "resolvePreferredPrimaryBotId pd lc clock (Some b) ms options = Some b"
proof -
  define E where "E = eligible_memberships pd ms"
  define S where "S = map (score_membership pd clock options) E"
  define sel where "sel cur = selectable_candidates cur (fallback_id cur E) (ao_requireFresh options) S" for cur
  have eq: "resolvePreferredPrimaryBotId pd lc clock cur ms options =
    (if E = [] then None
     else if \<not> (\<exists>c \<in> set S. sc_hasSnapshot c) then fallback_id cur E
     else (case find (healthy cur) S of
             Some c \<Rightarrow> Some (sc_botId c)
           | None \<Rightarrow>
               if sel cur = [] \<or> \<not> (\<exists>c \<in> set (sel cur). sc_hasSnapshot c) then fallback_id cur E
               else Some (sc_botId (hd (sort_by (compare_candidates lc cur) (sel cur))))))" for cur
    unfolding resolve_eq [OF act] Let_def E_def [symmetric] S_def [symmetric] sel_def [symmetric] by simp
  have E: "E \<noteq> []" using r by (auto simp: eq)
  obtain m where m: "m \<in> set E" "bm_botId m = b" using resolve_member [OF act r] by (auto simp: E_def)
  have fb: "fallback_id (Some b) E = Some b" by (rule fallback_current [OF b m])
  have fresh: "sc_hasSnapshot c" if "c \<in> set S" "sc_hasFreshSnapshot c" for c
    using that by (auto simp: S_def intro: fresh_has_snapshot)
  have bS: "\<exists>c \<in> set S. sc_botId c = b" using m by (auto simp: S_def)
  show ?thesis
  proof (cases "current = Some b")
    case True
    then show ?thesis using r by simp
  next
    case other: False
    show ?thesis
    proof (cases "\<exists>c \<in> set S. sc_hasSnapshot c")
      case False
      then show ?thesis using E fb by (simp add: eq)
    next
      case snap: True
      have nh: "find (healthy current) S = None"
        using r other E snap by (auto simp: eq healthy_def dest: find_SomeD split: option.splits)
      have top: "sc_botId (hd (sort_by (compare_candidates lc (Some b)) (sel (Some b)))) = b" if ne: "sel (Some b) \<noteq> []"
      proof -
        let ?h = "hd (sort_by (compare_candidates lc (Some b)) (sel (Some b)))"
        have h: "?h \<in> set (sel (Some b))" "\<And>c. c \<in> set (sel (Some b)) \<Longrightarrow> candidate_key (Some b) c \<le> candidate_key (Some b) ?h"
          using first_candidate [OF ne] by auto
        show ?thesis
        proof (rule ccontr)
          assume nb: "sc_botId ?h \<noteq> b"
          have hS: "?h \<in> set S" using h(1) selectable_subset unfolding sel_def by (rule subsetD [rotated])
          have hfresh: "ao_requireFresh options \<Longrightarrow> sc_hasFreshSnapshot ?h"
            using h(1) nb fb by (auto simp: sel_def selectable_candidates_def)
          have hsel: "?h \<in> set (sel current)"
            using hS hfresh by (auto simp: sel_def selectable_candidates_def)
          have "sel current \<noteq> [] \<and> (\<exists>c \<in> set (sel current). sc_hasSnapshot c)"
          proof (cases "ao_requireFresh options")
            case True
            then show ?thesis using hsel fresh [OF hS hfresh [OF True]] by fastforce
          next
            case False
            then show ?thesis using hsel snap by (force simp: sel_def selectable_candidates_def)
          qed
          then have chosen: "sel current \<noteq> []" "sc_botId (hd (sort_by (compare_candidates lc current) (sel current))) = b"
            using r E snap nh by (auto simp: eq split: if_splits)
          let ?c = "hd (sort_by (compare_candidates lc current) (sel current))"
          have c: "?c \<in> set (sel current)" "candidate_key current ?h \<le> candidate_key current ?c"
            using first_candidate [OF chosen(1)] hsel by auto
          have "sc_score ?h \<le> sc_score ?c" using c(2) by (auto simp: candidate_key_def split: if_splits)
          moreover have "?c \<in> set (sel (Some b))"
            using c(1) chosen(2) fb selectable_subset by (fastforce simp: sel_def selectable_candidates_def)
          then have "candidate_key (Some b) ?c \<le> candidate_key (Some b) ?h" by (rule h(2))
          ultimately show False using nb chosen(2) b by (simp add: candidate_key_def truthy_def)
        qed
      qed
      show ?thesis
      proof (cases "find (healthy (Some b)) S")
        case None
        then show ?thesis using E snap fb top by (simp add: eq)
      next
        case (Some c)
        then have "sc_botId c = b" by (auto simp: healthy_def dest: find_SomeD)
        then show ?thesis using Some E snap by (simp add: eq)
      qed
    qed
  qed
qed

section \<open>Properties\<close>

text \<open>
  The choice of the primary bot is stable.  Asked again with its own answer as the current primary
  and nothing else changed, it gives the same answer, whatever the ties between the bots and however
  strings are compared: no two runs of it move the ownership to and fro.
\<close>

theorem primary_choice_stable:
  assumes "resolvePreferredPrimaryBotId parseDate localeCompare clock current ms options = Some b" and "b \<noteq> []"
  shows "resolvePreferredPrimaryBotId parseDate localeCompare clock (Some b) ms options = Some b"
proof (cases "filter bm_active ms = []")
  case True
  then show ?thesis by (simp add: resolvePreferredPrimaryBotId_def)
next
  case False
  show ?thesis by (rule resolve_again [OF False assms(2,1)])
qed

text \<open>
  A healthy primary stays.  Once an active membership of the current bot says administrator or
  owner and was checked no later than now, the bot stays primary at every later time and whatever
  memberships of other bots come, go or grow stronger: the age of a confirmation never revokes it.
\<close>

theorem healthy_primary_kept:
  assumes "m \<in> set ms" and "bm_active m" and "bm_botId m = b"
    and "normalizeMembershipAccessSnapshot parseDate (bm_snapshot m) = Some snapshot"
    and "sn_isAdmin snapshot \<or> sn_isOwner snapshot"
    and "sn_checkedAt snapshot = Some text" "parseDate text = Some checkedAt" "checkedAt \<le> now"
  shows "resolvePreferredPrimaryBotId parseDate localeCompare now (Some b) ms \<lparr>ao_requireFresh = fresh, ao_nowMs = None, ao_freshMs = age\<rparr> = Some b"
proof -
  let ?o = "\<lparr>ao_requireFresh = fresh, ao_nowMs = None, ao_freshMs = age\<rparr>"
  have act: "filter bm_active ms \<noteq> []" using assms(1,2) by (auto simp: filter_empty_conv)
  have mE: "m \<in> set (eligible_memberships parseDate ms)"
    using assms(1,2,4,5) by (auto simp: eligible_memberships_def membershipExplicitlyLacksAccess_def)
  let ?c = "score_membership parseDate now ?o m"
  have "sc_score ?c \<ge> PRIMARY_ADMIN_BASE_SCORE"
    using assms(4,5) permission_score_bounds(1) [of "sn_permissions snapshot"]
    by (auto simp: score_membership_def calculatePrimaryAccessScore_def Let_def PRIMARY_ADMIN_BASE_SCORE_def
        PRIMARY_OWNER_BASE_SCORE_def)
  then have c: "healthy (Some b) ?c" "sc_hasSnapshot ?c"
    using assms(3-8) by (auto simp: healthy_def score_membership_def sc_botId_def Let_def isConfirmedMembershipAccessSnapshot_def)
  have "find (healthy (Some b)) (map (score_membership parseDate now ?o) (eligible_memberships parseDate ms)) \<noteq> None"
    using c(1) mE by (auto simp: find_None_iff)
  then obtain d where d: "find (healthy (Some b)) (map (score_membership parseDate now ?o) (eligible_memberships parseDate ms)) = Some d"
    by blast
  then have "sc_botId d = b" by (auto simp: healthy_def dest: find_SomeD)
  then show ?thesis using d c(2) mE by (auto simp: resolve_eq [OF act] Let_def)
qed

definition access_class :: "access_snapshot option \<Rightarrow> int" where
  "access_class snapshot =
     (case snapshot of None \<Rightarrow> 1 | Some s \<Rightarrow> if sn_isOwner s then 3 else if sn_isAdmin s then 2 else 0)"

text \<open>
  Permissions never outweigh the kind of access: an owner scores above every administrator, an
  administrator above a bot whose access is unknown, and that one above a bot without access.
\<close>

theorem access_classes_never_mix:
  "calculatePrimaryAccessScore a < calculatePrimaryAccessScore b \<or> access_class b \<le> access_class a"
proof -
  have p: "0 \<le> calculatePrimaryPermissionScore ps" "calculatePrimaryPermissionScore ps \<le> 460100" for ps
    by (rule permission_score_bounds)+
  show ?thesis
    using p [of "sn_permissions (the a)"] p [of "sn_permissions (the b)"]
    by (cases a; cases b) (auto simp: calculatePrimaryAccessScore_def access_class_def PRIMARY_OWNER_BASE_SCORE_def
        PRIMARY_ADMIN_BASE_SCORE_def PRIMARY_UNKNOWN_ACCESS_SCORE_def)
qed

definition sample_membership :: "string \<Rightarrow> membership_role \<Rightarrow> bot_membership" where
  "sample_membership b r = \<lparr>bm_botId = ascii b, bm_role = r, bm_active = True,
     bm_snapshot = Obj [(ascii ''isAdmin'', Bool True), (ascii ''checkedAt'', Str (ascii ''2026'')),
                        (ascii ''permissions'', Arr [Str (ascii ''can_call'')])]\<rparr>"

definition sample_parse :: "js_string \<Rightarrow> int option" where
  "sample_parse s = (if s = ascii ''2026'' then Some 2026 else None)"

definition no_options :: access_options where
  "no_options = \<lparr>ao_requireFresh = False, ao_nowMs = None, ao_freshMs = None\<rparr>"

lemma primary_choice_stable_witness:
  "resolvePreferredPrimaryBotId sample_parse (\<lambda>_ _. 0) 2000 (Some (ascii ''b2''))
     [sample_membership ''b1'' Standby, sample_membership ''b2'' Primary] no_options = Some (ascii ''b2'')"
proof (rule primary_choice_stable)
  show "resolvePreferredPrimaryBotId sample_parse (\<lambda>_ _. 0) 2000 None
     [sample_membership ''b1'' Standby, sample_membership ''b2'' Primary] no_options = Some (ascii ''b2'')" by code_simp
  show "ascii ''b2'' \<noteq> []" by code_simp
qed

lemma healthy_primary_kept_witness:
  "resolvePreferredPrimaryBotId sample_parse (\<lambda>_ _. 0) 5000 (Some (ascii ''b1''))
     [sample_membership ''b2'' Primary, sample_membership ''b1'' Standby]
     \<lparr>ao_requireFresh = True, ao_nowMs = None, ao_freshMs = Some 1\<rparr> = Some (ascii ''b1'')"
proof -
  define snapshot where "snapshot = the (normalizeMembershipAccessSnapshot sample_parse (bm_snapshot (sample_membership ''b1'' Standby)))"
  have n: "normalizeMembershipAccessSnapshot sample_parse (bm_snapshot (sample_membership ''b1'' Standby)) = Some snapshot"
    unfolding snapshot_def by (simp add: sample_membership_def normalizeMembershipAccessSnapshot_def)
  have s: "sn_isAdmin snapshot" "sn_checkedAt snapshot = Some (ascii ''2026'')"
    unfolding snapshot_def by (code_simp)+
  show ?thesis
    by (rule healthy_primary_kept [where checkedAt = 2026, OF _ _ _ n _ s(2)])
      (use s(1) in \<open>simp_all add: sample_membership_def sample_parse_def\<close>)
qed

end
