(* ===== verification/Upload_Store.thy ===== *)
theory Upload_Store
  imports Prelude
begin

text \<open>
  \<^verbatim>\<open>apps/api/src/system/chunked-mutation-tunnel-upload.store.ts\<close> and the two handlers of
  \<^verbatim>\<open>miniapp-mutation-tunnel.controller.ts\<close> that use it: a request too long for one call is
  sent in chunks, kept in memory within limits, and forwarded once.

  \<^item> A buffer is a list of bytes.  The clock does not move within a call, which never waits.
  \<^item> A timer is the time it fires, if it is set.
  \<^item> The forwarding between \<^verbatim>\<open>beginCompletedUpload\<close> and \<^verbatim>\<open>deleteUpload\<close> is any sequence of other calls.
\<close>

section \<open>Uploads\<close>

type_synonym bytes = "8 word list"

record upload_metadata =
  um_method :: string
  um_path :: js_string
  um_contentType :: "js_string option"
  um_authHash :: js_string
  um_authUserKey :: js_string
  um_chunkCount :: nat
  um_maxBodyBytes :: int

record upload =
  up_metadata :: upload_metadata
  up_chunks :: "bytes option list"
  up_receivedCount :: int
  up_receivedBytes :: int
  up_expiresAtMs :: int
  up_committing :: bool

record upload_limits =
  ul_maxActiveUploads :: int
  ul_maxActiveUploadsPerUser :: int
  ul_maxBodyBytes :: int
  ul_maxRetainedBytes :: int
  ul_ttlMs :: int

definition DEFAULT_UPLOAD_LIMITS :: upload_limits where
  "DEFAULT_UPLOAD_LIMITS =
     \<lparr>ul_maxActiveUploads = 16, ul_maxActiveUploadsPerUser = 2, ul_maxBodyBytes = 34 * 1024 * 1024,
      ul_maxRetainedBytes = 48 * 1024 * 1024, ul_ttlMs = 3 * 60 * 1000\<rparr>"

record upload_store =
  us_limits :: upload_limits
  us_uploads :: "(js_string, upload) jsmap"
  us_users :: "(js_string, int) jsmap"
  us_retained :: int
  us_timer :: "int option"

datatype upload_error =
    Upload_Capacity | Too_Many_Active | Metadata_Mismatch | Being_Committed | Body_Too_Large
  | Invalid_Body_Limit | Upload_Not_Found | Upload_Incomplete | Invalid_Chunk_Index

definition new_store :: "upload_limits \<Rightarrow> upload_store" where
  "new_store limits =
     \<lparr>us_limits = limits, us_uploads = [], us_users = [], us_retained = 0, us_timer = None\<rparr>"

section \<open>Operations\<close>

definition users_get :: "upload_store \<Rightarrow> js_string \<Rightarrow> int" where
  "users_get s user = (case jsmap_get (us_users s) user of Some n \<Rightarrow> n | None \<Rightarrow> 0)"

definition removeUpload :: "js_string \<Rightarrow> upload_store \<Rightarrow> upload_store \<times> bool" where
  "removeUpload uploadId s =
     (case jsmap_get (us_uploads s) uploadId of
        None \<Rightarrow> (s, False)
      | Some upload \<Rightarrow>
          (let user = um_authUserKey (up_metadata upload)
           in (s\<lparr>us_uploads := jsmap_delete uploadId (us_uploads s),
                 us_retained := us_retained s - up_receivedBytes upload,
                 us_users :=
                   (case jsmap_get (us_users s) user of
                      None \<Rightarrow> jsmap_delete user (us_users s)
                    | Some n \<Rightarrow> if n \<le> 1 then jsmap_delete user (us_users s) else jsmap_set user (n - 1) (us_users s))\<rparr>,
               True)))"

definition scheduleCleanup :: "int \<Rightarrow> upload_store \<Rightarrow> upload_store" where
  "scheduleCleanup now s =
     s\<lparr>us_timer :=
         (if us_uploads s = [] then None
          else Some (max now (Min (set (map (\<lambda>(_, u). up_expiresAtMs u) (us_uploads s))))))\<rparr>"

definition remove_expired :: "int \<Rightarrow> upload_store \<Rightarrow> upload_store" where
  "remove_expired now s =
     fold (\<lambda>(uploadId, u) s'. if up_expiresAtMs u \<le> now then fst (removeUpload uploadId s') else s') (us_uploads s) s"

definition cleanupExpiredUploads :: "int \<Rightarrow> upload_store \<Rightarrow> upload_store" where
  "cleanupExpiredUploads now s =
     (if \<exists>(_, u) \<in> set (us_uploads s). up_expiresAtMs u \<le> now
      then scheduleCleanup now (remove_expired now s) else s)"

definition resolveMaxBodyBytes :: "upload_limits \<Rightarrow> upload_metadata \<Rightarrow> int option" where
  "resolveMaxBodyBytes limits m =
     (if um_maxBodyBytes m < 1 then None else Some (min (ul_maxBodyBytes limits) (um_maxBodyBytes m)))"

definition assertUploadCapacity :: "js_string \<Rightarrow> upload_store \<Rightarrow> upload_error option" where
  "assertUploadCapacity user s =
     (if int (length (us_uploads s)) \<ge> ul_maxActiveUploads (us_limits s) then Some Upload_Capacity
      else if users_get s user \<ge> ul_maxActiveUploadsPerUser (us_limits s) then Some Too_Many_Active
      else None)"

text \<open>What a call for an upload finds: an error, or the upload, if there is one.\<close>

definition find_upload :: "js_string \<Rightarrow> upload_metadata \<Rightarrow> upload_store \<Rightarrow> upload_error + upload option" where
  "find_upload uploadId m s =
     (case jsmap_get (us_uploads s) uploadId of
        Some u \<Rightarrow>
          if up_metadata u \<noteq> m then Inl Metadata_Mismatch
          else if up_committing u then Inl Being_Committed
          else Inr (Some u)
      | None \<Rightarrow>
          (case assertUploadCapacity (um_authUserKey m) s of Some e \<Rightarrow> Inl e | None \<Rightarrow> Inr None))"

text \<open>Assigning an element of an array beyond its end leaves holes.\<close>

definition set_chunk :: "nat \<Rightarrow> bytes \<Rightarrow> bytes option list \<Rightarrow> bytes option list" where
  "set_chunk i c cs =
     (if i < length cs then cs[i := Some c] else cs @ replicate (i - length cs) None @ [Some c])"

definition chunk_at :: "nat \<Rightarrow> bytes option list \<Rightarrow> bytes option" where
  "chunk_at i cs = (if i < length cs then cs ! i else None)"

definition chunk_length :: "bytes option \<Rightarrow> int" where
  "chunk_length c = (case c of Some b \<Rightarrow> int (length b) | None \<Rightarrow> 0)"

definition storeChunk ::
    "int \<Rightarrow> js_string \<Rightarrow> upload_metadata \<Rightarrow> nat \<Rightarrow> bytes \<Rightarrow> upload_store \<Rightarrow>
       upload_store \<times> (upload_error + int \<times> nat)" where
  "storeChunk now uploadId m i chunk s0 =
     (let s = cleanupExpiredUploads now s0
      in case resolveMaxBodyBytes (us_limits s) m of
           None \<Rightarrow> (s, Inl Invalid_Body_Limit)
         | Some maxBody \<Rightarrow>
             (case find_upload uploadId m s of
                Inl e \<Rightarrow> (s, Inl e)
              | Inr found \<Rightarrow>
                  (let previous = (case found of Some u \<Rightarrow> chunk_at i (up_chunks u) | None \<Rightarrow> None);
                       delta = int (length chunk) - chunk_length previous;
                       nextBytes = (case found of Some u \<Rightarrow> up_receivedBytes u | None \<Rightarrow> 0) + delta
                   in if nextBytes > maxBody then (s, Inl Body_Too_Large)
                      else if us_retained s + delta > ul_maxRetainedBytes (us_limits s) then (s, Inl Upload_Capacity)
                      else
                        (let u = (case found of
                                    Some u \<Rightarrow> u
                                  | None \<Rightarrow> \<lparr>up_metadata = m, up_chunks = replicate (um_chunkCount m) None,
                                             up_receivedCount = 0, up_receivedBytes = 0, up_expiresAtMs = 0,
                                             up_committing = False\<rparr>);
                             users = (if found = None
                                      then jsmap_set (um_authUserKey m) (users_get s (um_authUserKey m) + 1) (us_users s)
                                      else us_users s);
                             u' = u\<lparr>up_receivedCount := up_receivedCount u + (if previous = None then 1 else 0),
                                    up_receivedBytes := nextBytes, up_chunks := set_chunk i chunk (up_chunks u),
                                    up_expiresAtMs := now + ul_ttlMs (us_limits s)\<rparr>
                         in (scheduleCleanup now
                               (s\<lparr>us_uploads := jsmap_set uploadId u' (us_uploads s), us_users := users,
                                  us_retained := us_retained s + delta\<rparr>),
                             Inr (up_receivedCount u', um_chunkCount (up_metadata u')))))))"

definition beginCompletedUpload ::
    "int \<Rightarrow> js_string \<Rightarrow> upload_metadata \<Rightarrow> upload_store \<Rightarrow> upload_store \<times> (upload_error + upload)" where
  "beginCompletedUpload now uploadId m s0 =
     (let s = cleanupExpiredUploads now s0
      in case jsmap_get (us_uploads s) uploadId of
           None \<Rightarrow> (s, Inl Upload_Not_Found)
         | Some u \<Rightarrow>
             if up_metadata u \<noteq> m then (s, Inl Metadata_Mismatch)
             else if up_committing u then (s, Inl Being_Committed)
             else if up_receivedCount u \<noteq> int (um_chunkCount (up_metadata u)) \<or> None \<in> set (up_chunks u)
             then (s, Inl Upload_Incomplete)
             else
               (let u' = u\<lparr>up_committing := True, up_expiresAtMs := now + ul_ttlMs (us_limits s)\<rparr>
                in (scheduleCleanup now (s\<lparr>us_uploads := jsmap_set uploadId u' (us_uploads s)\<rparr>), Inr u')))"

definition deleteUpload :: "int \<Rightarrow> js_string \<Rightarrow> upload_store \<Rightarrow> upload_store" where
  "deleteUpload now uploadId s =
     (case removeUpload uploadId s of (s', deleted) \<Rightarrow> if deleted then scheduleCleanup now s' else s')"

definition dispose :: "upload_store \<Rightarrow> upload_store" where
  "dispose s = s\<lparr>us_timer := None, us_uploads := [], us_users := [], us_retained := 0\<rparr>"

definition timer_fires :: "int \<Rightarrow> upload_store \<Rightarrow> upload_store" where
  "timer_fires now s = scheduleCleanup now (cleanupExpiredUploads now (s\<lparr>us_timer := None\<rparr>))"

section \<open>Handlers\<close>

text \<open>
  \<^verbatim>\<open>storeChunkedTunnelPart\<close> checks the index before it stores; \<^verbatim>\<open>commitChunkedTunnel\<close> forwards the
  chunks in their order.
\<close>

definition storeChunkedTunnelPart ::
    "int \<Rightarrow> js_string \<Rightarrow> upload_metadata \<Rightarrow> nat \<Rightarrow> bytes \<Rightarrow> upload_store \<Rightarrow>
       upload_store \<times> (upload_error + int \<times> nat)" where
  "storeChunkedTunnelPart now uploadId m i chunk s =
     (if i \<ge> um_chunkCount m then (s, Inl Invalid_Chunk_Index) else storeChunk now uploadId m i chunk s)"

definition commit_body :: "upload \<Rightarrow> bytes" where
  "commit_body u = concat (map the (up_chunks u))"

datatype upload_event =
    Store_Part int js_string upload_metadata nat bytes
  | Begin_Commit int js_string upload_metadata
  | End_Commit int js_string
  | Timer_Fires int
  | Dispose

fun upload_step :: "upload_store \<Rightarrow> upload_event \<Rightarrow> upload_store" where
  "upload_step s (Store_Part now k m i c) = fst (storeChunkedTunnelPart now k m i c s)"
| "upload_step s (Begin_Commit now k m) = fst (beginCompletedUpload now k m s)"
| "upload_step s (End_Commit now k) = deleteUpload now k s"
| "upload_step s (Timer_Fires now) = timer_fires now s"
| "upload_step s Dispose = dispose s"


section \<open>Accounts\<close>

definition total_bytes :: "(js_string, upload) jsmap \<Rightarrow> int" where
  "total_bytes us = sum_list (map (\<lambda>(_, u). up_receivedBytes u) us)"

definition user_of :: "upload \<Rightarrow> js_string" where
  "user_of u = um_authUserKey (up_metadata u)"

definition chunks_bytes :: "bytes option list \<Rightarrow> int" where
  "chunks_bytes cs = sum_list (map chunk_length cs)"

definition chunks_count :: "bytes option list \<Rightarrow> int" where
  "chunks_count cs = int (length (filter (\<lambda>c. c \<noteq> None) cs))"

definition upload_wf :: "upload_limits \<Rightarrow> upload \<Rightarrow> bool" where
  "upload_wf l u \<longleftrightarrow>
     length (up_chunks u) = um_chunkCount (up_metadata u) \<and>
     up_receivedBytes u = chunks_bytes (up_chunks u) \<and> up_receivedCount u = chunks_count (up_chunks u) \<and>
     up_receivedBytes u \<le> ul_maxBodyBytes l \<and> up_receivedBytes u \<le> um_maxBodyBytes (up_metadata u)"

definition upload_ok :: "upload_store \<Rightarrow> bool" where
  "upload_ok s \<longleftrightarrow>
     jsmap_ok (us_uploads s) \<and> jsmap_ok (us_users s) \<and>
     us_retained s = total_bytes (us_uploads s) \<and>
     (\<forall>user. jsmap_get (us_users s) user =
        (if count_with user_of (us_uploads s) user = 0 then None else Some (count_with user_of (us_uploads s) user))) \<and>
     (\<forall>(k, u) \<in> set (us_uploads s). upload_wf (us_limits s) u) \<and>
     us_retained s \<le> ul_maxRetainedBytes (us_limits s) \<and>
     int (length (us_uploads s)) \<le> ul_maxActiveUploads (us_limits s) \<and>
     (\<forall>user. count_with user_of (us_uploads s) user \<le> ul_maxActiveUploadsPerUser (us_limits s))"

lemma total_bytes_simps [simp]:
  "total_bytes [] = 0" "total_bytes ((k, u) # us) = up_receivedBytes u + total_bytes us"
  "total_bytes (us @ vs) = total_bytes us + total_bytes vs"
  by (simp_all add: total_bytes_def)

lemma total_bytes_delete:
  "jsmap_ok us \<Longrightarrow> jsmap_get us k = Some u \<Longrightarrow> total_bytes (jsmap_delete k us) = total_bytes us - up_receivedBytes u"
  by (induction us) (auto simp: jsmap_delete_absent map_of_eq_None_iff rev_image_eqI split: if_splits)

lemma total_bytes_set:
  "jsmap_get us k = Some u \<Longrightarrow> total_bytes (jsmap_set k u' us) = total_bytes us - up_receivedBytes u + up_receivedBytes u'"
  by (induction us) (auto split: if_splits)

lemma count_with_set:
  "jsmap_get us k = Some u \<Longrightarrow> f u' = f u \<Longrightarrow> count_with f (jsmap_set k u' us) x = count_with f us x"
  by (induction us) (auto split: if_splits)

lemma user_count_nonneg: "0 \<le> count_with f us x"
  by (simp add: count_with_def)

lemma count_with_pos: "jsmap_get us k = Some u \<Longrightarrow> 1 \<le> count_with f us (f u)"
  by (induction us) (auto simp: user_count_nonneg split: if_splits)

lemma chunks_simps [simp]:
  "chunks_bytes [] = 0" "chunks_bytes (c # cs) = chunk_length c + chunks_bytes cs"
  "chunks_count [] = 0" "chunks_count (c # cs) = (if c \<noteq> None then 1 else 0) + chunks_count cs"
  by (simp_all add: chunks_bytes_def chunks_count_def)

lemma chunk_length_simps [simp]: "chunk_length None = 0" "chunk_length (Some b) = int (length b)"
  by (simp_all add: chunk_length_def)

lemma chunks_replicate [simp]: "chunks_bytes (replicate n None) = 0" "chunks_count (replicate n None) = 0"
  by (induction n) simp_all

lemma chunks_update:
  "i < length cs \<Longrightarrow> chunks_bytes (cs[i := Some c]) = chunks_bytes cs + int (length c) - chunk_length (cs ! i) \<and>
     chunks_count (cs[i := Some c]) = chunks_count cs + (if cs ! i = None then 1 else 0)"
proof (induction cs arbitrary: i)
  case Nil
  then show ?case by simp
next
  case (Cons x cs)
  then show ?case by (cases i) auto
qed

lemma set_jsmap_set_subset: "set (jsmap_set k v m) \<subseteq> insert (k, v) (set m)"
  by (induction m) auto

lemma removeUpload_uploads [simp]: "us_uploads (fst (removeUpload k s)) = jsmap_delete k (us_uploads s)"
  by (simp add: removeUpload_def Let_def jsmap_delete_absent split: option.splits)

lemma removeUpload_limits [simp]: "us_limits (fst (removeUpload k s)) = us_limits s"
  by (simp add: removeUpload_def Let_def split: option.splits)

lemma length_delete_le: "length (jsmap_delete k m) \<le> length m"
  by (induction m) auto

lemma removeUpload_ok:
  assumes ok: "upload_ok s"
  shows "upload_ok (fst (removeUpload k s))"
proof (cases "jsmap_get (us_uploads s) k")
  case None
  then show ?thesis using ok by (simp add: removeUpload_def)
next
  case (Some u)
  let ?us = "jsmap_delete k (us_uploads s)"
  have kok: "jsmap_ok (us_uploads s)" and uok: "jsmap_ok (us_users s)"
    and get: "\<And>x. jsmap_get (us_users s) x =
      (if count_with user_of (us_uploads s) x = 0 then None else Some (count_with user_of (us_uploads s) x))"
    and wf: "\<forall>(k, u) \<in> set (us_uploads s). upload_wf (us_limits s) u"
    and lim: "us_retained s = total_bytes (us_uploads s)" "us_retained s \<le> ul_maxRetainedBytes (us_limits s)"
      "int (length (us_uploads s)) \<le> ul_maxActiveUploads (us_limits s)"
      "\<And>x. count_with user_of (us_uploads s) x \<le> ul_maxActiveUploadsPerUser (us_limits s)"
    using ok by (auto simp: upload_ok_def)
  have cnt: "count_with user_of ?us x = count_with user_of (us_uploads s) x - (if user_of u = x then 1 else 0)" for x
    by (rule count_with_delete [OF kok Some])
  have pos: "1 \<le> count_with user_of (us_uploads s) (user_of u)" by (rule count_with_pos [OF Some])
  have "upload_wf (us_limits s) u" using wf Some by (auto dest: map_of_SomeD)
  then have "0 \<le> up_receivedBytes u"
    by (auto simp: upload_wf_def chunks_bytes_def chunk_length_def intro!: sum_list_nonneg split: option.splits)
  then have tot: "total_bytes ?us = us_retained s - up_receivedBytes u" "total_bytes ?us \<le> ul_maxRetainedBytes (us_limits s)"
    using total_bytes_delete [OF kok Some] lim(1,2) by simp_all
  have wf': "\<forall>(k, u) \<in> set ?us. upload_wf (us_limits s) u" using wf set_jsmap_delete [of k "us_uploads s"] by auto
  have len: "int (length ?us) \<le> ul_maxActiveUploads (us_limits s)" using lim(3) length_delete_le [of k "us_uploads s"] by simp
  have per: "count_with user_of ?us x \<le> ul_maxActiveUploadsPerUser (us_limits s)" for x
    using lim(4) [of x] unfolding cnt by simp
  show ?thesis using Some tot wf' len per kok uok get pos
    unfolding upload_ok_def by (auto simp: removeUpload_def Let_def cnt user_of_def [symmetric] split: option.splits)
qed

lemma scheduleCleanup_ok [simp]: "upload_ok (scheduleCleanup now s) = upload_ok s"
  by (simp add: scheduleCleanup_def upload_ok_def)

lemma scheduleCleanup_fields [simp]:
  "us_uploads (scheduleCleanup now s) = us_uploads s" "us_users (scheduleCleanup now s) = us_users s"
  "us_retained (scheduleCleanup now s) = us_retained s" "us_limits (scheduleCleanup now s) = us_limits s"
  by (simp_all add: scheduleCleanup_def)

lemma remove_expired_ok:
  assumes "upload_ok s"
  shows "upload_ok (remove_expired now s)" "us_limits (remove_expired now s) = us_limits s"
proof -
  have "upload_ok (fold f xs s) \<and> us_limits (fold f xs s) = us_limits s"
    if f: "f = (\<lambda>(k, u) s'. if up_expiresAtMs u \<le> now then fst (removeUpload k s') else s')" for f xs
    using assms
  proof (induction xs arbitrary: s)
    case Nil
    then show ?case by simp
  next
    case (Cons x xs)
    have "upload_ok (f x s)" "us_limits (f x s) = us_limits s"
      using Cons.prems by (simp_all add: f case_prod_beta removeUpload_ok)
    then show ?case using Cons.IH [of "f x s"] by simp
  qed
  from this [OF refl, of "us_uploads s"] show "upload_ok (remove_expired now s)" "us_limits (remove_expired now s) = us_limits s"
    unfolding remove_expired_def by simp_all
qed

lemma jsmap_delete_filter: "jsmap_delete k m = filter (\<lambda>(k', _). k' \<noteq> k) m"
  by (induction m) auto

definition expired_keys :: "int \<Rightarrow> (js_string, upload) jsmap \<Rightarrow> js_string set" where
  "expired_keys now us = fst ` {x \<in> set us. up_expiresAtMs (snd x) \<le> now}"

lemma fold_remove_uploads:
  "us_uploads (fold (\<lambda>(k, u) s'. if up_expiresAtMs u \<le> now then fst (removeUpload k s') else s') xs t) =
     filter (\<lambda>x. fst x \<notin> expired_keys now xs) (us_uploads t)"
proof (induction xs arbitrary: t)
  case Nil
  then show ?case by (simp add: expired_keys_def)
next
  case (Cons x xs)
  obtain k u where x: "x = (k, u)" by (cases x)
  show ?case
  proof (cases "up_expiresAtMs u \<le> now")
    case True
    have "expired_keys now (x # xs) = insert k (expired_keys now xs)" using True by (force simp: expired_keys_def x)
    moreover have "us_uploads (fst (removeUpload k t)) = filter (\<lambda>x. fst x \<noteq> k) (us_uploads t)"
      unfolding removeUpload_uploads jsmap_delete_filter by (simp add: split_beta')
    ultimately show ?thesis using True by (simp only: x fold_simps prod.case if_True Cons.IH filter_filter) (simp add: conj_commute)
  next
    case False
    have "expired_keys now (x # xs) = expired_keys now xs" using False by (auto simp: expired_keys_def x)
    then show ?thesis using False by (simp add: x Cons.IH)
  qed
qed

lemma remove_expired_uploads:
  assumes "jsmap_ok (us_uploads s)"
  shows "us_uploads (remove_expired now s) = filter (\<lambda>(k, u). up_expiresAtMs u > now) (us_uploads s)"
  unfolding remove_expired_def fold_remove_uploads
proof (rule filter_cong [OF refl])
  fix x
  assume x: "x \<in> set (us_uploads s)"
  have "y = x" if "y \<in> set (us_uploads s)" "fst y = fst x" for y
    using assms that x by (metis eq_key_imp_eq_value prod.collapse)
  then have "fst x \<in> expired_keys now (us_uploads s) \<longleftrightarrow> up_expiresAtMs (snd x) \<le> now"
    using x unfolding expired_keys_def by fastforce
  then show "(fst x \<notin> expired_keys now (us_uploads s)) = (case x of (k, u) \<Rightarrow> up_expiresAtMs u > now)"
    by (simp add: case_prod_beta not_le)
qed

lemma cleanup_uploads_ok:
  assumes "upload_ok s"
  shows "upload_ok (cleanupExpiredUploads now s)" "us_limits (cleanupExpiredUploads now s) = us_limits s"
    "us_uploads (cleanupExpiredUploads now s) = filter (\<lambda>(k, u). up_expiresAtMs u > now) (us_uploads s)"
proof -
  have k: "jsmap_ok (us_uploads s)" using assms by (simp add: upload_ok_def)
  show "upload_ok (cleanupExpiredUploads now s)" "us_limits (cleanupExpiredUploads now s) = us_limits s"
    using remove_expired_ok [OF assms] assms by (simp_all add: cleanupExpiredUploads_def)
  have "filter (\<lambda>(k, u). up_expiresAtMs u > now) (us_uploads s) = us_uploads s"
    if "\<not> (\<exists>(_, u) \<in> set (us_uploads s). up_expiresAtMs u \<le> now)"
    using that by (auto simp: filter_id_conv)
  then show "us_uploads (cleanupExpiredUploads now s) = filter (\<lambda>(k, u). up_expiresAtMs u > now) (us_uploads s)"
    using remove_expired_uploads [OF k] by (simp add: cleanupExpiredUploads_def)
qed


lemma find_upload_cases:
  assumes "find_upload k m s = Inr found"
  shows "jsmap_get (us_uploads s) k = found"
    "found = Some u \<Longrightarrow> up_metadata u = m \<and> \<not> up_committing u"
    "found = None \<Longrightarrow> int (length (us_uploads s)) < ul_maxActiveUploads (us_limits s) \<and>
       users_get s (um_authUserKey m) < ul_maxActiveUploadsPerUser (us_limits s)"
  using assms by (auto simp: find_upload_def assertUploadCapacity_def split: option.splits if_splits)

text \<open>The two ways a chunk is stored: in a new upload, in one that is there.\<close>

definition put_upload ::
    "js_string \<Rightarrow> upload \<Rightarrow> (js_string, int) jsmap \<Rightarrow> int \<Rightarrow> upload_store \<Rightarrow> upload_store" where
  "put_upload k u users delta s =
     s\<lparr>us_uploads := jsmap_set k u (us_uploads s), us_users := users, us_retained := us_retained s + delta\<rparr>"

lemma put_upload_old_ok:
  assumes ok: "upload_ok s" and get: "jsmap_get (us_uploads s) k = Some u"
    and same: "user_of u' = user_of u" and wf: "upload_wf (us_limits s) u'"
    and delta: "up_receivedBytes u' = up_receivedBytes u + delta"
    and room: "us_retained s + delta \<le> ul_maxRetainedBytes (us_limits s)"
  shows "upload_ok (put_upload k u' (us_users s) delta s)"
proof -
  have cnt: "count_with user_of (jsmap_set k u' (us_uploads s)) x = count_with user_of (us_uploads s) x" for x
    by (rule count_with_set [OF get same])
  have tot: "total_bytes (jsmap_set k u' (us_uploads s)) = total_bytes (us_uploads s) + delta"
    using total_bytes_set [OF get, of u'] delta by simp
  have len: "length (jsmap_set k u' (us_uploads s)) = length (us_uploads s)"
    using get by (simp add: jsmap_length_set)
  have "\<forall>(k, u) \<in> set (jsmap_set k u' (us_uploads s)). upload_wf (us_limits s) u"
    using ok wf set_jsmap_set_subset [of k u' "us_uploads s"] by (auto simp: upload_ok_def)
  then show ?thesis using ok room by (simp add: upload_ok_def put_upload_def cnt tot len)
qed

lemma put_upload_new_ok:
  assumes ok: "upload_ok s" and get: "jsmap_get (us_uploads s) k = None" and wf: "upload_wf (us_limits s) u"
    and room: "us_retained s + up_receivedBytes u \<le> ul_maxRetainedBytes (us_limits s)"
      "int (length (us_uploads s)) < ul_maxActiveUploads (us_limits s)"
      "users_get s (user_of u) < ul_maxActiveUploadsPerUser (us_limits s)"
  shows "upload_ok (put_upload k u (jsmap_set (user_of u) (users_get s (user_of u) + 1) (us_users s)) (up_receivedBytes u) s)"
proof -
  have app: "jsmap_set k u (us_uploads s) = us_uploads s @ [(k, u)]" using get by (rule jsmap_set_fresh)
  have users: "users_get s (user_of u) = count_with user_of (us_uploads s) (user_of u)"
    using ok by (simp add: users_get_def upload_ok_def)
  have "jsmap_ok (us_uploads s @ [(k, u)])" using ok app jsmap_ok_set [of "us_uploads s" k u] by (simp add: upload_ok_def)
  moreover have "0 \<le> count_with user_of (us_uploads s) (user_of u)" by (rule user_count_nonneg)
  ultimately show ?thesis using ok room wf
    by (auto simp: upload_ok_def put_upload_def app count_with_append users)
qed

definition found_upload :: "upload_metadata \<Rightarrow> upload option \<Rightarrow> upload" where
  "found_upload m found =
     (case found of
        Some u \<Rightarrow> u
      | None \<Rightarrow> \<lparr>up_metadata = m, up_chunks = replicate (um_chunkCount m) None, up_receivedCount = 0,
                 up_receivedBytes = 0, up_expiresAtMs = 0, up_committing = False\<rparr>)"

definition found_chunk :: "nat \<Rightarrow> upload option \<Rightarrow> bytes option" where
  "found_chunk i found = (case found of Some u \<Rightarrow> chunk_at i (up_chunks u) | None \<Rightarrow> None)"

definition chunk_delta :: "nat \<Rightarrow> bytes \<Rightarrow> upload option \<Rightarrow> int" where
  "chunk_delta i c found = int (length c) - chunk_length (found_chunk i found)"

definition with_chunk :: "int \<Rightarrow> upload_metadata \<Rightarrow> nat \<Rightarrow> bytes \<Rightarrow> upload option \<Rightarrow> upload" where
  "with_chunk expires m i c found =
     (found_upload m found)
       \<lparr>up_receivedCount := up_receivedCount (found_upload m found) + (if found_chunk i found = None then 1 else 0),
        up_receivedBytes := up_receivedBytes (found_upload m found) + chunk_delta i c found,
        up_chunks := set_chunk i c (up_chunks (found_upload m found)), up_expiresAtMs := expires\<rparr>"

definition users_with :: "upload_metadata \<Rightarrow> upload option \<Rightarrow> upload_store \<Rightarrow> (js_string, int) jsmap" where
  "users_with m found s =
     (if found = None then jsmap_set (um_authUserKey m) (users_get s (um_authUserKey m) + 1) (us_users s) else us_users s)"

lemma storeChunk_found:
  assumes "resolveMaxBodyBytes (us_limits (cleanupExpiredUploads now s0)) m = Some maxBody"
    "find_upload k m (cleanupExpiredUploads now s0) = Inr found"
    "s = cleanupExpiredUploads now s0"
  shows "storeChunk now k m i c s0 =
    (if up_receivedBytes (found_upload m found) + chunk_delta i c found > maxBody then (s, Inl Body_Too_Large)
     else if us_retained s + chunk_delta i c found > ul_maxRetainedBytes (us_limits s) then (s, Inl Upload_Capacity)
     else (scheduleCleanup now
             (put_upload k (with_chunk (now + ul_ttlMs (us_limits s)) m i c found) (users_with m found s)
                (chunk_delta i c found) s),
           Inr (up_receivedCount (with_chunk (now + ul_ttlMs (us_limits s)) m i c found),
                um_chunkCount (up_metadata (found_upload m found)))))"
  using assms
  by (cases found)
    (simp_all add: storeChunk_def Let_def found_upload_def found_chunk_def chunk_delta_def with_chunk_def users_with_def
      put_upload_def)

lemma storeChunk_refused:
  "resolveMaxBodyBytes (us_limits (cleanupExpiredUploads now s0)) m = None \<Longrightarrow>
     storeChunk now k m i c s0 = (cleanupExpiredUploads now s0, Inl Invalid_Body_Limit)"
  "resolveMaxBodyBytes (us_limits (cleanupExpiredUploads now s0)) m = Some maxBody \<Longrightarrow>
     find_upload k m (cleanupExpiredUploads now s0) = Inl err \<Longrightarrow>
     storeChunk now k m i c s0 = (cleanupExpiredUploads now s0, Inl err)"
  by (simp_all add: storeChunk_def Let_def)

lemma storeChunk_cases:
  assumes ok: "upload_ok s0" and i: "i < um_chunkCount m"
    and e: "storeChunk now k m i c s0 = (s', r)"
  obtains (refused) err where "s' = cleanupExpiredUploads now s0" "r = Inl err"
  | (stored) u u' n where "upload_ok s'" "us_limits s' = us_limits s0" "r = Inr n"
      "us_uploads s' = jsmap_set k u' (us_uploads (cleanupExpiredUploads now s0))"
      "up_metadata u' = m" "up_committing u' = False" "up_expiresAtMs u' = now + ul_ttlMs (us_limits s0)"
      "up_chunks u' = (up_chunks u)[i := Some c]"
      "us_timer s' = Some (max now (Min (set (map (\<lambda>(_, u). up_expiresAtMs u) (us_uploads s')))))"
      "case jsmap_get (us_uploads (cleanupExpiredUploads now s0)) k of
         Some v \<Rightarrow> u = v \<and> \<not> up_committing v \<and> up_metadata v = m
       | None \<Rightarrow> up_chunks u = replicate (um_chunkCount m) None"
proof -
  define s where "s = cleanupExpiredUploads now s0"
  have oks: "upload_ok s" and lims: "us_limits s = us_limits s0" using cleanup_uploads_ok [OF ok] by (simp_all add: s_def)
  show ?thesis
  proof (cases "resolveMaxBodyBytes (us_limits s) m")
    case None
    then have "storeChunk now k m i c s0 = (s, Inl Invalid_Body_Limit)" unfolding s_def by (rule storeChunk_refused(1))
    then show ?thesis using e by (intro refused) (simp_all add: s_def)
  next
    case (Some maxBody)
    show ?thesis
    proof (cases "find_upload k m s")
      case (Inl err)
      then have "storeChunk now k m i c s0 = (s, Inl err)"
        using Some unfolding s_def by (intro storeChunk_refused(2))
      then show ?thesis using e by (intro refused) (simp_all add: s_def)
    next
      case (Inr found)
      note fc = find_upload_cases [OF Inr]
      note e2 = e [unfolded storeChunk_found [OF Some [unfolded s_def] Inr [unfolded s_def] s_def]]
      define u where "u = found_upload m found"
      define delta where "delta = chunk_delta i c found"
      define u' where "u' = with_chunk (now + ul_ttlMs (us_limits s)) m i c found"
      have maxBody: "maxBody \<le> ul_maxBodyBytes (us_limits s)" "maxBody \<le> um_maxBodyBytes m"
        using Some by (auto simp: resolveMaxBodyBytes_def split: if_splits)
      have meta: "up_metadata u = m" "\<not> up_committing u"
        using fc(2) by (auto simp: u_def found_upload_def split: option.split)
      have shape: "length (up_chunks u) = um_chunkCount m \<and> up_receivedBytes u = chunks_bytes (up_chunks u) \<and>
          up_receivedCount u = chunks_count (up_chunks u)"
      proof (cases found)
        case None
        then show ?thesis by (simp add: u_def found_upload_def)
      next
        case (Some v)
        then have "(k, v) \<in> set (us_uploads s)" using fc(1) by (auto dest: map_of_SomeD)
        then have "upload_wf (us_limits s) v" using oks by (auto simp: upload_ok_def)
        then show ?thesis using Some fc(2) by (simp add: u_def found_upload_def upload_wf_def)
      qed
      have prev: "found_chunk i found = up_chunks u ! i"
        using i shape by (cases found) (auto simp: found_chunk_def u_def found_upload_def chunk_at_def)
      have chunks: "up_chunks u' = (up_chunks u)[i := Some c]"
        using i shape by (simp add: u'_def u_def with_chunk_def set_chunk_def)
      show ?thesis
      proof (cases "up_receivedBytes u + delta > maxBody \<or> us_retained s + delta > ul_maxRetainedBytes (us_limits s)")
        case True
        then obtain err where "(s, Inl err) = (s', r)"
          using e2 unfolding u_def [symmetric] delta_def [symmetric] by (auto split: if_splits)
        then show ?thesis using refused [of err] by (simp add: s_def)
      next
        case False
        have fields: "up_receivedBytes u' = up_receivedBytes u + delta" "up_metadata u' = m"
          "up_receivedCount u' = up_receivedCount u + (if up_chunks u ! i = None then 1 else 0)"
          "up_committing u' = False" "up_expiresAtMs u' = now + ul_ttlMs (us_limits s)"
          using meta by (simp_all add: u'_def with_chunk_def u_def [symmetric] delta_def prev)
        have delta: "delta = int (length c) - chunk_length (up_chunks u ! i)"
          by (simp add: delta_def chunk_delta_def prev)
        have wf: "upload_wf (us_limits s) u'"
          unfolding upload_wf_def fields chunks
          using chunks_update [of i "up_chunks u" c] i shape False maxBody by (simp add: delta)
        define s2 where "s2 = put_upload k u' (users_with m found s) delta s"
        have s': "s' = scheduleCleanup now s2" "r = Inr (up_receivedCount u', um_chunkCount (up_metadata u))"
          using e2 False by (simp_all add: s2_def u'_def u_def delta_def)
        have uploads: "us_uploads s2 = jsmap_set k u' (us_uploads s)" "us_limits s2 = us_limits s"
          by (simp_all add: s2_def put_upload_def)
        have ne: "jsmap_set k u' (us_uploads s) \<noteq> []" by (cases "us_uploads s") auto
        have "upload_ok s2"
        proof (cases found)
          case None
          have "up_receivedBytes u' = delta" "user_of u' = um_authUserKey m"
            using None fields by (simp_all add: u_def found_upload_def user_of_def)
          then show ?thesis using put_upload_new_ok [OF oks _ wf, of k] fc(1,3) None False
            by (simp add: s2_def users_with_def)
        next
          case (Some v)
          then have v: "u = v" by (simp add: u_def found_upload_def)
          have "user_of u' = user_of u" using fields(2) meta(1) by (simp add: user_of_def)
          then show ?thesis using put_upload_old_ok [OF oks _ _ wf, of k u delta] fields(1) fc(1) Some False v
            by (simp add: s2_def users_with_def)
        qed
        then have 1: "upload_ok s'" "us_limits s' = us_limits s0" "us_uploads s' = jsmap_set k u' (us_uploads s)"
          using s' uploads lims by simp_all
        have 2: "up_metadata u' = m" "up_committing u' = False" "up_expiresAtMs u' = now + ul_ttlMs (us_limits s0)"
          using fields lims by simp_all
        have 3: "us_timer s' = Some (max now (Min (set (map (\<lambda>(_, u). up_expiresAtMs u) (us_uploads s')))))"
          using s'(1) uploads ne by (simp add: scheduleCleanup_def)
        have 4: "case jsmap_get (us_uploads s) k of Some v \<Rightarrow> u = v \<and> \<not> up_committing v \<and> up_metadata v = m
            | None \<Rightarrow> up_chunks u = replicate (um_chunkCount m) None"
          using fc(1) meta by (cases found) (simp_all add: u_def found_upload_def)
        show ?thesis by (rule stored [OF 1(1,2) s'(2) 1(3) [unfolded s_def] 2 chunks 3 4 [unfolded s_def]])
      qed
    qed
  qed
qed


section \<open>Every operation keeps the accounts\<close>

lemma store_part_ok: "upload_ok s \<Longrightarrow> upload_ok (fst (storeChunkedTunnelPart now k m i c s))"
proof (cases "i < um_chunkCount m")
  case True
  assume ok: "upload_ok s"
  obtain s' r where e: "storeChunk now k m i c s = (s', r)" by fastforce
  have "upload_ok s'"
    using storeChunk_cases [OF ok True e, of "upload_ok s'"] cleanup_uploads_ok(1) [OF ok] by auto
  then show ?thesis using e True by (simp add: storeChunkedTunnelPart_def)
qed (simp add: storeChunkedTunnelPart_def)

lemma begin_cases:
  assumes ok: "upload_ok s0" and e: "beginCompletedUpload now k m s0 = (s', r)"
  obtains (refused) err where "s' = cleanupExpiredUploads now s0" "r = Inl err"
  | (begun) u u' where "upload_ok s'" "us_limits s' = us_limits s0" "r = Inr u'"
      "jsmap_get (us_uploads (cleanupExpiredUploads now s0)) k = Some u" "up_metadata u = m" "\<not> up_committing u"
      "None \<notin> set (up_chunks u)" "u' = u\<lparr>up_committing := True, up_expiresAtMs := now + ul_ttlMs (us_limits s0)\<rparr>"
      "us_uploads s' = jsmap_set k u' (us_uploads (cleanupExpiredUploads now s0))"
      "us_timer s' = Some (max now (Min (set (map (\<lambda>(_, u). up_expiresAtMs u) (us_uploads s')))))"
proof -
  define s where "s = cleanupExpiredUploads now s0"
  have oks: "upload_ok s" and lims: "us_limits s = us_limits s0" using cleanup_uploads_ok [OF ok] by (simp_all add: s_def)
  note e' = e [unfolded beginCompletedUpload_def Let_def s_def [symmetric]]
  show ?thesis
  proof (cases "jsmap_get (us_uploads s) k")
    case None
    then show ?thesis using e' refused [of Upload_Not_Found] by (simp add: s_def)
  next
    case (Some u)
    show ?thesis
    proof (cases "up_metadata u \<noteq> m \<or> up_committing u \<or>
        up_receivedCount u \<noteq> int (um_chunkCount (up_metadata u)) \<or> None \<in> set (up_chunks u)")
      case True
      then obtain err where "(s, Inl err) = (s', r)" using e' Some by (auto split: if_splits)
      then show ?thesis using refused [of err] by (simp add: s_def)
    next
      case False
      define u' where "u' = u\<lparr>up_committing := True, up_expiresAtMs := now + ul_ttlMs (us_limits s)\<rparr>"
      define s2 where "s2 = s\<lparr>us_uploads := jsmap_set k u' (us_uploads s)\<rparr>"
      have s': "s' = scheduleCleanup now s2" "r = Inr u'" using e' Some False by (simp_all add: s2_def u'_def)
      have "(k, u) \<in> set (us_uploads s)" using Some by (rule map_of_SomeD)
      then have "upload_wf (us_limits s) u'" using oks by (auto simp: upload_ok_def upload_wf_def u'_def)
      then have "upload_ok (put_upload k u' (us_users s) 0 s)"
        by (intro put_upload_old_ok [OF oks Some]) (use oks in \<open>simp_all add: user_of_def u'_def upload_ok_def\<close>)
      moreover have "put_upload k u' (us_users s) 0 s = s2" by (simp add: put_upload_def s2_def)
      ultimately have 1: "upload_ok s'" "us_limits s' = us_limits s0" "us_uploads s' = jsmap_set k u' (us_uploads s)"
        using s' lims by (simp_all add: s2_def)
      have 2: "u' = u\<lparr>up_committing := True, up_expiresAtMs := now + ul_ttlMs (us_limits s0)\<rparr>"
        by (simp add: u'_def lims)
      have "jsmap_set k u' (us_uploads s) \<noteq> []" by (cases "us_uploads s") auto
      then have 3: "us_timer s' = Some (max now (Min (set (map (\<lambda>(_, u). up_expiresAtMs u) (us_uploads s')))))"
        by (simp add: s'(1) s2_def scheduleCleanup_def)
      show ?thesis
        by (rule begun [OF 1(1,2) s'(2) Some [unfolded s_def] _ _ _ 2 1(3) [unfolded s_def] 3]) (use False in simp_all)
    qed
  qed
qed

lemma begin_ok: "upload_ok s \<Longrightarrow> upload_ok (fst (beginCompletedUpload now k m s))"
proof -
  assume ok: "upload_ok s"
  obtain s' r where e: "beginCompletedUpload now k m s = (s', r)" by fastforce
  show ?thesis using begin_cases [OF ok e, of "upload_ok s'"] cleanup_uploads_ok(1) [OF ok] e by auto
qed

lemma delete_ok: "upload_ok s \<Longrightarrow> upload_ok (deleteUpload now k s)"
  using removeUpload_ok [of s k] by (simp add: deleteUpload_def case_prod_beta)

lemma timer_clear_ok [simp]: "upload_ok (s\<lparr>us_timer := t\<rparr>) = upload_ok s"
  by (simp add: upload_ok_def)

lemma timer_ok: "upload_ok s \<Longrightarrow> upload_ok (timer_fires now s)"
  by (simp add: timer_fires_def cleanup_uploads_ok)

lemma new_store_ok:
  "0 \<le> ul_maxActiveUploads l \<Longrightarrow> 0 \<le> ul_maxActiveUploadsPerUser l \<Longrightarrow> 0 \<le> ul_maxRetainedBytes l \<Longrightarrow>
     upload_ok (new_store l)"
  by (simp add: upload_ok_def new_store_def)

definition limits_ok :: "upload_limits \<Rightarrow> bool" where
  "limits_ok l \<longleftrightarrow> 0 \<le> ul_maxActiveUploads l \<and> 0 \<le> ul_maxActiveUploadsPerUser l \<and> 0 \<le> ul_maxRetainedBytes l"

lemma upload_step_limits: "upload_ok s \<Longrightarrow> us_limits (upload_step s e) = us_limits s"
proof (cases e)
  case (Store_Part now k m i c)
  assume ok: "upload_ok s"
  obtain s' r where e: "storeChunk now k m i c s = (s', r)" by fastforce
  show ?thesis
  proof (cases "i < um_chunkCount m")
    case True
    show ?thesis
      using storeChunk_cases [OF ok True e, of "us_limits s' = us_limits s"] cleanup_uploads_ok(2) [OF ok] e True Store_Part
      by (auto simp: storeChunkedTunnelPart_def)
  qed (simp add: Store_Part storeChunkedTunnelPart_def)
next
  case (Begin_Commit now k m)
  assume ok: "upload_ok s"
  obtain s' r where e: "beginCompletedUpload now k m s = (s', r)" by fastforce
  show ?thesis
    using begin_cases [OF ok e, of "us_limits s' = us_limits s"] cleanup_uploads_ok(2) [OF ok] e Begin_Commit by auto
next
  case (Timer_Fires now)
  assume "upload_ok s"
  then show ?thesis using cleanup_uploads_ok(2) [of "s\<lparr>us_timer := None\<rparr>" now] Timer_Fires by (simp add: timer_fires_def)
qed (simp_all add: deleteUpload_def case_prod_beta dispose_def)

lemma upload_step_ok:
  assumes ok: "upload_ok s" and l: "limits_ok (us_limits s)"
  shows "upload_ok (upload_step s e)"
proof (cases e)
  case Dispose
  then show ?thesis using l by (simp add: dispose_def upload_ok_def limits_ok_def)
qed (simp_all add: ok store_part_ok begin_ok delete_ok timer_ok)

interpretation uploads: invariant_machine "\<lambda>s. upload_ok s \<and> limits_ok (us_limits s)" "\<lambda>_ _. True" upload_step
  by unfold_locales (simp add: upload_step_ok upload_step_limits)


section \<open>What an operation does to the uploads\<close>

lemma get_unexpired:
  assumes "jsmap_ok us"
  shows "jsmap_get (filter (\<lambda>(k, u). up_expiresAtMs u > now) us) k =
    (case jsmap_get us k of Some u \<Rightarrow> if up_expiresAtMs u > now then Some u else None | None \<Rightarrow> None)"
  using assms
proof (induction us)
  case Nil
  then show ?case by simp
next
  case (Cons x us)
  obtain k' u where x: "x = (k', u)" by (cases x)
  have "jsmap_get us k' = None" using Cons.prems by (simp add: x map_of_eq_None_iff)
  then show ?case using Cons by (auto simp: x split: option.splits)
qed

lemma get_cleanup:
  "upload_ok s \<Longrightarrow> jsmap_get (us_uploads (cleanupExpiredUploads now s)) k =
    (case jsmap_get (us_uploads s) k of Some u \<Rightarrow> if up_expiresAtMs u > now then Some u else None | None \<Rightarrow> None)"
  using get_unexpired [of "us_uploads s"] by (simp add: cleanup_uploads_ok(3) upload_ok_def)

lemma begin_get:
  assumes ok: "upload_ok s" and get: "jsmap_get (us_uploads (fst (beginCompletedUpload now k m s))) k' = Some u'"
  obtains u where "jsmap_get (us_uploads s) k' = Some u" "up_chunks u' = up_chunks u" "up_metadata u' = up_metadata u"
proof -
  obtain s' r where e: "beginCompletedUpload now k m s = (s', r)" by fastforce
  have "\<exists>u. jsmap_get (us_uploads s) k' = Some u \<and> up_chunks u' = up_chunks u \<and> up_metadata u' = up_metadata u"
    by (rule begin_cases [OF ok e])
      (use get e in \<open>auto simp: get_cleanup [OF ok] split: option.splits if_splits\<close>)
  then show ?thesis using that by blast
qed

lemma delete_get:
  "jsmap_get (us_uploads (deleteUpload now k s)) k' = (if k' = k then None else jsmap_get (us_uploads s) k')"
  by (simp add: deleteUpload_def case_prod_beta)

lemma timer_get:
  "upload_ok s \<Longrightarrow> jsmap_get (us_uploads (timer_fires now s)) k =
    (case jsmap_get (us_uploads s) k of Some u \<Rightarrow> if up_expiresAtMs u > now then Some u else None | None \<Rightarrow> None)"
  using get_cleanup [of "s\<lparr>us_timer := None\<rparr>" now k] by (simp add: timer_fires_def)

section \<open>The accepted parts\<close>

type_synonym parts = "(js_string \<times> upload_metadata \<times> nat \<times> bytes) list"

definition accepted :: "upload_store \<Rightarrow> upload_event \<Rightarrow> parts" where
  "accepted s e =
     (case e of
        Store_Part now k m i c \<Rightarrow>
          (case snd (storeChunkedTunnelPart now k m i c s) of Inr _ \<Rightarrow> [(k, m, i, c)] | Inl _ \<Rightarrow> [])
      | _ \<Rightarrow> [])"

fun parts_of :: "upload_store \<Rightarrow> upload_event list \<Rightarrow> parts" where
  "parts_of s [] = []"
| "parts_of s (e # es) = accepted s e @ parts_of (upload_step s e) es"

definition last_part :: "js_string \<Rightarrow> nat \<Rightarrow> parts \<Rightarrow> (upload_metadata \<times> bytes) option" where
  "last_part k i L =
     (case find (\<lambda>(k', _, i', _). k' = k \<and> i' = i) (rev L) of Some (_, m, _, c) \<Rightarrow> Some (m, c) | None \<Rightarrow> None)"

lemma last_part_append:
  "last_part k i (L @ [(k', m, i', c)]) = (if k' = k \<and> i' = i then Some (m, c) else last_part k i L)"
  by (simp add: last_part_def)

definition parts_ok :: "upload_store \<Rightarrow> parts \<Rightarrow> bool" where
  "parts_ok s L \<longleftrightarrow>
     (\<forall>k u i c. jsmap_get (us_uploads s) k = Some u \<longrightarrow> i < length (up_chunks u) \<longrightarrow> up_chunks u ! i = Some c \<longrightarrow>
        last_part k i L = Some (up_metadata u, c))"

lemma parts_ok_sub:
  assumes "parts_ok s L"
    and "\<And>k u'. jsmap_get (us_uploads s') k = Some u' \<Longrightarrow>
      \<exists>u. jsmap_get (us_uploads s) k = Some u \<and> up_chunks u' = up_chunks u \<and> up_metadata u' = up_metadata u"
  shows "parts_ok s' L"
  using assms unfolding parts_ok_def by metis

lemma parts_ok_cleanup: "upload_ok s \<Longrightarrow> parts_ok s L \<Longrightarrow> parts_ok (cleanupExpiredUploads now s) L"
  by (rule parts_ok_sub) (auto simp: get_cleanup split: option.splits if_splits)

lemma parts_ok_step:
  assumes ok: "upload_ok s" and p: "parts_ok s L"
  shows "parts_ok (upload_step s e) (L @ accepted s e)"
proof (cases e)
  case (Store_Part now k m i c)
  show ?thesis
  proof (cases "i < um_chunkCount m")
    case False
    then show ?thesis using p Store_Part by (simp add: accepted_def storeChunkedTunnelPart_def)
  next
    case i: True
    obtain s' r where e: "storeChunk now k m i c s = (s', r)" by fastforce
    have cl: "parts_ok (cleanupExpiredUploads now s) L" by (rule parts_ok_cleanup [OF ok p])
    from ok i e have "parts_ok s' (L @ (case r of Inr _ \<Rightarrow> [(k, m, i, c)] | Inl _ \<Rightarrow> []))"
    proof (cases rule: storeChunk_cases)
      case (refused err)
      then show ?thesis using cl by simp
    next
      case (stored u u' n)
      have old: "last_part k j L = Some (m, d)" if "j < length (up_chunks u)" "up_chunks u ! j = Some d" for j d
        using stored(10) that cl
        by (cases "jsmap_get (us_uploads (cleanupExpiredUploads now s)) k") (auto simp: parts_ok_def)
      have "last_part k' j (L @ [(k, m, i, c)]) = Some (up_metadata v, d)"
        if v: "jsmap_get (us_uploads s') k' = Some v" "j < length (up_chunks v)" "up_chunks v ! j = Some d" for k' v j d
      proof (cases "k' = k")
        case True
        then have "v = u'" using v(1) stored(4) by simp
        then show ?thesis using True v(2,3) stored(5,8) old by (cases "j = i") (auto simp: last_part_append)
      next
        case False
        then show ?thesis using v stored(4) cl by (auto simp: parts_ok_def last_part_append)
      qed
      then show ?thesis using stored(3) by (auto simp: parts_ok_def)
    qed
    then show ?thesis using e i Store_Part by (simp add: accepted_def storeChunkedTunnelPart_def)
  qed
next
  case (Begin_Commit now k m)
  have "parts_ok (fst (beginCompletedUpload now k m s)) L"
    by (rule parts_ok_sub [OF p]) (metis begin_get [OF ok])
  then show ?thesis by (simp add: Begin_Commit accepted_def)
next
  case (End_Commit now k)
  have "parts_ok (deleteUpload now k s) L"
    by (rule parts_ok_sub [OF p]) (auto simp: delete_get split: if_splits)
  then show ?thesis by (simp add: End_Commit accepted_def)
next
  case (Timer_Fires now)
  have "parts_ok (timer_fires now s) L"
    by (rule parts_ok_sub [OF p]) (auto simp: timer_get [OF ok] split: option.splits if_splits)
  then show ?thesis by (simp add: Timer_Fires accepted_def)
next
  case Dispose
  then show ?thesis by (simp add: accepted_def parts_ok_def dispose_def)
qed

lemma parts_ok_run:
  assumes "upload_ok s" "limits_ok (us_limits s)" "parts_ok s L"
  shows "parts_ok (foldl upload_step s es) (L @ parts_of s es) \<and> upload_ok (foldl upload_step s es)"
  using assms
proof (induction es arbitrary: s L)
  case Nil
  then show ?case by simp
next
  case (Cons e es)
  show ?case
    using Cons.IH [of "upload_step s e" "L @ accepted s e"] Cons.prems
    by (simp add: upload_step_ok upload_step_limits parts_ok_step)
qed

section \<open>A running commit\<close>

fun event_time :: "upload_event \<Rightarrow> int option" where
  "event_time (Store_Part now _ _ _ _) = Some now"
| "event_time (Begin_Commit now _ _) = Some now"
| "event_time (End_Commit now _) = Some now"
| "event_time (Timer_Fires now) = Some now"
| "event_time Dispose = None"

definition leaves_commit :: "js_string \<Rightarrow> int \<Rightarrow> upload_event \<Rightarrow> bool" where
  "leaves_commit k until e \<longleftrightarrow>
     (case e of Dispose \<Rightarrow> False | End_Commit _ k' \<Rightarrow> k' \<noteq> k | _ \<Rightarrow> the (event_time e) < until)"

lemma commit_refuses:
  assumes ok: "upload_ok s" and get: "jsmap_get (us_uploads s) k = Some u" "up_committing u" "now < up_expiresAtMs u"
  shows "\<exists>e. snd (storeChunkedTunnelPart now k m i c s) = Inl e" "\<exists>e. snd (beginCompletedUpload now k m s) = Inl e"
proof -
  have g: "jsmap_get (us_uploads (cleanupExpiredUploads now s)) k = Some u" using get by (simp add: get_cleanup [OF ok])
  obtain s' r where e: "beginCompletedUpload now k m s = (s', r)" by fastforce
  show "\<exists>e. snd (beginCompletedUpload now k m s) = Inl e"
    using begin_cases [OF ok e, of "\<exists>e. r = Inl e"] g get(2) e by auto
  obtain s2 r2 where e2: "storeChunk now k m i c s = (s2, r2)" by fastforce
  show "\<exists>e. snd (storeChunkedTunnelPart now k m i c s) = Inl e"
  proof (cases "i < um_chunkCount m")
    case True
    have "\<exists>e. r2 = Inl e"
      using storeChunk_cases [OF ok True e2, of "\<exists>e. r2 = Inl e"] g get(2) by auto
    then show ?thesis using e2 True by (simp add: storeChunkedTunnelPart_def)
  qed (simp add: storeChunkedTunnelPart_def)
qed

lemma commit_kept_step:
  assumes ok: "upload_ok s" and get: "jsmap_get (us_uploads s) k = Some u" "up_committing u"
    and e: "leaves_commit k (up_expiresAtMs u) e"
  shows "jsmap_get (us_uploads (upload_step s e)) k = Some u"
proof (cases e)
  case (Store_Part now k' m i c)
  then have g: "jsmap_get (us_uploads (cleanupExpiredUploads now s)) k = Some u"
    using e get by (simp add: get_cleanup [OF ok] leaves_commit_def)
  obtain s' r where st: "storeChunk now k' m i c s = (s', r)" by fastforce
  show ?thesis
  proof (cases "i < um_chunkCount m")
    case True
    from ok True st have "jsmap_get (us_uploads s') k = Some u"
    proof (cases rule: storeChunk_cases)
      case (refused err)
      then show ?thesis using g by simp
    next
      case (stored v v' n)
      then show ?thesis using g get(2) by (cases "k' = k") auto
    qed
    then show ?thesis using st True Store_Part by (simp add: storeChunkedTunnelPart_def)
  qed (simp add: Store_Part storeChunkedTunnelPart_def get)
next
  case (Begin_Commit now k' m)
  then have g: "jsmap_get (us_uploads (cleanupExpiredUploads now s)) k = Some u"
    using e get by (simp add: get_cleanup [OF ok] leaves_commit_def)
  obtain s' r where st: "beginCompletedUpload now k' m s = (s', r)" by fastforce
  from ok st have "jsmap_get (us_uploads s') k = Some u"
  proof (cases rule: begin_cases)
    case (refused err)
    then show ?thesis using g by simp
  next
    case (begun v v')
    then show ?thesis using g get(2) by (cases "k' = k") auto
  qed
  then show ?thesis using st Begin_Commit by simp
next
  case (Timer_Fires now)
  then show ?thesis using e get by (simp add: timer_get [OF ok] leaves_commit_def)
qed (use e get in \<open>simp_all add: delete_get leaves_commit_def\<close>)

lemma commit_kept_run:
  assumes "upload_ok s" "limits_ok (us_limits s)" "jsmap_get (us_uploads s) k = Some u" "up_committing u"
    "\<forall>e \<in> set es. leaves_commit k (up_expiresAtMs u) e"
  shows "jsmap_get (us_uploads (foldl upload_step s es)) k = Some u \<and> upload_ok (foldl upload_step s es)"
  using assms
proof (induction es arbitrary: s)
  case Nil
  then show ?case by simp
next
  case (Cons e es)
  then show ?case
    using commit_kept_step [of s k u e] by (simp add: upload_step_ok upload_step_limits)
qed

section \<open>The timer\<close>

definition timer_due :: "int \<Rightarrow> upload_store \<Rightarrow> bool" where
  "timer_due now s =
     (case us_timer s of
        None \<Rightarrow> us_uploads s = []
      | Some t \<Rightarrow> \<forall>(k, u) \<in> set (us_uploads s). t \<le> max now (up_expiresAtMs u))"

lemma timer_due_later: "timer_due now s \<Longrightarrow> now \<le> now' \<Longrightarrow> timer_due now' s"
  by (force simp: timer_due_def split: option.splits)

lemma timer_due_scheduled:
  assumes "us_timer s = Some (max now (Min (set (map (\<lambda>(_, u). up_expiresAtMs u) (us_uploads s)))))"
  shows "timer_due now s"
proof -
  have "Min (set (map (\<lambda>(_, u). up_expiresAtMs u) (us_uploads s))) \<le> up_expiresAtMs u" if "(k, u) \<in> set (us_uploads s)" for k u
    using that by (intro Min_le) force+
  then show ?thesis using assms by (fastforce simp: timer_due_def)
qed

lemma schedule_due: "timer_due now (scheduleCleanup now s)"
proof (cases "us_uploads s = []")
  case True
  then show ?thesis by (simp add: timer_due_def scheduleCleanup_def)
next
  case False
  then show ?thesis by (intro timer_due_scheduled) (simp add: scheduleCleanup_def)
qed

lemma cleanup_due: "timer_due now s \<Longrightarrow> timer_due now (cleanupExpiredUploads now s)"
  by (simp add: cleanupExpiredUploads_def schedule_due)

lemma step_due:
  assumes ok: "upload_ok s" and due: "timer_due now s" and t: "event_time e = Some now \<or> event_time e = None"
  shows "timer_due now (upload_step s e)"
proof (cases e)
  case (Store_Part n k m i c)
  then have n: "n = now" using t by simp
  obtain s' r where st: "storeChunk now k m i c s = (s', r)" by fastforce
  show ?thesis
  proof (cases "i < um_chunkCount m")
    case True
    from ok True st have "timer_due now s'"
      by (cases rule: storeChunk_cases) (auto intro: cleanup_due [OF due] timer_due_scheduled)
    then show ?thesis using st True Store_Part n by (simp add: storeChunkedTunnelPart_def)
  qed (simp add: Store_Part storeChunkedTunnelPart_def due)
next
  case (Begin_Commit n k m)
  then have n: "n = now" using t by simp
  obtain s' r where st: "beginCompletedUpload now k m s = (s', r)" by fastforce
  from ok st have "timer_due now s'"
    by (cases rule: begin_cases) (auto intro: cleanup_due [OF due] timer_due_scheduled)
  then show ?thesis using st Begin_Commit n by simp
next
  case (End_Commit n k)
  have "removeUpload k s = (s, False)" if "\<not> snd (removeUpload k s)"
    using that by (auto simp: removeUpload_def Let_def split: option.splits)
  then show ?thesis using End_Commit t due schedule_due
    by (cases "snd (removeUpload k s)") (simp_all add: deleteUpload_def case_prod_beta)
next
  case (Timer_Fires n)
  then show ?thesis using t by (simp add: timer_fires_def schedule_due)
next
  case Dispose
  then show ?thesis by (simp add: dispose_def timer_due_def)
qed

lemma run_due:
  assumes "upload_ok s" "limits_ok (us_limits s)" "timer_due now s"
    "sorted (now # map (\<lambda>e. the (event_time e)) (filter (\<lambda>e. event_time e \<noteq> None) es))"
  shows "timer_due (last (now # map (\<lambda>e. the (event_time e)) (filter (\<lambda>e. event_time e \<noteq> None) es))) (foldl upload_step s es)"
  using assms
proof (induction es arbitrary: s now)
  case Nil
  then show ?case by simp
next
  case (Cons e es)
  define t where "t = (case event_time e of Some t \<Rightarrow> t | None \<Rightarrow> now)"
  have t: "now \<le> t" "event_time e = Some t \<or> event_time e = None"
    using Cons.prems(4) by (auto simp: t_def split: option.splits)
  have due: "timer_due t (upload_step s e)"
    by (rule step_due [OF Cons.prems(1) timer_due_later [OF Cons.prems(3) t(1)] t(2)])
  have inv: "upload_ok (upload_step s e)" "limits_ok (us_limits (upload_step s e))"
    using Cons.prems(1,2) by (simp_all add: upload_step_ok upload_step_limits)
  show ?case
    using Cons.IH [OF inv due] Cons.prems(4) by (cases "event_time e") (simp_all add: t_def)
qed


section \<open>Properties\<close>

definition held_bytes :: "upload_store \<Rightarrow> int" where
  "held_bytes s = (\<Sum>(_, u) \<leftarrow> us_uploads s. chunks_bytes (up_chunks u))"

text \<open>
  C32: The accounts are the truth and the limits hold.  After any calls, failed ones and expiries
  included, the count of retained bytes is the number of bytes in the chunks that are held, and it,
  the number of uploads, the number of each user's uploads and the size of every body are within
  their limits.
\<close>

theorem upload_limits_hold:
  assumes "limits_ok l" and "s = foldl upload_step (new_store l) es"
  shows "us_retained s = held_bytes s \<and> held_bytes s \<le> ul_maxRetainedBytes l \<and>
    int (length (us_uploads s)) \<le> ul_maxActiveUploads l \<and>
    (\<forall>user. users_get s user = count_with user_of (us_uploads s) user \<and>
            users_get s user \<le> ul_maxActiveUploadsPerUser l) \<and>
    list_all (\<lambda>(_, u). chunks_bytes (up_chunks u) \<le> min (ul_maxBodyBytes l) (um_maxBodyBytes (up_metadata u))) (us_uploads s)"
proof -
  have "upload_ok (new_store l) \<and> limits_ok (us_limits (new_store l))"
    using assms(1) new_store_ok by (simp add: limits_ok_def new_store_def)
  from uploads.run_inv [OF this, of es] have ok: "upload_ok s" and "limits_ok (us_limits s)" using assms(2) by simp_all
  have "us_limits (foldl upload_step t es) = us_limits t" if "upload_ok t" "limits_ok (us_limits t)" for t
    using that by (induction es arbitrary: t) (simp_all add: upload_step_ok upload_step_limits)
  from this [of "new_store l"] have lim: "us_limits s = l"
    using assms new_store_ok by (simp add: limits_ok_def new_store_def)
  have wf: "\<And>k u. (k, u) \<in> set (us_uploads s) \<Longrightarrow> upload_wf l u" using ok lim by (auto simp: upload_ok_def)
  have held: "held_bytes s = total_bytes (us_uploads s)"
    unfolding held_bytes_def total_bytes_def
    by (rule arg_cong [where f = sum_list], rule map_cong [OF refl]) (use wf in \<open>auto simp: upload_wf_def\<close>)
  have users: "users_get s user = count_with user_of (us_uploads s) user" for user
    using ok by (simp add: users_get_def upload_ok_def)
  have bodies: "list_all (\<lambda>(_, u). chunks_bytes (up_chunks u) \<le> min (ul_maxBodyBytes l) (um_maxBodyBytes (up_metadata u))) (us_uploads s)"
  proof -
    have "chunks_bytes (up_chunks u) \<le> min (ul_maxBodyBytes l) (um_maxBodyBytes (up_metadata u))"
      if "(k, u) \<in> set (us_uploads s)" for k u
      using wf [OF that] by (simp add: upload_wf_def)
    then show ?thesis by (fastforce simp: list_all_iff)
  qed
  show ?thesis using ok lim bodies by (simp add: held users upload_ok_def)
qed

text \<open>
  What is forwarded is what was sent.  When a commit begins, its body is, for every position, the
  chunk last accepted for that position of the upload, and every one of them came with the metadata
  of the commit: the same user and session, method, path and number of chunks.
\<close>

theorem commit_forwards_what_was_sent:
  assumes "limits_ok l" and "foldl upload_step (new_store l) es = s"
    and "beginCompletedUpload now k m s = (s', Inr u)"
  shows "length (up_chunks u) = um_chunkCount m \<and>
    (i < um_chunkCount m \<longrightarrow> last_part k i (parts_of (new_store l) es) = Some (m, the (up_chunks u ! i))) \<and>
    commit_body u = concat (map (\<lambda>i. snd (the (last_part k i (parts_of (new_store l) es)))) [0..<um_chunkCount m])"
proof -
  have "upload_ok (new_store l)" using assms(1) new_store_ok by (simp add: limits_ok_def)
  moreover have "parts_ok (new_store l) []" by (simp add: parts_ok_def new_store_def)
  ultimately have p: "parts_ok s (parts_of (new_store l) es)" and ok: "upload_ok s"
    using parts_ok_run [of "new_store l" "[]" es] assms(1,2) by (simp_all add: new_store_def)
  from ok assms(3) obtain v where v: "jsmap_get (us_uploads s) k = Some v" "up_metadata v = m"
    "None \<notin> set (up_chunks v)" "up_chunks u = up_chunks v"
  proof (cases rule: begin_cases)
    case (refused err)
    then show ?thesis by simp
  next
    case (begun v v')
    then have "jsmap_get (us_uploads s) k = Some v"
      by (simp add: get_cleanup [OF ok] split: option.splits if_splits)
    then show ?thesis using begun by (intro that [of v]) simp_all
  qed
  have "upload_wf (us_limits s) v" using ok v(1) by (auto simp: upload_ok_def dest: map_of_SomeD)
  then have len: "length (up_chunks u) = um_chunkCount m" using v by (simp add: upload_wf_def)
  have part: "last_part k i (parts_of (new_store l) es) = Some (m, the (up_chunks u ! i))" if i: "i < um_chunkCount m" for i
  proof -
    have "up_chunks v ! i \<noteq> None" using v(3,4) len i by (metis nth_mem)
    then obtain c where "up_chunks v ! i = Some c" by auto
    then show ?thesis using p v len i by (auto simp: parts_ok_def)
  qed
  have "map the (up_chunks u) = map (\<lambda>i. snd (the (last_part k i (parts_of (new_store l) es)))) [0..<um_chunkCount m]"
    using len part by (intro nth_equalityI) simp_all
  then show ?thesis using len part by (simp add: commit_body_def)
qed

text \<open>
  A commit runs once and undisturbed.  From the moment it begins until it ends or its time is up,
  whatever other calls do, the upload stays as it is, no further part of it is accepted and no other
  commit of it begins.
\<close>

theorem commit_runs_once:
  assumes "limits_ok l" and "foldl upload_step (new_store l) es = s"
    and "beginCompletedUpload now k m s = (s', Inr u)"
    and "\<forall>e \<in> set fs. leaves_commit k (now + ul_ttlMs (us_limits s)) e" and "t < now + ul_ttlMs (us_limits s)"
  shows "jsmap_get (us_uploads (foldl upload_step s' fs)) k = Some u \<and>
    (\<exists>err. snd (storeChunkedTunnelPart t k m' i c (foldl upload_step s' fs)) = Inl err) \<and>
    (\<exists>err. snd (beginCompletedUpload t k m' (foldl upload_step s' fs)) = Inl err)"
proof -
  have "upload_ok (new_store l) \<and> limits_ok (us_limits (new_store l))"
    using assms(1) new_store_ok by (simp add: limits_ok_def new_store_def)
  from uploads.run_inv [OF this, of es] have ok: "upload_ok s" and l: "limits_ok (us_limits s)" using assms(2) by simp_all
  have "upload_ok s' \<and> us_limits s' = us_limits s \<and> jsmap_get (us_uploads s') k = Some u \<and> up_committing u \<and>
      up_expiresAtMs u = now + ul_ttlMs (us_limits s)"
    by (rule begin_cases [OF ok assms(3)]) auto
  then have b: "upload_ok s'" "limits_ok (us_limits s')" "jsmap_get (us_uploads s') k = Some u" "up_committing u"
    "up_expiresAtMs u = now + ul_ttlMs (us_limits s)" using l by simp_all
  have r: "jsmap_get (us_uploads (foldl upload_step s' fs)) k = Some u" "upload_ok (foldl upload_step s' fs)"
    using commit_kept_run [OF b(1-4), of fs] assms(4) b(5) by simp_all
  show ?thesis using r commit_refuses [OF r(2,1) b(4), of t] assms(5) b(5) by simp
qed

text \<open>
  No upload is kept past its time.  After any calls in the order of time, as long as uploads are
  held the timer is set, for no upload later than its expiry, or for now; and when it fires, every
  upload whose time has come is removed.
\<close>

theorem uploads_expire_in_time:
  assumes "limits_ok l" and "sorted (map (\<lambda>e. the (event_time e)) (filter (\<lambda>e. event_time e \<noteq> None) es))"
    and "s = foldl upload_step (new_store l) es"
    and "\<forall>t \<in> set (map (\<lambda>e. the (event_time e)) (filter (\<lambda>e. event_time e \<noteq> None) es)). t \<le> now"
  shows "(case us_timer s of
       None \<Rightarrow> us_uploads s = []
     | Some t \<Rightarrow> list_all (\<lambda>(k, u). t \<le> max now (up_expiresAtMs u)) (us_uploads s)) \<and>
    list_all (\<lambda>(k, u). up_expiresAtMs u > t) (us_uploads (timer_fires t s))"
proof -
  let ?ts = "map (\<lambda>e. the (event_time e)) (filter (\<lambda>e. event_time e \<noteq> None) es)"
  have ok: "upload_ok (new_store l)" "limits_ok (us_limits (new_store l))"
    using assms(1) new_store_ok by (simp_all add: limits_ok_def new_store_def)
  define first where "first = (case ?ts of [] \<Rightarrow> now | t # _ \<Rightarrow> t)"
  have "sorted (first # ?ts)" using assms(2) by (cases ?ts) (simp_all add: first_def)
  moreover have "timer_due first (new_store l)" by (simp add: timer_due_def new_store_def)
  ultimately have "timer_due (last (first # ?ts)) s" using run_due [OF ok, of first es] assms(3) by blast
  moreover have "last (first # ?ts) \<le> now"
  proof (cases "?ts = []")
    case True
    then show ?thesis by (simp add: first_def)
  next
    case False
    then have "last (first # ?ts) \<in> set ?ts" using last_in_set by (metis last_ConsR)
    then show ?thesis using assms(4) by blast
  qed
  ultimately have "timer_due now s" by (rule timer_due_later)
  moreover have "upload_ok s" using uploads.run_inv [of "new_store l" es] ok assms(3) by simp
  then have "us_uploads (timer_fires t s) = filter (\<lambda>(k, u). up_expiresAtMs u > t) (us_uploads s)"
    by (simp add: timer_fires_def cleanup_uploads_ok(3))
  ultimately show ?thesis by (auto simp: timer_due_def list_all_iff split: option.splits)
qed

definition sample_metadata :: upload_metadata where
  "sample_metadata = \<lparr>um_method = ''POST'', um_path = ascii ''/p'', um_contentType = None, um_authHash = ascii ''h'',
     um_authUserKey = ascii ''u'', um_chunkCount = 2, um_maxBodyBytes = 10\<rparr>"

definition sample_events :: "upload_event list" where
  "sample_events = [Store_Part 1 (ascii ''id'') sample_metadata 1 [2], Store_Part 2 (ascii ''id'') sample_metadata 0 [0, 1],
     Store_Part 3 (ascii ''id'') sample_metadata 1 [3, 4]]"

lemma sample_limits_ok: "limits_ok DEFAULT_UPLOAD_LIMITS"
  by code_simp

lemma upload_limits_hold_witness:
  "us_retained (foldl upload_step (new_store DEFAULT_UPLOAD_LIMITS) sample_events) =
     held_bytes (foldl upload_step (new_store DEFAULT_UPLOAD_LIMITS) sample_events)"
  using upload_limits_hold [OF sample_limits_ok refl, of sample_events] by blast

lemma sample_begin:
  "\<exists>u. beginCompletedUpload 4 (ascii ''id'') sample_metadata (foldl upload_step (new_store DEFAULT_UPLOAD_LIMITS) sample_events) =
     (fst (beginCompletedUpload 4 (ascii ''id'') sample_metadata (foldl upload_step (new_store DEFAULT_UPLOAD_LIMITS) sample_events)), Inr u)"
proof -
  have "case snd (beginCompletedUpload 4 (ascii ''id'') sample_metadata (foldl upload_step (new_store DEFAULT_UPLOAD_LIMITS) sample_events))
      of Inr _ \<Rightarrow> True | Inl _ \<Rightarrow> False" by code_simp
  then obtain u where "snd (beginCompletedUpload 4 (ascii ''id'') sample_metadata
      (foldl upload_step (new_store DEFAULT_UPLOAD_LIMITS) sample_events)) = Inr u" by (auto split: sum.splits)
  then show ?thesis by (metis prod.collapse)
qed

lemma commit_forwards_what_was_sent_witness:
  "\<exists>u. commit_body u = [0, 1, 3, 4] \<and>
    snd (beginCompletedUpload 4 (ascii ''id'') sample_metadata (foldl upload_step (new_store DEFAULT_UPLOAD_LIMITS) sample_events)) = Inr u"
proof -
  obtain u where u: "beginCompletedUpload 4 (ascii ''id'') sample_metadata (foldl upload_step (new_store DEFAULT_UPLOAD_LIMITS) sample_events) =
     (fst (beginCompletedUpload 4 (ascii ''id'') sample_metadata (foldl upload_step (new_store DEFAULT_UPLOAD_LIMITS) sample_events)), Inr u)"
    using sample_begin by blast
  have "concat (map (\<lambda>i. snd (the (last_part (ascii ''id'') i (parts_of (new_store DEFAULT_UPLOAD_LIMITS) sample_events))))
      [0..<um_chunkCount sample_metadata]) = [0, 1, 3, 4]" by code_simp
  then have "commit_body u = [0, 1, 3, 4]"
    using commit_forwards_what_was_sent [OF sample_limits_ok refl u, of 0] by simp
  moreover have "snd (beginCompletedUpload 4 (ascii ''id'') sample_metadata (foldl upload_step (new_store DEFAULT_UPLOAD_LIMITS) sample_events)) = Inr u"
    using u by (metis snd_conv)
  ultimately show ?thesis by blast
qed

lemma commit_runs_once_witness:
  "\<exists>err. snd (storeChunkedTunnelPart 6 (ascii ''id'') sample_metadata 0 [9]
    (foldl upload_step (fst (beginCompletedUpload 4 (ascii ''id'') sample_metadata
        (foldl upload_step (new_store DEFAULT_UPLOAD_LIMITS) sample_events))) [End_Commit 5 (ascii ''other'')])) = Inl err"
proof -
  obtain u where u: "beginCompletedUpload 4 (ascii ''id'') sample_metadata (foldl upload_step (new_store DEFAULT_UPLOAD_LIMITS) sample_events) =
     (fst (beginCompletedUpload 4 (ascii ''id'') sample_metadata (foldl upload_step (new_store DEFAULT_UPLOAD_LIMITS) sample_events)), Inr u)"
    using sample_begin by blast
  have ttl: "ul_ttlMs (us_limits (foldl upload_step (new_store DEFAULT_UPLOAD_LIMITS) sample_events)) = 180000" by code_simp
  have other: "ascii ''other'' \<noteq> ascii ''id''" by code_simp
  show ?thesis
    using commit_runs_once [OF sample_limits_ok refl u, of "[End_Commit 5 (ascii ''other'')]" 6 sample_metadata 0 "[9]"]
    by (simp add: ttl other leaves_commit_def)
qed

lemma uploads_expire_in_time_witness:
  "list_all (\<lambda>(k, u). up_expiresAtMs u > 200000)
     (us_uploads (timer_fires 200000 (foldl upload_step (new_store DEFAULT_UPLOAD_LIMITS) sample_events)))"
  using uploads_expire_in_time [OF sample_limits_ok _ refl, of sample_events 3 200000]
  by (simp add: sample_events_def)

end
