(* ===== verification/Rule_Sanction.thy ===== *)
theory Rule_Sanction
  imports JS_Values Complex_Main "HOL-Library.Multiset"
begin

text \<open>
  \<^verbatim>\<open>apps/api/src/moderation/moderation-rule-followup-sanction.ts\<close> and the journal, the
  leases and the attempts of \<^verbatim>\<open>moderation-rule-followup.service.ts\<close>: the sanction that follows
  a deleted message is carried out once, by attempts that may crash, lose their lease or overlap.

  \<^item> A follow-up is one row.  Every statement of the sources that changes it is one atomic function of
    the row and of the database's clock; the plan is frozen in the row before the attempts start.
    \<^verbatim>\<open>finish\<close> also empties the lease's expiry, which is only read of a row in progress.
  \<^item> An attempt runs \<^verbatim>\<open>executeRuleFollowupSanction\<close>.  It is cut at its waits: \<open>attempt_pc\<close> is the wait
    it is at and \<open>execute_step\<close> goes on to the next one.  What the calls of the
    messenger, the ledger and the other services answer is an argument.
    The call that persists the event (\<^verbatim>\<open>persistDeterministicEvent\<close> of the moderation service) also writes the
    committed phase in its own transaction; the row takes it at the checkpoint \<open>commitSqlEvent\<close> that follows.
  \<^item> \<open>followup_step\<close> interleaves any number of attempts; an attempt that makes no further step has crashed.
\<close>

section \<open>Plans and states\<close>

datatype sanction_action = No_Action | Warn | Mute | Ban

record sanction_plan =
  pl_action :: sanction_action
  pl_issuedAtMs :: int
  pl_muteExpiresAtMs :: "int option"
  pl_muteDurationHours :: rat
  pl_eventId :: js_string
  pl_noticeKey :: js_string

datatype sanction_phase = Unstarted | Ban_Started | Ban_Confirmed | Unknown_Outcome | Sql_Committed | Settled

record sanction_state =
  ss_phase :: sanction_phase
  ss_banBotId :: "js_string option"
  ss_eventId :: "js_string option"

datatype ban_outcome = Confirmed "js_string option" | No_Effect | Unknown

definition assertPlan :: "sanction_plan \<Rightarrow> bool" where
  "assertPlan p \<longleftrightarrow>
     pl_issuedAtMs p > 0 \<and> trim (pl_eventId p) \<noteq> [] \<and> trim (pl_noticeKey p) \<noteq> [] \<and>
     pl_muteDurationHours p \<ge> 0 \<and>
     (pl_action p = Mute \<longrightarrow>
        pl_muteDurationHours p > 0 \<and>
        (case pl_muteExpiresAtMs p of Some e \<Rightarrow> e > pl_issuedAtMs p | None \<Rightarrow> False))"

definition assertState :: "sanction_state \<Rightarrow> sanction_plan \<Rightarrow> bool" where
  "assertState s p \<longleftrightarrow>
     \<not> (ss_phase s \<in> {Ban_Started, Ban_Confirmed, Unknown_Outcome} \<and> pl_action p \<noteq> Ban) \<and>
     \<not> (ss_phase s \<in> {Sql_Committed, Settled} \<and> ss_eventId s \<noteq> Some (pl_eventId p)) \<and>
     (case ss_banBotId s of Some b \<Rightarrow> trim b \<noteq> [] | None \<Rightarrow> True)"

section \<open>The row\<close>

datatype followup_status =
    Waiting_Delete | Ready | Retryable | In_Progress | Completed | Cancelled | Expired | Ambiguous

datatype reputation = Rep_Started | Rep_Done

record followup_row =
  fr_status :: followup_status
  fr_leaseToken :: "js_string option"
  fr_leaseExpiresAt :: int
  fr_nextAttemptAt :: int
  fr_deadlineAt :: int
  fr_state :: sanction_state
  fr_reputation :: "reputation option"

text \<open>\<open>held\<close>: the message is set aside by an operator's hold.\<close>

definition claim_row :: "int \<Rightarrow> bool \<Rightarrow> bool \<Rightarrow> js_string \<Rightarrow> followup_row \<Rightarrow> followup_row option" where
  "claim_row now held receiptOnly token row =
     (if \<not> held \<and>
         (fr_status row \<in> {Ready, Retryable} \<and> fr_nextAttemptAt row \<le> now \<or>
          fr_status row = In_Progress \<and> fr_leaseExpiresAt row \<le> now \<or>
          receiptOnly \<and> fr_status row = Ambiguous \<and> fr_nextAttemptAt row \<le> now)
      then Some (row\<lparr>fr_status := In_Progress, fr_leaseToken := Some token, fr_leaseExpiresAt := now + 30000\<rparr>)
      else None)"

text \<open>What the sweep of ambiguous rows asks before it tries one.\<close>

definition receipt_recoverable :: "sanction_plan \<Rightarrow> followup_row \<Rightarrow> bool" where
  "receipt_recoverable p row \<longleftrightarrow>
     pl_action p = Ban \<and> ss_phase (fr_state row) \<in> {Unknown_Outcome, Ban_Started, Ban_Confirmed}"

definition postpone_row :: "int \<Rightarrow> followup_row \<Rightarrow> followup_row" where
  "postpone_row now row = (if fr_status row = Ambiguous then row\<lparr>fr_nextAttemptAt := now + 60000\<rparr> else row)"

definition expire_row :: "int \<Rightarrow> bool \<Rightarrow> followup_row \<Rightarrow> followup_row" where
  "expire_row now held row =
     (if fr_status row \<in> {Waiting_Delete, Ready, Retryable} \<and> fr_deadlineAt row \<le> now \<and> \<not> held \<and>
         ss_phase (fr_state row) = Unstarted
      then row\<lparr>fr_status := Expired\<rparr> else row)"

definition lease_live :: "int \<Rightarrow> js_string \<Rightarrow> followup_row \<Rightarrow> bool" where
  "lease_live now token row \<longleftrightarrow>
     fr_status row = In_Progress \<and> fr_leaseToken row = Some token \<and> fr_leaseExpiresAt row > now"

definition renew_row :: "int \<Rightarrow> js_string \<Rightarrow> followup_row \<Rightarrow> followup_row" where
  "renew_row now token row = (if lease_live now token row then row\<lparr>fr_leaseExpiresAt := now + 30000\<rparr> else row)"

definition finish_row :: "int \<Rightarrow> js_string \<Rightarrow> followup_status \<Rightarrow> followup_row \<Rightarrow> followup_row" where
  "finish_row now token status row =
     (if fr_status row = In_Progress \<and> fr_leaseToken row = Some token
      then row\<lparr>fr_status := status, fr_leaseToken := None,
               fr_nextAttemptAt := now + (if status = Ambiguous then 60000 else 1000)\<rparr>
      else row)"

text \<open>The checkpoints of the journal: the new row, if the statement finds it.\<close>

definition patch ::
    "int \<Rightarrow> js_string \<Rightarrow> (sanction_state \<Rightarrow> sanction_state) \<Rightarrow> sanction_phase option \<Rightarrow> followup_row \<Rightarrow>
       followup_row option" where
  "patch now token f expected row =
     (if lease_live now token row \<and> (case expected of Some ph \<Rightarrow> ss_phase (fr_state row) = ph | None \<Rightarrow> True)
      then Some (row\<lparr>fr_state := f (fr_state row)\<rparr>) else None)"

definition beginBan :: "int \<Rightarrow> js_string \<Rightarrow> followup_row \<Rightarrow> followup_row option" where
  "beginBan now token = patch now token (\<lambda>s. s\<lparr>ss_phase := Ban_Started\<rparr>) (Some Unstarted)"

definition confirmBan :: "int \<Rightarrow> js_string \<Rightarrow> js_string option \<Rightarrow> followup_row \<Rightarrow> followup_row option" where
  "confirmBan now token botId = patch now token (\<lambda>s. s\<lparr>ss_phase := Ban_Confirmed, ss_banBotId := botId\<rparr>) None"

definition resetAfterProvenNoEffect :: "int \<Rightarrow> js_string \<Rightarrow> followup_row \<Rightarrow> followup_row option" where
  "resetAfterProvenNoEffect now token = patch now token (\<lambda>s. s\<lparr>ss_phase := Unstarted\<rparr>) None"

definition markUnknown :: "int \<Rightarrow> js_string \<Rightarrow> followup_row \<Rightarrow> followup_row option" where
  "markUnknown now token = patch now token (\<lambda>s. s\<lparr>ss_phase := Unknown_Outcome\<rparr>) None"

definition commitSqlEvent :: "int \<Rightarrow> js_string \<Rightarrow> js_string \<Rightarrow> followup_row \<Rightarrow> followup_row option" where
  "commitSqlEvent now token eventId =
     patch now token (\<lambda>s. s\<lparr>ss_phase := Sql_Committed, ss_eventId := Some eventId\<rparr>) None"

definition settle :: "int \<Rightarrow> js_string \<Rightarrow> followup_row \<Rightarrow> followup_row option" where
  "settle now token = patch now token (\<lambda>s. s\<lparr>ss_phase := Settled\<rparr>) None"

definition claimReputation :: "int \<Rightarrow> js_string \<Rightarrow> followup_row \<Rightarrow> followup_row option" where
  "claimReputation now token row =
     (if lease_live now token row \<and> fr_reputation row = None
      then Some (row\<lparr>fr_reputation := Some Rep_Started\<rparr>) else None)"

definition completeReputation :: "int \<Rightarrow> js_string \<Rightarrow> followup_row \<Rightarrow> followup_row option" where
  "completeReputation now token row =
     (if lease_live now token row then Some (row\<lparr>fr_reputation := Some Rep_Done\<rparr>) else None)"

section \<open>An attempt\<close>

datatype sanction_error =
    Outcome_Unknown_Error | Deferred_Error | Invalid_Error | Rejected_Error | Other_Error (ambiguous_send: bool)

text \<open>
  The waits of \<^verbatim>\<open>executeRuleFollowupSanction\<close>, in its order.  From \<open>P_Ban_Lease\<close> to
  \<open>P_Ban_Sent\<close> the call of \<^verbatim>\<open>ban\<close> runs: it checks with \<^verbatim>\<open>beforeMutation\<close>, sends and answers; in
  \<open>P_Ban_Failed\<close> it, or the \<^verbatim>\<open>catch\<close> around it, looks for a receipt instead.
\<close>

datatype attempt_pc =
    P_Start | P_Read | P_Recover_Unknown | P_Recover
  | P_Authorize | P_Auth_Lease | P_Begin
  | P_Ban_Lease | P_Ban_Authorize | P_Ban_Send | P_Ban_Sent | P_Ban_Failed
  | P_Settle ban_outcome | P_Settle_Write ban_outcome
  | P_Persist_Lease | P_Persist | P_Commit
  | P_Effect_Lease | P_Remember | P_Claim_Reputation | P_Record_Reputation | P_Complete_Reputation
  | P_Notice_Lease | P_Notice | P_Settle_Row
  | P_Returned bool | P_Threw sanction_error

text \<open>What the awaited call does: it throws, returns, returns a value, or the request goes out.\<close>

datatype answer = Throws | Says bool | Ban_Says ban_outcome | Event_Says js_string | Sends

datatype effect =
    Begun js_string | Dispatched js_string | Answered js_string ban_outcome | Reset js_string
  | Event_Persisted js_string | Reputation_Claimed js_string | Reputation_Recorded js_string | Notice_Sent js_string

definition lost :: attempt_pc where "lost = P_Threw (Other_Error False)"

definition after_read :: "sanction_plan \<Rightarrow> sanction_state \<Rightarrow> attempt_pc" where
  "after_read p s =
     (if \<not> assertState s p then P_Threw Invalid_Error
      else (case ss_phase s of
              Settled \<Rightarrow> P_Returned True
            | Unknown_Outcome \<Rightarrow> P_Recover_Unknown
            | Ban_Started \<Rightarrow> P_Recover
            | Unstarted \<Rightarrow> P_Authorize
            | Ban_Confirmed \<Rightarrow> P_Persist_Lease
            | Sql_Committed \<Rightarrow> P_Effect_Lease))"

text \<open>A checkpoint that finds no row throws.\<close>

definition checkpoint ::
    "followup_row \<Rightarrow> followup_row option \<Rightarrow> attempt_pc \<Rightarrow> attempt_pc \<Rightarrow> effect list \<Rightarrow>
       followup_row \<times> attempt_pc \<times> effect list" where
  "checkpoint row row' good bad effects = (case row' of Some r \<Rightarrow> (r, good, effects) | None \<Rightarrow> (row, bad, []))"

definition with_lease ::
    "int \<Rightarrow> js_string \<Rightarrow> followup_row \<Rightarrow> attempt_pc \<Rightarrow> followup_row \<times> attempt_pc \<times> effect list" where
  "with_lease now token row good = (row, if lease_live now token row then good else lost, [])"

definition settle_write ::
    "int \<Rightarrow> js_string \<Rightarrow> ban_outcome \<Rightarrow> followup_row \<Rightarrow> followup_row \<times> attempt_pc \<times> effect list" where
  "settle_write now token outcome row =
     (case outcome of
        Confirmed botId \<Rightarrow> checkpoint row (confirmBan now token botId row) P_Persist_Lease lost []
      | No_Effect \<Rightarrow>
          checkpoint row (resetAfterProvenNoEffect now token row) (P_Threw Deferred_Error) lost [Reset token]
      | Unknown \<Rightarrow> checkpoint row (markUnknown now token row) (P_Threw Outcome_Unknown_Error) lost [])"

definition ban_step ::
    "int \<Rightarrow> js_string \<Rightarrow> answer \<Rightarrow> attempt_pc \<Rightarrow> followup_row \<Rightarrow> attempt_pc \<times> effect list" where
  "ban_step now token a pc row =
     (case a of
        Ban_Says outcome \<Rightarrow> (P_Settle outcome, [Answered token outcome])
      | Throws \<Rightarrow> (if pc = P_Ban_Failed then lost else P_Ban_Failed, [])
      | Says allowed \<Rightarrow>
          (case pc of
             P_Ban_Lease \<Rightarrow> (if lease_live now token row then P_Ban_Authorize else P_Ban_Failed, [])
           | P_Ban_Authorize \<Rightarrow> (if allowed then P_Ban_Send else P_Ban_Failed, [])
           | _ \<Rightarrow> (pc, []))
      | Sends \<Rightarrow> if pc = P_Ban_Send then (P_Ban_Sent, [Dispatched token]) else (pc, [])
      | Event_Says _ \<Rightarrow> (pc, []))"

definition execute_step ::
    "sanction_plan \<Rightarrow> int \<Rightarrow> js_string \<Rightarrow> answer \<Rightarrow> followup_row \<Rightarrow> attempt_pc \<Rightarrow>
       followup_row \<times> attempt_pc \<times> effect list" where
  "execute_step p now token a row pc =
     (case pc of
        P_Start \<Rightarrow>
          if \<not> assertPlan p then (row, P_Threw Invalid_Error, []) else with_lease now token row P_Read
      | P_Read \<Rightarrow> with_lease now token row (after_read p (fr_state row))
      | P_Recover_Unknown \<Rightarrow>
          (case a of
             Ban_Says (Confirmed b) \<Rightarrow> (row, P_Settle (Confirmed b), [Answered token (Confirmed b)])
           | Ban_Says outcome \<Rightarrow> (row, P_Threw Outcome_Unknown_Error, [Answered token outcome])
           | _ \<Rightarrow> (row, lost, []))
      | P_Recover \<Rightarrow>
          (case a of
             Ban_Says outcome \<Rightarrow> (row, P_Settle outcome, [Answered token outcome])
           | _ \<Rightarrow> (row, lost, []))
      | P_Authorize \<Rightarrow>
          (case a of
             Says allowed \<Rightarrow> (row, if allowed then P_Auth_Lease else P_Returned False, [])
           | _ \<Rightarrow> (row, lost, []))
      | P_Auth_Lease \<Rightarrow> with_lease now token row (if pl_action p = Ban then P_Begin else P_Persist_Lease)
      | P_Begin \<Rightarrow> checkpoint row (beginBan now token row) P_Ban_Lease (P_Threw Deferred_Error) [Begun token]
      | P_Ban_Lease \<Rightarrow> (row, ban_step now token a pc row)
      | P_Ban_Authorize \<Rightarrow> (row, ban_step now token a pc row)
      | P_Ban_Send \<Rightarrow> (row, ban_step now token a pc row)
      | P_Ban_Sent \<Rightarrow> (row, ban_step now token a pc row)
      | P_Ban_Failed \<Rightarrow> (row, ban_step now token a pc row)
      | P_Settle outcome \<Rightarrow> with_lease now token row (P_Settle_Write outcome)
      | P_Settle_Write outcome \<Rightarrow> settle_write now token outcome row
      | P_Persist_Lease \<Rightarrow> with_lease now token row P_Persist
      | P_Persist \<Rightarrow>
          (case a of
             Event_Says eventId \<Rightarrow>
               (row, if eventId = pl_eventId p then P_Commit else lost, [Event_Persisted token])
           | _ \<Rightarrow> (row, lost, []))
      | P_Commit \<Rightarrow> checkpoint row (commitSqlEvent now token (pl_eventId p) row) P_Effect_Lease lost []
      | P_Effect_Lease \<Rightarrow>
          with_lease now token row (if pl_action p \<in> {Mute, Ban} then P_Remember else P_Notice_Lease)
      | P_Remember \<Rightarrow>
          (case a of
             Says _ \<Rightarrow> (row, if pl_action p = Ban then P_Claim_Reputation else P_Notice_Lease, [])
           | _ \<Rightarrow> (row, lost, []))
      | P_Claim_Reputation \<Rightarrow>
          (if \<not> lease_live now token row then (row, lost, [])
           else checkpoint row (claimReputation now token row) P_Record_Reputation P_Notice_Lease
                  [Reputation_Claimed token])
      | P_Record_Reputation \<Rightarrow>
          (case a of
             Says _ \<Rightarrow> (row, P_Complete_Reputation, [Reputation_Recorded token])
           | _ \<Rightarrow> (row, lost, []))
      | P_Complete_Reputation \<Rightarrow> checkpoint row (completeReputation now token row) P_Notice_Lease lost []
      | P_Notice_Lease \<Rightarrow> with_lease now token row P_Notice
      | P_Notice \<Rightarrow>
          (case a of
             Says _ \<Rightarrow> (row, P_Settle_Row, [Notice_Sent token])
           | _ \<Rightarrow> (row, lost, []))
      | P_Settle_Row \<Rightarrow> checkpoint row (settle now token row) (P_Returned True) lost []
      | P_Returned b \<Rightarrow> (row, pc, [])
      | P_Threw e \<Rightarrow> (row, pc, []))"

text \<open>How \<^verbatim>\<open>executeAttempt\<close> leaves the row after an error, for the phase it reads.\<close>

definition failed_status :: "bool \<Rightarrow> sanction_error \<Rightarrow> sanction_phase \<Rightarrow> followup_status" where
  "failed_status executionStarted e ph =
     (if e = Outcome_Unknown_Error \<or> (executionStarted \<and> e = Other_Error True) \<or> ph \<in> {Ban_Started, Unknown_Outcome}
      then Ambiguous
      else if e = Rejected_Error \<or> e = Invalid_Error then Cancelled
      else Retryable)"

section \<open>Attempts in flight\<close>

record followup_system =
  fs_now :: int
  fs_row :: followup_row
  fs_attempts :: "js_string \<Rightarrow> attempt_pc option"
  fs_log :: "effect list"

definition put_step :: "js_string \<Rightarrow> followup_row \<times> attempt_pc \<times> effect list \<Rightarrow> followup_system \<Rightarrow> followup_system" where
  "put_step token r y =
     (case r of (row, pc, effects) \<Rightarrow>
        y\<lparr>fs_row := row, fs_attempts := (fs_attempts y)(token \<mapsto> pc), fs_log := fs_log y @ effects\<rparr>)"

text \<open>
  A step whose answer is lost has its effect and throws.  A token is new with every claim
  (\<^verbatim>\<open>randomUUID\<close>).
\<close>

inductive followup_step :: "sanction_plan \<Rightarrow> followup_system \<Rightarrow> followup_system \<Rightarrow> bool" for p where
  time_passes: "now \<ge> fs_now y \<Longrightarrow> followup_step p y (y\<lparr>fs_now := now\<rparr>)"
| sweeps: "followup_step p y (y\<lparr>fs_row := expire_row (fs_now y) held (fs_row y)\<rparr>)"
| postpones: "followup_step p y (y\<lparr>fs_row := postpone_row (fs_now y) (fs_row y)\<rparr>)"
| becomes_ready: "fr_status (fs_row y) = Waiting_Delete \<Longrightarrow>
    followup_step p y (y\<lparr>fs_row := (fs_row y)\<lparr>fr_status := Ready, fr_nextAttemptAt := fs_now y\<rparr>\<rparr>)"
| claims: "fs_attempts y token = None \<Longrightarrow> claim_row (fs_now y) held receiptOnly token (fs_row y) = Some row \<Longrightarrow>
    receiptOnly \<longrightarrow> receipt_recoverable p (fs_row y) \<Longrightarrow>
    followup_step p y (y\<lparr>fs_row := row, fs_attempts := (fs_attempts y)(token \<mapsto> P_Start)\<rparr>)"
| renews: "fs_attempts y token = Some pc \<Longrightarrow>
    followup_step p y (y\<lparr>fs_row := renew_row (fs_now y) token (fs_row y)\<rparr>)"
| runs: "fs_attempts y token = Some pc \<Longrightarrow>
    followup_step p y (put_step token (execute_step p (fs_now y) token a (fs_row y) pc) y)"
| runs_unanswered: "fs_attempts y token = Some pc \<Longrightarrow>
    execute_step p (fs_now y) token a (fs_row y) pc = (row, pc', effects) \<Longrightarrow>
    followup_step p y (put_step token (row, P_Threw e, effects) y)"
| finishes: "fs_attempts y token = Some (P_Returned b) \<Longrightarrow>
    followup_step p y (y\<lparr>fs_row := finish_row (fs_now y) token Completed (fs_row y)\<rparr>)"
| fails: "fs_attempts y token = Some (P_Threw e) \<Longrightarrow> lease_live (fs_now y) token (fs_row y) \<Longrightarrow>
    followup_step p y (y\<lparr>fs_row := finish_row (fs_now y) token
        (failed_status started e (ss_phase (fr_state (fs_row y)))) (fs_row y)\<rparr>)"

inductive followup_reaches :: "sanction_plan \<Rightarrow> followup_system \<Rightarrow> followup_system \<Rightarrow> bool" for p where
  here: "followup_reaches p y y"
| step: "followup_reaches p y z \<Longrightarrow> followup_step p z w \<Longrightarrow> followup_reaches p y w"

definition followup_start :: "int \<Rightarrow> int \<Rightarrow> followup_system" where
  "followup_start now deadline =
     \<lparr>fs_now = now,
      fs_row = \<lparr>fr_status = Waiting_Delete, fr_leaseToken = None, fr_leaseExpiresAt = 0, fr_nextAttemptAt = 0,
                fr_deadlineAt = deadline, fr_state = \<lparr>ss_phase = Unstarted, ss_banBotId = None, ss_eventId = None\<rparr>,
                fr_reputation = None\<rparr>,
      fs_attempts = \<lambda>_. None, fs_log = []\<rparr>"

section \<open>What the log holds\<close>

fun begun_token :: "effect \<Rightarrow> js_string option" where
  "begun_token (Begun t) = Some t" | "begun_token _ = None"
fun dispatched_token :: "effect \<Rightarrow> js_string option" where
  "dispatched_token (Dispatched t) = Some t" | "dispatched_token _ = None"
fun refused_token :: "effect \<Rightarrow> js_string option" where
  "refused_token (Answered t No_Effect) = Some t" | "refused_token _ = None"
fun reset_token :: "effect \<Rightarrow> js_string option" where
  "reset_token (Reset t) = Some t" | "reset_token _ = None"
fun claimed_token :: "effect \<Rightarrow> js_string option" where
  "claimed_token (Reputation_Claimed t) = Some t" | "claimed_token _ = None"
fun recorded_token :: "effect \<Rightarrow> js_string option" where
  "recorded_token (Reputation_Recorded t) = Some t" | "recorded_token _ = None"

definition acts :: "(effect \<Rightarrow> js_string option) \<Rightarrow> effect list \<Rightarrow> js_string multiset" where
  "acts f efs = mset (List.map_filter f efs)"

lemma acts_append [simp]: "acts f (xs @ ys) = acts f xs + acts f ys"
  by (simp add: acts_def List.map_filter_def)

lemma acts_Nil [simp]: "acts f [] = {#}"
  by (simp add: acts_def List.map_filter_def)

lemma acts_Cons [simp]: "acts f (e # es) = (case f e of None \<Rightarrow> {#} | Some t \<Rightarrow> {#t#}) + acts f es"
  by (simp add: acts_def List.map_filter_def split: option.split)

definition confirmed_answer :: "effect list \<Rightarrow> bool" where
  "confirmed_answer efs \<longleftrightarrow> (\<exists>e \<in> set efs. case e of Answered t (Confirmed b) \<Rightarrow> True | _ \<Rightarrow> False)"

lemma confirmed_append [simp]: "confirmed_answer (xs @ ys) \<longleftrightarrow> confirmed_answer xs \<or> confirmed_answer ys"
  by (auto simp: confirmed_answer_def)

lemma confirmed_Nil [simp]: "\<not> confirmed_answer []"
  by (simp add: confirmed_answer_def)

lemma confirmed_Cons [simp]:
  "confirmed_answer (e # es) \<longleftrightarrow> (case e of Answered t (Confirmed b) \<Rightarrow> True | _ \<Rightarrow> False) \<or> confirmed_answer es"
  by (simp add: confirmed_answer_def)

text \<open>The effects that must follow a confirmation.\<close>

fun after_ban :: "effect \<Rightarrow> bool" where
  "after_ban (Event_Persisted _) = True"
| "after_ban (Reputation_Claimed _) = True"
| "after_ban (Reputation_Recorded _) = True"
| "after_ban (Notice_Sent _) = True"
| "after_ban _ = False"

section \<open>The fence\<close>

text \<open>The phases the row can be in while the attempt that holds its lease is at a wait.\<close>

fun phase_ok :: "sanction_plan \<Rightarrow> attempt_pc \<Rightarrow> sanction_phase \<Rightarrow> bool" where
  "phase_ok p P_Start ph = True"
| "phase_ok p P_Read ph = True"
| "phase_ok p P_Recover_Unknown ph = (ph = Unknown_Outcome)"
| "phase_ok p P_Recover ph = (ph = Ban_Started)"
| "phase_ok p P_Authorize ph = (ph = Unstarted)"
| "phase_ok p P_Auth_Lease ph = (ph = Unstarted)"
| "phase_ok p P_Begin ph = (ph = Unstarted \<and> pl_action p = Ban)"
| "phase_ok p P_Ban_Lease ph = (ph = Ban_Started)"
| "phase_ok p P_Ban_Authorize ph = (ph = Ban_Started)"
| "phase_ok p P_Ban_Send ph = (ph = Ban_Started)"
| "phase_ok p P_Ban_Sent ph = (ph = Ban_Started)"
| "phase_ok p P_Ban_Failed ph = (ph = Ban_Started)"
| "phase_ok p (P_Settle r) ph = (ph = Ban_Started \<or> ph = Unknown_Outcome \<and> r \<noteq> No_Effect \<and> r \<noteq> Unknown)"
| "phase_ok p (P_Settle_Write r) ph = (ph = Ban_Started \<or> ph = Unknown_Outcome \<and> r \<noteq> No_Effect \<and> r \<noteq> Unknown)"
| "phase_ok p P_Persist_Lease ph = (ph = Ban_Confirmed \<or> ph = Unstarted \<and> pl_action p \<noteq> Ban)"
| "phase_ok p P_Persist ph = (ph = Ban_Confirmed \<or> ph = Unstarted \<and> pl_action p \<noteq> Ban)"
| "phase_ok p P_Commit ph = (ph = Ban_Confirmed \<or> ph = Unstarted \<and> pl_action p \<noteq> Ban)"
| "phase_ok p (P_Returned b) ph = (if b then ph = Settled else ph = Unstarted)"
| "phase_ok p (P_Threw e) ph = True"
| "phase_ok p _ ph = (ph = Sql_Committed)"

definition fenced :: "sanction_plan \<Rightarrow> followup_row \<Rightarrow> (js_string \<Rightarrow> attempt_pc option) \<Rightarrow> bool" where
  "fenced p row att \<longleftrightarrow>
     (\<forall>t. fr_leaseToken row = Some t \<longrightarrow>
        (\<exists>pc. att t = Some pc \<and> phase_ok p pc (ss_phase (fr_state row)))) \<and>
     (ss_phase (fr_state row) \<in> {Ban_Started, Ban_Confirmed, Unknown_Outcome} \<longrightarrow> pl_action p = Ban) \<and>
     (ss_phase (fr_state row) \<in> {Ban_Started, Unknown_Outcome} \<longrightarrow> fr_status row \<in> {In_Progress, Ambiguous}) \<and>
     (fr_status row = Completed \<longrightarrow> ss_phase (fr_state row) \<in> {Settled, Unstarted})"

lemmas checkpoint_defs =
  checkpoint_def with_lease_def settle_write_def ban_step_def beginBan_def confirmBan_def
  resetAfterProvenNoEffect_def markUnknown_def commitSqlEvent_def settle_def claimReputation_def
  completeReputation_def patch_def lost_def

text \<open>Only the attempt whose lease is live changes the row, and it keeps the lease.\<close>

lemma execute_row:
  assumes "execute_step p now token a row pc = (row', pc', es)"
  shows "row' = row \<or>
    lease_live now token row \<and> fr_status row' = In_Progress \<and> fr_leaseToken row' = Some token"
  using assms
  by (cases pc; auto simp: execute_step_def checkpoint_defs lease_live_def
        split: if_splits option.splits answer.splits ban_outcome.splits)

lemma execute_phase:
  assumes "execute_step p now token a row pc = (row', pc', es)"
    and "phase_ok p pc (ss_phase (fr_state row))"
  shows "phase_ok p pc' (ss_phase (fr_state row'))"
  using assms
  by (cases pc; auto simp: execute_step_def checkpoint_defs after_read_def
        split: if_splits option.splits answer.splits ban_outcome.splits sanction_phase.splits)

lemma execute_phase_change:
  assumes "execute_step p now token a row pc = (row', pc', es)"
  shows "ss_phase (fr_state row') = ss_phase (fr_state row) \<or> ss_phase (fr_state row') \<in> {Sql_Committed, Settled} \<or>
    pc = P_Begin \<or> (\<exists>r. pc = P_Settle_Write r)"
  using assms
  by (cases pc; auto simp: execute_step_def checkpoint_defs
        split: if_splits option.splits answer.splits ban_outcome.splits)

lemma execute_ban_only:
  assumes step: "execute_step p now token a row pc = (row', pc', es)"
    and ban: "ss_phase (fr_state row) \<in> {Ban_Started, Ban_Confirmed, Unknown_Outcome} \<longrightarrow> pl_action p = Ban"
    and ok: "phase_ok p pc (ss_phase (fr_state row))"
  shows "ss_phase (fr_state row') \<in> {Ban_Started, Ban_Confirmed, Unknown_Outcome} \<longrightarrow> pl_action p = Ban"
  using execute_phase_change [OF step] ban ok by auto

lemma execute_fenced:
  assumes step: "execute_step p now token a row pc = (row', pc', es)"
    and inv: "fenced p row att" and pc: "att token = Some pc"
  shows "fenced p row' (att(token \<mapsto> pc'))"
proof (cases "fr_leaseToken row = Some token")
  case True
  then have ok: "phase_ok p pc (ss_phase (fr_state row))" using inv pc unfolding fenced_def by auto
  have ok': "phase_ok p pc' (ss_phase (fr_state row'))" using execute_phase [OF step ok] .
  have old: "ss_phase (fr_state row) \<in> {Ban_Started, Ban_Confirmed, Unknown_Outcome} \<longrightarrow> pl_action p = Ban"
    using inv unfolding fenced_def by blast
  note ban = execute_ban_only [OF step old ok]
  from execute_row [OF step] show ?thesis
  proof
    assume "row' = row"
    then show ?thesis using inv ok' True unfolding fenced_def by simp
  next
    assume new: "lease_live now token row \<and> fr_status row' = In_Progress \<and> fr_leaseToken row' = Some token"
    show ?thesis unfolding fenced_def
    proof (intro conjI)
      show "\<forall>t. fr_leaseToken row' = Some t \<longrightarrow>
          (\<exists>q. (att(token \<mapsto> pc')) t = Some q \<and> phase_ok p q (ss_phase (fr_state row')))"
        using new ok' by simp
    qed (use ban new in simp_all)
  qed
next
  case False
  then have "row' = row" using execute_row [OF step] unfolding lease_live_def by blast
  then show ?thesis using False inv unfolding fenced_def by auto
qed

lemma fenced_throw: "fenced p row (att(t \<mapsto> pc)) \<Longrightarrow> fenced p row (att(t \<mapsto> P_Threw e))"
  by (auto simp: fenced_def split: if_splits)

text \<open>The bookkeeping of the log, per attempt and for the row.\<close>

definition pending :: "attempt_pc set \<Rightarrow> attempt_pc option \<Rightarrow> nat" where
  "pending pcs o' = (case o' of Some pc \<Rightarrow> if pc \<in> pcs then 1 else 0 | None \<Rightarrow> 0)"

definition paired ::
    "attempt_pc set \<Rightarrow> (effect \<Rightarrow> js_string option) \<Rightarrow> (effect \<Rightarrow> js_string option) \<Rightarrow>
       (js_string \<Rightarrow> attempt_pc option) \<Rightarrow> effect list \<Rightarrow> bool" where
  "paired pcs late early att efs \<longleftrightarrow>
     (\<forall>t. count (acts late efs) t + pending pcs (att t) \<le> count (acts early efs) t)"

lemma paired_size: "paired pcs late early att efs \<Longrightarrow> size (acts late efs) \<le> size (acts early efs)"
  by (rule size_mset_mono) (auto simp: paired_def subseteq_mset_def intro: order_trans [OF le_add1])

lemma paired_throw:
  "paired pcs late early (att(t \<mapsto> pc)) efs \<Longrightarrow> (\<forall>e. P_Threw e \<notin> pcs) \<Longrightarrow>
   paired pcs late early (att(t \<mapsto> P_Threw e)) efs"
  by (auto simp: paired_def pending_def split: if_splits intro: order_trans [OF le_add1])

text \<open>A step keeps the pairing if it does so for its own token and only logs its own token.\<close>

lemma paired_step:
  assumes inv: "paired pcs late early att efs" and pc: "att token = Some pc"
    and own: "set_mset (acts late es) \<subseteq> {token}"
    and local: "count (acts late es) token + pending pcs (Some pc')
                  \<le> count (acts early es) token + pending pcs (Some pc)"
  shows "paired pcs late early (att(token \<mapsto> pc')) (efs @ es)"
  unfolding paired_def
proof
  fix t
  have base: "count (acts late efs) t + pending pcs (att t) \<le> count (acts early efs) t"
    using inv by (simp add: paired_def)
  show "count (acts late (efs @ es)) t + pending pcs ((att(token \<mapsto> pc')) t) \<le> count (acts early (efs @ es)) t"
  proof (cases "t = token")
    case True
    then show ?thesis using base pc local by simp
  next
    case False
    then have "count (acts late es) t = 0" using own by (metis count_eq_zero_iff singletonD subsetD)
    then show ?thesis using base False by simp
  qed
qed

definition before_send :: "attempt_pc set" where "before_send = {P_Ban_Lease, P_Ban_Authorize, P_Ban_Send}"
definition refused :: "attempt_pc set" where "refused = {P_Settle No_Effect, P_Settle_Write No_Effect}"
definition before_record :: "attempt_pc set" where "before_record = {P_Record_Reputation}"

lemma execute_dispatch:
  assumes "execute_step p now token a row pc = (row', pc', es)"
  shows "set_mset (acts dispatched_token es) \<subseteq> {token} \<and>
    count (acts dispatched_token es) token + pending before_send (Some pc')
      \<le> count (acts begun_token es) token + pending before_send (Some pc)"
  using assms
  by (cases pc; auto simp: execute_step_def checkpoint_defs after_read_def pending_def before_send_def
        split: if_splits option.splits answer.splits ban_outcome.splits sanction_phase.splits)

lemma execute_reset:
  assumes "execute_step p now token a row pc = (row', pc', es)"
  shows "set_mset (acts reset_token es) \<subseteq> {token} \<and>
    count (acts reset_token es) token + pending refused (Some pc')
      \<le> count (acts refused_token es) token + pending refused (Some pc)"
  using assms
  by (cases pc; auto simp: execute_step_def checkpoint_defs after_read_def pending_def refused_def
        split: if_splits option.splits answer.splits ban_outcome.splits sanction_phase.splits)

lemma execute_record:
  assumes "execute_step p now token a row pc = (row', pc', es)"
  shows "set_mset (acts recorded_token es) \<subseteq> {token} \<and>
    count (acts recorded_token es) token + pending before_record (Some pc')
      \<le> count (acts claimed_token es) token + pending before_record (Some pc)"
  using assms
  by (cases pc; auto simp: execute_step_def checkpoint_defs after_read_def pending_def before_record_def
        split: if_splits option.splits answer.splits ban_outcome.splits sanction_phase.splits)

text \<open>What a step starts or claims, it takes from the row.\<close>

definition fresh :: "followup_row \<Rightarrow> nat" where
  "fresh row = (if ss_phase (fr_state row) = Unstarted then 1 else 0)"

definition unclaimed :: "followup_row \<Rightarrow> nat" where
  "unclaimed row = (if fr_reputation row = None then 1 else 0)"

lemma execute_begin:
  assumes "execute_step p now token a row pc = (row', pc', es)"
  shows "size (acts begun_token es) + fresh row' \<le> fresh row + size (acts reset_token es)"
  using assms
  by (cases pc; auto simp: execute_step_def checkpoint_defs fresh_def
        split: if_splits option.splits answer.splits ban_outcome.splits)

lemma execute_claim:
  assumes "execute_step p now token a row pc = (row', pc', es)"
  shows "size (acts claimed_token es) + unclaimed row' \<le> unclaimed row"
  using assms
  by (cases pc; auto simp: execute_step_def checkpoint_defs unclaimed_def
        split: if_splits option.splits answer.splits ban_outcome.splits)

text \<open>Confirmation comes first.\<close>

fun confirmed_pc :: "attempt_pc \<Rightarrow> bool" where
  "confirmed_pc (P_Settle r) = (case r of Confirmed b \<Rightarrow> True | _ \<Rightarrow> False)"
| "confirmed_pc (P_Settle_Write r) = (case r of Confirmed b \<Rightarrow> True | _ \<Rightarrow> False)"
| "confirmed_pc P_Persist_Lease = True"
| "confirmed_pc P_Persist = True"
| "confirmed_pc P_Commit = True"
| "confirmed_pc P_Effect_Lease = True"
| "confirmed_pc P_Remember = True"
| "confirmed_pc P_Claim_Reputation = True"
| "confirmed_pc P_Record_Reputation = True"
| "confirmed_pc P_Complete_Reputation = True"
| "confirmed_pc P_Notice_Lease = True"
| "confirmed_pc P_Notice = True"
| "confirmed_pc P_Settle_Row = True"
| "confirmed_pc _ = False"

definition confirmed_row :: "followup_row \<Rightarrow> bool" where
  "confirmed_row row \<longleftrightarrow> ss_phase (fr_state row) \<in> {Ban_Confirmed, Sql_Committed, Settled}"

lemma execute_confirmed:
  assumes "execute_step p now token a row pc = (row', pc', es)" and "pl_action p = Ban"
    and "confirmed_row row \<or> confirmed_pc pc \<longrightarrow> ok"
  shows "(confirmed_row row' \<or> confirmed_pc pc' \<or> (\<exists>e \<in> set es. after_ban e)) \<longrightarrow> ok \<or> confirmed_answer es"
  using assms
  by (cases pc; auto simp: execute_step_def checkpoint_defs after_read_def confirmed_row_def
        split: if_splits option.splits answer.splits ban_outcome.splits sanction_phase.splits)

section \<open>The invariant\<close>

definition ban_proved :: "sanction_plan \<Rightarrow> followup_row \<Rightarrow> (js_string \<Rightarrow> attempt_pc option) \<Rightarrow> effect list \<Rightarrow> bool" where
  "ban_proved p row att efs \<longleftrightarrow>
     (pl_action p = Ban \<and>
        (confirmed_row row \<or> (\<exists>t pc. att t = Some pc \<and> confirmed_pc pc) \<or> (\<exists>e \<in> set efs. after_ban e)) \<longrightarrow>
      confirmed_answer efs)"

definition counted :: "followup_row \<Rightarrow> effect list \<Rightarrow> bool" where
  "counted row efs \<longleftrightarrow>
     size (acts begun_token efs) + fresh row \<le> 1 + size (acts reset_token efs) \<and>
     size (acts claimed_token efs) + unclaimed row \<le> 1"

definition all_paired :: "(js_string \<Rightarrow> attempt_pc option) \<Rightarrow> effect list \<Rightarrow> bool" where
  "all_paired att efs \<longleftrightarrow>
     paired before_send dispatched_token begun_token att efs \<and>
     paired refused reset_token refused_token att efs \<and>
     paired before_record recorded_token claimed_token att efs"

definition followup_inv :: "sanction_plan \<Rightarrow> followup_system \<Rightarrow> bool" where
  "followup_inv p y \<longleftrightarrow>
     fenced p (fs_row y) (fs_attempts y) \<and> all_paired (fs_attempts y) (fs_log y) \<and>
     counted (fs_row y) (fs_log y) \<and> ban_proved p (fs_row y) (fs_attempts y) (fs_log y)"

lemma inv_start: "followup_inv p (followup_start now deadline)"
  by (simp add: followup_inv_def followup_start_def fenced_def all_paired_def paired_def pending_def counted_def
      fresh_def unclaimed_def ban_proved_def confirmed_row_def)

lemma execute_inv:
  assumes inv: "followup_inv p y" and pc: "fs_attempts y token = Some pc"
    and step: "execute_step p now token a (fs_row y) pc = (row', pc', es)"
  shows "followup_inv p (put_step token (row', pc', es) y)"
proof -
  let ?att = "(fs_attempts y)(token \<mapsto> pc')" and ?log = "fs_log y @ es"
  from inv have fenced: "fenced p (fs_row y) (fs_attempts y)"
    and paired: "all_paired (fs_attempts y) (fs_log y)" and counted: "counted (fs_row y) (fs_log y)"
    and proved: "ban_proved p (fs_row y) (fs_attempts y) (fs_log y)"
    by (simp_all add: followup_inv_def)
  have "all_paired ?att ?log"
    unfolding all_paired_def
    using paired paired_step [where att = "fs_attempts y" and token = token and pc = pc, OF _ pc] execute_dispatch [OF step] execute_reset [OF step] execute_record [OF step]
    unfolding all_paired_def by blast
  moreover have "counted row' ?log"
    using counted execute_begin [OF step] execute_claim [OF step] unfolding counted_def by simp
  moreover have "ban_proved p row' ?att ?log"
  proof (cases "pl_action p = Ban")
    case True
    have ok: "confirmed_row (fs_row y) \<or> confirmed_pc pc \<longrightarrow> confirmed_answer (fs_log y)"
      using proved pc True unfolding ban_proved_def by blast
    show ?thesis
      using execute_confirmed [OF step True ok] proved True unfolding ban_proved_def
      by (auto split: if_splits)
  qed (simp add: ban_proved_def)
  ultimately show ?thesis
    using execute_fenced [OF step fenced pc] by (simp add: followup_inv_def put_step_def)
qed

lemma throw_inv:
  assumes "followup_inv p (put_step token (row, pc, es) y)"
  shows "followup_inv p (put_step token (row, P_Threw e, es) y)"
  using assms
  unfolding followup_inv_def all_paired_def put_step_def
  by (auto intro: fenced_throw paired_throw simp: before_send_def refused_def before_record_def ban_proved_def
      split: if_splits)

lemma paired_claim:
  assumes "paired pcs late early att efs" "att t = None" "P_Start \<notin> pcs"
  shows "paired pcs late early (att(t \<mapsto> P_Start)) efs"
proof -
  have "count (acts late efs) t \<le> count (acts early efs) t"
    using assms(1) unfolding paired_def by (meson add_leD1)
  then show ?thesis using assms by (simp add: paired_def pending_def)
qed

lemma row_inv:
  assumes inv: "followup_inv p y"
    and row: "fr_state row = fr_state (fs_row y)" "fr_reputation row = fr_reputation (fs_row y)"
    and fenced: "fenced p row (fs_attempts y)"
  shows "followup_inv p (y\<lparr>fs_row := row\<rparr>)"
  using inv fenced row
  by (simp add: followup_inv_def counted_def fresh_def unclaimed_def ban_proved_def confirmed_row_def)

lemma claim_inv:
  assumes inv: "followup_inv p y" and fresh: "fs_attempts y t = None"
    and row: "fr_state row = fr_state (fs_row y)" "fr_reputation row = fr_reputation (fs_row y)"
    and fenced: "fenced p row ((fs_attempts y)(t \<mapsto> P_Start))"
  shows "followup_inv p (y\<lparr>fs_row := row, fs_attempts := (fs_attempts y)(t \<mapsto> P_Start)\<rparr>)"
proof -
  have "all_paired ((fs_attempts y)(t \<mapsto> P_Start)) (fs_log y)"
    using inv fresh unfolding followup_inv_def all_paired_def
    by (auto intro!: paired_claim simp: before_send_def refused_def before_record_def)
  moreover have "counted row (fs_log y)"
    using inv row by (simp add: followup_inv_def counted_def fresh_def unclaimed_def)
  moreover have "ban_proved p row ((fs_attempts y)(t \<mapsto> P_Start)) (fs_log y)"
  proof (cases "pl_action p = Ban")
    case True
    have "confirmed_row row = confirmed_row (fs_row y)" using row by (simp add: confirmed_row_def)
    moreover have "(\<exists>u pc. ((fs_attempts y)(t \<mapsto> P_Start)) u = Some pc \<and> confirmed_pc pc) \<longrightarrow>
        (\<exists>u pc. fs_attempts y u = Some pc \<and> confirmed_pc pc)"
      by (metis confirmed_pc.simps(14) fun_upd_apply option.inject)
    ultimately show ?thesis using inv True unfolding followup_inv_def ban_proved_def by metis
  qed (simp add: ban_proved_def)
  ultimately show ?thesis using fenced by (simp add: followup_inv_def)
qed

lemma claim_fenced:
  assumes "fenced p row att" "att token = None" "claim_row now held receiptOnly token row = Some row'"
  shows "fenced p row' (att(token \<mapsto> P_Start))"
proof -
  have "row' = row\<lparr>fr_status := In_Progress, fr_leaseToken := Some token, fr_leaseExpiresAt := now + 30000\<rparr>"
    using assms(3) by (simp add: claim_row_def split: if_splits)
  then show ?thesis using assms(1) unfolding fenced_def by simp
qed

lemma expire_fenced: "fenced p row att \<Longrightarrow> fenced p (expire_row now held row) att"
  by (auto simp: fenced_def expire_row_def)

lemma postpone_fenced: "fenced p row att \<Longrightarrow> fenced p (postpone_row now row) att"
  by (auto simp: fenced_def postpone_row_def)

lemma renew_fenced: "fenced p row att \<Longrightarrow> fenced p (renew_row now token row) att"
  by (auto simp: fenced_def renew_row_def)

lemma ready_fenced:
  "fenced p row att \<Longrightarrow> fr_status row = Waiting_Delete \<Longrightarrow>
   fenced p (row\<lparr>fr_status := Ready, fr_nextAttemptAt := n\<rparr>) att"
  by (auto simp: fenced_def)

lemma finish_fenced:
  assumes "fenced p row att" "att token = Some (P_Returned b)"
  shows "fenced p (finish_row now token Completed row) att"
  using assms by (auto simp: fenced_def finish_row_def split: if_splits)

lemma fail_fenced:
  assumes "fenced p row att"
  shows "fenced p (finish_row now token (failed_status started e (ss_phase (fr_state row))) row) att"
  using assms by (auto simp: fenced_def finish_row_def failed_status_def)

lemma row_only:
  "fr_state (expire_row now held row) = fr_state row" "fr_reputation (expire_row now held row) = fr_reputation row"
  "fr_state (postpone_row now row) = fr_state row" "fr_reputation (postpone_row now row) = fr_reputation row"
  "fr_state (renew_row now token row) = fr_state row" "fr_reputation (renew_row now token row) = fr_reputation row"
  "fr_state (finish_row now token st row) = fr_state row"
  "fr_reputation (finish_row now token st row) = fr_reputation row"
  by (simp_all add: expire_row_def postpone_row_def renew_row_def finish_row_def)

lemma claim_row_only:
  "claim_row now held receiptOnly token row = Some row' \<Longrightarrow>
   fr_state row' = fr_state row \<and> fr_reputation row' = fr_reputation row"
  by (auto simp: claim_row_def split: if_splits)

lemma step_inv: "followup_step p y z \<Longrightarrow> followup_inv p y \<Longrightarrow> followup_inv p z"
proof (induction rule: followup_step.induct)
  case (time_passes now y)
  then show ?case by (simp add: followup_inv_def)
next
  case (sweeps y held)
  then show ?case by (intro row_inv) (simp_all add: row_only followup_inv_def expire_fenced)
next
  case (postpones y)
  then show ?case by (intro row_inv) (simp_all add: row_only followup_inv_def postpone_fenced)
next
  case (becomes_ready y)
  then show ?case by (intro row_inv) (simp_all add: followup_inv_def ready_fenced)
next
  case (claims y token held receiptOnly row)
  then have "fenced p row ((fs_attempts y)(token \<mapsto> P_Start))"
    using claim_fenced unfolding followup_inv_def by blast
  then show ?case using claims claim_row_only by (intro claim_inv) blast+
next
  case (renews y token pc)
  then show ?case by (intro row_inv) (simp_all add: row_only followup_inv_def renew_fenced)
next
  case (runs y token pc a)
  then show ?case using execute_inv by (metis prod_cases3)
next
  case (runs_unanswered y token pc a row pc' effects e)
  then show ?case using execute_inv throw_inv by blast
next
  case (finishes y token b)
  then have "fenced p (finish_row (fs_now y) token Completed (fs_row y)) (fs_attempts y)"
    using finish_fenced unfolding followup_inv_def by blast
  then show ?case using finishes by (intro row_inv) (simp_all add: row_only)
next
  case (fails y token e started)
  then show ?case by (intro row_inv) (simp_all add: row_only followup_inv_def fail_fenced)
qed

lemma reaches_inv: "followup_reaches p y z \<Longrightarrow> followup_inv p y \<Longrightarrow> followup_inv p z"
  by (induction rule: followup_reaches.induct) (auto intro: step_inv)

section \<open>The state stays well-formed\<close>

definition event_ok :: "sanction_plan \<Rightarrow> followup_row \<Rightarrow> bool" where
  "event_ok p row \<longleftrightarrow>
     (ss_phase (fr_state row) \<in> {Sql_Committed, Settled} \<longrightarrow> ss_eventId (fr_state row) = Some (pl_eventId p))"

definition named :: "effect list \<Rightarrow> js_string \<Rightarrow> bool" where
  "named efs b \<longleftrightarrow> (\<exists>t. Answered t (Confirmed (Some b)) \<in> set efs)"

fun carried :: "attempt_pc \<Rightarrow> js_string option" where
  "carried (P_Settle (Confirmed b)) = b"
| "carried (P_Settle_Write (Confirmed b)) = b"
| "carried _ = None"

definition typed :: "sanction_plan \<Rightarrow> followup_system \<Rightarrow> bool" where
  "typed p y \<longleftrightarrow>
     event_ok p (fs_row y) \<and> (\<forall>b. ss_banBotId (fr_state (fs_row y)) = Some b \<longrightarrow> named (fs_log y) b) \<and>
     (\<forall>t pc b. fs_attempts y t = Some pc \<longrightarrow> carried pc = Some b \<longrightarrow> named (fs_log y) b)"

lemma execute_event:
  assumes "execute_step p now token a row pc = (row', pc', es)"
    and "phase_ok p pc (ss_phase (fr_state row))" and "event_ok p row"
  shows "event_ok p row'"
  using assms
  by (cases pc; auto simp: execute_step_def checkpoint_defs event_ok_def
        split: if_splits option.splits answer.splits ban_outcome.splits)

lemma execute_bot:
  assumes "execute_step p now token a row pc = (row', pc', es)"
  shows "(\<forall>b. ss_banBotId (fr_state row') = Some b \<longrightarrow> ss_banBotId (fr_state row) = Some b \<or> carried pc = Some b) \<and>
    (\<forall>b. carried pc' = Some b \<longrightarrow> carried pc = Some b \<or> Answered token (Confirmed (Some b)) \<in> set es)"
  using assms
  by (cases pc; auto simp: execute_step_def checkpoint_defs after_read_def
        split: if_splits option.splits answer.splits ban_outcome.splits sanction_phase.splits
        elim!: carried.elims)

lemma execute_typed:
  assumes inv: "followup_inv p y" and typed: "typed p y" and pc: "fs_attempts y token = Some pc"
    and step: "execute_step p now token a (fs_row y) pc = (row', pc', es)"
    and q: "q = pc' \<or> q = P_Threw e"
  shows "typed p (put_step token (row', q, es) y)"
proof -
  have "phase_ok p pc (ss_phase (fr_state (fs_row y))) \<or> row' = fs_row y"
    using execute_row [OF step] inv pc unfolding followup_inv_def fenced_def lease_live_def by auto
  then have "event_ok p row'"
    using execute_event [OF step] typed unfolding typed_def by blast
  moreover have "named (fs_log y @ es) b"
    if "ss_banBotId (fr_state row') = Some b \<or> carried pc' = Some b \<or> (\<exists>t qc. fs_attempts y t = Some qc \<and> carried qc = Some b)"
    for b
    using that execute_bot [OF step] typed pc unfolding typed_def named_def by (metis UnCI set_append)
  ultimately show ?thesis using q by (auto simp: typed_def put_step_def split: if_splits)
qed

lemma step_typed: "followup_step p y z \<Longrightarrow> followup_inv p y \<Longrightarrow> typed p y \<Longrightarrow> typed p z"
proof (induction rule: followup_step.induct)
  case (claims y token held receiptOnly row)
  then show ?case using claim_row_only [OF claims(2)] by (simp add: typed_def event_ok_def)
next
  case (runs y token pc a)
  then show ?case using execute_typed by (metis prod_cases3)
next
  case (runs_unanswered y token pc a row pc' effects e)
  then show ?case using execute_typed by blast
qed (simp_all add: typed_def event_ok_def row_only)

lemma reaches_typed: "followup_reaches p y z \<Longrightarrow> followup_inv p y \<Longrightarrow> typed p y \<Longrightarrow> typed p z"
  by (induction rule: followup_reaches.induct) (auto intro: step_typed reaches_inv)

lemma typed_start: "typed p (followup_start now deadline)"
  by (simp add: typed_def followup_start_def event_ok_def)

section \<open>A settled outcome stays settled\<close>

definition past_ban :: "followup_row \<Rightarrow> bool" where
  "past_ban row \<longleftrightarrow> ss_phase (fr_state row) \<in> {Unknown_Outcome, Ban_Confirmed, Sql_Committed, Settled}"

lemma execute_begins_unstarted:
  assumes "execute_step p now token a row pc = (row', pc', es)" and "past_ban row"
  shows "acts begun_token es = {#}"
  using assms
  by (cases pc; auto simp: execute_step_def checkpoint_defs past_ban_def
        split: if_splits option.splits answer.splits ban_outcome.splits)

lemma settle_write_confirmed:
  assumes "execute_step p now token a row (P_Settle_Write (Confirmed b)) = (row', pc', es)" and "past_ban row"
  shows "past_ban row'"
  using assms by (auto simp: execute_step_def checkpoint_defs past_ban_def split: if_splits)

lemma execute_past_ban:
  assumes step: "execute_step p now token a row pc = (row', pc', es)"
    and ok: "phase_ok p pc (ss_phase (fr_state row))" and past: "past_ban row"
  shows "past_ban row'"
  using execute_phase_change [OF step]
proof (elim disjE exE)
  fix r assume pc: "pc = P_Settle_Write r"
  then obtain b where "r = Confirmed b" using ok past by (cases r) (auto simp: past_ban_def)
  then show ?thesis using settle_write_confirmed step past pc by blast
qed (use ok past in \<open>auto simp: past_ban_def\<close>)

lemma execute_past_ban_inv:
  assumes inv: "followup_inv p y" and past: "past_ban (fs_row y)" and pc: "fs_attempts y token = Some pc"
    and step: "execute_step p now token a (fs_row y) pc = (row', pc', es)"
  shows "past_ban row' \<and> acts begun_token es = {#}"
proof -
  have "phase_ok p pc (ss_phase (fr_state (fs_row y))) \<or> row' = fs_row y"
    using execute_row [OF step] inv pc unfolding followup_inv_def fenced_def lease_live_def by auto
  then have "past_ban row'" using execute_past_ban [OF step _ past] past by blast
  then show ?thesis using execute_begins_unstarted [OF step past] by simp
qed

lemma past_ban_same: "fr_state row = fr_state row' \<Longrightarrow> past_ban row = past_ban row'"
  by (simp add: past_ban_def)

lemma step_past_ban:
  assumes "followup_step p y z" "followup_inv p y" "past_ban (fs_row y)"
  shows "past_ban (fs_row z) \<and> acts begun_token (fs_log z) = acts begun_token (fs_log y)"
  using assms
proof (induction rule: followup_step.induct)
  case (claims y token held receiptOnly row)
  then show ?case using past_ban_same [of row "fs_row y"] claim_row_only by fastforce
next
  case (runs y token pc a)
  then show ?case
    using execute_past_ban_inv [of p y token pc]
    by (cases "execute_step p (fs_now y) token a (fs_row y) pc") (auto simp: put_step_def)
next
  case (runs_unanswered y token pc a row pc' effects e)
  then show ?case using execute_past_ban_inv by (auto simp: put_step_def)
qed (auto simp: row_only past_ban_def)

lemma reaches_past_ban:
  assumes "followup_reaches p y z" "followup_inv p y" "past_ban (fs_row y)"
  shows "past_ban (fs_row z) \<and> acts begun_token (fs_log z) = acts begun_token (fs_log y)"
  using assms
proof (induction rule: followup_reaches.induct)
  case (step y z w)
  then show ?case using step_past_ban [of p z w] reaches_inv by force
qed simp

section \<open>An attempt on its own\<close>

definition run_attempt :: "sanction_plan \<Rightarrow> js_string \<Rightarrow> answer list \<Rightarrow> followup_system \<Rightarrow> followup_system" where
  "run_attempt p token as y =
     foldl (\<lambda>z a. put_step token (execute_step p (fs_now z) token a (fs_row z) (the (fs_attempts z token))) z) y as"

lemma put_step_attempt: "\<exists>pc. fs_attempts (put_step token r y) token = Some pc"
  by (cases r) (simp add: put_step_def)

lemma reaches_trans: "followup_reaches p y z \<Longrightarrow> followup_reaches p x y \<Longrightarrow> followup_reaches p x z"
  by (induction rule: followup_reaches.induct) (auto intro: followup_reaches.step)

lemma run_attempt_reaches:
  "fs_attempts y token = Some pc \<Longrightarrow> followup_reaches p y (run_attempt p token as y)"
proof (induction as arbitrary: y pc)
  case (Cons a as)
  let ?z = "put_step token (execute_step p (fs_now y) token a (fs_row y) pc) y"
  obtain pc' where "fs_attempts ?z token = Some pc'" using put_step_attempt by blast
  then have "followup_reaches p ?z (run_attempt p token as ?z)" by (rule Cons.IH)
  moreover have "followup_reaches p y ?z"
    using followup_reaches.step [OF followup_reaches.here followup_step.runs] Cons.prems by blast
  ultimately show ?case using Cons.prems by (simp add: run_attempt_def reaches_trans)
qed (simp add: run_attempt_def followup_reaches.here)

definition first_claim :: "js_string \<Rightarrow> followup_system \<Rightarrow> followup_system" where
  "first_claim token y =
     y\<lparr>fs_row := (fs_row y)\<lparr>fr_status := In_Progress, fr_leaseToken := Some token,
         fr_leaseExpiresAt := fs_now y + 30000, fr_nextAttemptAt := fs_now y\<rparr>,
       fs_attempts := (fs_attempts y)(token \<mapsto> P_Start)\<rparr>"

lemma first_claim_reached:
  "followup_reaches p (followup_start now deadline) (first_claim token (followup_start now deadline))"
proof -
  let ?s = "followup_start now deadline"
  let ?r = "?s\<lparr>fs_row := (fs_row ?s)\<lparr>fr_status := Ready, fr_nextAttemptAt := fs_now ?s\<rparr>\<rparr>"
  have "followup_step p ?s ?r" by (rule followup_step.becomes_ready) (simp add: followup_start_def)
  moreover have "followup_step p ?r (first_claim token ?s)"
  proof -
    have "claim_row (fs_now ?r) False False token (fs_row ?r)
        = Some ((fs_row ?r)\<lparr>fr_status := In_Progress, fr_leaseToken := Some token, fr_leaseExpiresAt := fs_now ?r + 30000\<rparr>)"
      by (simp add: claim_row_def)
    from followup_step.claims [OF _ this, of p] show ?thesis
      by (simp add: first_claim_def followup_start_def)
  qed
  ultimately show ?thesis by (meson followup_reaches.intros)
qed



























fun waits_left :: "attempt_pc \<Rightarrow> nat" where
  "waits_left P_Start = 24"
| "waits_left P_Read = 23"
| "waits_left P_Recover_Unknown = 14"
| "waits_left P_Recover = 14"
| "waits_left P_Authorize = 22"
| "waits_left P_Auth_Lease = 21"
| "waits_left P_Begin = 20"
| "waits_left P_Ban_Lease = 19"
| "waits_left P_Ban_Authorize = 18"
| "waits_left P_Ban_Send = 17"
| "waits_left P_Ban_Sent = 16"
| "waits_left P_Ban_Failed = 15"
| "waits_left (P_Settle r) = 13"
| "waits_left (P_Settle_Write r) = 12"
| "waits_left P_Persist_Lease = 11"
| "waits_left P_Persist = 10"
| "waits_left P_Commit = 9"
| "waits_left P_Effect_Lease = 8"
| "waits_left P_Remember = 7"
| "waits_left P_Claim_Reputation = 6"
| "waits_left P_Record_Reputation = 5"
| "waits_left P_Complete_Reputation = 4"
| "waits_left P_Notice_Lease = 3"
| "waits_left P_Notice = 2"
| "waits_left P_Settle_Row = 1"
| "waits_left (P_Returned b) = 0"
| "waits_left (P_Threw e) = 0"

lemma waits_left_lost [simp]: "waits_left lost = 0"
  by (simp add: lost_def)











section \<open>Properties\<close>

definition sample_plan :: sanction_plan where
  "sample_plan = \<lparr>pl_action = Ban, pl_issuedAtMs = 1000, pl_muteExpiresAtMs = None, pl_muteDurationHours = 0,
     pl_eventId = ascii ''event'', pl_noticeKey = ascii ''notice''\<rparr>"

text \<open>An attempt that sends the ban and loses the answer, after the claim of the row.\<close>

definition sample_sent :: followup_system where
  "sample_sent = run_attempt sample_plan (ascii ''t1'')
     [Says True, Says True, Says True, Says True, Says True, Says True, Says True, Sends, Throws,
      Ban_Says Unknown, Says True, Says True]
     (first_claim (ascii ''t1'') (followup_start 1000 9000))"

definition sample_settled :: followup_system where
  "sample_settled = run_attempt sample_plan (ascii ''t1'')
     [Says True, Says True, Says True, Says True, Says True, Says True, Says True, Sends,
      Ban_Says (Confirmed None), Says True, Says True, Says True, Event_Says (ascii ''event''), Says True, Says True,
      Says True, Says True, Says True, Says True, Says True, Says True, Says True]
     (first_claim (ascii ''t1'') (followup_start 1000 9000))"

lemma sample_sent_reached: "followup_reaches sample_plan (followup_start 1000 9000) sample_sent"
  unfolding sample_sent_def
  by (rule reaches_trans [OF run_attempt_reaches first_claim_reached [of _ 1000 9000 "ascii ''t1''"]])
    (simp add: first_claim_def)

lemma sample_settled_reached: "followup_reaches sample_plan (followup_start 1000 9000) sample_settled"
  unfolding sample_settled_def
  by (rule reaches_trans [OF run_attempt_reaches first_claim_reached [of _ 1000 9000 "ascii ''t1''"]])
    (simp add: first_claim_def)

lemma sample_sent_phase:
  "ss_phase (fr_state (fs_row sample_sent)) = Unknown_Outcome \<and> size (acts dispatched_token (fs_log sample_sent)) = 1"
  by code_simp

lemma sample_settled_phase:
  "ss_phase (fr_state (fs_row sample_settled)) = Settled \<and>
   Event_Persisted (ascii ''t1'') \<in> set (fs_log sample_settled) \<and>
   Reputation_Recorded (ascii ''t1'') \<in> set (fs_log sample_settled)"
  by code_simp

text \<open>The attempt gives up, the row is set aside as ambiguous, and a later attempt finds the receipt.\<close>

definition sample_ambiguous :: followup_system where
  "sample_ambiguous =
     sample_sent\<lparr>fs_row := finish_row 1000 (ascii ''t1'') (failed_status True Outcome_Unknown_Error Unknown_Outcome)
       (fs_row sample_sent)\<rparr>"

definition sample_reclaimed :: followup_system where
  "sample_reclaimed =
     sample_ambiguous\<lparr>fs_now := 61000,
       fs_row := the (claim_row 61000 False True (ascii ''t2'') (fs_row sample_ambiguous)),
       fs_attempts := (fs_attempts sample_ambiguous)(ascii ''t2'' \<mapsto> P_Start)\<rparr>"

definition sample_recovered :: followup_system where
  "sample_recovered = run_attempt sample_plan (ascii ''t2'')
     [Says True, Says True, Ban_Says (Confirmed None), Says True, Says True] sample_reclaimed"

lemma sample_recovered_reached: "followup_reaches sample_plan sample_sent sample_recovered"
proof -
  have end_pc: "fs_attempts sample_sent (ascii ''t1'') = Some (P_Threw Outcome_Unknown_Error)"
    and live: "lease_live (fs_now sample_sent) (ascii ''t1'') (fs_row sample_sent)"
    and time: "fs_now sample_sent = 1000"
    by code_simp+
  have 1: "followup_step sample_plan sample_sent sample_ambiguous"
    using followup_step.fails [OF end_pc live, of sample_plan True] time sample_sent_phase
    by (simp add: sample_ambiguous_def)
  have "61000 \<ge> fs_now sample_ambiguous" by code_simp
  from followup_step.time_passes [OF this]
  have 2: "followup_step sample_plan sample_ambiguous (sample_ambiguous\<lparr>fs_now := 61000\<rparr>)" .
  have free: "fs_attempts (sample_ambiguous\<lparr>fs_now := 61000\<rparr>) (ascii ''t2'') = None" by code_simp
  have "claim_row 61000 False True (ascii ''t2'') (fs_row sample_ambiguous) \<noteq> None" by code_simp
  then have claimed: "claim_row (fs_now (sample_ambiguous\<lparr>fs_now := 61000\<rparr>)) False True (ascii ''t2'')
      (fs_row (sample_ambiguous\<lparr>fs_now := 61000\<rparr>)) =
      Some (the (claim_row 61000 False True (ascii ''t2'') (fs_row sample_ambiguous)))"
    by auto
  have "True \<longrightarrow> receipt_recoverable sample_plan (fs_row (sample_ambiguous\<lparr>fs_now := 61000\<rparr>))" by code_simp
  from followup_step.claims [OF free claimed this]
  have 3: "followup_step sample_plan (sample_ambiguous\<lparr>fs_now := 61000\<rparr>) sample_reclaimed"
    by (simp add: sample_reclaimed_def)
  have "followup_reaches sample_plan sample_sent sample_reclaimed"
    using 1 2 3 by (meson followup_reaches.intros)
  moreover have "followup_reaches sample_plan sample_reclaimed sample_recovered"
    unfolding sample_recovered_def by (rule run_attempt_reaches [of _ _ P_Start]) (simp add: sample_reclaimed_def)
  ultimately show ?thesis using reaches_trans by blast
qed

text \<open>
  C2: However the attempts of a follow-up overlap, crash or lose their lease, the ban is sent to the messenger at
  most once, and once more for each answer that proved that it had no effect.
\<close>

theorem ban_sent_once_per_refusal:
  assumes "followup_reaches p (followup_start now deadline) y"
  shows "size (acts dispatched_token (fs_log y)) \<le> 1 + size (acts refused_token (fs_log y))"
proof -
  have inv: "followup_inv p y" using reaches_inv [OF assms inv_start] .
  then have "size (acts dispatched_token (fs_log y)) \<le> size (acts begun_token (fs_log y))"
    and "size (acts reset_token (fs_log y)) \<le> size (acts refused_token (fs_log y))"
    by (auto simp: followup_inv_def all_paired_def intro: paired_size)
  then show ?thesis using inv by (simp add: followup_inv_def counted_def)
qed

theorem ban_sent_once_per_refusal_witness:
  "size (acts dispatched_token (fs_log sample_sent)) \<le> 1 + size (acts refused_token (fs_log sample_sent))"
  by (rule ban_sent_once_per_refusal [OF sample_sent_reached])

text \<open>
  C19: When the sanction is a ban, its event is persisted, its reputation recorded and its notice sent only after an
  answer that confirmed the ban, and the reputation is recorded at most once.
\<close>

theorem effects_follow_confirmation:
  assumes "followup_reaches p (followup_start now deadline) y"
  shows "(pl_action p = Ban \<and> (\<exists>e \<in> set (fs_log y). after_ban e) \<longrightarrow> confirmed_answer (fs_log y)) \<and>
    size (acts recorded_token (fs_log y)) \<le> 1"
proof -
  have inv: "followup_inv p y" using reaches_inv [OF assms inv_start] .
  then have "size (acts recorded_token (fs_log y)) \<le> size (acts claimed_token (fs_log y))"
    by (auto simp: followup_inv_def all_paired_def intro: paired_size)
  then have "size (acts recorded_token (fs_log y)) \<le> 1" using inv by (simp add: followup_inv_def counted_def)
  then show ?thesis using inv unfolding followup_inv_def ban_proved_def by blast
qed

theorem effects_follow_confirmation_witness:
  "confirmed_answer (fs_log sample_settled) \<and> size (acts recorded_token (fs_log sample_settled)) \<le> 1"
proof -
  have "\<exists>e \<in> set (fs_log sample_settled). after_ban e"
    using sample_settled_phase by (auto intro: bexI [of _ "Event_Persisted (ascii ''t1'')"])
  moreover have "pl_action sample_plan = Ban" by (simp add: sample_plan_def)
  ultimately show ?thesis using effects_follow_confirmation [OF sample_settled_reached] by blast
qed

text \<open>
  Once the outcome of the ban is marked unknown or confirmed, no attempt begins the ban again and the row does not
  return to an earlier phase.
\<close>

theorem outcome_never_reopened:
  assumes "followup_reaches p (followup_start now deadline) y" and "past_ban (fs_row y)"
    and "followup_reaches p y z"
  shows "past_ban (fs_row z) \<and> acts begun_token (fs_log z) = acts begun_token (fs_log y)"
  by (rule reaches_past_ban [OF assms(3) reaches_inv [OF assms(1) inv_start] assms(2)])

theorem outcome_never_reopened_witness:
  "past_ban (fs_row sample_recovered) \<and> acts begun_token (fs_log sample_recovered) = acts begun_token (fs_log sample_sent)"
proof (rule outcome_never_reopened [OF sample_sent_reached _ sample_recovered_reached])
  show "past_ban (fs_row sample_sent)" using sample_sent_phase by (simp add: past_ban_def)
qed

text \<open>
  A follow-up whose ban has begun and is not settled is either under a lease or set aside as ambiguous: it is never
  completed, cancelled, expired or retried as if nothing had been sent, and a completed one is settled or was not
  authorised.
\<close>

theorem open_ban_kept:
  assumes "followup_reaches p (followup_start now deadline) y"
  shows "(ss_phase (fr_state (fs_row y)) \<in> {Ban_Started, Unknown_Outcome} \<longrightarrow>
      fr_status (fs_row y) \<in> {In_Progress, Ambiguous}) \<and>
    (fr_status (fs_row y) = Completed \<longrightarrow> ss_phase (fr_state (fs_row y)) \<in> {Settled, Unstarted})"
  using reaches_inv [OF assms inv_start] unfolding followup_inv_def fenced_def by blast

theorem open_ban_kept_witness:
  "fr_status (fs_row sample_sent) \<in> {In_Progress, Ambiguous}"
  using open_ban_kept [OF sample_sent_reached] sample_sent_phase by blast

text \<open>
  C36: The state an attempt reads is always one that \<^verbatim>\<open>assertState\<close> accepts, as long as the confirmations name
  no blank bot: a ban phase only under a ban plan, a committed phase only with the event of the plan.
\<close>

theorem stored_state_well_formed:
  assumes "followup_reaches p (followup_start now deadline) y"
    and "\<And>t b. Answered t (Confirmed (Some b)) \<in> set (fs_log y) \<Longrightarrow> trim b \<noteq> []"
  shows "assertState (fr_state (fs_row y)) p"
proof -
  let ?s = "fr_state (fs_row y)"
  have typed: "typed p y" using reaches_typed [OF assms(1) inv_start typed_start] .
  have "ss_phase ?s \<in> {Ban_Started, Ban_Confirmed, Unknown_Outcome} \<longrightarrow> pl_action p = Ban"
    using reaches_inv [OF assms(1) inv_start] unfolding followup_inv_def fenced_def by blast
  moreover have "ss_phase ?s \<in> {Sql_Committed, Settled} \<longrightarrow> ss_eventId ?s = Some (pl_eventId p)"
    using typed unfolding typed_def event_ok_def by blast
  moreover have "\<forall>b. ss_banBotId ?s = Some b \<longrightarrow> trim b \<noteq> []"
    using typed assms(2) unfolding typed_def named_def by blast
  ultimately show ?thesis unfolding assertState_def by (cases "ss_banBotId ?s") auto
qed

theorem stored_state_well_formed_witness: "assertState (fr_state (fs_row sample_settled)) sample_plan"
proof (rule stored_state_well_formed [OF sample_settled_reached])
  fix t b
  have "list_all (\<lambda>e. case e of Answered t (Confirmed (Some b)) \<Rightarrow> False | _ \<Rightarrow> True) (fs_log sample_settled)"
    by code_simp
  then show "Answered t (Confirmed (Some b)) \<in> set (fs_log sample_settled) \<Longrightarrow> trim b \<noteq> []"
    by (fastforce simp: list_all_iff)
qed



end
