(* ===== verification/Duplicate_Window.thy ===== *)
theory Duplicate_Window
  imports JS_Values
begin

text \<open>
  \<^verbatim>\<open>apps/api/src/moderation/message-duplicate/message-duplicate-window.script.ts\<close>: the script
  that keeps, for one chat, which messages are the accepted originals of a content, which repeats of it were allowed
  and which are duplicates.

  \<^item> The script runs atomically in the store, so a call is a function of the store, the store's
    clock, the call's fresh token and its arguments.  A key of the store is a map of the record: the part of the
    key before the first colon names the map, the digests after it are its arguments.
  \<^item> \<open>ws_reset\<close>, \<open>ws_removed\<close> and \<open>ws_prior\<close> are the keys under
    \<^verbatim>\<open>resetPrefix\<close>, the others those under \<^verbatim>\<open>prefix\<close>.  A value stands with the time it
    expires at.
  \<^item> Lua's \<^verbatim>\<open>nil\<close> is \<open>None\<close>.  The records that this version writes always carry their revision
    and original, so they are no options; a prior record without \<^verbatim>\<open>introducedKnown\<close> counts as known.
\<close>

section \<open>Records\<close>

definition DUPLICATE_WINDOW_MAX_MS :: int where "DUPLICATE_WINDOW_MAX_MS = 48 * 3600 * 1000"
definition MESSAGE_DUPLICATE_HISTORY_GRACE_MS :: int where "MESSAGE_DUPLICATE_HISTORY_GRACE_MS = 11 * 60000"
definition MESSAGE_DUPLICATE_HISTORY_RETENTION_MS :: int where
  "MESSAGE_DUPLICATE_HISTORY_RETENTION_MS = DUPLICATE_WINDOW_MAX_MS + MESSAGE_DUPLICATE_HISTORY_GRACE_MS"

datatype compare_mode = Mode_Text | Mode_Message | Mode_Image

record incarnation =
  in_epoch :: int
  in_at :: int
  in_source :: js_string
  in_identity :: js_string

record life =
  li_at :: int
  li_source :: js_string
  li_conflict :: bool
  li_revision :: js_string
  li_introducedAt :: int
  li_introducedKnown :: bool
  li_predecessorRevision :: "js_string option"
  li_materializedRevision :: "js_string option"
  li_materialized :: "incarnation option"

record original =
  or_member :: js_string
  or_author :: js_string
  or_messageId :: js_string
  or_senderId :: js_string
  or_publishedAtMs :: int
  or_observedAtMs :: int
  or_expiresAtMs :: int
  or_sourceDigest :: js_string
  or_contentDigest :: js_string
  or_mediaHashes :: "js_string list"
  or_epoch :: int
  or_revision :: js_string
  or_originalId :: js_string

record duplicate_match =
  ma_fingerprint :: js_string
  ma_original :: original
  ma_count :: int
  ma_qualified :: "int option"

record continuity =
  co_revision :: js_string
  co_identity :: js_string
  co_publishedAt :: int
  co_originalId :: js_string
  co_context :: js_string
  co_accepted :: "js_string list"
  co_matches :: "duplicate_match list"

record message_state =
  me_at :: int
  me_publishedAt :: int
  me_source :: js_string
  me_identity :: js_string
  me_context :: js_string
  me_epoch :: int
  me_revision :: js_string
  me_originalId :: js_string
  me_accepted :: "js_string list"
  me_matches :: "duplicate_match list"
  me_continuity :: "continuity option"

record occurrence_count =
  oc_accepted :: int
  oc_qualified :: int

type_synonym ('k, 'v) keyed = "'k \<Rightarrow> ('v \<times> int) option"
type_synonym life_key = "js_string \<times> compare_mode"
type_synonym group_key = "js_string \<times> js_string"
type_synonym count_key = "js_string \<times> js_string \<times> js_string \<times> int \<times> int"

record window_store =
  ws_reset :: "(js_string, int) keyed"
  ws_removed :: "(js_string, unit) keyed"
  ws_prior :: "(life_key, life) keyed"
  ws_life :: "(life_key, life) keyed"
  ws_message :: "(life_key, message_state) keyed"
  ws_group :: "(group_key, original) keyed"
  ws_count :: "(count_key, occurrence_count) keyed"
  ws_qualification :: "(js_string, int) keyed"

section \<open>Reading and writing\<close>

text \<open>\<^verbatim>\<open>GET\<close> of a key, \<^verbatim>\<open>SET\<close> of it with \<^verbatim>\<open>PXAT\<close>.\<close>

definition get :: "int \<Rightarrow> ('k, 'v) keyed \<Rightarrow> 'k \<Rightarrow> 'v option" where
  "get now m k = (case m k of Some (v, e) \<Rightarrow> if e > now then Some v else None | None \<Rightarrow> None)"

definition eventExpiry :: "int \<Rightarrow> int \<Rightarrow> int" where
  "eventExpiry now time = min (if time > 0 then time else now) now + MESSAGE_DUPLICATE_HISTORY_RETENTION_MS"

definition windowExpiry :: "int \<Rightarrow> int \<Rightarrow> int \<Rightarrow> int" where
  "windowExpiry now windowMs time =
     min (if time > 0 then time else now) now +
       min (windowMs + MESSAGE_DUPLICATE_HISTORY_GRACE_MS) MESSAGE_DUPLICATE_HISTORY_RETENTION_MS"

definition put :: "int \<Rightarrow> 'k \<Rightarrow> 'v \<Rightarrow> int \<Rightarrow> bool \<Rightarrow> ('k, 'v) keyed \<Rightarrow> ('k, 'v) keyed" where
  "put now k v expiresAt preserveExpiry m =
     (let expiry = min expiresAt (now + MESSAGE_DUPLICATE_HISTORY_RETENTION_MS);
          expiry = (if preserveExpiry
                    then (case m k of Some (_, e) \<Rightarrow> if e > now then min expiry e else expiry | None \<Rightarrow> expiry)
                    else expiry)
      in m(k \<mapsto> (v, expiry)))"

definition epoch :: "int \<Rightarrow> js_string \<Rightarrow> window_store \<Rightarrow> int" where
  "epoch now author y = (case get now (ws_reset y) author of Some e \<Rightarrow> e | None \<Rightarrow> 0)"

definition removed :: "int \<Rightarrow> js_string \<Rightarrow> window_store \<Rightarrow> bool" where
  "removed now member y \<longleftrightarrow> get now (ws_removed y) member \<noteq> None"

definition write_life :: "int \<Rightarrow> life_key \<Rightarrow> life \<Rightarrow> bool \<Rightarrow> window_store \<Rightarrow> window_store" where
  "write_life now k l preserve y = y\<lparr>ws_life := put now k l (eventExpiry now (li_at l)) preserve (ws_life y)\<rparr>"

section \<open>Fences\<close>

definition reset_op :: "int \<Rightarrow> js_string \<Rightarrow> window_store \<Rightarrow> window_store" where
  "reset_op now author y =
     y\<lparr>ws_reset := (ws_reset y)(author \<mapsto>
         (max now (epoch now author y + 1), now + MESSAGE_DUPLICATE_HISTORY_RETENTION_MS))\<rparr>"

definition remove_op :: "int \<Rightarrow> js_string \<Rightarrow> window_store \<Rightarrow> window_store" where
  "remove_op now member y =
     (if removed now member y then y
      else y\<lparr>ws_removed := put now member () (now + MESSAGE_DUPLICATE_HISTORY_RETENTION_MS) False (ws_removed y)\<rparr>)"

section \<open>Lifecycles\<close>

text \<open>What the record of the previous version leaves: a refusal, a later introduction, or an unknown one.\<close>

datatype prior_verdict = Refused | Introduced_At int | Known_Before life | Nothing_Known

definition prior_life ::
    "int \<Rightarrow> js_string \<Rightarrow> life_key \<Rightarrow> int \<Rightarrow> js_string \<Rightarrow> window_store \<Rightarrow> prior_verdict" where
  "prior_life now token k time source y =
     (case get now (ws_prior y) k of
        None \<Rightarrow> Nothing_Known
      | Some prior \<Rightarrow>
          if time < li_at prior \<or> time = li_at prior \<and> (li_conflict prior \<or> li_source prior \<noteq> source) then Refused
          else if li_source prior \<noteq> source then Introduced_At time
          else if \<not> li_introducedKnown prior
          then Known_Before \<lparr>li_at = li_at prior, li_source = li_source prior, li_conflict = li_conflict prior,
                 li_revision = token, li_introducedAt = 0, li_introducedKnown = False,
                 li_predecessorRevision = None, li_materializedRevision = None, li_materialized = None\<rparr>
          else Nothing_Known)"

definition first_life :: "js_string \<Rightarrow> int \<Rightarrow> js_string \<Rightarrow> int option \<Rightarrow> life" where
  "first_life token time source publishedAt =
     \<lparr>li_at = time, li_source = source, li_conflict = False, li_revision = token,
      li_introducedAt = (case publishedAt of Some t \<Rightarrow> t | None \<Rightarrow> time), li_introducedKnown = True,
      li_predecessorRevision = None, li_materializedRevision = None, li_materialized = None\<rparr>"

definition later_life :: "js_string \<Rightarrow> int \<Rightarrow> js_string \<Rightarrow> life \<Rightarrow> life" where
  "later_life token time source previous =
     (let changed = li_source previous \<noteq> source in
      \<lparr>li_at = time, li_source = source, li_conflict = False,
       li_revision = (if \<not> changed \<and> \<not> li_conflict previous then li_revision previous else token),
       li_introducedAt = (if changed then time else li_introducedAt previous),
       li_introducedKnown = (changed \<or> li_introducedKnown previous),
       li_predecessorRevision =
         (if changed \<and> \<not> li_conflict previous then Some (li_revision previous)
          else if \<not> changed then li_predecessorRevision previous else None),
       li_materializedRevision = li_materializedRevision previous,
       li_materialized = li_materialized previous\<rparr>)"

definition continue_life ::
    "int \<Rightarrow> js_string \<Rightarrow> life_key \<Rightarrow> int \<Rightarrow> js_string \<Rightarrow> life \<Rightarrow> window_store \<Rightarrow> window_store \<times> life option" where
  "continue_life now token k time source previous y =
     (if time < li_at previous then (y, None)
      else if time = li_at previous then
        (if li_source previous \<noteq> source
         then (write_life now k (previous\<lparr>li_conflict := True, li_predecessorRevision := None, li_revision := token\<rparr>)
                 True y, None)
         else (y, if li_conflict previous then None else Some previous))
      else let l = later_life token time source previous in (write_life now k l False y, Some l))"

definition begin_life ::
    "int \<Rightarrow> js_string \<Rightarrow> life_key \<Rightarrow> int \<Rightarrow> js_string \<Rightarrow> int option \<Rightarrow> window_store \<Rightarrow>
       window_store \<times> life option" where
  "begin_life now token k time source publishedAt y =
     (let l = first_life token time source publishedAt in (write_life now k l False y, Some l))"

definition lifecycle ::
    "int \<Rightarrow> js_string \<Rightarrow> life_key \<Rightarrow> int \<Rightarrow> js_string \<Rightarrow> int option \<Rightarrow> life option \<Rightarrow> window_store \<Rightarrow>
       window_store \<times> life option" where
  "lifecycle now token k time source publishedAt previous y =
     (case previous of
        Some l \<Rightarrow> continue_life now token k time source l y
      | None \<Rightarrow>
          (case prior_life now token k time source y of
             Refused \<Rightarrow> (y, None)
           | Introduced_At t \<Rightarrow> begin_life now token k time source (Some t) y
           | Known_Before l \<Rightarrow> continue_life now token k time source l y
           | Nothing_Known \<Rightarrow> begin_life now token k time source publishedAt y))"

fun lifecycle_op ::
    "int \<Rightarrow> js_string \<Rightarrow> js_string \<Rightarrow> int \<Rightarrow> int option \<Rightarrow> (compare_mode \<times> js_string) list \<Rightarrow> window_store \<Rightarrow>
       window_store" where
  "lifecycle_op now token member time publishedAt [] y = y"
| "lifecycle_op now token member time publishedAt ((mode, source) # sources) y =
     lifecycle_op now token member time publishedAt sources
       (fst (lifecycle now token (member, mode) time source publishedAt (get now (ws_life y) (member, mode)) y))"

definition invalidate ::
    "int \<Rightarrow> js_string \<Rightarrow> life_key \<Rightarrow> js_string \<Rightarrow> window_store \<Rightarrow> window_store" where
  "invalidate now token k source y =
     (let previous = (case get now (ws_life y) k of Some l \<Rightarrow> Some l | None \<Rightarrow> get now (ws_prior y) k) in
      case previous of
        Some l \<Rightarrow>
          if li_source l \<noteq> source
          then y\<lparr>ws_life := put now k
                   \<lparr>li_at = li_at l, li_source = source, li_conflict = True, li_revision = token,
                    li_introducedAt = 0, li_introducedKnown = False, li_predecessorRevision = None,
                    li_materializedRevision = li_materializedRevision l, li_materialized = li_materialized l\<rparr>
                   (eventExpiry now (li_at l)) True (ws_life y)\<rparr>
          else y
      | None \<Rightarrow>
          y\<lparr>ws_life := put now k
              \<lparr>li_at = 0, li_source = source, li_conflict = True, li_revision = token,
               li_introducedAt = 0, li_introducedKnown = False, li_predecessorRevision = None,
               li_materializedRevision = None, li_materialized = None\<rparr>
              (eventExpiry now now) True (ws_life y)\<rparr>)"

fun invalidate_op ::
    "int \<Rightarrow> js_string \<Rightarrow> js_string \<Rightarrow> (compare_mode \<times> js_string) list \<Rightarrow> window_store \<Rightarrow> window_store" where
  "invalidate_op now token member [] y = y"
| "invalidate_op now token member ((mode, source) # sources) y =
     invalidate_op now token member sources (invalidate now token (member, mode) source y)"

section \<open>Evidence\<close>

definition valid_life :: "int \<Rightarrow> compare_mode \<Rightarrow> original \<Rightarrow> window_store \<Rightarrow> bool" where
  "valid_life now mode ev y \<longleftrightarrow>
     (case get now (ws_life y) (or_member ev, mode) of
        Some l \<Rightarrow> \<not> li_conflict l \<and> li_source l = or_sourceDigest ev \<and> li_revision l = or_revision ev
      | None \<Rightarrow> False)"

definition valid_state :: "int \<Rightarrow> compare_mode \<Rightarrow> original \<Rightarrow> window_store \<Rightarrow> bool" where
  "valid_state now mode ev y \<longleftrightarrow>
     (case get now (ws_message y) (or_member ev, mode) of
        Some s \<Rightarrow>
          me_epoch s = or_epoch ev \<and> me_source s = or_sourceDigest ev \<and> me_identity s = or_contentDigest ev \<and>
          me_revision s = or_revision ev \<and> me_originalId s = or_originalId ev \<and>
          me_publishedAt s = or_publishedAtMs ev
      | None \<Rightarrow> False)"

definition valid :: "int \<Rightarrow> compare_mode \<Rightarrow> original \<Rightarrow> window_store \<Rightarrow> bool" where
  "valid now mode ev y \<longleftrightarrow>
     \<not> removed now (or_member ev) y \<and> epoch now (or_author ev) y = or_epoch ev \<and>
     valid_life now mode ev y \<and> valid_state now mode ev y"

definition valid_group :: "int \<Rightarrow> compare_mode \<Rightarrow> group_key \<Rightarrow> window_store \<Rightarrow> original option" where
  "valid_group now mode k y =
     (case get now (ws_group y) k of Some ev \<Rightarrow> if valid now mode ev y then Some ev else None | None \<Rightarrow> None)"

definition counterKey :: "int \<Rightarrow> js_string \<Rightarrow> js_string \<Rightarrow> original \<Rightarrow> window_store \<Rightarrow> count_key" where
  "counterKey now author fingerprint ev y =
     (author, fingerprint, or_originalId ev, or_epoch ev, epoch now author y)"

text \<open>The counter of a key, which starts with so many accepted occurrences.\<close>

definition count_at :: "int \<Rightarrow> int \<Rightarrow> count_key \<Rightarrow> window_store \<Rightarrow> occurrence_count" where
  "count_at now accepted k y =
     (case get now (ws_count y) k of Some n \<Rightarrow> n | None \<Rightarrow> \<lparr>oc_accepted = accepted, oc_qualified = 0\<rparr>)"

section \<open>Answers and requests\<close>

datatype window_kind = Ok | Replayed | Stale | Deadline_Exceeded

record window_result =
  wr_kind :: window_kind
  wr_count :: "int option"
  wr_qualified :: "int option"
  wr_observedAt :: "int option"
  wr_revision :: "js_string option"
  wr_original :: "original option"
  wr_matches :: "duplicate_match list"

definition answer_kind :: "window_kind \<Rightarrow> window_result" where
  "answer_kind k = \<lparr>wr_kind = k, wr_count = None, wr_qualified = None, wr_observedAt = None, wr_revision = None,
     wr_original = None, wr_matches = []\<rparr>"

record binding_check =
  ck_mode :: compare_mode
  ck_revision :: "js_string option"
  ck_member :: js_string
  ck_author :: js_string
  ck_source :: js_string
  ck_identity :: js_string
  ck_original :: original
  ck_fingerprint :: js_string
  ck_at :: int
  ck_allowed :: int
  ck_windowMs :: int
  ck_afterDelete :: bool

record observation =
  ob_mode :: compare_mode
  ob_scope :: js_string
  ob_member :: js_string
  ob_author :: js_string
  ob_messageId :: js_string
  ob_senderId :: js_string
  ob_at :: int
  ob_publishedAt :: "int option"
  ob_source :: js_string
  ob_lifecycleSource :: js_string
  ob_identity :: js_string
  ob_pendingSafe :: bool
  ob_mediaHashes :: "js_string list"
  ob_recompressionOriginal :: "original option"
  ob_fingerprints :: "js_string list"
  ob_allowed :: int
  ob_windowMs :: int
  ob_context :: js_string
  ob_period :: "(int \<times> int) option"

definition clamp_window :: "int \<Rightarrow> int" where "clamp_window ms = min ms DUPLICATE_WINDOW_MAX_MS"

definition before_period :: "int option \<Rightarrow> original \<Rightarrow> bool" where
  "before_period start ev \<longleftrightarrow> (case start of Some s \<Rightarrow> or_publishedAtMs ev < s | None \<Rightarrow> False)"

definition image_anchor ::
    "int \<Rightarrow> compare_mode \<Rightarrow> js_string \<Rightarrow> js_string \<Rightarrow> int \<Rightarrow> int option \<Rightarrow> window_store \<Rightarrow> window_result" where
  "image_anchor now mode scope fingerprint time start y =
     (case valid_group now mode (scope, fingerprint) y of
        Some ev \<Rightarrow>
          if mode \<noteq> Mode_Image \<or> time < or_publishedAtMs ev \<or> time \<ge> or_expiresAtMs ev \<or> before_period start ev
          then answer_kind Stale
          else (answer_kind Ok)\<lparr>wr_original := Some ev\<rparr>
      | None \<Rightarrow> answer_kind Stale)"

section \<open>Checking and qualifying a match\<close>

definition current_state :: "int \<Rightarrow> binding_check \<Rightarrow> window_store \<Rightarrow> message_state option" where
  "current_state now c y =
     (if ck_at c \<le> epoch now (ck_author c) y then None
      else if removed now (ck_member c) y \<and> \<not> ck_afterDelete c then None
      else
        (case get now (ws_message y) (ck_member c, ck_mode c) of
           None \<Rightarrow> None
         | Some s \<Rightarrow>
             if ck_revision c \<noteq> Some (me_revision s) \<or> me_at s \<noteq> ck_at c \<or> me_epoch s \<noteq> epoch now (ck_author c) y \<or>
                me_source s \<noteq> ck_source c \<or> me_identity s \<noteq> ck_identity c then None
             else
               (case get now (ws_life y) (ck_member c, ck_mode c) of
                  None \<Rightarrow> None
                | Some l \<Rightarrow>
                    if li_conflict l \<or> li_source l \<noteq> ck_source c \<or> ck_revision c \<noteq> Some (li_revision l) then None
                    else Some s)))"

definition is_match :: "int \<Rightarrow> binding_check \<Rightarrow> window_store \<Rightarrow> duplicate_match \<Rightarrow> bool" where
  "is_match now c y m \<longleftrightarrow>
     ma_fingerprint m = ck_fingerprint c \<and> or_member (ma_original m) = or_member (ck_original c) \<and>
     or_member (ma_original m) \<noteq> ck_member c \<and>
     or_originalId (ma_original m) = or_originalId (ck_original c) \<and>
     or_revision (ma_original m) = or_revision (ck_original c) \<and>
     or_epoch (ma_original m) = or_epoch (ck_original c) \<and> valid now (ck_mode c) (ma_original m) y \<and>
     ck_at c \<ge> or_publishedAtMs (ma_original m) \<and> ck_at c < or_expiresAtMs (ma_original m)"

text \<open>The first match of the list that is one, and the matches before and after it.\<close>

fun split_match :: "(duplicate_match \<Rightarrow> bool) \<Rightarrow> duplicate_match list \<Rightarrow>
    (duplicate_match list \<times> duplicate_match \<times> duplicate_match list) option" where
  "split_match f [] = None"
| "split_match f (m # ms) =
     (if f m then Some ([], m, ms)
      else (case split_match f ms of Some (xs, x, ys) \<Rightarrow> Some (m # xs, x, ys) | None \<Rightarrow> None))"

definition matching :: "int \<Rightarrow> binding_check \<Rightarrow> window_store \<Rightarrow>
    (message_state \<times> duplicate_match list \<times> duplicate_match \<times> duplicate_match list) option" where
  "matching now c y =
     (case current_state now c y of
        None \<Rightarrow> None
      | Some s \<Rightarrow> (case split_match (is_match now c y) (me_matches s) of Some r \<Rightarrow> Some (s, r) | None \<Rightarrow> None))"

definition match_count :: "duplicate_match \<Rightarrow> int" where
  "match_count m = (case ma_qualified m of Some q \<Rightarrow> q | None \<Rightarrow> ma_count m)"

definition check_op :: "int \<Rightarrow> binding_check \<Rightarrow> window_store \<Rightarrow> window_result" where
  "check_op now c y =
     (case matching now c y of
        None \<Rightarrow> answer_kind Stale
      | Some (_, _, m, _) \<Rightarrow> (answer_kind Ok)\<lparr>wr_count := Some (match_count m), wr_qualified := ma_qualified m\<rparr>)"

definition qualify_op :: "int \<Rightarrow> binding_check \<Rightarrow> window_store \<Rightarrow> window_result \<times> window_store" where
  "qualify_op now c y =
     (case matching now c y of
        None \<Rightarrow> (answer_kind Stale, y)
      | Some (s, before, m, after) \<Rightarrow>
          (case ma_qualified m of
             Some q \<Rightarrow> ((answer_kind Ok)\<lparr>wr_count := Some q\<rparr>, y)
           | None \<Rightarrow>
               if get now (ws_qualification y) (ck_member c) = Some (epoch now (ck_author c) y)
               then (answer_kind Stale, y)
               else
                 let key = counterKey now (ck_author c) (ck_fingerprint c) (ma_original m) y;
                     old = count_at now (ck_allowed c) key y;
                     n = old\<lparr>oc_qualified := min (20 - ck_allowed c) (oc_qualified old + 1)\<rparr>;
                     q = min 20 (ck_allowed c + oc_qualified n);
                     s' = s\<lparr>me_matches := before @ (m\<lparr>ma_qualified := Some q\<rparr>) # after\<rparr>;
                     expiry = windowExpiry now (clamp_window (ck_windowMs c)) (me_at s)
                 in ((answer_kind Ok)\<lparr>wr_count := Some q\<rparr>,
                     y\<lparr>ws_count := put now key n
                         (or_expiresAtMs (ma_original m) + MESSAGE_DUPLICATE_HISTORY_GRACE_MS) True (ws_count y),
                       ws_qualification := put now (ck_member c) (epoch now (ck_author c) y) expiry True
                         (ws_qualification y),
                       ws_message := put now (ck_member c, ck_mode c) s' expiry True (ws_message y)\<rparr>)))"

section \<open>Observing a message\<close>

definition recompression_anchored :: "int \<Rightarrow> observation \<Rightarrow> window_store \<Rightarrow> bool" where
  "recompression_anchored now o' y \<longleftrightarrow>
     (case ob_recompressionOriginal o' of
        None \<Rightarrow> True
      | Some expected \<Rightarrow>
          (case ob_fingerprints o' of
             [fingerprint] \<Rightarrow>
               ob_mode o' = Mode_Image \<and>
               (case valid_group now (ob_mode o') (ob_scope o', fingerprint) y of
                  Some ev \<Rightarrow>
                    or_member ev = or_member expected \<and> or_revision ev = or_revision expected \<and>
                    or_originalId ev = or_originalId expected \<and> or_epoch ev = or_epoch expected \<and>
                    or_contentDigest ev = or_contentDigest expected \<and> ob_at o' \<ge> or_publishedAtMs ev \<and>
                    ob_at o' < or_expiresAtMs ev \<and> \<not> before_period (map_option fst (ob_period o')) ev
                | None \<Rightarrow> False)
           | _ \<Rightarrow> False))"

text \<open>What was last materialised under the message's key, and the record of the previous version behind it.\<close>

definition materialized_revision :: "life option \<Rightarrow> bool" where
  "materialized_revision l \<longleftrightarrow> (case l of Some x \<Rightarrow> li_materializedRevision x \<noteq> None | None \<Rightarrow> False)"

definition behind ::
    "int \<Rightarrow> observation \<Rightarrow> window_store \<Rightarrow> life option" where
  "behind now o' y =
     (if \<not> materialized_revision (get now (ws_life y) (ob_member o', ob_mode o')) \<and> epoch now (ob_author o') y \<noteq> 0
      then get now (ws_prior y) (ob_member o', ob_mode o') else None)"

definition last_incarnation :: "int \<Rightarrow> observation \<Rightarrow> window_store \<Rightarrow> incarnation option" where
  "last_incarnation now o' y =
     (case (case get now (ws_life y) (ob_member o', ob_mode o') of Some l \<Rightarrow> li_materialized l | None \<Rightarrow> None) of
        Some i \<Rightarrow> Some i
      | None \<Rightarrow>
          (case (case behind now o' y of Some l \<Rightarrow> li_materialized l | None \<Rightarrow> None) of
             Some i \<Rightarrow> Some i
           | None \<Rightarrow>
               map_option (\<lambda>s. \<lparr>in_epoch = me_epoch s, in_at = me_at s, in_source = me_source s, in_identity = me_identity s\<rparr>)
                 (get now (ws_message y) (ob_member o', ob_mode o'))))"

definition revoked :: "int \<Rightarrow> observation \<Rightarrow> window_store \<Rightarrow> bool" where
  "revoked now o' y \<longleftrightarrow>
     (case last_incarnation now o' y of Some i \<Rightarrow> in_epoch i \<noteq> epoch now (ob_author o') y | None \<Rightarrow> False)"

definition admitted :: "int \<Rightarrow> observation \<Rightarrow> window_store \<Rightarrow> bool" where
  "admitted now o' y \<longleftrightarrow>
     \<not> removed now (ob_member o') y \<and> ob_at o' > epoch now (ob_author o') y \<and> recompression_anchored now o' y \<and>
     \<not> (revoked now o' y \<and>
        (case last_incarnation now o' y of
           Some i \<Rightarrow> ob_at o' \<le> in_at i \<or> ob_identity o' = [] \<or> in_identity i = [] \<or> ob_identity o' = in_identity i
         | None \<Rightarrow> False)) \<and>
     \<not> (last_incarnation now o' y = None \<and>
        (materialized_revision (get now (ws_life y) (ob_member o', ob_mode o')) \<or>
         materialized_revision (behind now o' y)) \<and> epoch now (ob_author o') y \<noteq> 0)"

definition replayed :: "message_state \<Rightarrow> window_result" where
  "replayed s = (answer_kind Replayed)\<lparr>wr_matches := me_matches s, wr_observedAt := Some (me_at s),
     wr_revision := Some (me_revision s)\<rparr>"

definition pending_replay :: "int \<Rightarrow> observation \<Rightarrow> window_store \<Rightarrow> message_state option" where
  "pending_replay now o' y =
     (case (get now (ws_message y) (ob_member o', ob_mode o'), get now (ws_life y) (ob_member o', ob_mode o')) of
        (Some s, Some l) \<Rightarrow>
          if me_epoch s = epoch now (ob_author o') y \<and> ob_at o' = me_at s \<and> ob_source o' = me_source s \<and>
             ob_identity o' = [] \<and> \<not> li_conflict l \<and> li_revision l = me_revision s \<and> li_source l = me_source s
          then Some s else None
      | _ \<Rightarrow> None)"

text \<open>The lifecycle after a reset, and after the loss of the message's state.\<close>

definition renew :: "js_string \<Rightarrow> life \<Rightarrow> life" where
  "renew token l = l\<lparr>li_revision := token, li_predecessorRevision := None\<rparr>"

definition reset_life ::
    "int \<Rightarrow> js_string \<Rightarrow> observation \<Rightarrow> window_store \<Rightarrow> life \<Rightarrow> life option" where
  "reset_life now token o' y l =
     (if revoked now o' y then
        (let same = (case last_incarnation now o' y of Some i \<Rightarrow> li_source l = in_source i | None \<Rightarrow> False);
             l = (if same \<or> behind now o' y \<noteq> None then l\<lparr>li_introducedAt := ob_at o'\<rparr> else l)
         in if \<not> li_introducedKnown l \<or> li_introducedAt l \<le> epoch now (ob_author o') y then None
            else Some (renew token l))
      else Some l)"

definition rebuilt_life :: "js_string \<Rightarrow> message_state option \<Rightarrow> life \<Rightarrow> life" where
  "rebuilt_life token previous l =
     (if previous = None \<and> li_materializedRevision l \<noteq> None then renew token l else l)"

definition same_event :: "observation \<Rightarrow> life \<Rightarrow> message_state \<Rightarrow> bool" where
  "same_event o' l s \<longleftrightarrow>
     me_context s = ob_context o' \<and> me_revision s = li_revision l \<and> me_source s = ob_source o' \<and>
     (me_identity s = ob_identity o' \<or> ob_identity o' = [] \<and> ob_pendingSafe o')"

definition other_bytes :: "observation \<Rightarrow> life \<Rightarrow> message_state \<Rightarrow> bool" where
  "other_bytes o' l s \<longleftrightarrow>
     me_revision s = li_revision l \<and> me_identity s \<noteq> [] \<and> ob_identity o' \<noteq> [] \<and> me_identity s \<noteq> ob_identity o'"

definition changed_life :: "js_string \<Rightarrow> observation \<Rightarrow> life \<Rightarrow> life" where
  "changed_life token o' l = (renew token l)\<lparr>li_introducedAt := ob_at o', li_introducedKnown := True\<rparr>"

definition continuity_of :: "int \<Rightarrow> observation \<Rightarrow> life \<Rightarrow> message_state option \<Rightarrow> continuity option" where
  "continuity_of currentEpoch o' l previous =
     (case previous of
        None \<Rightarrow> None
      | Some s \<Rightarrow>
          if me_epoch s = currentEpoch \<and> me_source s \<noteq> ob_source o' \<and> me_identity s \<noteq> [] \<and>
             li_predecessorRevision l = Some (me_revision s)
          then Some \<lparr>co_revision = me_revision s, co_identity = me_identity s, co_publishedAt = me_publishedAt s,
                 co_originalId = me_originalId s, co_context = me_context s, co_accepted = me_accepted s,
                 co_matches = me_matches s\<rparr>
          else if me_epoch s = currentEpoch \<and> me_revision s = li_revision l
          then (case me_continuity s of
                  Some c \<Rightarrow> if li_predecessorRevision l = Some (co_revision c) then Some c else None
                | None \<Rightarrow> None)
          else None)"

definition verified_continuity :: "observation \<Rightarrow> life \<Rightarrow> continuity option \<Rightarrow> continuity option" where
  "verified_continuity o' l c =
     (case c of
        Some c' \<Rightarrow>
          if ob_identity o' \<noteq> [] \<and> ob_identity o' = co_identity c' \<and> li_introducedKnown l \<and> li_source l = ob_source o'
          then Some c' else None
      | None \<Rightarrow> None)"

text \<open>The continuity whose occurrences are kept.\<close>

definition kept_continuity :: "observation \<Rightarrow> life \<Rightarrow> continuity option \<Rightarrow> continuity option" where
  "kept_continuity o' l c =
     (case verified_continuity o' l c of
        Some c' \<Rightarrow> if co_context c' = ob_context o' then Some c' else None
      | None \<Rightarrow> None)"

definition new_original :: "observation \<Rightarrow> int \<Rightarrow> life \<Rightarrow> js_string \<Rightarrow> int \<Rightarrow> int \<Rightarrow> original" where
  "new_original o' currentEpoch l originalId publishedAt expiresAt =
     \<lparr>or_member = ob_member o', or_author = ob_author o', or_messageId = ob_messageId o', or_senderId = ob_senderId o',
      or_publishedAtMs = publishedAt, or_observedAtMs = ob_at o', or_expiresAtMs = expiresAt,
      or_sourceDigest = ob_source o', or_contentDigest = ob_identity o', or_mediaHashes = ob_mediaHashes o',
      or_epoch = currentEpoch, or_revision = li_revision l, or_originalId = originalId\<rparr>"

datatype group_write =
    Start_Original group_key original
  | Count_Accepted js_string count_key occurrence_count int

text \<open>What one fingerprint asks for: a write, a match, or nothing.\<close>

datatype fingerprint_verdict = Wants group_write | Matches duplicate_match | Nothing

definition window_end :: "observation \<Rightarrow> int \<Rightarrow> int" where
  "window_end o' publishedAt =
     (case ob_period o' of Some (_, e) \<Rightarrow> e | None \<Rightarrow> publishedAt + clamp_window (ob_windowMs o'))"

fun last_such :: "('a \<Rightarrow> bool) \<Rightarrow> 'a list \<Rightarrow> 'a option" where
  "last_such f [] = None"
| "last_such f (x # xs) = (case last_such f xs of Some z \<Rightarrow> Some z | None \<Rightarrow> if f x then Some x else None)"

definition snapshot :: "continuity option \<Rightarrow> js_string \<Rightarrow> original \<Rightarrow> duplicate_match option" where
  "snapshot kept fingerprint ev =
     (case kept of
        Some c \<Rightarrow> last_such (\<lambda>m. ma_fingerprint m = fingerprint \<and> or_originalId (ma_original m) = or_originalId ev \<and>
                      or_revision (ma_original m) = or_revision ev) (co_matches c)
      | None \<Rightarrow> None)"

definition judge ::
    "int \<Rightarrow> observation \<Rightarrow> life \<Rightarrow> message_state \<Rightarrow> continuity option \<Rightarrow> window_store \<Rightarrow> js_string \<Rightarrow>
       fingerprint_verdict" where
  "judge now o' l s kept y fingerprint =
     (let key = (ob_scope o', fingerprint);
          found = (case valid_group now (ob_mode o') key y of
                     Some ev \<Rightarrow> if before_period (map_option fst (ob_period o')) ev then None else Some ev
                   | None \<Rightarrow> None) in
      case found of
        None \<Rightarrow>
          if window_end o' (me_publishedAt s) > ob_at o'
          then Wants (Start_Original key
                 (new_original o' (me_epoch s) l (me_originalId s) (me_publishedAt s) (window_end o' (me_publishedAt s))))
          else Nothing
      | Some ev \<Rightarrow>
          if me_publishedAt s \<ge> or_expiresAtMs ev then
            (if window_end o' (me_publishedAt s) > ob_at o'
             then Wants (Start_Original key
                    (new_original o' (me_epoch s) l (me_originalId s) (me_publishedAt s) (window_end o' (me_publishedAt s))))
             else Nothing)
          else if or_member ev \<noteq> ob_member o' \<and> me_publishedAt s \<ge> or_publishedAtMs ev \<and> ob_at o' < or_expiresAtMs ev then
            (let counter = counterKey now (ob_author o') fingerprint ev y;
                 n = count_at now 0 counter y in
             if fingerprint \<in> set (me_accepted s) then Nothing
             else if oc_accepted n < ob_allowed o'
             then Wants (Count_Accepted fingerprint counter (n\<lparr>oc_accepted := oc_accepted n + 1\<rparr>) (or_expiresAtMs ev))
             else Matches
               (case snapshot kept fingerprint ev of
                  Some m \<Rightarrow> m
                | None \<Rightarrow> \<lparr>ma_fingerprint = fingerprint, ma_original = ev,
                    ma_count = min 20 (ob_allowed o' + oc_qualified n + 1), ma_qualified = None\<rparr>))
          else Nothing)"

definition group_write :: "int \<Rightarrow> window_store \<Rightarrow> group_write \<Rightarrow> window_store" where
  "group_write now y w =
     (case w of
        Start_Original k ev \<Rightarrow>
          y\<lparr>ws_group := put now k ev (or_expiresAtMs ev + MESSAGE_DUPLICATE_HISTORY_GRACE_MS) False (ws_group y)\<rparr>
      | Count_Accepted _ k n expiresAt \<Rightarrow>
          y\<lparr>ws_count := put now k n (expiresAt + MESSAGE_DUPLICATE_HISTORY_GRACE_MS) True (ws_count y)\<rparr>)"

fun wanted :: "fingerprint_verdict list \<Rightarrow> group_write list" where
  "wanted [] = []"
| "wanted (v # vs) = (case v of Wants w \<Rightarrow> [w] | _ \<Rightarrow> []) @ wanted vs"

fun matched :: "fingerprint_verdict list \<Rightarrow> duplicate_match list" where
  "matched [] = []"
| "matched (v # vs) = (case v of Matches m \<Rightarrow> [m] | _ \<Rightarrow> []) @ matched vs"

fun newly_accepted :: "group_write list \<Rightarrow> js_string list" where
  "newly_accepted [] = []"
| "newly_accepted (w # ws) = (case w of Count_Accepted f _ _ _ \<Rightarrow> [f] | _ \<Rightarrow> []) @ newly_accepted ws"

text \<open>From the state of the message to the originals and the counters.\<close>

definition compare_with_originals ::
    "int \<Rightarrow> observation \<Rightarrow> life \<Rightarrow> message_state \<Rightarrow> continuity option \<Rightarrow> window_store \<Rightarrow>
       window_result \<times> window_store" where
  "compare_with_originals now o' l s kept y =
     (let verdicts = map (judge now o' l s kept y) (ob_fingerprints o');
          ms = matched verdicts;
          y' = (if ms = [] then foldl (group_write now) y (wanted verdicts) else y);
          s' = s\<lparr>me_matches := ms,
                 me_accepted := (if ms = [] then me_accepted s @ newly_accepted (wanted verdicts) else me_accepted s)\<rparr>
      in ((answer_kind Ok)\<lparr>wr_matches := ms, wr_observedAt := Some (me_at s), wr_revision := Some (me_revision s)\<rparr>,
          y'\<lparr>ws_message := put now (ob_member o', ob_mode o') s'
               (windowExpiry now (clamp_window (ob_windowMs o')) (me_at s)) True (ws_message y')\<rparr>))"

definition new_state :: "js_string \<Rightarrow> observation \<Rightarrow> int \<Rightarrow> life \<Rightarrow> message_state option \<Rightarrow> message_state" where
  "new_state token o' currentEpoch l previous =
     (let c = continuity_of currentEpoch o' l previous;
          fresh_id = (case previous of
                        Some s \<Rightarrow> if me_revision s = li_revision l then me_originalId s else token
                      | None \<Rightarrow> token)
      in \<lparr>me_at = ob_at o',
          me_publishedAt = (case verified_continuity o' l c of Some c' \<Rightarrow> co_publishedAt c' | None \<Rightarrow> li_introducedAt l),
          me_source = ob_source o', me_identity = ob_identity o', me_context = ob_context o', me_epoch = currentEpoch,
          me_revision = li_revision l,
          me_originalId = (case verified_continuity o' l c of Some c' \<Rightarrow> co_originalId c' | None \<Rightarrow> fresh_id),
          me_accepted = (case kept_continuity o' l c of
                           Some c' \<Rightarrow> filter (\<lambda>f. f \<in> set (co_accepted c')) (ob_fingerprints o')
                         | None \<Rightarrow> []),
          me_matches = [],
          me_continuity = (if ob_identity o' = [] \<and> ob_pendingSafe o' \<and> li_source l = ob_source o' then c else None)\<rparr>)"

text \<open>The lifecycle with the continuity and the incarnation of the new state in it.\<close>

definition continued_life :: "observation \<Rightarrow> life \<Rightarrow> continuity option \<Rightarrow> life" where
  "continued_life o' l c =
     (case verified_continuity o' l c of Some c' \<Rightarrow> l\<lparr>li_introducedAt := co_publishedAt c'\<rparr> | None \<Rightarrow> l)"

definition materialize :: "observation \<Rightarrow> int \<Rightarrow> life \<Rightarrow> life" where
  "materialize o' currentEpoch l =
     l\<lparr>li_materializedRevision := Some (li_revision l),
       li_materialized := Some \<lparr>in_epoch = currentEpoch, in_at = ob_at o', in_source = ob_source o',
         in_identity = ob_identity o'\<rparr>\<rparr>"

definition recorded ::
    "int \<Rightarrow> observation \<Rightarrow> life \<Rightarrow> message_state \<Rightarrow> window_store \<Rightarrow> window_store" where
  "recorded now o' l s y =
     y\<lparr>ws_life := put now (ob_member o', ob_mode o') l (eventExpiry now (li_at l)) True (ws_life y),
       ws_message := put now (ob_member o', ob_mode o') s (windowExpiry now (clamp_window (ob_windowMs o')) (me_at s))
         False (ws_message y)\<rparr>"

definition record_state ::
    "int \<Rightarrow> js_string \<Rightarrow> observation \<Rightarrow> life \<Rightarrow> message_state option \<Rightarrow> window_store \<Rightarrow>
       window_result \<times> window_store" where
  "record_state now token o' l previous y =
     (let key = (ob_member o', ob_mode o');
          currentEpoch = epoch now (ob_author o') y;
          c = continuity_of currentEpoch o' l previous;
          s = new_state token o' currentEpoch l previous;
          l1 = continued_life o' l c;
          y1 = (if verified_continuity o' l c \<noteq> None then write_life now key l1 True y else y);
          l2 = materialize o' currentEpoch l1;
          y3 = recorded now o' l2 s y1
      in if ob_identity o' = [] \<or> \<not> li_introducedKnown l2
         then ((answer_kind Ok)\<lparr>wr_revision := Some (li_revision l2)\<rparr>, y3)
         else if (case ob_period o' of Some (a, b) \<Rightarrow> me_publishedAt s < a \<or> me_publishedAt s \<ge> b | None \<Rightarrow> False)
         then (answer_kind Ok, y3)
         else compare_with_originals now o' l2 s (kept_continuity o' l c) y3)"

text \<open>From the lifecycle to the state: a repeated event, or new bytes under the same locator.\<close>

definition proceed ::
    "int \<Rightarrow> js_string \<Rightarrow> observation \<Rightarrow> life \<Rightarrow> message_state option \<Rightarrow> window_store \<Rightarrow>
       window_result \<times> window_store" where
  "proceed now token o' l previous y =
     (case previous of
        None \<Rightarrow> record_state now token o' l previous y
      | Some s \<Rightarrow>
          if me_epoch s \<noteq> epoch now (ob_author o') y then record_state now token o' l previous y
          else if ob_at o' < me_at s then (answer_kind Stale, y)
          else if same_event o' l s then (replayed s, y)
          else if other_bytes o' l s
          then record_state now token o' (changed_life token o' l) previous
                 (write_life now (ob_member o', ob_mode o') (changed_life token o' l) True y)
          else record_state now token o' l previous y)"

definition observe_op :: "int \<Rightarrow> js_string \<Rightarrow> observation \<Rightarrow> window_store \<Rightarrow> window_result \<times> window_store" where
  "observe_op now token o' y =
     (let key = (ob_member o', ob_mode o'); previous = get now (ws_message y) key in
      if \<not> admitted now o' y then (answer_kind Stale, y)
      else
        (case pending_replay now o' y of
           Some s \<Rightarrow> (replayed s, y)
         | None \<Rightarrow>
             (case lifecycle now token key (ob_at o') (ob_lifecycleSource o') (ob_publishedAt o')
                     (get now (ws_life y) key) y of
                (y1, None) \<Rightarrow> (answer_kind Stale, y1)
              | (y1, Some l) \<Rightarrow>
                  (case reset_life now token o' y l of
                     None \<Rightarrow> (answer_kind Stale, y1)
                   | Some l1 \<Rightarrow> proceed now token o' (rebuilt_life token previous l1) previous y1))))"

section \<open>The script\<close>

datatype window_request =
    Reset_Op js_string
  | Remove_Op js_string
  | Lifecycle_Op js_string int "int option" "(compare_mode \<times> js_string) list"
  | Invalidate_Op js_string "(compare_mode \<times> js_string) list"
  | Image_Anchor_Op compare_mode js_string js_string int "int option"
  | Check_Op binding_check
  | Qualify_Op binding_check
  | Observe_Op observation

definition window_script ::
    "int \<Rightarrow> int \<Rightarrow> js_string \<Rightarrow> window_request \<Rightarrow> window_store \<Rightarrow> window_result \<times> window_store" where
  "window_script now deadline token request y =
     (if now > deadline then (answer_kind Deadline_Exceeded, y)
      else
        (case request of
           Reset_Op author \<Rightarrow> (answer_kind Ok, reset_op now author y)
         | Remove_Op member \<Rightarrow> (answer_kind Ok, remove_op now member y)
         | Lifecycle_Op member time publishedAt sources \<Rightarrow>
             (answer_kind Ok, lifecycle_op now token member time publishedAt sources y)
         | Invalidate_Op member sources \<Rightarrow> (answer_kind Ok, invalidate_op now token member sources y)
         | Image_Anchor_Op mode scope fingerprint time start \<Rightarrow>
             (image_anchor now mode scope fingerprint time start y, y)
         | Check_Op c \<Rightarrow> (check_op now c y, y)
         | Qualify_Op c \<Rightarrow> qualify_op now c y
         | Observe_Op o' \<Rightarrow> observe_op now token o' y))"

section \<open>What a call touches\<close>

lemma get_put_other [simp]: "k' \<noteq> k \<Longrightarrow> get now (put t k v e pres m) k' = get now m k'"
  by (simp add: get_def put_def Let_def)

lemma put_other [simp]: "k' \<noteq> k \<Longrightarrow> put t k v e pres m k' = m k'"
  by (simp add: put_def Let_def)

lemma put_value: "\<exists>x. put now k v e pres m k = Some (v, x) \<and> x \<le> e \<and> x \<le> now + MESSAGE_DUPLICATE_HISTORY_RETENTION_MS"
  by (auto simp: put_def Let_def split: option.split)

lemma put_keeps_expiry:
  assumes "m k = Some (u, x)" "x > now"
  shows "\<exists>x'. put now k v e True m k = Some (v, x') \<and> x' \<le> x"
  using assms by (simp add: put_def Let_def)

lemma get_put_same:
  "get now m k = Some u \<Longrightarrow> get now (put now k v e True m) k = Some v \<or> get now (put now k v e True m) k = None"
  by (auto simp: get_def put_def Let_def split: option.split)

lemma get_put_or_None: "get now (put now k v e pres m) k = Some u \<Longrightarrow> u = v"
  by (auto simp: get_def put_def Let_def split: option.splits if_splits)

text \<open>A second write of the same key in the same call keeps the expiry of the first.\<close>

lemma put_put_expiry: "put now k v e True (put now k v' e pres m) k = map_option (\<lambda>(_, x). (v, x)) (put now k v' e pres m k)"
  by (auto simp: put_def Let_def split: option.split)

definition life_only :: "life_key \<Rightarrow> window_store \<Rightarrow> window_store \<Rightarrow> bool" where
  "life_only k y z \<longleftrightarrow> (\<exists>m. z = y\<lparr>ws_life := m\<rparr> \<and> (\<forall>k'. k' \<noteq> k \<longrightarrow> m k' = ws_life y k'))"

lemma life_only_refl [simp]: "life_only k y y"
  unfolding life_only_def by (rule exI [of _ "ws_life y"]) simp

lemma life_only_write [simp]: "life_only k y (write_life now k l pres y)"
  unfolding life_only_def write_life_def by (rule exI) auto

lemma life_only_trans: "life_only k x y \<Longrightarrow> life_only k y z \<Longrightarrow> life_only k x z"
  by (auto simp: life_only_def)

lemma life_only_fields:
  assumes "life_only k y z"
  shows "ws_reset z = ws_reset y" "ws_removed z = ws_removed y" "ws_prior z = ws_prior y"
    "ws_message z = ws_message y" "ws_group z = ws_group y" "ws_count z = ws_count y"
    "ws_qualification z = ws_qualification y"
  using assms by (auto simp: life_only_def)

lemma life_only_epoch: "life_only k y z \<Longrightarrow> epoch now a z = epoch now a y"
  by (simp add: epoch_def life_only_fields)

lemma life_only_removed: "life_only k y z \<Longrightarrow> removed now a z = removed now a y"
  by (simp add: removed_def life_only_fields)

lemma life_only_other: "life_only k y z \<Longrightarrow> k' \<noteq> k \<Longrightarrow> ws_life z k' = ws_life y k'"
  unfolding life_only_def by (cases k') auto


lemma continue_life_only: "continue_life now token k time source l y = (z, r) \<Longrightarrow> life_only k y z"
  by (auto simp: continue_life_def Let_def split: if_splits)

lemma lifecycle_only: "lifecycle now token k time source publishedAt previous y = (z, r) \<Longrightarrow> life_only k y z"
  by (auto simp: lifecycle_def begin_life_def Let_def split: option.splits prior_verdict.splits
      dest: continue_life_only)

text \<open>A lifecycle that does not carry the call's token carries the revision and the incarnation it had.\<close>

definition carries :: "js_string \<Rightarrow> life_key \<Rightarrow> window_store \<Rightarrow> life \<Rightarrow> bool" where
  "carries token k y l \<longleftrightarrow>
     li_revision l = token \<or>
     (\<exists>pl e. ws_life y k = Some (pl, e) \<and> li_revision pl = li_revision l \<and> li_materialized pl = li_materialized l \<and>
        li_materializedRevision pl = li_materializedRevision l)"

definition life_step :: "js_string \<Rightarrow> life_key \<Rightarrow> window_store \<Rightarrow> window_store \<Rightarrow> bool" where
  "life_step token k y z \<longleftrightarrow>
     life_only k y z \<and> (\<forall>l e. ws_life z k = Some (l, e) \<longrightarrow> carries token k y l)"

lemma carries_same: "ws_life y k = Some (l, e) \<Longrightarrow> carries token k y l"
  by (auto simp: carries_def)

lemma life_step_refl [simp]: "life_step token k y y"
  by (auto simp: life_step_def carries_same)

lemma life_step_write: "carries token k y l \<Longrightarrow> life_step token k y (write_life now k l pres y)"
  using put_value [of now k l "eventExpiry now (li_at l)" pres "ws_life y"]
  by (auto simp: life_step_def life_only_write) (auto simp: write_life_def)

lemma carries_trans: "carries token k z l \<Longrightarrow> life_step token k y z \<Longrightarrow> carries token k y l"
  unfolding life_step_def carries_def by metis

lemma life_step_trans: "life_step token k x y \<Longrightarrow> life_step token k y z \<Longrightarrow> life_step token k x z"
  unfolding life_step_def [of token k x z]
  using carries_trans life_only_trans life_step_def by blast

lemma life_step_only: "life_step token k y z \<Longrightarrow> life_only k y z"
  by (simp add: life_step_def)

lemma get_SomeD: "get now m k = Some v \<Longrightarrow> \<exists>e. m k = Some (v, e) \<and> e > now"
  by (auto simp: get_def split: option.splits if_splits)

lemma continue_life_step:
  assumes "continue_life now token k time source l y = (z, r)" and "carries token k y l"
  shows "life_step token k y z \<and> (case r of Some l' \<Rightarrow> carries token k y l' | None \<Rightarrow> True)"
proof -
  have later: "carries token k y (later_life token time source l)"
    using assms(2) by (auto simp: carries_def later_life_def Let_def)
  have conflict: "carries token k y (l\<lparr>li_conflict := True, li_predecessorRevision := None, li_revision := token\<rparr>)"
    by (simp add: carries_def)
  show ?thesis
    using assms life_step_write [OF later] life_step_write [OF conflict] later
    by (auto simp: continue_life_def Let_def split: if_splits)
qed

lemma lifecycle_step:
  assumes "lifecycle now token k time source publishedAt (get now (ws_life y) k) y = (z, r)"
  shows "life_step token k y z \<and>
    (case r of Some l \<Rightarrow> carries token k y l \<and> (get now (ws_life y) k = None \<longrightarrow> li_revision l = token) | None \<Rightarrow> True)"
proof (cases "get now (ws_life y) k")
  case (Some l)
  then have "carries token k y l" using carries_same get_SomeD by metis
  then show ?thesis
    using assms Some continue_life_step [of now token k time source l y z r]
    by (auto simp: lifecycle_def split: option.splits)
next
  case None
  have first: "carries token k y (first_life token time source p)" for p
    by (simp add: carries_def first_life_def)
  have first_revision: "li_revision (first_life token time source p) = token" for p
    by (simp add: first_life_def)
  have known: "li_revision l = token" if "prior_life now token k time source y = Known_Before l" for l
    using that by (auto simp: prior_life_def split: option.splits if_splits)
  have kept: "li_revision l' = token" if "continue_life now token k time source l y = (z, Some l')" "li_revision l = token" for l l'
    using that by (auto simp: continue_life_def later_life_def Let_def split: if_splits)
  have known': "carries token k y l" if "prior_life now token k time source y = Known_Before l" for l
    using known [OF that] by (simp add: carries_def)
  show ?thesis
  proof (cases "prior_life now token k time source y")
    case (Known_Before l)
    then have "continue_life now token k time source l y = (z, r)" using assms None by (simp add: lifecycle_def)
    moreover from continue_life_step [OF this known' [OF Known_Before]] have "life_step token k y z" by blast
    ultimately show ?thesis
      using kept [of l] known [OF Known_Before] by (cases r) (simp_all add: carries_def)
  qed (use assms None first life_step_write [OF first] in
      \<open>auto simp: lifecycle_def begin_life_def Let_def first_revision\<close>)
qed

text \<open>Whose lifecycle a fresh record may carry on.\<close>

definition current :: "observation \<Rightarrow> life \<Rightarrow> bool" where
  "current o' l \<longleftrightarrow> li_at l = ob_at o' \<and> li_source l = ob_lifecycleSource o' \<and> \<not> li_conflict l"

lemma lifecycle_current:
  assumes "lifecycle now token k (ob_at o') (ob_lifecycleSource o') publishedAt previous y = (z, Some l)"
  shows "current o' l"
proof -
  have continued: "current o' l'"
    if "continue_life now token k (ob_at o') (ob_lifecycleSource o') p y = (z, Some l')" for p l'
    using that by (auto simp: continue_life_def later_life_def Let_def current_def split: if_splits)
  show ?thesis
    using assms continued
    by (auto simp: lifecycle_def begin_life_def first_life_def current_def Let_def
        split: option.splits prior_verdict.splits)
qed

lemma reset_current: "reset_life now token o' y l = Some l1 \<Longrightarrow> current o' l \<Longrightarrow> current o' (rebuilt_life token p l1)"
  by (auto simp: reset_life_def rebuilt_life_def renew_def current_def Let_def split: if_splits)

definition continues :: "int \<Rightarrow> js_string \<Rightarrow> observation \<Rightarrow> window_store \<Rightarrow> life \<Rightarrow> bool" where
  "continues now token o' y l \<longleftrightarrow>
     li_revision l = token \<or>
     \<not> revoked now o' y \<and> get now (ws_life y) (ob_member o', ob_mode o') \<noteq> None \<and>
     (\<exists>pl e. ws_life y (ob_member o', ob_mode o') = Some (pl, e) \<and> li_revision pl = li_revision l \<and>
        li_materialized pl = li_materialized l \<and> li_materializedRevision pl = li_materializedRevision l \<and>
        (get now (ws_message y) (ob_member o', ob_mode o') = None \<longrightarrow> li_materializedRevision pl = None))"

lemma rebuilt_continues:
  assumes "carries token (ob_member o', ob_mode o') y l"
    "get now (ws_life y) (ob_member o', ob_mode o') = None \<longrightarrow> li_revision l = token" "reset_life now token o' y l = Some l1"
  shows "continues now token o' y (rebuilt_life token (get now (ws_message y) (ob_member o', ob_mode o')) l1)"
proof (cases "revoked now o' y")
  case True
  then have "li_revision l1 = token"
    using assms(3) by (auto simp: reset_life_def renew_def Let_def split: if_splits)
  then show ?thesis by (auto simp: continues_def rebuilt_life_def renew_def)
next
  case False
  then show ?thesis
    using assms by (auto simp: reset_life_def carries_def continues_def rebuilt_life_def renew_def)
qed

text \<open>How a call of \<^verbatim>\<open>observe\<close> ends.\<close>

lemma observe_cases:
  assumes "observe_op now token o' y = (r, z)"
  obtains
    (stale) "r = answer_kind Stale" "life_step token (ob_member o', ob_mode o') y z"
  | (again) s where "r = replayed s" "get now (ws_message y) (ob_member o', ob_mode o') = Some s"
      "life_step token (ob_member o', ob_mode o') y z" "me_epoch s = epoch now (ob_author o') y"
  | (fresh) l y1 where "life_step token (ob_member o', ob_mode o') y y1" "admitted now o' y" "continues now token o' y l" "current o' l"
      "record_state now token o' l (get now (ws_message y) (ob_member o', ob_mode o')) y1 = (r, z)"
proof -
  let ?k = "(ob_member o', ob_mode o')"
  show thesis
  proof (cases "admitted now o' y")
    case False
    then show ?thesis using assms stale by (simp add: observe_op_def)
  next
    case adm: True
    show ?thesis
    proof (cases "pending_replay now o' y")
      case (Some s)
      then have "get now (ws_message y) ?k = Some s" "me_epoch s = epoch now (ob_author o') y"
        by (auto simp: pending_replay_def split: option.splits if_splits)
      moreover have "r = replayed s" "z = y" using assms adm Some by (simp_all add: observe_op_def)
      ultimately show ?thesis using again [of s] by simp
    next
      case None
      obtain y1 lo where life: "lifecycle now token ?k (ob_at o') (ob_lifecycleSource o') (ob_publishedAt o')
          (get now (ws_life y) ?k) y = (y1, lo)" by fastforce
      have only: "life_step token ?k y y1" using lifecycle_step [OF life] by simp
      note only' = life_step_only [OF only]
      show ?thesis
      proof (cases "case lo of None \<Rightarrow> None | Some l \<Rightarrow> reset_life now token o' y l")
        case refused: None
        then have "r = answer_kind Stale" "z = y1"
          using assms adm None life by (auto simp: observe_op_def split: option.splits)
        then show ?thesis using only stale by simp
      next
        case (Some l1)
        then obtain l where l: "lo = Some l" "reset_life now token o' y l = Some l1" by (auto split: option.splits)
        have "carries token ?k y l" "get now (ws_life y) ?k = None \<longrightarrow> li_revision l = token"
          using lifecycle_step [OF life] l(1) by simp_all
        note cont = rebuilt_continues [OF this l(2)]
        note cur = reset_current [OF l(2) lifecycle_current [OF life [unfolded l(1)]]]
        let ?p = "get now (ws_message y) ?k" and ?l = "rebuilt_life token (get now (ws_message y) ?k) l1"
        have p: "proceed now token o' ?l ?p y1 = (r, z)"
          using assms adm None life Some by (auto simp: observe_op_def Let_def split: option.splits)
        show ?thesis
        proof (cases ?p)
          case none: None
          then show ?thesis using p fresh [OF only adm cont cur] by (simp add: proceed_def)
        next
          case (Some s)
          consider "record_state now token o' ?l ?p y1 = (r, z)"
            | "(r, z) = (answer_kind Stale, y1)"
            | "(r, z) = (replayed s, y1)" "me_epoch s = epoch now (ob_author o') y"
            | "record_state now token o' (changed_life token o' ?l) ?p
                 (write_life now ?k (changed_life token o' ?l) True y1) = (r, z)"
            using p life_only_epoch [OF only', of now "ob_author o'"] unfolding Some proceed_def option.case
            by argo
          then show ?thesis
          proof cases
            case 1 then show ?thesis using fresh [OF only adm cont cur] by simp
          next
            case 2 then show ?thesis using stale only by simp
          next
            case 3 then show ?thesis using again Some only by simp
          next
            case 4
            have new: "li_revision (changed_life token o' ?l) = token" by (simp add: changed_life_def renew_def)
            then have "carries token ?k y1 (changed_life token o' ?l)" by (simp add: carries_def)
            note step = life_step_trans [OF only life_step_write [OF this]]
            have "continues now token o' y (changed_life token o' ?l)" using new by (simp add: continues_def)
            moreover have "current o' (changed_life token o' ?l)"
              using cur by (simp add: current_def changed_life_def renew_def)
            ultimately show ?thesis using fresh [OF step adm _ _ 4] by blast
          qed
        qed
      qed
    qed
  qed
qed

lemma recorded_fields [simp]:
  "ws_reset (recorded now o' l s y) = ws_reset y" "ws_removed (recorded now o' l s y) = ws_removed y"
  "ws_prior (recorded now o' l s y) = ws_prior y" "ws_group (recorded now o' l s y) = ws_group y"
  "ws_count (recorded now o' l s y) = ws_count y" "ws_qualification (recorded now o' l s y) = ws_qualification y"
  by (simp_all add: recorded_def)

lemma record_state_cases:
  assumes "record_state now token o' l previous y = (r, z)"
  obtains l2 y1 where "life_only (ob_member o', ob_mode o') y y1"
      "li_revision l2 = li_revision l" "li_materializedRevision l2 = Some (li_revision l)"
      "li_materialized l2 = Some \<lparr>in_epoch = epoch now (ob_author o') y, in_at = ob_at o', in_source = ob_source o',
         in_identity = ob_identity o'\<rparr>"
      "li_source l2 = li_source l" "li_conflict l2 = li_conflict l" "li_at l2 = li_at l"
      "let s = new_state token o' (epoch now (ob_author o') y) l previous;
           y3 = recorded now o' l2 s y1
       in wr_kind r = Ok \<and> wr_matches r = [] \<and> z = y3 \<or>
          compare_with_originals now o' l2 s
            (kept_continuity o' l (continuity_of (epoch now (ob_author o') y) o' l previous)) y3 = (r, z)"
proof -
  let ?c = "continuity_of (epoch now (ob_author o') y) o' l previous"
  let ?k = "(ob_member o', ob_mode o')"
  define l1 where "l1 = continued_life o' l ?c"
  define y1 where "y1 = (if verified_continuity o' l ?c \<noteq> None then write_life now ?k l1 True y else y)"
  define l2 where "l2 = materialize o' (epoch now (ob_author o') y) l1"
  define y3 where "y3 = recorded now o' l2 (new_state token o' (epoch now (ob_author o') y) l previous) y1"
  have 1: "life_only ?k y y1" by (simp add: y1_def)
  define s where "s = new_state token o' (epoch now (ob_author o') y) l previous"
  have "record_state now token o' l previous y =
      (if ob_identity o' = [] \<or> \<not> li_introducedKnown l2
         then ((answer_kind Ok)\<lparr>wr_revision := Some (li_revision l2)\<rparr>, y3)
         else if (case ob_period o' of Some (a, b) \<Rightarrow> me_publishedAt s < a \<or> me_publishedAt s \<ge> b | None \<Rightarrow> False)
         then (answer_kind Ok, y3)
         else compare_with_originals now o' l2 s (kept_continuity o' l ?c) y3)"
    by (simp only: record_state_def Let_def l1_def y1_def l2_def y3_def s_def)
  then have 2: "wr_kind r = Ok \<and> wr_matches r = [] \<and> z = y3 \<or>
      compare_with_originals now o' l2 s (kept_continuity o' l ?c) y3 = (r, z)"
    using assms by (simp add: answer_kind_def split: if_splits)
  have "li_revision l1 = li_revision l \<and> li_source l1 = li_source l \<and> li_conflict l1 = li_conflict l \<and> li_at l1 = li_at l"
    by (simp add: l1_def continued_life_def split: option.split)
  then show thesis
    by (intro that [OF 1, of l2]) (use 2 in \<open>simp_all only: Let_def y3_def s_def\<close>, simp_all add: l2_def materialize_def)
qed

lemma compare_cases:
  assumes "compare_with_originals now o' l s kept y = (r, z)"
  obtains verdicts s' where "verdicts = map (judge now o' l s kept y) (ob_fingerprints o')"
      "wr_kind r = Ok" "wr_matches r = matched verdicts"
      "me_revision s' = me_revision s" "me_epoch s' = me_epoch s" "me_source s' = me_source s"
      "me_identity s' = me_identity s" "me_originalId s' = me_originalId s" "me_publishedAt s' = me_publishedAt s"
      "me_at s' = me_at s" "me_context s' = me_context s" "me_matches s' = matched verdicts"
      "z = (if matched verdicts = [] then foldl (group_write now) y (wanted verdicts) else y)\<lparr>ws_message :=
         put now (ob_member o', ob_mode o') s' (windowExpiry now (clamp_window (ob_windowMs o')) (me_at s)) True
           (ws_message y)\<rparr>"
proof -
  let ?v = "map (judge now o' l s kept y) (ob_fingerprints o')"
  define s' where "s' = s\<lparr>me_matches := matched ?v,
      me_accepted := (if matched ?v = [] then me_accepted s @ newly_accepted (wanted ?v) else me_accepted s)\<rparr>"
  have message: "ws_message (foldl (group_write now) y ws) = ws_message y" for ws
    by (induction ws arbitrary: y) (simp_all add: group_write_def split: group_write.split)
  have eq: "compare_with_originals now o' l s kept y =
      ((answer_kind Ok)\<lparr>wr_matches := matched ?v, wr_observedAt := Some (me_at s), wr_revision := Some (me_revision s)\<rparr>,
       (if matched ?v = [] then foldl (group_write now) y (wanted ?v) else y)\<lparr>ws_message :=
         put now (ob_member o', ob_mode o') s' (windowExpiry now (clamp_window (ob_windowMs o')) (me_at s)) True
           (ws_message y)\<rparr>)"
    by (simp add: compare_with_originals_def Let_def s'_def message)
  show thesis
    by (rule that [of ?v s', OF refl]) (use assms in \<open>simp_all add: eq s'_def answer_kind_def\<close>, auto)
qed

lemma group_write_fields [simp]:
  "ws_reset (foldl (group_write now) y ws) = ws_reset y" "ws_removed (foldl (group_write now) y ws) = ws_removed y"
  "ws_prior (foldl (group_write now) y ws) = ws_prior y" "ws_life (foldl (group_write now) y ws) = ws_life y"
  "ws_message (foldl (group_write now) y ws) = ws_message y"
  "ws_qualification (foldl (group_write now) y ws) = ws_qualification y"
  by (induction ws arbitrary: y; simp add: group_write_def split: group_write.split)+

text \<open>An observation leaves the fences alone, and a duplicate leaves the originals and the counters alone.\<close>

lemma record_fences:
  assumes "record_state now token o' l previous y = (r, z)"
  shows "ws_reset z = ws_reset y \<and> ws_removed z = ws_removed y \<and> ws_prior z = ws_prior y \<and>
    ws_qualification z = ws_qualification y"
  using assms
proof (cases rule: record_state_cases)
  case (1 l2 y1)
  then show ?thesis
    using life_only_fields [OF 1(1)] unfolding Let_def by (auto elim!: compare_cases)
qed

lemma observe_fences:
  assumes "observe_op now token o' y = (r, z)"
  shows "ws_reset z = ws_reset y \<and> ws_removed z = ws_removed y \<and> ws_prior z = ws_prior y \<and>
    ws_qualification z = ws_qualification y"
  using assms
proof (cases rule: observe_cases)
  case (fresh l y1)
  note fresh = life_step_only [OF fresh(1)] fresh(2,5)
  then show ?thesis using record_fences [OF fresh(3)] by (simp add: life_only_fields)
qed (simp_all add: life_only_fields [OF life_step_only])



section \<open>Duplicates are proved\<close>

lemma valid_cong:
  assumes "ws_reset y = ws_reset z" "ws_removed y = ws_removed z"
    "get now (ws_life y) (or_member ev, mode) = get now (ws_life z) (or_member ev, mode)"
    "get now (ws_message y) (or_member ev, mode) = get now (ws_message z) (or_member ev, mode)"
  shows "valid now mode ev y = valid now mode ev z"
  using assms by (simp add: valid_def removed_def epoch_def valid_life_def valid_state_def)

lemma valid_group_SomeD:
  "valid_group now mode k y = Some ev \<Longrightarrow> get now (ws_group y) k = Some ev \<and> valid now mode ev y"
  by (auto simp: valid_group_def split: option.splits if_splits)

lemma valid_groupI: "get now (ws_group y) k = Some ev \<Longrightarrow> valid now mode ev y \<Longrightarrow> valid_group now mode k y = Some ev"
  by (simp add: valid_group_def)

definition accepted_so_far :: "int \<Rightarrow> count_key \<Rightarrow> window_store \<Rightarrow> int" where
  "accepted_so_far now k y = oc_accepted (count_at now 0 k y)"

lemma last_such_holds: "last_such f xs = Some x \<Longrightarrow> x \<in> set xs \<and> f x"
  by (induction xs) (auto split: option.splits if_splits)

definition proves :: "duplicate_match \<Rightarrow> js_string \<Rightarrow> original \<Rightarrow> bool" where
  "proves m fingerprint ev \<longleftrightarrow>
     ma_fingerprint m = fingerprint \<and> or_originalId (ma_original m) = or_originalId ev \<and>
     or_revision (ma_original m) = or_revision ev"

lemma snapshot_proves: "snapshot kept f ev = Some m \<Longrightarrow> proves m f ev"
  by (auto simp: snapshot_def proves_def split: option.splits dest: last_such_holds)

lemma judge_match:
  assumes "judge now o' l s kept y f = Matches m"
  obtains ev where "valid_group now (ob_mode o') (ob_scope o', f) y = Some ev" "proves m f ev"
    "or_member ev \<noteq> ob_member o'" "or_publishedAtMs ev \<le> me_publishedAt s" "me_publishedAt s < or_expiresAtMs ev"
    "ob_at o' < or_expiresAtMs ev" "f \<notin> set (me_accepted s)"
    "accepted_so_far now (counterKey now (ob_author o') f ev y) y \<ge> ob_allowed o'"
proof (cases "valid_group now (ob_mode o') (ob_scope o', f) y")
  case None
  then show ?thesis using assms by (auto simp: judge_def Let_def split: if_splits)
next
  case (Some ev)
  have "proves m f ev"
    using assms Some snapshot_proves [of kept f ev]
    by (auto simp: judge_def Let_def proves_def split: if_splits option.splits)
  moreover have "or_member ev \<noteq> ob_member o'" "or_publishedAtMs ev \<le> me_publishedAt s"
      "me_publishedAt s < or_expiresAtMs ev" "ob_at o' < or_expiresAtMs ev" "f \<notin> set (me_accepted s)"
      "accepted_so_far now (counterKey now (ob_author o') f ev y) y \<ge> ob_allowed o'"
    using assms Some by (auto simp: judge_def Let_def accepted_so_far_def split: if_splits option.splits)
  ultimately show ?thesis using that Some by blast
qed

lemma matched_judge:
  "m \<in> set (matched (map g fs)) \<longleftrightarrow> (\<exists>f \<in> set fs. g f = Matches m)"
  by (induction fs) (auto split: fingerprint_verdict.split)

text \<open>What a duplicate answered by \<^verbatim>\<open>observe\<close> stands on, in the store after the call.\<close>

definition duplicate_proved :: "int \<Rightarrow> observation \<Rightarrow> duplicate_match \<Rightarrow> window_store \<Rightarrow> bool" where
  "duplicate_proved now o' m z \<longleftrightarrow>
     (\<exists>ev s e. valid_group now (ob_mode o') (ob_scope o', ma_fingerprint m) z = Some ev \<and>
        ma_fingerprint m \<in> set (ob_fingerprints o') \<and>
        or_originalId (ma_original m) = or_originalId ev \<and> or_revision (ma_original m) = or_revision ev \<and>
        or_member ev \<noteq> ob_member o' \<and> ob_at o' < or_expiresAtMs ev \<and>
        ws_message z (ob_member o', ob_mode o') = Some (s, e) \<and>
        or_publishedAtMs ev \<le> me_publishedAt s \<and> me_publishedAt s < or_expiresAtMs ev \<and>
        accepted_so_far now (counterKey now (ob_author o') (ma_fingerprint m) ev z) z \<ge> ob_allowed o')"

lemma compare_proved:
  assumes step: "compare_with_originals now o' l s kept y = (r, z)" and m: "m \<in> set (wr_matches r)"
  shows "duplicate_proved now o' m z"
  using step
proof (cases rule: compare_cases)
  case (1 verdicts s')
  then obtain f where f: "f \<in> set (ob_fingerprints o')" "judge now o' l s kept y f = Matches m"
    using m by (auto simp: matched_judge)
  obtain ev where ev: "valid_group now (ob_mode o') (ob_scope o', f) y = Some ev" "proves m f ev"
      "or_member ev \<noteq> ob_member o'" "or_publishedAtMs ev \<le> me_publishedAt s" "me_publishedAt s < or_expiresAtMs ev"
      "ob_at o' < or_expiresAtMs ev"
      "accepted_so_far now (counterKey now (ob_author o') f ev y) y \<ge> ob_allowed o'"
    using judge_match [OF f(2)] by metis
  have z: "z = y\<lparr>ws_message := put now (ob_member o', ob_mode o') s'
      (windowExpiry now (clamp_window (ob_windowMs o')) (me_at s)) True (ws_message y)\<rparr>"
    using 1 m by (auto split: if_splits)
  have "valid now (ob_mode o') ev y = valid now (ob_mode o') ev z"
    by (rule valid_cong) (use ev(3) in \<open>simp_all add: z\<close>)
  then have "valid_group now (ob_mode o') (ob_scope o', f) z = Some ev"
    using valid_group_SomeD [OF ev(1)] by (intro valid_groupI) (simp_all add: z)
  moreover have "accepted_so_far now (counterKey now (ob_author o') f ev z) z \<ge> ob_allowed o'"
    using ev(7) by (simp add: z accepted_so_far_def counterKey_def epoch_def count_at_def)
  moreover obtain e where "ws_message z (ob_member o', ob_mode o') = Some (s', e)"
    using put_value by (fastforce simp: z)
  ultimately show ?thesis
    using ev f(1) 1(10) unfolding duplicate_proved_def proves_def by (metis 1(9))
qed

lemma record_proved:
  assumes "record_state now token o' l previous y = (r, z)" "m \<in> set (wr_matches r)"
  shows "duplicate_proved now o' m z"
  using assms(1)
proof (cases rule: record_state_cases)
  case (1 l2 y1)
  then show ?thesis using assms(2) compare_proved unfolding Let_def by (metis empty_iff list.set(1))
qed

lemma observe_proved:
  assumes "observe_op now token o' y = (r, z)" "wr_kind r = Ok" "m \<in> set (wr_matches r)"
  shows "duplicate_proved now o' m z"
  using assms(1)
proof (cases rule: observe_cases)
  case (fresh l y1)
  note fresh = life_step_only [OF fresh(1)] fresh(2,5)
  then show ?thesis using record_proved assms(3) by blast
qed (use assms in \<open>auto simp: answer_kind_def replayed_def\<close>)

section \<open>Calls in sequence\<close>

type_synonym window_call = "int \<times> int \<times> js_string \<times> window_request"

fun window_run :: "window_call list \<Rightarrow> window_store \<Rightarrow> window_store" where
  "window_run [] y = y"
| "window_run ((now, deadline, token, request) # calls) y =
     window_run calls (snd (window_script now deadline token request y))"

text \<open>The clock of the store does not go back.\<close>

fun clock_from :: "int \<Rightarrow> window_call list \<Rightarrow> bool" where
  "clock_from t [] = True"
| "clock_from t ((now, deadline, token, request) # calls) = (t \<le> now \<and> clock_from now calls)"

fun last_clock :: "int \<Rightarrow> window_call list \<Rightarrow> int" where
  "last_clock t [] = t"
| "last_clock t ((now, deadline, token, request) # calls) = last_clock now calls"

lemma run_induct_invariant:
  assumes "clock_from t calls" "P t y"
    and step: "\<And>t now deadline token request y. P t y \<Longrightarrow> t \<le> now \<Longrightarrow>
      (now, deadline, token, request) \<in> set calls \<Longrightarrow> P now (snd (window_script now deadline token request y))"
  shows "P (last_clock t calls) (window_run calls y)"
  using assms
proof (induction calls arbitrary: t y)
  case (Cons c calls)
  obtain now deadline token request where c: "c = (now, deadline, token, request)" by (metis prod_cases4)
  show ?case unfolding c window_run.simps last_clock.simps
  proof (rule Cons.IH)
    show "clock_from now calls" using Cons.prems(1) c by simp
    show "P now (snd (window_script now deadline token request y))"
      using Cons.prems c by (intro Cons.prems(3)) auto
  qed (use Cons.prems(3) in auto)
qed simp

section \<open>Retention\<close>

definition expiring :: "int \<Rightarrow> ('k, 'v) keyed \<Rightarrow> bool" where
  "expiring limit m \<longleftrightarrow> (\<forall>k v e. m k = Some (v, e) \<longrightarrow> e \<le> limit)"

definition retained :: "int \<Rightarrow> window_store \<Rightarrow> bool" where
  "retained t y \<longleftrightarrow>
     (let limit = t + MESSAGE_DUPLICATE_HISTORY_RETENTION_MS in
      expiring limit (ws_reset y) \<and> expiring limit (ws_removed y) \<and> expiring limit (ws_life y) \<and>
      expiring limit (ws_message y) \<and> expiring limit (ws_group y) \<and> expiring limit (ws_count y) \<and>
      expiring limit (ws_qualification y))"

lemma expiring_mono: "expiring a m \<Longrightarrow> a \<le> b \<Longrightarrow> expiring b m"
  by (fastforce simp: expiring_def)

lemma expiring_put:
  "expiring (now + MESSAGE_DUPLICATE_HISTORY_RETENTION_MS) m \<Longrightarrow>
   expiring (now + MESSAGE_DUPLICATE_HISTORY_RETENTION_MS) (put now k v e pres m)"
  unfolding expiring_def put_def Let_def by (auto split: option.splits if_splits)

lemma retained_mono: "retained t y \<Longrightarrow> t \<le> u \<Longrightarrow> retained u y"
  by (auto simp: retained_def Let_def elim!: expiring_mono)

lemma retained_write_life: "retained now y \<Longrightarrow> retained now (write_life now k l pres y)"
  by (simp add: retained_def write_life_def expiring_put Let_def)

lemma retained_continue:
  "continue_life now token k time source l y = (z, r) \<Longrightarrow> retained now y \<Longrightarrow> retained now z"
  by (auto simp: continue_life_def Let_def retained_write_life split: if_splits)

lemma retained_lifecycle:
  "lifecycle now token k time source publishedAt previous y = (z, r) \<Longrightarrow> retained now y \<Longrightarrow> retained now z"
  by (auto simp: lifecycle_def begin_life_def Let_def retained_write_life split: option.splits prior_verdict.splits
      dest: retained_continue)

lemma retained_lifecycle_op: "retained now y \<Longrightarrow> retained now (lifecycle_op now token member time publishedAt sources y)"
proof (induction sources arbitrary: y)
  case (Cons c sources)
  obtain mode source where c: "c = (mode, source)" by fastforce
  show ?case
    using Cons retained_lifecycle
    by (cases "lifecycle now token (member, mode) time source publishedAt (get now (ws_life y) (member, mode)) y")
      (auto simp: c)
qed simp

lemma retained_invalidate: "retained now y \<Longrightarrow> retained now (invalidate now token k source y)"
  by (auto simp: invalidate_def Let_def retained_def expiring_put split: option.split)

lemma retained_invalidate_op: "retained now y \<Longrightarrow> retained now (invalidate_op now token member sources y)"
  by (induction sources arbitrary: y) (auto simp: retained_invalidate)

lemma retained_groups: "retained now y \<Longrightarrow> retained now (foldl (group_write now) y ws)"
  by (induction ws arbitrary: y)
    (auto simp: retained_def Let_def group_write_def expiring_put split: group_write.split)

lemma retained_compare:
  "compare_with_originals now o' l s kept y = (r, z) \<Longrightarrow> retained now y \<Longrightarrow> retained now z"
  using retained_groups [of now y]
  by (auto simp: compare_with_originals_def Let_def retained_def expiring_put split: if_splits)

lemma retained_recorded: "retained now y \<Longrightarrow> retained now (recorded now o' l s y)"
  by (simp add: recorded_def retained_def Let_def expiring_put)

lemma retained_record: "record_state now token o' l previous y = (r, z) \<Longrightarrow> retained now y \<Longrightarrow> retained now z"
  by (auto simp: record_state_def Let_def split: if_splits dest!: retained_compare
      intro!: retained_recorded retained_write_life)

lemma retained_proceed: "proceed now token o' l previous y = (r, z) \<Longrightarrow> retained now y \<Longrightarrow> retained now z"
  by (auto simp: proceed_def split: option.splits if_splits dest!: retained_record intro!: retained_write_life)

lemma retained_observe: "observe_op now token o' y = (r, z) \<Longrightarrow> retained now y \<Longrightarrow> retained now z"
  by (auto simp: observe_op_def Let_def split: option.splits if_splits prod.splits
      dest!: retained_proceed dest: retained_lifecycle)

lemma retained_qualify: "qualify_op now c y = (r, z) \<Longrightarrow> retained now y \<Longrightarrow> retained now z"
  by (auto simp: qualify_op_def Let_def retained_def expiring_put split: option.splits if_splits prod.splits)

lemma retained_reset: "retained now y \<Longrightarrow> retained now (reset_op now author y)"
  by (auto simp: reset_op_def retained_def Let_def expiring_def)

lemma retained_remove: "retained now y \<Longrightarrow> retained now (remove_op now member y)"
  by (simp add: remove_op_def retained_def Let_def expiring_put)

lemma retained_script: "retained now y \<Longrightarrow> retained now (snd (window_script now deadline token request y))"
proof (cases request)
  case (Qualify_Op c)
  assume "retained now y" then show ?thesis
    using retained_qualify [of now c y] Qualify_Op by (cases "qualify_op now c y") (simp add: window_script_def)
next
  case (Observe_Op o')
  assume "retained now y" then show ?thesis
    using retained_observe [of now token o' y] Observe_Op
    by (cases "observe_op now token o' y") (simp add: window_script_def)
qed (simp_all add: window_script_def retained_lifecycle_op retained_invalidate_op retained_reset retained_remove)

lemma retained_run:
  assumes "clock_from t calls" "retained t y"
  shows "retained (last_clock t calls) (window_run calls y)"
  by (rule run_induct_invariant [where P = retained, OF assms]) (rule retained_script, erule retained_mono)

text \<open>Nothing of the window is readable.\<close>

definition forgotten :: "int \<Rightarrow> window_store \<Rightarrow> bool" where
  "forgotten now y \<longleftrightarrow>
     get now (ws_reset y) = (\<lambda>_. None) \<and> get now (ws_removed y) = (\<lambda>_. None) \<and> get now (ws_life y) = (\<lambda>_. None) \<and>
     get now (ws_message y) = (\<lambda>_. None) \<and> get now (ws_group y) = (\<lambda>_. None) \<and> get now (ws_count y) = (\<lambda>_. None) \<and>
     get now (ws_qualification y) = (\<lambda>_. None)"

lemma expired_get: "expiring limit m \<Longrightarrow> now \<ge> limit \<Longrightarrow> get now m = (\<lambda>_. None)"
  by (rule ext) (fastforce simp: get_def expiring_def split: option.split)

lemma retained_forgotten:
  "retained t y \<Longrightarrow> now \<ge> t + MESSAGE_DUPLICATE_HISTORY_RETENTION_MS \<Longrightarrow> forgotten now y"
  unfolding retained_def Let_def forgotten_def by (intro conjI; rule expired_get; simp)

section \<open>Allowances\<close>

text \<open>A fingerprint digests the settings, so its allowance is a function of it.\<close>

fun allowance_given :: "(js_string \<Rightarrow> int) \<Rightarrow> window_request \<Rightarrow> bool" where
  "allowance_given allowed (Observe_Op o') = (\<forall>f \<in> set (ob_fingerprints o'). allowed f = ob_allowed o')"
| "allowance_given allowed (Qualify_Op c) = (allowed (ck_fingerprint c) = ck_allowed c)"
| "allowance_given allowed _ = True"

definition count_ok :: "int \<Rightarrow> occurrence_count \<Rightarrow> bool" where
  "count_ok a n \<longleftrightarrow> 0 \<le> oc_accepted n \<and> oc_accepted n \<le> a \<and> 0 \<le> oc_qualified n \<and> oc_qualified n \<le> 20 - a"

definition counts_ok :: "(js_string \<Rightarrow> int) \<Rightarrow> window_store \<Rightarrow> bool" where
  "counts_ok allowed y \<longleftrightarrow>
     (\<forall>a f i d d' n e. ws_count y (a, f, i, d, d') = Some (n, e) \<longrightarrow> count_ok (allowed f) n)"

lemma counts_ok_get:
  "counts_ok allowed y \<Longrightarrow> get now (ws_count y) (a, f, i, d, d') = Some n \<Longrightarrow> count_ok (allowed f) n"
  unfolding counts_ok_def get_def by (simp split: option.splits prod.splits if_splits) blast

lemma counts_ok_put:
  assumes "counts_ok allowed y" "count_ok (allowed f) n"
  shows "counts_ok allowed (y\<lparr>ws_count := put now (a, f, i, d, d') n e pres (ws_count y)\<rparr>)"
  using assms unfolding counts_ok_def put_def Let_def by (auto split: option.splits)

fun write_ok :: "(js_string \<Rightarrow> int) \<Rightarrow> group_write \<Rightarrow> bool" where
  "write_ok allowed (Start_Original k ev) = True"
| "write_ok allowed (Count_Accepted f k n e) = (fst (snd k) = f \<and> count_ok (allowed f) n)"

lemma count_at_ok:
  "counts_ok allowed y \<Longrightarrow> 0 \<le> accepted \<Longrightarrow> accepted \<le> allowed f \<Longrightarrow> allowed f \<le> 20 \<Longrightarrow>
   count_ok (allowed f) (count_at now accepted (a, f, i, d, d') y)"
  using counts_ok_get [of allowed y now] by (auto simp: count_at_def count_ok_def split: option.split)

lemma judge_counted:
  assumes "judge now o' l s kept y f = Wants (Count_Accepted g k n e)"
  shows "\<exists>ev. k = counterKey now (ob_author o') f ev y \<and> g = f \<and>
    n = (count_at now 0 k y)\<lparr>oc_accepted := oc_accepted (count_at now 0 k y) + 1\<rparr> \<and>
    oc_accepted (count_at now 0 k y) < ob_allowed o'"
proof (cases "valid_group now (ob_mode o') (ob_scope o', f) y")
  case (Some ev)
  show ?thesis
    by (rule exI [of _ ev]) (use assms in \<open>simp add: judge_def Let_def Some split: if_splits; blast\<close>)
qed (use assms in \<open>simp add: judge_def Let_def split: if_splits\<close>)

lemma judge_write_ok:
  assumes "judge now o' l s kept y f = Wants w" "counts_ok allowed y" "allowed f = ob_allowed o'"
    "\<forall>f. 0 \<le> allowed f \<and> allowed f \<le> 20"
  shows "write_ok allowed w"
proof (cases w)
  case (Count_Accepted g k n e)
  obtain ev where k: "k = counterKey now (ob_author o') f ev y" and g: "g = f"
      and n: "n = (count_at now 0 k y)\<lparr>oc_accepted := oc_accepted (count_at now 0 k y) + 1\<rparr>"
      and less: "oc_accepted (count_at now 0 k y) < ob_allowed o'"
    using judge_counted [OF assms(1) [unfolded Count_Accepted]] by metis
  have "count_ok (allowed f) (count_at now 0 k y)"
    unfolding k counterKey_def by (rule count_at_ok) (use assms(2,4) in auto)
  then have "count_ok (allowed f) n"
    using less assms(3) by (simp add: n count_ok_def)
  then show ?thesis using Count_Accepted k g by (simp add: counterKey_def)
qed simp

lemma groups_counts_ok:
  "\<forall>w \<in> set ws. write_ok allowed w \<Longrightarrow> counts_ok allowed y \<Longrightarrow> counts_ok allowed (foldl (group_write now) y ws)"
proof (induction ws arbitrary: y)
  case (Cons w ws)
  have "counts_ok allowed (group_write now y w)"
  proof (cases w)
    case (Start_Original k ev)
    then show ?thesis using Cons.prems(2) by (simp add: group_write_def counts_ok_def)
  next
    case (Count_Accepted f k n e)
    obtain a g i d d' where "k = (a, g, i, d, d')" by (metis prod_cases5)
    then show ?thesis using Cons.prems Count_Accepted counts_ok_put by (simp add: group_write_def)
  qed
  then show ?case using Cons by simp
qed simp

lemma set_wanted: "w \<in> set (wanted (map g fs)) \<longleftrightarrow> (\<exists>f \<in> set fs. g f = Wants w)"
  by (induction fs) (auto split: fingerprint_verdict.split)

lemma observe_counts_ok:
  assumes step: "observe_op now token o' y = (r, z)" and ok: "counts_ok allowed y"
    and given: "\<forall>f \<in> set (ob_fingerprints o'). allowed f = ob_allowed o'" and range: "\<forall>f. 0 \<le> allowed f \<and> allowed f \<le> 20"
  shows "counts_ok allowed z"
  using step
proof (cases rule: observe_cases)
  case (fresh l y1)
  note fresh = life_step_only [OF fresh(1)] fresh(2,5)
  have y1: "counts_ok allowed y1" using ok by (simp add: counts_ok_def life_only_fields [OF fresh(1)])
  from fresh(3) show ?thesis
  proof (cases rule: record_state_cases)
    case (1 l2 y2)
    define s where "s = new_state token o' (epoch now (ob_author o') y1) l (get now (ws_message y) (ob_member o', ob_mode o'))"
    define y3 where "y3 = recorded now o' l2 s y2"
    have y3: "counts_ok allowed y3" using y1 by (simp add: y3_def counts_ok_def life_only_fields [OF 1(1)])
    from 1(8) consider "z = y3" | kept where "compare_with_originals now o' l2 s kept y3 = (r, z)"
      unfolding Let_def s_def [symmetric] y3_def [symmetric] by blast
    then show ?thesis
    proof cases
      case 2
      then show ?thesis
      proof (cases rule: compare_cases)
        case (1 verdicts s')
        have "\<forall>w \<in> set (wanted verdicts). write_ok allowed w"
        proof
          fix w assume "w \<in> set (wanted verdicts)"
          then obtain f where f: "f \<in> set (ob_fingerprints o')" "judge now o' l2 s kept y3 f = Wants w"
            unfolding 1(1) set_wanted by blast
          show "write_ok allowed w" using judge_write_ok [OF f(2) y3 _ range] given f(1) by blast
        qed
        then have "counts_ok allowed (foldl (group_write now) y3 (wanted verdicts))"
          using groups_counts_ok y3 by blast
        then show ?thesis using y3 by (auto simp: 1(13) counts_ok_def)
      qed
    qed (use y3 in simp)
  qed
qed (use ok in \<open>simp_all add: counts_ok_def life_only_fields [OF life_step_only]\<close>)

lemma qualify_cases:
  assumes "qualify_op now c y = (r, z)"
  obtains (same) "z = y"
  | (counted) s before m after n q where "matching now c y = Some (s, before, m, after)" "ma_qualified m = None"
      "n = (count_at now (ck_allowed c) (counterKey now (ck_author c) (ck_fingerprint c) (ma_original m) y) y)
         \<lparr>oc_qualified := min (20 - ck_allowed c)
            (oc_qualified (count_at now (ck_allowed c)
               (counterKey now (ck_author c) (ck_fingerprint c) (ma_original m) y) y) + 1)\<rparr>"
      "q = min 20 (ck_allowed c + oc_qualified n)"
      "z = y\<lparr>ws_count := put now (counterKey now (ck_author c) (ck_fingerprint c) (ma_original m) y) n
               (or_expiresAtMs (ma_original m) + MESSAGE_DUPLICATE_HISTORY_GRACE_MS) True (ws_count y),
             ws_qualification := put now (ck_member c) (epoch now (ck_author c) y)
               (windowExpiry now (clamp_window (ck_windowMs c)) (me_at s)) True (ws_qualification y),
             ws_message := put now (ck_member c, ck_mode c)
               (s\<lparr>me_matches := before @ (m\<lparr>ma_qualified := Some q\<rparr>) # after\<rparr>)
               (windowExpiry now (clamp_window (ck_windowMs c)) (me_at s)) True (ws_message y)\<rparr>"
proof (cases "matching now c y")
  case None
  then show ?thesis using assms same by (simp add: qualify_op_def)
next
  case (Some t)
  obtain s before m after where t: "t = (s, before, m, after)" by (metis prod_cases4)
  show ?thesis
  proof (cases "ma_qualified m = None \<and> get now (ws_qualification y) (ck_member c) \<noteq> Some (epoch now (ck_author c) y)")
    case True
    then show ?thesis
      using assms by (intro counted [OF Some [unfolded t] _ refl refl]) (simp_all add: qualify_op_def Some t Let_def)
  next
    case False
    then show ?thesis using assms same by (auto simp: qualify_op_def Some t split: option.splits if_splits)
  qed
qed

lemma qualify_counts_ok:
  assumes step: "qualify_op now c y = (r, z)" and ok: "counts_ok allowed y"
    and given: "allowed (ck_fingerprint c) = ck_allowed c" and range: "\<forall>f. 0 \<le> allowed f \<and> allowed f \<le> 20"
  shows "counts_ok allowed z"
  using step
proof (cases rule: qualify_cases)
  case (counted s before m after n q)
  let ?k = "counterKey now (ck_author c) (ck_fingerprint c) (ma_original m) y"
  have range': "0 \<le> ck_allowed c \<and> ck_allowed c \<le> 20" using given range by metis
  then have "count_ok (allowed (ck_fingerprint c)) (count_at now (ck_allowed c) ?k y)"
    unfolding counterKey_def using given by (intro count_at_ok [OF ok]) auto
  then have "count_ok (allowed (ck_fingerprint c)) n"
    using range' given by (auto simp: counted(3) count_ok_def)
  from counts_ok_put [OF ok this] show ?thesis
    by (simp add: counted(5) counterKey_def counts_ok_def)
qed (use ok in simp)

lemma lifecycle_op_fields:
  "ws_count (lifecycle_op now token member time publishedAt sources y) = ws_count y \<and>
   ws_message (lifecycle_op now token member time publishedAt sources y) = ws_message y \<and>
   ws_reset (lifecycle_op now token member time publishedAt sources y) = ws_reset y \<and>
   ws_removed (lifecycle_op now token member time publishedAt sources y) = ws_removed y \<and>
   ws_group (lifecycle_op now token member time publishedAt sources y) = ws_group y"
proof (induction sources arbitrary: y)
  case (Cons c sources)
  obtain mode source where c: "c = (mode, source)" by fastforce
  obtain y1 lo where l: "lifecycle now token (member, mode) time source publishedAt (get now (ws_life y) (member, mode)) y = (y1, lo)"
    by fastforce
  show ?case using Cons [of y1] life_only_fields [OF lifecycle_only [OF l]] by (simp add: c l)
qed simp

lemma invalidate_fields:
  "ws_count (invalidate now token k source y) = ws_count y \<and> ws_message (invalidate now token k source y) = ws_message y \<and>
   ws_reset (invalidate now token k source y) = ws_reset y \<and> ws_removed (invalidate now token k source y) = ws_removed y \<and>
   ws_group (invalidate now token k source y) = ws_group y"
  by (auto simp: invalidate_def Let_def split: option.split)

lemma invalidate_op_fields:
  "ws_count (invalidate_op now token member sources y) = ws_count y \<and>
   ws_message (invalidate_op now token member sources y) = ws_message y \<and>
   ws_reset (invalidate_op now token member sources y) = ws_reset y \<and>
   ws_removed (invalidate_op now token member sources y) = ws_removed y \<and>
   ws_group (invalidate_op now token member sources y) = ws_group y"
  by (induction sources arbitrary: y) (auto simp: invalidate_fields)

lemma script_counts_ok:
  assumes "counts_ok allowed y" "allowance_given allowed request" "\<forall>f. 0 \<le> allowed f \<and> allowed f \<le> 20"
  shows "counts_ok allowed (snd (window_script now deadline token request y))"
proof (cases request)
  case (Qualify_Op c)
  then show ?thesis
    using qualify_counts_ok [of now c y _ _ allowed] assms by (cases "qualify_op now c y") (simp add: window_script_def)
next
  case (Observe_Op o')
  then show ?thesis
    using observe_counts_ok [of now token o' y _ _ allowed] assms
    by (cases "observe_op now token o' y") (simp add: window_script_def)
qed (use assms(1) in \<open>simp_all add: window_script_def lifecycle_op_fields invalidate_op_fields
      reset_op_def remove_op_def counts_ok_def\<close>)

section \<open>What becomes of a message\<close>

definition carried_on :: "js_string \<Rightarrow> life_key \<Rightarrow> window_store \<Rightarrow> window_store \<Rightarrow> bool" where
  "carried_on token k y z \<longleftrightarrow>
     ws_message z k = ws_message y k \<and> (\<forall>l e. ws_life z k = Some (l, e) \<longrightarrow> carries token k y l)"

definition requalified :: "int \<Rightarrow> life_key \<Rightarrow> window_store \<Rightarrow> window_store \<Rightarrow> bool" where
  "requalified now k y z \<longleftrightarrow>
     ws_life z k = ws_life y k \<and>
     (\<exists>s e s' e'. ws_message y k = Some (s, e) \<and> e > now \<and> ws_message z k = Some (s', e') \<and> e' \<le> e \<and>
        me_revision s' = me_revision s \<and> me_epoch s' = me_epoch s)"

definition rewritten :: "int \<Rightarrow> js_string \<Rightarrow> observation \<Rightarrow> window_store \<Rightarrow> window_store \<Rightarrow> bool" where
  "rewritten now token o' y z \<longleftrightarrow>
     (\<exists>l le s e i l0. ws_message z (ob_member o', ob_mode o') = Some (s, e) \<and>
        ws_life z (ob_member o', ob_mode o') = Some (l, le) \<and> me_revision s = li_revision l \<and>
        li_materializedRevision l \<noteq> None \<and> li_materialized l = Some i \<and> in_epoch i = me_epoch s \<and>
        admitted now o' y \<and> me_epoch s = epoch now (ob_author o') y \<and>
        li_revision l0 = li_revision l \<and> continues now token o' y l0)"

definition key_step ::
    "int \<Rightarrow> js_string \<Rightarrow> window_request \<Rightarrow> life_key \<Rightarrow> window_store \<Rightarrow> window_store \<Rightarrow> bool" where
  "key_step now token request k y z \<longleftrightarrow>
     carried_on token k y z \<or> requalified now k y z \<or>
     (\<exists>o'. request = Observe_Op o' \<and> k = (ob_member o', ob_mode o') \<and> rewritten now token o' y z)"

lemma carried_on_same: "ws_message z k = ws_message y k \<Longrightarrow> ws_life z k = ws_life y k \<Longrightarrow> carried_on token k y z"
  by (auto simp: carried_on_def carries_same)

lemma life_step_carried: "life_step token k' y z \<Longrightarrow> carried_on token k y z"
proof (cases "k = k'")
  case False
  assume "life_step token k' y z"
  then have "life_only k' y z" by (rule life_step_only)
  then have "ws_life z k = ws_life y k" "ws_message z k = ws_message y k"
    using False by (simp_all add: life_only_other life_only_fields)
  then show ?thesis by (simp add: carried_on_same)
next
  case True
  assume step: "life_step token k' y z"
  then show ?thesis
    using True life_only_fields(4) [OF life_step_only [OF step]] unfolding carried_on_def life_step_def by metis
qed

lemma carried_on_trans: "carried_on token k x y \<Longrightarrow> carried_on token k y z \<Longrightarrow> carried_on token k x z"
  unfolding carried_on_def carries_def by metis

lemma new_state_fields [simp]:
  "me_revision (new_state token o' ep l p) = li_revision l" "me_epoch (new_state token o' ep l p) = ep"
  by (simp_all add: new_state_def Let_def)

lemma record_rewritten:
  assumes "record_state now token o' l p y1 = (r, z)" "life_step token (ob_member o', ob_mode o') y y1"
    "admitted now o' y" "continues now token o' y l"
  shows "rewritten now token o' y z \<and>
    (\<forall>k. k \<noteq> (ob_member o', ob_mode o') \<longrightarrow> ws_message z k = ws_message y k \<and> ws_life z k = ws_life y k)"
  using assms(1)
proof (cases rule: record_state_cases)
  case (1 l2 y2)
  let ?k = "(ob_member o', ob_mode o')"
  have ep: "epoch now (ob_author o') y1 = epoch now (ob_author o') y"
    using life_only_epoch [OF life_step_only [OF assms(2)]] .
  define s where "s = new_state token o' (epoch now (ob_author o') y1) l p"
  define y3 where "y3 = recorded now o' l2 s y2"
  have l3: "ws_life z = ws_life y3"
    and m3: "\<forall>k. k \<noteq> ?k \<longrightarrow> ws_message z k = ws_message y3 k"
    and s3: "\<exists>s' e. ws_message z ?k = Some (s', e) \<and> me_revision s' = me_revision s \<and> me_epoch s' = me_epoch s"
  proof -
    consider "z = y3" | kept where "compare_with_originals now o' l2 s kept y3 = (r, z)"
      using 1(8) unfolding Let_def s_def [symmetric] y3_def [symmetric] by blast
    then have "ws_life z = ws_life y3 \<and> (\<forall>k. k \<noteq> ?k \<longrightarrow> ws_message z k = ws_message y3 k) \<and>
        (\<exists>s' e. ws_message z ?k = Some (s', e) \<and> me_revision s' = me_revision s \<and> me_epoch s' = me_epoch s)"
    proof cases
      case 1
      then show ?thesis
        using put_value [of now ?k s "windowExpiry now (clamp_window (ob_windowMs o')) (me_at s)" False "ws_message y2"]
        by (auto simp: y3_def recorded_def)
    next
      case 2
      then show ?thesis
      proof (cases rule: compare_cases)
        case (1 verdicts s')
        then show ?thesis
          using put_value [of now ?k s' "windowExpiry now (clamp_window (ob_windowMs o')) (me_at s)" True "ws_message y3"]
          by auto
      qed
    qed
    then show "ws_life z = ws_life y3" "\<forall>k. k \<noteq> ?k \<longrightarrow> ws_message z k = ws_message y3 k"
      "\<exists>s' e. ws_message z ?k = Some (s', e) \<and> me_revision s' = me_revision s \<and> me_epoch s' = me_epoch s"
      by blast+
  qed
  have "\<exists>le. ws_life z ?k = Some (l2, le)"
    using put_value [of now ?k l2 "eventExpiry now (li_at l2)" True "ws_life y2"] l3
    by (auto simp: y3_def recorded_def)
  then have "rewritten now token o' y z"
    using s3 1(2,3,4) assms(3,4) unfolding rewritten_def by (auto simp: ep s_def)
  moreover have "ws_message z k = ws_message y k \<and> ws_life z k = ws_life y k" if "k \<noteq> ?k" for k
    using m3 [rule_format, OF that] l3 that life_only_other [OF 1(1) that] life_only_other [OF life_step_only [OF assms(2)] that]
      life_only_fields(4) [OF 1(1)] life_only_fields(4) [OF life_step_only [OF assms(2)]]
    by (simp add: y3_def recorded_def)
  ultimately show ?thesis by blast
qed

lemma observe_key_step:
  assumes "observe_op now token o' y = (r, z)"
  shows "key_step now token (Observe_Op o') k y z"
  using assms
proof (cases rule: observe_cases)
  case (fresh l y1)
  then show ?thesis
    using record_rewritten carried_on_same unfolding key_step_def by blast
qed (auto simp: key_step_def life_step_carried)

lemma lifecycle_op_carried: "carried_on token k y (lifecycle_op now token member time publishedAt sources y)"
proof (induction sources arbitrary: y)
  case (Cons c sources)
  obtain mode source where c: "c = (mode, source)" by fastforce
  obtain y1 lo where l: "lifecycle now token (member, mode) time source publishedAt (get now (ws_life y) (member, mode)) y = (y1, lo)"
    by fastforce
  then have "carried_on token k y y1" using lifecycle_step life_step_carried by metis
  then show ?case using Cons [of y1] carried_on_trans by (auto simp: c l)
qed (simp add: carried_on_same)

lemma invalidate_carried: "carried_on token k y (invalidate now token k' source y)"
proof -
  have *: "carried_on token k y (y\<lparr>ws_life := put now k' l e pres (ws_life y)\<rparr>)" if "li_revision l = token" for l e pres
    using that put_value [of now k' l e pres "ws_life y"]
    by (cases "k = k'") (auto simp: carried_on_def carries_def carries_same)
  show ?thesis
    by (auto simp: invalidate_def Let_def intro!: * carried_on_same split: option.split)
qed

lemma invalidate_op_carried: "carried_on token k y (invalidate_op now token member sources y)"
proof (induction sources arbitrary: y)
  case (Cons c sources)
  show ?case
    using Cons carried_on_trans [OF invalidate_carried] by (cases c) (simp, blast)
qed (simp add: carried_on_same)

lemma matching_state:
  "matching now c y = Some (s, before, m, after) \<Longrightarrow> get now (ws_message y) (ck_member c, ck_mode c) = Some s"
  by (auto simp: matching_def current_state_def split: option.splits if_splits)

lemma qualify_key_step:
  assumes "qualify_op now c y = (r, z)"
  shows "key_step now token request k y z"
  using assms
proof (cases rule: qualify_cases)
  case same
  then show ?thesis by (simp add: key_step_def carried_on_same)
next
  case (counted s before m after n q)
  show ?thesis
  proof (cases "k = (ck_member c, ck_mode c)")
    case True
    obtain e where e: "ws_message y k = Some (s, e)" "e > now"
      using get_SomeD [OF matching_state [OF counted(1)]] True by blast
    have "requalified now k y z"
      using put_keeps_expiry [where m = "ws_message y" and k = k and now = now and e = "windowExpiry now (clamp_window (ck_windowMs c)) (me_at s)"
          and v = "s\<lparr>me_matches := before @ (m\<lparr>ma_qualified := Some q\<rparr>) # after\<rparr>", OF e] e True
      by (auto simp: requalified_def counted(5))
    then show ?thesis by (simp add: key_step_def)
  next
    case False
    then have "carried_on token k y z" by (intro carried_on_same) (auto simp: counted(5))
    then show ?thesis by (simp add: key_step_def)
  qed
qed

lemma script_key_step: "key_step now token request k y (snd (window_script now deadline token request y))"
proof (cases "now > deadline")
  case True
  then show ?thesis by (simp add: window_script_def key_step_def carried_on_same)
next
  case False
  show ?thesis
  proof (cases request)
    case (Qualify_Op c)
    then show ?thesis
      using qualify_key_step [of now c y _ _ token] False
      by (cases "qualify_op now c y") (simp add: window_script_def)
  next
    case (Observe_Op o')
    then show ?thesis
      using observe_key_step [of now token o' y] False
      by (cases "observe_op now token o' y") (simp add: window_script_def)
  qed (use False in \<open>simp_all add: window_script_def key_step_def lifecycle_op_carried invalidate_op_carried
        carried_on_same reset_op_def remove_op_def\<close>)
qed

section \<open>Revisions\<close>

text \<open>A state and a lifecycle of one revision are of one incarnation, and revisions are tokens that were used.\<close>

definition used_at :: "js_string set \<Rightarrow> life_key \<Rightarrow> window_store \<Rightarrow> bool" where
  "used_at U k y \<longleftrightarrow>
     (\<forall>l e. ws_life y k = Some (l, e) \<longrightarrow> li_revision l \<in> U) \<and>
     (\<forall>s e. ws_message y k = Some (s, e) \<longrightarrow> me_revision s \<in> U)"

definition one_incarnation :: "life_key \<Rightarrow> window_store \<Rightarrow> bool" where
  "one_incarnation k y \<longleftrightarrow>
     (\<forall>l e s e'. ws_life y k = Some (l, e) \<and> ws_message y k = Some (s, e') \<and> li_revision l = me_revision s \<longrightarrow>
        li_materializedRevision l \<noteq> None \<and> (\<exists>i. li_materialized l = Some i \<and> in_epoch i = me_epoch s))"

lemma used_step:
  assumes "key_step now token request k y z" "used_at U k y"
  shows "used_at (insert token U) k z"
proof -
  have carried: "li_revision l \<in> insert token U" if "carries token k y l" for l
    using that assms(2) unfolding carries_def used_at_def by (metis insert_iff)
  have cont: "li_revision l0 \<in> insert token U" if "continues now token o' y l0" "k = (ob_member o', ob_mode o')" for o' l0
    using that assms(2) unfolding continues_def used_at_def by (metis insert_iff)
  from assms(1) show ?thesis
    unfolding key_step_def
  proof (elim disjE exE conjE)
    assume "carried_on token k y z"
    then show ?thesis using carried assms(2) unfolding carried_on_def used_at_def by (metis insert_iff)
  next
    assume "requalified now k y z"
    then show ?thesis using assms(2) unfolding requalified_def used_at_def by (metis insert_iff option.inject prod.inject)
  next
    fix o' assume "k = (ob_member o', ob_mode o')" "rewritten now token o' y z"
    then show ?thesis
      using cont unfolding rewritten_def used_at_def by (metis option.inject prod.inject)
  qed
qed

lemma incarnation_step:
  assumes "key_step now token request k y z" "used_at U k y" "token \<notin> U" "one_incarnation k y"
  shows "one_incarnation k z"
  using assms(1) unfolding key_step_def
proof (elim disjE exE conjE)
  assume c: "carried_on token k y z"
  show ?thesis unfolding one_incarnation_def
  proof (intro allI impI, elim conjE)
    fix l e s e' assume l: "ws_life z k = Some (l, e)" and s: "ws_message z k = Some (s, e')" and eq: "li_revision l = me_revision s"
    have s': "ws_message y k = Some (s, e')" using c s unfolding carried_on_def by simp
    then have "li_revision l \<noteq> token" using assms(2,3) eq unfolding used_at_def by metis
    then obtain pl pe where "ws_life y k = Some (pl, pe)" "li_revision pl = li_revision l"
        "li_materialized pl = li_materialized l" "li_materializedRevision pl = li_materializedRevision l"
      using c l unfolding carried_on_def carries_def by metis
    then show "li_materializedRevision l \<noteq> None \<and> (\<exists>i. li_materialized l = Some i \<and> in_epoch i = me_epoch s)"
      using assms(4) s' eq unfolding one_incarnation_def by metis
  qed
next
  assume "requalified now k y z"
  then show ?thesis using assms(4) unfolding requalified_def one_incarnation_def by (metis option.inject prod.inject)
next
  fix o' assume "k = (ob_member o', ob_mode o')" "rewritten now token o' y z"
  then show ?thesis unfolding rewritten_def one_incarnation_def by (metis option.inject prod.inject)
qed

text \<open>A revision that is on its way out: its state is readable until \<open>limit\<close> at most, and nothing can carry it on.\<close>

definition fading :: "js_string \<Rightarrow> life_key \<Rightarrow> int \<Rightarrow> int \<Rightarrow> window_store \<Rightarrow> bool" where
  "fading rv k ep limit y \<longleftrightarrow>
     (\<forall>s e. ws_message y k = Some (s, e) \<and> me_revision s = rv \<longrightarrow> e \<le> limit) \<and>
     (\<forall>l e. ws_life y k = Some (l, e) \<and> li_revision l = rv \<longrightarrow>
        li_materializedRevision l \<noteq> None \<and> (\<exists>i. li_materialized l = Some i \<and> in_epoch i = ep) \<and>
        (\<forall>s e. ws_message y k = Some (s, e) \<longrightarrow> me_revision s = rv))"

definition blocked :: "int \<Rightarrow> life_key \<Rightarrow> int \<Rightarrow> int \<Rightarrow> window_request \<Rightarrow> window_store \<Rightarrow> bool" where
  "blocked now k ep limit request y \<longleftrightarrow>
     (\<forall>o'. request = Observe_Op o' \<and> k = (ob_member o', ob_mode o') \<and> now < limit \<longrightarrow>
        removed now (ob_member o') y \<or> epoch now (ob_author o') y \<noteq> ep)"

lemma fading_not_continued:
  assumes fading: "fading rv k ep limit y" and block: "blocked now k ep limit (Observe_Op o') y"
    and k: "k = (ob_member o', ob_mode o')" and "admitted now o' y" and cont: "continues now token o' y l" and "token \<noteq> rv"
  shows "li_revision l \<noteq> rv"
proof
  assume rv: "li_revision l = rv"
  then obtain pl pe where pl: "ws_life y k = Some (pl, pe)" "li_revision pl = rv" "\<not> revoked now o' y"
      "get now (ws_message y) k = None \<longrightarrow> li_materializedRevision pl = None"
    using cont \<open>token \<noteq> rv\<close> rv unfolding continues_def k by auto
  have live: "get now (ws_life y) k \<noteq> None"
    using cont \<open>token \<noteq> rv\<close> rv unfolding continues_def k by auto
  have mat: "li_materializedRevision pl \<noteq> None" "\<exists>i. li_materialized pl = Some i \<and> in_epoch i = ep"
      "\<forall>s e. ws_message y k = Some (s, e) \<longrightarrow> me_revision s = rv \<and> e \<le> limit"
    using fading pl(1,2) unfolding fading_def by metis+
  then obtain s where s: "get now (ws_message y) k = Some s" using pl(4) by auto
  then obtain e where "ws_message y k = Some (s, e)" "e > now" using get_SomeD by metis
  then have "now < limit" using mat(3) by fastforce
  moreover have "\<not> removed now (ob_member o') y" using \<open>admitted now o' y\<close> by (simp add: admitted_def)
  ultimately have ep: "epoch now (ob_author o') y \<noteq> ep" using block k by (simp add: blocked_def)
  have "get now (ws_life y) k = Some pl" using pl(1) live by (auto simp: get_def split: if_splits)
  then show False
    using pl(3) mat(2) ep unfolding revoked_def last_incarnation_def k by auto
qed

lemma fading_step:
  assumes "key_step now token request k y z" "fading rv k ep limit y" "blocked now k ep limit request y" "token \<noteq> rv"
  shows "fading rv k ep limit z"
  using assms(1) unfolding key_step_def
proof (elim disjE exE conjE)
  assume c: "carried_on token k y z"
  show ?thesis unfolding fading_def
  proof (intro conjI allI impI; (elim conjE)?)
    fix s e assume "ws_message z k = Some (s, e)" "me_revision s = rv"
    then show "e \<le> limit" using c assms(2) unfolding carried_on_def fading_def by metis
  next
    fix l e assume l: "ws_life z k = Some (l, e)" "li_revision l = rv"
    then obtain pl pe where "ws_life y k = Some (pl, pe)" "li_revision pl = rv"
        "li_materialized pl = li_materialized l" "li_materializedRevision pl = li_materializedRevision l"
      using c assms(4) unfolding carried_on_def carries_def by metis
    then show "li_materializedRevision l \<noteq> None" "\<exists>i. li_materialized l = Some i \<and> in_epoch i = ep"
      using assms(2) unfolding fading_def by metis+
    fix s e' assume "ws_message z k = Some (s, e')"
    then show "me_revision s = rv"
      using c \<open>ws_life y k = Some (pl, pe)\<close> \<open>li_revision pl = rv\<close> assms(2) unfolding carried_on_def fading_def by metis
  qed
next
  assume q: "requalified now k y z"
  then obtain s e s' e' where s: "ws_message y k = Some (s, e)" "ws_message z k = Some (s', e')" "e' \<le> e"
      "me_revision s' = me_revision s" "ws_life z k = ws_life y k"
    unfolding requalified_def by blast
  show ?thesis using assms(2) s unfolding fading_def by (auto intro: order_trans)
next
  fix o' assume o': "request = Observe_Op o'" "k = (ob_member o', ob_mode o')" "rewritten now token o' y z"
  then obtain l le s e l0 where r: "ws_message z k = Some (s, e)" "ws_life z k = Some (l, le)" "me_revision s = li_revision l"
      "li_revision l0 = li_revision l" "admitted now o' y" "continues now token o' y l0"
    unfolding rewritten_def by blast
  have "li_revision l0 \<noteq> rv"
    using fading_not_continued [OF assms(2) _ o'(2) r(5,6) assms(4)] assms(3) o'(1) by simp
  then show ?thesis using r unfolding fading_def by auto
qed

text \<open>The fence that a reset or a removal leaves, which stands as long as what was recorded before it.\<close>

definition fence :: "js_string \<Rightarrow> js_string \<Rightarrow> int \<Rightarrow> int \<Rightarrow> int \<Rightarrow> window_store \<Rightarrow> bool" where
  "fence author member ep limit t y \<longleftrightarrow>
     limit \<le> t + MESSAGE_DUPLICATE_HISTORY_RETENTION_MS \<and>
     (t < limit \<longrightarrow>
        (\<exists>v e. ws_reset y author = Some (v, e) \<and> v > ep \<and> e \<ge> limit) \<or>
        (\<exists>e. ws_removed y member = Some ((), e) \<and> e \<ge> limit))"

lemma script_fences:
  "(ws_reset (snd (window_script now deadline token request y)) = ws_reset y \<or>
     (\<exists>a. snd (window_script now deadline token request y) = reset_op now a y)) \<and>
   (ws_removed (snd (window_script now deadline token request y)) = ws_removed y \<or>
     (\<exists>m. snd (window_script now deadline token request y) = remove_op now m y))"
proof (cases request)
  case (Qualify_Op c)
  obtain r z where q: "qualify_op now c y = (r, z)" by fastforce
  then have "ws_reset z = ws_reset y \<and> ws_removed z = ws_removed y" by (cases rule: qualify_cases) auto
  then show ?thesis using Qualify_Op q by (simp add: window_script_def)
next
  case (Observe_Op o')
  then show ?thesis
    using observe_fences [of now token o' y]
    by (cases "observe_op now token o' y") (simp add: window_script_def)
qed (auto simp: window_script_def lifecycle_op_fields invalidate_op_fields reset_op_def remove_op_def)

lemma fence_step:
  assumes "fence author member ep limit t y" "t \<le> now"
  shows "fence author member ep limit now (snd (window_script now deadline token request y))"
proof -
  let ?z = "snd (window_script now deadline token request y)"
  have lim: "limit \<le> now + MESSAGE_DUPLICATE_HISTORY_RETENTION_MS" using assms by (simp add: fence_def)
  have reset: "\<exists>v' e'. ws_reset ?z author = Some (v', e') \<and> v' > ep \<and> e' \<ge> limit"
    if "ws_reset y author = Some (v, e)" "v > ep" "e \<ge> limit" "now < limit" for v e
  proof (cases "ws_reset ?z = ws_reset y")
    case True then show ?thesis using that by simp
  next
    case False
    then obtain a where z: "?z = reset_op now a y" using script_fences [of now deadline token request y] by blast
    have "epoch now author y = v" using that by (simp add: epoch_def get_def)
    then show ?thesis using that lim by (auto simp: z reset_op_def)
  qed
  have removal: "\<exists>e'. ws_removed ?z member = Some ((), e') \<and> e' \<ge> limit"
    if "ws_removed y member = Some ((), e)" "e \<ge> limit" "now < limit" for e
  proof (cases "ws_removed ?z = ws_removed y")
    case True then show ?thesis using that by simp
  next
    case False
    then obtain m where z: "?z = remove_op now m y" using script_fences [of now deadline token request y] by blast
    have "removed now member y" using that by (simp add: removed_def get_def)
    then show ?thesis using that by (cases "m = member") (auto simp: z remove_op_def)
  qed
  show ?thesis
    unfolding fence_def
  proof (intro conjI impI)
    assume now: "now < limit"
    then have "t < limit" using assms(2) by simp
    then show "(\<exists>v e. ws_reset ?z author = Some (v, e) \<and> v > ep \<and> e \<ge> limit) \<or>
        (\<exists>e. ws_removed ?z member = Some ((), e) \<and> e \<ge> limit)"
      using assms(1) reset removal now unfolding fence_def by blast
  qed (rule lim)
qed

lemma fence_holds:
  assumes "fence author member ep limit t y" "t \<le> now" "now < limit"
  shows "removed now member y \<or> epoch now author y \<noteq> ep"
proof -
  have "t < limit" using assms(2,3) by simp
  then consider v e where "ws_reset y author = Some (v, e)" "v > ep" "e \<ge> limit"
    | e where "ws_removed y member = Some ((), e)" "e \<ge> limit"
    using assms(1) unfolding fence_def by blast
  then show ?thesis using assms(3) by cases (simp_all add: epoch_def removed_def get_def)
qed

text \<open>A message has one author.\<close>

definition authored :: "(js_string \<Rightarrow> js_string) \<Rightarrow> window_call list \<Rightarrow> bool" where
  "authored author_of calls \<longleftrightarrow>
     (\<forall>now deadline token o'. (now, deadline, token, Observe_Op o') \<in> set calls \<longrightarrow> ob_author o' = author_of (ob_member o'))"

definition call_tokens :: "window_call list \<Rightarrow> js_string list" where
  "call_tokens calls = map (\<lambda>(now, deadline, token, request). token) calls"

lemma fading_run:
  assumes clock: "clock_from t calls" and "authored author_of calls" and "rv \<notin> set (call_tokens calls)"
    and start: "fading rv (m, mode) ep limit y \<and> fence (author_of m) m ep limit t y"
  shows "fading rv (m, mode) ep limit (window_run calls y) \<and>
    fence (author_of m) m ep limit (last_clock t calls) (window_run calls y)"
proof -
  define P where "P t y \<longleftrightarrow> fading rv (m, mode) ep limit y \<and> fence (author_of m) m ep limit t y" for t y
  have "P (last_clock t calls) (window_run calls y)"
  proof (rule run_induct_invariant [OF clock])
    show "P t y" using start by (simp add: P_def)
    fix t now deadline token request y
    assume P: "P t y" and le: "t \<le> now" and call: "(now, deadline, token, request) \<in> set calls"
    have "token \<noteq> rv" using call assms(3) by (force simp: call_tokens_def)
    moreover have "blocked now (m, mode) ep limit request y"
      unfolding blocked_def
    proof (intro allI impI, elim conjE)
      fix o' assume o': "request = Observe_Op o'" "(m, mode) = (ob_member o', ob_mode o')" "now < limit"
      then have "ob_author o' = author_of m" using assms(2) call unfolding authored_def by blast
      then show "removed now (ob_member o') y \<or> epoch now (ob_author o') y \<noteq> ep"
        using fence_holds [OF _ le o'(3)] P o'(2) unfolding P_def by simp
    qed
    ultimately show "P now (snd (window_script now deadline token request y))"
      using P fading_step [OF script_key_step] fence_step [OF _ le] unfolding P_def by blast
  qed
  then show ?thesis by (simp add: P_def)
qed

lemma incarnations_run:
  assumes "\<forall>k. used_at U k y \<and> one_incarnation k y" "distinct (call_tokens calls)" "set (call_tokens calls) \<inter> U = {}"
  shows "\<forall>k. used_at (U \<union> set (call_tokens calls)) k (window_run calls y) \<and> one_incarnation k (window_run calls y)"
  using assms
proof (induction calls arbitrary: U y)
  case (Cons c calls)
  obtain now deadline token request where c: "c = (now, deadline, token, request)" by (metis prod_cases4)
  let ?z = "snd (window_script now deadline token request y)"
  have fresh: "token \<notin> U" using Cons.prems(3) by (simp add: c call_tokens_def)
  have "\<forall>k. used_at (insert token U) k ?z \<and> one_incarnation k ?z"
    using Cons.prems(1) fresh used_step [OF script_key_step] incarnation_step [OF script_key_step] by blast
  from Cons.IH [OF this] show ?case
    using Cons.prems(2,3) by (simp add: c call_tokens_def insert_commute)
qed (simp add: call_tokens_def)

lemma faded_invalid:
  assumes "fading (or_revision ev) (or_member ev, mode) (or_epoch ev) limit y"
    and "fence (or_author ev) (or_member ev) (or_epoch ev) limit t y" and "t \<le> now"
  shows "\<not> valid now mode ev y"
proof
  assume v: "valid now mode ev y"
  then obtain s where "get now (ws_message y) (or_member ev, mode) = Some s" "me_revision s = or_revision ev"
    by (auto simp: valid_def valid_state_def split: option.splits)
  then have "now < limit" using assms(1) get_SomeD unfolding fading_def by fastforce
  then show False using fence_holds [OF assms(2,3)] v by (simp add: valid_def)
qed

lemma valid_fading:
  assumes v: "valid now mode ev y" and "one_incarnation (or_member ev, mode) y" and "retained now y"
  shows "fading (or_revision ev) (or_member ev, mode) (or_epoch ev) (now + MESSAGE_DUPLICATE_HISTORY_RETENTION_MS) y"
proof -
  let ?k = "(or_member ev, mode)"
  obtain l where "get now (ws_life y) ?k = Some l" and rl: "li_revision l = or_revision ev"
    using v by (auto simp: valid_def valid_life_def split: option.splits)
  then obtain e where l: "ws_life y ?k = Some (l, e)" using get_SomeD by metis
  obtain s where "get now (ws_message y) ?k = Some s" and s: "me_revision s = or_revision ev" "me_epoch s = or_epoch ev"
    using v by (auto simp: valid_def valid_state_def split: option.splits)
  then obtain e' where m: "ws_message y ?k = Some (s, e')" using get_SomeD by metis
  have "e' \<le> now + MESSAGE_DUPLICATE_HISTORY_RETENTION_MS"
    using assms(3) m unfolding retained_def Let_def expiring_def by blast
  moreover have "li_materializedRevision l \<noteq> None \<and> (\<exists>i. li_materialized l = Some i \<and> in_epoch i = or_epoch ev)"
    using assms(2) l m rl s unfolding one_incarnation_def by metis
  ultimately show ?thesis using l m s unfolding fading_def by simp
qed

text \<open>A store that only holds records of the previous version.\<close>

definition empty_window :: "(life_key, life) keyed \<Rightarrow> window_store" where
  "empty_window prior =
     \<lparr>ws_reset = \<lambda>_. None, ws_removed = \<lambda>_. None, ws_prior = prior, ws_life = \<lambda>_. None, ws_message = \<lambda>_. None,
      ws_group = \<lambda>_. None, ws_count = \<lambda>_. None, ws_qualification = \<lambda>_. None\<rparr>"

lemma empty_retained: "retained t (empty_window prior)"
  by (simp add: retained_def empty_window_def expiring_def)

lemma empty_incarnations: "used_at {} k (empty_window prior) \<and> one_incarnation k (empty_window prior)"
  by (simp add: used_at_def one_incarnation_def empty_window_def)

lemma empty_counts: "counts_ok allowed (empty_window prior)"
  by (simp add: counts_ok_def empty_window_def)

lemma run_append: "window_run (xs @ ys) y = window_run ys (window_run xs y)"
  by (induction xs y rule: window_run.induct) auto

lemma clock_append: "clock_from t (xs @ ys) \<longleftrightarrow> clock_from t xs \<and> clock_from (last_clock t xs) ys"
  by (induction t xs rule: clock_from.induct) auto

lemma last_clock_append: "last_clock t (xs @ ys) = last_clock (last_clock t xs) ys"
  by (induction t xs rule: clock_from.induct) auto

text \<open>A fence raised over valid evidence.\<close>

lemma fence_raised:
  assumes v: "valid now mode ev y" and "retained now y" and "one_incarnation (or_member ev, mode) y"
    and request: "request = Reset_Op (or_author ev) \<or> request = Remove_Op (or_member ev)" and "now \<le> deadline"
  shows "fading (or_revision ev) (or_member ev, mode) (or_epoch ev) (now + MESSAGE_DUPLICATE_HISTORY_RETENTION_MS)
      (snd (window_script now deadline token request y)) \<and>
    fence (or_author ev) (or_member ev) (or_epoch ev) (now + MESSAGE_DUPLICATE_HISTORY_RETENTION_MS) now
      (snd (window_script now deadline token request y))"
proof -
  let ?z = "snd (window_script now deadline token request y)"
  have z: "?z = (if request = Reset_Op (or_author ev) then reset_op now (or_author ev) y else remove_op now (or_member ev) y)"
    using request \<open>now \<le> deadline\<close> by (auto simp: window_script_def)
  have "ws_life ?z = ws_life y" "ws_message ?z = ws_message y"
    by (simp_all add: z reset_op_def remove_op_def)
  then have "fading (or_revision ev) (or_member ev, mode) (or_epoch ev) (now + MESSAGE_DUPLICATE_HISTORY_RETENTION_MS) ?z"
    using valid_fading [OF v assms(3,2)] by (simp only: fading_def)
  moreover have "epoch now (or_author ev) y = or_epoch ev" "\<not> removed now (or_member ev) y"
    using v by (simp_all add: valid_def)
  ultimately show ?thesis
    by (simp add: z fence_def reset_op_def remove_op_def put_def Let_def less_max_iff_disj)
qed

section \<open>Replays\<close>

text \<open>What keeps an observation current: nothing reset, removed or expired since.\<close>

definition undisturbed :: "int \<Rightarrow> observation \<Rightarrow> window_store \<Rightarrow> bool" where
  "undisturbed now o' y \<longleftrightarrow>
     \<not> removed now (ob_member o') y \<and> ob_at o' > epoch now (ob_author o') y \<and>
     ob_recompressionOriginal o' = None \<and>
     (\<exists>s l. get now (ws_message y) (ob_member o', ob_mode o') = Some s \<and>
        get now (ws_life y) (ob_member o', ob_mode o') = Some l \<and>
        me_epoch s = epoch now (ob_author o') y \<and> me_at s = ob_at o' \<and> me_source s = ob_source o' \<and>
        me_identity s = ob_identity o' \<and> me_context s = ob_context o' \<and> me_revision s = li_revision l \<and>
        li_at l = ob_at o' \<and> li_source l = ob_lifecycleSource o' \<and> \<not> li_conflict l \<and>
        (\<exists>i. li_materialized l = Some i \<and> in_epoch i = me_epoch s))"

lemma undisturbed_replays:
  assumes "undisturbed now o' y"
  shows "\<exists>s. get now (ws_message y) (ob_member o', ob_mode o') = Some s \<and> observe_op now token o' y = (replayed s, y)"
proof -
  let ?k = "(ob_member o', ob_mode o')"
  obtain s l i where s: "get now (ws_message y) ?k = Some s" and l: "get now (ws_life y) ?k = Some l"
      and f: "me_epoch s = epoch now (ob_author o') y" "me_at s = ob_at o'" "me_source s = ob_source o'"
        "me_identity s = ob_identity o'" "me_context s = ob_context o'" "me_revision s = li_revision l"
        "li_at l = ob_at o'" "li_source l = ob_lifecycleSource o'" "\<not> li_conflict l"
        "li_materialized l = Some i" "in_epoch i = me_epoch s"
    using assms unfolding undisturbed_def by blast
  have last: "last_incarnation now o' y = Some i" by (simp add: last_incarnation_def l f)
  then have fresh: "\<not> revoked now o' y" by (simp add: revoked_def f)
  have adm: "admitted now o' y"
    using assms last fresh by (simp add: admitted_def undisturbed_def recompression_anchored_def)
  show ?thesis
  proof (cases "pending_replay now o' y")
    case (Some s')
    then have "s' = s" using s l by (auto simp: pending_replay_def split: if_splits)
    then show ?thesis using adm Some s by (simp add: observe_op_def)
  next
    case None
    have life: "lifecycle now token ?k (ob_at o') (ob_lifecycleSource o') (ob_publishedAt o') (Some l) y = (y, Some l)"
      by (simp add: lifecycle_def continue_life_def f)
    have "proceed now token o' l (Some s) y = (replayed s, y)"
      by (simp add: proceed_def same_event_def f)
    then show ?thesis
      using adm None s l life fresh by (simp add: observe_op_def reset_life_def rebuilt_life_def Let_def)
  qed
qed

section \<open>Anchors\<close>




lemma new_state_more [simp]:
  "me_at (new_state token o' ep l p) = ob_at o'" "me_source (new_state token o' ep l p) = ob_source o'"
  "me_identity (new_state token o' ep l p) = ob_identity o'" "me_context (new_state token o' ep l p) = ob_context o'"
  "me_matches (new_state token o' ep l p) = []"
  by (simp_all add: new_state_def Let_def)

text \<open>What an answered observation leaves for the next one.\<close>

lemma observe_stored:
  assumes step: "observe_op now token o' y = (r, z)" and "wr_kind r = Ok"
  shows "\<exists>s e l e' i. ws_message z (ob_member o', ob_mode o') = Some (s, e) \<and>
    ws_life z (ob_member o', ob_mode o') = Some (l, e') \<and> me_matches s = wr_matches r \<and>
    me_epoch s = epoch now (ob_author o') y \<and> me_at s = ob_at o' \<and> me_source s = ob_source o' \<and>
    me_identity s = ob_identity o' \<and> me_context s = ob_context o' \<and> me_revision s = li_revision l \<and>
    current o' l \<and> li_materialized l = Some i \<and> in_epoch i = me_epoch s"
  using step
proof (cases rule: observe_cases)
  case (fresh l y1)
  let ?k = "(ob_member o', ob_mode o')"
  have ep: "epoch now (ob_author o') y1 = epoch now (ob_author o') y"
    using life_only_epoch [OF life_step_only [OF fresh(1)]] .
  from fresh(5) show ?thesis
  proof (cases rule: record_state_cases)
    case (1 l2 y2)
    define s where "s = new_state token o' (epoch now (ob_author o') y1) l (get now (ws_message y) ?k)"
    define y3 where "y3 = recorded now o' l2 s y2"
    have life: "\<exists>e. ws_life y3 ?k = Some (l2, e)"
      using put_value [of now ?k l2 "eventExpiry now (li_at l2)" True "ws_life y2"] by (auto simp: y3_def recorded_def)
    have cur: "current o' l2" using fresh(4) 1(5-7) by (simp add: current_def)
    from 1(8) consider "wr_matches r = []" "z = y3"
      | kept where "compare_with_originals now o' l2 s kept y3 = (r, z)"
      unfolding Let_def s_def [symmetric] y3_def [symmetric] by blast
    then show ?thesis
    proof cases
      case 11: 1
      obtain e where "ws_message y3 ?k = Some (s, e)"
        using put_value [of now ?k s "windowExpiry now (clamp_window (ob_windowMs o')) (me_at s)" False "ws_message y2"]
        by (auto simp: y3_def recorded_def)
      moreover obtain e' where "ws_life y3 ?k = Some (l2, e')" using life by blast
      ultimately show ?thesis
        using cur 1(4) unfolding 11(2)
        by (intro exI [of _ s] exI [of _ e] exI [of _ l2] exI [of _ e'])
          (simp add: s_def ep 11(1) 1(2))
    next
      case 2
      then show ?thesis
      proof (cases rule: compare_cases)
        case c: (1 verdicts s')
        have "\<exists>e. ws_message z ?k = Some (s', e)"
          using put_value [of now ?k s' "windowExpiry now (clamp_window (ob_windowMs o')) (me_at s)" True "ws_message y3"]
          by (auto simp: c(13))
        moreover have "ws_life z = ws_life y3" by (simp add: c(13))
        ultimately show ?thesis
          using life cur 1(2,4) c by (auto simp: s_def ep)
      qed
    qed
  qed
qed (use assms in \<open>auto simp: answer_kind_def replayed_def\<close>)

section \<open>Where an answer's matches come from\<close>

lemma observe_fresh_kind:
  assumes "record_state now token o' l previous y = (r, z)"
  shows "wr_kind r = Ok"
  using assms
proof (cases rule: record_state_cases)
  case (1 l2 y2)
  then show ?thesis unfolding Let_def using compare_cases by blast
qed

text \<open>A match carried along by a check's qualification is the same match with another count.\<close>

definition same_match :: "duplicate_match \<Rightarrow> duplicate_match \<Rightarrow> bool" where
  "same_match m m' \<longleftrightarrow> m = m'\<lparr>ma_qualified := ma_qualified m\<rparr>"

lemma same_match_refl [simp]: "same_match m m"
  by (simp add: same_match_def)

lemma same_match_trans: "same_match a b \<Longrightarrow> same_match b c \<Longrightarrow> same_match a c"
  unfolding same_match_def by (metis (no_types, lifting) duplicate_match.surjective duplicate_match.update_convs(4))

lemma split_match_parts: "split_match f ms = Some (xs, x, ys) \<Longrightarrow> ms = xs @ x # ys"
  by (induction ms arbitrary: xs) (auto split: if_splits option.splits)

text \<open>One message's record after a call: that of before, requalified at most, or the answer of an observation.\<close>

definition kept_record :: "life_key \<Rightarrow> window_store \<Rightarrow> message_state \<Rightarrow> bool" where
  "kept_record k y s \<longleftrightarrow>
     (\<exists>s0 e0. ws_message y k = Some (s0, e0) \<and> me_at s = me_at s0 \<and> me_source s = me_source s0 \<and>
        (\<forall>m \<in> set (me_matches s). \<exists>m0 \<in> set (me_matches s0). same_match m m0))"

definition answered_record :: "window_request \<Rightarrow> window_result \<Rightarrow> life_key \<Rightarrow> message_state \<Rightarrow> bool" where
  "answered_record request r k s \<longleftrightarrow>
     (\<exists>o'. request = Observe_Op o' \<and> k = (ob_member o', ob_mode o') \<and> wr_kind r = Ok \<and> me_matches s = wr_matches r \<and>
        me_at s = ob_at o' \<and> me_source s = ob_source o')"

lemma kept_record_same:
  assumes "ws_message z k = ws_message y k" "ws_message z k = Some (s, e)"
  shows "kept_record k y s"
proof -
  have "ws_message y k = Some (s, e)" using assms by simp
  then show ?thesis unfolding kept_record_def using same_match_refl by blast
qed

lemma observe_record:
  assumes step: "observe_op now token o' y = (r, z)" and s: "ws_message z k = Some (s, e)"
  shows "kept_record k y s \<or> answered_record (Observe_Op o') r k s"
  using step
proof (cases rule: observe_cases)
  case stale
  then show ?thesis using s kept_record_same life_only_fields(4) [OF life_step_only] by metis
next
  case (again s')
  then show ?thesis using s kept_record_same life_only_fields(4) [OF life_step_only [OF again(3)]] by metis
next
  case (fresh l y1)
  note kind = observe_fresh_kind [OF fresh(5)]
  show ?thesis
  proof (cases "k = (ob_member o', ob_mode o')")
    case True
    obtain s1 e1 where "ws_message z (ob_member o', ob_mode o') = Some (s1, e1)" "me_matches s1 = wr_matches r"
      "me_at s1 = ob_at o'" "me_source s1 = ob_source o'"
      using observe_stored [OF step kind] by blast
    then show ?thesis using True s kind unfolding answered_record_def by auto
  next
    case False
    then show ?thesis
      using record_rewritten [OF fresh(5,1,2,3)] s kept_record_same by metis
  qed
qed

lemma qualify_record:
  assumes "qualify_op now c y = (r, z)" "ws_message z k = Some (s, e)"
  shows "kept_record k y s"
  using assms(1)
proof (cases rule: qualify_cases)
  case same
  then show ?thesis using assms(2) kept_record_same by metis
next
  case (counted s0 before m after n q)
  let ?k = "(ck_member c, ck_mode c)"
  show ?thesis
  proof (cases "k = ?k")
    case True
    obtain e0 where e0: "ws_message y k = Some (s0, e0)"
      using get_SomeD [OF matching_state [OF counted(1)]] True by blast
    have parts: "me_matches s0 = before @ m # after"
      using counted(1) split_match_parts by (auto simp: matching_def split: option.splits)
    have "s = s0\<lparr>me_matches := before @ (m\<lparr>ma_qualified := Some q\<rparr>) # after\<rparr>"
      using assms(2) True counted(5) put_value [of now ?k "s0\<lparr>me_matches := before @ (m\<lparr>ma_qualified := Some q\<rparr>) # after\<rparr>"
          "windowExpiry now (clamp_window (ck_windowMs c)) (me_at s0)" True "ws_message y"] by auto
    moreover have "\<exists>x \<in> set (me_matches s0). same_match m' x"
      if "m' \<in> set (before @ (m\<lparr>ma_qualified := Some q\<rparr>) # after)" for m'
    proof (cases "m' = m\<lparr>ma_qualified := Some q\<rparr>")
      case True
      then have "same_match m' m" by (simp add: same_match_def)
      then show ?thesis using parts by auto
    next
      case False
      then show ?thesis using that parts by (intro bexI [of _ m']) auto
    qed
    ultimately show ?thesis
      unfolding kept_record_def using e0 by (intro exI [of _ s0] exI [of _ e0]) simp
  next
    case False
    then have "ws_message z k = ws_message y k" by (simp add: counted(5))
    then show ?thesis using assms(2) kept_record_same by metis
  qed
qed

lemma script_record:
  assumes "window_script now deadline token request y = (r, z)" "ws_message z k = Some (s, e)"
  shows "kept_record k y s \<or> answered_record request r k s"
proof (cases "now > deadline")
  case True
  then have "z = y" using assms(1) by (simp add: window_script_def)
  then show ?thesis using assms(2) kept_record_same by metis
next
  case False
  show ?thesis
  proof (cases request)
    case (Qualify_Op c)
    then show ?thesis using assms False qualify_record by (simp add: window_script_def)
  next
    case (Observe_Op o')
    then show ?thesis using assms False observe_record by (simp add: window_script_def)
  next
    case (Lifecycle_Op member time publishedAt sources)
    have "ws_message z = ws_message y"
      using assms False Lifecycle_Op by (auto simp: window_script_def lifecycle_op_fields)
    then show ?thesis using assms(2) kept_record_same by metis
  next
    case (Invalidate_Op member sources)
    have "ws_message z = ws_message y"
      using assms False Invalidate_Op by (auto simp: window_script_def invalidate_op_fields)
    then show ?thesis using assms(2) kept_record_same by metis
  next
    case (Reset_Op author)
    have "ws_message z = ws_message y" using assms(1) False Reset_Op by (auto simp: window_script_def reset_op_def)
    then show ?thesis using assms(2) kept_record_same by metis
  next
    case (Remove_Op member)
    have "ws_message z = ws_message y"
      using assms(1) False Remove_Op by (auto simp: window_script_def remove_op_def split: if_splits)
    then show ?thesis using assms(2) kept_record_same by metis
  next
    case (Image_Anchor_Op mode scope fingerprint time start)
    have "z = y" using assms(1) False Image_Anchor_Op by (simp add: window_script_def)
    then show ?thesis using assms(2) kept_record_same by metis
  next
    case (Check_Op c)
    have "z = y" using assms(1) False Check_Op by (simp add: window_script_def)
    then show ?thesis using assms(2) kept_record_same by metis
  qed
qed

text \<open>The observation of a run that first answered a match of a message, and proved it then.\<close>

definition proved_earlier ::
    "(life_key, life) keyed \<Rightarrow> window_call list \<Rightarrow> life_key \<Rightarrow> int \<Rightarrow> js_string \<Rightarrow> duplicate_match \<Rightarrow> bool" where
  "proved_earlier prior calls k at source m \<longleftrightarrow>
     (\<exists>before now deadline token o' after r z m'.
        calls = before @ (now, deadline, token, Observe_Op o') # after \<and>
        window_script now deadline token (Observe_Op o') (window_run before (empty_window prior)) = (r, z) \<and>
        wr_kind r = Ok \<and> m' \<in> set (wr_matches r) \<and> same_match m m' \<and> duplicate_proved now o' m' z \<and>
        (ob_member o', ob_mode o') = k \<and> ob_at o' = at \<and> ob_source o' = source)"

lemma proved_earlier_later: "proved_earlier prior calls k at source m \<Longrightarrow> proved_earlier prior (calls @ calls') k at source m"
  unfolding proved_earlier_def by (metis (no_types, lifting) append.assoc append_Cons)

lemma proved_earlier_same:
  assumes "proved_earlier prior calls k at source m" "same_match m2 m"
  shows "proved_earlier prior calls k at source m2"
proof -
  have "same_match m m' \<Longrightarrow> same_match m2 m'" for m'
    using same_match_trans [OF assms(2)] .
  then show ?thesis using assms(1) unfolding proved_earlier_def by blast
qed

lemma script_observe_proved:
  assumes "window_script now deadline token (Observe_Op o') y = (r, z)" "wr_kind r = Ok" "m \<in> set (wr_matches r)"
  shows "duplicate_proved now o' m z"
proof -
  have "observe_op now token o' y = (r, z)"
    using assms(1,2) by (cases "now > deadline") (auto simp: window_script_def answer_kind_def)
  then show ?thesis using observe_proved assms(2,3) by blast
qed

lemma stored_matches_proved:
  assumes "ws_message (window_run calls (empty_window prior)) k = Some (s, e)" "m \<in> set (me_matches s)"
  shows "proved_earlier prior calls k (me_at s) (me_source s) m"
  using assms
proof (induction calls arbitrary: s e m rule: rev_induct)
  case Nil
  then show ?case by (simp add: empty_window_def)
next
  case (snoc call calls)
  obtain now deadline token request where call: "call = (now, deadline, token, request)" by (metis prod_cases4)
  let ?y = "window_run calls (empty_window prior)"
  obtain r z where step: "window_script now deadline token request ?y = (r, z)" by fastforce
  have z: "window_run (calls @ [call]) (empty_window prior) = z" by (simp add: run_append call step)
  consider "kept_record k ?y s" | "answered_record request r k s"
    using script_record [OF step] snoc.prems(1) z by metis
  then show ?case
  proof cases
    case 1
    then obtain s0 e0 m0 where old: "ws_message ?y k = Some (s0, e0)" "m0 \<in> set (me_matches s0)" and same: "same_match m m0"
      and at: "me_at s = me_at s0" "me_source s = me_source s0"
      using snoc.prems(2) unfolding kept_record_def by blast
    show ?thesis
      unfolding at by (rule proved_earlier_later [OF proved_earlier_same [OF snoc.IH [OF old] same]])
  next
    case 2
    then obtain o' where o': "request = Observe_Op o'" "k = (ob_member o', ob_mode o')" "wr_kind r = Ok"
        "me_matches s = wr_matches r" "me_at s = ob_at o'" "me_source s = ob_source o'"
      unfolding answered_record_def by blast
    have m: "m \<in> set (wr_matches r)" using snoc.prems(2) o'(4) by simp
    have proved: "duplicate_proved now o' m z"
      by (rule script_observe_proved [OF step [unfolded o'(1)] o'(3) m])
    have split: "calls @ [call] = calls @ (now, deadline, token, Observe_Op o') # []" using call o'(1) by simp
    show ?thesis
      unfolding proved_earlier_def o'(2,5,6)
      using split step [unfolded o'(1)] o'(3) m same_match_refl [of m] proved by blast
  qed
qed

text \<open>A replay answers the record of the message as it stands and writes no record.\<close>

lemma proceed_replays:
  assumes "proceed now token o' l previous y = (r, z)" "wr_kind r = Replayed"
  shows "\<exists>s. previous = Some s \<and> r = replayed s \<and> z = y \<and> me_source s = ob_source o' \<and> me_at s \<le> ob_at o'"
proof (cases previous)
  case None
  then show ?thesis using assms observe_fresh_kind [of now token o' l None y r z] by (simp add: proceed_def)
next
  case (Some s)
  have "wr_kind r = Ok" if "record_state now token o' l' (Some s) y' = (r, z)" for l' y'
    using observe_fresh_kind [OF that] .
  then show ?thesis
    using assms Some unfolding proceed_def
    by (auto simp: answer_kind_def same_event_def split: if_splits)
qed

lemma observe_replays_stored:
  assumes "observe_op now token o' y = (r, z)" "wr_kind r = Replayed"
  shows "\<exists>s. get now (ws_message y) (ob_member o', ob_mode o') = Some s \<and> r = replayed s \<and>
    me_source s = ob_source o' \<and> me_at s \<le> ob_at o' \<and> life_only (ob_member o', ob_mode o') y z"
proof (cases "admitted now o' y")
  case False
  then show ?thesis using assms by (auto simp: observe_op_def answer_kind_def)
next
  case adm: True
  let ?k = "(ob_member o', ob_mode o')"
  show ?thesis
  proof (cases "pending_replay now o' y")
    case (Some s)
    then show ?thesis
      using assms adm by (auto simp: observe_op_def pending_replay_def split: option.splits if_splits)
  next
    case None
    obtain y1 lo where life: "lifecycle now token ?k (ob_at o') (ob_lifecycleSource o') (ob_publishedAt o')
        (get now (ws_life y) ?k) y = (y1, lo)" by fastforce
    have "(\<exists>l. proceed now token o' l (get now (ws_message y) ?k) y1 = (r, z)) \<or> r = answer_kind Stale"
      using assms(1) adm None life by (auto simp: observe_op_def Let_def split: option.splits)
    then obtain l where "proceed now token o' l (get now (ws_message y) ?k) y1 = (r, z)"
      using assms(2) by (auto simp: answer_kind_def)
    from proceed_replays [OF this assms(2)] show ?thesis
      using lifecycle_only [OF life] by auto
  qed
qed

lemma script_replays:
  assumes "window_script now deadline token (Observe_Op o') y = (r, z)" "wr_kind r = Replayed"
  obtains s where "get now (ws_message y) (ob_member o', ob_mode o') = Some s" "r = replayed s"
    "me_source s = ob_source o'" "me_at s \<le> ob_at o'" "life_only (ob_member o', ob_mode o') y z"
proof -
  have "observe_op now token o' y = (r, z)"
    using assms by (auto simp: window_script_def answer_kind_def split: if_splits)
  from observe_replays_stored [OF this assms(2)] that show ?thesis by blast
qed

lemma script_observe_kinds:
  assumes "window_script now deadline token (Observe_Op o') y = (r, z)" "wr_matches r \<noteq> []"
  shows "wr_kind r = Ok \<or> wr_kind r = Replayed"
proof (cases "now > deadline")
  case True
  then show ?thesis using assms by (auto simp: window_script_def answer_kind_def)
next
  case False
  then have "observe_op now token o' y = (r, z)" using assms(1) by (simp add: window_script_def)
  then show ?thesis
  proof (cases rule: observe_cases)
    case (fresh l y1)
    then show ?thesis using observe_fresh_kind by blast
  qed (use assms(2) in \<open>auto simp: answer_kind_def replayed_def\<close>)
qed

section \<open>Properties\<close>

definition sample_observation :: "string \<Rightarrow> int \<Rightarrow> observation" where
  "sample_observation member time =
     \<lparr>ob_mode = Mode_Text, ob_scope = ascii ''author'', ob_member = ascii member, ob_author = ascii ''author'',
      ob_messageId = ascii member, ob_senderId = ascii ''sender'', ob_at = time, ob_publishedAt = Some time,
      ob_source = ascii ''text'', ob_lifecycleSource = ascii ''text'', ob_identity = ascii ''text'', ob_pendingSafe = True,
      ob_mediaHashes = [], ob_recompressionOriginal = None, ob_fingerprints = [ascii ''fp''], ob_allowed = 1,
      ob_windowMs = 3600000, ob_context = ascii ''context'', ob_period = None\<rparr>"

definition sample_calls :: "window_call list" where
  "sample_calls =
     [(100001, 100250, ascii ''t1'', Observe_Op (sample_observation ''m1'' 100000)),
      (101001, 101250, ascii ''t2'', Observe_Op (sample_observation ''m2'' 101000))]"

definition sample_store :: window_store where
  "sample_store = window_run sample_calls (empty_window (\<lambda>_. None))"

definition sample_original :: original where
  "sample_original = the (valid_group 102001 Mode_Text (ascii ''author'', ascii ''fp'') sample_store)"

definition sample_answer :: "window_result \<times> window_store" where
  "sample_answer = observe_op 102001 (ascii ''t3'') (sample_observation ''m3'' 102000) sample_store"

lemma sample_answer_facts:
  "wr_kind (fst sample_answer) = Ok \<and> length (wr_matches (fst sample_answer)) = 1 \<and>
   or_member sample_original = ascii ''m1'' \<and>
   valid_group 102001 Mode_Text (ascii ''author'', ascii ''fp'') sample_store = Some sample_original"
proof -
  have "wr_kind (fst sample_answer) = Ok \<and> length (wr_matches (fst sample_answer)) = 1 \<and>
      or_member sample_original = ascii ''m1''"
    by code_simp
  moreover have "valid_group 102001 Mode_Text (ascii ''author'', ascii ''fp'') sample_store \<noteq> None" by code_simp
  ultimately show ?thesis by (auto simp: sample_original_def)
qed

text \<open>
  C8: Whatever calls came before, every match that an observation answers is proved.  A match answered anew (kind
  \<^verbatim>\<open>ok\<close>) is proved in the store after the call: it names an accepted original of another message, which is
  valid, was published before the message within its window, and whose allowance of repeats is used up.  A match
  answered again (kind \<^verbatim>\<open>replayed\<close>) is not proved again, and its original may have been removed or reset
  since: it stands, up to the count of its qualification, on an earlier observation of the same message, mode and source,
  not later in the chat's time, that answered it anew and proved it then; a replay changes no record of a message, no
  original and no counter.
\<close>

theorem duplicates_are_proved:
  assumes "window_script now deadline token (Observe_Op o') (window_run calls (empty_window prior)) = (r, z)"
    and "m \<in> set (wr_matches r)"
  shows "wr_kind r = Ok \<and> duplicate_proved now o' m z \<or>
    wr_kind r = Replayed \<and>
      (\<exists>at \<le> ob_at o'. proved_earlier prior calls (ob_member o', ob_mode o') at (ob_source o') m) \<and>
      (let y = window_run calls (empty_window prior)
       in ws_message z = ws_message y \<and> ws_group z = ws_group y \<and> ws_count z = ws_count y)"
proof -
  have "wr_matches r \<noteq> []" using assms(2) by auto
  then consider "wr_kind r = Ok" | "wr_kind r = Replayed" using script_observe_kinds [OF assms(1)] by blast
  then show ?thesis
  proof cases
    case 1
    then show ?thesis using script_observe_proved [OF assms(1) 1 assms(2)] by blast
  next
    case 2
    obtain s where s: "get now (ws_message (window_run calls (empty_window prior))) (ob_member o', ob_mode o') = Some s"
      "r = replayed s" "me_source s = ob_source o'" "me_at s \<le> ob_at o'"
      "life_only (ob_member o', ob_mode o') (window_run calls (empty_window prior)) z"
      by (rule script_replays [OF assms(1) 2])
    then have "m \<in> set (me_matches s)" using assms(2) by (simp add: replayed_def answer_kind_def)
    then have "proved_earlier prior calls (ob_member o', ob_mode o') (me_at s) (ob_source o') m"
      using stored_matches_proved get_SomeD [OF s(1)] s(3) by metis
    then show ?thesis using 2 s(4) life_only_fields [OF s(5)] by (auto simp: Let_def)
  qed
qed

theorem duplicates_are_proved_witness:
  "duplicate_proved 102001 (sample_observation ''m3'' 102000) (hd (wr_matches (fst sample_answer))) (snd sample_answer)"
proof -
  have "window_script 102001 102250 (ascii ''t3'') (Observe_Op (sample_observation ''m3'' 102000))
      (window_run sample_calls (empty_window (\<lambda>_. None))) = (fst sample_answer, snd sample_answer)"
    by (simp add: sample_answer_def window_script_def sample_store_def)
  moreover have "hd (wr_matches (fst sample_answer)) \<in> set (wr_matches (fst sample_answer))"
    using sample_answer_facts by (cases "wr_matches (fst sample_answer)") auto
  ultimately show ?thesis
    using duplicates_are_proved sample_answer_facts by (metis window_kind.distinct(1))
qed



text \<open>
  C3: Evidence that was valid when its author was reset or its message removed is never valid again, whatever calls
  come before and after and however late: the fence lives as long as every record made before it, and a later record
  never takes up an old revision.
\<close>

theorem revoked_evidence_stays_revoked:
  assumes clock: "clock_from t (before @ (now, deadline, token, request) # after)"
    and tokens: "distinct (call_tokens (before @ (now, deadline, token, request) # after))"
    and author: "authored author_of after" "or_author ev = author_of (or_member ev)"
    and valid: "valid now mode ev (window_run before (empty_window prior))"
    and request: "request = Reset_Op (or_author ev) \<or> request = Remove_Op (or_member ev)" "now \<le> deadline"
    and late: "last_clock now after \<le> later"
  shows "\<not> valid later mode ev (window_run (before @ (now, deadline, token, request) # after) (empty_window prior))"
proof -
  let ?y = "window_run before (empty_window prior)"
  let ?z = "snd (window_script now deadline token request ?y)"
  let ?limit = "now + MESSAGE_DUPLICATE_HISTORY_RETENTION_MS"
  have clocks: "clock_from t before" "last_clock t before \<le> now" "clock_from now after"
    using clock by (simp_all add: clock_append)
  have "retained now ?y"
    using retained_mono [OF retained_run [OF clocks(1) empty_retained] clocks(2)] .
  moreover have used: "\<forall>k. used_at (set (call_tokens before)) k ?y \<and> one_incarnation k ?y"
    using incarnations_run [of "{}" "empty_window prior" before] empty_incarnations tokens by (simp add: call_tokens_def)
  ultimately have fenced: "fading (or_revision ev) (or_member ev, mode) (or_epoch ev) ?limit ?z \<and>
      fence (author_of (or_member ev)) (or_member ev) (or_epoch ev) ?limit now ?z"
    using fence_raised [OF valid _ _ request] author(2) by simp
  have "or_revision ev \<in> set (call_tokens before)"
  proof -
    obtain s where "get now (ws_message ?y) (or_member ev, mode) = Some s" "me_revision s = or_revision ev"
      using valid by (auto simp: valid_def valid_state_def split: option.splits)
    then show ?thesis using used get_SomeD unfolding used_at_def by metis
  qed
  moreover have "set (call_tokens before) \<inter> set (call_tokens after) = {}"
    using tokens unfolding call_tokens_def map_append list.map distinct_append by auto
  ultimately have "or_revision ev \<notin> set (call_tokens after)" by blast
  from fading_run [OF clocks(3) author(1) this fenced]
  have "\<not> valid later mode ev (window_run after ?z)"
    using faded_invalid late author(2) by metis
  then show ?thesis by (simp add: run_append)
qed

theorem revoked_evidence_stays_revoked_witness:
  "\<not> valid 200000000 Mode_Text sample_original
     (window_run (sample_calls @ (102001, 102250, ascii ''t3'', Reset_Op (ascii ''author'')) #
        [(199000000, 199000250, ascii ''t4'', Observe_Op (sample_observation ''m1'' 199000000))])
        (empty_window (\<lambda>_. None)))"
proof (rule revoked_evidence_stays_revoked [where author_of = "\<lambda>_. ascii ''author''" and t = 0])
  show "valid 102001 Mode_Text sample_original (window_run sample_calls (empty_window (\<lambda>_. None)))"
    using sample_answer_facts valid_group_SomeD sample_store_def by metis
  have "or_author sample_original = ascii ''author''" by code_simp
  then show "or_author sample_original = ascii ''author''"
    and "Reset_Op (ascii ''author'') = Reset_Op (or_author sample_original) \<or>
      Reset_Op (ascii ''author'') = Remove_Op (or_member sample_original)"
    by simp_all
  show "distinct (call_tokens (sample_calls @ (102001, 102250, ascii ''t3'', Reset_Op (ascii ''author'')) #
        [(199000000, 199000250, ascii ''t4'', Observe_Op (sample_observation ''m1'' 199000000))]))"
    by code_simp
qed (simp_all add: sample_calls_def authored_def sample_observation_def)

text \<open>
  Whatever calls are made, no counter of repeats ever exceeds the allowance of its fingerprint, nor its qualified
  repeats what is left up to twenty.
\<close>

theorem allowances_hold:
  assumes "\<forall>now deadline token request. (now, deadline, token, request) \<in> set calls \<longrightarrow> allowance_given allowed request"
    and "\<forall>f. 0 \<le> allowed f \<and> allowed f \<le> 20"
    and "ws_count (window_run calls (empty_window prior)) (author, f, i, ep, ep') = Some (n, e)"
  shows "0 \<le> oc_accepted n \<and> oc_accepted n \<le> allowed f \<and> 0 \<le> oc_qualified n \<and> oc_accepted n + oc_qualified n \<le> 20"
proof -
  have "counts_ok allowed (window_run calls y)" if "counts_ok allowed y" for y
    using assms(1) that
  proof (induction calls arbitrary: y)
    case (Cons c calls)
    obtain now deadline token request where c: "c = (now, deadline, token, request)" by (metis prod_cases4)
    have "counts_ok allowed (snd (window_script now deadline token request y))"
      using script_counts_ok [OF Cons.prems(2) _ assms(2)] Cons.prems(1) c by auto
    then show ?case using Cons by (simp add: c)
  qed simp
  then have "count_ok (allowed f) n" using assms(3) empty_counts unfolding counts_ok_def by blast
  then show ?thesis by (simp add: count_ok_def)
qed

theorem allowances_hold_witness:
  "case ws_count sample_store (ascii ''author'', ascii ''fp'', ascii ''t1'', 0, 0) of
     Some (n, e) \<Rightarrow> oc_accepted n \<le> 1 \<and> oc_accepted n + oc_qualified n \<le> 20
   | None \<Rightarrow> False"
proof -
  have "ws_count sample_store (ascii ''author'', ascii ''fp'', ascii ''t1'', 0, 0) \<noteq> None" by code_simp
  then obtain n e where
    n: "ws_count (window_run sample_calls (empty_window (\<lambda>_. None))) (ascii ''author'', ascii ''fp'', ascii ''t1'', 0, 0) = Some (n, e)"
    by (auto simp: sample_store_def)
  have "\<forall>now deadline token request. (now, deadline, token, request) \<in> set sample_calls \<longrightarrow>
      allowance_given (\<lambda>_. 1) request"
    by (simp add: sample_calls_def sample_observation_def)
  from allowances_hold [OF this _ n] show ?thesis using n by (simp add: sample_store_def)
qed

text \<open>
  Nothing the script wrote is readable once the longest window and its grace have passed since the last call.
\<close>

theorem nothing_outlives_retention:
  assumes "clock_from t calls" "now \<ge> last_clock t calls + MESSAGE_DUPLICATE_HISTORY_RETENTION_MS"
  shows "forgotten now (window_run calls (empty_window prior))"
  by (rule retained_forgotten [OF retained_run [OF assms(1) empty_retained] assms(2)])

theorem nothing_outlives_retention_witness: "forgotten 173561001 sample_store"
  unfolding sample_store_def
  by (rule nothing_outlives_retention [of 0])
    (simp_all add: sample_calls_def MESSAGE_DUPLICATE_HISTORY_RETENTION_MS_def DUPLICATE_WINDOW_MAX_MS_def
      MESSAGE_DUPLICATE_HISTORY_GRACE_MS_def)

text \<open>
  Observing the same event again, while its records live and nothing was reset or removed, answers the same matches
  and writes nothing.
\<close>

theorem observation_replays:
  assumes "observe_op now token o' y = (r, z)" "wr_kind r = Ok" "ob_recompressionOriginal o' = None"
    and "get now' (ws_message z) (ob_member o', ob_mode o') \<noteq> None" "get now' (ws_life z) (ob_member o', ob_mode o') \<noteq> None"
    and "\<not> removed now' (ob_member o') z" "epoch now' (ob_author o') z = epoch now (ob_author o') y"
    and "ob_at o' > epoch now (ob_author o') y"
  shows "\<exists>r'. observe_op now' token' o' z = (r', z) \<and> wr_kind r' = Replayed \<and> wr_matches r' = wr_matches r"
proof -
  let ?k = "(ob_member o', ob_mode o')"
  obtain s e l e' i where s: "ws_message z ?k = Some (s, e)" and l: "ws_life z ?k = Some (l, e')"
      and f: "me_matches s = wr_matches r" "me_epoch s = epoch now (ob_author o') y" "me_at s = ob_at o'"
        "me_source s = ob_source o'" "me_identity s = ob_identity o'" "me_context s = ob_context o'"
        "me_revision s = li_revision l" "current o' l" "li_materialized l = Some i" "in_epoch i = me_epoch s"
    using observe_stored [OF assms(1,2)] by metis
  have g: "get now' (ws_message z) ?k = Some s" "get now' (ws_life z) ?k = Some l"
    using s l assms(4,5) by (auto simp: get_def split: if_splits)
  have "undisturbed now' o' z"
    using assms(3,6-8) f g unfolding undisturbed_def current_def by auto
  then show ?thesis using undisturbed_replays [of now' o' z token'] g f(1) by (auto simp: replayed_def answer_kind_def)
qed

theorem observation_replays_witness:
  "\<exists>r'. observe_op 103000 (ascii ''t4'') (sample_observation ''m3'' 102000) (snd sample_answer) = (r', snd sample_answer) \<and>
     wr_kind r' = Replayed \<and> wr_matches r' = wr_matches (fst sample_answer)"
proof (rule observation_replays)
  show "observe_op 102001 (ascii ''t3'') (sample_observation ''m3'' 102000) sample_store = (fst sample_answer, snd sample_answer)"
    by (simp add: sample_answer_def)
  show "wr_kind (fst sample_answer) = Ok" using sample_answer_facts by simp
  show "get 103000 (ws_message (snd sample_answer))
      (ob_member (sample_observation ''m3'' 102000), ob_mode (sample_observation ''m3'' 102000)) \<noteq> None"
    by code_simp
  show "get 103000 (ws_life (snd sample_answer))
      (ob_member (sample_observation ''m3'' 102000), ob_mode (sample_observation ''m3'' 102000)) \<noteq> None"
    by code_simp
  have fences: "ws_reset (snd sample_answer) = ws_reset sample_store \<and> ws_removed (snd sample_answer) = ws_removed sample_store"
    using observe_fences [of 102001 "ascii ''t3''" "sample_observation ''m3'' 102000" sample_store] surjective_pairing
    unfolding sample_answer_def by metis
  obtain r1 z1 where 1: "observe_op 100001 (ascii ''t1'') (sample_observation ''m1'' 100000) (empty_window (\<lambda>_. None)) = (r1, z1)"
    by fastforce
  obtain r2 z2 where 2: "observe_op 101001 (ascii ''t2'') (sample_observation ''m2'' 101000) z1 = (r2, z2)" by fastforce
  have "sample_store = z2" by (simp add: sample_store_def sample_calls_def window_script_def 1 2)
  then have none: "ws_reset sample_store = (\<lambda>_. None) \<and> ws_removed sample_store = (\<lambda>_. None)"
    using observe_fences [OF 1] observe_fences [OF 2] by (simp add: empty_window_def)
  show "\<not> removed 103000 (ob_member (sample_observation ''m3'' 102000)) (snd sample_answer)"
    and "epoch 103000 (ob_author (sample_observation ''m3'' 102000)) (snd sample_answer) =
      epoch 102001 (ob_author (sample_observation ''m3'' 102000)) sample_store"
    and "ob_at (sample_observation ''m3'' 102000) > epoch 102001 (ob_author (sample_observation ''m3'' 102000)) sample_store"
    using fences none by (simp_all add: removed_def epoch_def get_def sample_observation_def)
qed (simp add: sample_observation_def)

end
