(* ===== verification/Night_Calendar.thy ===== *)
theory Night_Calendar
  imports JS_Values "HOL-Library.Product_Lexorder"
begin

text \<open>
  \<^verbatim>\<open>apps/api/src/moderation/night-mode-calendar.util.ts\<close>: the nights of a schedule around an instant, and
  the cache of the calendars found.

  \<^item> Time zones and dates are the library luxon's and \<^verbatim>\<open>Intl\<close>'s.  What the code asks of them are the
    fields of the record \<open>civil\<close>, an argument of every operation: the instants of a wall time on a civil date, the
    civil date at an instant, the text of a date.  A civil date is its number of days since 1970-01-01; two dates
    compare like their ISO texts.
  \<^item> An instant is a whole number of milliseconds.  A call that throws returns \<open>None\<close>.  The calendars cached by
    geometry are an insertion-ordered map that every call takes and returns.
  \<^item> \<open>in_night\<close> is what a night is, \<open>true_calendar\<close> what a calendar promises of it (\<open>sealed_true\<close>), \<open>calendars_ok\<close> the
    invariant of the cache (\<open>calendars_kept\<close>); \<open>neighbours\<close> is the fact the transitions rest on.
\<close>

section \<open>Calendars\<close>

record geometry =
  ge_timezone :: js_string
  ge_startMinutes :: int
  ge_endMinutes :: int

record night_window =
  nw_sessionDate :: int
  nw_memberDates :: "int list"
  nw_closeAtMs :: int
  nw_openAtMs :: int

record calendar =
  ca_fromMs :: int
  ca_untilMs :: int
  ca_windows :: "night_window list"

text \<open>
  \<open>cv_candidates\<close> are the instants luxon gives for an hour and a minute of a civil day
  (\<^verbatim>\<open>fromObject\<close> and \<^verbatim>\<open>getPossibleOffsets\<close>; none if they are not finite);
  \<open>cv_local\<close> is the date of \<^verbatim>\<open>DateTime.fromMillis\<close>; \<open>cv_iso\<close> is
  \<^verbatim>\<open>toISODate\<close>; \<open>cv_zoned\<close> is \<^verbatim>\<open>formatDateKeyInTimeZone\<close>, whose body is
  \<^verbatim>\<open>Intl\<close>'s; \<open>cv_zone\<close> says if \<^verbatim>\<open>Intl\<close> knows a zone; \<open>cv_noon\<close> is
  \<^verbatim>\<open>Date.parse\<close> of a date's noon in UTC.
\<close>

record civil =
  cv_candidates :: "js_string \<Rightarrow> int \<Rightarrow> int \<Rightarrow> int \<Rightarrow> int list"
  cv_local :: "js_string \<Rightarrow> int \<Rightarrow> int option"
  cv_iso :: "int \<Rightarrow> js_string"
  cv_zoned :: "int \<Rightarrow> js_string \<Rightarrow> js_string"
  cv_zone :: "js_string \<Rightarrow> bool"
  cv_noon :: "js_string \<Rightarrow> int"

type_synonym calendars = "(geometry, calendar) jsmap"

definition NIGHT_MODE_CALENDAR_CACHE_LIMIT :: nat where "NIGHT_MODE_CALENDAR_CACHE_LIMIT = 256"

definition resolveBoundary :: "civil \<Rightarrow> js_string \<Rightarrow> int \<Rightarrow> int \<Rightarrow> int option" where
  "resolveBoundary c tz day minutes =
     (case cv_candidates c tz day (minutes div 60) (minutes mod 60) of
        [] \<Rightarrow> None
      | t # ts \<Rightarrow> Some (fold min ts t))"

definition closes :: "civil \<Rightarrow> geometry \<Rightarrow> int \<Rightarrow> int option" where
  "closes c g day = resolveBoundary c (ge_timezone g) day (ge_startMinutes g)"

definition opens :: "civil \<Rightarrow> geometry \<Rightarrow> int \<Rightarrow> int option" where
  "opens c g day =
     resolveBoundary c (ge_timezone g) (if ge_startMinutes g < ge_endMinutes g then day else day + 1) (ge_endMinutes g)"

fun raw_windows :: "civil \<Rightarrow> geometry \<Rightarrow> int list \<Rightarrow> night_window list option" where
  "raw_windows c g [] = Some []"
| "raw_windows c g (day # days) =
     (case (closes c g day, opens c g day) of
        (Some closeAt, Some openAt) \<Rightarrow>
          map_option (\<lambda>ws. if closeAt \<ge> openAt then ws
              else \<lparr>nw_sessionDate = day, nw_memberDates = [day], nw_closeAtMs = closeAt, nw_openAtMs = openAt\<rparr> # ws)
            (raw_windows c g days)
      | _ \<Rightarrow> None)"

definition sort_windows :: "night_window list \<Rightarrow> night_window list" where
  "sort_windows = sort_key (\<lambda>w. (nw_closeAtMs w, nw_sessionDate w))"

definition merge_window :: "night_window list \<Rightarrow> night_window \<Rightarrow> night_window list" where
  "merge_window merged item =
     (if merged = [] then [item]
      else if nw_closeAtMs item \<le> nw_openAtMs (last merged)
      then butlast merged @
        [(last merged)\<lparr>nw_openAtMs := max (nw_openAtMs (last merged)) (nw_openAtMs item),
           nw_memberDates := nw_memberDates (last merged) @ nw_memberDates item\<rparr>]
      else merged @ [item])"

definition merge_windows :: "night_window list \<Rightarrow> night_window list" where
  "merge_windows ws = foldl merge_window [] ws"

text \<open>The calendar of the merged windows, if the instant lies between its sealed neighbours.\<close>

definition seal :: "night_window list \<Rightarrow> int \<Rightarrow> calendar option" where
  "seal merged now =
     (if length merged < 3 then None
      else let fromMs = nw_closeAtMs (merged ! 2); untilMs = nw_closeAtMs (merged ! (length merged - 2)) in
        if now < fromMs \<or> now \<ge> untilMs then None
        else Some \<lparr>ca_fromMs = fromMs, ca_untilMs = untilMs, ca_windows = butlast (tl merged)\<rparr>)"

definition span :: "int \<Rightarrow> int \<Rightarrow> int list" where "span date radius = [date - radius..date + radius]"

fun search_calendar :: "civil \<Rightarrow> geometry \<Rightarrow> int \<Rightarrow> int \<Rightarrow> int list \<Rightarrow> calendar option" where
  "search_calendar c g now date [] = None"
| "search_calendar c g now date (radius # radii) =
     (case raw_windows c g (span date radius) of
        None \<Rightarrow> None
      | Some raw \<Rightarrow>
          (case seal (merge_windows (sort_windows raw)) now of
             Some cal \<Rightarrow> Some cal
           | None \<Rightarrow> search_calendar c g now date radii))"

definition remember_calendar :: "geometry \<Rightarrow> calendar \<Rightarrow> calendars \<Rightarrow> calendars" where
  "remember_calendar g cal cs =
     (let cs = jsmap_delete g cs;
          cs = (if length cs \<ge> NIGHT_MODE_CALENDAR_CACHE_LIMIT then tl cs else cs)
      in jsmap_set g cal cs)"

definition resolveNightModeCalendar ::
    "civil \<Rightarrow> geometry \<Rightarrow> int \<Rightarrow> calendars \<Rightarrow> night_window list option \<times> calendars" where
  "resolveNightModeCalendar c g now cs =
     (let fresh =
        (case cv_local c (ge_timezone g) now of
           None \<Rightarrow> (None, cs)
         | Some date \<Rightarrow>
             (case search_calendar c g now date [8, 32] of
                None \<Rightarrow> (None, cs)
              | Some cal \<Rightarrow> (Some (ca_windows cal), remember_calendar g cal cs)))
      in case jsmap_get cs g of
           Some cal \<Rightarrow>
             if ca_fromMs cal \<le> now \<and> now < ca_untilMs cal
             then (Some (ca_windows cal), jsmap_set g cal (jsmap_delete g cs))
             else fresh
         | None \<Rightarrow> fresh)"

section \<open>Nights and merged windows\<close>

text \<open>An instant is in the night of a geometry if some civil day has closed and not yet opened.\<close>

definition in_night :: "civil \<Rightarrow> geometry \<Rightarrow> int \<Rightarrow> bool" where
  "in_night c g t \<longleftrightarrow> (\<exists>day a b. closes c g day = Some a \<and> opens c g day = Some b \<and> a \<le> t \<and> t < b)"

text \<open>What luxon documents of wall times: a later civil day has the same wall time, first occurrence, no earlier.\<close>

definition ordered_days :: "civil \<Rightarrow> js_string \<Rightarrow> bool" where
  "ordered_days c tz \<longleftrightarrow>
     (\<forall>m d d' a b. d \<le> d' \<longrightarrow> resolveBoundary c tz d m = Some a \<longrightarrow> resolveBoundary c tz d' m = Some b \<longrightarrow> a \<le> b)"

lemma ordered_closes:
  assumes "ordered_days c (ge_timezone g)" "closes c g d = Some a" "closes c g d' = Some b" "d \<le> d'"
  shows "a \<le> b"
  using assms unfolding ordered_days_def closes_def by blast

lemma ordered_opens:
  assumes "ordered_days c (ge_timezone g)" "opens c g d = Some a" "opens c g d' = Some b" "d \<le> d'"
  shows "a \<le> b"
proof -
  let ?k = "\<lambda>d. if ge_startMinutes g < ge_endMinutes g then d else d + 1"
  have "?k d \<le> ?k d'"
    using assms(4) by simp
  then show ?thesis
    using assms(1-3) unfolding ordered_days_def opens_def by blast
qed

definition covers :: "night_window list \<Rightarrow> int \<Rightarrow> bool" where
  "covers ws t \<longleftrightarrow> (\<exists>w \<in> set ws. nw_closeAtMs w \<le> t \<and> t < nw_openAtMs w)"

text \<open>Windows that are not empty, in order and apart.\<close>

fun separated :: "night_window list \<Rightarrow> bool" where
  "separated [] \<longleftrightarrow> True"
| "separated (w # ws) \<longleftrightarrow>
     nw_closeAtMs w < nw_openAtMs w \<and> (\<forall>v \<in> set ws. nw_openAtMs w < nw_closeAtMs v) \<and> separated ws"

lemma separated_append:
  "separated (xs @ ys) \<longleftrightarrow> separated xs \<and> separated ys \<and> (\<forall>v \<in> set xs. \<forall>w \<in> set ys. nw_openAtMs v < nw_closeAtMs w)"
  by (induction xs) auto

lemma separated_window: "separated ws \<Longrightarrow> w \<in> set ws \<Longrightarrow> nw_closeAtMs w < nw_openAtMs w"
  by (induction ws) auto

lemma covers_simps [simp]:
  "\<not> covers [] t"
  "covers (w # ws) t \<longleftrightarrow> (nw_closeAtMs w \<le> t \<and> t < nw_openAtMs w) \<or> covers ws t"
  "covers (xs @ ys) t \<longleftrightarrow> covers xs t \<or> covers ys t"
  by (auto simp: covers_def)

definition starts_with :: "night_window \<Rightarrow> night_window \<Rightarrow> bool" where
  "starts_with v w \<longleftrightarrow>
     nw_closeAtMs v = nw_closeAtMs w \<and> nw_sessionDate v = nw_sessionDate w \<and> nw_openAtMs v \<le> nw_openAtMs w"

lemma starts_with_trans: "starts_with u v \<Longrightarrow> starts_with v w \<Longrightarrow> starts_with u w"
  by (auto simp: starts_with_def)

lemma starts_with_refl [simp]: "starts_with w w"
  by (simp add: starts_with_def)

lemma merge_window_step:
  assumes "separated acc" "nw_closeAtMs item < nw_openAtMs item"
    and "\<forall>v \<in> set acc. nw_closeAtMs v \<le> nw_closeAtMs item"
  shows "separated (merge_window acc item)"
    and "covers (merge_window acc item) t \<longleftrightarrow> covers acc t \<or> (nw_closeAtMs item \<le> t \<and> t < nw_openAtMs item)"
    and "w \<in> set (merge_window acc item) \<Longrightarrow>
           \<exists>v \<in> insert item (set acc). starts_with v w"
proof -
  consider (empty) "acc = []" | (cons) ws l where "acc = ws @ [l]"
    by (cases acc rule: rev_cases)
  note c = this
  show "separated (merge_window acc item)"
    using c assms by cases (auto simp: merge_window_def separated_append)
  show "covers (merge_window acc item) t \<longleftrightarrow> covers acc t \<or> (nw_closeAtMs item \<le> t \<and> t < nw_openAtMs item)"
    using c assms by cases (auto simp: merge_window_def separated_append)
  show "\<exists>v \<in> insert item (set acc). starts_with v w"
    if "w \<in> set (merge_window acc item)"
    using c that by cases (auto simp: merge_window_def starts_with_def separated_append split: if_splits
        intro: starts_with_refl)
qed

lemma merge_windows_run:
  assumes "separated acc" "\<forall>w \<in> set ws. nw_closeAtMs w < nw_openAtMs w"
    and "sorted (map nw_closeAtMs ws)" "\<forall>v \<in> set acc. \<forall>w \<in> set ws. nw_closeAtMs v \<le> nw_closeAtMs w"
  shows "separated (foldl merge_window acc ws) \<and>
    (\<forall>t. covers (foldl merge_window acc ws) t \<longleftrightarrow> covers acc t \<or> covers ws t) \<and>
    (\<forall>w \<in> set (foldl merge_window acc ws).
       \<exists>v \<in> set acc \<union> set ws. starts_with v w)"
  using assms
proof (induction ws arbitrary: acc)
  case Nil
  then show ?case
    by (auto intro: starts_with_refl)
next
  case (Cons x ws)
  have x: "nw_closeAtMs x < nw_openAtMs x" "\<forall>v \<in> set acc. nw_closeAtMs v \<le> nw_closeAtMs x"
    using Cons.prems by auto
  note step = merge_window_step [OF Cons.prems(1) x]
  have "\<forall>v \<in> set (merge_window acc x). \<forall>w \<in> set ws. nw_closeAtMs v \<le> nw_closeAtMs w"
    using step(3) Cons.prems(3,4) unfolding starts_with_def by fastforce
  from Cons.IH [OF step(1) _ _ this]
  have ih: "separated (foldl merge_window (merge_window acc x) ws)"
    "\<And>t. covers (foldl merge_window (merge_window acc x) ws) t \<longleftrightarrow> covers (merge_window acc x) t \<or> covers ws t"
    "\<And>w. w \<in> set (foldl merge_window (merge_window acc x) ws) \<Longrightarrow>
       \<exists>v \<in> set (merge_window acc x) \<union> set ws. starts_with v w"
    using Cons.prems by auto
  have "\<exists>v \<in> set acc \<union> set (x # ws). starts_with v w"
    if "w \<in> set (foldl merge_window (merge_window acc x) ws)" for w
    using ih(3) [OF that] step(3) starts_with_trans by (metis UnCI UnE insert_iff list.simps(15))
  then show ?case
    using ih(1,2) step(2) by auto
qed

lemma merged_windows:
  assumes "\<forall>w \<in> set raw. nw_closeAtMs w < nw_openAtMs w"
  shows "separated (merge_windows (sort_windows raw))"
    and "covers (merge_windows (sort_windows raw)) t \<longleftrightarrow> covers raw t"
    and "w \<in> set (merge_windows (sort_windows raw)) \<Longrightarrow>
           \<exists>v \<in> set raw. starts_with v w"
proof -
  have "sorted (map (\<lambda>w. (nw_closeAtMs w, nw_sessionDate w)) (sort_windows raw))"
    unfolding sort_windows_def by (rule sorted_sort_key)
  then have "sorted (map nw_closeAtMs (sort_windows raw))"
    unfolding sorted_map by (rule sorted_wrt_mono_rel [rotated]) (auto simp: less_eq_prod_def)
  moreover have s: "set (sort_windows raw) = set raw"
    unfolding sort_windows_def by simp
  ultimately have run: "separated (merge_windows (sort_windows raw)) \<and>
    (\<forall>t. covers (merge_windows (sort_windows raw)) t \<longleftrightarrow> covers [] t \<or> covers (sort_windows raw) t) \<and>
    (\<forall>w \<in> set (merge_windows (sort_windows raw)).
       \<exists>v \<in> set [] \<union> set (sort_windows raw). starts_with v w)"
    unfolding merge_windows_def by (intro merge_windows_run) (use assms in auto)
  then show "separated (merge_windows (sort_windows raw))"
    by blast
  show "covers (merge_windows (sort_windows raw)) t \<longleftrightarrow> covers raw t"
    using run s unfolding covers_def by simp
  show "\<exists>v \<in> set raw. starts_with v w"
    if "w \<in> set (merge_windows (sort_windows raw))"
    using run that s by simp
qed

lemma raw_windows_set:
  "raw_windows c g days = Some raw \<Longrightarrow>
     w \<in> set raw \<longleftrightarrow>
       (\<exists>d \<in> set days. closes c g d = Some (nw_closeAtMs w) \<and> opens c g d = Some (nw_openAtMs w) \<and>
          nw_closeAtMs w < nw_openAtMs w \<and> nw_sessionDate w = d \<and> nw_memberDates w = [d])"
proof (induction days arbitrary: raw)
  case Nil
  then show ?case
    by simp
next
  case (Cons d days)
  then obtain a b ws where *: "closes c g d = Some a" "opens c g d = Some b" "raw_windows c g days = Some ws"
    "raw = (if a \<ge> b then ws else \<lparr>nw_sessionDate = d, nw_memberDates = [d], nw_closeAtMs = a, nw_openAtMs = b\<rparr> # ws)"
    by (auto split: option.splits)
  show ?case
    using Cons.IH [OF *(3)] * by (auto intro: night_window.equality)
qed

lemma raw_windows_days:
  "raw_windows c g days = Some raw \<Longrightarrow> d \<in> set days \<Longrightarrow> \<exists>a b. closes c g d = Some a \<and> opens c g d = Some b"
  by (induction days arbitrary: raw) (auto split: option.splits)

text \<open>
  What a calendar promises: its windows are in order and apart, they are the nights from before the first to after the
  last, and each closes when the day that names it does; the first opens before the range, and the last closes at its
  end.
\<close>

definition true_calendar :: "civil \<Rightarrow> geometry \<Rightarrow> calendar \<Rightarrow> bool" where
  "true_calendar c g cal \<longleftrightarrow>
     separated (ca_windows cal) \<and> ca_windows cal \<noteq> [] \<and>
     nw_openAtMs (hd (ca_windows cal)) < ca_fromMs cal \<and> nw_closeAtMs (last (ca_windows cal)) = ca_untilMs cal \<and>
     (\<forall>w \<in> set (ca_windows cal). closes c g (nw_sessionDate w) = Some (nw_closeAtMs w)) \<and>
     (\<exists>lo hi. lo < nw_closeAtMs (hd (ca_windows cal)) \<and> nw_openAtMs (last (ca_windows cal)) < hi \<and>
        (\<forall>t. lo \<le> t \<longrightarrow> t < hi \<longrightarrow> (in_night c g t \<longleftrightarrow> covers (ca_windows cal) t)))"

lemma sealed_parts:
  assumes "seal merged now = Some cal"
  obtains a b mid l z where "merged = a # b # mid @ [l, z]" "ca_windows cal = b # mid @ [l]"
    "ca_untilMs cal = nw_closeAtMs l" "ca_fromMs cal = nw_closeAtMs (hd (mid @ [l]))"
    "ca_fromMs cal \<le> now" "now < ca_untilMs cal"
  | a b z where "merged = [a, b, z]" "ca_fromMs cal = nw_closeAtMs z" "ca_untilMs cal = nw_closeAtMs b"
    "ca_fromMs cal \<le> now" "now < ca_untilMs cal"
proof -
  have len: "length merged \<ge> 3"
    using assms by (auto simp: seal_def split: if_splits)
  then obtain a b rest where m: "merged = a # b # rest" "rest \<noteq> []"
    by (cases merged; cases "tl merged") (auto simp: Suc_le_length_iff numeral_3_eq_3)
  define z where "z = last rest"
  have r: "rest = butlast rest @ [z]"
    using m z_def by simp
  show thesis
  proof (cases "butlast rest" rule: rev_cases)
    case Nil
    then have "merged = [a, b, z]"
      using m r by simp
    then show thesis
      using assms that(2) by (auto simp: seal_def Let_def split: if_splits)
  next
    case (snoc mid l)
    then have e: "merged = a # b # mid @ [l, z]"
      using m r by simp
    then have "merged ! 2 = hd (mid @ [l])" "merged ! (length merged - 2) = l" "butlast (tl merged) = b # mid @ [l]"
      by (cases mid; simp add: nth_append butlast_append)+
    then show thesis
      using assms e that(1) len by (auto simp: seal_def Let_def split: if_splits)
  qed
qed

lemma sealed_true:
  assumes ord: "ordered_days c (ge_timezone g)" and raw: "raw_windows c g (span date radius) = Some raw"
    and seal: "seal (merge_windows (sort_windows raw)) now = Some cal"
  shows "true_calendar c g cal \<and> ca_fromMs cal \<le> now \<and> now < ca_untilMs cal"
proof -
  let ?m = "merge_windows (sort_windows raw)"
  have pos: "\<forall>w \<in> set raw. nw_closeAtMs w < nw_openAtMs w"
    using raw_windows_set [OF raw] by blast
  note mw = merged_windows [OF pos]
  have night: "in_night c g t" if "covers raw t" for t
    using that raw_windows_set [OF raw] unfolding covers_def in_night_def by blast
  from seal show ?thesis
  proof (cases rule: sealed_parts)
    case (2 a b z)
    then have "nw_openAtMs b < nw_closeAtMs z" "nw_closeAtMs b < nw_openAtMs b"
      using mw(1) by simp_all
    then show ?thesis
      using 2 by simp
  next
    case (1 a b mid l z)
    let ?ws = "b # mid @ [l]"
    have sep: "separated (a # ?ws @ [z])"
      using mw(1) 1(1) by simp
    then have sws: "separated ?ws" and a: "\<forall>v \<in> set ?ws. nw_openAtMs a < nw_closeAtMs v"
      and z: "\<forall>v \<in> set ?ws. nw_openAtMs v < nw_closeAtMs z"
      by (auto simp: separated_append)
    have b: "nw_openAtMs b < ca_fromMs cal"
      using sws 1(4) by (cases mid) auto
    have inside: "covers raw t \<longleftrightarrow> covers ?ws t" if "nw_openAtMs a \<le> t" "t < nw_closeAtMs z" for t
      using mw(2) [of t] 1(1) that by auto
    obtain v where v: "v \<in> set raw" "nw_openAtMs v \<le> nw_openAtMs a"
      using mw(3) [of a] 1(1) by (auto simp: starts_with_def)
    obtain dv where dv: "dv \<in> set (span date radius)" "opens c g dv = Some (nw_openAtMs v)"
      using raw_windows_set [OF raw] v(1) by blast
    obtain u where u: "u \<in> set raw" "nw_closeAtMs u = nw_closeAtMs z"
      using mw(3) [of z] 1(1) by (auto simp: starts_with_def)
    obtain du where du: "du \<in> set (span date radius)" "closes c g du = Some (nw_closeAtMs u)"
      using raw_windows_set [OF raw] u(1) by blast
    have raws: "covers raw t" if t: "nw_openAtMs a \<le> t" "t < nw_closeAtMs z" and n: "in_night c g t" for t
    proof -
      obtain d x y where d: "closes c g d = Some x" "opens c g d = Some y" "x \<le> t" "t < y"
        using n unfolding in_night_def by blast
      have "d \<le> date + radius"
      proof (rule ccontr)
        assume "\<not> d \<le> date + radius"
        then have "du \<le> d"
          using du(1) by (simp add: span_def)
        then show False
          using ordered_closes [OF ord du(2) d(1)] u(2) t d(3) by simp
      qed
      moreover have "date - radius \<le> d"
      proof (rule ccontr)
        assume "\<not> date - radius \<le> d"
        then have "d \<le> dv"
          using dv(1) by (simp add: span_def)
        then show False
          using ordered_opens [OF ord d(2) dv(2)] v(2) t d(4) by simp
      qed
      ultimately have ds: "d \<in> set (span date radius)"
        by (simp add: span_def)
      let ?w = "\<lparr>nw_sessionDate = d, nw_memberDates = [d], nw_closeAtMs = x, nw_openAtMs = y\<rparr>"
      have "?w \<in> set raw"
        using raw_windows_set [OF raw, of ?w] ds d by simp
      then show ?thesis
        unfolding covers_def using d(3,4) by (intro bexI [of _ ?w]) simp_all
    qed
    have names: "closes c g (nw_sessionDate w) = Some (nw_closeAtMs w)" if w: "w \<in> set ?ws" for w
    proof -
      obtain x where "x \<in> set raw" "starts_with x w"
        using mw(3) [of w] w unfolding 1(1) by auto
      then show ?thesis
        using raw_windows_set [OF raw, of x] by (auto simp: starts_with_def)
    qed
    have "in_night c g t \<longleftrightarrow> covers ?ws t" if "nw_openAtMs a \<le> t" "t < nw_closeAtMs z" for t
      using raws [OF that] night [of t] inside [OF that] by blast
    moreover have "nw_openAtMs a < nw_closeAtMs (hd ?ws)" "nw_openAtMs (last ?ws) < nw_closeAtMs z"
      using a z by simp_all
    ultimately have "\<exists>lo hi. lo < nw_closeAtMs (hd ?ws) \<and> nw_openAtMs (last ?ws) < hi \<and>
        (\<forall>t. lo \<le> t \<longrightarrow> t < hi \<longrightarrow> (in_night c g t \<longleftrightarrow> covers ?ws t))"
      by blast
    then show ?thesis
      using 1 sws names b unfolding true_calendar_def by simp
  qed
qed

lemma search_true:
  assumes "ordered_days c (ge_timezone g)" "search_calendar c g now date radii = Some cal"
  shows "true_calendar c g cal \<and> ca_fromMs cal \<le> now \<and> now < ca_untilMs cal"
  using assms(2)
proof (induction radii)
  case Nil
  then show ?case
    by simp
next
  case (Cons r radii)
  then show ?case
    by (auto split: option.splits intro: sealed_true [OF assms(1), THEN conjunct1]
        dest: sealed_true [OF assms(1)])
qed

text \<open>The cache after any calls.\<close>

inductive calendars_reached :: "civil \<Rightarrow> calendars \<Rightarrow> bool" for c where
  empty: "calendars_reached c []"
| call: "calendars_reached c cs \<Longrightarrow> calendars_reached c (snd (resolveNightModeCalendar c g now cs))"

definition calendars_ok :: "civil \<Rightarrow> calendars \<Rightarrow> bool" where
  "calendars_ok c cs \<longleftrightarrow>
     jsmap_ok cs \<and> length cs \<le> NIGHT_MODE_CALENDAR_CACHE_LIMIT \<and>
     (\<forall>g cal. (g, cal) \<in> set cs \<longrightarrow> ordered_days c (ge_timezone g) \<longrightarrow> true_calendar c g cal)"

lemma remember_ok:
  assumes "calendars_ok c cs" "ordered_days c (ge_timezone g) \<Longrightarrow> true_calendar c g cal"
  shows "calendars_ok c (remember_calendar g cal cs)"
proof -
  let ?d = "jsmap_delete g cs"
  let ?t = "if length ?d \<ge> NIGHT_MODE_CALENDAR_CACHE_LIMIT then tl ?d else ?d"
  have ok: "jsmap_ok cs" "length cs \<le> 256"
    "\<And>h cal. (h, cal) \<in> set cs \<Longrightarrow> ordered_days c (ge_timezone h) \<Longrightarrow> true_calendar c h cal"
    using assms(1) by (auto simp: calendars_ok_def NIGHT_MODE_CALENDAR_CACHE_LIMIT_def)
  have d: "jsmap_ok ?d" "length ?d \<le> 256"
    using ok(1,2) jsmap_length_delete [OF ok(1), of g] by auto
  have sub: "set ?t \<subseteq> set ?d"
    by (cases ?d) auto
  have t: "jsmap_ok ?t"
    using d(1) by (simp add: map_tl distinct_tl)
  have fresh: "jsmap_get ?t g = None"
  proof -
    have "g \<notin> fst ` set ?d"
      by (metis jsmap_get_delete map_of_eq_None_iff)
    then show ?thesis
      using sub by (auto simp: map_of_eq_None_iff)
  qed
  have r: "remember_calendar g cal cs = ?t @ [(g, cal)]"
    using jsmap_set_fresh [OF fresh] by (simp add: remember_calendar_def Let_def)
  have "length ?t < 256"
    using d(2) by (auto simp: NIGHT_MODE_CALENDAR_CACHE_LIMIT_def)
  moreover have "jsmap_ok (?t @ [(g, cal)])"
    using t fresh by (simp add: map_of_eq_None_iff)
  moreover have "true_calendar c h k" if "(h, k) \<in> set (?t @ [(g, cal)])" "ordered_days c (ge_timezone h)" for h k
    using that ok(3) assms(2) sub set_jsmap_delete [of g cs] by auto
  ultimately show ?thesis
    unfolding r calendars_ok_def by (simp add: NIGHT_MODE_CALENDAR_CACHE_LIMIT_def)
qed

lemma refresh_ok:
  assumes "calendars_ok c cs" "jsmap_get cs g = Some cal"
  shows "calendars_ok c (jsmap_set g cal (jsmap_delete g cs))"
proof -
  have "jsmap_get (jsmap_delete g cs) g = None"
    by simp
  note s = jsmap_set_fresh [OF this]
  have ok: "jsmap_ok cs" "length cs \<le> NIGHT_MODE_CALENDAR_CACHE_LIMIT"
    "\<And>h cal. (h, cal) \<in> set cs \<Longrightarrow> ordered_days c (ge_timezone h) \<Longrightarrow> true_calendar c h cal"
    using assms(1) by (auto simp: calendars_ok_def)
  have "cs \<noteq> []" "(g, cal) \<in> set cs"
    using assms(2) by (auto dest: map_of_SomeD)
  then have "length (jsmap_set g cal (jsmap_delete g cs)) \<le> NIGHT_MODE_CALENDAR_CACHE_LIMIT"
    using ok(2) assms(2) jsmap_length_delete [OF ok(1), of g] unfolding s by (cases cs) auto
  moreover have "jsmap_ok (jsmap_set g cal (jsmap_delete g cs))"
    using ok(1) by (intro jsmap_ok_set jsmap_ok_delete)
  moreover have "set (jsmap_set g cal (jsmap_delete g cs)) \<subseteq> set cs"
    using set_jsmap_delete [of g cs] \<open>(g, cal) \<in> set cs\<close> unfolding s by auto
  ultimately show ?thesis
    using ok(3) unfolding calendars_ok_def by blast
qed

definition found :: "civil \<Rightarrow> geometry \<Rightarrow> int \<Rightarrow> night_window list \<Rightarrow> bool" where
  "found c g now ws \<longleftrightarrow>
     (\<exists>cal. ws = ca_windows cal \<and> true_calendar c g cal \<and> ca_fromMs cal \<le> now \<and> now < ca_untilMs cal)"

lemma resolve_calendar:
  assumes "calendars_ok c cs" "resolveNightModeCalendar c g now cs = (r, cs')"
  shows "calendars_ok c cs' \<and> (ordered_days c (ge_timezone g) \<longrightarrow> (case r of Some ws \<Rightarrow> found c g now ws | None \<Rightarrow> True))"
proof -
  have fresh: "calendars_ok c cs' \<and> (ordered_days c (ge_timezone g) \<longrightarrow> (case r of Some ws \<Rightarrow> found c g now ws | None \<Rightarrow> True))"
    if "(case cv_local c (ge_timezone g) now of
           None \<Rightarrow> (None, cs)
         | Some date \<Rightarrow>
             (case search_calendar c g now date [8, 32] of
                None \<Rightarrow> (None, cs)
              | Some cal \<Rightarrow> (Some (ca_windows cal), remember_calendar g cal cs))) = (r, cs')"
    using that assms(1)
    by (auto simp del: search_calendar.simps split: option.splits intro!: remember_ok dest!: search_true simp: found_def)
  show ?thesis
  proof (cases "jsmap_get cs g")
    case None
    then show ?thesis
      using assms(2) fresh by (simp add: resolveNightModeCalendar_def Let_def del: search_calendar.simps)
  next
    case (Some cal)
    show ?thesis
    proof (cases "ca_fromMs cal \<le> now \<and> now < ca_untilMs cal")
      case True
      then have r: "r = Some (ca_windows cal)" "cs' = jsmap_set g cal (jsmap_delete g cs)"
        using assms(2) Some by (simp_all add: resolveNightModeCalendar_def Let_def del: search_calendar.simps)
      have "true_calendar c g cal" if "ordered_days c (ge_timezone g)"
        using assms(1) map_of_SomeD [OF Some] that unfolding calendars_ok_def by blast
      then show ?thesis
        using r True refresh_ok [OF assms(1) Some] unfolding found_def by auto
    next
      case False
      then show ?thesis
        using assms(2) Some by (intro fresh) (simp only: resolveNightModeCalendar_def Let_def option.case if_False)
    qed
  qed
qed

lemma calendars_kept: "calendars_reached c cs \<Longrightarrow> calendars_ok c cs"
proof (induction rule: calendars_reached.induct)
  case empty
  show ?case
    by (simp add: calendars_ok_def)
next
  case (call cs g now)
  then show ?case
    using resolve_calendar by (metis prod.collapse)
qed

text \<open>Around an instant of its range a calendar has the window before it and the window after it.\<close>

lemma neighbours:
  assumes "found c g now ws"
  obtains ini p v post where "ws = ini @ p # v # post" "separated ws" "\<forall>w \<in> set ini. nw_closeAtMs w \<le> now \<and> nw_openAtMs w \<le> now"
    "nw_closeAtMs p \<le> now" "nw_closeAtMs p < nw_openAtMs p" "nw_openAtMs p < nw_closeAtMs v" "now < nw_closeAtMs v"
    "nw_closeAtMs v < nw_openAtMs v" "in_night c g (nw_closeAtMs v)"
    "\<And>t. nw_closeAtMs p \<le> t \<Longrightarrow> t < nw_closeAtMs v \<Longrightarrow> in_night c g t \<longleftrightarrow> t < nw_openAtMs p"
    "\<not> in_night c g (nw_closeAtMs p - 1)"
proof -
  obtain cal where ws: "ws = ca_windows cal" and true: "true_calendar c g cal"
    and range: "ca_fromMs cal \<le> now" "now < ca_untilMs cal"
    using assms unfolding found_def by blast
  then have sep: "separated ws" and ne: "ws \<noteq> []" and first: "nw_openAtMs (hd ws) < ca_fromMs cal"
    and last: "nw_closeAtMs (last ws) = ca_untilMs cal"
    unfolding true_calendar_def by auto
  obtain lo hi where lo: "lo < nw_closeAtMs (hd ws)" and hi: "nw_openAtMs (last ws) < hi"
    and true: "\<And>t. lo \<le> t \<Longrightarrow> t < hi \<Longrightarrow> in_night c g t \<longleftrightarrow> covers ws t"
    using true ws unfolding true_calendar_def by blast
  have "\<exists>w \<in> set ws. now < nw_closeAtMs w"
    using ne last range(2) by (intro bexI [of _ "last ws"]) auto
  then obtain pre v post where split: "ws = pre @ v # post" "now < nw_closeAtMs v" "\<forall>w \<in> set pre. \<not> now < nw_closeAtMs w"
    using split_list_first_prop [of ws "\<lambda>w. now < nw_closeAtMs w"] by metis
  have "pre \<noteq> []"
  proof
    assume "pre = []"
    then have "hd ws = v"
      using split(1) by simp
    then show False
      using first range(1) split(2) separated_window [OF sep, of v] split(1) by simp
  qed
  then obtain ini p where pre: "pre = ini @ [p]"
    by (cases pre rule: rev_cases) auto
  have sep': "separated (ini @ p # v # post)"
    using sep split(1) pre by simp
  have p: "nw_closeAtMs p \<le> now" "nw_closeAtMs p < nw_openAtMs p" "nw_openAtMs p < nw_closeAtMs v"
    and v: "nw_closeAtMs v < nw_openAtMs v" and post: "\<forall>w \<in> set post. nw_openAtMs v < nw_closeAtMs w"
    and ini: "\<forall>w \<in> set ini. nw_openAtMs w < nw_closeAtMs p"
    using sep' split(3) pre by (auto simp: separated_append)
  have ini': "\<forall>w \<in> set ini. nw_closeAtMs w \<le> now \<and> nw_openAtMs w \<le> now"
    using ini p(1) split(3) pre by fastforce
  have until: "nw_closeAtMs v \<le> nw_closeAtMs (last ws)"
    using post v split(1) by (cases post rule: rev_cases) fastforce+
  have lh: "nw_closeAtMs (last ws) < hi"
    using hi separated_window [OF sep, of "last ws"] ne by simp
  have pl: "lo < nw_closeAtMs p"
    using lo ini separated_window [OF sep] split(1) pre by (cases ini) fastforce+
  have out: "covers ws t \<longleftrightarrow> (nw_closeAtMs p \<le> t \<and> t < nw_openAtMs p)" if "nw_closeAtMs p - 1 \<le> t" "t < nw_closeAtMs v" for t
    using ini p post v that split(1) pre by (force simp: covers_def)
  have night: "in_night c g t \<longleftrightarrow> t < nw_openAtMs p" if "nw_closeAtMs p \<le> t" "t < nw_closeAtMs v" for t
    using true [of t] out [of t] that pl until lh by simp
  have before: "\<not> in_night c g (nw_closeAtMs p - 1)"
    using true [of "nw_closeAtMs p - 1"] out [of "nw_closeAtMs p - 1"] pl p until lh by simp
  have "covers ws (nw_closeAtMs v)"
    using split(1) v by (auto simp: covers_def)
  then have close: "in_night c g (nw_closeAtMs v)"
    using true [of "nw_closeAtMs v"] until lh p pl by simp
  from that [of ini p v post, OF _ sep ini' p(1,2,3) split(2) v close night before] split(1) pre show thesis
    by simp
qed

end
