(* ===== verification/Night_Transitions.thy ===== *)
theory Night_Transitions
  imports Night_Calendar
begin

text \<open>
  \<^verbatim>\<open>apps/api/src/moderation/night-mode-transition-time.util.ts\<close>: whether a chat is closed for the night,
  when it closes and opens next, which notices are still timely, and the keys that name the nights.

  \<^item> Minutes of a day come from settings as JavaScript numbers; one that is no integer is \<open>None\<close>.  The cache of time
    zone names only repeats a pure function and is left out.
  \<^item> The theorems are about \<open>ordered_days\<close>, a zone whose wall times follow the days; \<open>fixed_offset\<close> are the zones whose
    clocks never change, where the calendar is always found (\<open>fixed_search\<close>).
\<close>

section \<open>Session keys\<close>

definition normalizeDayMinutes :: "int option \<Rightarrow> int \<Rightarrow> int" where
  "normalizeDayMinutes v fallback = (case v of Some n \<Rightarrow> if 0 \<le> n \<and> n \<le> 1439 then n else fallback | None \<Rightarrow> fallback)"

fun nat_text :: "nat \<Rightarrow> js_string" where
  "nat_text n = (if n < 10 then [] else nat_text (n div 10)) @ [word_of_nat (48 + n mod 10)]"

definition pad_start :: "nat \<Rightarrow> js_string \<Rightarrow> js_string" where
  "pad_start k s = replicate (k - length s) 48 @ s"

definition formatMinutesAsTime :: "int \<Rightarrow> js_string" where
  "formatMinutesAsTime v =
     (let n = normalizeDayMinutes (Some v) 0 in
      pad_start 2 (nat_text (nat (n div 60))) @ ascii '':'' @ pad_start 2 (nat_text (nat (n mod 60))))"

text \<open>\<^verbatim>\<open>[...].join(':')\<close>\<close>

definition buildNightModeTransitionSessionKey :: "geometry \<Rightarrow> js_string \<Rightarrow> js_string" where
  "buildNightModeTransitionSessionKey g dateKey =
     ascii ''v1:'' @ ge_timezone g @ ascii '':'' @ formatMinutesAsTime (ge_startMinutes g) @ ascii '':'' @
     formatMinutesAsTime (ge_endMinutes g) @ ascii '':'' @ dateKey"

definition DEFAULT_NIGHT_MODE_TIMEZONE :: js_string where "DEFAULT_NIGHT_MODE_TIMEZONE = ascii ''Europe/Moscow''"

definition normalizeNightModeTimezone :: "civil \<Rightarrow> js_string \<Rightarrow> js_string" where
  "normalizeNightModeTimezone c v =
     (let n = trim v in if n = [] then DEFAULT_NIGHT_MODE_TIMEZONE else if cv_zone c n then n else DEFAULT_NIGHT_MODE_TIMEZONE)"

text \<open>
  The regular expression of the parser: \<^verbatim>\<open>v1:\<close>, a zone without colons, four pairs of digits and a date, each after
  a colon.  The fields of fixed width are read from the end.
\<close>

definition two_digits :: "js_string \<Rightarrow> bool" where "two_digits s \<longleftrightarrow> length s = 2 \<and> list_all is_digit s"

definition date_shaped :: "js_string \<Rightarrow> bool" where
  "date_shaped s \<longleftrightarrow> length s = 10 \<and> list_all is_digit (take 4 s) \<and> s ! 4 = 45 \<and> list_all is_digit (take 2 (drop 5 s)) \<and>
     s ! 7 = 45 \<and> list_all is_digit (drop 8 s)"

definition match_session_key ::
    "js_string \<Rightarrow> (js_string \<times> js_string \<times> js_string \<times> js_string \<times> js_string \<times> js_string) option" where
  "match_session_key s =
     (let n = length s - 23; zone = take (n - 3) (drop 3 s); rest = drop n s;
          h1 = take 2 (drop 1 rest); m1 = take 2 (drop 4 rest); h2 = take 2 (drop 7 rest); m2 = take 2 (drop 10 rest);
          dateKey = drop 13 rest
      in if length s > 26 \<and> take 3 s = ascii ''v1:'' \<and> zone \<noteq> [] \<and> 58 \<notin> set zone \<and>
            rest ! 0 = 58 \<and> rest ! 3 = 58 \<and> rest ! 6 = 58 \<and> rest ! 9 = 58 \<and> rest ! 12 = 58 \<and>
            two_digits h1 \<and> two_digits m1 \<and> two_digits h2 \<and> two_digits m2 \<and> date_shaped dateKey
         then Some (zone, h1, m1, h2, m2, dateKey) else None)"

text \<open>What \<^verbatim>\<open>Date\<close> makes of a date and back: the text of a date of the Gregorian calendar.\<close>

definition days_in_month :: "int \<Rightarrow> int \<Rightarrow> int" where
  "days_in_month y m =
     (if m \<in> {4, 6, 9, 11} then 30
      else if m = 2 then (if y mod 4 = 0 \<and> (y mod 100 \<noteq> 0 \<or> y mod 400 = 0) then 29 else 28) else 31)"

definition real_date :: "js_string \<Rightarrow> bool" where
  "real_date s \<longleftrightarrow>
     (let y = digits_value (take 4 s); m = digits_value (take 2 (drop 5 s)); d = digits_value (drop 8 s) in
      1 \<le> m \<and> m \<le> 12 \<and> 1 \<le> d \<and> d \<le> days_in_month y m)"

definition parseNightModeTransitionSessionKey :: "civil \<Rightarrow> js_string \<Rightarrow> (geometry \<times> js_string) option" where
  "parseNightModeTransitionSessionKey c v =
     (case match_session_key (trim v) of
        None \<Rightarrow> None
      | Some (zone, h1, m1, h2, m2, dateKey) \<Rightarrow>
          if normalizeNightModeTimezone c zone \<noteq> zone \<or> digits_value h1 > 23 \<or> digits_value m1 > 59 \<or>
             digits_value h2 > 23 \<or> digits_value m2 > 59 \<or> \<not> real_date dateKey then None
          else
            let g = \<lparr>ge_timezone = zone, ge_startMinutes = digits_value h1 * 60 + digits_value m1,
                     ge_endMinutes = digits_value h2 * 60 + digits_value m2\<rparr>
            in if buildNightModeTransitionSessionKey g dateKey = trim v then Some (g, dateKey) else None)"

section \<open>Snapshots and transitions\<close>

record night_settings =
  ns_nightModeEnabled :: bool
  ns_startTimeMinutes :: "int option"
  ns_endTimeMinutes :: "int option"
  ns_timezone :: js_string

definition settings_geometry :: "civil \<Rightarrow> night_settings \<Rightarrow> geometry" where
  "settings_geometry c s =
     \<lparr>ge_timezone = normalizeNightModeTimezone c (ns_timezone s),
      ge_startMinutes = normalizeDayMinutes (ns_startTimeMinutes s) (23 * 60),
      ge_endMinutes = normalizeDayMinutes (ns_endTimeMinutes s) (8 * 60)\<rparr>"

datatype night_status = Night_Open | Night_Closed

record night_snapshot =
  sn_status :: night_status
  sn_sessionKey :: js_string
  sn_geometry :: geometry
  sn_isCloseBoundary :: bool
  sn_isOpenBoundary :: bool

datatype transition_kind = Close_Transition | Open_Transition

record occurrence =
  no_transition :: transition_kind
  no_dueAt :: int
  no_sessionKey :: js_string

definition sessionKey :: "civil \<Rightarrow> geometry \<Rightarrow> night_window \<Rightarrow> js_string" where
  "sessionKey c g w = buildNightModeTransitionSessionKey g (cv_iso c (nw_sessionDate w))"

definition make_occurrence :: "civil \<Rightarrow> geometry \<Rightarrow> transition_kind \<Rightarrow> night_window \<Rightarrow> occurrence" where
  "make_occurrence c g k w =
     \<lparr>no_transition = k, no_dueAt = (case k of Close_Transition \<Rightarrow> nw_closeAtMs w | Open_Transition \<Rightarrow> nw_openAtMs w),
      no_sessionKey = sessionKey c g w\<rparr>"

definition lastMatching :: "('a \<Rightarrow> bool) \<Rightarrow> 'a list \<Rightarrow> 'a option" where
  "lastMatching f xs = find f (rev xs)"

definition active_window :: "int \<Rightarrow> night_window list \<Rightarrow> night_window option" where
  "active_window now ws = find (\<lambda>w. nw_closeAtMs w \<le> now \<and> now < nw_openAtMs w) ws"

definition snapshot_of :: "civil \<Rightarrow> geometry \<Rightarrow> int \<Rightarrow> night_window list \<Rightarrow> night_snapshot option" where
  "snapshot_of c g now ws =
     (let active = active_window now ws in
      case (case active of Some w \<Rightarrow> Some w | None \<Rightarrow> lastMatching (\<lambda>w. nw_openAtMs w \<le> now) ws) of
        None \<Rightarrow> None
      | Some w \<Rightarrow>
          Some \<lparr>sn_status = (if active \<noteq> None then Night_Closed else Night_Open),
                sn_sessionKey = sessionKey c g w, sn_geometry = g,
                sn_isCloseBoundary = (active \<noteq> None \<and> now div 60000 * 60000 = nw_closeAtMs w),
                sn_isOpenBoundary = (active = None \<and> now div 60000 * 60000 = nw_openAtMs w)\<rparr>)"

text \<open>The outer option is \<open>None\<close> when the call throws, the inner one when it returns null.\<close>

definition resolveNightModeTransitionSnapshot ::
    "civil \<Rightarrow> night_settings \<Rightarrow> int \<Rightarrow> calendars \<Rightarrow> night_snapshot option option \<times> calendars" where
  "resolveNightModeTransitionSnapshot c s now cs =
     (let g = settings_geometry c s in
      if \<not> ns_nightModeEnabled s then (Some None, cs)
      else if ge_startMinutes g = ge_endMinutes g
      then (Some (Some \<lparr>sn_status = Night_Closed,
              sn_sessionKey = buildNightModeTransitionSessionKey g (cv_zoned c now (ge_timezone g)), sn_geometry = g,
              sn_isCloseBoundary = False, sn_isOpenBoundary = False\<rparr>), cs)
      else
        (case resolveNightModeCalendar c g now cs of
           (None, cs') \<Rightarrow> (None, cs')
         | (Some ws, cs') \<Rightarrow> (map_option Some (snapshot_of c g now ws), cs')))"

definition next_of :: "civil \<Rightarrow> geometry \<Rightarrow> int \<Rightarrow> night_window list \<Rightarrow> occurrence list" where
  "next_of c g now ws =
     sort_key no_dueAt
       ((case find (\<lambda>w. nw_closeAtMs w > now) ws of Some w \<Rightarrow> [make_occurrence c g Close_Transition w] | None \<Rightarrow> []) @
        (case find (\<lambda>w. nw_openAtMs w > now) ws of Some w \<Rightarrow> [make_occurrence c g Open_Transition w] | None \<Rightarrow> []))"

definition resolveNextNightModeTransitionOccurrences ::
    "civil \<Rightarrow> night_settings \<Rightarrow> int \<Rightarrow> calendars \<Rightarrow> occurrence list option \<times> calendars" where
  "resolveNextNightModeTransitionOccurrences c s now cs =
     (let g = settings_geometry c s in
      if \<not> ns_nightModeEnabled s \<or> ge_startMinutes g = ge_endMinutes g then (Some [], cs)
      else
        (case resolveNightModeCalendar c g now cs of
           (None, cs') \<Rightarrow> (None, cs')
         | (Some ws, cs') \<Rightarrow> (Some (next_of c g now ws), cs')))"

definition resolveLatestNightModeTransitionOccurrences ::
    "civil \<Rightarrow> night_settings \<Rightarrow> int \<Rightarrow> calendars \<Rightarrow> (occurrence option \<times> occurrence option) option \<times> calendars" where
  "resolveLatestNightModeTransitionOccurrences c s now cs =
     (let g = settings_geometry c s in
      if ge_startMinutes g = ge_endMinutes g then (Some (None, None), cs)
      else
        (case resolveNightModeCalendar c g now cs of
           (None, cs') \<Rightarrow> (None, cs')
         | (Some ws, cs') \<Rightarrow>
             (Some (map_option (make_occurrence c g Close_Transition) (lastMatching (\<lambda>w. nw_closeAtMs w \<le> now) ws),
                    map_option (make_occurrence c g Open_Transition) (lastMatching (\<lambda>w. nw_openAtMs w \<le> now) ws)), cs')))"

definition NIGHT_MODE_OPEN_CATCH_UP_MAX_AGE_MS :: int where
  "NIGHT_MODE_OPEN_CATCH_UP_MAX_AGE_MS = 2 * 60 * 60 * 1000"

text \<open>Whether a notice may still be sent, and until when.\<close>

definition catch_up_of :: "civil \<Rightarrow> geometry \<Rightarrow> occurrence \<Rightarrow> int \<Rightarrow> night_window list \<Rightarrow> bool \<times> int" where
  "catch_up_of c g item now ws =
     (case find (\<lambda>w. sessionKey c g w = no_sessionKey item) ws of
        None \<Rightarrow> (False, no_dueAt item)
      | Some w \<Rightarrow>
          let nextClose = map_option nw_closeAtMs (find (\<lambda>x. nw_closeAtMs x > nw_openAtMs w) ws);
              latest = nw_openAtMs w + NIGHT_MODE_OPEN_CATCH_UP_MAX_AGE_MS;
              limit = (case no_transition item of
                         Close_Transition \<Rightarrow> nw_openAtMs w
                       | Open_Transition \<Rightarrow> (case nextClose of Some n \<Rightarrow> min latest n | None \<Rightarrow> latest));
              below = (case nextClose of Some n \<Rightarrow> limit < n | None \<Rightarrow> True)
          in (now \<ge> no_dueAt item \<and>
                (now < limit \<or> no_transition item = Open_Transition \<and> now = limit \<and> below), limit))"

definition resolveNightModeNoticeCatchUpWindow ::
    "civil \<Rightarrow> occurrence \<Rightarrow> night_settings \<Rightarrow> int \<Rightarrow> calendars \<Rightarrow> (bool \<times> int) option \<times> calendars" where
  "resolveNightModeNoticeCatchUpWindow c item s now cs =
     (let g = settings_geometry c s in
      case resolveNightModeCalendar c g (no_dueAt item) cs of
        (None, cs') \<Rightarrow> (None, cs')
      | (Some ws, cs') \<Rightarrow> (Some (catch_up_of c g item now ws), cs'))"

definition resolveCurrentNightModeCloseOccurrence ::
    "civil \<Rightarrow> night_settings \<Rightarrow> int \<Rightarrow> calendars \<Rightarrow> occurrence option option \<times> calendars" where
  "resolveCurrentNightModeCloseOccurrence c s now cs =
     (case resolveNightModeTransitionSnapshot c s now cs of
        (None, cs') \<Rightarrow> (None, cs')
      | (Some None, cs') \<Rightarrow> (Some None, cs')
      | (Some (Some sn), cs') \<Rightarrow>
          if sn_status sn \<noteq> Night_Closed \<or> ge_startMinutes (sn_geometry sn) = ge_endMinutes (sn_geometry sn)
          then (Some None, cs')
          else (case resolveLatestNightModeTransitionOccurrences c s now cs' of
                  (r, cs'') \<Rightarrow> (map_option fst r, cs'')))"

definition resolveCurrentNightModeOpenOccurrence ::
    "civil \<Rightarrow> night_settings \<Rightarrow> int \<Rightarrow> calendars \<Rightarrow> occurrence option option \<times> calendars" where
  "resolveCurrentNightModeOpenOccurrence c s now cs =
     (case resolveNightModeTransitionSnapshot c s now cs of
        (None, cs') \<Rightarrow> (None, cs')
      | (Some None, cs') \<Rightarrow> (Some None, cs')
      | (Some (Some sn), cs') \<Rightarrow>
          if sn_status sn \<noteq> Night_Open then (Some None, cs')
          else
            (case resolveLatestNightModeTransitionOccurrences c s now cs' of
               (None, cs2) \<Rightarrow> (None, cs2)
             | (Some (_, None), cs2) \<Rightarrow> (Some None, cs2)
             | (Some (_, Some latest), cs2) \<Rightarrow>
                 (case resolveNightModeNoticeCatchUpWindow c latest s now cs2 of
                    (None, cs3) \<Rightarrow> (None, cs3)
                  | (Some (within, _), cs3) \<Rightarrow> (Some (if within then Some latest else None), cs3))))"

section \<open>Sessions by key\<close>

definition absoluteSession ::
    "civil \<Rightarrow> js_string \<Rightarrow> calendars \<Rightarrow> (geometry \<times> night_window) option option \<times> calendars" where
  "absoluteSession c key cs =
     (case parseNightModeTransitionSessionKey c key of
        None \<Rightarrow> (Some None, cs)
      | Some (g, dateKey) \<Rightarrow>
          if ge_startMinutes g = ge_endMinutes g then (Some None, cs)
          else
            (case resolveNightModeCalendar c g (cv_noon c dateKey) cs of
               (None, cs') \<Rightarrow> (None, cs')
             | (Some ws, cs') \<Rightarrow>
                 (Some (map_option (Pair g) (find (\<lambda>w. cv_iso c (nw_sessionDate w) = dateKey) ws)), cs')))"

definition resolveNightModeTransitionSessionOpenAt ::
    "civil \<Rightarrow> js_string \<Rightarrow> calendars \<Rightarrow> int option option \<times> calendars" where
  "resolveNightModeTransitionSessionOpenAt c key cs =
     (case absoluteSession c key cs of (r, cs') \<Rightarrow> (map_option (map_option (nw_openAtMs \<circ> snd)) r, cs'))"

definition resolveNightModeTransitionSessionCloseAt ::
    "civil \<Rightarrow> js_string \<Rightarrow> calendars \<Rightarrow> int option option \<times> calendars" where
  "resolveNightModeTransitionSessionCloseAt c key cs =
     (case absoluteSession c key cs of (r, cs') \<Rightarrow> (map_option (map_option (nw_closeAtMs \<circ> snd)) r, cs'))"

definition resolveNightModeTransitionSessionAliases ::
    "civil \<Rightarrow> js_string \<Rightarrow> calendars \<Rightarrow> js_string list option \<times> calendars" where
  "resolveNightModeTransitionSessionAliases c key cs =
     (case absoluteSession c key cs of
        (r, cs') \<Rightarrow>
          (map_option (\<lambda>o'. case o' of
             Some (g, w) \<Rightarrow> map (\<lambda>d. buildNightModeTransitionSessionKey g (cv_iso c d)) (nw_memberDates w)
           | None \<Rightarrow> [key]) r, cs'))"

section \<open>Manual and effective closure\<close>

text \<open>\<open>mc_until\<close> is \<^verbatim>\<open>Date.parse\<close> of the setting, \<open>None\<close> for NaN.\<close>

record manual_settings =
  mc_forceCloseEnabled :: bool
  mc_forceCloseForever :: bool
  mc_until :: "int option"

datatype manual_mode = Forever | Timed

definition resolveManualChatClosure :: "manual_settings \<Rightarrow> int \<Rightarrow> (manual_mode \<times> int option) option" where
  "resolveManualChatClosure m now =
     (if mc_forceCloseEnabled m \<and>
         (mc_forceCloseForever m \<or> (case mc_until m of Some t \<Rightarrow> t > now | None \<Rightarrow> False))
      then Some (if mc_forceCloseForever m then (Forever, None) else (Timed, mc_until m))
      else None)"

datatype restriction = By_Admin | By_Night | Not_Restricted

record effective_closure =
  ec_restriction :: restriction
  ec_manual :: "(manual_mode \<times> int option) option"
  ec_night :: "night_snapshot option"
  ec_opensAt :: "int option"
  ec_nextTransitionAt :: "int option"
  ec_continuous :: bool

definition manual_until :: "(manual_mode \<times> int option) option \<Rightarrow> int option" where
  "manual_until m = (case m of Some (_, t) \<Rightarrow> t | None \<Rightarrow> None)"

definition earlier :: "int option \<Rightarrow> int option \<Rightarrow> int option" where
  "earlier a b = (case (a, b) of (None, _) \<Rightarrow> b | (Some x, Some y) \<Rightarrow> Some (if y < x then y else x) | (Some x, None) \<Rightarrow> Some x)"

definition opens_at ::
    "civil \<Rightarrow> (manual_mode \<times> int option) option \<Rightarrow> night_snapshot option \<Rightarrow> calendars \<Rightarrow> int option option \<times> calendars" where
  "opens_at c manual then' cs =
     (case manual of
        Some (Forever, _) \<Rightarrow> (Some None, cs)
      | _ \<Rightarrow>
          (case then' of
             Some sn \<Rightarrow>
               if sn_status sn = Night_Closed then resolveNightModeTransitionSessionOpenAt c (sn_sessionKey sn) cs
               else (Some (manual_until manual), cs)
           | None \<Rightarrow> (Some (manual_until manual), cs)))"

definition resolveEffectiveChatClosure ::
    "civil \<Rightarrow> night_settings \<Rightarrow> manual_settings \<Rightarrow> int \<Rightarrow> calendars \<Rightarrow> effective_closure option \<times> calendars" where
  "resolveEffectiveChatClosure c s m now cs =
     (let manual = resolveManualChatClosure m now; g = settings_geometry c s in
      case resolveNightModeTransitionSnapshot c s now cs of
        (None, cs1) \<Rightarrow> (None, cs1)
      | (Some night, cs1) \<Rightarrow>
          (case resolveNightModeTransitionSnapshot c s (case manual_until manual of Some t \<Rightarrow> t | None \<Rightarrow> now) cs1 of
             (None, cs2) \<Rightarrow> (None, cs2)
           | (Some then', cs2) \<Rightarrow>
               (case opens_at c manual then' cs2 of
                  (None, cs3) \<Rightarrow> (None, cs3)
                | (Some opensAt, cs3) \<Rightarrow>
                    (case resolveNextNightModeTransitionOccurrences c s now cs3 of
                       (None, cs4) \<Rightarrow> (None, cs4)
                     | (Some nexts, cs4) \<Rightarrow>
                         (Some \<lparr>ec_restriction = (if manual \<noteq> None then By_Admin
                                   else case night of
                                          Some sn \<Rightarrow> if sn_status sn = Night_Closed then By_Night else Not_Restricted
                                        | None \<Rightarrow> Not_Restricted),
                                 ec_manual = manual, ec_night = night, ec_opensAt = opensAt,
                                 ec_nextTransitionAt =
                                   earlier (case nexts of x # _ \<Rightarrow> Some (no_dueAt x) | [] \<Rightarrow> None) (manual_until manual),
                                 ec_continuous = (ge_startMinutes g = ge_endMinutes g)\<rparr>, cs4)))))"

section \<open>Status and transitions\<close>

lemma found_calendar:
  assumes "calendars_reached c cs" "ordered_days c (ge_timezone g)" "resolveNightModeCalendar c g now cs = (Some ws, cs')"
  shows "found c g now ws"
  using resolve_calendar [OF calendars_kept [OF assms(1)] assms(3)] assms(2) by simp

lemma calendar_call: "calendars_reached c cs \<Longrightarrow> resolveNightModeCalendar c g now cs = (r, cs') \<Longrightarrow> calendars_reached c cs'"
  using calendars_reached.call by (metis snd_conv)

lemma find_append_none: "\<forall>x \<in> set xs. \<not> P x \<Longrightarrow> find P (xs @ ys) = find P ys"
  by (induction xs) auto

lemma neighbours_active:
  assumes "\<forall>w \<in> set ini. nw_closeAtMs w \<le> now \<and> nw_openAtMs w \<le> now" "nw_closeAtMs p \<le> now" "now < nw_closeAtMs v"
    "nw_closeAtMs v < nw_openAtMs v" "separated (v # post)"
  shows "active_window now (ini @ p # v # post) = (if now < nw_openAtMs p then Some p else None)"
proof -
  have "\<not> covers (v # post) now"
    using assms(3-5) by (force simp: covers_def)
  then have "find (\<lambda>w. nw_closeAtMs w \<le> now \<and> now < nw_openAtMs w) (v # post) = None"
    by (auto simp: find_None_iff covers_def)
  then show ?thesis
    using assms(1,2) unfolding active_window_def by (subst find_append_none) auto
qed

lemma active_is_night:
  assumes "found c g now ws"
  shows "active_window now ws \<noteq> None \<longleftrightarrow> in_night c g now"
proof -
  obtain ini p v post where n: "ws = ini @ p # v # post" "separated ws"
    "\<forall>w \<in> set ini. nw_closeAtMs w \<le> now \<and> nw_openAtMs w \<le> now" "nw_closeAtMs p \<le> now"
    "nw_closeAtMs p < nw_openAtMs p" "nw_openAtMs p < nw_closeAtMs v" "now < nw_closeAtMs v"
    "nw_closeAtMs v < nw_openAtMs v" "in_night c g (nw_closeAtMs v)"
    "\<And>t. nw_closeAtMs p \<le> t \<Longrightarrow> t < nw_closeAtMs v \<Longrightarrow> in_night c g t \<longleftrightarrow> t < nw_openAtMs p"
    "\<not> in_night c g (nw_closeAtMs p - 1)"
    by (rule neighbours [OF assms]) (rule that; assumption)
  have "separated (v # post)"
    using n(1,2) by (auto simp: separated_append)
  then show ?thesis
    using neighbours_active [OF n(3,4,7,8)] n(10) [of now] n(1,4,7) by simp
qed

lemma found_separated: "found c g now ws \<Longrightarrow> separated ws"
  unfolding found_def true_calendar_def by auto

lemma snapshot_status:
  assumes "found c g now ws"
  shows "\<exists>sn. snapshot_of c g now ws = Some sn \<and> sn_geometry sn = g \<and> (sn_status sn = Night_Closed \<longleftrightarrow> in_night c g now)"
proof (cases "active_window now ws")
  case (Some w)
  then show ?thesis
    using active_is_night [OF assms] by (simp add: snapshot_of_def)
next
  case None
  from assms obtain ini p v post where ws: "ws = ini @ p # v # post" and p: "nw_closeAtMs p \<le> now"
    using neighbours by metis
  have "p \<in> set ws"
    using ws by simp
  moreover have "\<not> (nw_closeAtMs p \<le> now \<and> now < nw_openAtMs p)"
    using None ws unfolding active_window_def find_None_iff by auto
  ultimately have "lastMatching (\<lambda>w. nw_openAtMs w \<le> now) ws \<noteq> None"
    using p by (auto simp: lastMatching_def find_None_iff)
  then show ?thesis
    using None active_is_night [OF assms] by (auto simp: snapshot_of_def)
qed

text \<open>
  C13: The status shown for a chat is the definition of a night.  After any calls that filled the cache, on a zone whose
  wall times follow the days, the snapshot of an enabled schedule either says closed exactly if some civil day has
  closed and not opened yet, or the call throws because no calendar was found; it never throws for a missing session.
\<close>
theorem closed_exactly_at_night:
  assumes "calendars_reached c cs" "ordered_days c (ge_timezone (settings_geometry c s))" "ns_nightModeEnabled s"
    "ge_startMinutes (settings_geometry c s) \<noteq> ge_endMinutes (settings_geometry c s)"
  shows "case fst (resolveNightModeTransitionSnapshot c s now cs) of
      None \<Rightarrow> fst (resolveNightModeCalendar c (settings_geometry c s) now cs) = None
    | Some None \<Rightarrow> False
    | Some (Some sn) \<Rightarrow> sn_status sn = Night_Closed \<longleftrightarrow> in_night c (settings_geometry c s) now"
proof (cases "resolveNightModeCalendar c (settings_geometry c s) now cs")
  case (Pair r cs')
  then show ?thesis
    using assms snapshot_status [OF found_calendar [OF assms(1,2)], of now _ cs']
    by (cases r) (auto simp: resolveNightModeTransitionSnapshot_def Let_def)
qed

lemma next_exact:
  assumes "found c g now ws"
  shows "\<exists>item rest. next_of c g now ws = item # rest \<and> now < no_dueAt item \<and>
    (\<forall>t. now \<le> t \<and> t < no_dueAt item \<longrightarrow> (in_night c g t \<longleftrightarrow> in_night c g now)) \<and>
    (in_night c g (no_dueAt item) \<longleftrightarrow> no_transition item = Close_Transition) \<and>
    (in_night c g (no_dueAt item) \<longleftrightarrow> \<not> in_night c g now)"
proof -
  obtain ini p v post where n: "ws = ini @ p # v # post" "separated ws"
    "\<forall>w \<in> set ini. nw_closeAtMs w \<le> now \<and> nw_openAtMs w \<le> now" "nw_closeAtMs p \<le> now"
    "nw_closeAtMs p < nw_openAtMs p" "nw_openAtMs p < nw_closeAtMs v" "now < nw_closeAtMs v"
    "nw_closeAtMs v < nw_openAtMs v" "in_night c g (nw_closeAtMs v)"
    "\<And>t. nw_closeAtMs p \<le> t \<Longrightarrow> t < nw_closeAtMs v \<Longrightarrow> in_night c g t \<longleftrightarrow> t < nw_openAtMs p"
    "\<not> in_night c g (nw_closeAtMs p - 1)"
    by (rule neighbours [OF assms]) (rule that; assumption)
  note ws = n(1) and ini = n(3) and p = n(4-6) and v = n(7-9) and night = n(10)
  have c: "find (\<lambda>w. nw_closeAtMs w > now) ws = Some v"
    using ini p v unfolding ws by (subst find_append_none) auto
  have o': "find (\<lambda>w. nw_openAtMs w > now) ws = (if now < nw_openAtMs p then Some p else Some v)"
    using ini p v unfolding ws by (subst find_append_none) auto
  have now: "in_night c g now \<longleftrightarrow> now < nw_openAtMs p"
    using night [of now] p(1) v(1) by simp
  show ?thesis
  proof (cases "now < nw_openAtMs p")
    case True
    then have "next_of c g now ws = [make_occurrence c g Open_Transition p, make_occurrence c g Close_Transition v]"
      using c o' p(3) by (simp add: next_of_def make_occurrence_def)
    then show ?thesis
      using True now night p by (simp add: make_occurrence_def)
  next
    case False
    then have "next_of c g now ws = [make_occurrence c g Close_Transition v, make_occurrence c g Open_Transition v]"
      using c o' v(2) by (simp add: next_of_def make_occurrence_def)
    then show ?thesis
      using False now night v(1,3) p(1) by (simp add: make_occurrence_def)
  qed
qed

text \<open>
  C14: The next transition is the next change of the night.  Where the calendar answers, the list is not empty; until
  the time of its first entry the chat stays as it is; at that time it changes, to closed exactly if the entry is a
  closing.  So a job put off to that time neither misses a change nor acts where there is none.
\<close>
theorem next_transition_is_next_change:
  assumes "calendars_reached c cs" "ordered_days c (ge_timezone (settings_geometry c s))" "ns_nightModeEnabled s"
    "ge_startMinutes (settings_geometry c s) \<noteq> ge_endMinutes (settings_geometry c s)"
    "resolveNextNightModeTransitionOccurrences c s now cs = (Some items, cs')"
  shows "\<exists>item rest. items = item # rest \<and> now < no_dueAt item \<and>
    (\<forall>t. now \<le> t \<and> t < no_dueAt item \<longrightarrow>
       (in_night c (settings_geometry c s) t \<longleftrightarrow> in_night c (settings_geometry c s) now)) \<and>
    (in_night c (settings_geometry c s) (no_dueAt item) \<longleftrightarrow> no_transition item = Close_Transition) \<and>
    (in_night c (settings_geometry c s) (no_dueAt item) \<longleftrightarrow> \<not> in_night c (settings_geometry c s) now)"
proof -
  obtain ws where "resolveNightModeCalendar c (settings_geometry c s) now cs = (Some ws, cs')"
    "items = next_of c (settings_geometry c s) now ws"
    using assms(3-5) by (auto simp: resolveNextNightModeTransitionOccurrences_def Let_def split: prod.splits option.splits)
  then show ?thesis
    using next_exact [OF found_calendar [OF assms(1,2)]] by blast
qed

section \<open>Notices\<close>

text \<open>The window of a session date in two calendars of a geometry is the same interval.\<close>

definition whole_night :: "civil \<Rightarrow> geometry \<Rightarrow> int \<Rightarrow> int \<Rightarrow> bool" where
  "whole_night c g a b \<longleftrightarrow> a < b \<and> \<not> in_night c g (a - 1) \<and> (\<forall>t. a \<le> t \<longrightarrow> t < b \<longrightarrow> in_night c g t) \<and> \<not> in_night c g b"

lemma whole_night_unique:
  assumes "whole_night c g a b" "whole_night c g a b'"
  shows "b = b'"
proof (rule ccontr)
  assume "b \<noteq> b'"
  then consider "b < b'" | "b' < b"
    by linarith
  then show False
    using assms unfolding whole_night_def by cases (meson less_imp_le)+
qed

lemma found_whole:
  assumes "found c g now ws" "w \<in> set ws"
  shows "whole_night c g (nw_closeAtMs w) (nw_openAtMs w)" "closes c g (nw_sessionDate w) = Some (nw_closeAtMs w)"
    "v \<in> set ws \<Longrightarrow> nw_openAtMs w \<le> t \<Longrightarrow> t < nw_closeAtMs v \<Longrightarrow>
       \<forall>x \<in> set ws. nw_openAtMs w < nw_closeAtMs x \<longrightarrow> nw_closeAtMs v \<le> nw_closeAtMs x \<Longrightarrow> \<not> in_night c g t"
proof -
  obtain cal where ws: "ws = ca_windows cal" and tc: "true_calendar c g cal"
    using assms(1) unfolding found_def by blast
  then obtain lo hi where lo: "lo < nw_closeAtMs (hd ws)" and hi: "nw_openAtMs (last ws) < hi"
    and night: "\<And>t. lo \<le> t \<Longrightarrow> t < hi \<Longrightarrow> in_night c g t \<longleftrightarrow> covers ws t"
    unfolding true_calendar_def by blast
  have sep: "separated ws"
    using ws tc unfolding true_calendar_def by blast
  have inside: "lo < nw_closeAtMs x" "nw_openAtMs x < hi" if "x \<in> set ws" for x
  proof -
    obtain pre post where s: "ws = pre @ x # post"
      using split_list [OF \<open>x \<in> set ws\<close>] by blast
    show "lo < nw_closeAtMs x"
      using lo sep separated_window [OF sep] unfolding s by (cases pre) (fastforce simp: separated_append)+
    show "nw_openAtMs x < hi"
      using hi sep separated_window [OF sep] unfolding s by (cases post rule: rev_cases) (fastforce simp: separated_append)+
  qed
  have apart: "x = w \<or> nw_openAtMs x < nw_closeAtMs w \<or> nw_openAtMs w < nw_closeAtMs x" if "x \<in> set ws" for x
  proof -
    obtain pre post where s: "ws = pre @ w # post"
      using split_list [OF assms(2)] by blast
    then show ?thesis
      using sep that by (auto simp: separated_append)
  qed
  note iw = inside [OF assms(2)] and ww = separated_window [OF sep assms(2)]
  have "\<not> covers ws (nw_closeAtMs w - 1)" "\<not> covers ws (nw_openAtMs w)"
    using apart ww unfolding covers_def by force+
  moreover have "covers ws t" if "nw_closeAtMs w \<le> t" "t < nw_openAtMs w" for t
    using that assms(2) unfolding covers_def by blast
  ultimately show "whole_night c g (nw_closeAtMs w) (nw_openAtMs w)"
    using night iw ww unfolding whole_night_def by simp
  show "closes c g (nw_sessionDate w) = Some (nw_closeAtMs w)"
    using tc ws assms(2) unfolding true_calendar_def by blast
  show "\<not> in_night c g t"
    if "v \<in> set ws" "nw_openAtMs w \<le> t" "t < nw_closeAtMs v"
      "\<forall>x \<in> set ws. nw_openAtMs w < nw_closeAtMs x \<longrightarrow> nw_closeAtMs v \<le> nw_closeAtMs x"
  proof -
    have "\<not> covers ws t"
      using apart that ww unfolding covers_def by force
    then show ?thesis
      using night [of t] iw inside [OF that(1)] separated_window [OF sep that(1)] that(2,3) ww by simp
  qed
qed

lemma same_session:
  assumes "inj (cv_iso c)" "sessionKey c g v = sessionKey c g w"
  shows "nw_sessionDate v = nw_sessionDate w"
  using assms by (simp add: sessionKey_def buildNightModeTransitionSessionKey_def inj_eq)

lemma snapshot_open:
  assumes "calendars_reached c cs" "ordered_days c (ge_timezone (settings_geometry c s))"
    "resolveNightModeTransitionSnapshot c s now cs = (Some (Some sn), cs')"
    "ge_startMinutes (settings_geometry c s) \<noteq> ge_endMinutes (settings_geometry c s)"
  shows "calendars_reached c cs'" "sn_geometry sn = settings_geometry c s"
    "sn_status sn = Night_Closed \<longleftrightarrow> in_night c (settings_geometry c s) now"
proof -
  obtain ws where r: "resolveNightModeCalendar c (settings_geometry c s) now cs = (Some ws, cs')"
    and sn: "snapshot_of c (settings_geometry c s) now ws = Some sn"
    using assms(3,4) by (auto simp: resolveNightModeTransitionSnapshot_def Let_def split: if_splits prod.splits option.splits)
  show "calendars_reached c cs'"
    using calendar_call [OF assms(1) r] .
  show "sn_geometry sn = settings_geometry c s" "sn_status sn = Night_Closed \<longleftrightarrow> in_night c (settings_geometry c s) now"
    using snapshot_status [OF found_calendar [OF assms(1,2) r]] sn by auto
qed

lemma snapshot_continuous:
  assumes "resolveNightModeTransitionSnapshot c s now cs = (Some (Some sn), cs')"
    "ge_startMinutes (settings_geometry c s) = ge_endMinutes (settings_geometry c s)"
  shows "sn_status sn = Night_Closed" "sn_geometry sn = settings_geometry c s"
  using assms by (auto simp: resolveNightModeTransitionSnapshot_def Let_def split: if_splits)

lemma find_Some: "find P xs = Some x \<Longrightarrow> x \<in> set xs \<and> P x"
  by (auto simp: find_Some_iff)

lemma lastMatching_before:
  assumes "\<not> P v" "\<forall>x \<in> set post. \<not> P x" "P p"
  shows "lastMatching P (ini @ p # v # post) = Some p"
proof -
  have "find P (rev post @ ([v] @ p # rev ini)) = Some p"
    using assms by (subst find_append_none) auto
  then show ?thesis
    by (simp add: lastMatching_def)
qed

lemma latest_open:
  assumes "found c g now ws" "\<not> in_night c g now" "lastMatching (\<lambda>w. nw_openAtMs w \<le> now) ws = Some w"
  shows "w \<in> set ws \<and> nw_openAtMs w \<le> now \<and> (\<forall>t. nw_openAtMs w \<le> t \<and> t \<le> now \<longrightarrow> \<not> in_night c g t)"
proof -
  obtain ini p v post where n: "ws = ini @ p # v # post" "separated ws"
    "\<forall>w \<in> set ini. nw_closeAtMs w \<le> now \<and> nw_openAtMs w \<le> now" "nw_closeAtMs p \<le> now"
    "nw_closeAtMs p < nw_openAtMs p" "nw_openAtMs p < nw_closeAtMs v" "now < nw_closeAtMs v"
    "nw_closeAtMs v < nw_openAtMs v" "in_night c g (nw_closeAtMs v)"
    "\<And>t. nw_closeAtMs p \<le> t \<Longrightarrow> t < nw_closeAtMs v \<Longrightarrow> in_night c g t \<longleftrightarrow> t < nw_openAtMs p"
    "\<not> in_night c g (nw_closeAtMs p - 1)"
    by (rule neighbours [OF assms(1)]) (rule that; assumption)
  have p: "nw_openAtMs p \<le> now"
    using n(10) [of now] n(4,7) assms(2) by simp
  have "\<forall>x \<in> set post. \<not> nw_openAtMs x \<le> now"
    using n(2,7,8) unfolding n(1) by (fastforce simp: separated_append dest: separated_window)
  then have "w = p"
    using lastMatching_before [of "\<lambda>w. nw_openAtMs w \<le> now" v post p ini] assms(3) p n(1,7,8) by simp
  then show ?thesis
    using p n(1,5,7,10) by auto
qed

text \<open>
  A notice that a chat is open again is timely.  If the night's opening is offered as current, it is an opening,
  it lies at most two hours back, a whole night ended at its time, and the chat has not been closed by night since.  The
  calendars read on the way may be different ones of the cache.  Texts of different dates are taken to differ.
\<close>
theorem open_notice_is_timely:
  assumes "calendars_reached c cs" "ordered_days c (ge_timezone (settings_geometry c s))" "inj (cv_iso c)"
    "resolveCurrentNightModeOpenOccurrence c s now cs = (Some (Some item), cs')"
  shows "no_transition item = Open_Transition \<and> no_dueAt item \<le> now \<and>
    now \<le> no_dueAt item + NIGHT_MODE_OPEN_CATCH_UP_MAX_AGE_MS \<and>
    (\<exists>start. whole_night c (settings_geometry c s) start (no_dueAt item)) \<and>
    (\<forall>t. no_dueAt item \<le> t \<and> t \<le> now \<longrightarrow> \<not> in_night c (settings_geometry c s) t)"
proof -
  let ?g = "settings_geometry c s"
  obtain sn cs1 o' l cs2 i where snap: "resolveNightModeTransitionSnapshot c s now cs = (Some (Some sn), cs1)"
    and status: "sn_status sn = Night_Open"
    and lat: "resolveLatestNightModeTransitionOccurrences c s now cs1 = (Some (o', Some item), cs2)"
    and catch: "resolveNightModeNoticeCatchUpWindow c item s now cs2 = (Some (True, l), i)"
    using assms(4)
    by (auto simp: resolveCurrentNightModeOpenOccurrence_def split: prod.splits option.splits if_splits)
  have ne: "ge_startMinutes ?g \<noteq> ge_endMinutes ?g"
    using snapshot_continuous [OF snap] status by auto
  note so = snapshot_open [OF assms(1,2) snap ne]
  then have out: "\<not> in_night c ?g now"
    using status by simp
  obtain ws2 w where r2: "resolveNightModeCalendar c ?g now cs1 = (Some ws2, cs2)"
    and w: "lastMatching (\<lambda>w. nw_openAtMs w \<le> now) ws2 = Some w" and item: "item = make_occurrence c ?g Open_Transition w"
    using lat ne by (auto simp: resolveLatestNightModeTransitionOccurrences_def Let_def split: prod.splits option.splits)
  note f2 = found_calendar [OF so(1) assms(2) r2]
  note lo = latest_open [OF f2 out w]
  have due: "no_dueAt item = nw_openAtMs w" "no_sessionKey item = sessionKey c ?g w" "no_transition item = Open_Transition"
    using item by (simp_all add: make_occurrence_def)
  obtain ws3 where r3: "resolveNightModeCalendar c ?g (no_dueAt item) cs2 = (Some ws3, i)"
    and within: "catch_up_of c ?g item now ws3 = (True, l)"
    using catch by (auto simp: resolveNightModeNoticeCatchUpWindow_def Let_def split: prod.splits option.splits)
  note f3 = found_calendar [OF calendar_call [OF so(1) r2] assms(2) r3]
  obtain v where v: "find (\<lambda>x. sessionKey c ?g x = no_sessionKey item) ws3 = Some v"
    using within by (auto simp: catch_up_of_def split: option.splits)
  then have vin: "v \<in> set ws3" and key: "sessionKey c ?g v = sessionKey c ?g w"
    using find_Some [OF v] due(2) by simp_all
  have "nw_closeAtMs v = nw_closeAtMs w"
    using same_session [OF assms(3) key] found_whole(2) [OF f3 vin] found_whole(2) [OF f2, of w] lo by simp
  then have "nw_openAtMs v = nw_openAtMs w"
    using whole_night_unique found_whole(1) [OF f3 vin] found_whole(1) [OF f2, of w] lo by metis
  then have "now \<le> no_dueAt item + NIGHT_MODE_OPEN_CATCH_UP_MAX_AGE_MS"
    using within v due by (auto simp: catch_up_of_def Let_def split: option.splits if_splits)
  then show ?thesis
    using due lo found_whole(1) [OF f2, of w] by auto
qed

lemma lastMatching_at:
  assumes "\<forall>x \<in> set (v # post). \<not> P x" "P p"
  shows "lastMatching P (ini @ p # v # post) = Some p"
  using assms by (intro lastMatching_before) auto

text \<open>
  A notice that a chat is closed names this night.  If the night's closing is offered as current, it is a closing,
  its time is not ahead, and a whole night runs from that time to a time after the present instant.
\<close>
theorem close_notice_is_of_this_night:
  assumes "calendars_reached c cs" "ordered_days c (ge_timezone (settings_geometry c s))"
    "resolveCurrentNightModeCloseOccurrence c s now cs = (Some (Some item), cs')"
  shows "no_transition item = Close_Transition \<and> no_dueAt item \<le> now \<and>
    (\<exists>until > now. whole_night c (settings_geometry c s) (no_dueAt item) until)"
proof -
  let ?g = "settings_geometry c s"
  obtain sn cs1 o' where snap: "resolveNightModeTransitionSnapshot c s now cs = (Some (Some sn), cs1)"
    and status: "sn_status sn = Night_Closed" and min: "ge_startMinutes (sn_geometry sn) \<noteq> ge_endMinutes (sn_geometry sn)"
    and lat: "resolveLatestNightModeTransitionOccurrences c s now cs1 = (Some (Some item, o'), cs')"
    using assms(3)
    by (auto simp: resolveCurrentNightModeCloseOccurrence_def split: prod.splits option.splits if_splits)
  have ne: "ge_startMinutes ?g \<noteq> ge_endMinutes ?g"
    using snapshot_continuous [OF snap] min by auto
  note so = snapshot_open [OF assms(1,2) snap ne]
  obtain ws w where r: "resolveNightModeCalendar c ?g now cs1 = (Some ws, cs')"
    and w: "lastMatching (\<lambda>w. nw_closeAtMs w \<le> now) ws = Some w" and item: "item = make_occurrence c ?g Close_Transition w"
    using lat ne by (auto simp: resolveLatestNightModeTransitionOccurrences_def Let_def split: prod.splits option.splits)
  note f = found_calendar [OF so(1) assms(2) r]
  obtain ini p v post where n: "ws = ini @ p # v # post" "separated ws"
    "\<forall>w \<in> set ini. nw_closeAtMs w \<le> now \<and> nw_openAtMs w \<le> now" "nw_closeAtMs p \<le> now"
    "nw_closeAtMs p < nw_openAtMs p" "nw_openAtMs p < nw_closeAtMs v" "now < nw_closeAtMs v"
    "nw_closeAtMs v < nw_openAtMs v" "in_night c ?g (nw_closeAtMs v)"
    "\<And>t. nw_closeAtMs p \<le> t \<Longrightarrow> t < nw_closeAtMs v \<Longrightarrow> in_night c ?g t \<longleftrightarrow> t < nw_openAtMs p"
    "\<not> in_night c ?g (nw_closeAtMs p - 1)"
    by (rule neighbours [OF f]) (rule that; assumption)
  have "\<forall>x \<in> set (v # post). \<not> nw_closeAtMs x \<le> now"
    using n(2,7,8) unfolding n(1) by (fastforce simp: separated_append)
  then have "w = p"
    using lastMatching_at [of v post "\<lambda>w. nw_closeAtMs w \<le> now" p ini] w n(1,4) by simp
  moreover have "now < nw_openAtMs p"
    using so(3) status n(10) [of now] n(4,7) by simp
  moreover have "p \<in> set ws"
    using n(1) by simp
  ultimately show ?thesis
    using item n(4) found_whole(1) [OF f, of p] by (auto simp: make_occurrence_def)
qed

section \<open>The keys of sessions\<close>

lemma nat_text_two: "k < 100 \<Longrightarrow> pad_start 2 (nat_text k) = [word_of_nat (48 + k div 10), word_of_nat (48 + k mod 10)]"
  using div_less [of k 10] by (cases "k < 10") (auto simp: pad_start_def numeral_2_eq_2)

declare nat_text.simps [simp del]

lemma digit_word: "d < 10 \<Longrightarrow> is_digit (word_of_nat (48 + d)) \<and> unat (word_of_nat (48 + d) :: 16 word) = 48 + d \<and>
    uint (word_of_nat (48 + d) :: 16 word) = 48 + int d"
proof -
  assume "d < 10"
  then have "d = 0 \<or> d = 1 \<or> d = 2 \<or> d = 3 \<or> d = 4 \<or> d = 5 \<or> d = 6 \<or> d = 7 \<or> d = 8 \<or> d = 9"
    by presburger
  then show ?thesis
    by (elim disjE) (simp_all add: is_digit_def)
qed

lemma two_digits_text:
  assumes "k < 100"
  shows "two_digits (pad_start 2 (nat_text k)) \<and> digits_value (pad_start 2 (nat_text k)) = int k"
proof -
  have "k div 10 < 10" "k mod 10 < 10"
    using assms by auto
  note d = digit_word [OF this(1)] digit_word [OF this(2)]
  have "int (k div 10) * 10 + int (k mod 10) = int k"
    by presburger
  then show ?thesis
    unfolding nat_text_two [OF assms] using d by (simp add: two_digits_def digits_value_def)
qed

lemma trim_id: "s \<noteq> [] \<Longrightarrow> \<not> is_space (hd s) \<Longrightarrow> \<not> is_space (last s) \<Longrightarrow> trim s = s"
proof -
  assume s: "s \<noteq> []" "\<not> is_space (hd s)" "\<not> is_space (last s)"
  then have "dropWhile is_space s = s"
    by (cases s) auto
  moreover have "dropWhile is_space (rev s) = rev s"
    using s(1,3) by (cases s rule: rev_cases) auto
  ultimately show ?thesis
    by (simp add: trim_def)
qed

lemma digit_not_space: "is_digit x \<Longrightarrow> \<not> is_space x"
  unfolding is_digit_def is_space_def by unat_arith

lemma match_built:
  assumes "two_digits h1" "two_digits m1" "two_digits h2" "two_digits m2" "z \<noteq> []" "58 \<notin> set z" "date_shaped dateKey"
  shows "match_session_key ([118, 49, 58] @ z @ [58] @ h1 @ [58] @ m1 @ [58] @ h2 @ [58] @ m2 @ [58] @ dateKey) =
    Some (z, h1, m1, h2, m2, dateKey)"
proof -
  obtain a1 b1 where h1: "h1 = [a1, b1]"
    using assms(1) by (auto simp: two_digits_def length_Suc_conv numeral_2_eq_2)
  obtain c1 d1 where m1: "m1 = [c1, d1]"
    using assms(2) by (auto simp: two_digits_def length_Suc_conv numeral_2_eq_2)
  obtain a2 b2 where h2: "h2 = [a2, b2]"
    using assms(3) by (auto simp: two_digits_def length_Suc_conv numeral_2_eq_2)
  obtain c2 d2 where m2: "m2 = [c2, d2]"
    using assms(4) by (auto simp: two_digits_def length_Suc_conv numeral_2_eq_2)
  let ?t = "[58, a1, b1, 58, c1, d1, 58, a2, b2, 58, c2, d2, 58] @ dateKey"
  let ?s = "[118, 49, 58] @ z @ ?t"
  have len: "length dateKey = 10"
    using assms(7) by (simp add: date_shaped_def)
  have n: "length ?s - 23 = 3 + length z" "length ?s > 26"
    using len assms(5) by (cases z, simp_all)+
  have "drop (3 + length z) ?s = drop (length z) (drop 3 ?s)"
    by (simp only: drop_drop add.commute)
  also have "\<dots> = ?t"
    by simp
  finally have d: "drop (3 + length z) ?s = ?t" .
  have z: "take (3 + length z - 3) (drop 3 ?s) = z"
    by simp
  have v1: "take 3 ?s = ascii ''v1:''"
    by (simp add: ascii_def)
  have "match_session_key ?s = Some (z, [a1, b1], [c1, d1], [a2, b2], [c2, d2], dateKey)"
    unfolding match_session_key_def Let_def n(1) d z v1
    using n(2) assms h1 m1 h2 m2 by simp
  then show ?thesis
    unfolding h1 m1 h2 m2 by simp
qed

text \<open>
  The key of a night can be read back.  For a known zone whose name has no colon, minutes of a day and a date of the
  calendar, parsing the key of a session gives the geometry and the date it was built from.
\<close>
theorem session_key_round_trip:
  assumes "normalizeNightModeTimezone c (ge_timezone g) = ge_timezone g" "58 \<notin> set (ge_timezone g)"
    "0 \<le> ge_startMinutes g" "ge_startMinutes g < 1440" "0 \<le> ge_endMinutes g" "ge_endMinutes g < 1440"
    "date_shaped dateKey" "real_date dateKey"
  shows "parseNightModeTransitionSessionKey c (buildNightModeTransitionSessionKey g dateKey) = Some (g, dateKey)"
proof -
  define z where "z = ge_timezone g"
  have z: "z \<noteq> []"
    using assms(1) by (auto simp: z_def normalizeNightModeTimezone_def DEFAULT_NIGHT_MODE_TIMEZONE_def ascii_def Let_def
        split: if_splits)
  define h1 m1 h2 m2 where "h1 = pad_start 2 (nat_text (nat (ge_startMinutes g div 60)))"
    and "m1 = pad_start 2 (nat_text (nat (ge_startMinutes g mod 60)))"
    and "h2 = pad_start 2 (nat_text (nat (ge_endMinutes g div 60)))"
    and "m2 = pad_start 2 (nat_text (nat (ge_endMinutes g mod 60)))"
  note defs = this
  have b: "nat (ge_startMinutes g div 60) < 100" "nat (ge_startMinutes g mod 60) < 100"
    "nat (ge_endMinutes g div 60) < 100" "nat (ge_endMinutes g mod 60) < 100"
    using assms(3-6) by auto
  have t: "two_digits h1" "two_digits m1" "two_digits h2" "two_digits m2"
    and v: "digits_value h1 = ge_startMinutes g div 60" "digits_value m1 = ge_startMinutes g mod 60"
      "digits_value h2 = ge_endMinutes g div 60" "digits_value m2 = ge_endMinutes g mod 60"
    using two_digits_text [OF b(1)] two_digits_text [OF b(2)] two_digits_text [OF b(3)] two_digits_text [OF b(4)] assms(3-6)
    unfolding defs by (simp_all add: pos_imp_zdiv_nonneg_iff)
  have len: "length h1 = 2" "length m1 = 2" "length h2 = 2" "length m2 = 2" "length dateKey = 10"
    using t assms(7) by (auto simp: two_digits_def date_shaped_def)
  define s where "s = buildNightModeTransitionSessionKey g dateKey"
  have s: "s = [118, 49, 58] @ z @ [58] @ h1 @ [58] @ m1 @ [58] @ h2 @ [58] @ m2 @ [58] @ dateKey"
    using assms(3-6)
    by (simp add: s_def buildNightModeTransitionSessionKey_def formatMinutesAsTime_def Let_def normalizeDayMinutes_def
        ascii_def z_def defs)
  have "last dateKey \<in> set (drop 8 dateKey)"
    using len(5) last_drop [of 8 dateKey] last_in_set [of "drop 8 dateKey"] by simp
  then have "is_digit (last dateKey)"
    using assms(7) by (auto simp: date_shaped_def list_all_iff)
  then have trim: "trim s = s"
    using len(5) by (intro trim_id) (auto simp: s is_space_def dest: digit_not_space)
  have match: "match_session_key s = Some (z, h1, m1, h2, m2, dateKey)"
    unfolding s by (rule match_built [OF t z _ assms(7)]) (use assms(2) in \<open>simp add: z_def\<close>)
  have g: "\<lparr>ge_timezone = ge_timezone g, ge_startMinutes = ge_startMinutes g, ge_endMinutes = ge_endMinutes g\<rparr> = g"
    by (cases g) simp
  have "ge_startMinutes g div 60 \<le> 23" "ge_startMinutes g mod 60 \<le> 59" "ge_endMinutes g div 60 \<le> 23" "ge_endMinutes g mod 60 \<le> 59"
    using assms(3-6) by auto
  then show ?thesis
    unfolding s_def [symmetric] parseNightModeTransitionSessionKey_def trim match
    using assms(1,8) v s_def by (simp add: z_def Let_def g)
qed

section \<open>Zones of a fixed offset\<close>

definition DAY_MS :: int where "DAY_MS = 86400000"

text \<open>A zone whose clocks are never changed, as luxon treats it: every wall time of every day exists once.\<close>

definition fixed_offset :: "civil \<Rightarrow> js_string \<Rightarrow> int \<Rightarrow> bool" where
  "fixed_offset c tz off \<longleftrightarrow>
     (\<forall>d m. resolveBoundary c tz d m = Some (d * DAY_MS + m * 60000 - off)) \<and>
     (\<forall>now. cv_local c tz now = Some ((now + off) div DAY_MS))"

definition minute_in_window :: "geometry \<Rightarrow> int \<Rightarrow> bool" where
  "minute_in_window g m \<longleftrightarrow>
     (if ge_startMinutes g < ge_endMinutes g then ge_startMinutes g \<le> m \<and> m < ge_endMinutes g
      else ge_startMinutes g \<le> m \<or> m < ge_endMinutes g)"

definition daily :: "geometry \<Rightarrow> bool" where
  "daily g \<longleftrightarrow> 0 \<le> ge_startMinutes g \<and> ge_startMinutes g < 1440 \<and> 0 \<le> ge_endMinutes g \<and> ge_endMinutes g < 1440 \<and>
     ge_startMinutes g \<noteq> ge_endMinutes g"

lemma normalized_minutes: "0 \<le> d \<Longrightarrow> d \<le> 1439 \<Longrightarrow> 0 \<le> normalizeDayMinutes v d \<and> normalizeDayMinutes v d < 1440"
  by (auto simp: normalizeDayMinutes_def split: option.splits)

lemma settings_daily:
  "ge_startMinutes (settings_geometry c s) \<noteq> ge_endMinutes (settings_geometry c s) \<Longrightarrow> daily (settings_geometry c s)"
  using normalized_minutes [of 1380 "ns_startTimeMinutes s"] normalized_minutes [of 480 "ns_endTimeMinutes s"]
  by (simp add: daily_def settings_geometry_def)

lemma fixed_ordered: "fixed_offset c tz off \<Longrightarrow> ordered_days c tz"
  by (auto simp: fixed_offset_def ordered_days_def DAY_MS_def)

definition open_day :: "geometry \<Rightarrow> int \<Rightarrow> int" where
  "open_day g d = (if ge_startMinutes g < ge_endMinutes g then d else d + 1)"

definition day_window :: "geometry \<Rightarrow> int \<Rightarrow> int \<Rightarrow> night_window" where
  "day_window g off d =
     \<lparr>nw_sessionDate = d, nw_memberDates = [d], nw_closeAtMs = d * DAY_MS + ge_startMinutes g * 60000 - off,
      nw_openAtMs = open_day g d * DAY_MS + ge_endMinutes g * 60000 - off\<rparr>"

lemma fixed_days:
  assumes "fixed_offset c (ge_timezone g) off"
  shows "closes c g d = Some (nw_closeAtMs (day_window g off d))" "opens c g d = Some (nw_openAtMs (day_window g off d))"
  using assms by (simp_all add: fixed_offset_def closes_def opens_def day_window_def open_day_def)

lemma day_window_order:
  assumes "daily g"
  shows "nw_closeAtMs (day_window g off d) < nw_openAtMs (day_window g off d)"
    and "d < d' \<Longrightarrow> nw_openAtMs (day_window g off d) < nw_closeAtMs (day_window g off d')"
  using assms by (auto simp: daily_def day_window_def open_day_def DAY_MS_def)

lemma fixed_raw:
  assumes "fixed_offset c (ge_timezone g) off" "daily g"
  shows "raw_windows c g days = Some (map (day_window g off) days)"
proof (induction days)
  case Nil
  show ?case
    by simp
next
  case (Cons d days)
  have "\<not> nw_closeAtMs (day_window g off d) \<ge> nw_openAtMs (day_window g off d)"
    using day_window_order(1) [OF assms(2), of off d] by simp
  then show ?case
    using Cons.IH fixed_days [OF assms(1), of d] by (simp add: day_window_def)
qed

lemma days_separated:
  assumes "daily g" "sorted_wrt (<) days"
  shows "separated (map (day_window g off) days)"
  using assms(2) day_window_order [OF assms(1)] by (induction days) auto

lemma merge_separated: "separated (acc @ ws) \<Longrightarrow> foldl merge_window acc ws = acc @ ws"
proof (induction ws arbitrary: acc)
  case Nil
  then show ?case
    by simp
next
  case (Cons w ws)
  have "merge_window acc w = acc @ [w]"
    using Cons.prems by (cases acc rule: rev_cases) (auto simp: merge_window_def separated_append)
  then show ?case
    using Cons.IH [of "acc @ [w]"] Cons.prems by simp
qed

lemma separated_sorted: "separated ws \<Longrightarrow> sorted (map (\<lambda>w. (nw_closeAtMs w, nw_sessionDate w)) ws)"
proof (induction ws)
  case (Cons w ws)
  then have "nw_closeAtMs w < nw_closeAtMs v" if "v \<in> set ws" for v
    using that by fastforce
  then show ?case
    using Cons by (auto simp: less_eq_prod_def intro: less_imp_le)
qed simp

lemma fixed_search:
  assumes "fixed_offset c (ge_timezone g) off" "daily g"
  shows "search_calendar c g now ((now + off) div DAY_MS) (8 # radii) \<noteq> None"
proof -
  let ?date = "(now + off) div DAY_MS"
  let ?days = "span ?date 8"
  let ?ws = "map (day_window g off) ?days"
  have sep: "separated ?ws"
    by (rule days_separated [OF assms(2)]) (simp add: span_def sorted_wrt_upto)
  have "sort_windows ?ws = ?ws"
    unfolding sort_windows_def by (rule sort_key_id_if_sorted [OF separated_sorted [OF sep]])
  then have m: "merge_windows (sort_windows ?ws) = ?ws"
    using merge_separated [of "[]" ?ws] sep by (simp add: merge_windows_def)
  have len: "length ?ws = 17"
    by (simp add: span_def)
  have nth: "?ws ! 2 = day_window g off (?date - 6)" "?ws ! 15 = day_window g off (?date + 7)"
    by (simp_all add: span_def nth_upto add.commute)
  have "?date * DAY_MS \<le> now + off" "now + off < ?date * DAY_MS + DAY_MS"
    by (simp_all add: DAY_MS_def)
  then have "nw_closeAtMs (day_window g off (?date - 6)) \<le> now" "now < nw_closeAtMs (day_window g off (?date + 7))"
    using assms(2) by (simp_all add: day_window_def daily_def DAY_MS_def)
  then have "seal ?ws now \<noteq> None"
    using len nth by (simp add: seal_def Let_def)
  then show ?thesis
    using fixed_raw [OF assms] m by (auto split: option.splits)
qed

lemma fixed_night:
  assumes "fixed_offset c (ge_timezone g) off" "daily g"
  shows "in_night c g now \<longleftrightarrow> minute_in_window g ((now + off) div 60000 mod 1440)"
proof -
  let ?s = "ge_startMinutes g" and ?e = "ge_endMinutes g" and ?L = "now + off"
  define d where "d = ?L div DAY_MS"
  define r where "r = ?L mod DAY_MS"
  have L: "?L = d * DAY_MS + r" "0 \<le> r" "r < DAY_MS"
    by (simp_all add: d_def r_def DAY_MS_def)
  have "?L div 60000 = d * 1440 + r div 60000"
    unfolding L(1) DAY_MS_def by (simp add: div_add1_eq mult.commute)
  moreover have "0 \<le> r div 60000" "r div 60000 < 1440"
    using L(2,3) unfolding DAY_MS_def by simp_all
  ultimately have m: "?L div 60000 mod 1440 = r div 60000"
    by simp
  have se: "0 \<le> ?s" "?s < 1440" "0 \<le> ?e" "?e < 1440" "?s \<noteq> ?e"
    using assms(2) by (auto simp: daily_def)
  have ex: "in_night c g now \<longleftrightarrow> (\<exists>k. k * DAY_MS + ?s * 60000 \<le> ?L \<and> ?L < open_day g k * DAY_MS + ?e * 60000)"
    unfolding in_night_def fixed_days [OF assms(1)] by (simp add: day_window_def diff_le_eq less_diff_eq)
  have sr: "?s * 60000 \<le> r \<longleftrightarrow> ?s \<le> r div 60000" and er: "r < ?e * 60000 \<longleftrightarrow> r div 60000 < ?e"
    by linarith+
  have "(\<exists>k. k * DAY_MS + ?s * 60000 \<le> ?L \<and> ?L < open_day g k * DAY_MS + ?e * 60000) \<longleftrightarrow>
    (if ?s < ?e then ?s * 60000 \<le> r \<and> r < ?e * 60000 else ?s * 60000 \<le> r \<or> r < ?e * 60000)"
  proof (cases "?s < ?e")
    case True
    have "k = d" if "k * DAY_MS + ?s * 60000 \<le> ?L" "?L < k * DAY_MS + ?e * 60000" for k
      using that L se unfolding DAY_MS_def by linarith
    then have "(\<exists>k. k * DAY_MS + ?s * 60000 \<le> ?L \<and> ?L < k * DAY_MS + ?e * 60000) \<longleftrightarrow>
      d * DAY_MS + ?s * 60000 \<le> ?L \<and> ?L < d * DAY_MS + ?e * 60000"
      by blast
    then show ?thesis
      using True L(1) by (simp add: open_day_def)
  next
    case False
    have "k = d \<or> k = d - 1" if k: "k * DAY_MS + ?s * 60000 \<le> ?L" "?L < (k + 1) * DAY_MS + ?e * 60000" for k
    proof -
      have "k * 86400000 \<le> ?L" "?L < (d + 1) * 86400000"
        using k(1) L se(1) unfolding DAY_MS_def by simp_all
      from le_less_trans [OF this] have "k < d + 1"
        unfolding mult_less_cancel_right by simp
      moreover have "d * 86400000 \<le> ?L" "?L < (k + 2) * 86400000"
        using k(2) L(1,2) se(4) unfolding DAY_MS_def by (simp_all add: distrib_right)
      from le_less_trans [OF this] have "d < k + 2"
        unfolding mult_less_cancel_right by simp
      ultimately show ?thesis
        by linarith
    qed
    moreover have "?L < (d + 1) * DAY_MS + ?e * 60000" "(d - 1) * DAY_MS + ?s * 60000 \<le> ?L"
      using L se(1-4) unfolding DAY_MS_def by (simp_all add: algebra_simps)
    moreover have "d * DAY_MS + ?s * 60000 \<le> ?L \<longleftrightarrow> ?s * 60000 \<le> r" "?L < d * DAY_MS + ?e * 60000 \<longleftrightarrow> r < ?e * 60000"
      using L by linarith+
    ultimately show ?thesis
      using False unfolding open_day_def by (auto split: if_splits) (metis diff_add_cancel)+
  qed
  then show ?thesis
    unfolding ex m minute_in_window_def using sr er by simp
qed

text \<open>
  Where the clocks are never changed a chat's night is its saved minutes.  After any calls the snapshot of an
  enabled schedule answers, and says closed exactly if the minute of the day of the wall clock lies in the window of
  the settings, the window passing midnight where its start is not before its end.
\<close>
theorem fixed_zone_status:
  assumes "calendars_reached c cs" "fixed_offset c (ge_timezone (settings_geometry c s)) off" "ns_nightModeEnabled s"
    "ge_startMinutes (settings_geometry c s) \<noteq> ge_endMinutes (settings_geometry c s)"
  shows "\<exists>sn. fst (resolveNightModeTransitionSnapshot c s now cs) = Some (Some sn) \<and>
    (sn_status sn = Night_Closed \<longleftrightarrow> minute_in_window (settings_geometry c s) ((now + off) div 60000 mod 1440))"
proof -
  let ?g = "settings_geometry c s"
  have g: "daily ?g"
    using settings_daily assms(4) by blast
  have "cv_local c (ge_timezone ?g) now = Some ((now + off) div DAY_MS)"
    using assms(2) by (simp add: fixed_offset_def)
  then have "fst (resolveNightModeCalendar c ?g now cs) \<noteq> None"
    using fixed_search [OF assms(2) g, of now "[32]"]
    by (auto simp: resolveNightModeCalendar_def Let_def simp del: search_calendar.simps split: option.splits)
  then obtain ws cs' where r: "resolveNightModeCalendar c ?g now cs = (Some ws, cs')"
    by (cases "resolveNightModeCalendar c ?g now cs") auto
  from snapshot_status [OF found_calendar [OF assms(1) fixed_ordered [OF assms(2)] r]]
  show ?thesis
    using assms(3,4) r fixed_night [OF assms(2) g, of now]
    by (auto simp: resolveNightModeTransitionSnapshot_def Let_def)
qed

section \<open>Instances\<close>

text \<open>The zone UTC, with dates written as their day numbers; a night from 23:00 to 08:00.\<close>

definition utc_civil :: civil where
  "utc_civil =
     \<lparr>cv_candidates = (\<lambda>tz d h m. [d * 86400000 + h * 3600000 + m * 60000]), cv_local = (\<lambda>tz n. Some (n div 86400000)),
      cv_iso = (\<lambda>d. (if d < 0 then 45 else 43) # nat_text (nat \<bar>d\<bar>)), cv_zoned = (\<lambda>n tz. nat_text (nat (n div 86400000))),
      cv_zone = (\<lambda>tz. tz = ascii ''UTC''), cv_noon = (\<lambda>s. digits_value s * 86400000 + 43200000)\<rparr>"

definition late_night :: night_settings where
  "late_night = \<lparr>ns_nightModeEnabled = True, ns_startTimeMinutes = Some 1380, ns_endTimeMinutes = Some 480, ns_timezone = ascii ''UTC''\<rparr>"

lemma nat_text_value: "digits_value (nat_text n) = int n"
proof (induction n rule: nat_text.induct)
  case (1 n)
  have d: "uint (word_of_nat (48 + n mod 10) :: 16 word) = 48 + int (n mod 10)"
    using digit_word [of "n mod 10"] by simp
  have split: "int n = int (n div 10) * 10 + int (n mod 10)"
    by presburger
  have step: "digits_value (xs @ [x]) = digits_value xs * 10 + (uint x - 48)" for xs x
    by (simp add: digits_value_def)
  show ?case
  proof (cases "n < 10")
    case True
    then show ?thesis
      using d by (subst nat_text.simps) (simp add: digits_value_def)
  next
    case False
    then have "nat_text n = nat_text (n div 10) @ [word_of_nat (48 + n mod 10)]"
      by (subst nat_text.simps) simp
    then show ?thesis
      using 1 [OF False] d split by (simp only: step)
  qed
qed

lemma utc_dates: "inj (cv_iso utc_civil)"
proof (rule injI)
  fix x y
  assume "cv_iso utc_civil x = cv_iso utc_civil y"
  then have *: "(if x < 0 then 45 else 43 :: 16 word) = (if y < 0 then 45 else 43)" "nat_text (nat \<bar>x\<bar>) = nat_text (nat \<bar>y\<bar>)"
    by (simp_all add: utc_civil_def)
  have "\<bar>x\<bar> = \<bar>y\<bar>"
    using arg_cong [OF *(2), of digits_value] by (simp add: nat_text_value)
  then show "x = y"
    using *(1) by (auto split: if_splits)
qed

lemma utc_fixed: "fixed_offset utc_civil tz 0"
proof -
  have "m div 60 * 3600000 + m mod 60 * 60000 = m * 60000" for m :: int
    by presburger
  then show ?thesis
    by (simp add: fixed_offset_def resolveBoundary_def utc_civil_def DAY_MS_def)
qed

lemmas utc_ordered = fixed_ordered [OF utc_fixed]

lemma late_night_geometry:
  "ns_nightModeEnabled late_night"
  "ge_startMinutes (settings_geometry utc_civil late_night) \<noteq> ge_endMinutes (settings_geometry utc_civil late_night)"
  by (simp_all add: late_night_def settings_geometry_def normalizeDayMinutes_def)

lemma late_night_at_midnight: "in_night utc_civil (settings_geometry utc_civil late_night) 0"
proof -
  have "minute_in_window (settings_geometry utc_civil late_night) ((0 + 0) div 60000 mod 1440)"
    by code_simp
  then show ?thesis
    using fixed_night [OF utc_fixed settings_daily [OF late_night_geometry(2)]] by blast
qed

lemma closed_exactly_at_night_witness:
  "map_option (map_option sn_status) (fst (resolveNightModeTransitionSnapshot utc_civil late_night 0 [])) =
     Some (Some Night_Closed) \<and> in_night utc_civil (settings_geometry utc_civil late_night) 0"
proof -
  have "map_option (map_option sn_status) (fst (resolveNightModeTransitionSnapshot utc_civil late_night 0 [])) =
     Some (Some Night_Closed)"
    by code_simp
  then show ?thesis
    using closed_exactly_at_night [OF calendars_reached.empty utc_ordered late_night_geometry, of 0] by auto
qed

lemma next_transition_is_next_change_witness:
  "\<exists>item rest. fst (resolveNextNightModeTransitionOccurrences utc_civil late_night 0 []) = Some (item # rest) \<and> 0 < no_dueAt item \<and>
     \<not> in_night utc_civil (settings_geometry utc_civil late_night) (no_dueAt item)"
proof -
  have "map_option length (fst (resolveNextNightModeTransitionOccurrences utc_civil late_night 0 [])) = Some 2"
    by code_simp
  then obtain items cs' where "resolveNextNightModeTransitionOccurrences utc_civil late_night 0 [] = (Some items, cs')"
    by (cases "resolveNextNightModeTransitionOccurrences utc_civil late_night 0 []") auto
  from next_transition_is_next_change [OF calendars_reached.empty utc_ordered late_night_geometry this] this
  show ?thesis
    using late_night_at_midnight by auto
qed

lemma open_notice_is_timely_witness:
  "\<exists>item cs'. resolveCurrentNightModeOpenOccurrence utc_civil late_night 30000000 [] = (Some (Some item), cs') \<and>
     no_dueAt item \<le> 30000000 \<and> 30000000 \<le> no_dueAt item + 7200000"
proof -
  have "map_option (map_option no_dueAt) (fst (resolveCurrentNightModeOpenOccurrence utc_civil late_night 30000000 [])) =
     Some (Some 28800000)"
    by code_simp
  then obtain item cs' where "resolveCurrentNightModeOpenOccurrence utc_civil late_night 30000000 [] = (Some (Some item), cs')"
    by (cases "resolveCurrentNightModeOpenOccurrence utc_civil late_night 30000000 []") auto
  from open_notice_is_timely [OF calendars_reached.empty utc_ordered utc_dates this] this show ?thesis
    by (simp add: NIGHT_MODE_OPEN_CATCH_UP_MAX_AGE_MS_def)
qed

lemma close_notice_is_of_this_night_witness:
  "\<exists>item cs'. resolveCurrentNightModeCloseOccurrence utc_civil late_night 0 [] = (Some (Some item), cs') \<and>
     no_transition item = Close_Transition \<and> no_dueAt item \<le> 0"
proof -
  have "map_option (map_option no_dueAt) (fst (resolveCurrentNightModeCloseOccurrence utc_civil late_night 0 [])) =
     Some (Some (- 3600000))"
    by code_simp
  then obtain item cs' where "resolveCurrentNightModeCloseOccurrence utc_civil late_night 0 [] = (Some (Some item), cs')"
    by (cases "resolveCurrentNightModeCloseOccurrence utc_civil late_night 0 []") auto
  from close_notice_is_of_this_night [OF calendars_reached.empty utc_ordered this] this show ?thesis
    by simp
qed

lemma session_key_round_trip_witness:
  "parseNightModeTransitionSessionKey utc_civil
     (buildNightModeTransitionSessionKey (settings_geometry utc_civil late_night) (ascii ''2024-02-29'')) =
   Some (settings_geometry utc_civil late_night, ascii ''2024-02-29'')"
proof -
  have "normalizeNightModeTimezone utc_civil (ge_timezone (settings_geometry utc_civil late_night)) =
      ge_timezone (settings_geometry utc_civil late_night) \<and> 58 \<notin> set (ge_timezone (settings_geometry utc_civil late_night))"
    "0 \<le> ge_startMinutes (settings_geometry utc_civil late_night) \<and> ge_startMinutes (settings_geometry utc_civil late_night) < 1440"
    "0 \<le> ge_endMinutes (settings_geometry utc_civil late_night) \<and> ge_endMinutes (settings_geometry utc_civil late_night) < 1440"
    "date_shaped (ascii ''2024-02-29'') \<and> real_date (ascii ''2024-02-29'')"
    by code_simp+
  then show ?thesis
    using session_key_round_trip by blast
qed

lemma fixed_zone_status_witness:
  "\<exists>sn. fst (resolveNightModeTransitionSnapshot utc_civil late_night 30000000 []) = Some (Some sn) \<and> sn_status sn = Night_Open"
proof -
  have "\<not> minute_in_window (settings_geometry utc_civil late_night) ((30000000 + 0) div 60000 mod 1440)"
    by code_simp
  then show ?thesis
    using fixed_zone_status [OF calendars_reached.empty utc_fixed late_night_geometry, of 30000000]
    by (metis night_status.exhaust)
qed

end
