(* ===== verification/Vk_Timing.thy ===== *)
theory Vk_Timing
  imports JS_Values
begin

text \<open>
  \<^verbatim>\<open>apps/api/src/admin/vk-autopublish-timing.ts\<close>: when the posts of a source are published by
  themselves.  A slot lies in the working hours, out of the quiet hours, apart from the other slots of its source and
  of the chat, and within the daily limit of its source.

  \<^item> The clocks of a time zone are luxon's: the record \<open>zone_clock\<close>, an argument, holds what the code asks of a
    \<^verbatim>\<open>DateTime\<close>.  Adding a minute to one adds 60000 to its instant.
  \<^item> A \<^verbatim>\<open>Date\<close> is an instant in milliseconds, an invalid one \<open>None\<close>.  Minutes and milliseconds are the integers of
    the database columns they come from; \<open>None\<close> is a number that is none (NaN, a fraction where an integer is asked),
    and an absent value where the type says so.
  \<^item> A thrown \<^verbatim>\<open>RangeError\<close> is \<open>Inl\<close> of what it complains of.
\<close>

section \<open>Time zones and windows\<close>

record zone_clock =
  zc_valid :: "js_string \<Rightarrow> bool"
  zc_hour :: "js_string \<Rightarrow> int \<Rightarrow> int"
  zc_minute :: "js_string \<Rightarrow> int \<Rightarrow> int"
  zc_startOfMinute :: "js_string \<Rightarrow> int \<Rightarrow> int"
  zc_startOfDay :: "js_string \<Rightarrow> int \<Rightarrow> int"
  zc_startOfNextDay :: "js_string \<Rightarrow> int \<Rightarrow> int"
  zc_isoDate :: "js_string \<Rightarrow> int \<Rightarrow> js_string"

record timing_settings =
  vs_schedulerTimezone :: "js_string option"
  vs_workHoursStart :: "js_string option"
  vs_workHoursEnd :: "js_string option"
  vs_quietHoursStart :: "js_string option"
  vs_quietHoursEnd :: "js_string option"
  vs_distributeEvenlyEnabled :: bool
  vs_roundRobinEnabled :: bool

record timing_source =
  so_publishIntervalMinutes :: "int option"
  so_dailyLimit :: "int option"
  so_minPublishIntervalMinutes :: "int option"
  so_quietHoursStart :: "js_string option"
  so_quietHoursEnd :: "js_string option"

datatype timing_error = Bad_Count | Bad_Date string | Bad_Number string | No_Slot | No_Quota_Slot

definition VK_AUTOPUBLISH_DEFAULT_TIMEZONE :: js_string where "VK_AUTOPUBLISH_DEFAULT_TIMEZONE = ascii ''Europe/Moscow''"
definition VK_AUTOPUBLISH_MIN_SOURCE_SPACING_MS :: int where "VK_AUTOPUBLISH_MIN_SOURCE_SPACING_MS = 5 * 60000"
definition VK_AUTOPUBLISH_CHAT_SLOT_CLEARANCE_MS :: int where "VK_AUTOPUBLISH_CHAT_SLOT_CLEARANCE_MS = 60000"
definition DEFAULT_PUBLISH_INTERVAL_MINUTES :: int where "DEFAULT_PUBLISH_INTERVAL_MINUTES = 60"
definition DEFAULT_MIN_PUBLISH_INTERVAL_MINUTES :: int where "DEFAULT_MIN_PUBLISH_INTERVAL_MINUTES = 30"
definition DEFAULT_DAILY_LIMIT :: int where "DEFAULT_DAILY_LIMIT = 3"
definition DEFAULT_WORK_HOURS_START :: js_string where "DEFAULT_WORK_HOURS_START = ascii ''09:00''"
definition DEFAULT_WORK_HOURS_END :: js_string where "DEFAULT_WORK_HOURS_END = ascii ''22:00''"
definition ALLOWED_SLOT_LOOKAHEAD_MINUTES :: nat where "ALLOWED_SLOT_LOOKAHEAD_MINUTES = 8 * 24 * 60"

definition isValidVkAutoPublishTimezone :: "zone_clock \<Rightarrow> js_string option \<Rightarrow> bool" where
  "isValidVkAutoPublishTimezone z v = (case v of Some s \<Rightarrow> zc_valid z (trim s) | None \<Rightarrow> False)"

definition normalizeVkAutoPublishTimezone :: "zone_clock \<Rightarrow> js_string option \<Rightarrow> js_string \<Rightarrow> js_string" where
  "normalizeVkAutoPublishTimezone z v fallback =
     (let normalizedFallback =
        (if isValidVkAutoPublishTimezone z (Some fallback) then trim fallback else VK_AUTOPUBLISH_DEFAULT_TIMEZONE)
      in case v of
           Some s \<Rightarrow> if isValidVkAutoPublishTimezone z v then trim s else normalizedFallback
         | None \<Rightarrow> normalizedFallback)"

definition scheduler_zone :: "zone_clock \<Rightarrow> timing_settings \<Rightarrow> js_string" where
  "scheduler_zone z s = normalizeVkAutoPublishTimezone z (vs_schedulerTimezone s) VK_AUTOPUBLISH_DEFAULT_TIMEZONE"

definition getVkAutoPublishLocalDayRange ::
    "zone_clock \<Rightarrow> int option \<Rightarrow> js_string option \<Rightarrow> timing_error + (js_string \<times> int \<times> int)" where
  "getVkAutoPublishLocalDayRange z date timezone =
     (case date of
        None \<Rightarrow> Inl (Bad_Date ''at'')
      | Some t \<Rightarrow>
          let tz = normalizeVkAutoPublishTimezone z timezone VK_AUTOPUBLISH_DEFAULT_TIMEZONE
          in Inr (tz, zc_startOfDay z tz t, zc_startOfNextDay z tz t))"

definition readFiniteNumber :: "int option \<Rightarrow> (int \<Rightarrow> bool) \<Rightarrow> int \<Rightarrow> int" where
  "readFiniteNumber v p fallback = (case v of Some n \<Rightarrow> if p n then n else fallback | None \<Rightarrow> fallback)"

definition readPositiveInteger :: "int option \<Rightarrow> int \<Rightarrow> int" where
  "readPositiveInteger v fallback = (case v of Some n \<Rightarrow> if n > 0 then n else fallback | None \<Rightarrow> fallback)"

definition resolveVkAutoPublishSourceSpacingMs :: "timing_settings \<Rightarrow> timing_source \<Rightarrow> int" where
  "resolveVkAutoPublishSourceSpacingMs s src =
     max (VK_AUTOPUBLISH_MIN_SOURCE_SPACING_MS div 60000)
       (max (if vs_distributeEvenlyEnabled s
             then readFiniteNumber (so_publishIntervalMinutes src) (\<lambda>n. n > 0) DEFAULT_PUBLISH_INTERVAL_MINUTES else 0)
          (readFiniteNumber (so_minPublishIntervalMinutes src) (\<lambda>n. n \<ge> 0) DEFAULT_MIN_PUBLISH_INTERVAL_MINUTES)) * 60000"

text \<open>The regular expression \<^verbatim>\<open>^(?:([01]\d|2[0-3])):([0-5]\d)$\<close> on a trimmed text.\<close>

definition parseTimeOfDay :: "js_string option \<Rightarrow> int option" where
  "parseTimeOfDay v =
     (case v of
        None \<Rightarrow> None
      | Some s \<Rightarrow>
          (case trim s of
             [a, b, c, d, e] \<Rightarrow>
               if is_digit a \<and> is_digit b \<and> c = 58 \<and> is_digit d \<and> is_digit e \<and>
                  (a \<le> 49 \<or> a = 50 \<and> b \<le> 51) \<and> d \<le> 53
               then Some (digits_value [a, b] * 60 + digits_value [d, e]) else None
           | _ \<Rightarrow> None))"

record daily_range =
  dr_startMinute :: int
  dr_endMinute :: int

record schedule_windows =
  sw_work :: daily_range
  sw_globalQuiet :: "daily_range option"
  sw_sourceQuiet :: "daily_range option"

definition parseOptionalDailyRange :: "js_string option \<Rightarrow> js_string option \<Rightarrow> daily_range option" where
  "parseOptionalDailyRange start end' =
     (case (parseTimeOfDay start, parseTimeOfDay end') of
        (Some a, Some b) \<Rightarrow> Some \<lparr>dr_startMinute = a, dr_endMinute = b\<rparr>
      | _ \<Rightarrow> None)"

definition parseScheduleWindows :: "timing_settings \<Rightarrow> timing_source \<Rightarrow> schedule_windows" where
  "parseScheduleWindows s src =
     \<lparr>sw_work =
        (case (parseTimeOfDay (vs_workHoursStart s), parseTimeOfDay (vs_workHoursEnd s)) of
           (Some a, Some b) \<Rightarrow> \<lparr>dr_startMinute = a, dr_endMinute = b\<rparr>
         | _ \<Rightarrow> \<lparr>dr_startMinute = the (parseTimeOfDay (Some DEFAULT_WORK_HOURS_START)),
                 dr_endMinute = the (parseTimeOfDay (Some DEFAULT_WORK_HOURS_END))\<rparr>),
      sw_globalQuiet = parseOptionalDailyRange (vs_quietHoursStart s) (vs_quietHoursEnd s),
      sw_sourceQuiet = parseOptionalDailyRange (so_quietHoursStart src) (so_quietHoursEnd src)\<rparr>"

definition isMinuteInRange :: "int \<Rightarrow> daily_range \<Rightarrow> bool" where
  "isMinuteInRange m r =
     (if dr_startMinute r = dr_endMinute r then True
      else if dr_startMinute r < dr_endMinute r then m \<ge> dr_startMinute r \<and> m < dr_endMinute r
      else m \<ge> dr_startMinute r \<or> m < dr_endMinute r)"

definition isMinuteAllowed :: "int \<Rightarrow> schedule_windows \<Rightarrow> bool" where
  "isMinuteAllowed m w \<longleftrightarrow>
     isMinuteInRange m (sw_work w) \<and>
     \<not> (case sw_globalQuiet w of Some r \<Rightarrow> isMinuteInRange m r | None \<Rightarrow> False) \<and>
     \<not> (case sw_sourceQuiet w of Some r \<Rightarrow> isMinuteInRange m r | None \<Rightarrow> False)"

definition hasAnyAllowedMinute :: "schedule_windows \<Rightarrow> bool" where
  "hasAnyAllowedMinute w = list_ex (\<lambda>m. isMinuteAllowed m w) [0..24 * 60 - 1]"

definition minute_of_day :: "zone_clock \<Rightarrow> js_string \<Rightarrow> int \<Rightarrow> int" where
  "minute_of_day z tz t = zc_hour z tz t * 60 + zc_minute z tz t"

definition isVkAutoPublishTimeAllowed ::
    "zone_clock \<Rightarrow> int option \<Rightarrow> timing_settings \<Rightarrow> timing_source \<Rightarrow> timing_error + bool" where
  "isVkAutoPublishTimeAllowed z date s src =
     (case date of
        None \<Rightarrow> Inl (Bad_Date ''at'')
      | Some t \<Rightarrow> Inr (isMinuteAllowed (minute_of_day z (scheduler_zone z s) t) (parseScheduleWindows s src)))"

text \<open>The loop over the minutes ahead; the number is the iterations left.\<close>

fun scan_minutes :: "zone_clock \<Rightarrow> js_string \<Rightarrow> schedule_windows \<Rightarrow> int \<Rightarrow> nat \<Rightarrow> int option" where
  "scan_minutes z tz w cursor 0 = None"
| "scan_minutes z tz w cursor (Suc n) =
     (if isMinuteAllowed (minute_of_day z tz cursor) w then Some cursor else scan_minutes z tz w (cursor + 60000) n)"

definition next_allowed :: "zone_clock \<Rightarrow> js_string \<Rightarrow> schedule_windows \<Rightarrow> int \<Rightarrow> int option" where
  "next_allowed z tz w candidate =
     (if isMinuteAllowed (minute_of_day z tz candidate) w then Some candidate
      else if \<not> hasAnyAllowedMinute w then None
      else
        let cursor = zc_startOfMinute z tz candidate;
            cursor = (if cursor < candidate then cursor + 60000 else cursor)
        in scan_minutes z tz w cursor (Suc ALLOWED_SLOT_LOOKAHEAD_MINUTES))"

definition resolveNextAllowedVkAutoPublishAt ::
    "zone_clock \<Rightarrow> int option \<Rightarrow> timing_settings \<Rightarrow> timing_source \<Rightarrow> timing_error + int option" where
  "resolveNextAllowedVkAutoPublishAt z date s src =
     (case date of
        None \<Rightarrow> Inl (Bad_Date ''candidate'')
      | Some t \<Rightarrow> Inr (next_allowed z (scheduler_zone z s) (parseScheduleWindows s src) t))"

section \<open>Quotas and collisions\<close>

type_synonym quota_usage = "(js_string, int) jsmap"

definition usage_of :: "quota_usage \<Rightarrow> js_string \<Rightarrow> int" where
  "usage_of u day = (case jsmap_get u day of Some n \<Rightarrow> n | None \<Rightarrow> 0)"

definition incrementQuotaUsage :: "js_string \<Rightarrow> quota_usage \<Rightarrow> quota_usage" where
  "incrementQuotaUsage day u = jsmap_set day (usage_of u day + 1) u"

text \<open>\<^verbatim>\<open>readDates\<close>: the first invalid date throws.\<close>

fun readDates :: "string \<Rightarrow> int option list \<Rightarrow> timing_error + int list" where
  "readDates f [] = Inr []"
| "readDates f (None # ds) = Inl (Bad_Date f)"
| "readDates f (Some t # ds) = (case readDates f ds of Inl e \<Rightarrow> Inl e | Inr ts \<Rightarrow> Inr (t # ts))"

definition readNonNegative :: "string \<Rightarrow> int option \<Rightarrow> timing_error + int" where
  "readNonNegative f v = (case v of Some n \<Rightarrow> if n < 0 then Inl (Bad_Number f) else Inr n | None \<Rightarrow> Inl (Bad_Number f))"

definition buildQuotaUsage ::
    "zone_clock \<Rightarrow> int \<Rightarrow> js_string \<Rightarrow> int option option \<Rightarrow> int option option \<Rightarrow> int option list \<Rightarrow>
     timing_error + quota_usage" where
  "buildQuotaUsage z now tz publishedCount publishedAt existing =
     (case (case publishedCount of None \<Rightarrow> Inr 0 | Some n \<Rightarrow> readNonNegative ''currentLocalDayPublishedCount'' n) of
        Inl e \<Rightarrow> Inl e
      | Inr count \<Rightarrow>
          (case (if count > 0
                 then (case publishedAt of
                         None \<Rightarrow> Inr [(zc_isoDate z tz now, count)]
                       | Some None \<Rightarrow> Inl (Bad_Date ''currentLocalDayPublishedAt'')
                       | Some (Some t) \<Rightarrow> Inr [(zc_isoDate z tz t, count)])
                 else Inr []) of
             Inl e \<Rightarrow> Inl e
           | Inr usage \<Rightarrow>
               (case readDates ''existingSourceQuotaSlots'' existing of
                  Inl e \<Rightarrow> Inl e
                | Inr slots \<Rightarrow> Inr (fold (\<lambda>t. incrementQuotaUsage (zc_isoDate z tz t)) slots usage))))"

fun advancePastChatSlotCollisions :: "int \<Rightarrow> int list \<Rightarrow> int \<Rightarrow> int" where
  "advancePastChatSlotCollisions result [] clearance = result"
| "advancePastChatSlotCollisions result (t # ts) clearance =
     (if t \<le> result - clearance then advancePastChatSlotCollisions result ts clearance
      else if t \<ge> result + clearance then result
      else advancePastChatSlotCollisions (t + clearance) ts clearance)"

text \<open>The binary search of \<^verbatim>\<open>insertSortedNumber\<close> and its \<^verbatim>\<open>splice\<close>.\<close>

function search_position :: "int list \<Rightarrow> int \<Rightarrow> nat \<Rightarrow> nat \<Rightarrow> nat" where
  "search_position values v low high =
     (if low < high
      then let middle = (low + high) div 2
           in if values ! middle \<le> v then search_position values v (middle + 1) high
              else search_position values v low middle
      else low)"
  by auto
termination
  by (relation "measure (\<lambda>(values, v, low, high). high - low)") auto

declare search_position.simps [simp del]

definition insertSortedNumber :: "int list \<Rightarrow> int \<Rightarrow> int list" where
  "insertSortedNumber values v =
     (let low = search_position values v 0 (length values) in take low values @ v # drop low values)"

record quota =
  qu_dailyLimit :: int
  qu_timezone :: js_string
  qu_usage :: quota_usage

text \<open>The loop over attempts; the number is the attempts left.\<close>

fun find_slot ::
    "zone_clock \<Rightarrow> schedule_windows \<Rightarrow> js_string \<Rightarrow> quota \<Rightarrow> int list \<Rightarrow> int \<Rightarrow> int \<Rightarrow> nat \<Rightarrow> int option" where
  "find_slot z w tz q occupied clearance candidate 0 = None"
| "find_slot z w tz q occupied clearance candidate (Suc n) =
     (case next_allowed z tz w candidate of
        None \<Rightarrow> None
      | Some allowed \<Rightarrow>
          if usage_of (qu_usage q) (zc_isoDate z (qu_timezone q) allowed) \<ge> qu_dailyLimit q
          then find_slot z w tz q occupied clearance (zc_startOfNextDay z (qu_timezone q) allowed) n
          else
            let free = advancePastChatSlotCollisions allowed occupied clearance
            in if free = allowed then Some allowed else find_slot z w tz q occupied clearance free n)"

definition resolveCollisionFreeAllowedSlot ::
    "zone_clock \<Rightarrow> int \<Rightarrow> int list \<Rightarrow> int \<Rightarrow> timing_settings \<Rightarrow> timing_source \<Rightarrow> quota \<Rightarrow> int option" where
  "resolveCollisionFreeAllowedSlot z earliest occupied clearance s src q =
     find_slot z (parseScheduleWindows s src) (scheduler_zone z s) q occupied clearance earliest
       (Suc (length occupied + length (qu_usage q) + 2))"

section \<open>Plans\<close>

record plan_options =
  po_now :: "int option"
  po_lastSourceAt :: "int option option"
  po_currentLocalDayPublishedCount :: "int option option"
  po_currentLocalDayPublishedAt :: "int option option"
  po_settings :: timing_settings
  po_source :: timing_source
  po_sourceSpacingMsOverride :: "int option option"

definition read_last :: "plan_options \<Rightarrow> timing_error + int option" where
  "read_last p =
     (case po_lastSourceAt p of
        None \<Rightarrow> Inr None
      | Some None \<Rightarrow> Inl (Bad_Date ''lastSourceAt'')
      | Some (Some t) \<Rightarrow> Inr (Some t))"

definition read_spacing :: "plan_options \<Rightarrow> timing_error + int" where
  "read_spacing p =
     (case po_sourceSpacingMsOverride p of
        None \<Rightarrow> Inr (resolveVkAutoPublishSourceSpacingMs (po_settings p) (po_source p))
      | Some v \<Rightarrow> readNonNegative ''sourceSpacingMsOverride'' v)"

definition readClearance :: "int option option \<Rightarrow> timing_error + int" where
  "readClearance v =
     (case v of None \<Rightarrow> Inr VK_AUTOPUBLISH_CHAT_SLOT_CLEARANCE_MS | Some n \<Rightarrow> readNonNegative ''clearance'' n)"

text \<open>The loop of \<^verbatim>\<open>planVkAutoPublishSourceSlots\<close>: slots still wanted, the earliest time, what is occupied, the usage.\<close>

fun plan_slots ::
    "zone_clock \<Rightarrow> timing_settings \<Rightarrow> timing_source \<Rightarrow> int \<Rightarrow> int \<Rightarrow> int \<Rightarrow>
     nat \<Rightarrow> int \<Rightarrow> int list \<Rightarrow> quota_usage \<Rightarrow> timing_error + int list" where
  "plan_slots z s src spacing clearance limit 0 earliest occupied usage = Inr []"
| "plan_slots z s src spacing clearance limit (Suc n) earliest occupied usage =
     (let tz = scheduler_zone z s in
      case resolveCollisionFreeAllowedSlot z earliest occupied clearance s src
             \<lparr>qu_dailyLimit = limit, qu_timezone = tz, qu_usage = usage\<rparr> of
        None \<Rightarrow> Inl No_Slot
      | Some slot \<Rightarrow>
          (case plan_slots z s src spacing clearance limit n (slot + spacing)
                  (if vs_roundRobinEnabled s then insertSortedNumber occupied slot else occupied)
                  (incrementQuotaUsage (zc_isoDate z tz slot) usage) of
             Inl e \<Rightarrow> Inl e
           | Inr slots \<Rightarrow> Inr (slot # slots)))"

definition planVkAutoPublishSourceSlots ::
    "zone_clock \<Rightarrow> int option \<Rightarrow> plan_options \<Rightarrow> int option list \<Rightarrow> int option list \<Rightarrow> int option option \<Rightarrow>
     timing_error + int list" where
  "planVkAutoPublishSourceSlots z wanted p chatSlots quotaSlots clearanceOption =
     (case wanted of
        None \<Rightarrow> Inl Bad_Count
      | Some count \<Rightarrow>
          if count < 0 then Inl Bad_Count
          else if count = 0 then Inr []
          else
            (case po_now p of
               None \<Rightarrow> Inl (Bad_Date ''now'')
             | Some now \<Rightarrow>
                 (case read_last p of
                    Inl e \<Rightarrow> Inl e
                  | Inr lastSource \<Rightarrow>
                      (case read_spacing p of
                         Inl e \<Rightarrow> Inl e
                       | Inr spacing \<Rightarrow>
                           (case readClearance clearanceOption of
                              Inl e \<Rightarrow> Inl e
                            | Inr clearance \<Rightarrow>
                                let s = po_settings p; tz = scheduler_zone z s;
                                    limit = readPositiveInteger (so_dailyLimit (po_source p)) DEFAULT_DAILY_LIMIT
                                in (case buildQuotaUsage z now tz (po_currentLocalDayPublishedCount p)
                                           (po_currentLocalDayPublishedAt p) quotaSlots of
                                      Inl e \<Rightarrow> Inl e
                                    | Inr usage \<Rightarrow>
                                        (case (if vs_roundRobinEnabled s then readDates ''existingChatSlots'' chatSlots else Inr []) of
                                           Inl e \<Rightarrow> Inl e
                                         | Inr occupied \<Rightarrow>
                                             plan_slots z s (po_source p) spacing clearance limit (nat count)
                                               (case lastSource of None \<Rightarrow> now | Some l \<Rightarrow> max now (l + spacing))
                                               (sort occupied) usage)))))))"

text \<open>The loop of \<^verbatim>\<open>projectVkAutoPublishSourceQuotaSlots\<close>.\<close>

fun project_slots ::
    "zone_clock \<Rightarrow> timing_settings \<Rightarrow> timing_source \<Rightarrow> int \<Rightarrow> int \<Rightarrow> int \<Rightarrow>
     int option \<Rightarrow> quota_usage \<Rightarrow> int list \<Rightarrow> timing_error + int list" where
  "project_slots z s src now spacing limit previous usage [] = Inr []"
| "project_slots z s src now spacing limit previous usage (t # ts) =
     (let tz = scheduler_zone z s;
          earliest = max now (case previous of None \<Rightarrow> t | Some p \<Rightarrow> max t (p + spacing)) in
      case resolveCollisionFreeAllowedSlot z earliest [] 0 s src
             \<lparr>qu_dailyLimit = limit, qu_timezone = tz, qu_usage = usage\<rparr> of
        None \<Rightarrow> Inl No_Quota_Slot
      | Some slot \<Rightarrow>
          (case project_slots z s src now spacing limit (Some slot) (incrementQuotaUsage (zc_isoDate z tz slot) usage) ts of
             Inl e \<Rightarrow> Inl e
           | Inr slots \<Rightarrow> Inr (slot # slots)))"

definition projectVkAutoPublishSourceQuotaSlots ::
    "zone_clock \<Rightarrow> plan_options \<Rightarrow> int option list \<Rightarrow> timing_error + int list" where
  "projectVkAutoPublishSourceQuotaSlots z p slots =
     (if slots = [] then Inr []
      else
        (case po_now p of
           None \<Rightarrow> Inl (Bad_Date ''now'')
         | Some now \<Rightarrow>
             (case read_spacing p of
                Inl e \<Rightarrow> Inl e
              | Inr spacing \<Rightarrow>
                  let s = po_settings p; tz = scheduler_zone z s;
                      limit = readPositiveInteger (so_dailyLimit (po_source p)) DEFAULT_DAILY_LIMIT
                  in (case buildQuotaUsage z now tz (po_currentLocalDayPublishedCount p)
                             (po_currentLocalDayPublishedAt p) [] of
                        Inl e \<Rightarrow> Inl e
                      | Inr usage \<Rightarrow>
                          (case readDates ''slots'' slots of
                             Inl e \<Rightarrow> Inl e
                           | Inr ts \<Rightarrow>
                               (case read_last p of
                                  Inl e \<Rightarrow> Inl e
                                | Inr previous \<Rightarrow>
                                    project_slots z s (po_source p) now spacing limit previous usage (sort ts)))))))"

section \<open>Insertion and collisions\<close>

lemma search_position_correct:
  assumes "sorted xs" "low \<le> high" "high \<le> length xs"
    "\<forall>i < low. xs ! i \<le> v" "\<forall>i. high \<le> i \<longrightarrow> i < length xs \<longrightarrow> v < xs ! i"
  shows "search_position xs v low high \<le> length xs \<and>
    (\<forall>i < search_position xs v low high. xs ! i \<le> v) \<and>
    (\<forall>i. search_position xs v low high \<le> i \<longrightarrow> i < length xs \<longrightarrow> v < xs ! i)"
  using assms
proof (induction xs v low high rule: search_position.induct)
  case (1 xs v low high)
  show ?case
  proof (cases "low < high")
    case False
    then show ?thesis
      using 1(3-7) by (subst (1 2 3) search_position.simps) auto
  next
    case low: True
    let ?m = "(low + high) div 2"
    have m: "low \<le> ?m" "?m < high"
      using low by auto
    show ?thesis
    proof (cases "xs ! ?m \<le> v")
      case True
      have "xs ! i \<le> v" if "i < ?m + 1" for i
        using sorted_nth_mono [OF 1(3), of i ?m] that True m 1(5) by simp
      then have "\<forall>i < ?m + 1. xs ! i \<le> v"
        by blast
      from 1(1) [OF low refl True 1(3) _ 1(5) this 1(7)]
      have *: "search_position xs v (?m + 1) high \<le> length xs \<and>
        (\<forall>i < search_position xs v (?m + 1) high. xs ! i \<le> v) \<and>
        (\<forall>i. search_position xs v (?m + 1) high \<le> i \<longrightarrow> i < length xs \<longrightarrow> v < xs ! i)"
        using m by simp
      have "search_position xs v low high = search_position xs v (?m + 1) high"
        by (subst search_position.simps) (simp add: low True Let_def)
      then show ?thesis
        using * by simp
    next
      case False
      have "v < xs ! i" if "?m \<le> i" "i < length xs" for i
        using sorted_nth_mono [OF 1(3), of ?m i] that False by simp
      then have "\<forall>i. ?m \<le> i \<longrightarrow> i < length xs \<longrightarrow> v < xs ! i"
        by blast
      from 1(2) [OF low refl False 1(3) _ _ 1(6) this]
      have *: "search_position xs v low ?m \<le> length xs \<and>
        (\<forall>i < search_position xs v low ?m. xs ! i \<le> v) \<and>
        (\<forall>i. search_position xs v low ?m \<le> i \<longrightarrow> i < length xs \<longrightarrow> v < xs ! i)"
        using m 1(5) by simp
      have "search_position xs v low high = search_position xs v low ?m"
        by (subst search_position.simps) (simp add: low False Let_def)
      then show ?thesis
        using * by simp
    qed
  qed
qed

lemma insert_sorted:
  assumes "sorted xs"
  shows "sorted (insertSortedNumber xs v)" "set (insertSortedNumber xs v) = insert v (set xs)"
proof -
  let ?k = "search_position xs v 0 (length xs)"
  show "set (insertSortedNumber xs v) = insert v (set xs)"
    unfolding insertSortedNumber_def Let_def using append_take_drop_id [of ?k xs]
    by (metis Un_insert_right list.simps(15) set_append)
  have k: "?k \<le> length xs" "\<forall>i < ?k. xs ! i \<le> v" "\<forall>i. ?k \<le> i \<longrightarrow> i < length xs \<longrightarrow> v < xs ! i"
    using search_position_correct [OF assms, of 0 "length xs" v] by auto
  have "v \<le> x" if "x \<in> set (drop ?k xs)" for x
    using that k(3) by (auto simp: in_set_conv_nth less_imp_le)
  moreover have "x \<le> v" if "x \<in> set (take ?k xs)" for x
    using that k(1,2) by (auto simp: in_set_conv_nth)
  moreover have "sorted (take ?k xs @ drop ?k xs)"
    using assms by simp
  ultimately show "sorted (insertSortedNumber xs v)"
    unfolding insertSortedNumber_def Let_def by (fastforce simp: sorted_append)
qed

text \<open>
  The binary search of the occupied times inserts where a linear scan would: after all values that are not
  greater, before all others, so that the list stays sorted.
\<close>
theorem insert_is_linear_insert:
  assumes "sorted xs"
  shows "insertSortedNumber xs v = takeWhile (\<lambda>x. x \<le> v) xs @ v # dropWhile (\<lambda>x. x \<le> v) xs \<and>
    sorted (insertSortedNumber xs v)"
proof -
  let ?k = "search_position xs v 0 (length xs)"
  have k: "?k \<le> length xs" "\<forall>i < ?k. xs ! i \<le> v" "\<forall>i. ?k \<le> i \<longrightarrow> i < length xs \<longrightarrow> v < xs ! i"
    using search_position_correct [OF assms, of 0 "length xs" v] by auto
  have t: "takeWhile (\<lambda>x. x \<le> v) xs = take ?k xs"
    using k(2,3) by (intro takeWhile_eq_take_P_nth) auto
  then have "dropWhile (\<lambda>x. x \<le> v) xs = drop ?k xs"
    using k(1) by (simp add: dropWhile_eq_drop)
  then show ?thesis
    using insert_sorted(1) [OF assms] t by (simp add: insertSortedNumber_def Let_def)
qed

lemma advance_ge: "0 \<le> cl \<Longrightarrow> r \<le> advancePastChatSlotCollisions r ts cl"
  by (induction r ts cl rule: advancePastChatSlotCollisions.induct) force+

lemma advance_clear:
  assumes "0 \<le> cl" "sorted ts"
  shows "\<forall>t \<in> set ts. t + cl \<le> advancePastChatSlotCollisions r ts cl \<or> advancePastChatSlotCollisions r ts cl + cl \<le> t"
  using assms
proof (induction r ts cl rule: advancePastChatSlotCollisions.induct)
  case (1 r cl)
  then show ?case
    by simp
next
  case (2 r t ts cl)
  consider "t \<le> r - cl" | "\<not> t \<le> r - cl" "t \<ge> r + cl" | "\<not> t \<le> r - cl" "\<not> t \<ge> r + cl"
    by blast
  then show ?case
  proof cases
    case 1
    then show ?thesis
      using "2.IH"(1) "2.prems" advance_ge [of cl r ts] by auto
  next
    case b: 2
    then show ?thesis
      using "2.prems" by auto
  next
    case 3
    then show ?thesis
      using "2.IH"(2) "2.prems" advance_ge [of cl "t + cl" ts] by auto
  qed
qed

lemma advance_moved:
  "advancePastChatSlotCollisions r ts cl \<noteq> r \<Longrightarrow> 0 \<le> cl \<Longrightarrow>
     \<exists>t \<in> set ts. r - cl < t \<and> t + cl \<le> advancePastChatSlotCollisions r ts cl"
proof (induction r ts cl rule: advancePastChatSlotCollisions.induct)
  case (2 r t ts cl)
  show ?case
  proof (cases "t \<le> r - cl")
    case True
    then show ?thesis
      using 2 by auto
  next
    case False
    then show ?thesis
      using "2.prems" advance_ge [of cl "t + cl" ts] by (auto split: if_splits)
  qed
qed simp

section \<open>The next allowed time\<close>

text \<open>What luxon documents of any zone: the start of a minute is at most a minute back, the next day is ahead.\<close>

definition clock_ok :: "zone_clock \<Rightarrow> js_string \<Rightarrow> bool" where
  "clock_ok z tz \<longleftrightarrow>
     (\<forall>t. zc_startOfMinute z tz t \<le> t \<and> t < zc_startOfMinute z tz t + 60000 \<and> t < zc_startOfNextDay z tz t)"

definition DAY_MS :: int where "DAY_MS = 86400000"

text \<open>
  A zone whose clock is UTC and an offset that may change, as with daylight saving time: the offset stays the same for
  the minutes of some whole day within any eight days, and once the next local day has begun the date of this one does
  not come back.  (Before 2012 a few zones put clocks back just after midnight, which shows the old date again.)
\<close>

definition regular_clock :: "zone_clock \<Rightarrow> js_string \<Rightarrow> (int \<Rightarrow> int) \<Rightarrow> bool" where
  "regular_clock z tz offset \<longleftrightarrow> clock_ok z tz \<and>
     (\<forall>t. minute_of_day z tz t = (t + offset t) div 60000 mod 1440) \<and>
     (\<forall>t t'. zc_startOfNextDay z tz t \<le> t' \<longrightarrow> zc_isoDate z tz t' \<noteq> zc_isoDate z tz t) \<and>
     (\<forall>c. \<exists>i \<le> 7 * 1440. \<forall>k < 1440. offset (c + 60000 * int (i + k)) = offset (c + 60000 * int i))"

text \<open>A zone at a fixed distance of whole minutes from UTC; different days have different texts.\<close>

definition fixed_clock :: "zone_clock \<Rightarrow> js_string \<Rightarrow> int \<Rightarrow> (int \<Rightarrow> js_string) \<Rightarrow> bool" where
  "fixed_clock z tz off dayText \<longleftrightarrow> inj dayText \<and>
     (\<forall>t. minute_of_day z tz t = (t + off) div 60000 mod 1440 \<and>
          zc_startOfMinute z tz t = (t + off) div 60000 * 60000 - off \<and>
          zc_startOfNextDay z tz t = ((t + off) div DAY_MS + 1) * DAY_MS - off \<and>
          zc_isoDate z tz t = dayText ((t + off) div DAY_MS))"

lemma floor_bounds: "0 < d \<Longrightarrow> x div d * d \<le> x \<and> x < (x div d + 1) * d" for x d :: int
proof -
  assume "0 < d"
  from pos_mod_bound [OF this, of x] pos_mod_sign [OF this, of x] show ?thesis
    unfolding distrib_right mult_1_left using minus_mod_eq_div_mult [of x d] by linarith
qed

lemma fixed_clock_ok: "fixed_clock z tz off dayText \<Longrightarrow> clock_ok z tz"
  unfolding clock_ok_def
proof
  fix t
  assume f: "fixed_clock z tz off dayText"
  have "(t + off) div 60000 * 60000 \<le> t + off" "t + off < (t + off) div 60000 * 60000 + 60000"
    "t + off < ((t + off) div DAY_MS + 1) * DAY_MS"
    using floor_bounds [of 60000 "t + off"] floor_bounds [of DAY_MS "t + off"] by (simp_all add: DAY_MS_def)
  then show "zc_startOfMinute z tz t \<le> t \<and> t < zc_startOfMinute z tz t + 60000 \<and> t < zc_startOfNextDay z tz t"
    using f by (simp add: fixed_clock_def)
qed

lemma scan_allowed:
  "scan_minutes z tz w cursor n = Some r \<Longrightarrow> cursor \<le> r \<and> isMinuteAllowed (minute_of_day z tz r) w"
  by (induction z tz w cursor n rule: scan_minutes.induct) (auto split: if_splits)

lemma next_allowed_sound:
  assumes "clock_ok z tz" "next_allowed z tz w c = Some r"
  shows "c \<le> r" "isMinuteAllowed (minute_of_day z tz r) w"
proof -
  have "c \<le> r \<and> isMinuteAllowed (minute_of_day z tz r) w"
  proof (cases "isMinuteAllowed (minute_of_day z tz c) w")
    case True
    then show ?thesis
      using assms(2) by (simp add: next_allowed_def)
  next
    case False
    let ?s = "zc_startOfMinute z tz c"
    let ?t = "if ?s < c then ?s + 60000 else ?s"
    have "scan_minutes z tz w ?t (Suc ALLOWED_SLOT_LOOKAHEAD_MINUTES) = Some r"
      using assms(2) False by (simp add: next_allowed_def Let_def del: scan_minutes.simps split: if_splits)
    from scan_allowed [OF this] have "?t \<le> r" "isMinuteAllowed (minute_of_day z tz r) w"
      by blast+
    moreover have "c < ?s + 60000"
      using assms(1) by (simp add: clock_ok_def)
    ultimately show ?thesis
      by (auto split: if_splits)
  qed
  then show "c \<le> r" "isMinuteAllowed (minute_of_day z tz r) w"
    by blast+
qed

lemma regular_minutes_ahead:
  assumes f: "regular_clock z tz offset" and m: "0 \<le> m" "m < 1440"
  shows "\<exists>k < Suc ALLOWED_SLOT_LOOKAHEAD_MINUTES. minute_of_day z tz (cursor + 60000 * int k) = m"
proof -
  obtain i where i: "i \<le> 7 * 1440" "\<forall>k < 1440. offset (cursor + 60000 * int (i + k)) = offset (cursor + 60000 * int i)"
    using f unfolding regular_clock_def by blast
  define off where "off = offset (cursor + 60000 * int i)"
  let ?b = "(cursor + 60000 * int i + off) div 60000"
  define k where "k = nat ((m - ?b) mod 1440)"
  have k: "int k = (m - ?b) mod 1440" "k < 1440"
    by (auto simp: k_def)
  have off: "offset (cursor + 60000 * int (i + k)) = off"
    using i(2) k(2) off_def by simp
  have "(cursor + 60000 * int (i + k) + off) div 60000 = ?b + int k"
    by (simp add: algebra_simps)
  moreover have "(?b + int k) mod 1440 = m"
    using k(1) m by (simp add: mod_simps)
  ultimately have "minute_of_day z tz (cursor + 60000 * int (i + k)) = m"
    using f off unfolding regular_clock_def by simp
  then show ?thesis
    using i(1) k(2) by (intro exI [of _ "i + k"]) (simp add: ALLOWED_SLOT_LOOKAHEAD_MINUTES_def)
qed

text \<open>In a fixed zone the scan finds the first allowed minute among those it visits.\<close>

lemma scan_first:
  "(\<exists>k < n. isMinuteAllowed (minute_of_day z tz (cursor + 60000 * int k)) w) \<Longrightarrow>
   \<exists>k < n. scan_minutes z tz w cursor n = Some (cursor + 60000 * int k) \<and>
     (\<forall>j < k. \<not> isMinuteAllowed (minute_of_day z tz (cursor + 60000 * int j)) w)"
proof (induction z tz w cursor n rule: scan_minutes.induct)
  case (2 z tz w cursor n)
  show ?case
  proof (cases "isMinuteAllowed (minute_of_day z tz cursor) w")
    case True
    then show ?thesis
      by (intro exI [of _ 0]) simp
  next
    case False
    obtain k where k: "k < Suc n" "isMinuteAllowed (minute_of_day z tz (cursor + 60000 * int k)) w"
      using 2(2) by blast
    then obtain j where j: "k = Suc j"
      using False by (cases k) auto
    then have "\<exists>k < n. isMinuteAllowed (minute_of_day z tz (cursor + 60000 + 60000 * int k)) w"
      using k by (intro exI [of _ j]) (simp add: algebra_simps)
    from 2(1) [OF False this] obtain i where i: "i < n" "scan_minutes z tz w (cursor + 60000) n = Some (cursor + 60000 + 60000 * int i)"
      "\<forall>j < i. \<not> isMinuteAllowed (minute_of_day z tz (cursor + 60000 + 60000 * int j)) w"
      by blast
    have "\<not> isMinuteAllowed (minute_of_day z tz (cursor + 60000 * int j)) w" if "j < Suc i" for j
      using that False i(3) by (cases j) (auto simp: algebra_simps)
    then show ?thesis
      using i(1,2) False by (intro exI [of _ "Suc i"]) (auto simp: algebra_simps)
  qed
qed simp

lemma has_minute: "hasAnyAllowedMinute w \<longleftrightarrow> (\<exists>m. 0 \<le> m \<and> m < 1440 \<and> isMinuteAllowed m w)"
  by (auto simp: hasAnyAllowedMinute_def list_ex_iff)

lemma minutes_ahead:
  assumes f: "fixed_clock z tz off dayText" and m: "0 \<le> m" "m < 1440"
  shows "\<exists>k < 1440. minute_of_day z tz (cursor + 60000 * int k) = m"
proof -
  let ?b = "(cursor + off) div 60000"
  define k where "k = nat ((m - ?b) mod 1440)"
  have k: "int k = (m - ?b) mod 1440" "k < 1440"
    by (auto simp: k_def)
  have "(cursor + 60000 * int k + off) div 60000 = ?b + int k"
    by (simp add: algebra_simps)
  moreover have "(?b + int k) mod 1440 = m"
    using k(1) m by (simp add: mod_simps)
  ultimately show ?thesis
    using k(2) f unfolding fixed_clock_def by (intro exI [of _ k]) simp
qed

text \<open>In a regular zone the look-ahead is enough.\<close>

lemma next_found:
  assumes "regular_clock z tz offset" "hasAnyAllowedMinute w"
  shows "\<exists>r. next_allowed z tz w candidate = Some r"
proof (cases "isMinuteAllowed (minute_of_day z tz candidate) w")
  case False
  define start where "start = zc_startOfMinute z tz candidate"
  define cursor where "cursor = (if start < candidate then start + 60000 else start)"
  obtain m where m: "0 \<le> m" "m < 1440" "isMinuteAllowed m w"
    using assms(2) has_minute by blast
  have "\<exists>k < Suc ALLOWED_SLOT_LOOKAHEAD_MINUTES. isMinuteAllowed (minute_of_day z tz (cursor + 60000 * int k)) w"
    using regular_minutes_ahead [OF assms(1) m(1,2), of cursor] m(3) by metis
  from scan_first [OF this] obtain r where "scan_minutes z tz w cursor (Suc ALLOWED_SLOT_LOOKAHEAD_MINUTES) = Some r"
    by blast
  moreover have "next_allowed z tz w candidate = scan_minutes z tz w cursor (Suc ALLOWED_SLOT_LOOKAHEAD_MINUTES)"
    using False assms(2) unfolding next_allowed_def Let_def cursor_def start_def by (simp only: if_False not_not simp_thms)
  ultimately show ?thesis
    by metis
qed (simp add: next_allowed_def)

lemma next_first:
  assumes "fixed_clock z tz off dayText"
  shows "case next_allowed z tz w candidate of
      None \<Rightarrow> \<not> hasAnyAllowedMinute w \<and> (\<forall>t. \<not> isMinuteAllowed (minute_of_day z tz t) w)
    | Some r \<Rightarrow> candidate \<le> r \<and> isMinuteAllowed (minute_of_day z tz r) w \<and>
        (\<forall>t. candidate \<le> t \<and> t < r \<longrightarrow> \<not> isMinuteAllowed (minute_of_day z tz t) w)"
proof -
  have range: "0 \<le> minute_of_day z tz t \<and> minute_of_day z tz t < 1440" for t
    using assms by (simp add: fixed_clock_def)
  show ?thesis
  proof (cases "isMinuteAllowed (minute_of_day z tz candidate) w")
    case True
    then show ?thesis
      by (auto simp: next_allowed_def)
  next
    case no: False
    show ?thesis
    proof (cases "hasAnyAllowedMinute w")
      case False
      then show ?thesis
        using no range by (auto simp: next_allowed_def has_minute)
    next
      case True
      define start where "start = zc_startOfMinute z tz candidate"
      define cursor where "cursor = (if start < candidate then start + 60000 else start)"
      obtain m where m: "0 \<le> m" "m < 1440" "isMinuteAllowed m w"
        using True has_minute by blast
      obtain k where "k < 1440" "minute_of_day z tz (cursor + 60000 * int k) = m"
        using minutes_ahead [OF assms m(1,2)] by blast
      then have "\<exists>k < Suc ALLOWED_SLOT_LOOKAHEAD_MINUTES. isMinuteAllowed (minute_of_day z tz (cursor + 60000 * int k)) w"
        using m(3) by (intro exI [of _ k]) (simp add: ALLOWED_SLOT_LOOKAHEAD_MINUTES_def)
      from scan_first [OF this] obtain j
        where j: "scan_minutes z tz w cursor (Suc ALLOWED_SLOT_LOOKAHEAD_MINUTES) = Some (cursor + 60000 * int j)"
          "\<forall>i < j. \<not> isMinuteAllowed (minute_of_day z tz (cursor + 60000 * int i)) w"
        by blast
      have r: "next_allowed z tz w candidate = Some (cursor + 60000 * int j)"
        using no True j(1) [unfolded cursor_def start_def]
        by (simp add: next_allowed_def Let_def cursor_def start_def del: scan_minutes.simps)
      have start: "start = (candidate + off) div 60000 * 60000 - off"
        using assms by (simp add: start_def fixed_clock_def)
      have same: "minute_of_day z tz t = minute_of_day z tz u" if "(t + off) div 60000 = (u + off) div 60000" for t u
        using assms that by (simp add: fixed_clock_def)
      have between: "\<not> isMinuteAllowed (minute_of_day z tz t) w" if t: "candidate \<le> t" "t < cursor + 60000 * int j" for t
      proof (cases "t < cursor")
        case True
        have "start \<le> candidate"
          using fixed_clock_ok [OF assms] by (simp add: clock_ok_def start_def)
        then have "t < start + 60000"
          using True t(1) by (auto simp: cursor_def split: if_splits)
        then have "(t + off) div 60000 = (candidate + off) div 60000"
          using t(1) unfolding start by linarith
        then show ?thesis
          using no same by metis
      next
        case False
        define i where "i = nat ((t - cursor) div 60000)"
        have i: "int i = (t - cursor) div 60000"
          using False by (simp add: i_def)
        then have "i < j"
          using t(2) by linarith
        define b where "b = (candidate + off) div 60000 + (if start < candidate then 1 else 0)"
        have b: "cursor = b * 60000 - off"
          using start by (simp add: cursor_def b_def)
        have "(t + off) div 60000 = (cursor + 60000 * int i + off) div 60000"
        proof -
          have "(t - cursor) div 60000 = (t + off) div 60000 - b"
            unfolding b by linarith
          moreover have "(cursor + 60000 * int i + off) div 60000 = b + int i"
            unfolding b by linarith
          ultimately show ?thesis
            using i by simp
        qed
        then show ?thesis
          using j(2) \<open>i < j\<close> same by metis
      qed
      show ?thesis
        using r between next_allowed_sound [OF fixed_clock_ok [OF assms] r] by simp
    qed
  qed
qed

text \<open>
  In a zone of fixed offset the next allowed time is the first one.  It is not before the candidate, it is
  allowed, and no instant between is; the search gives up only if the windows allow no minute of the day at all.  So
  the look-ahead of eight days is enough.
\<close>
theorem next_allowed_is_first:
  assumes "fixed_clock z tz off dayText"
  shows "case next_allowed z tz w candidate of
      None \<Rightarrow> \<not> hasAnyAllowedMinute w \<and> (\<forall>t. \<not> isMinuteAllowed (minute_of_day z tz t) w)
    | Some r \<Rightarrow> candidate \<le> r \<and> isMinuteAllowed (minute_of_day z tz r) w \<and>
        (\<forall>t. candidate \<le> t \<and> t < r \<longrightarrow> \<not> isMinuteAllowed (minute_of_day z tz t) w)"
  using assms by (rule next_first)

section \<open>Plans keep the rules\<close>

abbreviation apart :: "int \<Rightarrow> int \<Rightarrow> int \<Rightarrow> bool" where
  "apart d a b \<equiv> a + d \<le> b \<or> b + d \<le> a"

definition slots_on :: "zone_clock \<Rightarrow> js_string \<Rightarrow> js_string \<Rightarrow> int list \<Rightarrow> int" where
  "slots_on z tz day ts = int (length (filter (\<lambda>t. zc_isoDate z tz t = day) ts))"

lemma find_slot_sound:
  assumes "clock_ok z tz" "qu_timezone q = tz" "0 \<le> cl" "sorted occ"
  shows "find_slot z w tz q occ cl c n = Some r \<Longrightarrow>
    c \<le> r \<and> isMinuteAllowed (minute_of_day z tz r) w \<and> usage_of (qu_usage q) (zc_isoDate z tz r) < qu_dailyLimit q \<and>
    (\<forall>t \<in> set occ. apart cl r t)"
proof (induction n arbitrary: c)
  case (Suc n)
  obtain a where a: "next_allowed z tz w c = Some a"
    using Suc.prems by (cases "next_allowed z tz w c") auto
  note na = next_allowed_sound [OF assms(1) a]
  let ?full = "usage_of (qu_usage q) (zc_isoDate z tz a) \<ge> qu_dailyLimit q"
  let ?free = "advancePastChatSlotCollisions a occ cl"
  consider (full) "?full" | (moved) "\<not> ?full" "?free \<noteq> a" | (found) "\<not> ?full" "?free = a"
    by blast
  then show ?case
  proof cases
    case full
    then have "find_slot z w tz q occ cl (zc_startOfNextDay z tz a) n = Some r"
      using Suc.prems a assms(2) by simp
    moreover have "a < zc_startOfNextDay z tz a"
      using assms(1) by (simp add: clock_ok_def)
    ultimately show ?thesis
      using Suc.IH na(1) by fastforce
  next
    case moved
    then have "find_slot z w tz q occ cl ?free n = Some r"
      using Suc.prems a assms(2) by (simp add: Let_def)
    then show ?thesis
      using Suc.IH na(1) advance_ge [OF assms(3), of a occ] by fastforce
  next
    case found
    then have "r = a"
      using Suc.prems a assms(2) by simp
    then show ?thesis
      using na found advance_clear [OF assms(3,4), of a] assms(2) by auto
  qed
qed simp

lemma usage_of_increment: "usage_of (incrementQuotaUsage d u) d' = usage_of u d' + (if d' = d then 1 else 0)"
  by (simp add: incrementQuotaUsage_def usage_of_def)

lemma plan_slots_rules:
  assumes "clock_ok z (scheduler_zone z s)" "0 \<le> spacing" "0 \<le> clearance"
  shows "plan_slots z s src spacing clearance limit n earliest occ usage = Inr slots \<Longrightarrow> sorted occ \<Longrightarrow>
    length slots = n \<and>
    (\<forall>t \<in> set slots. earliest \<le> t \<and>
       isMinuteAllowed (minute_of_day z (scheduler_zone z s) t) (parseScheduleWindows s src) \<and> (\<forall>t' \<in> set occ. apart clearance t t')) \<and>
    sorted_wrt (\<lambda>a b. a + spacing \<le> b \<and> (vs_roundRobinEnabled s \<longrightarrow> apart clearance a b)) slots \<and>
    (\<forall>day. usage_of usage day + slots_on z (scheduler_zone z s) day slots \<le> max limit (usage_of usage day))"
proof (induction n arbitrary: earliest occ usage slots)
  case 0
  then show ?case
    by (auto simp: slots_on_def)
next
  case (Suc n)
  let ?tz = "scheduler_zone z s"
  let ?q = "\<lparr>qu_dailyLimit = limit, qu_timezone = ?tz, qu_usage = usage\<rparr>"
  obtain t where t: "resolveCollisionFreeAllowedSlot z earliest occ clearance s src ?q = Some t"
    using Suc.prems(1) by (auto simp: Let_def split: option.splits)
  let ?occ = "if vs_roundRobinEnabled s then insertSortedNumber occ t else occ"
  obtain rest where rest: "plan_slots z s src spacing clearance limit n (t + spacing) ?occ (incrementQuotaUsage (zc_isoDate z ?tz t) usage) = Inr rest"
    and slots: "slots = t # rest"
    using Suc.prems(1) t by (auto simp: Let_def split: sum.splits)
  from find_slot_sound [OF assms(1) _ assms(3) Suc.prems(2) t [unfolded resolveCollisionFreeAllowedSlot_def]]
  have ft: "earliest \<le> t" "isMinuteAllowed (minute_of_day z ?tz t) (parseScheduleWindows s src)"
    "usage_of usage (zc_isoDate z ?tz t) < limit" "\<forall>t' \<in> set occ. apart clearance t t'"
    by simp_all
  have occ: "sorted ?occ" "set occ \<subseteq> set ?occ" "vs_roundRobinEnabled s \<Longrightarrow> t \<in> set ?occ"
    using insert_sorted [OF Suc.prems(2), of t] Suc.prems(2) by auto
  note ih = Suc.IH [OF rest occ(1)]
  have "usage_of usage day + slots_on z ?tz day slots \<le> max limit (usage_of usage day)" for day
  proof -
    have "usage_of usage day + (if day = zc_isoDate z ?tz t then 1 else 0) + slots_on z ?tz day rest
        \<le> max limit (usage_of usage day + (if day = zc_isoDate z ?tz t then 1 else 0))"
      using ih unfolding usage_of_increment by blast
    then show ?thesis
      using ft(3) by (auto simp: slots slots_on_def split: if_splits)
  qed
  moreover have "\<forall>b \<in> set rest. t + spacing \<le> b \<and> (vs_roundRobinEnabled s \<longrightarrow> apart clearance t b)"
    using ih occ(3) by blast
  moreover have "\<forall>b \<in> set rest. earliest \<le> b \<and> (\<forall>t' \<in> set occ. apart clearance b t')"
    using ih occ(2) ft(1) assms(2) by fastforce
  ultimately show ?case
    using ih ft slots by simp
qed

lemma read_nonneg: "readNonNegative f v = Inr n \<Longrightarrow> 0 \<le> n"
  by (auto simp: readNonNegative_def split: option.splits if_splits)

lemma read_spacing_nonneg: "read_spacing p = Inr n \<Longrightarrow> 0 \<le> n"
  by (auto simp: read_spacing_def resolveVkAutoPublishSourceSpacingMs_def VK_AUTOPUBLISH_MIN_SOURCE_SPACING_MS_def
      dest: read_nonneg split: option.splits)

lemma read_clearance_nonneg: "readClearance v = Inr n \<Longrightarrow> 0 \<le> n"
  by (auto simp: readClearance_def VK_AUTOPUBLISH_CHAT_SLOT_CLEARANCE_MS_def dest: read_nonneg split: option.splits)

lemma readDates_Inr: "readDates f ds = Inr ts \<longleftrightarrow> ds = map Some ts"
  by (induction f ds arbitrary: ts rule: readDates.induct) (auto split: sum.splits, blast)

lemma plan_parts:
  assumes "planVkAutoPublishSourceSlots z (Some count) p chat quotas clearanceOption = Inr slots" "0 < count"
  obtains now lastSource spacing clearance usage occupied where "po_now p = Some now" "read_last p = Inr lastSource"
    "read_spacing p = Inr spacing" "readClearance clearanceOption = Inr clearance"
    "buildQuotaUsage z now (scheduler_zone z (po_settings p)) (po_currentLocalDayPublishedCount p)
       (po_currentLocalDayPublishedAt p) quotas = Inr usage"
    "(if vs_roundRobinEnabled (po_settings p) then readDates ''existingChatSlots'' chat else Inr []) = Inr occupied"
    "plan_slots z (po_settings p) (po_source p) spacing clearance
       (readPositiveInteger (so_dailyLimit (po_source p)) DEFAULT_DAILY_LIMIT) (nat count)
       (case lastSource of None \<Rightarrow> now | Some l \<Rightarrow> max now (l + spacing)) (sort occupied) usage = Inr slots"
  using assms unfolding planVkAutoPublishSourceSlots_def Let_def
  by (auto split: option.splits sum.splits simp del: plan_slots.simps)

text \<open>
  C20: A plan keeps the rules.  It has the slots asked for; every slot is not before now, nor before the last
  publication and the spacing, and lies at an allowed minute; slots follow each other at the spacing; only where round
  robin is switched on do they also stand clear of each other and of every slot of the chat (with it off the code
  ignores the slots of the chat); and no local day gets more slots than its limit leaves after what was published or
  planned on it.  The clock is only asked to put the start of a minute at most a minute back and the next day ahead.
\<close>
theorem plan_keeps_the_rules:
  assumes "planVkAutoPublishSourceSlots z (Some count) p chat quotas clearanceOption = Inr slots" "0 < count"
    "clock_ok z (scheduler_zone z (po_settings p))"
  shows "\<exists>now spacing clearance usage. po_now p = Some now \<and> read_spacing p = Inr spacing \<and>
    readClearance clearanceOption = Inr clearance \<and>
    buildQuotaUsage z now (scheduler_zone z (po_settings p)) (po_currentLocalDayPublishedCount p)
      (po_currentLocalDayPublishedAt p) quotas = Inr usage \<and>
    int (length slots) = count \<and>
    (\<forall>t \<in> set slots. now \<le> t \<and> (\<forall>l. read_last p = Inr (Some l) \<longrightarrow> l + spacing \<le> t) \<and>
       isMinuteAllowed (minute_of_day z (scheduler_zone z (po_settings p)) t) (parseScheduleWindows (po_settings p) (po_source p)) \<and>
       (vs_roundRobinEnabled (po_settings p) \<longrightarrow> (\<forall>t'. Some t' \<in> set chat \<longrightarrow> apart clearance t t'))) \<and>
    sorted_wrt (\<lambda>a b. a + spacing \<le> b \<and> (vs_roundRobinEnabled (po_settings p) \<longrightarrow> apart clearance a b)) slots \<and>
    (\<forall>day. usage_of usage day + slots_on z (scheduler_zone z (po_settings p)) day slots \<le>
       max (readPositiveInteger (so_dailyLimit (po_source p)) DEFAULT_DAILY_LIMIT) (usage_of usage day))"
proof -
  obtain now lastSource spacing clearance usage occupied where p: "po_now p = Some now" "read_last p = Inr lastSource"
    "read_spacing p = Inr spacing" "readClearance clearanceOption = Inr clearance"
    "buildQuotaUsage z now (scheduler_zone z (po_settings p)) (po_currentLocalDayPublishedCount p)
       (po_currentLocalDayPublishedAt p) quotas = Inr usage"
    "(if vs_roundRobinEnabled (po_settings p) then readDates ''existingChatSlots'' chat else Inr []) = Inr occupied"
    "plan_slots z (po_settings p) (po_source p) spacing clearance
       (readPositiveInteger (so_dailyLimit (po_source p)) DEFAULT_DAILY_LIMIT) (nat count)
       (case lastSource of None \<Rightarrow> now | Some l \<Rightarrow> max now (l + spacing)) (sort occupied) usage = Inr slots"
    by (rule plan_parts [OF assms(1,2)])
  note rules = plan_slots_rules [OF assms(3) read_spacing_nonneg [OF p(3)] read_clearance_nonneg [OF p(4)] p(7) sorted_sort]
  have "Some t' \<in> set chat \<Longrightarrow> t' \<in> set (sort occupied)" if "vs_roundRobinEnabled (po_settings p)" for t'
    using p(6) that by (auto simp: readDates_Inr)
  moreover have "int (length slots) = count"
    using rules assms(2) by simp
  moreover have "now \<le> t \<and> (\<forall>l. lastSource = Some l \<longrightarrow> l + spacing \<le> t)" if "t \<in> set slots" for t
    using rules that by (auto split: option.splits)
  ultimately show ?thesis
    using p(1-5) rules by auto
qed

section \<open>Every attempt counts\<close>

lemma filter_shorter:
  "(\<And>x. P x \<Longrightarrow> Q x) \<Longrightarrow> length (filter P xs) \<le> length (filter Q xs)"
  "(\<And>x. P x \<Longrightarrow> Q x) \<Longrightarrow> y \<in> set xs \<Longrightarrow> Q y \<Longrightarrow> \<not> P y \<Longrightarrow> length (filter P xs) < length (filter Q xs)"
proof -
  show le: "length (filter P xs) \<le> length (filter Q xs)" if "\<And>x. P x \<Longrightarrow> Q x" for xs
    using that by (induction xs) (auto intro: le_SucI)
  show "length (filter P xs) < length (filter Q xs)" if sub: "\<And>x. P x \<Longrightarrow> Q x" and y: "y \<in> set xs" "Q y" "\<not> P y"
  proof -
    obtain ys zs where "xs = ys @ y # zs"
      using split_list [OF y(1)] by blast
    then show ?thesis
      using le [OF sub, of ys] le [OF sub, of zs] y(2,3) by simp
  qed
qed

text \<open>The days in the usage that are not past, and the occupied times that are not behind.\<close>

definition days_left :: "zone_clock \<Rightarrow> js_string \<Rightarrow> quota_usage \<Rightarrow> int \<Rightarrow> js_string set" where
  "days_left z tz u c = {k \<in> fst ` set u. \<exists>t \<ge> c. zc_isoDate z tz t = k}"

definition work_left :: "zone_clock \<Rightarrow> js_string \<Rightarrow> quota_usage \<Rightarrow> int list \<Rightarrow> int \<Rightarrow> int \<Rightarrow> nat" where
  "work_left z tz u occ cl c = card (days_left z tz u c) + length (filter (\<lambda>t. c - cl < t) occ)"

lemma days_left_finite [simp]: "finite (days_left z tz u c)"
  by (simp add: days_left_def)

lemma days_left_mono: "c \<le> c' \<Longrightarrow> days_left z tz u c' \<subseteq> days_left z tz u c"
  unfolding days_left_def by (auto intro: order_trans)

lemma work_left_mono: "c \<le> c' \<Longrightarrow> work_left z tz u occ cl c' \<le> work_left z tz u occ cl c"
  unfolding work_left_def by (intro add_mono card_mono days_left_mono filter_shorter(1)) auto

lemma work_left_bound: "work_left z tz u occ cl c \<le> length occ + length u"
proof -
  have "card (days_left z tz u c) \<le> card (fst ` set u)"
    by (intro card_mono) (auto simp: days_left_def)
  also have "\<dots> \<le> length u"
    by (metis card_length length_map set_map)
  finally show ?thesis
    using length_filter_le [of "\<lambda>t. c - cl < t" occ] unfolding work_left_def by linarith
qed

text \<open>Leaving a day whose limit is used up leaves it for good.\<close>

lemma day_left_behind:
  assumes f: "regular_clock z tz offset" and used: "zc_isoDate z tz a \<in> fst ` set u"
  shows "work_left z tz u occ cl (zc_startOfNextDay z tz a) < work_left z tz u occ cl a"
proof -
  have later: "a \<le> zc_startOfNextDay z tz a"
    using f by (simp add: regular_clock_def clock_ok_def less_imp_le)
  have "zc_isoDate z tz a \<in> days_left z tz u a"
    using used unfolding days_left_def by blast
  moreover have "zc_isoDate z tz a \<notin> days_left z tz u (zc_startOfNextDay z tz a)"
    using f unfolding days_left_def regular_clock_def by blast
  ultimately have "card (days_left z tz u (zc_startOfNextDay z tz a)) < card (days_left z tz u a)"
    using days_left_mono [OF later, of z tz u] by (intro psubset_card_mono) auto
  moreover have "length (filter (\<lambda>t. zc_startOfNextDay z tz a - cl < t) occ) \<le> length (filter (\<lambda>t. a - cl < t) occ)"
    using later by (intro filter_shorter(1)) auto
  ultimately show ?thesis
    unfolding work_left_def by linarith
qed

lemma find_slot_answers:
  assumes f: "regular_clock z tz offset" and q: "qu_timezone q = tz" "0 < qu_dailyLimit q" and w: "hasAnyAllowedMinute w"
    and cl: "0 \<le> cl"
  shows "work_left z tz (qu_usage q) occ cl c < n \<Longrightarrow> find_slot z w tz q occ cl c n \<noteq> None"
proof (induction n arbitrary: c)
  case (Suc n)
  let ?M = "work_left z tz (qu_usage q) occ cl"
  obtain a where a: "next_allowed z tz w c = Some a"
    using next_found [OF f w] by blast
  have "clock_ok z tz"
    using f by (simp add: regular_clock_def)
  from next_allowed_sound(1) [OF this a] have ma: "?M a \<le> ?M c"
    by (rule work_left_mono)
  let ?full = "usage_of (qu_usage q) (zc_isoDate z tz a) \<ge> qu_dailyLimit q"
  let ?free = "advancePastChatSlotCollisions a occ cl"
  consider (full) "?full" | (moved) "\<not> ?full" "?free \<noteq> a" | (found) "\<not> ?full" "?free = a"
    by blast
  then show ?case
  proof cases
    case full
    have "zc_isoDate z tz a \<in> fst ` set (qu_usage q)"
      using full q(2) unfolding usage_of_def by (force split: option.splits dest: map_of_SomeD)
    from day_left_behind [OF f this] have "?M (zc_startOfNextDay z tz a) < ?M a" .
    then show ?thesis
      using Suc a full q(1) ma by simp
  next
    case moved
    obtain t where t: "t \<in> set occ" "a - cl < t" "t + cl \<le> ?free"
      using advance_moved [OF moved(2) cl] by blast
    have "length (filter (\<lambda>t. ?free - cl < t) occ) < length (filter (\<lambda>t. a - cl < t) occ)"
      using t advance_ge [OF cl, of a occ] by (intro filter_shorter(2) [of _ _ t]) auto
    moreover have "card (days_left z tz (qu_usage q) ?free) \<le> card (days_left z tz (qu_usage q) a)"
      using advance_ge [OF cl, of a occ] by (intro card_mono days_left_mono) auto
    ultimately have "?M ?free < ?M a"
      unfolding work_left_def by linarith
    then show ?thesis
      using Suc a moved q(1) ma by (simp add: Let_def)
  next
    case found
    then show ?thesis
      using a q(1) by simp
  qed
qed simp

lemma resolve_answers:
  assumes "regular_clock z (scheduler_zone z s) offset" "0 < limit" "hasAnyAllowedMinute (parseScheduleWindows s src)" "0 \<le> cl"
  shows "resolveCollisionFreeAllowedSlot z e occ cl s src
    \<lparr>qu_dailyLimit = limit, qu_timezone = scheduler_zone z s, qu_usage = u\<rparr> \<noteq> None"
  unfolding resolveCollisionFreeAllowedSlot_def
  by (rule find_slot_answers [OF assms(1) _ _ assms(3,4)]) (use assms(2) work_left_bound [of z "scheduler_zone z s" u occ cl e] in auto)

lemma plan_slots_answers:
  assumes "regular_clock z (scheduler_zone z s) offset" "0 < limit" "hasAnyAllowedMinute (parseScheduleWindows s src)"
    "0 \<le> clearance"
  shows "\<exists>slots. plan_slots z s src spacing clearance limit n e occ u = Inr slots"
proof (induction n arbitrary: e occ u)
  case (Suc n)
  obtain t where t: "resolveCollisionFreeAllowedSlot z e occ clearance s src
      \<lparr>qu_dailyLimit = limit, qu_timezone = scheduler_zone z s, qu_usage = u\<rparr> = Some t"
    using resolve_answers [OF assms, of e occ u] by auto
  obtain rest where "plan_slots z s src spacing clearance limit n (t + spacing)
      (if vs_roundRobinEnabled s then insertSortedNumber occ t else occ)
      (incrementQuotaUsage (zc_isoDate z (scheduler_zone z s) t) u) = Inr rest"
    using Suc.IH by blast
  then show ?case
    using t by (simp add: Let_def)
qed simp

lemma project_slots_answers:
  assumes "regular_clock z (scheduler_zone z s) offset" "0 < limit" "hasAnyAllowedMinute (parseScheduleWindows s src)"
  shows "\<exists>slots. project_slots z s src now spacing limit prev u ts = Inr slots"
proof (induction ts arbitrary: prev u)
  case (Cons x ts)
  obtain t where t: "resolveCollisionFreeAllowedSlot z (max now (case prev of None \<Rightarrow> x | Some p \<Rightarrow> max x (p + spacing))) [] 0 s src
      \<lparr>qu_dailyLimit = limit, qu_timezone = scheduler_zone z s, qu_usage = u\<rparr> = Some t"
    using resolve_answers [OF assms order_refl] by blast
  obtain rest where "project_slots z s src now spacing limit (Some t)
      (incrementQuotaUsage (zc_isoDate z (scheduler_zone z s) t) u) ts = Inr rest"
    using Cons.IH by blast
  then show ?case
    using t by (simp add: Let_def)
qed simp

lemma daily_limit_pos: "0 < readPositiveInteger v DEFAULT_DAILY_LIMIT"
  by (simp add: readPositiveInteger_def DEFAULT_DAILY_LIMIT_def split: option.splits)

lemma reading_errors [simp]:
  "readNonNegative f v \<noteq> Inl No_Slot" "readNonNegative f v \<noteq> Inl No_Quota_Slot"
  "readDates f ds \<noteq> Inl No_Slot" "readDates f ds \<noteq> Inl No_Quota_Slot"
  by (auto simp: readNonNegative_def split: option.splits if_splits)
    (induction f ds rule: readDates.induct, auto split: sum.splits)+

lemma option_errors [simp]:
  "read_last p \<noteq> Inl No_Slot" "read_last p \<noteq> Inl No_Quota_Slot"
  "read_spacing p \<noteq> Inl No_Slot" "read_spacing p \<noteq> Inl No_Quota_Slot"
  "readClearance co \<noteq> Inl No_Slot"
  "buildQuotaUsage z now tz a b c \<noteq> Inl No_Slot" "buildQuotaUsage z now tz a b c \<noteq> Inl No_Quota_Slot"
  by (auto simp: read_last_def read_spacing_def readClearance_def buildQuotaUsage_def split: option.splits sum.splits if_splits)

text \<open>
  C35: The bounded search for a slot is never the reason a plan fails.  In any zone with a regular clock (its offset may
  change, as with daylight saving time, but is the same for the minutes of one whole day within any eight, and a local
  date does not come back once the next has begun), planning slots or projecting given ones complains of a missing slot
  only if the windows of the settings and the source allow no minute of a day.  So the number of attempts, the occupied
  times and the days in use and a few more, is enough, and so is the look-ahead of eight days.
\<close>
theorem slot_missing_only_if_none_allowed:
  assumes "regular_clock z (scheduler_zone z (po_settings p)) offset"
    "planVkAutoPublishSourceSlots z wanted p chat quotas clearanceOption = Inl No_Slot \<or>
     projectVkAutoPublishSourceQuotaSlots z p given = Inl No_Quota_Slot"
  shows "\<not> hasAnyAllowedMinute (parseScheduleWindows (po_settings p) (po_source p))"
proof
  assume w: "hasAnyAllowedMinute (parseScheduleWindows (po_settings p) (po_source p))"
  have plan: "plan_slots z (po_settings p) (po_source p) sp cl (readPositiveInteger v DEFAULT_DAILY_LIMIT) n e occ u \<noteq> Inl No_Slot"
    if "readClearance co = Inr cl" for sp cl v n e occ u co
    using plan_slots_answers [OF assms(1) daily_limit_pos w read_clearance_nonneg [OF that], of sp v n e occ u] by auto
  have project: "project_slots z (po_settings p) (po_source p) now sp (readPositiveInteger v DEFAULT_DAILY_LIMIT) prev u ts \<noteq>
      Inl No_Quota_Slot" for now sp v prev u ts
    using project_slots_answers [OF assms(1) daily_limit_pos w, of now sp v prev u ts] by auto
  have "planVkAutoPublishSourceSlots z wanted p chat quotas clearanceOption \<noteq> Inl No_Slot"
    unfolding planVkAutoPublishSourceSlots_def Let_def
    by (auto split: option.splits sum.splits if_splits simp del: plan_slots.simps dest: plan)
  moreover have "projectVkAutoPublishSourceQuotaSlots z p given \<noteq> Inl No_Quota_Slot"
    unfolding projectVkAutoPublishSourceQuotaSlots_def Let_def
    by (auto split: option.splits sum.splits if_splits simp del: project_slots.simps simp: project)
  ultimately show False
    using assms(2) by blast
qed

section \<open>Projections\<close>

lemma project_slots_rules:
  assumes "clock_ok z (scheduler_zone z s)" "0 \<le> spacing"
  shows "project_slots z s src now spacing limit previous usage ts = Inr slots \<Longrightarrow>
    list_all2 (\<le>) ts slots \<and>
    (\<forall>t \<in> set slots. now \<le> t \<and> (\<forall>p. previous = Some p \<longrightarrow> p + spacing \<le> t) \<and>
       isMinuteAllowed (minute_of_day z (scheduler_zone z s) t) (parseScheduleWindows s src)) \<and>
    sorted_wrt (\<lambda>a b. a + spacing \<le> b) slots \<and>
    (\<forall>day. usage_of usage day + slots_on z (scheduler_zone z s) day slots \<le> max limit (usage_of usage day))"
proof (induction ts arbitrary: previous usage slots)
  case Nil
  then show ?case
    by (auto simp: slots_on_def)
next
  case (Cons x ts)
  let ?tz = "scheduler_zone z s"
  let ?q = "\<lparr>qu_dailyLimit = limit, qu_timezone = ?tz, qu_usage = usage\<rparr>"
  let ?e = "max now (case previous of None \<Rightarrow> x | Some p \<Rightarrow> max x (p + spacing))"
  obtain t where t: "resolveCollisionFreeAllowedSlot z ?e [] 0 s src ?q = Some t"
    using Cons.prems(1) by (auto simp: Let_def split: option.splits)
  obtain rest where rest: "project_slots z s src now spacing limit (Some t) (incrementQuotaUsage (zc_isoDate z ?tz t) usage) ts = Inr rest"
    and slots: "slots = t # rest"
    using Cons.prems(1) t by (auto simp: Let_def split: sum.splits)
  from find_slot_sound [OF assms(1) _ order_refl _ t [unfolded resolveCollisionFreeAllowedSlot_def]]
  have ft: "?e \<le> t" "isMinuteAllowed (minute_of_day z ?tz t) (parseScheduleWindows s src)"
    "usage_of usage (zc_isoDate z ?tz t) < limit"
    by simp_all
  note ih = Cons.IH [OF rest]
  have "usage_of usage day + slots_on z ?tz day slots \<le> max limit (usage_of usage day)" for day
  proof -
    have "usage_of usage day + (if day = zc_isoDate z ?tz t then 1 else 0) + slots_on z ?tz day rest
        \<le> max limit (usage_of usage day + (if day = zc_isoDate z ?tz t then 1 else 0))"
      using ih unfolding usage_of_increment by blast
    then show ?thesis
      using ft(3) by (auto simp: slots slots_on_def split: if_splits)
  qed
  moreover have "x \<le> t" "now \<le> t" "\<forall>p. previous = Some p \<longrightarrow> p + spacing \<le> t"
    using ft(1) by (auto split: option.splits)
  moreover have "\<forall>b \<in> set rest. t + spacing \<le> b"
    using ih by blast
  moreover have "\<forall>b \<in> set rest. \<forall>p. previous = Some p \<longrightarrow> p + spacing \<le> b"
    using \<open>\<forall>b \<in> set rest. t + spacing \<le> b\<close> \<open>\<forall>p. previous = Some p \<longrightarrow> p + spacing \<le> t\<close> assms(2) by fastforce
  ultimately show ?case
    using ih ft(2) slots by simp
qed

text \<open>
  Projecting slots onto the quota only puts them off.  The result has one slot for each given one in order of time,
  none earlier than it, now or the last publication and the spacing; all are at allowed minutes and spaced, and the
  daily limit is kept beside what was published.
\<close>
theorem projection_puts_off:
  assumes "projectVkAutoPublishSourceQuotaSlots z p given = Inr slots" "given \<noteq> []"
    "clock_ok z (scheduler_zone z (po_settings p))"
  shows "\<exists>now spacing usage times. po_now p = Some now \<and> read_spacing p = Inr spacing \<and>
    buildQuotaUsage z now (scheduler_zone z (po_settings p)) (po_currentLocalDayPublishedCount p)
      (po_currentLocalDayPublishedAt p) [] = Inr usage \<and>
    given = map Some times \<and> list_all2 (\<le>) (sort times) slots \<and>
    (\<forall>t \<in> set slots. now \<le> t \<and> (\<forall>l. read_last p = Inr (Some l) \<longrightarrow> l + spacing \<le> t) \<and>
       isMinuteAllowed (minute_of_day z (scheduler_zone z (po_settings p)) t) (parseScheduleWindows (po_settings p) (po_source p))) \<and>
    sorted_wrt (\<lambda>a b. a + spacing \<le> b) slots \<and>
    (\<forall>day. usage_of usage day + slots_on z (scheduler_zone z (po_settings p)) day slots \<le>
       max (readPositiveInteger (so_dailyLimit (po_source p)) DEFAULT_DAILY_LIMIT) (usage_of usage day))"
proof -
  obtain now spacing usage times previous where p: "po_now p = Some now" "read_spacing p = Inr spacing"
    "buildQuotaUsage z now (scheduler_zone z (po_settings p)) (po_currentLocalDayPublishedCount p)
      (po_currentLocalDayPublishedAt p) [] = Inr usage" "readDates ''slots'' given = Inr times" "read_last p = Inr previous"
    "project_slots z (po_settings p) (po_source p) now spacing
       (readPositiveInteger (so_dailyLimit (po_source p)) DEFAULT_DAILY_LIMIT) previous usage (sort times) = Inr slots"
    using assms(1,2) unfolding projectVkAutoPublishSourceQuotaSlots_def Let_def
    by (auto split: option.splits sum.splits simp del: project_slots.simps)
  from project_slots_rules [OF assms(3) read_spacing_nonneg [OF p(2)] p(6)] show ?thesis
    using p(1-5) by (intro exI [of _ now] exI [of _ spacing] exI [of _ usage] exI [of _ times]) (simp add: readDates_Inr)
qed

section \<open>Instances\<close>

text \<open>The clock of UTC, with days written as a sign and strokes.\<close>

definition utc_clock :: zone_clock where
  "utc_clock =
     \<lparr>zc_valid = (\<lambda>tz. tz = ascii ''UTC''), zc_hour = (\<lambda>tz t. t div 3600000 mod 24), zc_minute = (\<lambda>tz t. t div 60000 mod 60),
      zc_startOfMinute = (\<lambda>tz t. t div 60000 * 60000), zc_startOfDay = (\<lambda>tz t. t div 86400000 * 86400000),
      zc_startOfNextDay = (\<lambda>tz t. (t div 86400000 + 1) * 86400000),
      zc_isoDate = (\<lambda>tz t. (if t < 0 then 45 else 43) # replicate (nat \<bar>t div 86400000\<bar>) 49)\<rparr>"

definition stroke_date :: "int \<Rightarrow> js_string" where
  "stroke_date d = (if d < 0 then 45 else 43) # replicate (nat \<bar>d\<bar>) 49"

lemma utc_clock_fixed: "fixed_clock utc_clock tz 0 stroke_date"
proof -
  have "inj stroke_date"
  proof (rule injI)
    fix x y
    assume "stroke_date x = stroke_date y"
    then have "(if x < 0 then 45 else 43 :: 16 word) = (if y < 0 then 45 else 43)" "nat \<bar>x\<bar> = nat \<bar>y\<bar>"
      by (simp_all add: stroke_date_def replicate_eq_replicate)
    then show "x = y"
      by (auto split: if_splits)
  qed
  moreover have "minute_of_day utc_clock tz t = (t + 0) div 60000 mod 1440" for t
  proof -
    have "t div 3600000 = t div 60000 div 60"
      by (simp add: zdiv_zmult2_eq [symmetric])
    moreover have "u div 60 mod 24 * 60 + u mod 60 = u mod 1440" for u :: int
      using zmod_zmult2_eq [of 24 u 60] by simp
    ultimately show ?thesis
      by (simp only: minute_of_day_def utc_clock_def zone_clock.simps add_0_right)
  qed
  moreover have "zc_isoDate utc_clock tz t = stroke_date ((t + 0) div DAY_MS)" for t
    by (simp add: utc_clock_def stroke_date_def DAY_MS_def pos_imp_zdiv_neg_iff)
  moreover have "zc_startOfMinute utc_clock tz t = (t + 0) div 60000 * 60000 - 0"
    "zc_startOfNextDay utc_clock tz t = ((t + 0) div DAY_MS + 1) * DAY_MS - 0" for t
    by (simp_all add: utc_clock_def DAY_MS_def)
  ultimately show ?thesis
    unfolding fixed_clock_def by blast
qed

text \<open>
  A clock that is put forward: UTC until one o'clock of day 0, an hour ahead of it from then on.
\<close>

definition summer_offset :: "int \<Rightarrow> int" where "summer_offset t = (if t < 3600000 then 0 else 3600000)"

definition local_day :: "int \<Rightarrow> int" where "local_day t = (t + summer_offset t) div DAY_MS"

definition next_day :: "int \<Rightarrow> int" where
  "next_day d = (if d < 0 then (d + 1) * DAY_MS else (d + 1) * DAY_MS - 3600000)"

definition summer_clock :: zone_clock where
  "summer_clock =
     \<lparr>zc_valid = (\<lambda>tz. tz = ascii ''UTC''), zc_hour = (\<lambda>tz t. (t + summer_offset t) div 3600000 mod 24),
      zc_minute = (\<lambda>tz t. (t + summer_offset t) div 60000 mod 60),
      zc_startOfMinute = (\<lambda>tz t. t div 60000 * 60000),
      zc_startOfDay = (\<lambda>tz t. next_day (local_day t - 1)), zc_startOfNextDay = (\<lambda>tz t. next_day (local_day t)),
      zc_isoDate = (\<lambda>tz t. stroke_date (local_day t))\<rparr>"

lemma local_day_bounds:
  "local_day t * DAY_MS \<le> t + summer_offset t \<and> t + summer_offset t < local_day t * DAY_MS + DAY_MS"
  using floor_bounds [of DAY_MS "t + summer_offset t"] by (simp add: local_day_def DAY_MS_def)

lemma next_day_ahead: "next_day (local_day t) \<le> t' \<longleftrightarrow> local_day t < local_day t'"
proof -
  have "t' < next_day d \<longleftrightarrow> t' + summer_offset t' < (d + 1) * DAY_MS" for d
    by (cases "d < 0") (auto simp: next_day_def summer_offset_def DAY_MS_def)
  moreover have "t' + summer_offset t' < (d + 1) * DAY_MS \<longleftrightarrow> local_day t' \<le> d" for d
    using local_day_bounds [of t'] by (auto simp: DAY_MS_def)
  ultimately show ?thesis by (metis linorder_not_le)
qed

lemma stroke_date_inj: "stroke_date x = stroke_date y \<longleftrightarrow> x = y"
  by (auto simp: stroke_date_def replicate_eq_replicate split: if_splits)

lemma hour_minute: "u div 3600000 mod 24 * 60 + u div 60000 mod 60 = u div 60000 mod 1440" for u :: int
proof -
  have "u div 3600000 = u div 60000 div 60"
    by (simp add: zdiv_zmult2_eq [symmetric])
  moreover have "v div 60 mod 24 * 60 + v mod 60 = v mod 1440" for v :: int
    using zmod_zmult2_eq [of 24 v 60] by simp
  ultimately show ?thesis by simp
qed

lemma summer_clock_regular: "regular_clock summer_clock tz summer_offset"
  unfolding regular_clock_def
proof (intro conjI allI impI)
  have "t < next_day (local_day t)" for t
    using next_day_ahead [of t t] by simp
  then show "clock_ok summer_clock tz"
    using floor_bounds [of 60000] by (auto simp: clock_ok_def summer_clock_def)
  show "minute_of_day summer_clock tz t = (t + summer_offset t) div 60000 mod 1440" for t
    by (simp add: minute_of_day_def summer_clock_def hour_minute)
  show "zc_isoDate summer_clock tz t' \<noteq> zc_isoDate summer_clock tz t"
    if "zc_startOfNextDay summer_clock tz t \<le> t'" for t t'
    using that by (simp add: summer_clock_def next_day_ahead stroke_date_inj)
  show "\<exists>i \<le> 7 * 1440. \<forall>k < 1440. summer_offset (c + 60000 * int (i + k)) = summer_offset (c + 60000 * int i)" for c
  proof (cases "c + 60000 * 1440 < 3600000")
    case True
    then show ?thesis by (intro exI [of _ 0]) (auto simp: summer_offset_def)
  next
    case False
    then show ?thesis by (intro exI [of _ 1440]) (auto simp: summer_offset_def)
  qed
qed

definition day_shift :: timing_settings where
  "day_shift = \<lparr>vs_schedulerTimezone = Some (ascii ''UTC''), vs_workHoursStart = Some (ascii ''09:00''),
     vs_workHoursEnd = Some (ascii ''22:00''), vs_quietHoursStart = None, vs_quietHoursEnd = None,
     vs_distributeEvenlyEnabled = True, vs_roundRobinEnabled = True\<rparr>"

definition hourly :: timing_source where
  "hourly = \<lparr>so_publishIntervalMinutes = Some 60, so_dailyLimit = Some 3, so_minPublishIntervalMinutes = Some 30,
     so_quietHoursStart = None, so_quietHoursEnd = None\<rparr>"

definition morning :: plan_options where
  "morning = \<lparr>po_now = Some 32400000, po_lastSourceAt = None, po_currentLocalDayPublishedCount = Some (Some 1),
     po_currentLocalDayPublishedAt = None, po_settings = day_shift, po_source = hourly, po_sourceSpacingMsOverride = None\<rparr>"

lemma insert_is_linear_insert_witness: "insertSortedNumber [1, 3, 3, 7] 3 = [1, 3, 3, 3, 7]"
proof -
  have "sorted [1, 3, 3, 7 :: int]"
    by simp
  from insert_is_linear_insert [OF this, of 3] show ?thesis
    by simp
qed

lemma next_allowed_is_first_witness:
  "\<exists>r. next_allowed utc_clock (ascii ''UTC'') (parseScheduleWindows day_shift hourly) 0 = Some r \<and>
     isMinuteAllowed (minute_of_day utc_clock (ascii ''UTC'') r) (parseScheduleWindows day_shift hourly)"
proof -
  have "isMinuteAllowed 540 (parseScheduleWindows day_shift hourly)"
    by code_simp
  then have "hasAnyAllowedMinute (parseScheduleWindows day_shift hourly)"
    unfolding has_minute by (intro exI [of _ 540]) simp
  then show ?thesis
    using next_allowed_is_first [OF utc_clock_fixed [of "ascii ''UTC''"], of "parseScheduleWindows day_shift hourly" 0]
    by (auto split: option.splits)
qed

lemma plan_keeps_the_rules_witness:
  "\<exists>slots. planVkAutoPublishSourceSlots utc_clock (Some 2) morning [Some 32400000] [] None = Inr slots \<and>
     slots = [32460000, 36060000] \<and> sorted_wrt (\<lambda>a b. a + 3600000 \<le> b) slots"
proof -
  have "planVkAutoPublishSourceSlots utc_clock (Some 2) morning [Some 32400000] [] None = Inr [32460000, 36060000]"
    by code_simp
  moreover have "clock_ok utc_clock (scheduler_zone utc_clock (po_settings morning))"
    by (rule fixed_clock_ok [OF utc_clock_fixed])
  moreover have "read_spacing morning = Inr 3600000"
    by code_simp
  ultimately show ?thesis
    using plan_keeps_the_rules [of utc_clock 2 morning "[Some 32400000]" "[]" None "[32460000, 36060000]"] by auto
qed

definition never :: timing_settings where
  "never = day_shift\<lparr>vs_quietHoursStart := Some (ascii ''09:00''), vs_quietHoursEnd := Some (ascii ''09:00'')\<rparr>"

lemma never_allows: "\<not> isMinuteAllowed m (parseScheduleWindows never src)"
proof -
  have "parseTimeOfDay (Some (ascii ''09:00'')) = Some 540"
    by code_simp
  then show ?thesis
    by (simp add: parseScheduleWindows_def never_def parseOptionalDailyRange_def isMinuteAllowed_def isMinuteInRange_def)
qed

lemma slot_missing_only_if_none_allowed_witness:
  "planVkAutoPublishSourceSlots summer_clock (Some 1) (morning\<lparr>po_settings := never\<rparr>) [] [] None = Inl No_Slot \<and>
     \<not> hasAnyAllowedMinute (parseScheduleWindows never hourly)"
proof -
  let ?p = "morning\<lparr>po_settings := never\<rparr>"
  have none: "\<not> hasAnyAllowedMinute (parseScheduleWindows never hourly)"
    using never_allows by (simp add: has_minute)
  have "next_allowed summer_clock tz (parseScheduleWindows never hourly) c = None" for tz c
    using never_allows none by (simp add: next_allowed_def)
  then have "plan_slots summer_clock never hourly sp cl l (Suc n) e occ u = Inl No_Slot" for sp cl l n e occ u
    by (simp add: resolveCollisionFreeAllowedSlot_def Let_def)
  from this [of _ _ _ 0]
  have "planVkAutoPublishSourceSlots summer_clock (Some 1) ?p [] [] None = Inl No_Slot"
    by (simp add: planVkAutoPublishSourceSlots_def morning_def read_last_def read_spacing_def readClearance_def
        buildQuotaUsage_def readNonNegative_def del: plan_slots.simps)
  moreover have "regular_clock summer_clock (scheduler_zone summer_clock (po_settings ?p)) summer_offset"
    by (rule summer_clock_regular)
  ultimately show ?thesis
    using slot_missing_only_if_none_allowed [of summer_clock ?p summer_offset "Some 1" "[]" "[]" None "[]"]
    by (simp add: morning_def)
qed

lemma projection_puts_off_witness:
  "projectVkAutoPublishSourceQuotaSlots utc_clock morning [Some 36000000, Some 32400000] = Inr [32400000, 36000000] \<and>
     list_all2 (\<le>) (sort [36000000, 32400000]) [32400000, 36000000 :: int]"
proof -
  have r: "projectVkAutoPublishSourceQuotaSlots utc_clock morning [Some 36000000, Some 32400000] = Inr [32400000, 36000000]"
    by code_simp
  from projection_puts_off [OF r _ fixed_clock_ok [OF utc_clock_fixed]] r show ?thesis
    by auto
qed

end
