(* ===== verification/Publication_Recurrence.thy ===== *)
theory Publication_Recurrence
  imports JS_Values
begin

text \<open>
  \<^verbatim>\<open>apps/api/src/admin/publication-recurrence.ts\<close>: the instants at which a publication is due within a
  window, for the schedules now, once, slots and recurrence.

  \<^item> A civil day is its number since 1970-01-01, which is what \<^verbatim>\<open>localDateOrdinal\<close> computes; its weekday and the
    start of its week follow from the number.  What luxon knows of a zone is the record \<open>day_zone\<close>, an argument.
  \<^item> A \<^verbatim>\<open>Date\<close> is an instant, an invalid one \<open>None\<close>; a number that is no integer is \<open>None\<close>.  A thrown
    \<^verbatim>\<open>RangeError\<close> is \<open>Inl\<close> of its field.  The loop over the days may not end on a zone whose days do not
    advance, so its result is an option.
\<close>

section \<open>Schedules\<close>

text \<open>What luxon makes of a wall time on a day of a zone: the time it chose and the instants it may be.\<close>

record wall_time =
  wt_isValid :: bool
  wt_day :: int
  wt_hour :: int
  wt_minute :: int
  wt_possible :: "int list"

record day_zone =
  dz_isValidZone :: "js_string \<Rightarrow> bool"
  dz_day :: "js_string \<Rightarrow> int \<Rightarrow> int"
  dz_plusDay :: "js_string \<Rightarrow> int \<Rightarrow> int"
  dz_fromObject :: "js_string \<Rightarrow> int \<Rightarrow> int \<Rightarrow> int \<Rightarrow> wall_time"
  dz_fromISO :: "js_string \<Rightarrow> int option"

datatype frequency = Daily | Weekly

record recurrence =
  rc_frequency :: frequency
  rc_interval :: "int option"
  rc_weekdays :: "int option list"
  rc_times :: "js_string list"
  rc_startsAt :: "js_string option"
  rc_endsAt :: "js_string option"
  rc_maxOccurrences :: "int option option"

datatype schedule_mode = Now_Mode | Once_Mode js_string | Slots_Mode "js_string list" | Recurrence_Mode recurrence

record expand_options =
  eo_from :: "int option"
  eo_to :: "int option"
  eo_existingCount :: "int option option"
  eo_now :: "int option option"
  eo_maxResults :: "int option option"

datatype schedule_error =
    Invalid_Timezone | Invalid_Date string | Window_Reversed | Invalid_MaxResults | Invalid_ExistingCount
  | Invalid_Interval | No_Times | Invalid_Weekdays | Invalid_MaxOccurrences | Recurrence_Reversed | Invalid_Time

definition isValidPublicationTimezone :: "day_zone \<Rightarrow> js_string \<Rightarrow> bool" where
  "isValidPublicationTimezone z tz \<longleftrightarrow> tz \<noteq> [] \<and> dz_isValidZone z tz"

text \<open>\<^verbatim>\<open>^(?:([01]\d|2[0-3])):([0-5]\d)$\<close>\<close>

definition parseLocalTime :: "js_string \<Rightarrow> schedule_error + (int \<times> int)" where
  "parseLocalTime s =
     (case s of
        [a, b, c, d, e] \<Rightarrow>
          if is_digit a \<and> is_digit b \<and> c = 58 \<and> is_digit d \<and> is_digit e \<and> (a \<le> 49 \<or> a = 50 \<and> b \<le> 51) \<and> d \<le> 53
          then Inr (digits_value [a, b], digits_value [d, e]) else Inl Invalid_Time
      | _ \<Rightarrow> Inl Invalid_Time)"

fun parse_times :: "js_string list \<Rightarrow> schedule_error + (int \<times> int) list" where
  "parse_times [] = Inr []"
| "parse_times (s # ss) =
     (case parseLocalTime s of
        Inl e \<Rightarrow> Inl e
      | Inr t \<Rightarrow> (case parse_times ss of Inl e \<Rightarrow> Inl e | Inr ts \<Rightarrow> Inr (t # ts)))"

definition clock_minutes :: "int \<times> int \<Rightarrow> int" where "clock_minutes t = fst t * 60 + snd t"

definition parseScheduleDate :: "day_zone \<Rightarrow> string \<Rightarrow> js_string \<Rightarrow> schedule_error + int" where
  "parseScheduleDate z f v = (case dz_fromISO z v of Some t \<Rightarrow> Inr t | None \<Rightarrow> Inl (Invalid_Date f))"

fun parse_dates :: "day_zone \<Rightarrow> js_string list \<Rightarrow> schedule_error + int list" where
  "parse_dates z [] = Inr []"
| "parse_dates z (s # ss) =
     (case parseScheduleDate z ''slot'' s of
        Inl e \<Rightarrow> Inl e
      | Inr t \<Rightarrow> (case parse_dates z ss of Inl e \<Rightarrow> Inl e | Inr ts \<Rightarrow> Inr (t # ts)))"

definition uniqueSortedDates :: "int list \<Rightarrow> int \<Rightarrow> int \<Rightarrow> int list" where
  "uniqueSortedDates dates fromMs toMs =
     sort (fold (\<lambda>t ts. if t \<ge> fromMs \<and> t \<le> toMs then set_add t ts else ts) dates [])"

section \<open>Recurrences\<close>

text \<open>The ISO weekday of a day, 1 for Monday; day 0 was a Thursday.\<close>

definition weekday :: "int \<Rightarrow> int" where "weekday d = (d + 3) mod 7 + 1"

definition week_start :: "int \<Rightarrow> int" where "week_start d = d - (weekday d - 1)"

definition assertRecurrenceShape :: "recurrence \<Rightarrow> schedule_error option" where
  "assertRecurrenceShape r =
     (if (case rc_interval r of Some n \<Rightarrow> n < 1 | None \<Rightarrow> True) then Some Invalid_Interval
      else if rc_times r = [] then Some No_Times
      else if rc_frequency r = Weekly \<and>
              (rc_weekdays r = [] \<or> list_ex (\<lambda>w. case w of Some n \<Rightarrow> n < 1 \<or> n > 7 | None \<Rightarrow> True) (rc_weekdays r))
      then Some Invalid_Weekdays
      else if (case rc_maxOccurrences r of
                 None \<Rightarrow> False
               | Some None \<Rightarrow> True
               | Some (Some n) \<Rightarrow> n < 1) then Some Invalid_MaxOccurrences
      else None)"

definition recurrenceIncludesDay :: "frequency \<Rightarrow> int \<Rightarrow> int option list \<Rightarrow> int \<Rightarrow> int \<Rightarrow> bool" where
  "recurrenceIncludesDay freq interval weekdays day anchor =
     (case freq of
        Daily \<Rightarrow> day - anchor \<ge> 0 \<and> (day - anchor) mod interval = 0
      | Weekly \<Rightarrow>
          let offset = week_start day - week_start anchor in
          offset \<ge> 0 \<and> offset mod 7 = 0 \<and> (offset div 7) mod interval = 0 \<and> Some (weekday day) \<in> set weekdays)"

definition resolveLocalDateTime :: "day_zone \<Rightarrow> js_string \<Rightarrow> int \<Rightarrow> int \<times> int \<Rightarrow> int option" where
  "resolveLocalDateTime z tz day time =
     (let c = dz_fromObject z tz day (fst time) (snd time) in
      if \<not> wt_isValid c \<or> wt_day c \<noteq> day \<or> wt_hour c \<noteq> fst time \<or> wt_minute c \<noteq> snd time then None
      else (case wt_possible c of [] \<Rightarrow> None | t # ts \<Rightarrow> Some (fold (\<lambda>p e. if p < e then p else e) ts t)))"

text \<open>Whether a limit is reached; \<open>None\<close> is \<^verbatim>\<open>Infinity\<close>.\<close>

definition reached :: "int option \<Rightarrow> 'a list \<Rightarrow> bool" where
  "reached remaining xs = (case remaining of Some n \<Rightarrow> int (length xs) \<ge> n | None \<Rightarrow> False)"

text \<open>The times of a day are added to the result; the flag says that the limit was reached.\<close>

fun add_times ::
    "day_zone \<Rightarrow> js_string \<Rightarrow> int \<Rightarrow> int \<Rightarrow> int option \<Rightarrow> int \<Rightarrow> (int \<times> int) list \<Rightarrow> int list \<Rightarrow> int list \<times> bool" where
  "add_times z tz fromMs toMs remaining day [] result = (result, False)"
| "add_times z tz fromMs toMs remaining day (time # clocks) result =
     (case resolveLocalDateTime z tz day time of
        None \<Rightarrow> add_times z tz fromMs toMs remaining day clocks result
      | Some t \<Rightarrow>
          if t < fromMs \<or> t > toMs \<or> t \<in> set result then add_times z tz fromMs toMs remaining day clocks result
          else if reached remaining (result @ [t]) then (result @ [t], True)
          else add_times z tz fromMs toMs remaining day clocks (result @ [t]))"

partial_function (option) add_days ::
    "day_zone \<Rightarrow> js_string \<Rightarrow> int \<Rightarrow> int \<Rightarrow> int option \<Rightarrow> (int \<Rightarrow> bool) \<Rightarrow> (int \<times> int) list \<Rightarrow> int \<Rightarrow> int \<Rightarrow> int list \<Rightarrow> int list option" where
  [code]: "add_days z tz fromMs toMs remaining included clocks day lastDay result =
     (if day \<le> lastDay
      then (if included day
            then (case add_times z tz fromMs toMs remaining day clocks result of
                    (r, stop) \<Rightarrow>
                      if stop then Some r
                      else add_days z tz fromMs toMs remaining included clocks (dz_plusDay z tz day) lastDay r)
            else add_days z tz fromMs toMs remaining included clocks (dz_plusDay z tz day) lastDay result)
      else Some result)"

definition min_limit :: "int option \<Rightarrow> int option \<Rightarrow> int option" where
  "min_limit a b = (case (a, b) of (Some x, Some y) \<Rightarrow> Some (min x y) | (Some x, None) \<Rightarrow> Some x | (None, _) \<Rightarrow> b)"

definition optional_date :: "day_zone \<Rightarrow> string \<Rightarrow> js_string option \<Rightarrow> schedule_error + int option" where
  "optional_date z f v =
     (case v of
        None \<Rightarrow> Inr None
      | Some s \<Rightarrow> if s = [] then Inr None
                  else (case parseScheduleDate z f s of Inl e \<Rightarrow> Inl e | Inr t \<Rightarrow> Inr (Some t)))"

definition or_else :: "'a \<Rightarrow> 'a option \<Rightarrow> 'a" where
  "or_else d v = (case v of Some x \<Rightarrow> x | None \<Rightarrow> d)"

definition expandRecurrenceSchedule ::
    "day_zone \<Rightarrow> js_string \<Rightarrow> recurrence \<Rightarrow> int \<Rightarrow> int \<Rightarrow> int \<Rightarrow> int option \<Rightarrow> (schedule_error + int list) option" where
  "expandRecurrenceSchedule z tz r fromMs toMs existingCount maxResults =
     (case assertRecurrenceShape r of
        Some e \<Rightarrow> Some (Inl e)
      | None \<Rightarrow>
          (case optional_date z ''startsAt'' (rc_startsAt r) of
             Inl e \<Rightarrow> Some (Inl e)
           | Inr startsAt \<Rightarrow>
               (case optional_date z ''endsAt'' (rc_endsAt r) of
                  Inl e \<Rightarrow> Some (Inl e)
                | Inr endsAt \<Rightarrow>
                    let starts = or_else fromMs startsAt; ends = or_else toMs endsAt;
                        effFrom = max fromMs starts; effTo = min toMs ends;
                        remaining = min_limit maxResults
                          (case rc_maxOccurrences r of
                             Some (Some n) \<Rightarrow> Some (max 0 (n - existingCount)) | _ \<Rightarrow> None)
                    in if ends < starts then Some (Inl Recurrence_Reversed)
                       else if effTo < effFrom then Some (Inr [])
                       else if remaining = Some 0 then Some (Inr [])
                       else
                         (case parse_times (rc_times r) of
                            Inl e \<Rightarrow> Some (Inl e)
                          | Inr clocks \<Rightarrow>
                              map_option Inr
                                (add_days z tz effFrom effTo remaining
                                   (\<lambda>day. recurrenceIncludesDay (rc_frequency r) (the (rc_interval r)) (rc_weekdays r) day (dz_day z tz starts))
                                   (sort_key clock_minutes clocks) (dz_day z tz effFrom) (dz_day z tz effTo) [])))))"

definition expandPublicationSchedule ::
    "day_zone \<Rightarrow> js_string \<Rightarrow> schedule_mode \<Rightarrow> expand_options \<Rightarrow> (schedule_error + int list) option" where
  "expandPublicationSchedule z tz mode eo =
     (if \<not> isValidPublicationTimezone z tz then Some (Inl Invalid_Timezone)
      else
        (case eo_from eo of
           None \<Rightarrow> Some (Inl (Invalid_Date ''from''))
         | Some fromMs \<Rightarrow>
             (case eo_to eo of
                None \<Rightarrow> Some (Inl (Invalid_Date ''to''))
              | Some toMs \<Rightarrow>
                  if toMs < fromMs then Some (Inl Window_Reversed)
                  else if (case eo_maxResults eo of
                             None \<Rightarrow> False
                           | Some None \<Rightarrow> True
                           | Some (Some n) \<Rightarrow> n < 1) then Some (Inl Invalid_MaxResults)
                  else
                    (case or_else (Some 0) (eo_existingCount eo) of
                       None \<Rightarrow> Some (Inl Invalid_ExistingCount)
                     | Some existing \<Rightarrow>
                         if existing < 0 then Some (Inl Invalid_ExistingCount)
                         else
                           (case mode of
                              Now_Mode \<Rightarrow>
                                (case or_else (Some fromMs) (eo_now eo) of
                                   None \<Rightarrow> Some (Inl (Invalid_Date ''now''))
                                 | Some now \<Rightarrow> Some (Inr (uniqueSortedDates [now] fromMs toMs)))
                            | Once_Mode at' \<Rightarrow>
                                (case parseScheduleDate z ''at'' at' of
                                   Inl e \<Rightarrow> Some (Inl e)
                                 | Inr t \<Rightarrow> Some (Inr (uniqueSortedDates [t] fromMs toMs)))
                            | Slots_Mode slots \<Rightarrow>
                                (case parse_dates z slots of
                                   Inl e \<Rightarrow> Some (Inl e)
                                 | Inr ts \<Rightarrow> Some (Inr (uniqueSortedDates ts fromMs toMs)))
                            | Recurrence_Mode r \<Rightarrow>
                                expandRecurrenceSchedule z tz r fromMs toMs existing
                                  (case eo_maxResults eo of Some m \<Rightarrow> m | None \<Rightarrow> None))))))"

section \<open>Collecting instants under a limit\<close>

definition at_most :: "int option \<Rightarrow> 'a list \<Rightarrow> 'a list" where
  "at_most limit xs = (case limit of Some n \<Rightarrow> take (nat n) xs | None \<Rightarrow> xs)"

fun collect :: "int option \<Rightarrow> int list \<Rightarrow> int list \<Rightarrow> int list \<times> bool" where
  "collect limit [] result = (result, False)"
| "collect limit (t # ts) result =
     (if t \<in> set result then collect limit ts result
      else if reached limit (result @ [t]) then (result @ [t], True)
      else collect limit ts (result @ [t]))"

lemma collect_append:
  "collect limit (xs @ ys) result =
     (case collect limit xs result of (r, stop) \<Rightarrow> if stop then (r, True) else collect limit ys r)"
  by (induction limit xs result rule: collect.induct) auto

lemma set_add_cases: "t \<in> set xs \<Longrightarrow> set_add t xs = xs" "t \<notin> set xs \<Longrightarrow> set_add t xs = xs @ [t]"
  by (simp_all add: set_add_def)

lemma fold_set_add_prefix: "\<exists>ys. fold set_add ts result = result @ ys"
proof (induction ts arbitrary: result)
  case (Cons t ts)
  obtain ys where "fold set_add ts (set_add t result) = set_add t result @ ys"
    using Cons.IH by blast
  then show ?case
    by (cases "t \<in> set result") (auto simp: set_add_cases)
qed simp

lemma collect_limited: "\<not> reached limit result \<Longrightarrow> fst (collect limit ts result) = at_most limit (fold set_add ts result)"
proof (induction limit ts result rule: collect.induct)
  case (1 limit result)
  then show ?case
    by (auto simp: at_most_def reached_def split: option.splits)
next
  case (2 limit t ts result)
  show ?case
  proof (cases "t \<in> set result")
    case True
    then show ?thesis
      using 2 by (simp add: set_add_cases)
  next
    case False
    show ?thesis
    proof (cases "reached limit (result @ [t])")
      case True
      obtain ys where ys: "fold set_add ts (result @ [t]) = (result @ [t]) @ ys"
        using fold_set_add_prefix by blast
      obtain n where "limit = Some n" "int (length result) + 1 \<ge> n" "int (length result) < n"
        using True 2(3) by (auto simp: reached_def split: option.splits)
      then have "limit = Some (int (length (result @ [t])))"
        by simp
      then show ?thesis
        using False True ys by (simp add: at_most_def set_add_cases nat_add_distrib)
    next
      case False
      then show ?thesis
        using 2(2) \<open>t \<notin> set result\<close> by (simp add: set_add_cases)
    qed
  qed
qed

lemma fold_set_add_sorted: "sorted (result @ ts) \<Longrightarrow> sorted (fold set_add ts result)"
  by (induction ts arbitrary: result) (auto simp: set_add_def sorted_append)

lemma collected:
  assumes "sorted ts"
  shows "fold set_add ts [] = sorted_list_of_set (set ts)"
proof -
  have "sorted (fold set_add ts [])" "distinct (fold set_add ts [])" "set (fold set_add ts []) = set ts"
    using fold_set_add_sorted [of "[]" ts] assms by simp_all
  then show ?thesis
    using sorted_list_of_set.idem_if_sorted_distinct by metis
qed

section \<open>The days and the times of a recurrence\<close>

fun day_instants :: "day_zone \<Rightarrow> js_string \<Rightarrow> int \<Rightarrow> int \<Rightarrow> (int \<times> int) list \<Rightarrow> int \<Rightarrow> int list" where
  "day_instants z tz fromMs toMs [] day = []"
| "day_instants z tz fromMs toMs (clock # clocks) day =
     (case resolveLocalDateTime z tz day clock of
        Some t \<Rightarrow> if fromMs \<le> t \<and> t \<le> toMs then t # day_instants z tz fromMs toMs clocks day
                  else day_instants z tz fromMs toMs clocks day
      | None \<Rightarrow> day_instants z tz fromMs toMs clocks day)"

lemma set_day_instants:
  "set (day_instants z tz fromMs toMs clocks day) =
     {t. fromMs \<le> t \<and> t \<le> toMs \<and> (\<exists>clock \<in> set clocks. resolveLocalDateTime z tz day clock = Some t)}"
  by (induction clocks) (auto split: option.splits)

lemma add_times_collect:
  "add_times z tz fromMs toMs limit day clocks result = collect limit (day_instants z tz fromMs toMs clocks day) result"
  by (induction clocks arbitrary: result) (auto split: option.splits)

text \<open>
  What the loop relies on luxon for: days advance, and a day passed over has no wall times; later wall times, taken at
  their first occurrence, are no earlier; an instant found for a day lies on it, and days follow the instants.
\<close>

definition zone_laws :: "day_zone \<Rightarrow> js_string \<Rightarrow> bool" where
  "zone_laws z tz \<longleftrightarrow>
     (\<forall>d. d < dz_plusDay z tz d \<and> (\<forall>e clock. d < e \<longrightarrow> e < dz_plusDay z tz d \<longrightarrow> resolveLocalDateTime z tz e clock = None)) \<and>
     (\<forall>d clock d' clock' t t'. resolveLocalDateTime z tz d clock = Some t \<longrightarrow> resolveLocalDateTime z tz d' clock' = Some t' \<longrightarrow>
        (d < d' \<or> d = d' \<and> clock_minutes clock \<le> clock_minutes clock') \<longrightarrow> t \<le> t') \<and>
     (\<forall>d clock t. resolveLocalDateTime z tz d clock = Some t \<longrightarrow> dz_day z tz t = d) \<and>
     (\<forall>t t'. t \<le> t' \<longrightarrow> dz_day z tz t \<le> dz_day z tz t')"

lemma zone_lawsD:
  assumes "zone_laws z tz"
  shows "d < dz_plusDay z tz d"
    "d < e \<Longrightarrow> e < dz_plusDay z tz d \<Longrightarrow> resolveLocalDateTime z tz e clock = None"
    "resolveLocalDateTime z tz d clock = Some t \<Longrightarrow> resolveLocalDateTime z tz d' clock' = Some t' \<Longrightarrow>
       d < d' \<or> d = d' \<and> clock_minutes clock \<le> clock_minutes clock' \<Longrightarrow> t \<le> t'"
    "resolveLocalDateTime z tz d clock = Some t \<Longrightarrow> dz_day z tz t = d"
    "t \<le> t' \<Longrightarrow> dz_day z tz t \<le> dz_day z tz t'"
  using assms unfolding zone_laws_def by blast+

lemma day_instants_sorted:
  assumes "zone_laws z tz"
  shows "sorted (map clock_minutes clocks) \<Longrightarrow> sorted (day_instants z tz fromMs toMs clocks day)"
proof (induction clocks)
  case (Cons clock clocks)
  have "t \<le> u" if "resolveLocalDateTime z tz day clock = Some t" "u \<in> set (day_instants z tz fromMs toMs clocks day)" for t u
    using that Cons.prems zone_lawsD(3) [OF assms that(1)] by (auto simp: set_day_instants)
  then show ?case
    using Cons by (auto split: option.splits)
qed simp

definition instants_of ::
    "day_zone \<Rightarrow> js_string \<Rightarrow> int \<Rightarrow> int \<Rightarrow> (int \<Rightarrow> bool) \<Rightarrow> (int \<times> int) list \<Rightarrow> int list \<Rightarrow> int list" where
  "instants_of z tz fromMs toMs included clocks days =
     concat (map (\<lambda>d. if included d then day_instants z tz fromMs toMs clocks d else []) days)"

lemma add_days_collect:
  assumes "zone_laws z tz"
  shows "\<exists>days. add_days z tz fromMs toMs limit included clocks day lastDay result =
      Some (fst (collect limit (instants_of z tz fromMs toMs included clocks days) result)) \<and>
    sorted_wrt (<) days \<and> (\<forall>d \<in> set days. day \<le> d \<and> d \<le> lastDay) \<and>
    (\<forall>e clock. day \<le> e \<and> e \<le> lastDay \<and> e \<notin> set days \<longrightarrow> resolveLocalDateTime z tz e clock = None)"
proof (induction "nat (lastDay + 1 - day)" arbitrary: day result rule: less_induct)
  case less
  show ?case
  proof (cases "day \<le> lastDay")
    case False
    then show ?thesis
      by (intro exI [of _ "[]"]) (auto simp: add_days.simps instants_of_def)
  next
    case True
    let ?n = "dz_plusDay z tz day"
    have n: "day < ?n"
      using zone_lawsD(1) [OF assms] .
    then have smaller: "nat (lastDay + 1 - ?n) < nat (lastDay + 1 - day)"
      using True by simp
    let ?here = "if included day then day_instants z tz fromMs toMs clocks day else []"
    obtain r stop where c: "collect limit ?here result = (r, stop)"
      by fastforce
    obtain days where d: "add_days z tz fromMs toMs limit included clocks ?n lastDay r =
        Some (fst (collect limit (instants_of z tz fromMs toMs included clocks days) r))"
      "sorted_wrt (<) days" "\<forall>d \<in> set days. ?n \<le> d \<and> d \<le> lastDay"
      "\<forall>e clock. ?n \<le> e \<and> e \<le> lastDay \<and> e \<notin> set days \<longrightarrow> resolveLocalDateTime z tz e clock = None"
      using less [OF smaller, of r] by blast
    have "instants_of z tz fromMs toMs included clocks (day # days) = ?here @ instants_of z tz fromMs toMs included clocks days"
      by (simp add: instants_of_def)
    then have run: "collect limit (instants_of z tz fromMs toMs included clocks (day # days)) result =
        (if stop then (r, True) else collect limit (instants_of z tz fromMs toMs included clocks days) r)"
      using c by (simp add: collect_append)
    have "\<not> included day \<Longrightarrow> r = result \<and> \<not> stop"
      using c by simp
    then have "add_days z tz fromMs toMs limit included clocks day lastDay result =
        Some (fst (collect limit (instants_of z tz fromMs toMs included clocks (day # days)) result))"
      using True c d(1) run by (subst add_days.simps) (auto simp: add_times_collect)
    moreover have "sorted_wrt (<) (day # days)" "\<forall>d \<in> set (day # days). day \<le> d \<and> d \<le> lastDay"
      using d(2,3) n True by auto
    moreover have "resolveLocalDateTime z tz e clock = None" if "day \<le> e" "e \<le> lastDay" "e \<notin> set (day # days)" for e clock
      using that d(4) [rule_format, of e clock] zone_lawsD(2) [OF assms, of day e clock] by (cases "e < ?n") auto
    ultimately show ?thesis
      by blast
  qed
qed

lemma instants_sorted:
  assumes "zone_laws z tz" "sorted (map clock_minutes clocks)"
  shows "sorted_wrt (<) days \<Longrightarrow> sorted (instants_of z tz fromMs toMs included clocks days)"
proof (induction days)
  case (Cons d days)
  have "t \<le> u" if t: "t \<in> set (day_instants z tz fromMs toMs clocks d)"
    and u: "u \<in> set (instants_of z tz fromMs toMs included clocks days)" for t u
  proof -
    obtain e where e: "e \<in> set days" "u \<in> set (day_instants z tz fromMs toMs clocks e)"
      using u by (auto simp: instants_of_def split: if_splits)
    then have "d < e"
      using Cons.prems by simp
    then show ?thesis
      using t e(2) zone_lawsD(3) [OF assms(1)] by (fastforce simp: set_day_instants)
  qed
  then show ?case
    using Cons day_instants_sorted [OF assms] by (auto simp: instants_of_def sorted_append)
qed (simp add: instants_of_def)

text \<open>The instants a recurrence is due at, said without a loop.\<close>

definition due_instants ::
    "day_zone \<Rightarrow> js_string \<Rightarrow> (int \<Rightarrow> bool) \<Rightarrow> (int \<times> int) list \<Rightarrow> int \<Rightarrow> int \<Rightarrow> int set" where
  "due_instants z tz included clocks fromMs toMs =
     {t. fromMs \<le> t \<and> t \<le> toMs \<and>
        (\<exists>day clock. included day \<and> clock \<in> set clocks \<and> resolveLocalDateTime z tz day clock = Some t)}"

lemma add_days_due:
  assumes "zone_laws z tz" "\<not> reached limit ([] :: int list)" "sorted (map clock_minutes clocks)"
  shows "add_days z tz fromMs toMs limit included clocks (dz_day z tz fromMs) (dz_day z tz toMs) [] =
    Some (at_most limit (sorted_list_of_set (due_instants z tz included clocks fromMs toMs)))"
proof -
  obtain days where d: "add_days z tz fromMs toMs limit included clocks (dz_day z tz fromMs) (dz_day z tz toMs) [] =
      Some (fst (collect limit (instants_of z tz fromMs toMs included clocks days) []))"
    "sorted_wrt (<) days" "\<forall>d \<in> set days. dz_day z tz fromMs \<le> d \<and> d \<le> dz_day z tz toMs"
    "\<forall>e clock. dz_day z tz fromMs \<le> e \<and> e \<le> dz_day z tz toMs \<and> e \<notin> set days \<longrightarrow> resolveLocalDateTime z tz e clock = None"
    using add_days_collect [OF assms(1), of fromMs toMs limit included clocks "dz_day z tz fromMs" "dz_day z tz toMs" "[]"]
    by blast
  have "set (instants_of z tz fromMs toMs included clocks days) = due_instants z tz included clocks fromMs toMs"
  proof
    show "set (instants_of z tz fromMs toMs included clocks days) \<subseteq> due_instants z tz included clocks fromMs toMs"
      by (auto simp: instants_of_def due_instants_def set_day_instants split: if_splits)
    show "due_instants z tz included clocks fromMs toMs \<subseteq> set (instants_of z tz fromMs toMs included clocks days)"
    proof
      fix t
      assume "t \<in> due_instants z tz included clocks fromMs toMs"
      then obtain day clock where t: "fromMs \<le> t" "t \<le> toMs" "included day" "clock \<in> set clocks"
        "resolveLocalDateTime z tz day clock = Some t"
        by (auto simp: due_instants_def)
      have "dz_day z tz t = day"
        using zone_lawsD(4) [OF assms(1) t(5)] .
      then have "dz_day z tz fromMs \<le> day" "day \<le> dz_day z tz toMs"
        using zone_lawsD(5) [OF assms(1)] t(1,2) by blast+
      then have "day \<in> set days"
        using d(4) t(5) by (metis option.distinct(1))
      then show "t \<in> set (instants_of z tz fromMs toMs included clocks days)"
        using t unfolding instants_of_def by (auto simp: set_day_instants)
    qed
  qed
  then show ?thesis
    using d(1) collect_limited [OF assms(2)] collected [OF instants_sorted [OF assms(1,3) d(2)]] by simp
qed

section \<open>What a schedule expands to\<close>

lemma parse_times_valid:
  "parse_times ss = Inr ts \<Longrightarrow> \<forall>c \<in> set ts. \<exists>s \<in> set ss. parseLocalTime s = Inr c"
  by (induction ss arbitrary: ts) (auto split: sum.splits)

text \<open>The occurrences left to a recurrence; \<open>None\<close> is no limit.\<close>

abbreviation occurrences_left :: "recurrence \<Rightarrow> int \<Rightarrow> int option" where
  "occurrences_left r existing \<equiv> case rc_maxOccurrences r of Some (Some n) \<Rightarrow> Some (max 0 (n - existing)) | _ \<Rightarrow> None"

lemma at_most_None [simp]: "at_most None xs = xs"
  by (simp add: at_most_def)

lemma at_most_min: "at_most (min_limit a b) xs = at_most a (at_most b xs)"
  by (auto simp: at_most_def min_limit_def min_def nat_mono split: option.splits)

text \<open>
  C21: A recurrence expands to exactly the instants it is due at.  With a valid shape and valid dates and times, in a
  zone that keeps its documented laws, the loop over days and times ends, and its result is the increasing list of all
  instants of the window that are a listed wall time of a day the recurrence includes, cut at the occurrences that are
  left and at the results that are wanted.  Nothing due is passed over and nothing comes twice, days that a zone skips and repeated hours included.
\<close>
theorem recurrence_expands_exactly:
  assumes "zone_laws z tz" "assertRecurrenceShape r = None" "optional_date z ''startsAt'' (rc_startsAt r) = Inr startsAt"
    "optional_date z ''endsAt'' (rc_endsAt r) = Inr endsAt" "or_else fromMs startsAt \<le> or_else toMs endsAt"
    "parse_times (rc_times r) = Inr clocks" "\<forall>n. maxResults = Some n \<longrightarrow> 1 \<le> n"
  shows "expandRecurrenceSchedule z tz r fromMs toMs existing maxResults =
    Some (Inr (at_most maxResults (at_most (occurrences_left r existing) (sorted_list_of_set
      (due_instants z tz
         (\<lambda>day. recurrenceIncludesDay (rc_frequency r) (the (rc_interval r)) (rc_weekdays r) day (dz_day z tz (or_else fromMs startsAt)))
         clocks (max fromMs (or_else fromMs startsAt)) (min toMs (or_else toMs endsAt)))))))"
proof -
  let ?from = "max fromMs (or_else fromMs startsAt)" and ?to = "min toMs (or_else toMs endsAt)"
  let ?inc = "\<lambda>day. recurrenceIncludesDay (rc_frequency r) (the (rc_interval r)) (rc_weekdays r) day (dz_day z tz (or_else fromMs startsAt))"
  let ?limit = "min_limit maxResults (occurrences_left r existing)"
  have same: "due_instants z tz ?inc (sort_key clock_minutes clocks) a b = due_instants z tz ?inc clocks a b" for a b
    by (simp add: due_instants_def)
  consider (empty) "?to < ?from" | (none) "\<not> ?to < ?from" "?limit = Some 0" | (run) "\<not> ?to < ?from" "?limit \<noteq> Some 0"
    by blast
  then have "expandRecurrenceSchedule z tz r fromMs toMs existing maxResults =
      Some (Inr (at_most ?limit (sorted_list_of_set (due_instants z tz ?inc clocks ?from ?to))))"
  proof cases
    case empty
    then have "due_instants z tz ?inc clocks ?from ?to = {}"
      by (auto simp: due_instants_def)
    then show ?thesis
      using empty assms(2-5) by (simp add: expandRecurrenceSchedule_def Let_def at_most_def split: option.splits)
  next
    case none
    then show ?thesis
      using assms(2-5) by (simp add: expandRecurrenceSchedule_def Let_def at_most_def)
  next
    case run
    have "\<forall>n. ?limit = Some n \<longrightarrow> 0 \<le> n"
      using assms(7) by (auto simp: min_limit_def split: option.splits)
    then have "\<not> reached ?limit ([] :: int list)"
      using run(2) by (auto simp: reached_def split: option.splits)
    from add_days_due [OF assms(1) this, of "sort_key clock_minutes clocks" ?from ?to ?inc]
    have "add_days z tz ?from ?to ?limit ?inc (sort_key clock_minutes clocks) (dz_day z tz ?from) (dz_day z tz ?to) [] =
        Some (at_most ?limit (sorted_list_of_set (due_instants z tz ?inc clocks ?from ?to)))"
      unfolding same by simp
    moreover have "\<not> or_else toMs endsAt < or_else fromMs startsAt"
      using assms(5) by simp
    ultimately show ?thesis
      using run by (simp only: expandRecurrenceSchedule_def Let_def assms(2-4,6) option.case sum.case if_False option.map)
  qed
  then show ?thesis
    unfolding at_most_min .
qed

lemma unique_dates: "uniqueSortedDates ts fromMs toMs = sorted_list_of_set {t \<in> set ts. fromMs \<le> t \<and> t \<le> toMs}"
proof -
  have *: "set (fold (\<lambda>t ts. if t \<ge> fromMs \<and> t \<le> toMs then set_add t ts else ts) ts acc) =
      set acc \<union> {t \<in> set ts. fromMs \<le> t \<and> t \<le> toMs} \<and>
    distinct (fold (\<lambda>t ts. if t \<ge> fromMs \<and> t \<le> toMs then set_add t ts else ts) ts acc) = distinct acc" for acc
    by (induction ts arbitrary: acc) auto
  have "sorted (uniqueSortedDates ts fromMs toMs)" "distinct (uniqueSortedDates ts fromMs toMs)"
    "set (uniqueSortedDates ts fromMs toMs) = {t \<in> set ts. fromMs \<le> t \<and> t \<le> toMs}"
    using * [of "[]"] by (auto simp: uniqueSortedDates_def)
  then show ?thesis
    using sorted_list_of_set.idem_if_sorted_distinct by metis
qed

lemma at_most_subset: "set (at_most limit xs) \<subseteq> set xs"
  by (auto simp: at_most_def dest: in_set_takeD split: option.splits)

lemma at_most_increasing: "sorted_wrt (<) xs \<Longrightarrow> sorted_wrt (<) (at_most limit xs)"
  by (auto simp: at_most_def sorted_wrt_take split: option.splits)

lemma increasing_list: "sorted_wrt (<) (sorted_list_of_set (A :: int set))"
  by (rule strict_sorted_list_of_set)

text \<open>
  Whatever a schedule expands to, in any zone and for any input: the instants are increasing, and if the schedule
  is no recurrence they are exactly those of its dates that lie in the window.
\<close>
theorem dates_expand_to_the_window:
  assumes "expandPublicationSchedule z tz mode eo = Some (Inr dates)" "\<forall>r. mode \<noteq> Recurrence_Mode r"
  shows "sorted_wrt (<) dates \<and>
    (\<exists>fromMs toMs. eo_from eo = Some fromMs \<and> eo_to eo = Some toMs \<and> fromMs \<le> toMs \<and>
       set dates = {t. fromMs \<le> t \<and> t \<le> toMs \<and>
         (case mode of
            Now_Mode \<Rightarrow> or_else (Some fromMs) (eo_now eo) = Some t
          | Once_Mode s \<Rightarrow> dz_fromISO z s = Some t
          | Slots_Mode ss \<Rightarrow> Some t \<in> dz_fromISO z ` set ss
          | Recurrence_Mode r \<Rightarrow> False)})"
proof -
  have "parse_dates z ss = Inr ts \<Longrightarrow> map Some ts = map (dz_fromISO z) ss" for ss ts
    by (induction ss arbitrary: ts) (auto simp: parseScheduleDate_def split: sum.splits option.splits)
  then have slots: "parse_dates z ss = Inr ts \<Longrightarrow> Some ` set ts = dz_fromISO z ` set ss" for ss ts
    by (metis set_map)
  show ?thesis
  proof (cases mode)
    case Now_Mode
    then show ?thesis
      using assms(1) increasing_list
      by (auto simp: expandPublicationSchedule_def unique_dates split: option.splits if_splits)
  next
    case (Once_Mode s)
    then show ?thesis
      using assms(1) increasing_list
      by (auto simp: expandPublicationSchedule_def unique_dates parseScheduleDate_def split: option.splits if_splits)
  next
    case (Slots_Mode ss)
    then obtain fromMs toMs ts where *: "eo_from eo = Some fromMs" "eo_to eo = Some toMs" "fromMs \<le> toMs"
      "parse_dates z ss = Inr ts" "dates = uniqueSortedDates ts fromMs toMs"
      using assms(1) by (auto simp: expandPublicationSchedule_def split: option.splits if_splits sum.splits)
    have "set dates = {t. fromMs \<le> t \<and> t \<le> toMs \<and> Some t \<in> dz_fromISO z ` set ss}"
      unfolding *(5) unique_dates slots [OF *(4), symmetric] by auto
    moreover have "sorted_wrt (<) dates"
      unfolding *(5) unique_dates by (rule increasing_list)
    ultimately show ?thesis
      using *(1-3) Slots_Mode by simp
  next
    case (Recurrence_Mode r)
    then show ?thesis
      using assms(2) by blast
  qed
qed

section \<open>Instances\<close>

text \<open>UTC: a wall time is one instant, no day is skipped.\<close>

definition utc_days :: day_zone where
  "utc_days =
     \<lparr>dz_isValidZone = (\<lambda>tz. tz = ascii ''UTC''), dz_day = (\<lambda>tz t. t div 86400000), dz_plusDay = (\<lambda>tz d. d + 1),
      dz_fromObject = (\<lambda>tz d h m. \<lparr>wt_isValid = (0 \<le> h \<and> h < 24 \<and> 0 \<le> m \<and> m < 60), wt_day = d, wt_hour = h, wt_minute = m,
         wt_possible = [d * 86400000 + (h * 60 + m) * 60000]\<rparr>),
      dz_fromISO = (\<lambda>s. if s \<noteq> [] \<and> list_all is_digit s then Some (digits_value s) else None)\<rparr>"

lemma utc_resolve:
  "resolveLocalDateTime utc_days tz d clock = Some t \<longleftrightarrow>
     0 \<le> fst clock \<and> fst clock < 24 \<and> 0 \<le> snd clock \<and> snd clock < 60 \<and> t = d * 86400000 + clock_minutes clock * 60000"
  by (auto simp: resolveLocalDateTime_def utc_days_def clock_minutes_def)

lemma day_of_minute:
  assumes "0 \<le> m" "m < (1440 :: int)"
  shows "(d * 86400000 + m * 60000) div 86400000 = d"
proof -
  have "m * 60000 div 86400000 = 0"
    using assms by (intro div_pos_pos_trivial) simp_all
  then show ?thesis
    using div_mult_self3 [of "86400000" d "m * 60000"] by simp
qed

lemma utc_laws: "zone_laws utc_days tz"
proof -
  have "t \<le> t'" if "resolveLocalDateTime utc_days tz d clock = Some t" "resolveLocalDateTime utc_days tz d' clock' = Some t'"
    "d < d' \<or> d = d' \<and> clock_minutes clock \<le> clock_minutes clock'" for d clock d' clock' t t'
  proof -
    have "0 \<le> clock_minutes clock' \<and> clock_minutes clock < 1440"
      using that(1,2) by (auto simp: utc_resolve clock_minutes_def)
    then show ?thesis
      using that by (auto simp: utc_resolve)
  qed
  moreover have "dz_day utc_days tz t = d" if r: "resolveLocalDateTime utc_days tz d clock = Some t" for d clock t
  proof -
    have c: "0 \<le> clock_minutes clock" "clock_minutes clock < 1440" and t: "t = d * 86400000 + clock_minutes clock * 60000"
      using r by (simp_all only: utc_resolve) (auto simp: clock_minutes_def)
    have "dz_day utc_days tz t = t div 86400000"
      by (simp add: utc_days_def)
    then show ?thesis
      unfolding t day_of_minute [OF c] .
  qed
  moreover have "d < dz_plusDay utc_days tz d \<and> \<not> (d < e \<and> e < dz_plusDay utc_days tz d)" for d e
    by (simp add: utc_days_def)
  moreover have "t \<le> t' \<Longrightarrow> dz_day utc_days tz t \<le> dz_day utc_days tz t'" for t t'
    by (simp add: utc_days_def zdiv_mono1)
  ultimately show ?thesis
    unfolding zone_laws_def by blast
qed

text \<open>Every second day at 09:30 and 18:00, five times at most.\<close>

definition every_second_day :: recurrence where
  "every_second_day = \<lparr>rc_frequency = Daily, rc_interval = Some 2, rc_weekdays = [], rc_times = [ascii ''18:00'', ascii ''09:30''],
     rc_startsAt = None, rc_endsAt = None, rc_maxOccurrences = Some (Some 5)\<rparr>"

lemma recurrence_expands_exactly_witness:
  "at_most (Some 5) (sorted_list_of_set (due_instants utc_days (ascii ''UTC'')
     (\<lambda>day. recurrenceIncludesDay Daily 2 [] day (dz_day utc_days (ascii ''UTC'') 0)) [(18, 0), (9, 30)] 0 200000000)) =
   [34200000, 64800000]"
proof -
  have p: "parse_times (rc_times every_second_day) = Inr [(18, 0), (9, 30)]"
    by code_simp
  have e: "expandRecurrenceSchedule utc_days (ascii ''UTC'') every_second_day 0 200000000 0 None = Some (Inr [34200000, 64800000])"
    by code_simp
  show ?thesis
    using recurrence_expands_exactly [of utc_days "ascii ''UTC''" every_second_day None None 0 200000000 "[(18, 0), (9, 30)]" None 0]
      utc_laws p e
    by (simp add: assertRecurrenceShape_def every_second_day_def optional_date_def or_else_def min_limit_def)
qed

lemma dates_expand_to_the_window_witness:
  "\<exists>dates. expandPublicationSchedule utc_days (ascii ''UTC'') (Slots_Mode [ascii ''70'', ascii ''20'', ascii ''5''])
     \<lparr>eo_from = Some 10, eo_to = Some 100, eo_existingCount = None, eo_now = None, eo_maxResults = None\<rparr> = Some (Inr dates) \<and>
     dates = [20, 70] \<and> sorted_wrt (<) dates"
proof -
  have "expandPublicationSchedule utc_days (ascii ''UTC'') (Slots_Mode [ascii ''70'', ascii ''20'', ascii ''5''])
     \<lparr>eo_from = Some 10, eo_to = Some 100, eo_existingCount = None, eo_now = None, eo_maxResults = None\<rparr> = Some (Inr [20, 70])"
    by code_simp
  from this dates_expand_to_the_window [OF this] show ?thesis
    by simp
qed

end
