(* ===== verification/Spec2Isabelle.thy ===== *)
theory Spec2Isabelle
  imports Byte_Admission Commercial_Second_Stage Lease_Worker Webhook_Routing Deferred_Reader Rate_Limit
    Worker_Shutdown Action_Claim Local_Cache Response_Buffer Api_Budget Flood_Gate Auto_Reply_Quota Bot_Access Upload_Store Rule_Sanction Duplicate_Window Night_Transitions Vk_Timing Publication_Recurrence
begin

text \<open>
  A verification library for the decision core of the MAXIM moderation bot, the API server under
  \<^verbatim>\<open>apps/api/src/\<close>.

  The program.  The messenger calls the webhook.  Ingress counts the call against its limits
  (\<open>Rate_Limit\<close>), stores a receipt, and a preparation loop turns stored receipts into queue jobs
  under a small budget (\<open>Preparation_Admission\<close>), setting aside the receipts whose turn has not
  come (\<open>Deferred_Scopes\<close>).  A prepared update is put on one of the webhook queues
  (\<open>Webhook_Queues\<close>), the default shards being chosen per chat by a router
  (\<open>Webhook_Routing\<close>) that keeps its assignments in an indexed heap (\<open>Expiry_Index\<close>).  Which
  process consumes which queue follows from its role (\<open>Runtime_Topology\<close>,
  \<open>Moderation_Runtime\<close>); the default shards can be moved between worker groups at run time, by a
  planner (\<open>Lease_Plan\<close>), leases with fencing tokens (\<open>Lease_Manager\<close>) and the life of the
  shard workers (\<open>Lease_Worker\<close>).  A worker that handles an advertisement runs the commercial
  engine (\<open>Commercial_*\<close>), claims the message before it acts (\<open>Action_Claim\<close>), and bounds the
  bytes of media it holds (\<open>Byte_Admission\<close>).  On a signal the process stops its workers in order
  (\<open>Worker_Shutdown\<close>).

  Around that path the library holds parts that stand alone: how a repeated message is proved
  (\<open>Duplicate_Window\<close>), how the sanction that follows a deletion is carried out once
  (\<open>Rule_Sanction\<close>) within the budget of the messenger's API (\<open>Api_Budget\<close>), when a chat is closed
  for the night (\<open>Night_Calendar\<close>, \<open>Night_Transitions\<close>), which bot acts in a chat (\<open>Bot_Access\<close>), how
  the publisher answers (\<open>Flood_Gate\<close>, \<open>Auto_Reply_Quota\<close>) and when it publishes (\<open>Vk_Timing\<close>,
  \<open>Publication_Recurrence\<close>), and the buffers and caches of the process (\<open>Local_Cache\<close>,
  \<open>Response_Buffer\<close>, \<open>Upload_Store\<close>).

  Reading the model.  Definitions carry the names of the functions they translate.  A class or an
  object literal is a record, a union of literals a datatype, a JavaScript \<^verbatim>\<open>Map\<close> whose order
  matters an association list (\<open>jsmap\<close> of \<open>Prelude\<close>), a string a list of 16-bit units
  (\<open>js_string\<close>) where its units matter and a \<open>string\<close> where it is only a label.  Numbers that
  the code keeps below the safe integers are \<open>int\<close>, fractions \<open>rat\<close>, the 32-bit arithmetic of
  hashes \<open>32 word\<close>.  A thrown error is \<open>Inl\<close> of an error type, \<^verbatim>\<open>undefined\<close> is \<open>None\<close>.
  The clock, the environment, and what Redis and the database answer are arguments, so a property
  holds whatever they are.  A handler that waits is cut at its waits: every piece is a definition,
  and a run is a list of events (folded by the component's \<open>_step\<close> function) or a path of an
  inductive step relation, so that any interleaving of calls is a run.

  Theories, in the order of the flow above.

  \<^item> \<open>Prelude\<close>: insertion-ordered maps and sets, JavaScript values and strings, decimal printing,
    and the locale \<open>invariant_machine\<close>, interpreted by every component that is a machine.
  \<^item> \<open>Rate_Limit\<close> (\<^verbatim>\<open>webhook/webhook-rate-limit.service.ts\<close>): the Redis script, the in-memory
    fallback, and the switch between them.  Both refine one plain counter per second and window
    (\<open>reserve_spec\<close>), from which the limits on any ordered run follow.
  \<^item> \<open>Preparation_Admission\<close> (\<^verbatim>\<open>webhook/webhook-preparation-admission.ts\<close> and its scope parser):
    the budget, the bot shares, the reservations, the metrics.  The shared mutable counters are a
    store of objects.  The invariant \<open>admission_ok\<close> says that the counters are the true counts.
  \<^item> \<open>Deferred_Scopes\<close> (\<^verbatim>\<open>webhook/webhook-outbox-deferred-scopes.ts\<close> and the page loop of the
    outbox scan): scope objects with reading intervals.  \<open>owed\<close> is the promise of a visit, which
    every operation keeps; a selection reaches every readable scope in turn.
  \<^item> \<open>Deferred_Reader\<close> (\<^verbatim>\<open>webhook/webhook-outbox.service.ts\<close>, the reader of deferred receipts):
    rows of the table of events, the current enqueue representatives, the page query, the
    revalidation of retained identities, and the poll as a machine over the database's answers.
    The lemmas show which rows a page selects, and that a receipt stays owed until it is let go.
  \<^item> \<open>Webhook_Queues\<close> (\<^verbatim>\<open>webhook/webhook-queues.ts\<close>): the static choice of a queue, with the chat
    hash on \<open>32 word\<close>.
  \<^item> \<open>Expiry_Index\<close> (\<^verbatim>\<open>webhook/assignment-expiry-index.ts\<close>): the heap with positions; it refines a
    finite map, stated as the locale of an expiry index which \<open>Webhook_Routing\<close> relies on.
  \<^item> \<open>Webhook_Routing\<close> (\<^verbatim>\<open>webhook/webhook-routing.service.ts\<close>): assignments, counts, pressures and
    the stages of a refresh, interleaved freely.
  \<^item> \<open>Runtime_Topology\<close>, \<open>Moderation_Runtime\<close> (\<^verbatim>\<open>runtime/runtime-topology.ts\<close>,
    \<^verbatim>\<open>runtime/moderation-runtime.ts\<close>): service profiles, the queues a process consumes, concurrency.
  \<^item> \<open>Lease_Plan\<close>, \<open>Lease_Manager\<close>, \<open>Lease_Worker\<close> (\<^verbatim>\<open>runtime/default-webhook-lease-plan.ts\<close>,
    \<^verbatim>\<open>moderation/default-webhook-lease-manager.service.ts\<close>): the plan as a fold over the shards with
    its loads, the three scripts with calls in flight as \<open>lease_step\<close>, and the register of workers.
  \<^item> \<open>Commercial_Model\<close>, \<open>Commercial_Evidence\<close>, \<open>Commercial_Subtypes\<close>, \<open>Commercial_Policy\<close>,
    \<open>Commercial_Explain\<close> (\<^verbatim>\<open>moderation/commercial/\<close>): signals to evidence, classification, the action
    policy as stages that each may return, and the explanation with its rollout cohorts.
  \<^item> \<open>Commercial_Settings\<close> (\<^verbatim>\<open>packages/contracts/src/commercial-settings.ts\<close>): the thresholds
    and sanctions a chat's settings mean, and the slider that writes them (\<open>slider_round_trip\<close>).
  \<^item> \<open>Commercial_Second_Stage\<close> (\<^verbatim>\<open>moderation/commercial/commercial-scorer.ts\<close>, its cache, and the
    scoring end of \<^verbatim>\<open>detectCommercialAd\<close> in \<^verbatim>\<open>commercial-ad.detector.ts\<close>): the logistic correction of score, subtype and review, a
    function per stage; \<open>score_move_ok\<close> says what a score may become, \<open>cache_sound\<close> that the cache only holds what
    the stage decides, and \<open>detect_scored\<close> composes state, evidence, classification and second stage.
  \<^item> \<open>Action_Claim\<close> (\<^verbatim>\<open>moderation/moderation-message-action-claim.ts\<close>): the unique rows of the
    claim table, statements that may fail before or after they took effect, \<open>claim_step\<close>.
  \<^item> \<open>Byte_Admission\<close> (\<^verbatim>\<open>common/media-byte-admission.ts\<close>): permits, the waiting line, deadlines.
  \<^item> \<open>Worker_Shutdown\<close> (\<^verbatim>\<open>runtime/runtime-worker-shutdown.ts\<close>): the two deadlines and the order of
    the actions, as the set of the traces a run can leave.
  \<^item> \<open>JS_Values\<close>: trimming, case, JSON values and digits, shared by the theories below.
  \<^item> \<open>Local_Cache\<close> (\<^verbatim>\<open>chat-context/chat-context-local-cache.ts\<close>): the cache in process with its two
    bounds, eviction and sweep; it refines a map that may forget.
  \<^item> \<open>Response_Buffer\<close> (\<^verbatim>\<open>common/bounded-response-buffer.ts\<close>): reading a body into blocks under a
    limit, equal to a reading of the plain chunks.
  \<^item> \<open>Api_Budget\<close> (\<^verbatim>\<open>max/max-moderation-api-budget.ts\<close>): the token buckets of muting in a Lua script
    and the pauses of the service around it.
  \<^item> \<open>Flood_Gate\<close>, \<open>Auto_Reply_Quota\<close> (\<^verbatim>\<open>publisher/publisher-auto-reply-flood-gate.service.ts\<close>,
    \<^verbatim>\<open>publisher/publisher-auto-reply-backlog-quota.ts\<close>): the windows and the backlog of automatic
    replies, with their leases.
  \<^item> \<open>Bot_Access\<close> (\<^verbatim>\<open>max/max-bot-access-policy.util.ts\<close>): what a membership allows a bot, and the choice
    of the primary bot of a chat.
  \<^item> \<open>Upload_Store\<close> (\<^verbatim>\<open>system/chunked-mutation-tunnel-upload.store.ts\<close> and its two handlers): uploads in
    parts, their limits, and the commit that forwards them.
  \<^item> \<open>Rule_Sanction\<close> (\<^verbatim>\<open>moderation/moderation-rule-followup-sanction.ts\<close>, its journal and its caller):
    the phases of a ban after a deleted message, as a step relation of attempts that crash, lose their lease and race.
  \<^item> \<open>Duplicate_Window\<close> (\<^verbatim>\<open>moderation/message-duplicate/message-duplicate-window.script.ts\<close>): the Lua
    script that judges repeated messages, over a store whose keys expire; every operation of the script is an event.
  \<^item> \<open>Night_Calendar\<close>, \<open>Night_Transitions\<close> (\<^verbatim>\<open>moderation/night-mode-calendar.util.ts\<close>,
    \<^verbatim>\<open>moderation/night-mode-transition-time.util.ts\<close>): the nights of a schedule around an instant, their
    cache, and what is shown and announced of them.  \<open>in_night\<close> is the specification.
  \<^item> \<open>Vk_Timing\<close> (\<^verbatim>\<open>admin/vk-autopublish-timing.ts\<close>): slots for posts within hours, quotas and
    distances, and the bounded search for them.
  \<^item> \<open>Publication_Recurrence\<close> (\<^verbatim>\<open>admin/publication-recurrence.ts\<close>): the instants of a publication's
    schedule, against the set \<open>due_instants\<close>.

  Time zones.  The last four theories take what the code asks of luxon and \<^verbatim>\<open>Intl\<close> as a record of functions.
  Their theorems assume the documented laws they need by name (\<open>ordered_days\<close>, \<open>clock_ok\<close>, \<open>zone_laws\<close>, and
  \<open>fixed_offset\<close>, \<open>fixed_clock\<close> for zones whose clocks never change, \<open>regular_clock\<close> for zones with daylight saving time), and each
  theory ends with UTC, or a zone put forward an hour, as an instance.

  Termination and bounds.  Loops are structural recursions or \<open>function\<close>s with a measure (the
  heap's index, the length of the waiting line, the number of assignments above the capacity).  Three loops are
  \<open>partial_function\<close>s or carry their number of turns, and are proved to answer: the copying of a chunk
  (\<open>Response_Buffer\<close>), the days of a recurrence (\<open>Publication_Recurrence\<close>, under the law that days advance), and
  the search for a slot (\<open>Vk_Timing\<close>), whose attempts the code itself bounds: \<open>work_left\<close> is the measure that shows the
  bound to be enough, and the 11521 minutes looked ahead hold a whole day of one offset, so every minute of a day.  An attempt of
  \<open>Rule_Sanction\<close> has returned or thrown after 24 answered waits (\<open>waits_left\<close> is the measure), and one that is
  alone and favourably answered settles within 22.  Decimal printing uses \<open>digits_fuel\<close>, one step per
  digit, the fuel being one more than the number.

  Not modelled.  What the regular expressions find in a text (the extraction of features is an
  argument of the commercial engine); the SQL of Prisma and with it most of the services under
  \<^verbatim>\<open>admin\<close>, \<^verbatim>\<open>publisher\<close>, \<^verbatim>\<open>max\<close> and \<^verbatim>\<open>statistics\<close>, whose logic is the order of statements
  on a database; calls of remote services; the time zone data of luxon and \<^verbatim>\<open>Intl\<close>, an argument; native image and text recognition; the front ends; the
  one-off scripts.  Log lines and metrics are left out except where a counter feeds a decision.
\<close>

end
